(* ===== verification/TIMX_Prelude.thy ===== *)
theory TIMX_Prelude
  imports Main "HOL-Library.Word" "HOL-Library.Monad_Syntax"
begin

text \<open>
  Shared vocabulary of the development: the widths of the C++ integer types the gateway uses,
  the collection of rewrite rules of the buffer, facts about finite maps (the
  \<open>std::unordered_map\<close> and \<open>std::map\<close> members of the modelled classes), sums over their entries
  (the running totals the classes keep beside their maps), and the contract of a mutex protected
  object: every public method is one atomic step that keeps the class invariant.
\<close>

section \<open>Machine types\<close>

type_synonym byte = "8 word"
type_synonym u16 = "16 word"
type_synonym u32 = "32 word"
type_synonym u64 = "64 word"

section \<open>Rule collection\<close>

named_theorems buffer_simps "what the readable bytes are after an operation of the network buffer"

section \<open>Lists\<close>

lemma take_drop_update_before:
  "i < m \<Longrightarrow> take n (drop m (xs[i := x])) = take n (drop m xs)"
  by (simp add: drop_update_cancel)

lemma nth_drop_list_eq:
  "\<lbrakk>length xs = length ys; \<And>i. i < length xs \<Longrightarrow> xs ! i = ys ! i\<rbrakk> \<Longrightarrow> xs = ys"
  by (rule nth_equalityI)

lemma distinct_append_single [simp]:
  "distinct (xs @ [x]) \<longleftrightarrow> distinct xs \<and> x \<notin> set xs"
  by auto

text \<open>A sequence of steps each of which can fail: the first failure ends it.\<close>

primrec fold_opt :: "('a \<Rightarrow> 's \<Rightarrow> 's option) \<Rightarrow> 'a list \<Rightarrow> 's \<Rightarrow> 's option" where
  "fold_opt f [] s = Some s"
| "fold_opt f (x # xs) s = f x s \<bind> fold_opt f xs"

text \<open>The same with results: the results of the calls in order and the last state.\<close>

primrec run_out :: "('s \<Rightarrow> 'op \<Rightarrow> ('r \<times> 's) option) \<Rightarrow> 's \<Rightarrow> 'op list \<Rightarrow> ('r list \<times> 's) option" where
  "run_out step s [] = Some ([], s)"
| "run_out step s (op # ops) =
     (case step s op of None \<Rightarrow> None
      | Some (r, s') \<Rightarrow> map_option (\<lambda>(rs, t). (r # rs, t)) (run_out step s' ops))"

section \<open>Finite maps\<close>

lemma finite_dom_upd [simp, intro]: "finite (dom m) \<Longrightarrow> finite (dom (m(k := v)))"
  by (cases v) auto

lemma card_dom_insert:
  "finite (dom m) \<Longrightarrow> card (dom (m(k \<mapsto> v))) = (if k \<in> dom m then card (dom m) else Suc (card (dom m)))"
  by (auto simp: insert_absorb domI)

lemma card_dom_delete:
  "finite (dom m) \<Longrightarrow> card (dom (m(k := None))) = (if k \<in> dom m then card (dom m) - 1 else card (dom m))"
  by auto

text \<open>\<open>msum f m\<close> adds \<open>f k v\<close> over the entries of \<open>m\<close>. The counters the classes maintain
  incrementally are such sums; the two update rules below are what relates an increment or a
  decrement in the code to the change of the map.\<close>

definition msum :: "('k \<Rightarrow> 'v \<Rightarrow> nat) \<Rightarrow> ('k \<rightharpoonup> 'v) \<Rightarrow> nat" where
  "msum f m = (\<Sum>k\<in>dom m. f k (the (m k)))"

lemma msum_empty [simp]: "msum f Map.empty = 0"
  by (simp add: msum_def)

lemma msum_cong:
  "\<lbrakk>\<And>k v. m k = Some v \<Longrightarrow> f k v = g k v\<rbrakk> \<Longrightarrow> msum f m = msum g m"
  unfolding msum_def by (rule sum.cong) auto

lemma msum_split:
  assumes "finite (dom m)"
  shows "msum f m = (case m k of None \<Rightarrow> 0 | Some v \<Rightarrow> f k v) + msum f (m(k := None))"
proof -
  have rest: "(\<Sum>j\<in>dom m - {k}. f j (the (m j))) = msum f (m(k := None))"
    unfolding msum_def by (rule sum.cong) (auto split: if_splits)
  show ?thesis
  proof (cases "m k")
    case None
    then have "m(k := None) = m" by auto
    with None show ?thesis by simp
  next
    case (Some v)
    then have "k \<in> dom m" by auto
    with assms have "msum f m = f k (the (m k)) + (\<Sum>j\<in>dom m - {k}. f j (the (m j)))"
      unfolding msum_def by (rule sum.remove)
    with Some rest show ?thesis by simp
  qed
qed

lemma msum_insert:
  assumes "finite (dom m)"
  shows "msum f (m(k \<mapsto> v)) = f k v + msum f (m(k := None))"
  using msum_split [of "m(k \<mapsto> v)" f k] assms by simp

lemma msum_insert_new:
  "\<lbrakk>finite (dom m); m k = None\<rbrakk> \<Longrightarrow> msum f (m(k \<mapsto> v)) = f k v + msum f m"
  using msum_insert [of m f k v] msum_split [of m f k] by simp

lemma msum_update:
  "\<lbrakk>finite (dom m); m k = Some w\<rbrakk> \<Longrightarrow> msum f (m(k \<mapsto> v)) + f k w = f k v + msum f m"
  using msum_insert [of m f k v] msum_split [of m f k] by simp

lemma msum_delete:
  "\<lbrakk>finite (dom m); m k = Some w\<rbrakk> \<Longrightarrow> msum f (m(k := None)) + f k w = msum f m"
  using msum_split [of m f k] by simp

text \<open>The entry under \<open>k\<close> and its weight; with it one equation covers insertion, update and removal.\<close>

definition weight_at :: "('k \<Rightarrow> 'v \<Rightarrow> nat) \<Rightarrow> 'k \<Rightarrow> 'v option \<Rightarrow> nat" where
  "weight_at f k x = (case x of None \<Rightarrow> 0 | Some v \<Rightarrow> f k v)"

lemma weight_at_simps [simp]: "weight_at f k None = 0" "weight_at f k (Some v) = f k v"
  by (simp_all add: weight_at_def)

lemma msum_upd:
  "finite (dom m) \<Longrightarrow> msum f (m(k := x)) + weight_at f k (m k) = weight_at f k x + msum f m"
  using msum_split [of m f k] msum_split [of "m(k := x)" f k]
  by (auto simp: weight_at_def split: option.splits)

lemma msum_member_le:
  "\<lbrakk>finite (dom m); m k = Some w\<rbrakk> \<Longrightarrow> f k w \<le> msum f m"
  using msum_split [of m f k] by simp

lemma msum_mono:
  assumes "finite (dom m)" and "\<And>k v. m k = Some v \<Longrightarrow> f k v \<le> g k v"
  shows "msum f m \<le> msum g m"
  unfolding msum_def by (rule sum_mono) (use assms in auto)

lemma msum_zero_iff:
  "finite (dom m) \<Longrightarrow> msum f m = 0 \<longleftrightarrow> (\<forall>k v. m k = Some v \<longrightarrow> f k v = 0)"
  unfolding msum_def by (auto simp: dom_def)

section \<open>Words\<close>

lemma succ_word_nonzero_unat:
  fixes w :: "'a::len word"
  shows "w + 1 \<noteq> 0 \<Longrightarrow> unat (w + 1) = unat w + 1"
  using unatSuc [of w] by (simp add: add.commute)

lemma next_less: "(w::u64) \<noteq> - 1 \<Longrightarrow> w < w + 1"
proof -
  assume "w \<noteq> - 1"
  then have "w + 1 \<noteq> 0" by (metis add.inverse_unique add.commute)
  then have "unat (w + 1) = unat w + 1" by (rule succ_word_nonzero_unat)
  then show ?thesis by (simp add: word_less_nat_alt)
qed

section \<open>Objects behind a mutex\<close>

text \<open>The public methods of the modelled classes lock the object's mutex for their whole body, so
  an execution of any number of threads is a sequence of method calls. \<open>run_ops\<close> is such a
  sequence, \<open>ok_run\<close> says that every call in it meets the condition \<open>ok\<close> on its arguments.\<close>

primrec run_ops :: "('s \<Rightarrow> 'op \<Rightarrow> 's) \<Rightarrow> 's \<Rightarrow> 'op list \<Rightarrow> 's" where
  "run_ops step s [] = s"
| "run_ops step s (op # ops) = run_ops step (step s op) ops"

primrec ok_run :: "('s \<Rightarrow> 'op \<Rightarrow> bool) \<Rightarrow> ('s \<Rightarrow> 'op \<Rightarrow> 's) \<Rightarrow> 's \<Rightarrow> 'op list \<Rightarrow> bool" where
  "ok_run ok step s [] \<longleftrightarrow> True"
| "ok_run ok step s (op # ops) \<longleftrightarrow> ok s op \<and> ok_run ok step (step s op) ops"

lemma run_ops_append [simp]:
  "run_ops step s (xs @ ys) = run_ops step (run_ops step s xs) ys"
  by (induction xs arbitrary: s) simp_all

lemma ok_run_append [simp]:
  "ok_run ok step s (xs @ ys) \<longleftrightarrow> ok_run ok step s xs \<and> ok_run ok step (run_ops step s xs) ys"
  by (induction xs arbitrary: s) auto

lemma ok_run_True [simp]: "ok_run (\<lambda>_ _. True) step s ops"
  by (induction ops arbitrary: s) auto

text \<open>The contract: a class invariant that the constructor establishes and every method call that
  meets its condition keeps. The lemmas below hold for every class that meets the contract.\<close>

locale guarded_object =
  fixes step :: "'s \<Rightarrow> 'op \<Rightarrow> 's"
    and ok :: "'s \<Rightarrow> 'op \<Rightarrow> bool"
    and invar :: "'s \<Rightarrow> bool"
  assumes invar_step: "\<lbrakk>invar s; ok s op\<rbrakk> \<Longrightarrow> invar (step s op)"
begin

lemma run_invar: "\<lbrakk>invar s; ok_run ok step s ops\<rbrakk> \<Longrightarrow> invar (run_ops step s ops)"
  by (induction ops arbitrary: s) (auto intro: invar_step)

text \<open>A relation between two states that every step respects and that composes is kept by runs:
  used for "never goes down" and "does not touch" facts.\<close>

lemma run_relates:
  assumes refl: "\<And>s. R s s"
    and trans: "\<And>s t u. \<lbrakk>R s t; R t u\<rbrakk> \<Longrightarrow> R s u"
    and one: "\<And>s op. \<lbrakk>invar s; ok s op\<rbrakk> \<Longrightarrow> R s (step s op)"
  shows "\<lbrakk>invar s; ok_run ok step s ops\<rbrakk> \<Longrightarrow> R s (run_ops step s ops)"
proof (induction ops arbitrary: s)
  case Nil
  show ?case using refl by simp
next
  case (Cons op ops)
  then have "invar (step s op)" by (auto intro: invar_step)
  with Cons have "R (step s op) (run_ops step (step s op) ops)" by simp
  moreover have "R s (step s op)" using Cons.prems one by simp
  ultimately show ?case by (auto intro: trans)
qed

text \<open>A predicate that holds now and is kept by every step of the run that satisfies \<open>Q\<close> still holds
  after it.\<close>

lemma run_keeps:
  assumes keep: "\<And>s op. \<lbrakk>invar s; ok s op; Q op; P s\<rbrakk> \<Longrightarrow> P (step s op)"
  shows "\<lbrakk>invar s; ok_run ok step s ops; list_all Q ops; P s\<rbrakk> \<Longrightarrow> P (run_ops step s ops)"
  by (induction ops arbitrary: s) (auto intro: keep invar_step)

end

section \<open>Tables of exclusive claims\<close>

text \<open>\<open>count_run p\<close> counts the calls of a run for which \<open>p\<close> holds in the state they meet.\<close>

primrec count_run :: "('s \<Rightarrow> 'op \<Rightarrow> bool) \<Rightarrow> ('s \<Rightarrow> 'op \<Rightarrow> 's) \<Rightarrow> 's \<Rightarrow> 'op list \<Rightarrow> nat" where
  "count_run p step s [] = 0"
| "count_run p step s (op # ops) = (if p s op then 1 else 0) + count_run p step (step s op) ops"

lemma count_run_append:
  "count_run p step s (xs @ ys) = count_run p step s xs + count_run p step (run_ops step s xs) ys"
  by (induction xs arbitrary: s) simp_all

lemma count_run_le_filter:
  "(\<And>s op. p s op \<Longrightarrow> q op) \<Longrightarrow> count_run p step s ops \<le> length (filter q ops)"
  by (induction ops arbitrary: s) (auto simp: le_SucI)

text \<open>Several classes hand out exclusive rights on keys: the deduplicator the right to execute a delivery,
  the replay admission the right to start a replay. The contract says when a call acquires a key, when it may give
  it up, and that a held key can be neither acquired again nor lost without a release. What follows once for all of
  them: acquisitions and releases of one key alternate.\<close>

locale claim_table = guarded_object step ok invar
  for step :: "'s \<Rightarrow> 'op \<Rightarrow> 's" and ok :: "'s \<Rightarrow> 'op \<Rightarrow> bool" and invar :: "'s \<Rightarrow> bool" +
  fixes held :: "'k \<Rightarrow> 's \<Rightarrow> bool"
    and acquires :: "'k \<Rightarrow> 's \<Rightarrow> 'op \<Rightarrow> bool"
    and releases :: "'k \<Rightarrow> 's \<Rightarrow> 'op \<Rightarrow> bool"
  assumes acquire_free: "\<lbrakk>invar s; ok s op; acquires k s op\<rbrakk> \<Longrightarrow> \<not> held k s"
    and keep_held: "\<lbrakk>invar s; ok s op; held k s; \<not> releases k s op\<rbrakk> \<Longrightarrow> held k (step s op)"
    and acquire_held: "\<lbrakk>invar s; ok s op; acquires k s op\<rbrakk> \<Longrightarrow> held k (step s op)"
begin

lemma acquisitions_bound:
  "\<lbrakk>invar s; ok_run ok step s ops\<rbrakk> \<Longrightarrow>
     count_run (acquires k) step s ops + (if held k s then 1 else 0) \<le> count_run (releases k) step s ops + 1"
proof (induction ops arbitrary: s)
  case Nil
  then show ?case by simp
next
  case (Cons op ops)
  then have prem: "invar s" "ok s op" "ok_run ok step (step s op) ops" by simp_all
  then have IH: "count_run (acquires k) step (step s op) ops + (if held k (step s op) then 1 else 0)
      \<le> count_run (releases k) step (step s op) ops + 1"
    by (intro Cons.IH) (auto intro: invar_step)
  show ?case
    using IH acquire_free [OF prem(1,2), of k] acquire_held [OF prem(1,2), of k] keep_held [OF prem(1,2), of k]
    by (auto split: if_splits)
qed

text \<open>A held key stays held over any run that does not release it, and is not acquired there.\<close>

lemma held_run:
  assumes "invar s" and "ok_run ok step s ops" and "held k s" and "count_run (releases k) step s ops = 0"
  shows "held k (run_ops step s ops) \<and> count_run (acquires k) step s ops = 0"
  using assms
proof (induction ops arbitrary: s)
  case Nil
  then show ?case by simp
next
  case (Cons op ops)
  then have prem: "invar s" "ok s op" "held k s" "\<not> releases k s op" by (auto split: if_splits)
  then have "held k (step s op)" and "\<not> acquires k s op" and "invar (step s op)"
    using keep_held acquire_free invar_step by blast+
  with Cons show ?case by (auto split: if_splits)
qed

end

end
