(* ===== verification/Text_Numbers.thy ===== *)
theory Text_Numbers
  imports TIMX_Prelude
begin

text \<open>
  Decimal numbers as text, as \<open>std::to_string\<close> writes and \<open>std::stoull\<close> reads them: SQL statements, rows of results and keys of Redis
  carry user identifiers in this form.
\<close>

section \<open>Numbers as text\<close>

definition digit_char :: "nat \<Rightarrow> char" where
  "digit_char d = char_of (48 + d)"

text \<open>\<open>std::to_string\<close> of an unsigned number.\<close>

fun to_string :: "nat \<Rightarrow> string" where
  "to_string n = (if n < 10 then [digit_char n] else to_string (n div 10) @ [digit_char (n mod 10)])"

declare to_string.simps [simp del]

definition isdigit :: "char \<Rightarrow> bool" where
  "isdigit c \<longleftrightarrow> 48 \<le> (of_char c :: nat) \<and> (of_char c :: nat) \<le> 57"

definition isspace :: "char \<Rightarrow> bool" where
  "isspace c \<longleftrightarrow> (of_char c :: nat) = 32 \<or> 9 \<le> (of_char c :: nat) \<and> (of_char c :: nat) \<le> 13"

definition digits_value :: "string \<Rightarrow> nat" where
  "digits_value = foldl (\<lambda>v c. 10 * v + ((of_char c :: nat) - 48)) 0"

text \<open>\<open>std::stoull\<close> in base 10: leading white space, a sign, digits. \<open>None\<close> is the exception; the second component is the number of
  characters consumed. A minus sign negates modulo \<open>2 ^ 64\<close>.\<close>

definition stoull :: "string \<Rightarrow> (u64 \<times> nat) option" where
  "stoull s =
     (let spaces = takeWhile isspace s; rest = dropWhile isspace s;
          sign = (if rest \<noteq> [] \<and> (hd rest = CHR ''+'' \<or> hd rest = CHR ''-'') then [hd rest] else []);
          ds = takeWhile isdigit (drop (length sign) rest); v = digits_value ds
      in if ds = [] \<or> v \<ge> 2 ^ 64 then None
         else Some (if sign = [CHR ''-''] then - of_nat v else of_nat v, length spaces + length sign + length ds))"

section \<open>Numbers survive the trip through text\<close>

lemma of_digit_char: "d < 10 \<Longrightarrow> (of_char (digit_char d) :: nat) = 48 + d"
  by (simp add: digit_char_def)

lemma isdigit_digit_char: "d < 10 \<Longrightarrow> isdigit (digit_char d)"
  by (simp add: isdigit_def of_digit_char)

lemma to_string_digits: "c \<in> set (to_string n) \<Longrightarrow> isdigit c"
proof (induction n rule: to_string.induct)
  case (1 n)
  have "n mod 10 < 10" by simp
  with 1 show ?case by (subst (asm) to_string.simps) (auto simp: isdigit_digit_char split: if_splits)
qed

lemma to_string_nonempty: "to_string n \<noteq> []"
  by (subst to_string.simps) simp

lemma digits_value_append: "digits_value (xs @ [c]) = 10 * digits_value xs + ((of_char c :: nat) - 48)"
  by (simp add: digits_value_def)

lemma digits_value_to_string: "digits_value (to_string n) = n"
proof (induction n rule: to_string.induct)
  case (1 n)
  show ?case
  proof (cases "n < 10")
    case True
    then show ?thesis by (subst to_string.simps) (simp add: digits_value_def of_digit_char)
  next
    case False
    then have "to_string n = to_string (n div 10) @ [digit_char (n mod 10)]" by (subst to_string.simps) simp
    with False 1 show ?thesis by (simp add: digits_value_append of_digit_char)
  qed
qed

lemma digit_not_space: "isdigit c \<Longrightarrow> \<not> isspace c \<and> c \<noteq> CHR ''+'' \<and> c \<noteq> CHR ''-''"
  by (auto simp: isdigit_def isspace_def)

lemma to_string_first: "\<not> isspace (hd (to_string n)) \<and> hd (to_string n) \<noteq> CHR ''+'' \<and> hd (to_string n) \<noteq> CHR ''-''"
  by (rule digit_not_space) (simp add: to_string_digits [of _ n] to_string_nonempty)

lemma takeWhile_none: "xs \<noteq> [] \<Longrightarrow> \<not> P (hd xs) \<Longrightarrow> takeWhile P xs = [] \<and> dropWhile P xs = xs"
  by (cases xs) auto

lemma stoull_to_string: "stoull (to_string (unat w)) = Some (w, length (to_string (unat w)))"
proof -
  let ?t = "to_string (unat w)"
  note first = to_string_first [of "unat w"]
  have digits: "takeWhile isdigit ?t = ?t" using to_string_digits by (auto simp: takeWhile_eq_all_conv)
  have "unat w < 2 ^ 64" using unsigned_less [of w] by simp
  then show ?thesis
    using first takeWhile_none [of ?t isspace] to_string_nonempty [of "unat w"] 
    by (simp add: stoull_def Let_def digits_value_to_string digits)
qed

lemma to_string_inject: "to_string m = to_string n \<longleftrightarrow> m = n"
  by (metis digits_value_to_string)

end
