(* ===== verification/Online_Status.thy ===== *)
theory Online_Status
  imports Text_Numbers
begin

text \<open>
  The presence of users in Redis, \<open>services/cache/OnlineStatusCache.{h,cpp}\<close>, with the Lua scripts it sends: which gateway and which
  connection a user is logged in on, written with a time to live, refreshed and removed only by the owner.

  Redis is a map from keys to a value and the time at which it expires; a script runs without interruption. The JSON libraries are an
  argument: writing and reading a record in C++, and decoding a value in Lua; what the code relies on is \<open>json_laws\<close>. How a call to
  Redis ends is the record \<open>Link\<close>: no pool, no connection, a failure before or after the command took effect. Times are in
  milliseconds. The messages of errors are kept where the scalar and the batch form of a lookup are compared.
\<close>

section \<open>Data\<close>

record OnlineStatusRecord =
  rec_user_id :: u64
  rec_gateway_id :: string
  rec_connection_name :: string
  rec_login_time :: int

datatype GetOnlineStatusStatus = GetFound | GetNotFound | GetInvalidRecord | GetInvalidArgument | GetRedisError

record GetOnlineStatusResult =
  get_status :: GetOnlineStatusStatus
  get_record :: "OnlineStatusRecord option"
  get_error :: string

datatype SetOnlineStatus = SetStored | SetInvalidArgument | SetRedisError | SetAlreadyExists

datatype RefreshOnlineIfMatchStatus = Refreshed | RefreshNotFound | RefreshMismatch | RefreshInvalidRecord | RefreshInvalidArgument | RefreshRedisError

datatype SetOfflineIfMatchStatus = OfflineDeleted | OfflineNotFound | OfflineMismatch | OfflineInvalidRecord | OfflineInvalidArgument | OfflineRedisError

record OnlineStatusRefreshRequest =
  req_user_id :: u64
  req_gateway_id :: string
  req_connection_name :: string
  req_ttl_seconds :: int

definition get_result :: "GetOnlineStatusStatus \<Rightarrow> string \<Rightarrow> GetOnlineStatusResult" where
  "get_result st e = \<lparr>get_status = st, get_record = None, get_error = e\<rparr>"

definition Found :: "GetOnlineStatusResult \<Rightarrow> bool" where
  "Found r \<longleftrightarrow> get_status r = GetFound \<and> get_record r \<noteq> None"

definition NotFound :: "GetOnlineStatusResult \<Rightarrow> bool" where
  "NotFound r \<longleftrightarrow> get_status r = GetNotFound"

section \<open>Redis\<close>

datatype RedisValue = Text string | OtherType

type_synonym redis = "string \<rightharpoonup> RedisValue \<times> int option"

definition redis_get :: "int \<Rightarrow> string \<Rightarrow> redis \<Rightarrow> RedisValue option" where
  "redis_get now key r = (case r key of
       Some (v, Some t) \<Rightarrow> if now < t then Some v else None
     | Some (v, None) \<Rightarrow> Some v
     | None \<Rightarrow> None)"

definition redis_setex :: "int \<Rightarrow> string \<Rightarrow> int \<Rightarrow> string \<Rightarrow> redis \<Rightarrow> redis" where
  "redis_setex now key ttl v r = r(key \<mapsto> (Text v, Some (now + 1000 * ttl)))"

definition redis_expire :: "int \<Rightarrow> string \<Rightarrow> int \<Rightarrow> redis \<Rightarrow> int \<times> redis" where
  "redis_expire now key ttl r = (case redis_get now key r of None \<Rightarrow> (0, r) | Some v \<Rightarrow> (1, r(key \<mapsto> (v, Some (now + 1000 * ttl)))))"

record Cache =
  key_prefix :: string
  json_dump :: "OnlineStatusRecord \<Rightarrow> string"
  json_parse :: "string \<Rightarrow> string + OnlineStatusRecord"
  lua_decode :: "string \<Rightarrow> (string \<Rightarrow> string option) option"

record Link =
  redis_pool :: bool
  redis_connection :: bool
  fault :: "(bool \<times> string) option"  \<comment> \<open>whether the command took effect, and the error\<close>

text \<open>A command over a link: \<open>None\<close> is a missing reply.\<close>

definition redis_call :: "Link \<Rightarrow> 'a option \<times> redis \<Rightarrow> redis \<Rightarrow> 'a option \<times> redis" where
  "redis_call l done r = (case fault l of None \<Rightarrow> done | Some (effect, _) \<Rightarrow> (None, if effect then snd done else r))"

section \<open>Scripts\<close>

text \<open>A script that fails with an error has no result.\<close>

definition SetOnlineIfMissingScript :: "int \<Rightarrow> string \<Rightarrow> string \<Rightarrow> int \<Rightarrow> redis \<Rightarrow> int option \<times> redis" where
  "SetOnlineIfMissingScript now key v ttl r =
     (case redis_get now key r of None \<Rightarrow> (Some 1, redis_setex now key ttl v r) | Some _ \<Rightarrow> (Some 0, r))"

definition SetOfflineIfMatchScript :: "Cache \<Rightarrow> int \<Rightarrow> string \<Rightarrow> string \<Rightarrow> string \<Rightarrow> redis \<Rightarrow> int option \<times> redis" where
  "SetOfflineIfMatchScript C now key gateway connection r =
     (case redis_get now key r of
        Some OtherType \<Rightarrow> (None, r)
      | None \<Rightarrow> (Some 0, r)
      | Some (Text v) \<Rightarrow>
          (case lua_decode C v of
             None \<Rightarrow> (Some 3, r)
           | Some field \<Rightarrow>
               if field ''gateway_id'' \<noteq> Some gateway \<or> field ''connection_name'' \<noteq> Some connection then (Some 2, r)
               else (Some 1, r(key := None))))"

definition RefreshOnlineIfMatchScript :: "Cache \<Rightarrow> int \<Rightarrow> string \<Rightarrow> string \<Rightarrow> string \<Rightarrow> int \<Rightarrow> redis \<Rightarrow> int option \<times> redis" where
  "RefreshOnlineIfMatchScript C now key gateway connection ttl r =
     (case redis_get now key r of
        Some OtherType \<Rightarrow> (None, r)
      | None \<Rightarrow> (Some 0, r)
      | Some (Text v) \<Rightarrow>
          (case lua_decode C v of
             None \<Rightarrow> (Some 3, r)
           | Some field \<Rightarrow>
               if field ''gateway_id'' \<noteq> Some gateway \<or> field ''connection_name'' \<noteq> Some connection then (Some 2, r)
               else if ttl \<le> 0 then (Some 4, r)
               else let (expire_result, r') = redis_expire now key ttl r in if expire_result \<noteq> 1 then (Some 5, r') else (Some 1, r')))"

text \<open>The batch script calls the body of the script before for every key, in order; an error of one key is a result of its own.\<close>

fun RefreshOnlineBatchScript :: "Cache \<Rightarrow> int \<Rightarrow> (string \<times> string \<times> string \<times> int) list \<Rightarrow> redis \<Rightarrow> string list \<times> redis" where
  "RefreshOnlineBatchScript C now [] r = ([], r)"
| "RefreshOnlineBatchScript C now ((key, gateway, connection, ttl) # items) r =
     (let (code, r') = RefreshOnlineIfMatchScript C now key gateway connection ttl r;
          (codes, r'') = RefreshOnlineBatchScript C now items r'
      in ((case code of Some n \<Rightarrow> to_string (nat n) | None \<Rightarrow> ''redis_error'') # codes, r''))"

definition GetBatchScript :: "int \<Rightarrow> string list \<Rightarrow> redis \<Rightarrow> string list" where
  "GetBatchScript now keys r = concat (map (\<lambda>key. case redis_get now key r of
       Some OtherType \<Rightarrow> [''error'', ''''] | None \<Rightarrow> [''missing'', ''''] | Some (Text v) \<Rightarrow> [''value'', v]) keys)"

section \<open>Operations\<close>

definition BuildKey :: "Cache \<Rightarrow> u64 \<Rightarrow> string" where
  "BuildKey C user_id = key_prefix C @ to_string (unat user_id)"

definition Serialize :: "Cache \<Rightarrow> OnlineStatusRecord \<Rightarrow> string" where
  "Serialize C record = json_dump C record"

definition Deserialize :: "Cache \<Rightarrow> u64 \<Rightarrow> string \<Rightarrow> GetOnlineStatusResult" where
  "Deserialize C expected_user_id v =
     (case json_parse C v of
        Inl what \<Rightarrow> get_result GetInvalidRecord (''online status deserialize failed: '' @ what)
      | Inr record \<Rightarrow>
          if rec_user_id record \<noteq> expected_user_id
          then get_result GetInvalidRecord (''online status record user_id mismatch, expected='' @ to_string (unat expected_user_id) @
                 '', actual='' @ to_string (unat (rec_user_id record)))
          else if rec_gateway_id record = [] then get_result GetInvalidRecord ''online status record gateway_id is empty''
          else if rec_connection_name record = [] then get_result GetInvalidRecord ''online status record connection_name is empty''
          else if rec_login_time record \<le> 0 then get_result GetInvalidRecord ''online status record login_time is invalid''
          else \<lparr>get_status = GetFound, get_record = Some record, get_error = ''''\<rparr>)"

definition SetOnline :: "Cache \<Rightarrow> Link \<Rightarrow> int \<Rightarrow> int \<Rightarrow> u64 \<Rightarrow> string \<Rightarrow> string \<Rightarrow> int \<Rightarrow> redis \<Rightarrow> SetOnlineStatus \<times> redis" where
  "SetOnline C l now unix user_id gateway connection ttl r =
     (if user_id = 0 \<or> gateway = [] \<or> connection = [] \<or> ttl \<le> 0 then (SetInvalidArgument, r)
      else if \<not> redis_pool l \<or> \<not> redis_connection l then (SetRedisError, r)
      else let record = \<lparr>rec_user_id = user_id, rec_gateway_id = gateway, rec_connection_name = connection, rec_login_time = unix\<rparr>;
               (stored, r') = redis_call l (Some (), redis_setex now (BuildKey C user_id) ttl (Serialize C record) r) r
           in (if stored = None then SetRedisError else SetStored, r'))"

definition SetOnlineIfMissing :: "Cache \<Rightarrow> Link \<Rightarrow> int \<Rightarrow> int \<Rightarrow> u64 \<Rightarrow> string \<Rightarrow> string \<Rightarrow> int \<Rightarrow> redis \<Rightarrow> SetOnlineStatus \<times> redis" where
  "SetOnlineIfMissing C l now unix user_id gateway connection ttl r =
     (if user_id = 0 \<or> gateway = [] \<or> connection = [] \<or> ttl \<le> 0 then (SetInvalidArgument, r)
      else if \<not> redis_pool l \<or> \<not> redis_connection l then (SetRedisError, r)
      else let record = \<lparr>rec_user_id = user_id, rec_gateway_id = gateway, rec_connection_name = connection, rec_login_time = unix\<rparr>;
               (stored, r') = redis_call l (SetOnlineIfMissingScript now (BuildKey C user_id) (Serialize C record) ttl r) r
           in (if stored = Some 1 then SetStored else if stored = Some 0 then SetAlreadyExists else SetRedisError, r'))"

definition SetOfflineIfMatch :: "Cache \<Rightarrow> Link \<Rightarrow> int \<Rightarrow> u64 \<Rightarrow> string \<Rightarrow> string \<Rightarrow> redis \<Rightarrow> SetOfflineIfMatchStatus \<times> redis" where
  "SetOfflineIfMatch C l now user_id gateway connection r =
     (if user_id = 0 \<or> gateway = [] \<or> connection = [] then (OfflineInvalidArgument, r)
      else if \<not> redis_pool l \<or> \<not> redis_connection l then (OfflineRedisError, r)
      else let (code, r') = redis_call l (SetOfflineIfMatchScript C now (BuildKey C user_id) gateway connection r) r
           in (if code = Some 0 then OfflineNotFound else if code = Some 1 then OfflineDeleted else if code = Some 2 then OfflineMismatch
               else if code = Some 3 then OfflineInvalidRecord else OfflineRedisError, r'))"

definition RefreshOnlineIfMatch :: "Cache \<Rightarrow> Link \<Rightarrow> int \<Rightarrow> u64 \<Rightarrow> string \<Rightarrow> string \<Rightarrow> int \<Rightarrow> redis \<Rightarrow> RefreshOnlineIfMatchStatus \<times> redis" where
  "RefreshOnlineIfMatch C l now user_id gateway connection ttl r =
     (if user_id = 0 \<or> gateway = [] \<or> connection = [] \<or> ttl \<le> 0 then (RefreshInvalidArgument, r)
      else if \<not> redis_pool l \<or> \<not> redis_connection l then (RefreshRedisError, r)
      else let (code, r') = redis_call l (RefreshOnlineIfMatchScript C now (BuildKey C user_id) gateway connection ttl r) r
           in (if code = Some 0 then RefreshNotFound else if code = Some 1 then Refreshed else if code = Some 2 then RefreshMismatch
               else if code = Some 3 then RefreshInvalidRecord else if code = Some 4 then RefreshInvalidArgument else RefreshRedisError, r'))"

definition request_valid :: "OnlineStatusRefreshRequest \<Rightarrow> bool" where
  "request_valid q \<longleftrightarrow> req_user_id q \<noteq> 0 \<and> req_gateway_id q \<noteq> [] \<and> req_connection_name q \<noteq> [] \<and> req_ttl_seconds q > 0"

definition refresh_status :: "string \<Rightarrow> RefreshOnlineIfMatchStatus" where
  "refresh_status code =
     (if code = ''0'' then RefreshNotFound else if code = ''1'' then Refreshed else if code = ''2'' then RefreshMismatch
      else if code = ''3'' then RefreshInvalidRecord else if code = ''4'' then RefreshInvalidArgument else RefreshRedisError)"

text \<open>\<open>scatter valid xs rs\<close> writes the results \<open>rs\<close> of the valid items back to their positions; the others keep what the first
  pass gave them.\<close>

fun scatter :: "('a \<Rightarrow> bool) \<Rightarrow> ('a \<Rightarrow> 'b) \<Rightarrow> 'a list \<Rightarrow> 'b list \<Rightarrow> 'b list" where
  "scatter valid bad [] rs = []"
| "scatter valid bad (x # xs) rs = (if valid x then hd rs # scatter valid bad xs (tl rs) else bad x # scatter valid bad xs rs)"

definition RefreshOnlineIfMatchBatch :: "Cache \<Rightarrow> Link \<Rightarrow> int \<Rightarrow> OnlineStatusRefreshRequest list \<Rightarrow> redis \<Rightarrow> RefreshOnlineIfMatchStatus list \<times> redis" where
  "RefreshOnlineIfMatchBatch C l now requests r =
     (if requests = [] then ([], r)
      else if length requests > 16 then (map (\<lambda>_. RefreshInvalidArgument) requests, r)
      else let good = filter request_valid requests;
               fail_valid = map (\<lambda>q. if request_valid q then RefreshRedisError else RefreshInvalidArgument) requests
           in if good = [] then (map (\<lambda>_. RefreshInvalidArgument) requests, r)
              else if \<not> redis_pool l \<or> \<not> redis_connection l then (fail_valid, r)
              else let items = map (\<lambda>q. (BuildKey C (req_user_id q), req_gateway_id q, req_connection_name q, req_ttl_seconds q)) good;
                       (response, r') = redis_call l (apfst Some (RefreshOnlineBatchScript C now items r)) r
                   in (case response of
                         None \<Rightarrow> (fail_valid, r')
                       | Some codes \<Rightarrow>
                           if length codes \<noteq> length good then (fail_valid, r')
                           else (scatter request_valid (\<lambda>_. RefreshInvalidArgument) requests (map refresh_status codes), r')))"

definition GetOnlineStatus :: "Cache \<Rightarrow> Link \<Rightarrow> int \<Rightarrow> redis \<Rightarrow> u64 \<Rightarrow> GetOnlineStatusResult" where
  "GetOnlineStatus C l now r user_id =
     (if user_id = 0 then get_result GetInvalidArgument ''online status get failed: invalid user_id''
      else if \<not> redis_pool l then get_result GetRedisError ''online status get failed: redis pool is null''
      else if \<not> redis_connection l then get_result GetRedisError ''online status get failed: acquire redis connection failed''
      else case fault l of
        Some (_, e) \<Rightarrow> if e \<noteq> [] then get_result GetRedisError e else get_result GetNotFound ''''
      | None \<Rightarrow> (case redis_get now (BuildKey C user_id) r of
            None \<Rightarrow> get_result GetNotFound ''''
          | Some OtherType \<Rightarrow> get_result GetRedisError ''redis get failed: invalid reply type''
          | Some (Text v) \<Rightarrow> Deserialize C user_id v))"

text \<open>The reply of the batch script, two entries per key.\<close>

fun read_replies :: "Cache \<Rightarrow> u64 list \<Rightarrow> string list \<Rightarrow> GetOnlineStatusResult list" where
  "read_replies C (u # us) (tag # v # values) =
     (if tag = ''missing'' then get_result GetNotFound ''''
      else if tag = ''error'' then get_result GetRedisError ''redis get failed: invalid reply type''
      else Deserialize C u v) # read_replies C us values"
| "read_replies C _ _ = []"

fun tags_valid :: "string list \<Rightarrow> bool" where
  "tags_valid (tag # v # values) \<longleftrightarrow> tag \<in> {''value'', ''missing'', ''error''} \<and> tags_valid values"
| "tags_valid _ \<longleftrightarrow> True"

definition GetOnlineStatusBatch :: "Cache \<Rightarrow> Link \<Rightarrow> int \<Rightarrow> redis \<Rightarrow> u64 list \<Rightarrow> GetOnlineStatusResult list" where
  "GetOnlineStatusBatch C l now r user_ids =
     (if length user_ids > 256 then map (\<lambda>_. get_result GetInvalidArgument ''online status batch failed: batch exceeds 256 users'') user_ids
      else let good = filter (\<lambda>u. u \<noteq> 0) user_ids;
               bad = (\<lambda>_. get_result GetInvalidArgument ''online status get failed: invalid user_id'');
               fail_valid = (\<lambda>e. map (\<lambda>u. if u = 0 then bad u else get_result GetRedisError e) user_ids)
           in if good = [] then map bad user_ids
              else if \<not> redis_pool l then fail_valid ''online status get failed: redis pool is null''
              else if \<not> redis_connection l then fail_valid ''online status get failed: acquire redis connection failed''
              else case fault l of
                Some (_, e) \<Rightarrow> fail_valid e
              | None \<Rightarrow>
                  let values = GetBatchScript now (map (BuildKey C) good) r
                  in if length values \<noteq> length good * 2 then fail_valid ''online status batch failed: unexpected result cardinality''
                     else if \<not> tags_valid values then fail_valid ''online status batch failed: invalid result tag''
                     else scatter (\<lambda>u. u \<noteq> 0) bad user_ids (read_replies C good values))"

section \<open>Batches\<close>

lemma scatter_map: "scatter valid bad xs (map f (filter valid xs)) = map (\<lambda>x. if valid x then f x else bad x) xs"
  by (induction xs) auto

definition reply_of :: "Cache \<Rightarrow> int \<Rightarrow> redis \<Rightarrow> u64 \<Rightarrow> GetOnlineStatusResult" where
  "reply_of C now r u = (case redis_get now (BuildKey C u) r of
       None \<Rightarrow> get_result GetNotFound ''''
     | Some OtherType \<Rightarrow> get_result GetRedisError ''redis get failed: invalid reply type''
     | Some (Text v) \<Rightarrow> Deserialize C u v)"

lemma GetBatchScript_replies:
  "length (GetBatchScript now (map (BuildKey C) us) r) = length us * 2
   \<and> tags_valid (GetBatchScript now (map (BuildKey C) us) r)
   \<and> read_replies C us (GetBatchScript now (map (BuildKey C) us) r) = map (reply_of C now r) us"
  by (induction us) (auto simp: GetBatchScript_def reply_of_def split: option.splits RedisValue.splits)

text \<open>Looking up a batch of users gives what looking up each of them gives, in order and including the error messages, for any content
  of Redis and any way the connection can fail.\<close>

lemma get_batch_map:
  assumes "length user_ids \<le> 256" and "\<forall>effect e. fault l = Some (effect, e) \<longrightarrow> e \<noteq> []"
  shows "GetOnlineStatusBatch C l now r user_ids = map (GetOnlineStatus C l now r) user_ids"
proof -
  let ?good = "filter (\<lambda>u. u \<noteq> 0) user_ids"
  have scalar: "GetOnlineStatus C l now r u = (if u = 0 then get_result GetInvalidArgument ''online status get failed: invalid user_id'' else reply_of C now r u)"
    if "redis_pool l" "redis_connection l" "fault l = None" for u
    using that by (simp add: GetOnlineStatus_def reply_of_def)
  show ?thesis
  proof (cases "?good = [] \<or> \<not> redis_pool l \<or> \<not> redis_connection l \<or> fault l \<noteq> None")
    case True
    with assms show ?thesis
      by (auto simp: GetOnlineStatusBatch_def GetOnlineStatus_def Let_def filter_empty_conv)
  next
    case False
    then have there: "redis_pool l" "redis_connection l" "fault l = None" "?good \<noteq> []" by blast+
    with assms(1) GetBatchScript_replies [of now C ?good r]
      scatter_map [of "\<lambda>u. u \<noteq> 0" "\<lambda>_. get_result GetInvalidArgument ''online status get failed: invalid user_id''" user_ids "reply_of C now r"]
    show ?thesis by (auto simp: GetOnlineStatusBatch_def scalar [OF there(1,2,3)] Let_def)
  qed
qed

fun refresh_each :: "Cache \<Rightarrow> Link \<Rightarrow> int \<Rightarrow> OnlineStatusRefreshRequest list \<Rightarrow> redis \<Rightarrow> RefreshOnlineIfMatchStatus list \<times> redis" where
  "refresh_each C l now [] r = ([], r)"
| "refresh_each C l now (q # qs) r =
     (let (st, r') = RefreshOnlineIfMatch C l now (req_user_id q) (req_gateway_id q) (req_connection_name q) (req_ttl_seconds q) r;
          (sts, r'') = refresh_each C l now qs r'
      in (st # sts, r''))"

lemma refresh_code: "fst (RefreshOnlineIfMatchScript C now key g c ttl r) \<in> {None, Some 0, Some 1, Some 2, Some 3, Some 4, Some 5}"
  by (auto simp: RefreshOnlineIfMatchScript_def Let_def split: option.splits RedisValue.splits prod.splits)

definition script_status :: "int option \<Rightarrow> RefreshOnlineIfMatchStatus" where
  "script_status code = (if code = Some 0 then RefreshNotFound else if code = Some 1 then Refreshed else if code = Some 2 then RefreshMismatch
     else if code = Some 3 then RefreshInvalidRecord else if code = Some 4 then RefreshInvalidArgument else RefreshRedisError)"

lemma to_string_codes: "to_string 0 = ''0''" "to_string 1 = ''1''" "to_string 2 = ''2''" "to_string 3 = ''3''" "to_string 4 = ''4''" "to_string 5 = ''5''"
  by (subst to_string.simps, simp add: digit_char_def, code_simp)+

lemma refresh_status_code:
  "code \<in> {None, Some 0, Some 1, Some 2, Some 3, Some 4, Some 5} \<Longrightarrow>
     refresh_status (case code of Some n \<Rightarrow> to_string (nat n) | None \<Rightarrow> ''redis_error'') = script_status code"
  by (auto simp: refresh_status_def script_status_def to_string_codes to_string_codes(2) [unfolded One_nat_def])

definition refresh_item :: "Cache \<Rightarrow> OnlineStatusRefreshRequest \<Rightarrow> string \<times> string \<times> string \<times> int" where
  "refresh_item C q = (BuildKey C (req_user_id q), req_gateway_id q, req_connection_name q, req_ttl_seconds q)"

lemma batch_script_each:
  assumes "redis_pool l" and "redis_connection l" and "fault l = None"
  shows "refresh_each C l now qs r =
    (scatter request_valid (\<lambda>_. RefreshInvalidArgument) qs (map refresh_status (fst (RefreshOnlineBatchScript C now (map (refresh_item C) (filter request_valid qs)) r))),
     snd (RefreshOnlineBatchScript C now (map (refresh_item C) (filter request_valid qs)) r))"
proof (induction qs arbitrary: r)
  case (Cons q qs)
  show ?case
  proof (cases "request_valid q")
    case False
    then have "RefreshOnlineIfMatch C l now (req_user_id q) (req_gateway_id q) (req_connection_name q) (req_ttl_seconds q) r = (RefreshInvalidArgument, r)"
      by (auto simp: RefreshOnlineIfMatch_def request_valid_def)
    with False Cons show ?thesis by simp
  next
    case True
    obtain code r' where script: "RefreshOnlineIfMatchScript C now (BuildKey C (req_user_id q)) (req_gateway_id q) (req_connection_name q) (req_ttl_seconds q) r = (code, r')"
      by fastforce
    then have "RefreshOnlineIfMatch C l now (req_user_id q) (req_gateway_id q) (req_connection_name q) (req_ttl_seconds q) r = (script_status code, r')"
      using True assms by (auto simp: RefreshOnlineIfMatch_def request_valid_def redis_call_def script_status_def)
    moreover have "code \<in> {None, Some 0, Some 1, Some 2, Some 3, Some 4, Some 5}" using refresh_code script by (metis fst_conv)
    note refresh_status_code [OF this]
    ultimately show ?thesis using True script Cons [of r'] by (auto simp: refresh_item_def split: prod.splits)
  qed
qed simp

lemma batch_script_length: "length (fst (RefreshOnlineBatchScript C now items r)) = length items"
  by (induction C now items r rule: RefreshOnlineBatchScript.induct) (auto split: prod.splits)

definition all_failed :: "OnlineStatusRefreshRequest list \<Rightarrow> RefreshOnlineIfMatchStatus list" where
  "all_failed qs = map (\<lambda>q. if request_valid q then RefreshRedisError else RefreshInvalidArgument) qs"

lemma each_without_effect:
  "\<not> redis_pool l \<or> \<not> redis_connection l \<or> fault l = Some (False, e) \<or> filter request_valid qs = [] \<Longrightarrow>
     refresh_each C l now qs r = (all_failed qs, r)"
  by (induction qs) (auto simp: RefreshOnlineIfMatch_def request_valid_def redis_call_def all_failed_def Let_def split: if_splits prod.splits)

lemma each_without_reply:
  assumes "redis_pool l" and "redis_connection l" and "fault l = Some (True, e)"
  shows "refresh_each C l now qs r = (all_failed qs, snd (refresh_each C (l\<lparr>fault := None\<rparr>) now qs r))"
proof (induction qs arbitrary: r)
  case (Cons q qs)
  let ?one = "\<lambda>l. RefreshOnlineIfMatch C l now (req_user_id q) (req_gateway_id q) (req_connection_name q) (req_ttl_seconds q) r"
  have "?one l = (if request_valid q then RefreshRedisError else RefreshInvalidArgument, snd (?one (l\<lparr>fault := None\<rparr>)))"
    using assms by (auto simp: RefreshOnlineIfMatch_def request_valid_def redis_call_def split: prod.splits)
  with Cons show ?case by (auto simp: all_failed_def split: prod.splits)
qed (simp add: all_failed_def)

text \<open>Refreshing a batch of sessions gives what refreshing them one after the other gives, for the statuses and for Redis, for any requests,
  valid or not, repeated or not, and any way the connection can fail.\<close>

lemma refresh_batch_each:
  assumes "length requests \<le> 16"
  shows "RefreshOnlineIfMatchBatch C l now requests r = refresh_each C l now requests r"
proof (cases "\<not> redis_pool l \<or> \<not> redis_connection l \<or> (\<exists>e. fault l = Some (False, e)) \<or> filter request_valid requests = []")
  case True
  then have "refresh_each C l now requests r = (all_failed requests, r)" using each_without_effect by blast
  with True assms show ?thesis
    by (auto simp: RefreshOnlineIfMatchBatch_def redis_call_def all_failed_def Let_def filter_empty_conv split: prod.splits)
next
  case False
  let ?l = "l\<lparr>fault := None\<rparr>" and ?items = "map (refresh_item C) (filter request_valid requests)"
  have there: "redis_pool l" "redis_connection l" "filter request_valid requests \<noteq> []" "requests \<noteq> []" using False by auto
  note each = batch_script_each [of ?l C now requests r] batch_script_length [of C now ?items r]
  show ?thesis
  proof (cases "fault l")
    case None
    then have "?l = l" by simp
    with each there None assms show ?thesis
      by (auto simp: RefreshOnlineIfMatchBatch_def redis_call_def refresh_item_def [abs_def] Let_def apfst_def map_prod_def split: prod.splits)
  next
    case (Some f)
    then obtain e where e: "fault l = Some (True, e)" using False by (cases f) (metis (full_types))
    with each there each_without_reply [OF there(1,2) e, of C now requests r] assms show ?thesis
      by (auto simp: RefreshOnlineIfMatchBatch_def redis_call_def refresh_item_def [abs_def] all_failed_def Let_def apfst_def map_prod_def split: prod.splits)
  qed
qed

section \<open>The presence table\<close>

text \<open>What the cache promises: a table with the owner of each user and the time until which this holds. A conditional operation changes
  an entry only if it names the owner.\<close>

type_synonym presence = "u64 \<rightharpoonup> OnlineStatusRecord \<times> int"

definition present :: "int \<Rightarrow> presence \<Rightarrow> u64 \<Rightarrow> OnlineStatusRecord option" where
  "present now p u = (case p u of Some (record, t) \<Rightarrow> if now < t then Some record else None | None \<Rightarrow> None)"

definition owned_by :: "string \<Rightarrow> string \<Rightarrow> OnlineStatusRecord \<Rightarrow> bool" where
  "owned_by g c record \<longleftrightarrow> rec_gateway_id record = g \<and> rec_connection_name record = c"

definition table_login :: "bool \<Rightarrow> int \<Rightarrow> OnlineStatusRecord \<Rightarrow> int \<Rightarrow> presence \<Rightarrow> SetOnlineStatus \<times> presence" where
  "table_login only_missing now record ttl p =
     (if only_missing \<and> present now p (rec_user_id record) \<noteq> None then (SetAlreadyExists, p)
      else (SetStored, p(rec_user_id record \<mapsto> (record, now + 1000 * ttl))))"

definition table_offline :: "int \<Rightarrow> u64 \<Rightarrow> string \<Rightarrow> string \<Rightarrow> presence \<Rightarrow> SetOfflineIfMatchStatus \<times> presence" where
  "table_offline now u g c p =
     (case present now p u of
        None \<Rightarrow> (OfflineNotFound, p)
      | Some record \<Rightarrow> if owned_by g c record then (OfflineDeleted, p(u := None)) else (OfflineMismatch, p))"

definition table_refresh :: "int \<Rightarrow> u64 \<Rightarrow> string \<Rightarrow> string \<Rightarrow> int \<Rightarrow> presence \<Rightarrow> RefreshOnlineIfMatchStatus \<times> presence" where
  "table_refresh now u g c ttl p =
     (case present now p u of
        None \<Rightarrow> (RefreshNotFound, p)
      | Some record \<Rightarrow> if owned_by g c record then (Refreshed, p(u \<mapsto> (record, now + 1000 * ttl))) else (RefreshMismatch, p))"

text \<open>A call on the table over a link that can fail.\<close>

definition over :: "Link \<Rightarrow> bool \<Rightarrow> 'a \<Rightarrow> 'a \<Rightarrow> 'a \<times> presence \<Rightarrow> presence \<Rightarrow> 'a \<times> presence" where
  "over l valid invalid failed done p =
     (if \<not> valid then (invalid, p)
      else if \<not> redis_pool l \<or> \<not> redis_connection l then (failed, p)
      else case fault l of None \<Rightarrow> done | Some (effect, _) \<Rightarrow> (failed, if effect then snd done else p))"

section \<open>Refinement\<close>

definition ascii :: "string \<Rightarrow> bool" where
  "ascii s \<longleftrightarrow> (\<forall>c\<in>set s. (of_char c :: nat) < 128)"

text \<open>What the code relies on of the two JSON libraries, for texts that are plain ASCII: the record written is read back, and a script
  sees its two names.\<close>

definition json_laws :: "Cache \<Rightarrow> bool" where
  "json_laws C \<longleftrightarrow> (\<forall>record. ascii (rec_gateway_id record) \<and> ascii (rec_connection_name record) \<longrightarrow>
     json_parse C (json_dump C record) = Inr record
     \<and> (\<exists>field. lua_decode C (json_dump C record) = Some field \<and> field ''gateway_id'' = Some (rec_gateway_id record)
          \<and> field ''connection_name'' = Some (rec_connection_name record)))"

definition record_ok :: "u64 \<Rightarrow> OnlineStatusRecord \<Rightarrow> bool" where
  "record_ok u record \<longleftrightarrow> rec_user_id record = u \<and> rec_gateway_id record \<noteq> [] \<and> rec_connection_name record \<noteq> [] \<and> rec_login_time record > 0
     \<and> ascii (rec_gateway_id record) \<and> ascii (rec_connection_name record)"

text \<open>\<open>holds C r p\<close>: the keys of the cache hold exactly the table \<open>p\<close>.\<close>

definition holds :: "Cache \<Rightarrow> redis \<Rightarrow> presence \<Rightarrow> bool" where
  "holds C r p \<longleftrightarrow> (\<forall>u. r (BuildKey C u) = (case p u of None \<Rightarrow> None | Some (record, t) \<Rightarrow> Some (Text (json_dump C record), Some t)))
     \<and> (\<forall>u record t. p u = Some (record, t) \<longrightarrow> record_ok u record)"

lemma BuildKey_inject [simp]: "BuildKey C u = BuildKey C v \<longleftrightarrow> u = v"
  by (simp add: BuildKey_def to_string_inject word_unat_eq_iff)

lemma holds_empty: "holds C Map.empty Map.empty"
  by (simp add: holds_def)

lemma holds_set: "\<lbrakk>holds C r p; record_ok u record\<rbrakk> \<Longrightarrow> holds C (r(BuildKey C u \<mapsto> (Text (json_dump C record), Some t))) (p(u \<mapsto> (record, t)))"
  by (auto simp: holds_def)

lemma holds_delete: "holds C r p \<Longrightarrow> holds C (r(BuildKey C u := None)) (p(u := None))"
  by (auto simp: holds_def)

lemma holds_get: "holds C r p \<Longrightarrow> redis_get now (BuildKey C u) r = map_option (\<lambda>record. Text (json_dump C record)) (present now p u)"
  by (auto simp: holds_def redis_get_def present_def split: option.splits)

lemma present_ok: "\<lbrakk>holds C r p; present now p u = Some record\<rbrakk> \<Longrightarrow> record_ok u record"
  by (auto simp: holds_def present_def split: option.splits if_splits)

lemma decode_owner:
  assumes "json_laws C" and "record_ok u record"
  obtains field where "lua_decode C (json_dump C record) = Some field"
    "(field ''gateway_id'' \<noteq> Some g \<or> field ''connection_name'' \<noteq> Some c) = (\<not> owned_by g c record)"
  using assms by (fastforce simp: json_laws_def record_ok_def owned_by_def)

lemma Deserialize_ok: "\<lbrakk>json_laws C; record_ok u record\<rbrakk> \<Longrightarrow>
    Deserialize C u (json_dump C record) = \<lparr>get_status = GetFound, get_record = Some record, get_error = ''''\<rparr>"
  by (auto simp: json_laws_def record_ok_def Deserialize_def)

subsection \<open>Each operation\<close>

lemma redis_call_simps:
  "fault l = None \<Longrightarrow> redis_call l d r = d" "fault l = Some (effect, e) \<Longrightarrow> redis_call l d r = (None, if effect then snd d else r)"
  by (simp_all add: redis_call_def)

datatype CacheCall = CallSetOnline u64 string string int int | CallSetOnlineIfMissing u64 string string int int
  | CallSetOffline u64 string string | CallRefresh u64 string string int | CallRefreshBatch "OnlineStatusRefreshRequest list"
  | CallGet u64 | CallGetBatch "u64 list"

datatype CacheResult = ResSet SetOnlineStatus | ResOffline SetOfflineIfMatchStatus | ResRefresh RefreshOnlineIfMatchStatus
  | ResRefreshBatch "RefreshOnlineIfMatchStatus list" | ResGet GetOnlineStatusResult | ResGetBatch "GetOnlineStatusResult list"

fun cache_step :: "Cache \<Rightarrow> int \<times> Link \<times> CacheCall \<Rightarrow> redis \<Rightarrow> CacheResult \<times> redis" where
  "cache_step C (now, l, CallSetOnline u g c ttl unix) r = apfst ResSet (SetOnline C l now unix u g c ttl r)"
| "cache_step C (now, l, CallSetOnlineIfMissing u g c ttl unix) r = apfst ResSet (SetOnlineIfMissing C l now unix u g c ttl r)"
| "cache_step C (now, l, CallSetOffline u g c) r = apfst ResOffline (SetOfflineIfMatch C l now u g c r)"
| "cache_step C (now, l, CallRefresh u g c ttl) r = apfst ResRefresh (RefreshOnlineIfMatch C l now u g c ttl r)"
| "cache_step C (now, l, CallRefreshBatch qs) r = apfst ResRefreshBatch (RefreshOnlineIfMatchBatch C l now qs r)"
| "cache_step C (now, l, CallGet u) r = (ResGet (GetOnlineStatus C l now r u), r)"
| "cache_step C (now, l, CallGetBatch us) r = (ResGetBatch (GetOnlineStatusBatch C l now r us), r)"

definition login_record :: "u64 \<Rightarrow> string \<Rightarrow> string \<Rightarrow> int \<Rightarrow> OnlineStatusRecord" where
  "login_record u g c unix = \<lparr>rec_user_id = u, rec_gateway_id = g, rec_connection_name = c, rec_login_time = unix\<rparr>"

definition table_get :: "Link \<Rightarrow> int \<Rightarrow> presence \<Rightarrow> u64 \<Rightarrow> GetOnlineStatusResult" where
  "table_get l now p u =
     (if u = 0 then get_result GetInvalidArgument ''online status get failed: invalid user_id''
      else if \<not> redis_pool l then get_result GetRedisError ''online status get failed: redis pool is null''
      else if \<not> redis_connection l then get_result GetRedisError ''online status get failed: acquire redis connection failed''
      else case fault l of
        Some (_, e) \<Rightarrow> if e \<noteq> [] then get_result GetRedisError e else get_result GetNotFound ''''
      | None \<Rightarrow> (case present now p u of
          None \<Rightarrow> get_result GetNotFound ''''
        | Some record \<Rightarrow> \<lparr>get_status = GetFound, get_record = Some record, get_error = ''''\<rparr>))"

definition table_refresh_one :: "Link \<Rightarrow> int \<Rightarrow> OnlineStatusRefreshRequest \<Rightarrow> presence \<Rightarrow> RefreshOnlineIfMatchStatus \<times> presence" where
  "table_refresh_one l now q p = over l (request_valid q) RefreshInvalidArgument RefreshRedisError
     (table_refresh now (req_user_id q) (req_gateway_id q) (req_connection_name q) (req_ttl_seconds q) p) p"

fun table_refresh_each :: "Link \<Rightarrow> int \<Rightarrow> OnlineStatusRefreshRequest list \<Rightarrow> presence \<Rightarrow> RefreshOnlineIfMatchStatus list \<times> presence" where
  "table_refresh_each l now [] p = ([], p)"
| "table_refresh_each l now (q # qs) p =
     (let (st, p') = table_refresh_one l now q p; (sts, p'') = table_refresh_each l now qs p' in (st # sts, p''))"

definition as_request :: "u64 \<Rightarrow> string \<Rightarrow> string \<Rightarrow> int \<Rightarrow> OnlineStatusRefreshRequest" where
  "as_request u g c ttl = \<lparr>req_user_id = u, req_gateway_id = g, req_connection_name = c, req_ttl_seconds = ttl\<rparr>"

definition login_valid :: "u64 \<Rightarrow> string \<Rightarrow> string \<Rightarrow> int \<Rightarrow> bool" where
  "login_valid u g c ttl \<longleftrightarrow> u \<noteq> 0 \<and> g \<noteq> [] \<and> c \<noteq> [] \<and> ttl > 0"

fun table_step :: "int \<times> Link \<times> CacheCall \<Rightarrow> presence \<Rightarrow> CacheResult \<times> presence" where
  "table_step (now, l, CallSetOnline u g c ttl unix) p =
     apfst ResSet (over l (login_valid u g c ttl) SetInvalidArgument SetRedisError (table_login False now (login_record u g c unix) ttl p) p)"
| "table_step (now, l, CallSetOnlineIfMissing u g c ttl unix) p =
     apfst ResSet (over l (login_valid u g c ttl) SetInvalidArgument SetRedisError (table_login True now (login_record u g c unix) ttl p) p)"
| "table_step (now, l, CallSetOffline u g c) p =
     apfst ResOffline (over l (u \<noteq> 0 \<and> g \<noteq> [] \<and> c \<noteq> []) OfflineInvalidArgument OfflineRedisError (table_offline now u g c p) p)"
| "table_step (now, l, CallRefresh u g c ttl) p = apfst ResRefresh (table_refresh_one l now (as_request u g c ttl) p)"
| "table_step (now, l, CallRefreshBatch qs) p = apfst ResRefreshBatch (table_refresh_each l now qs p)"
| "table_step (now, l, CallGet u) p = (ResGet (table_get l now p u), p)"
| "table_step (now, l, CallGetBatch us) p = (ResGetBatch (map (table_get l now p) us), p)"

text \<open>What a caller has to keep: plain names, a clock after 1970, batches within their limits, an error text for a failed command.\<close>

fun call_ok :: "int \<times> Link \<times> CacheCall \<Rightarrow> bool" where
  "call_ok (now, l, CallSetOnline u g c ttl unix) \<longleftrightarrow> ascii g \<and> ascii c \<and> unix > 0"
| "call_ok (now, l, CallSetOnlineIfMissing u g c ttl unix) \<longleftrightarrow> ascii g \<and> ascii c \<and> unix > 0"
| "call_ok (now, l, CallRefreshBatch qs) \<longleftrightarrow> length qs \<le> 16"
| "call_ok (now, l, CallGetBatch us) \<longleftrightarrow> length us \<le> 256 \<and> (case fault l of Some (_, e) \<Rightarrow> e \<noteq> [] | None \<Rightarrow> True)"
| "call_ok _ \<longleftrightarrow> True"

definition agree :: "Cache \<Rightarrow> 'a \<times> redis \<Rightarrow> 'a \<times> presence \<Rightarrow> bool" where
  "agree C x y \<longleftrightarrow> fst x = fst y \<and> holds C (snd x) (snd y)"

lemma agree_apfst: "agree C x y \<Longrightarrow> agree C (apfst f x) (apfst f y)"
  by (simp add: agree_def)

lemma login_ok: "\<lbrakk>login_valid u g c ttl; ascii g; ascii c; unix > 0\<rbrakk> \<Longrightarrow> record_ok u (login_record u g c unix)"
  by (simp add: login_valid_def record_ok_def login_record_def)

lemma SetOnline_refines:
  assumes "holds C r p" and "ascii g" and "ascii c" and "unix > 0"
  shows "agree C (SetOnline C l now unix u g c ttl r)
    (over l (login_valid u g c ttl) SetInvalidArgument SetRedisError (table_login False now (login_record u g c unix) ttl p) p)"
  using holds_set [OF assms(1) login_ok [OF _ assms(2-4)], of u ttl "now + 1000 * ttl"] assms(1)
  by (auto simp: agree_def SetOnline_def over_def login_valid_def redis_call_def table_login_def redis_setex_def Serialize_def login_record_def
      split: option.splits)

lemma SetOnlineIfMissing_refines:
  assumes "holds C r p" and "ascii g" and "ascii c" and "unix > 0"
  shows "agree C (SetOnlineIfMissing C l now unix u g c ttl r)
    (over l (login_valid u g c ttl) SetInvalidArgument SetRedisError (table_login True now (login_record u g c unix) ttl p) p)"
  using holds_set [OF assms(1) login_ok [OF _ assms(2-4)], of u ttl "now + 1000 * ttl"] assms(1) holds_get [OF assms(1), of now u]
  by (auto simp: agree_def SetOnlineIfMissing_def SetOnlineIfMissingScript_def over_def login_valid_def redis_call_def table_login_def
      redis_setex_def Serialize_def login_record_def split: option.splits)

lemma SetOffline_refines:
  assumes "json_laws C" and "holds C r p"
  shows "agree C (SetOfflineIfMatch C l now u g c r)
    (over l (u \<noteq> 0 \<and> g \<noteq> [] \<and> c \<noteq> []) OfflineInvalidArgument OfflineRedisError (table_offline now u g c p) p)"
proof (cases "present now p u")
  case None
  with assms(2) holds_get [OF assms(2), of now u] show ?thesis
    by (auto simp: agree_def SetOfflineIfMatch_def SetOfflineIfMatchScript_def over_def redis_call_def table_offline_def split: option.splits)
next
  case (Some rc)
  obtain field where "lua_decode C (json_dump C rc) = Some field"
      "(field ''gateway_id'' \<noteq> Some g \<or> field ''connection_name'' \<noteq> Some c) = (\<not> owned_by g c rc)"
    using decode_owner [OF assms(1) present_ok [OF assms(2) Some]] .
  with Some holds_get [OF assms(2), of now u] have script: "SetOfflineIfMatchScript C now (BuildKey C u) g c r =
      (if owned_by g c rc then (Some 1, r(BuildKey C u := None)) else (Some 2, r))"
    by (simp add: SetOfflineIfMatchScript_def)
  with Some assms(2) holds_delete [OF assms(2), of u] show ?thesis
    by (auto simp: agree_def SetOfflineIfMatch_def over_def redis_call_def table_offline_def split: option.splits)
qed

lemma Refresh_refines:
  assumes "json_laws C" and "holds C r p"
  shows "agree C (RefreshOnlineIfMatch C l now (req_user_id q) (req_gateway_id q) (req_connection_name q) (req_ttl_seconds q) r) (table_refresh_one l now q p)"
proof (cases "present now p (req_user_id q)")
  case None
  with assms(2) holds_get [OF assms(2), of now "req_user_id q"] show ?thesis
    by (auto simp: agree_def RefreshOnlineIfMatch_def RefreshOnlineIfMatchScript_def table_refresh_one_def over_def redis_call_def table_refresh_def
        request_valid_def split: option.splits)
next
  case (Some rc)
  let ?key = "BuildKey C (req_user_id q)" and ?g = "req_gateway_id q" and ?c = "req_connection_name q" and ?ttl = "req_ttl_seconds q"
  note ok = present_ok [OF assms(2) Some]
  obtain field where "lua_decode C (json_dump C rc) = Some field"
      "(field ''gateway_id'' \<noteq> Some ?g \<or> field ''connection_name'' \<noteq> Some ?c) = (\<not> owned_by ?g ?c rc)"
    using decode_owner [OF assms(1) ok] .
  with Some holds_get [OF assms(2), of now "req_user_id q"] have script: "?ttl > 0 \<Longrightarrow> RefreshOnlineIfMatchScript C now ?key ?g ?c ?ttl r =
      (if owned_by ?g ?c rc then (Some 1, r(?key \<mapsto> (Text (json_dump C rc), Some (now + 1000 * ?ttl)))) else (Some 2, r))"
    by (simp add: RefreshOnlineIfMatchScript_def redis_expire_def)
  with Some assms(2) holds_set [OF assms(2) ok, of "now + 1000 * ?ttl"] show ?thesis
    by (auto simp: agree_def RefreshOnlineIfMatch_def table_refresh_one_def over_def redis_call_def table_refresh_def request_valid_def split: option.splits)
qed

lemma refresh_each_refines:
  assumes "json_laws C"
  shows "holds C r p \<Longrightarrow> agree C (refresh_each C l now qs r) (table_refresh_each l now qs p)"
proof (induction qs arbitrary: r p)
  case (Cons q qs)
  from Refresh_refines [OF assms Cons.prems, of l now q] Cons.IH show ?case
    by (fastforce simp: agree_def split: prod.splits)
qed (simp add: agree_def)

lemma Get_refines: "\<lbrakk>json_laws C; holds C r p\<rbrakk> \<Longrightarrow> GetOnlineStatus C l now r u = table_get l now p u"
  using holds_get [of C r p now u] present_ok [of C r p now u] Deserialize_ok [of C u]
  by (auto simp: GetOnlineStatus_def table_get_def split: option.splits)

subsection \<open>Sequences of calls\<close>

primrec run_calls :: "('op \<Rightarrow> 's \<Rightarrow> 'res \<times> 's) \<Rightarrow> 'op list \<Rightarrow> 's \<Rightarrow> 'res list \<times> 's" where
  "run_calls step [] s = ([], s)"
| "run_calls step (op # ops) s = (let (res, s') = step op s; (results, s'') = run_calls step ops s' in (res # results, s''))"

text \<open>The contract of an implementation of a table: related states give the same results and stay related.\<close>

locale call_refinement =
  fixes impl :: "'op \<Rightarrow> 's \<Rightarrow> 'res \<times> 's"
    and spec :: "'op \<Rightarrow> 't \<Rightarrow> 'res \<times> 't"
    and related :: "'s \<Rightarrow> 't \<Rightarrow> bool"
    and admissible :: "'op \<Rightarrow> bool"
  assumes step: "\<lbrakk>related s t; admissible op\<rbrakk> \<Longrightarrow> fst (impl op s) = fst (spec op t) \<and> related (snd (impl op s)) (snd (spec op t))"
begin

lemma runs_agree:
  "\<lbrakk>related s t; list_all admissible ops\<rbrakk> \<Longrightarrow>
     fst (run_calls impl ops s) = fst (run_calls spec ops t) \<and> related (snd (run_calls impl ops s)) (snd (run_calls spec ops t))"
proof (induction ops arbitrary: s t)
  case (Cons op ops)
  from step [OF Cons.prems(1), of op] Cons show ?case by (fastforce split: prod.splits)
qed simp

end

lemma cache_step_refines:
  assumes "holds C r p" and "json_laws C \<and> call_ok op"
  shows "agree C (cache_step C op r) (table_step op p)"
proof -
  obtain now l call where op: "op = (now, l, call)" by (cases op)
  have laws: "json_laws C" and ok: "call_ok (now, l, call)" using assms(2) op by simp_all
  show ?thesis
  proof (cases call)
    case (CallSetOnline u g c ttl unix)
    with ok op SetOnline_refines [OF assms(1), of g c unix] show ?thesis by (auto intro: agree_apfst)
  next
    case (CallSetOnlineIfMissing u g c ttl unix)
    with ok op SetOnlineIfMissing_refines [OF assms(1), of g c unix] show ?thesis by (auto intro: agree_apfst)
  next
    case (CallSetOffline u g c)
    with op SetOffline_refines [OF laws assms(1)] show ?thesis by (auto intro: agree_apfst)
  next
    case (CallRefresh u g c ttl)
    with op Refresh_refines [OF laws assms(1), of l now "as_request u g c ttl"] show ?thesis by (auto simp: as_request_def intro: agree_apfst)
  next
    case (CallRefreshBatch qs)
    with ok op refresh_each_refines [OF laws assms(1), of l now qs] refresh_batch_each [of qs C l now r] show ?thesis by (auto intro: agree_apfst)
  next
    case (CallGet u)
    with op Get_refines [OF laws assms(1)] assms(1) show ?thesis by (simp add: agree_def)
  next
    case (CallGetBatch us)
    then have "GetOnlineStatusBatch C l now r us = map (GetOnlineStatus C l now r) us" using ok by (intro get_batch_map) auto
    with CallGetBatch op Get_refines [OF laws assms(1)] assms(1) show ?thesis by (simp add: agree_def)
  qed
qed

interpretation oc: call_refinement "cache_step C" table_step "holds C" "\<lambda>op. json_laws C \<and> call_ok op" for C
  by unfold_locales (use cache_step_refines in \<open>simp add: agree_def\<close>)

text \<open>C5: the cache over Redis behaves like a table with the owner of each user and an expiry: every sequence of calls by any number of
  gateways, scalar or in batches, with any failures of the connection in between, gives the results of the table, and the keys
  of Redis hold the table afterwards.\<close>

theorem online_cache_refines:
  assumes "json_laws C" and "list_all call_ok ops"
  shows "fst (run_calls (cache_step C) ops Map.empty) = fst (run_calls table_step ops Map.empty)
    \<and> holds C (snd (run_calls (cache_step C) ops Map.empty)) (snd (run_calls table_step ops Map.empty))"
  using oc.runs_agree [OF holds_empty, of C ops] assms by (simp add: list_all_iff)

section \<open>Ownership\<close>

text \<open>The calls that may change who owns \<open>u\<close> or how long: a login of \<open>u\<close>, and a conditional operation that names the owner.\<close>

definition names_owner :: "u64 \<Rightarrow> string \<Rightarrow> string \<Rightarrow> OnlineStatusRefreshRequest \<Rightarrow> bool" where
  "names_owner u g c q \<longleftrightarrow> req_user_id q = u \<and> req_gateway_id q = g \<and> req_connection_name q = c"

fun disturbs :: "u64 \<Rightarrow> string \<Rightarrow> string \<Rightarrow> CacheCall \<Rightarrow> bool" where
  "disturbs u g c (CallSetOnline u' g' c' ttl unix) \<longleftrightarrow> u' = u"
| "disturbs u g c (CallSetOffline u' g' c') \<longleftrightarrow> u' = u \<and> g' = g \<and> c' = c"
| "disturbs u g c (CallRefresh u' g' c' ttl) \<longleftrightarrow> u' = u \<and> g' = g \<and> c' = c"
| "disturbs u g c (CallRefreshBatch qs) \<longleftrightarrow> (\<exists>q\<in>set qs. names_owner u g c q)"
| "disturbs u g c _ \<longleftrightarrow> False"

lemma over_keeps: "\<lbrakk>snd d u = x; p u = x\<rbrakk> \<Longrightarrow> snd (over l v i f d p) u = x"
  by (auto simp: over_def split: option.splits)

lemma table_refresh_one_keeps:
  assumes "p u = Some (rc, t)" and "\<not> names_owner u (rec_gateway_id rc) (rec_connection_name rc) q"
  shows "snd (table_refresh_one l now q p) u = p u"
  unfolding table_refresh_one_def
  by (rule over_keeps) (use assms in \<open>auto simp: table_refresh_def present_def owned_by_def names_owner_def split: option.splits\<close>)

lemma table_refresh_each_keeps:
  "\<lbrakk>p u = Some (rc, t); \<forall>q\<in>set qs. \<not> names_owner u (rec_gateway_id rc) (rec_connection_name rc) q\<rbrakk> \<Longrightarrow> snd (table_refresh_each l now qs p) u = p u"
proof (induction qs arbitrary: p)
  case (Cons q qs)
  have "snd (table_refresh_one l now q p) u = p u" using Cons.prems by (intro table_refresh_one_keeps) auto
  with Cons.IH [of "snd (table_refresh_one l now q p)"] Cons.prems show ?case by (simp add: case_prod_beta Let_def)
qed simp

lemma table_step_keeps:
  assumes "p u = Some (rc, t)" and "now < t" and "\<not> disturbs u (rec_gateway_id rc) (rec_connection_name rc) call"
  shows "snd (table_step (now, l, call) p) u = p u"
proof (cases call)
  case (CallRefresh u' g c ttl)
  with assms table_refresh_one_keeps [of p u rc t "as_request u' g c ttl"] show ?thesis by (auto simp: names_owner_def as_request_def)
next
  case (CallRefreshBatch qs)
  with assms table_refresh_each_keeps [of p u rc t qs] show ?thesis by auto
qed (use assms in \<open>auto intro!: over_keeps simp: table_login_def login_record_def table_offline_def present_def owned_by_def split: option.splits if_splits\<close>)

lemma table_run_keeps:
  "\<lbrakk>p u = Some (rc, t); \<forall>(now, l, call)\<in>set ops. now < t \<and> \<not> disturbs u (rec_gateway_id rc) (rec_connection_name rc) call\<rbrakk> \<Longrightarrow>
     snd (run_calls table_step ops p) u = p u"
proof (induction ops arbitrary: p)
  case (Cons op ops)
  obtain now l call where op: "op = (now, l, call)" by (cases op)
  have "snd (table_step op p) u = p u" unfolding op by (rule table_step_keeps) (use Cons.prems op in auto)
  with Cons.IH [of "snd (table_step op p)"] Cons.prems show ?case by (simp add: case_prod_beta Let_def)
qed simp

lemma login_is_kept:
  assumes "json_laws C" and "list_all call_ok before" and "r = snd (run_calls (cache_step C) before Map.empty)"
    and "ascii g" and "ascii c" and "unix > 0" and "SetOnline C l now unix u g c ttl r = (SetStored, r')"
    and "list_all call_ok ops" and "\<forall>(now', l', call)\<in>set ops. now' < now + 1000 * ttl \<and> \<not> disturbs u g c call"
    and "redis_pool l''" and "redis_connection l''" and "fault l'' = None" and "now'' < now + 1000 * ttl"
  shows "GetOnlineStatus C l'' now'' (snd (run_calls (cache_step C) ops r')) u =
    \<lparr>get_status = GetFound, get_record = Some (login_record u g c unix), get_error = ''''\<rparr>"
proof -
  define p where "p = snd (run_calls table_step before Map.empty)"
  have before: "holds C r p" using oc.runs_agree [OF holds_empty, of C before] assms(1-3) by (simp add: p_def list_all_iff)
  have valid: "login_valid u g c ttl" and there: "redis_pool l" "redis_connection l" "fault l = None"
    using assms(7) by (auto simp: SetOnline_def login_valid_def redis_call_def Let_def split: if_splits option.splits)
  let ?p = "p(u \<mapsto> (login_record u g c unix, now + 1000 * ttl))"
  have after: "holds C r' ?p"
    using SetOnline_refines [OF before assms(4-6), of l now u ttl] valid there assms(7)
    by (simp add: agree_def over_def table_login_def login_record_def)
  have "holds C (snd (run_calls (cache_step C) ops r')) (snd (run_calls table_step ops ?p))"
    using oc.runs_agree [OF after, of ops] assms(1,8) by (simp add: list_all_iff)
  moreover have "snd (run_calls table_step ops ?p) u = ?p u"
    by (rule table_run_keeps) (use assms(9) in \<open>auto simp: login_record_def\<close>)
  ultimately show ?thesis
    using Get_refines [OF assms(1)] valid assms(10-13) by (simp add: table_get_def present_def login_valid_def)
qed

section \<open>A cache with a plain encoding\<close>

text \<open>Fields one after the other, each character marked, in place of JSON: the laws can be met.\<close>

definition enc_field :: "string \<Rightarrow> string" where
  "enc_field s = concat (map (\<lambda>c. [CHR ''c'', c]) s) @ ''.''"

fun dec_field :: "string \<Rightarrow> string \<times> string" where
  "dec_field (m # c # rest) = (if m = CHR ''c'' then apfst (Cons c) (dec_field rest) else ([], c # rest))"
| "dec_field [m] = ([], [])"
| "dec_field [] = ([], [])"

lemma dec_enc: "dec_field (enc_field s @ rest) = (s, rest)"
proof (induction s)
  case Nil
  show ?case by (cases rest) (simp_all add: enc_field_def)
qed (simp add: enc_field_def)

definition plain_dump :: "OnlineStatusRecord \<Rightarrow> string" where
  "plain_dump record = enc_field (to_string (unat (rec_user_id record))) @ enc_field (rec_gateway_id record) @
     enc_field (rec_connection_name record) @ enc_field (if rec_login_time record < 0 then ''-'' else ''+'') @
     enc_field (to_string (nat \<bar>rec_login_time record\<bar>))"

definition plain_parse :: "string \<Rightarrow> OnlineStatusRecord" where
  "plain_parse s = (let (u, s1) = dec_field s; (g, s2) = dec_field s1; (c, s3) = dec_field s2; (sign, s4) = dec_field s3; (t, s5) = dec_field s4
     in \<lparr>rec_user_id = of_nat (digits_value u), rec_gateway_id = g, rec_connection_name = c,
         rec_login_time = (if sign = ''-'' then - int (digits_value t) else int (digits_value t))\<rparr>)"

lemma plain_parse_dump: "plain_parse (plain_dump rc) = rc"
  using dec_enc [of _ "[]"] by (simp add: plain_parse_def plain_dump_def dec_enc digits_value_to_string)

definition demo_cache :: Cache where
  "demo_cache = \<lparr>key_prefix = ''tinyimx:online:'', json_dump = plain_dump, json_parse = (\<lambda>s. Inr (plain_parse s)),
     lua_decode = (\<lambda>s. Some (\<lambda>k. if k = ''gateway_id'' then Some (rec_gateway_id (plain_parse s))
       else if k = ''connection_name'' then Some (rec_connection_name (plain_parse s)) else None))\<rparr>"

lemma demo_laws: "json_laws demo_cache"
  by (simp add: json_laws_def demo_cache_def plain_parse_dump)

definition demo_link :: Link where
  "demo_link = \<lparr>redis_pool = True, redis_connection = True, fault = None\<rparr>"

definition demo_calls :: "(int \<times> Link \<times> CacheCall) list" where
  "demo_calls = [(0, demo_link, CallSetOnline 7 ''A'' ''a1'' 60 1000), (10, demo_link, CallSetOnline 7 ''B'' ''b1'' 60 1000),
     (20, demo_link, CallSetOffline 7 ''A'' ''a1''), (30, demo_link, CallGet 7)]"

lemma demo_calls_ok: "list_all call_ok demo_calls"
  by (simp add: demo_calls_def ascii_def)

lemma demo_table: "fst (run_calls table_step demo_calls Map.empty) =
    [ResSet SetStored, ResSet SetStored, ResOffline OfflineMismatch,
     ResGet \<lparr>get_status = GetFound, get_record = Some (login_record 7 ''B'' ''b1'' 1000), get_error = ''''\<rparr>]"
  by (simp add: demo_calls_def demo_link_def over_def login_valid_def table_login_def login_record_def table_offline_def present_def owned_by_def table_get_def)

theorem online_cache_refines_witness:
  "json_laws demo_cache \<and> list_all call_ok demo_calls
    \<and> fst (run_calls (cache_step demo_cache) demo_calls Map.empty) =
        [ResSet SetStored, ResSet SetStored, ResOffline OfflineMismatch,
         ResGet \<lparr>get_status = GetFound, get_record = Some (login_record 7 ''B'' ''b1'' 1000), get_error = ''''\<rparr>]"
  using online_cache_refines [OF demo_laws demo_calls_ok] demo_laws demo_calls_ok demo_table by simp

end
