(* ===== verification/Route_Resolver.thy ===== *)
theory Route_Resolver
  imports Online_Status
begin

text \<open>
  Where a message for a user goes, \<open>gateway/GatewayRouteResolver.{h,cpp}\<close>: to a connection of this gateway, to another gateway, or
  nowhere. The presence comes from the online status cache, the address of the other gateway from a snapshot of the discovery, which is
  an argument (\<open>FindById\<close>); a null pointer of the resolver is a flag.
\<close>

section \<open>The resolver\<close>

datatype GatewayRouteStatus = RouteLocal | RouteRemote | RouteOffline | RouteGatewayUnavailable | RouteInvalidArgument
  | RouteDependencyUnavailable | RouteOnlineStatusError

record 'g GatewayRouteResult =
  route_status :: GatewayRouteStatus
  route_online :: "OnlineStatusRecord option"
  route_gateway :: "'g option"
  route_error :: string

definition route_failed :: "GatewayRouteStatus \<Rightarrow> string \<Rightarrow> 'g GatewayRouteResult" where
  "route_failed st e = \<lparr>route_status = st, route_online = None, route_gateway = None, route_error = e\<rparr>"

record 'g GatewayRouteResolver =
  local_gateway_id :: string
  cache_set :: bool
  discovery_set :: bool
  FindById :: "string \<Rightarrow> 'g option"

definition ResolveOnlineStatus :: "'g GatewayRouteResolver \<Rightarrow> GetOnlineStatusResult \<Rightarrow> 'g GatewayRouteResult" where
  "ResolveOnlineStatus G online =
     (if NotFound online then route_failed RouteOffline ''''
      else if \<not> Found online then route_failed RouteOnlineStatusError (get_error online)
      else let record = the (get_record online)
           in if rec_gateway_id record = local_gateway_id G
              then \<lparr>route_status = RouteLocal, route_online = get_record online, route_gateway = None, route_error = ''''\<rparr>
              else case FindById G (rec_gateway_id record) of
                None \<Rightarrow> \<lparr>route_status = RouteGatewayUnavailable, route_online = get_record online, route_gateway = None,
                         route_error = ''online status points to an unavailable gateway: '' @ rec_gateway_id record\<rparr>
              | Some g \<Rightarrow> \<lparr>route_status = RouteRemote, route_online = get_record online, route_gateway = Some g, route_error = ''''\<rparr>)"

definition Resolve :: "'g GatewayRouteResolver \<Rightarrow> (u64 \<Rightarrow> GetOnlineStatusResult) \<Rightarrow> u64 \<Rightarrow> 'g GatewayRouteResult" where
  "Resolve G get user_id =
     (if user_id = 0 then route_failed RouteInvalidArgument ''route resolve failed: user_id is zero''
      else if local_gateway_id G = [] then route_failed RouteDependencyUnavailable ''route resolve failed: local gateway id is empty''
      else if \<not> cache_set G then route_failed RouteDependencyUnavailable ''route resolve failed: online status cache is null''
      else if \<not> discovery_set G then route_failed RouteDependencyUnavailable ''route resolve failed: gateway discovery is null''
      else ResolveOnlineStatus G (get user_id))"

definition ResolveBatch :: "'g GatewayRouteResolver \<Rightarrow> (u64 \<Rightarrow> GetOnlineStatusResult) \<Rightarrow> (u64 list \<Rightarrow> GetOnlineStatusResult list) \<Rightarrow> u64 list \<Rightarrow> 'g GatewayRouteResult list" where
  "ResolveBatch G get get_batch user_ids =
     (if length user_ids > 256 then map (\<lambda>_. route_failed RouteInvalidArgument ''route batch failed: batch exceeds 256 users'') user_ids
      else if user_ids = [] then []
      else if local_gateway_id G = [] \<or> \<not> cache_set G \<or> \<not> discovery_set G then map (Resolve G get) user_ids
      else let online = get_batch user_ids
           in if length online \<noteq> length user_ids
              then map (\<lambda>_. route_failed RouteOnlineStatusError ''route batch failed: unexpected result cardinality'') user_ids
              else map (\<lambda>(u, o'). if u = 0 then Resolve G get 0 else ResolveOnlineStatus G o') (zip user_ids online))"

fun GatewayRouteStatusToString :: "GatewayRouteStatus \<Rightarrow> string" where
  "GatewayRouteStatusToString RouteLocal = ''local''"
| "GatewayRouteStatusToString RouteRemote = ''remote''"
| "GatewayRouteStatusToString RouteOffline = ''offline''"
| "GatewayRouteStatusToString RouteGatewayUnavailable = ''gateway_unavailable''"
| "GatewayRouteStatusToString RouteInvalidArgument = ''invalid_argument''"
| "GatewayRouteStatusToString RouteDependencyUnavailable = ''dependency_unavailable''"
| "GatewayRouteStatusToString RouteOnlineStatusError = ''online_status_error''"

section \<open>A batch is its users\<close>

lemma ResolveBatch_map:
  assumes "length user_ids \<le> 256" and batch: "get_batch user_ids = map get user_ids"
  shows "ResolveBatch G get get_batch user_ids = map (Resolve G get) user_ids"
proof -
  have pairs: "zip user_ids (map f user_ids) = map (\<lambda>u. (u, f u)) user_ids" for f :: "u64 \<Rightarrow> GetOnlineStatusResult"
    by (simp add: map_zip_map2 zip_same_conv_map zip_map2)
  show ?thesis
    using assms(1) by (auto simp: ResolveBatch_def batch pairs Resolve_def Let_def)
qed

section \<open>Properties\<close>

text \<open>Resolving a batch of users gives what resolving each of them gives, in order and including the error messages, for any
  content of Redis, any state of the resolver and any way the connection to Redis can fail.\<close>

theorem resolve_batch_is_scalar:
  fixes G :: "'g GatewayRouteResolver"
  assumes "length user_ids \<le> 256" and "\<forall>effect e. fault l = Some (effect, e) \<longrightarrow> e \<noteq> []"
  shows "ResolveBatch G (GetOnlineStatus C l now r) (GetOnlineStatusBatch C l now r) user_ids
    = map (Resolve G (GetOnlineStatus C l now r)) user_ids"
  using assms(1) get_batch_map [OF assms] by (rule ResolveBatch_map)

theorem resolve_batch_is_scalar_witness:
  "let G = \<lparr>local_gateway_id = ''A'', cache_set = True, discovery_set = True, FindById = (\<lambda>_. None :: nat option)\<rparr>
   in map route_status (ResolveBatch G (GetOnlineStatus demo_cache demo_link 5 Map.empty) (GetOnlineStatusBatch demo_cache demo_link 5 Map.empty) [7, 0])
     = [RouteOffline, RouteInvalidArgument]"
proof -
  let ?G = "\<lparr>local_gateway_id = ''A'', cache_set = True, discovery_set = True, FindById = (\<lambda>_. None :: nat option)\<rparr>"
  have "length [7, 0 :: u64] \<le> 256" "\<forall>effect e. fault demo_link = Some (effect, e) \<longrightarrow> e \<noteq> []" by (simp_all add: demo_link_def)
  from resolve_batch_is_scalar [OF this, where G = ?G and C = demo_cache and now = 5 and r = Map.empty] show ?thesis
    by (simp add: Resolve_def ResolveOnlineStatus_def route_failed_def GetOnlineStatus_def demo_link_def redis_get_def get_result_def NotFound_def)
qed

text \<open>C6: after a login was stored, every gateway routes messages for the user to the gateway of this login until the entry expires,
  whatever other calls on the cache happen before that time, including late removals and refreshes by former owners and
  restorations by others; only a new login of the user and the owner itself are excluded. The route is local on the owner's
  gateway, remote on another one that knows the owner, and an error where the discovery does not know it.\<close>

theorem route_follows_login:
  fixes G :: "'g GatewayRouteResolver"
  assumes "json_laws C" and "list_all call_ok before" and "r = snd (run_calls (cache_step C) before Map.empty)"
    and "ascii g" and "ascii c" and "unix > 0" and "SetOnline C l now unix u g c ttl r = (SetStored, r')"
    and "list_all call_ok ops" and "\<forall>(now', l', call)\<in>set ops. now' < now + 1000 * ttl \<and> \<not> disturbs u g c call"
    and "redis_pool l''" and "redis_connection l''" and "fault l'' = None" and "now'' < now + 1000 * ttl"
    and "local_gateway_id G \<noteq> []" and "cache_set G" and "discovery_set G"
  shows "let route = Resolve G (GetOnlineStatus C l'' now'' (snd (run_calls (cache_step C) ops r'))) u
    in route_online route = Some (login_record u g c unix)
      \<and> route_status route = (if g = local_gateway_id G then RouteLocal else if FindById G g = None then RouteGatewayUnavailable else RouteRemote)
      \<and> route_gateway route = (if g = local_gateway_id G then None else FindById G g)"
proof -
  have "u \<noteq> 0" using assms(7) by (auto simp: SetOnline_def)
  with login_is_kept [OF assms(1-13)] assms(14-16) show ?thesis
    by (auto simp: Resolve_def ResolveOnlineStatus_def NotFound_def Found_def login_record_def Let_def split: option.splits)
qed

theorem route_follows_login_witness:
  "let G = \<lparr>local_gateway_id = ''A'', cache_set = True, discovery_set = True, FindById = (\<lambda>g. if g = ''B'' then Some (1 :: nat) else None)\<rparr>;
       (st, r') = SetOnline demo_cache demo_link 10 1000 7 ''B'' ''b1'' 60 (snd (run_calls (cache_step demo_cache) [(0, demo_link, CallSetOnline 7 ''A'' ''a1'' 60 1000)] Map.empty));
       r'' = snd (run_calls (cache_step demo_cache) [(20, demo_link, CallSetOffline 7 ''A'' ''a1'')] r')
   in st = SetStored \<and> route_status (Resolve G (GetOnlineStatus demo_cache demo_link 30 r'') 7) = RouteRemote"
proof -
  let ?G = "\<lparr>local_gateway_id = ''A'', cache_set = True, discovery_set = True, FindById = (\<lambda>g. if g = ''B'' then Some (1 :: nat) else None)\<rparr>"
  let ?r = "snd (run_calls (cache_step demo_cache) [(0, demo_link, CallSetOnline 7 ''A'' ''a1'' 60 1000)] Map.empty)"
  obtain r' where login: "SetOnline demo_cache demo_link 10 1000 7 ''B'' ''b1'' 60 ?r = (SetStored, r')"
    by (simp add: SetOnline_def demo_link_def redis_call_def)
  have ok: "list_all call_ok [(0, demo_link, CallSetOnline 7 ''A'' ''a1'' 60 1000)]" "ascii ''B''" "ascii ''b1''"
      "list_all call_ok [(20, demo_link, CallSetOffline 7 ''A'' ''a1'')]"
      "\<forall>(now', l', call)\<in>set [(20 :: int, demo_link, CallSetOffline 7 ''A'' ''a1'')]. now' < 10 + 1000 * 60 \<and> \<not> disturbs 7 ''B'' ''b1'' call"
    by (simp_all add: ascii_def)
  from route_follows_login [OF demo_laws ok(1) refl ok(2,3) _ login ok(4,5), where l'' = demo_link and now'' = 30 and G = ?G] login show ?thesis
    by (simp add: demo_link_def Let_def)
qed

end
