(* ===== verification/Delivery_Dedup.thy ===== *)
theory Delivery_Dedup
  imports TIMX_Prelude
begin

text \<open>
  Delivery identities, \<open>gateway/DeliveryIdentity.h\<close>, and the process local deduplicator,
  \<open>gateway/MessageDeliveryDeduplicator.{h,cpp}\<close>: a map from identities to a state (being processed, delivered)
  and a queue that remembers the most recently delivered identities, so that the map stays bounded. The three
  mutating methods are modelled with the trimming loop; each is atomic under the class's mutex.
\<close>

section \<open>Delivery identities\<close>

datatype DeliveryDomain = kPrivateMessage | kGroupMessage

record DeliveryIdentity =
  domain :: DeliveryDomain
  message_id :: u64
  recipient_user_id :: u64

definition Valid :: "DeliveryIdentity \<Rightarrow> bool" where
  "Valid i \<longleftrightarrow> message_id i \<noteq> 0 \<and> recipient_user_id i \<noteq> 0"

definition PrivateDeliveryIdentity :: "u64 \<Rightarrow> u64 \<Rightarrow> DeliveryIdentity" where
  "PrivateDeliveryIdentity m r = \<lparr>domain = kPrivateMessage, message_id = m, recipient_user_id = r\<rparr>"

definition GroupDeliveryIdentity :: "u64 \<Rightarrow> u64 \<Rightarrow> DeliveryIdentity" where
  "GroupDeliveryIdentity m r = \<lparr>domain = kGroupMessage, message_id = m, recipient_user_id = r\<rparr>"

section \<open>The deduplicator\<close>

datatype MessageDeliveryDedupBeginStatus =
  kAcquired | kAlreadyProcessing | kAlreadyDelivered | kInvalidArgument

datatype DedupState = kProcessing | kDelivered

record MessageDeliveryDeduplicator =
  max_recent_delivered :: nat
  dedup_states :: "DeliveryIdentity \<rightharpoonup> DedupState"
  delivered_order :: "DeliveryIdentity list"

definition MessageDeliveryDeduplicator_new :: "nat \<Rightarrow> MessageDeliveryDeduplicator" where
  "MessageDeliveryDeduplicator_new n =
     \<lparr>max_recent_delivered = max n 1, dedup_states = Map.empty, delivered_order = []\<rparr>"

definition Begin :: "DeliveryIdentity \<Rightarrow> MessageDeliveryDeduplicator \<Rightarrow>
    MessageDeliveryDedupBeginStatus \<times> MessageDeliveryDeduplicator" where
  "Begin i d =
     (if \<not> Valid i then (kInvalidArgument, d)
      else case dedup_states d i of
        None \<Rightarrow> (kAcquired, d\<lparr>dedup_states := (dedup_states d)(i \<mapsto> kProcessing)\<rparr>)
      | Some s \<Rightarrow> (if s = kDelivered then kAlreadyDelivered else kAlreadyProcessing, d))"

fun TrimDeliveredLocked :: "nat \<Rightarrow> DeliveryIdentity list \<Rightarrow> (DeliveryIdentity \<rightharpoonup> DedupState) \<Rightarrow>
    DeliveryIdentity list \<times> (DeliveryIdentity \<rightharpoonup> DedupState)" where
  "TrimDeliveredLocked n [] m = ([], m)"
| "TrimDeliveredLocked n (oldest # rest) m =
     (if length (oldest # rest) > n
      then TrimDeliveredLocked n rest (if m oldest = Some kDelivered then m(oldest := None) else m)
      else (oldest # rest, m))"

definition MarkDelivered :: "DeliveryIdentity \<Rightarrow> MessageDeliveryDeduplicator \<Rightarrow> bool \<times> MessageDeliveryDeduplicator" where
  "MarkDelivered i d =
     (if \<not> Valid i then (False, d)
      else case dedup_states d i of
        None \<Rightarrow> (False, d)
      | Some kDelivered \<Rightarrow> (True, d)
      | Some kProcessing \<Rightarrow>
          (case TrimDeliveredLocked (max_recent_delivered d) (delivered_order d @ [i])
                  ((dedup_states d)(i \<mapsto> kDelivered)) of
             (q, m) \<Rightarrow> (True, d\<lparr>dedup_states := m, delivered_order := q\<rparr>)))"

definition Abort :: "DeliveryIdentity \<Rightarrow> MessageDeliveryDeduplicator \<Rightarrow> bool \<times> MessageDeliveryDeduplicator" where
  "Abort i d =
     (if \<not> Valid i then (False, d)
      else case dedup_states d i of
        None \<Rightarrow> (True, d)
      | Some kDelivered \<Rightarrow> (False, d)
      | Some kProcessing \<Rightarrow> (True, d\<lparr>dedup_states := (dedup_states d)(i := None)\<rparr>))"

text \<open>The M12 compatibility methods take a message id and use one fixed recipient.\<close>

definition kPrivateCompatibilityRecipient :: u64 where "kPrivateCompatibilityRecipient = 1"

definition BeginMessage :: "u64 \<Rightarrow> MessageDeliveryDeduplicator \<Rightarrow>
    MessageDeliveryDedupBeginStatus \<times> MessageDeliveryDeduplicator" where
  "BeginMessage m = Begin (PrivateDeliveryIdentity m kPrivateCompatibilityRecipient)"

definition MarkDeliveredMessage :: "u64 \<Rightarrow> MessageDeliveryDeduplicator \<Rightarrow> bool \<times> MessageDeliveryDeduplicator" where
  "MarkDeliveredMessage m = MarkDelivered (PrivateDeliveryIdentity m kPrivateCompatibilityRecipient)"

definition AbortMessage :: "u64 \<Rightarrow> MessageDeliveryDeduplicator \<Rightarrow> bool \<times> MessageDeliveryDeduplicator" where
  "AbortMessage m = Abort (PrivateDeliveryIdentity m kPrivateCompatibilityRecipient)"

definition DeduplicatorSize :: "MessageDeliveryDeduplicator \<Rightarrow> nat" where
  "DeduplicatorSize d = card (dom (dedup_states d))"

definition DeliveredCount :: "MessageDeliveryDeduplicator \<Rightarrow> nat" where
  "DeliveredCount d = length (delivered_order d)"

section \<open>Calls\<close>

datatype DedupOp = OpBegin DeliveryIdentity | OpMarkDelivered DeliveryIdentity | OpAbort DeliveryIdentity

fun dedup_step :: "MessageDeliveryDeduplicator \<Rightarrow> DedupOp \<Rightarrow> MessageDeliveryDeduplicator" where
  "dedup_step d (OpBegin i) = snd (Begin i d)"
| "dedup_step d (OpMarkDelivered i) = snd (MarkDelivered i d)"
| "dedup_step d (OpAbort i) = snd (Abort i d)"

text \<open>A call acquires \<open>i\<close> when \<open>Begin\<close> says so; it gives \<open>i\<close> up when it is an abort of a delivery in progress, or
  a new delivery that pushes \<open>i\<close> out of the window of remembered deliveries.\<close>

fun dedup_acquires :: "DeliveryIdentity \<Rightarrow> MessageDeliveryDeduplicator \<Rightarrow> DedupOp \<Rightarrow> bool" where
  "dedup_acquires i d (OpBegin j) \<longleftrightarrow> j = i \<and> fst (Begin j d) = kAcquired"
| "dedup_acquires i d _ \<longleftrightarrow> False"

fun dedup_releases :: "DeliveryIdentity \<Rightarrow> MessageDeliveryDeduplicator \<Rightarrow> DedupOp \<Rightarrow> bool" where
  "dedup_releases i d (OpBegin j) \<longleftrightarrow> False"
| "dedup_releases i d (OpAbort j) \<longleftrightarrow> j = i \<and> Valid i \<and> dedup_states d i = Some kProcessing"
| "dedup_releases i d (OpMarkDelivered j) \<longleftrightarrow> Valid j \<and> dedup_states d j = Some kProcessing
     \<and> length (delivered_order d) = max_recent_delivered d \<and> hd (delivered_order d) = i"

section \<open>Invariant\<close>

text \<open>The queue holds exactly the delivered identities, once each, and never more than configured.\<close>

definition dedup_ok :: "MessageDeliveryDeduplicator \<Rightarrow> bool" where
  "dedup_ok d \<longleftrightarrow> 0 < max_recent_delivered d \<and> finite (dom (dedup_states d))
     \<and> distinct (delivered_order d) \<and> length (delivered_order d) \<le> max_recent_delivered d
     \<and> (\<forall>i. i \<in> set (delivered_order d) \<longleftrightarrow> dedup_states d i = Some kDelivered)
     \<and> (\<forall>i. dedup_states d i \<noteq> None \<longrightarrow> Valid i)"

lemma dedup_ok_new [simp]: "dedup_ok (MessageDeliveryDeduplicator_new n)"
  by (simp add: dedup_ok_def MessageDeliveryDeduplicator_new_def)

lemma new_fields [simp]:
  "max_recent_delivered (MessageDeliveryDeduplicator_new n) = max n 1"
  "dedup_states (MessageDeliveryDeduplicator_new n) = Map.empty"
  "delivered_order (MessageDeliveryDeduplicator_new n) = []"
  by (simp_all add: MessageDeliveryDeduplicator_new_def)

lemma Trim_short [simp]: "length q \<le> n \<Longrightarrow> TrimDeliveredLocked n q m = (q, m)"
  by (cases q) auto

lemma Trim_one [simp]:
  "length q = n \<Longrightarrow> TrimDeliveredLocked n (x # q) m = (q, if m x = Some kDelivered then m(x := None) else m)"
  by simp

text \<open>Under the invariant a new delivery evicts at most one entry, the oldest.\<close>

lemma MarkDelivered_processing:
  assumes ok: "dedup_ok d" and v: "Valid i" and p: "dedup_states d i = Some kProcessing"
  shows "MarkDelivered i d = (True,
     if length (delivered_order d) < max_recent_delivered d
     then d\<lparr>dedup_states := (dedup_states d)(i \<mapsto> kDelivered), delivered_order := delivered_order d @ [i]\<rparr>
     else d\<lparr>dedup_states := (dedup_states d)(i \<mapsto> kDelivered, hd (delivered_order d) := None),
            delivered_order := tl (delivered_order d) @ [i]\<rparr>)"
proof (cases "length (delivered_order d) < max_recent_delivered d")
  case True
  with v p show ?thesis by (simp add: MarkDelivered_def)
next
  case False
  with ok obtain x q where q: "delivered_order d = x # q" "length q < max_recent_delivered d"
    "Suc (length q) = max_recent_delivered d"
    by (cases "delivered_order d") (auto simp: dedup_ok_def)
  moreover have "dedup_states d x = Some kDelivered" using ok q by (auto simp: dedup_ok_def)
  moreover have "x \<noteq> i" using calculation p by auto
  ultimately show ?thesis using v p by (simp add: MarkDelivered_def)
qed

lemma dedup_ok_Begin: "dedup_ok d \<Longrightarrow> dedup_ok (snd (Begin i d))"
  by (auto simp: Begin_def dedup_ok_def split: option.split)

lemma dedup_ok_Abort: "dedup_ok d \<Longrightarrow> dedup_ok (snd (Abort i d))"
  by (auto simp: Abort_def dedup_ok_def split: option.split DedupState.split)

lemma MarkDelivered_other:
  "\<not> (Valid i \<and> dedup_states d i = Some kProcessing) \<Longrightarrow> snd (MarkDelivered i d) = d"
  by (auto simp: MarkDelivered_def split: option.split DedupState.split)

lemma dedup_ok_MarkDelivered:
  assumes ok: "dedup_ok d"
  shows "dedup_ok (snd (MarkDelivered i d))"
proof (cases "Valid i \<and> dedup_states d i = Some kProcessing")
  case True
  show ?thesis
  proof (cases "length (delivered_order d) < max_recent_delivered d")
    case True
    with ok \<open>Valid i \<and> _\<close> show ?thesis
      by (auto simp: MarkDelivered_processing dedup_ok_def)
  next
    case False
    with ok obtain x q where q: "delivered_order d = x # q" "Suc (length q) = max_recent_delivered d"
      by (cases "delivered_order d") (auto simp: dedup_ok_def)
    from ok q have "\<forall>j. j = x \<or> j \<in> set q \<longleftrightarrow> dedup_states d j = Some kDelivered" "x \<notin> set q" "distinct q"
      by (auto simp: dedup_ok_def)
    moreover have "dedup_states d x = Some kDelivered" using ok q by (auto simp: dedup_ok_def)
    moreover have "x \<noteq> i" using calculation(4) \<open>Valid i \<and> _\<close> by auto
    ultimately show ?thesis
      using ok q False \<open>Valid i \<and> _\<close> by (auto simp: MarkDelivered_processing dedup_ok_def)
  qed
next
  case False
  with ok show ?thesis by (simp add: MarkDelivered_other)
qed

lemma dedup_ok_step: "dedup_ok d \<Longrightarrow> dedup_ok (dedup_step d op)"
  by (cases op) (simp_all add: dedup_ok_Begin dedup_ok_Abort dedup_ok_MarkDelivered)

lemma dedup_max_step [simp]: "max_recent_delivered (dedup_step d op) = max_recent_delivered d"
  by (cases op)
    (auto simp: Begin_def Abort_def MarkDelivered_def split: option.split DedupState.split prod.split)

interpretation dd: claim_table dedup_step "\<lambda>_ _. True" dedup_ok
  "\<lambda>i d. dedup_states d i \<noteq> None" dedup_acquires dedup_releases
proof (unfold_locales, goal_cases)
  case (1 s op)
  then show ?case by (simp add: dedup_ok_step)
next
  case (2 s op k)
  then show ?case by (cases op) (auto simp: Begin_def split: option.splits if_splits)
next
  case (3 s op k)
  show ?case
  proof (cases op)
    case (OpBegin j)
    with 3 show ?thesis by (auto simp: Begin_def split: option.split)
  next
    case (OpAbort j)
    with 3 show ?thesis
      by (cases "j = k") (auto simp: Abort_def dedup_ok_def split: option.splits DedupState.splits)
  next
    case (OpMarkDelivered j)
    show ?thesis
    proof (cases "Valid j \<and> dedup_states s j = Some kProcessing")
      case True
      with OpMarkDelivered 3 show ?thesis
        by (auto simp: MarkDelivered_processing dedup_ok_def)
    next
      case False
      with OpMarkDelivered 3 show ?thesis by (simp add: MarkDelivered_other)
    qed
  qed
next
  case (4 s op k)
  then show ?case by (cases op) (auto simp: Begin_def split: option.splits if_splits)
qed

section \<open>The window of remembered deliveries\<close>

fun is_mark :: "DedupOp \<Rightarrow> bool" where
  "is_mark (OpMarkDelivered _) \<longleftrightarrow> True"
| "is_mark _ \<longleftrightarrow> False"

abbreviation marks :: "DedupOp list \<Rightarrow> nat" where
  "marks ops \<equiv> length (filter is_mark ops)"

lemma order_length_step:
  assumes "dedup_ok d"
  shows "length (delivered_order (dedup_step d op)) \<le> length (delivered_order d) + (if is_mark op then 1 else 0)"
proof (cases op)
  case (OpMarkDelivered i)
  then show ?thesis
    using assms MarkDelivered_processing [OF assms, of i] MarkDelivered_other [of i d]
    by (cases "Valid i \<and> dedup_states d i = Some kProcessing") auto
qed (auto simp: Begin_def Abort_def split: option.split DedupState.split)

text \<open>Until the window is full, only an abort gives an identity up.\<close>

lemma no_release_while_room:
  assumes "dedup_ok d" and "length (delivered_order d) + marks ops \<le> max_recent_delivered d"
    and "OpAbort i \<notin> set ops"
  shows "count_run (dedup_releases i) dedup_step d ops = 0"
  using assms
proof (induction ops arbitrary: d)
  case Nil
  then show ?case by simp
next
  case (Cons op ops)
  have "\<not> dedup_releases i d op" using Cons.prems by (cases op) auto
  moreover have "count_run (dedup_releases i) dedup_step (dedup_step d op) ops = 0"
    using Cons.prems order_length_step [OF Cons.prems(1), of op]
    by (intro Cons.IH) (auto simp: dedup_ok_step split: if_splits)
  ultimately show ?case by simp
qed

lemma MarkDelivered_order:
  assumes ok: "dedup_ok d" and at: "delivered_order d = pre @ i # suf"
    and room: "Suc (length suf) < max_recent_delivered d"
  shows "\<exists>pre' suf'. delivered_order (snd (MarkDelivered j d)) = pre' @ i # suf' \<and> length suf' \<le> Suc (length suf)"
proof (cases "Valid j \<and> dedup_states d j = Some kProcessing")
  case True
  have "\<exists>pre'. delivered_order (snd (MarkDelivered j d)) = pre' @ i # (suf @ [j])"
  proof (cases pre)
    case Nil
    with True at room ok show ?thesis by (auto simp: MarkDelivered_processing)
  next
    case (Cons x xs)
    with True at ok show ?thesis by (auto simp: MarkDelivered_processing)
  qed
  then show ?thesis by (metis length_append_singleton order_refl)
next
  case False
  with at show ?thesis by (intro exI [of _ pre] exI [of _ suf]) (simp add: MarkDelivered_other)
qed

lemma remembered_run:
  assumes "dedup_ok d" and "delivered_order d = pre @ i # suf"
    and "length suf + marks ops < max_recent_delivered d"
  shows "dedup_states (run_ops dedup_step d ops) i = Some kDelivered"
  using assms
proof (induction ops arbitrary: d pre suf)
  case Nil
  then show ?case by (auto simp: dedup_ok_def)
next
  case (Cons op ops)
  have "\<exists>pre' suf'. delivered_order (dedup_step d op) = pre' @ i # suf'
      \<and> length suf' + marks ops < max_recent_delivered d"
  proof (cases op)
    case (OpMarkDelivered j)
    with Cons.prems have room: "Suc (length suf) + marks ops < max_recent_delivered d" by simp
    then obtain pre' suf' where "delivered_order (snd (MarkDelivered j d)) = pre' @ i # suf'"
      "length suf' \<le> Suc (length suf)"
      using MarkDelivered_order [OF Cons.prems(1,2), of j] by auto
    with OpMarkDelivered room show ?thesis by (intro exI [of _ pre'] exI [of _ suf']) simp
  qed (use Cons.prems in \<open>auto simp: Begin_def Abort_def split: option.split DedupState.split\<close>)
  then obtain pre' suf' where "delivered_order (dedup_step d op) = pre' @ i # suf'"
    "length suf' + marks ops < max_recent_delivered (dedup_step d op)" by auto
  with Cons.IH [OF dedup_ok_step [OF Cons.prems(1)]] show ?case by simp
qed

lemma MarkDelivered_last:
  assumes "dedup_ok d" and "fst (MarkDelivered i d)" and "dedup_states d i = Some kProcessing"
  shows "\<exists>pre. delivered_order (snd (MarkDelivered i d)) = pre @ [i]"
proof -
  have "Valid i" using assms(1,3) by (auto simp: dedup_ok_def)
  then show ?thesis using assms by (auto simp: MarkDelivered_processing)
qed

text \<open>A delivery that was begun stays known: in progress until its own completion, whatever other deliveries complete meanwhile, and
  after it until the window is filled by later ones.\<close>

definition still_known :: "DeliveryIdentity \<Rightarrow> MessageDeliveryDeduplicator \<Rightarrow> DedupOp list \<Rightarrow> bool" where
  "still_known i d ops \<longleftrightarrow>
     (dedup_states d i = Some kProcessing \<and> marks (dropWhile (\<lambda>op. op \<noteq> OpMarkDelivered i) ops) \<le> max_recent_delivered d)
     \<or> (\<exists>pre suf. delivered_order d = pre @ i # suf \<and> length suf + marks ops < max_recent_delivered d)"

lemma still_known_states: "dedup_ok d \<Longrightarrow> still_known i d ops \<Longrightarrow> dedup_states d i \<noteq> None"
  by (auto simp: still_known_def dedup_ok_def)

lemma processing_kept:
  assumes ok: "dedup_ok d" and i: "dedup_states d i = Some kProcessing" and op: "op \<noteq> OpAbort i" "op \<noteq> OpMarkDelivered i"
  shows "dedup_states (dedup_step d op) i = Some kProcessing"
proof (cases op)
  case (OpMarkDelivered j)
  have "i \<notin> set (delivered_order d)" using ok i by (auto simp: dedup_ok_def)
  moreover have "hd (delivered_order d) \<in> set (delivered_order d)" if "\<not> length (delivered_order d) < max_recent_delivered d"
    using ok that by (intro hd_in_set) (auto simp: dedup_ok_def)
  ultimately have "hd (delivered_order d) \<noteq> i" if "\<not> length (delivered_order d) < max_recent_delivered d" using that by metis
  with OpMarkDelivered op i ok show ?thesis
    by (cases "Valid j \<and> dedup_states d j = Some kProcessing") (auto simp: MarkDelivered_processing MarkDelivered_other)
qed (use i op in \<open>auto simp: Begin_def Abort_def split: option.split DedupState.split\<close>)

lemma still_known_step:
  assumes ok: "dedup_ok d" and known: "still_known i d (op # ops)" and op: "op \<noteq> OpAbort i"
  shows "still_known i (dedup_step d op) ops"
  using known [unfolded still_known_def]
proof (elim disjE conjE exE)
  assume i: "dedup_states d i = Some kProcessing" and room: "marks (dropWhile (\<lambda>op. op \<noteq> OpMarkDelivered i) (op # ops)) \<le> max_recent_delivered d"
  show ?thesis
  proof (cases "op = OpMarkDelivered i")
    case True
    have "Valid i" using ok i by (auto simp: dedup_ok_def)
    then obtain pre where "delivered_order (dedup_step d op) = pre @ [i]"
      using MarkDelivered_last [OF ok _ i] MarkDelivered_processing [OF ok _ i] True by auto
    with room True have "delivered_order (dedup_step d op) = pre @ i # [] \<and> length [] + marks ops < max_recent_delivered (dedup_step d op)"
      by (simp del: dedup_step.simps)
    then show ?thesis unfolding still_known_def by blast
  next
    case False
    with room processing_kept [OF ok i op] show ?thesis by (simp add: still_known_def)
  qed
next
  fix pre suf
  assume at: "delivered_order d = pre @ i # suf" and room: "length suf + marks (op # ops) < max_recent_delivered d"
  have "\<exists>pre' suf'. delivered_order (dedup_step d op) = pre' @ i # suf' \<and> length suf' + marks ops < max_recent_delivered d"
  proof (cases op)
    case (OpMarkDelivered j)
    with room obtain pre' suf' where "delivered_order (snd (MarkDelivered j d)) = pre' @ i # suf'" "length suf' \<le> Suc (length suf)"
      using MarkDelivered_order [OF ok at, of j] by auto
    with OpMarkDelivered room show ?thesis by (intro exI [of _ pre'] exI [of _ suf']) simp
  qed (use at room in \<open>auto simp: Begin_def Abort_def split: option.split DedupState.split\<close>)
  then show ?thesis by (auto simp: still_known_def)
qed

lemma still_known_not_acquired:
  "\<lbrakk>dedup_ok d; still_known i d ops; OpAbort i \<notin> set ops\<rbrakk> \<Longrightarrow> count_run (dedup_acquires i) dedup_step d ops = 0"
proof (induction ops arbitrary: d)
  case (Cons op ops)
  have "\<not> dedup_acquires i d op"
    using still_known_states [OF Cons.prems(1,2)] by (cases op) (auto simp: Begin_def split: if_splits option.splits)
  moreover have "count_run (dedup_acquires i) dedup_step (dedup_step d op) ops = 0"
    using Cons.prems still_known_step [OF Cons.prems(1,2)] by (intro Cons.IH) (auto simp: dedup_ok_step)
  ultimately show ?case by simp
qed simp

section \<open>Properties\<close>

text \<open>C11: a delivery is executed at most once. After any history of calls, once \<open>Begin\<close> has handed out the right to execute \<open>i\<close>, it does
  not hand it out again in any further calls that do not abort \<open>i\<close>: any number of other deliveries may be completed before \<open>i\<close> is,
  and from the completion of \<open>i\<close> on (which counts) as many as the window remembers.\<close>

theorem dedup_at_most_once:
  assumes "d = run_ops dedup_step (MessageDeliveryDeduplicator_new n) before" and "Begin i d = (kAcquired, d')"
    and "OpAbort i \<notin> set ops" and "marks (dropWhile (\<lambda>op. op \<noteq> OpMarkDelivered i) ops) \<le> max n 1"
  shows "count_run (dedup_acquires i) dedup_step d' ops = 0"
proof -
  have ok: "dedup_ok d" unfolding assms(1) by (rule dd.run_invar) simp_all
  have mx: "max_recent_delivered d = max n 1" unfolding assms(1)
    using dd.run_relates [of "\<lambda>s t. max_recent_delivered t = max_recent_delivered s" "MessageDeliveryDeduplicator_new n" before] by simp
  have "dedup_states d' i = Some kProcessing" "max_recent_delivered d' = max n 1"
    using assms(2) mx by (auto simp: Begin_def split: if_splits option.splits)
  then have "still_known i d' ops" using assms(4) by (simp add: still_known_def)
  moreover have "dedup_ok d'" using dedup_ok_Begin [OF ok, of i] assms(2) by simp
  ultimately show ?thesis using still_known_not_acquired assms(3) by blast
qed

text \<open>A window of two that is full when delivery 5 begins; another delivery completes before it, one after it.\<close>

theorem dedup_at_most_once_witness:
  "let i = PrivateDeliveryIdentity 5 9; j = PrivateDeliveryIdentity 6 9; k = PrivateDeliveryIdentity 7 9;
       l = PrivateDeliveryIdentity 8 9; m = PrivateDeliveryIdentity 10 9;
       d = run_ops dedup_step (MessageDeliveryDeduplicator_new 2) [OpBegin j, OpMarkDelivered j, OpBegin k, OpMarkDelivered k, OpBegin l, OpBegin m]
   in fst (Begin i d) = kAcquired
     \<and> count_run (dedup_acquires i) dedup_step (snd (Begin i d)) [OpMarkDelivered l, OpBegin i, OpMarkDelivered i, OpMarkDelivered m, OpBegin i] = 0"
proof -
  define d where "d = run_ops dedup_step (MessageDeliveryDeduplicator_new 2) [OpBegin (PrivateDeliveryIdentity 6 9), OpMarkDelivered (PrivateDeliveryIdentity 6 9),
    OpBegin (PrivateDeliveryIdentity 7 9), OpMarkDelivered (PrivateDeliveryIdentity 7 9), OpBegin (PrivateDeliveryIdentity 8 9), OpBegin (PrivateDeliveryIdentity 10 9)]"
  have "Begin (PrivateDeliveryIdentity 5 9) d = (kAcquired, snd (Begin (PrivateDeliveryIdentity 5 9) d))"
    by (simp add: d_def MessageDeliveryDeduplicator_new_def Begin_def MarkDelivered_def Valid_def PrivateDeliveryIdentity_def)
  moreover from dedup_at_most_once [OF d_def this, of "[OpMarkDelivered (PrivateDeliveryIdentity 8 9), OpBegin (PrivateDeliveryIdentity 5 9),
      OpMarkDelivered (PrivateDeliveryIdentity 5 9), OpMarkDelivered (PrivateDeliveryIdentity 10 9), OpBegin (PrivateDeliveryIdentity 5 9)]"]
  have "count_run (dedup_acquires (PrivateDeliveryIdentity 5 9)) dedup_step (snd (Begin (PrivateDeliveryIdentity 5 9) d))
      [OpMarkDelivered (PrivateDeliveryIdentity 8 9), OpBegin (PrivateDeliveryIdentity 5 9),
       OpMarkDelivered (PrivateDeliveryIdentity 5 9), OpMarkDelivered (PrivateDeliveryIdentity 10 9), OpBegin (PrivateDeliveryIdentity 5 9)] = 0"
    by (simp add: PrivateDeliveryIdentity_def del: count_run.simps)
  ultimately show ?thesis unfolding Let_def d_def [symmetric] by (metis fst_conv)
qed

text \<open>Acquisitions and releases alternate. Over any run whatsoever, the number of times the right on
  \<open>i\<close> is handed out exceeds the number of times it was given up (by an abort, or by falling out of the window)
  by at most one; in particular two workers never hold it together.\<close>

theorem dedup_acquire_release_alternate:
  "count_run (dedup_acquires i) dedup_step (MessageDeliveryDeduplicator_new n) ops
     \<le> count_run (dedup_releases i) dedup_step (MessageDeliveryDeduplicator_new n) ops + 1"
  using dd.acquisitions_bound [of "MessageDeliveryDeduplicator_new n" ops i]
  by simp

text \<open>A completed delivery is remembered. After \<open>MarkDelivered i\<close> has completed a delivery in progress,
  every \<open>Begin i\<close> answers \<open>kAlreadyDelivered\<close> and every \<open>Abort i\<close> is refused, as long as fewer than
  \<open>max_recent_delivered\<close> further completions happened.\<close>

theorem delivered_is_remembered:
  assumes "d = run_ops dedup_step (MessageDeliveryDeduplicator_new n) before"
    and "dedup_states d i = Some kProcessing" and "marks ops < max n 1"
  defines "d' \<equiv> run_ops dedup_step (snd (MarkDelivered i d)) ops"
  shows "fst (MarkDelivered i d) \<and> fst (Begin i d') = kAlreadyDelivered \<and> fst (Abort i d') = False"
proof -
  have ok: "dedup_ok d" unfolding assms(1) by (rule dd.run_invar) simp_all
  then have v: "Valid i" using assms(2) by (auto simp: dedup_ok_def)
  have mx: "max_recent_delivered d = max n 1" unfolding assms(1)
    using dd.run_relates [of "\<lambda>s t. max_recent_delivered t = max_recent_delivered s"
        "MessageDeliveryDeduplicator_new n" before]
    by simp
  have fst: "fst (MarkDelivered i d)" using MarkDelivered_processing [OF ok v assms(2)] by simp
  obtain pre where pre: "delivered_order (snd (MarkDelivered i d)) = pre @ [i]"
    using MarkDelivered_last [OF ok fst assms(2)] by blast
  have "max_recent_delivered (snd (MarkDelivered i d)) = max n 1"
    using dedup_max_step [of d "OpMarkDelivered i"] mx by simp
  then have "dedup_states d' i = Some kDelivered" unfolding d'_def
    using pre assms(3) dedup_ok_MarkDelivered [OF ok] by (intro remembered_run [where pre = pre and suf = "[]"]) auto
  with fst v show ?thesis by (simp add: Begin_def Abort_def)
qed

theorem delivered_is_remembered_witness:
  "let i = PrivateDeliveryIdentity 5 9; j = PrivateDeliveryIdentity 6 9;
       d = run_ops dedup_step (MessageDeliveryDeduplicator_new 2) [OpBegin i, OpBegin j];
       d' = run_ops dedup_step (snd (MarkDelivered i d)) [OpMarkDelivered j]
   in fst (MarkDelivered i d) \<and> fst (Begin i d') = kAlreadyDelivered \<and> fst (Abort i d') = False"
  unfolding Let_def
  by (rule delivered_is_remembered [OF refl])
    (simp_all add: Begin_def Valid_def PrivateDeliveryIdentity_def)

text \<open>The deduplicator's memory is bounded. After any run the queue of delivered identities is no
  longer than configured, holds each delivered identity once, and the map holds nothing but the delivered and the
  deliveries in progress, all with valid identities.\<close>

theorem dedup_memory_bounded:
  "let d = run_ops dedup_step (MessageDeliveryDeduplicator_new n) ops in
   DeliveredCount d \<le> max n 1 \<and> distinct (delivered_order d)
   \<and> DeduplicatorSize d = DeliveredCount d + card {i. dedup_states d i = Some kProcessing}
   \<and> dom (dedup_states d) \<subseteq> Collect Valid"
proof -
  define d where "d = run_ops dedup_step (MessageDeliveryDeduplicator_new n) ops"
  have ok: "dedup_ok d" unfolding d_def by (rule dd.run_invar) simp_all
  have mx: "max_recent_delivered d = max n 1" unfolding d_def
    using dd.run_relates [of "\<lambda>s t. max_recent_delivered t = max_recent_delivered s"
        "MessageDeliveryDeduplicator_new n" ops]
    by simp
  have parts: "dom (dedup_states d) = set (delivered_order d) \<union> {i. dedup_states d i = Some kProcessing}"
    using ok by (auto simp: dedup_ok_def) (metis DedupState.exhaust)
  have "card (dom (dedup_states d)) = length (delivered_order d) + card {i. dedup_states d i = Some kProcessing}"
  proof -
    have "finite {i. dedup_states d i = Some kProcessing}"
      using ok by (auto simp: dedup_ok_def intro: finite_subset [of _ "dom (dedup_states d)"])
    moreover have "set (delivered_order d) \<inter> {i. dedup_states d i = Some kProcessing} = {}"
      using ok by (auto simp: dedup_ok_def)
    moreover have "card (set (delivered_order d)) = length (delivered_order d)"
      using ok by (intro distinct_card) (simp add: dedup_ok_def)
    ultimately show ?thesis using parts by (simp add: card_Un_disjoint)
  qed
  with ok mx show ?thesis
    unfolding d_def [symmetric] Let_def
    by (auto simp: dedup_ok_def DeliveredCount_def DeduplicatorSize_def)
qed

end
