(* ===== verification/Receiver_Tracker.thy ===== *)
theory Receiver_Tracker
  imports Delivery_Dedup
begin

text \<open>
  The gateway's record of deliveries that wait for the receiver's acknowledgement,
  \<open>gateway/ReceiverDeliveryTracker.{h,cpp}\<close>, and its use by \<open>gateway/PrivateReceiverAck.h\<close>. The class keeps one
  entry per delivery identity with all attempt sequence numbers sent for it, an index of the receivers of private
  messages, a queue of the most recently confirmed identities, and running totals (entries, bytes, attempts, and a
  window per recipient) against which new attempts are admitted.

  Every public method is one atomic step. \<open>std::size_t\<close> totals are natural numbers, sequence numbers and attempt
  counts are 32 bit words. An \<open>at\<close> on a missing key (an exception) and the use of an end iterator are the result
  \<open>None\<close>. The time of a call and the clock's reported resolution are arguments. Failure of an allocation is not
  modelled.
\<close>

section \<open>Data\<close>

datatype ReceiverDeliveryRegisterStatus =
    kRegistered | kRetryRegistered | kDuplicateAttempt | kAlreadyConfirmed | kReceiverMismatch
  | kInvalidArgument | kWindowFull | kWaitingAck

datatype ReceiverDeliveryAckStatus =
  kConfirmed | kDuplicate | kUnknownMessage | kReceiverMismatch | kUnknownAttempt | kInvalidArgument

datatype ReceiverDeliveryRetryRegisterStatus =
    kRetryRegistered | kAlreadyConfirmed | kStaleAttempt | kAttemptLimitReached | kReceiverMismatch
  | kDuplicateAttempt | kUnknownMessage | kInvalidArgument

record ReceiverDeliverySnapshot =
  snap_identity :: DeliveryIdentity
  snap_current_delivery_seq :: u32
  snap_attempt_count :: u32
  snap_confirmed :: bool

record WindowOptions =
  max_waiting_entries :: nat
  max_waiting_per_recipient :: nat
  max_waiting_bytes :: nat
  max_bytes_per_recipient :: nat
  max_attempt_sequences :: nat
  recovery_resend_cooldown :: int

record WindowStats =
  stat_waiting_entries :: nat
  stat_waiting_bytes :: nat
  stat_waiting_recipients :: nat
  stat_attempt_sequences :: nat

record ReplayRegistration =
  reg_status :: ReceiverDeliveryRegisterStatus
  reg_delivery_seq :: u32
  reg_reused_attempt :: bool

record Entry =
  current_delivery_seq :: u32
  attempt_count :: u32
  entry_confirmed :: bool
  attempt_seqs :: "u32 set"
  wire_bytes :: nat
  last_attempt_at :: int

record RecipientWindow =
  win_entries :: nat
  win_bytes :: nat

record ReceiverDeliveryTracker =
  max_recent_confirmed :: nat
  window_options :: WindowOptions
  entries :: "DeliveryIdentity \<rightharpoonup> Entry"
  private_receivers :: "u64 \<rightharpoonup> u64"
  confirmed_order :: "DeliveryIdentity list"
  waiting_by_recipient :: "u64 \<rightharpoonup> RecipientWindow"
  waiting_entries :: nat
  waiting_bytes :: nat
  attempt_sequences :: nat

section \<open>Operations\<close>

definition ReceiverDeliveryTracker_new :: "nat \<Rightarrow> WindowOptions \<Rightarrow> ReceiverDeliveryTracker" where
  "ReceiverDeliveryTracker_new n o' =
     \<lparr>max_recent_confirmed = max n 1,
      window_options =
        \<lparr>max_waiting_entries = max 1 (max_waiting_entries o'),
         max_waiting_per_recipient = max 1 (max_waiting_per_recipient o'),
         max_waiting_bytes = max 1 (max_waiting_bytes o'),
         max_bytes_per_recipient = max 1 (max_bytes_per_recipient o'),
         max_attempt_sequences = max 1 (max_attempt_sequences o'),
         recovery_resend_cooldown = max (recovery_resend_cooldown o') 1\<rparr>,
      entries = Map.empty, private_receivers = Map.empty, confirmed_order = [],
      waiting_by_recipient = Map.empty, waiting_entries = 0, waiting_bytes = 0, attempt_sequences = 0\<rparr>"

definition recipient_bytes :: "u64 \<Rightarrow> ReceiverDeliveryTracker \<Rightarrow> nat" where
  "recipient_bytes r t = (case waiting_by_recipient t r of None \<Rightarrow> 0 | Some w \<Rightarrow> win_bytes w)"

definition recipient_entries :: "u64 \<Rightarrow> ReceiverDeliveryTracker \<Rightarrow> nat" where
  "recipient_entries r t = (case waiting_by_recipient t r of None \<Rightarrow> 0 | Some w \<Rightarrow> win_entries w)"

definition ByteRoomLocked :: "u64 \<Rightarrow> nat \<Rightarrow> ReceiverDeliveryTracker \<Rightarrow> bool" where
  "ByteRoomLocked r extra t \<longleftrightarrow>
     waiting_bytes t \<le> max_waiting_bytes (window_options t)
     \<and> extra \<le> max_waiting_bytes (window_options t) - waiting_bytes t
     \<and> recipient_bytes r t \<le> max_bytes_per_recipient (window_options t)
     \<and> extra \<le> max_bytes_per_recipient (window_options t) - recipient_bytes r t"

text \<open>The byte totals after one entry grew by \<open>extra\<close>; \<open>waiting_by_recipient_.at\<close> can fail.\<close>

definition grow_bytes :: "u64 \<Rightarrow> nat \<Rightarrow> ReceiverDeliveryTracker \<Rightarrow> ReceiverDeliveryTracker option" where
  "grow_bytes r extra t =
     (case waiting_by_recipient t r of
        None \<Rightarrow> None
      | Some w \<Rightarrow> Some (t\<lparr>waiting_bytes := waiting_bytes t + extra,
          waiting_by_recipient := (waiting_by_recipient t)(r \<mapsto> w\<lparr>win_bytes := win_bytes w + extra\<rparr>)\<rparr>))"

definition RegisterAttemptLocked :: "DeliveryIdentity \<Rightarrow> u32 \<Rightarrow> nat \<Rightarrow> int \<Rightarrow> ReceiverDeliveryTracker \<Rightarrow>
    (ReceiverDeliveryRegisterStatus \<times> ReceiverDeliveryTracker) option" where
  "RegisterAttemptLocked i seq bytes now t =
     (let r = recipient_user_id i; opts = window_options t in
      case entries t i of
        None \<Rightarrow>
          if domain i = kPrivateMessage \<and> private_receivers t (message_id i) \<noteq> None
          then Some (ReceiverDeliveryRegisterStatus.kReceiverMismatch, t)
          else if waiting_entries t \<ge> max_waiting_entries opts
               \<or> recipient_entries r t \<ge> max_waiting_per_recipient opts
               \<or> \<not> ByteRoomLocked r bytes t
          then Some (kWindowFull, t)
          else Some (kRegistered, t\<lparr>
            entries := (entries t)(i \<mapsto> \<lparr>current_delivery_seq = seq, attempt_count = 1, entry_confirmed = False,
              attempt_seqs = {seq}, wire_bytes = bytes, last_attempt_at = now\<rparr>),
            private_receivers := (if domain i = kPrivateMessage
              then (private_receivers t)(message_id i \<mapsto> r) else private_receivers t),
            waiting_by_recipient := (waiting_by_recipient t)(r \<mapsto>
              \<lparr>win_entries = recipient_entries r t + 1, win_bytes = recipient_bytes r t + bytes\<rparr>),
            waiting_entries := waiting_entries t + 1,
            waiting_bytes := waiting_bytes t + bytes,
            attempt_sequences := attempt_sequences t + 1\<rparr>)
      | Some e \<Rightarrow>
          if entry_confirmed e then Some (ReceiverDeliveryRegisterStatus.kAlreadyConfirmed, t)
          else if seq \<in> attempt_seqs e then Some (ReceiverDeliveryRegisterStatus.kDuplicateAttempt, t)
          else let extra = (if bytes > wire_bytes e then bytes - wire_bytes e else 0) in
            if card (attempt_seqs e) \<ge> max_attempt_sequences opts \<or> \<not> ByteRoomLocked r extra t
            then Some (kWindowFull, t)
            else map_option (Pair ReceiverDeliveryRegisterStatus.kRetryRegistered) (grow_bytes r extra (t\<lparr>
              entries := (entries t)(i \<mapsto> e\<lparr>current_delivery_seq := seq, attempt_count := attempt_count e + 1,
                attempt_seqs := insert seq (attempt_seqs e), wire_bytes := wire_bytes e + extra,
                last_attempt_at := now\<rparr>),
              attempt_sequences := attempt_sequences t + 1\<rparr>)))"

definition RegisterAttempt :: "DeliveryIdentity \<Rightarrow> u32 \<Rightarrow> nat \<Rightarrow> int \<Rightarrow> ReceiverDeliveryTracker \<Rightarrow>
    (ReceiverDeliveryRegisterStatus \<times> ReceiverDeliveryTracker) option" where
  "RegisterAttempt i seq bytes now t =
     (if \<not> Valid i \<or> seq = 0 then Some (ReceiverDeliveryRegisterStatus.kInvalidArgument, t)
      else RegisterAttemptLocked i seq bytes now t)"

definition RegisterReplayAttempt :: "DeliveryIdentity \<Rightarrow> u32 \<Rightarrow> nat \<Rightarrow> int \<Rightarrow> int \<Rightarrow> ReceiverDeliveryTracker \<Rightarrow>
    (ReplayRegistration \<times> ReceiverDeliveryTracker) option" where
  "RegisterReplayAttempt i proposed bytes now uncertainty t =
     (let out = (\<lambda>s q u. \<lparr>reg_status = s, reg_delivery_seq = q, reg_reused_attempt = u\<rparr>);
          locked = map_option (\<lambda>(s, t'). (out s (if s = kRegistered \<or> s = ReceiverDeliveryRegisterStatus.kRetryRegistered
                     then proposed else 0) False, t')) (RegisterAttemptLocked i proposed bytes now t)
      in
      if \<not> Valid i \<or> proposed = 0 then Some (out ReceiverDeliveryRegisterStatus.kInvalidArgument 0 False, t)
      else case entries t i of
        None \<Rightarrow> locked
      | Some e \<Rightarrow>
          if entry_confirmed e then locked
          else if now < last_attempt_at e + recovery_resend_cooldown (window_options t) + uncertainty
          then Some (out kWaitingAck 0 False, t)
          else if card (attempt_seqs e) \<ge> max_attempt_sequences (window_options t) then
            let extra = (if bytes > wire_bytes e then bytes - wire_bytes e else 0) in
            if \<not> ByteRoomLocked (recipient_user_id i) extra t then Some (out kWindowFull 0 False, t)
            else map_option (Pair (out ReceiverDeliveryRegisterStatus.kRetryRegistered (current_delivery_seq e) True))
              (grow_bytes (recipient_user_id i) extra (t\<lparr>entries := (entries t)(i \<mapsto>
                 e\<lparr>wire_bytes := wire_bytes e + extra, last_attempt_at := now\<rparr>)\<rparr>))
          else locked)"

definition RegisterRetryAttempt :: "DeliveryIdentity \<Rightarrow> u32 \<Rightarrow> u32 \<Rightarrow> u32 \<Rightarrow> int \<Rightarrow> ReceiverDeliveryTracker \<Rightarrow>
    ReceiverDeliveryRetryRegisterStatus \<times> ReceiverDeliveryTracker" where
  "RegisterRetryAttempt i expected seq max_attempts now t =
     (if \<not> Valid i \<or> expected = 0 \<or> seq = 0 \<or> max_attempts = 0
      then (ReceiverDeliveryRetryRegisterStatus.kInvalidArgument, t)
      else case entries t i of
        None \<Rightarrow>
          (if domain i = kPrivateMessage \<and> private_receivers t (message_id i) \<noteq> None
           then (ReceiverDeliveryRetryRegisterStatus.kReceiverMismatch, t)
           else (ReceiverDeliveryRetryRegisterStatus.kUnknownMessage, t))
      | Some e \<Rightarrow>
          if entry_confirmed e then (ReceiverDeliveryRetryRegisterStatus.kAlreadyConfirmed, t)
          else if current_delivery_seq e \<noteq> expected then (kStaleAttempt, t)
          else if attempt_count e \<ge> max_attempts
               \<or> card (attempt_seqs e) \<ge> max_attempt_sequences (window_options t)
          then (kAttemptLimitReached, t)
          else if seq \<in> attempt_seqs e then (ReceiverDeliveryRetryRegisterStatus.kDuplicateAttempt, t)
          else (ReceiverDeliveryRetryRegisterStatus.kRetryRegistered, t\<lparr>
            entries := (entries t)(i \<mapsto> e\<lparr>current_delivery_seq := seq, attempt_count := attempt_count e + 1,
              attempt_seqs := insert seq (attempt_seqs e), last_attempt_at := now\<rparr>),
            attempt_sequences := attempt_sequences t + 1\<rparr>))"

definition trim_one :: "DeliveryIdentity \<Rightarrow> ReceiverDeliveryTracker \<Rightarrow> ReceiverDeliveryTracker" where
  "trim_one oldest t =
     (case entries t oldest of
        None \<Rightarrow> t
      | Some e \<Rightarrow>
          if entry_confirmed e then t\<lparr>
            attempt_sequences := attempt_sequences t - card (attempt_seqs e),
            private_receivers := (if domain oldest = kPrivateMessage
              then (private_receivers t)(message_id oldest := None) else private_receivers t),
            entries := (entries t)(oldest := None)\<rparr>
          else t)"

function TrimConfirmedLocked :: "ReceiverDeliveryTracker \<Rightarrow> ReceiverDeliveryTracker" where
  "TrimConfirmedLocked t =
     (if length (confirmed_order t) > max_recent_confirmed t
      then TrimConfirmedLocked (trim_one (hd (confirmed_order t)) (t\<lparr>confirmed_order := tl (confirmed_order t)\<rparr>))
      else t)"
  by pat_completeness auto
termination
  by (relation "measure (\<lambda>t. length (confirmed_order t))") (auto simp: trim_one_def split: option.split)

definition Acknowledge :: "DeliveryIdentity \<Rightarrow> u32 \<Rightarrow> ReceiverDeliveryTracker \<Rightarrow>
    (ReceiverDeliveryAckStatus \<times> ReceiverDeliveryTracker) option" where
  "Acknowledge i seq t =
     (if \<not> Valid i \<or> seq = 0 then Some (ReceiverDeliveryAckStatus.kInvalidArgument, t)
      else case entries t i of
        None \<Rightarrow>
          Some (if domain i = kPrivateMessage \<and> private_receivers t (message_id i) \<noteq> None
                then ReceiverDeliveryAckStatus.kReceiverMismatch else ReceiverDeliveryAckStatus.kUnknownMessage, t)
      | Some e \<Rightarrow>
          if seq \<notin> attempt_seqs e then Some (kUnknownAttempt, t)
          else if entry_confirmed e then Some (kDuplicate, t)
          else case waiting_by_recipient t (recipient_user_id i) of
            None \<Rightarrow> None
          | Some w \<Rightarrow>
              let w' = \<lparr>win_entries = win_entries w - 1, win_bytes = win_bytes w - wire_bytes e\<rparr> in
              Some (kConfirmed, TrimConfirmedLocked (t\<lparr>
                confirmed_order := confirmed_order t @ [i],
                entries := (entries t)(i \<mapsto> e\<lparr>entry_confirmed := True, wire_bytes := 0\<rparr>),
                waiting_entries := waiting_entries t - 1,
                waiting_bytes := waiting_bytes t - wire_bytes e,
                waiting_by_recipient := (waiting_by_recipient t)(recipient_user_id i :=
                  (if win_entries w' = 0 then None else Some w'))\<rparr>)))"

definition GetSnapshot :: "DeliveryIdentity \<Rightarrow> ReceiverDeliveryTracker \<Rightarrow> ReceiverDeliverySnapshot option" where
  "GetSnapshot i t =
     (if \<not> Valid i then None
      else map_option (\<lambda>e. \<lparr>snap_identity = i, snap_current_delivery_seq = current_delivery_seq e,
        snap_attempt_count = attempt_count e, snap_confirmed = entry_confirmed e\<rparr>) (entries t i))"

definition GetSnapshotByMessage :: "u64 \<Rightarrow> ReceiverDeliveryTracker \<Rightarrow> ReceiverDeliverySnapshot option" where
  "GetSnapshotByMessage m t =
     (if m = 0 then None
      else case private_receivers t m of
        None \<Rightarrow> None
      | Some r \<Rightarrow>
          map_option (\<lambda>e. \<lparr>snap_identity = PrivateDeliveryIdentity m r, snap_current_delivery_seq = current_delivery_seq e,
            snap_attempt_count = attempt_count e, snap_confirmed = entry_confirmed e\<rparr>)
            (entries t (PrivateDeliveryIdentity m r)))"

definition TrackerSize :: "ReceiverDeliveryTracker \<Rightarrow> nat" where
  "TrackerSize t = card (dom (entries t))"

definition ConfirmedCount :: "ReceiverDeliveryTracker \<Rightarrow> nat" where
  "ConfirmedCount t = length (confirmed_order t)"

definition GetWindowStats :: "ReceiverDeliveryTracker \<Rightarrow> WindowStats" where
  "GetWindowStats t = \<lparr>stat_waiting_entries = waiting_entries t, stat_waiting_bytes = waiting_bytes t,
     stat_waiting_recipients = card (dom (waiting_by_recipient t)), stat_attempt_sequences = attempt_sequences t\<rparr>"

text \<open>\<open>ProcessPrivateReceiverAck\<close>: the durable confirmation, an RPC, is called only for an acknowledgement the
  tracker knows; \<open>confirm\<close> is what that call returns.\<close>

definition ProcessPrivateReceiverAck :: "u64 \<Rightarrow> u64 \<Rightarrow> u32 \<Rightarrow> bool \<Rightarrow> ReceiverDeliveryTracker \<Rightarrow>
    ((ReceiverDeliveryAckStatus \<times> bool) \<times> ReceiverDeliveryTracker) option" where
  "ProcessPrivateReceiverAck m receiver seq confirm t =
     map_option (\<lambda>(s, t'). ((s, if s = kConfirmed \<or> s = kDuplicate then confirm else False), t'))
       (Acknowledge (PrivateDeliveryIdentity m receiver) seq t)"

section \<open>Calls\<close>

datatype TrackerOp =
    OpRegisterAttempt DeliveryIdentity u32 nat int
  | OpRegisterReplayAttempt DeliveryIdentity u32 nat int int
  | OpRegisterRetryAttempt DeliveryIdentity u32 u32 u32 int
  | OpAcknowledge DeliveryIdentity u32

fun tracker_step :: "ReceiverDeliveryTracker \<Rightarrow> TrackerOp \<Rightarrow> ReceiverDeliveryTracker option" where
  "tracker_step t (OpRegisterAttempt i seq bytes now) = map_option snd (RegisterAttempt i seq bytes now t)"
| "tracker_step t (OpRegisterReplayAttempt i seq bytes now u) = map_option snd (RegisterReplayAttempt i seq bytes now u t)"
| "tracker_step t (OpRegisterRetryAttempt i expected seq n now) = Some (snd (RegisterRetryAttempt i expected seq n now t))"
| "tracker_step t (OpAcknowledge i seq) = map_option snd (Acknowledge i seq t)"

declare TrimConfirmedLocked.simps [simp del]

section \<open>Invariant\<close>

text \<open>The weights whose sums over the entries are the running totals of the class.\<close>

definition waiting_weight :: "DeliveryIdentity \<Rightarrow> Entry \<Rightarrow> nat" where
  "waiting_weight i e = (if entry_confirmed e then 0 else 1)"

definition byte_weight :: "DeliveryIdentity \<Rightarrow> Entry \<Rightarrow> nat" where
  "byte_weight i e = wire_bytes e"

definition attempt_weight :: "DeliveryIdentity \<Rightarrow> Entry \<Rightarrow> nat" where
  "attempt_weight i e = card (attempt_seqs e)"

definition of_recipient :: "u64 \<Rightarrow> (DeliveryIdentity \<Rightarrow> Entry \<Rightarrow> nat) \<Rightarrow> DeliveryIdentity \<Rightarrow> Entry \<Rightarrow> nat" where
  "of_recipient r f i e = (if recipient_user_id i = r then f i e else 0)"

definition entry_ok :: "WindowOptions \<Rightarrow> DeliveryIdentity \<Rightarrow> Entry \<Rightarrow> bool" where
  "entry_ok opts i e \<longleftrightarrow> Valid i \<and> finite (attempt_seqs e) \<and> current_delivery_seq e \<in> attempt_seqs e
     \<and> 0 \<notin> attempt_seqs e \<and> card (attempt_seqs e) \<le> max_attempt_sequences opts
     \<and> attempt_count e = word_of_nat (card (attempt_seqs e)) \<and> (entry_confirmed e \<longrightarrow> wire_bytes e = 0)"

definition entries_ok :: "ReceiverDeliveryTracker \<Rightarrow> bool" where
  "entries_ok t \<longleftrightarrow> finite (dom (entries t)) \<and> (\<forall>i e. entries t i = Some e \<longrightarrow> entry_ok (window_options t) i e)
     \<and> (\<forall>m r. private_receivers t m = Some r \<longleftrightarrow> entries t (PrivateDeliveryIdentity m r) \<noteq> None)"

definition totals_ok :: "ReceiverDeliveryTracker \<Rightarrow> bool" where
  "totals_ok t \<longleftrightarrow> waiting_entries t = msum waiting_weight (entries t)
     \<and> waiting_bytes t = msum byte_weight (entries t)
     \<and> attempt_sequences t = msum attempt_weight (entries t)"

definition windows_ok :: "ReceiverDeliveryTracker \<Rightarrow> bool" where
  "windows_ok t \<longleftrightarrow> (\<forall>r. recipient_entries r t = msum (of_recipient r waiting_weight) (entries t)
     \<and> recipient_bytes r t = msum (of_recipient r byte_weight) (entries t)
     \<and> (waiting_by_recipient t r \<noteq> None \<longleftrightarrow> 0 < recipient_entries r t))"

definition queue_ok :: "ReceiverDeliveryTracker \<Rightarrow> bool" where
  "queue_ok t \<longleftrightarrow> 0 < max_recent_confirmed t \<and> distinct (confirmed_order t)
     \<and> (\<forall>i. i \<in> set (confirmed_order t) \<longleftrightarrow> (\<exists>e. entries t i = Some e \<and> entry_confirmed e))"

definition limits_ok :: "ReceiverDeliveryTracker \<Rightarrow> bool" where
  "limits_ok t \<longleftrightarrow> waiting_entries t \<le> max_waiting_entries (window_options t)
     \<and> waiting_bytes t \<le> max_waiting_bytes (window_options t)
     \<and> (\<forall>r. recipient_entries r t \<le> max_waiting_per_recipient (window_options t)
          \<and> recipient_bytes r t \<le> max_bytes_per_recipient (window_options t))
     \<and> 0 < max_attempt_sequences (window_options t)"

definition tracker_ok :: "ReceiverDeliveryTracker \<Rightarrow> bool" where
  "tracker_ok t \<longleftrightarrow> entries_ok t \<and> totals_ok t \<and> windows_ok t \<and> queue_ok t \<and> limits_ok t
     \<and> length (confirmed_order t) \<le> max_recent_confirmed t"

lemmas weight_defs = waiting_weight_def byte_weight_def attempt_weight_def of_recipient_def

lemma tracker_ok_new [simp]: "tracker_ok (ReceiverDeliveryTracker_new n opts)"
  by (auto simp: tracker_ok_def entries_ok_def totals_ok_def windows_ok_def queue_ok_def limits_ok_def
      ReceiverDeliveryTracker_new_def recipient_entries_def recipient_bytes_def)

text \<open>A waiting entry has a window, and the window counts it.\<close>

lemma waiting_has_window:
  assumes "entries_ok t" "windows_ok t" and e: "entries t i = Some e" "\<not> entry_confirmed e"
  obtains w where "waiting_by_recipient t (recipient_user_id i) = Some w" "0 < win_entries w"
    "wire_bytes e \<le> win_bytes w"
proof -
  let ?r = "recipient_user_id i"
  have fin: "finite (dom (entries t))" using assms by (simp add: entries_ok_def)
  have "1 \<le> msum (of_recipient ?r waiting_weight) (entries t)"
    using msum_member_le [OF fin e(1), of "of_recipient ?r waiting_weight"] e(2) by (simp add: weight_defs)
  moreover have "wire_bytes e \<le> msum (of_recipient ?r byte_weight) (entries t)"
    using msum_member_le [OF fin e(1), of "of_recipient ?r byte_weight"] by (simp add: weight_defs)
  ultimately have "0 < recipient_entries ?r t" "wire_bytes e \<le> recipient_bytes ?r t"
    using assms by (simp_all add: windows_ok_def)
  then show ?thesis
    using that by (auto simp: recipient_entries_def recipient_bytes_def split: option.splits)
qed

lemma waiting_counted:
  assumes "entries_ok t" "totals_ok t" and e: "entries t i = Some e" "\<not> entry_confirmed e"
  shows "1 \<le> waiting_entries t" "wire_bytes e \<le> waiting_bytes t"
proof -
  have fin: "finite (dom (entries t))" using assms by (simp add: entries_ok_def)
  show "1 \<le> waiting_entries t" "wire_bytes e \<le> waiting_bytes t"
    using assms msum_member_le [OF fin e(1), of waiting_weight] msum_member_le [OF fin e(1), of byte_weight]
    by (simp_all add: totals_ok_def weight_defs)
qed

text \<open>The change of the totals when one entry changes, for all weights at once.\<close>

lemma totals_upd:
  assumes fin: "finite (dom (entries t))"
  shows "msum f ((entries t)(i := x)) + weight_at f i (entries t i) = weight_at f i x + msum f (entries t)"
  using fin by (rule msum_upd)

lemma limits_window:
  assumes "limits_ok t" and "waiting_by_recipient t r = Some w"
  shows "win_entries w \<le> max_waiting_per_recipient (window_options t)"
    and "win_bytes w \<le> max_bytes_per_recipient (window_options t)"
proof -
  have "recipient_entries r t \<le> max_waiting_per_recipient (window_options t)
      \<and> recipient_bytes r t \<le> max_bytes_per_recipient (window_options t)"
    using assms(1) by (simp add: limits_ok_def)
  with assms(2) show "win_entries w \<le> max_waiting_per_recipient (window_options t)"
    "win_bytes w \<le> max_bytes_per_recipient (window_options t)"
    by (simp_all add: recipient_entries_def recipient_bytes_def)
qed

text \<open>The subtractions of \<open>ByteRoomLocked\<close> never wrap, so that it is the comparison of the sums.\<close>

lemma ByteRoom_iff:
  "ByteRoomLocked r extra t \<longleftrightarrow> waiting_bytes t + extra \<le> max_waiting_bytes (window_options t)
     \<and> recipient_bytes r t + extra \<le> max_bytes_per_recipient (window_options t)"
  by (auto simp: ByteRoomLocked_def)

lemma private_index:
  "entries_ok t \<Longrightarrow> private_receivers t m = Some r \<longleftrightarrow> entries t (PrivateDeliveryIdentity m r) \<noteq> None"
  by (simp add: entries_ok_def)

lemma tracker_ok_add:
  fixes t :: ReceiverDeliveryTracker
  assumes ok: "tracker_ok t" and new: "entries t i = None" and v: "Valid i" "seq \<noteq> 0"
    and pr: "domain i = kPrivateMessage \<Longrightarrow> private_receivers t (message_id i) = None"
    and room: "waiting_entries t < max_waiting_entries (window_options t)"
      "recipient_entries (recipient_user_id i) t < max_waiting_per_recipient (window_options t)"
      "ByteRoomLocked (recipient_user_id i) bytes t"
  shows "tracker_ok (t\<lparr>
            entries := (entries t)(i \<mapsto> \<lparr>current_delivery_seq = seq, attempt_count = 1, entry_confirmed = False,
              attempt_seqs = {seq}, wire_bytes = bytes, last_attempt_at = now\<rparr>),
            private_receivers := (if domain i = kPrivateMessage
              then (private_receivers t)(message_id i \<mapsto> recipient_user_id i) else private_receivers t),
            waiting_by_recipient := (waiting_by_recipient t)(recipient_user_id i \<mapsto>
              \<lparr>win_entries = recipient_entries (recipient_user_id i) t + 1,
               win_bytes = recipient_bytes (recipient_user_id i) t + bytes\<rparr>),
            waiting_entries := waiting_entries t + 1,
            waiting_bytes := waiting_bytes t + bytes,
            attempt_sequences := attempt_sequences t + 1\<rparr>)" (is "tracker_ok ?t")
proof -
  let ?e = "\<lparr>current_delivery_seq = seq, attempt_count = 1, entry_confirmed = False,
              attempt_seqs = {seq}, wire_bytes = bytes, last_attempt_at = now\<rparr> :: Entry"
  have parts: "entries_ok t" "totals_ok t" "windows_ok t" "queue_ok t" "limits_ok t"
    "length (confirmed_order t) \<le> max_recent_confirmed t"
    using ok by (simp_all add: tracker_ok_def)
  have fin: "finite (dom (entries t))" using parts by (simp add: entries_ok_def)
  have sums: "msum f ((entries t)(i \<mapsto> ?e)) = f i ?e + msum f (entries t)" for f
    using totals_upd [OF fin, of f i "Some ?e"] new by simp
  have ident: "i = PrivateDeliveryIdentity m r \<longleftrightarrow> domain i = kPrivateMessage \<and> message_id i = m \<and> recipient_user_id i = r" for m r
    by (cases i) (auto simp: PrivateDeliveryIdentity_def)
  have index: "private_receivers ?t m = Some r \<longleftrightarrow> entries ?t (PrivateDeliveryIdentity m r) \<noteq> None" for m r
    using private_index [OF parts(1), of m r] pr ident [of m r]
    by (cases "i = PrivateDeliveryIdentity m r"; cases "domain i = kPrivateMessage"; cases "message_id i = m")
      (auto split: if_splits)
  have "entry_ok (window_options t) i ?e" using v parts(5) by (simp add: entry_ok_def limits_ok_def)
  then have "entries_ok ?t"
    unfolding entries_ok_def
    using parts(1) [unfolded entries_ok_def] index by (auto split: if_splits)
  moreover have "totals_ok ?t"
    using parts(2) by (simp add: totals_ok_def sums weight_defs)
  moreover have "windows_ok ?t"
    using parts(3) by (auto simp: windows_ok_def sums weight_defs recipient_entries_def recipient_bytes_def)
  moreover have "queue_ok ?t"
    using parts(4) new by (auto simp: queue_ok_def)
  moreover have "limits_ok ?t"
    using parts(5) room unfolding limits_ok_def ByteRoom_iff
    by (simp add: recipient_entries_def [of _ ?t] recipient_bytes_def [of _ ?t])
      (simp add: recipient_entries_def recipient_bytes_def)
  ultimately show ?thesis using parts(6) by (simp add: tracker_ok_def)
qed

lemma tracker_ok_grow:
  fixes t :: ReceiverDeliveryTracker
  assumes ok: "tracker_ok t" and e: "entries t i = Some e" "\<not> entry_confirmed e"
    and e': "entry_ok (window_options t) i e'" "\<not> entry_confirmed e'" "wire_bytes e' = wire_bytes e + extra"
      "card (attempt_seqs e') = card (attempt_seqs e) + d"
    and room: "ByteRoomLocked (recipient_user_id i) extra t"
  shows "\<exists>t'. grow_bytes (recipient_user_id i) extra
      (t\<lparr>entries := (entries t)(i \<mapsto> e'), attempt_sequences := attempt_sequences t + d\<rparr>) = Some t' \<and> tracker_ok t'"
proof -
  have parts: "entries_ok t" "totals_ok t" "windows_ok t" "queue_ok t" "limits_ok t"
    "length (confirmed_order t) \<le> max_recent_confirmed t"
    using ok by (simp_all add: tracker_ok_def)
  have fin: "finite (dom (entries t))" using parts by (simp add: entries_ok_def)
  obtain w where w: "waiting_by_recipient t (recipient_user_id i) = Some w" "0 < win_entries w"
    using waiting_has_window [OF parts(1,3) e] .
  let ?t = "t\<lparr>entries := (entries t)(i \<mapsto> e'), attempt_sequences := attempt_sequences t + d,
     waiting_bytes := waiting_bytes t + extra,
     waiting_by_recipient := (waiting_by_recipient t)(recipient_user_id i \<mapsto> w\<lparr>win_bytes := win_bytes w + extra\<rparr>)\<rparr>"
  have sums: "msum f ((entries t)(i \<mapsto> e')) + f i e = f i e' + msum f (entries t)" for f
    using totals_upd [OF fin, of f i "Some e'"] e by simp
  have "entries_ok ?t"
    using parts(1) e e' unfolding entries_ok_def by auto
  moreover have "totals_ok ?t"
    using parts(2) e e' sums [of waiting_weight] sums [of byte_weight] sums [of attempt_weight]
    by (simp add: totals_ok_def weight_defs)
  moreover have "windows_ok ?t"
    unfolding windows_ok_def
  proof
    fix r
    show "recipient_entries r ?t = msum (of_recipient r waiting_weight) (entries ?t)
     \<and> recipient_bytes r ?t = msum (of_recipient r byte_weight) (entries ?t)
     \<and> (waiting_by_recipient ?t r \<noteq> None \<longleftrightarrow> 0 < recipient_entries r ?t)"
      using parts(3) [unfolded windows_ok_def, rule_format, of r] w e e'
        sums [of "of_recipient r waiting_weight"] sums [of "of_recipient r byte_weight"]
      by (auto simp: weight_defs recipient_entries_def recipient_bytes_def split: if_splits)
  qed
  moreover have "queue_ok ?t"
    using parts(4) e e' by (auto simp: queue_ok_def)
  moreover have "limits_ok ?t"
    using parts(5) room w limits_window [OF parts(5) w(1)]
    by (auto simp: limits_ok_def ByteRoomLocked_def recipient_entries_def recipient_bytes_def)
  ultimately show ?thesis using parts(6) w by (simp add: tracker_ok_def grow_bytes_def)
qed

lemma Trim_within [simp]:
  "length (confirmed_order t) \<le> max_recent_confirmed t \<Longrightarrow> TrimConfirmedLocked t = t"
  by (subst TrimConfirmedLocked.simps) simp

text \<open>Under the invariant one acknowledgement evicts at most one identity, the oldest confirmed one.\<close>

lemma Trim_evicts_oldest:
  assumes "confirmed_order t = oldest # rest" "length rest = max_recent_confirmed t"
    "entries t oldest = Some e" "entry_confirmed e"
  shows "TrimConfirmedLocked t = t\<lparr>confirmed_order := rest,
    attempt_sequences := attempt_sequences t - card (attempt_seqs e),
    private_receivers := (if domain oldest = kPrivateMessage
              then (private_receivers t)(message_id oldest := None) else private_receivers t),
    entries := (entries t)(oldest := None)\<rparr>"
  using assms by (subst TrimConfirmedLocked.simps) (simp add: trim_one_def)

lemma tracker_ok_evict:
  assumes parts: "entries_ok t" "totals_ok t" "windows_ok t" "queue_ok t" "limits_ok t"
    and q: "confirmed_order t = oldest # rest" "length rest \<le> max_recent_confirmed t"
    and e: "entries t oldest = Some e" "entry_confirmed e"
  shows "tracker_ok (t\<lparr>confirmed_order := rest,
    attempt_sequences := attempt_sequences t - card (attempt_seqs e),
    private_receivers := (if domain oldest = kPrivateMessage
              then (private_receivers t)(message_id oldest := None) else private_receivers t),
    entries := (entries t)(oldest := None)\<rparr>)" (is "tracker_ok ?t")
proof -
  have fin: "finite (dom (entries t))" using parts by (simp add: entries_ok_def)
  have sums: "msum f ((entries t)(oldest := None)) + f oldest e = msum f (entries t)" for f
    using totals_upd [OF fin, of f oldest None] e by simp
  have ident: "oldest = PrivateDeliveryIdentity m r \<longleftrightarrow>
      domain oldest = kPrivateMessage \<and> message_id oldest = m \<and> recipient_user_id oldest = r" for m r
    by (cases oldest) (auto simp: PrivateDeliveryIdentity_def)
  have e0: "wire_bytes e = 0" using parts(1) e by (auto simp: entries_ok_def entry_ok_def)
  have index: "private_receivers ?t m = Some r \<longleftrightarrow> entries ?t (PrivateDeliveryIdentity m r) \<noteq> None" for m r
    using private_index [OF parts(1), of m r] private_index [OF parts(1), of m "recipient_user_id oldest"]
      ident [of m r] ident [of m "recipient_user_id oldest"] e
    by (cases "oldest = PrivateDeliveryIdentity m r"; cases "domain oldest = kPrivateMessage"; cases "message_id oldest = m")
      (auto split: if_splits)
  have "entries_ok ?t"
    unfolding entries_ok_def
    using parts(1) [unfolded entries_ok_def] index by (auto split: if_splits)
  moreover have "totals_ok ?t"
    using parts(2) e e0 sums [of waiting_weight] sums [of byte_weight] sums [of attempt_weight]
    by (simp add: totals_ok_def weight_defs)
  moreover have "windows_ok ?t"
  proof -
    have "msum (of_recipient r waiting_weight) ((entries t)(oldest := None)) = msum (of_recipient r waiting_weight) (entries t)"
      "msum (of_recipient r byte_weight) ((entries t)(oldest := None)) = msum (of_recipient r byte_weight) (entries t)" for r
      using sums [of "of_recipient r waiting_weight"] sums [of "of_recipient r byte_weight"] e e0
      by (simp_all add: weight_defs split: if_splits)
    then show ?thesis
      using parts(3) by (simp add: windows_ok_def recipient_entries_def recipient_bytes_def)
  qed
  moreover have "queue_ok ?t"
    using parts(4) e q by (auto simp: queue_ok_def)
  moreover have "limits_ok ?t"
    using parts(5) by (simp add: limits_ok_def recipient_entries_def recipient_bytes_def)
  ultimately show ?thesis using q by (simp add: tracker_ok_def)
qed

lemma no_waiting_no_bytes:
  assumes "entries_ok t" and "msum (of_recipient r waiting_weight) (entries t) = 0"
  shows "msum (of_recipient r byte_weight) (entries t) = 0"
proof -
  have fin: "finite (dom (entries t))" using assms by (simp add: entries_ok_def)
  have "of_recipient r byte_weight i e = 0" if "entries t i = Some e" for i e
    using assms(2) that assms(1) unfolding msum_zero_iff [OF fin] entries_ok_def
    by (auto simp: weight_defs entry_ok_def split: if_splits)
  then show ?thesis unfolding msum_zero_iff [OF fin] by simp
qed

lemma confirm_parts:
  assumes ok: "tracker_ok t" and e: "entries t i = Some e" "\<not> entry_confirmed e"
    and w: "waiting_by_recipient t (recipient_user_id i) = Some w"
  defines "w' \<equiv> \<lparr>win_entries = win_entries w - 1, win_bytes = win_bytes w - wire_bytes e\<rparr>"
  defines "t' \<equiv> t\<lparr>confirmed_order := confirmed_order t @ [i],
                entries := (entries t)(i \<mapsto> e\<lparr>entry_confirmed := True, wire_bytes := 0\<rparr>),
                waiting_entries := waiting_entries t - 1,
                waiting_bytes := waiting_bytes t - wire_bytes e,
                waiting_by_recipient := (waiting_by_recipient t)(recipient_user_id i :=
                  (if win_entries w' = 0 then None else Some w'))\<rparr>"
  shows "entries_ok t' \<and> totals_ok t' \<and> windows_ok t' \<and> queue_ok t' \<and> limits_ok t'"
proof -
  have parts: "entries_ok t" "totals_ok t" "windows_ok t" "queue_ok t" "limits_ok t"
    using ok by (simp_all add: tracker_ok_def)
  have fin: "finite (dom (entries t))" using parts by (simp add: entries_ok_def)
  let ?e = "e\<lparr>entry_confirmed := True, wire_bytes := 0\<rparr>"
  have sums: "msum f ((entries t)(i \<mapsto> ?e)) + f i e = f i ?e + msum f (entries t)" for f
    using totals_upd [OF fin, of f i "Some ?e"] e by simp
  have eok: "entries_ok t'"
    using parts(1) e unfolding entries_ok_def t'_def by (auto simp: entry_ok_def)
  moreover have "totals_ok t'"
    using parts(2) e sums [of waiting_weight] sums [of byte_weight] sums [of attempt_weight]
    by (auto simp: totals_ok_def weight_defs t'_def)
  moreover have "windows_ok t'"
    unfolding windows_ok_def
  proof
    fix r
    have at: "recipient_entries r t = msum (of_recipient r waiting_weight) (entries t)
      \<and> recipient_bytes r t = msum (of_recipient r byte_weight) (entries t)
      \<and> (waiting_by_recipient t r \<noteq> None \<longleftrightarrow> 0 < recipient_entries r t)"
      using parts(3) unfolding windows_ok_def by blast
    show "recipient_entries r t' = msum (of_recipient r waiting_weight) (entries t')
     \<and> recipient_bytes r t' = msum (of_recipient r byte_weight) (entries t')
     \<and> (waiting_by_recipient t' r \<noteq> None \<longleftrightarrow> 0 < recipient_entries r t')"
      using at w e no_waiting_no_bytes [OF eok, of r]
        sums [of "of_recipient r waiting_weight"] sums [of "of_recipient r byte_weight"]
      by (auto simp: weight_defs recipient_entries_def recipient_bytes_def t'_def w'_def split: if_splits)
  qed
  moreover have "queue_ok t'"
    using parts(4) e by (auto simp: queue_ok_def t'_def)
  moreover have "limits_ok t'"
    using parts(5) w limits_window [OF parts(5) w]
    by (auto simp: limits_ok_def recipient_entries_def recipient_bytes_def t'_def w'_def)
  ultimately show ?thesis by simp
qed

lemma queue_head:
  assumes "queue_ok t" "confirmed_order t = oldest # rest"
  obtains e where "entries t oldest = Some e" "entry_confirmed e"
  using assms unfolding queue_ok_def by force

lemma Acknowledge_ok:
  assumes ok: "tracker_ok t"
  shows "\<exists>s t'. Acknowledge i seq t = Some (s, t') \<and> tracker_ok t'"
proof (cases "\<exists>e. Valid i \<and> seq \<noteq> 0 \<and> entries t i = Some e \<and> seq \<in> attempt_seqs e \<and> \<not> entry_confirmed e")
  case False
  with ok show ?thesis by (auto simp: Acknowledge_def split: option.split)
next
  case True
  then obtain e where e: "Valid i" "seq \<noteq> 0" "entries t i = Some e" "seq \<in> attempt_seqs e" "\<not> entry_confirmed e"
    by blast
  obtain w where w: "waiting_by_recipient t (recipient_user_id i) = Some w"
    using waiting_has_window [of t i e] ok e by (auto simp: tracker_ok_def)
  let ?w = "\<lparr>win_entries = win_entries w - 1, win_bytes = win_bytes w - wire_bytes e\<rparr>"
  let ?t = "t\<lparr>confirmed_order := confirmed_order t @ [i],
                entries := (entries t)(i \<mapsto> e\<lparr>entry_confirmed := True, wire_bytes := 0\<rparr>),
                waiting_entries := waiting_entries t - 1,
                waiting_bytes := waiting_bytes t - wire_bytes e,
                waiting_by_recipient := (waiting_by_recipient t)(recipient_user_id i :=
                  (if win_entries ?w = 0 then None else Some ?w))\<rparr>"
  have ack: "Acknowledge i seq t = Some (kConfirmed, TrimConfirmedLocked ?t)"
    using e w by (simp add: Acknowledge_def Let_def)
  have parts: "entries_ok ?t" "totals_ok ?t" "windows_ok ?t" "queue_ok ?t" "limits_ok ?t"
    using confirm_parts [OF ok e(3,5) w] by blast+
  have "tracker_ok (TrimConfirmedLocked ?t)"
  proof (cases "length (confirmed_order t) < max_recent_confirmed t")
    case True
    then have short: "length (confirmed_order ?t) \<le> max_recent_confirmed ?t" by simp
    with parts show ?thesis unfolding Trim_within [OF short] by (simp only: tracker_ok_def simp_thms)
  next
    case False
    with ok have len: "length (confirmed_order t) = max_recent_confirmed t" "0 < max_recent_confirmed t"
      by (auto simp: tracker_ok_def queue_ok_def)
    then obtain oldest rest where q: "confirmed_order ?t = oldest # rest" "length rest = max_recent_confirmed ?t"
      by (cases "confirmed_order t") auto
    obtain e' where "entries ?t oldest = Some e'" "entry_confirmed e'"
      using queue_head [OF parts(4) q(1)] .
    then show ?thesis
      unfolding Trim_evicts_oldest [OF q \<open>entries ?t oldest = Some e'\<close> \<open>entry_confirmed e'\<close>]
      using q by (intro tracker_ok_evict parts) simp_all
  qed
  with ack show ?thesis by blast
qed

lemma RegisterAttemptLocked_ok:
  assumes ok: "tracker_ok t" and v: "Valid i" "seq \<noteq> 0"
  shows "\<exists>s t'. RegisterAttemptLocked i seq bytes now t = Some (s, t') \<and> tracker_ok t'"
proof (cases "entries t i")
  case None
  show ?thesis
  proof (cases "(domain i = kPrivateMessage \<and> private_receivers t (message_id i) \<noteq> None)
      \<or> waiting_entries t \<ge> max_waiting_entries (window_options t)
      \<or> recipient_entries (recipient_user_id i) t \<ge> max_waiting_per_recipient (window_options t)
      \<or> \<not> ByteRoomLocked (recipient_user_id i) bytes t")
    case True
    with ok None show ?thesis by (auto simp: RegisterAttemptLocked_def Let_def)
  next
    case False
    then show ?thesis
      using tracker_ok_add [OF ok None v, of bytes now] None ok by (simp add: RegisterAttemptLocked_def Let_def)
  qed
next
  case (Some e)
  define extra where "extra = (if bytes > wire_bytes e then bytes - wire_bytes e else 0)"
  show ?thesis
  proof (cases "entry_confirmed e \<or> seq \<in> attempt_seqs e \<or> card (attempt_seqs e) \<ge> max_attempt_sequences (window_options t)
      \<or> \<not> ByteRoomLocked (recipient_user_id i) extra t")
    case True
    with ok Some show ?thesis by (auto simp: RegisterAttemptLocked_def Let_def extra_def)
  next
    case False
    let ?e = "e\<lparr>current_delivery_seq := seq, attempt_count := attempt_count e + 1,
                attempt_seqs := insert seq (attempt_seqs e), wire_bytes := wire_bytes e + extra, last_attempt_at := now\<rparr>"
    have "entry_ok (window_options t) i e" using ok Some by (simp add: tracker_ok_def entries_ok_def)
    then have "entry_ok (window_options t) i ?e" "card (attempt_seqs ?e) = card (attempt_seqs e) + 1"
      using v False by (auto simp: entry_ok_def)
    then have "\<exists>t'. grow_bytes (recipient_user_id i) extra
        (t\<lparr>entries := (entries t)(i \<mapsto> ?e), attempt_sequences := attempt_sequences t + 1\<rparr>) = Some t' \<and> tracker_ok t'"
      using False by (intro tracker_ok_grow [OF ok Some]) auto
    with False Some show ?thesis
      by (auto simp: RegisterAttemptLocked_def Let_def extra_def [symmetric])
  qed
qed

lemma RegisterAttempt_ok:
  "tracker_ok t \<Longrightarrow> \<exists>s t'. RegisterAttempt i seq bytes now t = Some (s, t') \<and> tracker_ok t'"
  using RegisterAttemptLocked_ok by (auto simp: RegisterAttempt_def)

lemma RegisterReplayAttempt_ok:
  assumes ok: "tracker_ok t"
  shows "\<exists>s t'. RegisterReplayAttempt i seq bytes now u t = Some (s, t') \<and> tracker_ok t'"
proof (cases "Valid i \<and> seq \<noteq> 0")
  case False
  with ok show ?thesis by (auto simp: RegisterReplayAttempt_def Let_def)
next
  case v: True
  then obtain s t' where locked: "RegisterAttemptLocked i seq bytes now t = Some (s, t')" "tracker_ok t'"
    using RegisterAttemptLocked_ok [OF ok, of i seq bytes now] by blast
  show ?thesis
  proof (cases "\<exists>e. entries t i = Some e \<and> \<not> entry_confirmed e
      \<and> \<not> now < last_attempt_at e + recovery_resend_cooldown (window_options t) + u
      \<and> card (attempt_seqs e) \<ge> max_attempt_sequences (window_options t)
      \<and> ByteRoomLocked (recipient_user_id i) (if bytes > wire_bytes e then bytes - wire_bytes e else 0) t")
    case False
    with ok v locked show ?thesis
      by (auto simp: RegisterReplayAttempt_def Let_def split: option.split)
  next
    case True
    then obtain e where e: "entries t i = Some e" "\<not> entry_confirmed e"
      "\<not> now < last_attempt_at e + recovery_resend_cooldown (window_options t) + u"
      "card (attempt_seqs e) \<ge> max_attempt_sequences (window_options t)"
      "ByteRoomLocked (recipient_user_id i) (if bytes > wire_bytes e then bytes - wire_bytes e else 0) t"
      by blast
    define extra where "extra = (if bytes > wire_bytes e then bytes - wire_bytes e else 0)"
    let ?e = "e\<lparr>wire_bytes := wire_bytes e + extra, last_attempt_at := now\<rparr>"
    have "entry_ok (window_options t) i e" using ok e by (simp add: tracker_ok_def entries_ok_def)
    then have "entry_ok (window_options t) i ?e" using e(2) by (simp add: entry_ok_def)
    then obtain t'' where "grow_bytes (recipient_user_id i) extra
        (t\<lparr>entries := (entries t)(i \<mapsto> ?e), attempt_sequences := attempt_sequences t + 0\<rparr>) = Some t''" "tracker_ok t''"
      using e tracker_ok_grow [OF ok e(1,2), of ?e extra 0] by (auto simp: extra_def)
    then show ?thesis
      using v e by (simp add: RegisterReplayAttempt_def Let_def extra_def)
  qed
qed

lemma grow_bytes_zero: "waiting_by_recipient t r = Some w \<Longrightarrow> grow_bytes r 0 t = Some t"
  by (simp add: grow_bytes_def fun_upd_idem)

lemma RegisterRetryAttempt_ok:
  assumes ok: "tracker_ok t"
  shows "tracker_ok (snd (RegisterRetryAttempt i expected seq n now t))"
proof (cases "fst (RegisterRetryAttempt i expected seq n now t) = ReceiverDeliveryRetryRegisterStatus.kRetryRegistered")
  case False
  with ok show ?thesis by (auto simp: RegisterRetryAttempt_def split: option.split)
next
  case True
  then obtain e where v: "Valid i" "seq \<noteq> 0" and e: "entries t i = Some e" "\<not> entry_confirmed e"
    and room: "\<not> card (attempt_seqs e) \<ge> max_attempt_sequences (window_options t)" "seq \<notin> attempt_seqs e"
    by (auto simp: RegisterRetryAttempt_def split: option.splits if_splits)
  let ?e = "e\<lparr>current_delivery_seq := seq, attempt_count := attempt_count e + 1,
              attempt_seqs := insert seq (attempt_seqs e), last_attempt_at := now\<rparr>"
  let ?t = "t\<lparr>entries := (entries t)(i \<mapsto> ?e), attempt_sequences := attempt_sequences t + 1\<rparr>"
  obtain w where w: "waiting_by_recipient t (recipient_user_id i) = Some w"
    using waiting_has_window [of t i e] ok e by (auto simp: tracker_ok_def)
  have "entry_ok (window_options t) i e" using ok e by (simp add: tracker_ok_def entries_ok_def)
  then have "entry_ok (window_options t) i ?e" "card (attempt_seqs ?e) = card (attempt_seqs e) + 1"
    using v room by (auto simp: entry_ok_def)
  moreover have "ByteRoomLocked (recipient_user_id i) 0 t"
    using ok by (simp add: ByteRoom_iff tracker_ok_def limits_ok_def)
  ultimately have "tracker_ok ?t"
    using tracker_ok_grow [OF ok e, of ?e 0 1] e grow_bytes_zero [of ?t] w by simp
  with True e v room show ?thesis
    by (auto simp: RegisterRetryAttempt_def split: option.splits if_splits)
qed

lemma tracker_step_ok:
  assumes ok: "tracker_ok t"
  shows "\<exists>t'. tracker_step t op = Some t' \<and> tracker_ok t'"
proof (cases op)
  case (OpRegisterAttempt i seq bytes now)
  then show ?thesis using RegisterAttempt_ok [OF ok, of i seq bytes now] by auto
next
  case (OpRegisterReplayAttempt i seq bytes now u)
  then show ?thesis using RegisterReplayAttempt_ok [OF ok, of i seq bytes now u] by auto
next
  case (OpRegisterRetryAttempt i expected seq n now)
  then show ?thesis using RegisterRetryAttempt_ok [OF ok, of i expected seq n now] by simp
next
  case (OpAcknowledge i seq)
  then show ?thesis using Acknowledge_ok [OF ok, of i seq] by auto
qed

section \<open>Runs\<close>

text \<open>The state after a call. Under the invariant \<open>tracker_step\<close> never fails, so that this is the plain
  sequence of calls; that it does not fail is part of the first property below.\<close>

definition tracker_next :: "ReceiverDeliveryTracker \<Rightarrow> TrackerOp \<Rightarrow> ReceiverDeliveryTracker" where
  "tracker_next t op = (case tracker_step t op of None \<Rightarrow> t | Some t' \<Rightarrow> t')"

definition is_confirmed :: "DeliveryIdentity \<Rightarrow> ReceiverDeliveryTracker \<Rightarrow> bool" where
  "is_confirmed i t \<longleftrightarrow> (\<exists>e. entries t i = Some e \<and> entry_confirmed e)"

fun confirms :: "DeliveryIdentity \<Rightarrow> ReceiverDeliveryTracker \<Rightarrow> TrackerOp \<Rightarrow> bool" where
  "confirms i t (OpAcknowledge j seq) \<longleftrightarrow> j = i \<and> map_option fst (Acknowledge j seq t) = Some kConfirmed"
| "confirms i t _ \<longleftrightarrow> False"

fun evicts :: "DeliveryIdentity \<Rightarrow> ReceiverDeliveryTracker \<Rightarrow> TrackerOp \<Rightarrow> bool" where
  "evicts i t (OpAcknowledge j seq) \<longleftrightarrow> map_option fst (Acknowledge j seq t) = Some kConfirmed
     \<and> length (confirmed_order t) = max_recent_confirmed t \<and> hd (confirmed_order t) = i"
| "evicts i t _ \<longleftrightarrow> False"

lemma tracker_next_ok: "tracker_ok t \<Longrightarrow> tracker_ok (tracker_next t op)"
  using tracker_step_ok [of t op] by (auto simp: tracker_next_def)

lemma tracker_run_total:
  "tracker_ok t \<Longrightarrow> fold_opt (\<lambda>op t. tracker_step t op) ops t = Some (run_ops tracker_next t ops)"
proof (induction ops arbitrary: t)
  case (Cons op ops)
  obtain t' where "tracker_step t op = Some t'" "tracker_ok t'" using tracker_step_ok [OF Cons.prems] by blast
  with Cons.IH [of t'] show ?case by (simp add: tracker_next_def)
qed simp

text \<open>What an acknowledgement does to the map of entries.\<close>

lemma Acknowledge_confirmed_iff:
  "tracker_ok t \<Longrightarrow> map_option fst (Acknowledge i seq t) = Some kConfirmed \<longleftrightarrow>
     Valid i \<and> seq \<noteq> 0 \<and> (\<exists>e. entries t i = Some e \<and> seq \<in> attempt_seqs e \<and> \<not> entry_confirmed e)"
  using Acknowledge_ok [of t i seq] by (auto simp: Acknowledge_def Let_def split: option.splits if_splits)

lemma Acknowledge_other:
  "map_option fst (Acknowledge i seq t) \<noteq> Some kConfirmed \<Longrightarrow> tracker_ok t \<Longrightarrow>
     tracker_next t (OpAcknowledge i seq) = t"
  using Acknowledge_ok [of t i seq]
  by (auto simp: tracker_next_def Acknowledge_def Let_def split: option.splits if_splits)

lemma Acknowledge_entries:
  assumes ok: "tracker_ok t" and c: "map_option fst (Acknowledge i seq t) = Some kConfirmed"
    and e: "entries t i = Some e"
  shows "entries (tracker_next t (OpAcknowledge i seq)) =
     (if length (confirmed_order t) < max_recent_confirmed t then entries t
      else (entries t)(hd (confirmed_order t) := None))(i \<mapsto> e\<lparr>entry_confirmed := True, wire_bytes := 0\<rparr>)"
    (is "_ = ?new")
proof -
  have v: "Valid i" "seq \<noteq> 0" "seq \<in> attempt_seqs e" "\<not> entry_confirmed e"
    using c e unfolding Acknowledge_confirmed_iff [OF ok] by auto
  obtain w where w: "waiting_by_recipient t (recipient_user_id i) = Some w"
    using waiting_has_window [of t i e] ok e v by (auto simp: tracker_ok_def)
  show ?thesis
  proof (cases "length (confirmed_order t) < max_recent_confirmed t")
    case True
    with v e w show ?thesis by (simp add: tracker_next_def Acknowledge_def Let_def)
  next
    case False
    have q: "queue_ok t" "length (confirmed_order t) \<le> max_recent_confirmed t" using ok by (simp_all add: tracker_ok_def)
    with False obtain oldest rest where o: "confirmed_order t = oldest # rest" "Suc (length rest) = max_recent_confirmed t"
      by (cases "confirmed_order t") (auto simp: queue_ok_def)
    obtain e' where e': "entries t oldest = Some e'" "entry_confirmed e'" using queue_head [OF q(1) o(1)] .
    with v e have ne: "oldest \<noteq> i" by auto
    with v e w o e' show ?thesis
      by (simp add: tracker_next_def Acknowledge_def Let_def Trim_evicts_oldest [where oldest = oldest and rest = "rest @ [i]" and e = e']
          fun_upd_twist)
  qed
qed

text \<open>A registration of attempt \<open>seq\<close> for \<open>i\<close> removes nothing, confirms nothing, and adds at most that attempt.\<close>

definition registers_only :: "DeliveryIdentity \<Rightarrow> u32 \<Rightarrow> ReceiverDeliveryTracker \<Rightarrow> ReceiverDeliveryTracker \<Rightarrow> bool" where
  "registers_only i seq t t' \<longleftrightarrow>
     (\<forall>j e. entries t j = Some e \<longrightarrow> (\<exists>e'. entries t' j = Some e' \<and> attempt_seqs e \<subseteq> attempt_seqs e'
        \<and> entry_confirmed e' = entry_confirmed e))
     \<and> (\<forall>j e' q. entries t' j = Some e' \<longrightarrow> q \<in> attempt_seqs e' \<longrightarrow>
        (j = i \<and> q = seq) \<or> (\<exists>e. entries t j = Some e \<and> q \<in> attempt_seqs e))"

lemma registers_only_refl [simp]: "registers_only i seq t t"
  by (auto simp: registers_only_def)

lemma registers_only_upd:
  assumes "entries t' = (entries t)(i \<mapsto> e')"
    and "case entries t i of None \<Rightarrow> attempt_seqs e' = {seq}
      | Some e \<Rightarrow> attempt_seqs e \<subseteq> attempt_seqs e' \<and> attempt_seqs e' \<subseteq> insert seq (attempt_seqs e)
          \<and> entry_confirmed e' = entry_confirmed e"
  shows "registers_only i seq t t'"
  using assms unfolding registers_only_def by (auto split: option.splits if_splits)

lemma RegisterAttemptLocked_registers:
  "RegisterAttemptLocked i seq bytes now t = Some (s, t') \<Longrightarrow> registers_only i seq t t'"
  unfolding RegisterAttemptLocked_def Let_def grow_bytes_def
  by (auto split: option.splits if_splits intro!: registers_only_upd)

lemma RegisterReplayAttempt_registers:
  "RegisterReplayAttempt i seq bytes now u t = Some (s, t') \<Longrightarrow> registers_only i seq t t'"
  unfolding RegisterReplayAttempt_def Let_def grow_bytes_def
  by (auto split: option.splits if_splits dest!: RegisterAttemptLocked_registers)
    (auto intro!: registers_only_upd)

lemma RegisterRetryAttempt_registers:
  "registers_only i seq t (snd (RegisterRetryAttempt i expected seq n now t))"
  unfolding RegisterRetryAttempt_def
  by (auto split: option.split intro!: registers_only_upd)

fun proposed_attempt :: "TrackerOp \<Rightarrow> (DeliveryIdentity \<times> u32) option" where
  "proposed_attempt (OpRegisterAttempt i seq bytes now) = Some (i, seq)"
| "proposed_attempt (OpRegisterReplayAttempt i seq bytes now u) = Some (i, seq)"
| "proposed_attempt (OpRegisterRetryAttempt i expected seq n now) = Some (i, seq)"
| "proposed_attempt (OpAcknowledge i seq) = None"

lemma tracker_next_registers:
  assumes ok: "tracker_ok t" and "proposed_attempt op = Some (i, seq)"
  shows "registers_only i seq t (tracker_next t op)"
proof (cases op)
  case (OpRegisterAttempt i' seq' bytes now)
  with assms RegisterAttempt_ok [OF ok, of i' seq' bytes now] show ?thesis
    by (auto simp: tracker_next_def RegisterAttempt_def split: if_splits dest: RegisterAttemptLocked_registers)
next
  case (OpRegisterReplayAttempt i' seq' bytes now u)
  with assms RegisterReplayAttempt_ok [OF ok, of i' seq' bytes now u] show ?thesis
    by (auto simp: tracker_next_def dest: RegisterReplayAttempt_registers)
next
  case (OpRegisterRetryAttempt i' expected seq' n now)
  with assms show ?thesis by (simp add: tracker_next_def RegisterRetryAttempt_registers)
qed (use assms in simp)

lemma register_keeps:
  assumes "tracker_ok t" and "proposed_attempt op \<noteq> None" and "entries t j = Some e"
  obtains e' where "entries (tracker_next t op) j = Some e'" "attempt_seqs e \<subseteq> attempt_seqs e'"
    "entry_confirmed e' = entry_confirmed e"
  using assms tracker_next_registers [OF assms(1), of op] unfolding registers_only_def
  by (metis not_None_eq prod.collapse)

lemma confirmed_kept_by_register:
  "\<lbrakk>tracker_ok t; proposed_attempt op \<noteq> None; is_confirmed j t\<rbrakk> \<Longrightarrow> is_confirmed j (tracker_next t op)"
  unfolding is_confirmed_def by (metis register_keeps)

interpretation rt: claim_table tracker_next "\<lambda>_ _. True" tracker_ok is_confirmed confirms evicts
proof (unfold_locales, goal_cases)
  case (1 s op)
  then show ?case by (simp add: tracker_next_ok)
next
  case (2 s op k)
  then obtain seq where "op = OpAcknowledge k seq" "map_option fst (Acknowledge k seq s) = Some kConfirmed"
    by (cases op) auto
  then show ?case using 2(1) unfolding Acknowledge_confirmed_iff [OF 2(1)] is_confirmed_def by auto
next
  case (3 s op k)
  show ?case
  proof (cases op)
    case (OpAcknowledge j seq)
    show ?thesis
    proof (cases "map_option fst (Acknowledge j seq s) = Some kConfirmed")
      case True
      then obtain e where e: "entries s j = Some e" "\<not> entry_confirmed e"
        unfolding Acknowledge_confirmed_iff [OF 3(1)] by blast
      have "length (confirmed_order s) \<le> max_recent_confirmed s" using 3(1) by (simp add: tracker_ok_def)
      then show ?thesis
        using 3 True OpAcknowledge e Acknowledge_entries [OF 3(1) True e(1)] by (auto simp: is_confirmed_def)
    next
      case False
      with 3 OpAcknowledge show ?thesis by (simp add: Acknowledge_other)
    qed
  qed (use 3 confirmed_kept_by_register in simp_all)
next
  case (4 s op k)
  then obtain seq where op: "op = OpAcknowledge k seq" and c: "map_option fst (Acknowledge k seq s) = Some kConfirmed"
    by (cases op) auto
  from c obtain e where "entries s k = Some e" unfolding Acknowledge_confirmed_iff [OF 4(1)] by blast
  then show ?case using op Acknowledge_entries [OF 4(1) c] by (simp add: is_confirmed_def)
qed

text \<open>The attempt a call registers in the state it meets: the identity and the sequence number the caller is told to send with. A call
  that is refused (the window is full, a stale or duplicate attempt, another receiver, a confirmed delivery, a cool-down) registers none.\<close>

fun registered_attempt :: "ReceiverDeliveryTracker \<Rightarrow> TrackerOp \<Rightarrow> (DeliveryIdentity \<times> u32) option" where
  "registered_attempt t (OpRegisterAttempt i seq bytes now) =
     (case RegisterAttempt i seq bytes now t of
        Some (s, _) \<Rightarrow> if s = kRegistered \<or> s = ReceiverDeliveryRegisterStatus.kRetryRegistered then Some (i, seq) else None
      | None \<Rightarrow> None)"
| "registered_attempt t (OpRegisterReplayAttempt i seq bytes now u) =
     (case RegisterReplayAttempt i seq bytes now u t of
        Some (r, _) \<Rightarrow>
          if reg_status r = kRegistered \<or> reg_status r = ReceiverDeliveryRegisterStatus.kRetryRegistered
          then Some (i, reg_delivery_seq r) else None
      | None \<Rightarrow> None)"
| "registered_attempt t (OpRegisterRetryAttempt i expected seq n now) =
     (if fst (RegisterRetryAttempt i expected seq n now t) = ReceiverDeliveryRetryRegisterStatus.kRetryRegistered then Some (i, seq) else None)"
| "registered_attempt t (OpAcknowledge i seq) = None"

definition knows_attempt :: "ReceiverDeliveryTracker \<Rightarrow> DeliveryIdentity \<Rightarrow> u32 \<Rightarrow> bool" where
  "knows_attempt t i q \<longleftrightarrow> (\<exists>e. entries t i = Some e \<and> q \<in> attempt_seqs e)"

text \<open>What a call newly knows is what it registered.\<close>

lemma RegisterAttemptLocked_knows:
  assumes "RegisterAttemptLocked i seq bytes now t = Some (s, t')" and "knows_attempt t' j q"
  shows "knows_attempt t j q \<or> (j, q) = (i, seq) \<and> (s = kRegistered \<or> s = ReceiverDeliveryRegisterStatus.kRetryRegistered)"
  using assms unfolding RegisterAttemptLocked_def Let_def grow_bytes_def knows_attempt_def
  by (auto split: option.splits if_splits)

lemma RegisterReplayAttempt_knows:
  assumes "RegisterReplayAttempt i seq bytes now u t = Some (r, t')" and "knows_attempt t' j q"
  shows "knows_attempt t j q \<or> (j, q) = (i, reg_delivery_seq r)
     \<and> (reg_status r = kRegistered \<or> reg_status r = ReceiverDeliveryRegisterStatus.kRetryRegistered)"
proof (cases "\<exists>s. RegisterAttemptLocked i seq bytes now t = Some (s, t') \<and> reg_status r = s
    \<and> (s = kRegistered \<or> s = ReceiverDeliveryRegisterStatus.kRetryRegistered \<longrightarrow> reg_delivery_seq r = seq)")
  case True
  with RegisterAttemptLocked_knows [OF _ assms(2)] show ?thesis by blast
next
  case False
  with assms have "t' = t \<or> (\<exists>e e'. entries t i = Some e \<and> entries t' = (entries t)(i \<mapsto> e') \<and> attempt_seqs e' = attempt_seqs e)"
    unfolding RegisterReplayAttempt_def Let_def grow_bytes_def by (auto split: option.splits if_splits)
  with assms(2) show ?thesis unfolding knows_attempt_def by (auto split: if_splits)
qed

lemma RegisterRetryAttempt_knows:
  assumes "knows_attempt (snd (RegisterRetryAttempt i expected seq n now t)) j q"
  shows "knows_attempt t j q \<or> (j, q) = (i, seq)
     \<and> fst (RegisterRetryAttempt i expected seq n now t) = ReceiverDeliveryRetryRegisterStatus.kRetryRegistered"
  using assms unfolding RegisterRetryAttempt_def knows_attempt_def by (auto split: option.splits if_splits)

lemma Acknowledge_knows:
  assumes ok: "tracker_ok t" and "knows_attempt (tracker_next t (OpAcknowledge j seq)) i q"
  shows "knows_attempt t i q"
proof (cases "map_option fst (Acknowledge j seq t) = Some kConfirmed")
  case True
  then obtain e where "entries t j = Some e" unfolding Acknowledge_confirmed_iff [OF ok] by blast
  then show ?thesis using assms(2) Acknowledge_entries [OF ok True] by (auto simp: knows_attempt_def split: if_splits)
next
  case False
  with assms show ?thesis by (simp add: Acknowledge_other)
qed

lemma tracker_next_knows:
  assumes ok: "tracker_ok t" and "knows_attempt (tracker_next t op) i q"
  shows "knows_attempt t i q \<or> registered_attempt t op = Some (i, q)"
proof (cases op)
  case (OpRegisterAttempt j seq bytes now)
  with assms RegisterAttempt_ok [OF ok, of j seq bytes now] show ?thesis
    by (auto simp: tracker_next_def RegisterAttempt_def split: if_splits dest: RegisterAttemptLocked_knows)
next
  case (OpRegisterReplayAttempt j seq bytes now u)
  with assms RegisterReplayAttempt_ok [OF ok, of j seq bytes now u] show ?thesis
    by (auto simp: tracker_next_def split: if_splits dest: RegisterReplayAttempt_knows)
next
  case (OpRegisterRetryAttempt j expected seq n now)
  with assms RegisterRetryAttempt_knows [of j expected seq n now t i q] show ?thesis by (auto simp: tracker_next_def)
next
  case (OpAcknowledge j seq)
  with assms Acknowledge_knows show ?thesis by blast
qed

text \<open>An attempt the tracker knows was registered by a call of the run.\<close>

lemma known_attempt_registered:
  assumes "tracker_ok t" and "knows_attempt (run_ops tracker_next t ops) i q" and "\<not> knows_attempt t i q"
  shows "\<exists>before op after. ops = before @ op # after \<and> registered_attempt (run_ops tracker_next t before) op = Some (i, q)"
  using assms
proof (induction ops arbitrary: t)
  case (Cons op ops)
  show ?case
  proof (cases "knows_attempt (tracker_next t op) i q")
    case True
    with tracker_next_knows [OF Cons.prems(1)] Cons.prems(3) have "registered_attempt t op = Some (i, q)" by blast
    then show ?thesis by (intro exI [of _ "[]"] exI [of _ op] exI [of _ ops]) simp
  next
    case False
    with Cons.IH [OF tracker_next_ok [OF Cons.prems(1)], of op] Cons.prems(2) obtain before op' after where
      "ops = before @ op' # after" "registered_attempt (run_ops tracker_next (tracker_next t op) before) op' = Some (i, q)"
      by (auto simp del: run_ops.simps simp: run_ops.simps(2))
    then show ?thesis by (intro exI [of _ "op # before"] exI [of _ op'] exI [of _ after]) simp
  qed
qed simp

lemma tracker_reachable_ok [simp]: "tracker_ok (run_ops tracker_next (ReceiverDeliveryTracker_new n opts) ops)"
  by (rule rt.run_invar) simp_all

section \<open>Exact totals\<close>

definition is_waiting :: "DeliveryIdentity \<Rightarrow> ReceiverDeliveryTracker \<Rightarrow> bool" where
  "is_waiting i t \<longleftrightarrow> (case entries t i of None \<Rightarrow> False | Some e \<Rightarrow> \<not> entry_confirmed e)"

definition bytes_of :: "ReceiverDeliveryTracker \<Rightarrow> DeliveryIdentity \<Rightarrow> nat" where
  "bytes_of t i = (case entries t i of None \<Rightarrow> 0 | Some e \<Rightarrow> wire_bytes e)"

definition attempts_of :: "ReceiverDeliveryTracker \<Rightarrow> DeliveryIdentity \<Rightarrow> nat" where
  "attempts_of t i = (case entries t i of None \<Rightarrow> 0 | Some e \<Rightarrow> card (attempt_seqs e))"

lemma sum_over_waiting:
  assumes ok: "entries_ok t" and f: "\<And>i e. entry_confirmed e \<Longrightarrow> wire_bytes e = 0 \<Longrightarrow> f i e = 0"
  shows "msum f (entries t) = (\<Sum>i\<in>{i. is_waiting i t}. f i (the (entries t i)))"
  unfolding msum_def
proof (rule sum.mono_neutral_right)
  show "finite (dom (entries t))" using ok by (simp add: entries_ok_def)
  show "{i. is_waiting i t} \<subseteq> dom (entries t)" by (auto simp: is_waiting_def split: option.splits)
  show "\<forall>i\<in>dom (entries t) - {i. is_waiting i t}. f i (the (entries t i)) = 0"
  proof
    fix i
    assume "i \<in> dom (entries t) - {i. is_waiting i t}"
    then obtain e where e: "entries t i = Some e" "entry_confirmed e" by (auto simp: is_waiting_def)
    then have "entry_ok (window_options t) i e" using ok by (simp add: entries_ok_def)
    with e show "f i (the (entries t i)) = 0" by (simp add: entry_ok_def f)
  qed
qed

lemma waiting_finite [simp]: "tracker_ok t \<Longrightarrow> finite {i. is_waiting i t}"
  by (rule finite_subset [of _ "dom (entries t)"])
    (auto simp: is_waiting_def tracker_ok_def entries_ok_def split: option.splits)

lemma waiting_sums:
  assumes ok: "tracker_ok t"
  shows "waiting_entries t = card {i. is_waiting i t}"
    and "waiting_bytes t = sum (bytes_of t) {i. is_waiting i t}"
    and "recipient_entries r t = card {i. is_waiting i t \<and> recipient_user_id i = r}"
    and "recipient_bytes r t = sum (bytes_of t) {i. is_waiting i t \<and> recipient_user_id i = r}"
proof -
  have e: "entries_ok t" using ok by (simp add: tracker_ok_def)
  have at: "the (entries t i) = e" "bytes_of t i = wire_bytes e" if "entries t i = Some e" for i e
    using that by (simp_all add: bytes_of_def)
  have one: "waiting_weight i (the (entries t i)) = 1" and bytes: "byte_weight i (the (entries t i)) = bytes_of t i"
    if "is_waiting i t" for i
    using that by (auto simp: is_waiting_def weight_defs bytes_of_def split: option.splits)
  have fin: "finite {i. is_waiting i t}" using ok by simp
  let ?at = "\<lambda>f i. f i (the (entries t i)) :: nat"
  have ones: "sum (?at waiting_weight) A = card A" and sizes: "sum (?at byte_weight) A = sum (bytes_of t) A"
    if "A \<subseteq> {i. is_waiting i t}" for A
    using that one bytes by (auto intro!: sum.cong simp: card_eq_sum simp del: sum_constant)
  have restrict: "sum (?at (of_recipient r f)) {i. is_waiting i t}
      = sum (?at f) {i. is_waiting i t \<and> recipient_user_id i = r}" for f :: "DeliveryIdentity \<Rightarrow> Entry \<Rightarrow> nat"
    using sum.inter_filter [OF fin, of "?at f" "\<lambda>i. recipient_user_id i = r"]
    by (simp add: of_recipient_def)
  have all: "msum f (entries t) = sum (?at f) {i. is_waiting i t}"
    if "f \<in> {waiting_weight, byte_weight, of_recipient r waiting_weight, of_recipient r byte_weight}" for f
    using that by (intro sum_over_waiting [OF e]) (auto simp: weight_defs)
  have parts: "totals_ok t" "windows_ok t" using ok by (simp_all add: tracker_ok_def)
  show "waiting_entries t = card {i. is_waiting i t}"
    using parts(1) all [of waiting_weight] ones by (simp add: totals_ok_def)
  show "waiting_bytes t = sum (bytes_of t) {i. is_waiting i t}"
    using parts(1) all [of byte_weight] sizes by (simp add: totals_ok_def)
  show "recipient_entries r t = card {i. is_waiting i t \<and> recipient_user_id i = r}"
    using parts(2) all [of "of_recipient r waiting_weight"] restrict [of waiting_weight]
      ones [of "{i. is_waiting i t \<and> recipient_user_id i = r}"]
    by (auto simp: windows_ok_def)
  show "recipient_bytes r t = sum (bytes_of t) {i. is_waiting i t \<and> recipient_user_id i = r}"
    using parts(2) all [of "of_recipient r byte_weight"] restrict [of byte_weight]
      sizes [of "{i. is_waiting i t \<and> recipient_user_id i = r}"]
    by (auto simp: windows_ok_def)
qed

lemma tracker_new_fields:
  "entries (ReceiverDeliveryTracker_new n opts) = Map.empty"
  "max_recent_confirmed (ReceiverDeliveryTracker_new n opts) = max n 1"
  "max_waiting_entries (window_options (ReceiverDeliveryTracker_new n opts)) = max 1 (max_waiting_entries opts)"
  "max_waiting_bytes (window_options (ReceiverDeliveryTracker_new n opts)) = max 1 (max_waiting_bytes opts)"
  "max_waiting_per_recipient (window_options (ReceiverDeliveryTracker_new n opts)) = max 1 (max_waiting_per_recipient opts)"
  "max_bytes_per_recipient (window_options (ReceiverDeliveryTracker_new n opts)) = max 1 (max_bytes_per_recipient opts)"
  "max_attempt_sequences (window_options (ReceiverDeliveryTracker_new n opts)) = max 1 (max_attempt_sequences opts)"
  by (simp_all add: ReceiverDeliveryTracker_new_def)

definition same_options :: "ReceiverDeliveryTracker \<Rightarrow> ReceiverDeliveryTracker \<Rightarrow> bool" where
  "same_options t t' \<longleftrightarrow> window_options t' = window_options t \<and> max_recent_confirmed t' = max_recent_confirmed t"

lemma same_options_refl [simp]: "same_options t t"
  by (simp add: same_options_def)

lemma same_options_trans: "same_options t t' \<Longrightarrow> same_options t' t'' \<Longrightarrow> same_options t t''"
  by (simp add: same_options_def)

lemma Trim_same_options [simp]: "same_options t (TrimConfirmedLocked t)"
proof (induction t rule: TrimConfirmedLocked.induct)
  case (1 t)
  then show ?case
    by (subst TrimConfirmedLocked.simps)
      (auto simp: trim_one_def same_options_def split: option.splits if_splits)
qed

lemma RegisterAttemptLocked_same_options:
  "RegisterAttemptLocked i seq bytes now t = Some (s, t') \<Longrightarrow> same_options t t'"
  unfolding RegisterAttemptLocked_def Let_def grow_bytes_def
  by (auto simp: same_options_def split: option.splits if_splits)

lemma RegisterReplayAttempt_same_options:
  "RegisterReplayAttempt i seq bytes now u t = Some (s, t') \<Longrightarrow> same_options t t'"
  unfolding RegisterReplayAttempt_def Let_def grow_bytes_def
  by (auto split: option.splits if_splits dest!: RegisterAttemptLocked_same_options) (auto simp: same_options_def)

lemma Acknowledge_same_options: "Acknowledge i seq t = Some (s, t') \<Longrightarrow> same_options t t'"
  using Trim_same_options unfolding Acknowledge_def Let_def
  by (auto simp: same_options_def split: option.splits if_splits)

lemma tracker_next_same_options: "same_options t (tracker_next t op)"
  by (cases op)
    (auto simp: tracker_next_def RegisterAttempt_def RegisterRetryAttempt_def same_options_def split: option.split
      dest!: RegisterAttemptLocked_same_options RegisterReplayAttempt_same_options Acknowledge_same_options)

lemma tracker_run_options: "same_options t (run_ops tracker_next t ops)"
  by (induction ops arbitrary: t) (auto intro: same_options_trans tracker_next_same_options)

lemma waiting_recipients:
  assumes ok: "tracker_ok t"
  shows "dom (waiting_by_recipient t) = recipient_user_id ` {i. is_waiting i t}"
proof -
  have "waiting_by_recipient t r \<noteq> None \<longleftrightarrow> {i. is_waiting i t \<and> recipient_user_id i = r} \<noteq> {}" for r
  proof -
    have "finite {i. is_waiting i t \<and> recipient_user_id i = r}"
      by (rule finite_subset [OF _ waiting_finite [OF ok]]) auto
    then show ?thesis
      using ok waiting_sums(3) [OF ok, of r] by (auto simp: tracker_ok_def windows_ok_def card_gt_0_iff)
  qed
  then show ?thesis by (auto simp: dom_def)
qed

text \<open>In every sequence of calls on a new tracker, the acknowledgement of one identity is reported as newly
  confirmed at most once more often than the identity has been pushed out of the window of remembered
  confirmations; within the window it is confirmed at most once.\<close>
theorem receiver_confirmed_once:
  "count_run (confirms i) tracker_next (ReceiverDeliveryTracker_new n opts) ops
     \<le> count_run (evicts i) tracker_next (ReceiverDeliveryTracker_new n opts) ops + 1"
  using rt.acquisitions_bound [of "ReceiverDeliveryTracker_new n opts" ops i] by simp

text \<open>C22: The gateway asks the message service to confirm a private delivery durably only when the authenticated
  receiver acknowledged an attempt that an earlier call registered for exactly this message and receiver: among the calls
  made on the tracker there is one whose result, in the state it met, told its caller to send this very attempt. A sequence
  number that was only proposed in a refused call (window full, stale, duplicate, other receiver, cool-down) is never confirmed.\<close>
theorem durable_confirm_needs_registration:
  assumes "ProcessPrivateReceiverAck m receiver seq confirm
      (run_ops tracker_next (ReceiverDeliveryTracker_new n opts) ops) = Some ((status, True), t)"
  shows "(\<exists>before op after. ops = before @ op # after
       \<and> registered_attempt (run_ops tracker_next (ReceiverDeliveryTracker_new n opts) before) op
           = Some (PrivateDeliveryIdentity m receiver, seq))
    \<and> confirm \<and> (status = kConfirmed \<or> status = kDuplicate)"
proof -
  let ?t = "run_ops tracker_next (ReceiverDeliveryTracker_new n opts) ops"
  have e: "knows_attempt ?t (PrivateDeliveryIdentity m receiver) seq" and c: confirm "status = kConfirmed \<or> status = kDuplicate"
    using assms by (auto simp: knows_attempt_def ProcessPrivateReceiverAck_def Acknowledge_def Let_def split: option.splits if_splits)
  have "\<not> knows_attempt (ReceiverDeliveryTracker_new n opts) i q" for i q by (simp add: knows_attempt_def tracker_new_fields)
  with c known_attempt_registered [OF tracker_ok_new e] show ?thesis by blast
qed

text \<open>C21: Every sequence of calls on a new tracker runs without an exception, and afterwards the reported totals are
  exact: waiting entries, their bytes, their distinct recipients and the recorded attempts are what the entries say,
  they are within the configured limits in total, per recipient and per entry, and at most the configured number of
  confirmed identities is remembered.\<close>
theorem tracker_window_exact:
  "\<exists>t. fold_opt (\<lambda>op t. tracker_step t op) ops (ReceiverDeliveryTracker_new n opts) = Some t
     \<and> GetWindowStats t = \<lparr>stat_waiting_entries = card {i. is_waiting i t},
         stat_waiting_bytes = sum (bytes_of t) {i. is_waiting i t},
         stat_waiting_recipients = card (recipient_user_id ` {i. is_waiting i t}),
         stat_attempt_sequences = sum (attempts_of t) (dom (entries t))\<rparr>
     \<and> card {i. is_waiting i t} \<le> max 1 (max_waiting_entries opts)
     \<and> sum (bytes_of t) {i. is_waiting i t} \<le> max 1 (max_waiting_bytes opts)
     \<and> (\<forall>r. card {i. is_waiting i t \<and> recipient_user_id i = r} \<le> max 1 (max_waiting_per_recipient opts)
          \<and> sum (bytes_of t) {i. is_waiting i t \<and> recipient_user_id i = r} \<le> max 1 (max_bytes_per_recipient opts))
     \<and> (\<forall>i. attempts_of t i \<le> max 1 (max_attempt_sequences opts))
     \<and> ConfirmedCount t \<le> max n 1"
proof -
  define t where "t = run_ops tracker_next (ReceiverDeliveryTracker_new n opts) ops"
  have ok: "tracker_ok t" unfolding t_def by simp
  have run: "fold_opt (\<lambda>op t. tracker_step t op) ops (ReceiverDeliveryTracker_new n opts) = Some t"
    unfolding t_def by (rule tracker_run_total) simp
  have opt: "window_options t = window_options (ReceiverDeliveryTracker_new n opts)" "max_recent_confirmed t = max n 1"
    using tracker_run_options [of "ReceiverDeliveryTracker_new n opts" ops]
    by (simp_all add: t_def same_options_def tracker_new_fields)
  have lim: "limits_ok t" and eok: "entries_ok t" using ok by (simp_all add: tracker_ok_def)
  have attempts: "attempt_sequences t = sum (attempts_of t) (dom (entries t))"
    using ok by (auto simp: tracker_ok_def totals_ok_def msum_def attempts_of_def attempt_weight_def intro: sum.cong)
  have entry: "attempts_of t i \<le> max 1 (max_attempt_sequences opts)" for i
    using eok opt tracker_new_fields
    by (auto simp: attempts_of_def entries_ok_def entry_ok_def split: option.split)
  have "GetWindowStats t = \<lparr>stat_waiting_entries = card {i. is_waiting i t},
         stat_waiting_bytes = sum (bytes_of t) {i. is_waiting i t},
         stat_waiting_recipients = card (recipient_user_id ` {i. is_waiting i t}),
         stat_attempt_sequences = sum (attempts_of t) (dom (entries t))\<rparr>"
    by (simp add: GetWindowStats_def waiting_sums(1,2) [OF ok] waiting_recipients [OF ok] attempts)
  moreover have "ConfirmedCount t \<le> max n 1" using ok opt by (simp add: ConfirmedCount_def tracker_ok_def)
  ultimately show ?thesis
    using run lim [unfolded limits_ok_def waiting_sums [OF ok] opt tracker_new_fields] entry by blast
qed

section \<open>What later calls leave alone\<close>

fun op_identity :: "TrackerOp \<Rightarrow> DeliveryIdentity" where
  "op_identity (OpRegisterAttempt i seq bytes now) = i"
| "op_identity (OpRegisterReplayAttempt i seq bytes now u) = i"
| "op_identity (OpRegisterRetryAttempt i expected seq n now) = i"
| "op_identity (OpAcknowledge i seq) = i"

lemma RegisterAttemptLocked_other:
  "\<lbrakk>RegisterAttemptLocked j seq bytes now t = Some (s, t'); j \<noteq> i\<rbrakk> \<Longrightarrow> entries t' i = entries t i"
  unfolding RegisterAttemptLocked_def Let_def grow_bytes_def
  by (auto split: option.splits if_splits)

lemma RegisterReplayAttempt_other:
  "\<lbrakk>RegisterReplayAttempt j seq bytes now u t = Some (s, t'); j \<noteq> i\<rbrakk> \<Longrightarrow> entries t' i = entries t i"
  unfolding RegisterReplayAttempt_def Let_def grow_bytes_def
  by (auto split: option.splits if_splits dest!: RegisterAttemptLocked_other)

lemma Acknowledge_keeps_waiting:
  assumes ok: "tracker_ok t" and w: "is_waiting i t" and ne: "j \<noteq> i"
  shows "entries (tracker_next t (OpAcknowledge j seq)) i = entries t i"
proof (cases "map_option fst (Acknowledge j seq t) = Some kConfirmed")
  case True
  then obtain e where e: "entries t j = Some e" unfolding Acknowledge_confirmed_iff [OF ok] by blast
  have q: "queue_ok t" "length (confirmed_order t) \<le> max_recent_confirmed t" using ok by (simp_all add: tracker_ok_def)
  have "hd (confirmed_order t) \<noteq> i" if "\<not> length (confirmed_order t) < max_recent_confirmed t"
  proof -
    from that q obtain oldest rest where o: "confirmed_order t = oldest # rest"
      by (cases "confirmed_order t") (auto simp: queue_ok_def)
    obtain e' where "entries t oldest = Some e'" "entry_confirmed e'" using queue_head [OF q(1) o] .
    with w o show ?thesis by (auto simp: is_waiting_def)
  qed
  with ne show ?thesis by (auto simp: Acknowledge_entries [OF ok True e])
next
  case False
  with ok show ?thesis by (simp add: Acknowledge_other)
qed

lemma other_keeps_waiting:
  assumes ok: "tracker_ok t" and w: "is_waiting i t" and ne: "op_identity op \<noteq> i"
  shows "entries (tracker_next t op) i = entries t i"
proof (cases op)
  case (OpRegisterAttempt j seq bytes now)
  with ne show ?thesis
    by (auto simp: tracker_next_def RegisterAttempt_def RegisterAttemptLocked_other split: option.split)
next
  case (OpRegisterReplayAttempt j seq bytes now u)
  with ne show ?thesis by (auto simp: tracker_next_def RegisterReplayAttempt_other split: option.split)
next
  case (OpRegisterRetryAttempt j expected seq n now)
  with ne show ?thesis by (auto simp: tracker_next_def RegisterRetryAttempt_def split: option.split)
next
  case (OpAcknowledge j seq)
  with assms show ?thesis by (simp add: Acknowledge_keeps_waiting)
qed

lemma others_keep_waiting:
  assumes "tracker_ok t" and "entries t i = Some e" "\<not> entry_confirmed e"
    and "list_all (\<lambda>op. op_identity op \<noteq> i) ops"
  shows "entries (run_ops tracker_next t ops) i = Some e"
  using rt.run_keeps [of "\<lambda>op. op_identity op \<noteq> i" "\<lambda>t. entries t i = Some e" t ops] assms
  by (auto simp: other_keeps_waiting is_waiting_def)

text \<open>An entry that waits for attempt \<open>seq\<close> is lost by no call but an acknowledgement for its identity.\<close>

definition waits_for :: "DeliveryIdentity \<Rightarrow> u32 \<Rightarrow> ReceiverDeliveryTracker \<Rightarrow> bool" where
  "waits_for i seq t \<longleftrightarrow> (\<exists>e. entries t i = Some e \<and> seq \<in> attempt_seqs e \<and> \<not> entry_confirmed e)"

fun acknowledges :: "DeliveryIdentity \<Rightarrow> TrackerOp \<Rightarrow> bool" where
  "acknowledges i (OpAcknowledge j seq) \<longleftrightarrow> j = i"
| "acknowledges i _ \<longleftrightarrow> False"

lemma waits_for_next:
  assumes ok: "tracker_ok t" and w: "waits_for i seq t" and a: "\<not> acknowledges i op"
  shows "waits_for i seq (tracker_next t op)"
proof (cases "proposed_attempt op")
  case None
  with a have "op_identity op \<noteq> i" by (cases op) auto
  with ok w show ?thesis by (auto simp: waits_for_def is_waiting_def other_keeps_waiting)
next
  case (Some p)
  from w obtain e where e: "entries t i = Some e" "seq \<in> attempt_seqs e" "\<not> entry_confirmed e"
    by (auto simp: waits_for_def)
  obtain e' where "entries (tracker_next t op) i = Some e'" "attempt_seqs e \<subseteq> attempt_seqs e'"
    "entry_confirmed e' = entry_confirmed e"
    using register_keeps [OF ok _ e(1), of op] Some by auto
  with e show ?thesis by (auto simp: waits_for_def)
qed

lemma waits_for_run:
  assumes "tracker_ok t" and "waits_for i seq t" and "list_all (\<lambda>op. \<not> acknowledges i op) ops"
  shows "waits_for i seq (run_ops tracker_next t ops)"
  using rt.run_keeps [of "\<lambda>op. \<not> acknowledges i op" "waits_for i seq" t ops] assms by (simp add: waits_for_next)

lemma RegisterAttempt_waits:
  assumes "RegisterAttempt i seq bytes now t = Some (s, t')"
    and "s = kRegistered \<or> s = ReceiverDeliveryRegisterStatus.kRetryRegistered"
  shows "Valid i \<and> seq \<noteq> 0 \<and> waits_for i seq t'"
  using assms unfolding RegisterAttempt_def RegisterAttemptLocked_def Let_def grow_bytes_def waits_for_def
  by (auto split: option.splits if_splits)

lemma Acknowledge_twice:
  assumes ok: "tracker_ok t" and v: "Valid i" "seq \<noteq> 0" and w: "waits_for i seq t"
  shows "\<exists>t'. Acknowledge i seq t = Some (kConfirmed, t') \<and> Acknowledge i seq t' = Some (kDuplicate, t')"
proof -
  obtain e where e: "entries t i = Some e" "seq \<in> attempt_seqs e" "\<not> entry_confirmed e"
    using w by (auto simp: waits_for_def)
  have c: "map_option fst (Acknowledge i seq t) = Some kConfirmed"
    unfolding Acknowledge_confirmed_iff [OF ok] using v e by blast
  then obtain t' where t': "Acknowledge i seq t = Some (kConfirmed, t')" by auto
  moreover have "tracker_next t (OpAcknowledge i seq) = t'" using t' by (simp add: tracker_next_def)
  ultimately have "entries t' i = Some (e\<lparr>entry_confirmed := True, wire_bytes := 0\<rparr>)"
    using Acknowledge_entries [OF ok c e(1)] by simp
  with v e have "Acknowledge i seq t' = Some (kDuplicate, t')" by (simp add: Acknowledge_def)
  with t' show ?thesis by blast
qed

text \<open>An accepted attempt stays acknowledgeable: whatever calls follow, as long as none of them acknowledges the
  same identity, the receiver's acknowledgement of that attempt is confirmed, and a repeated one is recognised as a
  duplicate.\<close>
theorem registered_attempt_confirmable:
  fixes ops ops' :: "TrackerOp list"
  assumes "RegisterAttempt i seq bytes now (run_ops tracker_next (ReceiverDeliveryTracker_new n opts) ops) = Some (s, t)"
    and "s = kRegistered \<or> s = ReceiverDeliveryRegisterStatus.kRetryRegistered"
    and "list_all (\<lambda>op. \<not> acknowledges i op) ops'"
  shows "\<exists>t'. Acknowledge i seq (run_ops tracker_next t ops') = Some (kConfirmed, t')
     \<and> Acknowledge i seq t' = Some (kDuplicate, t')"
proof -
  have ok: "tracker_ok t"
    using RegisterAttempt_ok [OF tracker_reachable_ok, of i seq bytes now n opts ops] assms(1) by auto
  have "Valid i" "seq \<noteq> 0" "waits_for i seq t" using RegisterAttempt_waits [OF assms(1,2)] by blast+
  with ok assms(3) show ?thesis by (intro Acknowledge_twice waits_for_run rt.run_invar) simp_all
qed

text \<open>A private message has one receiver: while an attempt for it is on record, registering, retrying or
  acknowledging it for any other receiver is refused as a mismatch and changes nothing.\<close>
theorem private_message_single_receiver:
  assumes "t = run_ops tracker_next (ReceiverDeliveryTracker_new n opts) ops"
    and "entries t (PrivateDeliveryIdentity m r) \<noteq> None" and "r' \<noteq> r" "r' \<noteq> 0" "seq \<noteq> 0" "expected \<noteq> 0" "k \<noteq> 0"
  shows "Acknowledge (PrivateDeliveryIdentity m r') seq t = Some (ReceiverDeliveryAckStatus.kReceiverMismatch, t)
     \<and> RegisterAttempt (PrivateDeliveryIdentity m r') seq bytes now t
         = Some (ReceiverDeliveryRegisterStatus.kReceiverMismatch, t)
     \<and> RegisterRetryAttempt (PrivateDeliveryIdentity m r') expected seq k now t
         = (ReceiverDeliveryRetryRegisterStatus.kReceiverMismatch, t)"
proof -
  have eok: "entries_ok t" using assms(1) tracker_reachable_ok by (simp add: tracker_ok_def)
  have here: "private_receivers t m = Some r" using private_index [OF eok] assms(2) by blast
  then have none: "entries t (PrivateDeliveryIdentity m r') = None"
    using private_index [OF eok, of m r'] assms(3) by auto
  have "Valid (PrivateDeliveryIdentity m r)" using eok assms(2) by (auto simp: entries_ok_def entry_ok_def)
  then have "Valid (PrivateDeliveryIdentity m r')" using assms(4) by (simp add: Valid_def PrivateDeliveryIdentity_def)
  with here none assms(5-) show ?thesis
    by (simp add: Acknowledge_def RegisterAttempt_def RegisterAttemptLocked_def RegisterRetryAttempt_def
        PrivateDeliveryIdentity_def Let_def)
qed

lemma RegisterReplayAttempt_entry:
  assumes "RegisterReplayAttempt i seq bytes now u t = Some (r, t')"
    and "reg_status r = kRegistered \<or> reg_status r = ReceiverDeliveryRegisterStatus.kRetryRegistered"
  shows "Valid i \<and> (\<exists>e. entries t' i = Some e \<and> \<not> entry_confirmed e \<and> last_attempt_at e = now)"
  using assms unfolding RegisterReplayAttempt_def RegisterAttemptLocked_def Let_def grow_bytes_def
  by (auto split: option.splits if_splits)

text \<open>The replay cooldown holds: after a replay of a delivery was admitted, and whatever happens to other
  deliveries in between, a further replay of the same delivery before the cooldown (and the reported clock
  uncertainty) has passed is told to wait for the acknowledgement and sends nothing.\<close>
theorem replay_cooldown:
  assumes "RegisterReplayAttempt i seq bytes now u (run_ops tracker_next (ReceiverDeliveryTracker_new n opts) ops) = Some (r, t)"
    and "reg_status r = kRegistered \<or> reg_status r = ReceiverDeliveryRegisterStatus.kRetryRegistered"
    and "list_all (\<lambda>op. op_identity op \<noteq> i) ops'"
    and "now' < now + max (recovery_resend_cooldown opts) 1 + u'" and "seq' \<noteq> 0"
  shows "RegisterReplayAttempt i seq' bytes' now' u' (run_ops tracker_next t ops') =
     Some (\<lparr>reg_status = kWaitingAck, reg_delivery_seq = 0, reg_reused_attempt = False\<rparr>, run_ops tracker_next t ops')"
proof -
  have ok: "tracker_ok t"
    using RegisterReplayAttempt_ok [OF tracker_reachable_ok, of i seq bytes now u n opts ops] assms(1) by auto
  obtain e where v: "Valid i" and e: "entries t i = Some e" "\<not> entry_confirmed e" "last_attempt_at e = now"
    using RegisterReplayAttempt_entry [OF assms(1,2)] by blast
  have "recovery_resend_cooldown (window_options (run_ops tracker_next t ops')) = max (recovery_resend_cooldown opts) 1"
    using tracker_run_options [of t ops'] RegisterReplayAttempt_same_options [OF assms(1)]
      tracker_run_options [of "ReceiverDeliveryTracker_new n opts" ops]
    by (simp add: same_options_def ReceiverDeliveryTracker_new_def)
  with v e others_keep_waiting [OF ok e(1,2) assms(3)] assms(4,5) show ?thesis
    by (simp add: RegisterReplayAttempt_def Let_def)
qed


definition small_window :: WindowOptions where
  "small_window = \<lparr>max_waiting_entries = 4, max_waiting_per_recipient = 2, max_waiting_bytes = 100,
     max_bytes_per_recipient = 60, max_attempt_sequences = 3, recovery_resend_cooldown = 5000\<rparr>"

lemmas tracker_eval = ReceiverDeliveryTracker_new_def small_window_def tracker_next_def RegisterAttempt_def
  RegisterAttemptLocked_def RegisterReplayAttempt_def Acknowledge_def ProcessPrivateReceiverAck_def
  ByteRoomLocked_def recipient_bytes_def recipient_entries_def grow_bytes_def Valid_def Let_def

theorem registered_attempt_confirmable_witness:
  "let t = snd (the (RegisterAttempt (PrivateDeliveryIdentity 7 2) 9 10 0
         (run_ops tracker_next (ReceiverDeliveryTracker_new 1 small_window) [])))
   in \<exists>t'. Acknowledge (PrivateDeliveryIdentity 7 2) 9 (run_ops tracker_next t
          [OpRegisterAttempt (PrivateDeliveryIdentity 8 3) 10 20 1, OpAcknowledge (PrivateDeliveryIdentity 8 3) 10])
        = Some (kConfirmed, t') \<and> Acknowledge (PrivateDeliveryIdentity 7 2) 9 t' = Some (kDuplicate, t')"
  unfolding Let_def
  by (rule registered_attempt_confirmable
      [where s = kRegistered and ops = "[]" and n = 1 and opts = small_window and bytes = 10 and now = 0])
    (simp_all add: tracker_eval PrivateDeliveryIdentity_def)

theorem private_message_single_receiver_witness:
  "Acknowledge (PrivateDeliveryIdentity 7 3) 9 (run_ops tracker_next (ReceiverDeliveryTracker_new 1 small_window)
     [OpRegisterAttempt (PrivateDeliveryIdentity 7 2) 9 10 0])
   = Some (ReceiverDeliveryAckStatus.kReceiverMismatch, run_ops tracker_next (ReceiverDeliveryTracker_new 1 small_window)
     [OpRegisterAttempt (PrivateDeliveryIdentity 7 2) 9 10 0])"
  by (rule private_message_single_receiver
        [where n = 1 and opts = small_window and r = 2 and expected = 1 and k = 1, OF refl, THEN conjunct1])
    (simp_all add: tracker_eval PrivateDeliveryIdentity_def)

theorem replay_cooldown_witness:
  "let t = snd (the (RegisterReplayAttempt (PrivateDeliveryIdentity 7 2) 9 10 0 1
         (run_ops tracker_next (ReceiverDeliveryTracker_new 1 small_window) [])))
   in RegisterReplayAttempt (PrivateDeliveryIdentity 7 2) 11 10 5000 1 (run_ops tracker_next t
          [OpRegisterAttempt (PrivateDeliveryIdentity 8 3) 10 20 1])
        = Some (\<lparr>reg_status = kWaitingAck, reg_delivery_seq = 0, reg_reused_attempt = False\<rparr>,
            run_ops tracker_next t [OpRegisterAttempt (PrivateDeliveryIdentity 8 3) 10 20 1])"
  unfolding Let_def
  by (rule replay_cooldown
      [where r = "\<lparr>reg_status = kRegistered, reg_delivery_seq = 9, reg_reused_attempt = False\<rparr>"
         and ops = "[]" and n = 1 and opts = small_window and bytes = 10 and now = 0 and u = 1 and seq = 9])
    (simp_all add: tracker_eval PrivateDeliveryIdentity_def)

text \<open>The window has no room for a second attempt: sequence number 9 is registered, 11 is refused.\<close>

definition one_attempt_ops :: "TrackerOp list" where
  "one_attempt_ops = [OpRegisterAttempt (PrivateDeliveryIdentity 7 2) 9 10 0, OpRegisterAttempt (PrivateDeliveryIdentity 7 2) 11 99 1]"

theorem durable_confirm_needs_registration_witness:
  "let t = run_ops tracker_next (ReceiverDeliveryTracker_new 1 small_window) one_attempt_ops
   in map_option fst (ProcessPrivateReceiverAck 7 2 9 True t) = Some (kConfirmed, True)
     \<and> (\<exists>before op after. one_attempt_ops = before @ op # after
          \<and> registered_attempt (run_ops tracker_next (ReceiverDeliveryTracker_new 1 small_window) before) op
              = Some (PrivateDeliveryIdentity 7 2, 9))
     \<and> map_option fst (ProcessPrivateReceiverAck 7 2 11 True t) = Some (kUnknownAttempt, False)"
proof -
  define t where "t = run_ops tracker_next (ReceiverDeliveryTracker_new 1 small_window) one_attempt_ops"
  have acks: "map_option fst (ProcessPrivateReceiverAck 7 2 9 True t) = Some (kConfirmed, True)"
    "map_option fst (ProcessPrivateReceiverAck 7 2 11 True t) = Some (kUnknownAttempt, False)"
    by (simp_all add: t_def one_attempt_ops_def ProcessPrivateReceiverAck_def tracker_eval PrivateDeliveryIdentity_def)
  from acks(1) obtain t' where "ProcessPrivateReceiverAck 7 2 9 True t = Some ((kConfirmed, True), t')" by auto
  from durable_confirm_needs_registration [OF this [unfolded t_def]] acks show ?thesis unfolding Let_def t_def by blast
qed

end
