(* ===== verification/Net_Buffer.thy ===== *)
theory Net_Buffer
  imports TIMX_Prelude
begin

text \<open>
  The network input and output buffer, \<open>common/net/Buffer.{h,cpp}\<close>: one vector of bytes with a
  prependable, a readable and a writable region delimited by two indices. The operations are
  written over the vector and the indices exactly as the class does it, with growth and compaction.
  \<open>readable\<close> is the abstract value of a buffer, the bytes between the two indices, and
  every operation is shown to act on it like the obvious list operation. A failed \<open>assert\<close> is the
  result \<open>None\<close>; the results of the system calls \<open>readv\<close> and \<open>write\<close> are arguments
  (\<open>Inl\<close> an errno, \<open>Inr\<close> what was transferred).

  Indices are natural numbers. The class subtracts only where the invariant \<open>buffer_ok\<close> orders the
  operands, so the natural number difference is the \<open>std::size_t\<close> difference.
\<close>

section \<open>State and operations\<close>

definition kCheapPrepend :: nat where
  "kCheapPrepend = 8"

definition kInitialSize :: nat where
  "kInitialSize = 1024"

record Buffer =
  buffer_vec :: "byte list"
  reader_index :: nat
  writer_index :: nat

definition Buffer_new :: "nat \<Rightarrow> Buffer" where
  "Buffer_new initial_size =
     \<lparr>buffer_vec = replicate (kCheapPrepend + initial_size) 0,
      reader_index = kCheapPrepend, writer_index = kCheapPrepend\<rparr>"

definition ReadableBytes :: "Buffer \<Rightarrow> nat" where
  "ReadableBytes b = writer_index b - reader_index b"

definition WritableBytes :: "Buffer \<Rightarrow> nat" where
  "WritableBytes b = length (buffer_vec b) - writer_index b"

definition PrependableBytes :: "Buffer \<Rightarrow> nat" where
  "PrependableBytes b = reader_index b"

text \<open>\<open>Peek n\<close> reads \<open>n\<close> bytes at \<open>Peek()\<close>.\<close>

definition Peek :: "nat \<Rightarrow> Buffer \<Rightarrow> byte list" where
  "Peek n b = take n (drop (reader_index b) (buffer_vec b))"

definition HasWritten :: "nat \<Rightarrow> Buffer \<Rightarrow> Buffer option" where
  "HasWritten n b =
     (if n \<le> WritableBytes b then Some (b\<lparr>writer_index := writer_index b + n\<rparr>) else None)"

definition Unwrite :: "nat \<Rightarrow> Buffer \<Rightarrow> Buffer option" where
  "Unwrite n b =
     (if n \<le> ReadableBytes b then Some (b\<lparr>writer_index := writer_index b - n\<rparr>) else None)"

definition RetrieveAll :: "Buffer \<Rightarrow> Buffer" where
  "RetrieveAll b = b\<lparr>reader_index := kCheapPrepend, writer_index := kCheapPrepend\<rparr>"

definition Retrieve :: "nat \<Rightarrow> Buffer \<Rightarrow> Buffer option" where
  "Retrieve n b =
     (if n \<le> ReadableBytes b
      then Some (if n < ReadableBytes b then b\<lparr>reader_index := reader_index b + n\<rparr>
                 else RetrieveAll b)
      else None)"

text \<open>\<open>RetrieveUntil\<close> takes a pointer into the vector, here the index it points at.\<close>

definition RetrieveUntil :: "nat \<Rightarrow> Buffer \<Rightarrow> Buffer option" where
  "RetrieveUntil e b =
     (if reader_index b \<le> e \<and> e \<le> writer_index b then Retrieve (e - reader_index b) b else None)"

definition RetrieveAsString :: "nat \<Rightarrow> Buffer \<Rightarrow> (byte list \<times> Buffer) option" where
  "RetrieveAsString n b =
     (if n \<le> ReadableBytes b then map_option (Pair (Peek n b)) (Retrieve n b) else None)"

definition RetrieveAllAsString :: "Buffer \<Rightarrow> (byte list \<times> Buffer) option" where
  "RetrieveAllAsString b = RetrieveAsString (ReadableBytes b) b"

text \<open>\<open>std::vector::resize\<close> and \<open>std::copy\<close>: within the vector element by element from the front,
  and from another array.\<close>

definition vector_resize :: "nat \<Rightarrow> byte list \<Rightarrow> byte list" where
  "vector_resize n xs = take n xs @ replicate (n - length xs) 0"

function std_copy_within :: "nat \<Rightarrow> nat \<Rightarrow> nat \<Rightarrow> byte list \<Rightarrow> byte list" where
  "std_copy_within lo hi dst xs =
     (if lo < hi then std_copy_within (Suc lo) hi (Suc dst) (xs[dst := xs ! lo]) else xs)"
  by pat_completeness auto
termination
  by (relation "measure (\<lambda>(lo, hi, dst, xs). hi - lo)") auto

primrec std_copy_in :: "byte list \<Rightarrow> nat \<Rightarrow> byte list \<Rightarrow> byte list" where
  "std_copy_in [] dst xs = xs"
| "std_copy_in (d # ds) dst xs = std_copy_in ds (Suc dst) (xs[dst := d])"

definition MakeSpace :: "nat \<Rightarrow> Buffer \<Rightarrow> Buffer option" where
  "MakeSpace n b =
     (if WritableBytes b + PrependableBytes b < n + kCheapPrepend
      then Some (b\<lparr>buffer_vec := vector_resize (writer_index b + n) (buffer_vec b)\<rparr>)
      else
        let readable = ReadableBytes b;
            b' = b\<lparr>buffer_vec := std_copy_within (reader_index b) (writer_index b) kCheapPrepend (buffer_vec b),
                   reader_index := kCheapPrepend,
                   writer_index := kCheapPrepend + readable\<rparr>
        in if readable = ReadableBytes b' then Some b' else None)"

definition EnsureWritableBytes :: "nat \<Rightarrow> Buffer \<Rightarrow> Buffer option" where
  "EnsureWritableBytes n b = (if n \<le> WritableBytes b then Some b else MakeSpace n b)"

definition Append :: "byte list \<Rightarrow> Buffer \<Rightarrow> Buffer option" where
  "Append data b =
     (if data = [] then Some b
      else do {
        b \<leftarrow> EnsureWritableBytes (length data) b;
        HasWritten (length data) (b\<lparr>buffer_vec := std_copy_in data (writer_index b) (buffer_vec b)\<rparr>)
      })"

definition kExtraBufferSize :: nat where
  "kExtraBufferSize = 65536"

text \<open>What one \<open>readv\<close> may deliver: the writable region and, when that is smaller than the stack
  buffer, the stack buffer too.\<close>

definition ReadFd_capacity :: "Buffer \<Rightarrow> nat" where
  "ReadFd_capacity b =
     (if WritableBytes b < kExtraBufferSize then WritableBytes b + kExtraBufferSize else WritableBytes b)"

definition ReadFd :: "(int + byte list) \<Rightarrow> Buffer \<Rightarrow> (Buffer \<times> (int + nat)) option" where
  "ReadFd readv b =
     (let writable = WritableBytes b in
      case readv of
        Inl errno \<Rightarrow> Some (b, Inl errno)
      | Inr data \<Rightarrow>
          let n = length data;
              stored = b\<lparr>buffer_vec := std_copy_in (take writable data) (writer_index b) (buffer_vec b)\<rparr>
          in if n \<le> writable then Some (stored\<lparr>writer_index := writer_index b + n\<rparr>, Inr n)
             else do {
               b' \<leftarrow> Append (drop writable data) (stored\<lparr>writer_index := length (buffer_vec b)\<rparr>);
               Some (b', Inr n)
             })"

definition WriteFd :: "(int + nat) \<Rightarrow> Buffer \<Rightarrow> (Buffer \<times> (int + nat)) option" where
  "WriteFd write b =
     (if ReadableBytes b = 0 then Some (b, Inr 0)
      else case write of
        Inl errno \<Rightarrow> Some (b, Inl errno)
      | Inr n \<Rightarrow> map_option (\<lambda>b'. (b', Inr n)) (Retrieve n b))"

section \<open>Invariant and abstract value\<close>

definition buffer_ok :: "Buffer \<Rightarrow> bool" where
  "buffer_ok b \<longleftrightarrow> kCheapPrepend \<le> reader_index b \<and> reader_index b \<le> writer_index b
     \<and> writer_index b \<le> length (buffer_vec b)"

definition readable :: "Buffer \<Rightarrow> byte list" where
  "readable b = take (ReadableBytes b) (drop (reader_index b) (buffer_vec b))"

lemmas size_defs = ReadableBytes_def WritableBytes_def PrependableBytes_def

lemma buffer_ok_new [simp]: "buffer_ok (Buffer_new n)"
  by (simp add: buffer_ok_def Buffer_new_def)

lemma readable_new [simp]: "readable (Buffer_new n) = []"
  by (simp add: readable_def Buffer_new_def size_defs)

lemma length_readable [buffer_simps]: "buffer_ok b \<Longrightarrow> length (readable b) = ReadableBytes b"
  by (auto simp: readable_def buffer_ok_def size_defs min_def)

lemma ReadableBytes_eq_0 [buffer_simps]: "buffer_ok b \<Longrightarrow> ReadableBytes b = 0 \<longleftrightarrow> readable b = []"
  by (simp flip: length_readable)

lemma ReadableBytes_gt_0 [buffer_simps]: "buffer_ok b \<Longrightarrow> 0 < ReadableBytes b \<longleftrightarrow> readable b \<noteq> []"
  by (simp flip: length_readable)

lemma Peek_readable [buffer_simps]:
  "n \<le> ReadableBytes b \<Longrightarrow> Peek n b = take n (readable b)"
  by (simp add: Peek_def readable_def min_def)

lemma length_std_copy_in [simp]: "length (std_copy_in ds dst xs) = length xs"
  by (induction ds arbitrary: dst xs) auto

lemma nth_std_copy_in:
  "\<lbrakk>i < length xs; dst + length ds \<le> length xs\<rbrakk> \<Longrightarrow>
     std_copy_in ds dst xs ! i = (if dst \<le> i \<and> i < dst + length ds then ds ! (i - dst) else xs ! i)"
proof (induction ds arbitrary: dst xs)
  case Nil
  then show ?case by auto
next
  case (Cons d ds)
  then show ?case by (cases "i = dst") (auto simp: nth_Cons')
qed

lemma std_copy_in_eq:
  assumes "dst + length ds \<le> length xs"
  shows "std_copy_in ds dst xs = take dst xs @ ds @ drop (dst + length ds) xs"
proof (rule nth_equalityI)
  show "length (std_copy_in ds dst xs) = length (take dst xs @ ds @ drop (dst + length ds) xs)"
    using assms by simp
next
  fix i
  assume "i < length (std_copy_in ds dst xs)"
  then show "std_copy_in ds dst xs ! i = (take dst xs @ ds @ drop (dst + length ds) xs) ! i"
    using assms by (auto simp: nth_std_copy_in nth_append)
qed

declare std_copy_within.simps [simp del]

lemma length_std_copy_within [simp]: "length (std_copy_within lo hi dst xs) = length xs"
proof (induction lo hi dst xs rule: std_copy_within.induct)
  case (1 lo hi dst xs)
  then show ?case by (subst std_copy_within.simps) simp
qed

text \<open>Copying to the front of the source range moves the source range: no element is overwritten before
  it is read.\<close>

lemma nth_std_copy_within:
  "\<lbrakk>dst < lo; lo \<le> hi; hi \<le> length xs; i < length xs\<rbrakk> \<Longrightarrow>
     std_copy_within lo hi dst xs ! i =
       (if dst \<le> i \<and> i < dst + (hi - lo) then xs ! (lo + (i - dst)) else xs ! i)"
proof (induction lo hi dst xs rule: std_copy_within.induct)
  case (1 lo hi dst xs)
  show ?case
  proof (cases "lo < hi")
    case True
    have "std_copy_within (Suc lo) hi (Suc dst) (xs[dst := xs ! lo]) ! i =
        (if Suc dst \<le> i \<and> i < Suc dst + (hi - Suc lo)
         then xs[dst := xs ! lo] ! (Suc lo + (i - Suc dst)) else xs[dst := xs ! lo] ! i)"
      using 1 True by simp
    with True 1 show ?thesis
      by (subst std_copy_within.simps) (auto simp: nth_list_update Suc_le_eq not_less_eq_eq Suc_diff_Suc)
  next
    case False
    with 1 show ?thesis by (subst std_copy_within.simps) auto
  qed
qed

lemma take_drop_std_copy_within:
  assumes "dst < lo" and "lo \<le> hi" and "hi \<le> length xs"
  shows "take (hi - lo) (drop dst (std_copy_within lo hi dst xs)) = take (hi - lo) (drop lo xs)"
proof (rule nth_equalityI)
  show "length (take (hi - lo) (drop dst (std_copy_within lo hi dst xs)))
      = length (take (hi - lo) (drop lo xs))"
    using assms by simp
next
  fix i
  assume "i < length (take (hi - lo) (drop dst (std_copy_within lo hi dst xs)))"
  with assms show "take (hi - lo) (drop dst (std_copy_within lo hi dst xs)) ! i
      = take (hi - lo) (drop lo xs) ! i"
    by (auto simp: nth_std_copy_within)
qed

section \<open>Every operation on the abstract value\<close>

lemma RetrieveAll_ok [simp]:
  "buffer_ok b \<Longrightarrow> buffer_ok (RetrieveAll b)"
  "readable (RetrieveAll b) = []"
  by (auto simp: RetrieveAll_def buffer_ok_def readable_def size_defs)

lemma Retrieve_spec:
  assumes "buffer_ok b" and "n \<le> ReadableBytes b"
  shows "\<exists>b'. Retrieve n b = Some b' \<and> buffer_ok b' \<and> readable b' = drop n (readable b)"
proof (cases "n < ReadableBytes b")
  case True
  let ?b = "b\<lparr>reader_index := reader_index b + n\<rparr>"
  have "Retrieve n b = Some ?b" using True by (simp add: Retrieve_def)
  moreover have "buffer_ok ?b" using assms True by (auto simp: buffer_ok_def size_defs)
  moreover have "readable ?b = drop n (readable b)"
    by (simp add: readable_def size_defs drop_take add.commute)
  ultimately show ?thesis by blast
next
  case False
  with assms have "Retrieve n b = Some (RetrieveAll b)" and "drop n (readable b) = []"
    by (simp_all add: Retrieve_def length_readable)
  with assms show ?thesis by simp
qed

lemma Retrieve_fails: "Retrieve n b = None \<longleftrightarrow> ReadableBytes b < n"
  by (auto simp: Retrieve_def)

lemma MakeSpace_spec:
  assumes ok: "buffer_ok b" and short: "WritableBytes b < n"
  shows "\<exists>b'. MakeSpace n b = Some b' \<and> buffer_ok b' \<and> readable b' = readable b \<and> n \<le> WritableBytes b'"
proof (cases "WritableBytes b + PrependableBytes b < n + kCheapPrepend")
  case True
  let ?b = "b\<lparr>buffer_vec := vector_resize (writer_index b + n) (buffer_vec b)\<rparr>"
  have grown: "length (buffer_vec b) \<le> writer_index b + n"
    using ok short by (auto simp: size_defs buffer_ok_def)
  then have "buffer_ok ?b" and "n \<le> WritableBytes ?b"
    using ok by (auto simp: buffer_ok_def size_defs vector_resize_def)
  moreover have "readable ?b = readable b"
    using ok grown by (auto simp: readable_def size_defs vector_resize_def buffer_ok_def)
  ultimately show ?thesis using True by (simp add: MakeSpace_def)
next
  case False
  let ?vec = "std_copy_within (reader_index b) (writer_index b) kCheapPrepend (buffer_vec b)"
  let ?b = "b\<lparr>buffer_vec := ?vec, reader_index := kCheapPrepend,
              writer_index := kCheapPrepend + ReadableBytes b\<rparr>"
  from False short have front: "kCheapPrepend < reader_index b" by (simp add: size_defs)
  have "readable ?b = readable b"
    using take_drop_std_copy_within [OF front, of "writer_index b" "buffer_vec b"] ok
    by (simp add: readable_def size_defs buffer_ok_def)
  moreover have "buffer_ok ?b" using ok by (auto simp: buffer_ok_def size_defs)
  moreover have "n \<le> WritableBytes ?b" using False ok by (auto simp: size_defs buffer_ok_def)
  moreover have "MakeSpace n b = Some ?b"
    using False by (simp add: MakeSpace_def Let_def size_defs)
  ultimately show ?thesis by blast
qed

lemma EnsureWritableBytes_spec:
  "buffer_ok b \<Longrightarrow> \<exists>b'. EnsureWritableBytes n b = Some b' \<and> buffer_ok b'
     \<and> readable b' = readable b \<and> n \<le> WritableBytes b'"
  using MakeSpace_spec [of b n] by (auto simp: EnsureWritableBytes_def)

text \<open>Writing behind the writer index and advancing it extends the readable bytes.\<close>

lemma write_at_end:
  assumes "buffer_ok b" and "length data \<le> WritableBytes b"
  defines "b' \<equiv> b\<lparr>buffer_vec := std_copy_in data (writer_index b) (buffer_vec b),
                   writer_index := writer_index b + length data\<rparr>"
  shows "buffer_ok b' \<and> readable b' = readable b @ data"
proof -
  have fit: "writer_index b + length data \<le> length (buffer_vec b)"
    using assms by (auto simp: buffer_ok_def size_defs)
  then have vec: "buffer_vec b' = take (writer_index b) (buffer_vec b) @ data
      @ drop (writer_index b + length data) (buffer_vec b)"
    by (simp add: b'_def std_copy_in_eq)
  have "buffer_ok b'" using assms(1) fit by (auto simp: buffer_ok_def b'_def)
  moreover have "readable b' = readable b @ data"
  proof -
    from assms(1) obtain k where k: "writer_index b = reader_index b + k"
      unfolding buffer_ok_def by (metis le_Suc_ex)
    show ?thesis
      using fit unfolding readable_def vec
      by (cases data) (auto simp: b'_def size_defs k drop_take min_def)
  qed
  ultimately show ?thesis by blast
qed

lemma Append_spec:
  assumes "buffer_ok b"
  shows "\<exists>b'. Append data b = Some b' \<and> buffer_ok b' \<and> readable b' = readable b @ data"
proof (cases "data = []")
  case True
  with assms show ?thesis by (simp add: Append_def)
next
  case False
  from EnsureWritableBytes_spec [OF assms, of "length data"] obtain b1 where b1:
    "EnsureWritableBytes (length data) b = Some b1" "buffer_ok b1" "readable b1 = readable b"
    "length data \<le> WritableBytes b1" by blast
  with False have "Append data b = Some (b1\<lparr>buffer_vec := std_copy_in data (writer_index b1) (buffer_vec b1),
      writer_index := writer_index b1 + length data\<rparr>)"
    by (simp add: Append_def HasWritten_def size_defs)
  with write_at_end [OF b1(2,4)] b1(3) show ?thesis by simp
qed

lemma RetrieveAsString_spec:
  assumes "buffer_ok b" and "n \<le> ReadableBytes b"
  shows "\<exists>b'. RetrieveAsString n b = Some (take n (readable b), b') \<and> buffer_ok b'
     \<and> readable b' = drop n (readable b)"
  using Retrieve_spec [OF assms] assms by (auto simp: RetrieveAsString_def buffer_simps)

lemma Unwrite_spec:
  assumes "buffer_ok b" and "n \<le> ReadableBytes b"
  shows "\<exists>b'. Unwrite n b = Some b' \<and> buffer_ok b'
     \<and> readable b' = take (ReadableBytes b - n) (readable b)"
  using assms by (auto simp: Unwrite_def buffer_ok_def readable_def size_defs min_def add.commute)

section \<open>The byte stream interface\<close>

text \<open>What the codec relies on: a stream of bytes that grows at one end and shrinks at the other, with
  the two ways of consuming it failing exactly when there are too few bytes.\<close>

locale byte_stream =
  fixes ok :: "'b \<Rightarrow> bool"
    and view :: "'b \<Rightarrow> byte list"
    and app :: "byte list \<Rightarrow> 'b \<Rightarrow> 'b option"
    and ret :: "nat \<Rightarrow> 'b \<Rightarrow> 'b option"
  assumes app_spec: "ok b \<Longrightarrow> \<exists>b'. app d b = Some b' \<and> ok b' \<and> view b' = view b @ d"
    and ret_spec: "\<lbrakk>ok b; n \<le> length (view b)\<rbrakk> \<Longrightarrow> \<exists>b'. ret n b = Some b' \<and> ok b' \<and> view b' = drop n (view b)"
    and ret_none: "\<lbrakk>ok b; length (view b) < n\<rbrakk> \<Longrightarrow> ret n b = None"
begin

lemma appE:
  assumes "ok b"
  obtains b' where "app d b = Some b'" "ok b'" "view b' = view b @ d"
  using app_spec [OF assms] by blast

lemma app_SomeD: "\<lbrakk>app d b = Some b'; ok b\<rbrakk> \<Longrightarrow> ok b' \<and> view b' = view b @ d"
  using app_spec [of b d] by auto

lemma ret_SomeD:
  "\<lbrakk>ret n b = Some b'; ok b\<rbrakk> \<Longrightarrow> n \<le> length (view b) \<and> ok b' \<and> view b' = drop n (view b)"
  using ret_spec [of b n] ret_none [of b n] by (cases "n \<le> length (view b)") auto

text \<open>Appending pieces one by one is appending their concatenation.\<close>

lemma fold_app:
  "ok b \<Longrightarrow> \<exists>b'. fold_opt app ds b = Some b' \<and> ok b' \<and> view b' = view b @ concat ds"
proof (induction ds arbitrary: b)
  case Nil
  then show ?case by simp
next
  case (Cons d ds)
  obtain b1 where b1: "app d b = Some b1" "ok b1" "view b1 = view b @ d"
    using Cons.prems by (rule appE)
  with Cons.IH [OF b1(2)] show ?case by auto
qed

text \<open>Bytes come out in the order they went in.\<close>

lemma app_ret:
  assumes "ok b" and "view b = []" and "app d b = Some b1"
  shows "\<exists>b2. ret (length d) b1 = Some b2 \<and> ok b2 \<and> view b2 = []"
  using app_SomeD [OF assms(3,1)] ret_spec [of b1 "length d"] assms(2) by auto

end

interpretation nb: byte_stream buffer_ok readable Append Retrieve
  by unfold_locales
    (simp_all add: Append_spec Retrieve_spec Retrieve_fails length_readable)

section \<open>System calls\<close>

lemma ReadFd_data_spec:
  assumes ok: "buffer_ok b"
  shows "\<exists>b'. ReadFd (Inr data) b = Some (b', Inr (length data)) \<and> buffer_ok b'
     \<and> readable b' = readable b @ data"
proof (cases "length data \<le> WritableBytes b")
  case True
  then have "take (WritableBytes b) data = data" by simp
  with True write_at_end [OF ok True] show ?thesis by (simp add: ReadFd_def Let_def)
next
  case False
  let ?w = "WritableBytes b"
  let ?b = "b\<lparr>buffer_vec := std_copy_in (take ?w data) (writer_index b) (buffer_vec b),
              writer_index := length (buffer_vec b)\<rparr>"
  have full: "writer_index b + length (take ?w data) = length (buffer_vec b)"
    using False ok by (auto simp: size_defs buffer_ok_def)
  have "length (take ?w data) \<le> ?w" by simp
  from write_at_end [OF ok this, unfolded full]
  have "buffer_ok ?b" and view: "readable ?b = readable b @ take ?w data" by simp_all
  from Append_spec [OF this(1), of "drop ?w data"] obtain b' where
    "Append (drop ?w data) ?b = Some b'" "buffer_ok b'" "readable b' = readable ?b @ drop ?w data"
    by blast
  with False view show ?thesis by (simp add: ReadFd_def Let_def)
qed

lemma WriteFd_sent_spec:
  assumes "buffer_ok b" and "n \<le> ReadableBytes b" and "ReadableBytes b \<noteq> 0"
  shows "\<exists>b'. WriteFd (Inr n) b = Some (b', Inr n) \<and> buffer_ok b' \<and> readable b' = drop n (readable b)"
  using Retrieve_spec [OF assms(1,2)] assms(3) by (auto simp: WriteFd_def)

section \<open>A buffer is a list of bytes\<close>

text \<open>All calls of the class with what each returns, and what each means for the readable bytes. The list side says when an
  assertion of the class fails.\<close>

datatype BufferOp =
    OpAppend "byte list" | OpRetrieve nat | OpRetrieveAll | OpRetrieveAsString nat | OpRetrieveAllAsString | OpUnwrite nat
  | OpEnsureWritableBytes nat | OpReadFd "int + byte list" | OpWriteFd "int + nat" | OpPeek nat | OpReadableBytes

datatype BufferResult = Nothing | Bytes "byte list" | Count nat | SystemCall "int + nat"

definition silently :: "Buffer option \<Rightarrow> (BufferResult \<times> Buffer) option" where
  "silently = map_option (Pair Nothing)"

fun buffer_step :: "Buffer \<Rightarrow> BufferOp \<Rightarrow> (BufferResult \<times> Buffer) option" where
  "buffer_step b (OpAppend d) = silently (Append d b)"
| "buffer_step b (OpRetrieve n) = silently (Retrieve n b)"
| "buffer_step b OpRetrieveAll = Some (Nothing, RetrieveAll b)"
| "buffer_step b (OpRetrieveAsString n) = map_option (apfst Bytes) (RetrieveAsString n b)"
| "buffer_step b OpRetrieveAllAsString = map_option (apfst Bytes) (RetrieveAllAsString b)"
| "buffer_step b (OpUnwrite n) = silently (Unwrite n b)"
| "buffer_step b (OpEnsureWritableBytes n) = silently (EnsureWritableBytes n b)"
| "buffer_step b (OpReadFd r) = map_option (\<lambda>(b', n). (SystemCall n, b')) (ReadFd r b)"
| "buffer_step b (OpWriteFd r) = map_option (\<lambda>(b', n). (SystemCall n, b')) (WriteFd r b)"
| "buffer_step b (OpPeek n) = (if n \<le> ReadableBytes b then Some (Bytes (Peek n b), b) else None)"
| "buffer_step b OpReadableBytes = Some (Count (ReadableBytes b), b)"

fun bytes_step :: "byte list \<Rightarrow> BufferOp \<Rightarrow> (BufferResult \<times> byte list) option" where
  "bytes_step xs (OpAppend d) = Some (Nothing, xs @ d)"
| "bytes_step xs (OpRetrieve n) = (if n \<le> length xs then Some (Nothing, drop n xs) else None)"
| "bytes_step xs OpRetrieveAll = Some (Nothing, [])"
| "bytes_step xs (OpRetrieveAsString n) = (if n \<le> length xs then Some (Bytes (take n xs), drop n xs) else None)"
| "bytes_step xs OpRetrieveAllAsString = Some (Bytes xs, [])"
| "bytes_step xs (OpUnwrite n) = (if n \<le> length xs then Some (Nothing, take (length xs - n) xs) else None)"
| "bytes_step xs (OpEnsureWritableBytes n) = Some (Nothing, xs)"
| "bytes_step xs (OpReadFd (Inl e)) = Some (SystemCall (Inl e), xs)"
| "bytes_step xs (OpReadFd (Inr d)) = Some (SystemCall (Inr (length d)), xs @ d)"
| "bytes_step xs (OpWriteFd r) =
     (if xs = [] then Some (SystemCall (Inr 0), [])
      else case r of Inl e \<Rightarrow> Some (SystemCall (Inl e), xs)
        | Inr n \<Rightarrow> if n \<le> length xs then Some (SystemCall (Inr n), drop n xs) else None)"
| "bytes_step xs (OpPeek n) = (if n \<le> length xs then Some (Bytes (take n xs), xs) else None)"
| "bytes_step xs OpReadableBytes = Some (Count (length xs), xs)"

lemma buffer_step_none:
  "buffer_ok b \<Longrightarrow> bytes_step (readable b) op = None \<Longrightarrow> buffer_step b op = None"
proof (cases op)
  case (OpReadFd x)
  moreover assume "bytes_step (readable b) op = None"
  ultimately show ?thesis by (cases x) simp_all
qed (auto simp: silently_def Retrieve_def RetrieveAsString_def Unwrite_def WriteFd_def buffer_simps
      split: if_splits sum.splits)

lemma buffer_step_some:
  assumes ok: "buffer_ok b" and step: "bytes_step (readable b) op = Some (r, ys)"
  shows "\<exists>b'. buffer_step b op = Some (r, b') \<and> buffer_ok b' \<and> readable b' = ys"
proof (cases op)
  case (OpReadFd x)
  with step ReadFd_data_spec [OF ok] ok show ?thesis by (cases x) (fastforce simp: ReadFd_def)+
next
  case (OpWriteFd x)
  with step ok WriteFd_sent_spec [OF ok] show ?thesis
    by (cases x) (fastforce simp: WriteFd_def buffer_simps split: if_splits)+
next
  case OpRetrieveAllAsString
  with step RetrieveAsString_spec [OF ok, of "ReadableBytes b"] show ?thesis
    by (auto simp: RetrieveAllAsString_def length_readable [OF ok, symmetric])
qed (use step ok Append_spec [OF ok] Retrieve_spec [OF ok] RetrieveAsString_spec [OF ok] Unwrite_spec [OF ok]
      EnsureWritableBytes_spec [OF ok] in
    \<open>fastforce simp: silently_def length_readable Peek_readable split: if_splits\<close>)+

lemma buffer_run_refines:
  "buffer_ok b \<Longrightarrow> map_option (apsnd readable) (run_out buffer_step b ops) = run_out bytes_step (readable b) ops"
proof (induction ops arbitrary: b)
  case Nil
  then show ?case by simp
next
  case (Cons op ops)
  show ?case
  proof (cases "bytes_step (readable b) op")
    case None
    with buffer_step_none [OF Cons.prems None] show ?thesis by simp
  next
    case (Some p)
    obtain r ys where p: "p = (r, ys)" by fastforce
    from buffer_step_some [OF Cons.prems Some [unfolded p]] obtain b' where
      b': "buffer_step b op = Some (r, b')" "buffer_ok b'" "readable b' = ys" by blast
    have "run_out bytes_step ys ops = map_option (apsnd readable) (run_out buffer_step b' ops)"
      using Cons.IH [OF b'(2)] b'(3) by simp
    with b'(1) Some p show ?thesis by (cases "run_out buffer_step b' ops") auto
  qed
qed

text \<open>C3: any sequence of calls on a fresh buffer, including growth, compaction and partial reads and
  writes of the socket, returns exactly what the same calls on a plain list of bytes return, call by call, and leaves the same
  bytes; and an assertion of the class fails exactly when a call asks for more bytes than the list has.\<close>

theorem buffer_refines_bytes:
  "map_option (apsnd readable) (run_out buffer_step (Buffer_new n) ops) = run_out bytes_step [] ops"
  using buffer_run_refines [of "Buffer_new n" ops] by simp

end
