(* ===== verification/Packet_Codec.thy ===== *)
theory Packet_Codec
  imports Net_Buffer
begin

unbundle bit_operations_syntax

text \<open>
  The TIMX framing: \<open>common/protocol/Packet.{h,cpp}\<close> and \<open>common/protocol/ProtocolCodec.{h,cpp}\<close>, and
  the gateway's use of the decoder on a connection's input, \<open>GatewayServer::HandleMessage\<close>. A frame is
  a header of 20 bytes (magic, version, type, flags, reserved, sequence number, body size, all big
  endian) and the body. \<open>Encode\<close> and \<open>Decode\<close> work on the buffers of \<open>Net_Buffer\<close>; a failed
  assertion of the buffer is the result \<open>None\<close>, a null pointer argument is \<open>None\<close> as an argument.

  \<open>decode_bytes\<close> is the reference decoder, a recursion over a list of bytes that takes one
  frame at a time; \<open>DecodeLoop\<close> is shown to implement it. The theorems on segmentation, on round trips
  and on bounds are proved for the reference decoder and carried over.
\<close>

section \<open>Message types\<close>

text \<open>An \<open>enum class\<close> with a fixed underlying type holds any value of that type; the enumerators are
  names for some of them.\<close>

datatype MessageType = MessageType (message_type_code: u16)

abbreviation kUnknown :: MessageType where "kUnknown \<equiv> MessageType 0"
abbreviation kLoginRequest :: MessageType where "kLoginRequest \<equiv> MessageType 1001"
abbreviation kLoginResponse :: MessageType where "kLoginResponse \<equiv> MessageType 1002"
abbreviation kChatMessage :: MessageType where "kChatMessage \<equiv> MessageType 2001"
abbreviation kChatAck :: MessageType where "kChatAck \<equiv> MessageType 2002"
abbreviation kReadRequest :: MessageType where "kReadRequest \<equiv> MessageType 2003"
abbreviation kReadResponse :: MessageType where "kReadResponse \<equiv> MessageType 2004"
abbreviation kHistoryRequest :: MessageType where "kHistoryRequest \<equiv> MessageType 2005"
abbreviation kHistoryResponse :: MessageType where "kHistoryResponse \<equiv> MessageType 2006"
abbreviation kConversationListRequest :: MessageType where "kConversationListRequest \<equiv> MessageType 2007"
abbreviation kConversationListResponse :: MessageType where "kConversationListResponse \<equiv> MessageType 2008"
abbreviation kFriendListRequest :: MessageType where "kFriendListRequest \<equiv> MessageType 2009"
abbreviation kFriendListResponse :: MessageType where "kFriendListResponse \<equiv> MessageType 2010"
abbreviation kFriendRequestCreateRequest :: MessageType where "kFriendRequestCreateRequest \<equiv> MessageType 2011"
abbreviation kFriendRequestCreateResponse :: MessageType where "kFriendRequestCreateResponse \<equiv> MessageType 2012"
abbreviation kFriendRequestListRequest :: MessageType where "kFriendRequestListRequest \<equiv> MessageType 2013"
abbreviation kFriendRequestListResponse :: MessageType where "kFriendRequestListResponse \<equiv> MessageType 2014"
abbreviation kFriendRequestAcceptRequest :: MessageType where "kFriendRequestAcceptRequest \<equiv> MessageType 2015"
abbreviation kFriendRequestAcceptResponse :: MessageType where "kFriendRequestAcceptResponse \<equiv> MessageType 2016"
abbreviation kFriendRequestRejectRequest :: MessageType where "kFriendRequestRejectRequest \<equiv> MessageType 2017"
abbreviation kFriendRequestRejectResponse :: MessageType where "kFriendRequestRejectResponse \<equiv> MessageType 2018"
abbreviation kChatDelivery :: MessageType where "kChatDelivery \<equiv> MessageType 2019"
abbreviation kChatDeliveryAck :: MessageType where "kChatDeliveryAck \<equiv> MessageType 2020"
abbreviation kUserProfileRequest :: MessageType where "kUserProfileRequest \<equiv> MessageType 2021"
abbreviation kUserProfileResponse :: MessageType where "kUserProfileResponse \<equiv> MessageType 2022"
abbreviation kCreateGroupRequest :: MessageType where "kCreateGroupRequest \<equiv> MessageType 2023"
abbreviation kCreateGroupResponse :: MessageType where "kCreateGroupResponse \<equiv> MessageType 2024"
abbreviation kGetGroupRequest :: MessageType where "kGetGroupRequest \<equiv> MessageType 2025"
abbreviation kGetGroupResponse :: MessageType where "kGetGroupResponse \<equiv> MessageType 2026"
abbreviation kUpdateGroupRequest :: MessageType where "kUpdateGroupRequest \<equiv> MessageType 2027"
abbreviation kUpdateGroupResponse :: MessageType where "kUpdateGroupResponse \<equiv> MessageType 2028"
abbreviation kDisbandGroupRequest :: MessageType where "kDisbandGroupRequest \<equiv> MessageType 2029"
abbreviation kDisbandGroupResponse :: MessageType where "kDisbandGroupResponse \<equiv> MessageType 2030"
abbreviation kJoinGroupRequest :: MessageType where "kJoinGroupRequest \<equiv> MessageType 2031"
abbreviation kJoinGroupResponse :: MessageType where "kJoinGroupResponse \<equiv> MessageType 2032"
abbreviation kLeaveGroupRequest :: MessageType where "kLeaveGroupRequest \<equiv> MessageType 2033"
abbreviation kLeaveGroupResponse :: MessageType where "kLeaveGroupResponse \<equiv> MessageType 2034"
abbreviation kInviteGroupMemberRequest :: MessageType where "kInviteGroupMemberRequest \<equiv> MessageType 2035"
abbreviation kInviteGroupMemberResponse :: MessageType where "kInviteGroupMemberResponse \<equiv> MessageType 2036"
abbreviation kKickGroupMemberRequest :: MessageType where "kKickGroupMemberRequest \<equiv> MessageType 2037"
abbreviation kKickGroupMemberResponse :: MessageType where "kKickGroupMemberResponse \<equiv> MessageType 2038"
abbreviation kSetGroupMemberRoleRequest :: MessageType where "kSetGroupMemberRoleRequest \<equiv> MessageType 2039"
abbreviation kSetGroupMemberRoleResponse :: MessageType where "kSetGroupMemberRoleResponse \<equiv> MessageType 2040"
abbreviation kSetGroupMemberMuteRequest :: MessageType where "kSetGroupMemberMuteRequest \<equiv> MessageType 2041"
abbreviation kSetGroupMemberMuteResponse :: MessageType where "kSetGroupMemberMuteResponse \<equiv> MessageType 2042"
abbreviation kTransferGroupOwnershipRequest :: MessageType where "kTransferGroupOwnershipRequest \<equiv> MessageType 2043"
abbreviation kTransferGroupOwnershipResponse :: MessageType where "kTransferGroupOwnershipResponse \<equiv> MessageType 2044"
abbreviation kListGroupMembersRequest :: MessageType where "kListGroupMembersRequest \<equiv> MessageType 2045"
abbreviation kListGroupMembersResponse :: MessageType where "kListGroupMembersResponse \<equiv> MessageType 2046"
abbreviation kListMyGroupsRequest :: MessageType where "kListMyGroupsRequest \<equiv> MessageType 2047"
abbreviation kListMyGroupsResponse :: MessageType where "kListMyGroupsResponse \<equiv> MessageType 2048"
abbreviation kGroupMessageSendRequest :: MessageType where "kGroupMessageSendRequest \<equiv> MessageType 2049"
abbreviation kGroupMessageSendResponse :: MessageType where "kGroupMessageSendResponse \<equiv> MessageType 2050"
abbreviation kGroupMessageDelivery :: MessageType where "kGroupMessageDelivery \<equiv> MessageType 2051"
abbreviation kGroupMessageDeliveryAck :: MessageType where "kGroupMessageDeliveryAck \<equiv> MessageType 2052"
abbreviation kBeginFileUploadRequest :: MessageType where "kBeginFileUploadRequest \<equiv> MessageType 2053"
abbreviation kBeginFileUploadResponse :: MessageType where "kBeginFileUploadResponse \<equiv> MessageType 2054"
abbreviation kGetFileUploadSessionRequest :: MessageType where "kGetFileUploadSessionRequest \<equiv> MessageType 2055"
abbreviation kGetFileUploadSessionResponse :: MessageType where "kGetFileUploadSessionResponse \<equiv> MessageType 2056"
abbreviation kCancelFileUploadRequest :: MessageType where "kCancelFileUploadRequest \<equiv> MessageType 2057"
abbreviation kCancelFileUploadResponse :: MessageType where "kCancelFileUploadResponse \<equiv> MessageType 2058"
abbreviation kGatewayForwardChatRequest :: MessageType where "kGatewayForwardChatRequest \<equiv> MessageType 3001"
abbreviation kGatewayForwardChatResponse :: MessageType where "kGatewayForwardChatResponse \<equiv> MessageType 3002"
abbreviation kGatewayForwardGroupMessageRequest :: MessageType where "kGatewayForwardGroupMessageRequest \<equiv> MessageType 3003"
abbreviation kGatewayForwardGroupMessageResponse :: MessageType where "kGatewayForwardGroupMessageResponse \<equiv> MessageType 3004"
abbreviation kHeartbeat :: MessageType where "kHeartbeat \<equiv> MessageType 9001"
abbreviation kError :: MessageType where "kError \<equiv> MessageType 9999"

definition message_type_names :: "(MessageType \<times> string) list" where
  "message_type_names = [
     (kUnknown, ''unknown''), (kLoginRequest, ''login_request''),
     (kLoginResponse, ''login_response''), (kChatMessage, ''chat_message''),
     (kChatAck, ''chat_ack''), (kReadRequest, ''read_request''),
     (kReadResponse, ''read_response''), (kHistoryRequest, ''history_request''),
     (kHistoryResponse, ''history_response''), (kFriendListRequest, ''friend_list_request''),
     (kFriendListResponse, ''friend_list_response''),
     (kConversationListRequest, ''conversation_list_request''),
     (kConversationListResponse, ''conversation_list_response''),
     (kFriendRequestCreateRequest, ''friend_request_create_request''),
     (kFriendRequestCreateResponse, ''friend_request_create_response''),
     (kFriendRequestListRequest, ''friend_request_list_request''),
     (kFriendRequestListResponse, ''friend_request_list_response''),
     (kFriendRequestAcceptRequest, ''friend_request_accept_request''),
     (kFriendRequestAcceptResponse, ''friend_request_accept_response''),
     (kFriendRequestRejectRequest, ''friend_request_reject_request''),
     (kFriendRequestRejectResponse, ''friend_request_reject_response''),
     (kChatDelivery, ''chat_delivery''), (kChatDeliveryAck, ''chat_delivery_ack''),
     (kUserProfileRequest, ''user_profile_request''),
     (kUserProfileResponse, ''user_profile_response''),
     (kCreateGroupRequest, ''create_group_request''),
     (kCreateGroupResponse, ''create_group_response''), (kGetGroupRequest, ''get_group_request''),
     (kGetGroupResponse, ''get_group_response''), (kUpdateGroupRequest, ''update_group_request''),
     (kUpdateGroupResponse, ''update_group_response''),
     (kDisbandGroupRequest, ''disband_group_request''),
     (kDisbandGroupResponse, ''disband_group_response''),
     (kJoinGroupRequest, ''join_group_request''), (kJoinGroupResponse, ''join_group_response''),
     (kLeaveGroupRequest, ''leave_group_request''),
     (kLeaveGroupResponse, ''leave_group_response''),
     (kInviteGroupMemberRequest, ''invite_group_member_request''),
     (kInviteGroupMemberResponse, ''invite_group_member_response''),
     (kKickGroupMemberRequest, ''kick_group_member_request''),
     (kKickGroupMemberResponse, ''kick_group_member_response''),
     (kSetGroupMemberRoleRequest, ''set_group_member_role_request''),
     (kSetGroupMemberRoleResponse, ''set_group_member_role_response''),
     (kSetGroupMemberMuteRequest, ''set_group_member_mute_request''),
     (kSetGroupMemberMuteResponse, ''set_group_member_mute_response''),
     (kTransferGroupOwnershipRequest, ''transfer_group_ownership_request''),
     (kTransferGroupOwnershipResponse, ''transfer_group_ownership_response''),
     (kListGroupMembersRequest, ''list_group_members_request''),
     (kListGroupMembersResponse, ''list_group_members_response''),
     (kListMyGroupsRequest, ''list_my_groups_request''),
     (kListMyGroupsResponse, ''list_my_groups_response''),
     (kGroupMessageSendRequest, ''group_message_send_request''),
     (kGroupMessageSendResponse, ''group_message_send_response''),
     (kGroupMessageDelivery, ''group_message_delivery''),
     (kGroupMessageDeliveryAck, ''group_message_delivery_ack''),
     (kBeginFileUploadRequest, ''begin_file_upload_request''),
     (kBeginFileUploadResponse, ''begin_file_upload_response''),
     (kGetFileUploadSessionRequest, ''get_file_upload_session_request''),
     (kGetFileUploadSessionResponse, ''get_file_upload_session_response''),
     (kCancelFileUploadRequest, ''cancel_file_upload_request''),
     (kCancelFileUploadResponse, ''cancel_file_upload_response''),
     (kGatewayForwardChatRequest, ''gateway_forward_chat_request''),
     (kGatewayForwardChatResponse, ''gateway_forward_chat_response''),
     (kGatewayForwardGroupMessageRequest, ''gateway_forward_group_message_request''),
     (kGatewayForwardGroupMessageResponse, ''gateway_forward_group_message_response''),
     (kHeartbeat, ''heartbeat''), (kError, ''error'')]"

definition known_message_types :: "MessageType list" where
  "known_message_types = [
     kLoginRequest, kLoginResponse, kChatMessage, kChatAck, kReadRequest, kReadResponse,
     kHistoryRequest, kHistoryResponse, kFriendListRequest, kFriendListResponse,
     kConversationListRequest, kConversationListResponse, kFriendRequestCreateRequest,
     kFriendRequestCreateResponse, kFriendRequestListRequest, kFriendRequestListResponse,
     kFriendRequestAcceptRequest, kFriendRequestAcceptResponse, kFriendRequestRejectRequest,
     kFriendRequestRejectResponse, kChatDelivery, kChatDeliveryAck, kUserProfileRequest,
     kUserProfileResponse, kCreateGroupRequest, kCreateGroupResponse, kGetGroupRequest,
     kGetGroupResponse, kUpdateGroupRequest, kUpdateGroupResponse, kDisbandGroupRequest,
     kDisbandGroupResponse, kJoinGroupRequest, kJoinGroupResponse, kLeaveGroupRequest,
     kLeaveGroupResponse, kInviteGroupMemberRequest, kInviteGroupMemberResponse,
     kKickGroupMemberRequest, kKickGroupMemberResponse, kSetGroupMemberRoleRequest,
     kSetGroupMemberRoleResponse, kSetGroupMemberMuteRequest, kSetGroupMemberMuteResponse,
     kTransferGroupOwnershipRequest, kTransferGroupOwnershipResponse, kListGroupMembersRequest,
     kListGroupMembersResponse, kListMyGroupsRequest, kListMyGroupsResponse,
     kGroupMessageSendRequest, kGroupMessageSendResponse, kGroupMessageDelivery,
     kGroupMessageDeliveryAck, kBeginFileUploadRequest, kBeginFileUploadResponse,
     kGetFileUploadSessionRequest, kGetFileUploadSessionResponse, kCancelFileUploadRequest,
     kCancelFileUploadResponse, kGatewayForwardChatRequest, kGatewayForwardChatResponse,
     kGatewayForwardGroupMessageRequest, kGatewayForwardGroupMessageResponse, kHeartbeat, kError]"

definition MessageTypeToString :: "MessageType \<Rightarrow> string" where
  "MessageTypeToString t = (case map_of message_type_names t of Some s \<Rightarrow> s | None \<Rightarrow> ''invalid'')"

definition IsKnownMessageType :: "MessageType \<Rightarrow> bool" where
  "IsKnownMessageType t \<longleftrightarrow> t \<in> set known_message_types"

definition IsGatewayInternalMessageType :: "MessageType \<Rightarrow> bool" where
  "IsGatewayInternalMessageType t \<longleftrightarrow>
     t \<in> {kGatewayForwardChatRequest, kGatewayForwardChatResponse,
         kGatewayForwardGroupMessageRequest, kGatewayForwardGroupMessageResponse}"

section \<open>Headers and packets\<close>

record PacketHeader =
  hdr_magic :: u32
  hdr_version :: u16
  hdr_type :: u16
  hdr_flags :: u16
  hdr_reserved :: u16
  hdr_seq :: u32
  hdr_body_size :: u32

record Packet =
  pkt_type :: MessageType
  pkt_flags :: u16
  pkt_seq :: u32
  pkt_body :: "byte list"

definition kProtocolMagic :: u32 where "kProtocolMagic = 0x54494D58"
definition kProtocolVersion :: u16 where "kProtocolVersion = 1"
definition kPacketHeaderSize :: nat where "kPacketHeaderSize = 20"
definition kDefaultMaxBodySize :: nat where "kDefaultMaxBodySize = 1024 * 1024"

text \<open>\<open>htons\<close>, \<open>htonl\<close> and their inverses over the bytes in memory: most significant byte first.\<close>

definition bytes_of_u16 :: "u16 \<Rightarrow> byte list" where
  "bytes_of_u16 v = [ucast (drop_bit 8 v), ucast v]"

definition bytes_of_u32 :: "u32 \<Rightarrow> byte list" where
  "bytes_of_u32 v = [ucast (drop_bit 24 v), ucast (drop_bit 16 v), ucast (drop_bit 8 v), ucast v]"

definition AppendUint16 :: "u16 \<Rightarrow> Buffer \<Rightarrow> Buffer option" where
  "AppendUint16 v b = Append (bytes_of_u16 v) b"

definition AppendUint32 :: "u32 \<Rightarrow> Buffer \<Rightarrow> Buffer option" where
  "AppendUint32 v b = Append (bytes_of_u32 v) b"

definition ReadUint16 :: "byte list \<Rightarrow> u16" where
  "ReadUint16 d = push_bit 8 (ucast (d ! 0)) OR ucast (d ! 1)"

definition ReadUint32 :: "byte list \<Rightarrow> u32" where
  "ReadUint32 d = push_bit 24 (ucast (d ! 0)) OR push_bit 16 (ucast (d ! 1))
     OR push_bit 8 (ucast (d ! 2)) OR ucast (d ! 3)"

definition ParseHeader :: "byte list \<Rightarrow> PacketHeader" where
  "ParseHeader d =
     \<lparr>hdr_magic = ReadUint32 d, hdr_version = ReadUint16 (drop 4 d), hdr_type = ReadUint16 (drop 6 d),
      hdr_flags = ReadUint16 (drop 8 d), hdr_reserved = ReadUint16 (drop 10 d),
      hdr_seq = ReadUint32 (drop 12 d), hdr_body_size = ReadUint32 (drop 16 d)\<rparr>"

section \<open>The codec\<close>

datatype DecodeStatus =
  kOk | kNeedMoreData | kInvalidMagic | kUnsupportedVersion | kBodyTooLarge | kInvalidMessageType

record DecodeResult =
  status :: DecodeStatus
  packets :: "Packet list"
  error_message :: string

record ProtocolCodec =
  max_body_size :: nat

definition SetMaxBodySize :: "nat \<Rightarrow> ProtocolCodec \<Rightarrow> ProtocolCodec" where
  "SetMaxBodySize n c = c\<lparr>max_body_size := n\<rparr>"

definition ValidatePacketForEncode :: "ProtocolCodec \<Rightarrow> Packet \<Rightarrow> string option" where
  "ValidatePacketForEncode c p =
     (if \<not> IsKnownMessageType (pkt_type p) then Some ''invalid message type''
      else if length (pkt_body p) > max_body_size c then Some ''packet body is too large''
      else None)"

text \<open>\<open>Inl\<close> is the result \<open>false\<close> with its message; the buffer is then as it was.\<close>

definition Encode :: "ProtocolCodec \<Rightarrow> Packet \<Rightarrow> Buffer option \<Rightarrow> (string + Buffer) option" where
  "Encode c p output =
     (case output of
        None \<Rightarrow> Some (Inl ''output buffer is null'')
      | Some b \<Rightarrow>
          (case ValidatePacketForEncode c p of
             Some e \<Rightarrow> Some (Inl e)
           | None \<Rightarrow> do {
               b \<leftarrow> AppendUint32 kProtocolMagic b;
               b \<leftarrow> AppendUint16 kProtocolVersion b;
               b \<leftarrow> AppendUint16 (message_type_code (pkt_type p)) b;
               b \<leftarrow> AppendUint16 (pkt_flags p) b;
               b \<leftarrow> AppendUint16 0 b;
               b \<leftarrow> AppendUint32 (pkt_seq p) b;
               b \<leftarrow> AppendUint32 (word_of_nat (length (pkt_body p))) b;
               b \<leftarrow> (if pkt_body p \<noteq> [] then Append (pkt_body p) b else Some b);
               Some (Inr b)
             }))"

lemma Retrieve_ReadableBytes: "Retrieve n b = Some b' \<Longrightarrow> ReadableBytes b' = ReadableBytes b - n"
  by (auto simp: Retrieve_def RetrieveAll_def ReadableBytes_def split: if_splits)

lemma RetrieveAsString_ReadableBytes:
  "RetrieveAsString n b = Some (s, b') \<Longrightarrow> ReadableBytes b' = ReadableBytes b - n"
  by (auto simp: RetrieveAsString_def Retrieve_ReadableBytes split: if_splits)

function DecodeLoop :: "ProtocolCodec \<Rightarrow> Packet list \<Rightarrow> Buffer \<Rightarrow> (DecodeResult \<times> Buffer) option" where
  "DecodeLoop c ps input =
     (if kPacketHeaderSize \<le> ReadableBytes input then
        let header = ParseHeader (Peek kPacketHeaderSize input);
            message_type = MessageType (hdr_type header);
            full_packet_size = kPacketHeaderSize + unat (hdr_body_size header)
        in
        if hdr_magic header \<noteq> kProtocolMagic then
          Some (\<lparr>status = kInvalidMagic, packets = ps, error_message = ''invalid protocol magic''\<rparr>, input)
        else if hdr_version header \<noteq> kProtocolVersion then
          Some (\<lparr>status = kUnsupportedVersion, packets = ps, error_message = ''unsupported protocol version''\<rparr>, input)
        else if unat (hdr_body_size header) > max_body_size c then
          Some (\<lparr>status = kBodyTooLarge, packets = ps, error_message = ''packet body is too large''\<rparr>, input)
        else if \<not> IsKnownMessageType message_type then
          Some (\<lparr>status = kInvalidMessageType, packets = ps, error_message = ''invalid message type''\<rparr>, input)
        else if ReadableBytes input < full_packet_size then
          Some (\<lparr>status = (if ps = [] then kNeedMoreData else kOk), packets = ps, error_message = []\<rparr>, input)
        else do {
          input' \<leftarrow> Retrieve kPacketHeaderSize input;
          (body, input'') \<leftarrow> (if hdr_body_size header > 0
                            then RetrieveAsString (unat (hdr_body_size header)) input'
                            else Some ([], input'));
          DecodeLoop c (ps @ [\<lparr>pkt_type = message_type, pkt_flags = hdr_flags header,
                                pkt_seq = hdr_seq header, pkt_body = body\<rparr>]) input''
        }
      else Some (\<lparr>status = (if ps = [] then kNeedMoreData else kOk), packets = ps, error_message = []\<rparr>, input))"
  by pat_completeness auto
termination
  by (relation "measure (\<lambda>(c, ps, input). ReadableBytes input)")
    (auto simp: kPacketHeaderSize_def Let_def split: if_splits
      dest!: Retrieve_ReadableBytes RetrieveAsString_ReadableBytes)

definition Decode :: "ProtocolCodec \<Rightarrow> Buffer option \<Rightarrow> (DecodeResult \<times> Buffer option) option" where
  "Decode c input =
     (case input of
        None \<Rightarrow> Some (\<lparr>status = kNeedMoreData, packets = [], error_message = ''input buffer is null''\<rparr>, None)
      | Some b \<Rightarrow> map_option (\<lambda>(r, b'). (r, Some b')) (DecodeLoop c [] b))"

definition DecodeStatusToString :: "DecodeStatus \<Rightarrow> string" where
  "DecodeStatusToString s =
     (case s of kOk \<Rightarrow> ''ok'' | kNeedMoreData \<Rightarrow> ''need_more_data'' | kInvalidMagic \<Rightarrow> ''invalid_magic''
      | kUnsupportedVersion \<Rightarrow> ''unsupported_version'' | kBodyTooLarge \<Rightarrow> ''body_too_large''
      | kInvalidMessageType \<Rightarrow> ''invalid_message_type'')"

section \<open>The gateway's read callback\<close>

text \<open>What \<open>HandleMessage\<close> does with a decoded result: it passes packets to \<open>HandlePacket\<close>, sends an error
  packet, shuts the connection down.\<close>

datatype GatewayAction = HandlePacket Packet | SendErrorPacket string | ShutdownConnection

definition HandleMessage :: "ProtocolCodec \<Rightarrow> bool \<Rightarrow> Buffer \<Rightarrow> (GatewayAction list \<times> Buffer) option" where
  "HandleMessage c close_on_decode_error b =
     map_option (\<lambda>(r, b').
       (if status r = kNeedMoreData then []
        else if status r \<noteq> kOk then
          SendErrorPacket (error_message r) # (if close_on_decode_error then [ShutdownConnection] else [])
        else map HandlePacket (packets r), b')) (DecodeLoop c [] b)"

text \<open>A connection that receives the given segments, each read by \<open>ReadFd\<close> and handed to
  \<open>HandleMessage\<close>: the actions, in order.\<close>

primrec receive :: "ProtocolCodec \<Rightarrow> bool \<Rightarrow> byte list list \<Rightarrow> Buffer \<Rightarrow> (GatewayAction list \<times> Buffer) option" where
  "receive c cl [] b = Some ([], b)"
| "receive c cl (seg # segs) b = do {
     (b, _) \<leftarrow> ReadFd (Inr seg) b;
     (acts, b) \<leftarrow> HandleMessage c cl b;
     (acts', b) \<leftarrow> receive c cl segs b;
     Some (acts @ acts', b)
   }"

primrec encode_all :: "ProtocolCodec \<Rightarrow> Packet list \<Rightarrow> Buffer \<Rightarrow> (string + Buffer) option" where
  "encode_all c [] b = Some (Inr b)"
| "encode_all c (p # ps) b = do {
     r \<leftarrow> Encode c p (Some b);
     (case r of Inl e \<Rightarrow> Some (Inl e) | Inr b \<Rightarrow> encode_all c ps b)
   }"

section \<open>Integers on the wire\<close>

lemma ReadUint16_bytes [simp]: "ReadUint16 (bytes_of_u16 v @ r) = v"
  unfolding ReadUint16_def bytes_of_u16_def
  by (rule bit_word_eqI) (auto simp: bit_simps not_le)
lemma ReadUint32_bytes [simp]: "ReadUint32 (bytes_of_u32 v @ r) = v"
proof (rule bit_word_eqI)
  fix n :: nat
  assume "n < LENGTH(32)"
  then show "bit (ReadUint32 (bytes_of_u32 v @ r)) n \<longleftrightarrow> bit v n"
    unfolding ReadUint32_def bytes_of_u32_def
    by (cases "n < 8"; cases "n < 16"; cases "n < 24"; auto simp: bit_simps)
qed

lemmas ReadUint_alone [simp] = ReadUint16_bytes [of _ "[]", simplified] ReadUint32_bytes [of _ "[]", simplified]

section \<open>The reference decoder\<close>

datatype FrameResult = Short | Bad DecodeStatus string | Frame Packet nat

definition parse_frame :: "ProtocolCodec \<Rightarrow> byte list \<Rightarrow> FrameResult" where
  "parse_frame c xs =
     (if length xs < kPacketHeaderSize then Short
      else let h = ParseHeader (take kPacketHeaderSize xs); n = unat (hdr_body_size h) in
        if hdr_magic h \<noteq> kProtocolMagic then Bad kInvalidMagic ''invalid protocol magic''
        else if hdr_version h \<noteq> kProtocolVersion then Bad kUnsupportedVersion ''unsupported protocol version''
        else if n > max_body_size c then Bad kBodyTooLarge ''packet body is too large''
        else if \<not> IsKnownMessageType (MessageType (hdr_type h)) then Bad kInvalidMessageType ''invalid message type''
        else if length xs < kPacketHeaderSize + n then Short
        else Frame \<lparr>pkt_type = MessageType (hdr_type h), pkt_flags = hdr_flags h, pkt_seq = hdr_seq h,
                    pkt_body = take n (drop kPacketHeaderSize xs)\<rparr> (kPacketHeaderSize + n))"

lemma parse_frame_Frame:
  "parse_frame c xs = Frame p n \<Longrightarrow> kPacketHeaderSize \<le> n \<and> n \<le> length xs \<and> n = kPacketHeaderSize + length (pkt_body p)
    \<and> length (pkt_body p) \<le> max_body_size c \<and> IsKnownMessageType (pkt_type p)"
  by (auto simp: parse_frame_def Let_def split: if_splits)

function decode_bytes :: "ProtocolCodec \<Rightarrow> byte list \<Rightarrow> (DecodeStatus \<times> string) option \<times> Packet list \<times> byte list" where
  "decode_bytes c xs =
     (case parse_frame c xs of
        Short \<Rightarrow> (None, [], xs)
      | Bad s e \<Rightarrow> (Some (s, e), [], xs)
      | Frame p n \<Rightarrow> (case decode_bytes c (drop n xs) of (e, ps, rest) \<Rightarrow> (e, p # ps, rest)))"
  by pat_completeness auto
termination
  by (relation "measure (\<lambda>(c, xs). length xs)") (auto dest!: parse_frame_Frame simp: kPacketHeaderSize_def)
declare decode_bytes.simps [simp del] DecodeLoop.simps [simp del]

lemma parse_frame_append:
  "parse_frame c xs = Frame p n \<Longrightarrow> parse_frame c (xs @ ys) = Frame p n"
  "parse_frame c xs = Bad s e \<Longrightarrow> parse_frame c (xs @ ys) = Bad s e"
  by (auto simp: parse_frame_def Let_def split: if_splits)

lemma decode_bytes_append:
  assumes "decode_bytes c xs = (None, ps, rest)"
  shows "decode_bytes c (xs @ ys) = (case decode_bytes c (rest @ ys) of (e, qs, r) \<Rightarrow> (e, ps @ qs, r))"
  using assms
proof (induction c xs arbitrary: ps rule: decode_bytes.induct)
  case (1 c xs)
  show ?case
  proof (cases "parse_frame c xs")
    case Short
    with 1 show ?thesis by (auto simp: decode_bytes.simps [of c xs] split: prod.splits)
  next
    case (Bad s e)
    with 1 show ?thesis by (auto simp: decode_bytes.simps [of c xs])
  next
    case (Frame p n)
    then obtain qs where qs: "decode_bytes c (drop n xs) = (None, qs, rest)" "ps = p # qs"
      using "1.prems" by (auto simp: decode_bytes.simps [of c xs] split: prod.splits)
    have "n \<le> length xs" using Frame parse_frame_Frame by blast
    with Frame "1.IH" [OF Frame qs(1)] qs(2) show ?thesis
      by (subst decode_bytes.simps) (auto simp: parse_frame_append split: prod.splits)
  qed
qed

lemma decode_bytes_append_error:
  assumes "decode_bytes c xs = (Some e, ps, rest)"
  shows "decode_bytes c (xs @ ys) = (Some e, ps, rest @ ys)"
  using assms
proof (induction c xs arbitrary: ps rule: decode_bytes.induct)
  case (1 c xs)
  show ?case
  proof (cases "parse_frame c xs")
    case Short
    with 1 show ?thesis by (auto simp: decode_bytes.simps [of c xs] split: prod.splits)
  next
    case (Bad s m)
    with 1 have "ps = []" "e = (s, m)" "rest = xs" by (auto simp: decode_bytes.simps [of c xs])
    with Bad show ?thesis by (simp add: decode_bytes.simps [of c "xs @ ys"] parse_frame_append)
  next
    case (Frame p n)
    then obtain qs where qs: "decode_bytes c (drop n xs) = (Some e, qs, rest)" "ps = p # qs"
      using "1.prems" by (auto simp: decode_bytes.simps [of c xs] split: prod.splits)
    have "n \<le> length xs" using Frame parse_frame_Frame by blast
    with Frame "1.IH" [OF Frame qs(1)] qs(2) show ?thesis
      by (subst decode_bytes.simps) (auto simp: parse_frame_append split: prod.splits)
  qed
qed



section \<open>The decode loop implements the reference decoder\<close>

definition decode_status :: "Packet list \<Rightarrow> (DecodeStatus \<times> string) option \<Rightarrow> DecodeStatus" where
  "decode_status ps e = (case e of None \<Rightarrow> if ps = [] then kNeedMoreData else kOk | Some (s, _) \<Rightarrow> s)"

definition decode_message :: "(DecodeStatus \<times> string) option \<Rightarrow> string" where
  "decode_message e = (case e of None \<Rightarrow> [] | Some (_, m) \<Rightarrow> m)"

lemma DecodeLoop_refines:
  assumes "buffer_ok b" and "decode_bytes c (readable b) = (e, qs, rest)"
  shows "\<exists>b'. DecodeLoop c ps b =
      Some (\<lparr>status = decode_status (ps @ qs) e, packets = ps @ qs, error_message = decode_message e\<rparr>, b')
      \<and> buffer_ok b' \<and> readable b' = rest"
  using assms
proof (induction c "readable b" arbitrary: b ps qs rule: decode_bytes.induct)
  case (1 c b)
  have len: "length (readable b) = ReadableBytes b" using "1.prems"(1) by (rule length_readable)
  show ?case
  proof (cases "parse_frame c (readable b)")
    case Short
    with 1 have "qs = []" "e = None" "rest = readable b" by (auto simp: decode_bytes.simps [of c "readable b"])
    with Short "1.prems" len show ?thesis
      by (auto simp: DecodeLoop.simps [of c ps b] parse_frame_def Let_def decode_status_def decode_message_def Peek_readable split: if_splits)
  next
    case (Bad s m)
    with 1 have "qs = []" "e = Some (s, m)" "rest = readable b" by (auto simp: decode_bytes.simps [of c "readable b"])
    with Bad "1.prems" len show ?thesis
      by (auto simp: DecodeLoop.simps [of c ps b] parse_frame_def Let_def decode_status_def decode_message_def Peek_readable split: if_splits)
  next
    case (Frame p n)
    let ?h = "ParseHeader (take kPacketHeaderSize (readable b))"
    let ?n = "unat (hdr_body_size ?h)"
    have fr: "p = \<lparr>pkt_type = MessageType (hdr_type ?h), pkt_flags = hdr_flags ?h, pkt_seq = hdr_seq ?h,
        pkt_body = take ?n (drop kPacketHeaderSize (readable b))\<rparr>" "n = kPacketHeaderSize + ?n"
      "kPacketHeaderSize + ?n \<le> ReadableBytes b"
      "hdr_magic ?h = kProtocolMagic" "hdr_version ?h = kProtocolVersion" "?n \<le> max_body_size c"
      "IsKnownMessageType (MessageType (hdr_type ?h))"
      using Frame len by (auto simp: parse_frame_def Let_def split: if_splits)
    have le: "kPacketHeaderSize \<le> ReadableBytes b" using fr(3) by simp
    obtain b1 where b1: "Retrieve kPacketHeaderSize b = Some b1" "buffer_ok b1"
        "readable b1 = drop kPacketHeaderSize (readable b)"
      using Retrieve_spec [OF "1.prems"(1) le] by blast
    have "?n \<le> ReadableBytes b1" using b1 fr(3) len by (simp flip: length_readable)
    from RetrieveAsString_spec [OF b1(2) this] obtain b2 where
      b2: "RetrieveAsString ?n b1 = Some (pkt_body p, b2)" "buffer_ok b2" "readable b2 = drop n (readable b)"
      using fr(1,2) b1(3) by (auto simp: add.commute)
    obtain b3 where b3: "(if hdr_body_size ?h > 0 then RetrieveAsString ?n b1 else Some ([], b1)) = Some (pkt_body p, b3)"
      "buffer_ok b3" "readable b3 = drop n (readable b)"
      using b1 b2 fr(1,2) by (cases "hdr_body_size ?h = 0") (auto simp: word_gt_0)
    obtain qs' where qs': "decode_bytes c (readable b3) = (e, qs', rest)" "qs = p # qs'"
      using "1.prems"(2) Frame b3 by (auto simp: decode_bytes.simps [of c "readable b"] split: prod.splits)
    have "DecodeLoop c ps b = DecodeLoop c (ps @ [p]) b3"
      using le fr b1(1) b3(1) by (simp add: DecodeLoop.simps [of c ps b] Let_def Peek_readable)
    with "1.hyps" [OF Frame, of b3 qs' "ps @ [p]"] b3 qs' show ?thesis by simp
  qed
qed

section \<open>Encoding\<close>

definition frame_bytes :: "Packet \<Rightarrow> byte list" where
  "frame_bytes p = bytes_of_u32 kProtocolMagic @ bytes_of_u16 kProtocolVersion
     @ bytes_of_u16 (message_type_code (pkt_type p)) @ bytes_of_u16 (pkt_flags p) @ bytes_of_u16 0
     @ bytes_of_u32 (pkt_seq p) @ bytes_of_u32 (word_of_nat (length (pkt_body p))) @ pkt_body p"

lemma Append_all: "buffer_ok b \<Longrightarrow> \<exists>b'. fold_opt Append ds b = Some b' \<and> buffer_ok b' \<and> readable b' = readable b @ concat ds"
  by (rule nb.fold_app)

lemma Encode_fold:
  "ValidatePacketForEncode c p = None \<Longrightarrow> Encode c p (Some b) = map_option Inr (fold_opt Append
     [bytes_of_u32 kProtocolMagic, bytes_of_u16 kProtocolVersion, bytes_of_u16 (message_type_code (pkt_type p)),
      bytes_of_u16 (pkt_flags p), bytes_of_u16 0, bytes_of_u32 (pkt_seq p),
      bytes_of_u32 (word_of_nat (length (pkt_body p))), pkt_body p] b)"
  by (cases "pkt_body p = []") (auto simp: Encode_def AppendUint16_def AppendUint32_def Append_def[of "[]"] map_option_case
     split: option.splits bind_splits)

lemma Encode_spec:
  assumes "buffer_ok b" and "ValidatePacketForEncode c p = None"
  shows "\<exists>b'. Encode c p (Some b) = Some (Inr b') \<and> buffer_ok b' \<and> readable b' = readable b @ frame_bytes p"
  using Append_all [OF assms(1), of "[bytes_of_u32 kProtocolMagic, bytes_of_u16 kProtocolVersion, bytes_of_u16 (message_type_code (pkt_type p)),
      bytes_of_u16 (pkt_flags p), bytes_of_u16 0, bytes_of_u32 (pkt_seq p),
      bytes_of_u32 (word_of_nat (length (pkt_body p))), pkt_body p]"] Encode_fold [OF assms(2)]
  by (auto simp: frame_bytes_def)

lemma length_bytes_of [simp]: "length (bytes_of_u16 v) = 2" "length (bytes_of_u32 w) = 4"
  by (simp_all add: bytes_of_u16_def bytes_of_u32_def)

lemma parse_frame_bytes:
  assumes v: "ValidatePacketForEncode c p = None" and small: "length (pkt_body p) < 2 ^ 32"
  shows "parse_frame c (frame_bytes p @ ys) = Frame p (kPacketHeaderSize + length (pkt_body p))"
proof -
  have "ParseHeader (take kPacketHeaderSize (frame_bytes p @ ys)) =
      \<lparr>hdr_magic = kProtocolMagic, hdr_version = kProtocolVersion, hdr_type = message_type_code (pkt_type p),
       hdr_flags = pkt_flags p, hdr_reserved = 0, hdr_seq = pkt_seq p,
       hdr_body_size = word_of_nat (length (pkt_body p))\<rparr>"
  proof -
    have "take kPacketHeaderSize (frame_bytes p @ ys) = bytes_of_u32 kProtocolMagic @ bytes_of_u16 kProtocolVersion
        @ bytes_of_u16 (message_type_code (pkt_type p)) @ bytes_of_u16 (pkt_flags p) @ bytes_of_u16 0
        @ bytes_of_u32 (pkt_seq p) @ bytes_of_u32 (word_of_nat (length (pkt_body p)))"
      by (simp add: frame_bytes_def kPacketHeaderSize_def)
    then show ?thesis by (simp add: ParseHeader_def)
  qed
  moreover have "unat (word_of_nat (length (pkt_body p)) :: u32) = length (pkt_body p)"
    using small by (simp add: unat_of_nat take_bit_nat_eq_self)
  ultimately show ?thesis using v
    by (auto simp: parse_frame_def Let_def ValidatePacketForEncode_def frame_bytes_def kPacketHeaderSize_def split: if_splits)
qed

section \<open>Receiving a stream in segments\<close>

lemma parse_frame_Bad: "parse_frame c xs = Bad s m \<Longrightarrow> s \<noteq> kOk \<and> s \<noteq> kNeedMoreData"
  by (auto simp: parse_frame_def Let_def split: if_splits)

lemma parse_frame_Short: "parse_frame c xs = Short \<Longrightarrow> length xs < kPacketHeaderSize + max_body_size c"
  by (auto simp: parse_frame_def Let_def split: if_splits)

lemma decode_bytes_rest:
  "decode_bytes c xs = (e, ps, rest) \<Longrightarrow>
     (case e of None \<Rightarrow> parse_frame c rest = Short | Some (s, m) \<Rightarrow> parse_frame c rest = Bad s m)
     \<and> (\<forall>p\<in>set ps. IsKnownMessageType (pkt_type p) \<and> length (pkt_body p) \<le> max_body_size c)"
proof (induction c xs arbitrary: ps rule: decode_bytes.induct)
  case (1 c xs)
  show ?case
  proof (cases "parse_frame c xs")
    case (Frame p n)
    then obtain qs where qs: "decode_bytes c (drop n xs) = (e, qs, rest)" "ps = p # qs"
      using "1.prems" by (auto simp: decode_bytes.simps [of c xs] split: prod.splits)
    with "1.IH" [OF Frame qs(1)] parse_frame_Frame [OF Frame] show ?thesis by simp
  qed (use 1 in \<open>auto simp: decode_bytes.simps [of c xs]\<close>)
qed

lemma decode_bytes_error: "decode_bytes c xs = (Some (s, m), ps, rest) \<Longrightarrow> s \<noteq> kOk \<and> s \<noteq> kNeedMoreData"
  using decode_bytes_rest [of c xs "Some (s, m)" ps rest] parse_frame_Bad by auto

lemma decode_bytes_Short [simp]: "parse_frame c xs = Short \<Longrightarrow> decode_bytes c xs = (None, [], xs)"
  by (simp add: decode_bytes.simps [of c xs])

lemma decode_bytes_Bad [simp]: "parse_frame c xs = Bad s m \<Longrightarrow> decode_bytes c xs = (Some (s, m), [], xs)"
  by (simp add: decode_bytes.simps [of c xs])

lemma receive_step:
  assumes "buffer_ok b" and "decode_bytes c (readable b @ seg) = (e, ps, rest)"
  shows "\<exists>b1 b2. ReadFd (Inr seg) b = Some (b1, Inr (length seg)) \<and> HandleMessage c cl b1 =
      Some (case e of None \<Rightarrow> map HandlePacket ps
            | Some (s, m) \<Rightarrow> SendErrorPacket m # (if cl then [ShutdownConnection] else []), b2)
      \<and> buffer_ok b2 \<and> readable b2 = rest"
proof -
  obtain b1 where b1: "ReadFd (Inr seg) b = Some (b1, Inr (length seg))" "buffer_ok b1"
      "readable b1 = readable b @ seg"
    using ReadFd_data_spec [OF assms(1)] by blast
  obtain b2 where b2: "DecodeLoop c [] b1 = Some (\<lparr>status = decode_status ps e, packets = ps,
      error_message = decode_message e\<rparr>, b2)" "buffer_ok b2" "readable b2 = rest"
    using DecodeLoop_refines [of b1 c e ps rest "[]"] b1 assms(2) by auto
  have err: "e = Some (s, m) \<Longrightarrow> s \<noteq> kOk \<and> s \<noteq> kNeedMoreData" for s m
    using decode_bytes_error [of c "readable b @ seg" s m ps rest] assms(2) by auto
  have "HandleMessage c cl b1 = Some (case e of None \<Rightarrow> map HandlePacket ps
      | Some (s, m) \<Rightarrow> SendErrorPacket m # (if cl then [ShutdownConnection] else []), b2)"
    using b2(1) err by (cases e) (auto simp: HandleMessage_def decode_status_def decode_message_def)
  with b1 b2 show ?thesis by blast
qed


lemma receive_ok:
  assumes "buffer_ok b" and "parse_frame c (readable b) = Short"
    and "decode_bytes c (readable b @ concat segs) = (None, ps, rest)"
  shows "\<exists>b'. receive c cl segs b = Some (map HandlePacket ps, b') \<and> buffer_ok b' \<and> readable b' = rest"
  using assms
proof (induction segs arbitrary: b ps)
  case Nil
  then show ?case by simp
next
  case (Cons seg segs)
  obtain e qs r where d: "decode_bytes c (readable b @ seg) = (e, qs, r)" by (cases "decode_bytes c (readable b @ seg)")
  have "e = None"
    using decode_bytes_append_error [of c "readable b @ seg" _ qs r "concat segs"] d Cons.prems(3) by (cases e) auto
  with d decode_bytes_append [of c "readable b @ seg" qs r "concat segs"] Cons.prems(3) obtain qs' where
    qs': "decode_bytes c (r @ concat segs) = (None, qs', rest)" "ps = qs @ qs'" by (auto split: prod.splits)
  from receive_step [OF Cons.prems(1) d, of cl] \<open>e = None\<close> obtain b1 b2 where b2:
    "ReadFd (Inr seg) b = Some (b1, Inr (length seg))" "HandleMessage c cl b1 = Some (map HandlePacket qs, b2)"
    "buffer_ok b2" "readable b2 = r" by auto
  have "parse_frame c r = Short" using decode_bytes_rest [OF d] \<open>e = None\<close> by simp
  with Cons.IH [OF b2(3), of qs'] b2 qs' show ?case by auto
qed

text \<open>A decoding error is reported at the segment that completes the bad header; nothing behind the bad
  frame is ever looked at.\<close>

lemma receive_stuck:
  assumes "buffer_ok b" and "parse_frame c (readable b) = Bad s m"
  shows "\<exists>b'. receive c cl segs b =
      Some (concat (replicate (length segs) (SendErrorPacket m # (if cl then [ShutdownConnection] else []))), b')
      \<and> buffer_ok b' \<and> readable b' = readable b @ concat segs"
  using assms
proof (induction segs arbitrary: b)
  case Nil
  then show ?case by simp
next
  case (Cons seg segs)
  have bad: "parse_frame c (readable b @ seg) = Bad s m" using Cons.prems by (simp add: parse_frame_append)
  from receive_step [OF Cons.prems(1) decode_bytes_Bad [OF bad], of cl] obtain b1 b2 where b2:
    "ReadFd (Inr seg) b = Some (b1, Inr (length seg))"
    "HandleMessage c cl b1 = Some (SendErrorPacket m # (if cl then [ShutdownConnection] else []), b2)"
    "buffer_ok b2" "readable b2 = readable b @ seg" by auto
  with Cons.IH [OF b2(3)] bad show ?case by auto
qed

lemma receive_error:
  assumes "buffer_ok b" and "parse_frame c (readable b) = Short"
    and "decode_bytes c (readable b @ concat segs) = (Some e, ps, rest)"
  shows "\<exists>acts b'. receive c cl segs b = Some (acts, b') \<and> SendErrorPacket (snd e) \<in> set acts"
  using assms
proof (induction segs arbitrary: b ps)
  case Nil
  then show ?case by simp
next
  case (Cons seg segs)
  obtain e' qs r where d: "decode_bytes c (readable b @ seg) = (e', qs, r)" by (cases "decode_bytes c (readable b @ seg)")
  from receive_step [OF Cons.prems(1) d, of cl] obtain b1 b2 where b2:
    "ReadFd (Inr seg) b = Some (b1, Inr (length seg))"
    "HandleMessage c cl b1 = Some (case e' of None \<Rightarrow> map HandlePacket qs
            | Some (s, m) \<Rightarrow> SendErrorPacket m # (if cl then [ShutdownConnection] else []), b2)"
    "buffer_ok b2" "readable b2 = r" by blast
  show ?case
  proof (cases e')
    case None
    with d decode_bytes_append [of c "readable b @ seg" qs r "concat segs"] Cons.prems(3) obtain qs' where
      qs': "decode_bytes c (r @ concat segs) = (Some e, qs', rest)" by (auto split: prod.splits)
    have "parse_frame c r = Short" using decode_bytes_rest [OF d] None by simp
    with Cons.IH [OF b2(3), of qs'] b2 qs' None show ?thesis by auto
  next
    case (Some sm)
    with decode_bytes_append_error [of c "readable b @ seg" sm qs r "concat segs"] d Cons.prems(3)
    have "sm = e" by simp
    obtain s m where sm: "sm = (s, m)" by (cases sm)
    with decode_bytes_rest [OF d] Some have "parse_frame c (readable b2) = Bad s m" using b2 by simp
    from receive_stuck [OF b2(3) this, of cl segs] b2 sm Some \<open>sm = e\<close> show ?thesis by auto
  qed
qed

lemma receive_keeps_ok:
  "\<lbrakk>buffer_ok b; receive c cl segs b = Some (acts, b')\<rbrakk> \<Longrightarrow> buffer_ok b'"
proof (induction segs arbitrary: b acts)
  case Nil
  then show ?case by simp
next
  case (Cons seg segs)
  obtain e ps rest where d: "decode_bytes c (readable b @ seg) = (e, ps, rest)"
    by (cases "decode_bytes c (readable b @ seg)")
  obtain b2 acts' where "buffer_ok b2" "receive c cl segs b2 = Some (acts', b')"
    using receive_step [OF Cons.prems(1) d, of cl] Cons.prems(2)
    by (auto simp: bind_eq_Some_conv)
  then show ?case by (rule Cons.IH)
qed

lemma decode_bytes_frames:
  assumes "list_all (\<lambda>p. ValidatePacketForEncode c p = None \<and> length (pkt_body p) < 2 ^ 32) ps"
  shows "decode_bytes c (concat (map frame_bytes ps) @ ys) =
     (case decode_bytes c ys of (e, qs, rest) \<Rightarrow> (e, ps @ qs, rest))"
  using assms
proof (induction ps)
  case Nil
  then show ?case by (simp split: prod.splits)
next
  case (Cons p ps)
  then have "parse_frame c (frame_bytes p @ concat (map frame_bytes ps) @ ys) = Frame p (kPacketHeaderSize + length (pkt_body p))"
    by (simp add: parse_frame_bytes)
  moreover have "kPacketHeaderSize + length (pkt_body p) = length (frame_bytes p)"
    by (simp add: frame_bytes_def kPacketHeaderSize_def)
  ultimately show ?case using Cons
    by (simp add: decode_bytes.simps [of c "frame_bytes p @ concat (map frame_bytes ps) @ ys"] split: prod.splits)
qed

lemma encode_all_spec:
  assumes "list_all (\<lambda>p. ValidatePacketForEncode c p = None) ps" and "buffer_ok b"
  shows "\<exists>b'. encode_all c ps b = Some (Inr b') \<and> buffer_ok b' \<and> readable b' = readable b @ concat (map frame_bytes ps)"
  using assms
proof (induction ps arbitrary: b)
  case Nil
  then show ?case by simp
next
  case (Cons p ps)
  then obtain b1 where b1: "Encode c p (Some b) = Some (Inr b1)" "buffer_ok b1" "readable b1 = readable b @ frame_bytes p"
    using Encode_spec [of b c p] by auto
  from Cons.IH [OF _ b1(2)] Cons.prems(1) b1 show ?case by auto
qed

lemma parse_frame_Nil [simp]: "parse_frame c [] = Short"
  by (simp add: parse_frame_def kPacketHeaderSize_def)


lemma segments_cases:
  obtains ps rest where "decode_bytes c bytes = (None, ps, rest)"
  | e ps rest where "decode_bytes c bytes = (Some e, ps, rest)"
  by (metis option.exhaust prod_cases3)

section \<open>Properties\<close>

text \<open>C1: framing round trip. Packets that the codec accepts are written to the output buffer, and
  however TCP cuts these bytes into segments, the receiving gateway hands exactly these packets, in this
  order, to \<open>HandlePacket\<close>, does nothing else, and keeps no bytes.\<close>

theorem encode_receive_roundtrip:
  assumes "list_all (\<lambda>p. ValidatePacketForEncode c p = None \<and> length (pkt_body p) < 2 ^ 32) ps"
  shows "\<exists>out. encode_all c ps (Buffer_new n) = Some (Inr out)
     \<and> (\<forall>segs. concat segs = readable out \<longrightarrow>
          (\<exists>b'. receive c cl segs (Buffer_new m) = Some (map HandlePacket ps, b') \<and> readable b' = []))"
proof -
  have "list_all (\<lambda>p. ValidatePacketForEncode c p = None) ps"
    using assms by (auto simp: list_all_iff)
  then obtain out where out: "encode_all c ps (Buffer_new n) = Some (Inr out)"
      "readable out = concat (map frame_bytes ps)"
    using encode_all_spec [of c ps "Buffer_new n"] by auto
  have "decode_bytes c (concat (map frame_bytes ps)) = (None, ps, [])"
    using decode_bytes_frames [OF assms, of "[]"] by simp
  then have "\<exists>b'. receive c cl segs (Buffer_new m) = Some (map HandlePacket ps, b') \<and> readable b' = []"
    if "concat segs = readable out" for segs
    using receive_ok [of "Buffer_new m" c segs ps "[]" cl] that out(2) by auto
  with out(1) show ?thesis by blast
qed

theorem encode_receive_roundtrip_witness:
  "\<exists>out. encode_all \<lparr>max_body_size = 4\<rparr> [\<lparr>pkt_type = kChatMessage, pkt_flags = 1, pkt_seq = 7, pkt_body = [104, 105]\<rparr>,
       \<lparr>pkt_type = kHeartbeat, pkt_flags = 0, pkt_seq = 8, pkt_body = []\<rparr>] (Buffer_new 8) = Some (Inr out)
     \<and> (\<forall>segs. concat segs = readable out \<longrightarrow>
          (\<exists>b'. receive \<lparr>max_body_size = 4\<rparr> True segs (Buffer_new 16) =
             Some (map HandlePacket [\<lparr>pkt_type = kChatMessage, pkt_flags = 1, pkt_seq = 7, pkt_body = [104, 105]\<rparr>,
               \<lparr>pkt_type = kHeartbeat, pkt_flags = 0, pkt_seq = 8, pkt_body = []\<rparr>], b') \<and> readable b' = []))"
  by (rule encode_receive_roundtrip)
    (simp add: ValidatePacketForEncode_def IsKnownMessageType_def known_message_types_def)

text \<open>Segmentation independence. If one way of cutting a byte stream into segments makes the gateway
  report no decoding error, then every other way of cutting the same bytes makes it take exactly the same
  actions and leaves the same bytes waiting.\<close>

theorem receive_segmentation:
  assumes "receive c cl segs (Buffer_new n) = Some (acts, b)"
    and "\<forall>m. SendErrorPacket m \<notin> set acts" and "concat segs' = concat segs"
  shows "\<exists>b'. receive c cl segs' (Buffer_new n') = Some (acts, b') \<and> readable b' = readable b"
proof (cases rule: segments_cases [of c "concat segs"])
  case (1 ps rest)
  with receive_ok [of "Buffer_new n" c segs ps rest cl] receive_ok [of "Buffer_new n'" c segs' ps rest cl]
    assms(1,3) show ?thesis by auto
next
  case (2 e ps rest)
  with receive_error [of "Buffer_new n" c segs e ps rest cl] assms(1,2) show ?thesis by auto
qed

theorem receive_segmentation_witness:
  "\<exists>b b'. receive \<lparr>max_body_size = 4\<rparr> True [[84, 73, 77, 88, 0, 1, 0x23, 0x29, 0, 0, 0, 0, 0, 0, 0, 9, 0, 0, 0, 1, 65, 84]] (Buffer_new 0)
       = Some ([HandlePacket \<lparr>pkt_type = kHeartbeat, pkt_flags = 0, pkt_seq = 9, pkt_body = [65]\<rparr>], b)
     \<and> receive \<lparr>max_body_size = 4\<rparr> True [[84, 73], [77, 88, 0, 1, 0x23, 0x29, 0, 0, 0, 0, 0, 0, 0, 9], [0, 0, 0, 1, 65, 84]] (Buffer_new 2)
       = Some ([HandlePacket \<lparr>pkt_type = kHeartbeat, pkt_flags = 0, pkt_seq = 9, pkt_body = [65]\<rparr>], b')
     \<and> readable b' = readable b"
proof -
  have "map_option fst (receive \<lparr>max_body_size = 4\<rparr> True [[84, 73, 77, 88, 0, 1, 0x23, 0x29, 0, 0, 0, 0, 0, 0, 0, 9, 0, 0, 0, 1, 65, 84]] (Buffer_new 0))
      = Some [HandlePacket \<lparr>pkt_type = kHeartbeat, pkt_flags = 0, pkt_seq = 9, pkt_body = [65]\<rparr>]"
    by code_simp
  then obtain b where b: "receive \<lparr>max_body_size = 4\<rparr> True [[84, 73, 77, 88, 0, 1, 0x23, 0x29, 0, 0, 0, 0, 0, 0, 0, 9, 0, 0, 0, 1, 65, 84]] (Buffer_new 0)
      = Some ([HandlePacket \<lparr>pkt_type = kHeartbeat, pkt_flags = 0, pkt_seq = 9, pkt_body = [65]\<rparr>], b)"
    by auto
  with receive_segmentation [OF b, of "[[84, 73], [77, 88, 0, 1, 0x23, 0x29, 0, 0, 0, 0, 0, 0, 0, 9], [0, 0, 0, 1, 65, 84]]" 2]
  show ?thesis by auto
qed

text \<open>A decoding error is final. Once the bytes waiting in a connection's buffer begin with a bad frame,
  every further read only repeats the error report (and the shutdown, when configured); no packet is handled
  any more and no byte is consumed, so without the shutdown the buffer grows with every segment.\<close>

theorem decode_error_sticks:
  assumes "receive c cl segs (Buffer_new n) = Some (acts, b)" and "parse_frame c (readable b) = Bad s m"
  shows "\<exists>b'. receive c cl segs' b = Some (concat (replicate (length segs')
      (SendErrorPacket m # (if cl then [ShutdownConnection] else []))), b')
    \<and> readable b' = readable b @ concat segs'"
  using receive_stuck [OF receive_keeps_ok [OF buffer_ok_new assms(1)] assms(2), of cl segs'] by blast

theorem decode_error_sticks_witness:
  "\<exists>b b'. receive \<lparr>max_body_size = 4\<rparr> False [replicate 20 0] (Buffer_new 0) = Some ([SendErrorPacket ''invalid protocol magic''], b)
     \<and> receive \<lparr>max_body_size = 4\<rparr> False [[1, 2], [3]] b = Some (concat (replicate (length [[1, 2], [3::byte]])
      (SendErrorPacket ''invalid protocol magic'' # (if False then [ShutdownConnection] else []))), b')
    \<and> readable b' = readable b @ concat [[1, 2], [3]]"
proof -
  have bad: "parse_frame \<lparr>max_body_size = 4\<rparr> (replicate 20 0) = Bad kInvalidMagic ''invalid protocol magic''"
    by code_simp
  from receive_step [OF buffer_ok_new [of 0], of "\<lparr>max_body_size = 4\<rparr>" "replicate 20 0", simplified, OF decode_bytes_Bad [OF bad], of False]
  obtain b where b: "receive \<lparr>max_body_size = 4\<rparr> False [replicate 20 0] (Buffer_new 0) = Some ([SendErrorPacket ''invalid protocol magic''], b)"
    "readable b = replicate 20 0" by auto
  from decode_error_sticks [OF b(1), unfolded b(2), OF bad, of "[[1, 2], [3]]"] b show ?thesis by auto
qed

text \<open>C40: what arrives before a bad frame is lost when it comes in the same read, whether or not the gateway closes on a decode
  error (\<open>close_on_decode_error\<close>, true by default). A connection has received any segments, and the next read completes the
  frames of the packets \<open>ps\<close>. If the bad frame arrives separately, the gateway handles \<open>ps\<close> and then answers every read with the
  error. If the bad frame is in the same read, it consumes the frames of \<open>ps\<close> from the buffer but only answers with the error, in
  this and in every later read: none of \<open>ps\<close> is ever handled.\<close>

theorem packet_before_bad_frame_dropped:
  assumes "receive c cl before (Buffer_new n) = Some (acts, b)" and "readable b @ seg = concat (map frame_bytes ps)"
    and "list_all (\<lambda>p. ValidatePacketForEncode c p = None \<and> length (pkt_body p) < 2 ^ 32) ps"
    and "parse_frame c junk = Bad s m"
  defines "refusals k \<equiv> concat (replicate k (SendErrorPacket m # (if cl then [ShutdownConnection] else [])))"
  shows "(\<exists>b'. receive c cl (seg # junk # segs) b = Some (map HandlePacket ps @ refusals (Suc (length segs)), b')
           \<and> readable b' = junk @ concat segs)
     \<and> (\<exists>b'. receive c cl ((seg @ junk) # segs) b = Some (refusals (Suc (length segs)), b')
           \<and> readable b' = junk @ concat segs)"
proof
  have ok: "buffer_ok b" by (rule receive_keeps_ok [OF buffer_ok_new assms(1)])
  have good: "decode_bytes c (readable b @ seg) = (None, ps, [])"
    and both: "decode_bytes c (readable b @ seg @ junk) = (Some (s, m), ps, junk)"
    using decode_bytes_frames [OF assms(3), of "[]"] decode_bytes_frames [OF assms(3), of junk] decode_bytes_Bad [OF assms(4)] assms(2)
    by (simp_all flip: append_assoc)
  from receive_step [OF ok good, of cl] obtain b1 b2 where b2: "ReadFd (Inr seg) b = Some (b1, Inr (length seg))"
    "HandleMessage c cl b1 = Some (map HandlePacket ps, b2)" "buffer_ok b2" "readable b2 = []" by auto
  from receive_step [OF b2(3), of c junk "Some (s, m)" "[]" junk cl] b2(4) decode_bytes_Bad [OF assms(4)] obtain b3 b4 where b4:
    "ReadFd (Inr junk) b2 = Some (b3, Inr (length junk))"
    "HandleMessage c cl b3 = Some (SendErrorPacket m # (if cl then [ShutdownConnection] else []), b4)" "buffer_ok b4" "readable b4 = junk"
    by auto
  from receive_stuck [OF b4(3), of c s m cl segs] assms(4) b4(4) b2 b4
  show "\<exists>b'. receive c cl (seg # junk # segs) b = Some (map HandlePacket ps @ refusals (Suc (length segs)), b')
      \<and> readable b' = junk @ concat segs"
    by (auto simp: refusals_def)
  from receive_step [OF ok both, of cl] obtain b5 b6 where b6: "ReadFd (Inr (seg @ junk)) b = Some (b5, Inr (length (seg @ junk)))"
    "HandleMessage c cl b5 = Some (SendErrorPacket m # (if cl then [ShutdownConnection] else []), b6)" "buffer_ok b6" "readable b6 = junk"
    by auto
  from receive_stuck [OF b6(3), of c s m cl segs] assms(4) b6
  show "\<exists>b'. receive c cl ((seg @ junk) # segs) b = Some (refusals (Suc (length segs)), b') \<and> readable b' = junk @ concat segs"
    by (auto simp: refusals_def)
qed

text \<open>A heartbeat whose first eight bytes came in an earlier read, and a header with a wrong magic behind it.\<close>

definition heartbeat_8 :: Packet where
  "heartbeat_8 = \<lparr>pkt_type = kHeartbeat, pkt_flags = 0, pkt_seq = 8, pkt_body = []\<rparr>"

theorem packet_before_bad_frame_dropped_witness:
  "\<exists>b. receive \<lparr>max_body_size = 4\<rparr> True [take 8 (frame_bytes heartbeat_8)] (Buffer_new 4) = Some ([], b)
     \<and> (\<exists>b'. receive \<lparr>max_body_size = 4\<rparr> True [drop 8 (frame_bytes heartbeat_8), replicate 20 0, [1]] b
          = Some ([HandlePacket heartbeat_8, SendErrorPacket ''invalid protocol magic'', ShutdownConnection,
                   SendErrorPacket ''invalid protocol magic'', ShutdownConnection], b'))
     \<and> (\<exists>b'. receive \<lparr>max_body_size = 4\<rparr> True [drop 8 (frame_bytes heartbeat_8) @ replicate 20 0, [1]] b
          = Some ([SendErrorPacket ''invalid protocol magic'', ShutdownConnection,
                   SendErrorPacket ''invalid protocol magic'', ShutdownConnection], b'))"
proof -
  have bad: "parse_frame \<lparr>max_body_size = 4\<rparr> (replicate 20 0) = Bad kInvalidMagic ''invalid protocol magic''"
    by code_simp
  have good: "list_all (\<lambda>p. ValidatePacketForEncode \<lparr>max_body_size = 4\<rparr> p = None \<and> length (pkt_body p) < 2 ^ 32) [heartbeat_8]"
    by (simp add: heartbeat_8_def ValidatePacketForEncode_def IsKnownMessageType_def known_message_types_def)
  have "parse_frame \<lparr>max_body_size = 4\<rparr> (take 8 (frame_bytes heartbeat_8)) = Short" by code_simp
  then have short: "decode_bytes \<lparr>max_body_size = 4\<rparr> (take 8 (frame_bytes heartbeat_8)) = (None, [], take 8 (frame_bytes heartbeat_8))"
    by (simp add: decode_bytes.simps)
  from receive_step [OF buffer_ok_new [of 4], of "\<lparr>max_body_size = 4\<rparr>" "take 8 (frame_bytes heartbeat_8)", simplified, OF short, of True]
  obtain b where b: "receive \<lparr>max_body_size = 4\<rparr> True [take 8 (frame_bytes heartbeat_8)] (Buffer_new 4) = Some ([], b)"
    "readable b = take 8 (frame_bytes heartbeat_8)" by auto
  have whole: "readable b @ drop 8 (frame_bytes heartbeat_8) = concat (map frame_bytes [heartbeat_8])" by (simp add: b(2))
  from packet_before_bad_frame_dropped [OF b(1) whole good bad, of "[[1]]"] b(1) show ?thesis by auto
qed

text \<open>What the gateway accepts from the wire. A packet is handled only when its type is one of the known
  types and its body is within the configured limit, and as long as no error was reported fewer bytes than one
  maximal frame are waiting in the buffer.\<close>

theorem received_packets_valid:
  assumes "receive c cl segs (Buffer_new n) = Some (acts, b)" and "\<forall>m. SendErrorPacket m \<notin> set acts"
  shows "ReadableBytes b < kPacketHeaderSize + max_body_size c
     \<and> (\<forall>p. HandlePacket p \<in> set acts \<longrightarrow>
          IsKnownMessageType (pkt_type p) \<and> length (pkt_body p) \<le> max_body_size c)"
proof (cases rule: segments_cases [of c "concat segs"])
  case (1 ps rest)
  with receive_ok [of "Buffer_new n" c segs ps rest cl] assms(1) have
    "acts = map HandlePacket ps" "buffer_ok b" "readable b = rest" by auto
  with decode_bytes_rest [OF 1] parse_frame_Short [of c rest] show ?thesis
    by (auto simp flip: length_readable)
next
  case (2 e ps rest)
  with receive_error [of "Buffer_new n" c segs e ps rest cl] assms show ?thesis by auto
qed

theorem received_packets_valid_witness:
  "\<exists>b. receive \<lparr>max_body_size = 4\<rparr> True [[84, 73], [77, 88, 0]] (Buffer_new 0) = Some ([], b)
     \<and> ReadableBytes b < kPacketHeaderSize + max_body_size \<lparr>max_body_size = 4\<rparr>
     \<and> (\<forall>p. HandlePacket p \<in> set [] \<longrightarrow>
          IsKnownMessageType (pkt_type p) \<and> length (pkt_body p) \<le> max_body_size \<lparr>max_body_size = 4\<rparr>)"
proof -
  have "map_option fst (receive \<lparr>max_body_size = 4\<rparr> True [[84, 73], [77, 88, 0]] (Buffer_new 0)) = Some []"
    by code_simp
  then obtain b where "receive \<lparr>max_body_size = 4\<rparr> True [[84, 73], [77, 88, 0]] (Buffer_new 0) = Some ([], b)"
    by auto
  with received_packets_valid [OF this] show ?thesis by auto
qed

text \<open>The three tables over message types agree. The types the codec accepts are exactly those that have a
  name other than \<open>unknown\<close> and \<open>invalid\<close>, different accepted types have different names, and
  the gateway internal types are accepted types.\<close>

theorem message_type_tables_agree:
  "(IsKnownMessageType t \<longleftrightarrow> MessageTypeToString t \<noteq> ''invalid'' \<and> MessageTypeToString t \<noteq> ''unknown'')
   \<and> inj_on MessageTypeToString (Collect IsKnownMessageType)
   \<and> Collect IsGatewayInternalMessageType \<subseteq> Collect IsKnownMessageType"
proof (intro conjI)
  have keys: "set (map fst message_type_names) = insert kUnknown (set known_message_types)"
    by code_simp
  have names: "distinct (map snd message_type_names)" "distinct (map fst message_type_names)" by code_simp+
  have special: "''invalid'' \<notin> set (map snd message_type_names)" by code_simp
  have new: "kUnknown \<notin> set known_message_types" by code_simp
  have unk: "map_of message_type_names kUnknown = Some ''unknown''" by code_simp
  have val: "\<exists>n. MessageTypeToString u = n \<and> (u, n) \<in> set message_type_names" if "IsKnownMessageType u" for u
    using that keys by (force simp: IsKnownMessageType_def MessageTypeToString_def map_of_eq_None_iff
        split: option.split dest: map_of_SomeD)
  have inj: "u = v" if "(u, n) \<in> set message_type_names" "(v, n) \<in> set message_type_names" for u v n
    using that names(1) by (fastforce simp: distinct_map inj_on_def)
  show "IsKnownMessageType t \<longleftrightarrow> MessageTypeToString t \<noteq> ''invalid'' \<and> MessageTypeToString t \<noteq> ''unknown''"
  proof
    assume known: "IsKnownMessageType t"
    then obtain n where n: "MessageTypeToString t = n" "(t, n) \<in> set message_type_names" using val by blast
    moreover have "(kUnknown, ''unknown'') \<in> set message_type_names" using unk by (rule map_of_SomeD)
    ultimately have "n \<noteq> ''unknown''"
      using inj [of t n kUnknown] new known by (auto simp: IsKnownMessageType_def)
    moreover have "n \<noteq> ''invalid''" using n special by force
    ultimately show "MessageTypeToString t \<noteq> ''invalid'' \<and> MessageTypeToString t \<noteq> ''unknown''" using n by simp
  next
    assume "MessageTypeToString t \<noteq> ''invalid'' \<and> MessageTypeToString t \<noteq> ''unknown''"
    then have "t \<in> set (map fst message_type_names)" and "t \<noteq> kUnknown"
      using unk by (auto simp: MessageTypeToString_def map_of_eq_None_iff split: option.splits dest: map_of_SomeD
          intro: rev_image_eqI)
    then show "IsKnownMessageType t" using keys by (auto simp: IsKnownMessageType_def)
  qed
  show "inj_on MessageTypeToString (Collect IsKnownMessageType)"
    using val inj by (metis inj_onI mem_Collect_eq)
  show "Collect IsGatewayInternalMessageType \<subseteq> Collect IsKnownMessageType"
    by (auto simp: IsGatewayInternalMessageType_def IsKnownMessageType_def known_message_types_def)
qed

end
