(* ===== verification/Group_Fanout.thy ===== *)
theory Group_Fanout
  imports Route_Resolver Receiver_Tracker Packet_Codec
begin

text \<open>
  The fan-out of group messages: \<open>gateway/GroupFanoutCoordinator.{h,cpp}\<close> claims rows of the message service under a lease token,
  has each dispatched to its recipient by \<open>GatewayServer::DispatchGroupFanoutDeliver(y|ies)\<close> of \<open>gateway/GatewayServer.cpp\<close>, and
  reports each outcome with the token; \<open>gateway/GroupFanoutWakeup.h\<close> wakes its thread after a commit.

  The calls an iteration makes are recorded in their order (\<open>Effect\<close>); the answer of the claim and the dispatch callbacks are
  arguments, the latter functions on a state they may change, with \<open>None\<close> for an exception or an access out of range. The switches
  read from the environment and which callbacks are set form the record \<open>Modes\<close>. The dispatch on the gateway uses the resolver of
  \<open>Route_Resolver\<close>, the deduplicator, the tracker and the codec; the JSON serializer, the connections of the recipients and the
  transports to other gateways are fields of \<open>FanoutGateway\<close>. Telemetry, logging and the pause for fault tests are left out.

  No lock spans a submission: building the frame, registering its attempt and handing the frame to the connection are three
  definitions, composed in \<open>SubmitGroupMessageDelivery\<close>, and separate steps of the runs in which submissions, retries and
  acknowledgements of many threads interleave.
\<close>

section \<open>Data\<close>

datatype GroupDeliveryRpcState = GroupPending | GroupDeferredOffline | GroupDelivered

record GroupDeliveryWork =
  work_message_id :: u64
  work_group_id :: u64
  work_from_user_id :: u64
  work_message_type :: u32
  work_content :: string
  work_created_at :: string
  work_delivery_message_id :: u64
  work_delivery_group_id :: u64
  work_recipient :: u64
  work_state :: GroupDeliveryRpcState

datatype GroupFanoutDispatchStatus = FanoutSubmitted | FanoutOffline | FanoutAlreadyDelivered | FanoutRetryableFailure

record GroupFanoutDispatchResult =
  fanout_status :: GroupFanoutDispatchStatus
  fanout_gateway :: string
  fanout_error :: string

datatype GroupDeliveryAttemptOutcome = OutcomeSubmitted | OutcomeOffline | OutcomeRetryableFailure

record CompleteRequest =
  complete_message_id :: u64
  complete_recipient :: u64
  complete_token :: string
  complete_outcome :: GroupDeliveryAttemptOutcome
  complete_gateway :: string
  complete_retry_ms :: u32
  complete_error :: string

record FanoutOptions =
  fanout_gateway_id :: string
  batch_size :: nat
  lease_ms :: u32
  submitted_retry_ms :: u32
  failure_retry_ms :: u32

record Modes =
  callbacks_valid :: bool
  defer_enabled :: bool
  route_batch_enabled :: bool
  completion_batch_enabled :: bool
  dispatch_batch_set :: bool
  complete_batch_set :: bool

record ClaimRequest =
  claim_owner :: string
  claim_token :: string
  claim_limit :: u32
  claim_lease_ms :: u32
  claim_message_id :: u64

datatype Effect = ECall_Claim ClaimRequest | ECall_Dispatch GroupDeliveryWork | ECall_DispatchBatch "GroupDeliveryWork list"
  | ECall_Complete CompleteRequest | ECall_CompleteBatch "CompleteRequest list"

definition retryable :: "string \<Rightarrow> GroupFanoutDispatchResult" where
  "retryable e = \<lparr>fanout_status = FanoutRetryableFailure, fanout_gateway = '''', fanout_error = e\<rparr>"

section \<open>One iteration of the coordinator\<close>

definition NextLeaseToken :: "FanoutOptions \<Rightarrow> nat \<Rightarrow> u64 \<Rightarrow> string \<times> u64" where
  "NextLeaseToken opts micros sequence =
     (fanout_gateway_id opts @ '':group-fanout:'' @ to_string micros @ '':'' @ to_string (unat sequence), sequence + 1)"

definition work_valid :: "GroupDeliveryWork \<Rightarrow> bool" where
  "work_valid work \<longleftrightarrow> work_message_id work \<noteq> 0 \<and> work_delivery_message_id work = work_message_id work \<and> work_recipient work \<noteq> 0"

definition completion_of :: "FanoutOptions \<Rightarrow> string \<Rightarrow> GroupDeliveryWork \<Rightarrow> GroupFanoutDispatchResult \<Rightarrow> CompleteRequest" where
  "completion_of opts token work d =
     (let c = \<lparr>complete_message_id = work_message_id work, complete_recipient = work_recipient work, complete_token = token,
               complete_outcome = OutcomeRetryableFailure, complete_gateway = fanout_gateway d, complete_retry_ms = 0, complete_error = ''''\<rparr>
      in case fanout_status d of
        FanoutSubmitted \<Rightarrow> c\<lparr>complete_outcome := OutcomeSubmitted, complete_retry_ms := submitted_retry_ms opts\<rparr>
      | FanoutAlreadyDelivered \<Rightarrow> c\<lparr>complete_outcome := OutcomeSubmitted, complete_retry_ms := submitted_retry_ms opts\<rparr>
      | FanoutOffline \<Rightarrow> c\<lparr>complete_outcome := OutcomeOffline, complete_retry_ms := 0,
          complete_error := (if fanout_error d = [] then ''recipient_offline'' else fanout_error d)\<rparr>
      | FanoutRetryableFailure \<Rightarrow> c\<lparr>complete_outcome := OutcomeRetryableFailure, complete_retry_ms := failure_retry_ms opts,
          complete_error := (if fanout_error d = [] then ''delivery_retryable_failure'' else fanout_error d)\<rparr>)"

text \<open>The main loop: the results of a batch dispatch are taken in order, otherwise each work item is dispatched; the completion is
  kept or sent at once.\<close>

fun fanout_loop :: "FanoutOptions \<Rightarrow> string \<Rightarrow> bool \<Rightarrow> bool \<Rightarrow> (GroupDeliveryWork \<Rightarrow> 'w \<Rightarrow> (GroupFanoutDispatchResult \<times> 'w) option)
    \<Rightarrow> GroupDeliveryWork list \<Rightarrow> GroupFanoutDispatchResult list \<Rightarrow> 'w \<Rightarrow> (Effect list \<times> CompleteRequest list \<times> 'w) option" where
  "fanout_loop opts token defer use_batch dispatch [] batch w = Some ([], [], w)"
| "fanout_loop opts token defer use_batch dispatch (work # items) batch w =
     (if \<not> work_valid work then fanout_loop opts token defer use_batch dispatch items batch w
      else do {
        (d, batch', calls, w') \<leftarrow>
          (if use_batch then (case batch of [] \<Rightarrow> None | d # ds \<Rightarrow> Some (d, ds, [], w))
           else map_option (\<lambda>(d, w'). (d, batch, [ECall_Dispatch work], w')) (dispatch work w));
        (calls', pending, w'') \<leftarrow> fanout_loop opts token defer use_batch dispatch items batch' w';
        let c = completion_of opts token work d;
        Some (if defer then (calls @ calls', c # pending, w'') else (calls @ ECall_Complete c # calls', pending, w''))
      })"

definition finish_pending :: "Modes \<Rightarrow> CompleteRequest list \<Rightarrow> Effect list" where
  "finish_pending m pending =
     (if pending \<noteq> [] \<and> completion_batch_enabled m \<and> complete_batch_set m then [ECall_CompleteBatch pending] else map ECall_Complete pending)"

definition RunOneIteration :: "FanoutOptions \<Rightarrow> Modes \<Rightarrow> string \<Rightarrow> GroupDeliveryWork list option
    \<Rightarrow> (GroupDeliveryWork \<Rightarrow> 'w \<Rightarrow> (GroupFanoutDispatchResult \<times> 'w) option)
    \<Rightarrow> (GroupDeliveryWork list \<Rightarrow> 'w \<Rightarrow> (GroupFanoutDispatchResult list \<times> 'w) option)
    \<Rightarrow> 'w \<Rightarrow> (nat \<times> Effect list \<times> 'w) option" where
  "RunOneIteration opts m token claimed dispatch dispatch_batch w =
     (if \<not> callbacks_valid m then Some (0, [], w)
      else
        let limit = min (batch_size opts) 256;
            claim = ECall_Claim \<lparr>claim_owner = fanout_gateway_id opts, claim_token = token, claim_limit = of_nat limit,
              claim_lease_ms = lease_ms opts, claim_message_id = 0\<rparr>
        in case claimed of
          None \<Rightarrow> Some (0, [claim], w)
        | Some items \<Rightarrow>
            let defer = (defer_enabled m \<and> length items \<le> limit);
                use_route_batch = (defer \<and> route_batch_enabled m \<and> dispatch_batch_set m);
                dispatch_items = (if use_route_batch then filter work_valid items else [])
            in do {
              (batch_calls, batch_dispatch, w1) \<leftarrow>
                (if dispatch_items = [] then Some ([], [], w)
                 else map_option (\<lambda>(rs, w'). ([ECall_DispatchBatch dispatch_items],
                   if length rs \<noteq> length dispatch_items then replicate (length dispatch_items) (retryable ''batch_dispatch_result_mismatch'') else rs,
                   w')) (dispatch_batch dispatch_items w));
              (calls, pending, w2) \<leftarrow> fanout_loop opts token defer use_route_batch dispatch items batch_dispatch w1;
              Some (length items, claim # batch_calls @ calls @ finish_pending m pending, w2)
            })"

section \<open>Submitting a delivery to a connection\<close>

datatype ReceiverDeliverySubmitStatus = kSubmitted | kAlreadyConfirmed | kConnectionUnavailable | kStaleAttempt | kAttemptLimitReached
  | kBuildFailed | kEncodeFailed | kTrackerRejected | kWaitingAck | kWindowFull

record GroupMessageDelivery =
  delivery_message_id :: u64
  delivery_group_id :: u64
  delivery_from_user_id :: u64
  delivery_message_type :: u32
  delivery_content :: string
  delivery_created_at :: string

text \<open>What the dispatches of one iteration meet. \<open>presence\<close> and \<open>presence_batch\<close> are the reads of the online status cache;
  \<open>connected\<close> tells for a user and each of the four tests of one dispatch whether the user's connection exists and is connected;
  \<open>dump\<close> is the JSON library's writer, \<open>None\<close> its exception; \<open>transport_set\<close> and \<open>forward_group\<close> are the transports to other gateways
  and whether they accept a delivery; \<open>timer_scheduled\<close> tells whether the connection's loop gives a valid timer; the clock and its
  resolution are those of the tracker.\<close>

record 'g FanoutGateway =
  own_gateway_id :: string
  resolver :: "'g GatewayRouteResolver option"
  presence :: "u64 \<Rightarrow> GetOnlineStatusResult"
  presence_batch :: "u64 list \<Rightarrow> GetOnlineStatusResult list"
  connected :: "u64 \<Rightarrow> nat \<Rightarrow> bool"
  dump :: "GroupMessageDelivery \<Rightarrow> byte list option"
  codec :: ProtocolCodec
  enable_durable_private_recovery :: bool
  clock_now :: int
  clock_uncertainty :: int
  transport_set :: bool
  forward_group :: "'g \<Rightarrow> u64 \<Rightarrow> u64 \<Rightarrow> bool"
  instance_gateway_id :: "'g \<Rightarrow> string"
  receiver_delivery_max_attempts :: u32
  receiver_ack_timeout :: int
  timer_scheduled :: bool

text \<open>The members the operations change; what was handed to connections and transports; the timers that wait for an acknowledgement
  and the probes for replays that were scheduled; the durable confirmations that were requested (message, recipient, sequence number).\<close>

record 'g FanoutState =
  dedup :: MessageDeliveryDeduplicator
  tracker :: ReceiverDeliveryTracker
  next_receiver_delivery_seq :: u32
  sent :: "(u64 \<times> byte list) list"
  forwarded :: "('g \<times> u64 \<times> u64) list"
  ack_timers :: "(GroupDeliveryWork \<times> u32) list"
  probes :: "u64 list"
  confirm_requests :: "(u64 \<times> u64 \<times> u32) list"

definition ValidateDelivery :: "GroupMessageDelivery \<Rightarrow> string option" where
  "ValidateDelivery v =
     (if delivery_message_id v = 0 then Some ''message_id is zero''
      else if delivery_group_id v = 0 then Some ''group_id is zero''
      else if delivery_from_user_id v = 0 then Some ''from_user_id is zero''
      else if delivery_message_type v = 0 then Some ''message_type is zero''
      else if delivery_content v = [] then Some ''content is empty''
      else None)"

definition SerializeGroupMessageDelivery :: "(GroupMessageDelivery \<Rightarrow> byte list option) \<Rightarrow> GroupMessageDelivery \<Rightarrow> (string + byte list) option" where
  "SerializeGroupMessageDelivery writer v =
     (case ValidateDelivery v of Some e \<Rightarrow> Some (Inl e) | None \<Rightarrow> map_option Inr (writer v))"

definition NextReceiverDeliverySeq :: "u32 \<Rightarrow> u32 \<times> u32" where
  "NextReceiverDeliverySeq next = (if next \<noteq> 0 then (next, next + 1) else (1, 2))"

definition delivery_of :: "GroupDeliveryWork \<Rightarrow> GroupMessageDelivery" where
  "delivery_of work = \<lparr>delivery_message_id = work_message_id work, delivery_group_id = work_group_id work,
     delivery_from_user_id = work_from_user_id work, delivery_message_type = work_message_type work,
     delivery_content = work_content work, delivery_created_at = work_created_at work\<rparr>"

definition BuildGroupMessageDeliveryPacket :: "(GroupMessageDelivery \<Rightarrow> byte list option) \<Rightarrow> GroupDeliveryWork \<Rightarrow> u32 \<Rightarrow> ((string + Packet) \<times> u32) option" where
  "BuildGroupMessageDeliveryPacket writer work next =
     (if work_message_id work = 0 \<or> work_delivery_message_id work \<noteq> work_message_id work \<or> work_group_id work = 0
         \<or> work_delivery_group_id work \<noteq> work_group_id work \<or> work_from_user_id work = 0 \<or> work_recipient work = 0
         \<or> work_message_type work < 1 \<or> work_message_type work > 3 \<or> work_content work = []
      then Some (Inl ''invalid group delivery durable record'', next)
      else do {
        body \<leftarrow> SerializeGroupMessageDelivery writer (delivery_of work);
        case body of
          Inl e \<Rightarrow> Some (Inl e, next)
        | Inr body \<Rightarrow>
            let (seq, next') = NextReceiverDeliverySeq next
            in Some (if seq = 0 then Inl ''unable to allocate group delivery sequence''
                     else Inr \<lparr>pkt_type = kGroupMessageDelivery, pkt_flags = 0, pkt_seq = seq, pkt_body = body\<rparr>, next')
      })"

definition register_group_attempt :: "'g FanoutGateway \<Rightarrow> DeliveryIdentity \<Rightarrow> u32 \<Rightarrow> nat \<Rightarrow> ReceiverDeliveryTracker
    \<Rightarrow> (ReplayRegistration \<times> ReceiverDeliveryTracker) option" where
  "register_group_attempt G identity seq bytes t =
     (if enable_durable_private_recovery G then RegisterReplayAttempt identity seq bytes (clock_now G) (clock_uncertainty G) t
      else map_option (\<lambda>(s, t'). (\<lparr>reg_status = s, reg_delivery_seq = seq, reg_reused_attempt = False\<rparr>, t'))
             (RegisterAttempt identity seq bytes (clock_now G) t))"

text \<open>The part of a submission before the registration; \<open>retry\<close> is the sequence number that timed out, if there is one.\<close>

definition submit_prepare :: "'g FanoutGateway \<Rightarrow> GroupDeliveryWork \<Rightarrow> u32 option \<Rightarrow> 'g FanoutState
    \<Rightarrow> (((ReceiverDeliverySubmitStatus \<times> string) + (Packet \<times> Buffer)) \<times> 'g FanoutState) option" where
  "submit_prepare G work retry s =
     (if \<not> connected G (work_recipient work) 2 then Some (Inl (kConnectionUnavailable, ''receiver connection unavailable''), s)
      else if retry = Some 0 then Some (Inl (kBuildFailed, ''group retry timed-out sequence is invalid''), s)
      else do {
        (built, next) \<leftarrow> BuildGroupMessageDeliveryPacket (dump G) work (next_receiver_delivery_seq s);
        let s1 = s\<lparr>next_receiver_delivery_seq := next\<rparr>;
        case built of
          Inl e \<Rightarrow> Some (Inl (kBuildFailed, e), s1)
        | Inr packet \<Rightarrow> do {
            encoded \<leftarrow> Encode (codec G) packet (Some (Buffer_new kInitialSize));
            Some (case encoded of
              Inl e \<Rightarrow> Inl (kEncodeFailed, e)
            | Inr output \<Rightarrow>
                if \<not> connected G (work_recipient work) 3
                then Inl (kConnectionUnavailable, if retry = None then ''receiver connection became unavailable before attempt registration''
                  else ''receiver connection became unavailable before retry registration'')
                else Inr (packet, output), s1)
          }
      })"

text \<open>The registration, up to the call of \<open>Send\<close>: a status, or the packet and the bytes that are to be sent.\<close>

definition submit_register :: "'g FanoutGateway \<Rightarrow> GroupDeliveryWork \<Rightarrow> Packet \<Rightarrow> Buffer \<Rightarrow> 'g FanoutState
    \<Rightarrow> (((ReceiverDeliverySubmitStatus \<times> string) + (Packet \<times> byte list)) \<times> 'g FanoutState) option" where
  "submit_register G work packet output s = do {
     (registration, t) \<leftarrow> register_group_attempt G (GroupDeliveryIdentity (work_message_id work) (work_recipient work)) (pkt_seq packet)
       (ReadableBytes output) (tracker s);
     let s2 = s\<lparr>tracker := t\<rparr>;
     let registered = reg_status registration;
     if registered = ReceiverDeliveryRegisterStatus.kWaitingAck
     then Some (Inl (kWaitingAck, ''existing group attempt still waiting for ACK''), s2)
     else if registered = ReceiverDeliveryRegisterStatus.kWindowFull
     then Some (Inl (kWindowFull, ''group receiver delivery resource window is full''), s2)
     else do {
       let packet = (if reg_reused_attempt registration then packet\<lparr>pkt_seq := reg_delivery_seq registration\<rparr> else packet);
       encoded \<leftarrow> (if reg_reused_attempt registration then Encode (codec G) packet (Some (RetrieveAll output)) else Some (Inr output));
       case encoded of
         Inl e \<Rightarrow> Some (Inl (kEncodeFailed, e), s2)
       | Inr output \<Rightarrow>
           if registered = ReceiverDeliveryRegisterStatus.kAlreadyConfirmed
           then Some (Inl (kAlreadyConfirmed, ''group delivery already receiver-confirmed''), s2)
           else if registered \<noteq> kRegistered \<and> registered \<noteq> ReceiverDeliveryRegisterStatus.kRetryRegistered
           then Some (Inl (kTrackerRejected, ''group receiver delivery tracker rejected attempt''), s2)
           else do {
             (bytes, _) \<leftarrow> RetrieveAllAsString output;
             Some (Inr (packet, bytes), s2)
           }
     }
   }"

definition submit_send :: "u64 \<Rightarrow> byte list \<Rightarrow> 'g FanoutState \<Rightarrow> 'g FanoutState" where
  "submit_send r bytes s = s\<lparr>sent := sent s @ [(r, bytes)]\<rparr>"

definition SubmitGroupMessageDelivery :: "'g FanoutGateway \<Rightarrow> GroupDeliveryWork \<Rightarrow> 'g FanoutState
    \<Rightarrow> ((ReceiverDeliverySubmitStatus \<times> string) \<times> 'g FanoutState) option" where
  "SubmitGroupMessageDelivery G work s = do {
     (prepared, s1) \<leftarrow> submit_prepare G work None s;
     case prepared of
       Inl result \<Rightarrow> Some (result, s1)
     | Inr (packet, output) \<Rightarrow> do {
         (registered, s2) \<leftarrow> submit_register G work packet output s1;
         Some (case registered of
           Inl result \<Rightarrow> (result, s2)
         | Inr (packet, bytes) \<Rightarrow> ((kSubmitted, ''''), submit_send (work_recipient work) bytes s2))
       }
   }"

section \<open>Retries after a timeout and acknowledgements\<close>

definition retry_register :: "'g FanoutGateway \<Rightarrow> GroupDeliveryWork \<Rightarrow> u32 \<Rightarrow> Packet \<Rightarrow> Buffer \<Rightarrow> 'g FanoutState
    \<Rightarrow> (((ReceiverDeliverySubmitStatus \<times> string) + (Packet \<times> byte list)) \<times> 'g FanoutState) option" where
  "retry_register G work timed_out packet output s =
     (let (retry, t) = RegisterRetryAttempt (GroupDeliveryIdentity (work_message_id work) (work_recipient work)) timed_out (pkt_seq packet)
            (receiver_delivery_max_attempts G) (clock_now G) (tracker s);
          s2 = s\<lparr>tracker := t\<rparr>
      in case retry of
        ReceiverDeliveryRetryRegisterStatus.kRetryRegistered \<Rightarrow> do {
          (bytes, _) \<leftarrow> RetrieveAllAsString output;
          Some (Inr (packet, bytes), s2)
        }
      | ReceiverDeliveryRetryRegisterStatus.kAlreadyConfirmed \<Rightarrow> Some (Inl (kAlreadyConfirmed, ''''), s2)
      | ReceiverDeliveryRetryRegisterStatus.kStaleAttempt \<Rightarrow> Some (Inl (kStaleAttempt, ''''), s2)
      | ReceiverDeliveryRetryRegisterStatus.kAttemptLimitReached \<Rightarrow> Some (Inl (kAttemptLimitReached, ''''), s2)
      | _ \<Rightarrow> Some (Inl (kTrackerRejected, ''group receiver delivery tracker rejected retry''), s2))"

text \<open>The third component of the result is the sequence number of the packet that was sent.\<close>

definition SubmitGroupMessageDeliveryRetry :: "'g FanoutGateway \<Rightarrow> GroupDeliveryWork \<Rightarrow> u32 \<Rightarrow> 'g FanoutState
    \<Rightarrow> ((ReceiverDeliverySubmitStatus \<times> string \<times> u32) \<times> 'g FanoutState) option" where
  "SubmitGroupMessageDeliveryRetry G work timed_out s = do {
     (prepared, s1) \<leftarrow> submit_prepare G work (Some timed_out) s;
     case prepared of
       Inl (st, e) \<Rightarrow> Some ((st, e, 0), s1)
     | Inr (packet, output) \<Rightarrow> do {
         (registered, s2) \<leftarrow> retry_register G work timed_out packet output s1;
         Some (case registered of
           Inl (st, e) \<Rightarrow> ((st, e, 0), s2)
         | Inr (packet, bytes) \<Rightarrow> ((kSubmitted, '''', pkt_seq packet), submit_send (work_recipient work) bytes s2))
       }
   }"

definition ScheduleGroupMessageDeliveryAckTimeout :: "'g FanoutGateway \<Rightarrow> GroupDeliveryWork \<Rightarrow> u32 \<Rightarrow> 'g FanoutState \<Rightarrow> bool \<times> 'g FanoutState" where
  "ScheduleGroupMessageDeliveryAckTimeout G work seq s =
     (if work_message_id work = 0 \<or> work_recipient work = 0 \<or> seq = 0 \<or> receiver_ack_timeout G \<le> 0 \<or> \<not> timer_scheduled G then (False, s)
      else (True, s\<lparr>ack_timers := ack_timers s @ [(work, seq)]\<rparr>))"

text \<open>The tests before a retry.\<close>

definition timeout_due :: "'g FanoutGateway \<Rightarrow> GroupDeliveryWork \<Rightarrow> u32 \<Rightarrow> 'g FanoutState \<Rightarrow> bool" where
  "timeout_due G work timed_out s \<longleftrightarrow>
     \<not> (work_message_id work = 0 \<or> work_recipient work = 0 \<or> timed_out = 0)
     \<and> (case GetSnapshot (GroupDeliveryIdentity (work_message_id work) (work_recipient work)) (tracker s) of
          None \<Rightarrow> False
        | Some snapshot \<Rightarrow> \<not> (snap_confirmed snapshot \<or> snap_current_delivery_seq snapshot \<noteq> timed_out))
     \<and> connected G (work_recipient work) 1"

definition HandleGroupMessageDeliveryAckTimeout :: "'g FanoutGateway \<Rightarrow> GroupDeliveryWork \<Rightarrow> u32 \<Rightarrow> 'g FanoutState \<Rightarrow> 'g FanoutState option" where
  "HandleGroupMessageDeliveryAckTimeout G work timed_out s =
     (if \<not> timeout_due G work timed_out s then Some s
      else do {
        ((status, e, seq), s') \<leftarrow> SubmitGroupMessageDeliveryRetry G work timed_out s;
        Some (if status = kSubmitted then snd (ScheduleGroupMessageDeliveryAckTimeout G work seq s')
              else if status = kAttemptLimitReached then s'\<lparr>probes := probes s' @ [work_recipient work]\<rparr>
              else s')
      })"

text \<open>An acknowledgement on a worker thread: the message id of the parsed body (\<open>None\<close> if it does not parse), the sequence number of
  the packet, the user of the connection, whether the message client is set, and the recipient the message service answers.\<close>

definition ExecuteGroupMessageDeliveryAck :: "u64 option \<Rightarrow> u32 \<Rightarrow> u64 option \<Rightarrow> bool \<Rightarrow> u64 option \<Rightarrow> 'g FanoutState \<Rightarrow> 'g FanoutState option" where
  "ExecuteGroupMessageDeliveryAck ack seq receiver client_set durable s =
     (case ack of
        None \<Rightarrow> Some s
      | Some m \<Rightarrow> (case receiver of
          None \<Rightarrow> Some s
        | Some user \<Rightarrow>
            if \<not> client_set then Some s
            else case durable of
              None \<Rightarrow> Some s
            | Some recipient \<Rightarrow>
                if recipient \<noteq> user then Some s
                else do {
                  (status, t) \<leftarrow> Acknowledge (GroupDeliveryIdentity m user) seq (tracker s);
                  let s' = s\<lparr>tracker := t\<rparr>;
                  Some (if status \<noteq> kConfirmed \<and> status \<noteq> kDuplicate then s'
                        else s'\<lparr>confirm_requests := confirm_requests s' @ [(m, user, seq)]\<rparr>)
                }))"

section \<open>Dispatching on the gateway\<close>

definition fanout_ok_result :: "GroupFanoutDispatchStatus \<Rightarrow> string \<Rightarrow> GroupFanoutDispatchResult" where
  "fanout_ok_result st g = \<lparr>fanout_status = st, fanout_gateway = g, fanout_error = ''''\<rparr>"

text \<open>The branch of a recipient whose session is here.\<close>

definition dispatch_local :: "'g FanoutGateway \<Rightarrow> GroupDeliveryWork \<Rightarrow> 'g FanoutState \<Rightarrow> (GroupFanoutDispatchResult \<times> 'g FanoutState) option" where
  "dispatch_local G work s =
     (if \<not> connected G (work_recipient work) 1 then Some (retryable ''local_route_stale'', s)
      else
        let identity = GroupDeliveryIdentity (work_message_id work) (work_recipient work);
            (ownership, d) = Begin identity (dedup s);
            s1 = s\<lparr>dedup := d\<rparr>
        in case ownership of
          kAlreadyDelivered \<Rightarrow> Some (fanout_ok_result FanoutSubmitted (own_gateway_id G), s1)
        | kAlreadyProcessing \<Rightarrow> Some (retryable ''local_delivery_in_progress'', s1)
        | MessageDeliveryDedupBeginStatus.kInvalidArgument \<Rightarrow> Some (retryable ''local_delivery_identity_invalid'', s1)
        | kAcquired \<Rightarrow> do {
            ((status, e), s2) \<leftarrow> SubmitGroupMessageDelivery G work s1;
            let s3 = s2\<lparr>dedup := snd (Abort identity (dedup s2))\<rparr>;
            Some (if status = kSubmitted then fanout_ok_result FanoutSubmitted (own_gateway_id G)
                  else if status = kAlreadyConfirmed then fanout_ok_result FanoutAlreadyDelivered (own_gateway_id G)
                  else retryable (if e = [] then ''local_delivery_submit_failed'' else e), s3)
          })"

definition DispatchGroupFanoutDeliveryUsingRoute :: "'g FanoutGateway \<Rightarrow> GroupDeliveryWork \<Rightarrow> 'g GatewayRouteResult option \<Rightarrow> 'g FanoutState
    \<Rightarrow> (GroupFanoutDispatchResult \<times> 'g FanoutState) option" where
  "DispatchGroupFanoutDeliveryUsingRoute G work prefetched s =
     (if work_message_id work = 0 \<or> work_recipient work = 0 \<or> work_group_id work = 0 then Some (retryable ''invalid_durable_delivery'', s)
      else if work_state work = GroupDelivered then Some (fanout_ok_result FanoutAlreadyDelivered (own_gateway_id G), s)
      else
        let route = (case prefetched of
              Some r \<Rightarrow> Some r
            | None \<Rightarrow> (case resolver G of
                Some R \<Rightarrow> Some (Resolve R (presence G) (work_recipient work))
              | None \<Rightarrow> if connected G (work_recipient work) 0
                         then Some \<lparr>route_status = RouteLocal, route_online = None, route_gateway = None, route_error = ''''\<rparr>
                         else None))
        in case route of
          None \<Rightarrow> Some (retryable ''route_resolver_unavailable'', s)
        | Some r \<Rightarrow>
            if route_status r = RouteOffline
            then Some (\<lparr>fanout_status = FanoutOffline, fanout_gateway = '''', fanout_error = ''recipient_offline''\<rparr>, s)
            else if route_status r = RouteLocal then dispatch_local G work s
            else if route_status r = RouteRemote then
              (case route_gateway r of
                 None \<Rightarrow> Some (retryable ''remote_transport_unavailable'', s)
               | Some remote \<Rightarrow>
                   if \<not> transport_set G then Some (retryable ''remote_transport_unavailable'', s)
                   else if \<not> forward_group G remote (work_message_id work) (work_recipient work)
                   then Some (retryable ''remote_submission_rejected'', s)
                   else Some (fanout_ok_result FanoutSubmitted (instance_gateway_id G remote),
                          s\<lparr>forwarded := forwarded s @ [(remote, work_message_id work, work_recipient work)]\<rparr>))
            else Some (retryable (if route_error r = [] then ''route_resolution_failed'' else route_error r), s))"

definition DispatchGroupFanoutDelivery :: "'g FanoutGateway \<Rightarrow> GroupDeliveryWork \<Rightarrow> 'g FanoutState \<Rightarrow> (GroupFanoutDispatchResult \<times> 'g FanoutState) option" where
  "DispatchGroupFanoutDelivery G work s = DispatchGroupFanoutDeliveryUsingRoute G work None s"

definition needs_route :: "GroupDeliveryWork \<Rightarrow> bool" where
  "needs_route work \<longleftrightarrow> work_message_id work \<noteq> 0 \<and> work_recipient work \<noteq> 0 \<and> work_group_id work \<noteq> 0 \<and> work_state work \<noteq> GroupDelivered"

fun dispatch_routed :: "'g FanoutGateway \<Rightarrow> (GroupDeliveryWork \<times> 'g GatewayRouteResult option) list \<Rightarrow> 'g FanoutState
    \<Rightarrow> (GroupFanoutDispatchResult list \<times> 'g FanoutState) option" where
  "dispatch_routed G [] s = Some ([], s)"
| "dispatch_routed G ((work, r) # items) s = do {
     (d, s') \<leftarrow> DispatchGroupFanoutDeliveryUsingRoute G work r s;
     (ds, s'') \<leftarrow> dispatch_routed G items s';
     Some (d # ds, s'')
   }"

definition DispatchGroupFanoutDeliveries :: "'g FanoutGateway \<Rightarrow> GroupDeliveryWork list \<Rightarrow> 'g FanoutState
    \<Rightarrow> (GroupFanoutDispatchResult list \<times> 'g FanoutState) option" where
  "DispatchGroupFanoutDeliveries G items s =
     (if length items > 256 then Some (replicate (length items) (retryable ''fanout_dispatch_batch_oversized''), s)
      else case resolver G of
        Some R \<Rightarrow>
          let routes = ResolveBatch R (presence G) (presence_batch G) (map (\<lambda>work. if needs_route work then work_recipient work else 0) items)
          in if length routes \<noteq> length items then Some (replicate (length items) (retryable ''fanout_route_batch_mismatch''), s)
             else dispatch_routed G (zip items (map Some routes)) s
      | None \<Rightarrow> dispatch_routed G (map (\<lambda>work. (work, None)) items) s)"

section \<open>Lease tokens\<close>

text \<open>Two claims of a process never carry the same token: what follows the last colon is the counter.\<close>

lemma last_part: "\<lbrakk>x @ c # d = y @ c # e; c \<notin> set d; c \<notin> set e\<rbrakk> \<Longrightarrow> d = e"
proof -
  assume eq: "x @ c # d = y @ c # e" and no: "c \<notin> set d" "c \<notin> set e"
  have part: "takeWhile (\<lambda>a. a \<noteq> c) (rev (z @ c # f)) = rev f" if "c \<notin> set f" for z f
    using that takeWhile_append2 [of "rev f" "\<lambda>a. a \<noteq> c" "c # rev z"] by auto
  from arg_cong [OF eq, of "\<lambda>s. takeWhile (\<lambda>a. a \<noteq> c) (rev s)"] show "d = e" unfolding part [OF no(1)] part [OF no(2)] by simp
qed

lemma lease_tokens_differ:
  assumes "sequence \<noteq> sequence'"
  shows "fst (NextLeaseToken opts micros sequence) \<noteq> fst (NextLeaseToken opts micros' sequence')"
proof
  assume same: "fst (NextLeaseToken opts micros sequence) = fst (NextLeaseToken opts micros' sequence')"
  have no: "CHR '':'' \<notin> set (to_string n)" for n using to_string_digits [of "CHR '':''" n] by (auto simp: isdigit_def)
  have "to_string (unat sequence) = to_string (unat sequence')"
    by (rule last_part [where c = "CHR '':''" and x = "fanout_gateway_id opts @ '':group-fanout:'' @ to_string micros"
          and y = "fanout_gateway_id opts @ '':group-fanout:'' @ to_string micros'"])
      (use same no in \<open>simp_all add: NextLeaseToken_def\<close>)
  with assms show False by (simp add: to_string_inject unsigned_word_eqI)
qed

section \<open>Each row is dispatched and answered once\<close>

fun dispatched_by :: "Effect \<Rightarrow> GroupDeliveryWork list" where
  "dispatched_by (ECall_Dispatch work) = [work]"
| "dispatched_by (ECall_DispatchBatch ws) = ws"
| "dispatched_by _ = []"

fun completed_by :: "Effect \<Rightarrow> CompleteRequest list" where
  "completed_by (ECall_Complete c) = [c]"
| "completed_by (ECall_CompleteBatch cs) = cs"
| "completed_by _ = []"

abbreviation all_dispatched :: "Effect list \<Rightarrow> GroupDeliveryWork list" where
  "all_dispatched es \<equiv> concat (map dispatched_by es)"

abbreviation all_completed :: "Effect list \<Rightarrow> CompleteRequest list" where
  "all_completed es \<equiv> concat (map completed_by es)"

text \<open>The reference: one dispatch after the other.\<close>

fun dispatch_each :: "('a \<Rightarrow> 'w \<Rightarrow> ('r \<times> 'w) option) \<Rightarrow> 'a list \<Rightarrow> 'w \<Rightarrow> ('r list \<times> 'w) option" where
  "dispatch_each f [] w = Some ([], w)"
| "dispatch_each f (x # xs) w = do { (r, w') \<leftarrow> f x w; (rs, w'') \<leftarrow> dispatch_each f xs w'; Some (r # rs, w'') }"

lemma dispatch_each_length: "dispatch_each f xs w = Some (rs, w') \<Longrightarrow> length rs = length xs"
  by (induction xs arbitrary: w rs w') (auto split: bind_splits)

lemma finish_pending_effect [simp]: "all_completed (finish_pending m cs) = cs" "all_dispatched (finish_pending m cs) = []"
proof -
  have "all_completed (map ECall_Complete cs) = cs" "all_dispatched (map ECall_Complete cs) = []" by (induction cs) simp_all
  then show "all_completed (finish_pending m cs) = cs" "all_dispatched (finish_pending m cs) = []" by (simp_all add: finish_pending_def)
qed

lemma loop_scalar:
  "dispatch_each dispatch (filter work_valid items) w = Some (rs, w') \<Longrightarrow>
   \<exists>calls pending. fanout_loop opts token defer False dispatch items batch w = Some (calls, pending, w')
     \<and> all_dispatched calls = filter work_valid items
     \<and> all_completed calls @ pending = map2 (completion_of opts token) (filter work_valid items) rs
     \<and> (if defer then all_completed calls = [] else pending = [])"
proof (induction items arbitrary: w rs)
  case (Cons work items)
  then show ?case
  proof (cases "work_valid work")
    case True
    with Cons.prems obtain d w1 rs' where d: "dispatch work w = Some (d, w1)" "dispatch_each dispatch (filter work_valid items) w1 = Some (rs', w')" "rs = d # rs'"
      by (auto split: bind_splits)
    from Cons.IH [OF d(2)] obtain calls pending where
      "fanout_loop opts token defer False dispatch items batch w1 = Some (calls, pending, w')" "all_dispatched calls = filter work_valid items"
      "all_completed calls @ pending = map2 (completion_of opts token) (filter work_valid items) rs'" "if defer then all_completed calls = [] else pending = []"
      by blast
    with d True show ?thesis by (auto simp: Let_def)
  qed simp
qed simp

lemma loop_scalar_raises:
  "dispatch_each dispatch (filter work_valid items) w = None \<Longrightarrow> fanout_loop opts token defer False dispatch items batch w = None"
proof (induction items arbitrary: w)
  case (Cons work items)
  show ?case
  proof (cases "work_valid work")
    case True
    show ?thesis
    proof (cases "dispatch work w")
      case (Some x)
      with True Cons.prems have "dispatch_each dispatch (filter work_valid items) (snd x) = None" by (cases x) (simp split: bind_splits prod.splits)
      with Cons.IH True Some show ?thesis by (cases x) simp
    qed (use True in simp)
  qed (use Cons in simp)
qed simp

lemma loop_batch:
  "length batch = length (filter work_valid items) \<Longrightarrow>
   fanout_loop opts token True True dispatch items batch w = Some ([], map2 (completion_of opts token) (filter work_valid items) batch, w)"
  by (induction items arbitrary: batch) (auto simp: Let_def split: list.split)

text \<open>One iteration against the reference: the results are those of the dispatches, one after the other or in a batch.\<close>

definition uses_batch :: "FanoutOptions \<Rightarrow> Modes \<Rightarrow> GroupDeliveryWork list \<Rightarrow> bool" where
  "uses_batch opts m items \<longleftrightarrow> defer_enabled m \<and> length items \<le> min (batch_size opts) 256 \<and> route_batch_enabled m \<and> dispatch_batch_set m
     \<and> filter work_valid items \<noteq> []"

definition fixed_results :: "nat \<Rightarrow> GroupFanoutDispatchResult list \<Rightarrow> GroupFanoutDispatchResult list" where
  "fixed_results n rs = (if length rs \<noteq> n then replicate n (retryable ''batch_dispatch_result_mismatch'') else rs)"

lemma length_fixed_results [simp]: "length (fixed_results n rs) = n" by (simp add: fixed_results_def)

lemma iteration_effect:
  assumes "callbacks_valid m"
    and "(if uses_batch opts m items then map_option (apfst (fixed_results (length (filter work_valid items)))) (dispatch_batch (filter work_valid items) w)
          else dispatch_each dispatch (filter work_valid items) w) = Some (rs, w')"
  shows "\<exists>calls. RunOneIteration opts m token (Some items) dispatch dispatch_batch w = Some (length items, calls, w')
    \<and> all_dispatched calls = filter work_valid items
    \<and> all_completed calls = map2 (completion_of opts token) (filter work_valid items) rs"
proof (cases "uses_batch opts m items")
  case True
  with assms obtain rs0 where rs: "dispatch_batch (filter work_valid items) w = Some (rs0, w')" "rs = fixed_results (length (filter work_valid items)) rs0" by auto
  have "fanout_loop opts token True True dispatch items rs w' = Some ([], map2 (completion_of opts token) (filter work_valid items) rs, w')"
    by (rule loop_batch) (simp add: rs(2))
  with True assms(1) rs show ?thesis by (auto simp: RunOneIteration_def uses_batch_def Let_def fixed_results_def)
next
  case False
  then have each: "dispatch_each dispatch (filter work_valid items) w = Some (rs, w')" using assms(2) by simp
  let ?defer = "defer_enabled m \<and> length items \<le> min (batch_size opts) 256"
  show ?thesis
  proof (cases "?defer \<and> route_batch_enabled m \<and> dispatch_batch_set m")
    case True
    with False have none: "filter work_valid items = []" by (auto simp: uses_batch_def)
    with each have "rs = []" "w' = w" by auto
    with True none assms(1) loop_batch [of "[]" items opts token dispatch w] show ?thesis
      by (auto simp: RunOneIteration_def Let_def finish_pending_def)
  next
    case no_batch: False
    from loop_scalar [OF each, of opts token ?defer "[]"] obtain calls pending where
      "fanout_loop opts token ?defer False dispatch items [] w = Some (calls, pending, w')" "all_dispatched calls = filter work_valid items"
      "all_completed calls @ pending = map2 (completion_of opts token) (filter work_valid items) rs" "if ?defer then all_completed calls = [] else pending = []"
      by blast
    with no_batch assms(1) show ?thesis by (auto simp: RunOneIteration_def Let_def)
  qed
qed

lemma iteration_raises:
  assumes "callbacks_valid m"
    and "(if uses_batch opts m items then map_option (apfst (fixed_results (length (filter work_valid items)))) (dispatch_batch (filter work_valid items) w)
          else dispatch_each dispatch (filter work_valid items) w) = None"
  shows "RunOneIteration opts m token (Some items) dispatch dispatch_batch w = None"
proof (cases "uses_batch opts m items")
  case True
  with assms show ?thesis by (auto simp: RunOneIteration_def uses_batch_def Let_def)
next
  case False
  then have each: "dispatch_each dispatch (filter work_valid items) w = None" using assms(2) by simp
  then have "filter work_valid items \<noteq> []" by (cases "filter work_valid items") auto
  with False have "\<not> (defer_enabled m \<and> length items \<le> min (batch_size opts) 256 \<and> route_batch_enabled m \<and> dispatch_batch_set m)"
    by (auto simp: uses_batch_def)
  with assms(1) loop_scalar_raises [OF each] show ?thesis by (auto simp: RunOneIteration_def Let_def)
qed

section \<open>What a submission does\<close>

lemma Encode_total:
  assumes "buffer_ok b"
  shows "(\<exists>e. Encode c p (Some b) = Some (Inl e)) \<or> (\<exists>b'. Encode c p (Some b) = Some (Inr b') \<and> buffer_ok b' \<and> readable b' = readable b @ frame_bytes p)"
  using Encode_spec [OF assms] by (cases "ValidatePacketForEncode c p") (auto simp: Encode_def)

text \<open>\<open>attempt_of i seq t\<close>: the tracker knows the attempt; \<open>awaited\<close>: and an acknowledgement of it will be the first.\<close>

definition attempt_of :: "DeliveryIdentity \<Rightarrow> u32 \<Rightarrow> ReceiverDeliveryTracker \<Rightarrow> bool" where
  "attempt_of i seq t \<longleftrightarrow> (case entries t i of None \<Rightarrow> False | Some e \<Rightarrow> seq \<in> attempt_seqs e)"

definition awaited :: "DeliveryIdentity \<Rightarrow> u32 \<Rightarrow> ReceiverDeliveryTracker \<Rightarrow> bool" where
  "awaited i seq t \<longleftrightarrow> (case entries t i of None \<Rightarrow> False | Some e \<Rightarrow> seq \<in> attempt_seqs e \<and> \<not> entry_confirmed e)"

definition no_new_attempts :: "(DeliveryIdentity \<times> u32) set \<Rightarrow> ReceiverDeliveryTracker \<Rightarrow> ReceiverDeliveryTracker \<Rightarrow> bool" where
  "no_new_attempts A t t' \<longleftrightarrow> (\<forall>j q. attempt_of j q t' \<longrightarrow> attempt_of j q t \<or> (j, q) \<in> A)"

lemma no_new_refl [simp]: "no_new_attempts A t t" by (simp add: no_new_attempts_def)

lemma no_new_more: "no_new_attempts {} t t' \<Longrightarrow> no_new_attempts A t t'"
  by (auto simp: no_new_attempts_def)

definition is_registered :: "ReceiverDeliveryRegisterStatus \<Rightarrow> bool" where
  "is_registered st \<longleftrightarrow> st = kRegistered \<or> st = ReceiverDeliveryRegisterStatus.kRetryRegistered"

lemma is_registered_simps [simp]:
  "is_registered kRegistered" "is_registered ReceiverDeliveryRegisterStatus.kRetryRegistered"
  "\<not> is_registered ReceiverDeliveryRegisterStatus.kDuplicateAttempt" "\<not> is_registered ReceiverDeliveryRegisterStatus.kAlreadyConfirmed"
  "\<not> is_registered ReceiverDeliveryRegisterStatus.kReceiverMismatch" "\<not> is_registered ReceiverDeliveryRegisterStatus.kInvalidArgument"
  "\<not> is_registered ReceiverDeliveryRegisterStatus.kWindowFull" "\<not> is_registered ReceiverDeliveryRegisterStatus.kWaitingAck"
  by (simp_all add: is_registered_def)

lemma no_new_upd:
  "\<lbrakk>entries t' = (entries t)(i \<mapsto> e'); \<forall>q\<in>attempt_seqs e'. attempt_of i q t \<or> (i, q) \<in> A\<rbrakk> \<Longrightarrow> no_new_attempts A t t'"
  by (auto simp: no_new_attempts_def attempt_of_def split: option.splits if_splits)

lemma locked_attempt:
  assumes "RegisterAttemptLocked i seq bytes now t = Some (st, t')"
  shows "is_registered st \<Longrightarrow> awaited i seq t'" and "no_new_attempts (if is_registered st then {(i, seq)} else {}) t t'"
proof -
  show "is_registered st \<Longrightarrow> awaited i seq t'"
    using assms unfolding RegisterAttemptLocked_def Let_def grow_bytes_def is_registered_def awaited_def
    by (auto split: if_splits option.splits)
  show "no_new_attempts (if is_registered st then {(i, seq)} else {}) t t'"
    using assms unfolding RegisterAttemptLocked_def Let_def grow_bytes_def is_registered_def
    by (auto split: if_splits option.splits intro!: no_new_upd simp: attempt_of_def)
qed

text \<open>What a registration gives, in both modes.\<close>

definition registration_ok :: "DeliveryIdentity \<Rightarrow> u32 \<Rightarrow> ReceiverDeliveryTracker \<Rightarrow> ReplayRegistration \<Rightarrow> ReceiverDeliveryTracker \<Rightarrow> bool" where
  "registration_ok i seq t g t' \<longleftrightarrow> tracker_ok t'
     \<and> (is_registered (reg_status g) \<longrightarrow> awaited i (reg_delivery_seq g) t' \<and> (\<not> reg_reused_attempt g \<longrightarrow> reg_delivery_seq g = seq))
     \<and> no_new_attempts (if is_registered (reg_status g) \<and> \<not> reg_reused_attempt g then {(i, seq)} else {}) t t'"

lemma replay_registration:
  assumes ok: "tracker_ok t" and reg: "RegisterReplayAttempt i seq bytes now u t = Some (g, t')" and "tracker_ok t'"
  shows "registration_ok i seq t g t'"
proof -
  have current: "current_delivery_seq e \<in> attempt_seqs e" if "entries t i = Some e" for e
    using ok that by (auto simp: tracker_ok_def entries_ok_def entry_ok_def)
  note unfolded = reg [unfolded RegisterReplayAttempt_def Let_def grow_bytes_def]
  have "awaited i (reg_delivery_seq g) t'" if "is_registered (reg_status g)"
    using unfolded that current by (auto simp: is_registered_def split: if_splits option.splits dest!: locked_attempt(1)) (auto simp: awaited_def)
  moreover have "reg_delivery_seq g = seq" if "is_registered (reg_status g)" "\<not> reg_reused_attempt g"
    using unfolded that by (auto simp: is_registered_def split: if_splits option.splits)
  moreover have "no_new_attempts (if is_registered (reg_status g) \<and> \<not> reg_reused_attempt g then {(i, seq)} else {}) t t'"
    using unfolded by (auto split: if_splits option.splits dest!: locked_attempt(2)) (auto simp: attempt_of_def intro!: no_new_upd [where i = i])
  ultimately show ?thesis using assms(3) by (simp add: registration_ok_def)
qed

lemma register_group_attempt_ok:
  assumes ok: "tracker_ok t"
  shows "\<exists>g t'. register_group_attempt G i seq bytes t = Some (g, t') \<and> registration_ok i seq t g t'"
proof (cases "enable_durable_private_recovery G")
  case True
  with RegisterReplayAttempt_ok [OF ok, of i seq bytes "clock_now G" "clock_uncertainty G"] replay_registration [OF ok] show ?thesis
    by (fastforce simp: register_group_attempt_def)
next
  case False
  obtain st t' where reg: "RegisterAttempt i seq bytes (clock_now G) t = Some (st, t')" "tracker_ok t'"
    using RegisterAttempt_ok [OF ok] by blast
  then have "(is_registered st \<longrightarrow> awaited i seq t') \<and> no_new_attempts (if is_registered st then {(i, seq)} else {}) t t'"
    by (auto simp: RegisterAttempt_def is_registered_def [of ReceiverDeliveryRegisterStatus.kInvalidArgument] split: if_splits dest: locked_attempt)
  with False reg show ?thesis by (auto simp: register_group_attempt_def registration_ok_def split: if_splits)
qed

definition fanout_inv :: "'g FanoutState \<Rightarrow> bool" where
  "fanout_inv s \<longleftrightarrow> tracker_ok (tracker s)"

text \<open>Exactly the submissions that succeed put a frame on the connection; the frame carries the message, its sequence number is one the
  tracker waits for, and no other attempt becomes known.\<close>

definition identity_of :: "GroupDeliveryWork \<Rightarrow> DeliveryIdentity" where
  "identity_of work = GroupDeliveryIdentity (work_message_id work) (work_recipient work)"

definition delivers :: "(GroupMessageDelivery \<Rightarrow> byte list option) \<Rightarrow> GroupDeliveryWork \<Rightarrow> Packet \<Rightarrow> bool" where
  "delivers writer work p \<longleftrightarrow> pkt_type p = kGroupMessageDelivery \<and> writer (delivery_of work) = Some (pkt_body p)"

definition submission_ok :: "'g FanoutGateway \<Rightarrow> GroupDeliveryWork \<Rightarrow> 'g FanoutState \<Rightarrow> ReceiverDeliverySubmitStatus \<Rightarrow> 'g FanoutState \<Rightarrow> bool" where
  "submission_ok G work s st s' \<longleftrightarrow> fanout_inv s' \<and> dedup s' = dedup s \<and> confirm_requests s' = confirm_requests s
     \<and> (if st = kSubmitted
        then \<exists>p. delivers (dump G) work p \<and> sent s' = sent s @ [(work_recipient work, frame_bytes p)]
          \<and> awaited (identity_of work) (pkt_seq p) (tracker s') \<and> no_new_attempts {(identity_of work, pkt_seq p)} (tracker s) (tracker s')
        else sent s' = sent s \<and> no_new_attempts {} (tracker s) (tracker s'))"

text \<open>The build raises only if the JSON writer does.\<close>

lemma Build_effect:
  "case BuildGroupMessageDeliveryPacket writer work next of None \<Rightarrow> writer (delivery_of work) = None
   | Some (built, next') \<Rightarrow> (\<forall>p. built = Inr p \<longrightarrow> delivers writer work p)"
  by (cases "writer (delivery_of work)")
    (auto simp: BuildGroupMessageDeliveryPacket_def SerializeGroupMessageDelivery_def Let_def delivers_def split: option.split prod.split)

lemma retrieve_all_string: "buffer_ok b \<Longrightarrow> \<exists>b'. RetrieveAllAsString b = Some (readable b, b')"
  using RetrieveAsString_spec [of b "ReadableBytes b"] by (auto simp: RetrieveAllAsString_def buffer_simps length_readable)

text \<open>The three parts of a submission: what is prepared carries the message; what is registered is what is sent.\<close>

definition prepared_ok :: "(GroupMessageDelivery \<Rightarrow> byte list option) \<Rightarrow> GroupDeliveryWork \<Rightarrow> Packet \<Rightarrow> Buffer \<Rightarrow> bool" where
  "prepared_ok writer work p output \<longleftrightarrow> delivers writer work p \<and> buffer_ok output \<and> readable output = frame_bytes p"

lemma prepare_effect:
  "case submit_prepare G work retry s of None \<Rightarrow> dump G (delivery_of work) = None
   | Some (prepared, s1) \<Rightarrow> s1 = s\<lparr>next_receiver_delivery_seq := next_receiver_delivery_seq s1\<rparr>
       \<and> (case prepared of Inl (st, e) \<Rightarrow> st \<noteq> kSubmitted | Inr (p, out) \<Rightarrow> prepared_ok (dump G) work p out)"
proof (cases "connected G (work_recipient work) 2 \<and> retry \<noteq> Some 0")
  case False
  then show ?thesis by (auto simp: submit_prepare_def)
next
  case here: True
  show ?thesis
  proof (cases "BuildGroupMessageDeliveryPacket (dump G) work (next_receiver_delivery_seq s)")
    case None
    with here Build_effect [of "dump G" work "next_receiver_delivery_seq s"] show ?thesis by (simp add: submit_prepare_def)
  next
    case (Some x)
    obtain built next' where x: "x = (built, next')" by fastforce
    with Some Build_effect [of "dump G" work "next_receiver_delivery_seq s"] have built: "\<And>p. built = Inr p \<Longrightarrow> delivers (dump G) work p" by simp
    show ?thesis
    proof (cases built)
      case (Inl e)
      with here Some x show ?thesis by (simp add: submit_prepare_def)
    next
      case (Inr p)
      from Encode_total [OF buffer_ok_new, of "codec G" p kInitialSize] consider
          e where "Encode (codec G) p (Some (Buffer_new kInitialSize)) = Some (Inl e)"
        | out where "Encode (codec G) p (Some (Buffer_new kInitialSize)) = Some (Inr out)" "buffer_ok out" "readable out = frame_bytes p"
        by auto
      then show ?thesis by cases (use here Some x Inr built in \<open>auto simp: submit_prepare_def prepared_ok_def\<close>)
    qed
  qed
qed

definition registered_ok :: "(GroupMessageDelivery \<Rightarrow> byte list option) \<Rightarrow> GroupDeliveryWork \<Rightarrow> 'g FanoutState
    \<Rightarrow> (ReceiverDeliverySubmitStatus \<times> string) + (Packet \<times> byte list) \<Rightarrow> 'g FanoutState \<Rightarrow> bool" where
  "registered_ok writer work s registered s' \<longleftrightarrow> fanout_inv s' \<and> s' = s\<lparr>tracker := tracker s'\<rparr>
     \<and> (case registered of
          Inl (st, e) \<Rightarrow> st \<noteq> kSubmitted \<and> no_new_attempts {} (tracker s) (tracker s')
        | Inr (p, bytes) \<Rightarrow> delivers writer work p \<and> bytes = frame_bytes p \<and> awaited (identity_of work) (pkt_seq p) (tracker s')
            \<and> no_new_attempts {(identity_of work, pkt_seq p)} (tracker s) (tracker s'))"

lemma register_effect:
  assumes inv: "fanout_inv s" and ready: "prepared_ok (dump G) work p b"
  shows "\<exists>registered s'. submit_register G work p b s = Some (registered, s') \<and> registered_ok (dump G) work s registered s'"
proof -
  have b: "buffer_ok b" "readable b = frame_bytes p" "delivers (dump G) work p" using ready by (simp_all add: prepared_ok_def)
  obtain g t where g: "register_group_attempt G (identity_of work) (pkt_seq p) (ReadableBytes b) (tracker s) = Some (g, t)"
    and ok: "registration_ok (identity_of work) (pkt_seq p) (tracker s) g t"
    using register_group_attempt_ok [OF inv [unfolded fanout_inv_def]] by blast
  let ?p = "if reg_reused_attempt g then p\<lparr>pkt_seq := reg_delivery_seq g\<rparr> else p"
  let ?enc = "if reg_reused_attempt g then Encode (codec G) ?p (Some (RetrieveAll b)) else Some (Inr b)"
  have "(\<exists>e. reg_reused_attempt g \<and> ?enc = Some (Inl e)) \<or> (\<exists>b' b''. ?enc = Some (Inr b') \<and> RetrieveAllAsString b' = Some (frame_bytes ?p, b''))"
    using b(1,2) retrieve_all_string [OF b(1)] Encode_total [of "RetrieveAll b" "codec G" "p\<lparr>pkt_seq := reg_delivery_seq g\<rparr>"]
    by (auto dest: retrieve_all_string)
  moreover have "delivers (dump G) work ?p" using b(3) by (simp add: delivers_def)
  moreover have "no_new_attempts {(identity_of work, pkt_seq ?p)} (tracker s) t" "awaited (identity_of work) (pkt_seq ?p) t"
    if "is_registered (reg_status g)"
    using ok that by (auto simp: registration_ok_def split: if_splits intro: no_new_more)
  moreover have "no_new_attempts {} (tracker s) t" if "\<not> is_registered (reg_status g) \<or> reg_reused_attempt g"
    using ok that by (auto simp: registration_ok_def split: if_splits)
  moreover have "tracker_ok t" using ok by (simp add: registration_ok_def)
  ultimately show ?thesis
    using g by (auto simp: submit_register_def registered_ok_def fanout_inv_def Let_def identity_of_def [symmetric] is_registered_def split: if_splits)
qed

lemma submit_effect:
  assumes inv: "fanout_inv s"
  shows "case SubmitGroupMessageDelivery G work s of None \<Rightarrow> dump G (delivery_of work) = None | Some ((st, e), s') \<Rightarrow> submission_ok G work s st s'"
proof (cases "submit_prepare G work None s")
  case None
  with prepare_effect [where G = G and work = work and retry = None and s = s] show ?thesis by (simp add: SubmitGroupMessageDelivery_def)
next
  case (Some x)
  obtain prepared s1 where x: "x = (prepared, s1)" by fastforce
  obtain n where s1: "s1 = s\<lparr>next_receiver_delivery_seq := n\<rparr>" and prep: "case prepared of Inl (st, e) \<Rightarrow> st \<noteq> kSubmitted | Inr (p, output) \<Rightarrow> prepared_ok (dump G) work p output"
    using prepare_effect [where G = G and work = work and retry = None and s = s] Some x by auto
  have inv1: "fanout_inv s1" using inv by (simp add: s1 fanout_inv_def)
  show ?thesis
  proof (cases prepared)
    case (Inl r)
    with prep inv1 Some x show ?thesis by (cases r) (simp add: SubmitGroupMessageDelivery_def submission_ok_def s1)
  next
    case (Inr r)
    obtain p out where r: "r = (p, out)" by fastforce
    from register_effect [OF inv1, of G work p out] prep Inr r obtain registered s2 where
      reg: "submit_register G work p out s1 = Some (registered, s2)" "registered_ok (dump G) work s1 registered s2" by auto
    have "s2 = s\<lparr>next_receiver_delivery_seq := n, tracker := tracker s2\<rparr>" using reg(2) by (simp add: registered_ok_def s1)
    then have fields: "dedup s2 = dedup s" "confirm_requests s2 = confirm_requests s" "sent s2 = sent s" by (metis FanoutState.ext_inject FanoutState.surjective FanoutState.update_convs(2,3))+
    show ?thesis
      using Some x Inr r reg fields
      by (auto simp: SubmitGroupMessageDelivery_def submission_ok_def registered_ok_def submit_send_def s1 fanout_inv_def split: sum.splits prod.splits)
  qed
qed

section \<open>What a dispatch does\<close>

lemma begin_abort: "Begin i d = (kAcquired, d') \<Longrightarrow> snd (Abort i d') = d"
  by (auto simp: Begin_def Abort_def fun_upd_idem split: if_splits option.splits)

lemma begin_keeps: "Begin i d = (st, d') \<Longrightarrow> st \<noteq> kAcquired \<Longrightarrow> d' = d"
  by (auto simp: Begin_def split: if_splits option.splits)

text \<open>A dispatch or a retry keeps the deduplicator and the requested confirmations, and a new attempt is known to the tracker only
  with its frame handed to the recipient's connection.\<close>

definition framed :: "(GroupMessageDelivery \<Rightarrow> byte list option) \<Rightarrow> (u64 \<times> byte list) list \<Rightarrow> DeliveryIdentity \<Rightarrow> u32 \<Rightarrow> bool" where
  "framed writer frames i q \<longleftrightarrow> (\<exists>work p. i = identity_of work \<and> delivers writer work p \<and> pkt_seq p = q \<and> (work_recipient work, frame_bytes p) \<in> set frames)"

definition dispatch_ok :: "(GroupMessageDelivery \<Rightarrow> byte list option) \<Rightarrow> 'g FanoutState \<Rightarrow> 'g FanoutState \<Rightarrow> bool" where
  "dispatch_ok writer s s' \<longleftrightarrow> fanout_inv s' \<and> dedup s' = dedup s \<and> confirm_requests s' = confirm_requests s \<and> (\<exists>frames. sent s' = sent s @ frames)
     \<and> (\<forall>i q. attempt_of i q (tracker s') \<longrightarrow> attempt_of i q (tracker s) \<or> framed writer (sent s') i q)"

lemma framed_mono: "framed writer a i q \<Longrightarrow> set a \<subseteq> set b \<Longrightarrow> framed writer b i q"
  by (auto simp: framed_def)

lemma dispatch_ok_refl: "fanout_inv s \<Longrightarrow> dispatch_ok writer s s"
  by (simp add: dispatch_ok_def)

lemma dispatch_ok_trans: "dispatch_ok writer s s1 \<Longrightarrow> dispatch_ok writer s1 s2 \<Longrightarrow> dispatch_ok writer s s2"
  unfolding dispatch_ok_def using framed_mono [of writer "sent s1" _ _ "sent s2"] by fastforce

lemma submission_dispatch_ok:
  "\<lbrakk>submission_ok G work s1 st s2; tracker s1 = tracker s; sent s1 = sent s; confirm_requests s1 = confirm_requests s;
    tracker s' = tracker s2; sent s' = sent s2; confirm_requests s' = confirm_requests s2; dedup s' = dedup s\<rbrakk> \<Longrightarrow> dispatch_ok (dump G) s s'"
  by (auto simp: submission_ok_def dispatch_ok_def fanout_inv_def no_new_attempts_def framed_def split: if_splits) blast

lemma dispatch_local_ok:
  assumes inv: "fanout_inv s"
  shows "case dispatch_local G work s of None \<Rightarrow> dump G (delivery_of work) = None | Some (d, s') \<Rightarrow> dispatch_ok (dump G) s s'"
proof (cases "connected G (work_recipient work) 1")
  case True
  let ?i = "GroupDeliveryIdentity (work_message_id work) (work_recipient work)"
  obtain st dd where begin_: "Begin ?i (dedup s) = (st, dd)" by fastforce
  show ?thesis
  proof (cases "st = kAcquired")
    case acquired: True
    have "fanout_inv (s\<lparr>dedup := dd\<rparr>)" using inv by (simp add: fanout_inv_def)
    note effect = submit_effect [OF this, of G work]
    show ?thesis
    proof (cases "SubmitGroupMessageDelivery G work (s\<lparr>dedup := dd\<rparr>)")
      case None
      with effect True acquired begin_ show ?thesis by (simp add: dispatch_local_def Let_def)
    next
      case (Some x)
      obtain st' e s' where x: "x = ((st', e), s')" by (metis surj_pair)
      with effect Some have ok: "submission_ok G work (s\<lparr>dedup := dd\<rparr>) st' s'" by simp
      then have "dedup s' = dd" by (simp add: submission_ok_def)
      with ok Some x True acquired begin_ begin_abort [of ?i "dedup s" dd] show ?thesis
        by (auto simp: dispatch_local_def Let_def intro!: submission_dispatch_ok)
    qed
  next
    case False
    with begin_keeps [OF begin_] dispatch_ok_refl [OF inv, of "dump G"] begin_ True show ?thesis
      by (cases st) (auto simp: dispatch_local_def Let_def)
  qed
qed (use dispatch_ok_refl [OF inv] in \<open>simp add: dispatch_local_def\<close>)

lemma dispatch_using_route_ok:
  assumes inv: "fanout_inv s"
  shows "case DispatchGroupFanoutDeliveryUsingRoute G work r s of None \<Rightarrow> dump G (delivery_of work) = None | Some (d, s') \<Rightarrow> dispatch_ok (dump G) s s'"
proof -
  have keep: "dispatch_ok (dump G) s s" "\<And>x. dispatch_ok (dump G) s (s\<lparr>forwarded := x\<rparr>)" using inv by (simp_all add: dispatch_ok_def fanout_inv_def)
  have "dispatch_local G work s = None \<and> dump G (delivery_of work) = None \<or> (\<exists>d s'. dispatch_local G work s = Some (d, s') \<and> dispatch_ok (dump G) s s')"
    using dispatch_local_ok [OF assms, of G work] by (auto split: option.splits)
  then have "DispatchGroupFanoutDeliveryUsingRoute G work r s = None \<and> dump G (delivery_of work) = None
      \<or> (\<exists>d s'. DispatchGroupFanoutDeliveryUsingRoute G work r s = Some (d, s') \<and> dispatch_ok (dump G) s s')"
    using keep by (simp add: DispatchGroupFanoutDeliveryUsingRoute_def Let_def split: option.split if_split)
  then show ?thesis by auto
qed

text \<open>A batch of dispatches with the routes looked up first is the dispatches one after the other.\<close>

lemma prefetched_route:
  "resolver G = Some R \<Longrightarrow> r = Resolve R (presence G) (if needs_route work then work_recipient work else 0) \<Longrightarrow>
   DispatchGroupFanoutDeliveryUsingRoute G work (Some r) s = DispatchGroupFanoutDelivery G work s"
  by (auto simp: DispatchGroupFanoutDelivery_def DispatchGroupFanoutDeliveryUsingRoute_def needs_route_def)

lemma routed_each:
  "(\<And>work r s. (work, r) \<in> set items \<Longrightarrow> DispatchGroupFanoutDeliveryUsingRoute G work r s = DispatchGroupFanoutDelivery G work s) \<Longrightarrow>
   dispatch_routed G items s = dispatch_each (DispatchGroupFanoutDelivery G) (map fst items) s"
proof (induction items arbitrary: s)
  case (Cons x items)
  obtain work r where x: "x = (work, r)" by fastforce
  have now: "DispatchGroupFanoutDeliveryUsingRoute G work r s = DispatchGroupFanoutDelivery G work s" by (rule Cons.prems) (simp add: x)
  have "dispatch_routed G items s' = dispatch_each (DispatchGroupFanoutDelivery G) (map fst items) s'" for s'
    by (rule Cons.IH) (use Cons.prems in auto)
  with now show ?case by (simp add: x)
qed simp

lemma deliveries_each:
  assumes short: "length items \<le> 256"
    and batch: "\<forall>us. length us \<le> 256 \<longrightarrow> presence_batch G us = map (presence G) us"
  shows "DispatchGroupFanoutDeliveries G items s = dispatch_each (DispatchGroupFanoutDelivery G) items s"
proof (cases "resolver G")
  case None
  with short routed_each [of "map (\<lambda>work. (work, None)) items" G s] show ?thesis
    by (fastforce simp: DispatchGroupFanoutDeliveries_def DispatchGroupFanoutDelivery_def comp_def)
next
  case (Some R)
  let ?u = "\<lambda>work. if needs_route work then work_recipient work else 0"
  have routes: "ResolveBatch R (presence G) (presence_batch G) (map ?u items) = map (\<lambda>work. Resolve R (presence G) (?u work)) items"
    using ResolveBatch_map [of "map ?u items" "presence_batch G" "presence G" R] short batch by (simp add: comp_def)
  let ?z = "zip items (map Some (map (\<lambda>work. Resolve R (presence G) (?u work)) items))"
  have "dispatch_routed G ?z s = dispatch_each (DispatchGroupFanoutDelivery G) (map fst ?z) s"
    by (rule routed_each) (auto simp: set_zip prefetched_route [OF Some])
  with Some short routes show ?thesis by (simp add: DispatchGroupFanoutDeliveries_def Let_def)
qed

lemma dispatch_each_ok:
  assumes "fanout_inv s"
  shows "case dispatch_each (DispatchGroupFanoutDelivery G) items s of
      None \<Rightarrow> \<exists>work\<in>set items. dump G (delivery_of work) = None | Some (rs, s') \<Rightarrow> dispatch_ok (dump G) s s'"
  using assms
proof (induction items arbitrary: s)
  case (Cons work items)
  note one = dispatch_using_route_ok [OF Cons.prems, of G work None, folded DispatchGroupFanoutDelivery_def]
  show ?case
  proof (cases "DispatchGroupFanoutDelivery G work s")
    case None
    with one show ?thesis by simp
  next
    case (Some x)
    obtain d s1 where x: "x = (d, s1)" by fastforce
    with one Some have ok: "dispatch_ok (dump G) s s1" by simp
    then have "fanout_inv s1" by (simp add: dispatch_ok_def)
    from Cons.IH [OF this] ok Some x show ?thesis by (auto split: option.splits intro: dispatch_ok_trans)
  qed
qed (simp add: dispatch_ok_refl)

section \<open>Retries and acknowledgements\<close>

lemma retry_attempt:
  assumes "RegisterRetryAttempt i expected seq n now t = (st, t')"
  shows "st = ReceiverDeliveryRetryRegisterStatus.kRetryRegistered \<Longrightarrow> awaited i seq t' \<and> no_new_attempts {(i, seq)} t t'"
    and "st \<noteq> ReceiverDeliveryRetryRegisterStatus.kRetryRegistered \<Longrightarrow> t' = t"
proof -
  show "st = ReceiverDeliveryRetryRegisterStatus.kRetryRegistered \<Longrightarrow> awaited i seq t' \<and> no_new_attempts {(i, seq)} t t'"
    using assms by (auto simp: RegisterRetryAttempt_def awaited_def attempt_of_def split: if_splits option.splits intro!: no_new_upd [where i = i])
  show "st \<noteq> ReceiverDeliveryRetryRegisterStatus.kRetryRegistered \<Longrightarrow> t' = t"
    using assms by (auto simp: RegisterRetryAttempt_def split: if_splits option.splits)
qed

lemma retry_register_effect:
  assumes inv: "fanout_inv s" and ready: "prepared_ok (dump G) work p b"
  shows "\<exists>registered s'. retry_register G work timed_out p b s = Some (registered, s') \<and> registered_ok (dump G) work s registered s'"
proof -
  obtain st t where reg: "RegisterRetryAttempt (identity_of work) timed_out (pkt_seq p) (receiver_delivery_max_attempts G) (clock_now G) (tracker s) = (st, t)"
    by fastforce
  moreover have "tracker_ok t" using RegisterRetryAttempt_ok [of "tracker s"] inv reg unfolding fanout_inv_def by (metis snd_conv)
  moreover obtain b' where "RetrieveAllAsString b = Some (frame_bytes p, b')"
    using retrieve_all_string [of b] ready by (auto simp: prepared_ok_def)
  ultimately show ?thesis
    using inv ready retry_attempt [OF reg]
    by (cases "st = ReceiverDeliveryRetryRegisterStatus.kRetryRegistered"; cases st)
      (auto simp: retry_register_def registered_ok_def prepared_ok_def fanout_inv_def identity_of_def [symmetric])
qed

lemma ack_effect:
  assumes ok: "tracker_ok t"
  obtains st t' where "Acknowledge i seq t = Some (st, t')" "tracker_ok t'" "no_new_attempts {} t t'"
    "st = kConfirmed \<or> st = kDuplicate \<Longrightarrow> attempt_of i seq t" "awaited i seq t \<Longrightarrow> st = kConfirmed \<and> is_confirmed i t'"
proof -
  obtain st t' where ack: "Acknowledge i seq t = Some (st, t')" "tracker_ok t'" using Acknowledge_ok [OF ok] by blast
  then have t': "t' = tracker_next t (OpAcknowledge i seq)" by (simp add: tracker_next_def)
  have known: "st = kConfirmed \<or> st = kDuplicate \<Longrightarrow> attempt_of i seq t"
    using ack(1) by (auto simp: Acknowledge_def attempt_of_def Let_def split: if_splits option.splits)
  have confirmed: "no_new_attempts {} t t' \<and> is_confirmed i t'" if st: "st = kConfirmed"
  proof -
    obtain e where e: "entries t i = Some e" using known st by (auto simp: attempt_of_def split: option.splits)
    have c: "map_option fst (Acknowledge i seq t) = Some kConfirmed" using ack(1) st by simp
    show ?thesis
      using e by (auto simp: t' Acknowledge_entries [OF ok c e] is_confirmed_def no_new_attempts_def attempt_of_def split: if_splits option.splits)
  qed
  have "no_new_attempts {} t t'" using confirmed Acknowledge_other [OF _ ok, of i seq] ack(1) t' by (cases "st = kConfirmed") auto
  moreover have "st = kConfirmed" if waits: "awaited i seq t"
  proof -
    obtain e where e: "entries t i = Some e" "seq \<in> attempt_seqs e" "\<not> entry_confirmed e" using waits by (auto simp: awaited_def split: option.splits)
    then have "Valid i" "seq \<noteq> 0" using ok by (auto simp: tracker_ok_def entries_ok_def entry_ok_def)
    with e Acknowledge_confirmed_iff [OF ok, of i seq] ack(1) show ?thesis by auto
  qed
  ultimately show thesis using that ack known confirmed by blast
qed

section \<open>Runs\<close>

text \<open>Any number of submissions and retries in progress on any threads: a prepared packet that is still to be registered (for a retry
  with the sequence number that timed out), or a registered frame whose \<open>Send\<close> is still to come.\<close>

datatype InFlight = Prepared GroupDeliveryWork "u32 option" Packet Buffer | Sending u64 "byte list"

record 'g FanoutRun =
  gateway :: "'g FanoutState"
  in_flight :: "InFlight list"

datatype 'g FanoutOp = FSubmit "'g FanoutGateway" GroupDeliveryWork | FTimeout "'g FanoutGateway" GroupDeliveryWork u32
  | FRegister "'g FanoutGateway" nat | FSend nat | FAck "u64 option" u32 "u64 option" bool "u64 option" | FPrivate TrackerOp

definition without :: "nat \<Rightarrow> 'a list \<Rightarrow> 'a list" where
  "without k xs = take k xs @ drop (Suc k) xs"

definition start_submission :: "'g FanoutGateway \<Rightarrow> GroupDeliveryWork \<Rightarrow> u32 option \<Rightarrow> 'g FanoutRun \<Rightarrow> 'g FanoutRun option" where
  "start_submission G work retry r =
     map_option (\<lambda>(prepared, s). r\<lparr>gateway := s,
         in_flight := (case prepared of Inl _ \<Rightarrow> in_flight r | Inr (p, out) \<Rightarrow> in_flight r @ [Prepared work retry p out])\<rparr>)
       (submit_prepare G work retry (gateway r))"

definition register_submission :: "'g FanoutGateway \<Rightarrow> nat \<Rightarrow> 'g FanoutRun \<Rightarrow> 'g FanoutRun option" where
  "register_submission G k r =
     (if k < length (in_flight r) then
        case in_flight r ! k of
          Sending _ _ \<Rightarrow> Some r
        | Prepared work retry p out \<Rightarrow>
            map_option (\<lambda>(registered, s). r\<lparr>gateway := s, in_flight := (case registered of
                Inl _ \<Rightarrow> without k (in_flight r)
              | Inr (p, bytes) \<Rightarrow> (in_flight r)[k := Sending (work_recipient work) bytes])\<rparr>)
              (case retry of None \<Rightarrow> submit_register G work p out (gateway r)
               | Some timed_out \<Rightarrow> retry_register G work timed_out p out (gateway r))
      else Some r)"

definition send_frame :: "nat \<Rightarrow> 'g FanoutRun \<Rightarrow> 'g FanoutRun" where
  "send_frame k r =
     (if k < length (in_flight r) then
        case in_flight r ! k of
          Sending u bytes \<Rightarrow> r\<lparr>gateway := submit_send u bytes (gateway r), in_flight := without k (in_flight r)\<rparr>
        | Prepared _ _ _ _ \<Rightarrow> r
      else r)"

text \<open>The tracker is also that of the private deliveries, whose calls are made for identities of the other domain.\<close>

definition private_call :: "TrackerOp \<Rightarrow> 'g FanoutRun \<Rightarrow> 'g FanoutRun" where
  "private_call op r =
     (if domain (op_identity op) = kPrivateMessage then r\<lparr>gateway := (gateway r)\<lparr>tracker := tracker_next (tracker (gateway r)) op\<rparr>\<rparr> else r)"

fun fanout_step :: "'g FanoutOp \<Rightarrow> 'g FanoutRun \<Rightarrow> 'g FanoutRun option" where
  "fanout_step (FSubmit G work) r = start_submission G work None r"
| "fanout_step (FTimeout G work timed_out) r =
     (if timeout_due G work timed_out (gateway r) then start_submission G work (Some timed_out) r else Some r)"
| "fanout_step (FRegister G k) r = register_submission G k r"
| "fanout_step (FSend k) r = Some (send_frame k r)"
| "fanout_step (FAck ack seq receiver client_set durable) r =
     map_option (\<lambda>s. r\<lparr>gateway := s\<rparr>) (ExecuteGroupMessageDeliveryAck ack seq receiver client_set durable (gateway r))"
| "fanout_step (FPrivate op) r = Some (private_call op r)"

text \<open>A submission that is not interleaved with others is the three steps in a row.\<close>

lemma without_append [simp]: "without (length xs) (xs @ [x]) = xs"
  by (simp add: without_def)

lemma submission_is_steps:
  assumes "SubmitGroupMessageDelivery G work s = Some ((st, e), s')"
  shows "fold_opt fanout_step [FSubmit G work, FRegister G 0, FSend 0] \<lparr>gateway = s, in_flight = []\<rparr> = Some \<lparr>gateway = s', in_flight = []\<rparr>"
proof -
  note defs = SubmitGroupMessageDelivery_def start_submission_def register_submission_def send_frame_def without_def
  obtain prepared s1 where prep: "submit_prepare G work None s = Some (prepared, s1)" using assms by (auto simp: defs split: bind_splits)
  show ?thesis
  proof (cases prepared)
    case (Inl r)
    with prep assms show ?thesis by (simp add: defs)
  next
    case (Inr r)
    obtain p out where r: "r = (p, out)" by fastforce
    obtain registered s2 where "submit_register G work p out s1 = Some (registered, s2)" using assms prep Inr r by (auto simp: defs split: bind_splits)
    with prep assms Inr r show ?thesis by (cases registered) (auto simp: defs)
  qed
qed

lemma timeout_is_steps:
  assumes "HandleGroupMessageDeliveryAckTimeout G work timed_out s = Some s'"
  shows "\<exists>r. fold_opt fanout_step [FTimeout G work timed_out, FRegister G 0, FSend 0] \<lparr>gateway = s, in_flight = []\<rparr> = Some r
    \<and> in_flight r = [] \<and> tracker (gateway r) = tracker s' \<and> sent (gateway r) = sent s' \<and> confirm_requests (gateway r) = confirm_requests s'"
proof (cases "timeout_due G work timed_out s")
  case False
  with assms show ?thesis by (simp add: HandleGroupMessageDeliveryAckTimeout_def register_submission_def send_frame_def)
next
  case due: True
  note defs = SubmitGroupMessageDeliveryRetry_def HandleGroupMessageDeliveryAckTimeout_def ScheduleGroupMessageDeliveryAckTimeout_def
    start_submission_def register_submission_def send_frame_def without_def
  obtain prepared s1 where prep: "submit_prepare G work (Some timed_out) s = Some (prepared, s1)" using assms due by (auto simp: defs split: bind_splits)
  show ?thesis
  proof (cases prepared)
    case (Inl r)
    with prep assms due show ?thesis by (cases r) (auto simp: defs split: if_splits)
  next
    case (Inr r)
    obtain p out where r: "r = (p, out)" by fastforce
    obtain registered s2 where "retry_register G work timed_out p out s1 = Some (registered, s2)"
      using assms due prep Inr r by (auto simp: defs split: bind_splits)
    with prep assms due Inr r show ?thesis by (cases registered) (auto simp: defs split: if_splits)
  qed
qed

fun uses_writer :: "(GroupMessageDelivery \<Rightarrow> byte list option) \<Rightarrow> 'g FanoutOp \<Rightarrow> bool" where
  "uses_writer writer (FSubmit G work) \<longleftrightarrow> dump G = writer"
| "uses_writer writer (FTimeout G work timed_out) \<longleftrightarrow> dump G = writer"
| "uses_writer writer (FRegister G k) \<longleftrightarrow> dump G = writer"
| "uses_writer writer _ \<longleftrightarrow> True"

fun op_works :: "'g FanoutOp \<Rightarrow> GroupDeliveryWork list" where
  "op_works (FSubmit G work) = [work]"
| "op_works (FTimeout G work timed_out) = [work]"
| "op_works _ = []"

definition fanout_start :: "MessageDeliveryDeduplicator \<Rightarrow> nat \<Rightarrow> WindowOptions \<Rightarrow> 'g FanoutState" where
  "fanout_start d n opts = \<lparr>dedup = d, tracker = ReceiverDeliveryTracker_new n opts, next_receiver_delivery_seq = 1, sent = [], forwarded = [],
     ack_timers = [], probes = [], confirm_requests = []\<rparr>"

fun sending :: "InFlight list \<Rightarrow> (u64 \<times> byte list) list" where
  "sending [] = []"
| "sending (Sending u bytes # xs) = (u, bytes) # sending xs"
| "sending (Prepared _ _ _ _ # xs) = sending xs"

lemma in_sending [simp]: "(u, bytes) \<in> set (sending xs) \<longleftrightarrow> Sending u bytes \<in> set xs"
  by (induction xs rule: sending.induct) auto

definition run_inv :: "(GroupMessageDelivery \<Rightarrow> byte list option) \<Rightarrow> 'g FanoutRun \<Rightarrow> bool" where
  "run_inv writer r \<longleftrightarrow> fanout_inv (gateway r)
     \<and> (\<forall>work retry p out. Prepared work retry p out \<in> set (in_flight r) \<longrightarrow> prepared_ok writer work p out)
     \<and> (\<forall>i q. domain i = kGroupMessage \<longrightarrow> attempt_of i q (tracker (gateway r)) \<longrightarrow> framed writer (sent (gateway r) @ sending (in_flight r)) i q)
     \<and> (\<forall>(m, u, q)\<in>set (confirm_requests (gateway r)). framed writer (sent (gateway r) @ sending (in_flight r)) (GroupDeliveryIdentity m u) q)"

text \<open>A step that only adds frames to what is sent or being sent keeps the invariant when new attempts have their frames.\<close>

lemma run_inv_more:
  assumes "run_inv writer r" and "fanout_inv (gateway r')" and "confirm_requests (gateway r') = confirm_requests (gateway r)"
    and "set (sent (gateway r) @ sending (in_flight r)) \<subseteq> set (sent (gateway r') @ sending (in_flight r'))"
    and "\<And>work retry p out. Prepared work retry p out \<in> set (in_flight r') \<Longrightarrow> Prepared work retry p out \<in> set (in_flight r) \<or> prepared_ok writer work p out"
    and "\<And>i q. domain i = kGroupMessage \<Longrightarrow> attempt_of i q (tracker (gateway r')) \<Longrightarrow>
      attempt_of i q (tracker (gateway r)) \<or> framed writer (sent (gateway r') @ sending (in_flight r')) i q"
  shows "run_inv writer r'"
  unfolding run_inv_def
proof (intro conjI allI impI)
  note inv = assms(1) [unfolded run_inv_def]
  show "fanout_inv (gateway r')" by (rule assms(2))
  show "prepared_ok writer work p out" if "Prepared work retry p out \<in> set (in_flight r')" for work retry p out
    using assms(5) [OF that] inv by blast
  show "framed writer (sent (gateway r') @ sending (in_flight r')) i q"
    if "domain i = kGroupMessage" "attempt_of i q (tracker (gateway r'))" for i q
    using assms(6) [OF that] inv that(1) framed_mono [OF _ assms(4)] by blast
  show "\<forall>(m, u, q)\<in>set (confirm_requests (gateway r')). framed writer (sent (gateway r') @ sending (in_flight r')) (GroupDeliveryIdentity m u) q"
    unfolding assms(3) using inv framed_mono [OF _ assms(4)] by blast
qed

lemma start_submission_inv:
  assumes inv: "run_inv (dump G) r"
  shows "case start_submission G work retry r of None \<Rightarrow> dump G (delivery_of work) = None | Some r' \<Rightarrow> run_inv (dump G) r'"
proof (cases "submit_prepare G work retry (gateway r)")
  case None
  with prepare_effect [where G = G and work = work and retry = retry and s = "gateway r"] show ?thesis by (simp add: start_submission_def)
next
  case (Some x)
  obtain prepared s where x: "x = (prepared, s)" by fastforce
  with Some prepare_effect [where G = G and work = work and retry = retry and s = "gateway r"] obtain n where
    s: "s = (gateway r)\<lparr>next_receiver_delivery_seq := n\<rparr>" "case prepared of Inl (st, e) \<Rightarrow> st \<noteq> kSubmitted | Inr (p, out) \<Rightarrow> prepared_ok (dump G) work p out"
    by auto
  have append: "sending (xs @ [Prepared work retry p out]) = sending xs" for xs p out by (induction xs rule: sending.induct) simp_all
  have "fanout_inv s" using inv by (simp add: run_inv_def s(1) fanout_inv_def)
  with Some x s show ?thesis
    by (cases prepared) (auto simp: start_submission_def append intro!: run_inv_more [OF inv])
qed

lemma set_without: "set (without k xs) \<subseteq> set xs"
  by (auto simp: without_def dest: in_set_takeD in_set_dropD)

lemma mem_without:
  assumes "k < length xs" and "x \<in> set xs" and "x \<noteq> xs ! k"
  shows "x \<in> set (without k xs)"
proof -
  have "set xs = set (take k xs @ xs ! k # drop (Suc k) xs)" using id_take_nth_drop [OF assms(1)] by simp
  with assms(2,3) show ?thesis by (auto simp: without_def)
qed

lemma sending_update:
  assumes "k < length xs" and "\<And>u bytes. xs ! k \<noteq> Sending u bytes"
  shows "set (sending xs) \<subseteq> set (sending (xs[k := y]))" and "set (sending xs) \<subseteq> set (sending (without k xs))"
proof -
  show "set (sending xs) \<subseteq> set (sending (without k xs))"
    using assms mem_without [OF assms(1)] by (auto simp: subset_iff) metis
  have "Sending u bytes \<in> set (xs[k := y])" if "Sending u bytes \<in> set xs" for u bytes
    using that assms by (metis in_set_conv_nth length_list_update nth_list_update_neq)
  then show "set (sending xs) \<subseteq> set (sending (xs[k := y]))" by auto
qed

lemma register_submission_inv:
  assumes inv: "run_inv (dump G) r"
  shows "\<exists>r'. register_submission G k r = Some r' \<and> run_inv (dump G) r'"
proof (cases "k < length (in_flight r) \<and> (\<exists>work retry p out. in_flight r ! k = Prepared work retry p out)")
  case False
  with inv show ?thesis by (auto simp: register_submission_def split: InFlight.split)
next
  case True
  then obtain work retry p out where k: "k < length (in_flight r)" "in_flight r ! k = Prepared work retry p out" by blast
  then have "Prepared work retry p out \<in> set (in_flight r)" by (metis nth_mem)
  then have ready: "prepared_ok (dump G) work p out" and g: "fanout_inv (gateway r)" using inv by (auto simp: run_inv_def)
  obtain registered s where reg: "(case retry of None \<Rightarrow> submit_register G work p out (gateway r)
      | Some timed_out \<Rightarrow> retry_register G work timed_out p out (gateway r)) = Some (registered, s)" "registered_ok (dump G) work (gateway r) registered s"
    using register_effect [OF g ready] retry_register_effect [OF g ready, of "the retry"] by (cases retry) auto
  define fl where "fl = (case registered of Inl _ \<Rightarrow> without k (in_flight r) | Inr (p, bytes) \<Rightarrow> (in_flight r)[k := Sending (work_recipient work) bytes])"
  have "register_submission G k r = Some (r\<lparr>gateway := s, in_flight := fl\<rparr>)" using k reg(1) by (simp add: register_submission_def fl_def)
  moreover have "run_inv (dump G) (r\<lparr>gateway := s, in_flight := fl\<rparr>)"
  proof (rule run_inv_more [OF inv])
    have s: "s = (gateway r)\<lparr>tracker := tracker s\<rparr>" using reg(2) by (simp add: registered_ok_def)
    have sent: "sent s = sent (gateway r)" by (subst s) simp
    show "fanout_inv (gateway (r\<lparr>gateway := s, in_flight := fl\<rparr>))" using reg(2) by (simp add: registered_ok_def)
    show "confirm_requests (gateway (r\<lparr>gateway := s, in_flight := fl\<rparr>)) = confirm_requests (gateway r)" by (subst s) simp
    have sub: "set (sending (in_flight r)) \<subseteq> set (sending fl)"
      using sending_update [OF k(1)] k(2) by (auto simp: fl_def split: sum.split)
    then show "set (sent (gateway r) @ sending (in_flight r)) \<subseteq> set (sent (gateway (r\<lparr>gateway := s, in_flight := fl\<rparr>)) @ sending (in_flight (r\<lparr>gateway := s, in_flight := fl\<rparr>)))"
      by (auto simp: sent)
    show "Prepared work' retry' p' out' \<in> set (in_flight r) \<or> prepared_ok (dump G) work' p' out'"
      if "Prepared work' retry' p' out' \<in> set (in_flight (r\<lparr>gateway := s, in_flight := fl\<rparr>))" for work' retry' p' out'
      using that set_without [of k "in_flight r"] set_update_subset_insert [of "in_flight r" k] by (fastforce simp: fl_def split: sum.splits prod.splits)
    show "attempt_of i q (tracker (gateway r)) \<or> framed (dump G) (sent (gateway (r\<lparr>gateway := s, in_flight := fl\<rparr>)) @ sending (in_flight (r\<lparr>gateway := s, in_flight := fl\<rparr>))) i q"
      if "attempt_of i q (tracker (gateway (r\<lparr>gateway := s, in_flight := fl\<rparr>)))" for i q
    proof (cases registered)
      case (Inl x)
      with that reg(2) show ?thesis by (auto simp: registered_ok_def no_new_attempts_def split: prod.splits)
    next
      case (Inr x)
      obtain p' bytes where x: "x = (p', bytes)" by fastforce
      have "Sending (work_recipient work) bytes \<in> set fl" using k(1) by (simp add: fl_def Inr x set_update_memI)
      with that reg(2) Inr x show ?thesis by (auto simp: registered_ok_def no_new_attempts_def framed_def)
    qed
  qed
  ultimately show ?thesis by blast
qed

lemma send_frame_inv:
  assumes inv: "run_inv writer r"
  shows "run_inv writer (send_frame k r)"
proof (cases "k < length (in_flight r) \<and> (\<exists>u bytes. in_flight r ! k = Sending u bytes)")
  case False
  with inv show ?thesis by (auto simp: send_frame_def split: InFlight.split)
next
  case True
  then obtain u bytes where k: "k < length (in_flight r)" "in_flight r ! k = Sending u bytes" by blast
  have "Sending v b \<in> set (in_flight r) \<Longrightarrow> (v, b) = (u, bytes) \<or> Sending v b \<in> set (without k (in_flight r))" for v b
    using mem_without [OF k(1)] k(2) by auto
  moreover have "send_frame k r = r\<lparr>gateway := submit_send u bytes (gateway r), in_flight := without k (in_flight r)\<rparr>"
    using k by (simp add: send_frame_def)
  moreover have "fanout_inv (submit_send u bytes (gateway r))" using inv by (simp add: run_inv_def fanout_inv_def submit_send_def)
  ultimately show ?thesis
    using set_without [of k "in_flight r"] by (intro run_inv_more [OF inv]) (auto simp: submit_send_def, blast+)
qed

lemma ack_inv:
  assumes inv: "run_inv writer r"
  shows "\<exists>s. ExecuteGroupMessageDeliveryAck ack seq receiver client_set durable (gateway r) = Some s \<and> run_inv writer (r\<lparr>gateway := s\<rparr>)"
proof (cases "\<exists>m u. ack = Some m \<and> receiver = Some u \<and> client_set \<and> durable = Some u")
  case False
  with inv show ?thesis by (auto simp: ExecuteGroupMessageDeliveryAck_def split: option.splits)
next
  case True
  then obtain m u where args: "ack = Some m" "receiver = Some u" client_set "durable = Some u" by blast
  have ok: "tracker_ok (tracker (gateway r))" using inv by (simp add: run_inv_def fanout_inv_def)
  obtain st t where t: "Acknowledge (GroupDeliveryIdentity m u) seq (tracker (gateway r)) = Some (st, t)" "tracker_ok t" "no_new_attempts {} (tracker (gateway r)) t"
    "st = kConfirmed \<or> st = kDuplicate \<Longrightarrow> attempt_of (GroupDeliveryIdentity m u) seq (tracker (gateway r))"
    using ack_effect [OF ok] by metis
  moreover have "domain (GroupDeliveryIdentity m u) = kGroupMessage" by (simp add: GroupDeliveryIdentity_def)
  ultimately show ?thesis
    using inv args by (auto simp: ExecuteGroupMessageDeliveryAck_def Let_def run_inv_def fanout_inv_def no_new_attempts_def)
qed

lemma attempt_of_knows: "attempt_of i q t \<longleftrightarrow> knows_attempt t i q"
  by (auto simp: attempt_of_def knows_attempt_def split: option.split)

lemma registered_identity: "registered_attempt t op = Some (i, q) \<Longrightarrow> i = op_identity op"
  by (cases op) (auto split: option.splits if_splits)

lemma private_call_inv: "run_inv writer r \<Longrightarrow> run_inv writer (private_call op r)"
proof (cases "domain (op_identity op) = kPrivateMessage")
  case True
  assume inv: "run_inv writer r"
  have ok: "tracker_ok (tracker (gateway r))" using inv by (simp add: run_inv_def fanout_inv_def)
  show ?thesis
    using True tracker_next_ok [OF ok] tracker_next_knows [OF ok] registered_identity
    by (intro run_inv_more [OF inv]) (auto simp: private_call_def fanout_inv_def attempt_of_knows, fastforce)
qed (simp add: private_call_def)

lemma run_inv_step:
  assumes inv: "run_inv writer r" and writer: "uses_writer writer op"
  shows "case fanout_step op r of None \<Rightarrow> \<exists>work\<in>set (op_works op). writer (delivery_of work) = None | Some r' \<Rightarrow> run_inv writer r'"
proof (cases op)
  case (FSubmit G work)
  with writer inv start_submission_inv [of G r work None] show ?thesis by (auto split: option.splits)
next
  case (FTimeout G work timed_out)
  with writer inv start_submission_inv [of G r work "Some timed_out"] show ?thesis by (auto split: option.splits)
next
  case (FRegister G k)
  with writer inv register_submission_inv [of G r k] show ?thesis by auto
next
  case (FSend k)
  with inv send_frame_inv show ?thesis by simp
next
  case (FAck ack seq receiver client_set durable)
  with ack_inv [OF inv, of ack seq receiver client_set durable] show ?thesis by auto
next
  case (FPrivate top)
  with inv private_call_inv show ?thesis by simp
qed

lemma run_inv_run:
  assumes "run_inv writer r" and "list_all (uses_writer writer) ops"
  shows "case fold_opt fanout_step ops r of None \<Rightarrow> \<exists>work\<in>set (concat (map op_works ops)). writer (delivery_of work) = None | Some r' \<Rightarrow> run_inv writer r'"
  using assms
proof (induction ops arbitrary: r)
  case (Cons op ops)
  show ?case
  proof (cases "fanout_step op r")
    case None
    with run_inv_step [OF Cons.prems(1), of op] Cons.prems(2) show ?thesis by auto
  next
    case (Some r1)
    with run_inv_step [OF Cons.prems(1), of op] Cons.prems(2) have "run_inv writer r1" by simp
    from Cons.IH [OF this] Cons.prems(2) Some show ?thesis by (auto split: option.splits)
  qed
qed simp

section \<open>The coordinator's thread and the wake-up after a commit\<close>

text \<open>\<open>Run\<close> in both of its forms. \<open>enabled\<close> is \<open>GroupFanoutCommitWakeEnabled\<close>, true only if the environment variable is \<open>1\<close>. With it a
  commit of new rows counts the generation up under the mutex and notifies the thread afterwards; the thread claims, drains a
  bounded number of times, and waits on the condition variable: it tests the predicate with the mutex held (\<open>RunWait\<close>), still holds the
  mutex when the predicate is false (\<open>RunTested\<close>), and gives the mutex up when it blocks (\<open>RunBlocked\<close>). Without it the thread polls,
  in slices of 25 ms (\<open>RunPoll\<close> counts them). \<open>notifying\<close> counts the threads between the change of the generation and \<open>notify_one\<close>;
  \<open>commits\<close> (all commits so far), \<open>claimed\<close> (the commits before the last claim) and \<open>burst\<close> (the claims since the last wait) are
  observations.\<close>

datatype WakePc = RunTop | RunClaim | RunDecide nat | RunWait bool | RunTested bool | RunBlocked bool | RunPoll nat | RunExited

record WakeRun =
  wake_pc :: WakePc
  generation :: u64
  observed :: u64
  full_batches :: nat
  coordinator_running :: bool  \<comment> \<open>\<open>running_\<close>\<close>
  stop_requested :: bool
  notifying :: nat
  commits :: nat
  claimed :: nat
  burst :: nat

text \<open>A commit of rows: the guarded change of the generation, and \<open>notify_one\<close>.\<close>

definition NotifyGroupFanoutCommitted :: "bool \<Rightarrow> WakeRun \<Rightarrow> WakeRun" where
  "NotifyGroupFanoutCommitted enabled s =
     (let s = s\<lparr>commits := commits s + 1\<rparr>
      in if \<not> enabled then s else s\<lparr>generation := generation s + 1, notifying := notifying s + 1\<rparr>)"

definition wake_thread :: "WakeRun \<Rightarrow> WakeRun" where
  "wake_thread s = (case wake_pc s of RunBlocked drain \<Rightarrow> s\<lparr>wake_pc := RunWait drain\<rparr> | _ \<Rightarrow> s)"

definition Notify_one :: "WakeRun \<Rightarrow> WakeRun" where
  "Notify_one s = wake_thread (s\<lparr>notifying := notifying s - 1\<rparr>)"

definition Run_start :: "nat \<Rightarrow> WakeRun" where
  "Run_start n = \<lparr>wake_pc = RunTop, generation = of_nat n, observed = of_nat n, full_batches = 0, coordinator_running = True, stop_requested = False,
     notifying = 0, commits = n, claimed = 0, burst = 0\<rparr>"

definition should_stop :: "WakeRun \<Rightarrow> bool" where
  "should_stop s \<longleftrightarrow> stop_requested s \<or> \<not> coordinator_running s"

definition Run_top :: "WakeRun \<Rightarrow> WakeRun" where
  "Run_top s = s\<lparr>wake_pc := (if should_stop s then RunExited else RunClaim)\<rparr>"

definition Run_claim :: "nat \<Rightarrow> WakeRun \<Rightarrow> WakeRun" where
  "Run_claim processed s = s\<lparr>wake_pc := RunDecide processed, claimed := commits s, burst := burst s + 1\<rparr>"

definition Run_decide :: "bool \<Rightarrow> nat \<Rightarrow> bool \<Rightarrow> nat \<Rightarrow> WakeRun \<Rightarrow> WakeRun" where
  "Run_decide enabled batch partial_drain processed s =
     (if \<not> enabled then s\<lparr>wake_pc := RunPoll 0\<rparr>
      else
        let full = (processed \<ge> min batch 256);
            drain = (full \<or> (partial_drain \<and> processed \<noteq> 0));
            n = (if drain then full_batches s + 1 else full_batches s)
        in if drain \<and> n < 4 then s\<lparr>full_batches := n, wake_pc := RunTop\<rparr> else s\<lparr>full_batches := n, wake_pc := RunWait drain\<rparr>)"

definition wait_predicate :: "bool \<Rightarrow> WakeRun \<Rightarrow> bool" where
  "wait_predicate drain s \<longleftrightarrow> should_stop s \<or> (\<not> drain \<and> generation s \<noteq> observed s)"

definition Run_woken :: "WakeRun \<Rightarrow> WakeRun" where
  "Run_woken s = s\<lparr>observed := generation s, full_batches := 0, wake_pc := RunTop, burst := 0\<rparr>"

definition Run_test :: "bool \<Rightarrow> WakeRun \<Rightarrow> WakeRun" where
  "Run_test drain s = (if wait_predicate drain s then Run_woken s else s\<lparr>wake_pc := RunTested drain\<rparr>)"

text \<open>One turn of the inner loop of the polling form. A slice lasts at least 25 ms, so that the deadline is reached after the slices
  that fill \<open>interval\<close>, or before (\<open>late\<close>).\<close>

definition Run_poll :: "nat \<Rightarrow> bool \<Rightarrow> nat \<Rightarrow> WakeRun \<Rightarrow> WakeRun" where
  "Run_poll interval late k s =
     (if stop_requested s \<or> late \<or> 25 * k \<ge> interval then s\<lparr>wake_pc := RunTop, burst := 0\<rparr> else s\<lparr>wake_pc := RunPoll (k + 1)\<rparr>)"

text \<open>The steps of the thread, of the threads that commit and of \<open>Stop\<close>, which does not take the mutex. A block ends by a
  notification, spuriously, or when its time is over.\<close>

inductive wake_step :: "bool \<Rightarrow> nat \<Rightarrow> bool \<Rightarrow> nat \<Rightarrow> WakeRun \<Rightarrow> WakeRun \<Rightarrow> bool" for enabled batch partial_drain interval where
  commit: "(\<And>drain. wake_pc s \<noteq> RunTested drain) \<Longrightarrow> wake_step enabled batch partial_drain interval s (NotifyGroupFanoutCommitted enabled s)"
| notify: "notifying s > 0 \<Longrightarrow> wake_step enabled batch partial_drain interval s (Notify_one s)"
| stop_running: "wake_step enabled batch partial_drain interval s (s\<lparr>coordinator_running := False\<rparr>)"
| stop_request: "\<not> coordinator_running s \<Longrightarrow> wake_step enabled batch partial_drain interval s (s\<lparr>stop_requested := True\<rparr>)"
| stop_notify: "stop_requested s \<Longrightarrow> wake_step enabled batch partial_drain interval s (wake_thread s)"
| top: "wake_pc s = RunTop \<Longrightarrow> wake_step enabled batch partial_drain interval s (Run_top s)"
| claim: "wake_pc s = RunClaim \<Longrightarrow> wake_step enabled batch partial_drain interval s (Run_claim processed s)"
| decide: "wake_pc s = RunDecide processed \<Longrightarrow> wake_step enabled batch partial_drain interval s (Run_decide enabled batch partial_drain processed s)"
| test: "wake_pc s = RunWait drain \<Longrightarrow> wake_step enabled batch partial_drain interval s (Run_test drain s)"
| block: "wake_pc s = RunTested drain \<Longrightarrow> wake_step enabled batch partial_drain interval s (s\<lparr>wake_pc := RunBlocked drain\<rparr>)"
| spurious: "wake_pc s = RunBlocked drain \<Longrightarrow> wake_step enabled batch partial_drain interval s (wake_thread s)"
| time_over: "wake_pc s = RunBlocked drain \<Longrightarrow> wake_step enabled batch partial_drain interval s (Run_woken s)"
| poll: "wake_pc s = RunPoll k \<Longrightarrow> wake_step enabled batch partial_drain interval s (Run_poll interval late k s)"

lemmas wake_defs = NotifyGroupFanoutCommitted_def wake_thread_def Notify_one_def Run_top_def Run_claim_def Run_decide_def Run_woken_def Run_test_def
  Run_poll_def wait_predicate_def

definition wake_inv :: "nat \<Rightarrow> WakeRun \<Rightarrow> bool" where
  "wake_inv seen s \<longleftrightarrow> generation s = of_nat (commits s) \<and> observed s = of_nat seen \<and> seen \<le> commits s \<and> claimed s \<le> commits s
     \<and> (case wake_pc s of
          RunDecide _ \<Rightarrow> seen \<le> claimed s \<and> full_batches s \<le> 3 \<and> burst s = full_batches s + 1
        | RunWait _ \<Rightarrow> seen \<le> claimed s \<and> burst s \<le> 4
        | RunTested drain \<Rightarrow> seen \<le> claimed s \<and> burst s \<le> 4 \<and> (drain \<or> generation s = observed s)
        | RunBlocked drain \<Rightarrow> seen \<le> claimed s \<and> burst s \<le> 4 \<and> (drain \<or> generation s = observed s \<or> notifying s > 0)
        | RunPoll _ \<Rightarrow> False
        | _ \<Rightarrow> full_batches s \<le> 3 \<and> burst s = full_batches s)"

lemma wake_inv_step: "wake_step True batch partial_drain interval s s' \<Longrightarrow> wake_inv seen s \<Longrightarrow> \<exists>seen. wake_inv seen s'"
proof (induction rule: wake_step.induct)
  case (test s drain)
  then have "wake_inv (if wait_predicate drain s then commits s else seen) (Run_test drain s)" by (simp add: wake_inv_def wake_defs)
  then show ?case ..
next
  case (time_over s drain)
  then have "wake_inv (commits s) (Run_woken s)" by (simp add: wake_inv_def wake_defs)
  then show ?case ..
next
  case (commit s)
  then have "wake_inv seen (NotifyGroupFanoutCommitted True s)" by (auto simp: wake_inv_def wake_defs Let_def split: WakePc.splits)
  then show ?case ..
next
  case (decide s processed)
  then have "wake_inv seen (Run_decide True batch partial_drain processed s)" by (auto simp: wake_inv_def wake_defs Let_def)
  then show ?case ..
next
  case (notify s)
  then have "wake_inv seen (Notify_one s)" by (auto simp: wake_inv_def wake_defs split: WakePc.splits)
  then show ?case ..
next
  case (stop_notify s)
  then have "wake_inv seen (wake_thread s)" by (auto simp: wake_inv_def wake_defs split: WakePc.splits)
  then show ?case ..
next
  case (spurious s drain)
  then have "wake_inv seen (wake_thread s)" by (simp add: wake_inv_def wake_defs)
  then show ?case ..
next
  case (claim s processed)
  then have "wake_inv seen (Run_claim processed s)" by (simp add: wake_inv_def wake_defs)
  then show ?case ..
next
  case (top s)
  then have "wake_inv seen (Run_top s)" by (simp add: wake_inv_def wake_defs)
  then show ?case ..
next
  case (block s drain)
  then have "wake_inv seen (s\<lparr>wake_pc := RunBlocked drain\<rparr>)" by (auto simp: wake_inv_def)
  then show ?case ..
next
  case (stop_running s)
  then have "wake_inv seen (s\<lparr>coordinator_running := False\<rparr>)" by (auto simp: wake_inv_def split: WakePc.splits)
  then show ?case ..
next
  case (stop_request s)
  then have "wake_inv seen (s\<lparr>stop_requested := True\<rparr>)" by (auto simp: wake_inv_def split: WakePc.splits)
  then show ?case ..
next
  case (poll s k late)
  then show ?case by (simp add: wake_inv_def)
qed

lemma wake_inv_start: "wake_inv n (Run_start n)"
  by (simp add: wake_inv_def Run_start_def)

lemma wake_inv_reach: "(wake_step True batch partial_drain interval)\<^sup>*\<^sup>* s s' \<Longrightarrow> wake_inv seen s \<Longrightarrow> \<exists>seen. wake_inv seen s'"
  by (induction rule: rtranclp_induct) (auto dest: wake_inv_step)

text \<open>With the wake-up off: the thread only polls, and the number of its slices is bounded.\<close>

definition poll_inv :: "nat \<Rightarrow> WakeRun \<Rightarrow> bool" where
  "poll_inv interval s \<longleftrightarrow> (case wake_pc s of RunWait _ \<Rightarrow> False | RunTested _ \<Rightarrow> False | RunBlocked _ \<Rightarrow> False
     | RunPoll k \<Rightarrow> 25 * k < interval + 25 \<and> burst s = 1 | RunDecide _ \<Rightarrow> burst s = 1 | _ \<Rightarrow> burst s = 0)"

lemma poll_inv_step: "wake_step False batch partial_drain interval s s' \<Longrightarrow> poll_inv interval s \<Longrightarrow> poll_inv interval s'"
  by (induction rule: wake_step.induct) (auto simp: poll_inv_def wake_defs Let_def split: WakePc.splits)

lemma poll_inv_reach: "(wake_step False batch partial_drain interval)\<^sup>*\<^sup>* (Run_start n) s \<Longrightarrow> poll_inv interval s"
  by (induction rule: rtranclp_induct) (auto simp: Run_start_def poll_inv_def dest: poll_inv_step)

section \<open>The JSON writer\<close>

text \<open>Well-formed UTF-8 (Unicode 15, table 3-7). The writer of the JSON library is documented to throw (\<open>type_error.316\<close>) when a string it
  has to write is not; for well-formed strings it returns a text.\<close>

definition utf8_tail :: "nat \<Rightarrow> bool" where
  "utf8_tail b \<longleftrightarrow> 128 \<le> b \<and> b \<le> 191"

fun valid_utf8 :: "nat list \<Rightarrow> bool" where
  "valid_utf8 [] \<longleftrightarrow> True"
| "valid_utf8 (a # bs) \<longleftrightarrow>
     (if a \<le> 127 then valid_utf8 bs
      else if 194 \<le> a \<and> a \<le> 223 then (case bs of b # r \<Rightarrow> utf8_tail b \<and> valid_utf8 r | _ \<Rightarrow> False)
      else if 224 \<le> a \<and> a \<le> 239 then
        (case bs of b # c # r \<Rightarrow> utf8_tail b \<and> (a = 224 \<longrightarrow> 160 \<le> b) \<and> (a = 237 \<longrightarrow> b \<le> 159) \<and> utf8_tail c \<and> valid_utf8 r | _ \<Rightarrow> False)
      else if 240 \<le> a \<and> a \<le> 244 then
        (case bs of b # c # d # r \<Rightarrow> utf8_tail b \<and> (a = 240 \<longrightarrow> 144 \<le> b) \<and> (a = 244 \<longrightarrow> b \<le> 143) \<and> utf8_tail c \<and> utf8_tail d \<and> valid_utf8 r
         | _ \<Rightarrow> False)
      else False)"

definition utf8_text :: "string \<Rightarrow> bool" where
  "utf8_text s \<longleftrightarrow> valid_utf8 (map of_char s)"

definition json_writer :: "(GroupMessageDelivery \<Rightarrow> byte list option) \<Rightarrow> bool" where
  "json_writer writer \<longleftrightarrow> (\<forall>v. utf8_text (delivery_content v) \<and> utf8_text (delivery_created_at v) \<longrightarrow> writer v \<noteq> None)"

definition utf8_row :: "GroupDeliveryWork \<Rightarrow> bool" where
  "utf8_row work \<longleftrightarrow> utf8_text (work_content work) \<and> utf8_text (work_created_at work)"

lemma json_writer_row: "json_writer writer \<Longrightarrow> writer (delivery_of work) = None \<Longrightarrow> \<not> utf8_row work"
  unfolding json_writer_def utf8_row_def by (drule spec [of _ "delivery_of work"]) (simp add: delivery_of_def)

section \<open>Properties\<close>

text \<open>C7: one iteration of the coordinator has the same effect on the gateway and reports the same outcomes in every configuration of the
  batching switches. Either dispatching the valid claimed rows one after the other raises an exception, and then the iteration raises
  one in every configuration (nothing catches it, the process ends; how many rows were answered before depends on the configuration).
  Or it does not, and then in every configuration each claimed row that is valid is dispatched exactly once, in order; each is
  answered exactly once, in order, with the token of the claim; the results and the gateway's state are those of dispatching the rows
  one after the other, and the deduplicator is as before. The only exception is that of the JSON writer: there is none when the texts
  of the rows are well-formed UTF-8.\<close>

theorem fanout_modes_agree:
  fixes G :: "'g FanoutGateway"
  assumes inv: "fanout_inv s" and m: "callbacks_valid m"
    and presence: "presence G = GetOnlineStatus C l now r" "presence_batch G = GetOnlineStatusBatch C l now r"
    and fault: "\<forall>effect e. fault l = Some (effect, e) \<longrightarrow> e \<noteq> []"
  shows "(case dispatch_each (DispatchGroupFanoutDelivery G) (filter work_valid items) s of
      None \<Rightarrow> RunOneIteration opts m token (Some items) (DispatchGroupFanoutDelivery G) (DispatchGroupFanoutDeliveries G) s = None
    | Some (rs, s') \<Rightarrow> length rs = length (filter work_valid items) \<and> fanout_inv s' \<and> dedup s' = dedup s
        \<and> (\<exists>calls. RunOneIteration opts m token (Some items) (DispatchGroupFanoutDelivery G) (DispatchGroupFanoutDeliveries G) s = Some (length items, calls, s')
          \<and> all_dispatched calls = filter work_valid items
          \<and> all_completed calls = map2 (completion_of opts token) (filter work_valid items) rs))
    \<and> (json_writer (dump G) \<and> (\<forall>work\<in>set items. work_valid work \<longrightarrow> utf8_row work)
        \<longrightarrow> dispatch_each (DispatchGroupFanoutDelivery G) (filter work_valid items) s \<noteq> None)"
proof -
  let ?f = "DispatchGroupFanoutDelivery G" and ?g = "DispatchGroupFanoutDeliveries G"
  let ?each = "dispatch_each ?f (filter work_valid items) s"
  note effect = dispatch_each_ok [OF inv, where G = G and items = "filter work_valid items"]
  have batch: "\<forall>us. length us \<le> 256 \<longrightarrow> presence_batch G us = map (presence G) us"
    using get_batch_map [OF _ fault] by (simp add: presence)
  have "DispatchGroupFanoutDeliveries G (filter work_valid items) s = ?each" if "uses_batch opts m items"
    using that length_filter_le [of work_valid items] by (intro deliveries_each [OF _ batch]) (auto simp: uses_batch_def simp del: length_filter_le elim: le_trans)
  moreover have "map_option (apfst (fixed_results (length (filter work_valid items)))) ?each = ?each"
    using dispatch_each_length [of "DispatchGroupFanoutDelivery G" "filter work_valid items" s] by (cases ?each) (auto simp: fixed_results_def)
  ultimately have step: "(if uses_batch opts m items then map_option (apfst (fixed_results (length (filter work_valid items)))) (DispatchGroupFanoutDeliveries G (filter work_valid items) s)
       else ?each) = ?each" by simp
  have "?each \<noteq> None" if "json_writer (dump G)" "\<forall>work\<in>set items. work_valid work \<longrightarrow> utf8_row work"
    using effect that json_writer_row [of "dump G"] by (auto split: option.splits)
  moreover have "case ?each of
      None \<Rightarrow> RunOneIteration opts m token (Some items) (DispatchGroupFanoutDelivery G) (DispatchGroupFanoutDeliveries G) s = None
    | Some (rs, s') \<Rightarrow> length rs = length (filter work_valid items) \<and> fanout_inv s' \<and> dedup s' = dedup s
        \<and> (\<exists>calls. RunOneIteration opts m token (Some items) (DispatchGroupFanoutDelivery G) (DispatchGroupFanoutDeliveries G) s = Some (length items, calls, s')
          \<and> all_dispatched calls = filter work_valid items
          \<and> all_completed calls = map2 (completion_of opts token) (filter work_valid items) rs)"
  proof (cases ?each)
    case None
    with iteration_raises [where dispatch = ?f and dispatch_batch = ?g, OF m trans [OF step None]] show ?thesis by simp
  next
    case (Some x)
    obtain rs s' where x: "x = (rs, s')" by fastforce
    from iteration_effect [where dispatch = ?f and dispatch_batch = ?g, OF m trans [OF step Some [unfolded x]]] effect dispatch_each_length [OF Some [unfolded x]] show ?thesis
      by (simp add: Some x dispatch_ok_def)
  qed
  ultimately show ?thesis by blast
qed

text \<open>C8: a durable confirmation for a group message, a recipient and a sequence number is requested only if a frame with this message and this
  sequence number was handed to the recipient's connection, or was registered by a submission that is about to hand it over. This
  holds whatever submissions, retries after timeouts, acknowledgements and private deliveries on the same tracker are in progress
  on however many threads, and in whatever order their steps (prepare, register, send) interleave. The only exception
  a step can raise is that of the JSON writer, for a row whose texts are not well-formed UTF-8.\<close>

theorem group_confirm_needs_frame:
  fixes ops :: "'g FanoutOp list"
  assumes "json_writer writer" and "list_all (uses_writer writer) ops"
  shows "case fold_opt fanout_step ops \<lparr>gateway = fanout_start d n opts, in_flight = []\<rparr> of
      None \<Rightarrow> \<exists>work\<in>set (concat (map op_works ops)). \<not> utf8_row work
    | Some r \<Rightarrow> \<forall>(m, u, q)\<in>set (confirm_requests (gateway r)). \<exists>work p. work_message_id work = m \<and> work_recipient work = u
        \<and> delivers writer work p \<and> pkt_seq p = q
        \<and> ((u, frame_bytes p) \<in> set (sent (gateway r)) \<or> Sending u (frame_bytes p) \<in> set (in_flight r))"
proof -
  have "run_inv writer (\<lparr>gateway = fanout_start d n opts, in_flight = []\<rparr> :: 'g FanoutRun)"
    by (simp add: run_inv_def fanout_start_def fanout_inv_def attempt_of_def tracker_new_fields)
  note run = run_inv_run [OF this assms(2)]
  show ?thesis
  proof (cases "fold_opt fanout_step ops \<lparr>gateway = fanout_start d n opts, in_flight = []\<rparr>")
    case None
    from run obtain work where w: "work \<in> set (concat (map op_works ops))" "writer (delivery_of work) = None" unfolding None by auto
    show ?thesis unfolding None option.case using json_writer_row [OF assms(1) w(2)] w(1) by blast
  next
    case (Some r)
    have "\<exists>work p. work_message_id work = m \<and> work_recipient work = u \<and> delivers writer work p \<and> pkt_seq p = q
        \<and> ((u, frame_bytes p) \<in> set (sent (gateway r)) \<or> Sending u (frame_bytes p) \<in> set (in_flight r))"
      if "(m, u, q) \<in> set (confirm_requests (gateway r))" for m u q
    proof -
      have "framed writer (sent (gateway r) @ sending (in_flight r)) (GroupDeliveryIdentity m u) q"
        using run Some that by (auto simp: run_inv_def)
      then show ?thesis by (auto simp: framed_def identity_of_def GroupDeliveryIdentity_def)
    qed
    with Some show ?thesis by auto
  qed
qed

text \<open>C20: a submission that reports success has handed exactly one frame to the recipient's connection, and the acknowledgement of this
  frame by the recipient is accepted: it requests the durable confirmation and the tracker counts the delivery as confirmed. Any other
  submission sends nothing. (A submission whose row the JSON writer refuses has no result: the exception leaves it.)\<close>

theorem submitted_frame_confirms:
  assumes inv: "fanout_inv s" and submit: "SubmitGroupMessageDelivery G work s = Some ((st, e), s')"
  shows "if st = kSubmitted
    then \<exists>p s''. delivers (dump G) work p \<and> sent s' = sent s @ [(work_recipient work, frame_bytes p)]
      \<and> ExecuteGroupMessageDeliveryAck (Some (work_message_id work)) (pkt_seq p) (Some (work_recipient work)) True (Some (work_recipient work)) s' = Some s''
      \<and> confirm_requests s'' = confirm_requests s @ [(work_message_id work, work_recipient work, pkt_seq p)]
      \<and> is_confirmed (GroupDeliveryIdentity (work_message_id work) (work_recipient work)) (tracker s'')
    else sent s' = sent s"
proof -
  have ok: "submission_ok G work s st s'" using submit_effect [OF inv, of G work] submit by simp
  show ?thesis
  proof (cases "st = kSubmitted")
    case True
    with ok obtain p where p: "delivers (dump G) work p" "sent s' = sent s @ [(work_recipient work, frame_bytes p)]"
      "awaited (identity_of work) (pkt_seq p) (tracker s')" by (auto simp: submission_ok_def)
    obtain st' t where "Acknowledge (identity_of work) (pkt_seq p) (tracker s') = Some (st', t)"
      "awaited (identity_of work) (pkt_seq p) (tracker s') \<Longrightarrow> st' = kConfirmed \<and> is_confirmed (identity_of work) t"
      using ack_effect [of "tracker s'"] ok unfolding submission_ok_def fanout_inv_def by metis
    with p True ok show ?thesis by (auto simp: ExecuteGroupMessageDeliveryAck_def identity_of_def submission_ok_def intro!: exI [where x = p])
  qed (use ok in \<open>simp add: submission_ok_def\<close>)
qed

text \<open>C28: when the commit wake-up is switched on, no commit is slept through. While there is a commit newer than the last claim, the
  thread is not about to block in the long wait (of the recovery interval), if it tests the predicate of this wait the predicate
  holds, and if it is already blocked there some thread is between its change of the generation and its notification; so the only
  wait that a newer commit does not cut short is the pause of 25 ms after a burst of claims, and a burst has at most four. When the
  wake-up is switched off (the default) the thread never waits on the condition variable: it claims, and polls again after at
  most as many slices of 25 ms as cover the recovery interval.\<close>

theorem fanout_wake_not_lost:
  assumes "(wake_step enabled batch partial_drain interval)\<^sup>*\<^sup>* (Run_start n) s" and "commits s < 2 ^ 64"
  shows "if enabled
    then burst s \<le> 4
      \<and> (claimed s < commits s \<longrightarrow> wake_pc s \<noteq> RunTested False \<and> (wake_pc s = RunWait False \<longrightarrow> wait_predicate False s)
           \<and> (wake_pc s = RunBlocked False \<longrightarrow> notifying s > 0))
    else burst s \<le> 1 \<and> (\<forall>drain. wake_pc s \<noteq> RunWait drain \<and> wake_pc s \<noteq> RunTested drain \<and> wake_pc s \<noteq> RunBlocked drain)
      \<and> (\<forall>k. wake_pc s = RunPoll k \<longrightarrow> 25 * k < interval + 25)"
proof (cases enabled)
  case True
  then obtain seen where inv: "wake_inv seen s"
    using wake_inv_reach [OF assms(1) [unfolded eqTrueI [OF True]] wake_inv_start] by blast
  have "generation s \<noteq> observed s" if "seen < commits s"
    using inv assms(2) that by (simp add: wake_inv_def word_of_nat_eq_iff take_bit_nat_eq_self)
  with inv True show ?thesis by (cases "wake_pc s") (auto simp: wake_inv_def wait_predicate_def)
next
  case False
  then have "poll_inv interval s" using poll_inv_reach assms(1) by auto
  with False show ?thesis by (cases "wake_pc s") (auto simp: poll_inv_def)
qed

section \<open>Concrete instances\<close>

text \<open>A gateway without resolver whose recipients are connected, with a writer that refuses texts that are not UTF-8, and a row of a group
  message for user 2.\<close>

definition demo_gateway :: "nat FanoutGateway" where
  "demo_gateway = \<lparr>own_gateway_id = ''A'', resolver = None, presence = GetOnlineStatus demo_cache demo_link 5 Map.empty,
     presence_batch = GetOnlineStatusBatch demo_cache demo_link 5 Map.empty, connected = (\<lambda>_ _. True),
     dump = (\<lambda>v. if utf8_text (delivery_content v) \<and> utf8_text (delivery_created_at v) then Some [123] else None),
     codec = \<lparr>max_body_size = 4\<rparr>, enable_durable_private_recovery = False, clock_now = 0, clock_uncertainty = 0, transport_set = False,
     forward_group = (\<lambda>_ _ _. False), instance_gateway_id = (\<lambda>_. ''B''), receiver_delivery_max_attempts = 3, receiver_ack_timeout = 1,
     timer_scheduled = True\<rparr>"

definition demo_row :: GroupDeliveryWork where
  "demo_row = \<lparr>work_message_id = 7, work_group_id = 5, work_from_user_id = 1, work_message_type = 1, work_content = ''x'', work_created_at = '''',
     work_delivery_message_id = 7, work_delivery_group_id = 5, work_recipient = 2, work_state = GroupPending\<rparr>"

definition demo_fanout :: "nat FanoutState" where
  "demo_fanout = fanout_start (MessageDeliveryDeduplicator_new 1) 1 small_window"

lemma demo_hyps: "fanout_inv demo_fanout" "json_writer (dump demo_gateway)" "utf8_row demo_row"
proof -
  show "fanout_inv demo_fanout" by (simp add: demo_fanout_def fanout_start_def fanout_inv_def)
  show "json_writer (dump demo_gateway)" by (simp add: json_writer_def demo_gateway_def)
  show "utf8_row demo_row" by code_simp
qed

lemma demo_writer: "dump demo_gateway (delivery_of demo_row) = Some [123]"
  using demo_hyps(3) by (simp add: demo_gateway_def utf8_row_def delivery_of_def)

definition demo_packet :: Packet where
  "demo_packet = \<lparr>pkt_type = kGroupMessageDelivery, pkt_flags = 0, pkt_seq = 1, pkt_body = [123]\<rparr>"

lemma demo_prepare:
  obtains b b' where "submit_prepare demo_gateway demo_row None (demo_fanout\<lparr>dedup := d\<rparr>)
      = Some (Inr (demo_packet, b), demo_fanout\<lparr>dedup := d, next_receiver_delivery_seq := 2\<rparr>)"
    "ReadableBytes b = 21" "RetrieveAllAsString b = Some (frame_bytes demo_packet, b')"
proof -
  have "ValidatePacketForEncode \<lparr>max_body_size = 4\<rparr> demo_packet = None"
    by (simp add: demo_packet_def ValidatePacketForEncode_def IsKnownMessageType_def known_message_types_def)
  from Encode_spec [OF buffer_ok_new this, of kInitialSize] obtain b where
    b: "Encode \<lparr>max_body_size = 4\<rparr> demo_packet (Some (Buffer_new kInitialSize)) = Some (Inr b)" "buffer_ok b" "readable b = frame_bytes demo_packet" by auto
  have bytes: "ReadableBytes b = 21" using length_readable [OF b(2)] b(3) by (simp add: frame_bytes_def demo_packet_def)
  obtain b' where r: "RetrieveAllAsString b = Some (frame_bytes demo_packet, b')" using retrieve_all_string [OF b(2)] b(3) by auto
  have "BuildGroupMessageDeliveryPacket (dump demo_gateway) demo_row 1 = Some (Inr demo_packet, 2)"
    using demo_writer
    by (simp add: BuildGroupMessageDeliveryPacket_def SerializeGroupMessageDelivery_def demo_row_def ValidateDelivery_def delivery_of_def
        NextReceiverDeliverySeq_def demo_packet_def)
  then have "submit_prepare demo_gateway demo_row None (demo_fanout\<lparr>dedup := d\<rparr>)
      = Some (Inr (demo_packet, b), demo_fanout\<lparr>dedup := d, next_receiver_delivery_seq := 2\<rparr>)"
    using b(1) by (simp add: submit_prepare_def demo_fanout_def fanout_start_def demo_gateway_def)
  with bytes r that show thesis by blast
qed

lemma demo_register:
  assumes "ReadableBytes b = 21" and "RetrieveAllAsString b = Some (frame_bytes demo_packet, b')"
  shows "\<exists>s'. submit_register demo_gateway demo_row demo_packet b (demo_fanout\<lparr>dedup := d, next_receiver_delivery_seq := 2\<rparr>)
      = Some (Inr (demo_packet, frame_bytes demo_packet), s') \<and> sent s' = [] \<and> confirm_requests s' = []
    \<and> map_option fst (Acknowledge (GroupDeliveryIdentity 7 2) 1 (tracker s')) = Some kConfirmed"
  using assms
  by (simp add: submit_register_def demo_gateway_def demo_row_def demo_fanout_def fanout_start_def register_group_attempt_def tracker_eval
      GroupDeliveryIdentity_def) (simp add: demo_packet_def)

lemma demo_submits: "\<exists>s'. SubmitGroupMessageDelivery demo_gateway demo_row (demo_fanout\<lparr>dedup := d\<rparr>) = Some ((kSubmitted, ''''), s')"
proof -
  obtain b b' where b: "submit_prepare demo_gateway demo_row None (demo_fanout\<lparr>dedup := d\<rparr>)
      = Some (Inr (demo_packet, b), demo_fanout\<lparr>dedup := d, next_receiver_delivery_seq := 2\<rparr>)"
    "ReadableBytes b = 21" "RetrieveAllAsString b = Some (frame_bytes demo_packet, b')" by (rule demo_prepare)
  from demo_register [OF b(2,3), of d] b(1) show ?thesis by (auto simp: SubmitGroupMessageDelivery_def)
qed

theorem submitted_frame_confirms_witness:
  "\<exists>s' p s''. SubmitGroupMessageDelivery demo_gateway demo_row demo_fanout = Some ((kSubmitted, ''''), s') \<and> sent s' = [(2, frame_bytes p)]
     \<and> ExecuteGroupMessageDeliveryAck (Some 7) (pkt_seq p) (Some 2) True (Some 2) s' = Some s'' \<and> is_confirmed (GroupDeliveryIdentity 7 2) (tracker s'')"
proof -
  obtain s' where submit: "SubmitGroupMessageDelivery demo_gateway demo_row demo_fanout = Some ((kSubmitted, ''''), s')"
    using demo_submits [of "dedup demo_fanout"] by auto
  have "sent demo_fanout = []" "work_message_id demo_row = 7" "work_recipient demo_row = 2" by (simp_all add: demo_fanout_def fanout_start_def demo_row_def)
  with submitted_frame_confirms [OF demo_hyps(1) submit] submit show ?thesis by auto
qed

text \<open>The acknowledgement comes between the registration of the frame and its \<open>Send\<close>.\<close>

theorem group_confirm_needs_frame_witness:
  "\<exists>r. fold_opt fanout_step [FSubmit demo_gateway demo_row, FRegister demo_gateway 0, FAck (Some 7) 1 (Some 2) True (Some 2)]
        \<lparr>gateway = demo_fanout, in_flight = []\<rparr> = Some r
     \<and> confirm_requests (gateway r) = [(7, 2, 1)] \<and> sent (gateway r) = [] \<and> (\<exists>p. pkt_seq p = 1 \<and> Sending 2 (frame_bytes p) \<in> set (in_flight r))"
proof -
  let ?ops = "[FSubmit demo_gateway demo_row, FRegister demo_gateway 0, FAck (Some 7) 1 (Some 2) True (Some 2)]"
  obtain b b' where b: "submit_prepare demo_gateway demo_row None (demo_fanout\<lparr>dedup := dedup demo_fanout\<rparr>)
      = Some (Inr (demo_packet, b), demo_fanout\<lparr>dedup := dedup demo_fanout, next_receiver_delivery_seq := 2\<rparr>)"
    "ReadableBytes b = 21" "RetrieveAllAsString b = Some (frame_bytes demo_packet, b')" by (rule demo_prepare)
  from demo_register [OF b(2,3), of "dedup demo_fanout"] obtain s' t where s': "submit_register demo_gateway demo_row demo_packet b
      (demo_fanout\<lparr>next_receiver_delivery_seq := 2\<rparr>) = Some (Inr (demo_packet, frame_bytes demo_packet), s')"
    "sent s' = []" "confirm_requests s' = []" "Acknowledge (GroupDeliveryIdentity 7 2) 1 (tracker s') = Some (kConfirmed, t)" by auto
  have run: "fold_opt fanout_step ?ops \<lparr>gateway = demo_fanout, in_flight = []\<rparr>
      = Some \<lparr>gateway = s'\<lparr>tracker := t, confirm_requests := [(7, 2, 1)]\<rparr>, in_flight = [Sending (work_recipient demo_row) (frame_bytes demo_packet)]\<rparr>"
    using b(1) s' by (simp add: start_submission_def register_submission_def ExecuteGroupMessageDeliveryAck_def)
  have "list_all (uses_writer (dump demo_gateway)) ?ops" by simp
  from group_confirm_needs_frame [OF demo_hyps(2) this, of "MessageDeliveryDeduplicator_new 1" 1 small_window] run s'(2)
  show ?thesis unfolding demo_fanout_def [symmetric] by auto
qed

theorem fanout_modes_agree_witness:
  "let opts = \<lparr>fanout_gateway_id = ''A'', batch_size = 64, lease_ms = 5000, submitted_retry_ms = 3000, failure_retry_ms = 1000\<rparr>;
       m = \<lparr>callbacks_valid = True, defer_enabled = True, route_batch_enabled = True, completion_batch_enabled = True, dispatch_batch_set = True, complete_batch_set = True\<rparr>
   in \<exists>calls s'. RunOneIteration opts m ''t'' (Some [demo_row]) (DispatchGroupFanoutDelivery demo_gateway) (DispatchGroupFanoutDeliveries demo_gateway) demo_fanout
       = Some (1, calls, s') \<and> all_dispatched calls = [demo_row] \<and> length (all_completed calls) = 1"
proof -
  have valid: "filter work_valid [demo_row] = [demo_row]" by (simp add: work_valid_def demo_row_def)
  have read: "presence demo_gateway = GetOnlineStatus demo_cache demo_link 5 Map.empty" "presence_batch demo_gateway = GetOnlineStatusBatch demo_cache demo_link 5 Map.empty"
    "\<forall>effect e. fault demo_link = Some (effect, e) \<longrightarrow> e \<noteq> []"
    by (simp_all add: demo_gateway_def demo_link_def)
  define opts where "opts = \<lparr>fanout_gateway_id = ''A'', batch_size = 64, lease_ms = 5000, submitted_retry_ms = 3000, failure_retry_ms = 1000\<rparr>"
  define m where "m = \<lparr>callbacks_valid = True, defer_enabled = True, route_batch_enabled = True, completion_batch_enabled = True, dispatch_batch_set = True, complete_batch_set = True\<rparr>"
  have "callbacks_valid m" by (simp add: m_def)
  from fanout_modes_agree [OF demo_hyps(1) this read, where items = "[demo_row]" and opts = opts and token = "''t''"] demo_hyps(2,3) obtain rs s' calls where "length rs = 1"
    "RunOneIteration opts m ''t'' (Some [demo_row]) (DispatchGroupFanoutDelivery demo_gateway) (DispatchGroupFanoutDeliveries demo_gateway) demo_fanout = Some (1, calls, s')"
    "all_dispatched calls = [demo_row]" "all_completed calls = map2 (completion_of opts ''t'') [demo_row] rs"
    unfolding valid by (auto split: option.splits)
  then show ?thesis by (auto simp: opts_def [symmetric] m_def [symmetric] Let_def)
qed

text \<open>A commit arrives while the thread is blocked in the long wait.\<close>

theorem fanout_wake_not_lost_witness:
  "let s = (Run_test False (Run_decide True 64 False 0 (Run_claim 0 (Run_top (Run_start 3)))))\<lparr>wake_pc := RunBlocked False\<rparr>;
       s' = NotifyGroupFanoutCommitted True s
   in wake_pc s = RunBlocked False \<and> notifying s = 0 \<and> notifying s' > 0 \<and> wait_predicate False (Notify_one s')"
proof -
  let ?a = "Run_top (Run_start 3)" and ?b = "Run_claim 0 (Run_top (Run_start 3))"
  let ?c = "Run_decide True 64 False 0 ?b"
  let ?d = "Run_test False ?c"
  let ?e = "?d\<lparr>wake_pc := RunBlocked False\<rparr>"
  let ?f = "NotifyGroupFanoutCommitted True ?e"
  note eval = wake_defs Run_start_def should_stop_def Let_def
  have "wake_step True 64 False 1000 (Run_start 3) ?a" by (rule wake_step.top) (simp add: Run_start_def)
  moreover have "wake_step True 64 False 1000 ?a ?b" by (rule wake_step.claim) (simp add: eval)
  moreover have "wake_step True 64 False 1000 ?b ?c" by (rule wake_step.decide) (simp add: Run_claim_def)
  moreover have "wake_step True 64 False 1000 ?c ?d" by (rule wake_step.test) (simp add: eval)
  moreover have "wake_step True 64 False 1000 ?d ?e" by (rule wake_step.block) (simp add: eval)
  moreover have "wake_step True 64 False 1000 ?e ?f" by (rule wake_step.commit) simp
  ultimately have reach: "(wake_step True 64 False 1000)\<^sup>*\<^sup>* (Run_start 3) ?f" by (meson converse_rtranclp_into_rtranclp rtranclp.rtrancl_refl)
  have "commits ?f < 2 ^ 64" "claimed ?f < commits ?f" "wake_pc ?f = RunBlocked False" by (simp_all add: eval)
  with fanout_wake_not_lost [OF reach] have "notifying ?f > 0" by simp
  then show ?thesis unfolding Let_def by (simp add: eval)
qed

end
