(* ===== verification/Online_Maintenance.thy ===== *)
theory Online_Maintenance
  imports Online_Status "HOL-Library.Multiset"
begin

text \<open>
  The maintenance of the presence entries, \<open>gateway/OnlineStatusMaintenance.h\<close>: jobs that refresh the entry of a session are accepted up
  to a bound, gathered into batches by a collector thread and processed by worker threads, which screen each job, call the cache once
  for the batch (\<open>RefreshOnlineIfMatchBatch\<close> of \<open>Online_Status\<close>) and report each result.

  The threads are cut into events at the points where they take or release the mutex or call user code; the answers of the probes
  and callbacks and of the cache are arguments of the events, an exception is one of them. \<open>std::condition_variable\<close>: an event whose
  condition does not hold changes nothing. Time is in milliseconds, with \<open>0\<close> for the default time point. Identifiers of jobs and the
  fields \<open>admitted\<close>, \<open>ended\<close> and \<open>reported\<close> are observations.
\<close>

section \<open>State\<close>

record MaintenanceOptions =
  opt_workers :: nat
  opt_max_pending :: nat
  opt_max_batch :: nat
  flush_delay :: int
  default_deadline :: int

record MaintenanceJob =
  job_id :: nat
  job_request :: OnlineStatusRefreshRequest
  job_deadline :: int
  job_probe :: bool     \<comment> \<open>whether \<open>still_valid\<close> is set\<close>
  job_callback :: bool  \<comment> \<open>whether \<open>finished\<close> is set\<close>

datatype SubmitStatus = SubmitAccepted | SubmitOverloaded | SubmitShuttingDown | SubmitInvalidArgument

datatype Terminal = TermCompleted | TermDeadline | TermCancelledIo | TermCancelledCallback | TermWorkerException | TermCompletionException

record MaintenanceStats =
  st_submitted :: nat
  st_accepted :: nat
  st_rejected_overload :: nat
  st_rejected_shutdown :: nat
  st_rejected_invalid :: nat
  st_completed :: nat
  st_deadline :: nat
  st_cancelled_io :: nat
  st_cancelled_callback :: nat
  st_worker_exception :: nat
  st_completion_exception :: nat
  st_batch_calls :: nat
  st_batch_items :: nat
  st_results :: "RefreshOnlineIfMatchStatus \<Rightarrow> nat"
  st_pending :: int
  st_peak_pending :: int
  st_max_observed_batch :: nat

definition Terminals :: "MaintenanceStats \<Rightarrow> nat" where
  "Terminals t = st_completed t + st_deadline t + st_cancelled_io t + st_cancelled_callback t + st_worker_exception t + st_completion_exception t"

text \<open>A worker waits, screens the jobs of a batch (those left, those found valid), settles the results, or has returned.\<close>

datatype MaintenanceWorker = Waiting | Screening "MaintenanceJob list" "MaintenanceJob list"
  | Settling "(MaintenanceJob \<times> RefreshOnlineIfMatchStatus) list" | Left

record Maintenance =
  om_options :: MaintenanceOptions
  om_refresh :: bool
  om_started :: bool
  om_accepting :: bool
  om_stopping :: bool
  om_collector_done :: bool
  om_input :: "(MaintenanceJob \<times> int) list"
  om_ready :: "MaintenanceJob list list"
  om_workers :: "MaintenanceWorker list"
  om_stats :: MaintenanceStats
  admitted :: "nat list"
  ended :: "(nat \<times> Terminal) list"
  reported :: "(nat \<times> RefreshOnlineIfMatchStatus) list"

definition Maintenance_new :: "MaintenanceOptions \<Rightarrow> bool \<Rightarrow> Maintenance" where
  "Maintenance_new opts refresh_set = \<lparr>om_options = opts, om_refresh = refresh_set, om_started = False, om_accepting = False, om_stopping = False,
     om_collector_done = False, om_input = [], om_ready = [], om_workers = [],
     om_stats = \<lparr>st_submitted = 0, st_accepted = 0, st_rejected_overload = 0, st_rejected_shutdown = 0, st_rejected_invalid = 0,
       st_completed = 0, st_deadline = 0, st_cancelled_io = 0, st_cancelled_callback = 0, st_worker_exception = 0, st_completion_exception = 0,
       st_batch_calls = 0, st_batch_items = 0, st_results = (\<lambda>_. 0), st_pending = 0, st_peak_pending = 0, st_max_observed_batch = 0\<rparr>,
     admitted = [], ended = [], reported = []\<rparr>"

abbreviation tally_stats :: "(MaintenanceStats \<Rightarrow> MaintenanceStats) \<Rightarrow> Maintenance \<Rightarrow> Maintenance" where
  "tally_stats f s \<equiv> s\<lparr>om_stats := f (om_stats s)\<rparr>"

section \<open>Lifecycle\<close>

definition options_good :: "Maintenance \<Rightarrow> bool" where
  "options_good s \<longleftrightarrow> (let o' = om_options s in
     om_refresh s \<and> opt_workers o' \<noteq> 0 \<and> opt_workers o' \<le> 8 \<and> opt_max_pending o' \<noteq> 0 \<and> opt_max_batch o' \<noteq> 0 \<and> opt_max_batch o' \<le> 16
     \<and> flush_delay o' > 0 \<and> default_deadline o' > 0)"

text \<open>\<open>threads_up\<close>: every thread could be created. Otherwise those that were created have returned when \<open>Start\<close> does.\<close>

definition om_Start :: "bool \<Rightarrow> Maintenance \<Rightarrow> bool \<times> Maintenance" where
  "om_Start threads_up s =
     (if om_started s \<or> \<not> options_good s then (False, s)
      else if threads_up then (True, s\<lparr>om_started := True, om_workers := replicate (opt_workers (om_options s)) Waiting, om_accepting := True\<rparr>)
      else (False, s\<lparr>om_started := True, om_stopping := True, om_collector_done := True\<rparr>))"

text \<open>The part of \<open>Stop\<close> before the threads are joined.\<close>

definition om_Stop :: "Maintenance \<Rightarrow> Maintenance" where
  "om_Stop s = s\<lparr>om_accepting := False, om_stopping := True\<rparr>"

text \<open>The threads have returned, so \<open>Stop\<close> does.\<close>

definition om_joined :: "Maintenance \<Rightarrow> bool" where
  "om_joined s \<longleftrightarrow> (om_started s \<longrightarrow> om_collector_done s \<and> list_all (\<lambda>w. w = Left) (om_workers s))"

section \<open>Submitting\<close>

definition om_TrySubmit :: "int \<Rightarrow> MaintenanceJob \<Rightarrow> Maintenance \<Rightarrow> SubmitStatus \<times> Maintenance" where
  "om_TrySubmit now job s0 =
     (let s = tally_stats (st_submitted_update Suc) s0; q = job_request job in
      if req_user_id q = 0 \<or> req_gateway_id q = [] \<or> req_connection_name q = [] \<or> req_ttl_seconds q \<le> 0 \<or> \<not> job_probe job
      then (SubmitInvalidArgument, tally_stats (st_rejected_invalid_update Suc) s)
      else if \<not> om_accepting s then (SubmitShuttingDown, tally_stats (st_rejected_shutdown_update Suc) s)
      else if st_pending (om_stats s) \<ge> int (opt_max_pending (om_options s)) then (SubmitOverloaded, tally_stats (st_rejected_overload_update Suc) s)
      else let job' = (if job_deadline job = 0 then job\<lparr>job_deadline := now + default_deadline (om_options s)\<rparr> else job);
               p = st_pending (om_stats s) + 1
           in (SubmitAccepted,
               (tally_stats (\<lambda>t. t\<lparr>st_accepted := Suc (st_accepted t), st_pending := p, st_peak_pending := max (st_peak_pending t) p\<rparr>) s)
                 \<lparr>om_input := om_input s @ [(job', now)], admitted := admitted s @ [job_id job]\<rparr>))"

section \<open>Threads\<close>

definition count_terminal :: "Terminal \<Rightarrow> MaintenanceStats \<Rightarrow> MaintenanceStats" where
  "count_terminal term t = (case term of
       TermCompleted \<Rightarrow> t\<lparr>st_completed := Suc (st_completed t)\<rparr>
     | TermDeadline \<Rightarrow> t\<lparr>st_deadline := Suc (st_deadline t)\<rparr>
     | TermCancelledIo \<Rightarrow> t\<lparr>st_cancelled_io := Suc (st_cancelled_io t)\<rparr>
     | TermCancelledCallback \<Rightarrow> t\<lparr>st_cancelled_callback := Suc (st_cancelled_callback t)\<rparr>
     | TermWorkerException \<Rightarrow> t\<lparr>st_worker_exception := Suc (st_worker_exception t)\<rparr>
     | TermCompletionException \<Rightarrow> t\<lparr>st_completion_exception := Suc (st_completion_exception t)\<rparr>)"

definition om_Finish :: "Terminal \<Rightarrow> MaintenanceJob \<Rightarrow> Maintenance \<Rightarrow> Maintenance" where
  "om_Finish term job s = (tally_stats (\<lambda>t. (count_terminal term t)\<lparr>st_pending := st_pending t - 1\<rparr>) s)
     \<lparr>ended := ended s @ [(job_id job, term)]\<rparr>"

text \<open>One turn of the collector, at the end of its two waits.\<close>

definition om_Collect :: "int \<Rightarrow> Maintenance \<Rightarrow> Maintenance" where
  "om_Collect now s =
     (if \<not> om_started s \<or> om_collector_done s then s
      else case om_input s of
        [] \<Rightarrow> if om_stopping s then s\<lparr>om_collector_done := True\<rparr> else s
      | (job, enqueued) # rest \<Rightarrow>
          if om_stopping s \<or> length (om_input s) \<ge> opt_max_batch (om_options s) \<or> now \<ge> enqueued + flush_delay (om_options s)
          then let count = min (opt_max_batch (om_options s)) (length (om_input s))
               in s\<lparr>om_input := drop count (om_input s), om_ready := om_ready s @ [map fst (take count (om_input s))]\<rparr>
          else s)"

definition om_Work_take :: "nat \<Rightarrow> Maintenance \<Rightarrow> Maintenance" where
  "om_Work_take w s =
     (if w < length (om_workers s) \<and> om_workers s ! w = Waiting then
        (case om_ready s of
           [] \<Rightarrow> if om_collector_done s then s\<lparr>om_workers := (om_workers s)[w := Left]\<rparr> else s
         | batch # rest \<Rightarrow> s\<lparr>om_ready := rest, om_workers := (om_workers s)[w := Screening batch []]\<rparr>)
      else s)"

datatype Answer = Yes | No | Throws

text \<open>The first loop of \<open>Process\<close>, one job at a time.\<close>

definition om_Process_screen :: "nat \<Rightarrow> int \<Rightarrow> Answer \<Rightarrow> Maintenance \<Rightarrow> Maintenance" where
  "om_Process_screen w now valid s =
     (if w < length (om_workers s) then
        (case om_workers s ! w of
           Screening (job # todo) kept \<Rightarrow>
             if now \<ge> job_deadline job then om_Finish TermDeadline job (s\<lparr>om_workers := (om_workers s)[w := Screening todo kept]\<rparr>)
             else (case valid of
                 No \<Rightarrow> om_Finish TermCancelledIo job (s\<lparr>om_workers := (om_workers s)[w := Screening todo kept]\<rparr>)
               | Yes \<Rightarrow> s\<lparr>om_workers := (om_workers s)[w := Screening todo (kept @ [job])]\<rparr>
               | Throws \<Rightarrow> om_Finish TermWorkerException job (s\<lparr>om_workers := (om_workers s)[w := Screening todo kept]\<rparr>))
         | _ \<Rightarrow> s)
      else s)"

text \<open>The call of the cache for the jobs that were kept; \<open>None\<close> is an exception.\<close>

definition om_Process_call :: "nat \<Rightarrow> RefreshOnlineIfMatchStatus list option \<Rightarrow> Maintenance \<Rightarrow> Maintenance" where
  "om_Process_call w results s =
     (if w < length (om_workers s) then
        (case om_workers s ! w of
           Screening [] [] \<Rightarrow> s\<lparr>om_workers := (om_workers s)[w := Waiting]\<rparr>
         | Screening [] (k # kept) \<Rightarrow>
             let valid = k # kept;
                 s1 = tally_stats (\<lambda>t. t\<lparr>st_batch_calls := Suc (st_batch_calls t), st_batch_items := st_batch_items t + length valid,
                   st_max_observed_batch := max (st_max_observed_batch t) (length valid)\<rparr>) s;
                 failed = fold (om_Finish TermWorkerException) valid (s1\<lparr>om_workers := (om_workers s)[w := Waiting]\<rparr>)
             in (case results of
                   None \<Rightarrow> failed
                 | Some rs \<Rightarrow> if length rs \<noteq> length valid then failed
                              else s1\<lparr>om_workers := (om_workers s)[w := Settling (zip valid rs)]\<rparr>)
         | _ \<Rightarrow> s)
      else s)"

definition om_RecordResult :: "RefreshOnlineIfMatchStatus \<Rightarrow> Maintenance \<Rightarrow> Maintenance" where
  "om_RecordResult res s = tally_stats (\<lambda>t. t\<lparr>st_results := (st_results t)(res := Suc (st_results t res))\<rparr>) s"

text \<open>The last loop of \<open>Process\<close>, one result at a time: the answer of the probe and whether the callback returns.\<close>

definition om_Process_settle :: "nat \<Rightarrow> Answer \<Rightarrow> bool \<Rightarrow> Maintenance \<Rightarrow> Maintenance" where
  "om_Process_settle w valid returns s0 =
     (if w < length (om_workers s0) then
        (case om_workers s0 ! w of
           Settling ((job, res) # todo) \<Rightarrow>
             let s = (om_RecordResult res s0)\<lparr>om_workers := (om_workers s0)[w := (if todo = [] then Waiting else Settling todo)]\<rparr> in
             (case valid of
                No \<Rightarrow> om_Finish TermCancelledCallback job s
              | Throws \<Rightarrow> om_Finish TermCompletionException job s
              | Yes \<Rightarrow> if \<not> job_callback job then om_Finish TermCompleted job s
                       else om_Finish (if returns then TermCompleted else TermCompletionException) job (s\<lparr>reported := reported s @ [(job_id job, res)]\<rparr>))
         | _ \<Rightarrow> s0)
      else s0)"

section \<open>Runs\<close>

datatype MaintenanceEvent = EvStart bool | EvStop | EvSubmit int MaintenanceJob | EvCollect int | EvTake nat | EvScreen nat int Answer
  | EvCall nat "RefreshOnlineIfMatchStatus list option" | EvSettle nat Answer bool

fun maintenance_step :: "Maintenance \<Rightarrow> MaintenanceEvent \<Rightarrow> Maintenance" where
  "maintenance_step s (EvStart up) = snd (om_Start up s)"
| "maintenance_step s EvStop = om_Stop s"
| "maintenance_step s (EvSubmit now job) = snd (om_TrySubmit now job s)"
| "maintenance_step s (EvCollect now) = om_Collect now s"
| "maintenance_step s (EvTake w) = om_Work_take w s"
| "maintenance_step s (EvScreen w now valid) = om_Process_screen w now valid s"
| "maintenance_step s (EvCall w results) = om_Process_call w results s"
| "maintenance_step s (EvSettle w valid returns) = om_Process_settle w valid returns s"

section \<open>Every job is accounted for\<close>

fun worker_jobs :: "MaintenanceWorker \<Rightarrow> nat multiset" where
  "worker_jobs (Screening todo kept) = mset (map job_id todo) + mset (map job_id kept)"
| "worker_jobs (Settling todo) = mset (map (job_id \<circ> fst) todo)"
| "worker_jobs _ = {#}"

definition held :: "Maintenance \<Rightarrow> nat multiset" where
  "held s = mset (map (job_id \<circ> fst) (om_input s)) + mset (concat (map (map job_id) (om_ready s))) + sum_list (map worker_jobs (om_workers s))"

definition ended_ids :: "Maintenance \<Rightarrow> nat multiset" where
  "ended_ids s = mset (map fst (ended s))"

definition accounts_ok :: "Maintenance \<Rightarrow> bool" where
  "accounts_ok s \<longleftrightarrow> mset (admitted s) = held s + ended_ids s \<and> st_pending (om_stats s) = int (size (held s))
     \<and> st_accepted (om_stats s) = length (admitted s) \<and> Terminals (om_stats s) = length (ended s)
     \<and> st_pending (om_stats s) \<le> int (opt_max_pending (om_options s)) \<and> st_peak_pending (om_stats s) \<le> int (opt_max_pending (om_options s))"

lemma sum_list_worker_update:
  "w < length ws \<Longrightarrow> sum_list (map f (ws[w := x])) + f (ws ! w) = sum_list (map f ws) + (f x :: 'a multiset)"
  by (induction ws arbitrary: w) (auto simp: ac_simps split: nat.splits)

lemma sum_list_worker_split:
  "w < length ws \<Longrightarrow> sum_list (map f ws) = f (ws ! w) + sum_list (map f (ws[w := x])) - (f x :: 'a multiset)"
  by (metis add.commute add_diff_cancel_right' sum_list_worker_update)

lemma worker_moved:
  assumes "w < length (om_workers s)"
  shows "held (s\<lparr>om_workers := (om_workers s)[w := x]\<rparr>) + worker_jobs (om_workers s ! w) = held s + worker_jobs x"
  using sum_list_worker_update [OF assms, of worker_jobs x] by (simp add: held_def ac_simps)

lemma Terminals_count: "Terminals (count_terminal tm t) = Suc (Terminals t)" "Terminals (t\<lparr>st_pending := p\<rparr>) = Terminals t"
  by (auto simp: Terminals_def count_terminal_def split: Terminal.splits)

lemma count_terminal_keeps:
  "st_accepted (count_terminal tm t) = st_accepted t" "st_peak_pending (count_terminal tm t) = st_peak_pending t" "st_pending (count_terminal tm t) = st_pending t"
  by (auto simp: count_terminal_def split: Terminal.splits)

lemma Finish_simps [simp]:
  "held (om_Finish tm job s) = held s" "admitted (om_Finish tm job s) = admitted s" "om_options (om_Finish tm job s) = om_options s"
  "ended (om_Finish tm job s) = ended s @ [(job_id job, tm)]" "om_workers (om_Finish tm job s) = om_workers s"
  "om_input (om_Finish tm job s) = om_input s" "om_ready (om_Finish tm job s) = om_ready s" "om_stopping (om_Finish tm job s) = om_stopping s"
  "om_accepting (om_Finish tm job s) = om_accepting s" "om_collector_done (om_Finish tm job s) = om_collector_done s" "om_started (om_Finish tm job s) = om_started s"
  "om_refresh (om_Finish tm job s) = om_refresh s"
  by (simp_all add: om_Finish_def held_def)

text \<open>\<open>owes s xs\<close>: the books are right except that the jobs \<open>xs\<close> have left their place and have not been counted as ended yet.\<close>

definition owes :: "Maintenance \<Rightarrow> nat multiset \<Rightarrow> bool" where
  "owes s xs \<longleftrightarrow> mset (admitted s) = held s + xs + ended_ids s \<and> st_pending (om_stats s) = int (size (held s) + size xs)
     \<and> st_accepted (om_stats s) = length (admitted s) \<and> Terminals (om_stats s) = length (ended s)
     \<and> st_pending (om_stats s) \<le> int (opt_max_pending (om_options s)) \<and> st_peak_pending (om_stats s) \<le> int (opt_max_pending (om_options s))"

lemma owes_none: "owes s {#} = accounts_ok s"
  by (simp add: owes_def accounts_ok_def)

lemma owes_Finish: "owes s (add_mset (job_id job) xs) \<Longrightarrow> owes (om_Finish tm job s) xs"
proof -
  assume "owes s (add_mset (job_id job) xs)"
  then show ?thesis
    unfolding owes_def Finish_simps
    by (auto simp: om_Finish_def ended_ids_def Terminals_count count_terminal_keeps)
qed

lemma owes_Finish_all: "owes s (mset (map job_id jobs) + xs) \<Longrightarrow> owes (fold (om_Finish tm) jobs s) xs"
  by (induction jobs arbitrary: s) (auto intro: owes_Finish)

text \<open>A worker moves on: the jobs it no longer has are owed.\<close>

lemma owes_worker:
  assumes "accounts_ok s" and "w < length (om_workers s)" and "worker_jobs (om_workers s ! w) = worker_jobs x + xs"
  shows "owes (s\<lparr>om_workers := (om_workers s)[w := x]\<rparr>) xs"
proof -
  have "held s = held (s\<lparr>om_workers := (om_workers s)[w := x]\<rparr>) + xs" using worker_moved [OF assms(2), of x] assms(3) by (simp add: ac_simps)
  with assms(1) show ?thesis by (simp add: owes_def accounts_ok_def ended_ids_def)
qed

lemma accounts_stats:
  "\<lbrakk>accounts_ok s; st_accepted (f (om_stats s)) = st_accepted (om_stats s); st_pending (f (om_stats s)) = st_pending (om_stats s);
    st_peak_pending (f (om_stats s)) = st_peak_pending (om_stats s); Terminals (f (om_stats s)) = Terminals (om_stats s)\<rbrakk> \<Longrightarrow> accounts_ok (tally_stats f s)"
  by (simp add: accounts_ok_def held_def ended_ids_def)

lemma accounts_cong:
  "\<lbrakk>accounts_ok s; held s' = held s; admitted s' = admitted s; ended s' = ended s; om_stats s' = om_stats s; om_options s' = om_options s\<rbrakk> \<Longrightarrow> accounts_ok s'"
  by (simp add: accounts_ok_def ended_ids_def)

subsection \<open>Each event\<close>

lemma accounts_Submit: "accounts_ok s \<Longrightarrow> accounts_ok (snd (om_TrySubmit now job s))"
  by (auto simp: om_TrySubmit_def Let_def accounts_ok_def held_def ended_ids_def Terminals_def)

lemma sum_list_no_jobs [simp]: "sum_list (replicate n ({#} :: 'a multiset)) = {#}"
  by (induction n) simp_all

lemma accounts_Start: "\<lbrakk>accounts_ok s; \<not> om_started s \<Longrightarrow> om_workers s = []\<rbrakk> \<Longrightarrow> accounts_ok (snd (om_Start up s))"
  by (erule accounts_cong) (auto simp: om_Start_def held_def)

lemma accounts_Stop: "accounts_ok s \<Longrightarrow> accounts_ok (om_Stop s)"
  by (erule accounts_cong) (simp_all add: om_Stop_def held_def)

lemma accounts_Collect: "accounts_ok s \<Longrightarrow> accounts_ok (om_Collect now s)"
proof (erule accounts_cong)
  have "mset (map (job_id \<circ> fst) (drop n xs)) + mset (map job_id (map fst (take n xs))) = mset (map (job_id \<circ> fst) xs)" for n and xs :: "(MaintenanceJob \<times> int) list"
    by (metis append_take_drop_id map_append map_map mset_append union_commute)
  then show "held (om_Collect now s) = held s"
    by (auto simp: om_Collect_def held_def Let_def ac_simps split: list.splits)
qed (auto simp: om_Collect_def Let_def split: list.splits)

lemma accounts_take: "accounts_ok s \<Longrightarrow> accounts_ok (om_Work_take w s)"
proof (erule accounts_cong)
  show "held (om_Work_take w s) = held s"
  proof (cases "w < length (om_workers s) \<and> om_workers s ! w = Waiting")
    case True
    with sum_list_worker_update [of w "om_workers s" worker_jobs] show ?thesis
      by (auto simp: om_Work_take_def held_def ac_simps split: list.splits)
  qed (auto simp: om_Work_take_def)
qed (auto simp: om_Work_take_def split: list.splits)

lemma accounts_screen: "accounts_ok s \<Longrightarrow> accounts_ok (om_Process_screen w now valid s)"
proof (cases "w < length (om_workers s)")
  case True
  assume ok: "accounts_ok s"
  have finish: "accounts_ok (om_Finish tm job (s\<lparr>om_workers := (om_workers s)[w := Screening todo kept]\<rparr>))"
    if "om_workers s ! w = Screening (job # todo) kept" for tm job todo kept
    using owes_Finish [of "s\<lparr>om_workers := (om_workers s)[w := Screening todo kept]\<rparr>" job "{#}" tm]
      owes_worker [OF ok True, of "Screening todo kept" "{#job_id job#}"] that by (simp add: owes_none)
  have keep: "accounts_ok (s\<lparr>om_workers := (om_workers s)[w := Screening todo (kept @ [job])]\<rparr>)"
    if "om_workers s ! w = Screening (job # todo) kept" for job todo kept
    using owes_worker [OF ok True, of "Screening todo (kept @ [job])" "{#}"] that by (simp add: owes_none)
  show ?thesis using ok finish keep
    by (auto simp: om_Process_screen_def split: MaintenanceWorker.splits list.splits Answer.splits)
qed (simp add: om_Process_screen_def)

lemma accounts_call: "accounts_ok s \<Longrightarrow> accounts_ok (om_Process_call w results s)"
proof (cases "w < length (om_workers s)")
  case True
  assume ok: "accounts_ok s"
  let ?f = "\<lambda>n t. t\<lparr>st_batch_calls := Suc (st_batch_calls t), st_batch_items := st_batch_items t + n, st_max_observed_batch := max (st_max_observed_batch t) n\<rparr>"
  have counted: "accounts_ok (tally_stats (?f n) s)" for n by (rule accounts_stats [OF ok]) (simp_all add: Terminals_def)
  have failed: "accounts_ok (fold (om_Finish TermWorkerException) valid ((tally_stats (?f n) s)\<lparr>om_workers := (om_workers s)[w := Waiting]\<rparr>))"
    if "om_workers s ! w = Screening [] valid" for valid n
    using owes_Finish_all [of "(tally_stats (?f n) s)\<lparr>om_workers := (om_workers s)[w := Waiting]\<rparr>" valid "{#}" TermWorkerException]
      owes_worker [OF counted [of n], of w Waiting "mset (map job_id valid)"] that True by (simp add: owes_none)
  have settle: "accounts_ok ((tally_stats (?f n) s)\<lparr>om_workers := (om_workers s)[w := Settling (zip valid rs)]\<rparr>)"
    if "om_workers s ! w = Screening [] valid" "length rs = length valid" for valid rs n
  proof -
    have "map (job_id \<circ> fst) (zip valid rs) = map job_id valid" using that(2) by (metis map_fst_zip map_map)
    then show ?thesis using owes_worker [OF counted [of n], of w "Settling (zip valid rs)" "{#}"] that True by (simp add: owes_none)
  qed
  have idle: "accounts_ok (s\<lparr>om_workers := (om_workers s)[w := Waiting]\<rparr>)" if "om_workers s ! w = Screening [] []"
    using owes_worker [OF ok True, of Waiting "{#}"] that by (simp add: owes_none)
  show ?thesis
  proof (cases "\<exists>k kept. om_workers s ! w = Screening [] (k # kept)")
    case True
    then obtain k kept where at: "om_workers s ! w = Screening [] (k # kept)" by blast
    note fails = failed [OF at, of "length (k # kept)"] and settles = settle [OF at, of _ "length (k # kept)"]
    show ?thesis
    proof (cases "\<exists>rs. results = Some rs \<and> length rs = length (k # kept)")
      case True
      with settles at \<open>w < length (om_workers s)\<close> show ?thesis by (auto simp: om_Process_call_def Let_def simp del: zip_Cons1)
    next
      case False
      with fails at \<open>w < length (om_workers s)\<close> show ?thesis by (auto simp: om_Process_call_def Let_def split: option.splits)
    qed
  next
    case False
    with ok idle show ?thesis by (auto simp: om_Process_call_def split: MaintenanceWorker.splits list.splits)
  qed
qed (simp add: om_Process_call_def)

lemma accounts_settle: "accounts_ok s \<Longrightarrow> accounts_ok (om_Process_settle w valid returns s)"
proof (cases "w < length (om_workers s)")
  case True
  assume ok: "accounts_ok s"
  have counted: "accounts_ok (om_RecordResult res s)" for res
    unfolding om_RecordResult_def by (rule accounts_stats [OF ok]) (simp_all add: Terminals_def)
  have owed: "owes ((om_RecordResult res s)\<lparr>om_workers := (om_workers s)[w := (if todo = [] then Waiting else Settling todo)]\<rparr>) {#job_id job#}"
    if "om_workers s ! w = Settling ((job, res) # todo)" for job res todo
    using owes_worker [OF counted [of res], of w "if todo = [] then Waiting else Settling todo" "{#job_id job#}"] that True
    by (auto simp: om_RecordResult_def)
  have reported: "owes t xs \<Longrightarrow> owes (t\<lparr>reported := ys\<rparr>) xs" for t xs ys by (simp add: owes_def held_def ended_ids_def)
  have finish: "owes t {#job_id job#} \<Longrightarrow> accounts_ok (om_Finish tm job t)" for tm job t
    using owes_Finish [of t job "{#}" tm] by (simp add: owes_none)
  show ?thesis
    using ok owed
    by (auto simp: om_Process_settle_def Let_def intro!: finish reported split: MaintenanceWorker.splits list.splits prod.splits Answer.splits)
qed (simp add: om_Process_settle_def)

subsection \<open>Threads\<close>

definition threads_ok :: "Maintenance \<Rightarrow> bool" where
  "threads_ok s \<longleftrightarrow> (om_workers s = [] \<longrightarrow> om_input s = [] \<and> om_ready s = [] \<and> \<not> om_accepting s)
     \<and> (om_started s \<longrightarrow> options_good s) \<and> (\<not> om_started s \<longrightarrow> om_workers s = [] \<and> \<not> om_stopping s \<and> \<not> om_collector_done s)
     \<and> (om_accepting s \<longrightarrow> \<not> om_stopping s) \<and> (om_collector_done s \<longrightarrow> om_stopping s \<and> om_input s = [])
     \<and> (Left \<in> set (om_workers s) \<longrightarrow> om_collector_done s \<and> om_ready s = [])
     \<and> Settling [] \<notin> set (om_workers s)"

definition ordered_stop :: "Maintenance \<Rightarrow> MaintenanceEvent \<Rightarrow> bool" where
  "ordered_stop s ev \<longleftrightarrow> (ev = EvStop \<longrightarrow> om_started s)"

lemma options_good_cong: "\<lbrakk>om_options s' = om_options s; om_refresh s' = om_refresh s\<rbrakk> \<Longrightarrow> options_good s' = options_good s"
  by (simp add: options_good_def)

lemma threads_Start: "threads_ok s \<Longrightarrow> threads_ok (snd (om_Start up s))"
  by (auto simp: om_Start_def threads_ok_def options_good_def Let_def)

lemma threads_Stop: "\<lbrakk>threads_ok s; om_started s\<rbrakk> \<Longrightarrow> threads_ok (om_Stop s)"
  by (auto simp: om_Stop_def threads_ok_def options_good_def)

lemma threads_Submit: "threads_ok s \<Longrightarrow> threads_ok (snd (om_TrySubmit now job s))"
  by (auto simp: om_TrySubmit_def threads_ok_def options_good_def Let_def)

lemma threads_Collect: "threads_ok s \<Longrightarrow> threads_ok (om_Collect now s)"
  by (auto simp: om_Collect_def threads_ok_def options_good_def Let_def split: list.splits)

lemma threads_take: "threads_ok s \<Longrightarrow> threads_ok (om_Work_take w s)"
  by (auto simp: om_Work_take_def threads_ok_def options_good_def split: list.splits dest!: set_update_subset_insert [THEN subsetD])

text \<open>A worker that holds a batch goes on: nothing but its own place, the statistics and the observations change.\<close>

definition same_queues :: "Maintenance \<Rightarrow> Maintenance \<Rightarrow> bool" where
  "same_queues s s' \<longleftrightarrow> om_options s' = om_options s \<and> om_refresh s' = om_refresh s \<and> om_started s' = om_started s \<and> om_accepting s' = om_accepting s
     \<and> om_stopping s' = om_stopping s \<and> om_collector_done s' = om_collector_done s \<and> om_input s' = om_input s \<and> om_ready s' = om_ready s"

lemma threads_worker:
  assumes "threads_ok s" and "same_queues s s'" and "om_workers s' = (om_workers s)[w := x]" and "x \<noteq> Left" and "x \<noteq> Settling []"
  shows "threads_ok s'"
  using assms set_update_subset_insert [of "om_workers s" w x] unfolding same_queues_def
  by (auto simp: threads_ok_def options_good_def)

lemma Finish_same [simp]: "same_queues s (om_Finish tm job t) = same_queues s t"
  by (simp add: same_queues_def om_Finish_def)

lemma Finish_all_same [simp]: "same_queues s (fold (om_Finish tm) jobs t) = same_queues s t" "om_workers (fold (om_Finish tm) jobs t) = om_workers t"
  by (induction jobs arbitrary: t) simp_all

lemma screen_effect:
  "om_Process_screen w now valid s = s
   \<or> (\<exists>job todo kept kept'. w < length (om_workers s) \<and> om_workers s ! w = Screening (job # todo) kept \<and> length kept' \<le> Suc (length kept)
        \<and> om_workers (om_Process_screen w now valid s) = (om_workers s)[w := Screening todo kept'] \<and> same_queues s (om_Process_screen w now valid s))"
proof (cases "\<exists>job todo kept. w < length (om_workers s) \<and> om_workers s ! w = Screening (job # todo) kept")
  case True
  then obtain job todo kept where at: "w < length (om_workers s)" "om_workers s ! w = Screening (job # todo) kept" by blast
  let ?k = "if now < job_deadline job \<and> valid = Yes then kept @ [job] else kept"
  have "om_workers (om_Process_screen w now valid s) = (om_workers s)[w := Screening todo ?k]" "same_queues s (om_Process_screen w now valid s)"
    using at by (auto simp: om_Process_screen_def same_queues_def split: Answer.splits)
  with at show ?thesis by (intro disjI2 exI [of _ job] exI [of _ todo] exI [of _ kept] exI [of _ ?k]) auto
next
  case False
  then show ?thesis by (auto simp: om_Process_screen_def split: MaintenanceWorker.splits list.splits)
qed

lemma call_at:
  assumes at: "w < length (om_workers s)" "om_workers s ! w = Screening [] kept"
  shows "\<exists>x. (x = Waiting \<or> (\<exists>rs. kept \<noteq> [] \<and> length rs = length kept \<and> x = Settling (zip kept rs)))
        \<and> om_workers (om_Process_call w results s) = (om_workers s)[w := x] \<and> same_queues s (om_Process_call w results s)"
proof (cases kept)
  case Nil
  with at show ?thesis by (intro exI [of _ Waiting]) (simp add: om_Process_call_def same_queues_def)
next
  case (Cons k ks)
  show ?thesis
  proof (cases "\<exists>rs. results = Some rs \<and> length rs = length kept")
    case True
    then obtain rs where "results = Some rs" "length rs = length kept" by blast
    with at Cons show ?thesis
      by (intro exI [of _ "Settling (zip kept rs)"]) (auto simp: om_Process_call_def Let_def same_queues_def simp del: zip_Cons1)
  next
    case False
    let ?s1 = "\<lambda>f. (tally_stats f s)\<lparr>om_workers := (om_workers s)[w := Waiting]\<rparr>"
    have "\<exists>f. om_Process_call w results s = fold (om_Finish TermWorkerException) kept (?s1 f)"
      using False at Cons by (cases results) (auto simp: om_Process_call_def Let_def)
    moreover have "same_queues s (?s1 f)" for f by (simp add: same_queues_def)
    ultimately show ?thesis by (intro exI [of _ Waiting]) auto
  qed
qed

lemma call_effect:
  "om_Process_call w results s = s
   \<or> (\<exists>kept x. w < length (om_workers s) \<and> om_workers s ! w = Screening [] kept \<and> (x = Waiting \<or> (\<exists>rs. kept \<noteq> [] \<and> length rs = length kept \<and> x = Settling (zip kept rs)))
        \<and> om_workers (om_Process_call w results s) = (om_workers s)[w := x] \<and> same_queues s (om_Process_call w results s))"
proof (cases "\<exists>kept. w < length (om_workers s) \<and> om_workers s ! w = Screening [] kept")
  case True
  with call_at [of w s _ results] show ?thesis by blast
next
  case False
  then show ?thesis by (auto simp: om_Process_call_def split: MaintenanceWorker.splits list.splits)
qed

lemma settle_effect:
  "om_Process_settle w valid returns s = s
   \<or> (\<exists>x todo. w < length (om_workers s) \<and> om_workers s ! w = Settling (x # todo)
        \<and> om_workers (om_Process_settle w valid returns s) = (om_workers s)[w := (if todo = [] then Waiting else Settling todo)]
        \<and> same_queues s (om_Process_settle w valid returns s))"
proof (cases "\<exists>job res todo. w < length (om_workers s) \<and> om_workers s ! w = Settling ((job, res) # todo)")
  case True
  then obtain job res todo where at: "w < length (om_workers s)" "om_workers s ! w = Settling ((job, res) # todo)" by blast
  then have "om_workers (om_Process_settle w valid returns s) = (om_workers s)[w := (if todo = [] then Waiting else Settling todo)]
      \<and> same_queues s (om_Process_settle w valid returns s)"
    by (cases valid) (simp_all add: om_Process_settle_def om_RecordResult_def Let_def same_queues_def)
  with at show ?thesis by blast
next
  case False
  then show ?thesis by (auto simp: om_Process_settle_def split: MaintenanceWorker.splits list.splits prod.splits)
qed

lemma threads_process:
  assumes "threads_ok s"
  shows "threads_ok (om_Process_screen w now valid s)" "threads_ok (om_Process_call w results s)" "threads_ok (om_Process_settle w valid returns s)"
proof -
  show "threads_ok (om_Process_screen w now valid s)"
    using screen_effect [of w now valid s] threads_worker [OF assms] assms by fastforce
  show "threads_ok (om_Process_call w results s)"
    using call_effect [of w results s]
  proof (elim disjE exE conjE)
    fix kept x rs
    assume "kept \<noteq> []" "length rs = length kept" "x = Settling (zip kept rs)"
    then have x: "x \<noteq> Left" "x \<noteq> Settling []" by (cases kept; cases rs; auto)+
    assume "om_workers (om_Process_call w results s) = (om_workers s)[w := x]" "same_queues s (om_Process_call w results s)"
    from threads_worker [OF assms this(2,1) x] show ?thesis .
  next
    fix x assume "x = Waiting" "om_workers (om_Process_call w results s) = (om_workers s)[w := x]" "same_queues s (om_Process_call w results s)"
    with threads_worker [OF assms, of "om_Process_call w results s" w x] show ?thesis by simp
  qed (use assms in simp)
  show "threads_ok (om_Process_settle w valid returns s)"
    using settle_effect [of w valid returns s] threads_worker [OF assms, of "om_Process_settle w valid returns s" w] assms by fastforce
qed

lemma threads_step: "\<lbrakk>threads_ok s; ordered_stop s ev\<rbrakk> \<Longrightarrow> threads_ok (maintenance_step s ev)"
  using threads_Start threads_Stop threads_Submit threads_Collect threads_take threads_process
  by (cases ev) (auto simp: ordered_stop_def)

definition no_threads_yet :: "Maintenance \<Rightarrow> bool" where
  "no_threads_yet s \<longleftrightarrow> (\<not> om_started s \<longrightarrow> om_workers s = [])"

lemma no_threads_step: "no_threads_yet s \<Longrightarrow> no_threads_yet (maintenance_step s ev)"
proof (cases ev)
  case (EvScreen w now valid)
  assume "no_threads_yet s"
  with EvScreen screen_effect [of w now valid s] show ?thesis by (auto simp: no_threads_yet_def same_queues_def)
next
  case (EvCall w results)
  assume "no_threads_yet s"
  with EvCall call_effect [of w results s] show ?thesis by (auto simp: no_threads_yet_def same_queues_def)
next
  case (EvSettle w valid returns)
  assume "no_threads_yet s"
  with EvSettle settle_effect [of w valid returns s] show ?thesis by (auto simp: no_threads_yet_def same_queues_def)
qed (auto simp: no_threads_yet_def om_Start_def om_Stop_def om_TrySubmit_def om_Collect_def om_Work_take_def Let_def split: list.splits)

lemma accounts_step: "\<lbrakk>accounts_ok s; no_threads_yet s\<rbrakk> \<Longrightarrow> accounts_ok (maintenance_step s ev)"
  using accounts_Start accounts_Stop accounts_Submit accounts_Collect accounts_take accounts_screen accounts_call accounts_settle
  by (cases ev) (auto simp: no_threads_yet_def)

interpretation ma: guarded_object maintenance_step "\<lambda>_ _. True" "\<lambda>s. accounts_ok s \<and> no_threads_yet s"
  by unfold_locales (simp add: accounts_step no_threads_step)

interpretation mt: guarded_object maintenance_step ordered_stop threads_ok
  by unfold_locales (rule threads_step)

lemma maintenance_new_ok: "accounts_ok (Maintenance_new opts rf) \<and> no_threads_yet (Maintenance_new opts rf)" "threads_ok (Maintenance_new opts rf)"
  by (auto simp: Maintenance_new_def accounts_ok_def held_def ended_ids_def Terminals_def no_threads_yet_def threads_ok_def)

text \<open>C27: in every run of the maintenance, with any number of submitters and any behaviour of probes, callbacks and the cache, every
  accepted job is either still held, in the input, in a batch or by a worker, or has ended in exactly one of the counted ways; the
  counter of pending jobs is the number of those held and never exceeds its bound, and accepted jobs are the ended plus the pending
  ones.\<close>

theorem maintenance_accounts:
  fixes opts :: MaintenanceOptions and rf :: bool
  assumes "s = run_ops maintenance_step (Maintenance_new opts rf) evs"
  shows "mset (admitted s) = held s + ended_ids s \<and> st_pending (om_stats s) = int (size (held s))
    \<and> st_pending (om_stats s) \<le> int (opt_max_pending (om_options s))
    \<and> int (st_accepted (om_stats s)) = int (Terminals (om_stats s)) + st_pending (om_stats s)"
proof -
  have "accounts_ok s" using ma.run_invar [OF maintenance_new_ok(1) [of opts rf], of evs] assms by simp
  moreover from this have "length (admitted s) = size (held s) + length (ended s)"
    by (metis accounts_ok_def ended_ids_def length_map size_mset size_union)
  ultimately show ?thesis by (simp add: accounts_ok_def)
qed

section \<open>Stop drains\<close>

fun worker_weight :: "MaintenanceWorker \<Rightarrow> nat" where
  "worker_weight Waiting = 1"
| "worker_weight (Screening todo kept) = 2 * length todo + length kept + 2"
| "worker_weight (Settling todo) = length todo + 1"
| "worker_weight Left = 0"

definition maintenance_weight :: "Maintenance \<Rightarrow> nat" where
  "maintenance_weight s = 6 * length (om_input s) + (\<Sum>b\<leftarrow>om_ready s. 2 * length b + 3) + (\<Sum>w\<leftarrow>om_workers s. worker_weight w)
     + (if om_collector_done s then 0 else 1)"

lemma weight_worker:
  assumes "same_queues s s'" and "om_workers s' = (om_workers s)[w := x]" and "w < length (om_workers s)" and "worker_weight x < worker_weight (om_workers s ! w)"
  shows "maintenance_weight s' < maintenance_weight s"
proof -
  have "w < length ws \<Longrightarrow> (\<Sum>v\<leftarrow>ws[w := x]. worker_weight v) + worker_weight (ws ! w) = (\<Sum>v\<leftarrow>ws. worker_weight v) + worker_weight x" for ws
    by (induction ws arbitrary: w) (auto split: nat.splits)
  from this [OF assms(3)] assms show ?thesis by (simp add: maintenance_weight_def same_queues_def)
qed

text \<open>The next event of a thread that has not returned; what user code answers is chosen by \<open>pick\<close>.\<close>

type_synonym answers = "Maintenance \<Rightarrow> int \<times> Answer \<times> RefreshOnlineIfMatchStatus list option \<times> bool"

definition next_event :: "answers \<Rightarrow> Maintenance \<Rightarrow> MaintenanceEvent" where
  "next_event pick s =
     (let (now, valid, results, returns) = pick s; w = length (takeWhile (\<lambda>x. x = Left) (om_workers s))
      in if \<not> om_collector_done s then EvCollect now
         else case om_workers s ! w of
           Screening (_ # _) _ \<Rightarrow> EvScreen w now valid
         | Screening [] _ \<Rightarrow> EvCall w results
         | Settling _ \<Rightarrow> EvSettle w valid returns
         | _ \<Rightarrow> EvTake w)"

primrec drain :: "answers \<Rightarrow> nat \<Rightarrow> Maintenance \<Rightarrow> Maintenance" where
  "drain pick 0 s = s"
| "drain pick (Suc n) s = (if om_joined s then s else drain pick n (maintenance_step s (next_event pick s)))"

definition draining :: "Maintenance \<Rightarrow> bool" where
  "draining s \<longleftrightarrow> threads_ok s \<and> om_started s \<and> om_stopping s \<and> accounts_ok s"

lemma collect_decreases:
  assumes "draining s" and "\<not> om_collector_done s"
  shows "maintenance_weight (om_Collect now s) < maintenance_weight s"
proof (cases "om_input s")
  case Nil
  with assms show ?thesis by (simp add: om_Collect_def draining_def maintenance_weight_def)
next
  case (Cons x rest)
  define n where "n = min (opt_max_batch (om_options s)) (length (om_input s))"
  have "options_good s" using assms by (auto simp: draining_def threads_ok_def)
  then have n: "0 < n" "n \<le> length (om_input s)" using Cons by (auto simp: n_def options_good_def Let_def)
  have "om_Collect now s = s\<lparr>om_input := drop n (om_input s), om_ready := om_ready s @ [map fst (take n (om_input s))]\<rparr>"
    using Cons assms by (cases x) (simp add: om_Collect_def draining_def Let_def n_def)
  with n show ?thesis by (simp add: maintenance_weight_def)
qed

lemma take_decreases:
  assumes "om_collector_done s" and "w < length (om_workers s)" and "om_workers s ! w = Waiting"
  shows "maintenance_weight (om_Work_take w s) < maintenance_weight s"
proof (cases "om_ready s")
  case Nil
  with assms weight_worker [of s "s\<lparr>om_workers := (om_workers s)[w := Left]\<rparr>" w Left] show ?thesis
    by (simp add: om_Work_take_def same_queues_def)
next
  case (Cons b rest)
  have "(\<Sum>v\<leftarrow>(om_workers s)[w := Screening b []]. worker_weight v) + 1 = (\<Sum>v\<leftarrow>om_workers s. worker_weight v) + (2 * length b + 2)"
  proof -
    have "w < length ws \<Longrightarrow> ws ! w = Waiting \<Longrightarrow> (\<Sum>v\<leftarrow>ws[w := Screening b []]. worker_weight v) + 1 = (\<Sum>v\<leftarrow>ws. worker_weight v) + (2 * length b + 2)" for ws
      by (induction ws arbitrary: w) (auto split: nat.splits)
    from this [OF assms(2,3)] show ?thesis .
  qed
  with Cons assms show ?thesis by (simp add: om_Work_take_def maintenance_weight_def)
qed

lemma process_decreases:
  assumes "threads_ok s" and "w < length (om_workers s)"
  shows "om_workers s ! w = Screening (job # todo) kept \<Longrightarrow> maintenance_weight (om_Process_screen w now valid s) < maintenance_weight s"
    and "om_workers s ! w = Screening [] kept \<Longrightarrow> maintenance_weight (om_Process_call w results s) < maintenance_weight s"
    and "om_workers s ! w = Settling xs \<Longrightarrow> maintenance_weight (om_Process_settle w valid returns s) < maintenance_weight s"
proof -
  assume at: "om_workers s ! w = Screening (job # todo) kept"
  let ?k = "if now < job_deadline job \<and> valid = Yes then kept @ [job] else kept"
  have "om_workers (om_Process_screen w now valid s) = (om_workers s)[w := Screening todo ?k]" "same_queues s (om_Process_screen w now valid s)"
    using at assms(2) by (auto simp: om_Process_screen_def same_queues_def split: Answer.splits)
  with at weight_worker [OF this(2,1) assms(2)] show "maintenance_weight (om_Process_screen w now valid s) < maintenance_weight s" by simp
next
  assume at: "om_workers s ! w = Screening [] kept"
  obtain x where "x = Waiting \<or> (\<exists>rs. length rs = length kept \<and> x = Settling (zip kept rs))"
      "om_workers (om_Process_call w results s) = (om_workers s)[w := x]" "same_queues s (om_Process_call w results s)"
    using call_at [OF assms(2) at, of results] by blast
  with at weight_worker [OF this(3,2) assms(2)] show "maintenance_weight (om_Process_call w results s) < maintenance_weight s" by auto
next
  assume at: "om_workers s ! w = Settling xs"
  then have "xs \<noteq> []" using nth_mem [OF assms(2)] assms(1) by (auto simp: threads_ok_def)
  then obtain job res todo where xs: "xs = (job, res) # todo" by (cases xs) auto
  have "om_workers (om_Process_settle w valid returns s) = (om_workers s)[w := (if todo = [] then Waiting else Settling todo)]
      \<and> same_queues s (om_Process_settle w valid returns s)"
    using at assms(2) xs by (cases valid) (simp_all add: om_Process_settle_def om_RecordResult_def Let_def same_queues_def)
  with at xs weight_worker [of s "om_Process_settle w valid returns s" w "if todo = [] then Waiting else Settling todo"] assms(2)
  show "maintenance_weight (om_Process_settle w valid returns s) < maintenance_weight s" by auto
qed

lemma first_active:
  assumes "\<not> list_all (\<lambda>x. x = Left) ws"
  shows "length (takeWhile (\<lambda>x. x = Left) ws) < length ws \<and> ws ! length (takeWhile (\<lambda>x. x = Left) ws) \<noteq> Left"
  using assms by (induction ws) auto

lemma next_event_decreases:
  assumes "draining s" and "\<not> om_joined s"
  shows "maintenance_weight (maintenance_step s (next_event pick s)) < maintenance_weight s"
proof (cases "om_collector_done s")
  case False
  with collect_decreases [OF assms(1)] show ?thesis by (auto simp: next_event_def split: prod.splits)
next
  case True
  let ?w = "length (takeWhile (\<lambda>x. x = Left) (om_workers s))"
  have "\<not> list_all (\<lambda>x. x = Left) (om_workers s)" using assms True by (simp add: om_joined_def)
  note w = first_active [OF this]
  have ok: "threads_ok s" using assms(1) by (simp add: draining_def)
  note process = process_decreases [OF ok, of ?w]
  show ?thesis
    using True w take_decreases [OF True, of ?w] process
    by (auto simp: next_event_def Let_def split: prod.splits MaintenanceWorker.splits list.splits)
qed

lemma next_event_kind: "next_event pick s \<noteq> EvStop \<and> (\<forall>now job. next_event pick s \<noteq> EvSubmit now job) \<and> (\<forall>up. next_event pick s \<noteq> EvStart up)"
  by (auto simp: next_event_def Let_def split: prod.splits MaintenanceWorker.splits list.splits)

lemma next_event_keeps:
  "om_stopping (maintenance_step s (next_event pick s)) = om_stopping s \<and> om_started (maintenance_step s (next_event pick s)) = om_started s"
proof -
  have same: "same_queues s t \<Longrightarrow> om_stopping t = om_stopping s \<and> om_started t = om_started s" for t by (simp add: same_queues_def)
  have collect: "om_stopping (om_Collect now s) = om_stopping s \<and> om_started (om_Collect now s) = om_started s" for now
    by (auto simp: om_Collect_def Let_def split: list.splits)
  have take: "om_stopping (om_Work_take w s) = om_stopping s \<and> om_started (om_Work_take w s) = om_started s" for w
    by (auto simp: om_Work_take_def split: list.splits)
  show ?thesis
    using next_event_kind [of pick s] collect take same screen_effect [of _ _ _ s] call_effect [of _ _ s] settle_effect [of _ _ _ s]
    by (cases "next_event pick s") (simp_all, metis+)
qed

text \<open>The list of admitted jobs does not change while nothing is submitted.\<close>

lemma Finish_all_admitted [simp]: "admitted (fold (om_Finish tm) jobs s) = admitted s"
  by (induction jobs arbitrary: s) simp_all

lemma next_event_admits: "admitted (maintenance_step s (next_event pick s)) = admitted s"
  using next_event_kind [of pick s]
  by (cases "next_event pick s")
    (auto simp: om_Collect_def om_Work_take_def om_Process_screen_def om_Process_call_def om_Process_settle_def om_RecordResult_def Let_def
      simp del: fold_simps split: list.splits MaintenanceWorker.splits Answer.splits option.splits prod.splits)

lemma draining_step: "draining s \<Longrightarrow> draining (maintenance_step s (next_event pick s))"
proof -
  assume "draining s"
  then have "threads_ok s" "om_started s" "om_stopping s" "accounts_ok s" by (simp_all add: draining_def)
  moreover have "ordered_stop s (next_event pick s)" using next_event_kind by (simp add: ordered_stop_def)
  moreover have "no_threads_yet s" using \<open>om_started s\<close> by (simp add: no_threads_yet_def)
  ultimately show ?thesis using next_event_keeps [of s pick] by (simp add: draining_def threads_step accounts_step)
qed

lemma drain_joins: "\<lbrakk>draining s; maintenance_weight s \<le> n\<rbrakk> \<Longrightarrow>
    draining (drain pick n s) \<and> om_joined (drain pick n s) \<and> admitted (drain pick n s) = admitted s"
proof (induction n arbitrary: s)
  case 0
  with next_event_decreases [of s pick] show ?case by fastforce
next
  case (Suc n)
  show ?case
  proof (cases "om_joined s")
    case False
    with Suc.prems next_event_decreases [of s pick] have "maintenance_weight (maintenance_step s (next_event pick s)) \<le> n" by auto
    from Suc.IH [OF draining_step [OF Suc.prems(1)] this] False next_event_admits [of s pick] show ?thesis by simp
  qed (use Suc.prems in simp)
qed

lemma joined_empty: "\<lbrakk>draining s; om_joined s\<rbrakk> \<Longrightarrow> held s = {#}"
proof -
  assume ok: "draining s" and joined: "om_joined s"
  then have left: "\<forall>w\<in>set (om_workers s). w = Left" "om_collector_done s" by (auto simp: om_joined_def draining_def list_all_iff)
  have "om_ready s = []" "om_input s = []" using ok left by (cases "om_workers s"; auto simp: draining_def threads_ok_def)+
  moreover have "\<forall>w\<in>set ws. w = Left \<Longrightarrow> sum_list (map worker_jobs ws) = {#}" for ws by (induction ws) auto
  note this [OF left(1)]
  ultimately show ?thesis by (simp add: held_def)
qed

text \<open>C26: after \<open>Stop\<close> the threads return, whatever probes, callbacks and the cache answer and whether they throw: within as many steps
  as the weight of the state says the collector and all workers have returned, nothing is pending, and every job that was ever
  accepted has ended exactly once.\<close>

theorem maintenance_stop_drains:
  assumes "ok_run ordered_stop maintenance_step (Maintenance_new opts rf) evs"
    and "run_ops maintenance_step (Maintenance_new opts rf) evs = s" and "om_started s"
  shows "let t = drain pick (maintenance_weight (om_Stop s)) (om_Stop s)
    in om_joined t \<and> st_pending (om_stats t) = 0 \<and> mset (map fst (ended t)) = mset (admitted s)"
proof -
  have "threads_ok s" using mt.run_invar [OF maintenance_new_ok(2) assms(1)] assms(2) by simp
  moreover have "accounts_ok s" using ma.run_invar [OF maintenance_new_ok(1) [of opts rf], of evs] assms(2) by simp
  ultimately have "draining (om_Stop s)"
    using assms(3) threads_Stop accounts_Stop by (simp add: draining_def) (simp add: om_Stop_def)
  note drained = drain_joins [OF this order_refl, of pick]
  define t where "t = drain pick (maintenance_weight (om_Stop s)) (om_Stop s)"
  have t: "draining t" "om_joined t" "admitted t = admitted s" using drained by (simp_all add: t_def om_Stop_def)
  then have "held t = {#}" by (intro joined_empty)
  with t have "st_pending (om_stats t) = 0" "ended_ids t = mset (admitted s)" by (auto simp: draining_def accounts_ok_def)
  with t(2) show ?thesis unfolding t_def [symmetric] Let_def ended_ids_def by blast
qed

text \<open>What goes wrong without the order: a \<open>Stop\<close> before the \<open>Start\<close> leaves the flag \<open>stopping_\<close> set, which \<open>Start\<close> does not look at.
  The collector returns as soon as it finds no input; jobs accepted afterwards are never looked at.\<close>

definition stop_first_options :: MaintenanceOptions where
  "stop_first_options = \<lparr>opt_workers = 1, opt_max_pending = 4, opt_max_batch = 2, flush_delay = 5, default_deadline = 10000\<rparr>"

definition stop_first_job :: MaintenanceJob where
  "stop_first_job = \<lparr>job_id = 1, job_request = as_request 7 ''A'' ''a1'' 60, job_deadline = 0, job_probe = True, job_callback = True\<rparr>"

definition stop_first :: Maintenance where
  "stop_first = run_ops maintenance_step (Maintenance_new stop_first_options True) [EvStop, EvStart True, EvCollect 0, EvTake 0, EvSubmit 0 stop_first_job]"

lemma stop_first_strands_job:
  "om_accepting stop_first \<and> om_joined stop_first \<and> admitted stop_first = [1] \<and> ended stop_first = [] \<and> st_pending (om_stats stop_first) = 1"
  by (simp add: stop_first_def stop_first_options_def stop_first_job_def Maintenance_new_def om_Stop_def om_Start_def options_good_def om_Collect_def om_Work_take_def
      om_TrySubmit_def as_request_def om_joined_def Let_def)

subsection \<open>Witnesses\<close>

definition demo_maintenance_events :: "MaintenanceEvent list" where
  "demo_maintenance_events = [EvStart True, EvSubmit 0 stop_first_job, EvSubmit 1 (stop_first_job\<lparr>job_id := 2\<rparr>), EvCollect 2, EvTake 0, EvScreen 0 3 Yes]"

definition demo_maintenance :: Maintenance where
  "demo_maintenance = run_ops maintenance_step (Maintenance_new stop_first_options True) demo_maintenance_events"

lemma demo_maintenance_run: "om_started demo_maintenance \<and> admitted demo_maintenance = [1, 2] \<and> st_pending (om_stats demo_maintenance) = 2"
  by (simp add: demo_maintenance_def demo_maintenance_events_def stop_first_options_def stop_first_job_def Maintenance_new_def om_Start_def options_good_def
      om_Collect_def om_Work_take_def om_TrySubmit_def om_Process_screen_def as_request_def Let_def)

theorem maintenance_accounts_witness:
  "admitted demo_maintenance = [1, 2] \<and> size (held demo_maintenance) = 2 \<and> mset [1, 2] = held demo_maintenance + ended_ids demo_maintenance"
  using maintenance_accounts [OF demo_maintenance_def] demo_maintenance_run by auto

theorem maintenance_stop_drains_witness:
  "let t = drain (\<lambda>_. (0, Yes, Some [Refreshed, Refreshed], True)) (maintenance_weight (om_Stop demo_maintenance)) (om_Stop demo_maintenance)
   in om_joined t \<and> mset (map fst (ended t)) = {#1, 2#}"
proof -
  have "ok_run ordered_stop maintenance_step (Maintenance_new stop_first_options True) demo_maintenance_events"
    by (simp add: demo_maintenance_events_def ordered_stop_def)
  from maintenance_stop_drains [OF this demo_maintenance_def [symmetric], of "\<lambda>_. (0, Yes, Some [Refreshed, Refreshed], True)"] demo_maintenance_run
  show ?thesis by (simp add: Let_def)
qed

end
