(* ===== verification/Durable_Recovery.thy ===== *)
theory Durable_Recovery
  imports TIMX_Prelude
begin

text \<open>
  The scheduling of durable recovery, \<open>gateway/DurablePrivateRecovery.h\<close>: a paged scan of the users with pending private
  messages (one query at a time, a page of recipients handed out in portions) and a bounded number of replays, one per
  session. Both the query and a replay are held by a lease; a lease that is dropped gives its place back.

  A method holds the mutex throughout and is one function; time is an argument. A lease is a record with its flag
  \<open>finished_\<close>; the leases outstanding are two lists beside the state. \<open>std::unordered_map\<close> is a map, \<open>active_replays\<close> keeps
  its width, so a decrement too much would wrap around. A failing allocation is not modelled.
\<close>

section \<open>State\<close>

record Options =
  opt_max_session_states :: nat
  opt_max_active_replays :: u64
  query_interval :: int
  failure_backoff :: int

record ReplayState =
  replay_epoch :: u64
  replay_gen :: u64
  replay_cursor :: u64
  active :: bool

record DurablePrivateRecovery =
  max_session_states :: nat
  max_active_replays :: u64
  interval :: int
  backoff_delay :: int
  recovery_stopped :: bool
  query_active :: bool
  query_generation :: u64
  cursor :: u64
  replay_generation :: u64
  next_query :: int
  recipients :: "u64 list"
  sessions :: "u64 \<rightharpoonup> ReplayState"
  active_replays :: u64

record QueryAttempt =
  query_gen :: u64
  query_cursor :: u64
  query_finished :: bool

record ReplayAttempt =
  attempt_user :: u64
  attempt_epoch :: u64
  attempt_gen :: u64
  attempt_cursor :: u64
  attempt_finished :: bool

definition DurablePrivateRecovery_new :: "Options \<Rightarrow> DurablePrivateRecovery" where
  "DurablePrivateRecovery_new opts =
     \<lparr>max_session_states = max 1 (opt_max_session_states opts), max_active_replays = max 1 (opt_max_active_replays opts),
      interval = query_interval opts, backoff_delay = failure_backoff opts,
      recovery_stopped = True, query_active = False, query_generation = 0, cursor = 0, replay_generation = 0, next_query = 0,
      recipients = [], sessions = Map.empty, active_replays = 0\<rparr>"

section \<open>The query\<close>

definition Limit :: nat where
  "Limit = 256"

definition query_CurrentLocked :: "QueryAttempt \<Rightarrow> DurablePrivateRecovery \<Rightarrow> bool" where
  "query_CurrentLocked a s \<longleftrightarrow> \<not> query_finished a \<and> \<not> recovery_stopped s \<and> query_active s \<and> query_generation s = query_gen a"

text \<open>The loop over the identifiers of \<open>Complete\<close>: \<open>None\<close> if one of them is not greater than the one before, otherwise
  the last one.\<close>

fun ascend :: "u64 \<Rightarrow> u64 list \<Rightarrow> u64 option" where
  "ascend previous [] = Some previous"
| "ascend previous (i # ids) = (if i = 0 \<or> i \<le> previous then None else ascend i ids)"

definition query_Complete :: "u64 list \<Rightarrow> bool \<Rightarrow> int \<Rightarrow> QueryAttempt \<Rightarrow> DurablePrivateRecovery \<Rightarrow> bool \<times> QueryAttempt \<times> DurablePrivateRecovery" where
  "query_Complete ids has_more now a s =
     (if length ids > Limit \<or> (has_more \<and> length ids \<noteq> Limit) then (False, a, s)
      else case ascend (query_cursor a) ids of
        None \<Rightarrow> (False, a, s)
      | Some previous \<Rightarrow>
          if \<not> query_CurrentLocked a s then (False, a, s)
          else (True, a\<lparr>query_finished := True\<rparr>,
                s\<lparr>recipients := ids, cursor := (if has_more then previous else 0), next_query := now + interval s,
                  query_active := False\<rparr>))"

definition query_Fail :: "int \<Rightarrow> QueryAttempt \<Rightarrow> DurablePrivateRecovery \<Rightarrow> QueryAttempt \<times> DurablePrivateRecovery" where
  "query_Fail now a s =
     (a\<lparr>query_finished := True\<rparr>,
      if query_CurrentLocked a s then s\<lparr>query_active := False, next_query := now + backoff_delay s\<rparr> else s)"

definition AcquireQuery :: "int \<Rightarrow> DurablePrivateRecovery \<Rightarrow> QueryAttempt option \<times> DurablePrivateRecovery" where
  "AcquireQuery now s =
     (if recovery_stopped s \<or> query_active s \<or> recipients s \<noteq> [] \<or> now < next_query s then (None, s)
      else let generation = query_generation s + 1
           in (Some \<lparr>query_gen = generation, query_cursor = cursor s, query_finished = False\<rparr>,
               s\<lparr>query_generation := generation, query_active := True\<rparr>))"

definition TakeRecipients :: "nat \<Rightarrow> DurablePrivateRecovery \<Rightarrow> u64 list \<times> DurablePrivateRecovery" where
  "TakeRecipients budget s =
     (if recovery_stopped s then ([], s)
      else let count = min budget (min 32 (length (recipients s)))
           in (take count (recipients s), s\<lparr>recipients := drop count (recipients s)\<rparr>))"

section \<open>Replays\<close>

definition replay_CurrentLocked :: "ReplayAttempt \<Rightarrow> DurablePrivateRecovery \<Rightarrow> bool" where
  "replay_CurrentLocked a s \<longleftrightarrow> \<not> attempt_finished a \<and> \<not> recovery_stopped s \<and>
     (case sessions s (attempt_user a) of
        None \<Rightarrow> False
      | Some r \<Rightarrow> replay_epoch r = attempt_epoch a \<and> replay_gen r = attempt_gen a \<and> active r)"

definition FinishLocked :: "ReplayAttempt \<Rightarrow> ReplayState \<Rightarrow> DurablePrivateRecovery \<Rightarrow> ReplayAttempt \<times> DurablePrivateRecovery" where
  "FinishLocked a r s =
     (a\<lparr>attempt_finished := True\<rparr>,
      s\<lparr>sessions := (sessions s)(attempt_user a \<mapsto> r\<lparr>active := False\<rparr>), active_replays := active_replays s - 1\<rparr>)"

definition replay_Complete :: "u64 \<Rightarrow> bool \<Rightarrow> ReplayAttempt \<Rightarrow> DurablePrivateRecovery \<Rightarrow> bool \<times> ReplayAttempt \<times> DurablePrivateRecovery" where
  "replay_Complete last_message_id has_more a s =
     (if has_more \<and> last_message_id \<le> attempt_cursor a then (False, a, s)
      else if \<not> replay_CurrentLocked a s then (False, a, s)
      else (True, FinishLocked a ((the (sessions s (attempt_user a)))\<lparr>replay_cursor := (if has_more then last_message_id else 0)\<rparr>) s))"

definition Release :: "ReplayAttempt \<Rightarrow> DurablePrivateRecovery \<Rightarrow> ReplayAttempt \<times> DurablePrivateRecovery" where
  "Release a s =
     (let (a', s') = (if replay_CurrentLocked a s then FinishLocked a (the (sessions s (attempt_user a))) s else (a, s))
      in (a'\<lparr>attempt_finished := True\<rparr>, s'))"

definition fresh_state :: "u64 \<Rightarrow> ReplayState" where
  "fresh_state epoch = \<lparr>replay_epoch = epoch, replay_gen = 0, replay_cursor = 0, active = False\<rparr>"

text \<open>The first part of \<open>BeginReplay\<close>: a newer session of the user replaces the one that is kept.\<close>

definition supersede :: "u64 \<Rightarrow> u64 \<Rightarrow> ReplayState \<Rightarrow> DurablePrivateRecovery \<Rightarrow> DurablePrivateRecovery" where
  "supersede user epoch r s =
     (if replay_epoch r = epoch then s
      else s\<lparr>active_replays := (if active r then active_replays s - 1 else active_replays s),
             sessions := (sessions s)(user \<mapsto> fresh_state epoch)\<rparr>)"

text \<open>The last part: the session \<open>r\<close> of the user gets the next generation and a lease.\<close>

definition start_replay :: "u64 \<Rightarrow> ReplayState \<Rightarrow> DurablePrivateRecovery \<Rightarrow> ReplayAttempt option \<times> DurablePrivateRecovery" where
  "start_replay user r s =
     (let generation = replay_generation s + 1
      in (Some \<lparr>attempt_user = user, attempt_epoch = replay_epoch r, attempt_gen = generation,
                attempt_cursor = replay_cursor r, attempt_finished = False\<rparr>,
          s\<lparr>replay_generation := generation,
            sessions := (sessions s)(user \<mapsto> r\<lparr>replay_gen := generation, active := True\<rparr>),
            active_replays := active_replays s + 1\<rparr>))"

definition BeginReplay :: "u64 \<Rightarrow> u64 \<Rightarrow> DurablePrivateRecovery \<Rightarrow> ReplayAttempt option \<times> DurablePrivateRecovery" where
  "BeginReplay user epoch s =
     (if user = 0 \<or> epoch = 0 then (None, s)
      else if recovery_stopped s then (None, s)
      else case sessions s user of
        Some r \<Rightarrow>
          if epoch < replay_epoch r then (None, s)
          else let s1 = supersede user epoch r s; r1 = the (sessions s1 user)
               in if active r1 then (None, s1)
                  else if active_replays s1 \<ge> max_active_replays s1 then (None, s1)
                  else start_replay user r1 s1
      | None \<Rightarrow>
          if active_replays s \<ge> max_active_replays s then (None, s)
          else if card (dom (sessions s)) \<ge> max_session_states s then (None, s)
          else start_replay user (fresh_state epoch) s)"

definition Retire :: "u64 \<Rightarrow> u64 \<Rightarrow> DurablePrivateRecovery \<Rightarrow> DurablePrivateRecovery" where
  "Retire user epoch s =
     (case sessions s user of
        None \<Rightarrow> s
      | Some r \<Rightarrow>
          if replay_epoch r \<noteq> epoch then s
          else s\<lparr>active_replays := (if active r then active_replays s - 1 else active_replays s),
                 sessions := (sessions s)(user := None)\<rparr>)"

section \<open>Lifecycle\<close>

definition Resume :: "DurablePrivateRecovery \<Rightarrow> DurablePrivateRecovery" where
  "Resume s = s\<lparr>recovery_stopped := False, query_active := False, query_generation := query_generation s + 1, cursor := 0,
     next_query := 0, recipients := [], sessions := Map.empty, active_replays := 0\<rparr>"

definition recovery_Stop :: "DurablePrivateRecovery \<Rightarrow> DurablePrivateRecovery" where
  "recovery_Stop s = s\<lparr>recovery_stopped := True, query_active := False, query_generation := query_generation s + 1,
     recipients := [], sessions := Map.empty, active_replays := 0\<rparr>"

section \<open>The coordinator with its leases\<close>

text \<open>Everything that can happen to a coordinator, in any order: the methods of the class and of the leases handed out, whose
  destruction ends them. Leases are named by their position.\<close>

record Recovery =
  coordinator :: DurablePrivateRecovery
  queries :: "QueryAttempt list"
  replays :: "ReplayAttempt list"

datatype RecoveryOp =
    OpResume
  | OpStop
  | OpAcquireQuery int
  | OpQueryComplete nat "u64 list" bool int
  | OpQueryFail nat int
  | OpQueryDestroy nat int
  | OpTakeRecipients nat
  | OpBeginReplay u64 u64
  | OpReplayComplete nat u64 bool
  | OpReplayDestroy nat
  | OpRetire u64 u64

definition remove_nth :: "nat \<Rightarrow> 'a list \<Rightarrow> 'a list" where
  "remove_nth i xs = take i xs @ drop (Suc i) xs"

definition Recovery_new :: "Options \<Rightarrow> Recovery" where
  "Recovery_new opts = \<lparr>coordinator = DurablePrivateRecovery_new opts, queries = [], replays = []\<rparr>"

definition on_query :: "nat \<Rightarrow> (QueryAttempt \<Rightarrow> DurablePrivateRecovery \<Rightarrow> QueryAttempt \<times> DurablePrivateRecovery) \<Rightarrow> Recovery \<Rightarrow> Recovery" where
  "on_query i f y =
     (if i < length (queries y)
      then let (a, s) = f (queries y ! i) (coordinator y) in y\<lparr>coordinator := s, queries := (queries y)[i := a]\<rparr>
      else y)"

definition on_replay :: "nat \<Rightarrow> (ReplayAttempt \<Rightarrow> DurablePrivateRecovery \<Rightarrow> ReplayAttempt \<times> DurablePrivateRecovery) \<Rightarrow> Recovery \<Rightarrow> Recovery" where
  "on_replay i f y =
     (if i < length (replays y)
      then let (a, s) = f (replays y ! i) (coordinator y) in y\<lparr>coordinator := s, replays := (replays y)[i := a]\<rparr>
      else y)"

fun recovery_step :: "RecoveryOp \<Rightarrow> Recovery \<Rightarrow> Recovery" where
  "recovery_step OpResume y = y\<lparr>coordinator := Resume (coordinator y)\<rparr>"
| "recovery_step OpStop y = y\<lparr>coordinator := recovery_Stop (coordinator y)\<rparr>"
| "recovery_step (OpAcquireQuery now) y =
     (let (a, s) = AcquireQuery now (coordinator y)
      in y\<lparr>coordinator := s, queries := (case a of None \<Rightarrow> queries y | Some l \<Rightarrow> queries y @ [l])\<rparr>)"
| "recovery_step (OpQueryComplete i ids has_more now) y = on_query i (\<lambda>a s. snd (query_Complete ids has_more now a s)) y"
| "recovery_step (OpQueryFail i now) y = on_query i (query_Fail now) y"
| "recovery_step (OpQueryDestroy i now) y =
     (let y' = on_query i (query_Fail now) y in y'\<lparr>queries := remove_nth i (queries y')\<rparr>)"
| "recovery_step (OpTakeRecipients budget) y = y\<lparr>coordinator := snd (TakeRecipients budget (coordinator y))\<rparr>"
| "recovery_step (OpBeginReplay user epoch) y =
     (let (a, s) = BeginReplay user epoch (coordinator y)
      in y\<lparr>coordinator := s, replays := (case a of None \<Rightarrow> replays y | Some l \<Rightarrow> replays y @ [l])\<rparr>)"
| "recovery_step (OpReplayComplete i last_message_id has_more) y =
     on_replay i (\<lambda>a s. snd (replay_Complete last_message_id has_more a s)) y"
| "recovery_step (OpReplayDestroy i) y = (let y' = on_replay i Release y in y'\<lparr>replays := remove_nth i (replays y')\<rparr>)"
| "recovery_step (OpRetire user epoch) y = y\<lparr>coordinator := Retire user epoch (coordinator y)\<rparr>"

abbreviation recovery_run :: "RecoveryOp list \<Rightarrow> Recovery \<Rightarrow> Recovery" where
  "recovery_run \<equiv> fold recovery_step"

section \<open>The invariant\<close>

definition running :: "(u64 \<rightharpoonup> ReplayState) \<Rightarrow> nat" where
  "running m = msum (\<lambda>_ r. of_bool (active r)) m"

definition books_ok :: "DurablePrivateRecovery \<Rightarrow> bool" where
  "books_ok s \<longleftrightarrow> finite (dom (sessions s)) \<and> card (dom (sessions s)) \<le> max_session_states s
     \<and> unat (active_replays s) = running (sessions s) \<and> active_replays s \<le> max_active_replays s
     \<and> 1 \<le> max_session_states s \<and> 1 \<le> max_active_replays s
     \<and> (recovery_stopped s \<longrightarrow> sessions s = Map.empty \<and> recipients s = [] \<and> \<not> query_active s)
     \<and> (query_active s \<longrightarrow> recipients s = [])"

definition holds_replay :: "u64 \<Rightarrow> ReplayState \<Rightarrow> ReplayAttempt \<Rightarrow> bool" where
  "holds_replay u r a \<longleftrightarrow> \<not> attempt_finished a \<and> attempt_user a = u \<and> attempt_epoch a = replay_epoch r \<and> attempt_gen a = replay_gen r"

definition replays_ok :: "nat \<Rightarrow> DurablePrivateRecovery \<Rightarrow> ReplayAttempt list \<Rightarrow> bool" where
  "replays_ok n s ls \<longleftrightarrow> unat (replay_generation s) \<le> n \<and> distinct (map attempt_gen ls)
     \<and> (\<forall>a\<in>set ls. attempt_gen a \<le> replay_generation s)
     \<and> (\<forall>u r. sessions s u = Some r \<and> active r \<longrightarrow> (\<exists>a\<in>set ls. holds_replay u r a))"

definition holds_query :: "DurablePrivateRecovery \<Rightarrow> QueryAttempt \<Rightarrow> bool" where
  "holds_query s a \<longleftrightarrow> \<not> query_finished a \<and> query_gen a = query_generation s \<and> query_cursor a = cursor s"

definition queries_ok :: "nat \<Rightarrow> DurablePrivateRecovery \<Rightarrow> QueryAttempt list \<Rightarrow> bool" where
  "queries_ok n s ls \<longleftrightarrow> unat (query_generation s) \<le> n \<and> distinct (map query_gen ls)
     \<and> (\<forall>a\<in>set ls. query_gen a \<le> query_generation s)
     \<and> (query_active s \<longrightarrow> (\<exists>a\<in>set ls. holds_query s a))"

definition recovery_ok :: "nat \<Rightarrow> Recovery \<Rightarrow> bool" where
  "recovery_ok n y \<longleftrightarrow> books_ok (coordinator y) \<and> replays_ok n (coordinator y) (replays y) \<and> queries_ok n (coordinator y) (queries y)"

subsection \<open>Lists of leases\<close>

lemma set_remove_nth_other: "\<lbrakk>x \<in> set xs; i < length xs \<Longrightarrow> x \<noteq> xs ! i\<rbrakk> \<Longrightarrow> x \<in> set (remove_nth i xs)"
proof (cases "i < length xs")
  case True
  assume x: "x \<in> set xs" and "i < length xs \<Longrightarrow> x \<noteq> xs ! i"
  then have "x \<noteq> xs ! i" using True by simp
  with x show ?thesis by (subst (asm) id_take_nth_drop [OF True]) (auto simp: remove_nth_def)
qed (simp add: remove_nth_def)

lemma set_remove_nth_subset: "set (remove_nth i xs) \<subseteq> set xs"
  by (auto simp: remove_nth_def dest: in_set_takeD in_set_dropD)

lemma map_remove_nth: "map f (remove_nth i xs) = remove_nth i (map f xs)"
  by (simp add: remove_nth_def take_map drop_map)

lemma distinct_remove_nth: "distinct xs \<Longrightarrow> distinct (remove_nth i xs)"
  unfolding remove_nth_def by (auto simp: set_take_disj_set_drop_if_distinct)

lemma set_update_other: "\<lbrakk>x \<in> set xs; x \<noteq> xs ! i\<rbrakk> \<Longrightarrow> x \<in> set (xs[i := y])"
  by (metis in_set_conv_nth length_list_update nth_list_update_neq)

lemma map_update_same: "i < length xs \<Longrightarrow> f y = f (xs ! i) \<Longrightarrow> map f (xs[i := y]) = map f xs"
  by (simp add: map_update list_update_same_conv)

subsection \<open>The counters\<close>

lemma running_upd:
  "finite (dom m) \<Longrightarrow> running (m(u := x)) + weight_at (\<lambda>_ r. of_bool (active r)) u (m u)
     = weight_at (\<lambda>_ r. of_bool (active r)) u x + running m"
  unfolding running_def by (rule msum_upd)

lemma running_pos: "\<lbrakk>books_ok s; sessions s u = Some r; active r\<rbrakk> \<Longrightarrow> active_replays s \<noteq> 0"
  using msum_member_le [of "sessions s" u r "\<lambda>_ r. of_bool (active r)"] by (auto simp: books_ok_def running_def)

lemma unat_pred: "(x::u64) \<noteq> 0 \<Longrightarrow> unat (x - 1) = unat x - 1"
  by (simp add: unat_minus_one)

lemma unat_succ_below: "(x::u64) < m \<Longrightarrow> unat (x + 1) = unat x + 1 \<and> x + 1 \<le> m"
proof -
  assume less: "x < m"
  then have "x \<noteq> - 1" by (metis word_order.extremum_strict)
  then have "x + 1 \<noteq> 0" using next_less [of x] by auto
  with less show ?thesis using succ_word_nonzero_unat [of x] by (auto simp: inc_le)
qed

lemma card_dom_update: "\<lbrakk>finite (dom m); m u \<noteq> None\<rbrakk> \<Longrightarrow> card (dom (m(u \<mapsto> r))) = card (dom m)"
  by (auto simp: insert_absorb domI)

text \<open>Replacing the session of \<open>u\<close>: the counter changes by the difference between the two, the bound on the number of
  sessions is the caller's.\<close>

lemma books_session:
  assumes "books_ok s" and "\<not> recovery_stopped s" and "card (dom ((sessions s)(u := x))) \<le> max_session_states s"
    and "unat n + weight_at (\<lambda>_ r. of_bool (active r)) u (sessions s u) = weight_at (\<lambda>_ r. of_bool (active r)) u x + unat (active_replays s)"
    and "n \<le> max_active_replays s"
  shows "books_ok (s\<lparr>active_replays := n, sessions := (sessions s)(u := x)\<rparr>)"
  using assms running_upd [of "sessions s" u x] by (auto simp: books_ok_def)

lemma books_release:
  assumes "books_ok s" and "\<not> recovery_stopped s" and "sessions s u = Some r" and "card (dom ((sessions s)(u := x))) \<le> max_session_states s"
    and "weight_at (\<lambda>_ r. of_bool (active r)) u x = (0::nat)"
  shows "books_ok (s\<lparr>active_replays := (if active r then active_replays s - 1 else active_replays s), sessions := (sessions s)(u := x)\<rparr>)"
proof (rule books_session [OF assms(1,2,4)])
  have pos: "active r \<Longrightarrow> active_replays s \<noteq> 0" using running_pos assms by blast
  then have "active r \<Longrightarrow> unat (active_replays s) > 0" by (simp add: unat_gt_0)
  with assms pos show "unat (if active r then active_replays s - 1 else active_replays s)
      + weight_at (\<lambda>_ r. of_bool (active r)) u (sessions s u) = weight_at (\<lambda>_ r. of_bool (active r)) u x + unat (active_replays s)"
    by (simp add: unat_pred)
  show "(if active r then active_replays s - 1 else active_replays s) \<le> max_active_replays s"
  proof (cases "active r")
    case True
    then have "unat (active_replays s - 1) \<le> unat (active_replays s)" using pos unat_pred by simp
    with True assms(1) show ?thesis by (auto simp: books_ok_def word_le_nat_alt)
  qed (use assms(1) in \<open>simp add: books_ok_def\<close>)
qed

lemma books_finish:
  assumes "books_ok s" and "\<not> recovery_stopped s" and "sessions s u = Some r" and "active r"
  shows "books_ok (s\<lparr>sessions := (sessions s)(u \<mapsto> r'\<lparr>active := False\<rparr>), active_replays := active_replays s - 1\<rparr>)"
  using books_release [OF assms(1,2,3), of "Some (r'\<lparr>active := False\<rparr>)"] assms card_dom_update [of "sessions s" u]
  by (simp add: books_ok_def)

lemma books_Retire: "books_ok s \<Longrightarrow> books_ok (Retire user epoch s)"
proof (cases "sessions s user")
  case (Some r)
  assume ok: "books_ok s"
  then have run: "\<not> recovery_stopped s" using Some by (auto simp: books_ok_def)
  have "card (dom ((sessions s)(user := None))) \<le> max_session_states s"
    using ok card_dom_delete [of "sessions s" user] by (auto simp: books_ok_def)
  from books_release [OF ok run Some this] Some ok show ?thesis by (auto simp: Retire_def)
qed (simp add: Retire_def)

lemma books_supersede:
  assumes "books_ok s" and "\<not> recovery_stopped s" and "sessions s u = Some r"
  shows "books_ok (supersede u epoch r s)"
  using books_release [OF assms, of "Some (fresh_state epoch)"] assms card_dom_update [of "sessions s" u]
  by (simp add: supersede_def fresh_state_def books_ok_def)

lemma books_start:
  assumes "books_ok s" and "\<not> recovery_stopped s" and "card (dom ((sessions s)(u \<mapsto> r'))) \<le> max_session_states s"
    and "\<And>r. sessions s u = Some r \<Longrightarrow> \<not> active r" and "active_replays s < max_active_replays s"
  shows "books_ok (snd (start_replay u r s))"
proof -
  have weight: "weight_at (\<lambda>_ r. of_bool (active r)) u (sessions s u) = (0::nat)" using assms(4) by (cases "sessions s u") auto
  have "books_ok (s\<lparr>active_replays := active_replays s + 1, sessions := (sessions s)(u \<mapsto> r\<lparr>replay_gen := g, active := True\<rparr>)\<rparr>)" for g
    by (rule books_session) (use assms weight unat_succ_below [OF assms(5)] in \<open>auto simp: insert_absorb\<close>)
  then show ?thesis by (simp add: start_replay_def Let_def books_ok_def)
qed

lemma books_BeginReplay:
  assumes "books_ok s"
  shows "books_ok (snd (BeginReplay user epoch s))"
proof (cases "recovery_stopped s \<or> user = 0 \<or> epoch = 0")
  case False
  then have run: "\<not> recovery_stopped s" by simp
  show ?thesis
  proof (cases "sessions s user")
    case None
    then have "card (dom ((sessions s)(user \<mapsto> r))) = Suc (card (dom (sessions s)))" for r
      using assms card_dom_insert [of "sessions s" user r] by (auto simp: books_ok_def)
    with books_start [OF assms run, of user _ "fresh_state epoch"] None assms show ?thesis by (auto simp: BeginReplay_def not_le)
  next
    case (Some r)
    let ?s = "supersede user epoch r s"
    have ok: "books_ok ?s" and run': "\<not> recovery_stopped ?s"
      using books_supersede [OF assms run Some] run by (simp_all add: supersede_def)
    obtain r1 where r1: "sessions ?s user = Some r1" using Some by (cases "replay_epoch r = epoch") (auto simp: supersede_def)
    then have "card (dom ((sessions ?s)(user \<mapsto> r'))) \<le> max_session_states ?s" for r'
      using ok card_dom_update [of "sessions ?s" user r'] by (auto simp: books_ok_def)
    from books_start [OF ok run' this] r1 Some assms ok show ?thesis by (auto simp: BeginReplay_def Let_def not_le)
  qed
qed (use assms in \<open>auto simp: BeginReplay_def\<close>)

subsection \<open>The leases\<close>

lemma map_ball: "map f xs = map f ys \<Longrightarrow> (\<forall>x\<in>set xs. P (f x)) \<longleftrightarrow> (\<forall>y\<in>set ys. P (f y))"
proof -
  assume "map f xs = map f ys"
  then have "(\<forall>z\<in>set (map f xs). P z) \<longleftrightarrow> (\<forall>z\<in>set (map f ys). P z)" by simp
  then show ?thesis by simp
qed

text \<open>A change that activates no session keeps the leases in order.\<close>

lemma replays_keep:
  assumes "replays_ok n s ls" and "replay_generation s' = replay_generation s"
    and "\<And>u r. sessions s' u = Some r \<Longrightarrow> active r \<Longrightarrow> sessions s u = Some r"
  shows "replays_ok n s' ls"
  using assms by (auto simp: replays_ok_def)

lemma replays_update:
  assumes "replays_ok n s ls" and "i < length ls" and "attempt_gen a = attempt_gen (ls ! i)"
    and "\<And>u r. sessions s u = Some r \<Longrightarrow> active r \<Longrightarrow> holds_replay u r (ls ! i) \<Longrightarrow> holds_replay u r a"
  shows "replays_ok n s (ls[i := a])"
proof -
  have gens: "map attempt_gen (ls[i := a]) = map attempt_gen ls" using assms(2,3) by (rule map_update_same)
  have "\<forall>b\<in>set (ls[i := a]). attempt_gen b \<le> replay_generation s"
    using assms(1) map_ball [OF gens, of "\<lambda>g. g \<le> replay_generation s"] by (simp add: replays_ok_def)
  moreover have "\<exists>b\<in>set (ls[i := a]). holds_replay u r b" if here: "sessions s u = Some r" "active r" for u r
  proof -
    obtain b where b: "b \<in> set ls" "holds_replay u r b" using assms(1) here unfolding replays_ok_def by blast
    show ?thesis
    proof (cases "b = ls ! i")
      case True
      with assms(2,4) here b show ?thesis by (auto intro: set_update_memI)
    next
      case False
      with b set_update_other show ?thesis by metis
    qed
  qed
  ultimately show ?thesis using assms(1) gens by (auto simp: replays_ok_def)
qed

lemma replays_remove:
  assumes "replays_ok n s ls" and "\<And>u r. i < length ls \<Longrightarrow> sessions s u = Some r \<Longrightarrow> active r \<Longrightarrow> \<not> holds_replay u r (ls ! i)"
  shows "replays_ok n s (remove_nth i ls)"
proof -
  have "\<exists>b\<in>set (remove_nth i ls). holds_replay u r b" if here: "sessions s u = Some r" "active r" for u r
  proof -
    obtain b where b: "b \<in> set ls" "holds_replay u r b" using assms(1) here unfolding replays_ok_def by blast
    moreover have "i < length ls \<Longrightarrow> b \<noteq> ls ! i" using b assms(2) here by metis
    ultimately show ?thesis using set_remove_nth_other by metis
  qed
  with assms(1) set_remove_nth_subset [of i ls] show ?thesis
    by (auto simp: replays_ok_def map_remove_nth distinct_remove_nth)
qed

lemma queries_keep:
  assumes "queries_ok n s ls" and "query_generation s' = query_generation s" and "query_active s' \<Longrightarrow> query_active s \<and> cursor s' = cursor s"
  shows "queries_ok n s' ls"
  using assms by (auto simp: queries_ok_def holds_query_def)

lemma queries_next:
  assumes "queries_ok n s ls" and "query_generation s' = query_generation s + 1" and "\<not> query_active s'" and "Suc n < 2 ^ 64"
  shows "queries_ok (Suc n) s' ls"
proof -
  have "unat (query_generation s + 1) = unat (query_generation s) + 1 \<and> query_generation s \<le> query_generation s + 1"
    using assms(1,4) by (auto simp: queries_ok_def unat_word_ariths word_le_nat_alt)
  with assms show ?thesis by (fastforce simp: queries_ok_def)
qed

lemma queries_update:
  assumes "queries_ok n s ls" and "i < length ls" and "query_gen a = query_gen (ls ! i)" and "query_active s \<Longrightarrow> holds_query s (ls ! i) \<Longrightarrow> holds_query s a"
  shows "queries_ok n s (ls[i := a])"
proof -
  have gens: "map query_gen (ls[i := a]) = map query_gen ls" using assms(2,3) by (rule map_update_same)
  have "\<forall>b\<in>set (ls[i := a]). query_gen b \<le> query_generation s"
    using assms(1) map_ball [OF gens, of "\<lambda>g. g \<le> query_generation s"] by (simp add: queries_ok_def)
  moreover have "\<exists>b\<in>set (ls[i := a]). holds_query s b" if "query_active s"
    using assms that set_update_other [of _ ls i a] set_update_memI [OF assms(2), of a] by (metis queries_ok_def)
  ultimately show ?thesis using assms(1) gens by (auto simp: queries_ok_def)
qed

lemma queries_remove:
  assumes "queries_ok n s ls" and "i < length ls \<Longrightarrow> query_active s \<Longrightarrow> \<not> holds_query s (ls ! i)"
  shows "queries_ok n s (remove_nth i ls)"
proof -
  have "\<exists>b\<in>set (remove_nth i ls). holds_query s b" if here: "query_active s"
  proof -
    obtain b where b: "b \<in> set ls" "holds_query s b" using assms(1) here unfolding queries_ok_def by blast
    moreover have "i < length ls \<Longrightarrow> b \<noteq> ls ! i" using b assms(2) here by metis
    ultimately show ?thesis using set_remove_nth_other by metis
  qed
  with assms(1) set_remove_nth_subset [of i ls] show ?thesis
    by (auto simp: queries_ok_def map_remove_nth distinct_remove_nth)
qed

lemma leases_mono: "\<lbrakk>replays_ok n s ls; n \<le> m\<rbrakk> \<Longrightarrow> replays_ok m s ls" "\<lbrakk>queries_ok n s qs; n \<le> m\<rbrakk> \<Longrightarrow> queries_ok m s qs"
  by (auto simp: replays_ok_def queries_ok_def)

subsection \<open>Every operation keeps the invariant\<close>

lemma replay_current_holds:
  "replay_CurrentLocked a s \<Longrightarrow> \<exists>r. sessions s (attempt_user a) = Some r \<and> active r \<and> holds_replay (attempt_user a) r a \<and> \<not> recovery_stopped s"
  by (auto simp: replay_CurrentLocked_def holds_replay_def split: option.splits)

lemma finish_ok:
  assumes "books_ok s" and "replays_ok n s ls" and "i < length ls" and "replay_CurrentLocked (ls ! i) s"
  shows "books_ok (snd (FinishLocked (ls ! i) r' s)) \<and> replays_ok n (snd (FinishLocked (ls ! i) r' s)) (ls[i := fst (FinishLocked (ls ! i) r' s)])"
proof -
  let ?a = "ls ! i" and ?s = "snd (FinishLocked (ls ! i) r' s)"
  obtain r where r: "sessions s (attempt_user ?a) = Some r" "active r" "\<not> recovery_stopped s"
    using replay_current_holds [OF assms(4)] by auto
  have "replays_ok n ?s ls"
    by (rule replays_keep [OF assms(2)]) (auto simp: FinishLocked_def split: if_splits)
  then have "replays_ok n ?s (ls[i := fst (FinishLocked ?a r' s)])"
    by (rule replays_update [OF _ assms(3)]) (auto simp: FinishLocked_def holds_replay_def split: if_splits)
  moreover have "books_ok ?s" using books_finish [OF assms(1) r(3,1,2)] by (simp add: FinishLocked_def)
  ultimately show ?thesis by simp
qed

lemma queries_FinishLocked: "queries_ok n (snd (FinishLocked a r s)) qs = queries_ok n s qs"
  by (auto simp: queries_ok_def holds_query_def FinishLocked_def)

lemma replay_Complete_ok:
  assumes "recovery_ok n y"
  shows "recovery_ok n (on_replay i (\<lambda>a s. snd (replay_Complete m hm a s)) y)"
  using assms finish_ok [of "coordinator y" n "replays y" i] queries_FinishLocked
  by (auto simp: on_replay_def recovery_ok_def replay_Complete_def split: prod.splits) (metis fst_conv snd_conv)+

lemma Release_ok:
  assumes "recovery_ok n y"
  shows "recovery_ok n (on_replay i Release y)"
proof (cases "i < length (replays y) \<and> replay_CurrentLocked (replays y ! i) (coordinator y)")
  case True
  let ?a = "replays y ! i" and ?s = "coordinator y"
  have "fst (Release ?a ?s) = fst (FinishLocked ?a (the (sessions ?s (attempt_user ?a))) ?s)"
       "snd (Release ?a ?s) = snd (FinishLocked ?a (the (sessions ?s (attempt_user ?a))) ?s)"
    using True by (simp_all add: Release_def FinishLocked_def)
  with True assms finish_ok [of ?s n "replays y" i "the (sessions ?s (attempt_user ?a))"] show ?thesis
    by (simp add: on_replay_def recovery_ok_def queries_FinishLocked split: prod.splits) (metis fst_conv snd_conv queries_FinishLocked)
next
  case False
  show ?thesis
  proof (cases "i < length (replays y)")
    case True
    let ?a = "replays y ! i" and ?s = "coordinator y"
    have stale: "\<not> replay_CurrentLocked ?a ?s" using False True by simp
    have "replays_ok n ?s (replays y)" using assms by (simp add: recovery_ok_def)
    then have "replays_ok n ?s ((replays y)[i := ?a\<lparr>attempt_finished := True\<rparr>])"
    proof (rule replays_update [OF _ True])
      fix u r assume "sessions ?s u = Some r" "active r" "holds_replay u r ?a"
      moreover from this have "\<not> recovery_stopped ?s" using assms by (auto simp: recovery_ok_def books_ok_def)
      ultimately have "replay_CurrentLocked ?a ?s" by (auto simp: replay_CurrentLocked_def holds_replay_def)
      with stale show "holds_replay u r (?a\<lparr>attempt_finished := True\<rparr>)" by simp
    qed simp
    with True stale assms show ?thesis by (simp add: on_replay_def Release_def recovery_ok_def)
  qed (use assms in \<open>simp add: on_replay_def\<close>)
qed

lemma on_replay_length: "length (replays (on_replay i f y)) = length (replays y)"
  by (auto simp: on_replay_def split: prod.splits)

lemma Release_finished: "i < length (replays y) \<Longrightarrow> attempt_finished (replays (on_replay i Release y) ! i)"
  by (simp add: on_replay_def Release_def split: prod.splits)

lemma replay_destroy_ok: "recovery_ok n y \<Longrightarrow> recovery_ok n (recovery_step (OpReplayDestroy i) y)"
proof -
  assume "recovery_ok n y"
  then have ok: "recovery_ok n (on_replay i Release y)" by (rule Release_ok)
  have "replays_ok n (coordinator (on_replay i Release y)) (remove_nth i (replays (on_replay i Release y)))"
    by (rule replays_remove) (use ok Release_finished [of i y] on_replay_length [of i Release y] in \<open>auto simp: recovery_ok_def holds_replay_def\<close>)
  with ok show ?thesis by (simp add: recovery_ok_def Let_def)
qed

lemma query_current_holds: "queries_ok n s qs \<Longrightarrow> i < length qs \<Longrightarrow> query_CurrentLocked (qs ! i) s \<Longrightarrow> holds_query s (qs ! i)"
proof -
  assume ok: "queries_ok n s qs" and i: "i < length qs" and cur: "query_CurrentLocked (qs ! i) s"
  obtain b where b: "b \<in> set qs" "holds_query s b" using ok cur by (auto simp: queries_ok_def query_CurrentLocked_def)
  then obtain j where j: "j < length qs" "qs ! j = b" by (auto simp: in_set_conv_nth)
  have "map query_gen qs ! i = map query_gen qs ! j" using b i j cur by (simp add: holds_query_def query_CurrentLocked_def)
  with ok i j have "i = j" using nth_eq_iff_index_eq [of "map query_gen qs" i j] by (simp add: queries_ok_def)
  with b j show ?thesis by simp
qed

text \<open>The two ways in which the current query ends.\<close>

lemma query_ended_ok:
  assumes "recovery_ok n y" and "i < length (queries y)"
  shows "queries_ok n ((coordinator y)\<lparr>recipients := ids, cursor := c, next_query := t, query_active := False\<rparr>)
           ((queries y)[i := (queries y ! i)\<lparr>query_finished := True\<rparr>])"
proof (rule queries_update [OF _ assms(2)])
  show "queries_ok n ((coordinator y)\<lparr>recipients := ids, cursor := c, next_query := t, query_active := False\<rparr>) (queries y)"
    by (rule queries_keep [of _ "coordinator y"]) (use assms(1) in \<open>auto simp: recovery_ok_def\<close>)
qed simp_all

lemma query_stale_ok:
  assumes "recovery_ok n y" and "i < length (queries y)" and "\<not> query_CurrentLocked (queries y ! i) (coordinator y)"
  shows "queries_ok n (coordinator y) ((queries y)[i := (queries y ! i)\<lparr>query_finished := True\<rparr>])"
proof (rule queries_update [OF _ assms(2)])
  show "queries_ok n (coordinator y) (queries y)" using assms(1) by (simp add: recovery_ok_def)
  assume "query_active (coordinator y)" "holds_query (coordinator y) (queries y ! i)"
  moreover from this have "\<not> recovery_stopped (coordinator y)" using assms(1) by (auto simp: recovery_ok_def books_ok_def)
  ultimately show "holds_query (coordinator y) ((queries y ! i)\<lparr>query_finished := True\<rparr>)"
    using assms(3) by (auto simp: query_CurrentLocked_def holds_query_def)
qed simp

lemma query_Complete_ok:
  assumes "recovery_ok n y"
  shows "recovery_ok n (on_query i (\<lambda>a s. snd (query_Complete ids hm now a s)) y)"
proof (cases "i < length (queries y) \<and> fst (query_Complete ids hm now (queries y ! i) (coordinator y))")
  case True
  let ?a = "queries y ! i" and ?s = "coordinator y"
  obtain c where c: "snd (query_Complete ids hm now ?a ?s) =
      (?a\<lparr>query_finished := True\<rparr>, ?s\<lparr>recipients := ids, cursor := c, next_query := now + interval ?s, query_active := False\<rparr>)"
      and cur: "query_CurrentLocked ?a ?s"
    using True by (simp add: query_Complete_def split: if_splits option.splits)
  have "replays_ok n (?s\<lparr>recipients := ids, cursor := c, next_query := now + interval ?s, query_active := False\<rparr>) (replays y)"
    by (rule replays_keep [of _ ?s]) (use assms in \<open>auto simp: recovery_ok_def\<close>)
  moreover have "books_ok (?s\<lparr>recipients := ids, cursor := c, next_query := now + interval ?s, query_active := False\<rparr>)"
    using assms cur by (auto simp: recovery_ok_def books_ok_def query_CurrentLocked_def)
  ultimately show ?thesis
    using True c query_ended_ok [OF assms, of i] by (simp add: on_query_def recovery_ok_def)
next
  case False
  then have "i < length (queries y) \<Longrightarrow> snd (query_Complete ids hm now (queries y ! i) (coordinator y)) = (queries y ! i, coordinator y)"
    by (auto simp: query_Complete_def split: option.splits if_splits)
  with assms show ?thesis by (simp add: on_query_def)
qed

lemma query_Fail_ok:
  assumes "recovery_ok n y"
  shows "recovery_ok n (on_query i (query_Fail now) y)"
proof (cases "i < length (queries y) \<and> query_CurrentLocked (queries y ! i) (coordinator y)")
  case True
  let ?s = "coordinator y"
  let ?s' = "?s\<lparr>query_active := False, next_query := now + backoff_delay ?s\<rparr>"
  have "queries_ok n ?s' ((queries y)[i := (queries y ! i)\<lparr>query_finished := True\<rparr>])"
    using query_ended_ok [OF assms, where i = i and ids = "recipients ?s" and c = "cursor ?s" and t = "now + backoff_delay ?s"] True
    by (simp add: queries_ok_def holds_query_def)
  moreover have "books_ok ?s'" using assms by (auto simp: recovery_ok_def books_ok_def)
  moreover have "replays_ok n ?s' (replays y)"
    by (rule replays_keep [of _ ?s]) (use assms in \<open>auto simp: recovery_ok_def\<close>)
  ultimately show ?thesis using True by (simp add: on_query_def query_Fail_def recovery_ok_def)
next
  case False
  with assms query_stale_ok [OF assms, of i] show ?thesis by (auto simp: on_query_def query_Fail_def recovery_ok_def)
qed

lemma query_destroy_ok: "recovery_ok n y \<Longrightarrow> recovery_ok n (recovery_step (OpQueryDestroy i now) y)"
proof -
  assume "recovery_ok n y"
  then have ok: "recovery_ok n (on_query i (query_Fail now) y)" by (rule query_Fail_ok)
  have "queries_ok n (coordinator (on_query i (query_Fail now) y)) (remove_nth i (queries (on_query i (query_Fail now) y)))"
    by (rule queries_remove) (use ok in \<open>auto simp: recovery_ok_def holds_query_def on_query_def query_Fail_def\<close>)
  with ok show ?thesis by (simp add: recovery_ok_def Let_def)
qed

lemma AcquireQuery_ok:
  assumes "recovery_ok n y" and "Suc n < 2 ^ 64"
  shows "recovery_ok (Suc n) (recovery_step (OpAcquireQuery now) y)"
proof (cases "fst (AcquireQuery now (coordinator y))")
  case None
  then have "snd (AcquireQuery now (coordinator y)) = coordinator y"
    by (auto simp: AcquireQuery_def Let_def split: if_splits)
  with None assms leases_mono show ?thesis by (auto simp: recovery_ok_def Let_def split: prod.splits)
next
  case (Some a)
  let ?s = "coordinator y"
  have "queries_ok n ?s (queries y)" using assms(1) by (simp add: recovery_ok_def)
  moreover have step: "unat (query_generation ?s + 1) = unat (query_generation ?s) + 1"
    using calculation assms(2) by (auto simp: queries_ok_def unat_word_ariths)
  ultimately have "queries_ok (Suc n) (snd (AcquireQuery now ?s)) (queries y @ [a])"
    using Some by (auto simp: queries_ok_def AcquireQuery_def Let_def holds_query_def word_le_nat_alt split: if_splits)
  moreover have "replays_ok (Suc n) (snd (AcquireQuery now ?s)) (replays y)"
    by (rule leases_mono(1) [OF replays_keep [of n ?s]]) (use assms(1) in \<open>auto simp: recovery_ok_def AcquireQuery_def Let_def split: if_splits\<close>)
  moreover have "books_ok (snd (AcquireQuery now ?s))"
    using assms(1) by (auto simp: recovery_ok_def books_ok_def AcquireQuery_def Let_def)
  ultimately show ?thesis using Some by (auto simp: recovery_ok_def split: prod.splits)
qed

lemma replays_start:
  assumes "replays_ok n s ls" and "Suc n < 2 ^ 64" and "start_replay u r s = (Some a, s')"
  shows "replays_ok (Suc n) s' (ls @ [a])"
proof -
  have succ: "unat (replay_generation s + 1) = unat (replay_generation s) + 1"
    using assms(1,2) by (auto simp: replays_ok_def unat_word_ariths)
  then have less: "replay_generation s < replay_generation s + 1" by (simp add: word_less_nat_alt)
  have old: "attempt_gen b < replay_generation s + 1" if "b \<in> set ls" for b
    using assms(1) that less by (auto simp: replays_ok_def)
  have held: "\<exists>b\<in>set ls. holds_replay v r' b" if "sessions s v = Some r'" "active r'" for v r'
    using assms(1) that by (simp add: replays_ok_def)
  have a: "a = \<lparr>attempt_user = u, attempt_epoch = replay_epoch r, attempt_gen = replay_generation s + 1,
        attempt_cursor = replay_cursor r, attempt_finished = False\<rparr>"
    and s': "replay_generation s' = replay_generation s + 1" "sessions s' = (sessions s)(u \<mapsto> r\<lparr>replay_gen := replay_generation s + 1, active := True\<rparr>)"
    using assms(3) by (auto simp: start_replay_def Let_def)
  have "unat (replay_generation s + 1) \<le> Suc n" using succ assms(1) by (simp add: replays_ok_def)
  moreover have "distinct (map attempt_gen (ls @ [a]))" using assms(1) old a by (fastforce simp: replays_ok_def)
  moreover have "\<exists>b\<in>set (ls @ [a]). holds_replay v r' b" if "sessions s' v = Some r'" "active r'" for v r'
    using held [of v r'] that a s'(2) by (auto simp: holds_replay_def split: if_splits)
  ultimately show ?thesis using old a s'(1) by (auto simp: replays_ok_def intro: less_imp_le)
qed

lemma replays_supersede:
  "replays_ok n s ls \<Longrightarrow> replays_ok n (supersede u epoch r s) ls"
  by (erule replays_keep) (auto simp: supersede_def fresh_state_def split: if_splits)

definition with_lease :: "'a option \<Rightarrow> 'a list \<Rightarrow> 'a list" where
  "with_lease x ls = ls @ (case x of None \<Rightarrow> [] | Some a \<Rightarrow> [a])"

lemma replays_BeginReplay:
  assumes "replays_ok n s ls" and "Suc n < 2 ^ 64"
  shows "replays_ok (Suc n) (snd (BeginReplay user epoch s)) (with_lease (fst (BeginReplay user epoch s)) ls)"
proof -
  have started: "replays_ok (Suc n) (snd (start_replay user r s')) (with_lease (fst (start_replay user r s')) ls)"
    if "replays_ok n s' ls" for r s'
    using replays_start [OF that assms(2), of user r] by (simp add: start_replay_def Let_def with_lease_def)
  have kept: "replays_ok (Suc n) s (with_lease None ls)" "replays_ok (Suc n) (supersede user epoch r s) (with_lease None ls)" for r
    using leases_mono(1) [OF assms(1) le_SucI [OF order_refl]] leases_mono(1) [OF replays_supersede [OF assms(1)] le_SucI [OF order_refl]]
    by (simp_all add: with_lease_def)
  show ?thesis
    using started [OF assms(1)] started [OF replays_supersede [OF assms(1)]] kept
    by (auto simp: BeginReplay_def Let_def split: option.splits)
qed

lemma queries_BeginReplay: "queries_ok n (snd (BeginReplay user epoch s)) qs = queries_ok n s qs"
  by (auto simp: BeginReplay_def Let_def supersede_def start_replay_def queries_ok_def holds_query_def split: option.splits)

lemma BeginReplay_ok:
  assumes "recovery_ok n y" and "Suc n < 2 ^ 64"
  shows "recovery_ok (Suc n) (recovery_step (OpBeginReplay user epoch) y)"
proof -
  let ?b = "BeginReplay user epoch (coordinator y)"
  have "books_ok (snd ?b)" using assms(1) by (simp add: recovery_ok_def books_BeginReplay)
  moreover have "replays_ok (Suc n) (snd ?b) (with_lease (fst ?b) (replays y))"
    using assms by (intro replays_BeginReplay) (simp_all add: recovery_ok_def)
  moreover have "queries_ok (Suc n) (snd ?b) (queries y)"
    unfolding queries_BeginReplay using assms(1) leases_mono(2) by (auto simp: recovery_ok_def)
  ultimately show ?thesis by (auto simp: recovery_ok_def with_lease_def split: prod.splits option.splits)
qed

lemma lifecycle_ok:
  assumes "recovery_ok n y" and "Suc n < 2 ^ 64"
  shows "recovery_ok (Suc n) (recovery_step OpResume y)" "recovery_ok (Suc n) (recovery_step OpStop y)"
proof -
  have ok: "books_ok (coordinator y)" "replays_ok n (coordinator y) (replays y)" "queries_ok n (coordinator y) (queries y)"
    using assms(1) by (simp_all add: recovery_ok_def)
  have books: "books_ok (Resume (coordinator y))" "books_ok (recovery_Stop (coordinator y))"
    using ok(1) by (simp_all add: books_ok_def Resume_def recovery_Stop_def running_def)
  have "replays_ok n (Resume (coordinator y)) (replays y)" "replays_ok n (recovery_Stop (coordinator y)) (replays y)"
    by (rule replays_keep [OF ok(2)]; simp add: Resume_def recovery_Stop_def)+
  moreover have "queries_ok (Suc n) (Resume (coordinator y)) (queries y)" "queries_ok (Suc n) (recovery_Stop (coordinator y)) (queries y)"
    by (rule queries_next [OF ok(3) _ _ assms(2)]; simp add: Resume_def recovery_Stop_def)+
  ultimately show "recovery_ok (Suc n) (recovery_step OpResume y)" "recovery_ok (Suc n) (recovery_step OpStop y)"
    using books leases_mono(1) [OF _ le_SucI [OF order_refl]] by (simp_all add: recovery_ok_def)
qed

lemma take_retire_ok:
  assumes "recovery_ok n y"
  shows "recovery_ok n (recovery_step (OpTakeRecipients budget) y)" "recovery_ok n (recovery_step (OpRetire user epoch) y)"
proof -
  have ok: "books_ok (coordinator y)" "replays_ok n (coordinator y) (replays y)" "queries_ok n (coordinator y) (queries y)"
    using assms by (simp_all add: recovery_ok_def)
  have "books_ok (snd (TakeRecipients budget (coordinator y)))"
    using ok(1) by (auto simp: books_ok_def TakeRecipients_def Let_def)
  moreover have "replays_ok n (snd (TakeRecipients budget (coordinator y))) (replays y)" "replays_ok n (Retire user epoch (coordinator y)) (replays y)"
    by (rule replays_keep [OF ok(2)]; auto simp: TakeRecipients_def Retire_def Let_def split: if_splits option.splits)+
  moreover have "queries_ok n (snd (TakeRecipients budget (coordinator y))) (queries y)" "queries_ok n (Retire user epoch (coordinator y)) (queries y)"
    by (rule queries_keep [OF ok(3)]; auto simp: TakeRecipients_def Retire_def Let_def split: if_splits option.splits)+
  ultimately show "recovery_ok n (recovery_step (OpTakeRecipients budget) y)" "recovery_ok n (recovery_step (OpRetire user epoch) y)"
    using books_Retire [OF ok(1)] by (simp_all add: recovery_ok_def)
qed

lemma recovery_step_ok:
  assumes "recovery_ok n y" and "Suc n < 2 ^ 64"
  shows "recovery_ok (Suc n) (recovery_step op y)"
proof -
  have mono: "recovery_ok n y' \<Longrightarrow> recovery_ok (Suc n) y'" for y' using leases_mono le_SucI by (auto simp: recovery_ok_def)
  show ?thesis
    using lifecycle_ok [OF assms] AcquireQuery_ok [OF assms] BeginReplay_ok [OF assms] query_Complete_ok [OF assms(1)]
      query_Fail_ok [OF assms(1)] query_destroy_ok [OF assms(1)] replay_Complete_ok [OF assms(1)] replay_destroy_ok [OF assms(1)]
      take_retire_ok [OF assms(1)]
    by (cases op) (auto intro!: mono simp del: recovery_step.simps simp: recovery_step.simps(4,5,9))
qed

lemma recovery_new_ok: "recovery_ok 0 (Recovery_new opts)"
  by (auto simp: recovery_ok_def Recovery_new_def DurablePrivateRecovery_new_def books_ok_def replays_ok_def queries_ok_def running_def)

lemma recovery_run_ok: "\<lbrakk>recovery_ok n y; n + length ops < 2 ^ 64\<rbrakk> \<Longrightarrow> recovery_ok (n + length ops) (recovery_run ops y)"
proof (induction ops arbitrary: n y)
  case (Cons op ops)
  then have "recovery_ok (Suc n) (recovery_step op y)" by (intro recovery_step_ok) auto
  with Cons show ?case using Cons.IH [of "Suc n" "recovery_step op y"] by simp
qed simp

section \<open>Properties\<close>

lemma recovery_step_limits:
  "max_session_states (coordinator (recovery_step op y)) = max_session_states (coordinator y)
    \<and> max_active_replays (coordinator (recovery_step op y)) = max_active_replays (coordinator y)"
  by (cases op)
    (auto simp: Resume_def recovery_Stop_def AcquireQuery_def TakeRecipients_def BeginReplay_def Retire_def supersede_def start_replay_def
      on_query_def on_replay_def query_Complete_def query_Fail_def replay_Complete_def Release_def FinishLocked_def Let_def
      split: prod.splits option.splits)

lemma recovery_run_limits:
  "max_session_states (coordinator (recovery_run ops y)) = max_session_states (coordinator y)
    \<and> max_active_replays (coordinator (recovery_run ops y)) = max_active_replays (coordinator y)"
  by (induction ops arbitrary: y) (auto simp: recovery_step_limits)

lemma running_card: "finite (dom m) \<Longrightarrow> running m = card {u. \<exists>r. m u = Some r \<and> active r}"
proof -
  assume "finite (dom m)"
  then have "running m = card {u \<in> dom m. active (the (m u))}"
    unfolding running_def msum_def by (simp add: sum.If_cases of_bool_def Int_def)
  moreover have "{u \<in> dom m. active (the (m u))} = {u. \<exists>r. m u = Some r \<and> active r}" by auto
  ultimately show ?thesis by simp
qed

lemma distinct_map_ex1:
  assumes "distinct (map f xs)" and "\<exists>x\<in>set xs. P x" and "\<And>x y. P x \<Longrightarrow> P y \<Longrightarrow> f x = f y"
  shows "\<exists>!i. i < length xs \<and> P (xs ! i)"
proof (rule ex_ex1I)
  show "\<exists>i. i < length xs \<and> P (xs ! i)" using assms(2) by (metis in_set_conv_nth)
  fix i j assume "i < length xs \<and> P (xs ! i)" "j < length xs \<and> P (xs ! j)"
  with assms(3) have "i < length xs" "j < length xs" "map f xs ! i = map f xs ! j" by auto
  with assms(1) show "i = j" using nth_eq_iff_index_eq [of "map f xs" i j] by simp
qed

lemma current_replay_unique:
  assumes "recovery_ok n y" and "sessions (coordinator y) u = Some r" and "active r"
  shows "\<exists>!i. i < length (replays y) \<and> replay_CurrentLocked (replays y ! i) (coordinator y) \<and> attempt_user (replays y ! i) = u"
proof (rule distinct_map_ex1 [where f = attempt_gen])
  let ?s = "coordinator y"
  show "distinct (map attempt_gen (replays y))" using assms(1) by (simp add: recovery_ok_def replays_ok_def)
  obtain a where a: "a \<in> set (replays y)" "holds_replay u r a" using assms unfolding recovery_ok_def replays_ok_def by blast
  moreover have "\<not> recovery_stopped ?s" using assms by (auto simp: recovery_ok_def books_ok_def)
  ultimately show "\<exists>a\<in>set (replays y). replay_CurrentLocked a ?s \<and> attempt_user a = u"
    using assms(2,3) by (intro bexI [of _ a]) (auto simp: replay_CurrentLocked_def holds_replay_def)
qed (auto simp: replay_CurrentLocked_def split: option.splits)

lemma current_query_unique:
  assumes "recovery_ok n y" and "query_active (coordinator y)"
  shows "\<exists>!i. i < length (queries y) \<and> query_CurrentLocked (queries y ! i) (coordinator y)"
proof (rule distinct_map_ex1 [where f = query_gen])
  let ?s = "coordinator y"
  show "distinct (map query_gen (queries y))" using assms(1) by (simp add: recovery_ok_def queries_ok_def)
  obtain a where a: "a \<in> set (queries y)" "holds_query ?s a" using assms unfolding recovery_ok_def queries_ok_def by blast
  moreover have "\<not> recovery_stopped ?s" using assms by (auto simp: recovery_ok_def books_ok_def)
  ultimately show "\<exists>a\<in>set (queries y). query_CurrentLocked a ?s"
    using assms(2) by (intro bexI [of _ a]) (auto simp: query_CurrentLocked_def holds_query_def)
qed (auto simp: query_CurrentLocked_def)

text \<open>C37: whatever is called on a coordinator and its leases, fewer than \<open>2 ^ 64\<close> times: the counter of active replays is the number
  of sessions with one, both bounds hold, every active replay is held by exactly one lease that can still end it, and so is an
  active query. So no place is lost: when the leases are gone, nothing is active.\<close>

theorem recovery_places_exact:
  assumes "length ops < 2 ^ 64" and "recovery_run ops (Recovery_new opts) = y" and "coordinator y = s"
  shows "unat (active_replays s) = card {u. \<exists>r. sessions s u = Some r \<and> active r}
    \<and> active_replays s \<le> max 1 (opt_max_active_replays opts)
    \<and> card (dom (sessions s)) \<le> max 1 (opt_max_session_states opts)
    \<and> (\<forall>u r. sessions s u = Some r \<and> active r \<longrightarrow>
         (\<exists>!i. i < length (replays y) \<and> replay_CurrentLocked (replays y ! i) s \<and> attempt_user (replays y ! i) = u))
    \<and> (query_active s \<longrightarrow> (\<exists>!i. i < length (queries y) \<and> query_CurrentLocked (queries y ! i) s))"
proof -
  have ok: "recovery_ok (length ops) y" using recovery_run_ok [OF recovery_new_ok, of ops opts] assms by simp
  have "max_session_states s = max 1 (opt_max_session_states opts)" "max_active_replays s = max 1 (opt_max_active_replays opts)"
    using recovery_run_limits [of ops "Recovery_new opts"] assms by (auto simp: Recovery_new_def DurablePrivateRecovery_new_def)
  moreover have "books_ok s" using ok assms(3) by (simp add: recovery_ok_def)
  ultimately show ?thesis
    using running_card [of "sessions s"] current_replay_unique [OF ok] current_query_unique [OF ok] assms(3)
    by (auto simp: books_ok_def)
qed

definition demo_options :: Options where
  "demo_options = \<lparr>opt_max_session_states = 4, opt_max_active_replays = 2, query_interval = 100, failure_backoff = 500\<rparr>"

definition demo_ops :: "RecoveryOp list" where
  "demo_ops = [OpResume, OpBeginReplay 7 1, OpBeginReplay 7 2, OpReplayDestroy 0, OpAcquireQuery 5]"

lemmas recovery_defs = Resume_def recovery_Stop_def AcquireQuery_def TakeRecipients_def BeginReplay_def Retire_def supersede_def
  start_replay_def fresh_state_def on_query_def on_replay_def query_Complete_def query_Fail_def replay_Complete_def Release_def FinishLocked_def
  query_CurrentLocked_def replay_CurrentLocked_def remove_nth_def Recovery_new_def DurablePrivateRecovery_new_def

theorem recovery_places_exact_witness:
  "length demo_ops < 2 ^ 64 \<and> unat (active_replays (coordinator (recovery_run demo_ops (Recovery_new demo_options)))) = 1
    \<and> card {u. \<exists>r. sessions (coordinator (recovery_run demo_ops (Recovery_new demo_options))) u = Some r \<and> active r} = 1"
proof -
  have len: "length demo_ops < 2 ^ 64" by (simp add: demo_ops_def)
  have "active_replays (coordinator (recovery_run demo_ops (Recovery_new demo_options))) = 1"
    by (simp add: demo_ops_def demo_options_def recovery_defs)
  with len recovery_places_exact [OF len refl refl, of demo_options] show ?thesis by simp
qed

text \<open>Where an active replay and an active query come from: they were active before, with the same identity, or they have the next
  generation.\<close>

lemma active_replay_origin:
  "\<lbrakk>sessions (coordinator (recovery_step op y)) u = Some r; active r\<rbrakk> \<Longrightarrow>
     (\<exists>r'. sessions (coordinator y) u = Some r' \<and> active r' \<and> replay_epoch r' = replay_epoch r \<and> replay_gen r' = replay_gen r)
     \<or> replay_gen r = replay_generation (coordinator y) + 1"
  by (cases op) (auto simp: recovery_defs Let_def split: prod.splits option.splits if_splits)

lemma active_query_origin:
  "query_active (coordinator (recovery_step op y)) \<Longrightarrow>
     query_active (coordinator y) \<and> query_generation (coordinator (recovery_step op y)) = query_generation (coordinator y)
     \<or> query_generation (coordinator (recovery_step op y)) = query_generation (coordinator y) + 1"
  by (cases op) (auto simp: recovery_defs Let_def split: prod.splits option.splits if_splits)

lemma recovery_step_generations:
  assumes "recovery_ok n y" and "Suc n < 2 ^ 64"
  shows "replay_generation (coordinator y) \<le> replay_generation (coordinator (recovery_step op y))
    \<and> query_generation (coordinator y) \<le> query_generation (coordinator (recovery_step op y))"
proof -
  have "g \<le> g + 1" if "unat g \<le> n" for g :: u64 using that assms(2) by (simp add: word_le_nat_alt unat_word_ariths)
  then have "replay_generation (coordinator y) \<le> replay_generation (coordinator y) + 1" "query_generation (coordinator y) \<le> query_generation (coordinator y) + 1"
    using assms(1) by (auto simp: recovery_ok_def replays_ok_def queries_ok_def)
  then show ?thesis by (cases op) (auto simp: recovery_defs Let_def split: prod.splits option.splits)
qed

lemma no_succ_below: "\<lbrakk>unat (g::u64) \<le> n; Suc n < 2 ^ 64; a \<le> g\<rbrakk> \<Longrightarrow> g + 1 \<noteq> a"
  by (auto simp: word_le_nat_alt unat_word_ariths)

lemma stale_replay_step:
  assumes "recovery_ok n y" and "Suc n < 2 ^ 64" and "attempt_gen a \<le> replay_generation (coordinator y)" and "\<not> replay_CurrentLocked a (coordinator y)"
  shows "\<not> replay_CurrentLocked a (coordinator (recovery_step op y))"
proof
  assume "replay_CurrentLocked a (coordinator (recovery_step op y))"
  then obtain r where r: "sessions (coordinator (recovery_step op y)) (attempt_user a) = Some r" "active r" "replay_epoch r = attempt_epoch a"
      "replay_gen r = attempt_gen a" and unfinished: "\<not> attempt_finished a"
    by (auto simp: replay_CurrentLocked_def split: option.splits)
  have "replay_gen r \<noteq> replay_generation (coordinator y) + 1"
    using no_succ_below [of "replay_generation (coordinator y)" n "attempt_gen a"] assms r(4) by (auto simp: recovery_ok_def replays_ok_def)
  then obtain r' where "sessions (coordinator y) (attempt_user a) = Some r'" "active r'" "replay_epoch r' = replay_epoch r" "replay_gen r' = replay_gen r"
    using active_replay_origin [OF r(1,2)] by auto
  moreover from this have "\<not> recovery_stopped (coordinator y)" using assms(1) by (auto simp: recovery_ok_def books_ok_def)
  ultimately show False using assms(4) r(3,4) unfinished by (auto simp: replay_CurrentLocked_def)
qed

lemma stale_query_step:
  assumes "recovery_ok n y" and "Suc n < 2 ^ 64" and "query_gen a \<le> query_generation (coordinator y)" and "\<not> query_CurrentLocked a (coordinator y)"
  shows "\<not> query_CurrentLocked a (coordinator (recovery_step op y))"
proof
  assume cur: "query_CurrentLocked a (coordinator (recovery_step op y))"
  have "query_gen a \<noteq> query_generation (coordinator y) + 1"
    using no_succ_below [of "query_generation (coordinator y)" n "query_gen a"] assms by (auto simp: recovery_ok_def queries_ok_def)
  with cur have "query_active (coordinator y)" "query_generation (coordinator y) = query_gen a"
    using active_query_origin [of op y] by (auto simp: query_CurrentLocked_def)
  moreover from this have "\<not> recovery_stopped (coordinator y)" using assms(1) by (auto simp: recovery_ok_def books_ok_def)
  ultimately show False using assms(4) cur by (auto simp: query_CurrentLocked_def)
qed

lemma stale_run:
  "\<lbrakk>recovery_ok n y; n + length ops < 2 ^ 64\<rbrakk> \<Longrightarrow>
     (attempt_gen a \<le> replay_generation (coordinator y) \<and> \<not> replay_CurrentLocked a (coordinator y) \<longrightarrow> \<not> replay_CurrentLocked a (coordinator (recovery_run ops y)))
   \<and> (query_gen q \<le> query_generation (coordinator y) \<and> \<not> query_CurrentLocked q (coordinator y) \<longrightarrow> \<not> query_CurrentLocked q (coordinator (recovery_run ops y)))"
proof (induction ops arbitrary: n y)
  case (Cons op ops)
  then have "Suc n < 2 ^ 64" by simp
  note step = stale_replay_step [OF Cons.prems(1) this, of a op] stale_query_step [OF Cons.prems(1) this, of q op]
    recovery_step_generations [OF Cons.prems(1) this, of op] recovery_step_ok [OF Cons.prems(1) this, of op]
  show ?case using Cons.IH [of "Suc n" "recovery_step op y"] step Cons.prems(2) by (auto intro: order_trans)
qed simp

text \<open>C38: a lease that lost its place (the session was replaced by a newer one or retired, the coordinator was stopped, perhaps
  resumed) never gets it back: whatever happens afterwards, its completion is refused and neither its completion nor its
  destruction changes the coordinator. The same holds for the lease of a query.\<close>

theorem superseded_lease_is_fenced:
  assumes "length ops + length ops' < 2 ^ 64" and "recovery_run ops (Recovery_new opts) = y" and "coordinator (recovery_run ops' y) = s'"
  shows "(\<forall>a\<in>set (replays y). \<not> replay_CurrentLocked a (coordinator y) \<longrightarrow>
           replay_Complete m has_more a s' = (False, a, s') \<and> snd (Release a s') = s')
    \<and> (\<forall>q\<in>set (queries y). \<not> query_CurrentLocked q (coordinator y) \<longrightarrow>
           query_Complete ids has_more now q s' = (False, q, s') \<and> snd (query_Fail now q s') = s')"
proof -
  have ok: "recovery_ok (length ops) y" using recovery_run_ok [OF recovery_new_ok, of ops opts] assms(1,2) by simp
  have "\<not> replay_CurrentLocked a s'" if "a \<in> set (replays y)" "\<not> replay_CurrentLocked a (coordinator y)" for a
    using stale_run [OF ok assms(1), of a] that ok assms(3) by (auto simp: recovery_ok_def replays_ok_def)
  moreover have "\<not> query_CurrentLocked q s'" if "q \<in> set (queries y)" "\<not> query_CurrentLocked q (coordinator y)" for q
    using stale_run [OF ok assms(1), of _ q] that ok assms(3) by (auto simp: recovery_ok_def queries_ok_def)
  ultimately show ?thesis
    by (auto simp: replay_Complete_def Release_def query_Complete_def query_Fail_def split: option.splits)
qed

theorem superseded_lease_is_fenced_witness:
  "let y = recovery_run [OpResume, OpBeginReplay 7 1, OpBeginReplay 7 2] (Recovery_new demo_options); a = replays y ! 0; s = coordinator y
   in a \<in> set (replays y) \<and> \<not> replay_CurrentLocked a s \<and> active_replays s = 1 \<and> replay_Complete 40 False a s = (False, a, s)"
proof -
  let ?ops = "[OpResume, OpBeginReplay 7 1, OpBeginReplay 7 2]"
  let ?y = "recovery_run ?ops (Recovery_new demo_options)"
  have "length ?ops + length ([] :: RecoveryOp list) < 2 ^ 64" by simp
  note fenced = superseded_lease_is_fenced [OF this refl refl, of demo_options 40 False]
  have "replays ?y ! 0 \<in> set (replays ?y)" "\<not> replay_CurrentLocked (replays ?y ! 0) (coordinator ?y)" "active_replays (coordinator ?y) = 1"
    by (simp_all add: demo_options_def recovery_defs)
  with fenced show ?thesis unfolding Let_def by auto
qed

end
