(* ===== verification/Pending_Recipients.thy ===== *)
theory Pending_Recipients
  imports Durable_Recovery Text_Numbers
begin

text \<open>
  The way of one page of the recovery scan, \<open>ListPendingRecipientsAfter\<close>, from the SQL table to the gateway: the repository
  (\<open>services/repository/MessageRepository.cpp\<close>), its adapter, the application service, the gRPC handler (\<open>services/message\<close>), the
  RPC client (\<open>services/rpc/MessageRpcClient.cpp\<close>) and the task of the gateway that asks for the page
  (\<open>GatewayServer::PumpPrivateReplayAdmission\<close>).

  MySQL is an argument, a function from the text of a query to rows of strings or a failure; what the code relies on is the
  hypothesis \<open>answers_sql\<close>. gRPC is an argument too: a call reaches the handler or fails with a status. Which pointers are null and
  which resources are available is the record \<open>Circumstances\<close>. Error messages are left out.
\<close>

section \<open>Results\<close>

datatype MessageQueryStatus = QuerySucceeded | QueryInvalidArgument | QueryInvalidRecord | QueryStorageError

record ListPendingRecipientsResult =
  list_status :: MessageQueryStatus
  list_ids :: "u64 list"
  list_more :: bool

datatype MessageApplicationStatus = AppSucceeded | AppInvalidArgument | AppNotFound | AppPermissionDenied | AppFailedPrecondition
  | AppInvalidRecord | AppStorageError

record PendingRecipientsResult =
  page_status :: MessageApplicationStatus
  page_ids :: "u64 list"
  page_more :: bool

datatype GrpcStatus = OK | CANCELLED | UNKNOWN | INVALID_ARGUMENT | DEADLINE_EXCEEDED | NOT_FOUND | ALREADY_EXISTS | PERMISSION_DENIED
  | UNAUTHENTICATED | RESOURCE_EXHAUSTED | FAILED_PRECONDITION | ABORTED | OUT_OF_RANGE | UNIMPLEMENTED | INTERNAL | UNAVAILABLE | DATA_LOSS

datatype RpcErrorCode = RpcOk | RpcInvalidArgument | RpcCancelled | RpcDeadlineExceeded | RpcNotFound | RpcAlreadyExists | RpcPermissionDenied
  | RpcUnauthenticated | RpcResourceExhausted | RpcFailedPrecondition | RpcAborted | RpcOutOfRange | RpcUnimplemented | RpcUnavailable
  | RpcInternal | RpcDataLoss | RpcUnknown

record Circumstances =
  pool_set :: bool
  connection_acquired :: bool
  repository_set :: bool
  port_set :: bool
  arguments_set :: bool
  application_set :: bool
  cancelled :: bool
  budget_left :: bool
  endpoint_provider_set :: bool
  endpoint_resolved :: bool
  stub_created :: bool
  deadline_ahead :: bool
  transport_failure :: "GrpcStatus option"

section \<open>Repository\<close>

type_synonym sql_query = "string \<Rightarrow> string list list option"

definition pending_sql :: "u64 \<Rightarrow> nat \<Rightarrow> string" where
  "pending_sql after_user_id limit =
     ''SELECT DISTINCT to_user_id FROM im_private_messages '' @ ''WHERE to_user_id > '' @ to_string (unat after_user_id) @
     '' AND delivery_status = 0 ORDER BY to_user_id ASC LIMIT '' @ to_string (limit + 1)"

definition row_id :: "u64 \<Rightarrow> string list \<Rightarrow> u64 option" where
  "row_id previous row =
     (if length row \<noteq> 1 \<or> row ! 0 = [] \<or> hd (row ! 0) = CHR ''-'' then None
      else case stoull (row ! 0) of
        None \<Rightarrow> None
      | Some (i, consumed) \<Rightarrow> if consumed \<noteq> length (row ! 0) \<or> i = 0 \<or> i \<le> previous then None else Some i)"

fun parse_rows :: "u64 \<Rightarrow> string list list \<Rightarrow> u64 list option" where
  "parse_rows previous [] = Some []"
| "parse_rows previous (row # rows) =
     (case row_id previous row of None \<Rightarrow> None | Some i \<Rightarrow> map_option (Cons i) (parse_rows i rows))"

definition repository_ListPendingRecipientsAfter :: "sql_query \<Rightarrow> Circumstances \<Rightarrow> u64 \<Rightarrow> nat \<Rightarrow> ListPendingRecipientsResult" where
  "repository_ListPendingRecipientsAfter Query c after_user_id limit =
     (if limit = 0 \<or> limit > 256 then \<lparr>list_status = QueryInvalidArgument, list_ids = [], list_more = False\<rparr>
      else if \<not> pool_set c \<or> \<not> connection_acquired c then \<lparr>list_status = QueryStorageError, list_ids = [], list_more = False\<rparr>
      else case Query (pending_sql after_user_id limit) of
        None \<Rightarrow> \<lparr>list_status = QueryStorageError, list_ids = [], list_more = False\<rparr>
      | Some rows \<Rightarrow>
          if length rows > limit + 1 then \<lparr>list_status = QueryInvalidRecord, list_ids = [], list_more = False\<rparr>
          else (case parse_rows after_user_id rows of
              None \<Rightarrow> \<lparr>list_status = QueryInvalidRecord, list_ids = [], list_more = False\<rparr>
            | Some ids \<Rightarrow> \<lparr>list_status = QuerySucceeded, list_ids = (if length ids > limit then take limit ids else ids),
                             list_more = length ids > limit\<rparr>))"

section \<open>Adapter and application service\<close>

fun MapStatus :: "MessageQueryStatus \<Rightarrow> MessageApplicationStatus" where
  "MapStatus QuerySucceeded = AppSucceeded"
| "MapStatus QueryInvalidArgument = AppInvalidArgument"
| "MapStatus QueryInvalidRecord = AppInvalidRecord"
| "MapStatus QueryStorageError = AppStorageError"

definition adapter_ListPendingRecipientsAfter :: "sql_query \<Rightarrow> Circumstances \<Rightarrow> u64 \<Rightarrow> nat \<Rightarrow> PendingRecipientsResult" where
  "adapter_ListPendingRecipientsAfter Query c after_user_id limit =
     (if \<not> repository_set c then \<lparr>page_status = AppStorageError, page_ids = [], page_more = False\<rparr>
      else let result = repository_ListPendingRecipientsAfter Query c after_user_id limit
           in if list_status result \<noteq> QuerySucceeded then \<lparr>page_status = MapStatus (list_status result), page_ids = [], page_more = False\<rparr>
              else \<lparr>page_status = MapStatus (list_status result), page_ids = list_ids result, page_more = list_more result\<rparr>)"

definition service_ListPendingRecipientsAfter :: "sql_query \<Rightarrow> Circumstances \<Rightarrow> u64 \<Rightarrow> u32 \<Rightarrow> PendingRecipientsResult" where
  "service_ListPendingRecipientsAfter Query c after_user_id limit =
     (if limit = 0 \<or> limit > 256 then \<lparr>page_status = AppInvalidArgument, page_ids = [], page_more = False\<rparr>
      else if \<not> port_set c then \<lparr>page_status = AppStorageError, page_ids = [], page_more = False\<rparr>
      else let result = adapter_ListPendingRecipientsAfter Query c after_user_id (unat limit)
           in if page_status result \<noteq> AppSucceeded then \<lparr>page_status = page_status result, page_ids = [], page_more = False\<rparr>
              else if length (page_ids result) > unat limit \<or> (page_more result \<and> length (page_ids result) \<noteq> unat limit)
              then \<lparr>page_status = AppInvalidRecord, page_ids = [], page_more = False\<rparr>
              else if ascend after_user_id (page_ids result) = None
              then \<lparr>page_status = AppInvalidRecord, page_ids = [], page_more = False\<rparr>
              else result)"

section \<open>RPC\<close>

fun MapApplicationFailure :: "MessageApplicationStatus \<Rightarrow> GrpcStatus" where
  "MapApplicationFailure AppInvalidArgument = INVALID_ARGUMENT"
| "MapApplicationFailure AppNotFound = NOT_FOUND"
| "MapApplicationFailure AppPermissionDenied = PERMISSION_DENIED"
| "MapApplicationFailure AppFailedPrecondition = FAILED_PRECONDITION"
| "MapApplicationFailure AppInvalidRecord = DATA_LOSS"
| "MapApplicationFailure AppStorageError = UNAVAILABLE"
| "MapApplicationFailure AppSucceeded = OK"

text \<open>The handler returns a status and the response it filled.\<close>

definition handler_ListPendingRecipientsAfter :: "sql_query \<Rightarrow> Circumstances \<Rightarrow> u64 \<Rightarrow> u32 \<Rightarrow> GrpcStatus \<times> u64 list \<times> bool" where
  "handler_ListPendingRecipientsAfter Query c after_user_id limit =
     (if \<not> arguments_set c then (INVALID_ARGUMENT, [], False)
      else if \<not> application_set c then (UNAVAILABLE, [], False)
      else if cancelled c then (CANCELLED, [], False)
      else let result = service_ListPendingRecipientsAfter Query c after_user_id limit
           in if page_status result \<noteq> AppSucceeded then (MapApplicationFailure (page_status result), [], False)
              else (OK, page_ids result, page_more result))"

fun MapGrpcStatus :: "GrpcStatus \<Rightarrow> RpcErrorCode" where
  "MapGrpcStatus OK = RpcOk"
| "MapGrpcStatus INVALID_ARGUMENT = RpcInvalidArgument"
| "MapGrpcStatus CANCELLED = RpcCancelled"
| "MapGrpcStatus DEADLINE_EXCEEDED = RpcDeadlineExceeded"
| "MapGrpcStatus NOT_FOUND = RpcNotFound"
| "MapGrpcStatus ALREADY_EXISTS = RpcAlreadyExists"
| "MapGrpcStatus PERMISSION_DENIED = RpcPermissionDenied"
| "MapGrpcStatus UNAUTHENTICATED = RpcUnauthenticated"
| "MapGrpcStatus RESOURCE_EXHAUSTED = RpcResourceExhausted"
| "MapGrpcStatus FAILED_PRECONDITION = RpcFailedPrecondition"
| "MapGrpcStatus ABORTED = RpcAborted"
| "MapGrpcStatus OUT_OF_RANGE = RpcOutOfRange"
| "MapGrpcStatus UNIMPLEMENTED = RpcUnimplemented"
| "MapGrpcStatus UNAVAILABLE = RpcUnavailable"
| "MapGrpcStatus INTERNAL = RpcInternal"
| "MapGrpcStatus DATA_LOSS = RpcDataLoss"
| "MapGrpcStatus UNKNOWN = RpcUnknown"

text \<open>The call through the stub: it fails in the transport or reaches the handler.\<close>

definition stub_call :: "sql_query \<Rightarrow> Circumstances \<Rightarrow> u64 \<Rightarrow> u32 \<Rightarrow> GrpcStatus \<times> u64 list \<times> bool" where
  "stub_call Query c after_user_id limit =
     (case transport_failure c of Some st \<Rightarrow> (st, [], False) | None \<Rightarrow> handler_ListPendingRecipientsAfter Query c after_user_id limit)"

definition client_ListPendingRecipientsAfter :: "sql_query \<Rightarrow> Circumstances \<Rightarrow> u64 \<Rightarrow> u32 \<Rightarrow> RpcErrorCode + (u64 list \<times> bool)" where
  "client_ListPendingRecipientsAfter Query c after_user_id limit =
     (if limit = 0 \<or> limit > 256 then Inl RpcInvalidArgument
      else if \<not> budget_left c then Inl RpcDeadlineExceeded
      else if \<not> endpoint_provider_set c \<or> \<not> endpoint_resolved c \<or> \<not> stub_created c then Inl RpcUnavailable
      else if \<not> deadline_ahead c then Inl RpcDeadlineExceeded
      else let (status, ids, has_more) = stub_call Query c after_user_id limit
           in if status \<noteq> OK then Inl (MapGrpcStatus status)
              else if length ids > unat limit \<or> (has_more \<and> length ids \<noteq> unat limit) then Inl RpcDataLoss
              else if ascend after_user_id ids = None then Inl RpcDataLoss
              else Inr (ids, has_more))"

section \<open>The gateway's task\<close>

text \<open>The work of the discovery task on its lease: nothing if the task was cancelled or is late or the call failed (the lease is
  then dropped by the caller), otherwise the lease is completed with the page.\<close>

definition discovery_work :: "sql_query \<Rightarrow> Circumstances \<Rightarrow> bool \<Rightarrow> int \<Rightarrow> QueryAttempt \<Rightarrow> DurablePrivateRecovery \<Rightarrow> QueryAttempt \<times> DurablePrivateRecovery" where
  "discovery_work Query c late now a s =
     (if late then (a, s)
      else case client_ListPendingRecipientsAfter Query c (query_cursor a) (of_nat Limit) of
        Inl _ \<Rightarrow> (a, s)
      | Inr (ids, has_more) \<Rightarrow> snd (query_Complete ids has_more now a s))"

section \<open>A page\<close>

lemma row_id_printed: "row_id previous [to_string (unat i)] = (if i = 0 \<or> i \<le> previous then None else Some i)"
  using to_string_first [of "unat i"] to_string_nonempty [of "unat i"] by (auto simp: row_id_def stoull_to_string)

lemma parse_rows_printed: "parse_rows previous (map (\<lambda>i. [to_string (unat i)]) ids) = (if ascend previous ids = None then None else Some ids)"
  by (induction ids arbitrary: previous) (auto simp: row_id_printed)

definition answers_sql :: "sql_query \<Rightarrow> u64 list \<Rightarrow> bool" where
  "answers_sql Query pending \<longleftrightarrow> (\<forall>after_user_id limit. Query (pending_sql after_user_id limit) =
     Some (map (\<lambda>i. [to_string (unat i)]) (take (limit + 1) (filter (\<lambda>i. after_user_id < i) pending))))"

definition all_available :: "Circumstances \<Rightarrow> bool" where
  "all_available c \<longleftrightarrow> pool_set c \<and> connection_acquired c \<and> repository_set c \<and> port_set c \<and> arguments_set c \<and> application_set c \<and> \<not> cancelled c
     \<and> budget_left c \<and> endpoint_provider_set c \<and> endpoint_resolved c \<and> stub_created c \<and> deadline_ahead c \<and> transport_failure c = None"

lemma ascend_sorted: "sorted_wrt (<) (previous # ids) \<Longrightarrow> ascend previous ids = Some (last (previous # ids))"
proof (induction ids arbitrary: previous)
  case (Cons i ids)
  then have "previous < i" by simp
  then have "i \<noteq> 0 \<and> \<not> i \<le> previous" using word_not_simps(1) [of previous] by (metis leD)
  then have "ascend previous (i # ids) = ascend i ids" by simp
  moreover have "ascend i ids = Some (last (i # ids))" by (rule Cons.IH) (use Cons.prems in simp)
  ultimately show ?case by simp
qed simp

lemma ascend_page: "sorted_wrt (<) pending \<Longrightarrow> ascend c (take n (filter (\<lambda>i. c < i) pending)) \<noteq> None"
proof -
  assume "sorted_wrt (<) pending"
  then have "sorted_wrt (<) (take n (filter (\<lambda>i. c < i) pending))" by (intro sorted_wrt_take sorted_wrt_filter)
  moreover have "\<forall>i\<in>set (take n (filter (\<lambda>i. c < i) pending)). c < i" by (fastforce dest: in_set_takeD)
  ultimately have "sorted_wrt (<) (c # take n (filter (\<lambda>i. c < i) pending))" by (simp only: sorted_wrt.simps)
  from ascend_sorted [OF this] show ?thesis by simp
qed

lemma handler_page:
  assumes "answers_sql Query pending" and "sorted_wrt (<) pending" and "all_available c" and "0 < limit" and "limit \<le> 256"
  shows "handler_ListPendingRecipientsAfter Query c after_user_id limit =
    (OK, take (unat limit) (filter (\<lambda>i. after_user_id < i) pending), unat limit < length (filter (\<lambda>i. after_user_id < i) pending))"
proof -
  let ?ids = "filter (\<lambda>i. after_user_id < i) pending"
  have lim: "unat limit \<noteq> 0" "unat limit \<le> 256" "limit \<noteq> 0" "\<not> limit > 256"
    using assms(4,5) by (auto simp: word_le_nat_alt word_less_nat_alt)
  have "parse_rows after_user_id (map (\<lambda>i. [to_string (unat i)]) (take (unat limit + 1) ?ids)) = Some (take (unat limit + 1) ?ids)"
    using ascend_page [OF assms(2), of after_user_id "unat limit + 1"] by (simp add: parse_rows_printed)
  with assms(1,3) lim have "adapter_ListPendingRecipientsAfter Query c after_user_id (unat limit) =
      \<lparr>page_status = AppSucceeded, page_ids = take (unat limit) ?ids, page_more = unat limit < length ?ids\<rparr>"
    by (auto simp: adapter_ListPendingRecipientsAfter_def repository_ListPendingRecipientsAfter_def answers_sql_def all_available_def Let_def min_def)
  with assms(3) lim ascend_page [OF assms(2), of after_user_id "unat limit"] show ?thesis
    by (auto simp: handler_ListPendingRecipientsAfter_def service_ListPendingRecipientsAfter_def all_available_def Let_def)
qed

lemma client_page:
  assumes "answers_sql Query pending" and "sorted_wrt (<) pending" and "all_available c"
  shows "client_ListPendingRecipientsAfter Query c after_user_id (of_nat Limit) =
    Inr (take Limit (filter (\<lambda>i. after_user_id < i) pending), Limit < length (filter (\<lambda>i. after_user_id < i) pending))"
  using assms handler_page [OF assms, of "of_nat Limit" after_user_id] ascend_page [OF assms(2), of after_user_id Limit]
  by (auto simp: client_ListPendingRecipientsAfter_def stub_call_def all_available_def Limit_def)

section \<open>The scan\<close>

text \<open>What the timer of the gateway, the discovery tasks and the replays do to the coordinator, in any order. \<open>Take\<close> is the loop of the
  pump, whose recipients are handed to the replay admission; \<open>Acquire\<close> its second half; \<open>Work\<close> runs a discovery task; \<open>Drop\<close> is the end
  of its lease, after the work or without it. The second component collects the recipients handed out.\<close>

datatype DiscoveryEvent = Take | Acquire int | Work nat Circumstances bool int | Drop nat int | Begin u64 u64
  | Settle nat u64 bool | Give_up nat | Forget u64 u64

definition PumpPrivateReplayAdmission_take :: "Recovery \<Rightarrow> u64 list \<times> Recovery" where
  "PumpPrivateReplayAdmission_take y = (let (ids, s) = TakeRecipients 32 (coordinator y) in (ids, y\<lparr>coordinator := s\<rparr>))"

fun discovery_step :: "sql_query \<Rightarrow> DiscoveryEvent \<Rightarrow> Recovery \<times> u64 list \<Rightarrow> Recovery \<times> u64 list" where
  "discovery_step Query Take (y, out) = (let (ids, y') = PumpPrivateReplayAdmission_take y in (y', out @ ids))"
| "discovery_step Query (Acquire now) (y, out) = (recovery_step (OpAcquireQuery now) y, out)"
| "discovery_step Query (Work i c late now) (y, out) = (on_query i (discovery_work Query c late now) y, out)"
| "discovery_step Query (Drop i now) (y, out) = (recovery_step (OpQueryDestroy i now) y, out)"
| "discovery_step Query (Begin user epoch) (y, out) = (recovery_step (OpBeginReplay user epoch) y, out)"
| "discovery_step Query (Settle i m has_more) (y, out) = (recovery_step (OpReplayComplete i m has_more) y, out)"
| "discovery_step Query (Give_up i) (y, out) = (recovery_step (OpReplayDestroy i) y, out)"
| "discovery_step Query (Forget user epoch) (y, out) = (recovery_step (OpRetire user epoch) y, out)"

abbreviation discovery_run :: "sql_query \<Rightarrow> DiscoveryEvent list \<Rightarrow> Recovery \<times> u64 list \<Rightarrow> Recovery \<times> u64 list" where
  "discovery_run Query \<equiv> fold (discovery_step Query)"

text \<open>A run of the recovery itself: every event is one operation of the coordinator or none.\<close>

lemma work_is_complete:
  "discovery_work Query c late now a s = (a, s)
   \<or> (\<exists>ids has_more. client_ListPendingRecipientsAfter Query c (query_cursor a) (of_nat Limit) = Inr (ids, has_more)
        \<and> discovery_work Query c late now a s = snd (query_Complete ids has_more now a s))"
  by (auto simp: discovery_work_def split: sum.splits)

lemma on_query_cong: "i < length (queries y) \<Longrightarrow> f (queries y ! i) (coordinator y) = g (queries y ! i) (coordinator y) \<Longrightarrow> on_query i f y = on_query i g y"
  by (simp add: on_query_def)

lemma on_query_same: "\<lbrakk>i < length (queries y) \<Longrightarrow> f (queries y ! i) (coordinator y) = (queries y ! i, coordinator y)\<rbrakk> \<Longrightarrow> on_query i f y = y"
  by (simp add: on_query_def)

lemma work_ok: "recovery_ok n y \<Longrightarrow> recovery_ok n (on_query i (discovery_work Query c late now) y)"
proof (cases "i < length (queries y)")
  case True
  assume ok: "recovery_ok n y"
  from work_is_complete [of Query c late now "queries y ! i" "coordinator y"] show ?thesis
  proof (elim disjE exE conjE)
    assume "discovery_work Query c late now (queries y ! i) (coordinator y) = (queries y ! i, coordinator y)"
    with ok show ?thesis by (simp add: on_query_same)
  next
    fix ids has_more
    assume "discovery_work Query c late now (queries y ! i) (coordinator y) = snd (query_Complete ids has_more now (queries y ! i) (coordinator y))"
    then have "on_query i (discovery_work Query c late now) y = on_query i (\<lambda>a s. snd (query_Complete ids has_more now a s)) y"
      using True by (intro on_query_cong) auto
    with query_Complete_ok [OF ok] show ?thesis by simp
  qed
qed (simp add: on_query_def)

lemma discovery_step_ok:
  assumes "recovery_ok n (fst z)" and "Suc n < 2 ^ 64"
  shows "recovery_ok (Suc n) (fst (discovery_step Query ev z))"
proof -
  obtain y out where z: "z = (y, out)" by fastforce
  have mono: "recovery_ok n y' \<Longrightarrow> recovery_ok (Suc n) y'" for y' using leases_mono le_SucI by (auto simp: recovery_ok_def)
  have step: "recovery_ok (Suc n) (recovery_step op y)" for op using recovery_step_ok assms z by simp
  have take: "snd (PumpPrivateReplayAdmission_take y) = recovery_step (OpTakeRecipients 32) y"
    by (simp add: PumpPrivateReplayAdmission_take_def split: prod.splits)
  show ?thesis
  proof (cases ev)
    case Take
    have "fst (discovery_step Query ev z) = snd (PumpPrivateReplayAdmission_take y)" using Take z by (simp split: prod.splits)
    with take step show ?thesis by metis
  next
    case (Work i c late now)
    with mono [OF work_ok [of n y i Query c late now]] assms(1) z show ?thesis by simp
  qed (use step z in \<open>simp_all del: recovery_step.simps\<close>)
qed

lemma discovery_run_ok: "\<lbrakk>recovery_ok n (fst z); n + length evs < 2 ^ 64\<rbrakk> \<Longrightarrow> recovery_ok (n + length evs) (fst (discovery_run Query evs z))"
proof (induction evs arbitrary: n z)
  case (Cons ev evs)
  then have "recovery_ok (Suc n) (fst (discovery_step Query ev z))" by (intro discovery_step_ok) auto
  with Cons show ?case using Cons.IH [of "Suc n" "discovery_step Query ev z"] by simp
qed simp

subsection \<open>Pages of an ascending list\<close>

lemma ascending_split: "sorted_wrt (<) (xs :: u64 list) \<Longrightarrow> xs = takeWhile (\<lambda>i. i \<le> c) xs @ filter (\<lambda>i. c < i) xs"
proof (induction xs)
  case (Cons x xs)
  show ?case
  proof (cases "x \<le> c")
    case True
    then have "\<not> c < x" by simp
    with True Cons show ?thesis by simp
  next
    case False
    then have less: "c < x" by simp
    have "filter (\<lambda>i. c < i) xs = xs"
    proof (rule filter_True)
      show "\<forall>i\<in>set xs. c < i" using Cons.prems less by (auto intro: less_trans)
    qed
    with False less show ?thesis by simp
  qed
qed simp

lemma sorted_last_page:
  assumes "sorted_wrt (<) (xs :: u64 list)" and "0 < n" and "n < length xs"
  shows "takeWhile (\<lambda>i. i \<le> last (take n xs)) xs = take n xs \<and> (\<exists>i\<in>set xs. last (take n xs) < i)"
proof -
  have l: "last (take n xs) = xs ! (n - 1)" using assms last_conv_nth [of "take n xs"] by (cases xs) auto
  have ordered: "i < j \<Longrightarrow> j < length xs \<Longrightarrow> xs ! i < xs ! j" for i j using assms(1) by (simp add: sorted_wrt_iff_nth_less)
  have "takeWhile (\<lambda>i. i \<le> last (take n xs)) xs = take n xs"
  proof (rule takeWhile_eq_take_P_nth)
    fix i assume "i < n" "i < length xs"
    then have "i = n - 1 \<or> i < n - 1 \<and> n - 1 < length xs" using assms(3) by linarith
    then show "xs ! i \<le> last (take n xs)" using ordered [of i "n - 1"] l by (auto intro: less_imp_le)
  next
    assume "n < length xs"
    then show "\<not> xs ! n \<le> last (take n xs)" using ordered [of "n - 1" n] assms(2) l by (simp add: not_le)
  qed
  moreover have "last (take n xs) < xs ! n" using ordered [of "n - 1" n] assms l by simp
  ultimately show ?thesis using assms(3) nth_mem by blast
qed

lemma next_page:
  assumes "sorted_wrt (<) (pending :: u64 list)" and "0 < n" and "n < length (filter (\<lambda>i. c < i) pending)"
  defines "l \<equiv> last (take n (filter (\<lambda>i. c < i) pending))"
  shows "takeWhile (\<lambda>i. i \<le> l) pending = takeWhile (\<lambda>i. i \<le> c) pending @ take n (filter (\<lambda>i. c < i) pending) \<and> (\<exists>i\<in>set pending. l < i) \<and> c < l"
proof -
  let ?rest = "filter (\<lambda>i. c < i) pending"
  have "take n ?rest \<noteq> []" using assms(2,3) by auto
  then have "l \<in> set (take n ?rest)" unfolding l_def by (rule last_in_set)
  then have cl: "c < l" by (auto dest!: in_set_takeD)
  have page: "takeWhile (\<lambda>i. i \<le> l) ?rest = take n ?rest \<and> (\<exists>i\<in>set ?rest. l < i)"
    unfolding l_def by (rule sorted_last_page) (use assms in \<open>auto intro: sorted_wrt_filter\<close>)
  have "takeWhile (\<lambda>i. i \<le> l) pending = takeWhile (\<lambda>i. i \<le> c) pending @ takeWhile (\<lambda>i. i \<le> l) ?rest"
    by (subst (1) ascending_split [OF assms(1), of c], rule takeWhile_append2) (use cl in \<open>auto dest!: set_takeWhileD intro: order_trans less_imp_le\<close>)
  with page cl show ?thesis by auto
qed

subsection \<open>Each turn hands out every recipient once\<close>

definition scan_ok :: "u64 list \<Rightarrow> u64 list \<Rightarrow> DurablePrivateRecovery \<Rightarrow> bool" where
  "scan_ok pending out s \<longleftrightarrow> \<not> recovery_stopped s
     \<and> (\<exists>k. out @ recipients s = concat (replicate k pending) @ takeWhile (\<lambda>i. i \<le> cursor s) pending)
     \<and> (cursor s \<noteq> 0 \<longrightarrow> (\<exists>i\<in>set pending. cursor s < i))"

lemma scan_keep: "\<lbrakk>scan_ok pending out s; recipients s' = recipients s; cursor s' = cursor s; \<not> recovery_stopped s'\<rbrakk> \<Longrightarrow> scan_ok pending out s'"
  by (simp add: scan_ok_def)

text \<open>Completing a page: \<open>c\<close> is the cursor from which it was asked for, nothing of the page before is left.\<close>

lemma scan_page:
  assumes "sorted_wrt (<) pending" and "0 \<notin> set pending" and "scan_ok pending out s" and "recipients s = []"
    and "ids = take Limit (filter (\<lambda>i. cursor s < i) pending)" and "has_more \<longleftrightarrow> Limit < length (filter (\<lambda>i. cursor s < i) pending)"
    and "recipients s' = ids" and "cursor s' = (if has_more then last (cursor s # ids) else 0)" and "\<not> recovery_stopped s'"
  shows "scan_ok pending out s'"
proof -
  let ?rest = "filter (\<lambda>i. cursor s < i) pending"
  obtain k where k: "out = concat (replicate k pending) @ takeWhile (\<lambda>i. i \<le> cursor s) pending" using assms(3,4) by (auto simp: scan_ok_def)
  have zero: "takeWhile (\<lambda>i. i \<le> 0) pending = []" using assms(2) by (cases pending) auto
  show ?thesis
  proof (cases has_more)
    case True
    then have "ids \<noteq> []" and more: "Limit < length ?rest" using assms(5,6) by (auto simp: Limit_def)
    then have "cursor s' = last (take Limit ?rest)" using True assms(5,8) by simp
    with next_page [OF assms(1) _ more] k assms(5,7,9) show ?thesis by (auto simp: scan_ok_def Limit_def)
  next
    case False
    then have "ids = ?rest" "cursor s' = 0" using assms(5,6,8) by simp_all
    then have "out @ recipients s' = concat (replicate (Suc k) pending)"
      using k assms(7) ascending_split [OF assms(1), of "cursor s"] by (simp add: replicate_append_same [symmetric])
    then have "\<exists>k. out @ recipients s' = concat (replicate k pending) @ takeWhile (\<lambda>i. i \<le> cursor s') pending"
      using \<open>cursor s' = 0\<close> zero by (intro exI [of _ "Suc k"]) simp
    with \<open>cursor s' = 0\<close> assms(9) show ?thesis unfolding scan_ok_def by blast
  qed
qed

text \<open>Nothing but a whole page or a failure reaches the gateway.\<close>

lemma handler_fails:
  assumes "\<not> (pool_set c \<and> connection_acquired c \<and> repository_set c \<and> port_set c \<and> arguments_set c \<and> application_set c \<and> \<not> cancelled c)"
  shows "fst (handler_ListPendingRecipientsAfter Query c after_user_id limit) \<noteq> OK"
proof -
  have "page_status (service_ListPendingRecipientsAfter Query c after_user_id limit) \<noteq> AppSucceeded"
    if "\<not> (pool_set c \<and> connection_acquired c \<and> repository_set c \<and> port_set c)"
    using that by (auto simp: service_ListPendingRecipientsAfter_def adapter_ListPendingRecipientsAfter_def
        repository_ListPendingRecipientsAfter_def Let_def)
  moreover have "st \<noteq> AppSucceeded \<Longrightarrow> MapApplicationFailure st \<noteq> OK" for st by (cases st) auto
  ultimately show ?thesis using assms by (auto simp: handler_ListPendingRecipientsAfter_def Let_def)
qed

lemma client_exact:
  assumes "answers_sql Query pending" and "sorted_wrt (<) pending" and "transport_failure c \<noteq> Some OK"
    and "client_ListPendingRecipientsAfter Query c after_user_id (of_nat Limit) = Inr (ids, has_more)"
  shows "ids = take Limit (filter (\<lambda>i. after_user_id < i) pending) \<and> (has_more \<longleftrightarrow> Limit < length (filter (\<lambda>i. after_user_id < i) pending))"
proof (cases "all_available c")
  case True
  from client_page [OF assms(1,2) this, of after_user_id] assms(4) show ?thesis by simp
next
  case False
  with assms(3,4) handler_fails [of c Query after_user_id "of_nat Limit"] show ?thesis
    by (auto simp: client_ListPendingRecipientsAfter_def stub_call_def all_available_def split: if_splits option.splits prod.splits)
qed

definition honest :: "DiscoveryEvent \<Rightarrow> bool" where
  "honest ev \<longleftrightarrow> (case ev of Work _ c _ _ \<Rightarrow> transport_failure c \<noteq> Some OK | _ \<Rightarrow> True)"

lemma scan_work:
  assumes "sorted_wrt (<) pending" and "0 \<notin> set pending" and "answers_sql Query pending" and "transport_failure c \<noteq> Some OK"
    and "recovery_ok n y" and "scan_ok pending out (coordinator y)"
  shows "scan_ok pending out (coordinator (on_query i (discovery_work Query c late now) y))"
proof (cases "i < length (queries y) \<and> snd (discovery_work Query c late now (queries y ! i) (coordinator y)) \<noteq> coordinator y")
  case True
  let ?a = "queries y ! i" and ?s = "coordinator y"
  obtain ids has_more where call: "client_ListPendingRecipientsAfter Query c (query_cursor ?a) (of_nat Limit) = Inr (ids, has_more)"
      and work: "discovery_work Query c late now ?a ?s = snd (query_Complete ids has_more now ?a ?s)"
    using True work_is_complete [of Query c late now ?a ?s] by auto
  obtain l where cur: "query_CurrentLocked ?a ?s" and l: "ascend (query_cursor ?a) ids = Some l"
      and s': "snd (snd (query_Complete ids has_more now ?a ?s)) =
        ?s\<lparr>recipients := ids, cursor := (if has_more then l else 0), next_query := now + interval ?s, query_active := False\<rparr>"
    using True work by (auto simp: query_Complete_def split: if_splits option.splits)
  have "holds_query ?s ?a" using query_current_holds [OF _ _ cur] assms(5) True by (auto simp: recovery_ok_def)
  then have at: "query_cursor ?a = cursor ?s" by (simp add: holds_query_def)
  have page: "ids = take Limit (filter (\<lambda>i. cursor ?s < i) pending)" "has_more \<longleftrightarrow> Limit < length (filter (\<lambda>i. cursor ?s < i) pending)"
    using client_exact [OF assms(3,1,4) call] at by auto
  have "ascend (cursor ?s) ids = Some (last (cursor ?s # ids))"
    unfolding page(1) using assms(1) by (intro ascend_sorted) (fastforce dest: in_set_takeD intro: sorted_wrt_take sorted_wrt_filter)
  with l at have "l = last (cursor ?s # ids)" by simp
  moreover have "recipients ?s = []" using assms(5) cur by (auto simp: recovery_ok_def books_ok_def query_CurrentLocked_def)
  ultimately have "scan_ok pending out (snd (snd (query_Complete ids has_more now ?a ?s)))"
    using cur by (intro scan_page [OF assms(1,2,6) _ page]) (auto simp: s' query_CurrentLocked_def)
  with True work show ?thesis by (auto simp: on_query_def split: prod.splits)
next
  case False
  then have "coordinator (on_query i (discovery_work Query c late now) y) = coordinator y" by (auto simp: on_query_def split: prod.splits)
  with assms(6) show ?thesis by simp
qed

lemma scan_Take: "scan_ok pending out (coordinator y) \<Longrightarrow>
    case PumpPrivateReplayAdmission_take y of (ids, y') \<Rightarrow> scan_ok pending (out @ ids) (coordinator y')"
  by (auto simp: PumpPrivateReplayAdmission_take_def TakeRecipients_def scan_ok_def Let_def)

definition touches_scan :: "RecoveryOp \<Rightarrow> bool" where
  "touches_scan op \<longleftrightarrow> (case op of OpResume \<Rightarrow> True | OpStop \<Rightarrow> True | OpQueryComplete _ _ _ _ \<Rightarrow> True | OpTakeRecipients _ \<Rightarrow> True | _ \<Rightarrow> False)"

lemma untouched_scan:
  "\<not> touches_scan op \<Longrightarrow> recipients (coordinator (recovery_step op y)) = recipients (coordinator y)
     \<and> cursor (coordinator (recovery_step op y)) = cursor (coordinator y)
     \<and> recovery_stopped (coordinator (recovery_step op y)) = recovery_stopped (coordinator y)"
  by (cases op) (auto simp: touches_scan_def recovery_defs Let_def split: prod.splits option.splits if_splits)

lemma scan_other:
  "\<lbrakk>\<not> touches_scan op; scan_ok pending out (coordinator y)\<rbrakk> \<Longrightarrow> scan_ok pending out (coordinator (recovery_step op y))"
  by (rule scan_keep) (simp_all add: untouched_scan scan_ok_def)

lemma discovery_step_scan:
  assumes "sorted_wrt (<) pending" and "0 \<notin> set pending" and "answers_sql Query pending" and "honest ev"
    and "recovery_ok n (fst z)" and "scan_ok pending (snd z) (coordinator (fst z))"
  shows "scan_ok pending (snd (discovery_step Query ev z)) (coordinator (fst (discovery_step Query ev z)))"
proof -
  obtain y out where z: "z = (y, out)" by fastforce
  show ?thesis
  proof (cases ev)
    case Take
    with scan_Take [of pending out y] assms(6) z show ?thesis by (auto split: prod.splits)
  next
    case (Work i c late now)
    with scan_work [OF assms(1,2,3) _ assms(5)] assms(4,6) z show ?thesis by (simp add: honest_def)
  qed (use scan_other [of _ pending out y] assms(6) z in \<open>simp_all add: touches_scan_def del: recovery_step.simps\<close>)
qed

lemma discovery_run_scan:
  assumes "sorted_wrt (<) pending" and "0 \<notin> set pending" and "answers_sql Query pending"
  shows "\<lbrakk>list_all honest evs; n + length evs < 2 ^ 64; recovery_ok n (fst z); scan_ok pending (snd z) (coordinator (fst z))\<rbrakk> \<Longrightarrow>
    scan_ok pending (snd (discovery_run Query evs z)) (coordinator (fst (discovery_run Query evs z)))"
proof (induction evs arbitrary: n z)
  case (Cons ev evs)
  then have "scan_ok pending (snd (discovery_step Query ev z)) (coordinator (fst (discovery_step Query ev z)))"
    by (intro discovery_step_scan [OF assms]) auto
  moreover have "recovery_ok (Suc n) (fst (discovery_step Query ev z))" using Cons.prems by (intro discovery_step_ok) auto
  ultimately show ?case using Cons.IH [of "Suc n" "discovery_step Query ev z"] Cons.prems by simp
qed simp

definition discovery_start :: "Options \<Rightarrow> Recovery \<times> u64 list" where
  "discovery_start opts = (recovery_step OpResume (Recovery_new opts), [])"

lemma discovery_start_ok: "recovery_ok 1 (fst (discovery_start opts))"
  using recovery_step_ok [OF recovery_new_ok, of OpResume opts] by (simp add: discovery_start_def)

lemma discovery_start_scan: "0 \<notin> set pending \<Longrightarrow> scan_ok pending (snd (discovery_start opts)) (coordinator (fst (discovery_start opts)))"
  by (cases pending) (auto simp: discovery_start_def Resume_def scan_ok_def intro!: exI [of _ 0])

text \<open>C35: the durable scan hands out the users with pending messages in turns, each user once a turn and in ascending order, whatever
  calls fail or come late, and however tasks, dropped leases and replays interleave: what was handed out followed by what is
  ready is a number of whole turns and the beginning of the next, up to the cursor. Neither a failed page nor a repeated one
  loses or doubles a user.\<close>

theorem scan_turns_exact:
  assumes "sorted_wrt (<) pending" and "0 \<notin> set pending" and "answers_sql Query pending"
    and "list_all honest evs" and "length evs + 1 < 2 ^ 64" and "discovery_run Query evs (discovery_start opts) = (y, out)"
  shows "\<exists>k. out @ recipients (coordinator y) =
    concat (replicate k pending) @ takeWhile (\<lambda>i. i \<le> cursor (coordinator y)) pending"
  using discovery_run_scan [OF assms(1-4), of 1 "discovery_start opts"] discovery_start_ok discovery_start_scan [OF assms(2)] assms(5,6)
  by (simp add: scan_ok_def)

definition idle :: "Recovery \<Rightarrow> bool" where
  "idle y \<longleftrightarrow> queries y = [] \<and> \<not> query_active (coordinator y) \<and> \<not> recovery_stopped (coordinator y) \<and> length (recipients (coordinator y)) \<le> Limit"

definition seen :: "Recovery \<times> u64 list \<Rightarrow> u64 list" where
  "seen z = snd z @ recipients (coordinator (fst z))"

subsection \<open>The page in hand is bounded\<close>

lemma page_bounded_step:
  "length (recipients (coordinator (fst z))) \<le> Limit \<Longrightarrow> length (recipients (coordinator (fst (discovery_step Query ev z)))) \<le> Limit"
proof -
  assume bound: "length (recipients (coordinator (fst z))) \<le> Limit"
  obtain y out where z: "z = (y, out)" by fastforce
  show ?thesis
  proof (cases ev)
    case Take
    with bound z show ?thesis by (auto simp: PumpPrivateReplayAdmission_take_def TakeRecipients_def Let_def split: prod.splits)
  next
    case (Work i c late now)
    have "length (recipients (snd (snd (query_Complete ids hm now a s)))) \<le> Limit" if "length (recipients s) \<le> Limit" for ids hm a s
      using that by (auto simp: query_Complete_def split: option.splits)
    then have "length (recipients (snd (discovery_work Query c late now a s))) \<le> Limit" if "length (recipients s) \<le> Limit" for a s
      using that work_is_complete [of Query c late now a s] by fastforce
    from this [of "coordinator y" "queries y ! i"] Work bound z show ?thesis by (auto simp: on_query_def split: prod.splits)
  qed (use bound z untouched_scan [of _ y] in \<open>simp_all add: touches_scan_def del: recovery_step.simps\<close>)
qed

lemma page_bounded: "length (recipients (coordinator (fst z))) \<le> Limit \<Longrightarrow> length (recipients (coordinator (fst (discovery_run Query evs z)))) \<le> Limit"
proof (induction evs arbitrary: z)
  case (Cons ev evs)
  then show ?case using page_bounded_step [of z Query ev] by simp
qed simp

text \<open>A reachable state in which no discovery task is under way.\<close>

lemma reached_idle:
  assumes "sorted_wrt (<) pending" and "0 \<notin> set pending" and "answers_sql Query pending"
    and "list_all honest evs" and "length evs + 1 < 2 ^ 64" and "discovery_run Query evs (discovery_start opts) = (y, out)" and "queries y = []"
  shows "idle y"
proof -
  have "recovery_ok (1 + length evs) y" using discovery_run_ok [OF discovery_start_ok, of evs Query opts] assms(5,6) by simp
  then have "\<not> query_active (coordinator y)" using assms(7) by (auto simp: recovery_ok_def queries_ok_def)
  moreover have "\<not> recovery_stopped (coordinator y)"
    using discovery_run_scan [OF assms(1-4), of 1 "discovery_start opts"] discovery_start_ok discovery_start_scan [OF assms(2)] assms(5,6)
    by (simp add: scan_ok_def)
  moreover have "length (recipients (coordinator y)) \<le> Limit"
    using page_bounded [of "discovery_start opts" Query evs] assms(6) by (simp add: discovery_start_def Resume_def)
  ultimately show ?thesis using assms(7) by (simp add: idle_def)
qed

subsection \<open>A table that answers\<close>

text \<open>A database with the table reduced to its pending recipients: it reads the two numbers of the query and answers it.\<close>

definition table_query :: "u64 list \<Rightarrow> sql_query" where
  "table_query pending sql =
     (let tail = drop (length (''SELECT DISTINCT to_user_id FROM im_private_messages '' @ ''WHERE to_user_id > '')) sql;
          after_user_id = of_nat (digits_value (takeWhile isdigit tail));
          limit = digits_value (drop (length '' AND delivery_status = 0 ORDER BY to_user_id ASC LIMIT '') (dropWhile isdigit tail))
      in Some (map (\<lambda>i. [to_string (unat i)]) (take limit (filter (\<lambda>i. after_user_id < i) pending))))"

lemma takeWhile_digits: "\<not> isdigit c \<Longrightarrow> takeWhile isdigit (to_string n @ c # cs) = to_string n \<and> dropWhile isdigit (to_string n @ c # cs) = c # cs"
  using to_string_digits by (auto simp: takeWhile_append2 dropWhile_append2)

lemma table_answers: "answers_sql (table_query pending) pending"
proof -
  have "\<not> isdigit CHR '' ''" by (simp add: isdigit_def)
  note digits = takeWhile_digits [OF this, THEN conjunct1] takeWhile_digits [OF this, THEN conjunct2]
  show ?thesis by (simp add: answers_sql_def table_query_def pending_sql_def Let_def digits digits_value_to_string)
qed

definition demo_circumstances :: Circumstances where
  "demo_circumstances = \<lparr>pool_set = True, connection_acquired = True, repository_set = True, port_set = True, arguments_set = True,
     application_set = True, cancelled = False, budget_left = True, endpoint_provider_set = True, endpoint_resolved = True,
     stub_created = True, deadline_ahead = True, transport_failure = None\<rparr>"

lemma demo_available: "all_available demo_circumstances"
  by (simp add: all_available_def demo_circumstances_def)

lemma demo_ids_pending: "sorted_wrt (<) [3, 5, 9 :: u64]" "(0 :: u64) \<notin> set [3, 5, 9]"
  by simp_all

definition demo_events :: "DiscoveryEvent list" where
  "demo_events = [Acquire 0, Work 0 (demo_circumstances\<lparr>transport_failure := Some UNAVAILABLE\<rparr>) False 1, Drop 0 2,
     Acquire 600, Work 0 demo_circumstances False 601, Drop 0 602, Take]"

lemma demo_client:
  "client_ListPendingRecipientsAfter (table_query [3, 5, 9]) demo_circumstances 0 (of_nat Limit) = Inr ([3, 5, 9], False)"
  "client_ListPendingRecipientsAfter (table_query [3, 5, 9]) (demo_circumstances\<lparr>transport_failure := Some UNAVAILABLE\<rparr>) 0 (of_nat Limit) = Inl RpcUnavailable"
  using client_page [OF table_answers demo_ids_pending(1) demo_available, of 0]
  by (simp_all add: Limit_def client_ListPendingRecipientsAfter_def stub_call_def demo_circumstances_def)

definition demo_state :: "bool \<Rightarrow> u64 \<Rightarrow> int \<Rightarrow> u64 list \<Rightarrow> QueryAttempt list \<Rightarrow> Recovery" where
  "demo_state qa qg nq ids qs = \<lparr>coordinator = \<lparr>max_session_states = 4, max_active_replays = 2, interval = 100, backoff_delay = 500,
     recovery_stopped = False, query_active = qa, query_generation = qg, cursor = 0, replay_generation = 0, next_query = nq, recipients = ids,
     sessions = Map.empty, active_replays = 0\<rparr>, queries = qs, replays = []\<rparr>"

definition demo_lease :: "u64 \<Rightarrow> bool \<Rightarrow> QueryAttempt" where
  "demo_lease g fin = \<lparr>query_gen = g, query_cursor = 0, query_finished = fin\<rparr>"

lemma demo_start: "discovery_start demo_options = (demo_state False 1 0 [] [], [])"
  by (simp add: discovery_start_def demo_state_def demo_options_def Resume_def Recovery_new_def DurablePrivateRecovery_new_def)

lemma demo_acquire:
  "nq \<le> now \<Longrightarrow> discovery_step Q (Acquire now) (demo_state False g nq [] [], out) = (demo_state True (g + 1) nq [] [demo_lease (g + 1) False], out)"
  by (simp add: demo_state_def demo_lease_def AcquireQuery_def Let_def)

lemma demo_work:
  "discovery_step (table_query [3, 5, 9]) (Work 0 demo_circumstances False now) (demo_state True g nq [] [demo_lease g False], out)
     = (demo_state False g (now + 100) [3, 5, 9] [demo_lease g True], out)"
  "discovery_step (table_query [3, 5, 9]) (Work 0 (demo_circumstances\<lparr>transport_failure := Some UNAVAILABLE\<rparr>) False now)
     (demo_state True g nq [] [demo_lease g False], out) = (demo_state True g nq [] [demo_lease g False], out)"
  by (simp_all add: demo_state_def demo_lease_def on_query_def discovery_work_def demo_client query_Complete_def query_CurrentLocked_def) (simp add: Limit_def)

lemma demo_drop:
  "discovery_step Q (Drop 0 now) (demo_state True g nq ids [demo_lease g False], out) = (demo_state False g (now + 500) ids [], out)"
  "discovery_step Q (Drop 0 now) (demo_state False g nq ids [demo_lease g True], out) = (demo_state False g nq ids [], out)"
  by (simp_all add: demo_state_def demo_lease_def on_query_def query_Fail_def query_CurrentLocked_def remove_nth_def)

lemma demo_take: "discovery_step Q Take (demo_state False g nq [3, 5, 9] [], out) = (demo_state False g nq [] [], out @ [3, 5, 9])"
  by (simp add: demo_state_def PumpPrivateReplayAdmission_take_def TakeRecipients_def)

lemma demo_scan_run:
  "discovery_run (table_query [3, 5, 9]) demo_events (discovery_start demo_options) = (demo_state False 3 701 [] [], [3, 5, 9])"
  by (simp add: demo_events_def demo_start demo_acquire demo_work demo_drop demo_take del: discovery_step.simps)

lemma demo_honest: "list_all honest demo_events"
  by (simp add: demo_events_def honest_def demo_circumstances_def)

theorem scan_turns_exact_witness:
  "answers_sql (table_query [3, 5, 9]) [3, 5, 9] \<and> list_all honest demo_events
    \<and> (\<exists>k. snd (discovery_run (table_query [3, 5, 9]) demo_events (discovery_start demo_options)) = concat (replicate k [3, 5, 9]))"
proof -
  have "length demo_events + 1 < 2 ^ 64" by (simp add: demo_events_def)
  from scan_turns_exact [OF demo_ids_pending table_answers demo_honest this demo_scan_run] table_answers demo_honest demo_scan_run show ?thesis
    by (simp add: demo_state_def)
qed

end
