(* ===== verification/Session_Manager.thy ===== *)
theory Session_Manager
  imports TIMX_Prelude
begin

text \<open>
  The gateway's table of logged in users, \<open>gateway/SessionManager.{h,cpp}\<close>: which connection a user's session is on,
  with a generation number (epoch), and the reverse map from connection names to users. A connection is the identity
  of the object and its name; the map of sessions holds a weak pointer, so that every method takes the set of objects
  that are alive at the time of the call. \<open>None\<close> as the result of \<open>UnbindIfCurrent\<close> is the read of a record after
  its removal from the map. Logging is left out. Each method is atomic under the class's mutex.
\<close>

section \<open>Data\<close>

record TcpConnectionRef =
  conn_object :: nat
  conn_name :: string

record SessionSnapshot =
  snapshot_user_id :: u64
  snapshot_epoch :: u64
  snapshot_connection :: TcpConnectionRef

record SessionBindResult =
  bind_success :: bool
  bind_replaced :: bool
  bind_old_connection :: "TcpConnectionRef option"
  bind_epoch :: u64

record SessionUnbindResult =
  unbound :: bool
  unbound_user_id :: u64
  unbound_epoch :: u64

record SessionRecord =
  session_connection :: TcpConnectionRef
  session_epoch :: u64
  session_connection_key :: string

record ConnectionSessionRecord =
  owner_user_id :: u64
  owner_epoch :: u64

record SessionManager =
  user_sessions :: "u64 \<rightharpoonup> SessionRecord"
  connection_sessions :: "string \<rightharpoonup> ConnectionSessionRecord"
  next_epoch :: u64

definition SessionManager_new :: SessionManager where
  "SessionManager_new = \<lparr>user_sessions = Map.empty, connection_sessions = Map.empty, next_epoch = 1\<rparr>"

text \<open>\<open>std::weak_ptr::lock\<close>.\<close>

definition lock_weak :: "nat set \<Rightarrow> TcpConnectionRef \<Rightarrow> TcpConnectionRef option" where
  "lock_weak live c = (if conn_object c \<in> live then Some c else None)"

section \<open>Operations\<close>

definition ConnectionKey :: "TcpConnectionRef option \<Rightarrow> string" where
  "ConnectionKey c = (case c of None \<Rightarrow> [] | Some c \<Rightarrow> conn_name c)"

definition AllocateEpochLocked :: "SessionManager \<Rightarrow> u64 \<times> SessionManager" where
  "AllocateEpochLocked s =
     (let e = (if next_epoch s = 0 then 1 else next_epoch s); n = e + 1
      in (e, s\<lparr>next_epoch := (if n = 0 then 1 else n)\<rparr>))"

text \<open>The three steps of \<open>BindOrReplace\<close>: the user's old session, the connection's old owner, the new session.\<close>

definition drop_user_session :: "u64 \<Rightarrow> string \<Rightarrow> nat set \<Rightarrow> SessionManager \<Rightarrow>
    TcpConnectionRef option \<times> SessionManager" where
  "drop_user_session u new_key live s =
     (case user_sessions s u of
        None \<Rightarrow> (None, s)
      | Some old \<Rightarrow>
          (if session_connection_key old \<noteq> new_key then lock_weak live (session_connection old) else None,
           s\<lparr>connection_sessions :=
               (case connection_sessions s (session_connection_key old) of
                  None \<Rightarrow> connection_sessions s
                | Some back \<Rightarrow> if owner_user_id back = u \<and> owner_epoch back = session_epoch old
                             then (connection_sessions s)(session_connection_key old := None)
                             else connection_sessions s),
             user_sessions := (user_sessions s)(u := None)\<rparr>))"

definition drop_connection_owner :: "string \<Rightarrow> SessionManager \<Rightarrow> SessionManager" where
  "drop_connection_owner new_key s =
     (case connection_sessions s new_key of
        None \<Rightarrow> s
      | Some old_owner \<Rightarrow>
          s\<lparr>user_sessions :=
              (case user_sessions s (owner_user_id old_owner) of
                 None \<Rightarrow> user_sessions s
               | Some r \<Rightarrow> if session_epoch r = owner_epoch old_owner \<and> session_connection_key r = new_key
                          then (user_sessions s)(owner_user_id old_owner := None) else user_sessions s),
            connection_sessions := (connection_sessions s)(new_key := None)\<rparr>)"

definition bind_failed :: SessionBindResult where
  "bind_failed = \<lparr>bind_success = False, bind_replaced = False, bind_old_connection = None, bind_epoch = 0\<rparr>"

definition BindOrReplace :: "u64 \<Rightarrow> TcpConnectionRef option \<Rightarrow> nat set \<Rightarrow> SessionManager \<Rightarrow>
    SessionBindResult \<times> SessionManager" where
  "BindOrReplace u connection live s =
     (case connection of
        None \<Rightarrow> (bind_failed, s)
      | Some c \<Rightarrow>
          let key = ConnectionKey connection in
          if u = 0 \<or> key = [] then (bind_failed, s)
          else
            let (old, s1) = drop_user_session u key live s;
                s2 = drop_connection_owner key s1;
                (e, s3) = AllocateEpochLocked s2
            in (\<lparr>bind_success = True, bind_replaced = (old \<noteq> None), bind_old_connection = old, bind_epoch = e\<rparr>,
                s3\<lparr>user_sessions := (user_sessions s3)(u \<mapsto>
                     \<lparr>session_connection = c, session_epoch = e, session_connection_key = key\<rparr>),
                   connection_sessions := (connection_sessions s3)(key \<mapsto>
                     \<lparr>owner_user_id = u, owner_epoch = e\<rparr>)\<rparr>))"

definition Bind :: "u64 \<Rightarrow> TcpConnectionRef option \<Rightarrow> nat set \<Rightarrow> SessionManager \<Rightarrow> bool \<times> SessionManager" where
  "Bind u connection live s = (case BindOrReplace u connection live s of (r, s') \<Rightarrow> (bind_success r, s'))"

definition not_unbound :: SessionUnbindResult where
  "not_unbound = \<lparr>unbound = False, unbound_user_id = 0, unbound_epoch = 0\<rparr>"

definition UnbindIfCurrent :: "TcpConnectionRef option \<Rightarrow> nat set \<Rightarrow> SessionManager \<Rightarrow>
    (SessionUnbindResult \<times> SessionManager) option" where
  "UnbindIfCurrent connection live s =
     (case connection of
        None \<Rightarrow> Some (not_unbound, s)
      | Some c \<Rightarrow>
          let key = ConnectionKey connection in
          if key = [] then Some (not_unbound, s)
          else case connection_sessions s key of
            None \<Rightarrow> Some (not_unbound, s)
          | Some back \<Rightarrow>
              let no_reverse = s\<lparr>connection_sessions := (connection_sessions s)(key := None)\<rparr> in
              case user_sessions s (owner_user_id back) of
                None \<Rightarrow> Some (not_unbound, no_reverse)
              | Some cur \<Rightarrow>
                  let current_connection = lock_weak live (session_connection cur);
                      same_generation = (session_epoch cur = owner_epoch back \<and> session_connection_key cur = key);
                      no_session = no_reverse\<lparr>user_sessions := (user_sessions s)(owner_user_id back := None)\<rparr>
                  in if \<not> same_generation \<or> current_connection = None
                        \<or> map_option conn_object current_connection \<noteq> Some (conn_object c)
                     then if same_generation \<and> current_connection = None
                          then None  \<comment> \<open>the erased record's epoch is read for the log line\<close>
                          else Some (not_unbound, no_reverse)
                     else Some (\<lparr>unbound = True, unbound_user_id = owner_user_id back, unbound_epoch = owner_epoch back\<rparr>,
                                no_session))"

definition UnbindByConnection :: "TcpConnectionRef option \<Rightarrow> nat set \<Rightarrow> SessionManager \<Rightarrow> SessionManager option" where
  "UnbindByConnection connection live s = map_option snd (UnbindIfCurrent connection live s)"

definition FindSession :: "u64 \<Rightarrow> nat set \<Rightarrow> SessionManager \<Rightarrow> SessionSnapshot option" where
  "FindSession u live s =
     (if u = 0 then None
      else case user_sessions s u of
        None \<Rightarrow> None
      | Some r \<Rightarrow> map_option (\<lambda>c. \<lparr>snapshot_user_id = u, snapshot_epoch = session_epoch r, snapshot_connection = c\<rparr>)
                    (lock_weak live (session_connection r)))"

definition FindSessionByConnection :: "TcpConnectionRef option \<Rightarrow> nat set \<Rightarrow> SessionManager \<Rightarrow> SessionSnapshot option" where
  "FindSessionByConnection connection live s =
     (case connection of
        None \<Rightarrow> None
      | Some c \<Rightarrow>
          let key = ConnectionKey connection in
          if key = [] then None
          else case connection_sessions s key of
            None \<Rightarrow> None
          | Some back \<Rightarrow>
              (case user_sessions s (owner_user_id back) of
                 None \<Rightarrow> None
               | Some r \<Rightarrow>
                   if session_epoch r \<noteq> owner_epoch back \<or> session_connection_key r \<noteq> key then None
                   else case lock_weak live (session_connection r) of
                     None \<Rightarrow> None
                   | Some current \<Rightarrow>
                       if conn_object current \<noteq> conn_object c then None
                       else Some \<lparr>snapshot_user_id = owner_user_id back, snapshot_epoch = owner_epoch back,
                                  snapshot_connection = current\<rparr>))"

definition IsCurrent :: "u64 \<Rightarrow> u64 \<Rightarrow> TcpConnectionRef option \<Rightarrow> nat set \<Rightarrow> SessionManager \<Rightarrow> bool" where
  "IsCurrent u e connection live s =
     (case connection of
        None \<Rightarrow> False
      | Some c \<Rightarrow>
          if u = 0 \<or> e = 0 then False
          else case user_sessions s u of
            None \<Rightarrow> False
          | Some r \<Rightarrow>
              if session_epoch r \<noteq> e \<or> session_connection_key r \<noteq> ConnectionKey connection then False
              else case lock_weak live (session_connection r) of
                None \<Rightarrow> False
              | Some current \<Rightarrow> conn_object current = conn_object c)"

definition FindConnection :: "u64 \<Rightarrow> nat set \<Rightarrow> SessionManager \<Rightarrow> TcpConnectionRef option" where
  "FindConnection u live s = map_option snapshot_connection (FindSession u live s)"

definition FindUserByConnection :: "TcpConnectionRef option \<Rightarrow> nat set \<Rightarrow> SessionManager \<Rightarrow> u64 option" where
  "FindUserByConnection connection live s = map_option snapshot_user_id (FindSessionByConnection connection live s)"

definition IsOnline :: "u64 \<Rightarrow> nat set \<Rightarrow> SessionManager \<Rightarrow> bool" where
  "IsOnline u live s \<longleftrightarrow> FindConnection u live s \<noteq> None"

definition OnlineCount :: "SessionManager \<Rightarrow> nat" where
  "OnlineCount s = card (dom (user_sessions s))"

section \<open>Calls\<close>

datatype SessionOp =
    OpBindOrReplace u64 "TcpConnectionRef option" "nat set"
  | OpUnbindIfCurrent "TcpConnectionRef option" "nat set"

fun session_step :: "SessionManager \<Rightarrow> SessionOp \<Rightarrow> SessionManager option" where
  "session_step s (OpBindOrReplace u c live) = Some (snd (BindOrReplace u c live s))"
| "session_step s (OpUnbindIfCurrent c live) = map_option snd (UnbindIfCurrent c live s)"

text \<open>The server names its connections with a running number (\<open>TcpServer::MakeConnectionName\<close>), and a caller
  holds the connection it passes: \<open>nm\<close> is the name of each object.\<close>

fun well_named :: "(nat \<Rightarrow> string) \<Rightarrow> TcpConnectionRef option \<Rightarrow> nat set \<Rightarrow> bool" where
  "well_named nm None live \<longleftrightarrow> True"
| "well_named nm (Some c) live \<longleftrightarrow> conn_name c = nm (conn_object c) \<and> conn_object c \<in> live"

fun call_ok :: "(nat \<Rightarrow> string) \<Rightarrow> SessionOp \<Rightarrow> bool" where
  "call_ok nm (OpBindOrReplace u c live) \<longleftrightarrow> well_named nm c live"
| "call_ok nm (OpUnbindIfCurrent c live) \<longleftrightarrow> well_named nm c live"

section \<open>Invariant\<close>

definition record_ok :: "(nat \<Rightarrow> string) \<Rightarrow> u64 \<Rightarrow> SessionRecord \<Rightarrow> bool" where
  "record_ok nm u r \<longleftrightarrow> u \<noteq> 0 \<and> session_epoch r \<noteq> 0 \<and> session_connection_key r \<noteq> []
     \<and> session_connection_key r = conn_name (session_connection r)
     \<and> conn_name (session_connection r) = nm (conn_object (session_connection r))"

text \<open>The two maps are inverse to each other.\<close>

definition sessions_ok :: "(nat \<Rightarrow> string) \<Rightarrow> SessionManager \<Rightarrow> bool" where
  "sessions_ok nm s \<longleftrightarrow> next_epoch s \<noteq> 0 \<and> finite (dom (user_sessions s))
     \<and> (\<forall>u r. user_sessions s u = Some r \<longrightarrow> record_ok nm u r
          \<and> connection_sessions s (session_connection_key r) = Some \<lparr>owner_user_id = u, owner_epoch = session_epoch r\<rparr>)
     \<and> (\<forall>k b. connection_sessions s k = Some b \<longrightarrow>
          (\<exists>r. user_sessions s (owner_user_id b) = Some r \<and> session_epoch r = owner_epoch b \<and> session_connection_key r = k))"

lemma sessions_ok_new: "sessions_ok nm SessionManager_new"
  by (simp add: sessions_ok_def SessionManager_new_def)

lemma sessionD:
  assumes "sessions_ok nm s" and "user_sessions s u = Some r"
  shows "record_ok nm u r"
    and "connection_sessions s (session_connection_key r) = Some \<lparr>owner_user_id = u, owner_epoch = session_epoch r\<rparr>"
  using assms by (auto simp: sessions_ok_def)

lemma ownerD:
  assumes "sessions_ok nm s" and "connection_sessions s k = Some b"
  obtains r where "user_sessions s (owner_user_id b) = Some r" "session_epoch r = owner_epoch b"
    "session_connection_key r = k"
  using assms unfolding sessions_ok_def by blast

lemma key_owner_unique:
  assumes "sessions_ok nm s" and "user_sessions s u = Some r" and "user_sessions s u' = Some r'"
    and "session_connection_key r = session_connection_key r'"
  shows "u = u'"
  using assms sessionD(2) [of nm s] by (metis ConnectionSessionRecord.ext_inject option.inject)

lemma sessions_ok_remove:
  assumes ok: "sessions_ok nm s" and r: "user_sessions s u = Some r"
  shows "sessions_ok nm (s\<lparr>user_sessions := (user_sessions s)(u := None),
      connection_sessions := (connection_sessions s)(session_connection_key r := None)\<rparr>)"
  using ok key_owner_unique [OF ok r] sessionD [OF ok r] unfolding sessions_ok_def
  by (auto simp: fun_upd_def split: if_splits) (metis option.inject)+

definition remove_session :: "u64 \<Rightarrow> SessionManager \<Rightarrow> SessionManager" where
  "remove_session u s =
     (case user_sessions s u of
        None \<Rightarrow> s
      | Some r \<Rightarrow> s\<lparr>user_sessions := (user_sessions s)(u := None),
                    connection_sessions := (connection_sessions s)(session_connection_key r := None)\<rparr>)"

lemma sessions_ok_remove_session [simp]: "sessions_ok nm s \<Longrightarrow> sessions_ok nm (remove_session u s)"
  by (auto simp: remove_session_def sessions_ok_remove split: option.split)

lemma remove_session_fields [simp]:
  "user_sessions (remove_session u s) = (user_sessions s)(u := None)"
  "next_epoch (remove_session u s) = next_epoch s"
  by (auto simp: remove_session_def split: option.split)

lemma drop_user_session_eq:
  "sessions_ok nm s \<Longrightarrow> drop_user_session u key live s =
     (case user_sessions s u of None \<Rightarrow> None
      | Some r \<Rightarrow> if session_connection_key r \<noteq> key then lock_weak live (session_connection r) else None,
      remove_session u s)"
  by (auto simp: drop_user_session_def remove_session_def sessionD(2) split: option.split)

lemma drop_connection_owner_eq:
  "sessions_ok nm s \<Longrightarrow> drop_connection_owner key s =
     (case connection_sessions s key of None \<Rightarrow> s | Some b \<Rightarrow> remove_session (owner_user_id b) s)"
  by (auto simp: drop_connection_owner_def remove_session_def elim!: ownerD split: option.splits)

lemma sessions_ok_owner_gone:
  assumes ok: "sessions_ok nm s"
  shows "sessions_ok nm (drop_connection_owner key s)"
    and "connection_sessions (drop_connection_owner key s) key = None"
    and "user_sessions (drop_connection_owner key s) u =
      (case user_sessions s u of None \<Rightarrow> None | Some r \<Rightarrow> if session_connection_key r = key then None else Some r)"
    and "next_epoch (drop_connection_owner key s) = next_epoch s"
proof -
  show "sessions_ok nm (drop_connection_owner key s)" "next_epoch (drop_connection_owner key s) = next_epoch s"
    using ok by (auto simp: drop_connection_owner_eq [OF ok] split: option.split)
  show "connection_sessions (drop_connection_owner key s) key = None"
    by (auto simp: drop_connection_owner_def split: option.split)
  show "user_sessions (drop_connection_owner key s) u =
      (case user_sessions s u of None \<Rightarrow> None | Some r \<Rightarrow> if session_connection_key r = key then None else Some r)"
  proof (cases "connection_sessions s key")
    case None
    then have "session_connection_key r \<noteq> key" if "user_sessions s u = Some r" for r
      using sessionD(2) [OF ok that] by auto
    with None show ?thesis by (auto simp: drop_connection_owner_eq [OF ok] split: option.split)
  next
    case (Some b)
    obtain r where r: "user_sessions s (owner_user_id b) = Some r" "session_connection_key r = key"
      using ownerD [OF ok Some] .
    have owner: "session_connection_key r' = key \<longleftrightarrow> u = owner_user_id b" if "user_sessions s u = Some r'" for r'
      using that r key_owner_unique [OF ok r(1) that] by auto
    show ?thesis
    proof (cases "user_sessions s u")
      case None
      then show ?thesis by (simp add: drop_connection_owner_eq [OF ok] Some)
    next
      case (Some r')
      from owner [OF this] this \<open>connection_sessions s key = Some b\<close> show ?thesis
        by (simp add: drop_connection_owner_eq [OF ok])
    qed
  qed
qed

text \<open>The abstract state: who is logged in on which connection, in which generation.\<close>

definition sessions :: "SessionManager \<Rightarrow> (u64 \<times> TcpConnectionRef \<times> u64) set" where
  "sessions s = {(u, session_connection r, session_epoch r) |u r. user_sessions s u = Some r}"

definition spec_bind :: "u64 \<Rightarrow> TcpConnectionRef \<Rightarrow> u64 \<Rightarrow> (u64 \<times> TcpConnectionRef \<times> u64) set \<Rightarrow> (u64 \<times> TcpConnectionRef \<times> u64) set" where
  "spec_bind u c e A = insert (u, c, e) {(u', c', e') \<in> A. u' \<noteq> u \<and> c' \<noteq> c}"

definition spec_unbind :: "TcpConnectionRef \<Rightarrow> (u64 \<times> TcpConnectionRef \<times> u64) set \<Rightarrow> (u64 \<times> TcpConnectionRef \<times> u64) set" where
  "spec_unbind c A = {(u', c', e') \<in> A. c' \<noteq> c}"

lemma conn_eq_iff:
  assumes "inj nm" "conn_name c = nm (conn_object c)" "conn_name c' = nm (conn_object c')"
  shows "conn_name c = conn_name c' \<longleftrightarrow> c = (c' :: TcpConnectionRef)"
  using assms by (metis TcpConnectionRef.surjective inj_eq old.unit.exhaust)

lemma record_connection_iff:
  assumes "record_ok nm u r" and "inj nm" and "conn_name c = nm (conn_object c)"
  shows "session_connection_key r = conn_name c \<longleftrightarrow> session_connection r = c"
proof -
  have "session_connection_key r = conn_name (session_connection r)"
    "conn_name (session_connection r) = nm (conn_object (session_connection r))"
    using assms(1) by (simp_all only: record_ok_def)
  then show ?thesis using conn_eq_iff [OF assms(2) _ assms(3), of "session_connection r"] by metis
qed

lemma AllocateEpochLocked_spec:
  assumes "AllocateEpochLocked s = (e, s')" and "next_epoch s \<noteq> 0"
  shows "e = next_epoch s" "e \<noteq> 0" "next_epoch s' \<noteq> 0" "user_sessions s' = user_sessions s"
    "connection_sessions s' = connection_sessions s"
    "next_epoch s' = (if next_epoch s + 1 = 0 then 1 else next_epoch s + 1)"
  using assms by (auto simp: AllocateEpochLocked_def Let_def split: if_splits)

definition bindable :: "u64 \<Rightarrow> TcpConnectionRef \<Rightarrow> bool" where
  "bindable u c \<longleftrightarrow> u \<noteq> 0 \<and> conn_name c \<noteq> []"

lemma sessions_ok_insert:
  assumes ok: "sessions_ok nm s" and "user_sessions s u = None" and "connection_sessions s (conn_name c) = None"
    and "bindable u c" "conn_name c = nm (conn_object c)" and "e \<noteq> 0" "n \<noteq> 0"
  shows "sessions_ok nm (s\<lparr>next_epoch := n,
      user_sessions := (user_sessions s)(u \<mapsto> \<lparr>session_connection = c, session_epoch = e, session_connection_key = conn_name c\<rparr>),
      connection_sessions := (connection_sessions s)(conn_name c \<mapsto> \<lparr>owner_user_id = u, owner_epoch = e\<rparr>)\<rparr>)"
  using assms unfolding sessions_ok_def
  by (auto simp: record_ok_def bindable_def split: if_splits) (metis option.distinct(1))+


text \<open>What a successful bind does, on the level of the abstract state.\<close>

lemma BindOrReplace_spec:
  assumes ok: "sessions_ok nm s" and nm: "inj nm" "conn_name c = nm (conn_object c)" and b: "bindable u c"
    and run: "BindOrReplace u (Some c) live s = (res, s')"
  shows "sessions_ok nm s'" and "bind_success res" and "bind_epoch res = next_epoch s"
    and "next_epoch s' = (if next_epoch s + 1 = 0 then 1 else next_epoch s + 1)"
    and "sessions s' = spec_bind u c (next_epoch s) (sessions s)"
    and "bind_old_connection res = (case user_sessions s u of None \<Rightarrow> None
       | Some r \<Rightarrow> if session_connection r = c then None else lock_weak live (session_connection r))"
    and "bind_replaced res = (bind_old_connection res \<noteq> None)"
proof -
  let ?key = "conn_name c"
  define s1 where "s1 = remove_session u s"
  define s2 where "s2 = drop_connection_owner ?key s1"
  obtain e s3 where alloc: "AllocateEpochLocked s2 = (e, s3)" by fastforce
  have ok1: "sessions_ok nm s1" using ok by (simp add: s1_def)
  have ok2: "sessions_ok nm s2" and none: "connection_sessions s2 ?key = None" "user_sessions s2 u = None"
    and ep: "next_epoch s2 = next_epoch s" and us: "user_sessions s2 u' =
      (case user_sessions s1 u' of None \<Rightarrow> None | Some r \<Rightarrow> if session_connection_key r = ?key then None else Some r)" for u'
    using sessions_ok_owner_gone [OF ok1, of ?key] by (simp_all add: s2_def s1_def)
  have ne: "next_epoch s \<noteq> 0" using ok by (simp add: sessions_ok_def)
  note a = AllocateEpochLocked_spec [OF alloc, unfolded ep, OF ne]
  have s3: "s3 = s2\<lparr>next_epoch := next_epoch s3\<rparr>" using alloc by (auto simp: AllocateEpochLocked_def Let_def)
  have eqs: "res = \<lparr>bind_success = True, bind_replaced = (fst (drop_user_session u ?key live s) \<noteq> None),
        bind_old_connection = fst (drop_user_session u ?key live s), bind_epoch = e\<rparr>"
    "s' = s3\<lparr>user_sessions := (user_sessions s3)(u \<mapsto>
          \<lparr>session_connection = c, session_epoch = e, session_connection_key = ?key\<rparr>),
        connection_sessions := (connection_sessions s3)(?key \<mapsto> \<lparr>owner_user_id = u, owner_epoch = e\<rparr>)\<rparr>"
    using run b alloc by (auto simp: BindOrReplace_def Let_def ConnectionKey_def bindable_def
        drop_user_session_eq [OF ok] s1_def [symmetric] s2_def [symmetric])
  show "sessions_ok nm s'"
    using sessions_ok_insert [OF ok2 none(2,1) b nm(2) a(2,3)] unfolding eqs(2) a(4,5) by (subst s3) simp
  show "bind_success res" "bind_epoch res = next_epoch s" "bind_replaced res = (bind_old_connection res \<noteq> None)"
    "next_epoch s' = (if next_epoch s + 1 = 0 then 1 else next_epoch s + 1)"
    using eqs a by simp_all
  have same: "session_connection_key r = ?key \<longleftrightarrow> session_connection r = c" if "user_sessions s u' = Some r" for u' r
    using record_connection_iff [OF sessionD(1) [OF ok that] nm] .
  show "bind_old_connection res = (case user_sessions s u of None \<Rightarrow> None
       | Some r \<Rightarrow> if session_connection r = c then None else lock_weak live (session_connection r))"
    using same by (auto simp: eqs drop_user_session_eq [OF ok] split: option.split)
  show "sessions s' = spec_bind u c (next_epoch s) (sessions s)"
    using same unfolding sessions_def spec_bind_def eqs(2)
    by (auto simp: a us s1_def split: if_splits option.splits)
qed


lemma BindOrReplace_refused:
  "\<not> bindable u c \<Longrightarrow> BindOrReplace u (Some c) live s = (bind_failed, s)"
  "BindOrReplace u None live s = (bind_failed, s)"
  by (auto simp: BindOrReplace_def bindable_def ConnectionKey_def)

lemma sessions_iff: "(u, c, e) \<in> sessions s \<longleftrightarrow>
    (\<exists>r. user_sessions s u = Some r \<and> session_connection r = c \<and> session_epoch r = e)"
  by (auto simp: sessions_def)

text \<open>Under the invariant the reverse map finds exactly the session on the given connection.\<close>

lemma reverse_lookup:
  assumes ok: "sessions_ok nm s" and nm: "inj nm" "conn_name c = nm (conn_object c)"
  shows "connection_sessions s (conn_name c) = Some b \<longleftrightarrow> (owner_user_id b, c, owner_epoch b) \<in> sessions s"
proof
  assume "connection_sessions s (conn_name c) = Some b"
  then obtain r where r: "user_sessions s (owner_user_id b) = Some r" "session_epoch r = owner_epoch b"
    "session_connection_key r = conn_name c" using ownerD [OF ok] by blast
  then have "session_connection r = c"
    using record_connection_iff [OF sessionD(1) [OF ok r(1)] nm] by simp
  with r show "(owner_user_id b, c, owner_epoch b) \<in> sessions s" by (auto simp: sessions_iff)
next
  assume "(owner_user_id b, c, owner_epoch b) \<in> sessions s"
  then obtain r where r: "user_sessions s (owner_user_id b) = Some r" "session_connection r = c" "session_epoch r = owner_epoch b"
    unfolding sessions_iff by blast
  have "connection_sessions s (conn_name c) = Some \<lparr>owner_user_id = owner_user_id b, owner_epoch = owner_epoch b\<rparr>"
    using sessionD [OF ok r(1)] r by (simp add: record_ok_def)
  then show "connection_sessions s (conn_name c) = Some b" by simp
qed

lemma sessions_functional:
  assumes ok: "sessions_ok nm s"
  shows "\<lbrakk>(u, c, e) \<in> sessions s; (u, c', e') \<in> sessions s\<rbrakk> \<Longrightarrow> c' = c \<and> e' = e"
    and "\<lbrakk>(u, c, e) \<in> sessions s; (u', c, e') \<in> sessions s\<rbrakk> \<Longrightarrow> u' = u \<and> e' = e"
proof -
  show "\<lbrakk>(u, c, e) \<in> sessions s; (u, c', e') \<in> sessions s\<rbrakk> \<Longrightarrow> c' = c \<and> e' = e"
    by (auto simp: sessions_iff)
  show "\<lbrakk>(u, c, e) \<in> sessions s; (u', c, e') \<in> sessions s\<rbrakk> \<Longrightarrow> u' = u \<and> e' = e"
  proof -
    assume "(u, c, e) \<in> sessions s" "(u', c, e') \<in> sessions s"
    then obtain r r' where r: "user_sessions s u = Some r" "session_connection r = c" "session_epoch r = e"
      and r': "user_sessions s u' = Some r'" "session_connection r' = c" "session_epoch r' = e'"
      by (auto simp: sessions_iff)
    have "u = u'"
      by (rule key_owner_unique [OF ok r(1) r'(1)])
        (use sessionD(1) [OF ok r(1)] sessionD(1) [OF ok r'(1)] r r' in \<open>simp add: record_ok_def\<close>)
    with r r' show "u' = u \<and> e' = e" by auto
  qed
qed

lemma UnbindIfCurrent_spec:
  assumes ok: "sessions_ok nm s" and nm: "inj nm" "conn_name c = nm (conn_object c)" and live: "conn_object c \<in> live"
  shows "\<exists>res s'. UnbindIfCurrent (Some c) live s = Some (res, s') \<and> sessions_ok nm s' \<and> next_epoch s' = next_epoch s
    \<and> sessions s' = spec_unbind c (sessions s)
    \<and> (unbound res \<longrightarrow> (unbound_user_id res, c, unbound_epoch res) \<in> sessions s)
    \<and> (\<not> unbound res \<longrightarrow> (\<forall>u e. (u, c, e) \<notin> sessions s))"
proof (cases "connection_sessions s (conn_name c)")
  case None
  then have none: "(u, c, e) \<notin> sessions s" for u e
    using reverse_lookup [OF ok nm, of "\<lparr>owner_user_id = u, owner_epoch = e\<rparr>"] by auto
  then have "sessions s = spec_unbind c (sessions s)" by (auto simp: spec_unbind_def)
  with None ok none show ?thesis
    by (auto simp: UnbindIfCurrent_def Let_def ConnectionKey_def not_unbound_def)
next
  case (Some b)
  then have inb: "(owner_user_id b, c, owner_epoch b) \<in> sessions s" using reverse_lookup [OF ok nm] by blast
  then obtain r where r: "user_sessions s (owner_user_id b) = Some r" "session_connection r = c" "session_epoch r = owner_epoch b"
    by (auto simp: sessions_iff)
  have key: "session_connection_key r = conn_name c" "conn_name c \<noteq> []"
    using sessionD(1) [OF ok r(1)] r by (auto simp: record_ok_def)
  have "UnbindIfCurrent (Some c) live s = Some (\<lparr>unbound = True, unbound_user_id = owner_user_id b, unbound_epoch = owner_epoch b\<rparr>,
      remove_session (owner_user_id b) s)"
    using Some r key live by (simp add: UnbindIfCurrent_def Let_def ConnectionKey_def lock_weak_def remove_session_def)
  moreover have "sessions (remove_session (owner_user_id b) s) = spec_unbind c (sessions s)"
  proof -
    have "(u, c', e) \<in> sessions s \<Longrightarrow> u = owner_user_id b \<longleftrightarrow> c' = c" for u c' e
      using sessions_functional [OF ok] inb by blast
    then have "(u, c', e) \<in> sessions (remove_session (owner_user_id b) s) \<longleftrightarrow> (u, c', e) \<in> spec_unbind c (sessions s)" for u c' e
      by (auto simp: sessions_iff [of _ _ _ "remove_session _ _"] spec_unbind_def) (auto simp: sessions_iff)
    then show ?thesis by (simp add: set_eq_iff)
  qed
  ultimately show ?thesis using ok inb by simp
qed

lemma UnbindIfCurrent_null: "UnbindIfCurrent None live s = Some (not_unbound, s)"
  by (simp add: UnbindIfCurrent_def)

section \<open>Lookups read the abstract state\<close>

lemma FindSession_iff:
  assumes ok: "sessions_ok nm s"
  shows "FindSession u live s = Some \<lparr>snapshot_user_id = u', snapshot_epoch = e, snapshot_connection = c\<rparr>
    \<longleftrightarrow> u' = u \<and> (u, c, e) \<in> sessions s \<and> conn_object c \<in> live"
proof (cases "user_sessions s u")
  case None
  then show ?thesis by (simp add: FindSession_def sessions_iff)
next
  case (Some r)
  with sessionD(1) [OF ok Some] show ?thesis
    by (auto simp: FindSession_def sessions_iff lock_weak_def record_ok_def)
qed

lemma FindSessionByConnection_iff:
  assumes ok: "sessions_ok nm s" and nm: "inj nm" "conn_name c = nm (conn_object c)" and live: "conn_object c \<in> live"
  shows "FindSessionByConnection (Some c) live s = Some \<lparr>snapshot_user_id = u, snapshot_epoch = e, snapshot_connection = c'\<rparr>
    \<longleftrightarrow> c' = c \<and> (u, c, e) \<in> sessions s"
proof (cases "connection_sessions s (conn_name c)")
  case None
  then show ?thesis
    using reverse_lookup [OF ok nm, of "\<lparr>owner_user_id = u, owner_epoch = e\<rparr>"]
    by (auto simp: FindSessionByConnection_def ConnectionKey_def Let_def)
next
  case (Some b)
  then have inb: "(owner_user_id b, c, owner_epoch b) \<in> sessions s" using reverse_lookup [OF ok nm] by blast
  then obtain r where r: "user_sessions s (owner_user_id b) = Some r" "session_connection r = c" "session_epoch r = owner_epoch b"
    by (auto simp: sessions_iff)
  have key: "session_connection_key r = conn_name c" "conn_name c \<noteq> []"
    using sessionD(1) [OF ok r(1)] r by (auto simp: record_ok_def)
  have "FindSessionByConnection (Some c) live s =
      Some \<lparr>snapshot_user_id = owner_user_id b, snapshot_epoch = owner_epoch b, snapshot_connection = c\<rparr>"
    using Some r key live by (simp add: FindSessionByConnection_def ConnectionKey_def Let_def lock_weak_def)
  then show ?thesis using inb sessions_functional(2) [OF ok inb, of u e] by auto
qed

lemma IsCurrent_iff:
  assumes ok: "sessions_ok nm s" and nm: "inj nm" "conn_name c = nm (conn_object c)" and live: "conn_object c \<in> live"
  shows "IsCurrent u e (Some c) live s \<longleftrightarrow> (u, c, e) \<in> sessions s"
proof (cases "user_sessions s u")
  case None
  then show ?thesis by (simp add: IsCurrent_def sessions_iff)
next
  case (Some r)
  note r = sessionD(1) [OF ok this, unfolded record_ok_def]
  have "session_connection_key r = conn_name c \<longleftrightarrow> session_connection r = c"
    using record_connection_iff [OF sessionD(1) [OF ok Some] nm] .
  then show ?thesis
    using Some r live by (auto simp: IsCurrent_def sessions_iff lock_weak_def ConnectionKey_def split: option.splits)
qed

lemma OnlineCount_eq: "sessions_ok nm s \<Longrightarrow> OnlineCount s = card (sessions s)"
proof -
  assume "sessions_ok nm s"
  have "sessions s = (\<lambda>u. (u, session_connection (the (user_sessions s u)), session_epoch (the (user_sessions s u)))) ` dom (user_sessions s)"
    by (auto simp: sessions_def image_iff)
  moreover have "inj_on (\<lambda>u. (u, session_connection (the (user_sessions s u)), session_epoch (the (user_sessions s u)))) (dom (user_sessions s))"
    by (auto simp: inj_on_def)
  ultimately show ?thesis by (simp add: OnlineCount_def card_image)
qed

section \<open>The contract of a session directory\<close>

text \<open>What the gateway relies on: a directory whose content is a set of (user, connection, epoch) with at most one
  session per user and per connection, which a bind and an unbind change as specified, and whose epochs come from a
  counter. The epoch of the next bind is \<open>epoch_of s\<close>.\<close>

fun concerns :: "u64 \<Rightarrow> TcpConnectionRef \<Rightarrow> SessionOp \<Rightarrow> bool" where
  "concerns u c (OpBindOrReplace u' x live) \<longleftrightarrow> u' = u \<or> x = Some c"
| "concerns u c (OpUnbindIfCurrent x live) \<longleftrightarrow> x = Some c"

definition epochs_below :: "(u64 \<times> TcpConnectionRef \<times> u64) set \<Rightarrow> u64 \<Rightarrow> bool" where
  "epochs_below A n \<longleftrightarrow> (\<forall>u c e. (u, c, e) \<in> A \<longrightarrow> unat e < unat n)"

locale session_directory = guarded_object step ok invar
  for step :: "'s \<Rightarrow> SessionOp \<Rightarrow> 's" and ok :: "'s \<Rightarrow> SessionOp \<Rightarrow> bool" and invar :: "'s \<Rightarrow> bool" +
  fixes content :: "'s \<Rightarrow> (u64 \<times> TcpConnectionRef \<times> u64) set"
    and epoch_of :: "'s \<Rightarrow> u64"
  assumes content_bind: "\<lbrakk>invar s; ok s (OpBindOrReplace u (Some c) live); bindable u c\<rbrakk> \<Longrightarrow>
      content (step s (OpBindOrReplace u (Some c) live)) = spec_bind u c (epoch_of s) (content s)"
    and epoch_bind: "\<lbrakk>invar s; ok s (OpBindOrReplace u (Some c) live); bindable u c; epoch_of s + 1 \<noteq> 0\<rbrakk> \<Longrightarrow>
      epoch_of (step s (OpBindOrReplace u (Some c) live)) = epoch_of s + 1"
    and content_unbind: "\<lbrakk>invar s; ok s (OpUnbindIfCurrent (Some c) live)\<rbrakk> \<Longrightarrow>
      content (step s (OpUnbindIfCurrent (Some c) live)) = spec_unbind c (content s)"
    and epoch_unbind: "\<lbrakk>invar s; ok s (OpUnbindIfCurrent (Some c) live)\<rbrakk> \<Longrightarrow>
      epoch_of (step s (OpUnbindIfCurrent (Some c) live)) = epoch_of s"
    and bind_refused: "\<lbrakk>invar s; \<not> bindable u c\<rbrakk> \<Longrightarrow> step s (OpBindOrReplace u (Some c) live) = s"
    and null_bind: "step s (OpBindOrReplace u None live) = s"
    and null_unbind: "step s (OpUnbindIfCurrent None live) = s"
begin

lemma step_cases:
  assumes "invar s" "ok s op"
  obtains "step s op = s"
  | u c live where "op = OpBindOrReplace u (Some c) live" "bindable u c"
      "content (step s op) = spec_bind u c (epoch_of s) (content s)"
      "epoch_of s + 1 \<noteq> 0 \<Longrightarrow> epoch_of (step s op) = epoch_of s + 1"
  | c live where "op = OpUnbindIfCurrent (Some c) live" "content (step s op) = spec_unbind c (content s)"
      "epoch_of (step s op) = epoch_of s"
proof (cases op)
  case (OpBindOrReplace u x live)
  show ?thesis
  proof (cases x)
    case None
    with OpBindOrReplace that(1) show ?thesis by (simp add: null_bind)
  next
    case (Some c)
    with OpBindOrReplace assms that(1,2) show ?thesis
      by (cases "bindable u c") (auto simp: bind_refused content_bind epoch_bind)
  qed
next
  case (OpUnbindIfCurrent x live)
  with assms that(1,3) show ?thesis
    by (cases x) (auto simp: null_unbind content_unbind epoch_unbind)
qed

text \<open>A call that concerns neither the user nor the connection of a session leaves it alone; in particular the
  unbind of any other connection does.\<close>

lemma session_kept:
  assumes "invar s" "ok s op" "\<not> concerns u c op" "(u, c, e) \<in> content s"
  shows "(u, c, e) \<in> content (step s op)"
  using assms(1,2) by (cases rule: step_cases) (use assms in \<open>auto simp: spec_bind_def spec_unbind_def\<close>)

lemma session_kept_run:
  assumes "invar s" "ok_run ok step s ops" "list_all (\<lambda>op. \<not> concerns u c op) ops" "(u, c, e) \<in> content s"
  shows "(u, c, e) \<in> content (run_ops step s ops)"
  using run_keeps [of "\<lambda>op. \<not> concerns u c op" "\<lambda>s. (u, c, e) \<in> content s" s ops] assms session_kept by blast

text \<open>Epochs are not reused: as long as the counter has not run through all 64 bit values, every epoch in the
  directory is below the counter, and an epoch that has left the directory does not come back.\<close>

lemma epoch_step:
  assumes "invar s" "ok s op" "unat (epoch_of s) + 1 < 2 ^ 64"
  shows "unat (epoch_of s) \<le> unat (epoch_of (step s op)) \<and> unat (epoch_of (step s op)) \<le> unat (epoch_of s) + 1"
proof -
  have "epoch_of s + 1 \<noteq> 0" "unat (epoch_of s + 1) = unat (epoch_of s) + 1"
    using assms(3) by (auto simp: unat_word_ariths unat_eq_zero [symmetric] simp del: unat_eq_zero)
  with assms(1,2) show ?thesis by (cases rule: step_cases) auto
qed

lemma epochs_below_step:
  assumes "invar s" "ok s op" "unat (epoch_of s) + 1 < 2 ^ 64" "epochs_below (content s) (epoch_of s)"
  shows "epochs_below (content (step s op)) (epoch_of (step s op))"
proof -
  have "epoch_of s + 1 \<noteq> 0" "unat (epoch_of s + 1) = unat (epoch_of s) + 1"
    using assms(3) by (auto simp: unat_word_ariths unat_eq_zero [symmetric] simp del: unat_eq_zero)
  with assms(1,2) show ?thesis
    by (cases rule: step_cases) (use assms(4) in \<open>auto simp: epochs_below_def spec_bind_def spec_unbind_def less_Suc_eq\<close>)
qed

lemma epochs_run:
  assumes "invar s" "ok_run ok step s ops" "unat (epoch_of s) + length ops < 2 ^ 64" "epochs_below (content s) (epoch_of s)"
  shows "epochs_below (content (run_ops step s ops)) (epoch_of (run_ops step s ops)) \<and> unat (epoch_of s) \<le> unat (epoch_of (run_ops step s ops))
    \<and> unat (epoch_of (run_ops step s ops)) \<le> unat (epoch_of s) + length ops"
  using assms
proof (induction ops arbitrary: s)
  case (Cons op ops)
  then have s: "invar s" "ok s op" "unat (epoch_of s) + 1 < 2 ^ 64" "epochs_below (content s) (epoch_of s)" by auto
  have "invar (step s op)" using s invar_step by blast
  then show ?case
    using Cons.IH [of "step s op"] Cons.prems epoch_step [OF s(1-3)] epochs_below_step [OF s] by auto
qed simp

lemma gone_stays_gone:
  assumes "invar s" "ok_run ok step s ops" "unat (epoch_of s) + length ops < 2 ^ 64"
    and "unat e < unat (epoch_of s)" and "\<And>u c. (u, c, e) \<notin> content s"
  shows "(u, c, e) \<notin> content (run_ops step s ops)"
  using assms
proof (induction ops arbitrary: s)
  case (Cons op ops)
  then have s: "invar s" "ok s op" "unat (epoch_of s) + 1 < 2 ^ 64" by auto
  have "invar (step s op)" using s invar_step by blast
  moreover have "(u, c, e) \<notin> content (step s op)" for u c
    using s(1,2)
    by (cases rule: step_cases) (use Cons.prems in \<open>auto simp: spec_bind_def spec_unbind_def\<close>)
  ultimately show ?case
    using Cons.IH [of "step s op"] Cons.prems epoch_step [OF s] by auto
qed simp

end

definition session_next :: "SessionManager \<Rightarrow> SessionOp \<Rightarrow> SessionManager" where
  "session_next s op = (case session_step s op of None \<Rightarrow> s | Some s' \<Rightarrow> s')"

abbreviation session_call_ok :: "(nat \<Rightarrow> string) \<Rightarrow> SessionManager \<Rightarrow> SessionOp \<Rightarrow> bool" where
  "session_call_ok nm s op \<equiv> inj nm \<and> call_ok nm op"

lemma session_step_ok:
  assumes ok: "sessions_ok nm s" and c: "session_call_ok nm s op"
  shows "session_step s op = Some (session_next s op) \<and> sessions_ok nm (session_next s op)"
proof (cases op)
  case (OpBindOrReplace u x live)
  show ?thesis
  proof (cases "\<exists>c. x = Some c \<and> bindable u c")
    case True
    then obtain c where "x = Some c" "bindable u c" by blast
    with OpBindOrReplace assms BindOrReplace_spec(1) [OF ok, of c u live] show ?thesis
      by (cases "BindOrReplace u x live s") (auto simp: session_next_def)
  next
    case False
    with OpBindOrReplace ok show ?thesis
      by (cases x) (auto simp: session_next_def BindOrReplace_refused)
  qed
next
  case (OpUnbindIfCurrent x live)
  show ?thesis
  proof (cases x)
    case None
    with OpUnbindIfCurrent ok show ?thesis by (simp add: session_next_def UnbindIfCurrent_null)
  next
    case (Some c)
    with OpUnbindIfCurrent assms UnbindIfCurrent_spec [OF ok, of c live] show ?thesis
      by (auto simp: session_next_def)
  qed
qed

interpretation sm: session_directory session_next "session_call_ok nm" "sessions_ok nm" sessions next_epoch for nm
proof (unfold_locales, goal_cases)
  case (1 s op)
  then show ?case using session_step_ok by blast
next
  case (2 s u c live)
  then show ?case using BindOrReplace_spec(5) [OF 2(1), of c u live]
    by (cases "BindOrReplace u (Some c) live s") (simp add: session_next_def)
next
  case (3 s u c live)
  then show ?case using BindOrReplace_spec(4) [OF 3(1), of c u live]
    by (cases "BindOrReplace u (Some c) live s") (simp add: session_next_def)
next
  case (4 s c live)
  then show ?case using UnbindIfCurrent_spec [OF 4(1), of c live] by (auto simp: session_next_def)
next
  case (5 s c live)
  then show ?case using UnbindIfCurrent_spec [OF 5(1), of c live] by (auto simp: session_next_def)
qed (auto simp: session_next_def BindOrReplace_refused UnbindIfCurrent_null)

lemma session_run_total:
  "\<lbrakk>sessions_ok nm s; ok_run (session_call_ok nm) session_next s ops\<rbrakk> \<Longrightarrow>
     fold_opt (\<lambda>op s. session_step s op) ops s = Some (run_ops session_next s ops)"
  by (induction ops arbitrary: s) (auto simp: session_step_ok)

lemma ok_run_list_all: "inj nm \<Longrightarrow> ok_run (session_call_ok nm) session_next s ops \<longleftrightarrow> list_all (call_ok nm) ops"
  by (induction ops arbitrary: s) auto

lemma session_reachable_ok:
  assumes "inj nm" and "list_all (call_ok nm) ops"
  shows "sessions_ok nm (run_ops session_next SessionManager_new ops)"
  using sm.run_invar [OF sessions_ok_new] ok_run_list_all [OF assms(1)] assms(2) by blast

section \<open>Specification\<close>

text \<open>The directory as a set with an epoch counter.\<close>

fun spec_step :: "(u64 \<times> TcpConnectionRef \<times> u64) set \<times> u64 \<Rightarrow> SessionOp \<Rightarrow> (u64 \<times> TcpConnectionRef \<times> u64) set \<times> u64" where
  "spec_step (A, n) (OpBindOrReplace u (Some c) live) =
     (if bindable u c then (spec_bind u c n A, if n + 1 = 0 then 1 else n + 1) else (A, n))"
| "spec_step (A, n) (OpUnbindIfCurrent (Some c) live) = (spec_unbind c A, n)"
| "spec_step (A, n) _ = (A, n)"

lemma spec_step_refines:
  assumes ok: "sessions_ok nm s" and c: "session_call_ok nm s op"
  shows "(sessions (session_next s op), next_epoch (session_next s op)) = spec_step (sessions s, next_epoch s) op"
proof (cases op)
  case (OpBindOrReplace u x live)
  show ?thesis
  proof (cases "\<exists>c. x = Some c \<and> bindable u c")
    case True
    then obtain c' where x: "x = Some c'" and b: "bindable u c'" by blast
    obtain res s' where run: "BindOrReplace u (Some c') live s = (res, s')" by fastforce
    have "session_next s op = s'" using OpBindOrReplace x run by (simp add: session_next_def)
    then show ?thesis
      using BindOrReplace_spec(4,5) [OF ok _ _ b run] c OpBindOrReplace x b by simp
  next
    case False
    with OpBindOrReplace show ?thesis
      by (cases x) (auto simp: session_next_def BindOrReplace_refused)
  qed
next
  case (OpUnbindIfCurrent x live)
  with c UnbindIfCurrent_spec [OF ok, of _ live] show ?thesis
    by (cases x) (fastforce simp: session_next_def UnbindIfCurrent_null)+
qed

lemma spec_run_refines:
  "\<lbrakk>inj nm; sessions_ok nm s; list_all (call_ok nm) ops\<rbrakk> \<Longrightarrow>
     (sessions (run_ops session_next s ops), next_epoch (run_ops session_next s ops))
       = run_ops spec_step (sessions s, next_epoch s) ops"
proof (induction ops arbitrary: s)
  case (Cons op ops)
  then have c: "session_call_ok nm s op" by simp
  then show ?case
    using Cons.IH [of "session_next s op"] Cons.prems session_step_ok [OF Cons.prems(2) c]
      spec_step_refines [OF Cons.prems(2) c] by simp
qed simp

lemma sessions_new [simp]: "sessions SessionManager_new = {}" "next_epoch SessionManager_new = 1"
  by (simp_all add: sessions_def SessionManager_new_def)

text \<open>C4: As long as connections have distinct names and callers pass connections they hold, every sequence of binds
  and unbinds behaves like the same sequence on a plain set of (user, connection, epoch) with a counter, no call reads a
  removed record, and all lookups return what the set says.\<close>
theorem session_manager_refines:
  assumes "inj nm" and "list_all (call_ok nm) ops"
  shows "\<exists>s. fold_opt (\<lambda>op s. session_step s op) ops SessionManager_new = Some s
    \<and> sessions s = fst (run_ops spec_step ({}, 1) ops) \<and> OnlineCount s = card (sessions s)
    \<and> (\<forall>u c e live. FindSession u live s = Some \<lparr>snapshot_user_id = u, snapshot_epoch = e, snapshot_connection = c\<rparr>
          \<longleftrightarrow> (u, c, e) \<in> sessions s \<and> conn_object c \<in> live)
    \<and> (\<forall>u c e live. well_named nm (Some c) live \<longrightarrow>
          (IsCurrent u e (Some c) live s \<longleftrightarrow> (u, c, e) \<in> sessions s)
          \<and> (FindSessionByConnection (Some c) live s
                = Some \<lparr>snapshot_user_id = u, snapshot_epoch = e, snapshot_connection = c\<rparr>
              \<longleftrightarrow> (u, c, e) \<in> sessions s))"
proof -
  let ?s = "run_ops session_next SessionManager_new ops"
  have ok: "sessions_ok nm ?s" using assms by (rule session_reachable_ok)
  have "fold_opt (\<lambda>op s. session_step s op) ops SessionManager_new = Some ?s"
    using session_run_total [OF sessions_ok_new] ok_run_list_all [OF assms(1)] assms(2) by blast
  moreover have "sessions ?s = fst (run_ops spec_step ({}, 1) ops)"
    using spec_run_refines [OF assms(1) sessions_ok_new assms(2)] by (metis fst_conv sessions_new)
  ultimately show ?thesis
    using FindSession_iff [OF ok] IsCurrent_iff [OF ok assms(1)] FindSessionByConnection_iff [OF ok assms(1)]
      OnlineCount_eq [OF ok] by (intro exI [of _ ?s]) simp
qed

text \<open>A user who logs in on a second connection takes the session over: the first connection is returned for
  closing when it is still alive, the new generation is current, and it stays current over any later calls that concern
  neither the user nor the new connection - in particular over the late unbind of the first connection, which removes
  nothing.\<close>
theorem takeover_is_fenced:
  assumes "inj nm" and "list_all (call_ok nm) (ops @ ops')" and "(u, c1, e1) \<in> sessions (run_ops session_next SessionManager_new ops)"
    and "BindOrReplace u (Some c2) live (run_ops session_next SessionManager_new ops) = (res, s)"
    and "well_named nm (Some c2) live" and "bindable u c2" and "c2 \<noteq> c1"
    and "list_all (\<lambda>op. \<not> concerns u c2 op) ops'" and "conn_object c2 \<in> live'"
  shows "bind_old_connection res = lock_weak live c1
    \<and> IsCurrent u (bind_epoch res) (Some c2) live' (run_ops session_next s ops')
    \<and> (\<exists>s'. UnbindIfCurrent (Some c1) (insert (conn_object c1) live') s = Some (not_unbound, s') \<and> sessions s' = sessions s)"
proof -
  let ?s0 = "run_ops session_next SessionManager_new ops"
  have ok0: "sessions_ok nm ?s0" using assms(1,2) by (intro session_reachable_ok) simp_all
  have nm2: "conn_name c2 = nm (conn_object c2)" using assms(5) by simp
  note b = BindOrReplace_spec [OF ok0 assms(1) nm2 assms(6) assms(4)]
  have old: "bind_old_connection res = lock_weak live c1"
    using assms(3,7) by (auto simp: b(6) sessions_iff)
  have here: "(u, c2, bind_epoch res) \<in> sessions s" by (simp add: b spec_bind_def)
  have gone: "(u', c1, e) \<notin> sessions s" for u' e
    using sessions_functional(2) [OF ok0 assms(3), of u' e] assms(7) by (auto simp: b(5) spec_bind_def)
  have run: "ok_run (session_call_ok nm) session_next s ops'" using ok_run_list_all [OF assms(1)] assms(2) by simp
  have "(u, c2, bind_epoch res) \<in> sessions (run_ops session_next s ops')"
    using sm.session_kept_run [OF b(1) run assms(8) here] .
  then have cur: "IsCurrent u (bind_epoch res) (Some c2) live' (run_ops session_next s ops')"
    using IsCurrent_iff [OF sm.run_invar [OF b(1) run] assms(1) nm2 assms(9)] by blast
  have nm1: "conn_name c1 = nm (conn_object c1)"
    using assms(3) sessionD(1) [OF ok0] by (auto simp: sessions_iff record_ok_def)
  have "connection_sessions s (conn_name c1) = None"
    using reverse_lookup [OF b(1) assms(1) nm1] gone by (metis not_None_eq)
  then have "UnbindIfCurrent (Some c1) (insert (conn_object c1) live') s = Some (not_unbound, s)"
    by (simp add: UnbindIfCurrent_def ConnectionKey_def Let_def)
  with old cur show ?thesis by blast
qed

text \<open>Epochs fence off old generations for good: an epoch that was in use and is no longer is never current again,
  for any user and connection, until the 64 bit counter has been used up.\<close>
theorem old_epoch_never_current_again:
  assumes "inj nm" and "list_all (call_ok nm) (ops1 @ ops2 @ ops3)" and "length (ops1 @ ops2 @ ops3) < 2 ^ 64 - 1"
    and "(u, c, e) \<in> sessions (run_ops session_next SessionManager_new ops1)"
    and "\<forall>u c. (u, c, e) \<notin> sessions (run_ops session_next SessionManager_new (ops1 @ ops2))"
  shows "\<not> IsCurrent u' e (Some c') live (run_ops session_next SessionManager_new (ops1 @ ops2 @ ops3))"
proof -
  let ?s1 = "run_ops session_next SessionManager_new ops1"
  let ?s2 = "run_ops session_next ?s1 ops2"
  let ?s3 = "run_ops session_next ?s2 ops3"
  have r: "ok_run (session_call_ok nm) session_next SessionManager_new ops1"
    "ok_run (session_call_ok nm) session_next ?s1 ops2" "ok_run (session_call_ok nm) session_next ?s2 ops3"
    using ok_run_list_all [OF assms(1)] assms(2) by simp_all
  have ok1: "sessions_ok nm ?s1" by (rule sm.run_invar [OF sessions_ok_new r(1)])
  have ok2: "sessions_ok nm ?s2" by (rule sm.run_invar [OF ok1 r(2)])
  have e1: "epochs_below (sessions ?s1) (next_epoch ?s1)" "unat (next_epoch ?s1) \<le> 1 + length ops1"
    using sm.epochs_run [OF sessions_ok_new r(1)] assms(3) by (simp_all add: epochs_below_def)
  have e2: "unat (next_epoch ?s1) \<le> unat (next_epoch ?s2)" "unat (next_epoch ?s2) \<le> 1 + length ops1 + length ops2"
    using sm.epochs_run [OF ok1 r(2)] e1 assms(3) by simp_all
  have "unat e < unat (next_epoch ?s2)"
    using e1(1) assms(4) e2(1) unfolding epochs_below_def by (meson order.strict_trans2)
  then have gone: "(u', c'', e) \<notin> sessions ?s3" for c''
    using assms(3,5) e2(2) by (intro sm.gone_stays_gone [OF ok2 r(3)]) auto
  have at: "session_epoch r \<noteq> e" if "user_sessions ?s3 u' = Some r" for r
    using gone that by (auto simp: sessions_iff)
  show ?thesis unfolding append_assoc [symmetric] run_ops_append
    by (auto simp: IsCurrent_def dest: at split: option.split)
qed

text \<open>Without unique names the unbind path is not safe: when the session's own connection has been destroyed and a
  second connection with the same name is unbound, the record is erased and its epoch is then read through a dangling
  reference for the log line.\<close>
theorem unbind_reads_erased_record:
  assumes "inj nm" and "list_all (call_ok nm) ops" and "(u, c1, e) \<in> sessions (run_ops session_next SessionManager_new ops)"
    and "conn_object c1 \<notin> live" and "conn_name c2 = conn_name c1"
  shows "UnbindIfCurrent (Some c2) live (run_ops session_next SessionManager_new ops) = None"
proof -
  let ?s = "run_ops session_next SessionManager_new ops"
  have ok: "sessions_ok nm ?s" using assms(1,2) by (rule session_reachable_ok)
  obtain r where r: "user_sessions ?s u = Some r" "session_connection r = c1" "session_epoch r = e"
    using assms(3) by (auto simp: sessions_iff)
  have "session_connection_key r = conn_name c1" "conn_name c1 \<noteq> []"
    using sessionD(1) [OF ok r(1)] r by (auto simp: record_ok_def)
  with r sessionD(2) [OF ok r(1)] assms(4,5) show ?thesis
    by (simp add: UnbindIfCurrent_def Let_def ConnectionKey_def lock_weak_def)
qed

section \<open>Concrete runs\<close>

definition label :: "nat \<Rightarrow> string" where
  "label n = replicate (Suc n) (CHR ''c'')"

lemma inj_label: "inj label"
proof (rule injI)
  fix x y
  assume "label x = label y"
  then have "length (label x) = length (label y)" by simp
  then show "x = y" by (simp add: label_def)
qed

definition conn :: "nat \<Rightarrow> TcpConnectionRef" where
  "conn n = \<lparr>conn_object = n, conn_name = label n\<rparr>"

lemma label_eq_iff [simp]: "label n = label m \<longleftrightarrow> n = m" "label n \<noteq> []"
  using inj_label by (auto simp: inj_eq label_def)

lemma conn_simps [simp]: "conn_object (conn n) = n" "conn_name (conn n) = label n" "conn n = conn m \<longleftrightarrow> n = m"
  by (auto simp: conn_def)

lemmas session_eval = session_next_def BindOrReplace_def drop_user_session_def drop_connection_owner_def
  AllocateEpochLocked_def SessionManager_new_def ConnectionKey_def lock_weak_def Let_def sessions_def

theorem session_manager_refines_witness:
  "fst (run_ops spec_step ({}, 1) [OpBindOrReplace 7 (Some (conn 1)) {1}, OpBindOrReplace 7 (Some (conn 2)) {1, 2}])
     = {(7, conn 2, 2)}
   \<and> (\<exists>s. fold_opt (\<lambda>op s. session_step s op)
         [OpBindOrReplace 7 (Some (conn 1)) {1}, OpBindOrReplace 7 (Some (conn 2)) {1, 2}] SessionManager_new = Some s
       \<and> IsCurrent 7 2 (Some (conn 2)) {2} s)"
proof -
  let ?ops = "[OpBindOrReplace 7 (Some (conn 1)) {1}, OpBindOrReplace 7 (Some (conn 2)) {1, 2}]"
  have spec: "fst (run_ops spec_step ({}, 1) ?ops) = {(7, conn 2, 2)}"
    by (auto simp: bindable_def spec_bind_def)
  obtain s where "fold_opt (\<lambda>op s. session_step s op) ?ops SessionManager_new = Some s"
    "sessions s = fst (run_ops spec_step ({}, 1) ?ops)"
    "well_named label (Some (conn 2)) {2} \<longrightarrow> IsCurrent 7 2 (Some (conn 2)) {2} s = ((7, conn 2, 2) \<in> sessions s)"
    using session_manager_refines [OF inj_label, of ?ops] by auto
  with spec show ?thesis by simp
qed

theorem takeover_is_fenced_witness:
  "let s0 = run_ops session_next SessionManager_new [OpBindOrReplace 7 (Some (conn 1)) {1}];
       (res, s) = BindOrReplace 7 (Some (conn 2)) {1, 2} s0
   in bind_old_connection res = Some (conn 1)
      \<and> IsCurrent 7 (bind_epoch res) (Some (conn 2)) {2}
          (run_ops session_next s [OpUnbindIfCurrent (Some (conn 1)) {1, 2}])"
proof -
  obtain res s where run: "BindOrReplace 7 (Some (conn 2)) {1, 2}
      (run_ops session_next SessionManager_new [OpBindOrReplace 7 (Some (conn 1)) {1}]) = (res, s)" by fastforce
  have "(7, conn 1, 1) \<in> sessions (run_ops session_next SessionManager_new [OpBindOrReplace 7 (Some (conn 1)) {1}])"
    by (simp add: session_eval)
  from takeover_is_fenced [OF inj_label _ this run, of "[OpUnbindIfCurrent (Some (conn 1)) {1, 2}]" "{2}"]
  show ?thesis unfolding Let_def run prod.case by (simp add: bindable_def lock_weak_def)
qed

theorem old_epoch_never_current_again_witness:
  "\<not> IsCurrent 7 1 (Some (conn 1)) {1} (run_ops session_next SessionManager_new
     ([OpBindOrReplace 7 (Some (conn 1)) {1}] @ [OpUnbindIfCurrent (Some (conn 1)) {1}] @ [OpBindOrReplace 7 (Some (conn 1)) {1}]))"
  by (rule old_epoch_never_current_again [OF inj_label, where u = 7 and c = "conn 1"])
    (simp_all add: session_eval UnbindIfCurrent_def)

theorem unbind_reads_erased_record_witness:
  "UnbindIfCurrent (Some \<lparr>conn_object = 2, conn_name = label 1\<rparr>) {2}
     (run_ops session_next SessionManager_new [OpBindOrReplace 7 (Some (conn 1)) {1}]) = None"
  by (rule unbind_reads_erased_record [OF inj_label, where u = 7 and e = 1 and ?c1.0 = "conn 1"])
    (simp_all add: session_eval)

end
