(* ===== verification/Recovery_Pump.thy ===== *)
theory Recovery_Pump
  imports Pending_Recipients Session_Manager
begin

text \<open>
  \<open>GatewayServer::PumpPrivateReplayAdmission\<close> of \<open>gateway/GatewayServer.cpp\<close>, the timer that connects the recovery scan with the sessions
  of the gateway: it takes up to 32 recipients of the page in hand, calls \<open>PushPersistentOfflineMessages\<close> for those with a current
  session here, which enters them into the replay admission (\<open>Ensure\<close>), and asks for the next page if an executor, a message client
  and at least one session are there. The result is the list of the calls \<open>Ensure(user, epoch)\<close>; what follows such a call is
  \<open>Replay_Admission\<close>. The attempts that were due before (\<open>TakeDue\<close>) do not touch the scan and are left out.

  A tick of the timer is followed by the discovery task it submitted, if any; \<open>Pending_Recipients\<close> shows what the scan does under
  every other interleaving and with failures.
\<close>

section \<open>The timer\<close>










section \<open>The users with a session here\<close>



section \<open>The recipients that ticks hand out\<close>

















section \<open>From recipients to calls\<close>



section \<open>Properties\<close>









end
