(* ===== verification/Bounded_Queue.thy ===== *)
theory Bounded_Queue
  imports TIMX_Prelude
begin

text \<open>
  The queue under the thread pool: the ring buffer \<open>common/concurrency/CircularQueue.h\<close> and the blocking queue
  \<open>common/concurrency/MpmcBlockingQueue.h\<close> built on it. The interface between the two is the locale \<open>bounded_fifo\<close>,
  which the ring buffer is shown to implement; the blocking queue is shown to behave like a bounded list.

  A vector slot that is reset to \<open>T{}\<close> holds the value \<open>dflt\<close>. Sizes are natural numbers: all index arithmetic of
  the ring buffer stays below its capacity plus one. A call that would wait on a condition variable is the value
  \<open>None\<close> (it does not return in this state); a timed call sees the state in which its wait ends.
\<close>

section \<open>The ring buffer\<close>

record 'a CircularQueue =
  ring_buffer :: "'a list"
  ring_capacity :: nat
  head :: nat
  tail :: nat
  overrun_counter :: nat

definition CircularQueue_new :: "'a \<Rightarrow> nat \<Rightarrow> 'a CircularQueue" where
  "CircularQueue_new dflt capacity = \<lparr>ring_buffer = replicate (capacity + 1) dflt, ring_capacity = capacity + 1,
     head = 0, tail = 0, overrun_counter = 0\<rparr>"

definition Next :: "'a CircularQueue \<Rightarrow> nat \<Rightarrow> nat" where
  "Next q index = (index + 1) mod ring_capacity q"

definition Empty :: "'a CircularQueue \<Rightarrow> bool" where
  "Empty q \<longleftrightarrow> head q = tail q"

definition Full :: "'a CircularQueue \<Rightarrow> bool" where
  "Full q \<longleftrightarrow> Next q (tail q) = head q"

definition PushBack :: "'a \<Rightarrow> 'a CircularQueue \<Rightarrow> bool \<times> 'a CircularQueue" where
  "PushBack item q =
     (if Full q then (False, q)
      else (True, q\<lparr>ring_buffer := (ring_buffer q)[tail q := item], tail := Next q (tail q)\<rparr>))"

text \<open>\<open>has_item\<close>: the pointer the item is moved to is not null.\<close>

definition PopFront :: "'a \<Rightarrow> bool \<Rightarrow> 'a CircularQueue \<Rightarrow> 'a option \<times> 'a CircularQueue" where
  "PopFront dflt has_item q =
     (if \<not> has_item \<or> Empty q then (None, q)
      else (Some (ring_buffer q ! head q),
            q\<lparr>ring_buffer := (ring_buffer q)[head q := dflt], head := Next q (head q)\<rparr>))"

definition DropFront :: "'a \<Rightarrow> 'a CircularQueue \<Rightarrow> bool \<times> 'a CircularQueue" where
  "DropFront dflt q =
     (if Empty q then (False, q)
      else (True, q\<lparr>ring_buffer := (ring_buffer q)[head q := dflt], head := Next q (head q),
                    overrun_counter := overrun_counter q + 1\<rparr>))"

definition Size :: "'a CircularQueue \<Rightarrow> nat" where
  "Size q = (if tail q \<ge> head q then tail q - head q else ring_capacity q - head q + tail q)"

definition Capacity :: "'a CircularQueue \<Rightarrow> nat" where
  "Capacity q = ring_capacity q - 1"

partial_function (option) Clear :: "'a \<Rightarrow> bool \<Rightarrow> 'a CircularQueue \<Rightarrow> 'a CircularQueue option" where
  "Clear dflt count_overrun q =
     (if Empty q then Some q
      else if count_overrun then Clear dflt count_overrun (snd (DropFront dflt q))
      else Clear dflt count_overrun
        (q\<lparr>ring_buffer := (ring_buffer q)[head q := dflt], head := Next q (head q)\<rparr>))"

section \<open>What a bounded first-in first-out buffer promises\<close>

locale bounded_fifo =
  fixes contents :: "'q \<Rightarrow> 'a list"
    and invar :: "'q \<Rightarrow> bool"
    and room :: "'q \<Rightarrow> nat"
    and push :: "'a \<Rightarrow> 'q \<Rightarrow> bool \<times> 'q"
    and pop :: "'q \<Rightarrow> 'a option \<times> 'q"
  assumes push_full: "\<lbrakk>invar q; length (contents q) = room q\<rbrakk> \<Longrightarrow> push x q = (False, q)"
    and push_room: "\<lbrakk>invar q; length (contents q) < room q\<rbrakk> \<Longrightarrow>
      \<exists>q'. push x q = (True, q') \<and> invar q' \<and> contents q' = contents q @ [x] \<and> room q' = room q"
    and pop_empty: "\<lbrakk>invar q; contents q = []\<rbrakk> \<Longrightarrow> pop q = (None, q)"
    and pop_some: "\<lbrakk>invar q; contents q = x # xs\<rbrakk> \<Longrightarrow>
      \<exists>q'. pop q = (Some x, q') \<and> invar q' \<and> contents q' = xs \<and> room q' = room q"
    and bounded: "invar q \<Longrightarrow> length (contents q) \<le> room q"
begin

lemma push_cases:
  assumes "invar q" "push x q = (ok, q')"
  shows "ok = (length (contents q) < room q)" "invar q'" "contents q' = contents q @ (if ok then [x] else [])" "room q' = room q"
  using assms push_full [OF assms(1), of x] push_room [OF assms(1), of x] bounded [OF assms(1)]
  by (cases "length (contents q) < room q"; force)+

lemma pop_cases:
  assumes "invar q" "pop q = (r, q')"
  shows "r = (case contents q of [] \<Rightarrow> None | x # xs \<Rightarrow> Some x)" "invar q'" "contents q' = tl (contents q)" "room q' = room q"
  using assms pop_empty [OF assms(1)] pop_some [OF assms(1)] by (cases "contents q"; force)+

end

section \<open>The ring buffer keeps the promise\<close>

definition ring_ok :: "'a CircularQueue \<Rightarrow> bool" where
  "ring_ok q \<longleftrightarrow> 0 < ring_capacity q \<and> length (ring_buffer q) = ring_capacity q \<and> head q < ring_capacity q
     \<and> tail q < ring_capacity q"

definition ring_list :: "'a CircularQueue \<Rightarrow> 'a list" where
  "ring_list q = map (\<lambda>i. ring_buffer q ! ((head q + i) mod ring_capacity q)) [0..<Size q]"

lemma length_ring_list [simp]: "length (ring_list q) = Size q"
  by (simp add: ring_list_def)

lemma mod_succ: "i < (n::nat) \<Longrightarrow> Suc i mod n = (if Suc i = n then 0 else Suc i)"
  by auto

lemma mod_shift: "\<lbrakk>h < (n::nat); i < n\<rbrakk> \<Longrightarrow> (h + i) mod n = (if h + i < n then h + i else h + i - n)"
  by (auto simp: mod_if)

lemma ring_sizes:
  assumes "ring_ok q"
  shows "Size q < ring_capacity q" "Empty q \<longleftrightarrow> Size q = 0" "Full q \<longleftrightarrow> Size q = Capacity q"
    "tail q = (head q + Size q) mod ring_capacity q"
  using assms by (auto simp: ring_ok_def Size_def Empty_def Full_def Next_def Capacity_def mod_succ mod_if split: if_splits)

lemma PushBack_spec:
  assumes ok: "ring_ok q" and room: "Size q < Capacity q"
  shows "\<exists>q'. PushBack x q = (True, q') \<and> ring_ok q' \<and> ring_list q' = ring_list q @ [x] \<and> Capacity q' = Capacity q
    \<and> overrun_counter q' = overrun_counter q"
proof -
  let ?n = "ring_capacity q"
  let ?q = "q\<lparr>ring_buffer := (ring_buffer q)[tail q := x], tail := Next q (tail q)\<rparr>"
  note sz = ring_sizes [OF ok]
  have n: "0 < ?n" "length (ring_buffer q) = ?n" "head q < ?n" "tail q < ?n" using ok by (simp_all add: ring_ok_def)
  have size: "Size ?q = Suc (Size q)"
    using n room by (auto simp: Size_def Capacity_def Next_def mod_succ split: if_splits)
  have keep: "(ring_buffer q)[tail q := x] ! ((head q + i) mod ?n) = ring_buffer q ! ((head q + i) mod ?n)" if "i < Size q" for i
  proof -
    have "(head q + i) mod ?n \<noteq> tail q"
      using that n sz(1,4) mod_shift [of "head q" ?n i] mod_shift [of "head q" ?n "Size q"] by (auto split: if_splits)
    then show ?thesis by simp
  qed
  have "ring_list ?q = map (\<lambda>i. (ring_buffer q)[tail q := x] ! ((head q + i) mod ?n)) [0..<Size q] @ [x]"
    using size n sz(4) by (simp add: ring_list_def)
  also have "map (\<lambda>i. (ring_buffer q)[tail q := x] ! ((head q + i) mod ?n)) [0..<Size q] = ring_list q"
    unfolding ring_list_def using keep by simp
  finally have "ring_list ?q = ring_list q @ [x]" .
  moreover have "\<not> Full q" using sz(3) room by simp
  moreover have "ring_ok ?q" using n by (simp add: ring_ok_def Next_def)
  ultimately show ?thesis by (simp add: PushBack_def Capacity_def)
qed

lemma PushBack_full:
  assumes "ring_ok q" "Size q = Capacity q"
  shows "PushBack x q = (False, q)"
  using assms(2) ring_sizes(3) [OF assms(1)] by (simp add: PushBack_def)

text \<open>Advancing the head, the common part of \<open>PopFront\<close>, \<open>DropFront\<close> and \<open>Clear\<close>.\<close>

lemma advance_head:
  assumes ok: "ring_ok q" and ne: "\<not> Empty q"
    and q': "q' = q\<lparr>ring_buffer := (ring_buffer q)[head q := d], head := Next q (head q), overrun_counter := k\<rparr>"
  shows "ring_ok q'" "ring_list q = ring_buffer q ! head q # ring_list q'" "Capacity q' = Capacity q" "Size q = Suc (Size q')"
proof -
  let ?n = "ring_capacity q"
  note sz = ring_sizes [OF ok]
  have n: "0 < ?n" "length (ring_buffer q) = ?n" "head q < ?n" "tail q < ?n" using ok by (simp_all add: ring_ok_def)
  show "ring_ok q'" "Capacity q' = Capacity q" using n by (simp_all add: q' ring_ok_def Next_def Capacity_def)
  show size: "Size q = Suc (Size q')"
    using n ne by (auto simp: q' Size_def Empty_def Next_def mod_succ split: if_splits)
  have step: "(head q' + i) mod ?n = (head q + Suc i) mod ?n" for i
    by (simp add: q' Next_def mod_simps)
  have keep: "ring_buffer q' ! ((head q' + i) mod ?n) = ring_buffer q ! ((head q + Suc i) mod ?n)" if "i < Size q'" for i
  proof -
    have "(head q + Suc i) mod ?n \<noteq> head q"
      using that size n sz(1) mod_shift [of "head q" ?n "Suc i"] by (auto split: if_splits)
    then show ?thesis unfolding step by (simp add: q')
  qed
  have "ring_list q = ring_buffer q ! head q # map (\<lambda>i. ring_buffer q ! ((head q + Suc i) mod ?n)) [0..<Size q']"
    unfolding ring_list_def size using n by (simp add: upt_conv_Cons map_Suc_upt [symmetric] comp_def del: upt_Suc)
  also have "map (\<lambda>i. ring_buffer q ! ((head q + Suc i) mod ?n)) [0..<Size q'] = ring_list q'"
    unfolding ring_list_def using keep by (simp add: q')
  finally show "ring_list q = ring_buffer q ! head q # ring_list q'" .
qed

lemma PopFront_spec:
  assumes "ring_ok q" "ring_list q = x # xs"
  shows "\<exists>q'. PopFront d True q = (Some x, q') \<and> ring_ok q' \<and> ring_list q' = xs \<and> Capacity q' = Capacity q
    \<and> overrun_counter q' = overrun_counter q"
proof -
  have "Size q \<noteq> 0" using assms(2) length_ring_list [of q] by (metis length_0_conv list.discI)
  then have ne: "\<not> Empty q" using ring_sizes(2) [OF assms(1)] by simp
  let ?q = "q\<lparr>ring_buffer := (ring_buffer q)[head q := d], head := Next q (head q)\<rparr>"
  have "?q = q\<lparr>ring_buffer := (ring_buffer q)[head q := d], head := Next q (head q), overrun_counter := overrun_counter q\<rparr>" by simp
  note advance_head [OF assms(1) ne this]
  with ne assms(2) show ?thesis by (simp add: PopFront_def)
qed

lemma PopFront_empty: "\<lbrakk>ring_ok q; ring_list q = []\<rbrakk> \<Longrightarrow> PopFront d True q = (None, q)"
  using ring_sizes(2) [of q] length_ring_list [of q] by (simp add: PopFront_def del: length_ring_list)

lemma DropFront_spec:
  assumes "ring_ok q" "ring_list q = x # xs"
  shows "\<exists>q'. DropFront d q = (True, q') \<and> ring_ok q' \<and> ring_list q' = xs \<and> Capacity q' = Capacity q
    \<and> overrun_counter q' = overrun_counter q + 1"
proof -
  have "Size q \<noteq> 0" using assms(2) length_ring_list [of q] by (metis length_0_conv list.discI)
  then have ne: "\<not> Empty q" using ring_sizes(2) [OF assms(1)] by simp
  from advance_head [OF assms(1) ne refl, where d = d and k = "overrun_counter q + 1"] ne assms(2) show ?thesis
    by (simp add: DropFront_def)
qed

lemma Clear_spec:
  assumes "ring_ok q"
  shows "\<exists>q'. Clear d c q = Some q' \<and> ring_ok q' \<and> ring_list q' = [] \<and> Capacity q' = Capacity q
    \<and> overrun_counter q' = overrun_counter q + (if c then Size q else 0)"
  using assms
proof (induction "Size q" arbitrary: q)
  case 0
  then have "Empty q" using ring_sizes(2) [of q] by simp
  with 0 show ?case by (subst Clear.simps) (simp add: ring_list_def)
next
  case (Suc n)
  then have ne: "\<not> Empty q" using ring_sizes(2) [of q] by simp
  let ?q = "q\<lparr>ring_buffer := (ring_buffer q)[head q := d], head := Next q (head q), overrun_counter := overrun_counter q + (if c then 1 else 0)\<rparr>"
  note adv = advance_head [OF Suc.prems ne, where q' = ?q and d = d and k = "overrun_counter q + (if c then 1 else 0)", OF refl]
  have "\<exists>q'. Clear d c ?q = Some q' \<and> ring_ok q' \<and> ring_list q' = [] \<and> Capacity q' = Capacity ?q
      \<and> overrun_counter q' = overrun_counter ?q + (if c then Size ?q else 0)"
    using Suc adv by (intro Suc.hyps(1)) auto
  moreover have "Clear d c q = Clear d c ?q"
    using ne by (subst Clear.simps) (simp add: DropFront_def)
  ultimately show ?case using adv by auto
qed

interpretation ring: bounded_fifo ring_list ring_ok Capacity PushBack "PopFront dflt True" for dflt
proof unfold_locales
  fix q :: "'a CircularQueue" and x xs
  assume ok: "ring_ok q"
  show "length (ring_list q) = Capacity q \<Longrightarrow> PushBack x q = (False, q)" using PushBack_full [OF ok] by simp
  show "length (ring_list q) < Capacity q \<Longrightarrow>
      \<exists>q'. PushBack x q = (True, q') \<and> ring_ok q' \<and> ring_list q' = ring_list q @ [x] \<and> Capacity q' = Capacity q"
    using PushBack_spec [OF ok] by fastforce
  show "ring_list q = [] \<Longrightarrow> PopFront dflt True q = (None, q)" by (rule PopFront_empty [OF ok])
  show "ring_list q = x # xs \<Longrightarrow> \<exists>q'. PopFront dflt True q = (Some x, q') \<and> ring_ok q' \<and> ring_list q' = xs \<and> Capacity q' = Capacity q"
    using PopFront_spec [OF ok] by blast
  show "length (ring_list q) \<le> Capacity q" using ring_sizes(1) [OF ok] by (simp add: Capacity_def)
qed

section \<open>The blocking queue\<close>

datatype TaskPushResult = kOk | kDiscarded | kStopped

datatype QueueFullPolicy = kBlock | kDiscard | kOverwrite

record 'a MpmcBlockingQueue =
  mpmc_ring :: "'a CircularQueue"
  stopped :: bool
  force_stopped :: bool
  discard_counter :: nat
  shutdown_discard_counter :: nat

definition MpmcBlockingQueue_new :: "'a \<Rightarrow> nat \<Rightarrow> 'a MpmcBlockingQueue" where
  "MpmcBlockingQueue_new dflt capacity = \<lparr>mpmc_ring = CircularQueue_new dflt capacity, stopped = False, force_stopped = False,
     discard_counter = 0, shutdown_discard_counter = 0\<rparr>"

definition PushBlocking :: "'a \<Rightarrow> 'a MpmcBlockingQueue \<Rightarrow> (TaskPushResult \<times> 'a MpmcBlockingQueue) option" where
  "PushBlocking item s =
     (if \<not> (stopped s \<or> \<not> Full (mpmc_ring s)) then None
      else if stopped s then Some (kStopped, s)
      else case PushBack item (mpmc_ring s) of
        (False, q) \<Rightarrow> Some (kDiscarded, s\<lparr>mpmc_ring := q\<rparr>)
      | (True, q) \<Rightarrow> Some (kOk, s\<lparr>mpmc_ring := q\<rparr>))"

definition PushDiscard :: "'a \<Rightarrow> 'a MpmcBlockingQueue \<Rightarrow> TaskPushResult \<times> 'a MpmcBlockingQueue" where
  "PushDiscard item s =
     (if stopped s then (kStopped, s)
      else if Full (mpmc_ring s) then (kDiscarded, s\<lparr>discard_counter := discard_counter s + 1\<rparr>)
      else case PushBack item (mpmc_ring s) of
        (False, q) \<Rightarrow> (kDiscarded, s\<lparr>mpmc_ring := q, discard_counter := discard_counter s + 1\<rparr>)
      | (True, q) \<Rightarrow> (kOk, s\<lparr>mpmc_ring := q\<rparr>))"

definition PushOverwrite :: "'a \<Rightarrow> 'a \<Rightarrow> 'a MpmcBlockingQueue \<Rightarrow> TaskPushResult \<times> 'a MpmcBlockingQueue" where
  "PushOverwrite dflt item s =
     (if stopped s then (kStopped, s)
      else
        let q0 = (if Full (mpmc_ring s) then snd (DropFront dflt (mpmc_ring s)) else mpmc_ring s) in
        case PushBack item q0 of
          (False, q) \<Rightarrow> (kDiscarded, s\<lparr>mpmc_ring := q, discard_counter := discard_counter s + 1\<rparr>)
        | (True, q) \<Rightarrow> (kOk, s\<lparr>mpmc_ring := q\<rparr>))"

fun Push :: "'a \<Rightarrow> 'a \<Rightarrow> QueueFullPolicy \<Rightarrow> 'a MpmcBlockingQueue \<Rightarrow> (TaskPushResult \<times> 'a MpmcBlockingQueue) option" where
  "Push dflt item kBlock s = PushBlocking item s"
| "Push dflt item kDiscard s = Some (PushDiscard item s)"
| "Push dflt item kOverwrite s = Some (PushOverwrite dflt item s)"

text \<open>The predicate of the wait in \<open>Pop\<close> and \<open>PopFor\<close>.\<close>

definition pop_ready :: "'a MpmcBlockingQueue \<Rightarrow> bool" where
  "pop_ready s \<longleftrightarrow> force_stopped s \<or> \<not> Empty (mpmc_ring s) \<or> (stopped s \<and> Empty (mpmc_ring s))"

definition take_item :: "'a \<Rightarrow> 'a MpmcBlockingQueue \<Rightarrow> 'a option \<times> 'a MpmcBlockingQueue" where
  "take_item dflt s =
     (if force_stopped s then (None, s)
      else if \<not> Empty (mpmc_ring s)
      then (case PopFront dflt True (mpmc_ring s) of (r, q) \<Rightarrow> (r, s\<lparr>mpmc_ring := q\<rparr>))
      else (None, s))"

definition Pop :: "'a \<Rightarrow> 'a MpmcBlockingQueue \<Rightarrow> ('a option \<times> 'a MpmcBlockingQueue) option" where
  "Pop dflt s = (if \<not> pop_ready s then None else Some (take_item dflt s))"

text \<open>With a timeout: the state at the time the wait ends.\<close>

definition PopFor :: "'a \<Rightarrow> 'a MpmcBlockingQueue \<Rightarrow> 'a option \<times> 'a MpmcBlockingQueue" where
  "PopFor dflt s = (if \<not> pop_ready s then (None, s) else take_item dflt s)"

definition Stop :: "'a \<Rightarrow> bool \<Rightarrow> 'a MpmcBlockingQueue \<Rightarrow> 'a MpmcBlockingQueue option" where
  "Stop dflt discard_pending_tasks s =
     (let s1 = s\<lparr>stopped := True\<rparr> in
      if \<not> discard_pending_tasks then Some s1
      else case Clear dflt False (mpmc_ring s) of
        None \<Rightarrow> None
      | Some q \<Rightarrow> Some (s1\<lparr>force_stopped := True,
          shutdown_discard_counter := shutdown_discard_counter s + Size (mpmc_ring s), mpmc_ring := q\<rparr>))"

datatype 'a QueueOp = OpPush 'a QueueFullPolicy | OpPop | OpPopFor | OpStop bool

datatype 'a QueueResult = Pushed TaskPushResult | Popped "'a option" | Halted

text \<open>\<open>None\<close>: the call does not return in this state.\<close>

fun queue_step :: "'a \<Rightarrow> 'a MpmcBlockingQueue \<Rightarrow> 'a QueueOp \<Rightarrow> ('a QueueResult \<times> 'a MpmcBlockingQueue) option" where
  "queue_step d s (OpPush x policy) = map_option (\<lambda>(r, s'). (Pushed r, s')) (Push d x policy s)"
| "queue_step d s OpPop = map_option (\<lambda>(r, s'). (Popped r, s')) (Pop d s)"
| "queue_step d s OpPopFor = (case PopFor d s of (r, s') \<Rightarrow> Some (Popped r, s'))"
| "queue_step d s (OpStop discard) = map_option (\<lambda>s'. (Halted, s')) (Stop d discard s)"

section \<open>Specification: a bounded list\<close>

record 'a QueueSpec =
  items :: "'a list"
  limit :: nat
  closed :: bool
  aborted :: bool
  refused :: nat
  overwritten :: nat
  thrown_away :: nat

fun spec_queue_step :: "'a QueueSpec \<Rightarrow> 'a QueueOp \<Rightarrow> ('a QueueResult \<times> 'a QueueSpec) option" where
  "spec_queue_step a (OpPush x kBlock) =
     (if closed a then Some (Pushed kStopped, a)
      else if length (items a) < limit a then Some (Pushed kOk, a\<lparr>items := items a @ [x]\<rparr>)
      else None)"
| "spec_queue_step a (OpPush x kDiscard) =
     (if closed a then Some (Pushed kStopped, a)
      else if length (items a) < limit a then Some (Pushed kOk, a\<lparr>items := items a @ [x]\<rparr>)
      else Some (Pushed kDiscarded, a\<lparr>refused := refused a + 1\<rparr>))"
| "spec_queue_step a (OpPush x kOverwrite) =
     (if closed a then Some (Pushed kStopped, a)
      else if length (items a) < limit a then Some (Pushed kOk, a\<lparr>items := items a @ [x]\<rparr>)
      else if limit a = 0 then Some (Pushed kDiscarded, a\<lparr>refused := refused a + 1\<rparr>)
      else Some (Pushed kOk, a\<lparr>items := tl (items a) @ [x], overwritten := overwritten a + 1\<rparr>))"
| "spec_queue_step a OpPop =
     (if aborted a then Some (Popped None, a)
      else case items a of
        x # xs \<Rightarrow> Some (Popped (Some x), a\<lparr>items := xs\<rparr>)
      | [] \<Rightarrow> if closed a then Some (Popped None, a) else None)"
| "spec_queue_step a OpPopFor =
     (if aborted a then Some (Popped None, a)
      else case items a of
        x # xs \<Rightarrow> Some (Popped (Some x), a\<lparr>items := xs\<rparr>)
      | [] \<Rightarrow> Some (Popped None, a))"
| "spec_queue_step a (OpStop discard) =
     Some (Halted, if discard then a\<lparr>items := [], closed := True, aborted := True, thrown_away := thrown_away a + length (items a)\<rparr>
                   else a\<lparr>closed := True\<rparr>)"

definition queue_abs :: "'a MpmcBlockingQueue \<Rightarrow> 'a QueueSpec" where
  "queue_abs s = \<lparr>items = ring_list (mpmc_ring s), limit = Capacity (mpmc_ring s), closed = stopped s, aborted = force_stopped s,
     refused = discard_counter s, overwritten = overrun_counter (mpmc_ring s), thrown_away = shutdown_discard_counter s\<rparr>"

definition queue_ok :: "'a MpmcBlockingQueue \<Rightarrow> bool" where
  "queue_ok s \<longleftrightarrow> ring_ok (mpmc_ring s)"

lemma queue_abs_sel [simp]:
  "items (queue_abs s) = ring_list (mpmc_ring s)" "limit (queue_abs s) = Capacity (mpmc_ring s)"
  "closed (queue_abs s) = stopped s" "aborted (queue_abs s) = force_stopped s" "refused (queue_abs s) = discard_counter s"
  "overwritten (queue_abs s) = overrun_counter (mpmc_ring s)" "thrown_away (queue_abs s) = shutdown_discard_counter s"
  by (simp_all add: queue_abs_def)

lemma full_iff: "ring_ok q \<Longrightarrow> Full q \<longleftrightarrow> \<not> length (ring_list q) < Capacity q"
  using ring_sizes(1,3) [of q] by (auto simp: Capacity_def)

lemma empty_iff: "ring_ok q \<Longrightarrow> Empty q \<longleftrightarrow> ring_list q = []"
  using ring_sizes(2) [of q] by (simp flip: length_ring_list)

text \<open>One lemma per method: its result and the specification's are the same and the ring stays well-formed.\<close>

definition simulates :: "('a QueueResult \<times> 'a MpmcBlockingQueue) option \<Rightarrow> ('a QueueResult \<times> 'a QueueSpec) option \<Rightarrow> bool" where
  "simulates c a \<longleftrightarrow> map_option (\<lambda>(r, s). (r, queue_abs s)) c = a \<and> (\<forall>r s. c = Some (r, s) \<longrightarrow> queue_ok s)"

lemma push_simulates:
  assumes ok: "queue_ok s"
  shows "simulates (queue_step d s (OpPush x policy)) (spec_queue_step (queue_abs s) (OpPush x policy))"
proof -
  have ring: "ring_ok (mpmc_ring s)" using ok by (simp add: queue_ok_def)
  show ?thesis
  proof (cases "length (ring_list (mpmc_ring s)) < Capacity (mpmc_ring s)")
    case True
    then obtain q where "PushBack x (mpmc_ring s) = (True, q)" "ring_ok q" "ring_list q = ring_list (mpmc_ring s) @ [x]"
        "Capacity q = Capacity (mpmc_ring s)" "overrun_counter q = overrun_counter (mpmc_ring s)"
      using PushBack_spec [OF ring, of x] by auto
    with True ok full_iff [OF ring] show ?thesis
      by (cases policy) (auto simp: simulates_def PushBlocking_def PushDiscard_def PushOverwrite_def queue_abs_def queue_ok_def)
  next
    case False
    show ?thesis
    proof (cases "policy = kOverwrite \<and> ring_list (mpmc_ring s) \<noteq> []")
      case True
      then obtain y ys where y: "ring_list (mpmc_ring s) = y # ys" by (cases "ring_list (mpmc_ring s)") auto
      obtain q where q: "DropFront d (mpmc_ring s) = (True, q)" "ring_ok q" "ring_list q = ys" "Capacity q = Capacity (mpmc_ring s)"
          "overrun_counter q = overrun_counter (mpmc_ring s) + 1"
        using DropFront_spec [OF ring y] by blast
      have full: "Size (mpmc_ring s) = Capacity (mpmc_ring s)" using False ring.bounded [OF ring] by simp
      then have "Size q < Capacity q" using q(3,4) y length_ring_list by (metis length_Cons lessI)
      then obtain q2 where "PushBack x q = (True, q2)" "ring_ok q2" "ring_list q2 = ys @ [x]" "Capacity q2 = Capacity q"
          "overrun_counter q2 = overrun_counter q"
        using PushBack_spec [OF q(2), of x] q(3) by auto
      with True False q y ok full full_iff [OF ring] length_ring_list [of "mpmc_ring s"] show ?thesis
        by (auto simp: simulates_def PushOverwrite_def queue_abs_def queue_ok_def)
    next
      case no: False
      have size: "Size (mpmc_ring s) = Capacity (mpmc_ring s)" using False ring.bounded [OF ring] by simp
      then have "PushBack x (mpmc_ring s) = (False, mpmc_ring s)" by (rule PushBack_full [OF ring])
      moreover have "Full (mpmc_ring s)" using False full_iff [OF ring] by blast
      moreover have "ring_list (mpmc_ring s) = [] \<longleftrightarrow> Capacity (mpmc_ring s) = 0"
        using size length_ring_list [of "mpmc_ring s"] by (metis length_0_conv)
      moreover have "ring_list (mpmc_ring s) = [] \<Longrightarrow> DropFront d (mpmc_ring s) = (False, mpmc_ring s)"
        using empty_iff [OF ring] by (simp add: DropFront_def)
      ultimately show ?thesis
        using False no ok size
        by (cases policy) (auto simp: simulates_def PushBlocking_def PushDiscard_def PushOverwrite_def queue_abs_def queue_ok_def)
    qed
  qed
qed

lemma take_item_spec:
  assumes ok: "queue_ok s" and f: "\<not> force_stopped s"
  shows "take_item d s = (case ring_list (mpmc_ring s) of [] \<Rightarrow> (None, s) | x # xs \<Rightarrow> (Some x, snd (take_item d s)))
    \<and> queue_ok (snd (take_item d s)) \<and> queue_abs (snd (take_item d s)) = (queue_abs s)\<lparr>items := tl (ring_list (mpmc_ring s))\<rparr>"
proof (cases "ring_list (mpmc_ring s)")
  case Nil
  then show ?thesis using ok f empty_iff [of "mpmc_ring s"] by (simp add: take_item_def queue_ok_def queue_abs_def)
next
  case (Cons x xs)
  then obtain q where "PopFront d True (mpmc_ring s) = (Some x, q)" "ring_ok q" "ring_list q = xs" "Capacity q = Capacity (mpmc_ring s)"
      "overrun_counter q = overrun_counter (mpmc_ring s)"
    using PopFront_spec [of "mpmc_ring s" x xs d] ok by (auto simp: queue_ok_def)
  then show ?thesis using Cons ok f empty_iff [of "mpmc_ring s"] by (simp add: take_item_def queue_ok_def queue_abs_def)
qed

lemma queue_simulates:
  assumes ok: "queue_ok s"
  shows "simulates (queue_step d s op) (spec_queue_step (queue_abs s) op)"
proof (cases op)
  case (OpPush x policy)
  then show ?thesis using push_simulates [OF ok] by simp
next
  case OpPop
  have e: "Empty (mpmc_ring s) \<longleftrightarrow> ring_list (mpmc_ring s) = []" using ok by (simp add: queue_ok_def empty_iff)
  show ?thesis
  proof (cases "force_stopped s")
    case True
    with ok OpPop show ?thesis by (simp add: simulates_def Pop_def pop_ready_def take_item_def)
  next
    case False
    with take_item_spec [OF ok False, of d] OpPop e show ?thesis
      by (cases "ring_list (mpmc_ring s)"; cases "take_item d s") (auto simp: simulates_def Pop_def pop_ready_def)
  qed
next
  case OpPopFor
  have e: "Empty (mpmc_ring s) \<longleftrightarrow> ring_list (mpmc_ring s) = []" using ok by (simp add: queue_ok_def empty_iff)
  show ?thesis
  proof (cases "force_stopped s")
    case True
    with ok OpPopFor show ?thesis by (simp add: simulates_def PopFor_def pop_ready_def take_item_def)
  next
    case False
    with take_item_spec [OF ok False, of d] OpPopFor e ok show ?thesis
      by (cases "ring_list (mpmc_ring s)"; cases "take_item d s") (auto simp: simulates_def PopFor_def pop_ready_def)
  qed
next
  case (OpStop discard)
  obtain q where "Clear d False (mpmc_ring s) = Some q" "ring_ok q" "ring_list q = []" "Capacity q = Capacity (mpmc_ring s)"
      "overrun_counter q = overrun_counter (mpmc_ring s)"
    using Clear_spec [of "mpmc_ring s" d False] ok by (auto simp: queue_ok_def)
  with OpStop ok show ?thesis by (auto simp: simulates_def Stop_def queue_abs_def queue_ok_def)
qed

lemma run_simulates:
  assumes "queue_ok s"
  shows "map_option (\<lambda>(rs, t). (rs, queue_abs t)) (run_out (queue_step d) s ops) = run_out spec_queue_step (queue_abs s) ops
    \<and> (\<forall>rs t. run_out (queue_step d) s ops = Some (rs, t) \<longrightarrow> queue_ok t)"
  using assms
proof (induction ops arbitrary: s)
  case (Cons op ops)
  have sim: "simulates (queue_step d s op) (spec_queue_step (queue_abs s) op)" by (rule queue_simulates [OF Cons.prems])
  show ?case
  proof (cases "queue_step d s op")
    case None
    with sim show ?thesis by (auto simp: simulates_def)
  next
    case (Some p)
    obtain r s' where p: "p = (r, s')" by (cases p)
    have step: "spec_queue_step (queue_abs s) op = Some (r, queue_abs s')" "queue_ok s'"
      using sim Some p by (auto simp: simulates_def)
    from Some p step(1) Cons.IH [OF step(2)] show ?thesis
      by (cases "run_out (queue_step d) s' ops") (auto dest: sym)
  qed
qed simp

definition spec_queue_new :: "nat \<Rightarrow> 'a QueueSpec" where
  "spec_queue_new n = \<lparr>items = [], limit = n, closed = False, aborted = False, refused = 0, overwritten = 0, thrown_away = 0\<rparr>"

lemma queue_new: "queue_ok (MpmcBlockingQueue_new d n)" "queue_abs (MpmcBlockingQueue_new d n) = spec_queue_new n"
  by (simp_all add: MpmcBlockingQueue_new_def CircularQueue_new_def queue_ok_def ring_ok_def queue_abs_def ring_list_def Size_def
      Capacity_def spec_queue_new_def)

section \<open>Properties\<close>

text \<open>C30: the blocking queue on its ring buffer behaves like a list of bounded length: for every sequence of calls the
  results, the calls that wait, the contents and the counters are those of the list, under every overflow policy and
  for every capacity, 0 included.\<close>

theorem mpmc_queue_refines_list:
  "map_option (\<lambda>(rs, s). (rs, queue_abs s)) (run_out (queue_step dflt) (MpmcBlockingQueue_new dflt n) ops)
    = run_out spec_queue_step (spec_queue_new n) ops"
  using run_simulates [OF queue_new(1), of dflt dflt n ops] unfolding queue_new(2) by blast

text \<open>A consumer and a producer never wait for each other: in a state reached by calls on a queue of positive
  capacity, if \<open>Pop\<close> waits then a blocking \<open>Push\<close> does not, and once the queue has been stopped nothing waits.\<close>

theorem queue_waits:
  assumes "run_out (queue_step dflt) (MpmcBlockingQueue_new dflt n) ops = Some (rs, s)" and "0 < n"
  shows "(queue_step dflt s OpPop = None \<longrightarrow> queue_step dflt s (OpPush x kBlock) \<noteq> None)
    \<and> (stopped s \<longrightarrow> queue_step dflt s op \<noteq> None)"
proof -
  have run: "run_out spec_queue_step (spec_queue_new n) ops = Some (rs, queue_abs s)" and ok: "queue_ok s"
    using run_simulates [OF queue_new(1), of dflt dflt n ops] assms(1) unfolding queue_new(2) by auto
  have "limit a' = limit a" if "run_out spec_queue_step a ops = Some (rs, a')" for a a' :: "'a QueueSpec" and ops rs
    using that
  proof (induction ops arbitrary: a rs)
    case (Cons op ops)
    then obtain r b rs' where b: "spec_queue_step a op = Some (r, b)" "run_out spec_queue_step b ops = Some (rs', a')"
      by (auto split: option.splits)
    have "limit b = limit a"
      using b(1) by (cases op rule: QueueOp.exhaust; cases "case op of OpPush x p \<Rightarrow> p | _ \<Rightarrow> kBlock")
        (auto split: if_splits list.splits)
    with Cons.IH [OF b(2)] show ?case by simp
  qed simp
  from this [OF run] have cap: "Capacity (mpmc_ring s) = n" by (simp add: spec_queue_new_def)
  have none: "queue_step dflt s o' = None \<longleftrightarrow> spec_queue_step (queue_abs s) o' = None" for o'
    using queue_simulates [OF ok, of dflt o'] by (auto simp: simulates_def)
  have "stopped s \<Longrightarrow> spec_queue_step (queue_abs s) op \<noteq> None"
    by (cases op rule: QueueOp.exhaust; cases "case op of OpPush x p \<Rightarrow> p | _ \<Rightarrow> kBlock") (auto split: list.splits)
  with assms(2) show ?thesis unfolding none by (auto simp: cap simp del: length_ring_list split: if_splits list.splits)
qed

theorem queue_waits_witness:
  "queue_step (0::nat) (MpmcBlockingQueue_new 0 1) OpPop = None \<and> queue_step (0::nat) (MpmcBlockingQueue_new 0 1) (OpPush 5 kBlock) \<noteq> None"
proof -
  have "queue_step (0::nat) (MpmcBlockingQueue_new 0 1) OpPop = None"
    by (simp add: Pop_def pop_ready_def MpmcBlockingQueue_new_def CircularQueue_new_def Empty_def)
  then show ?thesis using queue_waits [of "0::nat" 1 "[]" "[]" "MpmcBlockingQueue_new 0 1" 5 OpPop] by simp
qed

end
