(* ===== verification/Business_Executor.thy ===== *)
theory Business_Executor
  imports Bounded_Queue
begin

text \<open>
  The gateway's business runtime, \<open>gateway/business/BusinessExecutor.{h,cpp}\<close> with the types of
  \<open>gateway/business/BusinessRuntimeTypes.h\<close>: admission of tasks under a global budget, a thread pool that executes
  unordered tasks directly and ordered tasks through one drainer per stripe (or per ordering key), synchronous and
  asynchronous work, the completion fences, and draining.

  The state is the object's members, the pool's job queue, what each worker thread is doing, the asynchronous tasks
  that have started and not finished, and the completions handed to a dispatcher and not yet run. An event is one
  critical section or one uninterruptible piece of a method; an execution of any number of threads is a sequence of
  events. What user code does (a probe's answer, how work ends, whether a dispatcher throws) and the time are part of
  the event. \<open>None\<close> is a \<open>std::logic_error\<close> thrown by the executor.

  \<open>Submit\<close> is one event: it holds the admission mutex throughout, and between its two visits to a stripe no drainer
  of that stripe exists. Latency samples and logging are left out, counters are natural numbers, \<open>std::size_t\<close> sizes
  are natural numbers (\<open>Start\<close> bounds them far below the width of the type).
\<close>

section \<open>Types\<close>

datatype BusinessSubmitStatus =
  kAccepted | kOverloaded | kHotKeyOverloaded | kDeadlineExpired | kShuttingDown | kInvalidArgument

datatype BusinessCancellationPolicy = kCancelable | kMustRun

text \<open>A deadline of 0 is the default constructed time point: none.\<close>

record BusinessRequestContext =
  received_at :: int
  deadline :: int
  ordering_key :: "u64 option"

definition HasDeadline :: "BusinessRequestContext \<Rightarrow> bool" where
  "HasDeadline r \<longleftrightarrow> deadline r \<noteq> 0"

definition DeadlineExpired :: "int \<Rightarrow> BusinessRequestContext \<Rightarrow> bool" where
  "DeadlineExpired now r \<longleftrightarrow> HasDeadline r \<and> now \<ge> deadline r"

text \<open>In nanoseconds; \<open>None\<close> is \<open>milliseconds::max()\<close>.\<close>

definition RemainingTime :: "int \<Rightarrow> BusinessRequestContext \<Rightarrow> int option" where
  "RemainingTime now r =
     (if \<not> HasDeadline r then None else if now \<ge> deadline r then Some 0 else Some ((deadline r - now) div 1000000))"

text \<open>Which of its callbacks a task has.\<close>

record TaskSpec =
  request :: BusinessRequestContext
  cancellation_policy :: BusinessCancellationPolicy
  has_still_valid :: bool
  has_completion_still_valid :: bool
  has_work :: bool
  has_async_work :: bool
  has_dispatcher :: bool
  has_deadline_completion :: bool

record TaskState =
  task_id :: nat
  spec :: TaskSpec
  async_stripe :: "nat option"
  async_key :: "u64 option"

datatype ProbeOutcome = ProbeTrue | ProbeFalse | ProbeThrows

definition CancellationRequested :: "int \<Rightarrow> ProbeOutcome \<Rightarrow> TaskSpec \<Rightarrow> bool" where
  "CancellationRequested now probe t \<longleftrightarrow>
     cancellation_policy t \<noteq> kMustRun \<and> (DeadlineExpired now (request t) \<or> has_still_valid t \<and> probe = ProbeFalse)"

record BusinessExecutorOptions =
  worker_threads :: nat
  max_pending_tasks :: nat
  stripe_count :: nat
  per_stripe_queue_capacity :: nat
  default_deadline :: int
  shutdown_timeout :: int
  isolate_ordering_keys :: bool

record Stripe =
  stripe_queue :: "TaskState list"
  running :: bool
  lanes :: "u64 \<rightharpoonup> TaskState list"
  isolated_pending :: nat

datatype Job =
    JobExecuteTask TaskState
  | JobDrainStripe nat
  | JobDrainKey nat u64
  | JobContinuation TaskState

text \<open>Where a worker is: at the head of a drain loop, in \<open>ExecuteTask\<close> before the task starts, in the task's work,
  back from \<open>ExecuteTask\<close> with the result \<open>true\<close>, in \<open>async_work\<close>, in a continuation.\<close>

datatype Origin = FromPool | FromStripe nat | FromKey nat u64

datatype Activity =
    AtDrainStripe nat
  | AtDrainKey nat u64
  | Entering TaskState Origin
  | Working TaskState Origin
  | Returned Origin
  | StartingAsync TaskState
  | InContinuation TaskState

record Counters =
  submitted_total :: nat
  accepted_total :: nat
  completed_total :: nat
  rejected_overload_total :: nat
  rejected_pending_budget_total :: nat
  rejected_pool_submission_total :: nat
  rejected_key_allocation_total :: nat
  rejected_hot_key_total :: nat
  rejected_deadline_total :: nat
  rejected_shutdown_total :: nat
  rejected_invalid_total :: nat
  deadline_expired_before_start_total :: nat
  cancelled_before_start_total :: nat
  deadline_terminal_callback_total :: nat
  deadline_terminal_dropped_total :: nat
  deadline_terminal_exception_total :: nat
  worker_exception_total :: nat
  completion_exception_total :: nat
  completion_dropped_total :: nat
  async_started_total :: nat
  async_finished_total :: nat
  continuation_run_total :: nat

record BusinessExecutor =
  options :: BusinessExecutorOptions
  accepting :: bool
  pool_stopped :: bool
  pool_queue :: "(bool \<times> Job) list"  \<comment> \<open>posted by \<open>PostInternal\<close>?\<close>
  stripes :: "Stripe list"
  workers :: "nat \<rightharpoonup> bool \<times> Activity"
  async_tasks :: "nat \<rightharpoonup> TaskState"  \<comment> \<open>started, \<open>async_finished\<close> not set\<close>
  finishing :: "nat \<rightharpoonup> TaskState"  \<comment> \<open>in \<open>FinishAsync\<close> before its scheduling tail\<close>
  dispatched :: "nat \<rightharpoonup> TaskState \<times> bool"  \<comment> \<open>a deadline terminal?\<close>
  next_task_id :: nat
  current_pending_tasks :: nat
  peak_pending_tasks :: nat
  current_active_tasks :: nat
  peak_active_tasks :: nat
  pending_completions :: nat
  pending_async_tasks :: nat
  pending_internal_jobs :: nat
  counters :: Counters
  accepted_log :: "TaskState list"  \<comment> \<open>observation only\<close>
  started_log :: "TaskState list"  \<comment> \<open>observation only\<close>

definition count :: "(Counters \<Rightarrow> Counters) \<Rightarrow> BusinessExecutor \<Rightarrow> BusinessExecutor" where
  "count f s = s\<lparr>counters := f (counters s)\<rparr>"

section \<open>Start and the pool\<close>

definition size_max :: nat where "size_max = 2 ^ 64 - 1"

definition options_valid :: "BusinessExecutorOptions \<Rightarrow> bool" where
  "options_valid o' \<longleftrightarrow> \<not> (worker_threads o' = 0
     \<or> max_pending_tasks o' > size_max div 4 \<or> stripe_count o' > size_max div 4 \<or> worker_threads o' > size_max div 4
     \<or> max_pending_tasks o' = 0 \<or> stripe_count o' = 0 \<or> per_stripe_queue_capacity o' = 0
     \<or> per_stripe_queue_capacity o' > max_pending_tasks o'
     \<or> default_deadline o' \<le> 0 \<or> shutdown_timeout o' \<le> 0)"

definition queue_capacity :: "BusinessExecutorOptions \<Rightarrow> nat" where
  "queue_capacity o' = max_pending_tasks o' * 2 + stripe_count o' + worker_threads o'"

definition no_counters :: Counters where
  "no_counters = \<lparr>submitted_total = 0, accepted_total = 0, completed_total = 0, rejected_overload_total = 0,
     rejected_pending_budget_total = 0, rejected_pool_submission_total = 0, rejected_key_allocation_total = 0,
     rejected_hot_key_total = 0, rejected_deadline_total = 0, rejected_shutdown_total = 0, rejected_invalid_total = 0,
     deadline_expired_before_start_total = 0, cancelled_before_start_total = 0, deadline_terminal_callback_total = 0,
     deadline_terminal_dropped_total = 0, deadline_terminal_exception_total = 0, worker_exception_total = 0,
     completion_exception_total = 0, completion_dropped_total = 0, async_started_total = 0, async_finished_total = 0,
     continuation_run_total = 0\<rparr>"

definition new_stripe :: Stripe where
  "new_stripe = \<lparr>stripe_queue = [], running = False, lanes = Map.empty, isolated_pending = 0\<rparr>"

text \<open>A constructed executor whose pool could be started.\<close>

definition Start :: "BusinessExecutorOptions \<Rightarrow> BusinessExecutor option" where
  "Start o' =
     (if \<not> options_valid o' then None
      else Some \<lparr>options = o', accepting = True, pool_stopped = False, pool_queue = [],
        stripes = replicate (stripe_count o') new_stripe, workers = Map.empty, async_tasks = Map.empty,
        finishing = Map.empty, dispatched = Map.empty, next_task_id = 0, current_pending_tasks = 0, peak_pending_tasks = 0,
        current_active_tasks = 0, peak_active_tasks = 0, pending_completions = 0, pending_async_tasks = 0,
        pending_internal_jobs = 0, counters = no_counters, accepted_log = [], started_log = []\<rparr>)"

definition TrySubmit :: "bool \<Rightarrow> Job \<Rightarrow> BusinessExecutor \<Rightarrow> TaskPushResult \<times> BusinessExecutor" where
  "TrySubmit internal j s =
     (if pool_stopped s then (kStopped, s)
      else if length (pool_queue s) \<ge> queue_capacity (options s) then (kDiscarded, s)
      else (kOk, s\<lparr>pool_queue := pool_queue s @ [(internal, j)]\<rparr>))"

definition UpdatePeak :: "nat \<Rightarrow> nat \<Rightarrow> nat" where
  "UpdatePeak peak value = (if value > peak then value else peak)"

definition ReservePending :: "BusinessExecutor \<Rightarrow> bool \<times> BusinessExecutor" where
  "ReservePending s =
     (if current_pending_tasks s \<ge> max_pending_tasks (options s) then (False, s)
      else (True, s\<lparr>current_pending_tasks := current_pending_tasks s + 1,
             peak_pending_tasks := UpdatePeak (peak_pending_tasks s) (current_pending_tasks s + 1)\<rparr>))"

definition ReleasePending :: "BusinessExecutor \<Rightarrow> BusinessExecutor" where
  "ReleasePending s = s\<lparr>current_pending_tasks := current_pending_tasks s - 1\<rparr>"

definition upd_stripe :: "nat \<Rightarrow> (Stripe \<Rightarrow> Stripe) \<Rightarrow> BusinessExecutor \<Rightarrow> BusinessExecutor" where
  "upd_stripe i f s = s\<lparr>stripes := (stripes s)[i := f (stripes s ! i)]\<rparr>"

section \<open>Submission\<close>

definition SubmitUnordered :: "TaskState \<Rightarrow> BusinessExecutor \<Rightarrow> BusinessSubmitStatus \<times> BusinessExecutor" where
  "SubmitUnordered t s =
     (case TrySubmit False (JobExecuteTask t) s of
        (kOk, s') \<Rightarrow> (kAccepted, s')
      | (kStopped, s') \<Rightarrow> (kShuttingDown, s')
      | (kDiscarded, s') \<Rightarrow> (kOverloaded, count (rejected_pool_submission_total_update Suc) s'))"

definition SubmitIsolatedKey :: "bool \<Rightarrow> TaskState \<Rightarrow> u64 \<Rightarrow> BusinessExecutor \<Rightarrow> BusinessSubmitStatus \<times> BusinessExecutor" where
  "SubmitIsolatedKey alloc_fails t key s =
     (let i = unat key mod length (stripes s); st = stripes s ! i in
      if isolated_pending st \<ge> per_stripe_queue_capacity (options s) then (kHotKeyOverloaded, s)
      else if alloc_fails then (kOverloaded, count (rejected_key_allocation_total_update Suc) s)
      else
        let inserted = (lanes st key = None);
            q = (case lanes st key of None \<Rightarrow> [] | Some q \<Rightarrow> q);
            s1 = upd_stripe i (\<lambda>st. st\<lparr>lanes := (lanes st)(key \<mapsto> q @ [t]), isolated_pending := isolated_pending st + 1\<rparr>) s
        in if \<not> inserted then (kAccepted, s1)
           else case TrySubmit False (JobDrainKey i key) s1 of
             (kOk, s2) \<Rightarrow> (kAccepted, s2)
           | (r, s2) \<Rightarrow>
               let s3 = upd_stripe i (\<lambda>st. st\<lparr>lanes := (lanes st)(key := None), isolated_pending := isolated_pending st - 1\<rparr>) s2
               in if r = kStopped then (kShuttingDown, s3)
                  else (kOverloaded, count (rejected_pool_submission_total_update Suc) s3))"

definition SubmitOrdered :: "bool \<Rightarrow> TaskState \<Rightarrow> u64 \<Rightarrow> BusinessExecutor \<Rightarrow> BusinessSubmitStatus \<times> BusinessExecutor" where
  "SubmitOrdered alloc_fails t key s =
     (if isolate_ordering_keys (options s) then SubmitIsolatedKey alloc_fails t key s
      else
        let i = unat key mod length (stripes s); st = stripes s ! i;
            stripe_pending = length (stripe_queue st) + (if running st then 1 else 0)
        in if stripe_pending \<ge> per_stripe_queue_capacity (options s) then (kHotKeyOverloaded, s)
           else
             let s1 = upd_stripe i (\<lambda>st. st\<lparr>stripe_queue := stripe_queue st @ [t], running := True\<rparr>) s
             in if running st then (kAccepted, s1)
                else case TrySubmit False (JobDrainStripe i) s1 of
                  (kOk, s2) \<Rightarrow> (kAccepted, s2)
                | (r, s2) \<Rightarrow>
                    let s3 = upd_stripe i (\<lambda>st. st\<lparr>stripe_queue := [], running := False\<rparr>) s2
                    in if r = kStopped then (kShuttingDown, s3)
                       else (kOverloaded, count (rejected_pool_submission_total_update Suc) s3))"

definition count_rejection :: "BusinessSubmitStatus \<Rightarrow> BusinessExecutor \<Rightarrow> BusinessExecutor" where
  "count_rejection status =
     count (case status of kHotKeyOverloaded \<Rightarrow> rejected_hot_key_total_update Suc
            | kOverloaded \<Rightarrow> rejected_overload_total_update Suc
            | kShuttingDown \<Rightarrow> rejected_shutdown_total_update Suc
            | _ \<Rightarrow> rejected_invalid_total_update Suc)"

definition Submit :: "int \<Rightarrow> bool \<Rightarrow> TaskSpec \<Rightarrow> BusinessExecutor \<Rightarrow> BusinessSubmitStatus \<times> BusinessExecutor" where
  "Submit now alloc_fails task s =
     (let s = count (submitted_total_update Suc) s in
      if has_work task = has_async_work task then (kInvalidArgument, count (rejected_invalid_total_update Suc) s)
      else
        let req = request task;
            req = (if HasDeadline req then req else req\<lparr>deadline := received_at req + default_deadline (options s)\<rparr>)
        in if DeadlineExpired now req then (kDeadlineExpired, count (rejected_deadline_total_update Suc) s)
           else
             let t = \<lparr>task_id = next_task_id s, spec = task\<lparr>request := req\<rparr>, async_stripe = None, async_key = None\<rparr>;
                 s = s\<lparr>next_task_id := next_task_id s + 1\<rparr>
             in if \<not> accepting s then (kShuttingDown, count (rejected_shutdown_total_update Suc) s)
                else case ReservePending s of
                  (False, s) \<Rightarrow> (kOverloaded, count (rejected_overload_total_update Suc)
                                  (count (rejected_pending_budget_total_update Suc) s))
                | (True, s) \<Rightarrow>
                    (case (case ordering_key req of Some key \<Rightarrow> SubmitOrdered alloc_fails t key s
                           | None \<Rightarrow> SubmitUnordered t s) of
                       (status, s') \<Rightarrow>
                         if status \<noteq> kAccepted then (status, count_rejection status (ReleasePending s'))
                         else (kAccepted, count (accepted_total_update Suc) s'\<lparr>accepted_log := accepted_log s' @ [t]\<rparr>)))"

definition BeginDrain :: "BusinessExecutor \<Rightarrow> BusinessExecutor" where
  "BeginDrain s = s\<lparr>accepting := False\<rparr>"

definition IsAccepting :: "BusinessExecutor \<Rightarrow> bool" where
  "IsAccepting s = accepting s"

text \<open>The condition \<open>ShutdownGraceful\<close> waits for.\<close>

definition drained :: "BusinessExecutor \<Rightarrow> bool" where
  "drained s \<longleftrightarrow> current_pending_tasks s = 0 \<and> pending_completions s = 0 \<and> pending_async_tasks s = 0
     \<and> pending_internal_jobs s = 0"

section \<open>Completions\<close>

text \<open>\<open>CompletionStillValid\<close>: no probe means valid, a probe that throws means invalid.\<close>

definition CompletionStillValid :: "ProbeOutcome \<Rightarrow> TaskState \<Rightarrow> bool" where
  "CompletionStillValid probe t \<longleftrightarrow> (has_completion_still_valid (spec t) \<longrightarrow> probe = ProbeTrue)"

text \<open>Handing a wrapped completion to the dispatcher; one that throws has not taken it.\<close>

definition hand_over :: "bool \<Rightarrow> TaskState \<Rightarrow> BusinessExecutor \<Rightarrow> BusinessExecutor" where
  "hand_over terminal t s = s\<lparr>pending_completions := pending_completions s + 1,
     dispatched := (dispatched s)(task_id t \<mapsto> (t, terminal))\<rparr>"

definition DispatchCompletion :: "ProbeOutcome \<Rightarrow> bool \<Rightarrow> TaskState \<Rightarrow> BusinessExecutor \<Rightarrow> BusinessExecutor" where
  "DispatchCompletion probe dispatcher_throws t s =
     (if \<not> has_dispatcher (spec t) \<or> \<not> CompletionStillValid probe t \<or> dispatcher_throws
      then ReleasePending (count (completion_dropped_total_update Suc) s)
      else hand_over False t s)"

definition DispatchDeadlineTerminal :: "ProbeOutcome \<Rightarrow> bool \<Rightarrow> TaskState \<Rightarrow> BusinessExecutor \<Rightarrow> BusinessExecutor" where
  "DispatchDeadlineTerminal probe dispatcher_throws t s =
     (if \<not> has_deadline_completion (spec t) then ReleasePending s
      else if \<not> has_dispatcher (spec t) \<or> \<not> CompletionStillValid probe t \<or> dispatcher_throws
      then ReleasePending (count (deadline_terminal_dropped_total_update Suc) s)
      else hand_over True t s)"

text \<open>The wrapped completion, run by the dispatcher.\<close>

definition run_completion :: "nat \<Rightarrow> ProbeOutcome \<Rightarrow> bool \<Rightarrow> BusinessExecutor \<Rightarrow> BusinessExecutor" where
  "run_completion tid probe throws s =
     (case dispatched s tid of
        None \<Rightarrow> s
      | Some (t, terminal) \<Rightarrow>
          ReleasePending (count
            (if \<not> CompletionStillValid probe t
             then (if terminal then deadline_terminal_dropped_total_update Suc else completion_dropped_total_update Suc)
             else if throws
             then (if terminal then deadline_terminal_exception_total_update Suc else completion_exception_total_update Suc)
             else (if terminal then deadline_terminal_callback_total_update Suc else completed_total_update Suc))
            (s\<lparr>pending_completions := pending_completions s - 1, dispatched := (dispatched s)(tid := None)\<rparr>)))"

section \<open>Draining and execution\<close>

definition PostInternal :: "Job \<Rightarrow> BusinessExecutor \<Rightarrow> BusinessExecutor option" where
  "PostInternal j s =
     (case TrySubmit True j (s\<lparr>pending_internal_jobs := pending_internal_jobs s + 1\<rparr>) of
        (kOk, s') \<Rightarrow> Some s'
      | _ \<Rightarrow> None)"

text \<open>Removes the task from its lane's account; the result says whether the lane has more work.\<close>

definition CompleteKeyTask :: "nat \<Rightarrow> u64 \<Rightarrow> BusinessExecutor \<Rightarrow> (bool \<times> BusinessExecutor) option" where
  "CompleteKeyTask i key s =
     (let st = stripes s ! i in
      case lanes st key of
        None \<Rightarrow> None
      | Some q \<Rightarrow>
          if isolated_pending st = 0 then None
          else let s1 = upd_stripe i (\<lambda>st. st\<lparr>isolated_pending := isolated_pending st - 1\<rparr>) s
               in if q = [] then Some (False, upd_stripe i (\<lambda>st. st\<lparr>lanes := (lanes st)(key := None)\<rparr>) s1)
                  else Some (True, s1))"

definition set_worker :: "nat \<Rightarrow> Activity \<Rightarrow> BusinessExecutor \<Rightarrow> BusinessExecutor" where
  "set_worker w a s = s\<lparr>workers := (workers s)(w \<mapsto> (case workers s w of None \<Rightarrow> False | Some (internal, _) \<Rightarrow> internal, a))\<rparr>"

text \<open>The job of worker \<open>w\<close> returns.\<close>

definition end_job :: "nat \<Rightarrow> BusinessExecutor \<Rightarrow> BusinessExecutor" where
  "end_job w s =
     (case workers s w of
        None \<Rightarrow> s
      | Some (internal, _) \<Rightarrow>
          s\<lparr>workers := (workers s)(w := None),
            pending_internal_jobs := (if internal then pending_internal_jobs s - 1 else pending_internal_jobs s)\<rparr>)"

text \<open>The job of worker \<open>w\<close> ends with an exception: the wrapper of \<open>PostInternal\<close> counts it, the pool swallows it.\<close>

definition job_throws :: "nat \<Rightarrow> BusinessExecutor \<Rightarrow> BusinessExecutor" where
  "job_throws w s =
     (case workers s w of
        Some (True, _) \<Rightarrow> end_job w (count (worker_exception_total_update Suc) s)
      | _ \<Rightarrow> end_job w s)"

text \<open>A free worker pops the front job of the pool. A continuation of a finished task does nothing.\<close>

definition take_job :: "nat \<Rightarrow> BusinessExecutor \<Rightarrow> BusinessExecutor" where
  "take_job w s =
     (case (workers s w, pool_queue s) of
        (None, (internal, j) # js) \<Rightarrow>
          let s1 = s\<lparr>pool_queue := js\<rparr>;
              go = (\<lambda>a. s1\<lparr>workers := (workers s)(w \<mapsto> (internal, a))\<rparr>)
          in (case j of
                JobExecuteTask t \<Rightarrow> go (Entering t FromPool)
              | JobDrainStripe i \<Rightarrow> go (AtDrainStripe i)
              | JobDrainKey i key \<Rightarrow> go (AtDrainKey i key)
              | JobContinuation t \<Rightarrow>
                  if async_tasks s (task_id t) = None
                  then end_job w (go (InContinuation t))
                  else count (continuation_run_total_update Suc) (go (InContinuation t))
                    \<lparr>current_active_tasks := current_active_tasks s + 1,
                     peak_active_tasks := UpdatePeak (peak_active_tasks s) (current_active_tasks s + 1)\<rparr>)
      | _ \<Rightarrow> s)"

text \<open>One turn of the loop of \<open>DrainStripe\<close> up to the call of \<open>ExecuteTask\<close>.\<close>

definition DrainStripe :: "nat \<Rightarrow> BusinessExecutor \<Rightarrow> BusinessExecutor" where
  "DrainStripe w s =
     (case workers s w of
        Some (_, AtDrainStripe i) \<Rightarrow>
          if i \<ge> length (stripes s) then end_job w s
          else (case stripe_queue (stripes s ! i) of
                  [] \<Rightarrow> end_job w (upd_stripe i (\<lambda>st. st\<lparr>running := False\<rparr>) s)
                | t # q \<Rightarrow>
                    let t' = (if has_async_work (spec t) then t\<lparr>async_stripe := Some i\<rparr> else t)
                    in set_worker w (Entering t' (FromStripe i))
                         (upd_stripe i (\<lambda>st. st\<lparr>stripe_queue := q\<rparr>) s)\<lparr>started_log := started_log s @ [t]\<rparr>)
      | _ \<Rightarrow> s)"

definition DrainKey :: "nat \<Rightarrow> BusinessExecutor \<Rightarrow> BusinessExecutor" where
  "DrainKey w s =
     (case workers s w of
        Some (_, AtDrainKey i key) \<Rightarrow>
          (case lanes (stripes s ! i) key of
             None \<Rightarrow> end_job w s
           | Some [] \<Rightarrow> end_job w (upd_stripe i (\<lambda>st. st\<lparr>lanes := (lanes st)(key := None)\<rparr>) s)
           | Some (t # q) \<Rightarrow>
               let t' = (if has_async_work (spec t) then t\<lparr>async_stripe := Some i, async_key := Some key\<rparr> else t)
               in set_worker w (Entering t' (FromKey i key))
                    (upd_stripe i (\<lambda>st. st\<lparr>lanes := (lanes st)(key \<mapsto> q)\<rparr>) s)\<lparr>started_log := started_log s @ [t]\<rparr>)
      | _ \<Rightarrow> s)"

text \<open>What the caller of \<open>ExecuteTask\<close> does when it returned \<open>true\<close>.\<close>

definition after_execute :: "nat \<Rightarrow> BusinessExecutor \<Rightarrow> BusinessExecutor option" where
  "after_execute w s =
     (case workers s w of
        Some (_, Returned FromPool) \<Rightarrow> Some (end_job w s)
      | Some (_, Returned (FromStripe i)) \<Rightarrow> Some (set_worker w (AtDrainStripe i) s)
      | Some (_, Returned (FromKey i key)) \<Rightarrow>
          (case CompleteKeyTask i key s of
             None \<Rightarrow> None
           | Some (True, s') \<Rightarrow> Some (set_worker w (AtDrainKey i key) s')
           | Some (False, s') \<Rightarrow> Some (end_job w s'))
      | _ \<Rightarrow> Some s)"

text \<open>\<open>ExecuteTask\<close> up to the call of the task's work: the checks of a cancelable task, then the start.\<close>

definition ExecuteTask_begin :: "nat \<Rightarrow> int \<Rightarrow> ProbeOutcome \<Rightarrow> ProbeOutcome \<Rightarrow> bool \<Rightarrow> BusinessExecutor \<Rightarrow> BusinessExecutor" where
  "ExecuteTask_begin w now still_valid completion_probe dispatcher_throws s =
     (case workers s w of
        Some (_, Entering t origin) \<Rightarrow>
          if cancellation_policy (spec t) = kCancelable \<and> DeadlineExpired now (request (spec t)) then
            set_worker w (Returned origin) (DispatchDeadlineTerminal completion_probe dispatcher_throws t
              (count (deadline_expired_before_start_total_update Suc) s))
          else if cancellation_policy (spec t) = kCancelable \<and> has_still_valid (spec t) \<and> still_valid = ProbeThrows then
            job_throws w s
          else if cancellation_policy (spec t) = kCancelable \<and> has_still_valid (spec t) \<and> still_valid = ProbeFalse then
            set_worker w (Returned origin) (ReleasePending (count (cancelled_before_start_total_update Suc) s))
          else
            let s1 = s\<lparr>current_active_tasks := current_active_tasks s + 1,
                       peak_active_tasks := UpdatePeak (peak_active_tasks s) (current_active_tasks s + 1)\<rparr>
            in if has_async_work (spec t)
               then set_worker w (StartingAsync t) (count (async_started_total_update Suc) s1)
                 \<lparr>pending_async_tasks := pending_async_tasks s + 1, async_tasks := (async_tasks s)(task_id t \<mapsto> t)\<rparr>
               else set_worker w (Working t origin) s1
      | _ \<Rightarrow> s)"

datatype WorkOutcome = WorkThrows | WorkWithoutCompletion | WorkWithCompletion

text \<open>What happens to a task whose work has ended; used for synchronous and asynchronous work.\<close>

definition conclude :: "WorkOutcome \<Rightarrow> ProbeOutcome \<Rightarrow> bool \<Rightarrow> TaskState \<Rightarrow> BusinessExecutor \<Rightarrow> BusinessExecutor" where
  "conclude out completion_probe dispatcher_throws t s =
     (case out of
        WorkThrows \<Rightarrow> ReleasePending (count (worker_exception_total_update Suc) s)
      | WorkWithoutCompletion \<Rightarrow> ReleasePending (count (completed_total_update Suc) s)
      | WorkWithCompletion \<Rightarrow> DispatchCompletion completion_probe dispatcher_throws t s)"

text \<open>\<open>ExecuteTask\<close> from the return of synchronous work.\<close>

definition ExecuteTask_end :: "nat \<Rightarrow> WorkOutcome \<Rightarrow> ProbeOutcome \<Rightarrow> bool \<Rightarrow> BusinessExecutor \<Rightarrow> BusinessExecutor" where
  "ExecuteTask_end w out completion_probe dispatcher_throws s =
     (case workers s w of
        Some (_, Working t origin) \<Rightarrow>
          set_worker w (Returned origin) (conclude out completion_probe dispatcher_throws t
            (s\<lparr>current_active_tasks := current_active_tasks s - 1\<rparr>))
      | _ \<Rightarrow> s)"

text \<open>\<open>FinishAsync\<close>, called by the task's \<open>done\<close> callback or for an exception of \<open>async_work\<close>: the first call sets the
  flag and concludes the task, any further call returns at once. The second part schedules the next drainer.\<close>

definition FinishAsync :: "nat \<Rightarrow> WorkOutcome \<Rightarrow> ProbeOutcome \<Rightarrow> bool \<Rightarrow> BusinessExecutor \<Rightarrow> BusinessExecutor" where
  "FinishAsync tid out completion_probe dispatcher_throws s =
     (case async_tasks s tid of
        None \<Rightarrow> s
      | Some t \<Rightarrow>
          conclude out completion_probe dispatcher_throws t
            (count (async_finished_total_update Suc)
              (s\<lparr>async_tasks := (async_tasks s)(tid := None), finishing := (finishing s)(tid \<mapsto> t)\<rparr>)))"

definition FinishAsync_tail :: "nat \<Rightarrow> BusinessExecutor \<Rightarrow> BusinessExecutor option" where
  "FinishAsync_tail tid s =
     (case finishing s tid of
        None \<Rightarrow> Some s
      | Some t \<Rightarrow>
          let s1 = s\<lparr>finishing := (finishing s)(tid := None), pending_async_tasks := pending_async_tasks s - 1\<rparr> in
          case async_stripe t of
            None \<Rightarrow> Some s1
          | Some i \<Rightarrow>
              (case async_key t of
                 None \<Rightarrow> PostInternal (JobDrainStripe i) s1
               | Some key \<Rightarrow>
                   (case CompleteKeyTask i key s1 of
                      None \<Rightarrow> None
                    | Some (True, s2) \<Rightarrow> PostInternal (JobDrainKey i key) s2
                    | Some (False, s2) \<Rightarrow> Some s2)))"

text \<open>\<open>async_work\<close> has returned (after an exception: its \<open>FinishAsync\<close> has been called); the worker leaves the drain
  loop.\<close>

definition async_work_returns :: "nat \<Rightarrow> BusinessExecutor \<Rightarrow> BusinessExecutor" where
  "async_work_returns w s =
     (case workers s w of
        Some (_, StartingAsync t) \<Rightarrow> end_job w (s\<lparr>current_active_tasks := current_active_tasks s - 1\<rparr>)
      | _ \<Rightarrow> s)"

text \<open>The resume callback of an asynchronous task posts a continuation, unless the task has finished.\<close>

definition post_continuation :: "nat \<Rightarrow> BusinessExecutor \<Rightarrow> BusinessExecutor option" where
  "post_continuation tid s =
     (case async_tasks s tid of None \<Rightarrow> Some s | Some t \<Rightarrow> PostInternal (JobContinuation t) s)"

definition continuation_returns :: "nat \<Rightarrow> bool \<Rightarrow> BusinessExecutor \<Rightarrow> BusinessExecutor" where
  "continuation_returns w throws s =
     (case workers s w of
        Some (_, InContinuation t) \<Rightarrow>
          let s1 = s\<lparr>current_active_tasks := current_active_tasks s - 1\<rparr>
          in if throws then job_throws w s1 else end_job w s1
      | _ \<Rightarrow> s)"

section \<open>Events\<close>

datatype Event =
    EvSubmit int bool TaskSpec
  | EvBeginDrain
  | EvTakeJob nat
  | EvDrainStripe nat
  | EvDrainKey nat
  | EvExecuteBegin nat int ProbeOutcome ProbeOutcome bool
  | EvExecuteEnd nat WorkOutcome ProbeOutcome bool
  | EvAfterExecute nat
  | EvAsyncWorkReturns nat
  | EvPostContinuation nat
  | EvContinuationReturns nat bool
  | EvFinishAsync nat WorkOutcome ProbeOutcome bool
  | EvFinishAsyncTail nat
  | EvRunCompletion nat ProbeOutcome bool

text \<open>An event that is not enabled changes nothing.\<close>

fun executor_step :: "BusinessExecutor \<Rightarrow> Event \<Rightarrow> BusinessExecutor option" where
  "executor_step s (EvSubmit now alloc_fails task) = Some (snd (Submit now alloc_fails task s))"
| "executor_step s EvBeginDrain = Some (BeginDrain s)"
| "executor_step s (EvTakeJob w) = Some (take_job w s)"
| "executor_step s (EvDrainStripe w) = Some (DrainStripe w s)"
| "executor_step s (EvDrainKey w) = Some (DrainKey w s)"
| "executor_step s (EvExecuteBegin w now valid probe throws) = Some (ExecuteTask_begin w now valid probe throws s)"
| "executor_step s (EvExecuteEnd w out probe throws) = Some (ExecuteTask_end w out probe throws s)"
| "executor_step s (EvAfterExecute w) = after_execute w s"
| "executor_step s (EvAsyncWorkReturns w) = Some (async_work_returns w s)"
| "executor_step s (EvPostContinuation tid) = post_continuation tid s"
| "executor_step s (EvContinuationReturns w throws) = Some (continuation_returns w throws s)"
| "executor_step s (EvFinishAsync tid out probe throws) = Some (FinishAsync tid out probe throws s)"
| "executor_step s (EvFinishAsyncTail tid) = FinishAsync_tail tid s"
| "executor_step s (EvRunCompletion tid probe throws) = Some (run_completion tid probe throws s)"

text \<open>What the executor relies on. The validity probe of a task does not throw. A coroutine runner
  (\<open>BusinessCoroutine.h\<close>) has at most one continuation of its task queued, does not finish a task that has one, and
  lets no exception out of a continuation.\<close>

definition continuation_queued :: "nat \<Rightarrow> BusinessExecutor \<Rightarrow> bool" where
  "continuation_queued tid s \<longleftrightarrow> (\<exists>b t. (b, JobContinuation t) \<in> set (pool_queue s) \<and> task_id t = tid)"

fun event_ok :: "BusinessExecutor \<Rightarrow> Event \<Rightarrow> bool" where
  "event_ok s (EvExecuteBegin w now valid probe throws) \<longleftrightarrow> valid \<noteq> ProbeThrows"
| "event_ok s (EvPostContinuation tid) \<longleftrightarrow> \<not> continuation_queued tid s"
| "event_ok s (EvFinishAsync tid out probe throws) \<longleftrightarrow> \<not> continuation_queued tid s"
| "event_ok s (EvContinuationReturns w throws) \<longleftrightarrow> \<not> throws"
| "event_ok s _ \<longleftrightarrow> True"

end
