(* ===== verification/Executor_Invariants.thy ===== *)
theory Executor_Invariants
  imports Business_Executor
begin

text \<open>
  The invariant of the business executor and its properties. All of what the invariant counts is expressed as one
  weighted sum over the state, so that each event needs one accounting lemma; the invariant then says that the counters
  of the class are such sums, that every stripe and every key lane has exactly one drainer while it is in use, and that
  tasks of one ordering slot start in the order in which they were accepted.
\<close>

section \<open>Counting over the whole state\<close>

text \<open>Everything the invariants count (tasks, drain tokens, internal jobs, active workers) sits in one of six places:
  the pool's queue, the stripes, the workers, the started asynchronous tasks, those finishing, the dispatched completions. A weight
  says how much each inhabitant counts; \<open>acct\<close> adds up. One lemma per primitive change covers all weights.\<close>

record Weights =
  job_w :: "bool \<Rightarrow> Job \<Rightarrow> nat"
  stripe_w :: "nat \<Rightarrow> Stripe \<Rightarrow> nat"
  worker_w :: "bool \<Rightarrow> Activity \<Rightarrow> nat"
  async_w :: "nat \<Rightarrow> TaskState \<Rightarrow> nat"
  finishing_w :: "nat \<Rightarrow> TaskState \<Rightarrow> nat"
  dispatched_w :: "nat \<Rightarrow> TaskState \<times> bool \<Rightarrow> nat"

definition pool_sum :: "Weights \<Rightarrow> (bool \<times> Job) list \<Rightarrow> nat" where
  "pool_sum W q = sum_list (map (\<lambda>(b, j). job_w W b j) q)"

definition stripe_sum :: "Weights \<Rightarrow> Stripe list \<Rightarrow> nat" where
  "stripe_sum W sts = (\<Sum>i<length sts. stripe_w W i (sts ! i))"

definition acct :: "Weights \<Rightarrow> BusinessExecutor \<Rightarrow> nat" where
  "acct W s = pool_sum W (pool_queue s) + stripe_sum W (stripes s) + msum (\<lambda>_ (b, a). worker_w W b a) (workers s)
     + msum (async_w W) (async_tasks s) + msum (finishing_w W) (finishing s) + msum (dispatched_w W) (dispatched s)"

lemma pool_sum_simps [simp]:
  "pool_sum W [] = 0" "pool_sum W ((b, j) # q) = job_w W b j + pool_sum W q"
  "pool_sum W (q @ q') = pool_sum W q + pool_sum W q'"
  by (simp_all add: pool_sum_def)

lemma stripe_sum_upd:
  assumes "i < length sts"
  shows "stripe_sum W (sts[i := st]) + stripe_w W i (sts ! i) = stripe_w W i st + stripe_sum W sts"
proof -
  let ?rest = "{..<length sts} - {i}"
  have "stripe_sum W sts = stripe_w W i (sts ! i) + (\<Sum>j\<in>?rest. stripe_w W j (sts ! j))"
    unfolding stripe_sum_def using assms by (intro sum.remove) auto
  moreover have "stripe_sum W (sts[i := st]) = stripe_w W i st + (\<Sum>j\<in>?rest. stripe_w W j (sts[i := st] ! j))"
    unfolding stripe_sum_def using assms by (subst sum.remove [of _ i]) auto
  moreover have "(\<Sum>j\<in>?rest. stripe_w W j (sts[i := st] ! j)) = (\<Sum>j\<in>?rest. stripe_w W j (sts ! j))"
    by (rule sum.cong) auto
  ultimately show ?thesis by simp
qed

definition places_finite :: "BusinessExecutor \<Rightarrow> bool" where
  "places_finite s \<longleftrightarrow> finite (dom (workers s)) \<and> finite (dom (async_tasks s)) \<and> finite (dom (finishing s))
     \<and> finite (dom (dispatched s))
     \<and> (\<forall>st\<in>set (stripes s). finite (dom (lanes st)))"

text \<open>Updates that only touch counters leave every account as it is.\<close>

lemma acct_same:
  assumes "pool_queue s' = pool_queue s" "stripes s' = stripes s" "workers s' = workers s"
    "async_tasks s' = async_tasks s" "finishing s' = finishing s" "dispatched s' = dispatched s"
  shows "acct W s' = acct W s"
  using assms by (simp add: acct_def)

lemma acct_count [simp]: "acct W (count f s) = acct W s"
  by (simp add: count_def acct_def)

lemma acct_release [simp]: "acct W (ReleasePending s) = acct W s"
  by (simp add: ReleasePending_def acct_def)

lemma acct_pool:
  "acct W (s\<lparr>pool_queue := q\<rparr>) + pool_sum W (pool_queue s) = pool_sum W q + acct W s"
  by (simp add: acct_def)

lemma acct_stripe:
  assumes "i < length (stripes s)"
  shows "acct W (upd_stripe i f s) + stripe_w W i (stripes s ! i) = stripe_w W i (f (stripes s ! i)) + acct W s"
  using stripe_sum_upd [OF assms, of W "f (stripes s ! i)"] by (simp add: acct_def upd_stripe_def)

lemma acct_set_worker:
  assumes "places_finite s" "workers s w = Some (b, a0)"
  shows "acct W (set_worker w a s) + worker_w W b a0 = worker_w W b a + acct W s"
  using assms msum_upd [of "workers s" "\<lambda>_ (b, a). worker_w W b a" w "Some (b, a)"]
  by (simp add: acct_def set_worker_def places_finite_def)

lemma acct_end_job:
  assumes "places_finite s" "workers s w = Some (b, a0)"
  shows "acct W (end_job w s) + worker_w W b a0 = acct W s"
  using assms msum_upd [of "workers s" "\<lambda>_ (b, a). worker_w W b a" w None]
  by (simp add: acct_def end_job_def places_finite_def)

lemma acct_new_worker:
  assumes "places_finite s" "workers s w = None"
  shows "acct W (s\<lparr>workers := (workers s)(w \<mapsto> (b, a))\<rparr>) = worker_w W b a + acct W s"
  using assms msum_upd [of "workers s" "\<lambda>_ (b, a). worker_w W b a" w "Some (b, a)"]
  by (simp add: acct_def places_finite_def)

lemma acct_async:
  assumes "places_finite s"
  shows "acct W (s\<lparr>async_tasks := (async_tasks s)(k := x)\<rparr>) + weight_at (async_w W) k (async_tasks s k)
     = weight_at (async_w W) k x + acct W s"
  using assms msum_upd [of "async_tasks s" "async_w W" k x] by (simp add: acct_def places_finite_def)

lemma acct_finishing:
  assumes "places_finite s"
  shows "acct W (s\<lparr>finishing := (finishing s)(k := x)\<rparr>) + weight_at (finishing_w W) k (finishing s k)
     = weight_at (finishing_w W) k x + acct W s"
  using assms msum_upd [of "finishing s" "finishing_w W" k x] by (simp add: acct_def places_finite_def)

lemma acct_dispatched:
  assumes "places_finite s"
  shows "acct W (s\<lparr>dispatched := (dispatched s)(k := x)\<rparr>) + weight_at (dispatched_w W) k (dispatched s k)
     = weight_at (dispatched_w W) k x + acct W s"
  using assms msum_upd [of "dispatched s" "dispatched_w W" k x] by (simp add: acct_def places_finite_def)

section \<open>Slots\<close>

text \<open>What is drained by one drainer at a time: a stripe, or a lane of a stripe.\<close>

datatype Slot = StripeSlot nat | KeySlot nat u64

fun job_slot :: "Job \<Rightarrow> Slot option" where
  "job_slot (JobDrainStripe i) = Some (StripeSlot i)"
| "job_slot (JobDrainKey i k) = Some (KeySlot i k)"
| "job_slot _ = None"

fun origin_slot :: "Origin \<Rightarrow> Slot option" where
  "origin_slot FromPool = None"
| "origin_slot (FromStripe i) = Some (StripeSlot i)"
| "origin_slot (FromKey i k) = Some (KeySlot i k)"

fun activity_slot :: "Activity \<Rightarrow> Slot option" where
  "activity_slot (AtDrainStripe i) = Some (StripeSlot i)"
| "activity_slot (AtDrainKey i k) = Some (KeySlot i k)"
| "activity_slot (Entering t origin) = origin_slot origin"
| "activity_slot (Working t origin) = origin_slot origin"
| "activity_slot (Returned origin) = origin_slot origin"
| "activity_slot _ = None"

definition async_slot :: "TaskState \<Rightarrow> Slot option" where
  "async_slot t = (case async_stripe t of None \<Rightarrow> None
     | Some i \<Rightarrow> Some (case async_key t of None \<Rightarrow> StripeSlot i | Some k \<Rightarrow> KeySlot i k))"

fun activity_task :: "Activity \<Rightarrow> TaskState option" where
  "activity_task (Entering t origin) = Some t"
| "activity_task (Working t origin) = Some t"
| "activity_task _ = None"

fun holds_slot :: "Activity \<Rightarrow> bool" where
  "holds_slot (Entering t origin) \<longleftrightarrow> True"
| "holds_slot (Working t origin) \<longleftrightarrow> True"
| "holds_slot (Returned origin) \<longleftrightarrow> True"
| "holds_slot _ \<longleftrightarrow> False"

fun slot_busy :: "BusinessExecutor \<Rightarrow> Slot \<Rightarrow> bool" where
  "slot_busy s (StripeSlot i) \<longleftrightarrow> i < length (stripes s) \<and> running (stripes s ! i)"
| "slot_busy s (KeySlot i k) \<longleftrightarrow> i < length (stripes s) \<and> lanes (stripes s ! i) k \<noteq> None"

fun slot_queue :: "BusinessExecutor \<Rightarrow> Slot \<Rightarrow> TaskState list" where
  "slot_queue s (StripeSlot i) = (if i < length (stripes s) then stripe_queue (stripes s ! i) else [])"
| "slot_queue s (KeySlot i k) =
     (if i < length (stripes s) then (case lanes (stripes s ! i) k of None \<Rightarrow> [] | Some q \<Rightarrow> q) else [])"

definition no_weight :: Weights where
  "no_weight = \<lparr>job_w = \<lambda>_ _. 0, stripe_w = \<lambda>_ _. 0, worker_w = \<lambda>_ _. 0, async_w = \<lambda>_ _. 0, finishing_w = \<lambda>_ _. 0, dispatched_w = \<lambda>_ _. 0\<rparr>"

definition one_if :: "bool \<Rightarrow> nat" where
  "one_if b = (if b then 1 else 0)"

lemma one_if_simps [simp]: "one_if True = 1" "one_if False = 0" "one_if b \<le> 1" "one_if b = 0 \<longleftrightarrow> \<not> b"
  by (auto simp: one_if_def)

text \<open>The weights of the invariant.\<close>

definition token_weight :: "Slot \<Rightarrow> Weights" where
  "token_weight x = no_weight\<lparr>job_w := \<lambda>_ j. one_if (job_slot j = Some x),
     worker_w := \<lambda>_ a. one_if (activity_slot a = Some x), async_w := \<lambda>_ t. one_if (async_slot t = Some x),
     finishing_w := \<lambda>_ t. one_if (async_slot t = Some x)\<rparr>"

definition ids_weight :: "(nat \<Rightarrow> nat) \<Rightarrow> TaskState list \<Rightarrow> nat" where
  "ids_weight f q = sum_list (map (\<lambda>t. f (task_id t)) q)"

definition live_weight :: "(nat \<Rightarrow> nat) \<Rightarrow> Weights" where
  "live_weight f = \<lparr>job_w = \<lambda>_ j. (case j of JobExecuteTask t \<Rightarrow> f (task_id t) | _ \<Rightarrow> 0),
     stripe_w = \<lambda>_ st. ids_weight f (stripe_queue st) + msum (\<lambda>_. ids_weight f) (lanes st),
     worker_w = \<lambda>_ a. (case activity_task a of None \<Rightarrow> 0 | Some t \<Rightarrow> f (task_id t)),
     async_w = \<lambda>k _. f k, finishing_w = \<lambda>_ _. 0, dispatched_w = \<lambda>k _. f k\<rparr>"

definition run_weight :: "(nat \<Rightarrow> nat) \<Rightarrow> Weights" where
  "run_weight f = live_weight f\<lparr>finishing_w := \<lambda>k _. f k, dispatched_w := \<lambda>_ _. 0\<rparr>"

definition lane_weight :: "nat \<Rightarrow> Weights" where
  "lane_weight i = no_weight\<lparr>stripe_w := \<lambda>j st. if j = i then msum (\<lambda>_. length) (lanes st) else 0,
     worker_w := \<lambda>_ a. one_if (holds_slot a \<and> (\<exists>k. activity_slot a = Some (KeySlot i k))),
     async_w := \<lambda>_ t. one_if (\<exists>k. async_slot t = Some (KeySlot i k)),
     finishing_w := \<lambda>_ t. one_if (\<exists>k. async_slot t = Some (KeySlot i k))\<rparr>"

definition internal_weight :: Weights where
  "internal_weight = no_weight\<lparr>job_w := \<lambda>b _. one_if b, worker_w := \<lambda>b _. one_if b\<rparr>"

definition active_weight :: Weights where
  "active_weight = no_weight\<lparr>worker_w := \<lambda>_ a. one_if (case a of Working t x \<Rightarrow> True | StartingAsync t \<Rightarrow> True
     | InContinuation t \<Rightarrow> True | _ \<Rightarrow> False)\<rparr>"

definition async_weight :: Weights where
  "async_weight = no_weight\<lparr>async_w := \<lambda>_ _. 1, finishing_w := \<lambda>_ _. 1\<rparr>"

definition dispatched_weight :: "(bool \<Rightarrow> nat) \<Rightarrow> Weights" where
  "dispatched_weight g = no_weight\<lparr>dispatched_w := \<lambda>_ (t, terminal). g terminal\<rparr>"

lemmas weights = token_weight_def run_weight_def live_weight_def lane_weight_def internal_weight_def active_weight_def
  async_weight_def dispatched_weight_def no_weight_def

definition inflight_weight :: "nat \<Rightarrow> Weights" where
  "inflight_weight i = no_weight\<lparr>
     worker_w := \<lambda>_ a. one_if (holds_slot a \<and> activity_slot a = Some (StripeSlot i)),
     async_w := \<lambda>_ t. one_if (async_slot t = Some (StripeSlot i)),
     finishing_w := \<lambda>_ t. one_if (async_slot t = Some (StripeSlot i))\<rparr>"

section \<open>Invariant\<close>

definition ord_slot :: "BusinessExecutorOptions \<Rightarrow> TaskState \<Rightarrow> Slot option" where
  "ord_slot o' t = (case ordering_key (request (spec t)) of None \<Rightarrow> None
     | Some k \<Rightarrow> let i = unat k mod stripe_count o' in
         Some (if isolate_ordering_keys o' then KeySlot i k else StripeSlot i))"

definition continuations :: "(bool \<times> Job) list \<Rightarrow> nat list" where
  "continuations q = concat (map (\<lambda>(b, j). case j of JobContinuation t \<Rightarrow> [task_id t] | _ \<Rightarrow> []) q)"

definition base_ok :: "BusinessExecutor \<Rightarrow> bool" where
  "base_ok s \<longleftrightarrow> options_valid (options s) \<and> length (stripes s) = stripe_count (options s) \<and> places_finite s
     \<and> \<not> pool_stopped s \<and> (\<forall>k t. async_tasks s k = Some t \<longrightarrow> task_id t = k)"

definition live_ok :: "BusinessExecutor \<Rightarrow> bool" where
  "live_ok s \<longleftrightarrow> current_pending_tasks s = acct (live_weight (\<lambda>_. 1)) s
     \<and> current_pending_tasks s \<le> max_pending_tasks (options s)
     \<and> (\<forall>n. acct (live_weight (\<lambda>k. one_if (k = n))) s \<le> one_if (n < next_task_id s)
          \<and> acct (run_weight (\<lambda>k. one_if (k = n))) s \<le> one_if (n < next_task_id s))"

definition token_ok :: "BusinessExecutor \<Rightarrow> bool" where
  "token_ok s \<longleftrightarrow> (\<forall>x. acct (token_weight x) s = one_if (slot_busy s x))
     \<and> (\<forall>i<length (stripes s). \<not> running (stripes s ! i) \<longrightarrow> stripe_queue (stripes s ! i) = [])"

definition lane_ok :: "BusinessExecutor \<Rightarrow> bool" where
  "lane_ok s \<longleftrightarrow> (\<forall>i<length (stripes s). isolated_pending (stripes s ! i) = acct (lane_weight i) s
     \<and> isolated_pending (stripes s ! i) \<le> per_stripe_queue_capacity (options s)
     \<and> length (stripe_queue (stripes s ! i)) + acct (inflight_weight i) s \<le> per_stripe_queue_capacity (options s))"

definition job_ok :: "BusinessExecutor \<Rightarrow> bool" where
  "job_ok s \<longleftrightarrow> (\<forall>b i k. (b, JobDrainKey i k) \<in> set (pool_queue s) \<longrightarrow> slot_queue s (KeySlot i k) \<noteq> [])
     \<and> distinct (continuations (pool_queue s)) \<and> set (continuations (pool_queue s)) \<subseteq> dom (async_tasks s)"

definition ended :: "Counters \<Rightarrow> nat" where
  "ended c = completed_total c + worker_exception_total c + deadline_expired_before_start_total c
     + cancelled_before_start_total c + completion_dropped_total c + completion_exception_total c"

definition counter_ok :: "BusinessExecutor \<Rightarrow> bool" where
  "counter_ok s \<longleftrightarrow> pending_internal_jobs s = acct internal_weight s
     \<and> current_active_tasks s = acct active_weight s
     \<and> pending_async_tasks s = acct async_weight s
     \<and> pending_completions s = acct (dispatched_weight (\<lambda>_. 1)) s
     \<and> accepted_total (counters s) + acct (dispatched_weight one_if) s = ended (counters s) + current_pending_tasks s"

definition fifo_ok :: "BusinessExecutor \<Rightarrow> bool" where
  "fifo_ok s \<longleftrightarrow> (\<forall>x. filter (\<lambda>t. ord_slot (options s) t = Some x) (accepted_log s)
     = filter (\<lambda>t. ord_slot (options s) t = Some x) (started_log s) @ slot_queue s x)"

definition executor_ok :: "BusinessExecutor \<Rightarrow> bool" where
  "executor_ok s \<longleftrightarrow> base_ok s \<and> live_ok s \<and> token_ok s \<and> lane_ok s \<and> job_ok s \<and> counter_ok s \<and> fifo_ok s"

lemmas exec_defs = count_def ReleasePending_def set_worker_def end_job_def upd_stripe_def hand_over_def job_throws_def

lemmas executor_weights = weights inflight_weight_def

lemma sum_zero_stripes: "stripe_sum W (replicate n new_stripe) = 0" if "\<And>i. stripe_w W i new_stripe = 0"
  using that by (simp add: stripe_sum_def)

lemma executor_ok_Start:
  assumes "Start o' = Some s"
  shows "executor_ok s"
proof -
  have v: "options_valid o'" using assms by (simp add: Start_def split: if_splits)
  have zero: "acct W s = 0" if "\<And>i. stripe_w W i new_stripe = 0" for W
    using assms that by (auto simp: Start_def acct_def sum_zero_stripes split: if_splits)
  have s: "options s = o'" "stripes s = replicate (stripe_count o') new_stripe" "pool_queue s = []" "\<not> pool_stopped s"
    "workers s = Map.empty" "async_tasks s = Map.empty" "finishing s = Map.empty" "dispatched s = Map.empty"
    "current_pending_tasks s = 0" "counters s = no_counters" "accepted_log s = []" "started_log s = []"
    "pending_internal_jobs s = 0" "current_active_tasks s = 0" "pending_async_tasks s = 0" "pending_completions s = 0"
    using assms by (auto simp: Start_def split: if_splits)
  have queue: "slot_queue s x = []" and busy: "\<not> slot_busy s x" for x
    by (cases x; simp add: s new_stripe_def)+
  show ?thesis
    unfolding executor_ok_def base_ok_def live_ok_def token_ok_def lane_ok_def job_ok_def counter_ok_def fifo_ok_def
    using v queue busy
    by (auto simp: s zero executor_weights new_stripe_def places_finite_def ids_weight_def continuations_def
        no_counters_def ended_def options_valid_def one_if_def)
qed

section \<open>Accounting of the events\<close>

lemma acct_take_job:
  assumes "places_finite s" "workers s w = None" "pool_queue s = (b, j) # js"
  shows "acct W (take_job w s) + job_w W b j =
    (case j of JobExecuteTask t \<Rightarrow> worker_w W b (Entering t FromPool)
      | JobDrainStripe i \<Rightarrow> worker_w W b (AtDrainStripe i)
      | JobDrainKey i key \<Rightarrow> worker_w W b (AtDrainKey i key)
      | JobContinuation t \<Rightarrow> if async_tasks s (task_id t) = None then 0 else worker_w W b (InContinuation t))
    + acct W s"
proof -
  have "msum (\<lambda>_ (b, a). worker_w W b a) ((workers s)(w \<mapsto> (b, a)))
      = worker_w W b a + msum (\<lambda>_ (b, a). worker_w W b a) (workers s)" for a
    using assms(1,2) msum_upd [of "workers s" "\<lambda>_ (b, a). worker_w W b a" w "Some (b, a)"]
    by (simp add: places_finite_def)
  moreover have "(workers s)(w := None) = workers s" using assms(2) by auto
  ultimately show ?thesis
    using assms by (cases j) (auto simp: take_job_def acct_def exec_defs Let_def)
qed

lemma acct_DrainStripe_empty:
  assumes "places_finite s" "workers s w = Some (b, AtDrainStripe i)" "i < length (stripes s)"
    "stripe_queue (stripes s ! i) = []"
  shows "acct W (DrainStripe w s) + worker_w W b (AtDrainStripe i) + stripe_w W i (stripes s ! i)
    = stripe_w W i ((stripes s ! i)\<lparr>running := False\<rparr>) + acct W s"
  using assms msum_upd [of "workers s" "\<lambda>_ (b, a). worker_w W b a" w None]
    stripe_sum_upd [OF assms(3), of W "(stripes s ! i)\<lparr>running := False\<rparr>"]
  by (simp add: DrainStripe_def acct_def exec_defs places_finite_def)

lemma acct_DrainStripe_task:
  assumes "places_finite s" "workers s w = Some (b, AtDrainStripe i)" "i < length (stripes s)"
    "stripe_queue (stripes s ! i) = t # q"
    "t' = (if has_async_work (spec t) then t\<lparr>async_stripe := Some i\<rparr> else t)"
  shows "acct W (DrainStripe w s) + worker_w W b (AtDrainStripe i) + stripe_w W i (stripes s ! i)
    = worker_w W b (Entering t' (FromStripe i)) + stripe_w W i ((stripes s ! i)\<lparr>stripe_queue := q\<rparr>) + acct W s"
  using assms msum_upd [of "workers s" "\<lambda>_ (b, a). worker_w W b a" w "Some (b, Entering t' (FromStripe i))"]
    stripe_sum_upd [OF assms(3), of W "(stripes s ! i)\<lparr>stripe_queue := q\<rparr>"]
  by (simp add: DrainStripe_def acct_def exec_defs places_finite_def Let_def)

lemma acct_DrainKey_task:
  assumes "places_finite s" "workers s w = Some (b, AtDrainKey i k)" "i < length (stripes s)"
    "lanes (stripes s ! i) k = Some (t # q)"
    "t' = (if has_async_work (spec t) then t\<lparr>async_stripe := Some i, async_key := Some k\<rparr> else t)"
  shows "acct W (DrainKey w s) + worker_w W b (AtDrainKey i k) + stripe_w W i (stripes s ! i)
    = worker_w W b (Entering t' (FromKey i k)) + stripe_w W i ((stripes s ! i)\<lparr>lanes := (lanes (stripes s ! i))(k \<mapsto> q)\<rparr>) + acct W s"
  using assms msum_upd [of "workers s" "\<lambda>_ (b, a). worker_w W b a" w "Some (b, Entering t' (FromKey i k))"]
    stripe_sum_upd [OF assms(3), of W "(stripes s ! i)\<lparr>lanes := (lanes (stripes s ! i))(k \<mapsto> q)\<rparr>"]
  by (simp add: DrainKey_def acct_def exec_defs places_finite_def Let_def)

lemma acct_DrainKey_empty:
  assumes "places_finite s" "workers s w = Some (b, AtDrainKey i k)" "i < length (stripes s)"
    "lanes (stripes s ! i) k = Some []"
  shows "acct W (DrainKey w s) + worker_w W b (AtDrainKey i k) + stripe_w W i (stripes s ! i)
    = stripe_w W i ((stripes s ! i)\<lparr>lanes := (lanes (stripes s ! i))(k := None)\<rparr>) + acct W s"
  using assms msum_upd [of "workers s" "\<lambda>_ (b, a). worker_w W b a" w None]
    stripe_sum_upd [OF assms(3), of W "(stripes s ! i)\<lparr>lanes := (lanes (stripes s ! i))(k := None)\<rparr>"]
  by (simp add: DrainKey_def acct_def exec_defs places_finite_def Let_def)

text \<open>A task is in one place only.\<close>

lemma live_once:
  assumes "live_ok s"
  shows "acct (live_weight (\<lambda>k. one_if (k = n))) s \<le> 1"
proof -
  have "acct (live_weight (\<lambda>k. one_if (k = n))) s \<le> one_if (n < next_task_id s)"
    using assms unfolding live_ok_def by blast
  also have "\<dots> \<le> 1" by (simp add: one_if_def)
  finally show ?thesis .
qed

lemma live_member_worker:
  assumes "places_finite s" "workers s w = Some (b, a)" "activity_task a = Some t"
  shows "f (task_id t) + msum (async_w (live_weight f)) (async_tasks s) + msum (dispatched_w (live_weight f)) (dispatched s)
    \<le> acct (live_weight f) s"
proof -
  have "(\<lambda>_ (b, a). worker_w (live_weight f) b a) w (b, a) \<le> msum (\<lambda>_ (b, a). worker_w (live_weight f) b a) (workers s)"
    using assms(1,2) by (intro msum_member_le) (simp_all add: places_finite_def)
  with assms(3) show ?thesis by (simp add: acct_def live_weight_def)
qed

lemma worker_task_elsewhere:
  assumes ok: "live_ok s" and fin: "places_finite s" and w: "workers s w = Some (b, a)" "activity_task a = Some t"
  shows "async_tasks s (task_id t) = None" and "dispatched s (task_id t) = None" and "0 < current_pending_tasks s"
proof -
  let ?f = "\<lambda>k. one_if (k = task_id t)"
  have le: "acct (live_weight ?f) s \<le> 1" using ok by (rule live_once)
  have sum: "1 + msum (async_w (live_weight ?f)) (async_tasks s) + msum (dispatched_w (live_weight ?f)) (dispatched s) \<le> 1"
    using live_member_worker [OF fin w, of ?f] le by simp
  show "async_tasks s (task_id t) = None"
  proof (rule ccontr)
    assume "async_tasks s (task_id t) \<noteq> None"
    then obtain t' where "async_tasks s (task_id t) = Some t'" by blast
    then have "async_w (live_weight ?f) (task_id t) t' \<le> msum (async_w (live_weight ?f)) (async_tasks s)"
      using fin by (intro msum_member_le) (simp_all add: places_finite_def)
    with sum show False by (simp add: live_weight_def)
  qed
  show "dispatched s (task_id t) = None"
  proof (rule ccontr)
    assume "dispatched s (task_id t) \<noteq> None"
    then obtain p where "dispatched s (task_id t) = Some p" by blast
    then have "dispatched_w (live_weight ?f) (task_id t) p \<le> msum (dispatched_w (live_weight ?f)) (dispatched s)"
      using fin by (intro msum_member_le) (simp_all add: places_finite_def)
    with sum show False by (simp add: live_weight_def)
  qed
  show "0 < current_pending_tasks s"
    using ok live_member_worker [OF fin w, of "\<lambda>_. 1"] by (simp add: live_ok_def)
qed

lemma async_task_elsewhere:
  assumes ok: "live_ok s" and fin: "places_finite s" and t: "async_tasks s k = Some t"
  shows "dispatched s k = None" and "0 < current_pending_tasks s"
proof -
  let ?f = "\<lambda>j. one_if (j = k)"
  have le: "acct (live_weight ?f) s \<le> 1" using ok by (rule live_once)
  have at: "async_w (live_weight f) k t \<le> msum (async_w (live_weight f)) (async_tasks s)" for f
    using fin t by (intro msum_member_le) (simp_all add: places_finite_def)
  show "dispatched s k = None"
  proof (rule ccontr)
    assume "dispatched s k \<noteq> None"
    then obtain p where "dispatched s k = Some p" by blast
    then have "dispatched_w (live_weight ?f) k p \<le> msum (dispatched_w (live_weight ?f)) (dispatched s)"
      using fin by (intro msum_member_le) (simp_all add: places_finite_def)
    with le at [of ?f] show False by (simp add: acct_def) (simp add: live_weight_def)
  qed
  show "0 < current_pending_tasks s"
    using ok at [of "\<lambda>_. 1"] by (simp add: live_ok_def acct_def) (simp add: live_weight_def)
qed

lemma async_not_finishing:
  assumes ok: "live_ok s" and fin: "places_finite s" and t: "async_tasks s k = Some t"
  shows "finishing s k = None"
proof (rule ccontr)
  let ?f = "\<lambda>j. one_if (j = k)"
  assume "finishing s k \<noteq> None"
  then obtain t' where t': "finishing s k = Some t'" by blast
  have "finishing_w (run_weight ?f) k t' \<le> msum (finishing_w (run_weight ?f)) (finishing s)"
    "async_w (run_weight ?f) k t \<le> msum (async_w (run_weight ?f)) (async_tasks s)"
    using fin t t' by (intro msum_member_le; simp add: places_finite_def)+
  then have "2 \<le> acct (run_weight ?f) s"
    by (simp add: acct_def) (simp add: run_weight_def live_weight_def)
  moreover have "acct (run_weight ?f) s \<le> one_if (k < next_task_id s)" using ok unfolding live_ok_def by blast
  ultimately show False by (simp add: one_if_def split: if_splits)
qed

lemma dispatched_counted:
  assumes ok: "live_ok s" and fin: "places_finite s" and t: "dispatched s k = Some p"
  shows "0 < current_pending_tasks s"
proof -
  have "dispatched_w (live_weight (\<lambda>_. 1)) k p \<le> msum (dispatched_w (live_weight (\<lambda>_. 1))) (dispatched s)"
    using fin t by (intro msum_member_le) (simp_all add: places_finite_def)
  then show ?thesis using ok by (simp add: live_ok_def acct_def) (simp add: live_weight_def)
qed

lemma slots_same:
  assumes "stripes s' = stripes s"
  shows "slot_busy s' x = slot_busy s x" "slot_queue s' x = slot_queue s x"
  using assms by (cases x; simp)+

lemma frame_slots:
  assumes "token_ok s" "lane_ok s" "fifo_ok s" and st: "stripes s' = stripes s" "options s' = options s"
    "accepted_log s' = accepted_log s" "started_log s' = started_log s"
    and "\<And>x. acct (token_weight x) s' = acct (token_weight x) s" "\<And>i. acct (lane_weight i) s' = acct (lane_weight i) s"
    "\<And>i. acct (inflight_weight i) s' = acct (inflight_weight i) s"
  shows "token_ok s' \<and> lane_ok s' \<and> fifo_ok s'"
proof (intro conjI)
  show "token_ok s'" using assms(1,8) st(1) slots_same [OF st(1)] by (simp add: token_ok_def)
  show "lane_ok s'" using assms(2) unfolding lane_ok_def assms(9) assms(10) st(1) st(2) .
  show "fifo_ok s'" using assms(3) st slots_same [OF st(1)] unfolding fifo_ok_def by simp
qed

lemma frame_job:
  assumes "job_ok s" and st: "stripes s' = stripes s" and "pool_queue s' = pool_queue s" "dom (async_tasks s) \<subseteq> dom (async_tasks s')"
  shows "job_ok s'"
  using assms(1,3,4) unfolding job_ok_def slots_same(2) [OF st] by (metis order_trans)


section \<open>The end of a task\<close>

definition handed :: "WorkOutcome \<Rightarrow> ProbeOutcome \<Rightarrow> bool \<Rightarrow> TaskState \<Rightarrow> bool" where
  "handed out probe throws t \<longleftrightarrow> out = WorkWithCompletion \<and> has_dispatcher (spec t) \<and> CompletionStillValid probe t \<and> \<not> throws"

lemma conclude_eq:
  "conclude out probe throws t s =
    (if handed out probe throws t then hand_over False t s
     else ReleasePending (count (case out of WorkThrows \<Rightarrow> worker_exception_total_update Suc
       | WorkWithoutCompletion \<Rightarrow> completed_total_update Suc | WorkWithCompletion \<Rightarrow> completion_dropped_total_update Suc) s))"
  by (auto simp: conclude_def handed_def DispatchCompletion_def split: WorkOutcome.split)

lemma acct_hand_over:
  assumes "places_finite s" "dispatched s (task_id t) = None"
  shows "acct W (hand_over terminal t s) = dispatched_w W (task_id t) (t, terminal) + acct W s"
  using assms msum_upd [of "dispatched s" "dispatched_w W" "task_id t" "Some (t, terminal)"]
  by (simp add: acct_def hand_over_def places_finite_def)

lemma acct_conclude:
  assumes "places_finite s" "dispatched s (task_id t) = None"
  shows "acct W (conclude out probe throws t s) =
    one_if (handed out probe throws t) * dispatched_w W (task_id t) (t, False) + acct W s"
  using acct_hand_over [OF assms] by (simp add: conclude_eq one_if_def)

lemma conclude_fields [simp]:
  "options (conclude out probe throws t s) = options s"
  "pool_stopped (conclude out probe throws t s) = pool_stopped s"
  "pool_queue (conclude out probe throws t s) = pool_queue s"
  "stripes (conclude out probe throws t s) = stripes s"
  "workers (conclude out probe throws t s) = workers s"
  "async_tasks (conclude out probe throws t s) = async_tasks s"
  "finishing (conclude out probe throws t s) = finishing s"
  "next_task_id (conclude out probe throws t s) = next_task_id s"
  "current_active_tasks (conclude out probe throws t s) = current_active_tasks s"
  "pending_async_tasks (conclude out probe throws t s) = pending_async_tasks s"
  "pending_internal_jobs (conclude out probe throws t s) = pending_internal_jobs s"
  "accepted_log (conclude out probe throws t s) = accepted_log s"
  "started_log (conclude out probe throws t s) = started_log s"
  "accepted_total (counters (conclude out probe throws t s)) = accepted_total (counters s)"
  "current_pending_tasks (conclude out probe throws t s) = current_pending_tasks s - one_if (\<not> handed out probe throws t)"
  "pending_completions (conclude out probe throws t s) = pending_completions s + one_if (handed out probe throws t)"
  "ended (counters (conclude out probe throws t s)) = ended (counters s) + one_if (\<not> handed out probe throws t)"
  by (auto simp: conclude_eq exec_defs ended_def one_if_def split: WorkOutcome.split)

lemma conclude_finite: "places_finite s \<Longrightarrow> places_finite (conclude out probe throws t s)"
  by (auto simp: conclude_eq exec_defs places_finite_def)

text \<open>What a worker's event does to the accounts.\<close>

lemma finite_set_worker [simp]: "places_finite s \<Longrightarrow> places_finite (set_worker w a s)"
  "places_finite s \<Longrightarrow> places_finite (end_job w s)"
  by (auto simp: places_finite_def exec_defs split: option.split)

lemma worker_fields [simp]:
  "options (set_worker w a s) = options s" "pool_stopped (set_worker w a s) = pool_stopped s"
  "pool_queue (set_worker w a s) = pool_queue s" "stripes (set_worker w a s) = stripes s"
  "async_tasks (set_worker w a s) = async_tasks s" "finishing (set_worker w a s) = finishing s"
  "dispatched (set_worker w a s) = dispatched s" "next_task_id (set_worker w a s) = next_task_id s"
  "current_active_tasks (set_worker w a s) = current_active_tasks s"
  "pending_async_tasks (set_worker w a s) = pending_async_tasks s"
  "pending_internal_jobs (set_worker w a s) = pending_internal_jobs s"
  "pending_completions (set_worker w a s) = pending_completions s"
  "accepted_log (set_worker w a s) = accepted_log s" "started_log (set_worker w a s) = started_log s"
  "counters (set_worker w a s) = counters s" "current_pending_tasks (set_worker w a s) = current_pending_tasks s"
  "options (end_job w s) = options s" "pool_stopped (end_job w s) = pool_stopped s"
  "pool_queue (end_job w s) = pool_queue s" "stripes (end_job w s) = stripes s"
  "async_tasks (end_job w s) = async_tasks s" "finishing (end_job w s) = finishing s"
  "dispatched (end_job w s) = dispatched s" "next_task_id (end_job w s) = next_task_id s"
  "current_active_tasks (end_job w s) = current_active_tasks s"
  "pending_async_tasks (end_job w s) = pending_async_tasks s"
  "pending_completions (end_job w s) = pending_completions s"
  "accepted_log (end_job w s) = accepted_log s" "started_log (end_job w s) = started_log s"
  "counters (end_job w s) = counters s" "current_pending_tasks (end_job w s) = current_pending_tasks s"
  by (auto simp: exec_defs split: option.split)

lemma acct_ExecuteTask_end:
  assumes fin: "places_finite s" and w: "workers s w = Some (b, Working t origin)" and d: "dispatched s (task_id t) = None"
  shows "acct W (ExecuteTask_end w out probe throws s) + worker_w W b (Working t origin)
    = worker_w W b (Returned origin) + one_if (handed out probe throws t) * dispatched_w W (task_id t) (t, False) + acct W s"
proof -
  let ?s = "s\<lparr>current_active_tasks := current_active_tasks s - 1\<rparr>"
  have fin': "places_finite ?s" and d': "dispatched ?s (task_id t) = None" using fin d by (simp_all add: places_finite_def)
  have "acct W ?s = acct W s" by (rule acct_same) simp_all
  moreover have "workers (conclude out probe throws t ?s) w = Some (b, Working t origin)" using w by simp
  note acct_set_worker [OF conclude_finite [OF fin'] this, of W "Returned origin"]
  ultimately show ?thesis
    using w acct_conclude [OF fin' d', of W out probe throws] by (simp add: ExecuteTask_end_def)
qed

section \<open>The events keep the invariant\<close>

lemma okD:
  assumes "executor_ok s"
  shows "base_ok s" "live_ok s" "token_ok s" "lane_ok s" "job_ok s" "counter_ok s" "fifo_ok s" "places_finite s"
  using assms by (simp_all add: executor_ok_def base_ok_def)

lemma weight_sel [simp]:
  "job_w (token_weight x) b j = one_if (job_slot j = Some x)"
  "stripe_w (token_weight x) n st = 0"
  "worker_w (token_weight x) b a = one_if (activity_slot a = Some x)"
  "async_w (token_weight x) k t = one_if (async_slot t = Some x)"
  "finishing_w (token_weight x) k t = one_if (async_slot t = Some x)"
  "dispatched_w (token_weight x) k p = 0"
  "job_w (live_weight f) b j = (case j of JobExecuteTask t \<Rightarrow> f (task_id t) | _ \<Rightarrow> 0)"
  "stripe_w (live_weight f) n st = ids_weight f (stripe_queue st) + msum (\<lambda>_. ids_weight f) (lanes st)"
  "worker_w (live_weight f) b a = (case activity_task a of None \<Rightarrow> 0 | Some t \<Rightarrow> f (task_id t))"
  "async_w (live_weight f) k t = f k"
  "finishing_w (live_weight f) k t = 0"
  "dispatched_w (live_weight f) k p = f k"
  "job_w (run_weight f) b j = (case j of JobExecuteTask t \<Rightarrow> f (task_id t) | _ \<Rightarrow> 0)"
  "stripe_w (run_weight f) n st = ids_weight f (stripe_queue st) + msum (\<lambda>_. ids_weight f) (lanes st)"
  "worker_w (run_weight f) b a = (case activity_task a of None \<Rightarrow> 0 | Some t \<Rightarrow> f (task_id t))"
  "async_w (run_weight f) k t = f k"
  "finishing_w (run_weight f) k t = f k"
  "dispatched_w (run_weight f) k p = 0"
  "job_w (lane_weight i) b j = 0"
  "stripe_w (lane_weight i) n st = (if n = i then msum (\<lambda>_. length) (lanes st) else 0)"
  "worker_w (lane_weight i) b a = one_if (holds_slot a \<and> (\<exists>k. activity_slot a = Some (KeySlot i k)))"
  "async_w (lane_weight i) k t = one_if (\<exists>k. async_slot t = Some (KeySlot i k))"
  "finishing_w (lane_weight i) k t = one_if (\<exists>k. async_slot t = Some (KeySlot i k))"
  "dispatched_w (lane_weight i) k p = 0"
  "job_w (inflight_weight i) b j = 0"
  "stripe_w (inflight_weight i) n st = 0"
  "worker_w (inflight_weight i) b a = one_if (holds_slot a \<and> activity_slot a = Some (StripeSlot i))"
  "async_w (inflight_weight i) k t = one_if (async_slot t = Some (StripeSlot i))"
  "finishing_w (inflight_weight i) k t = one_if (async_slot t = Some (StripeSlot i))"
  "dispatched_w (inflight_weight i) k p = 0"
  "job_w internal_weight b j = one_if b"
  "stripe_w internal_weight n st = 0"
  "worker_w internal_weight b a = one_if b"
  "async_w internal_weight k t = 0"
  "finishing_w internal_weight k t = 0"
  "dispatched_w internal_weight k p = 0"
  "job_w active_weight b j = 0"
  "stripe_w active_weight n st = 0"
  "worker_w active_weight b a = one_if (case a of Working t x \<Rightarrow> True | StartingAsync t \<Rightarrow> True | InContinuation t \<Rightarrow> True | _ \<Rightarrow> False)"
  "async_w active_weight k t = 0"
  "finishing_w active_weight k t = 0"
  "dispatched_w active_weight k p = 0"
  "job_w async_weight b j = 0"
  "stripe_w async_weight n st = 0"
  "worker_w async_weight b a = 0"
  "async_w async_weight k t = 1"
  "finishing_w async_weight k t = 1"
  "dispatched_w async_weight k p = 0"
  "job_w (dispatched_weight g) b j = 0"
  "stripe_w (dispatched_weight g) n st = 0"
  "worker_w (dispatched_weight g) b a = 0"
  "async_w (dispatched_weight g) k t = 0"
  "finishing_w (dispatched_weight g) k t = 0"
  "dispatched_w (dispatched_weight g) k p = g (snd p)"
  by (simp_all add: executor_weights split: prod.split)

lemma places_finite_fields [simp]:
  "places_finite (s\<lparr>current_active_tasks := n\<rparr>) = places_finite s"
  "places_finite (s\<lparr>peak_active_tasks := n\<rparr>) = places_finite s"
  "places_finite (s\<lparr>pending_async_tasks := n\<rparr>) = places_finite s"
  "places_finite (s\<lparr>pool_queue := q\<rparr>) = places_finite s"
  "places_finite (s\<lparr>started_log := l\<rparr>) = places_finite s"
  "places_finite (s\<lparr>accepted_log := l\<rparr>) = places_finite s"
  "places_finite (count g s) = places_finite s"
  "places_finite (ReleasePending s) = places_finite s"
  by (simp_all add: places_finite_def exec_defs)

lemma acct_fields [simp]:
  "acct W (s\<lparr>current_active_tasks := n\<rparr>) = acct W s"
  "acct W (s\<lparr>peak_active_tasks := n\<rparr>) = acct W s"
  "acct W (s\<lparr>pending_async_tasks := n\<rparr>) = acct W s"
  "acct W (s\<lparr>pending_internal_jobs := n\<rparr>) = acct W s"
  "acct W (s\<lparr>started_log := l\<rparr>) = acct W s"
  "acct W (s\<lparr>accepted_log := l\<rparr>) = acct W s"
  by (simp_all add: acct_def)

lemma one_if_not: "one_if (\<not> b) = 1 - one_if b"
  by (simp add: one_if_def)

lemma live_okI:
  assumes "live_ok s" and "options s' = options s" "next_task_id s' = next_task_id s"
    and "\<And>f. acct (live_weight f) s' + f k = g * f k + acct (live_weight f) s"
    and "current_pending_tasks s' + 1 = g + current_pending_tasks s" and "g \<le> 1"
    and "\<And>f. acct (run_weight f) s' \<le> acct (run_weight f) s"
  shows "live_ok s'"
proof -
  have "acct (live_weight f) s' \<le> acct (live_weight f) s" for f
    using assms(4) [of f] assms(6) by (cases g) auto
  then show ?thesis
    using assms(1-3,5,6) assms(4) [of "\<lambda>_. 1"] assms(7) unfolding live_ok_def by (auto intro: order_trans)
qed

lemma live_same:
  assumes "live_ok s" and "options s' = options s" "next_task_id s' = next_task_id s"
    "current_pending_tasks s' = current_pending_tasks s" and "\<And>f. acct (live_weight f) s' = acct (live_weight f) s"
    and "\<And>f. acct (run_weight f) s' = acct (run_weight f) s"
  shows "live_ok s'"
  using assms by (simp add: live_ok_def)

lemma ExecuteTask_end_ok:
  assumes ok: "executor_ok s"
  shows "executor_ok (ExecuteTask_end w out probe throws s)"
proof (cases "\<exists>b t origin. workers s w = Some (b, Working t origin)")
  case False
  then have "ExecuteTask_end w out probe throws s = s"
    by (auto simp: ExecuteTask_end_def split: option.split prod.split Activity.split)
  with ok show ?thesis by simp
next
  case True
  then obtain b t origin where w: "workers s w = Some (b, Working t origin)" by blast
  let ?s = "ExecuteTask_end w out probe throws s"
  note p = okD [OF ok]
  have d: "dispatched s (task_id t) = None" and pos: "0 < current_pending_tasks s"
    using worker_task_elsewhere [OF p(2,8) w] by simp_all
  note a = acct_ExecuteTask_end [OF p(8) w d, of _ out probe throws]
  let ?c = "conclude out probe throws t (s\<lparr>current_active_tasks := current_active_tasks s - 1\<rparr>)"
  have s': "?s = set_worker w (Returned origin) ?c" using w by (simp add: ExecuteTask_end_def)
  have "base_ok ?s"
    using p(1,8) by (simp add: base_ok_def s' conclude_finite)
  moreover have "live_ok ?s"
  proof (rule live_okI [OF p(2), where k = "task_id t" and g = "one_if (handed out probe throws t)"])
    show "acct (live_weight f) ?s + f (task_id t) = one_if (handed out probe throws t) * f (task_id t) + acct (live_weight f) s" for f
      using a [of "live_weight f"] by (simp add: one_if_def)
    show "acct (run_weight f) ?s \<le> acct (run_weight f) s" for f using a [of "run_weight f"] by simp
  qed (use pos in \<open>auto simp: s' one_if_def\<close>)
  moreover have "token_ok ?s \<and> lane_ok ?s \<and> fifo_ok ?s"
  proof (rule frame_slots [OF p(3,4,7)])
    show "acct (token_weight x) ?s = acct (token_weight x) s" for x
      using a [of "token_weight x"] by simp
    show "acct (lane_weight i) ?s = acct (lane_weight i) s" for i
      using a [of "lane_weight i"] by simp
    show "acct (inflight_weight i) ?s = acct (inflight_weight i) s" for i
      using a [of "inflight_weight i"] by simp
  qed (simp_all add: s')
  moreover have "job_ok ?s" by (rule frame_job [OF p(5)]) (simp_all add: s')
  moreover have "counter_ok ?s"
    using p(6) pos a [of internal_weight] a [of active_weight] a [of async_weight] a [of "dispatched_weight (\<lambda>_. 1)"]
      a [of "dispatched_weight one_if"]
    unfolding counter_ok_def by (auto simp: s' one_if_not one_if_def [of "handed _ _ _ _"])
  ultimately show ?thesis by (simp add: executor_ok_def)
qed


text \<open>The first part of \<open>ExecuteTask\<close>.\<close>

definition handed_terminal :: "ProbeOutcome \<Rightarrow> bool \<Rightarrow> TaskState \<Rightarrow> bool" where
  "handed_terminal probe throws t \<longleftrightarrow> has_deadline_completion (spec t) \<and> has_dispatcher (spec t)
     \<and> CompletionStillValid probe t \<and> \<not> throws"

lemma DispatchDeadlineTerminal_eq:
  "DispatchDeadlineTerminal probe throws t s =
    (if handed_terminal probe throws t then hand_over True t s
     else if has_deadline_completion (spec t) then ReleasePending (count (deadline_terminal_dropped_total_update Suc) s)
     else ReleasePending s)"
  by (auto simp: DispatchDeadlineTerminal_def handed_terminal_def)

lemma acct_DispatchDeadlineTerminal:
  assumes "places_finite s" "dispatched s (task_id t) = None"
  shows "acct W (DispatchDeadlineTerminal probe throws t s) =
    one_if (handed_terminal probe throws t) * dispatched_w W (task_id t) (t, True) + acct W s"
  using acct_hand_over [OF assms] by (simp add: DispatchDeadlineTerminal_eq one_if_def)

lemma DispatchDeadlineTerminal_fields [simp]:
  "options (DispatchDeadlineTerminal probe throws t s) = options s"
  "pool_stopped (DispatchDeadlineTerminal probe throws t s) = pool_stopped s"
  "pool_queue (DispatchDeadlineTerminal probe throws t s) = pool_queue s"
  "stripes (DispatchDeadlineTerminal probe throws t s) = stripes s"
  "workers (DispatchDeadlineTerminal probe throws t s) = workers s"
  "async_tasks (DispatchDeadlineTerminal probe throws t s) = async_tasks s"
  "next_task_id (DispatchDeadlineTerminal probe throws t s) = next_task_id s"
  "current_active_tasks (DispatchDeadlineTerminal probe throws t s) = current_active_tasks s"
  "pending_async_tasks (DispatchDeadlineTerminal probe throws t s) = pending_async_tasks s"
  "pending_internal_jobs (DispatchDeadlineTerminal probe throws t s) = pending_internal_jobs s"
  "accepted_log (DispatchDeadlineTerminal probe throws t s) = accepted_log s"
  "started_log (DispatchDeadlineTerminal probe throws t s) = started_log s"
  "accepted_total (counters (DispatchDeadlineTerminal probe throws t s)) = accepted_total (counters s)"
  "current_pending_tasks (DispatchDeadlineTerminal probe throws t s)
     = current_pending_tasks s - one_if (\<not> handed_terminal probe throws t)"
  "pending_completions (DispatchDeadlineTerminal probe throws t s)
     = pending_completions s + one_if (handed_terminal probe throws t)"
  "ended (counters (DispatchDeadlineTerminal probe throws t s)) = ended (counters s)"
  by (auto simp: DispatchDeadlineTerminal_eq exec_defs ended_def one_if_def)

lemma DispatchDeadlineTerminal_finite: "places_finite s \<Longrightarrow> places_finite (DispatchDeadlineTerminal probe throws t s)"
  by (auto simp: DispatchDeadlineTerminal_eq exec_defs places_finite_def)

lemma count_fields [simp]:
  "options (count g s) = options s" "pool_stopped (count g s) = pool_stopped s"
  "pool_queue (count g s) = pool_queue s" "stripes (count g s) = stripes s" "workers (count g s) = workers s"
  "async_tasks (count g s) = async_tasks s" "finishing (count g s) = finishing s"
  "dispatched (count g s) = dispatched s" "next_task_id (count g s) = next_task_id s"
  "current_active_tasks (count g s) = current_active_tasks s"
  "pending_async_tasks (count g s) = pending_async_tasks s"
  "pending_internal_jobs (count g s) = pending_internal_jobs s"
  "pending_completions (count g s) = pending_completions s"
  "accepted_log (count g s) = accepted_log s" "started_log (count g s) = started_log s"
  "counters (count g s) = g (counters s)" "current_pending_tasks (count g s) = current_pending_tasks s"
  by (simp_all add: count_def)

lemma release_fields [simp]:
  "options (ReleasePending s) = options s" "pool_stopped (ReleasePending s) = pool_stopped s"
  "pool_queue (ReleasePending s) = pool_queue s" "stripes (ReleasePending s) = stripes s"
  "workers (ReleasePending s) = workers s"
  "async_tasks (ReleasePending s) = async_tasks s" "finishing (ReleasePending s) = finishing s"
  "dispatched (ReleasePending s) = dispatched s" "next_task_id (ReleasePending s) = next_task_id s"
  "current_active_tasks (ReleasePending s) = current_active_tasks s"
  "pending_async_tasks (ReleasePending s) = pending_async_tasks s"
  "pending_internal_jobs (ReleasePending s) = pending_internal_jobs s"
  "pending_completions (ReleasePending s) = pending_completions s"
  "accepted_log (ReleasePending s) = accepted_log s" "started_log (ReleasePending s) = started_log s"
  "counters (ReleasePending s) = counters s" "current_pending_tasks (ReleasePending s) = current_pending_tasks s - 1"
  by (simp_all add: ReleasePending_def)

text \<open>A worker that had a task gives it up: the common part of the early returns of \<open>ExecuteTask\<close>. The state \<open>u\<close> is the
  state after the task was released or handed over, with the worker not yet moved on.\<close>

lemma give_up_ok:
  assumes ok: "executor_ok s" and w: "workers s w = Some (b, Entering t origin)"
    and same: "options u = options s" "pool_stopped u = pool_stopped s" "pool_queue u = pool_queue s" "stripes u = stripes s"
      "workers u = workers s" "async_tasks u = async_tasks s" "next_task_id u = next_task_id s" "accepted_log u = accepted_log s"
      "started_log u = started_log s" "current_active_tasks u = current_active_tasks s"
      "pending_async_tasks u = pending_async_tasks s" "pending_internal_jobs u = pending_internal_jobs s"
      "accepted_total (counters u) = accepted_total (counters s)" and fin: "places_finite u"
    and eff: "\<And>W. acct W u = g * dispatched_w W (task_id t) (t, True) + acct W s"
      "current_pending_tasks u + 1 = g + current_pending_tasks s" "pending_completions u = g + pending_completions s"
      "ended (counters u) = ended (counters s) + 1" and g: "g \<le> 1"
  shows "executor_ok (set_worker w (Returned origin) u)" (is "executor_ok ?s")
proof -
  note p = okD [OF ok]
  have a: "acct W ?s + worker_w W b (Entering t origin)
      = worker_w W b (Returned origin) + g * dispatched_w W (task_id t) (t, True) + acct W s" for W
    using acct_set_worker [OF fin, of w b "Entering t origin" W "Returned origin"] w same(5) eff(1) [of W] by simp
  have "base_ok ?s" using p(1) fin by (simp add: base_ok_def same)
  moreover have "live_ok ?s"
  proof (rule live_okI [OF p(2) _ _ _ _ g, where k = "task_id t"])
    show "acct (live_weight f) ?s + f (task_id t) = g * f (task_id t) + acct (live_weight f) s" for f
      using a [of "live_weight f"] by simp
    show "acct (run_weight f) ?s \<le> acct (run_weight f) s" for f using a [of "run_weight f"] by simp
  qed (use same eff in simp_all)
  moreover have "token_ok ?s \<and> lane_ok ?s \<and> fifo_ok ?s"
  proof (rule frame_slots [OF p(3,4,7)])
    show "acct (token_weight x) ?s = acct (token_weight x) s" for x
      using a [of "token_weight x"] by simp
    show "acct (lane_weight i) ?s = acct (lane_weight i) s" for i
      using a [of "lane_weight i"] by simp
    show "acct (inflight_weight i) ?s = acct (inflight_weight i) s" for i
      using a [of "inflight_weight i"] by simp
  qed (simp_all add: same)
  moreover have "job_ok ?s" by (rule frame_job [OF p(5)]) (simp_all add: same)
  moreover have "counter_ok ?s"
    using p(6) a [of internal_weight] a [of active_weight] a [of async_weight] a [of "dispatched_weight (\<lambda>_. 1)"]
      a [of "dispatched_weight one_if"] eff(2-4) same(10-13)
    unfolding counter_ok_def by simp
  ultimately show ?thesis by (simp add: executor_ok_def)
qed

lemma ended_upd [simp]:
  "ended (completed_total_update Suc c) = Suc (ended c)"
  "ended (worker_exception_total_update Suc c) = Suc (ended c)"
  "ended (deadline_expired_before_start_total_update Suc c) = Suc (ended c)"
  "ended (cancelled_before_start_total_update Suc c) = Suc (ended c)"
  "ended (completion_dropped_total_update Suc c) = Suc (ended c)"
  "ended (completion_exception_total_update Suc c) = Suc (ended c)"
  "ended (submitted_total_update Suc c) = ended c"
  "ended (rejected_overload_total_update Suc c) = ended c"
  "ended (rejected_pending_budget_total_update Suc c) = ended c"
  "ended (rejected_pool_submission_total_update Suc c) = ended c"
  "ended (rejected_key_allocation_total_update Suc c) = ended c"
  "ended (rejected_hot_key_total_update Suc c) = ended c"
  "ended (rejected_deadline_total_update Suc c) = ended c"
  "ended (rejected_shutdown_total_update Suc c) = ended c"
  "ended (rejected_invalid_total_update Suc c) = ended c"
  "ended (deadline_terminal_callback_total_update Suc c) = ended c"
  "ended (deadline_terminal_dropped_total_update Suc c) = ended c"
  "ended (deadline_terminal_exception_total_update Suc c) = ended c"
  "ended (async_started_total_update Suc c) = ended c"
  "ended (async_finished_total_update Suc c) = ended c"
  "ended (continuation_run_total_update Suc c) = ended c"
  "ended (accepted_total_update Suc c) = ended c"
  by (simp_all add: ended_def)

lemma places_finite_maps [simp]:
  "places_finite s \<Longrightarrow> finite (dom m) \<Longrightarrow> places_finite (s\<lparr>async_tasks := m\<rparr>)"
  "places_finite s \<Longrightarrow> finite (dom m) \<Longrightarrow> places_finite (s\<lparr>finishing := m\<rparr>)"
  "places_finite s \<Longrightarrow> finite (dom d) \<Longrightarrow> places_finite (s\<lparr>dispatched := d\<rparr>)"
  by (simp_all add: places_finite_def)

lemma places_finiteD [simp]:
  "places_finite s \<Longrightarrow> finite (dom (workers s))" "places_finite s \<Longrightarrow> finite (dom (async_tasks s))"
  "places_finite s \<Longrightarrow> finite (dom (finishing s))" "places_finite s \<Longrightarrow> finite (dom (dispatched s))"
  by (simp_all add: places_finite_def)

text \<open>A worker moves from one activity to another with the same slot and task.\<close>

lemma ExecuteTask_begin_work_ok:
  assumes ok: "executor_ok s" and w: "workers s w = Some (b, Entering t origin)"
  shows "executor_ok (set_worker w (Working t origin) (s\<lparr>current_active_tasks := current_active_tasks s + 1,
      peak_active_tasks := UpdatePeak (peak_active_tasks s) (current_active_tasks s + 1)\<rparr>))" (is "executor_ok ?s")
proof -
  note p = okD [OF ok]
  let ?u = "s\<lparr>current_active_tasks := current_active_tasks s + 1,
      peak_active_tasks := UpdatePeak (peak_active_tasks s) (current_active_tasks s + 1)\<rparr>"
  have a: "acct W ?s + worker_w W b (Entering t origin) = worker_w W b (Working t origin) + acct W s" for W
    using acct_set_worker [of ?u w b "Entering t origin" W "Working t origin"] w p(8) by simp
  have "base_ok ?s" using p(1,8) by (simp add: base_ok_def)
  moreover have "live_ok ?s"
  proof (rule live_same [OF p(2)])
    show "acct (live_weight f) ?s = acct (live_weight f) s" for f using a [of "live_weight f"] by simp
    show "acct (run_weight f) ?s = acct (run_weight f) s" for f using a [of "run_weight f"] by simp
  qed simp_all
  moreover have "token_ok ?s \<and> lane_ok ?s \<and> fifo_ok ?s"
  proof (rule frame_slots [OF p(3,4,7)])
    show "acct (token_weight x) ?s = acct (token_weight x) s" for x using a [of "token_weight x"] by simp
    show "acct (lane_weight i) ?s = acct (lane_weight i) s" for i using a [of "lane_weight i"] by simp
    show "acct (inflight_weight i) ?s = acct (inflight_weight i) s" for i using a [of "inflight_weight i"] by simp
  qed simp_all
  moreover have "job_ok ?s" by (rule frame_job [OF p(5)]) simp_all
  moreover have "counter_ok ?s"
    using p(6) a [of internal_weight] a [of active_weight] a [of async_weight] a [of "dispatched_weight (\<lambda>_. 1)"]
      a [of "dispatched_weight one_if"]
    unfolding counter_ok_def by simp
  ultimately show ?thesis by (simp add: executor_ok_def)
qed

text \<open>Where a task with asynchronous work was taken from is recorded in the task.\<close>

definition origins_ok :: "BusinessExecutor \<Rightarrow> bool" where
  "origins_ok s \<longleftrightarrow> (\<forall>w b t origin. workers s w = Some (b, Entering t origin) \<longrightarrow> has_async_work (spec t) \<longrightarrow>
     async_slot t = origin_slot origin)
     \<and> (\<forall>b t. (b, JobExecuteTask t) \<in> set (pool_queue s) \<longrightarrow> async_slot t = None)
     \<and> (\<forall>t\<in>set (accepted_log s). async_stripe t = None \<and> async_key t = None)"

lemma ExecuteTask_begin_async_ok:
  assumes ok: "executor_ok s" and w: "workers s w = Some (b, Entering t origin)" and o: "async_slot t = origin_slot origin"
  shows "executor_ok (set_worker w (StartingAsync t) (count (async_started_total_update Suc)
      (s\<lparr>current_active_tasks := current_active_tasks s + 1,
        peak_active_tasks := UpdatePeak (peak_active_tasks s) (current_active_tasks s + 1)\<rparr>))
      \<lparr>pending_async_tasks := pending_async_tasks s + 1, async_tasks := (async_tasks s)(task_id t \<mapsto> t)\<rparr>)"
    (is "executor_ok ?s")
proof -
  note p = okD [OF ok]
  have fresh: "async_tasks s (task_id t) = None" using worker_task_elsewhere(1) [OF p(2,8) w] by simp
  let ?u = "set_worker w (StartingAsync t) (count (async_started_total_update Suc)
      (s\<lparr>current_active_tasks := current_active_tasks s + 1,
        peak_active_tasks := UpdatePeak (peak_active_tasks s) (current_active_tasks s + 1)\<rparr>))"
  have u: "acct W ?u + worker_w W b (Entering t origin) = worker_w W b (StartingAsync t) + acct W s" for W
    using acct_set_worker [of "count (async_started_total_update Suc)
      (s\<lparr>current_active_tasks := current_active_tasks s + 1,
        peak_active_tasks := UpdatePeak (peak_active_tasks s) (current_active_tasks s + 1)\<rparr>)" w b "Entering t origin" W "StartingAsync t"] w p(8)
    by simp
  have "acct W ?s = async_w W (task_id t) t + acct W ?u" for W
    using acct_async [of "?u\<lparr>pending_async_tasks := pending_async_tasks s + 1\<rparr>" W "task_id t" "Some t"] p(8) fresh by simp
  with u have a: "acct W ?s + worker_w W b (Entering t origin) = worker_w W b (StartingAsync t) + async_w W (task_id t) t + acct W s" for W
    by (metis add.assoc add.commute)
  have "base_ok ?s" using p(1,8) by (simp add: base_ok_def)
  moreover have "live_ok ?s"
  proof (rule live_same [OF p(2)])
    show "acct (live_weight f) ?s = acct (live_weight f) s" for f using a [of "live_weight f"] by simp
    show "acct (run_weight f) ?s = acct (run_weight f) s" for f using a [of "run_weight f"] by simp
  qed simp_all
  moreover have "token_ok ?s \<and> lane_ok ?s \<and> fifo_ok ?s"
  proof (rule frame_slots [OF p(3,4,7)])
    show "acct (token_weight x) ?s = acct (token_weight x) s" for x using a [of "token_weight x"] o by simp
    show "acct (lane_weight i) ?s = acct (lane_weight i) s" for i using a [of "lane_weight i"] o by simp
    show "acct (inflight_weight i) ?s = acct (inflight_weight i) s" for i using a [of "inflight_weight i"] o by simp
  qed simp_all
  moreover have "job_ok ?s" by (rule frame_job [OF p(5)]) auto
  moreover have "counter_ok ?s"
    using p(6) a [of internal_weight] a [of active_weight] a [of async_weight] a [of "dispatched_weight (\<lambda>_. 1)"]
      a [of "dispatched_weight one_if"]
    unfolding counter_ok_def by simp
  ultimately show ?thesis by (simp add: executor_ok_def)
qed

lemma ExecuteTask_begin_ok:
  assumes ok: "executor_ok s" and o: "origins_ok s" and v: "valid \<noteq> ProbeThrows"
  shows "executor_ok (ExecuteTask_begin w now valid probe throws s)"
proof (cases "\<exists>b t origin. workers s w = Some (b, Entering t origin)")
  case False
  then have "ExecuteTask_begin w now valid probe throws s = s"
    by (auto simp: ExecuteTask_begin_def split: option.split prod.split Activity.split)
  with ok show ?thesis by simp
next
  case True
  then obtain b t origin where w: "workers s w = Some (b, Entering t origin)" by blast
  note p = okD [OF ok]
  have d: "dispatched s (task_id t) = None" and pos: "0 < current_pending_tasks s"
    using worker_task_elsewhere [OF p(2,8) w] by simp_all
  have "executor_ok (set_worker w (Returned origin) (DispatchDeadlineTerminal probe throws t
              (count (deadline_expired_before_start_total_update Suc) s)))"
  proof (rule give_up_ok [OF ok w, where g = "one_if (handed_terminal probe throws t)"])
    show "acct W (DispatchDeadlineTerminal probe throws t (count (deadline_expired_before_start_total_update Suc) s)) =
         one_if (handed_terminal probe throws t) * dispatched_w W (task_id t) (t, True) + acct W s" for W
      using acct_DispatchDeadlineTerminal [of "count (deadline_expired_before_start_total_update Suc) s" t W] p(8) d by simp
  qed (use pos p(8) in \<open>auto simp: DispatchDeadlineTerminal_finite one_if_def\<close>)
  moreover have "executor_ok (set_worker w (Returned origin) (ReleasePending (count (cancelled_before_start_total_update Suc) s)))"
    by (rule give_up_ok [OF ok w, where g = 0]) (use pos p(8) in auto)
  moreover note ExecuteTask_begin_work_ok [OF ok w] ExecuteTask_begin_async_ok [OF ok w]
  moreover have "has_async_work (spec t) \<Longrightarrow> async_slot t = origin_slot origin"
    using o w by (auto simp: origins_ok_def)
  ultimately show ?thesis
    using w v by (simp add: ExecuteTask_begin_def Let_def)
qed

lemma run_completion_ok:
  assumes ok: "executor_ok s"
  shows "executor_ok (run_completion tid probe throws s)"
proof (cases "dispatched s tid")
  case None
  with ok show ?thesis by (simp add: run_completion_def)
next
  case (Some q)
  then obtain t terminal where q: "dispatched s tid = Some (t, terminal)" by (cases q) auto
  let ?s = "run_completion tid probe throws s"
  note p = okD [OF ok]
  have pos: "0 < current_pending_tasks s" using dispatched_counted [OF p(2,8) q] .
  define h :: "Counters \<Rightarrow> Counters" where "h = (if \<not> CompletionStillValid probe t
             then (if terminal then deadline_terminal_dropped_total_update Suc else completion_dropped_total_update Suc)
             else if throws
             then (if terminal then deadline_terminal_exception_total_update Suc else completion_exception_total_update Suc)
             else (if terminal then deadline_terminal_callback_total_update Suc else completed_total_update Suc))"
  have s': "?s = ReleasePending (count h (s\<lparr>pending_completions := pending_completions s - 1,
      dispatched := (dispatched s)(tid := None)\<rparr>))"
    using q by (simp add: run_completion_def h_def)
  have h: "ended (h c) = ended c + one_if (\<not> terminal)" "accepted_total (h c) = accepted_total c" for c
    by (simp_all add: h_def)
  define u where "u = s\<lparr>pending_completions := pending_completions s - 1\<rparr>"
  have "acct W u = acct W s" for W by (simp add: u_def acct_def)
  moreover have "places_finite u" using p(8) by (simp add: u_def places_finite_def del: places_finiteD)
  moreover have "acct W ?s = acct W (u\<lparr>dispatched := (dispatched u)(tid := None)\<rparr>)" for W
    by (simp add: s' u_def)
  moreover have "dispatched u tid = Some (t, terminal)" using q by (simp add: u_def)
  ultimately have a: "acct W ?s + dispatched_w W tid (t, terminal) = acct W s" for W
    using acct_dispatched [of u W tid None] by simp
  have fin: "places_finite ?s" using p(8) by (simp add: s' places_finite_def del: places_finiteD)
  have "base_ok ?s" using p(1) fin by (simp add: base_ok_def s')
  moreover have "live_ok ?s"
  proof (rule live_okI [OF p(2), where k = tid and g = 0])
    show "acct (live_weight f) ?s + f tid = 0 * f tid + acct (live_weight f) s" for f using a [of "live_weight f"] by simp
    show "acct (run_weight f) ?s \<le> acct (run_weight f) s" for f using a [of "run_weight f"] by simp
  qed (use pos in \<open>auto simp: s'\<close>)
  moreover have "token_ok ?s \<and> lane_ok ?s \<and> fifo_ok ?s"
  proof (rule frame_slots [OF p(3,4,7)])
    show "acct (token_weight x) ?s = acct (token_weight x) s" for x using a [of "token_weight x"] by simp
    show "acct (lane_weight i) ?s = acct (lane_weight i) s" for i using a [of "lane_weight i"] by simp
    show "acct (inflight_weight i) ?s = acct (inflight_weight i) s" for i using a [of "inflight_weight i"] by simp
  qed (simp_all add: s')
  moreover have "job_ok ?s" by (rule frame_job [OF p(5)]) (simp_all add: s')
  moreover have "counter_ok ?s"
    using p(6) pos a [of internal_weight] a [of active_weight] a [of async_weight] a [of "dispatched_weight (\<lambda>_. 1)"]
      a [of "dispatched_weight one_if"]
    unfolding counter_ok_def by (cases terminal) (auto simp: s' h)
  ultimately show ?thesis by (simp add: executor_ok_def)
qed

text \<open>A worker that holds no slot and no task ends its job.\<close>

lemma leave_job_ok:
  assumes ok: "executor_ok s" and w: "workers s w = Some (b, a0)"
    and a0: "activity_slot a0 = None" "activity_task a0 = None" "worker_w active_weight b a0 = 1"
  shows "executor_ok (end_job w (s\<lparr>current_active_tasks := current_active_tasks s - 1\<rparr>))" (is "executor_ok ?s")
proof -
  note p = okD [OF ok]
  have a: "acct W ?s + worker_w W b a0 = acct W s" for W
    using acct_end_job [of "s\<lparr>current_active_tasks := current_active_tasks s - 1\<rparr>" w b a0 W] w p(8) by simp
  have "base_ok ?s" using p(1,8) by (simp add: base_ok_def)
  moreover have "live_ok ?s"
  proof (rule live_same [OF p(2)])
    show "acct (live_weight f) ?s = acct (live_weight f) s" for f using a [of "live_weight f"] a0 by simp
    show "acct (run_weight f) ?s = acct (run_weight f) s" for f using a [of "run_weight f"] a0 by simp
  qed simp_all
  moreover have "token_ok ?s \<and> lane_ok ?s \<and> fifo_ok ?s"
  proof (rule frame_slots [OF p(3,4,7)])
    show "acct (token_weight x) ?s = acct (token_weight x) s" for x using a [of "token_weight x"] a0 by simp
    show "acct (lane_weight i) ?s = acct (lane_weight i) s" for i using a [of "lane_weight i"] a0 by simp
    show "acct (inflight_weight i) ?s = acct (inflight_weight i) s" for i using a [of "inflight_weight i"] a0 by simp
  qed simp_all
  moreover have "job_ok ?s" by (rule frame_job [OF p(5)]) simp_all
  moreover have "pending_internal_jobs ?s = pending_internal_jobs s - one_if b"
    using w by (simp add: end_job_def one_if_def)
  with p(6) a [of internal_weight] a [of active_weight] a [of async_weight] a [of "dispatched_weight (\<lambda>_. 1)"]
      a [of "dispatched_weight one_if"] a0 have "counter_ok ?s"
    unfolding counter_ok_def by auto
  ultimately show ?thesis by (simp add: executor_ok_def)
qed

lemma FinishAsync_ok:
  assumes ok: "executor_ok s" and c: "\<not> continuation_queued tid s"
  shows "executor_ok (FinishAsync tid out probe throws s)"
proof (cases "async_tasks s tid")
  case None
  with ok show ?thesis by (simp add: FinishAsync_def)
next
  case (Some t)
  let ?s = "FinishAsync tid out probe throws s"
  note p = okD [OF ok]
  have id: "task_id t = tid" using p(1) Some by (simp add: base_ok_def)
  have d: "dispatched s (task_id t) = None" and pos: "0 < current_pending_tasks s"
    using async_task_elsewhere [OF p(2,8) Some] id by simp_all
  have f: "finishing s tid = None" using async_not_finishing [OF p(2,8) Some] .
  define u0 where "u0 = s\<lparr>async_tasks := (async_tasks s)(tid := None)\<rparr>"
  define u where "u = count (async_finished_total_update Suc) (u0\<lparr>finishing := (finishing u0)(tid \<mapsto> t)\<rparr>)"
  have s': "?s = conclude out probe throws t u" using Some by (simp add: FinishAsync_def u_def u0_def)
  have fin0: "places_finite u0" using p(8) by (simp add: u0_def)
  have fin: "places_finite u" using fin0 by (simp add: u_def)
  have a0: "acct W u0 + async_w W tid t = acct W s" for W
    using acct_async [OF p(8), of W tid None] Some by (simp add: u0_def)
  have a1: "acct W u = finishing_w W tid t + acct W u0" for W
    using acct_finishing [OF fin0, of W tid "Some t"] f by (simp add: u_def u0_def)
  have d': "dispatched u (task_id t) = None" using d by (simp add: u_def u0_def)
  have a: "acct W ?s + async_w W tid t = finishing_w W tid t
      + one_if (handed out probe throws t) * dispatched_w W (task_id t) (t, False) + acct W s" for W
    using acct_conclude [OF fin d', of W out probe throws] a0 [of W] a1 [of W] by (simp add: s')
  have u: "options u = options s" "pool_stopped u = pool_stopped s" "pool_queue u = pool_queue s" "stripes u = stripes s"
    "async_tasks u = (async_tasks s)(tid := None)" "next_task_id u = next_task_id s" "accepted_log u = accepted_log s"
    "started_log u = started_log s" "current_active_tasks u = current_active_tasks s"
    "pending_async_tasks u = pending_async_tasks s" "pending_internal_jobs u = pending_internal_jobs s"
    "pending_completions u = pending_completions s" "current_pending_tasks u = current_pending_tasks s"
    "accepted_total (counters u) = accepted_total (counters s)" "ended (counters u) = ended (counters s)"
    by (simp_all add: u_def u0_def)
  have "base_ok ?s" using p(1) fin by (simp add: base_ok_def s' conclude_finite u)
  moreover have "live_ok ?s"
  proof (rule live_okI [OF p(2), where k = "tid" and g = "one_if (handed out probe throws t)"])
    show "acct (live_weight f) ?s + f tid = one_if (handed out probe throws t) * f tid + acct (live_weight f) s" for f
      using a [of "live_weight f"] id by simp
    show "acct (run_weight f) ?s \<le> acct (run_weight f) s" for f using a [of "run_weight f"] by simp
  qed (use pos in \<open>auto simp: s' one_if_def u\<close>)
  moreover have "token_ok ?s \<and> lane_ok ?s \<and> fifo_ok ?s"
  proof (rule frame_slots [OF p(3,4,7)])
    show "acct (token_weight x) ?s = acct (token_weight x) s" for x using a [of "token_weight x"] by simp
    show "acct (lane_weight i) ?s = acct (lane_weight i) s" for i using a [of "lane_weight i"] by simp
    show "acct (inflight_weight i) ?s = acct (inflight_weight i) s" for i using a [of "inflight_weight i"] by simp
  qed (simp_all add: s' u)
  moreover have "job_ok ?s"
  proof -
    have "tid \<notin> set (continuations (pool_queue s))"
      using c by (auto simp: continuation_queued_def continuations_def split: Job.splits)
    moreover have "stripes ?s = stripes s" "pool_queue ?s = pool_queue s" "async_tasks ?s = (async_tasks s)(tid := None)"
      by (simp_all add: s' u)
    ultimately show ?thesis using p(5) unfolding job_ok_def by (auto simp: slots_same(2) [of ?s s] simp del: slot_queue.simps)
  qed
  moreover have "counter_ok ?s"
    using p(6) pos a [of internal_weight] a [of active_weight] a [of async_weight] a [of "dispatched_weight (\<lambda>_. 1)"]
      a [of "dispatched_weight one_if"]
    unfolding counter_ok_def by (auto simp: s' u one_if_not one_if_def [of "handed _ _ _ _"])
  ultimately show ?thesis by (simp add: executor_ok_def)
qed

lemma async_work_returns_ok:
  assumes ok: "executor_ok s"
  shows "executor_ok (async_work_returns w s)"
proof (cases "\<exists>b t. workers s w = Some (b, StartingAsync t)")
  case False
  then have "async_work_returns w s = s"
    by (auto simp: async_work_returns_def split: option.split prod.split Activity.split)
  with ok show ?thesis by simp
next
  case True
  then obtain b t where w: "workers s w = Some (b, StartingAsync t)" by blast
  then show ?thesis
    using leave_job_ok [OF ok w] w by (simp add: async_work_returns_def)
qed

lemma continuation_returns_ok:
  assumes ok: "executor_ok s"
  shows "executor_ok (continuation_returns w False s)"
proof (cases "\<exists>b t. workers s w = Some (b, InContinuation t)")
  case False
  then have "continuation_returns w False s = s"
    by (auto simp: continuation_returns_def split: option.split prod.split Activity.split)
  with ok show ?thesis by simp
next
  case True
  then obtain b t where w: "workers s w = Some (b, InContinuation t)" by blast
  then show ?thesis
    using leave_job_ok [OF ok w] w by (simp add: continuation_returns_def)
qed

lemma continuations_simps [simp]:
  "continuations [] = []"
  "continuations ((b, j) # q) = (case j of JobContinuation t \<Rightarrow> [task_id t] | _ \<Rightarrow> []) @ continuations q"
  "continuations (q @ q') = continuations q @ continuations q'"
  by (simp_all add: continuations_def)

lemma job_ok_tail:
  assumes "job_ok s" "pool_queue s = (b, j) # js" "stripes s' = stripes s" "pool_queue s' = js" "async_tasks s' = async_tasks s"
  shows "job_ok s'"
  using assms unfolding job_ok_def slots_same(2) [OF assms(3)] by (auto simp del: slot_queue.simps)

text \<open>The activity a job starts with.\<close>

fun job_activity :: "Job \<Rightarrow> Activity" where
  "job_activity (JobExecuteTask t) = Entering t FromPool"
| "job_activity (JobDrainStripe i) = AtDrainStripe i"
| "job_activity (JobDrainKey i k) = AtDrainKey i k"
| "job_activity (JobContinuation t) = InContinuation t"

lemma take_job_enabled:
  assumes ok: "executor_ok s" and w: "workers s w = None" and q: "pool_queue s = (b, j) # js"
  shows "workers (take_job w s) = (workers s)(w \<mapsto> (b, job_activity j)) \<and> pool_queue (take_job w s) = js
    \<and> stripes (take_job w s) = stripes s \<and> async_tasks (take_job w s) = async_tasks s
    \<and> options (take_job w s) = options s \<and> pool_stopped (take_job w s) = pool_stopped s
    \<and> next_task_id (take_job w s) = next_task_id s \<and> accepted_log (take_job w s) = accepted_log s
    \<and> started_log (take_job w s) = started_log s \<and> pending_internal_jobs (take_job w s) = pending_internal_jobs s
    \<and> pending_async_tasks (take_job w s) = pending_async_tasks s \<and> pending_completions (take_job w s) = pending_completions s
    \<and> current_pending_tasks (take_job w s) = current_pending_tasks s
    \<and> accepted_total (counters (take_job w s)) = accepted_total (counters s)
    \<and> ended (counters (take_job w s)) = ended (counters s)
    \<and> current_active_tasks (take_job w s) = worker_w active_weight b (job_activity j) + current_active_tasks s
    \<and> places_finite (take_job w s)
    \<and> (\<forall>W. acct W (take_job w s) + job_w W b j = worker_w W b (job_activity j) + acct W s)"
proof -
  have alive: "async_tasks s (task_id t) \<noteq> None" if "j = JobContinuation t" for t
    using okD(5) [OF ok] q that by (auto simp: job_ok_def)
  show ?thesis
    using acct_take_job [OF okD(8) [OF ok] w q] w q alive okD(8) [OF ok]
    by (cases j) (auto simp: take_job_def Let_def places_finite_def simp del: places_finiteD)
qed

lemma take_job_ok:
  assumes ok: "executor_ok s"
  shows "executor_ok (take_job w s)"
proof (cases "workers s w = None \<and> pool_queue s \<noteq> []")
  case False
  then have "take_job w s = s" by (auto simp: take_job_def split: option.split list.split)
  with ok show ?thesis by simp
next
  case True
  then obtain b j js where w: "workers s w = None" and q: "pool_queue s = (b, j) # js"
    by (cases "pool_queue s") auto
  let ?s = "take_job w s"
  note p = okD [OF ok]
  note e = take_job_enabled [OF ok w q]
  have a: "acct W ?s + job_w W b j = worker_w W b (job_activity j) + acct W s" for W using e by blast
  have "base_ok ?s" using p(1) e by (simp add: base_ok_def)
  moreover have "live_ok ?s"
  proof (rule live_same [OF p(2)])
    show "acct (live_weight f) ?s = acct (live_weight f) s" for f using a [of "live_weight f"] by (cases j) simp_all
    show "acct (run_weight f) ?s = acct (run_weight f) s" for f using a [of "run_weight f"] by (cases j) simp_all
  qed (use e in simp_all)
  moreover have "token_ok ?s \<and> lane_ok ?s \<and> fifo_ok ?s"
  proof (rule frame_slots [OF p(3,4,7)])
    show "acct (token_weight x) ?s = acct (token_weight x) s" for x using a [of "token_weight x"] by (cases j) simp_all
    show "acct (lane_weight i) ?s = acct (lane_weight i) s" for i using a [of "lane_weight i"] by (cases j) simp_all
    show "acct (inflight_weight i) ?s = acct (inflight_weight i) s" for i using a [of "inflight_weight i"] by (cases j) simp_all
  qed (use e in simp_all)
  moreover have "job_ok ?s" by (rule job_ok_tail [OF p(5) q]) (use e in simp_all)
  moreover have "counter_ok ?s"
    using p(6) a [of internal_weight] a [of active_weight] a [of async_weight] a [of "dispatched_weight (\<lambda>_. 1)"]
      a [of "dispatched_weight one_if"] e
    unfolding counter_ok_def by simp
  ultimately show ?thesis by (simp add: executor_ok_def)
qed

text \<open>A slot has one token; who holds it excludes everyone else.\<close>

lemma token_at_worker:
  assumes "places_finite s" "workers s w = Some (b, a)" "activity_slot a = Some x" and "token_ok s"
  shows "slot_busy s x" and "\<And>b j. (b, j) \<in> set (pool_queue s) \<Longrightarrow> job_slot j \<noteq> Some x"
proof -
  have w: "1 \<le> msum (\<lambda>_ (b, a). worker_w (token_weight x) b a) (workers s)"
    using msum_member_le [of "workers s" w "(b, a)" "\<lambda>_ (b, a). worker_w (token_weight x) b a"] assms(1-3)
    by (simp add: places_finite_def del: places_finiteD)
  have t: "acct (token_weight x) s = one_if (slot_busy s x)" using assms(4) by (simp add: token_ok_def)
  show "slot_busy s x"
  proof (rule ccontr)
    assume "\<not> slot_busy s x"
    with w t show False by (simp add: acct_def)
  qed
  fix b j
  assume "(b, j) \<in> set (pool_queue s)"
  then obtain q1 q2 where "pool_queue s = q1 @ (b, j) # q2" by (meson split_list)
  then have "job_w (token_weight x) b j \<le> pool_sum (token_weight x) (pool_queue s)" by simp
  moreover have "pool_sum (token_weight x) (pool_queue s) = 0"
    using w t by (simp add: acct_def one_if_def split: if_splits)
  ultimately show "job_slot j \<noteq> Some x" by (simp add: one_if_def split: if_splits)
qed

lemma slot_upd:
  assumes "i < length (stripes s)" "stripes s' = (stripes s)[i := st]"
  shows "slot_queue s' (StripeSlot j) = (if j = i then stripe_queue st else slot_queue s (StripeSlot j))"
    and "slot_queue s' (KeySlot j k) = (if j = i then (case lanes st k of None \<Rightarrow> [] | Some q \<Rightarrow> q) else slot_queue s (KeySlot j k))"
    and "slot_busy s' (StripeSlot j) = (if j = i then running st else slot_busy s (StripeSlot j))"
    and "slot_busy s' (KeySlot j k) = (if j = i then lanes st k \<noteq> None else slot_busy s (KeySlot j k))"
  using assms by (auto simp: nth_list_update)

lemma queued_slot:
  assumes "fifo_ok s" "t \<in> set (slot_queue s x)"
  shows "ord_slot (options s) t = Some x"
proof -
  have "t \<in> set (filter (\<lambda>t. ord_slot (options s) t = Some x) (accepted_log s))"
    using assms by (simp add: fifo_ok_def)
  then show ?thesis by simp
qed

text \<open>Starting the first task of a slot keeps the order.\<close>

lemma fifo_start:
  assumes fifo: "fifo_ok s" and q: "slot_queue s x = t # q" "slot_queue s' x = q"
    and other: "\<And>y. y \<noteq> x \<Longrightarrow> slot_queue s' y = slot_queue s y"
    and same: "options s' = options s" "accepted_log s' = accepted_log s" "started_log s' = started_log s @ [t]"
  shows "fifo_ok s'"
proof -
  have t: "ord_slot (options s) t = Some x" using queued_slot [OF fifo, of t x] q(1) by simp
  have "filter (\<lambda>t. ord_slot (options s) t = Some y) (accepted_log s)
      = filter (\<lambda>t. ord_slot (options s) t = Some y) (started_log s @ [t]) @ slot_queue s' y" for y
    using fifo q t other by (cases "y = x") (auto simp: fifo_ok_def simp del: slot_queue.simps)
  then show ?thesis by (simp add: fifo_ok_def same del: slot_queue.simps)
qed

lemma fifo_same:
  assumes "fifo_ok s" "\<And>x. slot_queue s' x = slot_queue s x" "options s' = options s" "accepted_log s' = accepted_log s"
    "started_log s' = started_log s"
  shows "fifo_ok s'"
  using assms by (simp add: fifo_ok_def del: slot_queue.simps)

lemma upd_stripe_fields [simp]:
  "options (upd_stripe i g s) = options s" "pool_stopped (upd_stripe i g s) = pool_stopped s"
  "pool_queue (upd_stripe i g s) = pool_queue s" "stripes (upd_stripe i g s) = (stripes s)[i := g (stripes s ! i)]"
  "workers (upd_stripe i g s) = workers s"
  "async_tasks (upd_stripe i g s) = async_tasks s" "finishing (upd_stripe i g s) = finishing s"
  "dispatched (upd_stripe i g s) = dispatched s" "next_task_id (upd_stripe i g s) = next_task_id s"
  "current_active_tasks (upd_stripe i g s) = current_active_tasks s"
  "pending_async_tasks (upd_stripe i g s) = pending_async_tasks s"
  "pending_internal_jobs (upd_stripe i g s) = pending_internal_jobs s"
  "pending_completions (upd_stripe i g s) = pending_completions s"
  "accepted_log (upd_stripe i g s) = accepted_log s" "started_log (upd_stripe i g s) = started_log s"
  "counters (upd_stripe i g s) = counters s" "current_pending_tasks (upd_stripe i g s) = current_pending_tasks s"
  by (simp_all add: upd_stripe_def)

lemma upd_stripe_finite [simp]: "places_finite (upd_stripe i g s) = places_finite s"
  by (simp add: places_finite_def upd_stripe_def del: places_finiteD)

lemma lane_okD:
  assumes "lane_ok s" "i < length (stripes s)"
  shows "isolated_pending (stripes s ! i) = acct (lane_weight i) s"
    and "isolated_pending (stripes s ! i) \<le> per_stripe_queue_capacity (options s)"
    and "length (stripe_queue (stripes s ! i)) + acct (inflight_weight i) s \<le> per_stripe_queue_capacity (options s)"
  using assms by (simp_all only: lane_ok_def) auto

text \<open>One stripe changes.\<close>

lemma lane_ok_upd:
  assumes ok: "lane_ok s" and i: "i < length (stripes s)" and st: "stripes s' = (stripes s)[i := st]" "options s' = options s"
    and other: "\<And>j. j \<noteq> i \<Longrightarrow> acct (lane_weight j) s' = acct (lane_weight j) s"
      "\<And>j. j \<noteq> i \<Longrightarrow> acct (inflight_weight j) s' = acct (inflight_weight j) s"
    and here: "isolated_pending st = acct (lane_weight i) s'" "isolated_pending st \<le> per_stripe_queue_capacity (options s)"
      "length (stripe_queue st) + acct (inflight_weight i) s' \<le> per_stripe_queue_capacity (options s)"
  shows "lane_ok s'"
  unfolding lane_ok_def
proof (intro allI impI)
  fix j
  assume j: "j < length (stripes s')"
  show "isolated_pending (stripes s' ! j) = acct (lane_weight j) s'
      \<and> isolated_pending (stripes s' ! j) \<le> per_stripe_queue_capacity (options s')
      \<and> length (stripe_queue (stripes s' ! j)) + acct (inflight_weight j) s' \<le> per_stripe_queue_capacity (options s')"
    using lane_okD [OF ok, of j] j i here other by (cases "j = i") (simp_all add: st)
qed

lemma token_ok_upd:
  assumes ok: "token_ok s" and i: "i < length (stripes s)" and st: "stripes s' = (stripes s)[i := st]"
    and tok: "\<And>x. acct (token_weight x) s' = one_if (slot_busy s' x)" and here: "\<not> running st \<Longrightarrow> stripe_queue st = []"
  shows "token_ok s'"
  unfolding token_ok_def
proof (intro conjI allI impI)
  fix j
  assume "j < length (stripes s')" "\<not> running (stripes s' ! j)"
  then show "stripe_queue (stripes s' ! j) = []"
    using ok here i by (cases "j = i") (simp_all add: st token_ok_def)
qed (rule tok)

lemma token_at: "token_ok s \<Longrightarrow> acct (token_weight x) s = one_if (slot_busy s x)"
  by (simp add: token_ok_def)

lemma DrainStripe_empty_ok:
  assumes ok: "executor_ok s" and w: "workers s w = Some (b, AtDrainStripe i)" and i: "i < length (stripes s)"
    and q: "stripe_queue (stripes s ! i) = []"
  shows "executor_ok (DrainStripe w s)" (is "executor_ok ?s")
proof -
  note p = okD [OF ok]
  let ?st = "(stripes s ! i)\<lparr>running := False\<rparr>"
  have s': "?s = end_job w (upd_stripe i (\<lambda>st. st\<lparr>running := False\<rparr>) s)" using w i q by (simp add: DrainStripe_def)
  have a: "acct W ?s + worker_w W b (AtDrainStripe i) + stripe_w W i (stripes s ! i) = stripe_w W i ?st + acct W s" for W
    by (rule acct_DrainStripe_empty [OF p(8) w i q])
  have st: "stripes ?s = (stripes s)[i := ?st]" by (simp add: s')
  have queues: "slot_queue ?s x = slot_queue s x" for x
    using slot_upd(1,2) [OF i st] q i by (cases x) (simp_all split: option.split)
  have busy: "slot_busy ?s x = (slot_busy s x \<and> x \<noteq> StripeSlot i)" for x
    using slot_upd(3,4) [OF i st] i by (cases x) auto
  have run: "slot_busy s (StripeSlot i)" using token_at_worker(1) [OF p(8) w _ p(3)] by simp
  have "base_ok ?s" using p(1,8) by (simp add: base_ok_def s')
  moreover have "live_ok ?s"
  proof (rule live_same [OF p(2)])
    show "acct (live_weight f) ?s = acct (live_weight f) s" for f using a [of "live_weight f"] by simp
    show "acct (run_weight f) ?s = acct (run_weight f) s" for f using a [of "run_weight f"] by simp
  qed (simp_all add: s')
  moreover have "token_ok ?s"
  proof (rule token_ok_upd [OF p(3) i st])
    show "acct (token_weight x) ?s = one_if (slot_busy ?s x)" for x
      using a [of "token_weight x"] token_at [OF p(3), of x] run unfolding busy
      by (cases "x = StripeSlot i") (auto simp: one_if_def simp del: slot_busy.simps)
  qed (simp add: q)
  moreover have "lane_ok ?s"
  proof (rule lane_ok_upd [OF p(4) i st])
    show "acct (lane_weight j) ?s = acct (lane_weight j) s" "acct (inflight_weight j) ?s = acct (inflight_weight j) s" for j
      using a [of "lane_weight j"] a [of "inflight_weight j"] by (simp_all split: if_splits)
    then show "isolated_pending ?st = acct (lane_weight i) ?s"
      "isolated_pending ?st \<le> per_stripe_queue_capacity (options s)"
      "length (stripe_queue ?st) + acct (inflight_weight i) ?s \<le> per_stripe_queue_capacity (options s)"
      using lane_okD [OF p(4) i] by simp_all
  qed (simp add: s')
  moreover have "job_ok ?s" using p(5) queues by (simp add: job_ok_def s' del: slot_queue.simps)
  moreover have "fifo_ok ?s" by (rule fifo_same [OF p(7) queues]) (simp_all add: s')
  moreover have "pending_internal_jobs ?s = pending_internal_jobs s - one_if b"
    using w by (simp add: s' end_job_def one_if_def)
  with p(6) a [of internal_weight] a [of active_weight] a [of async_weight] a [of "dispatched_weight (\<lambda>_. 1)"]
      a [of "dispatched_weight one_if"] have "counter_ok ?s"
    unfolding counter_ok_def by (auto simp: s')
  ultimately show ?thesis by (simp add: executor_ok_def)
qed


lemma DrainStripe_task_ok:
  assumes ok: "executor_ok s" and w: "workers s w = Some (b, AtDrainStripe i)" and i: "i < length (stripes s)"
    and q: "stripe_queue (stripes s ! i) = t # q"
  shows "executor_ok (DrainStripe w s)" (is "executor_ok ?s")
proof -
  note p = okD [OF ok]
  let ?st = "(stripes s ! i)\<lparr>stripe_queue := q\<rparr>"
  define t' where "t' = (if has_async_work (spec t) then t\<lparr>async_stripe := Some i\<rparr> else t)"
  have id: "task_id t' = task_id t" by (simp add: t'_def)
  have s': "?s = set_worker w (Entering t' (FromStripe i)) (upd_stripe i (\<lambda>st. st\<lparr>stripe_queue := q\<rparr>) s)
      \<lparr>started_log := started_log s @ [t]\<rparr>"
    using w i q by (simp add: DrainStripe_def t'_def Let_def)
  have a: "acct W ?s + worker_w W b (AtDrainStripe i) + stripe_w W i (stripes s ! i)
      = worker_w W b (Entering t' (FromStripe i)) + stripe_w W i ?st + acct W s" for W
    by (rule acct_DrainStripe_task [OF p(8) w i q t'_def])
  have st: "stripes ?s = (stripes s)[i := ?st]" by (simp add: s')
  have busy: "slot_busy ?s x = slot_busy s x" for x
    using slot_upd(3,4) [OF i st] i by (cases x) auto
  have qi: "slot_queue s (StripeSlot i) = t # q" "slot_queue ?s (StripeSlot i) = q"
    and qo: "x \<noteq> StripeSlot i \<Longrightarrow> slot_queue ?s x = slot_queue s x" for x
    using slot_upd(1,2) [OF i st] i q by (simp, simp, cases x) (auto split: option.split)
  have "base_ok ?s" using p(1,8) by (simp add: base_ok_def s')
  moreover have "live_ok ?s"
  proof (rule live_same [OF p(2)])
    show "acct (live_weight f) ?s = acct (live_weight f) s" for f
      using a [of "live_weight f"] q id by (simp add: ids_weight_def)
    show "acct (run_weight f) ?s = acct (run_weight f) s" for f
      using a [of "run_weight f"] q id by (simp add: ids_weight_def)
  qed (simp_all add: s')
  moreover have "token_ok ?s"
  proof (rule token_ok_upd [OF p(3) i st])
    show "acct (token_weight x) ?s = one_if (slot_busy ?s x)" for x
      using a [of "token_weight x"] token_at [OF p(3), of x] unfolding busy by (simp del: slot_busy.simps)
  qed (use p(3) i q in \<open>auto simp: token_ok_def\<close>)
  moreover have "lane_ok ?s"
  proof (rule lane_ok_upd [OF p(4) i st])
    have "acct (lane_weight j) ?s = acct (lane_weight j) s"
      "acct (inflight_weight j) ?s = one_if (i = j) + acct (inflight_weight j) s" for j
      using a [of "lane_weight j"] a [of "inflight_weight j"] by (simp_all split: if_splits)
    then show "isolated_pending ?st = acct (lane_weight i) ?s"
      "isolated_pending ?st \<le> per_stripe_queue_capacity (options s)"
      "length (stripe_queue ?st) + acct (inflight_weight i) ?s \<le> per_stripe_queue_capacity (options s)"
      "acct (lane_weight j) ?s = acct (lane_weight j) s"
      "j \<noteq> i \<Longrightarrow> acct (inflight_weight j) ?s = acct (inflight_weight j) s" for j
      using lane_okD [OF p(4) i] q by simp_all
  qed (simp add: s')
  moreover have "job_ok ?s" using p(5) qo by (simp add: job_ok_def s' del: slot_queue.simps)
  moreover have "fifo_ok ?s" by (rule fifo_start [OF p(7) qi qo]) (simp_all add: s')
  moreover have "counter_ok ?s"
    using p(6) a [of internal_weight] a [of active_weight] a [of async_weight] a [of "dispatched_weight (\<lambda>_. 1)"]
      a [of "dispatched_weight one_if"]
    unfolding counter_ok_def by (simp add: s')
  ultimately show ?thesis by (simp add: executor_ok_def)
qed

lemma DrainStripe_ok:
  assumes ok: "executor_ok s"
  shows "executor_ok (DrainStripe w s)"
proof (cases "\<exists>b i. workers s w = Some (b, AtDrainStripe i)")
  case False
  then have "DrainStripe w s = s"
    by (auto simp: DrainStripe_def split: option.split prod.split Activity.split)
  with ok show ?thesis by simp
next
  case True
  then obtain b i where w: "workers s w = Some (b, AtDrainStripe i)" by blast
  have "slot_busy s (StripeSlot i)" using token_at_worker(1) [OF okD(8) [OF ok] w _ okD(3) [OF ok]] by simp
  then have i: "i < length (stripes s)" by simp
  show ?thesis
    using DrainStripe_empty_ok [OF ok w i] DrainStripe_task_ok [OF ok w i]
    by (cases "stripe_queue (stripes s ! i)") auto
qed

lemma DrainKey_task_ok:
  assumes ok: "executor_ok s" and w: "workers s w = Some (b, AtDrainKey i k)" and i: "i < length (stripes s)"
    and q: "lanes (stripes s ! i) k = Some (t # q)"
  shows "executor_ok (DrainKey w s)" (is "executor_ok ?s")
proof -
  note p = okD [OF ok]
  let ?st = "(stripes s ! i)\<lparr>lanes := (lanes (stripes s ! i))(k \<mapsto> q)\<rparr>"
  define t' where "t' = (if has_async_work (spec t) then t\<lparr>async_stripe := Some i, async_key := Some k\<rparr> else t)"
  have id: "task_id t' = task_id t" by (simp add: t'_def)
  have s': "?s = set_worker w (Entering t' (FromKey i k)) (upd_stripe i (\<lambda>st. st\<lparr>lanes := (lanes st)(k \<mapsto> q)\<rparr>) s)
      \<lparr>started_log := started_log s @ [t]\<rparr>"
    using w i q by (simp add: DrainKey_def t'_def Let_def)
  have a: "acct W ?s + worker_w W b (AtDrainKey i k) + stripe_w W i (stripes s ! i)
      = worker_w W b (Entering t' (FromKey i k)) + stripe_w W i ?st + acct W s" for W
    by (rule acct_DrainKey_task [OF p(8) w i q t'_def])
  have lanes: "msum g ((lanes (stripes s ! i))(k \<mapsto> q)) + g k (t # q) = g k q + msum g (lanes (stripes s ! i))" for g
    using msum_upd [of "lanes (stripes s ! i)" g k "Some q"] q by simp
  have st: "stripes ?s = (stripes s)[i := ?st]" by (simp add: s')
  have busy: "slot_busy ?s x = slot_busy s x" for x
    using slot_upd(3,4) [OF i st] i q by (cases x) auto
  have qi: "slot_queue s (KeySlot i k) = t # q" "slot_queue ?s (KeySlot i k) = q"
    and qo: "x \<noteq> KeySlot i k \<Longrightarrow> slot_queue ?s x = slot_queue s x" for x
    using slot_upd(1,2) [OF i st] i q by (simp, simp, cases x) auto
  have "base_ok ?s" using p(1,8) by (simp add: base_ok_def s')
  moreover have "live_ok ?s"
  proof (rule live_same [OF p(2)])
    show "acct (live_weight f) ?s = acct (live_weight f) s" for f
      using a [of "live_weight f"] lanes [of "\<lambda>_. ids_weight f"] id by (simp add: ids_weight_def)
    show "acct (run_weight f) ?s = acct (run_weight f) s" for f
      using a [of "run_weight f"] lanes [of "\<lambda>_. ids_weight f"] id by (simp add: ids_weight_def)
  qed (simp_all add: s')
  moreover have "token_ok ?s"
  proof (rule token_ok_upd [OF p(3) i st])
    show "acct (token_weight x) ?s = one_if (slot_busy ?s x)" for x
      using a [of "token_weight x"] token_at [OF p(3), of x] unfolding busy by (simp del: slot_busy.simps)
  qed (use p(3) i in \<open>auto simp: token_ok_def\<close>)
  moreover have "lane_ok ?s"
  proof (rule lane_ok_upd [OF p(4) i st])
    show "acct (lane_weight j) ?s = acct (lane_weight j) s" "acct (inflight_weight j) ?s = acct (inflight_weight j) s" for j
      using a [of "lane_weight j"] a [of "inflight_weight j"] lanes [of "\<lambda>_. length"] by (auto simp: one_if_def split: if_splits)
    then show "isolated_pending ?st = acct (lane_weight i) ?s"
      "isolated_pending ?st \<le> per_stripe_queue_capacity (options s)"
      "length (stripe_queue ?st) + acct (inflight_weight i) ?s \<le> per_stripe_queue_capacity (options s)"
      using lane_okD [OF p(4) i] by simp_all
  qed (simp add: s')
  moreover have "job_ok ?s"
  proof -
    have "job_slot (JobDrainKey j l) \<noteq> Some (KeySlot i k)" if "(b', JobDrainKey j l) \<in> set (pool_queue s)" for b' j l
      using token_at_worker(2) [OF p(8) w _ p(3) that, of "KeySlot i k"] by simp
    then have "slot_queue ?s (KeySlot j l) = slot_queue s (KeySlot j l)" if "(b', JobDrainKey j l) \<in> set (pool_queue s)" for b' j l
      using that by (intro qo) fastforce
    with p(5) show ?thesis by (simp add: job_ok_def s' del: slot_queue.simps)
  qed
  moreover have "fifo_ok ?s" by (rule fifo_start [OF p(7) qi qo]) (simp_all add: s')
  moreover have "counter_ok ?s"
    using p(6) a [of internal_weight] a [of active_weight] a [of async_weight] a [of "dispatched_weight (\<lambda>_. 1)"]
      a [of "dispatched_weight one_if"]
    unfolding counter_ok_def by (simp add: s')
  ultimately show ?thesis by (simp add: executor_ok_def)
qed

definition retire :: "u64 \<Rightarrow> TaskState list \<Rightarrow> Stripe \<Rightarrow> Stripe" where
  "retire k q st = st\<lparr>isolated_pending := isolated_pending st - 1, lanes := (if q = [] then (lanes st)(k := None) else lanes st)\<rparr>"

lemma upd_stripe_twice:
  "upd_stripe i f (upd_stripe i g s) = upd_stripe i (f \<circ> g) s"
  by (cases "i < length (stripes s)") (simp_all add: upd_stripe_def list_update_beyond)

lemma CompleteKeyTask_eq:
  assumes "lanes (stripes s ! i) k = Some q" "0 < isolated_pending (stripes s ! i)"
  shows "CompleteKeyTask i k s = Some (q \<noteq> [], upd_stripe i (retire k q) s)"
proof -
  have "retire k q = (if q = [] then (\<lambda>st. st\<lparr>lanes := (lanes st)(k := None)\<rparr>) \<circ> (\<lambda>st. st\<lparr>isolated_pending := isolated_pending st - 1\<rparr>)
      else (\<lambda>st. st\<lparr>isolated_pending := isolated_pending st - 1\<rparr>))"
    by (simp add: retire_def fun_eq_iff)
  with assms show ?thesis by (simp add: CompleteKeyTask_def Let_def upd_stripe_twice)
qed

text \<open>The part of the proof that the synchronous and the asynchronous end of an ordered task share: some holder of the
  slot gives up its token and its lane account to the state \<open>v\<close>, in which nothing holds the slot; \<open>more\<close> says that a
  successor takes the token over.\<close>

lemma slot_facts_retired:
  assumes i: "i < length (stripes s)" and q: "lanes (stripes s ! i) k = Some q"
    and st: "stripes s' = (stripes s)[i := retire k q (stripes s ! i)]"
  shows "slot_busy s' x = (slot_busy s x \<and> (x = KeySlot i k \<longrightarrow> q \<noteq> []))"
    and "slot_queue s' x = slot_queue s x"
  using slot_upd [OF i st] i q by (cases x; auto simp: retire_def split: option.splits)+

lemma retire_weights:
  assumes q: "lanes st k = Some q"
  shows "stripe_w (live_weight f) n (retire k q st) = stripe_w (live_weight f) n st"
    and "stripe_w (run_weight f) n (retire k q st) = stripe_w (run_weight f) n st"
    and "stripe_w (lane_weight j) n (retire k q st) = stripe_w (lane_weight j) n st"
proof -
  have "msum g (if q = [] then (lanes st)(k := None) else lanes st) = msum g (lanes st)" if "g k [] = 0" for g :: "u64 \<Rightarrow> TaskState list \<Rightarrow> nat"
    using msum_upd [of "lanes st" g k None] q that by auto
  then show "stripe_w (live_weight f) n (retire k q st) = stripe_w (live_weight f) n st"
    "stripe_w (run_weight f) n (retire k q st) = stripe_w (run_weight f) n st"
    "stripe_w (lane_weight j) n (retire k q st) = stripe_w (lane_weight j) n st"
    by (simp_all add: retire_def ids_weight_def)
qed

lemma retired_ok:
  assumes ok: "executor_ok s" and i: "i < length (stripes s)" and q: "lanes (stripes s ! i) k = Some q"
    and held: "acct (lane_weight i) s \<noteq> 0" and busy: "slot_busy s (KeySlot i k)"
    and st: "stripes s' = (stripes s)[i := retire k q (stripes s ! i)]"
    and same: "options s' = options s" "pool_stopped s' = pool_stopped s" "async_tasks s' = async_tasks s"
      "next_task_id s' = next_task_id s" "accepted_log s' = accepted_log s" "started_log s' = started_log s"
      "current_pending_tasks s' = current_pending_tasks s" "current_active_tasks s' = current_active_tasks s"
      "pending_completions s' = pending_completions s" "counters s' = counters s"
    and fin: "places_finite s'"
    and job: "job_ok s'"
    and live: "\<And>f. acct (live_weight f) s' = acct (live_weight f) s" "\<And>f. acct (run_weight f) s' \<le> acct (run_weight f) s"
    and tok: "\<And>x. acct (token_weight x) s' + one_if (x = KeySlot i k) = one_if (x = KeySlot i k \<and> q \<noteq> []) + acct (token_weight x) s"
    and lane: "\<And>j. acct (lane_weight j) s' + one_if (j = i) = acct (lane_weight j) s"
    and inflight: "\<And>j. acct (inflight_weight j) s' = acct (inflight_weight j) s"
    and cnt: "pending_internal_jobs s' = acct internal_weight s'" "pending_async_tasks s' = acct async_weight s'"
      "acct active_weight s' = acct active_weight s" "\<And>g. acct (dispatched_weight g) s' = acct (dispatched_weight g) s"
  shows "executor_ok s'"
proof -
  note p = okD [OF ok]
  note slots = slot_facts_retired [OF i q st]
  have "base_ok s'" using p(1) fin by (simp add: base_ok_def same st)
  moreover have "live_ok s'"
    using p(2) live unfolding live_ok_def same by (auto intro: order_trans)
  moreover have "token_ok s'"
  proof (rule token_ok_upd [OF p(3) i st])
    show "acct (token_weight x) s' = one_if (slot_busy s' x)" for x
      using tok [of x] token_at [OF p(3), of x] busy unfolding slots(1)
      by (cases "x = KeySlot i k") (auto simp: one_if_def simp del: slot_busy.simps split: if_splits)
  qed (use p(3) i in \<open>auto simp: token_ok_def retire_def\<close>)
  moreover have "lane_ok s'"
  proof (rule lane_ok_upd [OF p(4) i st same(1)])
    show "isolated_pending (retire k q (stripes s ! i)) = acct (lane_weight i) s'"
      "isolated_pending (retire k q (stripes s ! i)) \<le> per_stripe_queue_capacity (options s)"
      "length (stripe_queue (retire k q (stripes s ! i))) + acct (inflight_weight i) s' \<le> per_stripe_queue_capacity (options s)"
      using lane_okD [OF p(4) i] lane [of i] held inflight [of i] by (simp_all add: retire_def)
    show "j \<noteq> i \<Longrightarrow> acct (lane_weight j) s' = acct (lane_weight j) s" for j using lane [of j] by simp
  qed (rule inflight)
  moreover have "counter_ok s'"
    using p(6) cnt(1,2) unfolding counter_ok_def cnt(3,4) same by simp
  moreover have "fifo_ok s'" by (rule fifo_same [OF p(7) slots(2)]) (simp_all add: same)
  ultimately show ?thesis using job by (simp add: executor_ok_def)
qed

lemma lane_weight_holder:
  assumes "places_finite s" "workers s w = Some (b, a)" "holds_slot a" "activity_slot a = Some (KeySlot i k)"
  shows "acct (lane_weight i) s \<noteq> 0"
proof -
  have "(\<lambda>_ (b, a). worker_w (lane_weight i) b a) w (b, a) \<le> msum (\<lambda>_ (b, a). worker_w (lane_weight i) b a) (workers s)"
    using assms(1,2) by (intro msum_member_le) simp_all
  with assms(3,4) show ?thesis by (simp add: acct_def)
qed

lemma after_execute_key_ok:
  assumes ok: "executor_ok s" and w: "workers s w = Some (b, Returned (FromKey i k))"
  shows "\<exists>s'. after_execute w s = Some s' \<and> executor_ok s'"
proof -
  note p = okD [OF ok]
  have busy: "slot_busy s (KeySlot i k)" using token_at_worker(1) [OF p(8) w _ p(3)] by simp
  then obtain q where i: "i < length (stripes s)" and q: "lanes (stripes s ! i) k = Some q" by auto
  have held: "acct (lane_weight i) s \<noteq> 0" by (rule lane_weight_holder [OF p(8) w]) simp_all
  have pos: "0 < isolated_pending (stripes s ! i)" using lane_okD(1) [OF p(4) i] held by simp
  define s1 where "s1 = upd_stripe i (retire k q) s"
  define s' where "s' = (if q = [] then end_job w s1 else set_worker w (AtDrainKey i k) s1)"
  have w1: "workers s1 w = Some (b, Returned (FromKey i k))" and fin1: "places_finite s1"
    using w p(8) by (simp_all add: s1_def)
  have a: "acct W s' + worker_w W b (Returned (FromKey i k)) + stripe_w W i (stripes s ! i)
      = (if q = [] then 0 else worker_w W b (AtDrainKey i k)) + stripe_w W i (retire k q (stripes s ! i)) + acct W s" for W
    using acct_stripe [OF i, of W "retire k q"] acct_end_job [OF fin1 w1, of W] acct_set_worker [OF fin1 w1, of W "AtDrainKey i k"]
    by (simp add: s'_def s1_def [symmetric])
  have st: "stripes s' = (stripes s)[i := retire k q (stripes s ! i)]" by (simp add: s'_def s1_def)
  note slots = slot_facts_retired [OF i q st]
  have "after_execute w s = Some s'"
    using w CompleteKeyTask_eq [OF q pos] by (auto simp: after_execute_def s'_def s1_def)
  moreover have "executor_ok s'"
  proof (rule retired_ok [OF ok i q held busy st])
    show "job_ok s'" using p(5) unfolding job_ok_def slots(2) by (simp add: s'_def s1_def del: slot_queue.simps)
    show "acct (live_weight f) s' = acct (live_weight f) s" "acct (run_weight f) s' \<le> acct (run_weight f) s" for f
      using a [of "live_weight f"] a [of "run_weight f"] retire_weights(1,2) [OF q, of f] by (simp_all split: if_splits)
    show "acct (token_weight x) s' + one_if (x = KeySlot i k) = one_if (x = KeySlot i k \<and> q \<noteq> []) + acct (token_weight x) s" for x
      using a [of "token_weight x"] by (auto simp: eq_commute [of x] one_if_def split: if_splits)
    show "acct (lane_weight j) s' + one_if (j = i) = acct (lane_weight j) s" for j
      using a [of "lane_weight j"] retire_weights(3) [OF q, of j i] by (auto simp: one_if_def split: if_splits)
    show "acct (inflight_weight j) s' = acct (inflight_weight j) s" for j
      using a [of "inflight_weight j"] by (simp split: if_splits)
    show "pending_internal_jobs s' = acct internal_weight s'"
      using a [of internal_weight] p(6) w by (auto simp: counter_ok_def s'_def s1_def end_job_def one_if_def split: if_splits)
    show "pending_async_tasks s' = acct async_weight s'"
      using a [of async_weight] p(6) by (auto simp: counter_ok_def s'_def s1_def split: if_splits)
    show "acct active_weight s' = acct active_weight s" using a [of active_weight] by (simp split: if_splits)
    show "acct (dispatched_weight g) s' = acct (dispatched_weight g) s" for g
      using a [of "dispatched_weight g"] by (simp split: if_splits)
    show "places_finite s'" using fin1 by (simp add: s'_def)
  qed (simp_all add: s'_def s1_def)
  ultimately show ?thesis by blast
qed

lemma DrainKey_empty_ok:
  assumes ok: "executor_ok s" and w: "workers s w = Some (b, AtDrainKey i k)" and i: "i < length (stripes s)"
    and q: "lanes (stripes s ! i) k = Some []"
  shows "executor_ok (DrainKey w s)" (is "executor_ok ?s")
proof -
  note p = okD [OF ok]
  let ?st = "(stripes s ! i)\<lparr>lanes := (lanes (stripes s ! i))(k := None)\<rparr>"
  have s': "?s = end_job w (upd_stripe i (\<lambda>st. st\<lparr>lanes := (lanes st)(k := None)\<rparr>) s)"
    using w i q by (simp add: DrainKey_def)
  have a: "acct W ?s + worker_w W b (AtDrainKey i k) + stripe_w W i (stripes s ! i) = stripe_w W i ?st + acct W s" for W
    by (rule acct_DrainKey_empty [OF p(8) w i q])
  have lanes: "msum g ((lanes (stripes s ! i))(k := None)) + g k [] = msum g (lanes (stripes s ! i))" for g
    using msum_upd [of "lanes (stripes s ! i)" g k None] q by simp
  have st: "stripes ?s = (stripes s)[i := ?st]" by (simp add: s')
  have queues: "slot_queue ?s x = slot_queue s x" for x
    using slot_upd(1,2) [OF i st] q i by (cases x) (auto split: option.split)
  have busy: "slot_busy ?s x = (slot_busy s x \<and> x \<noteq> KeySlot i k)" for x
    using slot_upd(3,4) [OF i st] i by (cases x) auto
  have run: "slot_busy s (KeySlot i k)" using token_at_worker(1) [OF p(8) w _ p(3)] by simp
  have "base_ok ?s" using p(1,8) by (simp add: base_ok_def s')
  moreover have "live_ok ?s"
  proof (rule live_same [OF p(2)])
    show "acct (live_weight f) ?s = acct (live_weight f) s" for f
      using a [of "live_weight f"] lanes [of "\<lambda>_. ids_weight f"] by (simp add: ids_weight_def)
    show "acct (run_weight f) ?s = acct (run_weight f) s" for f
      using a [of "run_weight f"] lanes [of "\<lambda>_. ids_weight f"] by (simp add: ids_weight_def)
  qed (simp_all add: s')
  moreover have "token_ok ?s"
  proof (rule token_ok_upd [OF p(3) i st])
    show "acct (token_weight x) ?s = one_if (slot_busy ?s x)" for x
      using a [of "token_weight x"] token_at [OF p(3), of x] run unfolding busy
      by (cases "x = KeySlot i k") (auto simp: one_if_def simp del: slot_busy.simps)
  qed (use p(3) i in \<open>auto simp: token_ok_def\<close>)
  moreover have "lane_ok ?s"
  proof (rule lane_ok_upd [OF p(4) i st])
    show "acct (lane_weight j) ?s = acct (lane_weight j) s" "acct (inflight_weight j) ?s = acct (inflight_weight j) s" for j
      using a [of "lane_weight j"] a [of "inflight_weight j"] lanes [of "\<lambda>_. length"] by (auto split: if_splits)
    then show "isolated_pending ?st = acct (lane_weight i) ?s"
      "isolated_pending ?st \<le> per_stripe_queue_capacity (options s)"
      "length (stripe_queue ?st) + acct (inflight_weight i) ?s \<le> per_stripe_queue_capacity (options s)"
      using lane_okD [OF p(4) i] by simp_all
  qed (simp add: s')
  moreover have "job_ok ?s" using p(5) queues by (simp add: job_ok_def s' del: slot_queue.simps)
  moreover have "fifo_ok ?s" by (rule fifo_same [OF p(7) queues]) (simp_all add: s')
  moreover have "pending_internal_jobs ?s = pending_internal_jobs s - one_if b"
    using w by (simp add: s' end_job_def one_if_def)
  with p(6) a [of internal_weight] a [of active_weight] a [of async_weight] a [of "dispatched_weight (\<lambda>_. 1)"]
      a [of "dispatched_weight one_if"] have "counter_ok ?s"
    unfolding counter_ok_def by (auto simp: s')
  ultimately show ?thesis by (simp add: executor_ok_def)
qed

lemma DrainKey_ok:
  assumes ok: "executor_ok s"
  shows "executor_ok (DrainKey w s)"
proof (cases "\<exists>b i k. workers s w = Some (b, AtDrainKey i k)")
  case False
  then have "DrainKey w s = s"
    by (auto simp: DrainKey_def split: option.split prod.split Activity.split)
  with ok show ?thesis by simp
next
  case True
  then obtain b i k where w: "workers s w = Some (b, AtDrainKey i k)" by blast
  have "slot_busy s (KeySlot i k)" using token_at_worker(1) [OF okD(8) [OF ok] w _ okD(3) [OF ok]] by simp
  then obtain q where i: "i < length (stripes s)" and q: "lanes (stripes s ! i) k = Some q" by auto
  show ?thesis
    using DrainKey_empty_ok [OF ok w i] DrainKey_task_ok [OF ok w i] q by (cases q) auto
qed

text \<open>A worker that leaves, or goes on with, a job that is no task: the other returns of \<open>ExecuteTask\<close>.\<close>

lemma after_execute_pool_ok:
  assumes ok: "executor_ok s" and w: "workers s w = Some (b, Returned FromPool)"
  shows "executor_ok (end_job w s)" (is "executor_ok ?s")
proof -
  note p = okD [OF ok]
  have a: "acct W ?s + worker_w W b (Returned FromPool) = acct W s" for W
    using acct_end_job [OF p(8) w, of W] by simp
  have "base_ok ?s" using p(1,8) by (simp add: base_ok_def)
  moreover have "live_ok ?s"
  proof (rule live_same [OF p(2)])
    show "acct (live_weight f) ?s = acct (live_weight f) s" "acct (run_weight f) ?s = acct (run_weight f) s" for f
      using a [of "live_weight f"] a [of "run_weight f"] by simp_all
  qed simp_all
  moreover have "token_ok ?s \<and> lane_ok ?s \<and> fifo_ok ?s"
  proof (rule frame_slots [OF p(3,4,7)])
    show "acct (token_weight x) ?s = acct (token_weight x) s" for x using a [of "token_weight x"] by simp
    show "acct (lane_weight i) ?s = acct (lane_weight i) s" "acct (inflight_weight i) ?s = acct (inflight_weight i) s" for i
      using a [of "lane_weight i"] a [of "inflight_weight i"] by simp_all
  qed simp_all
  moreover have "job_ok ?s" by (rule frame_job [OF p(5)]) simp_all
  moreover have "pending_internal_jobs ?s = pending_internal_jobs s - one_if b"
    using w by (simp add: end_job_def one_if_def)
  with p(6) a [of internal_weight] a [of active_weight] a [of async_weight] a [of "dispatched_weight (\<lambda>_. 1)"]
      a [of "dispatched_weight one_if"] have "counter_ok ?s"
    unfolding counter_ok_def by auto
  ultimately show ?thesis by (simp add: executor_ok_def)
qed

lemma after_execute_stripe_ok:
  assumes ok: "executor_ok s" and w: "workers s w = Some (b, Returned (FromStripe i))"
  shows "executor_ok (set_worker w (AtDrainStripe i) s)" (is "executor_ok ?s")
proof -
  note p = okD [OF ok]
  have a: "acct W ?s + worker_w W b (Returned (FromStripe i)) = worker_w W b (AtDrainStripe i) + acct W s" for W
    using acct_set_worker [OF p(8) w, of W] by simp
  have "base_ok ?s" using p(1,8) by (simp add: base_ok_def)
  moreover have "live_ok ?s"
  proof (rule live_same [OF p(2)])
    show "acct (live_weight f) ?s = acct (live_weight f) s" "acct (run_weight f) ?s = acct (run_weight f) s" for f
      using a [of "live_weight f"] a [of "run_weight f"] by simp_all
  qed simp_all
  moreover have "token_ok ?s" using p(3) a [of "token_weight _"]
    by (simp add: token_ok_def slots_same(1) [of ?s s] del: slot_busy.simps)
  moreover have "lane_ok ?s"
    unfolding lane_ok_def
  proof (intro allI impI)
    fix j
    assume "j < length (stripes ?s)"
    then show "isolated_pending (stripes ?s ! j) = acct (lane_weight j) ?s
      \<and> isolated_pending (stripes ?s ! j) \<le> per_stripe_queue_capacity (options ?s)
      \<and> length (stripe_queue (stripes ?s ! j)) + acct (inflight_weight j) ?s \<le> per_stripe_queue_capacity (options ?s)"
      using lane_okD [OF p(4), of j] a [of "lane_weight j"] a [of "inflight_weight j"] by simp
  qed
  moreover have "fifo_ok ?s" by (rule fifo_same [OF p(7) slots_same(2)]) simp_all
  moreover have "job_ok ?s" by (rule frame_job [OF p(5)]) simp_all
  moreover have "counter_ok ?s"
    using p(6) a [of internal_weight] a [of active_weight] a [of async_weight] a [of "dispatched_weight (\<lambda>_. 1)"]
      a [of "dispatched_weight one_if"] unfolding counter_ok_def by simp
  ultimately show ?thesis by (simp add: executor_ok_def)
qed

lemma after_execute_ok:
  assumes ok: "executor_ok s"
  shows "\<exists>s'. after_execute w s = Some s' \<and> executor_ok s'"
proof (cases "\<exists>b origin. workers s w = Some (b, Returned origin)")
  case False
  then have "after_execute w s = Some s"
    by (auto simp: after_execute_def split: option.split prod.split Activity.split)
  with ok show ?thesis by simp
next
  case True
  then obtain b origin where w: "workers s w = Some (b, Returned origin)" by blast
  show ?thesis
  proof (cases origin)
    case FromPool
    with w after_execute_pool_ok [OF ok, of w b] show ?thesis by (simp add: after_execute_def)
  next
    case (FromStripe i)
    with w after_execute_stripe_ok [OF ok, of w b i] show ?thesis by (simp add: after_execute_def)
  next
    case (FromKey i k)
    with w after_execute_key_ok [OF ok, of w b i k] show ?thesis by simp
  qed
qed

section \<open>The pool's queue never fills up\<close>

definition job_slots :: "(bool \<times> Job) list \<Rightarrow> Slot list" where
  "job_slots q = concat (map (\<lambda>(b, j). case job_slot j of None \<Rightarrow> [] | Some x \<Rightarrow> [x]) q)"

lemma job_slots_simps [simp]:
  "job_slots [] = []"
  "job_slots ((b, j) # q) = (case job_slot j of None \<Rightarrow> [] | Some x \<Rightarrow> [x]) @ job_slots q"
  by (simp_all add: job_slots_def)

lemma set_job_slots: "x \<in> set (job_slots q) \<longleftrightarrow> (\<exists>b j. (b, j) \<in> set q \<and> job_slot j = Some x)"
  by (force simp: job_slots_def split: option.splits)

lemma job_slots_counted: "x \<in> set (job_slots q) \<Longrightarrow> 1 \<le> pool_sum (token_weight x) q"
  by (induction q) (auto split: option.splits)

lemma job_slots_distinct: "(\<And>x. pool_sum (token_weight x) q \<le> 1) \<Longrightarrow> distinct (job_slots q)"
proof (induction q)
  case (Cons p q)
  obtain b j where p: "p = (b, j)" by (cases p)
  have le: "one_if (job_slot j = Some x) + pool_sum (token_weight x) q \<le> 1" for x using Cons.prems [of x] p by simp
  then have "distinct (job_slots q)" by (intro Cons.IH) (metis add_leD2)
  moreover have "x \<notin> set (job_slots q)" if "job_slot j = Some x" for x
    using job_slots_counted [of x q] le [of x] that by auto
  ultimately show ?case by (auto simp: p split: option.split)
qed simp

lemma pool_length_split:
  "length q = length (job_slots q) + length (continuations q) + pool_sum (live_weight (\<lambda>_. 1)) q"
proof (induction q)
  case (Cons p q)
  obtain b j where "p = (b, j)" by (cases p)
  with Cons show ?case by (cases j) auto
qed simp

lemma msum_one: "finite (dom m) \<Longrightarrow> msum (\<lambda>_ _. 1) m = card (dom m)"
  by (simp add: msum_def)

lemma nonempty_lanes_le:
  assumes "finite (dom m)"
  shows "card {k. \<exists>t q. m k = Some (t # q)} \<le> msum (\<lambda>_. ids_weight (\<lambda>_. 1)) m"
proof -
  let ?K = "{k. \<exists>t q. m k = Some (t # q)}"
  have "card ?K = (\<Sum>k\<in>?K. 1)" by simp
  also have "\<dots> \<le> (\<Sum>k\<in>?K. ids_weight (\<lambda>_. 1) (the (m k)))"
    by (rule sum_mono) (auto simp: ids_weight_def)
  also have "\<dots> \<le> (\<Sum>k\<in>dom m. ids_weight (\<lambda>_. 1) (the (m k)))"
    using assms by (intro sum_mono2) auto
  finally show ?thesis by (simp add: msum_def)
qed

lemma waiting_slots_le:
  assumes "places_finite s"
  shows "finite {x. \<exists>i k. x = KeySlot i k \<and> slot_queue s x \<noteq> []}"
    and "card {x. \<exists>i k. x = KeySlot i k \<and> slot_queue s x \<noteq> []} \<le> stripe_sum (live_weight (\<lambda>_. 1)) (stripes s)"
proof -
  define K where "K i = {k. \<exists>t q. lanes (stripes s ! i) k = Some (t # q)}" for i
  have fin: "finite (dom (lanes (stripes s ! i)))" if "i < length (stripes s)" for i
    using assms that by (simp add: places_finite_def del: places_finiteD)
  then have finK: "finite (K i)" if "i < length (stripes s)" for i
    using that by (rule_tac finite_subset [of _ "dom (lanes (stripes s ! i))"]) (auto simp: K_def)
  have eq: "{x. \<exists>i k. x = KeySlot i k \<and> slot_queue s x \<noteq> []} = (\<Union>i\<in>{..<length (stripes s)}. KeySlot i ` K i)"
    by (auto simp: K_def neq_Nil_conv split: if_splits option.splits)
  show "finite {x. \<exists>i k. x = KeySlot i k \<and> slot_queue s x \<noteq> []}" unfolding eq using finK by auto
  have "card (\<Union>i\<in>{..<length (stripes s)}. KeySlot i ` K i) \<le> (\<Sum>i<length (stripes s). card (KeySlot i ` K i))"
    by (rule card_UN_le) simp
  also have "\<dots> \<le> (\<Sum>i<length (stripes s). stripe_w (live_weight (\<lambda>_. 1)) i (stripes s ! i))"
  proof (rule sum_mono)
    fix i
    assume "i \<in> {..<length (stripes s)}"
    then have i: "i < length (stripes s)" by simp
    have "card (KeySlot i ` K i) \<le> card (K i)" by (rule card_image_le [OF finK [OF i]])
    also have "\<dots> \<le> msum (\<lambda>_. ids_weight (\<lambda>_. 1)) (lanes (stripes s ! i))"
      unfolding K_def by (rule nonempty_lanes_le [OF fin [OF i]])
    finally show "card (KeySlot i ` K i) \<le> stripe_w (live_weight (\<lambda>_. 1)) i (stripes s ! i)" by simp
  qed
  finally show "card {x. \<exists>i k. x = KeySlot i k \<and> slot_queue s x \<noteq> []} \<le> stripe_sum (live_weight (\<lambda>_. 1)) (stripes s)"
    unfolding eq stripe_sum_def .
qed

text \<open>Every job in the queue is backed by a pending task or a stripe, so the pool's capacity, twice the budget plus the
  stripes plus the workers, is never reached.\<close>

lemma pool_bound:
  assumes ok: "executor_ok s"
  shows "length (pool_queue s) \<le> current_pending_tasks s + stripe_count (options s)"
proof -
  note p = okD [OF ok]
  let ?q = "pool_queue s" and ?W = "live_weight (\<lambda>_. 1)"
  let ?S = "StripeSlot ` {..<length (stripes s)}" and ?L = "{x. \<exists>i k. x = KeySlot i k \<and> slot_queue s x \<noteq> []}"
  have tok: "pool_sum (token_weight x) ?q \<le> one_if (slot_busy s x)" for x
    using token_at [OF p(3), of x] by (simp add: acct_def del: slot_busy.simps)
  have "pool_sum (token_weight x) ?q \<le> 1" for x
    using tok [of x] by (rule order_trans) (simp add: one_if_def)
  then have "length (job_slots ?q) = card (set (job_slots ?q))"
    by (simp add: job_slots_distinct distinct_card)
  also have "\<dots> \<le> card (?S \<union> ?L)"
  proof (rule card_mono)
    show "set (job_slots ?q) \<subseteq> ?S \<union> ?L"
    proof
      fix x
      assume x: "x \<in> set (job_slots ?q)"
      then obtain b j where j: "(b, j) \<in> set ?q" "job_slot j = Some x" unfolding set_job_slots by blast
      have "slot_busy s x" using job_slots_counted [OF x] tok [of x] by (cases "slot_busy s x") auto
      then show "x \<in> ?S \<union> ?L"
        using j p(5) by (cases j) (auto simp: job_ok_def simp del: slot_queue.simps)
    qed
  qed (use waiting_slots_le(1) [OF p(8)] in simp)
  also have "\<dots> \<le> card ?S + card ?L" by (rule card_Un_le)
  also have "\<dots> \<le> length (stripes s) + stripe_sum ?W (stripes s)"
    using waiting_slots_le(2) [OF p(8)] card_image_le [of "{..<length (stripes s)}" StripeSlot] by simp
  finally have slots: "length (job_slots ?q) \<le> length (stripes s) + stripe_sum ?W (stripes s)" .
  have "length (continuations ?q) = card (set (continuations ?q))"
    using p(5) by (simp add: job_ok_def distinct_card)
  also have "\<dots> \<le> card (dom (async_tasks s))"
    using p(5,8) by (intro card_mono) (simp_all add: job_ok_def)
  also have "\<dots> = msum (async_w ?W) (async_tasks s)" using msum_one [of "async_tasks s"] p(8) by (simp add: live_weight_def)
  finally have cont: "length (continuations ?q) \<le> msum (async_w ?W) (async_tasks s)" .
  have "current_pending_tasks s = acct ?W s" "length (stripes s) = stripe_count (options s)"
    using p(1,2) by (simp_all add: live_ok_def base_ok_def)
  then show ?thesis using pool_length_split [of ?q] slots cont by (simp add: acct_def)
qed

lemma pool_room:
  assumes ok: "executor_ok s"
  shows "length (pool_queue s) \<le> queue_capacity (options s)"
  using pool_bound [OF ok] okD(2) [OF ok] by (simp add: live_ok_def queue_capacity_def)

text \<open>So a job can be pushed whenever the state after the push would keep the invariant.\<close>

lemma TrySubmit_push:
  assumes "executor_ok (f (s\<lparr>pool_queue := pool_queue s @ [(b, j)]\<rparr>))"
    and "pool_queue (f (s\<lparr>pool_queue := pool_queue s @ [(b, j)]\<rparr>)) = pool_queue s @ [(b, j)]"
    and "options (f (s\<lparr>pool_queue := pool_queue s @ [(b, j)]\<rparr>)) = options s" and "\<not> pool_stopped s"
  shows "TrySubmit b j s = (kOk, s\<lparr>pool_queue := pool_queue s @ [(b, j)]\<rparr>)"
  using pool_room [OF assms(1)] assms(2-4) by (simp add: TrySubmit_def)

section \<open>Internal jobs\<close>

definition posted :: "Job \<Rightarrow> BusinessExecutor \<Rightarrow> BusinessExecutor" where
  "posted j s = s\<lparr>pending_internal_jobs := pending_internal_jobs s + 1, pool_queue := pool_queue s @ [(True, j)]\<rparr>"

lemma posted_fields [simp]:
  "options (posted j s) = options s" "pool_stopped (posted j s) = pool_stopped s"
  "pool_queue (posted j s) = pool_queue s @ [(True, j)]" "stripes (posted j s) = stripes s"
  "workers (posted j s) = workers s" "async_tasks (posted j s) = async_tasks s" "finishing (posted j s) = finishing s"
  "dispatched (posted j s) = dispatched s" "next_task_id (posted j s) = next_task_id s"
  "current_active_tasks (posted j s) = current_active_tasks s"
  "pending_async_tasks (posted j s) = pending_async_tasks s"
  "pending_internal_jobs (posted j s) = pending_internal_jobs s + 1"
  "pending_completions (posted j s) = pending_completions s"
  "accepted_log (posted j s) = accepted_log s" "started_log (posted j s) = started_log s"
  "counters (posted j s) = counters s" "current_pending_tasks (posted j s) = current_pending_tasks s"
  by (simp_all add: posted_def)

lemma posted_finite [simp]: "places_finite (posted j s) = places_finite s"
  by (simp add: places_finite_def del: places_finiteD)

lemma acct_posted: "acct W (posted j s) = job_w W True j + acct W s"
  by (simp add: acct_def)

lemma PostInternal_ok:
  assumes "executor_ok (posted j s)"
  shows "PostInternal j s = Some (posted j s)"
proof -
  have "\<not> pool_stopped s" using okD(1) [OF assms] by (simp add: base_ok_def)
  moreover have "length (pool_queue s) < queue_capacity (options s)" using pool_room [OF assms] by simp
  ultimately show ?thesis by (simp add: PostInternal_def TrySubmit_def posted_def)
qed

text \<open>A finishing asynchronous task leaves; \<open>left\<close> is what \<open>FinishAsync\<close> has done before it schedules a successor.\<close>

definition left :: "nat \<Rightarrow> BusinessExecutor \<Rightarrow> BusinessExecutor" where
  "left tid s = s\<lparr>finishing := (finishing s)(tid := None), pending_async_tasks := pending_async_tasks s - 1\<rparr>"

lemma left_fields [simp]:
  "options (left tid s) = options s" "pool_stopped (left tid s) = pool_stopped s"
  "pool_queue (left tid s) = pool_queue s" "stripes (left tid s) = stripes s"
  "workers (left tid s) = workers s" "async_tasks (left tid s) = async_tasks s"
  "finishing (left tid s) = (finishing s)(tid := None)"
  "dispatched (left tid s) = dispatched s" "next_task_id (left tid s) = next_task_id s"
  "current_active_tasks (left tid s) = current_active_tasks s"
  "pending_async_tasks (left tid s) = pending_async_tasks s - 1"
  "pending_internal_jobs (left tid s) = pending_internal_jobs s"
  "pending_completions (left tid s) = pending_completions s"
  "accepted_log (left tid s) = accepted_log s" "started_log (left tid s) = started_log s"
  "counters (left tid s) = counters s" "current_pending_tasks (left tid s) = current_pending_tasks s"
  by (simp_all add: left_def)

lemma left_finite [simp]: "places_finite s \<Longrightarrow> places_finite (left tid s)"
  by (simp add: left_def)

lemma acct_left:
  assumes "places_finite s" "finishing s tid = Some t"
  shows "acct W (left tid s) + finishing_w W tid t = acct W s"
  using acct_finishing [OF assms(1), of W tid None] assms(2) by (simp add: left_def)

lemma live_run_le:
  assumes "live_ok s" and "options s' = options s" "next_task_id s' = next_task_id s"
    "current_pending_tasks s' = current_pending_tasks s" and "\<And>f. acct (live_weight f) s' = acct (live_weight f) s"
    and "\<And>f. acct (run_weight f) s' \<le> acct (run_weight f) s"
  shows "live_ok s'"
  using assms unfolding live_ok_def by (auto intro: order_trans)

lemma FinishAsync_tail_none_ok:
  assumes ok: "executor_ok s" and t: "finishing s tid = Some t" and x: "async_slot t = None"
  shows "executor_ok (left tid s)" (is "executor_ok ?s")
proof -
  note p = okD [OF ok]
  note a = acct_left [OF p(8) t]
  have "base_ok ?s" using p(1,8) by (simp add: base_ok_def)
  moreover have "live_ok ?s"
  proof (rule live_run_le [OF p(2)])
    show "acct (live_weight f) ?s = acct (live_weight f) s" "acct (run_weight f) ?s \<le> acct (run_weight f) s" for f
      using a [of "live_weight f"] a [of "run_weight f"] by simp_all
  qed simp_all
  moreover have "token_ok ?s \<and> lane_ok ?s \<and> fifo_ok ?s"
  proof (rule frame_slots [OF p(3,4,7)])
    show "acct (token_weight y) ?s = acct (token_weight y) s" for y using a [of "token_weight y"] x by simp
    show "acct (lane_weight i) ?s = acct (lane_weight i) s" "acct (inflight_weight i) ?s = acct (inflight_weight i) s" for i
      using a [of "lane_weight i"] a [of "inflight_weight i"] x by simp_all
  qed simp_all
  moreover have "job_ok ?s" by (rule frame_job [OF p(5)]) simp_all
  moreover have "counter_ok ?s"
    using p(6) a [of internal_weight] a [of active_weight] a [of async_weight] a [of "dispatched_weight (\<lambda>_. 1)"]
      a [of "dispatched_weight one_if"] unfolding counter_ok_def by auto
  ultimately show ?thesis by (simp add: executor_ok_def)
qed

lemma FinishAsync_tail_stripe_ok:
  assumes ok: "executor_ok s" and t: "finishing s tid = Some t" and x: "async_slot t = Some (StripeSlot i)"
  shows "executor_ok (posted (JobDrainStripe i) (left tid s))" (is "executor_ok ?s")
proof -
  note p = okD [OF ok]
  have a: "acct W ?s + finishing_w W tid t = job_w W True (JobDrainStripe i) + acct W s" for W
    using acct_left [OF p(8) t, of W] by (simp add: acct_posted)
  have "base_ok ?s" using p(1,8) by (simp add: base_ok_def)
  moreover have "live_ok ?s"
  proof (rule live_run_le [OF p(2)])
    show "acct (live_weight f) ?s = acct (live_weight f) s" "acct (run_weight f) ?s \<le> acct (run_weight f) s" for f
      using a [of "live_weight f"] a [of "run_weight f"] by simp_all
  qed simp_all
  moreover have "token_ok ?s" using p(3) a [of "token_weight _"] x
    by (simp add: token_ok_def slots_same(1) [of ?s s] del: slot_busy.simps)
  moreover have "lane_ok ?s"
    unfolding lane_ok_def
  proof (intro allI impI)
    fix j
    assume "j < length (stripes ?s)"
    then show "isolated_pending (stripes ?s ! j) = acct (lane_weight j) ?s
      \<and> isolated_pending (stripes ?s ! j) \<le> per_stripe_queue_capacity (options ?s)
      \<and> length (stripe_queue (stripes ?s ! j)) + acct (inflight_weight j) ?s \<le> per_stripe_queue_capacity (options ?s)"
      using lane_okD [OF p(4), of j] a [of "lane_weight j"] a [of "inflight_weight j"] x by simp
  qed
  moreover have "fifo_ok ?s" by (rule fifo_same [OF p(7) slots_same(2)]) simp_all
  moreover have "job_ok ?s" using p(5) unfolding job_ok_def slots_same(2) [of ?s s, simplified]
    by (auto simp del: slot_queue.simps)
  moreover have "counter_ok ?s"
    using p(6) a [of internal_weight] a [of active_weight] a [of async_weight] a [of "dispatched_weight (\<lambda>_. 1)"]
      a [of "dispatched_weight one_if"] unfolding counter_ok_def by auto
  ultimately show ?thesis by (simp add: executor_ok_def)
qed

lemma finishing_slot:
  assumes "executor_ok s" "finishing s tid = Some t" "async_slot t = Some x"
  shows "slot_busy s x" "x = KeySlot i k \<Longrightarrow> acct (lane_weight i) s \<noteq> 0"
proof -
  note p = okD [OF assms(1)]
  have le: "finishing_w W tid t \<le> msum (finishing_w W) (finishing s)" for W
    using assms(2) p(8) by (intro msum_member_le) simp_all
  have "acct (token_weight x) s \<noteq> 0" using le [of "token_weight x"] assms(3) by (simp add: acct_def)
  then show "slot_busy s x" using token_at [OF p(3), of x] by (simp del: slot_busy.simps)
  show "x = KeySlot i k \<Longrightarrow> acct (lane_weight i) s \<noteq> 0"
    using le [of "lane_weight i"] assms(3) by (simp add: acct_def)
qed

lemma FinishAsync_tail_key_ok:
  assumes ok: "executor_ok s" and t: "finishing s tid = Some t" and x: "async_slot t = Some (KeySlot i k)"
  shows "\<exists>more s'. CompleteKeyTask i k (left tid s) = Some (more, s')
    \<and> executor_ok (if more then posted (JobDrainKey i k) s' else s')"
proof -
  note p = okD [OF ok]
  have busy: "slot_busy s (KeySlot i k)" and held: "acct (lane_weight i) s \<noteq> 0"
    using finishing_slot [OF ok t x] by simp_all
  then obtain q where i: "i < length (stripes s)" and q: "lanes (stripes s ! i) k = Some q" by auto
  have pos: "0 < isolated_pending (stripes s ! i)" using lane_okD(1) [OF p(4) i] held by simp
  define s1 where "s1 = upd_stripe i (retire k q) (left tid s)"
  define s' where "s' = (if q = [] then s1 else posted (JobDrainKey i k) s1)"
  have a: "acct W s' + finishing_w W tid t + stripe_w W i (stripes s ! i)
      = (if q = [] then 0 else job_w W True (JobDrainKey i k)) + stripe_w W i (retire k q (stripes s ! i)) + acct W s" for W
    using acct_stripe [of i "left tid s" W "retire k q"] i acct_left [OF p(8) t, of W]
    by (cases "q = []") (simp_all add: s'_def s1_def acct_posted)
  have st: "stripes s' = (stripes s)[i := retire k q (stripes s ! i)]" by (simp add: s'_def s1_def)
  note slots = slot_facts_retired [OF i q st]
  have "CompleteKeyTask i k (left tid s) = Some (q \<noteq> [], s1)"
    using CompleteKeyTask_eq [of "left tid s" i k q] q pos by (simp add: s1_def)
  moreover have "executor_ok s'"
  proof (rule retired_ok [OF ok i q held busy st])
    show "job_ok s'" using p(5) q i unfolding job_ok_def slots(2)
      by (auto simp: s'_def s1_def split: if_splits)
    show "acct (live_weight f) s' = acct (live_weight f) s" "acct (run_weight f) s' \<le> acct (run_weight f) s" for f
      using a [of "live_weight f"] a [of "run_weight f"] retire_weights(1,2) [OF q, of f] by (simp_all split: if_splits)
    show "acct (token_weight y) s' + one_if (y = KeySlot i k) = one_if (y = KeySlot i k \<and> q \<noteq> []) + acct (token_weight y) s" for y
      using a [of "token_weight y"] x by (auto simp: eq_commute [of y] one_if_def split: if_splits)
    show "acct (lane_weight j) s' + one_if (j = i) = acct (lane_weight j) s" for j
      using a [of "lane_weight j"] retire_weights(3) [OF q, of j i] x by (auto simp: one_if_def split: if_splits)
    show "acct (inflight_weight j) s' = acct (inflight_weight j) s" for j
      using a [of "inflight_weight j"] x by (simp split: if_splits)
    show "pending_internal_jobs s' = acct internal_weight s'"
      using a [of internal_weight] p(6) by (auto simp: counter_ok_def s'_def s1_def one_if_def split: if_splits)
    show "pending_async_tasks s' = acct async_weight s'"
      using a [of async_weight] p(6) by (auto simp: counter_ok_def s'_def s1_def split: if_splits)
    show "acct active_weight s' = acct active_weight s" using a [of active_weight] by (simp split: if_splits)
    show "acct (dispatched_weight g) s' = acct (dispatched_weight g) s" for g
      using a [of "dispatched_weight g"] by (simp split: if_splits)
    show "places_finite s'" using p(8) by (simp add: s'_def s1_def)
  qed (simp_all add: s'_def s1_def)
  ultimately show ?thesis by (intro exI [of _ "q \<noteq> []"] exI [of _ s1]) (simp add: s'_def split: if_splits)
qed

lemma FinishAsync_tail_ok:
  assumes ok: "executor_ok s"
  shows "\<exists>s'. FinishAsync_tail tid s = Some s' \<and> executor_ok s'"
proof (cases "finishing s tid")
  case None
  with ok show ?thesis by (simp add: FinishAsync_tail_def)
next
  case (Some t)
  consider "async_stripe t = None" | i where "async_stripe t = Some i" "async_key t = None"
    | i k where "async_stripe t = Some i" "async_key t = Some k" by fastforce
  then show ?thesis
  proof cases
    case 1
    with Some FinishAsync_tail_none_ok [OF ok Some] show ?thesis
      by (simp add: FinishAsync_tail_def async_slot_def left_def)
  next
    case 2
    then have "executor_ok (posted (JobDrainStripe i) (left tid s))"
      by (intro FinishAsync_tail_stripe_ok [OF ok Some]) (simp add: async_slot_def)
    with 2 Some PostInternal_ok [OF this] show ?thesis by (simp add: FinishAsync_tail_def left_def)
  next
    case 3
    then obtain more s' where "CompleteKeyTask i k (left tid s) = Some (more, s')"
        "executor_ok (if more then posted (JobDrainKey i k) s' else s')"
      using FinishAsync_tail_key_ok [OF ok Some, of i k] by (auto simp: async_slot_def)
    with 3 Some PostInternal_ok [of "JobDrainKey i k" s'] show ?thesis
      by (cases more) (simp_all add: FinishAsync_tail_def left_def)
  qed
qed

lemma posted_continuation_ok:
  assumes ok: "executor_ok s" and t: "async_tasks s (task_id t) = Some t" and c: "\<not> continuation_queued (task_id t) s"
  shows "executor_ok (posted (JobContinuation t) s)" (is "executor_ok ?s")
proof -
  note p = okD [OF ok]
  have a: "acct W ?s = job_w W True (JobContinuation t) + acct W s" for W by (rule acct_posted)
  have "base_ok ?s" using p(1,8) by (simp add: base_ok_def)
  moreover have "live_ok ?s" by (rule live_same [OF p(2)]) (simp_all add: a)
  moreover have "token_ok ?s \<and> lane_ok ?s \<and> fifo_ok ?s"
    by (rule frame_slots [OF p(3,4,7)]) (simp_all add: a)
  moreover have "task_id t \<notin> set (continuations (pool_queue s))"
    using c by (fastforce simp: continuation_queued_def continuations_def split: Job.splits)
  then have "job_ok ?s" using p(5) t unfolding job_ok_def slots_same(2) [of ?s s, simplified]
    by (auto simp del: slot_queue.simps)
  moreover have "counter_ok ?s" using p(6) by (simp add: counter_ok_def a)
  ultimately show ?thesis by (simp add: executor_ok_def)
qed

lemma post_continuation_ok:
  assumes ok: "executor_ok s" and c: "\<not> continuation_queued tid s"
  shows "\<exists>s'. post_continuation tid s = Some s' \<and> executor_ok s'"
proof (cases "async_tasks s tid")
  case None
  with ok show ?thesis by (simp add: post_continuation_def)
next
  case (Some t)
  then have "task_id t = tid" using okD(1) [OF ok] by (simp add: base_ok_def)
  then have "executor_ok (posted (JobContinuation t) s)" using posted_continuation_ok [OF ok] Some c by simp
  with Some PostInternal_ok [OF this] show ?thesis by (simp add: post_continuation_def)
qed

section \<open>Submission\<close>

text \<open>A rejected submission changes counters only.\<close>

definition quiet :: "BusinessExecutor \<Rightarrow> BusinessExecutor \<Rightarrow> bool" where
  "quiet s s' \<longleftrightarrow> options s' = options s \<and> pool_stopped s' = pool_stopped s \<and> pool_queue s' = pool_queue s
     \<and> stripes s' = stripes s \<and> workers s' = workers s \<and> async_tasks s' = async_tasks s \<and> finishing s' = finishing s
     \<and> dispatched s' = dispatched s \<and> next_task_id s \<le> next_task_id s'
     \<and> current_pending_tasks s' = current_pending_tasks s \<and> current_active_tasks s' = current_active_tasks s
     \<and> pending_completions s' = pending_completions s \<and> pending_async_tasks s' = pending_async_tasks s
     \<and> pending_internal_jobs s' = pending_internal_jobs s \<and> accepted_total (counters s') = accepted_total (counters s)
     \<and> ended (counters s') = ended (counters s) \<and> accepted_log s' = accepted_log s \<and> started_log s' = started_log s"

lemma quiet_ok:
  assumes "executor_ok s" "quiet s s'"
  shows "executor_ok s'"
proof -
  note p = okD [OF assms(1)]
  have q: "options s' = options s" "pool_stopped s' = pool_stopped s" "pool_queue s' = pool_queue s"
     "stripes s' = stripes s" "workers s' = workers s" "async_tasks s' = async_tasks s" "finishing s' = finishing s"
     "dispatched s' = dispatched s" "next_task_id s \<le> next_task_id s'"
     "current_pending_tasks s' = current_pending_tasks s" "current_active_tasks s' = current_active_tasks s"
     "pending_completions s' = pending_completions s" "pending_async_tasks s' = pending_async_tasks s"
     "pending_internal_jobs s' = pending_internal_jobs s" "accepted_total (counters s') = accepted_total (counters s)"
     "ended (counters s') = ended (counters s)" "accepted_log s' = accepted_log s" "started_log s' = started_log s"
    using assms(2) by (simp_all add: quiet_def)
  have a: "acct W s' = acct W s" for W by (rule acct_same) (simp_all add: q)
  have "one_if (n < next_task_id s) \<le> one_if (n < next_task_id s')" for n using q(9) by (simp add: one_if_def)
  then have "live_ok s'" using p(2) unfolding live_ok_def a q by (meson order_trans)
  moreover have "base_ok s'" using p(1) by (simp add: base_ok_def places_finite_def q del: places_finiteD)
  moreover have "token_ok s' \<and> lane_ok s' \<and> fifo_ok s'" by (rule frame_slots [OF p(3,4,7)]) (simp_all add: q a)
  moreover have "job_ok s'" by (rule frame_job [OF p(5)]) (simp_all add: q)
  moreover have "counter_ok s'" using p(6) by (simp add: counter_ok_def a q)
  ultimately show ?thesis by (simp add: executor_ok_def)
qed

text \<open>An accepted one adds the task, and possibly a drainer, to the books.\<close>

lemma accepted_ok:
  assumes ok: "executor_ok s" and room: "current_pending_tasks s < max_pending_tasks (options s)"
    and id: "task_id t = next_task_id s"
    and same: "options v = options s" "pool_stopped v = pool_stopped s" "length (stripes v) = length (stripes s)"
      "async_tasks v = async_tasks s" "next_task_id v = next_task_id s + 1"
      "current_pending_tasks v = current_pending_tasks s + 1" "current_active_tasks v = current_active_tasks s"
      "pending_completions v = pending_completions s" "pending_async_tasks v = pending_async_tasks s"
      "pending_internal_jobs v = pending_internal_jobs s"
      "accepted_total (counters v) = accepted_total (counters s) + 1" "ended (counters v) = ended (counters s)"
      "accepted_log v = accepted_log s @ [t]" "started_log v = started_log s"
    and fin: "places_finite v"
    and live: "\<And>f. acct (live_weight f) v = f (task_id t) + acct (live_weight f) s"
      "\<And>f. acct (run_weight f) v = f (task_id t) + acct (run_weight f) s"
    and cnt: "acct internal_weight v = acct internal_weight s" "acct active_weight v = acct active_weight s"
      "acct async_weight v = acct async_weight s" "\<And>g. acct (dispatched_weight g) v = acct (dispatched_weight g) s"
    and slots: "token_ok v" "lane_ok v" "job_ok v"
      "\<And>x. slot_queue v x = slot_queue s x @ (if ord_slot (options s) t = Some x then [t] else [])"
  shows "executor_ok v"
proof -
  note p = okD [OF ok]
  have "base_ok v" using p(1) fin by (simp add: base_ok_def same)
  moreover have "live_ok v"
  proof -
    have "one_if (next_task_id s = n) + acct (W (\<lambda>k. one_if (k = n))) s \<le> one_if (n < next_task_id s + 1)"
      if "\<forall>n. acct (W (\<lambda>k. one_if (k = n))) s \<le> one_if (n < next_task_id s)" for W n
      using that [rule_format, of n] by (simp add: one_if_def split: if_splits)
    with p(2) room show ?thesis unfolding live_ok_def live id same by simp
  qed
  moreover have "counter_ok v" using p(6) by (simp add: counter_ok_def same cnt)
  moreover have "fifo_ok v" using p(7) by (auto simp: fifo_ok_def same slots(4) simp del: slot_queue.simps)
  ultimately show ?thesis using slots by (simp add: executor_ok_def)
qed

lemma acct_mono:
  assumes "places_finite s" "\<And>b j. job_w V b j \<le> job_w W b j" "\<And>i st. stripe_w V i st \<le> stripe_w W i st"
    "\<And>b a. worker_w V b a \<le> worker_w W b a" "\<And>k t. async_w V k t \<le> async_w W k t"
    "\<And>k t. finishing_w V k t \<le> finishing_w W k t" "\<And>k p. dispatched_w V k p \<le> dispatched_w W k p"
  shows "acct V s \<le> acct W s"
proof -
  have "pool_sum V (pool_queue s) \<le> pool_sum W (pool_queue s)"
    unfolding pool_sum_def by (rule sum_list_mono) (auto intro: assms)
  moreover have "stripe_sum V (stripes s) \<le> stripe_sum W (stripes s)"
    unfolding stripe_sum_def by (rule sum_mono) (rule assms)
  moreover have "msum (\<lambda>_ (b, a). worker_w V b a) (workers s) \<le> msum (\<lambda>_ (b, a). worker_w W b a) (workers s)"
    "msum (async_w V) (async_tasks s) \<le> msum (async_w W) (async_tasks s)"
    "msum (finishing_w V) (finishing s) \<le> msum (finishing_w W) (finishing s)"
    "msum (dispatched_w V) (dispatched s) \<le> msum (dispatched_w W) (dispatched s)"
    using assms by (auto intro!: msum_mono)
  ultimately show ?thesis unfolding acct_def by linarith
qed

lemma inflight_le:
  assumes ok: "executor_ok s"
  shows "acct (inflight_weight i) s \<le> one_if (slot_busy s (StripeSlot i))"
proof -
  have "acct (inflight_weight i) s \<le> acct (token_weight (StripeSlot i)) s"
    by (rule acct_mono [OF okD(8) [OF ok]]) (simp_all add: one_if_def)
  then show ?thesis using token_at [OF okD(3) [OF ok]] by simp
qed

text \<open>The bookkeeping before and after a task is put into its place.\<close>

definition reserved :: "BusinessExecutor \<Rightarrow> BusinessExecutor" where
  "reserved s = s\<lparr>counters := submitted_total_update Suc (counters s), next_task_id := next_task_id s + 1,
     current_pending_tasks := current_pending_tasks s + 1,
     peak_pending_tasks := UpdatePeak (peak_pending_tasks s) (current_pending_tasks s + 1)\<rparr>"

definition admitted :: "TaskState \<Rightarrow> BusinessExecutor \<Rightarrow> BusinessExecutor" where
  "admitted t s = count (accepted_total_update Suc) s\<lparr>accepted_log := accepted_log s @ [t]\<rparr>"

lemma booked_fields [simp]:
  "options (admitted t s) = options s" "pool_stopped (admitted t s) = pool_stopped s"
  "pool_queue (admitted t s) = pool_queue s" "stripes (admitted t s) = stripes s" "workers (admitted t s) = workers s"
  "async_tasks (admitted t s) = async_tasks s" "finishing (admitted t s) = finishing s"
  "dispatched (admitted t s) = dispatched s" "next_task_id (admitted t s) = next_task_id s"
  "current_active_tasks (admitted t s) = current_active_tasks s"
  "pending_async_tasks (admitted t s) = pending_async_tasks s"
  "pending_internal_jobs (admitted t s) = pending_internal_jobs s"
  "pending_completions (admitted t s) = pending_completions s"
  "accepted_log (admitted t s) = accepted_log s @ [t]" "started_log (admitted t s) = started_log s"
  "counters (admitted t s) = accepted_total_update Suc (counters s)"
  "current_pending_tasks (admitted t s) = current_pending_tasks s"
  "options (reserved s) = options s" "pool_stopped (reserved s) = pool_stopped s"
  "pool_queue (reserved s) = pool_queue s" "stripes (reserved s) = stripes s" "workers (reserved s) = workers s"
  "async_tasks (reserved s) = async_tasks s" "finishing (reserved s) = finishing s"
  "dispatched (reserved s) = dispatched s" "next_task_id (reserved s) = next_task_id s + 1"
  "current_active_tasks (reserved s) = current_active_tasks s"
  "pending_async_tasks (reserved s) = pending_async_tasks s"
  "pending_internal_jobs (reserved s) = pending_internal_jobs s"
  "pending_completions (reserved s) = pending_completions s"
  "accepted_log (reserved s) = accepted_log s" "started_log (reserved s) = started_log s"
  "counters (reserved s) = submitted_total_update Suc (counters s)"
  "current_pending_tasks (reserved s) = current_pending_tasks s + 1"
  by (simp_all add: admitted_def reserved_def count_def)

lemma acct_booked [simp]: "acct W (admitted t s) = acct W s" "acct W (reserved s) = acct W s"
  by (simp_all add: acct_def)

lemma booked_finite [simp]: "places_finite (admitted t s) = places_finite s" "places_finite (reserved s) = places_finite s"
  by (simp_all add: places_finite_def del: places_finiteD)

definition pushed :: "(bool \<times> Job) list \<Rightarrow> BusinessExecutor \<Rightarrow> BusinessExecutor" where
  "pushed js s = s\<lparr>pool_queue := pool_queue s @ js\<rparr>"

lemma pushed_fields [simp]:
  "options (pushed js s) = options s" "pool_stopped (pushed js s) = pool_stopped s"
  "pool_queue (pushed js s) = pool_queue s @ js" "stripes (pushed js s) = stripes s"
  "workers (pushed js s) = workers s" "async_tasks (pushed js s) = async_tasks s" "finishing (pushed js s) = finishing s"
  "dispatched (pushed js s) = dispatched s" "next_task_id (pushed js s) = next_task_id s"
  "current_active_tasks (pushed js s) = current_active_tasks s"
  "pending_async_tasks (pushed js s) = pending_async_tasks s"
  "pending_internal_jobs (pushed js s) = pending_internal_jobs s"
  "pending_completions (pushed js s) = pending_completions s"
  "accepted_log (pushed js s) = accepted_log s" "started_log (pushed js s) = started_log s"
  "counters (pushed js s) = counters s" "current_pending_tasks (pushed js s) = current_pending_tasks s"
  by (simp_all add: pushed_def)

lemma pushed_finite [simp]: "places_finite (pushed js s) = places_finite s"
  by (simp add: places_finite_def del: places_finiteD)

lemma acct_pushed: "acct W (pushed js s) = pool_sum W js + acct W s"
  by (simp add: acct_def)

lemma pushed_Nil [simp]: "pushed [] s = s"
  by (simp add: pushed_def)

lemma unordered_ok:
  assumes ok: "executor_ok s" and room: "current_pending_tasks s < max_pending_tasks (options s)"
    and id: "task_id t = next_task_id s" and o: "ord_slot (options s) t = None"
  shows "executor_ok (admitted t (pushed [(False, JobExecuteTask t)] (reserved s)))" (is "executor_ok ?v")
proof (rule accepted_ok [OF ok room id])
  note p = okD [OF ok]
  have st: "stripes ?v = stripes s" by simp
  show "acct (live_weight f) ?v = f (task_id t) + acct (live_weight f) s"
    "acct (run_weight f) ?v = f (task_id t) + acct (run_weight f) s" for f by (simp_all add: acct_pushed)
  show "token_ok ?v"
    using p(3) slots_same(1) [OF st] by (simp add: token_ok_def acct_pushed del: slot_busy.simps)
  show "lane_ok ?v" using p(4) by (auto simp: lane_ok_def acct_pushed)
  show "job_ok ?v" using p(5) unfolding job_ok_def slots_same(2) [OF st] by (auto simp del: slot_queue.simps)
  show "slot_queue ?v x = slot_queue s x @ (if ord_slot (options s) t = Some x then [t] else [])" for x
    using slots_same(2) [OF st] o by (simp del: slot_queue.simps)
qed (use okD(8) [OF ok] in \<open>simp_all add: acct_pushed\<close>)

lemma ids_weight_append [simp]: "ids_weight f (q @ q') = ids_weight f q + ids_weight f q'"
  by (simp add: ids_weight_def)

lemma ids_weight_single [simp]: "ids_weight f [] = 0" "ids_weight f [t] = f (task_id t)"
  by (simp_all add: ids_weight_def)

lemma stripe_ok:
  assumes ok: "executor_ok s" and room: "current_pending_tasks s < max_pending_tasks (options s)"
    and id: "task_id t = next_task_id s" and o: "ord_slot (options s) t = Some (StripeSlot i)" and i: "i < length (stripes s)"
    and cap: "length (stripe_queue (stripes s ! i)) + one_if (running (stripes s ! i)) < per_stripe_queue_capacity (options s)"
  shows "executor_ok (admitted t (pushed (if running (stripes s ! i) then [] else [(False, JobDrainStripe i)])
    (upd_stripe i (\<lambda>st. st\<lparr>stripe_queue := stripe_queue st @ [t], running := True\<rparr>) (reserved s))))"
    (is "executor_ok ?v")
proof (rule accepted_ok [OF ok room id])
  note p = okD [OF ok]
  let ?st = "(stripes s ! i)\<lparr>stripe_queue := stripe_queue (stripes s ! i) @ [t], running := True\<rparr>"
  have a: "acct W ?v + stripe_w W i (stripes s ! i) =
      (if running (stripes s ! i) then 0 else job_w W False (JobDrainStripe i)) + stripe_w W i ?st + acct W s" for W
    using acct_stripe [of i "reserved s" W "\<lambda>st. st\<lparr>stripe_queue := stripe_queue st @ [t], running := True\<rparr>"] i
    by (simp add: acct_pushed)
  have st: "stripes ?v = (stripes s)[i := ?st]" by simp
  have busy: "slot_busy ?v x = (slot_busy s x \<or> x = StripeSlot i)" for x
    using slot_upd(3,4) [OF i st] i by (cases x) auto
  show "acct (live_weight f) ?v = f (task_id t) + acct (live_weight f) s"
    "acct (run_weight f) ?v = f (task_id t) + acct (run_weight f) s" for f
    using a [of "live_weight f"] a [of "run_weight f"] by (simp_all split: if_splits)
  show "acct internal_weight ?v = acct internal_weight s" "acct active_weight ?v = acct active_weight s"
    "acct async_weight ?v = acct async_weight s" "acct (dispatched_weight g) ?v = acct (dispatched_weight g) s" for g
    using a [of internal_weight] a [of active_weight] a [of async_weight] a [of "dispatched_weight g"] by (simp_all split: if_splits)
  show "token_ok ?v"
  proof (rule token_ok_upd [OF p(3) i st])
    have "slot_busy s (StripeSlot i) = running (stripes s ! i)" using i by simp
    then show "acct (token_weight x) ?v = one_if (slot_busy ?v x)" for x
      using a [of "token_weight x"] token_at [OF p(3), of x] unfolding busy
      by (cases "x = StripeSlot i") (auto simp: one_if_def simp del: slot_busy.simps split: if_splits)
  qed simp
  show "lane_ok ?v"
  proof (rule lane_ok_upd [OF p(4) i st])
    show lane: "acct (lane_weight j) ?v = acct (lane_weight j) s"
      and inflight: "acct (inflight_weight j) ?v = acct (inflight_weight j) s" for j
      using a [of "lane_weight j"] a [of "inflight_weight j"] by (simp_all split: if_splits)
    have "acct (inflight_weight i) s \<le> one_if (running (stripes s ! i))" using inflight_le [OF ok, of i] i by simp
    then show "length (stripe_queue ?st) + acct (inflight_weight i) ?v \<le> per_stripe_queue_capacity (options s)"
      using cap inflight [of i] by simp
  qed (use lane_okD [OF p(4) i] a [of "lane_weight i"] in \<open>simp_all split: if_splits\<close>)
  show queues: "slot_queue ?v x = slot_queue s x @ (if ord_slot (options s) t = Some x then [t] else [])" for x
    using slot_upd(1,2) [OF i st] i o by (cases x) auto
  show "job_ok ?v"
    using p(5) unfolding job_ok_def queues by (auto simp del: slot_queue.simps)
qed (use okD(8) [OF ok] in simp_all)

lemma lane_insert:
  assumes "finite (dom m)" "q = (case m k of None \<Rightarrow> [] | Some q \<Rightarrow> q)" "g k [] = 0"
  shows "msum g (m(k \<mapsto> q @ [t])) + g k q = g k (q @ [t]) + msum g m"
  using msum_upd [OF assms(1), of g k "Some (q @ [t])"] assms(2,3) by (auto split: option.splits)

lemma isolated_ok:
  assumes ok: "executor_ok s" and room: "current_pending_tasks s < max_pending_tasks (options s)"
    and id: "task_id t = next_task_id s" and o: "ord_slot (options s) t = Some (KeySlot i k)" and i: "i < length (stripes s)"
    and q: "q = (case lanes (stripes s ! i) k of None \<Rightarrow> [] | Some q \<Rightarrow> q)"
    and cap: "isolated_pending (stripes s ! i) < per_stripe_queue_capacity (options s)"
  shows "executor_ok (admitted t (pushed (if lanes (stripes s ! i) k \<noteq> None then [] else [(False, JobDrainKey i k)])
    (upd_stripe i (\<lambda>st. st\<lparr>lanes := (lanes st)(k \<mapsto> q @ [t]), isolated_pending := isolated_pending st + 1\<rparr>) (reserved s))))"
    (is "executor_ok ?v")
proof (rule accepted_ok [OF ok room id])
  note p = okD [OF ok]
  let ?old = "stripes s ! i"
  let ?st = "?old\<lparr>lanes := (lanes ?old)(k \<mapsto> q @ [t]), isolated_pending := isolated_pending ?old + 1\<rparr>"
  have a: "acct W ?v + stripe_w W i ?old =
      (if lanes ?old k \<noteq> None then 0 else job_w W False (JobDrainKey i k)) + stripe_w W i ?st + acct W s" for W
    using acct_stripe [of i "reserved s" W "\<lambda>st. st\<lparr>lanes := (lanes st)(k \<mapsto> q @ [t]), isolated_pending := isolated_pending st + 1\<rparr>"] i
    by (simp add: acct_pushed)
  have fin: "finite (dom (lanes ?old))" using p(8) i by (simp add: places_finite_def del: places_finiteD)
  note lanes = lane_insert [OF fin q]
  have st: "stripes ?v = (stripes s)[i := ?st]" by simp
  have busy: "slot_busy ?v x = (slot_busy s x \<or> x = KeySlot i k)" for x
    using slot_upd(3,4) [OF i st] i by (cases x) auto
  show "acct (live_weight f) ?v = f (task_id t) + acct (live_weight f) s"
    "acct (run_weight f) ?v = f (task_id t) + acct (run_weight f) s" for f
    using a [of "live_weight f"] a [of "run_weight f"] lanes [of "\<lambda>_. ids_weight f" t] by (simp_all split: if_splits)
  show "acct internal_weight ?v = acct internal_weight s" "acct active_weight ?v = acct active_weight s"
    "acct async_weight ?v = acct async_weight s" "acct (dispatched_weight g) ?v = acct (dispatched_weight g) s" for g
    using a [of internal_weight] a [of active_weight] a [of async_weight] a [of "dispatched_weight g"] by (simp_all split: if_splits)
  show "token_ok ?v"
  proof (rule token_ok_upd [OF p(3) i st])
    have "slot_busy s (KeySlot i k) = (lanes ?old k \<noteq> None)" using i by simp
    then show "acct (token_weight x) ?v = one_if (slot_busy ?v x)" for x
      using a [of "token_weight x"] token_at [OF p(3), of x] unfolding busy
      by (cases "x = KeySlot i k") (auto simp: one_if_def simp del: slot_busy.simps split: if_splits)
  qed (use p(3) i in \<open>auto simp: token_ok_def\<close>)
  show "lane_ok ?v"
  proof (rule lane_ok_upd [OF p(4) i st])
    show "j \<noteq> i \<Longrightarrow> acct (lane_weight j) ?v = acct (lane_weight j) s"
      and inflight: "acct (inflight_weight j) ?v = acct (inflight_weight j) s" for j
      using a [of "lane_weight j"] a [of "inflight_weight j"] by (simp_all split: if_splits)
    show "isolated_pending ?st = acct (lane_weight i) ?v"
      using lane_okD [OF p(4) i] a [of "lane_weight i"] lanes [of "\<lambda>_. length" t] by (simp split: if_splits)
    show "length (stripe_queue ?st) + acct (inflight_weight i) ?v \<le> per_stripe_queue_capacity (options s)"
      using lane_okD [OF p(4) i] inflight [of i] by simp
  qed (use cap in simp_all)
  show queues: "slot_queue ?v x = slot_queue s x @ (if ord_slot (options s) t = Some x then [t] else [])" for x
    using slot_upd(1,2) [OF i st] i o q by (cases x) auto
  show "job_ok ?v"
    using p(5) o unfolding job_ok_def queues by (auto simp del: slot_queue.simps split: if_splits)
qed (use okD(8) [OF ok] in simp_all)

lemma TrySubmit_ok:
  assumes "executor_ok (admitted t (pushed [(b, j)] s))"
  shows "TrySubmit b j s = (kOk, pushed [(b, j)] s)"
proof -
  have "\<not> pool_stopped s" using okD(1) [OF assms] by (simp add: base_ok_def)
  moreover have "length (pool_queue s) < queue_capacity (options s)" using pool_room [OF assms] by simp
  ultimately show ?thesis by (simp add: TrySubmit_def pushed_def)
qed

text \<open>The task \<open>Submit\<close> builds, and where it goes once the budget has admitted it.\<close>

definition effective_request :: "BusinessExecutor \<Rightarrow> TaskSpec \<Rightarrow> BusinessRequestContext" where
  "effective_request s task =
     (if HasDeadline (request task) then request task
      else (request task)\<lparr>deadline := received_at (request task) + default_deadline (options s)\<rparr>)"

definition new_task :: "BusinessExecutor \<Rightarrow> TaskSpec \<Rightarrow> TaskState" where
  "new_task s task = \<lparr>task_id = next_task_id s, spec = task\<lparr>request := effective_request s task\<rparr>,
     async_stripe = None, async_key = None\<rparr>"

definition place :: "bool \<Rightarrow> TaskState \<Rightarrow> BusinessExecutor \<Rightarrow> BusinessSubmitStatus \<times> BusinessExecutor" where
  "place alloc_fails t s = (case ordering_key (request (spec t)) of Some key \<Rightarrow> SubmitOrdered alloc_fails t key s
     | None \<Rightarrow> SubmitUnordered t s)"

definition slot_status :: "bool \<Rightarrow> TaskState \<Rightarrow> BusinessExecutor \<Rightarrow> BusinessSubmitStatus" where
  "slot_status alloc_fails t s =
     (case ord_slot (options s) t of
        None \<Rightarrow> kAccepted
      | Some (StripeSlot i) \<Rightarrow>
          if length (slot_queue s (StripeSlot i)) + one_if (slot_busy s (StripeSlot i)) \<ge> per_stripe_queue_capacity (options s)
          then kHotKeyOverloaded else kAccepted
      | Some (KeySlot i k) \<Rightarrow>
          if isolated_pending (stripes s ! i) \<ge> per_stripe_queue_capacity (options s) then kHotKeyOverloaded
          else if alloc_fails then kOverloaded else kAccepted)"

lemma Submit_eq:
  "Submit now alloc task s =
     (if has_work task = has_async_work task
      then (kInvalidArgument, count (rejected_invalid_total_update Suc \<circ> submitted_total_update Suc) s)
      else if DeadlineExpired now (effective_request s task)
      then (kDeadlineExpired, count (rejected_deadline_total_update Suc \<circ> submitted_total_update Suc) s)
      else if \<not> accepting s
      then (kShuttingDown, count (rejected_shutdown_total_update Suc \<circ> submitted_total_update Suc) (s\<lparr>next_task_id := next_task_id s + 1\<rparr>))
      else if current_pending_tasks s \<ge> max_pending_tasks (options s)
      then (kOverloaded, count (rejected_overload_total_update Suc \<circ> rejected_pending_budget_total_update Suc \<circ> submitted_total_update Suc)
             (s\<lparr>next_task_id := next_task_id s + 1\<rparr>))
      else case place alloc (new_task s task) (reserved s) of (status, s') \<Rightarrow>
        if status \<noteq> kAccepted then (status, count_rejection status (ReleasePending s'))
        else (kAccepted, admitted (new_task s task) s'))"
  unfolding Submit_def Let_def count_def effective_request_def new_task_def place_def reserved_def admitted_def
    ReservePending_def comp_def
  by (cases "HasDeadline (request task)") (simp_all cong: prod.case_cong option.case_cong if_cong)

lemma place_ok:
  assumes ok: "executor_ok s" and room: "current_pending_tasks s < max_pending_tasks (options s)"
    and id: "task_id t = next_task_id s"
  shows "\<exists>s'. place alloc t (reserved s) = (slot_status alloc t s, s')
    \<and> (if slot_status alloc t s = kAccepted then executor_ok (admitted t s') else \<exists>g. s' = count g (reserved s)
         \<and> (\<forall>c. ended (g c) = ended c \<and> accepted_total (g c) = accepted_total c))"
proof (cases "ordering_key (request (spec t))")
  case None
  then have "ord_slot (options s) t = None" by (simp add: ord_slot_def)
  with unordered_ok [OF ok room id] TrySubmit_ok [OF unordered_ok [OF ok room id]] None show ?thesis
    by (simp add: place_def slot_status_def SubmitUnordered_def)
next
  case (Some key)
  let ?n = "length (stripes s)"
  let ?i = "unat key mod ?n"
  have n: "?n = stripe_count (options s)" "0 < ?n" using okD(1) [OF ok] by (auto simp: base_ok_def options_valid_def)
  then have i: "?i < ?n" by simp
  have id_count: "\<exists>g. s' = count g s' \<and> (\<forall>c. ended (g c) = ended c \<and> accepted_total (g c) = accepted_total c)" for s'
    by (rule exI [of _ "\<lambda>c. c"]) (simp add: count_def)
  show ?thesis
  proof (cases "isolate_ordering_keys (options s)")
    case True
    define q where "q = (case lanes (stripes s ! ?i) key of None \<Rightarrow> [] | Some q \<Rightarrow> q)"
    have o: "ord_slot (options s) t = Some (KeySlot ?i key)" using Some True n by (simp add: ord_slot_def Let_def)
    have "isolated_pending (stripes s ! ?i) < per_stripe_queue_capacity (options s) \<Longrightarrow>
        executor_ok (admitted t (pushed (if lanes (stripes s ! ?i) key \<noteq> None then [] else [(False, JobDrainKey ?i key)])
          (upd_stripe ?i (\<lambda>st. st\<lparr>lanes := (lanes st)(key \<mapsto> q @ [t]), isolated_pending := isolated_pending st + 1\<rparr>) (reserved s))))"
      by (rule isolated_ok [OF ok room id o i q_def])
    with TrySubmit_ok [of t False "JobDrainKey ?i key"] Some True o q_def id_count [of "reserved s"] show ?thesis
      by (auto simp: place_def slot_status_def SubmitOrdered_def SubmitIsolatedKey_def Let_def split: option.splits)
  next
    case False
    have o: "ord_slot (options s) t = Some (StripeSlot ?i)" using Some False n by (simp add: ord_slot_def Let_def)
    have "length (stripe_queue (stripes s ! ?i)) + one_if (running (stripes s ! ?i)) < per_stripe_queue_capacity (options s) \<Longrightarrow>
        executor_ok (admitted t (pushed (if running (stripes s ! ?i) then [] else [(False, JobDrainStripe ?i)])
          (upd_stripe ?i (\<lambda>st. st\<lparr>stripe_queue := stripe_queue st @ [t], running := True\<rparr>) (reserved s))))"
      by (rule stripe_ok [OF ok room id o i])
    with TrySubmit_ok [of t False "JobDrainStripe ?i"] Some False o i id_count [of "reserved s"] show ?thesis
      by (auto simp: place_def slot_status_def SubmitOrdered_def Let_def one_if_def split: if_splits)
  qed
qed

lemma Submit_ok:
  assumes ok: "executor_ok s"
  shows "executor_ok (snd (Submit now alloc task s))"
proof -
  let ?t = "new_task s task" and ?r = "place alloc (new_task s task) (reserved s)"
  have "executor_ok (snd (case ?r of (status, s') \<Rightarrow> if status \<noteq> kAccepted then (status, count_rejection status (ReleasePending s'))
        else (kAccepted, admitted ?t s')))" if room: "current_pending_tasks s < max_pending_tasks (options s)"
  proof -
    obtain s' where s': "?r = (slot_status alloc ?t s, s')"
        "if slot_status alloc ?t s = kAccepted then executor_ok (admitted ?t s') else \<exists>g. s' = count g (reserved s)
         \<and> (\<forall>c. ended (g c) = ended c \<and> accepted_total (g c) = accepted_total c)"
      using place_ok [OF ok room, of ?t alloc] by (auto simp: new_task_def)
    show ?thesis
    proof (cases "slot_status alloc ?t s = kAccepted")
      case True
      with s' show ?thesis by simp
    next
      case False
      with s'(2) obtain g where g: "s' = count g (reserved s)" "\<And>c. ended (g c) = ended c" "\<And>c. accepted_total (g c) = accepted_total c"
        by auto
      have "quiet s (count_rejection (slot_status alloc ?t s) (ReleasePending s'))"
        unfolding quiet_def count_rejection_def by (simp add: g split: BusinessSubmitStatus.split)
      with False s'(1) quiet_ok [OF ok] show ?thesis by simp
    qed
  qed
  then show ?thesis
    unfolding Submit_eq by (auto intro!: quiet_ok [OF ok] simp: quiet_def)
qed

lemma BeginDrain_ok: "executor_ok s \<Longrightarrow> executor_ok (BeginDrain s)"
  by (erule quiet_ok) (simp add: quiet_def BeginDrain_def)

section \<open>Where asynchronous tasks come from\<close>

lemma origins_step:
  assumes "origins_ok s" "accepted_log s' = accepted_log s"
    and "\<And>w b t origin. workers s' w = Some (b, Entering t origin) \<Longrightarrow> workers s w = Some (b, Entering t origin)
      \<or> (has_async_work (spec t) \<longrightarrow> async_slot t = origin_slot origin)"
    and "\<And>b t. (b, JobExecuteTask t) \<in> set (pool_queue s') \<Longrightarrow> (b, JobExecuteTask t) \<in> set (pool_queue s)"
  shows "origins_ok s'"
  using assms unfolding origins_ok_def by metis

lemma queued_fresh:
  assumes "executor_ok s" "origins_ok s" "t \<in> set (slot_queue s x)"
  shows "async_stripe t = None" "async_key t = None"
proof -
  have "t \<in> set (filter (\<lambda>t. ord_slot (options s) t = Some x) (accepted_log s))"
    using okD(7) [OF assms(1)] assms(3) unfolding fifo_ok_def by simp
  with assms(2) show "async_stripe t = None" "async_key t = None" by (simp_all add: origins_ok_def)
qed

lemma place_keeps:
  assumes "place alloc t s = (status, s')"
  shows "workers s' = workers s" "accepted_log s' = accepted_log s"
    "(b, JobExecuteTask t') \<in> set (pool_queue s') \<Longrightarrow> (b, JobExecuteTask t') \<in> set (pool_queue s) \<or> t' = t"
  using assms
  by (auto simp: place_def SubmitUnordered_def SubmitOrdered_def SubmitIsolatedKey_def TrySubmit_def Let_def
      split: option.splits if_splits)

lemma Submit_origins:
  assumes "origins_ok s"
  shows "origins_ok (snd (Submit now alloc task s))"
proof -
  obtain status s' where r: "place alloc (new_task s task) (reserved s) = (status, s')" by fastforce
  have t: "async_slot (new_task s task) = None" "async_stripe (new_task s task) = None" "async_key (new_task s task) = None"
    by (simp_all add: new_task_def async_slot_def)
  have "origins_ok (count_rejection status (ReleasePending s'))" "origins_ok (admitted (new_task s task) s')"
    using assms place_keeps [OF r] t by (fastforce simp: origins_ok_def count_rejection_def)+
  with assms r show ?thesis unfolding Submit_eq by (simp add: origins_ok_def)
qed

lemma CompleteKeyTask_keeps:
  assumes "CompleteKeyTask i k s = Some (m, s')"
  shows "workers s' = workers s" "accepted_log s' = accepted_log s" "pool_queue s' = pool_queue s"
  using assms by (auto simp: CompleteKeyTask_def Let_def split: option.splits if_splits)

lemma PostInternal_keeps:
  assumes "PostInternal j s = Some s'"
  shows "workers s' = workers s" "accepted_log s' = accepted_log s" "pool_queue s' = pool_queue s @ [(True, j)]"
  using assms by (auto simp: PostInternal_def TrySubmit_def split: if_splits)

lemma worker_set [simp]:
  "workers (set_worker w a s) v = (if v = w then Some (case workers s w of None \<Rightarrow> False | Some (b, _) \<Rightarrow> b, a) else workers s v)"
  "workers (end_job w s) v = (if v = w then None else workers s v)"
  "workers (job_throws w s) v = (if v = w then None else workers s v)"
  by (auto simp: exec_defs split: option.splits bool.splits)

lemma job_throws_fields [simp]:
  "accepted_log (job_throws w s) = accepted_log s" "pool_queue (job_throws w s) = pool_queue s"
  by (auto simp: job_throws_def split: option.split bool.split)

lemma take_job_origins:
  assumes "origins_ok s"
  shows "origins_ok (take_job w s)"
proof (cases "workers s w = None \<and> pool_queue s \<noteq> []")
  case False
  then have "take_job w s = s" by (auto simp: take_job_def split: option.split list.split)
  with assms show ?thesis by simp
next
  case True
  then obtain b j js where w: "workers s w = None" and q: "pool_queue s = (b, j) # js"
    by (cases "pool_queue s") auto
  show ?thesis
  proof (rule origins_step [OF assms])
    show "accepted_log (take_job w s) = accepted_log s"
      using w q by (cases j) (simp_all add: take_job_def Let_def)
    show "(b', JobExecuteTask t) \<in> set (pool_queue (take_job w s)) \<Longrightarrow> (b', JobExecuteTask t) \<in> set (pool_queue s)" for b' t
      using w q by (cases j) (simp_all add: take_job_def Let_def split: if_splits)
    show "workers (take_job w s) v = Some (b', Entering t origin) \<Longrightarrow> workers s v = Some (b', Entering t origin)
        \<or> (has_async_work (spec t) \<longrightarrow> async_slot t = origin_slot origin)" for v b' t origin
      using w q assms by (cases j) (auto simp: take_job_def Let_def origins_ok_def split: if_splits)
  qed
qed

lemma DrainStripe_origins:
  assumes ok: "executor_ok s" and o: "origins_ok s"
  shows "origins_ok (DrainStripe w s)"
proof (rule origins_step [OF o])
  show "accepted_log (DrainStripe w s) = accepted_log s"
    "(b', JobExecuteTask t) \<in> set (pool_queue (DrainStripe w s)) \<Longrightarrow> (b', JobExecuteTask t) \<in> set (pool_queue s)" for b' t
    by (auto simp: DrainStripe_def Let_def split: option.splits prod.splits Activity.splits list.splits if_splits)
  have fresh: "async_key t = None" if "stripe_queue (stripes s ! i) = t # q" "\<not> length (stripes s) \<le> i" for i t q
    using queued_fresh(2) [OF ok o, of t "StripeSlot i"] that by simp
  show "workers (DrainStripe w s) v = Some (b, Entering t origin) \<Longrightarrow> workers s v = Some (b, Entering t origin)
      \<or> (has_async_work (spec t) \<longrightarrow> async_slot t = origin_slot origin)" for v b t origin
    by (auto simp: DrainStripe_def Let_def async_slot_def split: option.splits prod.splits Activity.splits list.splits if_splits dest: fresh)
qed

lemma DrainKey_origins:
  assumes o: "origins_ok s"
  shows "origins_ok (DrainKey w s)"
proof (rule origins_step [OF o])
  show "accepted_log (DrainKey w s) = accepted_log s"
    "(b', JobExecuteTask t) \<in> set (pool_queue (DrainKey w s)) \<Longrightarrow> (b', JobExecuteTask t) \<in> set (pool_queue s)" for b' t
    by (auto simp: DrainKey_def Let_def split: option.splits prod.splits Activity.splits list.splits if_splits)
  show "workers (DrainKey w s) v = Some (b, Entering t origin) \<Longrightarrow> workers s v = Some (b, Entering t origin)
      \<or> (has_async_work (spec t) \<longrightarrow> async_slot t = origin_slot origin)" for v b t origin
    by (auto simp: DrainKey_def Let_def async_slot_def split: option.splits prod.splits Activity.splits list.splits if_splits)
qed

lemma ExecuteTask_begin_origins:
  assumes o: "origins_ok s"
  shows "origins_ok (ExecuteTask_begin w now valid probe throws s)"
  by (rule origins_step [OF o])
    (auto simp: ExecuteTask_begin_def Let_def split: option.splits prod.splits Activity.splits if_splits)

lemma ExecuteTask_end_origins:
  assumes o: "origins_ok s"
  shows "origins_ok (ExecuteTask_end w out probe throws s)"
  by (rule origins_step [OF o])
    (auto simp: ExecuteTask_end_def Let_def split: option.splits prod.splits Activity.splits if_splits)

lemma after_execute_origins:
  assumes o: "origins_ok s" and "after_execute w s = Some s'"
  shows "origins_ok s'"
  by (rule origins_step [OF o]; use assms(2) in \<open>auto simp: after_execute_def Let_def CompleteKeyTask_keeps
      split: option.splits prod.splits Activity.splits Origin.splits bool.splits if_splits dest: CompleteKeyTask_keeps\<close>)

lemma FinishAsync_tail_origins:
  assumes o: "origins_ok s" and "FinishAsync_tail tid s = Some s'"
  shows "origins_ok s'"
  by (rule origins_step [OF o]; use assms(2) in \<open>auto simp: FinishAsync_tail_def Let_def CompleteKeyTask_keeps PostInternal_keeps
      split: option.splits prod.splits bool.splits if_splits\<close>)

lemma post_continuation_origins:
  assumes o: "origins_ok s" and "post_continuation tid s = Some s'"
  shows "origins_ok s'"
  by (rule origins_step [OF o]; use assms(2) in \<open>auto simp: post_continuation_def PostInternal_keeps split: option.splits\<close>)

lemma other_origins:
  assumes o: "origins_ok s"
  shows "origins_ok (BeginDrain s)" "origins_ok (async_work_returns w s)" "origins_ok (continuation_returns w b s)"
    "origins_ok (FinishAsync tid out probe throws s)" "origins_ok (run_completion tid probe throws s)"
  by (rule origins_step [OF o]; auto simp: BeginDrain_def async_work_returns_def continuation_returns_def FinishAsync_def
      run_completion_def Let_def split: option.splits prod.splits Activity.splits if_splits)+

section \<open>The contract of the executor\<close>

definition executor_next :: "BusinessExecutor \<Rightarrow> Event \<Rightarrow> BusinessExecutor" where
  "executor_next s e = (case executor_step s e of None \<Rightarrow> s | Some s' \<Rightarrow> s')"

definition executor_inv :: "BusinessExecutor \<Rightarrow> bool" where
  "executor_inv s \<longleftrightarrow> executor_ok s \<and> origins_ok s"

lemma executor_inv_Start: "Start o' = Some s \<Longrightarrow> executor_inv s"
  unfolding executor_inv_def
  by (rule conjI, erule executor_ok_Start) (auto simp: origins_ok_def Start_def split: if_splits)

lemma executor_step_ok:
  assumes "executor_inv s" "event_ok s e"
  shows "\<exists>s'. executor_step s e = Some s' \<and> executor_inv s'"
proof (cases e)
  case (EvAfterExecute w)
  then show ?thesis using assms after_execute_ok [of s w] after_execute_origins [of s w] by (auto simp: executor_inv_def)
next
  case (EvPostContinuation tid)
  then show ?thesis using assms post_continuation_ok [of s tid] post_continuation_origins [of s tid] by (auto simp: executor_inv_def)
next
  case (EvFinishAsyncTail tid)
  then show ?thesis using assms FinishAsync_tail_ok [of s tid] FinishAsync_tail_origins [of s tid] by (auto simp: executor_inv_def)
next
  case (EvContinuationReturns w throws)
  then show ?thesis using assms continuation_returns_ok other_origins by (auto simp: executor_inv_def)
qed (use assms in \<open>auto simp: executor_inv_def intro: Submit_ok BeginDrain_ok take_job_ok DrainStripe_ok DrainKey_ok
  ExecuteTask_begin_ok ExecuteTask_end_ok async_work_returns_ok FinishAsync_ok run_completion_ok Submit_origins take_job_origins
  DrainStripe_origins DrainKey_origins ExecuteTask_begin_origins ExecuteTask_end_origins other_origins\<close>)

interpretation bx: guarded_object executor_next event_ok executor_inv
proof unfold_locales
  fix s e
  assume "executor_inv s" "event_ok s e"
  then show "executor_inv (executor_next s e)" using executor_step_ok [of s e] by (auto simp: executor_next_def)
qed

end
