(* ===== verification/Executor_Properties.thy ===== *)
theory Executor_Properties
  imports Executor_Invariants
begin

text \<open>
  What the business executor guarantees, for every sequence of events that starts with a started executor and in which
  the user code meets its obligations (\<open>event_ok\<close>): its budgets hold and it never throws, a slot has one drainer at a
  time and starts its tasks in the order of their acceptance, every accepted task is accounted for, a drained executor
  is idle and stays so. The last property shows what happens when an obligation is not met.
\<close>

section \<open>Reading the accounts\<close>

lemma msum_count:
  assumes "finite (dom m)"
  shows "msum (\<lambda>k v. one_if (P k v)) m = card {k. \<exists>v. m k = Some v \<and> P k v}"
proof -
  have "msum (\<lambda>k v. one_if (P k v)) m = (\<Sum>k\<in>dom m. if P k (the (m k)) then 1 else 0)"
    by (simp add: msum_def one_if_def)
  also have "\<dots> = card {k \<in> dom m. P k (the (m k))}" using assms by (simp add: sum.If_cases Collect_conj_eq)
  also have "{k \<in> dom m. P k (the (m k))} = {k. \<exists>v. m k = Some v \<and> P k v}" by auto
  finally show ?thesis .
qed

definition drainers :: "BusinessExecutor \<Rightarrow> Slot \<Rightarrow> nat set" where
  "drainers s x = {w. \<exists>p. workers s w = Some p \<and> activity_slot (snd p) = Some x}"

definition suspended :: "BusinessExecutor \<Rightarrow> Slot \<Rightarrow> nat set" where
  "suspended s x = {k. \<exists>t. async_tasks s k = Some t \<and> async_slot t = Some x}"

definition resuming :: "BusinessExecutor \<Rightarrow> Slot \<Rightarrow> nat set" where
  "resuming s x = {k. \<exists>t. finishing s k = Some t \<and> async_slot t = Some x}"

lemma token_split:
  assumes "places_finite s"
  shows "acct (token_weight x) s = pool_sum (token_weight x) (pool_queue s) + card (drainers s x) + card (suspended s x)
    + card (resuming s x)"
proof -
  have "msum (\<lambda>_ (b, a). worker_w (token_weight x) b a) (workers s) = msum (\<lambda>_ p. one_if (activity_slot (snd p) = Some x)) (workers s)"
    by (rule msum_cong) auto
  moreover have "msum (async_w (token_weight x)) (async_tasks s) = msum (\<lambda>_ t. one_if (async_slot t = Some x)) (async_tasks s)"
    "msum (finishing_w (token_weight x)) (finishing s) = msum (\<lambda>_ t. one_if (async_slot t = Some x)) (finishing s)"
    "msum (dispatched_w (token_weight x)) (dispatched s) = msum (\<lambda>_ _. 0) (dispatched s)"
    by (rule msum_cong; simp)+
  moreover have "stripe_sum (token_weight x) (stripes s) = 0" by (simp add: stripe_sum_def)
  moreover have "msum (\<lambda>_ _. 0) (dispatched s) = 0" by (simp add: msum_def)
  ultimately show ?thesis
    using assms by (simp add: acct_def msum_count drainers_def suspended_def resuming_def)
qed

text \<open>The workers that have taken a task of stripe \<open>i\<close> and not yet reported back to the stripe.\<close>

definition stripe_workers :: "BusinessExecutor \<Rightarrow> nat \<Rightarrow> nat set" where
  "stripe_workers s i = {w. \<exists>p. workers s w = Some p \<and> holds_slot (snd p) \<and> activity_slot (snd p) = Some (StripeSlot i)}"

lemma inflight_split:
  assumes "places_finite s"
  shows "acct (inflight_weight i) s = card (stripe_workers s i) + card (suspended s (StripeSlot i)) + card (resuming s (StripeSlot i))"
proof -
  have "msum (\<lambda>_ (b, a). worker_w (inflight_weight i) b a) (workers s)
      = msum (\<lambda>_ p. one_if (holds_slot (snd p) \<and> activity_slot (snd p) = Some (StripeSlot i))) (workers s)"
    by (rule msum_cong) auto
  moreover have "msum (async_w (inflight_weight i)) (async_tasks s) = msum (\<lambda>_ t. one_if (async_slot t = Some (StripeSlot i))) (async_tasks s)"
    "msum (finishing_w (inflight_weight i)) (finishing s) = msum (\<lambda>_ t. one_if (async_slot t = Some (StripeSlot i))) (finishing s)"
    "msum (dispatched_w (inflight_weight i)) (dispatched s) = msum (\<lambda>_ _. 0) (dispatched s)"
    by (rule msum_cong; simp)+
  moreover have "stripe_sum (inflight_weight i) (stripes s) = 0" by (simp add: stripe_sum_def)
  moreover have "pool_sum (inflight_weight i) q = 0" for q by (induction q) auto
  moreover have "msum (\<lambda>_ _. 0) (dispatched s) = 0" by (simp add: msum_def)
  ultimately show ?thesis
    using assms by (simp add: acct_def msum_count stripe_workers_def suspended_def resuming_def)
qed

lemma terminal_count:
  assumes "places_finite s"
  shows "acct (dispatched_weight one_if) s = card {k. \<exists>p. dispatched s k = Some p \<and> snd p}"
proof -
  have "msum (dispatched_w (dispatched_weight one_if)) (dispatched s) = msum (\<lambda>_ p. one_if (snd p)) (dispatched s)"
    by (rule msum_cong) simp
  moreover have "pool_sum (dispatched_weight one_if) q = 0" for q by (induction q) auto
  moreover have "msum (\<lambda>_ (b, a). worker_w (dispatched_weight one_if) b a) (workers s) = msum (\<lambda>_ _. 0) (workers s)"
    "msum (async_w (dispatched_weight one_if)) (async_tasks s) = msum (\<lambda>_ _. 0) (async_tasks s)"
    "msum (finishing_w (dispatched_weight one_if)) (finishing s) = msum (\<lambda>_ _. 0) (finishing s)"
    by (rule msum_cong; auto)+
  ultimately show ?thesis
    using assms by (simp add: acct_def stripe_sum_def msum_count) (simp add: msum_def)
qed

text \<open>The executor after a run from its start.\<close>

definition executor_at :: "BusinessExecutorOptions \<Rightarrow> Event list \<Rightarrow> BusinessExecutor \<Rightarrow> bool" where
  "executor_at o' evs s \<longleftrightarrow> (case Start o' of None \<Rightarrow> False
     | Some s0 \<Rightarrow> ok_run event_ok executor_next s0 evs \<and> s = run_ops executor_next s0 evs)"

lemma executor_at_inv:
  assumes "executor_at o' evs s"
  shows "executor_inv s" and "executor_ok s"
proof -
  obtain s0 where "Start o' = Some s0" "ok_run event_ok executor_next s0 evs" "s = run_ops executor_next s0 evs"
    using assms by (auto simp: executor_at_def split: option.splits)
  then show "executor_inv s" using bx.run_invar executor_inv_Start by blast
  then show "executor_ok s" by (simp add: executor_inv_def)
qed

text \<open>Options only come from \<open>Start\<close>.\<close>

section \<open>Properties\<close>

text \<open>The executor never throws its \<open>logic_error\<close>: whatever happened before, an event that meets its obligations
  succeeds. In particular the pool always takes the jobs that continue an asynchronous task and its lane.\<close>

theorem executor_never_fails:
  assumes "executor_at o' evs s" and "event_ok s e"
  shows "executor_step s e \<noteq> None"
  using executor_step_ok [OF executor_at_inv(1) [OF assms(1)] assms(2)] by auto

text \<open>C23: the budgets. There are never more pending tasks than configured. A stripe never holds more work than its capacity,
  the tasks that left its queue and are not finished counted with the queued ones: those a worker is executing and the
  asynchronous ones that are suspended or resuming. The pool holds at most one job per pending task and stripe, hence never
  fills up.\<close>

theorem executor_budgets:
  assumes "executor_at o' evs s" and "i < length (stripes s)"
  shows "current_pending_tasks s \<le> max_pending_tasks (options s)
    \<and> length (pool_queue s) \<le> current_pending_tasks s + stripe_count (options s)
    \<and> length (pool_queue s) < queue_capacity (options s)
    \<and> isolated_pending (stripes s ! i) \<le> per_stripe_queue_capacity (options s)
    \<and> length (stripe_queue (stripes s ! i)) + card (stripe_workers s i)
        + card (suspended s (StripeSlot i)) + card (resuming s (StripeSlot i)) \<le> per_stripe_queue_capacity (options s)"
proof -
  note ok = executor_at_inv(2) [OF assms(1)]
  have "0 < worker_threads (options s)" using okD(1) [OF ok] by (simp add: base_ok_def options_valid_def)
  then show ?thesis
    using okD(2) [OF ok] pool_bound [OF ok] lane_okD [OF okD(4) [OF ok] assms(2)] inflight_split [OF okD(8) [OF ok], of i]
    by (simp add: live_ok_def queue_capacity_def)
qed

text \<open>C10: at any time at most one worker or suspended asynchronous task holds an ordering slot (a stripe, or a key's
  lane): tasks of one slot never run concurrently.\<close>

theorem slot_exclusive:
  assumes "executor_at o' evs s"
  shows "card (drainers s x) + card (suspended s x) + card (resuming s x) \<le> 1"
proof -
  note ok = executor_at_inv(2) [OF assms]
  have "acct (token_weight x) s \<le> 1" using token_at [OF okD(3) [OF ok], of x] by (simp add: one_if_def del: slot_busy.simps)
  then show ?thesis using token_split [OF okD(8) [OF ok], of x] by simp
qed

text \<open>C9: the tasks of a slot start in the order in which they were accepted: those started so far, followed by those
  still queued, are the accepted ones.\<close>

theorem slot_fifo:
  assumes "executor_at o' evs s"
  shows "filter (\<lambda>t. ord_slot (options s) t = Some x) (accepted_log s)
    = filter (\<lambda>t. ord_slot (options s) t = Some x) (started_log s) @ slot_queue s x"
  using okD(7) [OF executor_at_inv(2) [OF assms]] unfolding fifo_ok_def by blast

text \<open>C24: no wake-up is lost: a slot with queued tasks has a drain job in the pool, a drainer, or an asynchronous task
  whose end posts one.\<close>

theorem waiting_slot_has_drainer:
  assumes "executor_at o' evs s" and "slot_queue s x \<noteq> []"
  shows "x \<in> set (job_slots (pool_queue s)) \<or> drainers s x \<noteq> {} \<or> suspended s x \<noteq> {} \<or> resuming s x \<noteq> {}"
proof (rule ccontr)
  assume none: "\<not> ?thesis"
  note ok = executor_at_inv(2) [OF assms(1)]
  have "slot_busy s x"
    using okD(3) [OF ok] assms(2) by (cases x) (auto simp: token_ok_def split: option.splits if_splits)
  moreover have "x \<notin> set (job_slots q) \<Longrightarrow> pool_sum (token_weight x) q = 0" for q
    by (induction q) (auto split: option.splits)
  ultimately show False
    using none token_split [OF okD(8) [OF ok], of x] token_at [OF okD(3) [OF ok], of x] by (simp del: slot_busy.simps)
qed

text \<open>C25: every accepted task is either pending or has ended in exactly one way (completed, failed, expired, cancelled,
  its completion dropped or failed); a task whose deadline notification is still under way counts as both.\<close>

theorem accepted_tasks_accounted:
  assumes "executor_at o' evs s"
  shows "accepted_total (counters s) + card {k. \<exists>p. dispatched s k = Some p \<and> snd p}
    = ended (counters s) + current_pending_tasks s"
  using okD(6,8) [OF executor_at_inv(2) [OF assms]] terminal_count [of s] by (simp add: counter_ok_def)

text \<open>What a submission answers. In particular it is never turned away because of the pool.\<close>

theorem submit_status:
  assumes "executor_at o' evs s"
  shows "fst (Submit now alloc_fails task s) =
    (if has_work task = has_async_work task then kInvalidArgument
     else if DeadlineExpired now (effective_request s task) then kDeadlineExpired
     else if \<not> IsAccepting s then kShuttingDown
     else if current_pending_tasks s = max_pending_tasks (options s) then kOverloaded
     else slot_status alloc_fails (new_task s task) s)"
proof -
  note ok = executor_at_inv(2) [OF assms]
  have le: "current_pending_tasks s \<le> max_pending_tasks (options s)" using okD(2) [OF ok] by (simp add: live_ok_def)
  have "\<exists>s'. place alloc_fails (new_task s task) (reserved s) = (slot_status alloc_fails (new_task s task) s, s')"
    if "current_pending_tasks s < max_pending_tasks (options s)"
    using place_ok [OF ok that, of "new_task s task"] by (auto simp: new_task_def)
  with le show ?thesis unfolding Submit_eq IsAccepting_def by (auto simp: le_less split: if_splits)
qed

text \<open>What a drained executor still contains: nothing but drain jobs that find their slot empty.\<close>


lemma drained_empty:
  assumes ok: "executor_ok s" and d: "drained s"
  shows "slot_queue s x = []" and "async_tasks s = Map.empty" and "finishing s = Map.empty" and "dispatched s = Map.empty"
    and "(b, j) \<in> set (pool_queue s) \<Longrightarrow> \<not> b \<and> job_slot j \<noteq> None"
    and "workers s w = Some (b, a) \<Longrightarrow> \<not> b \<and> activity_task a = None"
proof -
  note p = okD [OF ok]
  let ?W = "live_weight (\<lambda>_. 1)"
  have z: "acct ?W s = 0" "acct async_weight s = 0" "acct internal_weight s = 0"
    using p(2,6) d by (simp_all add: drained_def live_ok_def counter_ok_def)
  show 1: "async_tasks s = Map.empty" and "finishing s = Map.empty"
    using z(2) p(8) by (auto simp: acct_def msum_zero_iff intro!: ext)
  show "dispatched s = Map.empty"
    using z(1) p(8) by (auto simp: acct_def msum_zero_iff intro!: ext) (metis option.exhaust surj_pair)
  show "workers s w = Some (b, a) \<Longrightarrow> \<not> b \<and> activity_task a = None"
    using z(1,3) p(8) by (fastforce simp: acct_def msum_zero_iff split: option.splits)
  have jobs: "(b, j) \<in> set q \<Longrightarrow> job_w W b j \<le> pool_sum W q" for b j W q by (induction q) auto
  have "JobContinuation t \<noteq> j" if "(b, j) \<in> set (pool_queue s)" for t b j
    using p(5) 1 that by (force simp: job_ok_def continuations_def)
  with jobs [of _ _ _ ?W] jobs [of _ _ _ internal_weight] z(1,3)
  show "(b, j) \<in> set (pool_queue s) \<Longrightarrow> \<not> b \<and> job_slot j \<noteq> None"
    by (cases j) (fastforce simp: acct_def)+
  have "stripe_w ?W i (stripes s ! i) = 0" if "i < length (stripes s)" for i
    using z(1) that by (simp add: acct_def stripe_sum_def)
  then have st: "ids_weight (\<lambda>_. 1) (stripe_queue (stripes s ! i)) = 0" "msum (\<lambda>_. ids_weight (\<lambda>_. 1)) (lanes (stripes s ! i)) = 0"
    if "i < length (stripes s)" for i
    using that by simp_all
  have "finite (dom (lanes (stripes s ! i)))" if "i < length (stripes s)" for i
    using p(8) that by (simp add: places_finite_def del: places_finiteD)
  with st show "slot_queue s x = []"
    by (cases x) (fastforce simp: msum_zero_iff ids_weight_def split: option.splits)+
qed


definition stays_idle :: "BusinessExecutor \<Rightarrow> BusinessExecutor \<Rightarrow> bool" where
  "stays_idle s s' \<longleftrightarrow> (drained s \<longrightarrow> drained s') \<and> accepting s' = accepting s \<and> started_log s' = started_log s \<and> accepted_log s' = accepted_log s"

lemma idle_updates [simp]:
  "accepting (set_worker w a s) = accepting s" "drained (set_worker w a s) = drained s"
  "accepting (count g s) = accepting s" "drained (count g s) = drained s"
  "accepting (end_job w s) = accepting s" "drained s \<Longrightarrow> drained (end_job w s)"
  "accepting (upd_stripe i f s) = accepting s" "drained (upd_stripe i f s) = drained s"
  "accepting (ReleasePending s) = accepting s"
  by (auto simp: exec_defs drained_def split: option.split)

lemma idle_step:
  assumes inv: "executor_inv s" and d: "drained s" and a: "\<not> accepting s"
  shows "stays_idle s (executor_next s e)"
proof -
  have ok: "executor_ok s" using inv by (simp add: executor_inv_def)
  note empty = drained_empty [OF ok d]
  have task: "activity_task x = None" if "workers s w = Some (b, x)" for w b x using empty(6) [OF that] by simp
  have lane: "lanes (stripes s ! i) k \<noteq> Some (t # q)" "stripe_queue (stripes s ! i) \<noteq> t # q" if "i < length (stripes s)" for i k t q
    using empty(1) [of "KeySlot i k"] empty(1) [of "StripeSlot i"] that by auto
  have key: "i < length (stripes s)" if "workers s w = Some (b, AtDrainKey i k)" for w b i k
    using token_at_worker(1) [OF okD(8) [OF ok] that _ okD(3) [OF ok]] by simp
  show ?thesis
  proof (cases e)
    case (EvSubmit now alloc task)
    with a d show ?thesis by (simp add: executor_next_def stays_idle_def Submit_eq) (simp add: drained_def)
  next
    case (EvTakeJob w)
    with d empty(5) show ?thesis
      by (auto simp: executor_next_def stays_idle_def take_job_def Let_def drained_def end_job_def count_def split: option.split list.split Job.split)
  next
    case (EvDrainStripe w)
    with d lane(2) show ?thesis
      by (auto simp: executor_next_def stays_idle_def DrainStripe_def Let_def split: option.split list.split prod.split Activity.split)
  next
    case (EvDrainKey w)
    have "stays_idle s (DrainKey w s)"
    proof (cases "\<exists>b i k. workers s w = Some (b, AtDrainKey i k)")
      case True
      then obtain b i k where w: "workers s w = Some (b, AtDrainKey i k)" by blast
      with lane(1) [OF key [OF w], of k] d show ?thesis
        by (auto simp: stays_idle_def DrainKey_def split: option.split list.split)
    next
      case False
      then have "DrainKey w s = s" by (auto simp: DrainKey_def split: option.split prod.split Activity.split)
      then show ?thesis by (simp add: stays_idle_def)
    qed
    with EvDrainKey show ?thesis by (simp add: executor_next_def)
  next
    case (EvExecuteBegin w now valid probe throws)
    have "workers s w \<noteq> Some (b, Entering t origin)" for b t origin using task [of w b "Entering t origin"] by auto
    then have "ExecuteTask_begin w now valid probe throws s = s"
      by (auto simp: ExecuteTask_begin_def split: option.split prod.split Activity.split)
    with EvExecuteBegin show ?thesis by (simp add: executor_next_def stays_idle_def)
  next
    case (EvExecuteEnd w out probe throws)
    have "workers s w \<noteq> Some (b, Working t origin)" for b t origin using task [of w b "Working t origin"] by auto
    then have "ExecuteTask_end w out probe throws s = s"
      by (auto simp: ExecuteTask_end_def split: option.split prod.split Activity.split)
    with EvExecuteEnd show ?thesis by (simp add: executor_next_def stays_idle_def)
  next
    case (EvAfterExecute w)
    obtain s' where s': "after_execute w s = Some s'" using after_execute_ok [OF ok] by blast
    then have "stays_idle s s'"
      by (auto simp: after_execute_def stays_idle_def CompleteKeyTask_def Let_def split: option.splits prod.splits Activity.splits
          Origin.splits bool.splits if_splits)
    with s' EvAfterExecute show ?thesis by (simp add: executor_next_def)
  next
    case (EvAsyncWorkReturns w)
    have "drained (s\<lparr>current_active_tasks := n\<rparr>)" for n using d by (simp add: drained_def)
    with EvAsyncWorkReturns show ?thesis
      by (auto simp: executor_next_def stays_idle_def async_work_returns_def split: option.split prod.split Activity.split)
  next
    case (EvContinuationReturns w throws)
    have "drained (s\<lparr>current_active_tasks := n\<rparr>)" for n using d by (simp add: drained_def)
    with EvContinuationReturns show ?thesis
      by (auto simp: executor_next_def stays_idle_def continuation_returns_def job_throws_def Let_def
          split: option.split prod.split Activity.split bool.split)
  qed (use d a empty(2-4) in \<open>simp_all add: executor_next_def stays_idle_def BeginDrain_def drained_def post_continuation_def
    FinishAsync_def FinishAsync_tail_def run_completion_def\<close>)
qed

text \<open>When the condition that \<open>ShutdownGraceful\<close> waits for holds, no task is queued, running, suspended or waiting
  for its completion, and every accepted task has ended.\<close>

theorem drained_is_idle:
  assumes "executor_at o' evs s" and "drained s"
  shows "slot_queue s x = [] \<and> async_tasks s = Map.empty \<and> finishing s = Map.empty \<and> dispatched s = Map.empty
    \<and> (b, JobExecuteTask t) \<notin> set (pool_queue s) \<and> workers s w \<noteq> Some (b', Entering t origin)
    \<and> workers s w \<noteq> Some (b', Working t origin) \<and> accepted_total (counters s) = ended (counters s)"
proof -
  note ok = executor_at_inv(2) [OF assms(1)]
  note empty = drained_empty [OF ok assms(2)]
  have "accepted_total (counters s) = ended (counters s)"
    using okD(6,8) [OF ok] terminal_count [of s] assms(2) empty(4) by (simp add: counter_ok_def drained_def)
  then show ?thesis
    using empty(1-4) empty(5) [of b "JobExecuteTask t"] empty(6) [of w b' "Entering t origin"]
      empty(6) [of w b' "Working t origin"] by auto
qed

text \<open>Draining is final: once admission is closed and the condition of \<open>ShutdownGraceful\<close> has been seen to hold, it
  holds for ever, and no further task is accepted or started.\<close>

theorem drained_is_final:
  assumes "executor_at o' evs s" and "drained s" and "\<not> IsAccepting s" and "ok_run event_ok executor_next s evs'"
  shows "drained (run_ops executor_next s evs') \<and> \<not> IsAccepting (run_ops executor_next s evs')
    \<and> accepted_log (run_ops executor_next s evs') = accepted_log s \<and> started_log (run_ops executor_next s evs') = started_log s"
proof -
  let ?P = "\<lambda>s'. drained s' \<and> \<not> accepting s' \<and> accepted_log s' = accepted_log s \<and> started_log s' = started_log s"
  have "?P (run_ops executor_next s evs')"
  proof (rule bx.run_keeps [where Q = "\<lambda>_. True" and P = ?P and ops = evs'])
    show "?P (executor_next s' e)" if "executor_inv s'" "event_ok s' e" "True" "?P s'" for s' e
      using idle_step [of s' e] that by (simp add: stays_idle_def)
  qed (use assms executor_at_inv(1) [OF assms(1)] in \<open>simp_all add: IsAccepting_def list_all_iff\<close>)
  then show ?thesis by (simp add: IsAccepting_def)
qed

text \<open>The obligation on the validity probe is needed. If \<open>still_valid\<close> throws, the exception leaves the drain loop:
  the stripe keeps its running flag without any drainer, the task is lost but stays counted as pending, and a later
  submission to the stripe queues behind it without posting a drainer.\<close>

theorem throwing_probe_strands_stripe:
  assumes "executor_at o' evs s" and "workers s w = Some (b, Entering t (FromStripe i))"
    and "cancellation_policy (spec t) = kCancelable" "has_still_valid (spec t)" "\<not> DeadlineExpired now (request (spec t))"
    and "s' = ExecuteTask_begin w now ProbeThrows probe throws s" and "ord_slot (options s) (new_task s' task) = Some (StripeSlot i)"
  shows "running (stripes s' ! i) \<and> StripeSlot i \<notin> set (job_slots (pool_queue s')) \<and> drainers s' (StripeSlot i) = {}
    \<and> suspended s' (StripeSlot i) = {} \<and> resuming s' (StripeSlot i) = {}
    \<and> current_pending_tasks s' = current_pending_tasks s
    \<and> pool_queue (snd (Submit now' alloc_fails task s')) = pool_queue s'"
proof -
  let ?x = "StripeSlot i"
  note ok = executor_at_inv(2) [OF assms(1)]
  note p = okD [OF ok]
  have s': "s' = job_throws w s" using assms(2-6) by (simp add: ExecuteTask_begin_def)
  then have f: "stripes s' = stripes s" "pool_queue s' = pool_queue s" "async_tasks s' = async_tasks s" "finishing s' = finishing s"
    "options s' = options s" "current_pending_tasks s' = current_pending_tasks s"
    by (auto simp: job_throws_def split: option.split bool.split)
  have busy: "slot_busy s ?x" using token_at_worker(1) [OF p(8) assms(2) _ p(3)] by simp
  have fin: "finite (drainers s ?x)" "finite (suspended s ?x)" "finite (resuming s ?x)"
    using p(8) by (auto simp: drainers_def suspended_def resuming_def intro: rev_finite_subset [OF places_finiteD(1)]
        rev_finite_subset [OF places_finiteD(2)] rev_finite_subset [OF places_finiteD(3)])
  have w: "w \<in> drainers s ?x" using assms(2) by (simp add: drainers_def)
  then have "0 < card (drainers s ?x)" using fin(1) card_gt_0_iff by blast
  moreover have "pool_sum (token_weight ?x) (pool_queue s) + card (drainers s ?x) + card (suspended s ?x) + card (resuming s ?x) = 1"
    using token_split [OF p(8), of ?x] token_at [OF p(3), of ?x] busy by (simp del: slot_busy.simps)
  ultimately have n: "card (drainers s ?x) = 1" "card (suspended s ?x) = 0" "card (resuming s ?x) = 0"
      "pool_sum (token_weight ?x) (pool_queue s) = 0"
    by linarith+
  then have c: "card (drainers s ?x) = 1" "suspended s ?x = {}" "resuming s ?x = {}" "pool_sum (token_weight ?x) (pool_queue s) = 0"
    using fin by simp_all
  have "drainers s' ?x = drainers s ?x - {w}" by (auto simp: drainers_def s')
  with c(1) w have d: "drainers s' ?x = {}" by (auto simp: card_1_singleton_iff)
  have i: "i < length (stripes s)" "running (stripes s ! i)" using busy by simp_all
  obtain key where key: "ordering_key (request (spec (new_task s' task))) = Some key" "\<not> isolate_ordering_keys (options s)"
      "i = unat key mod stripe_count (options s)"
    using assms(7) by (auto simp: ord_slot_def Let_def split: option.splits if_splits)
  then have "pool_queue (snd (place alloc_fails (new_task s' task) (reserved s'))) = pool_queue s'"
    using p(1) i by (simp add: place_def SubmitOrdered_def Let_def f base_ok_def)
  then have "pool_queue (snd (Submit now' alloc_fails task s')) = pool_queue s'"
    unfolding Submit_eq
    by (cases "place alloc_fails (new_task s' task) (reserved s')") (simp add: count_rejection_def)
  with c(2-4) d i job_slots_counted [of ?x "pool_queue s"] show ?thesis
    by (auto simp: f suspended_def resuming_def)
qed


section \<open>Witnesses\<close>

text \<open>One worker, one stripe, three ordered tasks: the first is in execution, the second queued, the third turned away.\<close>

definition demo_options :: BusinessExecutorOptions where
  "demo_options = \<lparr>worker_threads = 1, max_pending_tasks = 3, stripe_count = 1, per_stripe_queue_capacity = 3,
     default_deadline = 1000, shutdown_timeout = 1000, isolate_ordering_keys = False\<rparr>"

definition demo_task :: TaskSpec where
  "demo_task = \<lparr>request = \<lparr>received_at = 1, deadline = 0, ordering_key = Some 7\<rparr>, cancellation_policy = kCancelable,
     has_still_valid = True, has_completion_still_valid = False, has_work = True, has_async_work = False,
     has_dispatcher = False, has_deadline_completion = False\<rparr>"

definition demo_events :: "Event list" where
  "demo_events = [EvSubmit 1 False demo_task, EvSubmit 1 False demo_task, EvSubmit 1 False demo_task, EvTakeJob 0, EvDrainStripe 0]"

definition demo_idle_events :: "Event list" where
  "demo_idle_events = [EvSubmit 1 False demo_task, EvTakeJob 0, EvDrainStripe 0, EvExecuteBegin 0 1 ProbeTrue ProbeTrue False,
     EvExecuteEnd 0 WorkWithoutCompletion ProbeTrue False, EvBeginDrain]"

definition demo_state :: "Event list \<Rightarrow> BusinessExecutor" where
  "demo_state evs = run_ops executor_next (the (Start demo_options)) evs"

lemmas demo_defs = demo_state_def demo_options_def demo_task_def demo_events_def demo_idle_events_def Start_def options_valid_def
  size_max_def executor_next_def Submit_def HasDeadline_def DeadlineExpired_def ReservePending_def SubmitOrdered_def TrySubmit_def
  queue_capacity_def new_stripe_def upd_stripe_def count_def Let_def UpdatePeak_def take_job_def DrainStripe_def set_worker_def
  no_counters_def count_rejection_def ExecuteTask_begin_def ExecuteTask_end_def conclude_def ReleasePending_def BeginDrain_def

lemma demo_at: "executor_at demo_options demo_events (demo_state demo_events)"
  by (simp add: executor_at_def demo_defs)

lemma demo_idle_at: "executor_at demo_options demo_idle_events (demo_state demo_idle_events)"
  by (simp add: executor_at_def demo_defs)

lemma demo_facts:
  "slot_queue (demo_state demo_events) (StripeSlot 0) \<noteq> []"
  "length (stripes (demo_state demo_events)) = 1"
  "workers (demo_state demo_events) 0 = Some (False, Entering \<lparr>task_id = 0, spec = demo_task\<lparr>request := \<lparr>received_at = 1,
     deadline = 1001, ordering_key = Some 7\<rparr>\<rparr>, async_stripe = None, async_key = None\<rparr> (FromStripe 0))"
  "options (demo_state demo_events) = demo_options"
  by (simp_all add: demo_defs)

lemma demo_idle_facts: "drained (demo_state demo_idle_events)" "\<not> IsAccepting (demo_state demo_idle_events)"
  by (simp_all add: demo_defs drained_def IsAccepting_def)

theorem executor_never_fails_witness: "executor_step (demo_state demo_events) (EvExecuteBegin 0 5 ProbeTrue ProbeTrue False) \<noteq> None"
  by (rule executor_never_fails [OF demo_at]) simp

theorem executor_budgets_witness:
  "current_pending_tasks (demo_state demo_events) \<le> 3 \<and> length (pool_queue (demo_state demo_events)) \<le> 4
   \<and> length (stripe_queue (stripes (demo_state demo_events) ! 0)) + card (stripe_workers (demo_state demo_events) 0)
       \<le> per_stripe_queue_capacity demo_options"
  using executor_budgets [OF demo_at, of 0] demo_facts(2,4) by (simp add: demo_options_def)

theorem slot_exclusive_witness: "card (drainers (demo_state demo_events) (StripeSlot 0)) \<le> 1"
  using slot_exclusive [OF demo_at, of "StripeSlot 0"] by simp

theorem slot_fifo_witness:
  "filter (\<lambda>t. ord_slot demo_options t = Some (StripeSlot 0)) (accepted_log (demo_state demo_events))
    = filter (\<lambda>t. ord_slot demo_options t = Some (StripeSlot 0)) (started_log (demo_state demo_events))
      @ slot_queue (demo_state demo_events) (StripeSlot 0)"
  using slot_fifo [OF demo_at, of "StripeSlot 0"] unfolding demo_facts(4) .

theorem waiting_slot_has_drainer_witness:
  "StripeSlot 0 \<in> set (job_slots (pool_queue (demo_state demo_events))) \<or> drainers (demo_state demo_events) (StripeSlot 0) \<noteq> {}
    \<or> suspended (demo_state demo_events) (StripeSlot 0) \<noteq> {} \<or> resuming (demo_state demo_events) (StripeSlot 0) \<noteq> {}"
  by (rule waiting_slot_has_drainer [OF demo_at demo_facts(1)])

theorem accepted_tasks_accounted_witness:
  "accepted_total (counters (demo_state demo_events)) + card {k. \<exists>p. dispatched (demo_state demo_events) k = Some p \<and> snd p}
    = ended (counters (demo_state demo_events)) + current_pending_tasks (demo_state demo_events)"
  by (rule accepted_tasks_accounted [OF demo_at])

theorem submit_status_witness: "fst (Submit 1 False demo_task (demo_state demo_events)) = kAccepted"
proof -
  have "current_pending_tasks (demo_state demo_events) = 2" "IsAccepting (demo_state demo_events)"
    "length (slot_queue (demo_state demo_events) (StripeSlot 0)) = 1"
    by (simp_all add: demo_defs IsAccepting_def)
  then have "slot_status False (new_task (demo_state demo_events) demo_task) (demo_state demo_events) = kAccepted"
    by (simp add: slot_status_def ord_slot_def new_task_def effective_request_def demo_facts(4) demo_options_def demo_task_def
        HasDeadline_def one_if_def del: slot_busy.simps slot_queue.simps)
  with \<open>current_pending_tasks (demo_state demo_events) = 2\<close> \<open>IsAccepting (demo_state demo_events)\<close> show ?thesis
    unfolding submit_status [OF demo_at]
    by (simp add: effective_request_def demo_facts(4) HasDeadline_def DeadlineExpired_def demo_options_def demo_task_def)
qed

theorem drained_is_idle_witness: "slot_queue (demo_state demo_idle_events) (StripeSlot 0) = []"
  using drained_is_idle [OF demo_idle_at demo_idle_facts(1), of "StripeSlot 0"] by (simp del: slot_queue.simps)

theorem drained_is_final_witness: "drained (run_ops executor_next (demo_state demo_idle_events) [EvSubmit 3 False demo_task])"
  using drained_is_final [OF demo_idle_at demo_idle_facts, of "[EvSubmit 3 False demo_task]"] by simp

theorem throwing_probe_strands_stripe_witness:
  "drainers (ExecuteTask_begin 0 5 ProbeThrows ProbeTrue False (demo_state demo_events)) (StripeSlot 0) = {}"
proof -
  have "ord_slot (options (demo_state demo_events))
      (new_task (ExecuteTask_begin 0 5 ProbeThrows ProbeTrue False (demo_state demo_events)) demo_task) = Some (StripeSlot 0)"
    unfolding demo_facts(4)
    by (simp add: ord_slot_def new_task_def effective_request_def demo_task_def demo_options_def HasDeadline_def)
  then show ?thesis
    using throwing_probe_strands_stripe [OF demo_at demo_facts(3) _ _ _ refl, of 5 ProbeTrue False demo_task]
    by (simp add: demo_task_def DeadlineExpired_def HasDeadline_def)
qed

end
