(* ===== verification/Timer_Queue.thy ===== *)
theory Timer_Queue
  imports TIMX_Prelude "HOL-Library.Product_Lexorder"
begin

text \<open>
  The timers of an event loop: \<open>common/net/TimerQueue.{h,cpp}\<close> and \<open>common/net/Timer.{h,cpp}\<close>, with the functor queue
  of \<open>common/net/EventLoop.cpp\<close> through which other threads reach it.

  \<open>AddTimer\<close> and \<open>Cancel\<close> may be called on any thread (\<open>in_loop\<close> says whether it is the loop's). Everything else
  happens on the loop thread: running a pending functor, and \<open>HandleRead\<close>, which is split where it calls user code, so
  that a callback's own calls of \<open>AddTimer\<close> and \<open>Cancel\<close> and those of other threads come between its steps. Times are
  nanoseconds. The timer descriptor is the time at which it becomes readable; \<open>timerfd_settime\<close> is taken to succeed (a
  failure is logged and otherwise ignored). \<open>DoPendingFunctors\<close> swaps the vector of functors and runs them in order; the
  model runs them one at a time from the front, which is the same order.

  A call of \<open>AddTimer\<close> or \<open>Cancel\<close> is one step, although the queue's mutex is released before the functor is handed to the
  loop. What can come in between does not see a difference: the sequence number of an unfinished \<open>AddTimer\<close> is unknown to
  everyone else, and an \<open>AddTimerInLoop\<close> between the two halves of a \<open>Cancel\<close> finds the cancellation already recorded, as
  it does when the functor of the cancellation is queued behind it.
\<close>

section \<open>Timers\<close>

record Timer =
  expiration :: int
  interval :: int  \<comment> \<open>milliseconds\<close>
  sequence :: u64

definition IsRepeat :: "Timer \<Rightarrow> bool" where
  "IsRepeat t \<longleftrightarrow> interval t > 0"

definition Restart :: "int \<Rightarrow> Timer \<Rightarrow> Timer" where
  "Restart restart_time t = (if \<not> IsRepeat t then t else t\<lparr>expiration := restart_time + interval t * 1000000\<rparr>)"

section \<open>State\<close>

type_synonym Entry = "int \<times> u64"

definition EntryLess :: "Entry \<Rightarrow> Entry \<Rightarrow> bool" where
  "EntryLess l r = (if fst l < fst r then True else if fst r < fst l then False else snd l < snd r)"

datatype Functor = AddFunctor int int u64 | CancelFunctor u64

text \<open>\<open>batch\<close> is what \<open>HandleRead\<close> holds while it runs: the expired timers and how many of them have been treated.\<close>

record TimerQueue =
  schedule :: "Entry list"
  timers :: "u64 \<rightharpoonup> Timer"
  next_sequence :: u64
  calling_expired_timers :: bool
  canceling_sequences :: "u64 set"
  pending_add_sequences :: "u64 set"
  pending_cancel_sequences :: "u64 set"
  pending_functors :: "Functor list"
  readable_at :: "int option"
  batch :: "(Timer list \<times> nat) option"
  clock :: int  \<comment> \<open>observation only: the time of the last event\<close>
  batch_number :: nat  \<comment> \<open>observation only\<close>
  fired :: "(nat \<times> int \<times> Timer) list"  \<comment> \<open>observation only: batch, its time, timer\<close>

definition TimerQueue_new :: TimerQueue where
  "TimerQueue_new = \<lparr>schedule = [], timers = Map.empty, next_sequence = 1, calling_expired_timers = False,
     canceling_sequences = {}, pending_add_sequences = {}, pending_cancel_sequences = {}, pending_functors = [],
     readable_at = None, batch = None, clock = 0, batch_number = 0, fired = []\<rparr>"

section \<open>Operations\<close>

definition ResetTimerfd :: "int \<Rightarrow> int \<Rightarrow> TimerQueue \<Rightarrow> TimerQueue" where
  "ResetTimerfd now e q =
     (let delay = e - now; delay = (if delay \<le> 0 then 1 else delay) in q\<lparr>readable_at := Some (now + delay)\<rparr>)"

definition DisarmTimerfd :: "TimerQueue \<Rightarrow> TimerQueue" where
  "DisarmTimerfd q = q\<lparr>readable_at := None\<rparr>"

definition ResetTimerfdToNext :: "int \<Rightarrow> TimerQueue \<Rightarrow> TimerQueue" where
  "ResetTimerfdToNext now q = (case schedule q of [] \<Rightarrow> DisarmTimerfd q | e # _ \<Rightarrow> ResetTimerfd now (fst e) q)"

definition AddTimerInLoop :: "int \<Rightarrow> int \<Rightarrow> int \<Rightarrow> u64 \<Rightarrow> TimerQueue \<Rightarrow> TimerQueue" where
  "AddTimerInLoop now e iv sq q =
     (let canceled_before_add = (sq \<in> pending_cancel_sequences q);
          q = q\<lparr>pending_add_sequences := pending_add_sequences q - {sq},
                pending_cancel_sequences := pending_cancel_sequences q - {sq}\<rparr>
      in
      if canceled_before_add then q
      else
        let entry = (e, sq);
            earliest_changed = (schedule q = [] \<or> EntryLess entry (hd (schedule q)))
        in
        if timers q sq \<noteq> None then q
        else if entry \<in> set (schedule q) then q
        else
          let q' = q\<lparr>timers := (timers q)(sq \<mapsto> \<lparr>expiration = e, interval = iv, sequence = sq\<rparr>),
                     schedule := insort entry (schedule q)\<rparr>
          in if earliest_changed then ResetTimerfd now e q' else q')"

definition CancelInLoop :: "int \<Rightarrow> u64 \<Rightarrow> TimerQueue \<Rightarrow> TimerQueue" where
  "CancelInLoop now sq q =
     (case timers q sq of
        Some t \<Rightarrow>
          let earliest_removed = (schedule q \<noteq> [] \<and> snd (hd (schedule q)) = sq);
              q' = q\<lparr>schedule := remove1 (expiration t, sq) (schedule q), timers := (timers q)(sq := None)\<rparr>
          in if earliest_removed then ResetTimerfdToNext now q' else q'
      | None \<Rightarrow>
          if calling_expired_timers q then q\<lparr>canceling_sequences := insert sq (canceling_sequences q)\<rparr> else q)"

fun run_functor :: "int \<Rightarrow> Functor \<Rightarrow> TimerQueue \<Rightarrow> TimerQueue" where
  "run_functor now (AddFunctor e iv sq) q = AddTimerInLoop now e iv sq q"
| "run_functor now (CancelFunctor sq) q = CancelInLoop now sq q"

definition RunInLoop :: "bool \<Rightarrow> int \<Rightarrow> Functor \<Rightarrow> TimerQueue \<Rightarrow> TimerQueue" where
  "RunInLoop in_loop now f q =
     (if in_loop then run_functor now f q else q\<lparr>pending_functors := pending_functors q @ [f]\<rparr>)"

text \<open>The result is the sequence number of the \<open>TimerId\<close>, \<open>None\<close> for the invalid one.\<close>

definition AddTimer :: "bool \<Rightarrow> int \<Rightarrow> bool \<Rightarrow> int \<Rightarrow> int \<Rightarrow> TimerQueue \<Rightarrow> u64 option \<times> TimerQueue" where
  "AddTimer in_loop now has_callback e iv q =
     (if \<not> has_callback then (None, q)
      else
        let sq = next_sequence q;
            q = q\<lparr>next_sequence := next_sequence q + 1, pending_add_sequences := insert sq (pending_add_sequences q)\<rparr>
        in (Some sq, RunInLoop in_loop now (AddFunctor e iv sq) q))"

text \<open>A timer id is its owner (is it this queue?) and a sequence number.\<close>

definition Cancel :: "bool \<Rightarrow> int \<Rightarrow> bool \<times> u64 \<Rightarrow> TimerQueue \<Rightarrow> bool \<times> TimerQueue" where
  "Cancel in_loop now timer_id q =
     (if \<not> fst timer_id \<or> snd timer_id = 0 then (False, q)
      else
        let sq = snd timer_id;
            q = (if sq \<in> pending_add_sequences q
                 then q\<lparr>pending_cancel_sequences := insert sq (pending_cancel_sequences q)\<rparr> else q)
        in (True, RunInLoop in_loop now (CancelFunctor sq) q))"

text \<open>The loop thread runs the next pending functor; it is not inside \<open>HandleRead\<close> then.\<close>

definition DoPendingFunctor :: "int \<Rightarrow> TimerQueue \<Rightarrow> TimerQueue" where
  "DoPendingFunctor now q =
     (case (batch q, pending_functors q) of
        (None, f # fs) \<Rightarrow> run_functor now f (q\<lparr>pending_functors := fs\<rparr>)
      | _ \<Rightarrow> q)"

text \<open>\<open>HandleRead\<close> up to the first callback: the expired entries leave the schedule, their timers the table.\<close>

definition HandleRead_begin :: "bool \<Rightarrow> int \<Rightarrow> TimerQueue \<Rightarrow> TimerQueue" where
  "HandleRead_begin read_ok now q =
     (if batch q \<noteq> None \<or> \<not> read_ok then q
      else
        let upper_bound = (now, - 1);
            expired = takeWhile (\<lambda>e. e \<le> upper_bound) (schedule q);
            expired_timers = List.map_filter (\<lambda>e. timers q (snd e)) expired
        in q\<lparr>schedule := dropWhile (\<lambda>e. e \<le> upper_bound) (schedule q),
             timers := timers q |` (- snd ` set expired),
             calling_expired_timers := True, canceling_sequences := {}, readable_at := None,
             batch := Some (expired_timers, 0), batch_number := batch_number q + 1\<rparr>)"

text \<open>One turn of the loop that runs the callbacks.\<close>

definition HandleRead_run :: "int \<Rightarrow> TimerQueue \<Rightarrow> TimerQueue" where
  "HandleRead_run now q =
     (case batch q of
        Some (ts, n) \<Rightarrow>
          if n < length ts then
            let t = ts ! n; q' = q\<lparr>batch := Some (ts, n + 1)\<rparr>
            in if sequence t \<in> canceling_sequences q then q'
               else q'\<lparr>fired := fired q @ [(batch_number q, now, t)]\<rparr>
          else q
      | None \<Rightarrow> q)"

text \<open>The second loop, over the expired timers: the repeating ones go back into the schedule.\<close>

definition restart_one :: "int \<Rightarrow> Timer \<Rightarrow> TimerQueue \<Rightarrow> TimerQueue" where
  "restart_one restart_time t q =
     (if \<not> IsRepeat t \<or> sequence t \<in> canceling_sequences q then q
      else
        let t' = Restart restart_time t; entry = (expiration t', sequence t') in
        if timers q (sequence t') \<noteq> None then q
        else if entry \<in> set (schedule q) then q
        else q\<lparr>timers := (timers q)(sequence t' \<mapsto> t'), schedule := insort entry (schedule q)\<rparr>)"

definition HandleRead_end :: "int \<Rightarrow> int \<Rightarrow> TimerQueue \<Rightarrow> TimerQueue" where
  "HandleRead_end restart_time now q =
     (case batch q of
        Some (ts, n) \<Rightarrow>
          if n < length ts then q
          else
            let q1 = fold (restart_one restart_time) ts (q\<lparr>calling_expired_timers := False\<rparr>)
            in ResetTimerfdToNext now (q1\<lparr>canceling_sequences := {}, batch := None\<rparr>)
      | None \<Rightarrow> q)"

section \<open>Events\<close>

datatype TimerEvent =
    EvAddTimer bool bool int int
  | EvCancel bool "bool \<times> u64"
  | EvFunctor
  | EvReadBegin bool
  | EvReadRun
  | EvReadEnd int

fun timer_do :: "int \<Rightarrow> TimerEvent \<Rightarrow> TimerQueue \<Rightarrow> TimerQueue" where
  "timer_do now (EvAddTimer in_loop has_callback e iv) q = snd (AddTimer in_loop now has_callback e iv q)"
| "timer_do now (EvCancel in_loop timer_id) q = snd (Cancel in_loop now timer_id q)"
| "timer_do now EvFunctor q = DoPendingFunctor now q"
| "timer_do now (EvReadBegin read_ok) q = HandleRead_begin read_ok now q"
| "timer_do now EvReadRun q = HandleRead_run now q"
| "timer_do now (EvReadEnd restart_time) q = HandleRead_end restart_time now q"

text \<open>Each event happens at a time.\<close>

definition timer_step :: "TimerQueue \<Rightarrow> int \<times> TimerEvent \<Rightarrow> TimerQueue" where
  "timer_step q = (\<lambda>(now, ev). timer_do now ev (q\<lparr>clock := now\<rparr>))"

text \<open>The steady clock does not run backwards, and the counter of sequence numbers, 64 bits wide, does not wrap around.\<close>

definition timer_call_ok :: "TimerQueue \<Rightarrow> int \<times> TimerEvent \<Rightarrow> bool" where
  "timer_call_ok q = (\<lambda>(now, ev). clock q \<le> now \<and> next_sequence q \<noteq> - 1)"

section \<open>Invariant\<close>

lemma EntryLess_iff: "EntryLess l r \<longleftrightarrow> l < r"
  by (cases l; cases r) (auto simp: EntryLess_def less_prod_def)

definition entry_of :: "Timer \<Rightarrow> Entry" where
  "entry_of t = (expiration t, sequence t)"

fun add_sequence :: "Functor \<Rightarrow> u64 list" where
  "add_sequence (AddFunctor e iv sq) = [sq]"
| "add_sequence (CancelFunctor sq) = []"

definition add_sequences :: "Functor list \<Rightarrow> u64 list" where
  "add_sequences fs = concat (map add_sequence fs)"

lemma add_sequences_simps [simp]:
  "add_sequences [] = []" "add_sequences (f # fs) = add_sequence f @ add_sequences fs"
  "add_sequences (fs @ gs) = add_sequences fs @ add_sequences gs"
  by (simp_all add: add_sequences_def)

definition batch_timers :: "TimerQueue \<Rightarrow> Timer list" where
  "batch_timers q = (case batch q of None \<Rightarrow> [] | Some (ts, n) \<Rightarrow> ts)"

text \<open>The schedule lists exactly the timers of the table, in order.\<close>

definition schedule_ok :: "TimerQueue \<Rightarrow> bool" where
  "schedule_ok q \<longleftrightarrow> sorted (schedule q) \<and> distinct (schedule q)
     \<and> set (schedule q) = entry_of ` ran (timers q) \<and> (\<forall>sq t. timers q sq = Some t \<longrightarrow> sequence t = sq)"

text \<open>A sequence number is in one place: the table, the current batch, or a functor that will add it.\<close>

definition names_inv :: "u64 set \<Rightarrow> u64 set \<Rightarrow> u64 list \<Rightarrow> u64 list \<Rightarrow> u64 set \<Rightarrow> u64 \<Rightarrow> bool" where
  "names_inv table adds functors running cancels n \<longleftrightarrow> adds = set functors \<and> distinct (functors @ running)
     \<and> table \<inter> set (functors @ running) = {} \<and> (\<forall>sq\<in>table \<union> set (functors @ running). 0 < sq \<and> sq < n)
     \<and> 0 < n \<and> cancels \<subseteq> adds"

definition names_ok :: "TimerQueue \<Rightarrow> bool" where
  "names_ok q \<longleftrightarrow> names_inv (dom (timers q)) (pending_add_sequences q) (add_sequences (pending_functors q))
     (map sequence (batch_timers q)) (pending_cancel_sequences q) (next_sequence q)"

lemma batch_timers_fields [simp]:
  "batch_timers (q\<lparr>schedule := a\<rparr>) = batch_timers q" "batch_timers (q\<lparr>timers := b\<rparr>) = batch_timers q"
  "batch_timers (q\<lparr>next_sequence := c\<rparr>) = batch_timers q" "batch_timers (q\<lparr>calling_expired_timers := d\<rparr>) = batch_timers q"
  "batch_timers (q\<lparr>canceling_sequences := e\<rparr>) = batch_timers q" "batch_timers (q\<lparr>pending_add_sequences := e\<rparr>) = batch_timers q"
  "batch_timers (q\<lparr>pending_cancel_sequences := e\<rparr>) = batch_timers q" "batch_timers (q\<lparr>pending_functors := f\<rparr>) = batch_timers q"
  "batch_timers (q\<lparr>readable_at := g\<rparr>) = batch_timers q" "batch_timers (q\<lparr>clock := h\<rparr>) = batch_timers q"
  "batch_timers (q\<lparr>batch_number := i\<rparr>) = batch_timers q" "batch_timers (q\<lparr>fired := j\<rparr>) = batch_timers q"
  "batch_timers (q\<lparr>batch := k\<rparr>) = (case k of None \<Rightarrow> [] | Some (ts, n) \<Rightarrow> ts)"
  by (simp_all add: batch_timers_def)

definition batch_ok :: "TimerQueue \<Rightarrow> bool" where
  "batch_ok q \<longleftrightarrow> sorted (map entry_of (batch_timers q)) \<and> (\<forall>t\<in>set (batch_timers q). expiration t \<le> clock q)
     \<and> (calling_expired_timers q \<longleftrightarrow> batch q \<noteq> None)"

text \<open>The timer descriptor wakes the loop in time for the first entry.\<close>

definition armed_ok :: "TimerQueue \<Rightarrow> bool" where
  "armed_ok q \<longleftrightarrow> batch q = None \<longrightarrow> (case schedule q of [] \<Rightarrow> readable_at q = None
     | e # _ \<Rightarrow> \<exists>a. readable_at q = Some a \<and> fst e \<le> a \<and> a \<le> max (fst e) (clock q + 1))"

definition before :: "nat \<times> int \<times> Timer \<Rightarrow> nat \<times> int \<times> Timer \<Rightarrow> bool" where
  "before = (\<lambda>(b, now, t) (b', now', t'). (b, entry_of t) < (b', entry_of t'))"

definition fired_ok :: "TimerQueue \<Rightarrow> bool" where
  "fired_ok q \<longleftrightarrow> sorted_wrt before (fired q) \<and> (\<forall>(b, now, t)\<in>set (fired q). b \<le> batch_number q \<and> expiration t \<le> now)
     \<and> (\<forall>ts n. batch q = Some (ts, n) \<longrightarrow>
          (\<forall>(b, now, t)\<in>set (fired q). b = batch_number q \<longrightarrow> (\<forall>u\<in>set (drop n ts). entry_of t < entry_of u)))"

definition timer_ok :: "TimerQueue \<Rightarrow> bool" where
  "timer_ok q \<longleftrightarrow> schedule_ok q \<and> names_ok q \<and> batch_ok q \<and> armed_ok q \<and> fired_ok q"

lemma timer_ok_new: "timer_ok TimerQueue_new"
  by (simp add: timer_ok_def TimerQueue_new_def schedule_ok_def names_ok_def names_inv_def batch_ok_def armed_ok_def fired_ok_def batch_timers_def)

lemma timer_ok_clock:
  assumes "timer_ok q" "clock q \<le> now"
  shows "timer_ok (q\<lparr>clock := now\<rparr>)"
proof -
  have "armed_ok (q\<lparr>clock := now\<rparr>)"
    using assms unfolding timer_ok_def armed_ok_def by (auto split: list.splits)
  moreover have "batch_ok (q\<lparr>clock := now\<rparr>)"
    using assms unfolding timer_ok_def batch_ok_def batch_timers_def by (auto split: option.splits)
  ultimately show ?thesis
    using assms by (auto simp: timer_ok_def schedule_ok_def names_ok_def batch_timers_def fired_ok_def)
qed

section \<open>The table and the schedule\<close>

lemma schedule_insert:
  assumes ok: "schedule_ok q" and new: "timers q (sequence t) = None"
    and q': "schedule q' = insort (entry_of t) (schedule q)" "timers q' = (timers q)(sequence t \<mapsto> t)"
  shows "schedule_ok q'" and "entry_of t \<notin> set (schedule q)"
proof -
  show notin: "entry_of t \<notin> set (schedule q)"
    using ok new by (auto simp: schedule_ok_def entry_of_def ran_def)
  have "ran (timers q') = insert t (ran (timers q))" using new q' by simp
  with ok notin show "schedule_ok q'"
    by (auto simp: schedule_ok_def q' sorted_insort distinct_insort set_insort_key)
qed

lemma schedule_remove:
  assumes ok: "schedule_ok q" and t: "timers q sq = Some t"
    and q': "schedule q' = remove1 (expiration t, sq) (schedule q)" "timers q' = (timers q)(sq := None)"
  shows "schedule_ok q'"
proof -
  have sq: "sequence t = sq" using ok t by (simp add: schedule_ok_def)
  have seq: "sequence u = a" if "timers q a = Some u" for a u using ok that by (simp add: schedule_ok_def)
  have "u \<in> ran (timers q') \<longleftrightarrow> u \<in> ran (timers q) \<and> u \<noteq> t" for u
  proof
    assume "u \<in> ran (timers q')"
    then obtain a where "a \<noteq> sq" "timers q a = Some u" by (auto simp: ran_def q' split: if_splits)
    with sq seq show "u \<in> ran (timers q) \<and> u \<noteq> t" by (auto simp: ran_def)
  next
    assume "u \<in> ran (timers q) \<and> u \<noteq> t"
    then obtain a where "timers q a = Some u" "u \<noteq> t" by (auto simp: ran_def)
    with t have "a \<noteq> sq" by auto
    with \<open>timers q a = Some u\<close> show "u \<in> ran (timers q')" by (auto simp: ran_def q')
  qed
  then have "ran (timers q') = ran (timers q) - {t}" by auto
  moreover have "entry_of u = entry_of t \<longleftrightarrow> u = t" if "u \<in> ran (timers q)" for u
    using that ok t sq by (auto simp: entry_of_def ran_def schedule_ok_def)
  moreover have "t \<in> ran (timers q)" using t by (rule ranI)
  ultimately have "entry_of ` ran (timers q') = entry_of ` ran (timers q) - {(expiration t, sq)}"
    using sq by (auto simp: entry_of_def)
  with ok show ?thesis by (auto simp: schedule_ok_def q' sorted_remove1 distinct_remove1 split: if_splits)
qed

lemma schedule_Cons:
  assumes "schedule_ok q" "schedule q = e # es"
  shows "\<exists>t. timers q (snd e) = Some t \<and> entry_of t = e"
proof -
  have "e \<in> set (schedule q)" using assms(2) by simp
  then have "e \<in> entry_of ` ran (timers q)" using assms(1) by (simp add: schedule_ok_def)
  then obtain t where "t \<in> ran (timers q)" "entry_of t = e" by auto
  with assms(1) show ?thesis by (auto simp: ran_def schedule_ok_def entry_of_def)
qed

lemma reset_fields [simp]:
  "schedule (ResetTimerfd now e q) = schedule q" "timers (ResetTimerfd now e q) = timers q"
  "next_sequence (ResetTimerfd now e q) = next_sequence q" "calling_expired_timers (ResetTimerfd now e q) = calling_expired_timers q"
  "canceling_sequences (ResetTimerfd now e q) = canceling_sequences q" "pending_add_sequences (ResetTimerfd now e q) = pending_add_sequences q"
  "pending_cancel_sequences (ResetTimerfd now e q) = pending_cancel_sequences q" "pending_functors (ResetTimerfd now e q) = pending_functors q"
  "batch (ResetTimerfd now e q) = batch q" "clock (ResetTimerfd now e q) = clock q" "batch_number (ResetTimerfd now e q) = batch_number q"
  "fired (ResetTimerfd now e q) = fired q" "batch_timers (ResetTimerfd now e q) = batch_timers q" "readable_at (ResetTimerfd now e q) = Some (max e (now + 1))"
  by (simp_all add: ResetTimerfd_def Let_def max_def)

lemma reset_next_fields [simp]:
  "schedule (ResetTimerfdToNext now q) = schedule q" "timers (ResetTimerfdToNext now q) = timers q"
  "next_sequence (ResetTimerfdToNext now q) = next_sequence q" "calling_expired_timers (ResetTimerfdToNext now q) = calling_expired_timers q"
  "canceling_sequences (ResetTimerfdToNext now q) = canceling_sequences q" "pending_add_sequences (ResetTimerfdToNext now q) = pending_add_sequences q"
  "pending_cancel_sequences (ResetTimerfdToNext now q) = pending_cancel_sequences q" "pending_functors (ResetTimerfdToNext now q) = pending_functors q"
  "batch (ResetTimerfdToNext now q) = batch q" "clock (ResetTimerfdToNext now q) = clock q" "batch_number (ResetTimerfdToNext now q) = batch_number q"
  "fired (ResetTimerfdToNext now q) = fired q" "batch_timers (ResetTimerfdToNext now q) = batch_timers q"
  "readable_at (ResetTimerfdToNext now q) = (case schedule q of [] \<Rightarrow> None | e # _ \<Rightarrow> Some (max (fst e) (now + 1)))"
  by (auto simp: ResetTimerfdToNext_def DisarmTimerfd_def split: list.split)

text \<open>Only the schedule, the table, the names and the descriptor change.\<close>

lemma frame_batch:
  assumes "batch_ok q" "fired_ok q" "batch q' = batch q" "clock q' = clock q" "calling_expired_timers q' = calling_expired_timers q"
    "batch_number q' = batch_number q" "fired q' = fired q"
  shows "batch_ok q'" "fired_ok q'" "batch_timers q' = batch_timers q"
proof -
  show b: "batch_timers q' = batch_timers q" using assms by (simp add: batch_timers_def)
  show "batch_ok q'" using assms unfolding batch_ok_def b by simp
  show "fired_ok q'" using assms unfolding fired_ok_def by simp
qed

lemma frame_armed:
  assumes "armed_ok q" "batch q' = batch q" "clock q' = clock q" "schedule q' = schedule q" "readable_at q' = readable_at q"
  shows "armed_ok q'"
  using assms(1) unfolding armed_ok_def assms(2-5) .

lemma frame_names:
  assumes "names_ok q" "pending_add_sequences q' = pending_add_sequences q" "pending_functors q' = pending_functors q"
    "batch q' = batch q" "timers q' = timers q" "next_sequence q' = next_sequence q"
    "pending_cancel_sequences q' = pending_cancel_sequences q"
  shows "names_ok q'"
  using assms(1) unfolding names_ok_def batch_timers_def assms(2-7) .

lemma AddTimerInLoop_ok:
  assumes s: "schedule_ok q" "batch_ok q" "armed_ok q" "fired_ok q"
    and n: "names_ok (q\<lparr>pending_functors := AddFunctor e iv sq # pending_functors q\<rparr>)" and c: "clock q = now"
  shows "timer_ok (AddTimerInLoop now e iv sq q)" (is "timer_ok ?q")
proof -
  let ?p = "q\<lparr>pending_add_sequences := pending_add_sequences q - {sq}, pending_cancel_sequences := pending_cancel_sequences q - {sq}\<rparr>"
  let ?t = "\<lparr>expiration = e, interval = iv, sequence = sq\<rparr>"
  have fresh: "timers q sq = None" "sq \<notin> set (add_sequences (pending_functors q))" "sq \<notin> sequence ` set (batch_timers q)"
    using n by (auto simp: names_ok_def names_inv_def)
  have names: "names_ok ?p" using n by (auto simp: names_ok_def names_inv_def)
  show ?thesis
  proof (cases "sq \<in> pending_cancel_sequences q")
    case True
    then have "?q = ?p" by (simp add: AddTimerInLoop_def Let_def)
    then show ?thesis using names s frame_batch [OF s(2,4), of ?p] frame_armed [OF s(3), of ?p]
      by (simp add: timer_ok_def schedule_ok_def)
  next
    case False
    let ?r = "?p\<lparr>timers := (timers q)(sq \<mapsto> ?t), schedule := insort (e, sq) (schedule q)\<rparr>"
    have ins: "schedule_ok ?r" "(e, sq) \<notin> set (schedule q)"
      using schedule_insert [OF s(1), of ?t ?r] fresh(1) by (simp_all add: entry_of_def)
    have q': "?q = (if schedule q = [] \<or> (e, sq) < hd (schedule q) then ResetTimerfd now e ?r else ?r)"
      using False fresh(1) ins(2) by (simp add: AddTimerInLoop_def Let_def EntryLess_iff)
    have fr: "batch_ok ?q" "fired_ok ?q" using frame_batch [OF s(2,4), of ?q] by (auto simp: q')
    have "schedule_ok ?q" using ins(1) by (simp add: q' schedule_ok_def)
    moreover have "names_ok ?q"
      using n fresh by (simp add: q' names_ok_def) (auto simp: names_inv_def)
    moreover have "armed_ok ?q"
    proof (cases "schedule q")
      case Nil
      then show ?thesis by (simp add: q' armed_ok_def c)
    next
      case (Cons x xs)
      show ?thesis
      proof (cases "(e, sq) < x")
        case True
        then have "insort (e, sq) (x # xs) = (e, sq) # x # xs" using less_imp_le [OF True] by simp
        with Cons True show ?thesis by (simp add: q' armed_ok_def c)
      next
        case False
        then have "\<not> (e, sq) \<le> x" using ins(2) Cons by (auto simp: order.order_iff_strict)
        then have "insort (e, sq) (x # xs) = x # insort (e, sq) xs" by simp
        with Cons False s(3) show ?thesis by (simp add: q' armed_ok_def)
      qed
    qed
    ultimately show ?thesis using fr by (simp add: timer_ok_def)
  qed
qed

lemma CancelInLoop_ok:
  assumes ok: "timer_ok q" and c: "clock q = now"
  shows "timer_ok (CancelInLoop now sq q)" (is "timer_ok ?q")
proof (cases "timers q sq")
  case None
  have s: "schedule_ok q" "names_ok q" "batch_ok q" "armed_ok q" "fired_ok q" using ok by (simp_all add: timer_ok_def)
  have "?q = q \<or> ?q = q\<lparr>canceling_sequences := insert sq (canceling_sequences q)\<rparr>" using None by (simp add: CancelInLoop_def)
  moreover have "timer_ok (q\<lparr>canceling_sequences := insert sq (canceling_sequences q)\<rparr>)" (is "timer_ok ?r")
    using s frame_batch [OF s(3,5), of ?r] frame_armed [OF s(4), of ?r] frame_names [OF s(2), of ?r]
    by (simp add: timer_ok_def schedule_ok_def)
  ultimately show ?thesis using ok by auto
next
  case (Some t)
  have s: "schedule_ok q" "names_ok q" "batch_ok q" "armed_ok q" "fired_ok q" using ok by (simp_all add: timer_ok_def)
  let ?r = "q\<lparr>schedule := remove1 (expiration t, sq) (schedule q), timers := (timers q)(sq := None)\<rparr>"
  have q': "?q = (if schedule q \<noteq> [] \<and> snd (hd (schedule q)) = sq then ResetTimerfdToNext now ?r else ?r)"
    using Some by (simp add: CancelInLoop_def Let_def)
  have "schedule_ok ?r" by (rule schedule_remove [OF s(1) Some]) simp_all
  then have "schedule_ok ?q" by (simp add: q' schedule_ok_def)
  moreover have "names_ok ?q" using s(2) by (simp add: q' names_ok_def) (auto simp: names_inv_def)
  moreover have "batch_ok ?q" "fired_ok ?q" using frame_batch [OF s(3,5), of ?q] by (auto simp: q')
  moreover have "armed_ok ?q"
  proof (cases "schedule q")
    case Nil
    with s(4) show ?thesis by (simp add: q' armed_ok_def)
  next
    case (Cons x xs)
    show ?thesis
    proof (cases "snd x = sq")
      case True
      then show ?thesis using Cons c by (auto simp: q' armed_ok_def split: list.splits)
    next
      case False
      then have "remove1 (expiration t, sq) (x # xs) = x # remove1 (expiration t, sq) xs" by auto
      with Cons False s(4) show ?thesis by (simp add: q' armed_ok_def)
    qed
  qed
  ultimately show ?thesis by (simp add: timer_ok_def)
qed

lemma AddTimer_ok:
  assumes ok: "timer_ok q" and c: "clock q = now" and n: "next_sequence q \<noteq> - 1"
  shows "timer_ok (snd (AddTimer in_loop now has_callback e iv q))"
proof (cases has_callback)
  case True
  have s: "schedule_ok q" "names_ok q" "batch_ok q" "armed_ok q" "fired_ok q" using ok by (simp_all add: timer_ok_def)
  let ?sq = "next_sequence q"
  let ?p = "q\<lparr>next_sequence := ?sq + 1, pending_add_sequences := insert ?sq (pending_add_sequences q)\<rparr>"
  have lt: "?sq < ?sq + 1" by (rule next_less [OF n])
  have mono: "sq < ?sq \<Longrightarrow> sq < ?sq + 1" for sq using lt by (rule less_trans [rotated])
  have p: "schedule_ok ?p" "batch_ok ?p" "armed_ok ?p" "fired_ok ?p"
    using s(1) frame_batch [OF s(3,5), of ?p] frame_armed [OF s(4), of ?p] by (simp_all add: schedule_ok_def)
  have names: "names_ok (?p\<lparr>pending_functors := AddFunctor e iv ?sq # pending_functors q\<rparr>)"
    "names_ok (?p\<lparr>pending_functors := pending_functors q @ [AddFunctor e iv ?sq]\<rparr>)"
    using s(2) lt mono unfolding names_ok_def by (auto simp: names_inv_def)
  show ?thesis
  proof (cases in_loop)
    case True
    with \<open>has_callback\<close> AddTimerInLoop_ok [OF p, of e iv ?sq now] names(1) c show ?thesis
      by (simp add: AddTimer_def RunInLoop_def Let_def)
  next
    case False
    let ?r = "?p\<lparr>pending_functors := pending_functors q @ [AddFunctor e iv ?sq]\<rparr>"
    have "schedule_ok ?r" "batch_ok ?r" "armed_ok ?r" "fired_ok ?r"
      using p frame_batch [OF p(2,4), of ?r] frame_armed [OF p(3), of ?r] by (simp_all add: schedule_ok_def)
    with False \<open>has_callback\<close> names(2) show ?thesis by (simp add: AddTimer_def RunInLoop_def Let_def timer_ok_def)
  qed
qed (simp add: AddTimer_def ok)

lemma Cancel_ok:
  assumes ok: "timer_ok q" and c: "clock q = now"
  shows "timer_ok (snd (Cancel in_loop now timer_id q))"
proof -
  have s: "schedule_ok q" "names_ok q" "batch_ok q" "armed_ok q" "fired_ok q" using ok by (simp_all add: timer_ok_def)
  let ?sq = "snd timer_id"
  let ?p = "if ?sq \<in> pending_add_sequences q then q\<lparr>pending_cancel_sequences := insert ?sq (pending_cancel_sequences q)\<rparr> else q"
  let ?r = "?p\<lparr>pending_functors := pending_functors q @ [CancelFunctor ?sq]\<rparr>"
  have "names_ok ?p" "names_ok ?r" using s(2) by (simp_all add: names_ok_def) (auto simp: names_inv_def)
  then have "timer_ok ?p" "timer_ok ?r"
    using s frame_batch [OF s(3,5), of ?p] frame_armed [OF s(4), of ?p] frame_batch [OF s(3,5), of ?r] frame_armed [OF s(4), of ?r]
    by (auto simp: timer_ok_def schedule_ok_def)
  with ok c CancelInLoop_ok [of ?p now ?sq] show ?thesis
    by (cases "?sq \<in> pending_add_sequences q") (simp_all add: Cancel_def RunInLoop_def Let_def)
qed

lemma DoPendingFunctor_ok:
  assumes ok: "timer_ok q" and c: "clock q = now"
  shows "timer_ok (DoPendingFunctor now q)"
proof (cases "batch q = None \<and> pending_functors q \<noteq> []")
  case False
  with ok show ?thesis by (auto simp: DoPendingFunctor_def split: option.split list.split)
next
  case True
  then obtain f fs where f: "pending_functors q = f # fs" "batch q = None" by (cases "pending_functors q") auto
  let ?p = "q\<lparr>pending_functors := fs\<rparr>"
  have s: "schedule_ok q" "names_ok q" "batch_ok q" "armed_ok q" "fired_ok q" using ok by (simp_all add: timer_ok_def)
  have p: "schedule_ok ?p" "batch_ok ?p" "armed_ok ?p" "fired_ok ?p"
    using s(1) frame_batch [OF s(3,5), of ?p] frame_armed [OF s(4), of ?p] by (simp_all add: schedule_ok_def)
  show ?thesis
  proof (cases f)
    case (AddFunctor e iv sq)
    have "q\<lparr>pending_functors := AddFunctor e iv sq # fs\<rparr> = q" using f AddFunctor by simp
    with AddTimerInLoop_ok [OF p, of e iv sq now] s(2) c f AddFunctor show ?thesis by (simp add: DoPendingFunctor_def)
  next
    case (CancelFunctor sq)
    have "names_ok ?p" using s(2) f CancelFunctor by (simp add: names_ok_def)
    with CancelInLoop_ok [of ?p now sq] p c f CancelFunctor show ?thesis by (simp add: DoPendingFunctor_def timer_ok_def)
  qed
qed

section \<open>Reading the timer descriptor\<close>

lemma due_iff: "(e :: Entry) \<le> (now, - 1) \<longleftrightarrow> fst e \<le> now"
  by (cases e) (auto simp: less_eq_prod_def)

lemma sorted_split:
  assumes "sorted xs"
  shows "set (takeWhile (\<lambda>x. x \<le> (b::'a::linorder)) xs) = {x \<in> set xs. x \<le> b}"
    and "set (dropWhile (\<lambda>x. x \<le> b) xs) = {x \<in> set xs. \<not> x \<le> b}"
proof -
  have "set (takeWhile (\<lambda>x. x \<le> b) xs) = {x \<in> set xs. x \<le> b} \<and> set (dropWhile (\<lambda>x. x \<le> b) xs) = {x \<in> set xs. \<not> x \<le> b}"
    using assms by (induction xs) auto
  then show "set (takeWhile (\<lambda>x. x \<le> b) xs) = {x \<in> set xs. x \<le> b}"
    "set (dropWhile (\<lambda>x. x \<le> b) xs) = {x \<in> set xs. \<not> x \<le> b}" by auto
qed

text \<open>What \<open>HandleRead\<close> takes out.\<close>

definition due :: "int \<Rightarrow> TimerQueue \<Rightarrow> Timer list" where
  "due now q = List.map_filter (\<lambda>e. timers q (snd e)) (takeWhile (\<lambda>e. e \<le> (now, - 1)) (schedule q))"

lemma table_entry:
  assumes "schedule_ok q" "e \<in> set (schedule q)"
  shows "\<exists>t. timers q (snd e) = Some t \<and> entry_of t = e"
proof -
  obtain t where "t \<in> ran (timers q)" "entry_of t = e" using assms by (auto simp: schedule_ok_def)
  with assms(1) show ?thesis by (auto simp: ran_def schedule_ok_def entry_of_def)
qed

lemma due_entries:
  assumes "schedule_ok q"
  shows "map entry_of (due now q) = takeWhile (\<lambda>e. e \<le> (now, - 1)) (schedule q)"
    and "map sequence (due now q) = map snd (takeWhile (\<lambda>e. e \<le> (now, - 1)) (schedule q))"
    and "set (due now q) = {t. \<exists>sq. timers q sq = Some t \<and> expiration t \<le> now}"
proof -
  have *: "map entry_of (List.map_filter (\<lambda>e. timers q (snd e)) es) = es" if "set es \<subseteq> set (schedule q)" for es
    using that
  proof (induction es)
    case (Cons e es)
    then obtain t where "timers q (snd e) = Some t" "entry_of t = e" using table_entry [OF assms, of e] by auto
    with Cons show ?case by (simp add: List.map_filter_simps)
  qed (simp add: List.map_filter_simps)
  show 1: "map entry_of (due now q) = takeWhile (\<lambda>e. e \<le> (now, - 1)) (schedule q)"
    unfolding due_def by (rule *) (auto dest: set_takeWhileD)
  then have "map snd (map entry_of (due now q)) = map snd (takeWhile (\<lambda>e. e \<le> (now, - 1)) (schedule q))" by simp
  then show "map sequence (due now q) = map snd (takeWhile (\<lambda>e. e \<le> (now, - 1)) (schedule q))"
    by (simp add: entry_of_def comp_def)
  have sorted: "sorted (schedule q)" using assms by (simp add: schedule_ok_def)
  have "t \<in> set (due now q) \<longleftrightarrow> (\<exists>sq. timers q sq = Some t \<and> expiration t \<le> now)" for t
  proof
    assume "t \<in> set (due now q)"
    then obtain e where "e \<in> set (schedule q)" "e \<le> (now, - 1)" "timers q (snd e) = Some t"
      by (auto simp: due_def List.map_filter_def dest: set_takeWhileD)
    with table_entry [OF assms, of e] show "\<exists>sq. timers q sq = Some t \<and> expiration t \<le> now"
      by (auto simp: due_iff entry_of_def)
  next
    assume "\<exists>sq. timers q sq = Some t \<and> expiration t \<le> now"
    then obtain sq where t: "timers q sq = Some t" "expiration t \<le> now" by blast
    then have sq: "sequence t = sq" using assms by (simp add: schedule_ok_def)
    have "entry_of t \<in> set (schedule q)" using assms t by (auto simp: schedule_ok_def ran_def)
    then have "entry_of t \<in> set (takeWhile (\<lambda>e. e \<le> (now, - 1)) (schedule q))"
      using sorted_split(1) [OF sorted, of "(now, - 1)"] t(2) by (simp add: due_iff entry_of_def)
    with t(1) sq show "t \<in> set (due now q)" by (force simp: due_def List.map_filter_def entry_of_def)
  qed
  then show "set (due now q) = {t. \<exists>sq. timers q sq = Some t \<and> expiration t \<le> now}" by auto
qed

lemma names_inv_run:
  "\<lbrakk>names_inv table adds fs [] cancels n; set running \<subseteq> table; distinct running\<rbrakk> \<Longrightarrow>
    names_inv (table - set running) adds fs running cancels n"
  by (auto simp: names_inv_def)

lemma HandleRead_begin_ok:
  assumes ok: "timer_ok q" and c: "clock q = now"
  shows "timer_ok (HandleRead_begin read_ok now q)" (is "timer_ok ?q")
proof (cases "batch q \<noteq> None \<or> \<not> read_ok")
  case True
  with ok show ?thesis by (auto simp: HandleRead_begin_def)
next
  case False
  have s: "schedule_ok q" "names_ok q" "batch_ok q" "armed_ok q" "fired_ok q" using ok by (simp_all add: timer_ok_def)
  let ?ub = "(now, - 1 :: u64)"
  let ?ex = "takeWhile (\<lambda>e. e \<le> ?ub) (schedule q)"
  have q': "?q = q\<lparr>schedule := dropWhile (\<lambda>e. e \<le> ?ub) (schedule q), timers := timers q |` (- snd ` set ?ex),
      calling_expired_timers := True, canceling_sequences := {}, readable_at := None,
      batch := Some (due now q, 0), batch_number := batch_number q + 1\<rparr>"
    using False by (simp add: HandleRead_begin_def due_def Let_def)
  note d = due_entries [OF s(1), of now]
  have sorted: "sorted (schedule q)" "distinct (schedule q)" using s(1) by (simp_all add: schedule_ok_def)
  have seq: "sequence t = sq" if "timers q sq = Some t" for sq t using s(1) that by (simp add: schedule_ok_def)
  have gone: "sq \<in> snd ` set ?ex \<longleftrightarrow> expiration t \<le> now" if t: "timers q sq = Some t" for sq t
  proof -
    have "sq \<in> snd ` set ?ex \<longleftrightarrow> sq \<in> sequence ` set (due now q)" using d(2) by (metis set_map)
    also have "\<dots> \<longleftrightarrow> expiration t \<le> now" using d(3) t seq by auto
    finally show ?thesis .
  qed
  have ran: "ran (timers ?q) = {t \<in> ran (timers q). \<not> expiration t \<le> now}"
    using gone by (auto simp: q' ran_def restrict_map_def split: if_splits)
  have "set (schedule ?q) = entry_of ` ran (timers ?q)"
    unfolding ran using s(1) sorted_split(2) [OF sorted(1), of ?ub]
    by (auto simp: q' schedule_ok_def due_iff entry_of_def)
  then have "schedule_ok ?q"
    using sorted seq by (auto simp: schedule_ok_def q' restrict_map_def intro: sorted_dropWhile)
  moreover have "names_ok ?q"
  proof -
    have "distinct (map entry_of (due now q))" unfolding d(1) using sorted(2) by simp
    then have "distinct (due now q)" by (simp add: distinct_map)
    moreover have "inj_on sequence (set (due now q))" using d(3) seq by (auto intro!: inj_onI)
    ultimately have dist: "distinct (map sequence (due now q))" by (simp add: distinct_map)
    have "set (map sequence (due now q)) = snd ` set ?ex" unfolding d(2) by simp
    moreover have "set (map sequence (due now q)) \<subseteq> dom (timers q)" using d(3) seq by auto
    ultimately have run: "set (map sequence (due now q)) = snd ` set ?ex" "set (map sequence (due now q)) \<subseteq> dom (timers q)"
      by blast+
    have dom: "dom (timers ?q) = dom (timers q) - snd ` set ?ex" by (auto simp: q')
    have "batch_timers q = []" using False by (auto simp: batch_timers_def split: option.split)
    then have "names_inv (dom (timers q)) (pending_add_sequences q) (add_sequences (pending_functors q)) []
        (pending_cancel_sequences q) (next_sequence q)"
      using s(2) by (simp add: names_ok_def)
    then have "names_inv (dom (timers q) - snd ` set ?ex) (pending_add_sequences q) (add_sequences (pending_functors q))
        (map sequence (due now q)) (pending_cancel_sequences q) (next_sequence q)"
      using names_inv_run [OF _ run(2) dist] unfolding run(1) by blast
    then show ?thesis unfolding names_ok_def dom by (simp add: q')
  qed
  moreover have "batch_ok ?q"
    using d(1,3) sorted(1) c by (auto simp: batch_ok_def q' intro: sorted_takeWhile)
  moreover have "armed_ok ?q" by (simp add: armed_ok_def q')
  moreover have "fired_ok ?q" using s(5) unfolding fired_ok_def by (fastforce simp: q')
  ultimately show ?thesis by (simp add: timer_ok_def)
qed


lemma HandleRead_run_ok:
  assumes ok: "timer_ok q" and c: "clock q = now"
  shows "timer_ok (HandleRead_run now q)" (is "timer_ok ?q")
proof (cases "\<exists>ts n. batch q = Some (ts, n) \<and> n < length ts")
  case False
  with ok show ?thesis by (auto simp: HandleRead_run_def split: option.split)
next
  case True
  then obtain ts n where b: "batch q = Some (ts, n)" "n < length ts" by blast
  have s: "schedule_ok q" "names_ok q" "batch_ok q" "armed_ok q" "fired_ok q" using ok by (simp_all add: timer_ok_def)
  let ?p = "q\<lparr>batch := Some (ts, n + 1)\<rparr>"
  let ?r = "?p\<lparr>fired := fired q @ [(batch_number q, now, ts ! n)]\<rparr>"
  have bt: "batch_timers q = ts" using b by (simp add: batch_timers_def)
  have drop: "drop n ts = ts ! n # drop (n + 1) ts" using b(2) by (simp add: Cons_nth_drop_Suc)
  have sorted: "sorted (map entry_of ts)" "expiration (ts ! n) \<le> now" using s(3) b c bt by (auto simp: batch_ok_def)
  have dist: "distinct (map entry_of ts)"
  proof -
    have "distinct (map sequence ts)" using s(2) bt by (simp add: names_ok_def names_inv_def)
    moreover have "map sequence ts = map snd (map entry_of ts)" by (simp add: entry_of_def comp_def)
    ultimately show ?thesis using distinct_map by metis
  qed
  have later: "entry_of (ts ! n) < entry_of u" if "u \<in> set (drop (n + 1) ts)" for u
  proof -
    have "sorted (map entry_of (drop n ts))" "distinct (map entry_of (drop n ts))"
      using sorted(1) dist by (simp_all add: drop_map sorted_wrt_drop flip: drop_map)
    with that show ?thesis unfolding drop by (auto simp: less_le)
  qed
  have other: "schedule_ok ?p" "names_ok ?p" "batch_ok ?p" "schedule_ok ?r" "names_ok ?r" "batch_ok ?r"
    using s(1-3) b bt by (simp_all add: schedule_ok_def names_ok_def batch_ok_def)
  have fired: "fired_ok q" and cur: "\<And>f. f \<in> set (fired q) \<Longrightarrow> fst f = batch_number q \<Longrightarrow> entry_of (snd (snd f)) < entry_of (ts ! n)"
    using s(5) b drop by (auto simp: fired_ok_def)
  have "fired_ok ?p" using fired b drop by (auto simp: fired_ok_def)
  moreover have "fired_ok ?r"
  proof -
    have "before f (batch_number q, now, ts ! n)" if "f \<in> set (fired q)" for f
      using that fired cur [OF that] by (cases f) (auto simp: before_def fired_ok_def less_prod_def)
    with fired b drop later sorted(2) show ?thesis by (auto simp: fired_ok_def sorted_wrt_append)
  qed
  ultimately have "timer_ok ?p" "timer_ok ?r" using other b by (auto simp: timer_ok_def armed_ok_def)
  with b show ?thesis by (simp add: HandleRead_run_def Let_def)
qed

lemma restart_fields [simp]:
  "next_sequence (restart_one rt t q) = next_sequence q" "calling_expired_timers (restart_one rt t q) = calling_expired_timers q"
  "canceling_sequences (restart_one rt t q) = canceling_sequences q" "pending_add_sequences (restart_one rt t q) = pending_add_sequences q"
  "pending_cancel_sequences (restart_one rt t q) = pending_cancel_sequences q" "pending_functors (restart_one rt t q) = pending_functors q"
  "batch (restart_one rt t q) = batch q" "clock (restart_one rt t q) = clock q" "batch_number (restart_one rt t q) = batch_number q"
  "fired (restart_one rt t q) = fired q" "readable_at (restart_one rt t q) = readable_at q"
  by (simp_all add: restart_one_def Let_def)

lemma fold_restart_fields [simp]:
  "next_sequence (fold (restart_one rt) ts q) = next_sequence q"
  "calling_expired_timers (fold (restart_one rt) ts q) = calling_expired_timers q"
  "canceling_sequences (fold (restart_one rt) ts q) = canceling_sequences q"
  "pending_add_sequences (fold (restart_one rt) ts q) = pending_add_sequences q"
  "pending_cancel_sequences (fold (restart_one rt) ts q) = pending_cancel_sequences q"
  "pending_functors (fold (restart_one rt) ts q) = pending_functors q"
  "batch (fold (restart_one rt) ts q) = batch q" "clock (fold (restart_one rt) ts q) = clock q"
  "batch_number (fold (restart_one rt) ts q) = batch_number q"
  "fired (fold (restart_one rt) ts q) = fired q" "readable_at (fold (restart_one rt) ts q) = readable_at q"
  by (induction ts arbitrary: q) simp_all

lemma Restart_sequence [simp]: "sequence (Restart rt t) = sequence t"
  by (simp add: Restart_def)

lemma restart_one_eq:
  assumes ok: "schedule_ok q" and new: "timers q (sequence t) = None"
  shows "restart_one rt t q = (if \<not> IsRepeat t \<or> sequence t \<in> canceling_sequences q then q
    else q\<lparr>timers := (timers q)(sequence t \<mapsto> Restart rt t), schedule := insort (entry_of (Restart rt t)) (schedule q)\<rparr>)"
    and "schedule_ok (restart_one rt t q)"
proof -
  let ?q = "q\<lparr>timers := (timers q)(sequence t \<mapsto> Restart rt t), schedule := insort (entry_of (Restart rt t)) (schedule q)\<rparr>"
  have ins: "schedule_ok ?q" "entry_of (Restart rt t) \<notin> set (schedule q)"
    using schedule_insert [OF ok, of "Restart rt t" ?q] new by simp_all
  show eq: "restart_one rt t q = (if \<not> IsRepeat t \<or> sequence t \<in> canceling_sequences q then q else ?q)"
    using new ins(2) by (simp add: restart_one_def Let_def entry_of_def)
  show "schedule_ok (restart_one rt t q)" unfolding eq using ok ins(1) by simp
qed

lemma fold_restart:
  assumes "schedule_ok q" and "names_inv (dom (timers q)) adds functors (map sequence ts) cancels n"
  shows "schedule_ok (fold (restart_one rt) ts q) \<and> names_inv (dom (timers (fold (restart_one rt) ts q))) adds functors [] cancels n"
  using assms
proof (induction ts arbitrary: q)
  case (Cons t ts)
  have new: "timers q (sequence t) = None" using Cons.prems(2) by (auto simp: names_inv_def)
  note r = restart_one_eq [OF Cons.prems(1) new, of rt]
  have "names_inv (dom (timers (restart_one rt t q))) adds functors (map sequence ts) cancels n"
    using Cons.prems(2) unfolding r(1) by (auto simp: names_inv_def)
  with Cons.IH [OF r(2)] show ?case by simp
qed simp

lemma HandleRead_end_ok:
  assumes ok: "timer_ok q" and c: "clock q = now"
  shows "timer_ok (HandleRead_end restart_time now q)" (is "timer_ok ?q")
proof (cases "\<exists>ts n. batch q = Some (ts, n) \<and> \<not> n < length ts")
  case False
  with ok show ?thesis by (auto simp: HandleRead_end_def split: option.split)
next
  case True
  then obtain ts n where b: "batch q = Some (ts, n)" "\<not> n < length ts" by blast
  have s: "schedule_ok q" "names_ok q" "batch_ok q" "armed_ok q" "fired_ok q" using ok by (simp_all add: timer_ok_def)
  let ?p = "q\<lparr>calling_expired_timers := False\<rparr>"
  let ?f = "fold (restart_one restart_time) ts ?p"
  have q': "?q = ResetTimerfdToNext now (?f\<lparr>canceling_sequences := {}, batch := None\<rparr>)"
    using b by (simp add: HandleRead_end_def Let_def)
  have "batch_timers q = ts" using b by (simp add: batch_timers_def)
  then have "names_inv (dom (timers ?p)) (pending_add_sequences q) (add_sequences (pending_functors q)) (map sequence ts)
      (pending_cancel_sequences q) (next_sequence q)"
    using s(2) by (simp add: names_ok_def)
  moreover have "schedule_ok ?p" using s(1) by (simp add: schedule_ok_def)
  ultimately have f: "schedule_ok ?f" "names_inv (dom (timers ?f)) (pending_add_sequences q) (add_sequences (pending_functors q)) []
      (pending_cancel_sequences q) (next_sequence q)"
    using fold_restart [of ?p] by blast+
  have "schedule_ok ?q" using f(1) by (simp add: q' schedule_ok_def)
  moreover have "names_ok ?q" using f(2) by (simp add: q' names_ok_def)
  moreover have "batch_ok ?q" by (simp add: q' batch_ok_def)
  moreover have "clock ?q = now" "batch ?q = None" using c by (simp_all add: q')
  then have "armed_ok ?q" unfolding q' by (cases "schedule ?f") (simp_all add: armed_ok_def)
  moreover have "fired ?q = fired q" "batch_number ?q = batch_number q" by (simp_all add: q')
  with \<open>batch ?q = None\<close> s(5) have "fired_ok ?q" by (auto simp: fired_ok_def)
  ultimately show ?thesis by (simp add: timer_ok_def)
qed

interpretation tq: guarded_object timer_step timer_call_ok timer_ok
proof unfold_locales
  fix q :: TimerQueue and op
  assume ok: "timer_ok q" "timer_call_ok q op"
  obtain now ev where op: "op = (now, ev)" by (cases op)
  let ?p = "q\<lparr>clock := now\<rparr>"
  have p: "timer_ok ?p" "clock ?p = now" "next_sequence ?p \<noteq> - 1"
    using timer_ok_clock [of q now] ok op by (simp_all add: timer_call_ok_def)
  show "timer_ok (timer_step q op)"
    using AddTimer_ok [OF p] Cancel_ok [OF p(1,2)] DoPendingFunctor_ok [OF p(1,2)] HandleRead_begin_ok [OF p(1,2)]
      HandleRead_run_ok [OF p(1,2)] HandleRead_end_ok [OF p(1,2)]
    by (cases ev) (simp_all add: timer_step_def op)
qed

section \<open>A cancelled timer\<close>

definition dead :: "u64 \<Rightarrow> TimerQueue \<Rightarrow> bool" where
  "dead sq q \<longleftrightarrow> timers q sq = None \<and> (sq \<in> set (add_sequences (pending_functors q)) \<longrightarrow> sq \<in> pending_cancel_sequences q)
     \<and> (sq \<in> sequence ` set (batch_timers q) \<longrightarrow> sq \<in> canceling_sequences q) \<and> sq < next_sequence q"

definition runs_of :: "u64 \<Rightarrow> TimerQueue \<Rightarrow> (nat \<times> int \<times> Timer) list" where
  "runs_of sq q = filter (\<lambda>(b, now, t). sequence t = sq) (fired q)"

lemma AddTimerInLoop_dead:
  assumes "dead sq q" "sq' = sq \<Longrightarrow> sq \<in> pending_cancel_sequences q \<and> sq \<notin> set (add_sequences (pending_functors q))"
  shows "dead sq (AddTimerInLoop now e iv sq' q)" "runs_of sq (AddTimerInLoop now e iv sq' q) = runs_of sq q"
  using assms by (auto simp: dead_def runs_of_def AddTimerInLoop_def Let_def)

lemma CancelInLoop_dead:
  assumes "dead sq q"
  shows "dead sq (CancelInLoop now sq' q)" "runs_of sq (CancelInLoop now sq' q) = runs_of sq q"
  using assms by (auto simp: dead_def runs_of_def CancelInLoop_def Let_def split: option.split)

lemma AddTimer_dead:
  assumes d: "dead sq q" and n: "next_sequence q \<noteq> - 1"
  shows "dead sq (snd (AddTimer in_loop now cb e iv q))" "runs_of sq (snd (AddTimer in_loop now cb e iv q)) = runs_of sq q"
proof -
  let ?p = "q\<lparr>next_sequence := next_sequence q + 1, pending_add_sequences := insert (next_sequence q) (pending_add_sequences q)\<rparr>"
  have ne: "next_sequence q \<noteq> sq" using d by (auto simp: dead_def)
  have "sq < next_sequence q + 1" using d next_less [OF n] by (auto simp: dead_def)
  with d have "dead sq ?p" by (simp add: dead_def)
  moreover have "dead sq (?p\<lparr>pending_functors := pending_functors q @ [AddFunctor e iv (next_sequence q)]\<rparr>)"
    using \<open>dead sq ?p\<close> ne by (auto simp: dead_def)
  moreover have "runs_of sq ?p = runs_of sq q" by (simp add: runs_of_def)
  ultimately show "dead sq (snd (AddTimer in_loop now cb e iv q))" "runs_of sq (snd (AddTimer in_loop now cb e iv q)) = runs_of sq q"
    using d AddTimerInLoop_dead [of sq ?p "next_sequence q"] ne
    by (auto simp: AddTimer_def RunInLoop_def Let_def runs_of_def)
qed

lemma Cancel_dead:
  assumes d: "dead sq q"
  shows "dead sq (snd (Cancel in_loop now i q))" "runs_of sq (snd (Cancel in_loop now i q)) = runs_of sq q"
proof -
  let ?p = "q\<lparr>pending_cancel_sequences := insert (snd i) (pending_cancel_sequences q)\<rparr>"
  have "dead sq ?p" "dead sq (?p\<lparr>pending_functors := pending_functors q @ [CancelFunctor (snd i)]\<rparr>)"
    "dead sq (q\<lparr>pending_functors := pending_functors q @ [CancelFunctor (snd i)]\<rparr>)" "runs_of sq ?p = runs_of sq q"
    using d by (auto simp: dead_def runs_of_def)
  with d CancelInLoop_dead [of sq ?p] CancelInLoop_dead [of sq q]
  show "dead sq (snd (Cancel in_loop now i q))" "runs_of sq (snd (Cancel in_loop now i q)) = runs_of sq q"
    by (auto simp: Cancel_def RunInLoop_def Let_def runs_of_def)
qed

lemma DoPendingFunctor_dead:
  assumes ok: "timer_ok q" and d: "dead sq q"
  shows "dead sq (DoPendingFunctor now q)" "runs_of sq (DoPendingFunctor now q) = runs_of sq q"
proof -
  have "dead sq (DoPendingFunctor now q) \<and> runs_of sq (DoPendingFunctor now q) = runs_of sq q"
  proof (cases "batch q = None \<and> pending_functors q \<noteq> []")
    case False
    with d show ?thesis by (auto simp: DoPendingFunctor_def split: option.split list.split)
  next
    case True
    then obtain f fs where f: "pending_functors q = f # fs" "batch q = None" by (cases "pending_functors q") auto
    let ?p = "q\<lparr>pending_functors := fs\<rparr>"
    have p: "dead sq ?p" "runs_of sq ?p = runs_of sq q" using d f by (auto simp: dead_def runs_of_def)
    have "distinct (add_sequences (f # fs))" using ok f by (auto simp: timer_ok_def names_ok_def names_inv_def)
    then have "sq \<in> pending_cancel_sequences ?p \<and> sq \<notin> set (add_sequences (pending_functors ?p))" if "f = AddFunctor e iv sq" for e iv
      using that d f by (simp add: dead_def)
    with p f CancelInLoop_dead [OF p(1)] AddTimerInLoop_dead [OF p(1)] show ?thesis
      by (cases f) (simp_all add: DoPendingFunctor_def)
  qed
  then show "dead sq (DoPendingFunctor now q)" "runs_of sq (DoPendingFunctor now q) = runs_of sq q" by simp_all
qed

lemma HandleRead_begin_dead:
  assumes ok: "timer_ok q" and d: "dead sq q"
  shows "dead sq (HandleRead_begin r now q)" "runs_of sq (HandleRead_begin r now q) = runs_of sq q"
proof -
  have "timers q sq = None" using d by (simp add: dead_def)
  moreover have "set (due now q) = {t. \<exists>k. timers q k = Some t \<and> expiration t \<le> now}" "\<And>k t. timers q k = Some t \<Longrightarrow> sequence t = k"
    using ok due_entries(3) [of q now] by (auto simp: timer_ok_def schedule_ok_def)
  ultimately have "sq \<notin> sequence ` set (due now q)" by auto
  with d show "dead sq (HandleRead_begin r now q)" "runs_of sq (HandleRead_begin r now q) = runs_of sq q"
    by (auto simp: HandleRead_begin_def dead_def runs_of_def due_def [symmetric] restrict_map_def Let_def)
qed

lemma HandleRead_run_dead:
  assumes d: "dead sq q"
  shows "dead sq (HandleRead_run now q)" "runs_of sq (HandleRead_run now q) = runs_of sq q"
proof -
  have "sequence (ts ! n) = sq \<Longrightarrow> sq \<in> canceling_sequences q" if "batch q = Some (ts, n)" "n < length ts" for ts n
    using d that nth_mem [of n ts] by (auto simp: dead_def batch_timers_def)
  with d show "dead sq (HandleRead_run now q)" "runs_of sq (HandleRead_run now q) = runs_of sq q"
    by (auto simp: HandleRead_run_def dead_def runs_of_def batch_timers_def Let_def split: option.splits)
qed

lemma fold_restart_dead:
  assumes "sq \<in> sequence ` set ts \<Longrightarrow> sq \<in> canceling_sequences q" "timers q sq = None"
  shows "timers (fold (restart_one rt) ts q) sq = None"
  using assms
proof (induction ts arbitrary: q)
  case (Cons t ts)
  then have "timers (restart_one rt t q) sq = None" by (auto simp: restart_one_def Let_def)
  with Cons show ?case by simp
qed simp

lemma HandleRead_end_dead:
  assumes d: "dead sq q"
  shows "dead sq (HandleRead_end rt now q)" "runs_of sq (HandleRead_end rt now q) = runs_of sq q"
proof -
  have "timers (fold (restart_one rt) ts (q\<lparr>calling_expired_timers := False\<rparr>)) sq = None" if "batch q = Some (ts, n)" for ts n
    by (rule fold_restart_dead) (use d that in \<open>auto simp: dead_def batch_timers_def\<close>)
  with d show "dead sq (HandleRead_end rt now q)" "runs_of sq (HandleRead_end rt now q) = runs_of sq q"
    by (auto simp: HandleRead_end_def dead_def runs_of_def Let_def split: option.split)
qed

lemma dead_step:
  assumes ok: "timer_ok q" "timer_call_ok q op" and d: "dead sq q"
  shows "dead sq (timer_step q op) \<and> runs_of sq (timer_step q op) = runs_of sq q"
proof -
  obtain now ev where op: "op = (now, ev)" by (cases op)
  let ?p = "q\<lparr>clock := now\<rparr>"
  have p: "timer_ok ?p" "next_sequence ?p \<noteq> - 1" using timer_ok_clock [of q now] ok op by (simp_all add: timer_call_ok_def)
  have d': "dead sq ?p" "runs_of sq ?p = runs_of sq q" using d by (simp_all add: dead_def runs_of_def)
  show ?thesis
    using d'(2) AddTimer_dead [OF d'(1) p(2)] Cancel_dead [OF d'(1)] DoPendingFunctor_dead [OF p(1) d'(1)]
      HandleRead_begin_dead [OF p(1) d'(1)] HandleRead_run_dead [OF d'(1)] HandleRead_end_dead [OF d'(1)]
    by (cases ev) (simp_all add: timer_step_def op)
qed

lemma cancel_kills:
  assumes ok: "timer_ok q" and sq: "0 < sq" "sq < next_sequence q"
  shows "dead sq (snd (Cancel True now (True, sq) q))" "runs_of sq (snd (Cancel True now (True, sq) q)) = runs_of sq q"
proof -
  have names: "names_ok q" and b: "calling_expired_timers q \<longleftrightarrow> batch q \<noteq> None" using ok by (simp_all add: timer_ok_def batch_ok_def)
  let ?p = "if sq \<in> pending_add_sequences q then q\<lparr>pending_cancel_sequences := insert sq (pending_cancel_sequences q)\<rparr> else q"
  have run: "snd (Cancel True now (True, sq) q) = CancelInLoop now sq ?p" using sq by (simp add: Cancel_def RunInLoop_def Let_def)
  have adds: "pending_add_sequences q = set (add_sequences (pending_functors q))"
    and disj: "timers q sq \<noteq> None \<Longrightarrow> sq \<notin> set (add_sequences (pending_functors q)) \<and> sq \<notin> sequence ` set (batch_timers q)"
    using names by (auto simp: names_ok_def names_inv_def)
  have "sq \<in> sequence ` set (batch_timers q) \<Longrightarrow> calling_expired_timers q"
    using b by (cases "batch q") (auto simp: batch_timers_def)
  with sq adds disj show "dead sq (snd (Cancel True now (True, sq) q))" unfolding run
    by (cases "timers q sq") (auto simp: dead_def CancelInLoop_def Let_def)
  show "runs_of sq (snd (Cancel True now (True, sq) q)) = runs_of sq q" unfolding run
    by (auto simp: CancelInLoop_def runs_of_def Let_def split: option.split)
qed

section \<open>Properties\<close>

text \<open>Timers never run early, and those taken out by one wake-up run in the order of their expiration, equal ones in
  the order of creation; in particular none runs twice for one wake-up.\<close>

theorem timers_run_in_order:
  assumes "ok_run timer_call_ok timer_step TimerQueue_new evs"
  shows "sorted_wrt before (fired (run_ops timer_step TimerQueue_new evs))
    \<and> (\<forall>(b, now, t)\<in>set (fired (run_ops timer_step TimerQueue_new evs)). expiration t \<le> now)"
  using tq.run_invar [OF timer_ok_new assms] unfolding timer_ok_def fired_ok_def by auto

text \<open>C32: no timer is forgotten: whenever the loop is not handling timers, the descriptor is armed for the first scheduled
  timer, at its expiration, or one nanosecond after the last event if that has passed already; it is disarmed only if
  no timer is left.\<close>

theorem wakeup_armed:
  assumes "ok_run timer_call_ok timer_step TimerQueue_new evs" and "q = run_ops timer_step TimerQueue_new evs" and "batch q = None"
  shows "case readable_at q of None \<Rightarrow> timers q = Map.empty
    | Some a \<Rightarrow> \<exists>sq t. timers q sq = Some t \<and> expiration t \<le> a \<and> a \<le> max (expiration t) (clock q + 1)
        \<and> (\<forall>sq' t'. timers q sq' = Some t' \<longrightarrow> expiration t \<le> expiration t')"
proof -
  have ok: "schedule_ok q" "armed_ok q" using tq.run_invar [OF timer_ok_new assms(1)] assms(2) by (simp_all add: timer_ok_def)
  have mem: "entry_of t \<in> set (schedule q)" if "timers q sq = Some t" for sq t using ok(1) that by (auto simp: schedule_ok_def ran_def)
  show ?thesis
  proof (cases "schedule q")
    case Nil
    then have "timers q sq = None" for sq using mem [of sq] by (cases "timers q sq") auto
    with Nil ok(2) assms(3) show ?thesis by (auto simp: armed_ok_def)
  next
    case (Cons e es)
    obtain t where t: "timers q (snd e) = Some t" "entry_of t = e" using schedule_Cons [OF ok(1) Cons] by blast
    have "expiration t \<le> expiration t'" if "timers q sq' = Some t'" for sq' t'
      using mem [OF that] ok(1) Cons t(2) by (auto simp: schedule_ok_def entry_of_def less_eq_prod_def)
    moreover obtain a where "readable_at q = Some a" "fst e \<le> a" "a \<le> max (fst e) (clock q + 1)"
      using ok(2) Cons assms(3) by (auto simp: armed_ok_def)
    ultimately show ?thesis using t by (auto simp: entry_of_def intro!: exI [of _ "snd e"] exI [of _ t])
  qed
qed


text \<open>A wake-up runs what is due: handling the descriptor at the time \<open>now\<close>, without a cancellation in between, runs
  every timer whose expiration is not after \<open>now\<close>, each once, and no other.\<close>

theorem wakeup_runs_due_timers:
  assumes "ok_run timer_call_ok timer_step TimerQueue_new evs" and "q = run_ops timer_step TimerQueue_new evs" and "batch q = None"
  shows "fired (run_ops timer_step q ((now, EvReadBegin True) # replicate (length (due now q)) (now', EvReadRun)))
      = fired q @ map (\<lambda>t. (batch_number q + 1, now', t)) (due now q)
    \<and> set (due now q) = {t. \<exists>sq. timers q sq = Some t \<and> expiration t \<le> now} \<and> distinct (due now q)"
proof -
  have ok: "schedule_ok q" using tq.run_invar [OF timer_ok_new assms(1)] assms(2) by (simp add: timer_ok_def)
  let ?q = "timer_step q (now, EvReadBegin True)"
  have b: "batch ?q = Some (due now q, 0)" "canceling_sequences ?q = {}" "fired ?q = fired q" "batch_number ?q = batch_number q + 1"
    using assms(3) by (simp_all add: timer_step_def HandleRead_begin_def due_def Let_def)
  have runs: "fired (run_ops timer_step p (replicate k (now', EvReadRun)))
      = fired p @ map (\<lambda>t. (batch_number p, now', t)) (take k (drop n ts))"
    if "batch p = Some (ts, n)" "canceling_sequences p = {}" "n + k \<le> length ts" for p ts n k
    using that
  proof (induction k arbitrary: p n)
    case (Suc k)
    let ?p = "timer_step p (now', EvReadRun)"
    have "batch ?p = Some (ts, n + 1)" "canceling_sequences ?p = {}" "batch_number ?p = batch_number p"
      "fired ?p = fired p @ [(batch_number p, now', ts ! n)]"
      using Suc.prems by (simp_all add: timer_step_def HandleRead_run_def Let_def)
    moreover have "drop n ts = ts ! n # drop (n + 1) ts" using Suc.prems(3) by (simp add: Cons_nth_drop_Suc)
    ultimately show ?case using Suc.IH [of ?p "n + 1"] Suc.prems(3) by simp
  qed simp
  have "distinct (map entry_of (due now q))"
    unfolding due_entries(1) [OF ok] using ok by (simp add: schedule_ok_def)
  then have "distinct (due now q)" by (simp add: distinct_map)
  with runs [OF b(1,2), of "length (due now q)"] b(3,4) due_entries(3) [OF ok] show ?thesis by simp
qed

text \<open>C31: a cancellation made on the loop thread is final: whatever state the timer was in (still being added by another
  thread, scheduled, repeating, or taken out by the wake-up that is being handled), it does not run again.\<close>

theorem cancel_is_final:
  assumes "ok_run timer_call_ok timer_step TimerQueue_new evs" and "q = run_ops timer_step TimerQueue_new evs"
    and "0 < sq" "sq < next_sequence q" and "q' = timer_step q (now, EvCancel True (True, sq))" and "clock q \<le> now"
    and "ok_run timer_call_ok timer_step q' evs'"
  shows "filter (\<lambda>(b, now, t). sequence t = sq) (fired (run_ops timer_step q' evs')) = filter (\<lambda>(b, now, t). sequence t = sq) (fired q)"
proof -
  have ok: "timer_ok q" using tq.run_invar [OF timer_ok_new assms(1)] assms(2) by simp
  have okc: "timer_ok (q\<lparr>clock := now\<rparr>)" by (rule timer_ok_clock [OF ok assms(6)])
  have kill: "dead sq q'" "runs_of sq q' = runs_of sq q" and ok': "timer_ok q'"
    using cancel_kills [OF okc assms(3), of now] Cancel_ok [OF okc, of now] assms(4,5) by (simp_all add: timer_step_def runs_of_def)
  have "dead sq (run_ops timer_step q' evs') \<and> runs_of sq (run_ops timer_step q' evs') = runs_of sq q"
  proof (rule tq.run_keeps [where Q = "\<lambda>_. True" and P = "\<lambda>p. dead sq p \<and> runs_of sq p = runs_of sq q"])
    show "dead sq (timer_step p op) \<and> runs_of sq (timer_step p op) = runs_of sq q"
      if "timer_ok p" "timer_call_ok p op" "True" "dead sq p \<and> runs_of sq p = runs_of sq q" for p op
      using dead_step [OF that(1,2)] that(4) by metis
  qed (use kill ok' assms(7) in \<open>simp_all add: list_all_iff\<close>)
  then show ?thesis by (simp add: runs_of_def)
qed

section \<open>Witnesses\<close>

definition demo_timer_events :: "(int \<times> TimerEvent) list" where
  "demo_timer_events = [(1, EvAddTimer True True 10 0), (2, EvAddTimer False True 5 1), (3, EvFunctor)]"

definition demo_timer_queue :: TimerQueue where
  "demo_timer_queue = run_ops timer_step TimerQueue_new demo_timer_events"

lemmas demo_timer_defs = demo_timer_queue_def demo_timer_events_def TimerQueue_new_def timer_step_def AddTimer_def RunInLoop_def
  AddTimerInLoop_def EntryLess_def ResetTimerfd_def DoPendingFunctor_def Let_def

lemma demo_timer_ok: "ok_run timer_call_ok timer_step TimerQueue_new demo_timer_events"
  by (simp add: demo_timer_defs timer_call_ok_def)

lemma demo_timer_facts:
  "batch demo_timer_queue = None" "next_sequence demo_timer_queue = 3" "clock demo_timer_queue = 3"
  "readable_at demo_timer_queue = Some 5" "schedule demo_timer_queue = [(5, 2), (10, 1)]"
  by (simp_all add: demo_timer_defs)

theorem timers_run_in_order_witness: "sorted_wrt before (fired (run_ops timer_step TimerQueue_new demo_timer_events))"
  using timers_run_in_order [OF demo_timer_ok] by simp

theorem wakeup_armed_witness:
  "\<exists>sq t. timers demo_timer_queue sq = Some t \<and> expiration t \<le> 5 \<and> 5 \<le> max (expiration t) 4"
  using wakeup_armed [OF demo_timer_ok demo_timer_queue_def demo_timer_facts(1)] by (auto simp: demo_timer_facts)

theorem wakeup_runs_due_timers_witness:
  "set (due 7 demo_timer_queue) = {t. \<exists>sq. timers demo_timer_queue sq = Some t \<and> expiration t \<le> 7}"
  using wakeup_runs_due_timers [OF demo_timer_ok demo_timer_queue_def demo_timer_facts(1), of 7 7] by simp

theorem cancel_is_final_witness:
  "filter (\<lambda>(b, now, t). sequence t = 2) (fired (run_ops timer_step
      (timer_step demo_timer_queue (4, EvCancel True (True, 2))) [(20, EvReadBegin True), (20, EvReadRun)]))
    = filter (\<lambda>(b, now, t). sequence t = 2) (fired demo_timer_queue)"
proof (rule cancel_is_final [OF demo_timer_ok demo_timer_queue_def _ _ refl])
  show "ok_run timer_call_ok timer_step (timer_step demo_timer_queue (4, EvCancel True (True, 2))) [(20, EvReadBegin True), (20, EvReadRun)]"
    by (simp add: demo_timer_defs timer_call_ok_def Cancel_def CancelInLoop_def ResetTimerfdToNext_def HandleRead_begin_def)
qed (simp_all add: demo_timer_facts)

end
