(* ===== verification/Replay_Admission.thy ===== *)
theory Replay_Admission
  imports TIMX_Prelude
begin

unbundle bit_operations_syntax

text \<open>
  The obligation to start a replay of private messages after a login, \<open>gateway/PrivateReplayAdmission.{h,cpp}\<close>: at most
  one entry per user, leases (\<open>Attempt\<close>) handed out for it, and the way a lease settles: \<open>MarkStarted\<close> from the replay
  itself, or its destructor, which re-arms the entry with a capped exponential delay.

  \<open>std::map\<close> is an association list in the order of its keys. A lease that is armed and not settled is its token in
  \<open>leases\<close>; \<open>MarkStarted\<close> and the destructor exchange the flag first, so each token settles once. Time is an argument of
  the methods, in nanoseconds. A failing allocation is not modelled.
\<close>

section \<open>Ordered association lists\<close>

fun put :: "'k::linorder \<Rightarrow> 'v \<Rightarrow> ('k \<times> 'v) list \<Rightarrow> ('k \<times> 'v) list" where
  "put k v [] = [(k, v)]"
| "put k v ((k', v') # xs) =
     (if k < k' then (k, v) # (k', v') # xs else if k = k' then (k, v) # xs else (k', v') # put k v xs)"

definition del :: "'k \<Rightarrow> ('k \<times> 'v) list \<Rightarrow> ('k \<times> 'v) list" where
  "del k xs = filter (\<lambda>p. fst p \<noteq> k) xs"

definition ordered :: "('k::linorder \<times> 'v) list \<Rightarrow> bool" where
  "ordered xs \<longleftrightarrow> sorted_wrt (<) (map fst xs)"

lemma set_put: "fst ` set (put k v xs) = insert k (fst ` set xs)"
  by (induction xs rule: put.induct [of _ k v]) auto

lemma ordered_put: "ordered xs \<Longrightarrow> ordered (put k v xs)"
  unfolding ordered_def
proof (induction xs)
  case (Cons p xs)
  have "fst ` set (put k v xs) = insert k (fst ` set xs)" by (rule set_put)
  with Cons show ?case by (cases p) (auto simp: image_iff)
qed simp

lemma map_of_put: "ordered xs \<Longrightarrow> map_of (put k v xs) = (map_of xs)(k \<mapsto> v)"
  unfolding ordered_def by (induction xs) (auto simp: fun_eq_iff)

lemma ordered_del: "ordered xs \<Longrightarrow> ordered (del k xs)"
  unfolding ordered_def del_def by (induction xs) auto

lemma map_of_del [simp]: "map_of (del k xs) = (map_of xs)(k := None)"
  unfolding del_def by (induction xs) auto

lemma length_put: "\<lbrakk>ordered xs; map_of xs k = Some w\<rbrakk> \<Longrightarrow> length (put k v xs) = length xs"
  unfolding ordered_def by (induction xs) (fastforce dest: map_of_SomeD split: if_splits)+

lemma ordered_distinct: "ordered xs \<Longrightarrow> distinct (map fst xs)"
  unfolding ordered_def by (simp add: strict_sorted_iff)

lemma map_of_iff: "ordered xs \<Longrightarrow> map_of xs k = Some v \<longleftrightarrow> (k, v) \<in> set xs"
  using ordered_distinct by (metis map_of_eq_Some_iff)

section \<open>State\<close>

record Token =
  token_user_id :: u64
  token_epoch :: u64
  token_generation :: u64
  token_attempt :: u64

record ReplayEntry =
  entry_epoch :: u64
  entry_generation :: u64
  entry_attempt :: u64
  deferrals :: nat
  entry_due :: int
  in_flight :: bool

record ReplayStats =
  retained :: nat
  peak_retained :: nat
  ensured :: nat
  coalesced :: nat
  claims :: nat
  readmissions :: nat
  started :: nat
  deferred :: nat
  retired :: nat
  replay_stopped :: bool

record PrivateReplayAdmission =
  replay_entries :: "(u64 \<times> ReplayEntry) list"
  next_generation :: u64
  scan_cursor :: u64
  stats :: ReplayStats
  leases :: "Token set"
  started_tokens :: "Token list"  \<comment> \<open>observation only\<close>

definition PrivateReplayAdmission_new :: PrivateReplayAdmission where
  "PrivateReplayAdmission_new = \<lparr>replay_entries = [], next_generation = 1, scan_cursor = 0,
     stats = \<lparr>retained = 0, peak_retained = 0, ensured = 0, coalesced = 0, claims = 0, readmissions = 0, started = 0,
              deferred = 0, retired = 0, replay_stopped = False\<rparr>,
     leases = {}, started_tokens = []\<rparr>"

definition tally :: "(ReplayStats \<Rightarrow> ReplayStats) \<Rightarrow> PrivateReplayAdmission \<Rightarrow> PrivateReplayAdmission" where
  "tally f s = s\<lparr>stats := f (stats s)\<rparr>"

section \<open>Operations\<close>

definition Ensure :: "int \<Rightarrow> u64 \<Rightarrow> u64 \<Rightarrow> PrivateReplayAdmission \<Rightarrow> bool \<times> PrivateReplayAdmission" where
  "Ensure now user_id epoch s =
     (if user_id = 0 \<or> epoch = 0 then (False, s)
      else if replay_stopped (stats s) then (False, s)
      else case map_of (replay_entries s) user_id of
        Some e \<Rightarrow>
          if entry_epoch e \<ge> epoch then (False, tally (coalesced_update Suc) s)
          else
            let e' = \<lparr>entry_epoch = epoch, entry_generation = next_generation s, entry_attempt = 0, deferrals = 0,
                      entry_due = now, in_flight = False\<rparr>;
                es = put user_id e' (replay_entries s)
            in (True, (tally (ensured_update Suc \<circ> retired_update Suc \<circ> peak_retained_update (max (length es))) s)
                 \<lparr>replay_entries := es, next_generation := next_generation s + 1\<rparr>)
      | None \<Rightarrow>
          let e' = \<lparr>entry_epoch = epoch, entry_generation = next_generation s, entry_attempt = 0, deferrals = 0,
                    entry_due = now, in_flight = False\<rparr>;
              es = put user_id e' (replay_entries s)
          in (True, (tally (ensured_update Suc \<circ> peak_retained_update (max (length es))) s)
               \<lparr>replay_entries := es, next_generation := next_generation s + 1\<rparr>))"

definition token_of :: "u64 \<Rightarrow> ReplayEntry \<Rightarrow> Token" where
  "token_of u e = \<lparr>token_user_id = u, token_epoch = entry_epoch e, token_generation = entry_generation e, token_attempt = entry_attempt e\<rparr>"

definition ClaimLocked :: "u64 \<Rightarrow> ReplayEntry \<Rightarrow> int \<Rightarrow> PrivateReplayAdmission \<Rightarrow> Token option \<times> PrivateReplayAdmission" where
  "ClaimLocked user_id e now s =
     (if in_flight e \<or> entry_due e > now then (None, s)
      else
        let e' = e\<lparr>entry_attempt := entry_attempt e + 1, in_flight := True\<rparr>;
            token = token_of user_id e'
        in (Some token,
            (tally ((if entry_attempt e' > 1 then readmissions_update Suc else id) \<circ> claims_update Suc) s)
              \<lparr>replay_entries := put user_id e' (replay_entries s), leases := insert token (leases s)\<rparr>))"

definition Claim :: "int \<Rightarrow> u64 \<Rightarrow> u64 \<Rightarrow> PrivateReplayAdmission \<Rightarrow> Token option \<times> PrivateReplayAdmission" where
  "Claim now user_id epoch s =
     (if replay_stopped (stats s) then (None, s)
      else case map_of (replay_entries s) user_id of
        None \<Rightarrow> (None, s)
      | Some e \<Rightarrow> if entry_epoch e \<noteq> epoch then (None, s) else ClaimLocked user_id e now s)"

text \<open>The loop of \<open>TakeDue\<close>: \<open>n\<close> turns left, the iterator at position \<open>i\<close>.\<close>

fun take_due_loop :: "int \<Rightarrow> nat \<Rightarrow> nat \<Rightarrow> nat \<Rightarrow> Token list \<Rightarrow> PrivateReplayAdmission \<Rightarrow> Token list \<times> PrivateReplayAdmission" where
  "take_due_loop now 0 submit_budget i result s = (result, s)"
| "take_due_loop now (Suc n) submit_budget i result s =
     (if \<not> length result < submit_budget then (result, s)
      else
        let i = (if i = length (replay_entries s) then 0 else i);
            (u, e) = replay_entries s ! i;
            (claim, s') = ClaimLocked u e now (s\<lparr>scan_cursor := u\<rparr>)
        in take_due_loop now n submit_budget (i + 1) (case claim of None \<Rightarrow> result | Some token \<Rightarrow> result @ [token]) s')"

definition TakeDue :: "int \<Rightarrow> nat \<Rightarrow> nat \<Rightarrow> PrivateReplayAdmission \<Rightarrow> Token list \<times> PrivateReplayAdmission" where
  "TakeDue now scan_budget submit_budget s =
     (if replay_stopped (stats s) \<or> replay_entries s = [] \<or> submit_budget = 0 then ([], s)
      else
        let scans = min scan_budget (length (replay_entries s));
            it = length (takeWhile (\<lambda>p. fst p \<le> scan_cursor s) (replay_entries s))
        in take_due_loop now scans submit_budget it [] s)"

definition Matches :: "Token \<Rightarrow> ReplayEntry \<Rightarrow> bool" where
  "Matches t e \<longleftrightarrow> token_epoch t = entry_epoch e \<and> token_generation t = entry_generation e
     \<and> token_attempt t = entry_attempt e \<and> in_flight e"

definition Started :: "Token \<Rightarrow> PrivateReplayAdmission \<Rightarrow> bool \<times> PrivateReplayAdmission" where
  "Started t s =
     (case map_of (replay_entries s) (token_user_id t) of
        None \<Rightarrow> (False, s)
      | Some e \<Rightarrow>
          if replay_stopped (stats s) \<or> \<not> Matches t e then (False, s)
          else (True, (tally (started_update Suc) s)\<lparr>replay_entries := del (token_user_id t) (replay_entries s),
                 started_tokens := started_tokens s @ [t]\<rparr>))"

text \<open>The delay, \<open>std::chrono::milliseconds\<close> added to a time point of the steady clock.\<close>

definition retry_delay :: "Token \<Rightarrow> ReplayEntry \<Rightarrow> int" where
  "retry_delay t e =
     (let shift = min (deferrals e) 3;
          mix = ((token_user_id t * 11400714819323198485) XOR (token_generation t * 6364136223846793005)) XOR token_attempt t
      in (250 * 2 ^ shift + uint (mix mod 126)) * 1000000)"

definition Abandoned :: "int \<Rightarrow> Token \<Rightarrow> PrivateReplayAdmission \<Rightarrow> PrivateReplayAdmission" where
  "Abandoned now t s =
     (case map_of (replay_entries s) (token_user_id t) of
        None \<Rightarrow> s
      | Some e \<Rightarrow>
          if replay_stopped (stats s) \<or> \<not> Matches t e then s
          else (tally (deferred_update Suc) s)\<lparr>replay_entries := put (token_user_id t)
                 (e\<lparr>entry_due := now + retry_delay t e, in_flight := False,
                    deferrals := (if deferrals e < 3 then deferrals e + 1 else deferrals e)\<rparr>) (replay_entries s)\<rparr>)"

text \<open>The two ways a lease settles.\<close>

definition MarkStarted :: "Token \<Rightarrow> PrivateReplayAdmission \<Rightarrow> bool \<times> PrivateReplayAdmission" where
  "MarkStarted t s = (if t \<notin> leases s then (False, s) else Started t (s\<lparr>leases := leases s - {t}\<rparr>))"

definition Attempt_destroyed :: "int \<Rightarrow> Token \<Rightarrow> PrivateReplayAdmission \<Rightarrow> PrivateReplayAdmission" where
  "Attempt_destroyed now t s = (if t \<notin> leases s then s else Abandoned now t (s\<lparr>leases := leases s - {t}\<rparr>))"

definition Retire :: "u64 \<Rightarrow> u64 \<Rightarrow> PrivateReplayAdmission \<Rightarrow> PrivateReplayAdmission" where
  "Retire user_id epoch s =
     (case map_of (replay_entries s) user_id of
        None \<Rightarrow> s
      | Some e \<Rightarrow>
          if entry_epoch e = epoch
          then (tally (retired_update Suc) s)\<lparr>replay_entries := del user_id (replay_entries s)\<rparr> else s)"

definition replay_stop :: "PrivateReplayAdmission \<Rightarrow> PrivateReplayAdmission" where
  "replay_stop s = (tally (\<lambda>st. st\<lparr>replay_stopped := True, retired := retired st + length (replay_entries s)\<rparr>) s)\<lparr>replay_entries := []\<rparr>"

definition replay_resume :: "PrivateReplayAdmission \<Rightarrow> PrivateReplayAdmission" where
  "replay_resume s = tally (replay_stopped_update (\<lambda>_. False)) s"

definition GetStats :: "PrivateReplayAdmission \<Rightarrow> ReplayStats" where
  "GetStats s = (stats s)\<lparr>retained := length (replay_entries s)\<rparr>"

datatype ReplayOp =
    OpEnsure int u64 u64
  | OpClaim int u64 u64
  | OpTakeDue int nat nat
  | OpMarkStarted Token
  | OpDestroyed int Token
  | OpRetire u64 u64
  | OpReplayStop
  | OpReplayResume

fun replay_step :: "PrivateReplayAdmission \<Rightarrow> ReplayOp \<Rightarrow> PrivateReplayAdmission" where
  "replay_step s (OpEnsure now u e) = snd (Ensure now u e s)"
| "replay_step s (OpClaim now u e) = snd (Claim now u e s)"
| "replay_step s (OpTakeDue now scan submit) = snd (TakeDue now scan submit s)"
| "replay_step s (OpMarkStarted t) = snd (MarkStarted t s)"
| "replay_step s (OpDestroyed now t) = Attempt_destroyed now t s"
| "replay_step s (OpRetire u e) = Retire u e s"
| "replay_step s OpReplayStop = replay_stop s"
| "replay_step s OpReplayResume = replay_resume s"

text \<open>The 64 bit counters do not wrap around.\<close>

definition replay_call_ok :: "PrivateReplayAdmission \<Rightarrow> ReplayOp \<Rightarrow> bool" where
  "replay_call_ok s op \<longleftrightarrow> next_generation s \<noteq> - 1 \<and> (\<forall>(u, e)\<in>set (replay_entries s). entry_attempt e \<noteq> - 1)"

section \<open>Invariant\<close>

abbreviation entry :: "PrivateReplayAdmission \<Rightarrow> u64 \<rightharpoonup> ReplayEntry" where
  "entry s \<equiv> map_of (replay_entries s)"

text \<open>Each generation is issued once and is either retained, started, or gone. An entry that is in flight has its lease
  outstanding; a lease that was overtaken never matches again.\<close>

definition entries_inv :: "(u64 \<rightharpoonup> ReplayEntry) \<Rightarrow> Token set \<Rightarrow> Token list \<Rightarrow> u64 \<Rightarrow> bool" where
  "entries_inv m ls st g \<longleftrightarrow>
     (\<forall>u e. m u = Some e \<longrightarrow> entry_generation e < g \<and> (in_flight e \<longrightarrow> token_of u e \<in> ls) \<and> deferrals e \<le> 3
        \<and> entry_generation e \<notin> token_generation ` set st)
     \<and> (\<forall>u e u' e'. m u = Some e \<and> m u' = Some e' \<and> entry_generation e = entry_generation e' \<longrightarrow> u = u')
     \<and> distinct (map token_generation st) \<and> (\<forall>t\<in>set st. token_generation t < g)"

definition replay_ok :: "PrivateReplayAdmission \<Rightarrow> bool" where
  "replay_ok s \<longleftrightarrow> ordered (replay_entries s) \<and> entries_inv (entry s) (leases s) (started_tokens s) (next_generation s)
     \<and> (replay_stopped (stats s) \<longrightarrow> replay_entries s = [])"

lemma replay_ok_new: "replay_ok PrivateReplayAdmission_new"
  by (simp add: replay_ok_def PrivateReplayAdmission_new_def ordered_def entries_inv_def)

lemma tally_fields [simp]:
  "replay_entries (tally f s) = replay_entries s" "next_generation (tally f s) = next_generation s"
  "leases (tally f s) = leases s" "started_tokens (tally f s) = started_tokens s" "scan_cursor (tally f s) = scan_cursor s"
  "stats (tally f s) = f (stats s)"
  by (simp_all add: tally_def)

lemma entries_inv_new:
  assumes "entries_inv m ls st g" "g < g'" "e = \<lparr>entry_epoch = p, entry_generation = g, entry_attempt = 0, deferrals = 0, entry_due = d, in_flight = False\<rparr>"
  shows "entries_inv (m(u \<mapsto> e)) ls st g'"
proof -
  have "a < g'" if "a < g" for a using that assms(2) by (rule less_trans)
  with assms show ?thesis unfolding entries_inv_def by auto
qed

lemma entries_inv_upd:
  assumes "entries_inv m ls st g" "m u = Some e" "entry_generation e' = entry_generation e" "deferrals e' \<le> 3"
    "in_flight e' \<Longrightarrow> token_of u e' \<in> ls'" "\<And>v f. m v = Some f \<Longrightarrow> v \<noteq> u \<Longrightarrow> in_flight f \<Longrightarrow> token_of v f \<in> ls'"
  shows "entries_inv (m(u \<mapsto> e')) ls' st g"
  using assms unfolding entries_inv_def by (auto split: if_splits)

lemma Ensure_ok:
  assumes ok: "replay_ok s" and n: "next_generation s \<noteq> - 1"
  shows "replay_ok (snd (Ensure now u e s))"
  using ok next_less [OF n]
  by (auto simp: Ensure_def Let_def replay_ok_def ordered_put map_of_put intro!: entries_inv_new split: option.split)

lemma ClaimLocked_ok:
  assumes ok: "replay_ok s" and e: "entry s u = Some e"
  shows "replay_ok (snd (ClaimLocked u e now s))" "length (replay_entries (snd (ClaimLocked u e now s))) = length (replay_entries s)"
    "stats (snd (ClaimLocked u e now s)) = stats s \<or> replay_stopped (stats (snd (ClaimLocked u e now s))) = replay_stopped (stats s)"
proof -
  have inv: "ordered (replay_entries s)" "entries_inv (entry s) (leases s) (started_tokens s) (next_generation s)"
    and st: "\<not> replay_stopped (stats s)"
    using ok e by (auto simp: replay_ok_def)
  let ?e = "e\<lparr>entry_attempt := entry_attempt e + 1, in_flight := True\<rparr>"
  have "entries_inv ((entry s)(u \<mapsto> ?e)) (insert (token_of u ?e) (leases s)) (started_tokens s) (next_generation s)"
    using inv(2) e by (intro entries_inv_upd [OF inv(2) e]) (auto simp: entries_inv_def)
  with ok inv(1) st show "replay_ok (snd (ClaimLocked u e now s))"
    by (auto simp: ClaimLocked_def Let_def replay_ok_def ordered_put map_of_put)
  show "length (replay_entries (snd (ClaimLocked u e now s))) = length (replay_entries s)"
    using length_put [OF inv(1) e] by (simp add: ClaimLocked_def Let_def)
  show "stats (snd (ClaimLocked u e now s)) = stats s \<or> replay_stopped (stats (snd (ClaimLocked u e now s))) = replay_stopped (stats s)"
    by (simp add: ClaimLocked_def Let_def)
qed

lemma Claim_ok: "replay_ok s \<Longrightarrow> replay_ok (snd (Claim now u e s))"
  using ClaimLocked_ok(1) by (auto simp: Claim_def split: option.split)

lemma take_due_loop_ok:
  assumes "replay_ok s" "i \<le> length (replay_entries s)" "replay_entries s \<noteq> []"
  shows "replay_ok (snd (take_due_loop now n submit i result s))"
  using assms
proof (induction now n submit i result s rule: take_due_loop.induct)
  case (2 now n submit i result s)
  let ?i = "if i = length (replay_entries s) then 0 else i"
  obtain u e where ue: "replay_entries s ! ?i = (u, e)" by fastforce
  have i: "?i < length (replay_entries s)" using 2(3,4) by auto
  let ?s = "s\<lparr>scan_cursor := u\<rparr>"
  have ok: "replay_ok ?s" using 2(2) by (simp add: replay_ok_def)
  have "(u, e) \<in> set (replay_entries s)" using i ue nth_mem by metis
  then have e: "entry ?s u = Some e" using 2(2) map_of_iff [of "replay_entries s" u e] by (simp add: replay_ok_def)
  obtain c s' where c: "ClaimLocked u e now ?s = (c, s')" by fastforce
  have s': "replay_ok s'" "length (replay_entries s') = length (replay_entries s)"
    using ClaimLocked_ok(1,2) [OF ok e, of now] c by simp_all
  moreover have "replay_entries s' \<noteq> []" using s'(2) 2(4) by (metis length_0_conv)
  ultimately have "replay_ok (snd (take_due_loop now n submit (?i + 1) (case c of None \<Rightarrow> result | Some token \<Rightarrow> result @ [token]) s'))"
    if "length result < submit"
    using 2(1) [OF _ refl ue [symmetric] refl c [symmetric] refl] that i 2(4) by (auto simp: c)
  with 2(2) ue c show ?case by (auto simp: Let_def)
qed simp

lemma TakeDue_ok: "replay_ok s \<Longrightarrow> replay_ok (snd (TakeDue now scan submit s))"
  by (auto simp: TakeDue_def Let_def intro!: take_due_loop_ok length_takeWhile_le)

lemma entries_inv_del:
  assumes "entries_inv m ls st g"
  shows "entries_inv (m(u := None)) ls st g"
  using assms unfolding entries_inv_def by auto

lemma entries_inv_settle:
  assumes "entries_inv m ls st g" "\<And>u e. m u = Some e \<Longrightarrow> in_flight e \<Longrightarrow> token_of u e \<noteq> t"
  shows "entries_inv m (ls - {t}) st g"
  using assms unfolding entries_inv_def by auto

lemma Matches_iff: "Matches t e \<longleftrightarrow> in_flight e \<and> t = token_of (token_user_id t) e"
  by (cases t) (auto simp: Matches_def token_of_def)

lemma MarkStarted_ok:
  assumes ok: "replay_ok s"
  shows "replay_ok (snd (MarkStarted t s))"
proof -
  have inv: "entries_inv (entry s) (leases s) (started_tokens s) (next_generation s)" and o: "ordered (replay_entries s)"
    using ok by (simp_all add: replay_ok_def)
  let ?u = "token_user_id t"
  show ?thesis
  proof (cases "\<exists>e. entry s ?u = Some e \<and> Matches t e")
    case True
    then obtain e where e: "entry s ?u = Some e" "Matches t e" by blast
    then have gen: "token_generation t = entry_generation e" and st: "\<not> replay_stopped (stats s)"
      using ok by (auto simp: Matches_def replay_ok_def)
    have "entries_inv ((entry s)(?u := None)) (leases s - {t}) (started_tokens s @ [t]) (next_generation s)"
      using inv e gen unfolding entries_inv_def
      by (auto simp: token_of_def split: if_splits)
    with ok o e st show ?thesis
      by (auto simp: MarkStarted_def Started_def replay_ok_def ordered_del)
  next
    case False
    have "entries_inv (entry s) (leases s - {t}) (started_tokens s) (next_generation s)"
    proof (rule entries_inv_settle [OF inv])
      show "token_of u e \<noteq> t" if "entry s u = Some e" "in_flight e" for u e
        using that False by (auto simp: Matches_iff token_of_def)
    qed
    with ok False show ?thesis
      by (auto simp: MarkStarted_def Started_def replay_ok_def split: option.split)
  qed
qed

lemma Attempt_destroyed_ok:
  assumes ok: "replay_ok s"
  shows "replay_ok (Attempt_destroyed now t s)"
proof -
  have inv: "entries_inv (entry s) (leases s) (started_tokens s) (next_generation s)" and o: "ordered (replay_entries s)"
    using ok by (simp_all add: replay_ok_def)
  let ?u = "token_user_id t"
  show ?thesis
  proof (cases "\<exists>e. entry s ?u = Some e \<and> Matches t e")
    case True
    then obtain e where e: "entry s ?u = Some e" "Matches t e" by blast
    have st: "\<not> replay_stopped (stats s)" using ok e by (auto simp: replay_ok_def)
    let ?e = "e\<lparr>entry_due := now + retry_delay t e, in_flight := False, deferrals := (if deferrals e < 3 then deferrals e + 1 else deferrals e)\<rparr>"
    have "deferrals e \<le> 3" using inv e(1) by (auto simp: entries_inv_def)
    then have "entries_inv ((entry s)(?u \<mapsto> ?e)) (leases s - {t}) (started_tokens s) (next_generation s)"
    proof (intro entries_inv_upd [OF inv e(1)])
      show "token_of v f \<in> leases s - {t}" if "entry s v = Some f" "v \<noteq> ?u" "in_flight f" for v f
        using inv that by (auto simp: entries_inv_def token_of_def)
    qed auto
    with ok o e st show ?thesis
      by (auto simp: Attempt_destroyed_def Abandoned_def replay_ok_def ordered_put map_of_put)
  next
    case False
    have "entries_inv (entry s) (leases s - {t}) (started_tokens s) (next_generation s)"
    proof (rule entries_inv_settle [OF inv])
      show "token_of u e \<noteq> t" if "entry s u = Some e" "in_flight e" for u e
        using that False by (auto simp: Matches_iff token_of_def)
    qed
    with ok False show ?thesis
      by (auto simp: Attempt_destroyed_def Abandoned_def replay_ok_def split: option.split)
  qed
qed

lemma Retire_ok: "replay_ok s \<Longrightarrow> replay_ok (Retire u e s)"
  by (auto simp: Retire_def replay_ok_def ordered_del entries_inv_del split: option.split)

lemma replay_stop_ok: "replay_ok s \<Longrightarrow> replay_ok (replay_stop s)"
  by (auto simp: replay_stop_def replay_ok_def ordered_def entries_inv_def)

lemma replay_resume_ok: "replay_ok s \<Longrightarrow> replay_ok (replay_resume s)"
  by (simp add: replay_resume_def replay_ok_def)

interpretation ra: guarded_object replay_step replay_call_ok replay_ok
proof unfold_locales
  fix s op
  assume "replay_ok s" "replay_call_ok s op"
  then show "replay_ok (replay_step s op)"
    by (cases op) (simp_all add: replay_call_ok_def Ensure_ok Claim_ok TakeDue_ok MarkStarted_ok Attempt_destroyed_ok
        Retire_ok replay_stop_ok replay_resume_ok)
qed


section \<open>Properties\<close>

lemma retry_delay_bounds: "0 \<le> retry_delay t e" "retry_delay t e \<le> 2125000000"
proof -
  have le: "2 ^ min (deferrals e) 3 \<le> (2::int) ^ 3" by (rule power_increasing) simp_all
  have mod: "0 \<le> uint ((w::u64) mod 126)" "uint (w mod 126) \<le> 125" for w
    using pos_mod_bound [of 126 "uint w"] by (simp_all add: uint_mod)
  show "0 \<le> retry_delay t e" "retry_delay t e \<le> 2125000000"
    unfolding retry_delay_def Let_def using le mod [of "((token_user_id t * 11400714819323198485) XOR (token_generation t * 6364136223846793005)) XOR token_attempt t"]
    by simp_all
qed

text \<open>C33: a replay obligation is started at most once: over any sequence of calls, of all leases ever handed out for one
  generation of one login at most one \<open>MarkStarted\<close> succeeds, and a started generation is not retained any more.\<close>

theorem replay_started_once:
  assumes "ok_run replay_call_ok replay_step PrivateReplayAdmission_new ops" and "s = run_ops replay_step PrivateReplayAdmission_new ops"
  shows "distinct (map token_generation (started_tokens s))
    \<and> (\<forall>(u, e)\<in>set (replay_entries s). entry_generation e \<notin> token_generation ` set (started_tokens s))"
proof -
  have ok: "replay_ok s" using ra.run_invar [OF replay_ok_new assms(1)] assms(2) by simp
  then have "entry s u = Some e" if "(u, e) \<in> set (replay_entries s)" for u e
    using that map_of_iff [of "replay_entries s"] by (auto simp: replay_ok_def)
  with ok show ?thesis unfolding replay_ok_def entries_inv_def by fastforce
qed

text \<open>C34: a replay obligation is not lost: a retained entry can be claimed as soon as it is due, or its lease is
  outstanding; and if that lease is dropped without a start, the same obligation can be claimed again after at most
  2125 milliseconds.\<close>

theorem replay_obligation_kept:
  assumes "ok_run replay_call_ok replay_step PrivateReplayAdmission_new ops" and "s = run_ops replay_step PrivateReplayAdmission_new ops"
    and "(u, e) \<in> set (replay_entries s)"
  shows "if in_flight e
    then token_of u e \<in> leases s \<and> (\<exists>token. fst (Claim (now + 2125000000) u (entry_epoch e) (Attempt_destroyed now (token_of u e) s)) = Some token
      \<and> token_generation token = entry_generation e)
    else \<exists>token. fst (Claim (max now (entry_due e)) u (entry_epoch e) s) = Some token \<and> token_generation token = entry_generation e"
proof -
  have ok: "replay_ok s" using ra.run_invar [OF replay_ok_new assms(1)] assms(2) by simp
  then have e: "entry s u = Some e" and st: "\<not> replay_stopped (stats s)"
    using assms(3) map_of_iff [of "replay_entries s"] by (auto simp: replay_ok_def)
  show ?thesis
  proof (cases "in_flight e")
    case True
    let ?t = "token_of u e"
    have lease: "?t \<in> leases s" using ok e True by (auto simp: replay_ok_def entries_inv_def)
    have m: "Matches ?t e" "token_user_id ?t = u" using True by (simp_all add: Matches_def token_of_def)
    let ?e = "e\<lparr>entry_due := now + retry_delay ?t e, in_flight := False, deferrals := (if deferrals e < 3 then deferrals e + 1 else deferrals e)\<rparr>"
    let ?s = "Attempt_destroyed now ?t s"
    have "entry ?s u = Some ?e" "\<not> replay_stopped (stats ?s)"
      using ok lease e st m by (simp_all add: Attempt_destroyed_def Abandoned_def map_of_put replay_ok_def)
    with retry_delay_bounds(2) [of ?t e] True lease show ?thesis
      by (simp add: Claim_def ClaimLocked_def Let_def token_of_def)
  next
    case False
    with e st show ?thesis by (simp add: Claim_def ClaimLocked_def Let_def token_of_def)
  qed
qed

section \<open>Witnesses\<close>

definition demo_replay_ops :: "ReplayOp list" where
  "demo_replay_ops = [OpEnsure 0 7 1, OpTakeDue 5 4 4]"

definition demo_replay :: PrivateReplayAdmission where
  "demo_replay = run_ops replay_step PrivateReplayAdmission_new demo_replay_ops"

lemmas demo_replay_defs = demo_replay_def demo_replay_ops_def PrivateReplayAdmission_new_def Ensure_def TakeDue_def ClaimLocked_def
  Let_def tally_def token_of_def

lemma demo_replay_ok: "ok_run replay_call_ok replay_step PrivateReplayAdmission_new demo_replay_ops"
  by (simp add: demo_replay_defs replay_call_ok_def)

lemma demo_replay_entry:
  "replay_entries demo_replay = [(7, \<lparr>entry_epoch = 1, entry_generation = 1, entry_attempt = 1, deferrals = 0, entry_due = 0, in_flight = True\<rparr>)]"
  by (simp add: demo_replay_defs)

theorem replay_started_once_witness: "distinct (map token_generation (started_tokens demo_replay))"
  using replay_started_once [OF demo_replay_ok demo_replay_def] by simp

theorem replay_obligation_kept_witness:
  "\<lparr>token_user_id = 7, token_epoch = 1, token_generation = 1, token_attempt = 1\<rparr> \<in> leases demo_replay"
  using replay_obligation_kept [OF demo_replay_ok demo_replay_def, of 7 _ 0] unfolding demo_replay_entry
  by (simp add: token_of_def)

end
