(* ===== verification/Peer_Transport.thy ===== *)
theory Peer_Transport
  imports Packet_Codec "HOL-Library.Multiset"
begin

text \<open>
  Requests from one gateway to another, \<open>gateway/GatewayPeerTransport.{h,cpp}\<close>: a request is sent on the connection to
  the peer under a fresh sequence number, waits in a table for the response with that number, and has a timeout; before
  the connection stands, requests are queued. Each caller passes a callback, and the point of the theory is that every
  accepted request is answered exactly once, whatever comes first: response, timeout, bad frame, loss of the connection,
  failure to connect, or a stop.

  The class has the same code twice, for private and for group messages; the model has it once, with the kind of the
  request as an argument. The public methods may be called on any thread: each tests \<open>running_\<close> and then hands a functor to
  the event loop, and anything may happen between the two (\<open>transit\<close>). Everything else happens on the loop thread.
  A method that calls user code in its middle is a sequence of statements that remain to be executed, \<open>stack\<close>, so that
  whatever a callback does (new requests, a stop) comes between them.

  A callback is a number, \<open>None\<close> an empty function. Serialisation of the bodies is JSON, of which the class sees only the
  result: it is the argument \<open>pr\<close>. The timers of the event loop are the map \<open>armed\<close> from timer ids to what they will call; a
  cancelled timer does not run, and a timer runs once. The tables are in the order of insertion; their iteration order, which
  the language leaves open, decides the order of the answers and appears in no statement. What the connection does
  (it comes up, breaks, delivers bytes, can or cannot be used) are events and arguments of events.
\<close>

section \<open>Types\<close>

datatype GatewayPeerTransportStatus =
  kOk | kInvalidArgument | kNotRunning | kNotConnected | kEncodeError | kRequestTimeout | kDisconnected | kProtocolError | kStopped

datatype PeerKind = Chat | Group

datatype ForwardRequest = QueuedForwardChat u64 u64 u64 "byte list" | QueuedForwardGroupMessage u64 u64

fun kind_of :: "ForwardRequest \<Rightarrow> PeerKind" where
  "kind_of (QueuedForwardChat message_id from_user_id to_user_id body) = Chat"
| "kind_of (QueuedForwardGroupMessage message_id recipient) = Group"

record 'r GatewayPeerTransportResult =
  result_status :: GatewayPeerTransportStatus
  response :: "'r option"
  result_error :: string

record PendingRequest =
  callback :: "nat option"
  timeout_timer :: nat

record GatewayPeerTransportOptions =
  local_gateway_id :: string
  local_lease_token :: string
  remote_gateway_id :: string
  remote_host :: string
  remote_port :: u16
  remote_address_valid :: bool  \<comment> \<open>\<open>InetAddress(remote_host, remote_port).IsValid()\<close>\<close>
  connect_timeout :: int
  request_timeout :: int
  peer_max_body_size :: nat

text \<open>The functions of \<open>GatewayPeerProtocol.h\<close> and \<open>GatewayGroupPeerProtocol.h\<close>; \<open>Inl\<close> is the result \<open>false\<close> with its message.\<close>

record 'r PeerProtocol =
  serialize_request :: "GatewayPeerTransportOptions \<Rightarrow> ForwardRequest \<Rightarrow> string + byte list"
  deserialize_response :: "PeerKind \<Rightarrow> byte list \<Rightarrow> string + 'r"

datatype PeerFunctor = FnStart | FnStop | FnForward ForwardRequest "nat option"

text \<open>Statements that remain to be executed on the loop thread.\<close>

datatype Todo =
    TFailAllPending PeerKind GatewayPeerTransportStatus string
  | TFailPending GatewayPeerTransportStatus string "PendingRequest list"
  | TFailQueuedForwards PeerKind GatewayPeerTransportStatus string
  | TFailQueued GatewayPeerTransportStatus string "(ForwardRequest \<times> nat option) list"
  | TFlushQueuedForwards PeerKind
  | TFlush "(ForwardRequest \<times> nat option) list"
  | TSetDisconnected
  | TPackets "Packet list"

record 'r GatewayPeerTransport =
  peer_options :: GatewayPeerTransportOptions
  running :: bool
  connected :: bool
  has_client :: bool
  pending_count :: nat
  next_sequence :: u32
  pending_requests :: "PeerKind \<Rightarrow> (u32 \<times> PendingRequest) list"
  queued_forwards :: "PeerKind \<Rightarrow> (ForwardRequest \<times> nat option) list"
  armed :: "nat \<rightharpoonup> PeerKind \<times> u32"
  next_timer :: nat
  transit :: "(bool \<times> PeerFunctor) list"
  functors :: "PeerFunctor list"
  stack :: "Todo list"
  sent :: "byte list list"
  accepted :: nat  \<comment> \<open>observation only: how many callbacks have been accepted\<close>
  answers :: "(nat \<times> 'r GatewayPeerTransportResult) list"  \<comment> \<open>observation only\<close>

definition GatewayPeerTransport_new :: "GatewayPeerTransportOptions \<Rightarrow> 'r GatewayPeerTransport" where
  "GatewayPeerTransport_new o' = \<lparr>peer_options = o', running = False, connected = False, has_client = False, pending_count = 0,
     next_sequence = 1, pending_requests = (\<lambda>_. []), queued_forwards = (\<lambda>_. []), armed = Map.empty, next_timer = 0,
     transit = [], functors = [], stack = [], sent = [], accepted = 0, answers = []\<rparr>"

definition peer_codec :: "'r GatewayPeerTransport \<Rightarrow> ProtocolCodec" where
  "peer_codec s = \<lparr>max_body_size = peer_max_body_size (peer_options s)\<rparr>"

section \<open>Answers and failures\<close>

definition answer :: "nat option \<Rightarrow> 'r GatewayPeerTransportResult \<Rightarrow> 'r GatewayPeerTransport \<Rightarrow> 'r GatewayPeerTransport" where
  "answer cb r s = (case cb of None \<Rightarrow> s | Some c \<Rightarrow> s\<lparr>answers := answers s @ [(c, r)]\<rparr>)"

definition failure :: "GatewayPeerTransportStatus \<Rightarrow> string \<Rightarrow> 'r GatewayPeerTransportResult" where
  "failure st e = \<lparr>result_status = st, response = None, result_error = e\<rparr>"

definition push :: "Todo list \<Rightarrow> 'r GatewayPeerTransport \<Rightarrow> 'r GatewayPeerTransport" where
  "push ts s = s\<lparr>stack := ts @ stack s\<rparr>"

definition store_count :: "'r GatewayPeerTransport \<Rightarrow> 'r GatewayPeerTransport" where
  "store_count s = s\<lparr>pending_count := length (pending_requests s Chat) + length (pending_requests s Group)\<rparr>"

definition FailAllPending :: "GatewayPeerTransportStatus \<Rightarrow> string \<Rightarrow> 'r GatewayPeerTransport \<Rightarrow> 'r GatewayPeerTransport" where
  "FailAllPending st e s =
     (if pending_requests s Chat = [] then s\<lparr>pending_count := 0\<rparr>
      else push [TFailPending st e (map snd (pending_requests s Chat))]
        (s\<lparr>pending_requests := (pending_requests s)(Chat := []), pending_count := 0\<rparr>))"

definition FailAllPendingGroup :: "GatewayPeerTransportStatus \<Rightarrow> string \<Rightarrow> 'r GatewayPeerTransport \<Rightarrow> 'r GatewayPeerTransport" where
  "FailAllPendingGroup st e s =
     push [TFailPending st e (map snd (pending_requests s Group))]
       (s\<lparr>pending_requests := (pending_requests s)(Group := []), pending_count := length (pending_requests s Chat)\<rparr>)"

text \<open>One turn of their loops.\<close>

definition fail_pending_one :: "GatewayPeerTransportStatus \<Rightarrow> string \<Rightarrow> PendingRequest \<Rightarrow> 'r GatewayPeerTransport \<Rightarrow> 'r GatewayPeerTransport" where
  "fail_pending_one st e p s = answer (callback p) (failure st e) (s\<lparr>armed := (armed s)(timeout_timer p := None)\<rparr>)"

definition FailQueuedForwards :: "PeerKind \<Rightarrow> GatewayPeerTransportStatus \<Rightarrow> string \<Rightarrow> 'r GatewayPeerTransport \<Rightarrow> 'r GatewayPeerTransport" where
  "FailQueuedForwards k st e s =
     push [TFailQueued st e (queued_forwards s k)] (s\<lparr>queued_forwards := (queued_forwards s)(k := [])\<rparr>)"

section \<open>Sending\<close>

definition kMaxAttempts :: nat where "kMaxAttempts = 2 ^ 32 - 1"

fun next_sequence_loop :: "nat \<Rightarrow> (u32 \<Rightarrow> bool) \<Rightarrow> u32 \<Rightarrow> u32 \<times> u32" where
  "next_sequence_loop 0 used n = (0, n)"
| "next_sequence_loop (Suc a) used n =
     (let candidate = n; n' = (if n + 1 = 0 then 1 else n + 1) in
      if candidate = 0 then next_sequence_loop a used n'
      else if \<not> used candidate then (candidate, n')
      else next_sequence_loop a used n')"

definition in_use :: "'r GatewayPeerTransport \<Rightarrow> u32 \<Rightarrow> bool" where
  "in_use s c \<longleftrightarrow> map_of (pending_requests s Chat) c \<noteq> None \<or> map_of (pending_requests s Group) c \<noteq> None"

definition NextSequence :: "'r GatewayPeerTransport \<Rightarrow> u32 \<times> 'r GatewayPeerTransport" where
  "NextSequence s = (case next_sequence_loop kMaxAttempts (in_use s) (next_sequence s) of (c, n) \<Rightarrow> (c, s\<lparr>next_sequence := n\<rparr>))"

definition emplace :: "PeerKind \<Rightarrow> u32 \<Rightarrow> PendingRequest \<Rightarrow> 'r GatewayPeerTransport \<Rightarrow> 'r GatewayPeerTransport" where
  "emplace k sq p s =
     (if map_of (pending_requests s k) sq \<noteq> None then s
      else s\<lparr>pending_requests := (pending_requests s)(k := pending_requests s k @ [(sq, p)])\<rparr>)"

fun request_type :: "PeerKind \<Rightarrow> MessageType" where
  "request_type Chat = kGatewayForwardChatRequest"
| "request_type Group = kGatewayForwardGroupMessageRequest"

text \<open>\<open>usable\<close>: the client has a connection and it is connected.\<close>

definition ForwardInLoop :: "'r PeerProtocol \<Rightarrow> bool \<Rightarrow> ForwardRequest \<Rightarrow> nat option \<Rightarrow> 'r GatewayPeerTransport \<Rightarrow> 'r GatewayPeerTransport" where
  "ForwardInLoop pr usable q cb s =
     (let k = kind_of q in
      if \<not> running s then answer cb (failure kNotRunning ''gateway peer transport is not running'') s
      else if \<not> connected s \<or> \<not> has_client s \<or> \<not> usable
      then s\<lparr>queued_forwards := (queued_forwards s)(k := queued_forwards s k @ [(q, cb)])\<rparr>
      else case serialize_request pr (peer_options s) q of
        Inl e \<Rightarrow> answer cb (failure kInvalidArgument e) s
      | Inr body \<Rightarrow>
          (case NextSequence s of (sq, s) \<Rightarrow>
             if sq = 0 then answer cb (failure kProtocolError ''unable to allocate gateway peer sequence'') s
             else case Encode (peer_codec s) \<lparr>pkt_type = request_type k, pkt_flags = 0, pkt_seq = sq, pkt_body = body\<rparr>
                    (Some (Buffer_new kInitialSize)) of
               Some (Inr output) \<Rightarrow>
                 let timer = next_timer s;
                     s = s\<lparr>armed := (armed s)(timer \<mapsto> (k, sq)), next_timer := timer + 1\<rparr>;
                     s = store_count (emplace k sq \<lparr>callback = cb, timeout_timer = timer\<rparr> s)
                 in s\<lparr>sent := sent s @ [readable output]\<rparr>
             | Some (Inl e) \<Rightarrow> answer cb (failure kEncodeError e) s
             | None \<Rightarrow> s))"

definition FlushQueuedForwards :: "PeerKind \<Rightarrow> 'r GatewayPeerTransport \<Rightarrow> 'r GatewayPeerTransport" where
  "FlushQueuedForwards k s =
     push [TFlush (queued_forwards s k)] (s\<lparr>queued_forwards := (queued_forwards s)(k := [])\<rparr>)"

section \<open>Responses and timeouts\<close>

definition erase :: "PeerKind \<Rightarrow> u32 \<Rightarrow> 'r GatewayPeerTransport \<Rightarrow> 'r GatewayPeerTransport" where
  "erase k sq s = s\<lparr>pending_requests := (pending_requests s)(k := filter (\<lambda>x. fst x \<noteq> sq) (pending_requests s k))\<rparr>"

definition HandleForwardResponse :: "'r PeerProtocol \<Rightarrow> PeerKind \<Rightarrow> Packet \<Rightarrow> 'r GatewayPeerTransport \<Rightarrow> 'r GatewayPeerTransport" where
  "HandleForwardResponse pr k p s =
     (case map_of (pending_requests s k) (pkt_seq p) of
        None \<Rightarrow> s
      | Some e \<Rightarrow>
          let s = store_count (erase k (pkt_seq p) s);
              s = s\<lparr>armed := (armed s)(timeout_timer e := None)\<rparr>
          in case deserialize_response pr k (pkt_body p) of
               Inl err \<Rightarrow> answer (callback e) (failure kProtocolError err) s
             | Inr r \<Rightarrow> answer (callback e) \<lparr>result_status = kOk, response = Some r, result_error = ''''\<rparr> s)"

fun timeout_message :: "PeerKind \<Rightarrow> string" where
  "timeout_message Chat = ''gateway peer request timeout''"
| "timeout_message Group = ''gateway peer group request timeout''"

definition HandleRequestTimeout :: "PeerKind \<Rightarrow> u32 \<Rightarrow> 'r GatewayPeerTransport \<Rightarrow> 'r GatewayPeerTransport" where
  "HandleRequestTimeout k sq s =
     (case map_of (pending_requests s k) sq of
        None \<Rightarrow> s
      | Some e \<Rightarrow> answer (callback e) (failure kRequestTimeout (timeout_message k)) (store_count (erase k sq s)))"

definition handle_packet :: "'r PeerProtocol \<Rightarrow> Packet \<Rightarrow> 'r GatewayPeerTransport \<Rightarrow> 'r GatewayPeerTransport" where
  "handle_packet pr p s =
     (if pkt_type p = kGatewayForwardChatResponse then HandleForwardResponse pr Chat p s
      else if pkt_type p = kGatewayForwardGroupMessageResponse then HandleForwardResponse pr Group p s
      else s)"

text \<open>The connection is closed by the caller's event after a bad frame.\<close>

definition PeerHandleMessage :: "Buffer option \<Rightarrow> 'r GatewayPeerTransport \<Rightarrow> 'r GatewayPeerTransport" where
  "PeerHandleMessage buffer s =
     (case buffer of
        None \<Rightarrow> s
      | Some b \<Rightarrow>
          (case Decode (peer_codec s) (Some b) of
             None \<Rightarrow> s
           | Some (r, _) \<Rightarrow>
               if status r = kNeedMoreData then s
               else if status r \<noteq> DecodeStatus.kOk
               then push [TFailAllPending Chat kProtocolError (error_message r), TFailAllPending Group kProtocolError (error_message r)] s
               else push [TPackets (packets r)] s))"

section \<open>Connection, start and stop\<close>

definition closed_message :: string where "closed_message = ''gateway peer connection closed''"
definition stopped_message :: string where "stopped_message = ''gateway peer transport stopped''"

definition fail_everything :: "GatewayPeerTransportStatus \<Rightarrow> string \<Rightarrow> Todo list" where
  "fail_everything st e = [TFailAllPending Chat st e, TFailAllPending Group st e, TFailQueuedForwards Chat st e, TFailQueuedForwards Group st e]"

definition HandleConnection :: "bool \<Rightarrow> 'r GatewayPeerTransport \<Rightarrow> 'r GatewayPeerTransport" where
  "HandleConnection conn s =
     (let s = s\<lparr>connected := conn\<rparr> in
      if \<not> conn then push (fail_everything kDisconnected closed_message) (s\<lparr>running := False\<rparr>)
      else push [TFlushQueuedForwards Chat, TFlushQueuedForwards Group] s)"

definition HandleConnectError :: "string \<Rightarrow> 'r GatewayPeerTransport \<Rightarrow> 'r GatewayPeerTransport" where
  "HandleConnectError strerror s =
     push [TFailQueuedForwards Chat kNotConnected (''gateway peer connect failed: '' @ strerror),
           TFailQueuedForwards Group kNotConnected (''gateway peer connect failed: '' @ strerror)]
       (s\<lparr>connected := False, running := False\<rparr>)"

text \<open>\<open>TcpClient::Connect\<close> refuses an invalid address only: the loop is valid, as \<open>Start\<close> has checked.\<close>

definition StartInLoop :: "'r GatewayPeerTransport \<Rightarrow> 'r GatewayPeerTransport" where
  "StartInLoop s =
     (if \<not> running s then s
      else
        let s = s\<lparr>has_client := True\<rparr>
        in if \<not> remote_address_valid (peer_options s) then s\<lparr>running := False\<rparr> else s)"

definition StopInLoop :: "'r GatewayPeerTransport \<Rightarrow> 'r GatewayPeerTransport" where
  "StopInLoop s = push (fail_everything kStopped stopped_message @ [TSetDisconnected]) s"

definition ValidateOptions :: "GatewayPeerTransportOptions \<Rightarrow> bool" where
  "ValidateOptions o' \<longleftrightarrow> local_gateway_id o' \<noteq> [] \<and> local_lease_token o' \<noteq> [] \<and> remote_gateway_id o' \<noteq> []
     \<and> remote_gateway_id o' \<noteq> local_gateway_id o' \<and> remote_host o' \<noteq> [] \<and> remote_port o' \<noteq> 0 \<and> remote_address_valid o'
     \<and> 0 < connect_timeout o' \<and> 0 < request_timeout o' \<and> peer_max_body_size o' \<noteq> 0"

text \<open>The public methods up to the hand-over to the loop; \<open>in_loop\<close>: the caller is on the loop thread.\<close>

definition hand_over :: "bool \<Rightarrow> PeerFunctor \<Rightarrow> 'r GatewayPeerTransport \<Rightarrow> 'r GatewayPeerTransport" where
  "hand_over in_loop f s = s\<lparr>transit := transit s @ [(in_loop, f)]\<rparr>"

definition PeerStart :: "bool \<Rightarrow> 'r GatewayPeerTransport \<Rightarrow> bool \<times> 'r GatewayPeerTransport" where
  "PeerStart in_loop s =
     (if \<not> ValidateOptions (peer_options s) then (False, s)
      else if running s then (True, s)
      else (True, hand_over in_loop FnStart (s\<lparr>running := True\<rparr>)))"

definition PeerStop :: "bool \<Rightarrow> 'r GatewayPeerTransport \<Rightarrow> 'r GatewayPeerTransport" where
  "PeerStop in_loop s = (if \<not> running s then s else hand_over in_loop FnStop (s\<lparr>running := False\<rparr>))"

fun request_valid :: "ForwardRequest \<Rightarrow> bool" where
  "request_valid (QueuedForwardChat message_id from_user_id to_user_id message_body) \<longleftrightarrow>
     \<not> (message_id = 0 \<or> from_user_id = 0 \<or> to_user_id = 0 \<or> from_user_id = to_user_id \<or> message_body = [])"
| "request_valid (QueuedForwardGroupMessage message_id recipient_user_id) \<longleftrightarrow> \<not> (message_id = 0 \<or> recipient_user_id = 0)"

text \<open>The callbacks are numbered in the order of acceptance.\<close>

definition Forward :: "bool \<Rightarrow> ForwardRequest \<Rightarrow> bool \<Rightarrow> 'r GatewayPeerTransport \<Rightarrow> bool \<times> 'r GatewayPeerTransport" where
  "Forward in_loop q has_callback s =
     (if \<not> request_valid q then (False, s)
      else if \<not> running s then (False, s)
      else if has_callback then (True, hand_over in_loop (FnForward q (Some (accepted s))) (s\<lparr>accepted := accepted s + 1\<rparr>))
      else (True, hand_over in_loop (FnForward q None) s))"

section \<open>Events\<close>

fun run_functor :: "'r PeerProtocol \<Rightarrow> bool \<Rightarrow> PeerFunctor \<Rightarrow> 'r GatewayPeerTransport \<Rightarrow> 'r GatewayPeerTransport" where
  "run_functor pr usable FnStart s = StartInLoop s"
| "run_functor pr usable FnStop s = StopInLoop s"
| "run_functor pr usable (FnForward q cb) s = ForwardInLoop pr usable q cb s"

fun run_todo :: "'r PeerProtocol \<Rightarrow> bool \<Rightarrow> Todo \<Rightarrow> 'r GatewayPeerTransport \<Rightarrow> 'r GatewayPeerTransport" where
  "run_todo pr usable (TFailAllPending Chat st e) s = FailAllPending st e s"
| "run_todo pr usable (TFailAllPending Group st e) s = FailAllPendingGroup st e s"
| "run_todo pr usable (TFailPending st e []) s = s"
| "run_todo pr usable (TFailPending st e (p # ps)) s = fail_pending_one st e p (push [TFailPending st e ps] s)"
| "run_todo pr usable (TFailQueuedForwards k st e) s = FailQueuedForwards k st e s"
| "run_todo pr usable (TFailQueued st e []) s = s"
| "run_todo pr usable (TFailQueued st e (x # xs)) s = answer (snd x) (failure st e) (push [TFailQueued st e xs] s)"
| "run_todo pr usable (TFlushQueuedForwards k) s = FlushQueuedForwards k s"
| "run_todo pr usable (TFlush []) s = s"
| "run_todo pr usable (TFlush (x # xs)) s = ForwardInLoop pr usable (fst x) (snd x) (push [TFlush xs] s)"
| "run_todo pr usable TSetDisconnected s = s\<lparr>connected := False\<rparr>"
| "run_todo pr usable (TPackets []) s = s"
| "run_todo pr usable (TPackets (p # ps)) s = handle_packet pr p (push [TPackets ps] s)"

datatype PeerEvent =
    EvStart bool
  | EvStop bool
  | EvForward bool ForwardRequest bool
  | EvPost nat bool
  | EvFunctor bool
  | EvTodo bool
  | EvConnection bool
  | EvConnectError string
  | EvMessage "Buffer option"
  | EvTimer nat

text \<open>A functor, a message and a timer reach the class from the loop itself, when no method of it is being executed; the
  state of the connection may also change inside one (\<open>Send\<close> and \<open>ForceClose\<close>).\<close>

fun peer_step :: "'r PeerProtocol \<Rightarrow> 'r GatewayPeerTransport \<Rightarrow> PeerEvent \<Rightarrow> 'r GatewayPeerTransport" where
  "peer_step pr s (EvStart in_loop) = snd (PeerStart in_loop s)"
| "peer_step pr s (EvStop in_loop) = PeerStop in_loop s"
| "peer_step pr s (EvForward in_loop q has_callback) = snd (Forward in_loop q has_callback s)"
| "peer_step pr s (EvPost i usable) =
     (if i < length (transit s) then
        let (in_loop, f) = transit s ! i; s = s\<lparr>transit := take i (transit s) @ drop (Suc i) (transit s)\<rparr>
        in if in_loop then run_functor pr usable f s else s\<lparr>functors := functors s @ [f]\<rparr>
      else s)"
| "peer_step pr s (EvFunctor usable) =
     (case (stack s, functors s) of ([], f # fs) \<Rightarrow> run_functor pr usable f (s\<lparr>functors := fs\<rparr>) | _ \<Rightarrow> s)"
| "peer_step pr s (EvTodo usable) = (case stack s of [] \<Rightarrow> s | t # ts \<Rightarrow> run_todo pr usable t (s\<lparr>stack := ts\<rparr>))"
| "peer_step pr s (EvConnection conn) = HandleConnection conn s"
| "peer_step pr s (EvConnectError e) = HandleConnectError e s"
| "peer_step pr s (EvMessage buffer) = (if stack s = [] then PeerHandleMessage buffer s else s)"
| "peer_step pr s (EvTimer t) =
     (case (stack s, armed s t) of
        ([], Some (k, sq)) \<Rightarrow> HandleRequestTimeout k sq (s\<lparr>armed := (armed s)(t := None)\<rparr>)
      | _ \<Rightarrow> s)"

section \<open>Where the callbacks are\<close>

definition cbs :: "nat option \<Rightarrow> nat multiset" where
  "cbs cb = (case cb of None \<Rightarrow> {#} | Some c \<Rightarrow> {#c#})"

fun functor_cbs :: "PeerFunctor \<Rightarrow> nat multiset" where
  "functor_cbs (FnForward q cb) = cbs cb"
| "functor_cbs FnStart = {#}"
| "functor_cbs FnStop = {#}"

abbreviation request_cbs :: "(ForwardRequest \<times> nat option) list \<Rightarrow> nat multiset" where
  "request_cbs xs \<equiv> (\<Sum>x\<leftarrow>xs. cbs (snd x))"

fun todo_cbs :: "Todo \<Rightarrow> nat multiset" where
  "todo_cbs (TFailPending st e ps) = (\<Sum>p\<leftarrow>ps. cbs (callback p))"
| "todo_cbs (TFailQueued st e xs) = request_cbs xs"
| "todo_cbs (TFlush xs) = request_cbs xs"
| "todo_cbs _ = {#}"

abbreviation table_cbs :: "(u32 \<times> PendingRequest) list \<Rightarrow> nat multiset" where
  "table_cbs t \<equiv> (\<Sum>x\<leftarrow>t. cbs (callback (snd x)))"

text \<open>The callbacks that have been accepted and not answered, and all of them with the answered ones.\<close>

definition held :: "'r GatewayPeerTransport \<Rightarrow> nat multiset" where
  "held s = (\<Sum>x\<leftarrow>transit s. functor_cbs (snd x)) + (\<Sum>f\<leftarrow>functors s. functor_cbs f) + (\<Sum>t\<leftarrow>stack s. todo_cbs t)
     + request_cbs (queued_forwards s Chat) + request_cbs (queued_forwards s Group)
     + table_cbs (pending_requests s Chat) + table_cbs (pending_requests s Group)"

definition tracked :: "'r GatewayPeerTransport \<Rightarrow> nat multiset" where
  "tracked s = held s + mset (map fst (answers s))"

lemma cbs_simps [simp]: "cbs None = {#}" "cbs (Some c) = {#c#}"
  by (simp_all add: cbs_def)

lemma tracked_fields [simp]:
  "tracked (s\<lparr>running := a\<rparr>) = tracked s" "tracked (s\<lparr>connected := a\<rparr>) = tracked s" "tracked (s\<lparr>has_client := a\<rparr>) = tracked s"
  "tracked (s\<lparr>pending_count := n\<rparr>) = tracked s" "tracked (s\<lparr>next_sequence := m\<rparr>) = tracked s" "tracked (s\<lparr>armed := ar\<rparr>) = tracked s"
  "tracked (s\<lparr>next_timer := n\<rparr>) = tracked s" "tracked (s\<lparr>sent := l\<rparr>) = tracked s" "tracked (s\<lparr>accepted := n\<rparr>) = tracked s"
  by (simp_all add: tracked_def held_def)

lemma accepted_simps [simp]:
  "accepted (answer cb r s) = accepted s" "accepted (push ts s) = accepted s" "accepted (store_count s) = accepted s"
  "accepted (emplace k sq p s) = accepted s" "accepted (erase k sq s) = accepted s"
  by (simp_all add: answer_def push_def store_count_def emplace_def erase_def split: option.splits)

lemma tracked_answer [simp]: "tracked (answer cb r s) = tracked s + cbs cb"
  by (cases cb) (simp_all add: answer_def tracked_def held_def)

lemma tracked_push [simp]: "tracked (push ts s) = tracked s + (\<Sum>t\<leftarrow>ts. todo_cbs t)"
  by (simp add: push_def tracked_def held_def)

lemma tracked_store_count [simp]: "tracked (store_count s) = tracked s"
  by (simp add: store_count_def)

lemma tracked_stack: "tracked (s\<lparr>stack := ts\<rparr>) + (\<Sum>t\<leftarrow>stack s. todo_cbs t) = tracked s + (\<Sum>t\<leftarrow>ts. todo_cbs t)"
  by (simp add: tracked_def held_def)

lemma tracked_table:
  "tracked (s\<lparr>pending_requests := (pending_requests s)(k := t)\<rparr>) + table_cbs (pending_requests s k) = tracked s + table_cbs t"
  by (cases k) (simp_all add: tracked_def held_def)

lemma tracked_queue:
  "tracked (s\<lparr>queued_forwards := (queued_forwards s)(k := t)\<rparr>) + request_cbs (queued_forwards s k) = tracked s + request_cbs t"
  by (cases k) (simp_all add: tracked_def held_def)

lemma table_cbs_erase:
  "\<lbrakk>distinct (map fst t); map_of t sq = Some e\<rbrakk> \<Longrightarrow> table_cbs t = table_cbs (filter (\<lambda>x. fst x \<noteq> sq) t) + cbs (callback e)"
proof (induction t)
  case (Cons x t)
  show ?case
  proof (cases "fst x = sq")
    case True
    with Cons.prems have "sq \<notin> fst ` set t" by auto
    then have "filter (\<lambda>x. fst x \<noteq> sq) t = t" by (auto simp: filter_id_conv image_iff)
    with True Cons.prems show ?thesis by (cases x) simp
  next
    case False
    with Cons show ?thesis by (cases x) simp
  qed
qed simp

lemma tracked_erase:
  assumes "distinct (map fst (pending_requests s k))" "map_of (pending_requests s k) sq = Some e"
  shows "tracked (erase k sq s) + cbs (callback e) = tracked s"
  using tracked_table [of s k "filter (\<lambda>x. fst x \<noteq> sq) (pending_requests s k)"] table_cbs_erase [OF assms]
  by (simp add: erase_def)

lemma tracked_emplace: "map_of (pending_requests s k) sq = None \<Longrightarrow> tracked (emplace k sq p s) = tracked s + cbs (callback p)"
  using tracked_table [of s k "pending_requests s k @ [(sq, p)]"] by (simp add: emplace_def)

section \<open>Sequence numbers\<close>

lemma next_sequence_loop_free:
  "next_sequence_loop a used n = (c, n') \<Longrightarrow> c = 0 \<or> \<not> used c"
  by (induction a arbitrary: n) (auto simp: Let_def split: if_splits)

lemma NextSequence_free:
  assumes "NextSequence s = (c, s')" "c \<noteq> 0"
  shows "map_of (pending_requests s k) c = None"
  using assms next_sequence_loop_free [of kMaxAttempts "in_use s" "next_sequence s" c]
  by (cases k) (auto simp: NextSequence_def in_use_def split: prod.splits)

lemma next_sequence_loop_nonzero: "n \<noteq> 0 \<Longrightarrow> snd (next_sequence_loop a used n) \<noteq> 0"
  by (induction a arbitrary: n) (auto simp: Let_def)

lemma NextSequence_same:
  assumes "NextSequence s = (c, s')"
  obtains n where "s' = s\<lparr>next_sequence := n\<rparr>" "next_sequence s \<noteq> 0 \<longrightarrow> n \<noteq> 0"
  using assms next_sequence_loop_nonzero [of "next_sequence s" kMaxAttempts "in_use s"]
  by (auto simp: NextSequence_def split: prod.splits)

text \<open>The search visits every number but 0 once.\<close>

definition next_number :: "u32 \<Rightarrow> u32" where
  "next_number n = (if n + 1 = 0 then 1 else n + 1)"

lemma unat_minus_1: "unat (- 1 :: u32) = 2 ^ 32 - 1"
  by (simp add: unsigned_minus_1_eq_mask mask_eq_exp_minus_1)

lemma unat_next_number: "n \<noteq> 0 \<Longrightarrow> unat (next_number n) = (if unat n = 2 ^ 32 - 1 then 1 else unat n + 1)"
proof (cases "n + 1 = 0")
  case True
  then have "n = - 1" by (simp add: eq_neg_iff_add_eq_0)
  then show ?thesis by (simp add: next_number_def unat_minus_1)
next
  case False
  then have "unat (n + 1) = unat n + 1" using unatSuc [of n] by (simp add: add.commute)
  moreover have "unat n \<noteq> 2 ^ 32 - 1"
  proof
    assume "unat n = 2 ^ 32 - 1"
    then have "unat n = unat (- 1 :: u32)" by (simp add: unat_minus_1)
    then have "n = - 1" by (simp only: word_unat_eq_iff)
    with False show False by simp
  qed
  ultimately show ?thesis using False by (simp add: next_number_def)
qed

lemma unat_next_number_iter: "n \<noteq> 0 \<Longrightarrow> unat ((next_number ^^ i) n) = (unat n - 1 + i) mod (2 ^ 32 - 1) + 1"
proof (induction i)
  case 0
  have "unat n < 2 ^ 32" using unsigned_less [of n, where ?'a = nat] by simp
  moreover have "0 < unat n" using 0 by (simp add: unat_gt_0)
  ultimately show ?case by simp
next
  case (Suc i)
  let ?m = "(unat n - 1 + i) mod (2 ^ 32 - 1)"
  have IH: "unat ((next_number ^^ i) n) = ?m + 1" using Suc by simp
  then have "(next_number ^^ i) n \<noteq> 0" by (metis Suc_eq_plus1 nat.distinct(1) unat_0)
  then have "unat ((next_number ^^ Suc i) n) = (if ?m + 1 = 2 ^ 32 - 1 then 1 else ?m + 2)"
    using unat_next_number IH by simp
  moreover have "(unat n - 1 + Suc i) mod (2 ^ 32 - 1) = (if Suc ?m = 2 ^ 32 - 1 then 0 else Suc ?m)"
    using mod_Suc [of "unat n - 1 + i" "2 ^ 32 - 1"] by simp
  ultimately show ?case by simp
qed

lemma next_sequence_loop_exhausted:
  "\<lbrakk>n \<noteq> 0; fst (next_sequence_loop a used n) = 0; i < a\<rbrakk> \<Longrightarrow> used ((next_number ^^ i) n)"
proof (induction a arbitrary: n i)
  case (Suc a)
  have "next_number n \<noteq> 0" by (simp add: next_number_def)
  moreover have "used n" "fst (next_sequence_loop a used (next_number n)) = 0"
    using Suc.prems by (auto simp: Let_def next_number_def split: if_splits)
  ultimately show ?case using Suc.IH [of "next_number n" "i - 1"] Suc.prems(3) by (cases i) (simp_all add: funpow_swap1)
qed simp

lemma NextSequence_succeeds:
  assumes "next_sequence s \<noteq> 0" "length (pending_requests s Chat) + length (pending_requests s Group) < kMaxAttempts"
  shows "fst (NextSequence s) \<noteq> 0"
proof
  let ?f = "\<lambda>i. (next_number ^^ i) (next_sequence s)" and ?N = "2 ^ 32 - 1 :: nat"
  let ?used = "fst ` set (pending_requests s Chat) \<union> fst ` set (pending_requests s Group)"
  assume "fst (NextSequence s) = 0"
  then have "fst (next_sequence_loop kMaxAttempts (in_use s) (next_sequence s)) = 0"
    by (simp add: NextSequence_def split: prod.splits)
  then have "in_use s (?f i)" if "i < ?N" for i
    using that next_sequence_loop_exhausted [OF assms(1)] unfolding kMaxAttempts_def by blast
  then have sub: "?f ` {..<?N} \<subseteq> ?used" by (auto simp: in_use_def map_of_eq_None_iff)
  have "inj_on ?f {..<?N}"
  proof (rule inj_onI)
    fix i j
    assume ij: "i \<in> {..<?N}" "j \<in> {..<?N}" and "?f i = ?f j"
    then have "(unat (next_sequence s) - 1 + i) mod ?N = (unat (next_sequence s) - 1 + j) mod ?N"
      using unat_next_number_iter [OF assms(1)] by (metis add_right_cancel)
    then obtain q1 q2 where "unat (next_sequence s) - 1 + i + ?N * q1 = unat (next_sequence s) - 1 + j + ?N * q2"
      unfolding nat_mod_eq_iff by blast
    then have "i + ?N * q1 = j + ?N * q2" by (simp only: add.assoc add_left_cancel)
    then have "i mod ?N = j mod ?N" unfolding nat_mod_eq_iff by blast
    with ij show "i = j" by simp
  qed
  then have "?N = card (?f ` {..<?N})" by (simp add: card_image)
  also have "\<dots> \<le> card ?used" by (rule card_mono [OF _ sub]) simp
  also have "\<dots> \<le> card (fst ` set (pending_requests s Chat)) + card (fst ` set (pending_requests s Group))" by (rule card_Un_le)
  also have "\<dots> \<le> length (pending_requests s Chat) + length (pending_requests s Group)"
    by (metis add_mono card_length length_map list.set_map)
  finally show False using assms(2) by (simp add: kMaxAttempts_def)
qed

lemma Encode_some: "Encode c p (Some (Buffer_new n)) \<noteq> None"
proof (cases "ValidatePacketForEncode c p")
  case None
  then show ?thesis using Encode_spec [of "Buffer_new n" c p] by auto
next
  case (Some e)
  then show ?thesis by (simp add: Encode_def)
qed

section \<open>Every operation keeps the callbacks together\<close>

text \<open>What \<open>ForwardInLoop\<close> can do: answer with a failure, queue, or send.\<close>

lemma ForwardInLoop_cases:
  obtains (fails) s' r where "ForwardInLoop pr usable q cb s = answer cb r s'" "\<exists>n. s' = s\<lparr>next_sequence := n\<rparr> \<and> (next_sequence s \<noteq> 0 \<longrightarrow> n \<noteq> 0)"
  | (queues) "running s" "ForwardInLoop pr usable q cb s =
      s\<lparr>queued_forwards := (queued_forwards s)(kind_of q := queued_forwards s (kind_of q) @ [(q, cb)])\<rparr>"
  | (sends) sq n out where "running s" "next_sequence s \<noteq> 0 \<longrightarrow> n \<noteq> 0" "map_of (pending_requests s (kind_of q)) sq = None"
      "ForwardInLoop pr usable q cb s = store_count (emplace (kind_of q) sq \<lparr>callback = cb, timeout_timer = next_timer s\<rparr>
        (s\<lparr>next_sequence := n, armed := (armed s)(next_timer s \<mapsto> (kind_of q, sq)), next_timer := next_timer s + 1, sent := sent s @ [out]\<rparr>))"
proof -
  let ?thesis' = thesis
  show ?thesis'
  proof (cases "running s \<and> connected s \<and> has_client s \<and> usable")
    case no: False
    show ?thesis'
    proof (cases "running s")
      case True
      with no show ?thesis' by (intro queues) (auto simp: ForwardInLoop_def Let_def)
    next
      case False
      show ?thesis' by (rule fails [of "failure kNotRunning ''gateway peer transport is not running''" s]) (simp_all add: ForwardInLoop_def False, rule exI [of _ "next_sequence s"], simp)
    qed
  next
    case yes: True
    show ?thesis'
    proof (cases "serialize_request pr (peer_options s) q")
      case (Inl e)
      show ?thesis' by (rule fails [of "failure kInvalidArgument e" s]) (use yes Inl in \<open>simp add: ForwardInLoop_def\<close>, rule exI [of _ "next_sequence s"], simp)
    next
      case (Inr body)
      obtain sq s1 where ns: "NextSequence s = (sq, s1)" by (cases "NextSequence s")
      then obtain n where s1: "s1 = s\<lparr>next_sequence := n\<rparr>" "next_sequence s \<noteq> 0 \<longrightarrow> n \<noteq> 0" by (rule NextSequence_same)
      let ?p = "\<lparr>pkt_type = request_type (kind_of q), pkt_flags = 0, pkt_seq = sq, pkt_body = body\<rparr>"
      show ?thesis'
      proof (cases "sq = 0")
        case True
        show ?thesis'
          by (rule fails [of "failure kProtocolError ''unable to allocate gateway peer sequence''" s1])
            (use yes Inr ns True s1 in \<open>simp_all add: ForwardInLoop_def\<close>, blast)
      next
        case False
        have free: "map_of (pending_requests s (kind_of q)) sq = None" by (rule NextSequence_free [OF ns False])
        show ?thesis'
        proof (cases "Encode (peer_codec s1) ?p (Some (Buffer_new kInitialSize))")
          case None
          then show ?thesis' using Encode_some by blast
        next
          case (Some r)
          show ?thesis'
          proof (cases r)
            case (Inl e)
            show ?thesis'
              by (rule fails [of "failure kEncodeError e" s1]) (use yes Inr ns False s1 Some Inl in \<open>simp_all add: ForwardInLoop_def\<close>, blast)
          next
            case out: (Inr b)
            show ?thesis'
              by (rule sends [where sq = sq and n = n and out = "readable b"])
                (use yes Inr ns False s1 Some out free in \<open>simp_all add: ForwardInLoop_def store_count_def emplace_def Let_def\<close>)
          qed
        qed
      qed
    qed
  qed
qed

lemma tracked_ForwardInLoop: "tracked (ForwardInLoop pr usable q cb s) = tracked s + cbs cb"
proof (cases rule: ForwardInLoop_cases [of pr usable q cb s])
  case (fails s' r)
  then show ?thesis by auto
next
  case queues
  then show ?thesis using tracked_queue [of s "kind_of q" "queued_forwards s (kind_of q) @ [(q, cb)]"] by simp
next
  case (sends sq n out)
  then show ?thesis by (simp add: tracked_emplace)
qed

lemma tracked_HandleForwardResponse:
  assumes "distinct (map fst (pending_requests s k))"
  shows "tracked (HandleForwardResponse pr k p s) = tracked s"
proof (cases "map_of (pending_requests s k) (pkt_seq p)")
  case (Some e)
  with tracked_erase [OF assms Some] show ?thesis
    by (cases "deserialize_response pr k (pkt_body p)") (simp_all add: HandleForwardResponse_def Let_def)
qed (simp add: HandleForwardResponse_def)

lemma tracked_HandleRequestTimeout:
  assumes "distinct (map fst (pending_requests s k))"
  shows "tracked (HandleRequestTimeout k sq s) = tracked s"
proof (cases "map_of (pending_requests s k) sq")
  case (Some e)
  with tracked_erase [OF assms Some] show ?thesis by (simp add: HandleRequestTimeout_def)
qed (simp add: HandleRequestTimeout_def)

lemma tracked_run_functor: "tracked (run_functor pr usable f s) = tracked s + functor_cbs f"
  by (cases f) (simp_all add: StartInLoop_def StopInLoop_def fail_everything_def tracked_ForwardInLoop Let_def)

lemma tracked_clear_table [simp]:
  "tracked (s\<lparr>pending_requests := (pending_requests s)(k := [])\<rparr>) + table_cbs (pending_requests s k) = tracked s"
  using tracked_table [of s k "[]"] by simp

lemma tracked_clear_queue [simp]:
  "tracked (s\<lparr>queued_forwards := (queued_forwards s)(k := [])\<rparr>) + request_cbs (queued_forwards s k) = tracked s"
  using tracked_queue [of s k "[]"] by simp

lemma tracked_run_todo:
  assumes "\<And>k. distinct (map fst (pending_requests s k))"
  shows "tracked (run_todo pr usable t s) = tracked s + todo_cbs t"
proof (cases t)
  case (TFailAllPending k st e)
  then show ?thesis
    by (cases k) (simp_all add: FailAllPending_def FailAllPendingGroup_def comp_def)
next
  case (TFailPending st e ps)
  then show ?thesis by (cases ps) (simp_all add: fail_pending_one_def)
next
  case (TFailQueued st e xs)
  then show ?thesis by (cases xs) simp_all
next
  case (TFlush xs)
  then show ?thesis by (cases xs) (simp_all add: tracked_ForwardInLoop)
next
  case (TPackets ps)
  have "pending_requests (push ts s) = pending_requests s" for ts by (simp add: push_def)
  with TPackets assms show ?thesis by (cases ps) (simp_all add: handle_packet_def tracked_HandleForwardResponse)
qed (simp_all add: FailQueuedForwards_def FlushQueuedForwards_def)

section \<open>Timers, queues, counts\<close>

fun todo_timers :: "Todo \<Rightarrow> nat list" where
  "todo_timers (TFailPending st e ps) = map timeout_timer ps"
| "todo_timers _ = []"

definition stack_timers :: "Todo list \<Rightarrow> nat set" where
  "stack_timers st = (\<Union>t\<in>set st. set (todo_timers t))"

definition table_timers :: "(PeerKind \<Rightarrow> (u32 \<times> PendingRequest) list) \<Rightarrow> nat set" where
  "table_timers p = (\<Union>k. \<Union>x\<in>set (p k). {timeout_timer (snd x)})"

text \<open>A pending request has its timer armed. Timers of requests that are being failed are no one else's.\<close>

definition timers_inv :: "(PeerKind \<Rightarrow> (u32 \<times> PendingRequest) list) \<Rightarrow> (nat \<rightharpoonup> PeerKind \<times> u32) \<Rightarrow> Todo list \<Rightarrow> nat \<Rightarrow> bool" where
  "timers_inv p ar st n \<longleftrightarrow> (\<forall>k. distinct (map fst (p k)))
     \<and> (\<forall>k. \<forall>x\<in>set (p k). ar (timeout_timer (snd x)) = Some (k, fst x))
     \<and> stack_timers st \<subseteq> {..<n} \<and> stack_timers st \<inter> table_timers p = {} \<and> dom ar \<subseteq> {..<n}"

text \<open>Queued requests wait for a connection, or a stop is on its way, or they are about to be failed.\<close>

definition waits_inv :: "bool \<Rightarrow> PeerFunctor set \<Rightarrow> Todo list \<Rightarrow> (PeerKind \<Rightarrow> (ForwardRequest \<times> nat option) list) \<Rightarrow> bool" where
  "waits_inv r fs st qs \<longleftrightarrow> (\<forall>k. qs k \<noteq> [] \<longrightarrow> r \<or> FnStop \<in> fs \<or> (\<exists>a e. TFailQueuedForwards k a e \<in> set st))"

definition fails_group :: "Todo list \<Rightarrow> bool" where
  "fails_group st \<longleftrightarrow> (\<exists>a e. TFailAllPending Group a e \<in> set st)"

text \<open>\<open>FailAllPending\<close> never comes without \<open>FailAllPendingGroup\<close> after it.\<close>

fun paired :: "Todo list \<Rightarrow> bool" where
  "paired [] \<longleftrightarrow> True"
| "paired (TFailAllPending Chat a e # st) \<longleftrightarrow> fails_group st \<and> paired st"
| "paired (t # st) \<longleftrightarrow> paired st"

definition count_inv :: "nat \<Rightarrow> (PeerKind \<Rightarrow> (u32 \<times> PendingRequest) list) \<Rightarrow> Todo list \<Rightarrow> bool" where
  "count_inv c p st \<longleftrightarrow> paired st \<and> (fails_group st \<or> c = length (p Chat) + length (p Group))"

abbreviation floating :: "'r GatewayPeerTransport \<Rightarrow> PeerFunctor set" where
  "floating s \<equiv> snd ` set (transit s) \<union> set (functors s)"

text \<open>The invariant apart from the callbacks, with functors \<open>fs\<close> that have been taken from where they wait.\<close>

definition shape_ok :: "PeerFunctor set \<Rightarrow> 'r GatewayPeerTransport \<Rightarrow> bool" where
  "shape_ok fs s \<longleftrightarrow> timers_inv (pending_requests s) (armed s) (stack s) (next_timer s)
     \<and> waits_inv (running s) (fs \<union> floating s) (stack s) (queued_forwards s)
     \<and> count_inv (pending_count s) (pending_requests s) (stack s)
     \<and> (FnStart \<in> fs \<union> floating s \<longrightarrow> remote_address_valid (peer_options s))"

definition peer_ok :: "'r GatewayPeerTransport \<Rightarrow> bool" where
  "peer_ok s \<longleftrightarrow> tracked s = mset_set {..<accepted s} \<and> shape_ok {} s \<and> next_sequence s \<noteq> 0"

subsection \<open>Timers\<close>

lemma stack_timers_simps [simp]:
  "stack_timers [] = {}" "stack_timers (t # st) = set (todo_timers t) \<union> stack_timers st"
  "stack_timers (as @ bs) = stack_timers as \<union> stack_timers bs"
  by (auto simp: stack_timers_def)

lemma table_timersI: "y \<in> set (p k) \<Longrightarrow> timeout_timer (snd y) \<in> table_timers p"
  by (auto simp: table_timers_def)

lemma table_timersE:
  assumes "x \<in> table_timers p"
  obtains k y where "y \<in> set (p k)" "x = timeout_timer (snd y)"
  using assms by (auto simp: table_timers_def)

lemma table_timers_upd:
  assumes "\<And>y. y \<in> set t \<Longrightarrow> y \<in> set (p k) \<or> timeout_timer (snd y) \<in> A"
  shows "table_timers (p(k := t)) \<subseteq> table_timers p \<union> A"
proof
  fix x
  assume "x \<in> table_timers (p(k := t))"
  then obtain k' y where y: "y \<in> set ((p(k := t)) k')" "x = timeout_timer (snd y)" by (rule table_timersE)
  show "x \<in> table_timers p \<union> A"
  proof (cases "k' = k")
    case True
    with y assms [of y] show ?thesis by (auto intro: table_timersI [of y p k])
  next
    case False
    with y show ?thesis by (auto intro: table_timersI [of y p k'])
  qed
qed

lemma armed_table: "\<lbrakk>timers_inv p ar st n; map_of (p k) sq = Some e\<rbrakk> \<Longrightarrow> ar (timeout_timer e) = Some (k, sq)"
  unfolding timers_inv_def by (metis fst_conv map_of_SomeD snd_conv)

lemma timers_inv_less: "\<lbrakk>timers_inv p ar st n; stack_timers st' \<subseteq> stack_timers st\<rbrakk> \<Longrightarrow> timers_inv p ar st' n"
  unfolding timers_inv_def by blast

lemma timers_inv_filter:
  assumes "timers_inv p ar st n"
  shows "timers_inv (p(k := filter P (p k))) ar st n"
  using assms table_timers_upd [of "filter P (p k)" p k "{}"] unfolding timers_inv_def
  by (auto simp: distinct_map_filter)

lemma timers_inv_cancel:
  assumes "timers_inv p ar st n" "x \<notin> table_timers p"
  shows "timers_inv p (ar(x := None)) st n"
  using assms unfolding timers_inv_def table_timers_def by auto

lemma timers_inv_send:
  assumes inv: "timers_inv p ar st n" and free: "map_of (p k) sq = None"
  shows "timers_inv (p(k := p k @ [(sq, \<lparr>callback = cb, timeout_timer = n\<rparr>)])) (ar(n \<mapsto> (k, sq))) st (n + 1)"
proof -
  have old: "timeout_timer (snd x) \<noteq> n" if "x \<in> set (p k')" for x k'
    using inv that unfolding timers_inv_def by force
  have "table_timers (p(k := p k @ [(sq, \<lparr>callback = cb, timeout_timer = n\<rparr>)])) \<subseteq> insert n (table_timers p)"
    by (rule order_trans [OF table_timers_upd [where A = "{n}"]]) auto
  moreover have "n \<notin> stack_timers st" using inv unfolding timers_inv_def by blast
  ultimately show ?thesis using inv free old unfolding timers_inv_def
    by (auto simp: map_of_eq_None_iff)
qed

lemma timers_inv_move:
  assumes inv: "timers_inv p ar st n"
  shows "timers_inv (p(k := [])) ar (TFailPending a e (map snd (p k)) # st) n"
proof -
  have "timeout_timer (snd x) \<noteq> timeout_timer (snd y)" if "x \<in> set (p k)" "y \<in> set (p k')" "k' \<noteq> k" for x y k'
    using inv that unfolding timers_inv_def by (metis option.inject prod.inject)
  then have "timeout_timer (snd x) \<notin> table_timers (p(k := []))" if "x \<in> set (p k)" for x
    using that by (auto simp: table_timers_def split: if_splits)
  moreover have "timeout_timer (snd x) < n" if "x \<in> set (p k)" for x
    using inv that unfolding timers_inv_def by blast
  ultimately show ?thesis
    using inv table_timers_upd [of "[]" p k "{}"] unfolding timers_inv_def by auto
qed

text \<open>A request is removed by its sequence number and its timer is cancelled, or the timer itself runs.\<close>

lemma timers_inv_erase:
  assumes inv: "timers_inv p ar st n" and x: "ar x = Some (k, sq)"
  shows "timers_inv (p(k := filter (\<lambda>y. fst y \<noteq> sq) (p k))) (ar(x := None)) st n"
proof (rule timers_inv_cancel [OF timers_inv_filter [OF inv]])
  have "timeout_timer (snd y) \<noteq> x" if "y \<in> set ((p(k := filter (\<lambda>y. fst y \<noteq> sq) (p k))) k')" for y k'
  proof -
    have "ar (timeout_timer (snd y)) = Some (k', fst y)" "(k', fst y) \<noteq> (k, sq)"
      using inv that by (auto simp: timers_inv_def split: if_splits)
    with x show ?thesis by auto
  qed
  then show "x \<notin> table_timers (p(k := filter (\<lambda>y. fst y \<noteq> sq) (p k)))" unfolding table_timers_def by blast
qed

subsection \<open>Queues and counts\<close>

lemma fails_group_simps [simp]:
  "fails_group (as @ bs) \<longleftrightarrow> fails_group as \<or> fails_group bs" "\<not> fails_group []"
  "fails_group (TFailAllPending Group a e # st)" "fails_group (TFailAllPending Chat a e # st) = fails_group st"
  "fails_group (TFailPending a e ps # st) = fails_group st" "fails_group (TFailQueuedForwards k a e # st) = fails_group st"
  "fails_group (TFailQueued a e xs # st) = fails_group st" "fails_group (TFlushQueuedForwards k # st) = fails_group st"
  "fails_group (TFlush xs # st) = fails_group st" "fails_group (TSetDisconnected # st) = fails_group st"
  "fails_group (TPackets pk # st) = fails_group st"
  for pk xs as bs
  by (auto simp: fails_group_def)

lemma waits_inv_mono:
  "\<lbrakk>waits_inv r fs st qs; r \<Longrightarrow> r'; FnStop \<in> fs \<Longrightarrow> FnStop \<in> fs'; set st \<subseteq> set st'\<rbrakk> \<Longrightarrow> waits_inv r' fs' st' qs"
  unfolding waits_inv_def by (meson subsetD)

lemma waits_inv_push: "waits_inv r fs st qs \<Longrightarrow> waits_inv r fs (ts @ st) qs"
  by (erule waits_inv_mono) auto

lemma waits_inv_pop:
  "\<lbrakk>waits_inv r fs (t # st) qs; \<forall>k a e. t = TFailQueuedForwards k a e \<longrightarrow> qs k = []\<rbrakk> \<Longrightarrow> waits_inv r fs st qs"
  by (auto simp: waits_inv_def)

subsection \<open>Steps\<close>

lemma op_fields [simp]:
  "pending_requests (answer cb r s) = pending_requests s" "armed (answer cb r s) = armed s" "stack (answer cb r s) = stack s"
  "next_timer (answer cb r s) = next_timer s" "running (answer cb r s) = running s" "transit (answer cb r s) = transit s"
  "functors (answer cb r s) = functors s" "queued_forwards (answer cb r s) = queued_forwards s"
  "pending_count (answer cb r s) = pending_count s" "peer_options (answer cb r s) = peer_options s"
  "pending_requests (push ts s) = pending_requests s" "armed (push ts s) = armed s" "stack (push ts s) = ts @ stack s"
  "next_timer (push ts s) = next_timer s" "running (push ts s) = running s" "transit (push ts s) = transit s"
  "functors (push ts s) = functors s" "queued_forwards (push ts s) = queued_forwards s"
  "pending_count (push ts s) = pending_count s" "peer_options (push ts s) = peer_options s"
  by (simp_all add: answer_def push_def split: option.splits)

lemma shape_answer [simp]: "shape_ok fs (answer cb r s) = shape_ok fs s"
  by (simp add: shape_ok_def)

lemma shape_next_sequence [simp]: "shape_ok fs (s\<lparr>next_sequence := n\<rparr>) = shape_ok fs s"
  by (simp add: shape_ok_def)

lemma shape_ForwardInLoop:
  assumes ok: "shape_ok fs s" and fs: "FnStop \<notin> fs"
  shows "shape_ok {} (ForwardInLoop pr usable q cb s)"
proof -
  have ok0: "shape_ok {} s" using ok fs by (auto simp: shape_ok_def waits_inv_def)
  show ?thesis
  proof (cases rule: ForwardInLoop_cases [of pr usable q cb s])
    case (fails s' r)
    with ok0 show ?thesis by auto
  next
    case queues
    with ok0 show ?thesis by (simp add: shape_ok_def waits_inv_def)
  next
    case (sends sq n out)
    with ok0 timers_inv_send [of "pending_requests s" "armed s" "stack s" "next_timer s" "kind_of q" sq cb] show ?thesis
      by (simp add: shape_ok_def store_count_def emplace_def waits_inv_def count_inv_def)
  qed
qed

text \<open>Statements pushed by the handlers.\<close>

lemma shape_push_fail:
  assumes "shape_ok fs s" "ts = fail_everything a e @ rest" "rest = [] \<or> rest = [TSetDisconnected]"
  shows "shape_ok {} (push ts (s\<lparr>connected := c, running := r\<rparr>))"
proof -
  have k: "\<exists>a e. TFailQueuedForwards k a e \<in> set ts" for k
    using assms(2) by (cases k) (auto simp: fail_everything_def)
  have "stack_timers (ts @ stack s) \<subseteq> stack_timers (stack s)" "paired (stack s) \<Longrightarrow> paired (ts @ stack s)" "fails_group (ts @ stack s)"
    using assms(2,3) by (auto simp: fail_everything_def)
  moreover have "waits_inv r gs (ts @ stack s) qs" for gs qs
    using k unfolding waits_inv_def set_append by blast
  ultimately show ?thesis
    using assms(1) timers_inv_less [of "pending_requests s" "armed s" "stack s" "next_timer s" "ts @ stack s"]
    by (auto simp: shape_ok_def count_inv_def)
qed

lemma shape_run_functor:
  assumes "shape_ok {f} s"
  shows "shape_ok {} (run_functor pr usable f s)"
proof (cases f)
  case FnStart
  then have "remote_address_valid (peer_options s)" using assms by (simp add: shape_ok_def)
  moreover have "shape_ok {} s" using assms FnStart by (auto simp: shape_ok_def waits_inv_def)
  ultimately show ?thesis using FnStart by (cases "running s") (simp_all add: StartInLoop_def shape_ok_def)
next
  case FnStop
  have "s\<lparr>connected := connected s, running := running s\<rparr> = s" by simp
  with FnStop shape_push_fail [OF assms, where r = "running s" and c = "connected s" and rest = "[TSetDisconnected]", OF refl] show ?thesis
    by (simp add: StopInLoop_def)
next
  case (FnForward q cb)
  with assms show ?thesis by (simp add: shape_ForwardInLoop)
qed

lemma shape_HandleForwardResponse:
  assumes ok: "shape_ok {} s"
  shows "shape_ok {} (HandleForwardResponse pr k p s)"
proof (cases "map_of (pending_requests s k) (pkt_seq p)")
  case (Some e)
  have "armed s (timeout_timer e) = Some (k, pkt_seq p)"
    using ok armed_table [of "pending_requests s" "armed s" "stack s" "next_timer s" k] Some by (auto simp: shape_ok_def)
  with ok timers_inv_erase [of "pending_requests s" "armed s" "stack s" "next_timer s" "timeout_timer e" k "pkt_seq p"] Some show ?thesis
    by (auto simp: HandleForwardResponse_def Let_def shape_ok_def store_count_def erase_def count_inv_def split: sum.splits)
qed (use ok in \<open>simp add: HandleForwardResponse_def\<close>)

lemma shape_timeout:
  assumes ok: "shape_ok {} s" and t: "armed s t = Some (k, sq)"
  shows "shape_ok {} (HandleRequestTimeout k sq (s\<lparr>armed := (armed s)(t := None)\<rparr>))"
proof (cases "map_of (pending_requests s k) sq")
  case None
  have "t \<notin> table_timers (pending_requests s)"
  proof
    assume "t \<in> table_timers (pending_requests s)"
    then obtain k' y where "y \<in> set (pending_requests s k')" "t = timeout_timer (snd y)" by (rule table_timersE)
    with ok t None show False by (auto simp: shape_ok_def timers_inv_def map_of_eq_None_iff)
  qed
  with ok None timers_inv_cancel [of "pending_requests s" "armed s" "stack s" "next_timer s" t] show ?thesis
    by (simp add: HandleRequestTimeout_def shape_ok_def)
next
  case (Some e)
  with ok t timers_inv_erase [of "pending_requests s" "armed s" "stack s" "next_timer s" t k sq] show ?thesis
    by (simp add: HandleRequestTimeout_def shape_ok_def store_count_def erase_def count_inv_def)
qed

text \<open>The state with the next statement taken off is well-formed for all but three kinds of statements.\<close>

lemma shape_pop:
  assumes ok: "shape_ok {} s" and st: "stack s = t # ts"
    and no: "\<And>k a e. t = TFailQueuedForwards k a e \<Longrightarrow> queued_forwards s k = []" "\<And>k a e. t \<noteq> TFailAllPending k a e"
  shows "shape_ok {} (s\<lparr>stack := ts\<rparr>)"
proof -
  have "paired ts" using ok st no(2) by (cases t) (auto simp: shape_ok_def count_inv_def)
  moreover have "fails_group (t # ts) = fails_group ts" using no(2) by (cases t) auto
  ultimately show ?thesis
    using ok st no(1) timers_inv_less [of "pending_requests s" "armed s" "t # ts" "next_timer s" ts]
    by (auto simp: shape_ok_def count_inv_def intro: waits_inv_pop)
qed

lemma shape_fail_all:
  assumes ok: "shape_ok {} s" and st: "stack s = TFailAllPending k a e # ts"
  shows "shape_ok {} (run_todo pr usable (TFailAllPending k a e) (s\<lparr>stack := ts\<rparr>))"
proof -
  have inv: "timers_inv (pending_requests s) (armed s) ts (next_timer s)" "waits_inv (running s) (floating s) ts (queued_forwards s)"
    using ok st by (auto simp: shape_ok_def intro: timers_inv_less waits_inv_pop)
  show ?thesis
  proof (cases k)
    case Chat
    with ok st have "fails_group ts" "paired ts" by (auto simp: shape_ok_def count_inv_def)
    with ok inv timers_inv_move [OF inv(1), of Chat a e] Chat show ?thesis
      by (auto simp: FailAllPending_def shape_ok_def count_inv_def waits_inv_def)
  next
    case Group
    with ok st have "paired ts" by (auto simp: shape_ok_def count_inv_def)
    with ok inv timers_inv_move [OF inv(1), of Group a e] Group show ?thesis
      by (auto simp: FailAllPendingGroup_def shape_ok_def count_inv_def waits_inv_def)
  qed
qed

lemma shape_push_plain:
  assumes "shape_ok fs s" "\<And>t. t \<in> set ts \<Longrightarrow> todo_timers t = []" "paired (stack s) \<Longrightarrow> paired (ts @ stack s)"
  shows "shape_ok fs (push ts s)"
proof -
  have "stack_timers (ts @ stack s) \<subseteq> stack_timers (stack s)" using assms(2) by (auto simp: stack_timers_def)
  with assms(1,3) timers_inv_less [of "pending_requests s" "armed s" "stack s" "next_timer s" "ts @ stack s"] show ?thesis
    by (auto simp: shape_ok_def count_inv_def intro: waits_inv_push)
qed

lemma shape_queue: "shape_ok fs s \<Longrightarrow> shape_ok fs (s\<lparr>queued_forwards := (queued_forwards s)(k := [])\<rparr>)"
  by (auto simp: shape_ok_def waits_inv_def)

lemma shape_fail_one:
  assumes ok: "shape_ok {} s" and st: "stack s = TFailPending a e (p # ps) # ts"
  shows "shape_ok {} (fail_pending_one a e p (push [TFailPending a e ps] (s\<lparr>stack := ts\<rparr>)))"
proof -
  have "timeout_timer p \<notin> table_timers (pending_requests s)" using ok st by (auto simp: shape_ok_def timers_inv_def)
  moreover have "timers_inv (pending_requests s) (armed s) (TFailPending a e ps # ts) (next_timer s)"
    using ok st by (auto simp: shape_ok_def intro: timers_inv_less)
  ultimately show ?thesis
    using ok st timers_inv_cancel [of "pending_requests s" "armed s" "TFailPending a e ps # ts" "next_timer s" "timeout_timer p"]
    by (auto simp: fail_pending_one_def shape_ok_def count_inv_def waits_inv_def)
qed

lemma shape_run_todo:
  assumes ok: "shape_ok {} s" and st: "stack s = t # ts"
  shows "shape_ok {} (run_todo pr usable t (s\<lparr>stack := ts\<rparr>))"
proof (cases t)
  case (TFailAllPending k a e)
  with ok st show ?thesis using shape_fail_all by blast
next
  case (TFailPending a e ps)
  with ok st shape_pop [OF ok st] shape_fail_one [OF ok, of a e _ _ ts] show ?thesis by (cases ps) simp_all
next
  case (TFailQueuedForwards k a e)
  have "shape_ok {} ((s\<lparr>queued_forwards := (queued_forwards s)(k := [])\<rparr>)\<lparr>stack := ts\<rparr>)"
    by (rule shape_pop [OF shape_queue [OF ok]]) (use st TFailQueuedForwards in auto)
  then have "shape_ok {} (push [TFailQueued a e (queued_forwards s k)] ((s\<lparr>queued_forwards := (queued_forwards s)(k := [])\<rparr>)\<lparr>stack := ts\<rparr>))"
    by (rule shape_push_plain) simp_all
  moreover have "run_todo pr usable t (s\<lparr>stack := ts\<rparr>)
      = push [TFailQueued a e (queued_forwards s k)] ((s\<lparr>queued_forwards := (queued_forwards s)(k := [])\<rparr>)\<lparr>stack := ts\<rparr>)"
    by (simp add: TFailQueuedForwards FailQueuedForwards_def push_def)
  ultimately show ?thesis by simp
next
  case (TFailQueued a e xs)
  then show ?thesis using shape_pop [OF ok st] by (cases xs) (auto intro: shape_push_plain)
next
  case (TFlushQueuedForwards k)
  then show ?thesis using shape_queue [OF shape_pop [OF ok st], of k] by (auto simp: FlushQueuedForwards_def intro: shape_push_plain)
next
  case (TFlush xs)
  then show ?thesis using shape_pop [OF ok st] by (cases xs) (auto intro!: shape_ForwardInLoop intro: shape_push_plain)
next
  case TSetDisconnected
  then show ?thesis using shape_pop [OF ok st] by (simp add: shape_ok_def)
next
  case (TPackets ps)
  then show ?thesis using shape_pop [OF ok st] by (cases ps) (auto simp: handle_packet_def intro!: shape_HandleForwardResponse intro: shape_push_plain)
qed

subsection \<open>The invariant is kept\<close>

lemma shape_distinct: "shape_ok fs s \<Longrightarrow> distinct (map fst (pending_requests s k))"
  by (simp add: shape_ok_def timers_inv_def)

text \<open>Fields that a step leaves alone, and the counter of sequence numbers.\<close>

definition quiet :: "'r GatewayPeerTransport \<Rightarrow> 'r GatewayPeerTransport \<Rightarrow> bool" where
  "quiet s s' \<longleftrightarrow> accepted s' = accepted s \<and> (next_sequence s \<noteq> 0 \<longrightarrow> next_sequence s' \<noteq> 0)"

lemma quiet_basic [simp]:
  "quiet s (answer cb r t) = quiet s t" "quiet s (push ts t) = quiet s t" "quiet s (store_count t) = quiet s t"
  "quiet s (emplace k sq p t) = quiet s t" "quiet s (erase k sq t) = quiet s t" "quiet s (t\<lparr>armed := ar\<rparr>) = quiet s t"
  "quiet s (t\<lparr>connected := b\<rparr>) = quiet s t" "quiet s (t\<lparr>running := b\<rparr>) = quiet s t" "quiet s (t\<lparr>has_client := b\<rparr>) = quiet s t"
  "quiet s (t\<lparr>pending_count := n\<rparr>) = quiet s t" "quiet s (t\<lparr>pending_requests := pt\<rparr>) = quiet s t"
  "quiet s (t\<lparr>queued_forwards := qt\<rparr>) = quiet s t" "quiet s (t\<lparr>stack := ts\<rparr>) = quiet s t" "quiet s (t\<lparr>functors := fs\<rparr>) = quiet s t"
  "quiet s (t\<lparr>transit := tr\<rparr>) = quiet s t" "quiet s (t\<lparr>sent := l\<rparr>) = quiet s t" "quiet s (t\<lparr>next_timer := n\<rparr>) = quiet s t"
  "quiet s s"
  by (simp_all add: quiet_def answer_def push_def store_count_def emplace_def erase_def split: option.splits)

lemma quiet_ForwardInLoop:
  assumes "quiet s t"
  shows "quiet s (ForwardInLoop pr usable q cb t)"
proof (cases rule: ForwardInLoop_cases [of pr usable q cb t])
  case (fails t' r)
  then have "quiet s t'" using assms by (auto simp: quiet_def)
  with fails show ?thesis by simp
next
  case queues
  with assms show ?thesis by simp
next
  case (sends sq n out)
  then have "quiet s (t\<lparr>next_sequence := n\<rparr>)" using assms by (simp add: quiet_def)
  with sends show ?thesis by simp
qed

lemma quiet_run_functor: "quiet s t \<Longrightarrow> quiet s (run_functor pr usable f t)"
  by (cases f) (simp_all add: StartInLoop_def StopInLoop_def quiet_ForwardInLoop Let_def)

lemma quiet_HandleForwardResponse: "quiet s t \<Longrightarrow> quiet s (HandleForwardResponse pr k p t)"
  by (simp add: HandleForwardResponse_def Let_def split: option.splits sum.splits)

lemma quiet_run_todo: "quiet s t \<Longrightarrow> quiet s (run_todo pr usable td t)"
  by (cases "(pr, usable, td, t)" rule: run_todo.cases)
    (simp_all add: FailAllPending_def FailAllPendingGroup_def fail_pending_one_def FailQueuedForwards_def FlushQueuedForwards_def
      quiet_ForwardInLoop handle_packet_def quiet_HandleForwardResponse)

text \<open>A step that keeps the callbacks together and the shape keeps the invariant.\<close>

lemma peer_okI: "\<lbrakk>peer_ok s; tracked s' = tracked s; shape_ok {} s'; quiet s s'\<rbrakk> \<Longrightarrow> peer_ok s'"
  by (simp add: peer_ok_def quiet_def)

lemma list_remove:
  assumes "i < length xs"
  shows "(\<Sum>x\<leftarrow>xs. g x) = (\<Sum>x\<leftarrow>take i xs @ drop (Suc i) xs. g x) + (g (xs ! i) :: nat multiset)"
    "set xs = insert (xs ! i) (set (take i xs @ drop (Suc i) xs))"
  using arg_cong [OF id_take_nth_drop [OF assms], of "\<lambda>xs. \<Sum>x\<leftarrow>xs. g x"] arg_cong [OF id_take_nth_drop [OF assms], of set] by simp_all

lemma peer_ok_post:
  assumes ok: "peer_ok s" and i: "i < length (transit s)" "transit s ! i = (in_loop, f)"
  shows "peer_ok (if in_loop then run_functor pr usable f (s\<lparr>transit := take i (transit s) @ drop (Suc i) (transit s)\<rparr>)
    else s\<lparr>transit := take i (transit s) @ drop (Suc i) (transit s), functors := functors s @ [f]\<rparr>)"
proof -
  let ?s = "s\<lparr>transit := take i (transit s) @ drop (Suc i) (transit s)\<rparr>"
  note rm = list_remove [OF i(1)]
  have tr: "tracked ?s + functor_cbs f = tracked s" using rm(1) [of "functor_cbs \<circ> snd"] i(2) by (simp add: tracked_def held_def)
  have float: "floating s = insert f (floating ?s)" using rm(2) i(2) by auto
  have sh: "shape_ok {f} ?s" using ok float by (simp add: peer_ok_def shape_ok_def)
  show ?thesis
  proof (cases in_loop)
    case True
    have "peer_ok (run_functor pr usable f ?s)"
      by (rule peer_okI [OF ok]) (simp_all add: tracked_run_functor tr shape_run_functor [OF sh] quiet_run_functor)
    with True show ?thesis by simp
  next
    case False
    have "peer_ok (?s\<lparr>functors := functors s @ [f]\<rparr>)"
    proof (rule peer_okI [OF ok])
      show "tracked (?s\<lparr>functors := functors s @ [f]\<rparr>) = tracked s"
        using tr by (simp add: tracked_def held_def)
      have "floating (?s\<lparr>functors := functors s @ [f]\<rparr>) = floating s" using float by auto
      then show "shape_ok {} (?s\<lparr>functors := functors s @ [f]\<rparr>)" using ok by (simp add: peer_ok_def shape_ok_def)
    qed simp
    with False show ?thesis by simp
  qed
qed

lemma shape_transit:
  assumes "shape_ok {} s" "f = FnStart \<Longrightarrow> remote_address_valid (peer_options s)" "r \<or> f = FnStop \<or> r = running s"
  shows "shape_ok {} (hand_over b f (s\<lparr>running := r\<rparr>))"
  using assms by (auto simp: shape_ok_def hand_over_def waits_inv_def)

lemma tracked_hand_over [simp]: "tracked (hand_over b f s) = tracked s + functor_cbs f"
  by (simp add: hand_over_def tracked_def held_def)

lemma peer_ok_calls:
  assumes ok: "peer_ok s"
  shows "peer_ok (snd (PeerStart b s))" "peer_ok (PeerStop b s)" "peer_ok (snd (Forward b q c s))"
proof -
  have sh: "shape_ok {} s" using ok by (simp add: peer_ok_def)
  show "peer_ok (snd (PeerStart b s))"
    using ok shape_transit [OF sh, of FnStart True b] by (auto simp: PeerStart_def ValidateOptions_def peer_ok_def) (simp_all add: hand_over_def)
  show "peer_ok (PeerStop b s)"
    using ok shape_transit [OF sh, of FnStop False b] by (auto simp: PeerStop_def peer_ok_def) (simp_all add: hand_over_def)
  have fwd: "shape_ok {} (hand_over b (FnForward q cb) s)" for cb
    using shape_transit [OF sh, of "FnForward q cb" "running s" b] by simp
  then have "shape_ok {} (hand_over b (FnForward q cb) (s\<lparr>accepted := n\<rparr>))" for cb n
    by (simp add: shape_ok_def hand_over_def)
  with ok fwd show "peer_ok (snd (Forward b q c s))"
    by (auto simp: Forward_def peer_ok_def lessThan_Suc) (simp_all add: hand_over_def lessThan_Suc)
qed

lemma peer_ok_step:
  assumes ok: "peer_ok s"
  shows "peer_ok (peer_step pr s ev)"
proof -
  have sh: "shape_ok {} s" using ok by (simp add: peer_ok_def)
  show ?thesis
  proof (cases ev)
    case (EvPost i usable)
    then show ?thesis using peer_ok_post [OF ok, of i "fst (transit s ! i)" "snd (transit s ! i)" pr usable] ok
      by (auto simp: Let_def split: prod.splits)
  next
    case (EvFunctor usable)
    show ?thesis
    proof (cases "(stack s, functors s)" rule: prod.exhaust)
      case (Pair st fs)
      show ?thesis
      proof (cases "st = [] \<and> fs \<noteq> []")
        case True
        then obtain f fs' where fs: "stack s = []" "functors s = f # fs'" using Pair by (cases fs) auto
        have sh': "shape_ok {f} (s\<lparr>functors := fs'\<rparr>)" using sh fs by (simp add: shape_ok_def)
        have "tracked (s\<lparr>functors := fs'\<rparr>) + functor_cbs f = tracked s" using fs by (simp add: tracked_def held_def)
        with fs EvFunctor show ?thesis
          by (auto intro!: peer_okI [OF ok] simp: tracked_run_functor shape_run_functor [OF sh'] quiet_run_functor)
      next
        case False
        with Pair EvFunctor ok show ?thesis by (auto split: list.splits)
      qed
    qed
  next
    case (EvTodo usable)
    show ?thesis
    proof (cases "stack s")
      case (Cons t ts)
      have "tracked (s\<lparr>stack := ts\<rparr>) + todo_cbs t = tracked s" using Cons by (simp add: tracked_def held_def)
      moreover have "distinct (map fst (pending_requests (s\<lparr>stack := ts\<rparr>) k))" for k using shape_distinct [OF sh] by simp
      ultimately show ?thesis using EvTodo Cons
        by (auto intro!: peer_okI [OF ok] simp: tracked_run_todo shape_run_todo [OF sh Cons] quiet_run_todo)
    qed (use EvTodo ok in simp)
  next
    case (EvConnection conn)
    have "shape_ok {} (push (fail_everything kDisconnected closed_message) (s\<lparr>connected := False, running := False\<rparr>))"
      using shape_push_fail [OF sh, where r = False and c = False and rest = "[]", OF refl] by simp
    moreover have "shape_ok {} (push [TFlushQueuedForwards Chat, TFlushQueuedForwards Group] (s\<lparr>connected := True\<rparr>))"
      using sh by (intro shape_push_plain) (auto simp: shape_ok_def)
    ultimately show ?thesis using EvConnection
      by (cases conn) (auto intro!: peer_okI [OF ok] simp: HandleConnection_def fail_everything_def Let_def)
  next
    case (EvConnectError e)
    let ?ts = "[TFailQueuedForwards Chat kNotConnected (''gateway peer connect failed: '' @ e),
           TFailQueuedForwards Group kNotConnected (''gateway peer connect failed: '' @ e)]"
    have "\<exists>a e. TFailQueuedForwards k a e \<in> set ?ts" for k by (cases k) auto
    then have "waits_inv False (floating s) (?ts @ stack s) (queued_forwards s)" unfolding waits_inv_def set_append by blast
    moreover have "timers_inv (pending_requests s) (armed s) (?ts @ stack s) (next_timer s)"
      using sh timers_inv_less [of "pending_requests s" "armed s" "stack s" "next_timer s" "?ts @ stack s"] by (simp add: shape_ok_def)
    ultimately have "shape_ok {} (HandleConnectError e s)"
      using sh by (auto simp: HandleConnectError_def shape_ok_def count_inv_def)
    then show ?thesis using EvConnectError
      by (auto intro!: peer_okI [OF ok] simp: HandleConnectError_def)
  next
    case (EvMessage buffer)
    have "shape_ok {} (push [TFailAllPending Chat a e, TFailAllPending Group a e] s)" "shape_ok {} (push [TPackets ps] s)" for a e ps
      using sh by (auto intro!: shape_push_plain)
    then have "shape_ok {} (PeerHandleMessage buffer s)" using sh
      by (auto simp: PeerHandleMessage_def split: option.splits)
    moreover have "tracked (PeerHandleMessage buffer s) = tracked s" "quiet s (PeerHandleMessage buffer s)"
      by (auto simp: PeerHandleMessage_def split: option.splits)
    ultimately show ?thesis using EvMessage ok by (auto intro: peer_okI)
  next
    case (EvTimer t)
    show ?thesis
    proof (cases "stack s = [] \<and> armed s t \<noteq> None")
      case True
      then obtain k sq where t: "armed s t = Some (k, sq)" by auto
      let ?s = "s\<lparr>armed := (armed s)(t := None)\<rparr>"
      have "tracked (HandleRequestTimeout k sq ?s) = tracked s"
        using tracked_HandleRequestTimeout [of ?s k sq] shape_distinct [OF sh] by simp
      moreover have "quiet s (HandleRequestTimeout k sq ?s)" by (simp add: HandleRequestTimeout_def split: option.splits)
      ultimately show ?thesis using EvTimer True t shape_timeout [OF sh t] by (auto intro: peer_okI [OF ok])
    next
      case False
      with EvTimer ok show ?thesis by (auto split: list.splits option.splits)
    qed
  qed (use peer_ok_calls [OF ok] in simp_all)
qed

interpretation pt: guarded_object "peer_step pr" "\<lambda>_ _. True" peer_ok for pr
  by unfold_locales (rule peer_ok_step)

section \<open>Properties\<close>

lemma peer_ok_new [simp]: "peer_ok (GatewayPeerTransport_new o')"
  by (simp add: peer_ok_def GatewayPeerTransport_new_def tracked_def held_def shape_ok_def timers_inv_def waits_inv_def
      count_inv_def stack_timers_def table_timers_def)

lemma peer_ok_run: "peer_ok (run_ops (peer_step pr) (GatewayPeerTransport_new o') evs)"
  by (rule pt.run_invar [OF peer_ok_new]) (induction evs arbitrary: o'; simp)

text \<open>C16: each accepted forward request is answered at most once and never lost: after any sequence of events no callback has
  been called twice, and the callbacks of the accepted requests are exactly those that have been called and those of
  requests the transport still holds (on the way to the loop, queued, waiting for a response, or about to be failed),
  with no overlap.\<close>

theorem forward_answered_at_most_once:
  assumes "s = run_ops (peer_step pr) (GatewayPeerTransport_new o') evs"
  shows "distinct (map fst (answers s)) \<and> fst ` set (answers s) \<inter> set_mset (held s) = {}
    \<and> fst ` set (answers s) \<union> set_mset (held s) = {..<accepted s}"
proof -
  have all: "held s + mset (map fst (answers s)) = mset_set {..<accepted s}"
    using peer_ok_run unfolding assms peer_ok_def tracked_def by blast
  have one: "count (held s) c + count (mset (map fst (answers s))) c \<le> 1" for c
    using arg_cong [OF all, of "\<lambda>m. count m c"] by (cases "c < accepted s") simp_all
  have "count (mset (map fst (answers s))) c = (if c \<in> set (map fst (answers s)) then 1 else 0)" for c
  proof (cases "c \<in> set (map fst (answers s))")
    case True
    then have "0 < count (mset (map fst (answers s))) c" by (simp only: count_greater_zero_iff set_mset_mset)
    then have "count (mset (map fst (answers s))) c = 1" using one [of c] by linarith
    with True show ?thesis by (simp only: if_True)
  qed (simp only: if_False not_in_iff [symmetric] set_mset_mset not_False_eq_True)
  then have "distinct (map fst (answers s))" unfolding distinct_count_atmost_1 by blast
  moreover have "False" if "c \<in> fst ` set (answers s)" "c \<in># held s" for c
  proof -
    have "0 < count (mset (map fst (answers s))) c" "0 < count (held s) c" using that by simp_all
    then show False using one [of c] by linarith
  qed
  moreover have "fst ` set (answers s) \<union> set_mset (held s) = {..<accepted s}"
    using arg_cong [OF all, of set_mset] by auto
  ultimately show ?thesis by blast
qed

text \<open>C17: every accepted forward request is answered: once the transport has stopped running and come to rest (no call on its
  way, no statement left to execute, no timer armed), every callback has been called, exactly once.\<close>

theorem forward_answered_at_rest:
  assumes "s = run_ops (peer_step pr) (GatewayPeerTransport_new o') evs"
    and "\<not> running s" "transit s = []" "functors s = []" "stack s = []" "armed s = Map.empty"
  shows "mset (map fst (answers s)) = mset_set {..<accepted s}"
proof -
  have ok: "peer_ok s" using assms(1) peer_ok_run by simp
  have "pending_requests s k = []" for k
  proof -
    have "\<forall>x\<in>set (pending_requests s k). armed s (timeout_timer (snd x)) = Some (k, fst x)"
      using ok by (simp add: peer_ok_def shape_ok_def timers_inv_def)
    then show ?thesis using assms(6) by (cases "pending_requests s k") auto
  qed
  moreover have "queued_forwards s k = []" for k
    using ok assms(2-5) by (auto simp: peer_ok_def shape_ok_def waits_inv_def)
  ultimately have "held s = {#}" using assms(3-5) by (simp add: held_def)
  with ok show ?thesis by (simp add: peer_ok_def tracked_def)
qed

fun response_type :: "PeerKind \<Rightarrow> MessageType" where
  "response_type Chat = kGatewayForwardChatResponse"
| "response_type Group = kGatewayForwardGroupMessageResponse"

text \<open>A response answers the request that was sent with its sequence number and no other: its callback gets the
  decoded response, or a protocol error if the body is bad; the request leaves the table with its timer, every other pending
  request stays, and a second response with the same number changes nothing.\<close>

theorem peer_response_matches:
  assumes "s = run_ops (peer_step pr) (GatewayPeerTransport_new o') evs" and "pkt_type p = response_type k"
    and "map_of (pending_requests s k) (pkt_seq p) = Some e" and "callback e = Some c"
  shows "answers (handle_packet pr p s) = answers s @ [(c, case deserialize_response pr k (pkt_body p) of
        Inl err \<Rightarrow> \<lparr>result_status = kProtocolError, response = None, result_error = err\<rparr>
      | Inr r \<Rightarrow> \<lparr>result_status = kOk, response = Some r, result_error = ''''\<rparr>)]
    \<and> armed (handle_packet pr p s) = (armed s)(timeout_timer e := None)
    \<and> (\<lambda>k'. map_of (pending_requests (handle_packet pr p s) k'))
        = (\<lambda>k'. map_of (pending_requests s k'))(k := (map_of (pending_requests s k))(pkt_seq p := None))
    \<and> handle_packet pr p (handle_packet pr p s) = handle_packet pr p s"
proof -
  have hp: "handle_packet pr p t = HandleForwardResponse pr k p t" for t using assms(2) by (cases k) (simp_all add: handle_packet_def)
  let ?t = "(store_count (erase k (pkt_seq p) s))\<lparr>armed := (armed s)(timeout_timer e := None)\<rparr>"
  define r where "r = (case deserialize_response pr k (pkt_body p) of Inl err \<Rightarrow> failure kProtocolError err
      | Inr r \<Rightarrow> \<lparr>result_status = kOk, response = Some r, result_error = ''''\<rparr>)"
  have step: "handle_packet pr p s = answer (Some c) r ?t"
    using assms(3,4) by (simp add: hp HandleForwardResponse_def Let_def r_def store_count_def erase_def split: sum.splits)
  have gone: "map_of (filter (\<lambda>x. fst x \<noteq> sq) xs) = (map_of xs)(sq := None)" for sq and xs :: "(u32 \<times> PendingRequest) list"
    by (induction xs) auto
  have "map_of (pending_requests (handle_packet pr p s) k) (pkt_seq p) = None"
    by (simp add: step store_count_def erase_def gone)
  then have "handle_packet pr p (handle_packet pr p s) = handle_packet pr p s" by (simp add: hp HandleForwardResponse_def)
  moreover have "answers (handle_packet pr p s) = answers s @ [(c, r)]" by (simp add: step answer_def store_count_def erase_def)
  ultimately show ?thesis
    by (auto simp: step r_def failure_def store_count_def erase_def gone fun_eq_iff split: sum.splits)
qed

lemma NextSequence_first:
  assumes "next_sequence s \<noteq> 0" "\<not> in_use s (next_sequence s)"
  shows "NextSequence s = (next_sequence s, s\<lparr>next_sequence := next_number (next_sequence s)\<rparr>)"
proof -
  obtain a where a: "kMaxAttempts = Suc a" by (cases kMaxAttempts) (simp_all add: kMaxAttempts_def)
  have "next_sequence_loop (Suc a) (in_use s) (next_sequence s) = (next_sequence s, next_number (next_sequence s))"
    using assms by (simp add: next_number_def Let_def)
  then show ?thesis unfolding NextSequence_def a by simp
qed

lemma ForwardInLoop_sends:
  assumes "running s" "connected s" "has_client s" and "serialize_request pr (peer_options s) q = Inr body"
    and "length body \<le> peer_max_body_size (peer_options s)" and ns: "NextSequence s = (sq, s1)" "sq \<noteq> 0"
  shows "ForwardInLoop pr True q cb s =
      store_count (emplace (kind_of q) sq \<lparr>callback = cb, timeout_timer = next_timer s\<rparr>
        (s\<lparr>next_sequence := next_sequence s1, armed := (armed s)(next_timer s \<mapsto> (kind_of q, sq)), next_timer := next_timer s + 1,
           sent := sent s @ [frame_bytes \<lparr>pkt_type = request_type (kind_of q), pkt_flags = 0, pkt_seq = sq, pkt_body = body\<rparr>]\<rparr>))"
proof -
  obtain n where s1: "s1 = s\<lparr>next_sequence := n\<rparr>" using ns(1) by (rule NextSequence_same)
  have free: "map_of (pending_requests s k) sq = None" for k by (rule NextSequence_free [OF ns])
  let ?p = "\<lparr>pkt_type = request_type (kind_of q), pkt_flags = 0, pkt_seq = sq, pkt_body = body\<rparr>"
  have "ValidatePacketForEncode (peer_codec s) ?p = None"
    using assms(5) by (cases "kind_of q") (simp_all add: ValidatePacketForEncode_def IsKnownMessageType_def known_message_types_def peer_codec_def)
  then obtain b where "Encode (peer_codec s) ?p (Some (Buffer_new kInitialSize)) = Some (Inr b)" "readable b = frame_bytes ?p"
    using Encode_spec [of "Buffer_new kInitialSize" "peer_codec s" ?p] by auto
  moreover have "peer_codec s1 = peer_codec s" by (simp add: s1 peer_codec_def)
  ultimately show ?thesis
    using assms s1 free by (simp add: ForwardInLoop_def store_count_def emplace_def Let_def)
qed

text \<open>A request that can be sent is sent under a sequence number of its own: on a running transport with a usable
  connection and fewer than 2^32 - 1 requests outstanding, the bytes handed to the connection are the frame of the serialised
  request with a number that is not 0 and that no outstanding request has; under that number the caller's callback is
  waiting, with a timer armed, and nobody has been answered.\<close>

theorem forward_sends_fresh:
  assumes "s = run_ops (peer_step pr) (GatewayPeerTransport_new o') evs"
    and "running s" "connected s" "has_client s" and "serialize_request pr (peer_options s) q = Inr body"
    and "length body \<le> peer_max_body_size (peer_options s)" and "pending_count s < 2 ^ 32 - 1" "stack s = []"
  shows "\<exists>sq e. sq \<noteq> 0 \<and> \<not> in_use s sq
    \<and> sent (ForwardInLoop pr True q cb s) = sent s @ [frame_bytes \<lparr>pkt_type = request_type (kind_of q), pkt_flags = 0, pkt_seq = sq, pkt_body = body\<rparr>]
    \<and> map_of (pending_requests (ForwardInLoop pr True q cb s) (kind_of q)) sq = Some e \<and> callback e = cb
    \<and> armed (ForwardInLoop pr True q cb s) (timeout_timer e) = Some (kind_of q, sq)
    \<and> answers (ForwardInLoop pr True q cb s) = answers s"
proof -
  have ok: "peer_ok s" using assms(1) peer_ok_run by simp
  then have "pending_count s = length (pending_requests s Chat) + length (pending_requests s Group)"
    using assms(8) by (simp add: peer_ok_def shape_ok_def count_inv_def)
  moreover obtain sq s1 where ns: "NextSequence s = (sq, s1)" by (cases "NextSequence s")
  ultimately have sq: "sq \<noteq> 0" using NextSequence_succeeds [of s] ok assms(7) by (simp add: peer_ok_def kMaxAttempts_def)
  have free: "map_of (pending_requests s k) sq = None" for k by (rule NextSequence_free [OF ns sq])
  show ?thesis
    unfolding ForwardInLoop_sends [OF assms(2-6) ns sq]
    by (intro exI [of _ sq] exI [of _ "\<lparr>callback = cb, timeout_timer = next_timer s\<rparr>"])
      (simp add: store_count_def emplace_def in_use_def map_add_def free sq)
qed

section \<open>Witnesses\<close>

text \<open>A transport that connects, sends a group message, and is stopped before the response; requests serialise to one byte.\<close>

definition demo_protocol :: "nat PeerProtocol" where
  "demo_protocol = \<lparr>serialize_request = (\<lambda>o' q. Inr [7]), deserialize_response = (\<lambda>k body. Inr (length body))\<rparr>"

definition demo_peer_options :: GatewayPeerTransportOptions where
  "demo_peer_options = \<lparr>local_gateway_id = ''a'', local_lease_token = ''t'', remote_gateway_id = ''b'', remote_host = ''h'',
     remote_port = 80, remote_address_valid = True, connect_timeout = 1, request_timeout = 1, peer_max_body_size = 4\<rparr>"

definition demo_connect :: "PeerEvent list" where
  "demo_connect = [EvStart True, EvPost 0 True, EvConnection True, EvTodo True, EvTodo True, EvTodo True, EvTodo True]"

definition demo_send :: "PeerEvent list" where
  "demo_send = demo_connect @ [EvForward True (QueuedForwardGroupMessage 5 6) True, EvPost 0 True]"

definition demo_stop :: "PeerEvent list" where
  "demo_stop = demo_send @ [EvStop True, EvPost 0 True, EvTodo True, EvTodo True, EvTodo True, EvTodo True, EvTodo True, EvTodo True,
     EvTodo True, EvTodo True, EvTodo True]"

definition demo_peer :: "PeerEvent list \<Rightarrow> nat GatewayPeerTransport" where
  "demo_peer evs = run_ops (peer_step demo_protocol) (GatewayPeerTransport_new demo_peer_options) evs"

lemma demo_connected: "demo_peer demo_connect = (GatewayPeerTransport_new demo_peer_options)\<lparr>running := True, connected := True, has_client := True\<rparr>"
  by (simp add: demo_peer_def demo_connect_def GatewayPeerTransport_new_def demo_peer_options_def PeerStart_def ValidateOptions_def hand_over_def
      StartInLoop_def HandleConnection_def FlushQueuedForwards_def push_def fun_upd_idem Let_def)

lemma demo_forward:
  assumes "s = demo_peer demo_connect"
  shows "ForwardInLoop demo_protocol True (QueuedForwardGroupMessage 5 6) cb (s\<lparr>accepted := n, transit := []\<rparr>) =
    s\<lparr>pending_count := 1, next_sequence := 2, pending_requests := (\<lambda>_. [])(Group := [(1, \<lparr>callback = cb, timeout_timer = 0\<rparr>)]),
      armed := [0 \<mapsto> (Group, 1)], next_timer := 1, transit := [],
      sent := [frame_bytes \<lparr>pkt_type = kGatewayForwardGroupMessageRequest, pkt_flags = 0, pkt_seq = 1, pkt_body = [7]\<rparr>], accepted := n\<rparr>"
proof -
  let ?s = "s\<lparr>accepted := n, transit := []\<rparr>"
  have ns: "NextSequence ?s = (1, ?s\<lparr>next_sequence := 2\<rparr>)"
    using NextSequence_first [of ?s] by (simp add: assms demo_connected GatewayPeerTransport_new_def in_use_def next_number_def)
  show ?thesis
    by (subst ForwardInLoop_sends [OF _ _ _ _ _ ns])
      (simp_all add: assms demo_connected GatewayPeerTransport_new_def demo_protocol_def demo_peer_options_def store_count_def emplace_def)
qed

lemma demo_sent: "demo_peer demo_send = (demo_peer demo_connect)\<lparr>pending_count := 1, next_sequence := 2,
    pending_requests := (\<lambda>_. [])(Group := [(1, \<lparr>callback = Some 0, timeout_timer = 0\<rparr>)]),
    armed := [0 \<mapsto> (Group, 1)], next_timer := 1, transit := [],
    sent := [frame_bytes \<lparr>pkt_type = kGatewayForwardGroupMessageRequest, pkt_flags = 0, pkt_seq = 1, pkt_body = [7]\<rparr>], accepted := 1\<rparr>"
proof -
  have "demo_peer demo_send = peer_step demo_protocol (peer_step demo_protocol (demo_peer demo_connect)
      (EvForward True (QueuedForwardGroupMessage 5 6) True)) (EvPost 0 True)"
    by (simp add: demo_peer_def demo_send_def)
  also have "\<dots> = ForwardInLoop demo_protocol True (QueuedForwardGroupMessage 5 6) (Some 0) ((demo_peer demo_connect)\<lparr>accepted := 1, transit := []\<rparr>)"
    by (simp add: demo_connected GatewayPeerTransport_new_def Forward_def hand_over_def)
  also note demo_forward [OF refl]
  finally show ?thesis .
qed

lemma demo_stopped:
  "\<not> running (demo_peer demo_stop)" "transit (demo_peer demo_stop) = []" "functors (demo_peer demo_stop) = []"
  "stack (demo_peer demo_stop) = []" "armed (demo_peer demo_stop) = Map.empty" "accepted (demo_peer demo_stop) = 1"
proof -
  have stop: "demo_peer demo_stop = run_ops (peer_step demo_protocol) (demo_peer demo_send) [EvStop True, EvPost 0 True, EvTodo True, EvTodo True,
      EvTodo True, EvTodo True, EvTodo True, EvTodo True, EvTodo True, EvTodo True, EvTodo True]"
    by (simp only: demo_peer_def demo_stop_def run_ops_append)
  show "\<not> running (demo_peer demo_stop)" "transit (demo_peer demo_stop) = []" "functors (demo_peer demo_stop) = []"
    "stack (demo_peer demo_stop) = []" "armed (demo_peer demo_stop) = Map.empty" "accepted (demo_peer demo_stop) = 1"
    unfolding stop demo_sent demo_connected
    by (simp_all add: GatewayPeerTransport_new_def PeerStop_def hand_over_def StopInLoop_def fail_everything_def push_def FailAllPending_def
        FailAllPendingGroup_def fail_pending_one_def answer_def FailQueuedForwards_def failure_def)
qed

theorem forward_answered_at_most_once_witness: "distinct (map fst (answers (demo_peer demo_stop)))"
  using forward_answered_at_most_once [OF demo_peer_def] by blast

theorem forward_answered_at_rest_witness: "mset (map fst (answers (demo_peer demo_stop))) = {#0#}"
  using forward_answered_at_rest [OF demo_peer_def demo_stopped(1-5)] by (simp add: demo_stopped(6) lessThan_Suc)

theorem peer_response_matches_witness:
  "answers (handle_packet demo_protocol \<lparr>pkt_type = kGatewayForwardGroupMessageResponse, pkt_flags = 0, pkt_seq = 1, pkt_body = [8, 9]\<rparr> (demo_peer demo_send))
    = [(0, \<lparr>result_status = kOk, response = Some 2, result_error = ''''\<rparr>)]"
  using peer_response_matches [OF demo_peer_def, of "\<lparr>pkt_type = kGatewayForwardGroupMessageResponse, pkt_flags = 0, pkt_seq = 1, pkt_body = [8, 9]\<rparr>" Group
      demo_send "\<lparr>callback = Some 0, timeout_timer = 0\<rparr>" 0]
  by (simp add: demo_sent demo_connected GatewayPeerTransport_new_def demo_protocol_def)

theorem forward_sends_fresh_witness:
  "\<exists>sq. sq \<noteq> 0 \<and> sent (ForwardInLoop demo_protocol True (QueuedForwardChat 1 2 3 [65]) None (demo_peer demo_connect))
    = [frame_bytes \<lparr>pkt_type = kGatewayForwardChatRequest, pkt_flags = 0, pkt_seq = sq, pkt_body = [7]\<rparr>]"
  using forward_sends_fresh [OF demo_peer_def, of demo_connect "QueuedForwardChat 1 2 3 [65]" "[7]" None]
  by (auto simp: demo_connected GatewayPeerTransport_new_def demo_protocol_def demo_peer_options_def)

end
