(* ===== verification/Net_Channel.thy ===== *)
theory Net_Channel
  imports TIMX_Prelude
begin

unbundle bit_operations_syntax

text \<open>
  \<open>common/net/Channel.{h,cpp}\<close>: the interest of one descriptor in events and the dispatch of the events that occurred, and
  the two methods of \<open>common/net/EventLoop.cpp\<close> that carry the interest to \<open>epoll\<close>, \<open>UpdateChannel\<close> and \<open>RemoveChannel\<close>.

  Masks are 32 bit words with the values of \<open>sys/epoll.h\<close>. A channel is named by a number, its address. The kernel's side of
  an \<open>epoll\<close> descriptor is the map from descriptors to the registered mask and channel; \<open>epoll_ctl\<close> refuses to add a
  descriptor twice and to change or delete an unknown one, and may refuse for want of resources, which is the argument
  \<open>granted\<close>. What \<open>HandleEventWithGuard\<close> calls is a list of callbacks, in order: each of them is user code of the channel
  and runs before the next, so that the objects that own a channel take the list apart one callback at a time.
\<close>

section \<open>Channel\<close>

definition EPOLLIN :: u32 where "EPOLLIN = 0x001"
definition EPOLLPRI :: u32 where "EPOLLPRI = 0x002"
definition EPOLLOUT :: u32 where "EPOLLOUT = 0x004"
definition EPOLLERR :: u32 where "EPOLLERR = 0x008"
definition EPOLLHUP :: u32 where "EPOLLHUP = 0x010"
definition EPOLLRDHUP :: u32 where "EPOLLRDHUP = 0x2000"

lemmas epoll_bits = EPOLLIN_def EPOLLPRI_def EPOLLOUT_def EPOLLERR_def EPOLLHUP_def EPOLLRDHUP_def

definition kNoneEvent :: u32 where "kNoneEvent = 0"
definition kReadEvent :: u32 where "kReadEvent = EPOLLIN OR EPOLLPRI OR EPOLLRDHUP"
definition kWriteEvent :: u32 where "kWriteEvent = EPOLLOUT"

record Channel =
  channel_fd :: int
  events :: u32
  revents :: u32
  added_to_loop :: bool
  event_handling :: bool
  tied :: bool
  has_read_callback :: bool
  has_write_callback :: bool
  has_close_callback :: bool
  has_error_callback :: bool

definition Channel_new :: "int \<Rightarrow> Channel" where
  "Channel_new fd = \<lparr>channel_fd = fd, events = kNoneEvent, revents = kNoneEvent, added_to_loop = False,
     event_handling = False, tied = False, has_read_callback = False, has_write_callback = False,
     has_close_callback = False, has_error_callback = False\<rparr>"

definition IsReading :: "Channel \<Rightarrow> bool" where
  "IsReading c \<longleftrightarrow> events c AND kReadEvent \<noteq> 0"

definition IsWriting :: "Channel \<Rightarrow> bool" where
  "IsWriting c \<longleftrightarrow> events c AND kWriteEvent \<noteq> 0"

definition IsNoneEvent :: "Channel \<Rightarrow> bool" where
  "IsNoneEvent c \<longleftrightarrow> events c = kNoneEvent"

definition SetRevents :: "u32 \<Rightarrow> Channel \<Rightarrow> Channel" where
  "SetRevents r c = c\<lparr>revents := r\<rparr>"

definition Tie :: "Channel \<Rightarrow> Channel" where
  "Tie c = c\<lparr>tied := True\<rparr>"

datatype ChannelCallback = CbClose | CbError | CbRead | CbWrite

definition HandleEventWithGuard :: "Channel \<Rightarrow> ChannelCallback list" where
  "HandleEventWithGuard c =
     (if revents c AND EPOLLHUP \<noteq> 0 \<and> revents c AND EPOLLIN = 0
      then (if has_close_callback c then [CbClose] else [])
      else (if revents c AND EPOLLERR \<noteq> 0 \<and> has_error_callback c then [CbError] else [])
        @ (if revents c AND (EPOLLIN OR EPOLLPRI OR EPOLLRDHUP) \<noteq> 0 \<and> has_read_callback c then [CbRead] else [])
        @ (if revents c AND EPOLLOUT \<noteq> 0 \<and> has_write_callback c then [CbWrite] else []))"

text \<open>\<open>owner_alive\<close>: the weak pointer of a tied channel could be locked.\<close>

definition HandleEvent :: "bool \<Rightarrow> Channel \<Rightarrow> ChannelCallback list" where
  "HandleEvent owner_alive c = (if tied c \<and> \<not> owner_alive then [] else HandleEventWithGuard c)"

section \<open>Registration\<close>

text \<open>\<open>channels\<close> is the loop's own table, \<open>interest\<close> the kernel's.\<close>

record Poller =
  poller_valid :: bool
  channels :: "int \<rightharpoonup> nat"
  interest :: "int \<rightharpoonup> u32 \<times> nat"

datatype CtlOp = EPOLL_CTL_ADD | EPOLL_CTL_MOD | EPOLL_CTL_DEL

fun epoll_ctl :: "bool \<Rightarrow> CtlOp \<Rightarrow> int \<Rightarrow> u32 \<times> nat \<Rightarrow> (int \<rightharpoonup> u32 \<times> nat) \<Rightarrow> (int \<rightharpoonup> u32 \<times> nat) option" where
  "epoll_ctl granted EPOLL_CTL_ADD fd event m = (if granted \<and> m fd = None then Some (m(fd \<mapsto> event)) else None)"
| "epoll_ctl granted EPOLL_CTL_MOD fd event m = (if granted \<and> m fd \<noteq> None then Some (m(fd \<mapsto> event)) else None)"
| "epoll_ctl granted EPOLL_CTL_DEL fd event m = (if granted \<and> m fd \<noteq> None then Some (m(fd := None)) else None)"

definition UpdateChannel :: "bool \<Rightarrow> nat \<Rightarrow> Channel \<times> Poller \<Rightarrow> bool \<times> Channel \<times> Poller" where
  "UpdateChannel granted ptr = (\<lambda>(c, p).
     if \<not> poller_valid p then (False, c, p)
     else let fd = channel_fd c in
       if fd < 0 then (False, c, p)
       else let event = (events c, ptr) in
         if \<not> added_to_loop c then
           let p = p\<lparr>channels := (channels p)(fd \<mapsto> ptr)\<rparr> in
           if IsNoneEvent c then (True, c, p)
           else (case epoll_ctl granted EPOLL_CTL_ADD fd event (interest p) of
                   None \<Rightarrow> (False, c, p)
                 | Some m \<Rightarrow> (True, c\<lparr>added_to_loop := True\<rparr>, p\<lparr>interest := m\<rparr>))
         else if IsNoneEvent c then
           (case epoll_ctl granted EPOLL_CTL_DEL fd event (interest p) of
              None \<Rightarrow> (False, c, p)
            | Some m \<Rightarrow> (True, c\<lparr>added_to_loop := False\<rparr>, p\<lparr>interest := m\<rparr>))
         else
           (case epoll_ctl granted EPOLL_CTL_MOD fd event (interest p) of
              None \<Rightarrow> (False, c, p)
            | Some m \<Rightarrow> (True, c, p\<lparr>interest := m\<rparr>)))"

definition RemoveChannel :: "bool \<Rightarrow> nat \<Rightarrow> Channel \<times> Poller \<Rightarrow> bool \<times> Channel \<times> Poller" where
  "RemoveChannel granted ptr = (\<lambda>(c, p).
     let fd = channel_fd c;
         p = (if channels p fd \<noteq> None then p\<lparr>channels := (channels p)(fd := None)\<rparr> else p)
     in if poller_valid p \<and> added_to_loop c then
          (case epoll_ctl granted EPOLL_CTL_DEL fd (0, ptr) (interest p) of
             None \<Rightarrow> (False, c, p)
           | Some m \<Rightarrow> (True, c\<lparr>added_to_loop := False\<rparr>, p\<lparr>interest := m\<rparr>))
        else (True, c, p))"

text \<open>The channels of the modelled objects have a loop, so \<open>Update\<close> always reaches \<open>UpdateChannel\<close>; its result is not
  looked at.\<close>

definition Update :: "bool \<Rightarrow> nat \<Rightarrow> Channel \<times> Poller \<Rightarrow> Channel \<times> Poller" where
  "Update granted ptr cp = snd (UpdateChannel granted ptr cp)"

definition EnableReading :: "bool \<Rightarrow> nat \<Rightarrow> Channel \<times> Poller \<Rightarrow> Channel \<times> Poller" where
  "EnableReading granted ptr = (\<lambda>(c, p). Update granted ptr (c\<lparr>events := events c OR kReadEvent\<rparr>, p))"

definition DisableReading :: "bool \<Rightarrow> nat \<Rightarrow> Channel \<times> Poller \<Rightarrow> Channel \<times> Poller" where
  "DisableReading granted ptr = (\<lambda>(c, p). Update granted ptr (c\<lparr>events := events c AND NOT kReadEvent\<rparr>, p))"

definition EnableWriting :: "bool \<Rightarrow> nat \<Rightarrow> Channel \<times> Poller \<Rightarrow> Channel \<times> Poller" where
  "EnableWriting granted ptr = (\<lambda>(c, p). Update granted ptr (c\<lparr>events := events c OR kWriteEvent\<rparr>, p))"

definition DisableWriting :: "bool \<Rightarrow> nat \<Rightarrow> Channel \<times> Poller \<Rightarrow> Channel \<times> Poller" where
  "DisableWriting granted ptr = (\<lambda>(c, p). Update granted ptr (c\<lparr>events := events c AND NOT kWriteEvent\<rparr>, p))"

definition DisableAll :: "bool \<Rightarrow> nat \<Rightarrow> Channel \<times> Poller \<Rightarrow> Channel \<times> Poller" where
  "DisableAll granted ptr = (\<lambda>(c, p). Update granted ptr (c\<lparr>events := kNoneEvent\<rparr>, p))"

lemmas channel_ops = EnableReading_def DisableReading_def EnableWriting_def DisableWriting_def DisableAll_def

section \<open>Masks\<close>

lemma kWriteEvent_bit: "(x::u32) AND kWriteEvent \<noteq> 0 \<longleftrightarrow> bit x 2"
  using and_exp_eq_0_iff_not_bit [of x 2] by (simp add: kWriteEvent_def EPOLLOUT_def)

lemma IsWriting_bit: "IsWriting c \<longleftrightarrow> bit (events c) 2"
  by (simp add: IsWriting_def kWriteEvent_bit)

lemma bit_kWriteEvent: "bit kWriteEvent n \<longleftrightarrow> n = 2"
proof -
  have w: "kWriteEvent = push_bit 2 1" by (simp add: kWriteEvent_def EPOLLOUT_def push_bit_eq_mult)
  show ?thesis unfolding w bit_push_bit_iff by (auto simp: bit_1_iff)
qed

lemma bit_kReadEvent_2: "\<not> bit kReadEvent 2"
  by (simp add: kReadEvent_def epoll_bits bit_or_iff)

lemma kReadEvent_nonzero: "kReadEvent \<noteq> 0"
  by (simp add: kReadEvent_def epoll_bits)

text \<open>What the mask operations do to the two questions asked of a mask.\<close>

lemma writing_masks [simp]:
  "bit ((x::u32) OR kWriteEvent) 2" "\<not> bit ((x::u32) AND NOT kWriteEvent) 2"
  "bit ((x::u32) OR kReadEvent) 2 \<longleftrightarrow> bit x 2" "bit ((x::u32) AND NOT kReadEvent) 2 \<longleftrightarrow> bit x 2"
  "\<not> bit kNoneEvent 2"
  by (simp_all add: bit_or_iff bit_and_iff bit_not_iff bit_kWriteEvent bit_kReadEvent_2 possible_bit_word kNoneEvent_def)

lemma read_write_disjoint: "kWriteEvent AND kReadEvent = 0" "NOT kWriteEvent AND kReadEvent = kReadEvent"
  by (simp_all add: kWriteEvent_def kReadEvent_def epoll_bits)

lemma reading_masks [simp]:
  "((x::u32) OR kReadEvent) AND kReadEvent = kReadEvent" "((x::u32) OR kWriteEvent) AND kReadEvent = x AND kReadEvent"
  "((x::u32) AND NOT kWriteEvent) AND kReadEvent = x AND kReadEvent" "kNoneEvent AND kReadEvent = 0"
  using read_write_disjoint
  by (simp_all add: bit.conj_disj_distrib2 and.assoc kNoneEvent_def)

lemma reading_not_none: "x AND kReadEvent = kReadEvent \<Longrightarrow> x \<noteq> kNoneEvent"
  using kReadEvent_nonzero by (auto simp: kNoneEvent_def)

section \<open>Channel and kernel agree\<close>

text \<open>\<open>linked\<close>: the channel knows whether the kernel watches its descriptor, and the kernel then points back to it.
  \<open>synced\<close>: the kernel also watches for exactly the events of the channel.\<close>

definition linked :: "nat \<Rightarrow> Channel \<Rightarrow> Poller \<Rightarrow> bool" where
  "linked ptr c p \<longleftrightarrow> poller_valid p \<and> 0 \<le> channel_fd c
     \<and> (if added_to_loop c then \<exists>e. interest p (channel_fd c) = Some (e, ptr) else interest p (channel_fd c) = None)"

definition synced :: "nat \<Rightarrow> Channel \<Rightarrow> Poller \<Rightarrow> bool" where
  "synced ptr c p \<longleftrightarrow> poller_valid p \<and> 0 \<le> channel_fd c \<and> (added_to_loop c \<longleftrightarrow> \<not> IsNoneEvent c)
     \<and> interest p (channel_fd c) = (if IsNoneEvent c then None else Some (events c, ptr))"

lemma synced_linked: "synced ptr c p \<Longrightarrow> linked ptr c p"
  by (auto simp: synced_def linked_def)

lemma Update_cases:
  assumes "linked ptr c p"
  shows "\<exists>b m t. Update granted ptr (c, p) = (c\<lparr>added_to_loop := b\<rparr>, p\<lparr>channels := t, interest := m\<rparr>)
     \<and> linked ptr (c\<lparr>added_to_loop := b\<rparr>) (p\<lparr>channels := t, interest := m\<rparr>)
     \<and> (\<forall>fd. fd \<noteq> channel_fd c \<longrightarrow> m fd = interest p fd \<and> t fd = channels p fd)
     \<and> (granted \<longrightarrow> synced ptr (c\<lparr>added_to_loop := b\<rparr>) (p\<lparr>channels := t, interest := m\<rparr>))"
proof -
  have same: "c = c\<lparr>added_to_loop := added_to_loop c\<rparr>" "p = p\<lparr>channels := channels p, interest := interest p\<rparr>" by simp_all
  consider "\<not> added_to_loop c" "IsNoneEvent c" | "\<not> added_to_loop c" "\<not> IsNoneEvent c" | "added_to_loop c" "IsNoneEvent c"
    | "added_to_loop c" "\<not> IsNoneEvent c" by blast
  then show ?thesis
  proof cases
    case 1
    with assms show ?thesis
      by (intro exI [of _ "added_to_loop c"] exI [of _ "interest p"] exI [of _ "(channels p)(channel_fd c \<mapsto> ptr)"])
        (auto simp: Update_def UpdateChannel_def linked_def synced_def IsNoneEvent_def Let_def)
  next
    case 2
    with assms show ?thesis
      by (intro exI [of _ granted] exI [of _ "if granted then (interest p)(channel_fd c \<mapsto> (events c, ptr)) else interest p"]
          exI [of _ "(channels p)(channel_fd c \<mapsto> ptr)"])
        (auto simp: Update_def UpdateChannel_def linked_def synced_def IsNoneEvent_def Let_def)
  next
    case 3
    with assms show ?thesis
      by (intro exI [of _ "\<not> granted"] exI [of _ "if granted then (interest p)(channel_fd c := None) else interest p"]
          exI [of _ "channels p"])
        (auto simp: Update_def UpdateChannel_def linked_def synced_def IsNoneEvent_def Let_def)
  next
    case 4
    with assms show ?thesis
      by (intro exI [of _ True] exI [of _ "if granted then (interest p)(channel_fd c \<mapsto> (events c, ptr)) else interest p"]
          exI [of _ "channels p"])
        (auto simp: Update_def UpdateChannel_def linked_def synced_def IsNoneEvent_def Let_def)
  qed
qed

lemma RemoveChannel_cases:
  assumes "linked ptr c p"
  shows "\<exists>ok b m t. RemoveChannel granted ptr (c, p) = (ok, c\<lparr>added_to_loop := b\<rparr>, p\<lparr>channels := t, interest := m\<rparr>)
     \<and> linked ptr (c\<lparr>added_to_loop := b\<rparr>) (p\<lparr>channels := t, interest := m\<rparr>) \<and> t (channel_fd c) = None
     \<and> (\<forall>fd. fd \<noteq> channel_fd c \<longrightarrow> m fd = interest p fd \<and> t fd = channels p fd)
     \<and> (granted \<longrightarrow> ok \<and> \<not> b \<and> m (channel_fd c) = None)"
proof -
  have t: "(if channels p (channel_fd c) \<noteq> None then p\<lparr>channels := (channels p)(channel_fd c := None)\<rparr> else p)
      = p\<lparr>channels := (channels p)(channel_fd c := None)\<rparr>"
    by (auto simp: fun_upd_idem)
  show ?thesis
    using assms
    by (intro exI [of _ "granted \<or> \<not> added_to_loop c"] exI [of _ "added_to_loop c \<and> \<not> granted"]
        exI [of _ "if granted then (interest p)(channel_fd c := None) else interest p"]
        exI [of _ "(channels p)(channel_fd c := None)"])
      (auto simp: RemoveChannel_def Let_def t linked_def fun_upd_idem)
qed

end
