(* ===== verification/Event_Loop.thy ===== *)
theory Event_Loop
  imports Net_Channel Timer_Queue
begin

text \<open>
  \<open>common/net/EventLoop.cpp\<close> and \<open>common/net/EventLoopThread.cpp\<close>: the loop that waits in \<open>epoll_wait\<close>, dispatches the events of
  the registered channels and runs the functors queued for it, the wake-up descriptor that makes it leave \<open>epoll_wait\<close>, and
  the thread that owns a loop.

  \<open>Loop\<close> is cut into steps at \<open>pc\<close>: the test of \<open>quit_\<close>, the wait, one channel of the batch at a time, the swap of the pending
  functors, one functor at a time. Between them come the steps of other threads, and, while a callback or functor runs,
  the calls it makes on the loop. \<open>QueueInLoop\<close> and \<open>Quit\<close> on another thread are two steps, what they store and the \<open>Wakeup\<close>
  that follows; \<open>wakers\<close> counts the threads in between. Functors are numbers. The \<open>eventfd\<close> counter is a 64 bit
  number that does not pass its maximum (\<open>write\<close> fails then, which \<open>Wakeup\<close> ignores). The channels live in a heap; an access to
  a channel that is no longer there is the result \<open>None\<close>. The wake-up channel is number 0.

  What \<open>epoll_wait\<close> returns is an argument; \<open>epoll_result_ok\<close> states what is known about it. Atomic variables are
  sequentially consistent here, although the class reads and writes them relaxed.
\<close>

section \<open>State\<close>

datatype LoopPc =
    PcIdle  \<comment> \<open>not inside \<open>Loop\<close>\<close>
  | PcTest
  | PcWait
  | PcEvents "(u32 \<times> nat) list" nat  \<comment> \<open>rest of the batch, \<open>event_count\<close>\<close>
  | PcFunctors "nat list" nat  \<comment> \<open>rest of the functors, \<open>event_count\<close>\<close>

record EventLoop =
  poller :: Poller
  heap :: "nat \<rightharpoonup> Channel"
  events_size :: nat
  looping :: bool
  quit :: bool
  calling_pending_functors :: bool
  pending :: "nat list"
  wakeup_value :: nat
  pc :: LoopPc
  wakers :: nat
  queued :: "nat list"  \<comment> \<open>observation only\<close>
  executed :: "nat list"  \<comment> \<open>observation only\<close>
  dispatched :: "(nat \<times> ChannelCallback list) list"  \<comment> \<open>observation only\<close>

definition kInitialEventListSize :: nat where
  "kInitialEventListSize = 16"

definition eventfd_max :: nat where
  "eventfd_max = 2 ^ 64 - 2"

text \<open>The constructor registers the wake-up channel.\<close>

definition EventLoop_new :: "int \<Rightarrow> EventLoop" where
  "EventLoop_new wakeup_fd =
     (let p = \<lparr>poller_valid = True, channels = Map.empty, interest = Map.empty\<rparr>;
          (c, p) = EnableReading True 0 ((Channel_new wakeup_fd)\<lparr>has_read_callback := True\<rparr>, p)
      in \<lparr>poller = p, heap = [0 \<mapsto> c], events_size = kInitialEventListSize, looping = False, quit = False,
          calling_pending_functors = False, pending = [], wakeup_value = 0, pc = PcIdle, wakers = 0,
          queued = [], executed = [], dispatched = []\<rparr>)"

section \<open>Operations\<close>

definition Wakeup :: "EventLoop \<Rightarrow> EventLoop" where
  "Wakeup l = (if wakeup_value l < eventfd_max then l\<lparr>wakeup_value := wakeup_value l + 1\<rparr> else l)"

definition HandleWakeupRead :: "EventLoop \<Rightarrow> EventLoop" where
  "HandleWakeupRead l = l\<lparr>wakeup_value := 0\<rparr>"

text \<open>On the loop's own thread.\<close>

definition Quit_in_loop :: "EventLoop \<Rightarrow> EventLoop" where
  "Quit_in_loop l = l\<lparr>quit := True\<rparr>"

definition QueueInLoop_in_loop :: "nat \<Rightarrow> EventLoop \<Rightarrow> EventLoop" where
  "QueueInLoop_in_loop f l =
     (let l = l\<lparr>pending := pending l @ [f], queued := queued l @ [f]\<rparr>
      in if calling_pending_functors l then Wakeup l else l)"

text \<open>On another thread: up to \<open>Wakeup\<close>, and \<open>Wakeup\<close>.\<close>

definition Quit_store :: "EventLoop \<Rightarrow> EventLoop" where
  "Quit_store l = l\<lparr>quit := True, wakers := wakers l + 1\<rparr>"

definition QueueInLoop_push :: "nat \<Rightarrow> EventLoop \<Rightarrow> EventLoop" where
  "QueueInLoop_push f l = l\<lparr>pending := pending l @ [f], queued := queued l @ [f], wakers := wakers l + 1\<rparr>"

definition waker_wakes :: "EventLoop \<Rightarrow> EventLoop" where
  "waker_wakes l = (if wakers l = 0 then l else Wakeup (l\<lparr>wakers := wakers l - 1\<rparr>))"

text \<open>\<open>RunInLoop\<close> of a functor that is a function on the loop.\<close>

definition RunInLoop :: "bool \<Rightarrow> (EventLoop \<Rightarrow> EventLoop) \<Rightarrow> nat \<Rightarrow> EventLoop \<Rightarrow> EventLoop" where
  "RunInLoop in_loop callback f l = (if in_loop then callback l else QueueInLoop_push f l)"

text \<open>Channel operations by user code on the loop thread. \<open>None\<close>: the channel does not exist.\<close>

definition on_heap :: "(nat \<Rightarrow> Channel \<times> Poller \<Rightarrow> Channel \<times> Poller) \<Rightarrow> nat \<Rightarrow> EventLoop \<Rightarrow> EventLoop option" where
  "on_heap f ptr l =
     (case heap l ptr of
        None \<Rightarrow> None
      | Some c \<Rightarrow> let (c', p') = f ptr (c, poller l) in Some (l\<lparr>heap := (heap l)(ptr \<mapsto> c'), poller := p'\<rparr>))"

definition new_channel :: "nat \<Rightarrow> int \<Rightarrow> EventLoop \<Rightarrow> EventLoop" where
  "new_channel ptr fd l = l\<lparr>heap := (heap l)(ptr \<mapsto> Channel_new fd)\<rparr>"

definition delete_channel :: "nat \<Rightarrow> EventLoop \<Rightarrow> EventLoop" where
  "delete_channel ptr l = l\<lparr>heap := (heap l)(ptr := None)\<rparr>"

text \<open>\<open>Loop\<close>, step by step.\<close>

definition Loop_enter :: "EventLoop \<Rightarrow> EventLoop" where
  "Loop_enter l =
     (if pc l \<noteq> PcIdle \<or> \<not> poller_valid (poller l) \<or> looping l then l
      else l\<lparr>looping := True, quit := False, pc := PcTest\<rparr>)"

definition Loop_test :: "EventLoop \<Rightarrow> EventLoop" where
  "Loop_test l =
     (if pc l \<noteq> PcTest then l
      else if \<not> quit l then l\<lparr>pc := PcWait\<rparr> else l\<lparr>looping := False, pc := PcIdle\<rparr>)"

definition Loop_wait :: "(int + (u32 \<times> nat) list) \<Rightarrow> EventLoop \<Rightarrow> EventLoop" where
  "Loop_wait result l =
     (if pc l \<noteq> PcWait then l
      else case result of
        Inl errno \<Rightarrow> if errno = 4 then l\<lparr>pc := PcTest\<rparr> else l\<lparr>looping := False, pc := PcIdle\<rparr>
      | Inr evs \<Rightarrow> l\<lparr>pc := PcEvents evs (length evs)\<rparr>)"

definition Loop_event :: "bool \<Rightarrow> EventLoop \<Rightarrow> EventLoop option" where
  "Loop_event owner_alive l =
     (case pc l of
        PcEvents ((r, ptr) # evs) n \<Rightarrow>
          (case heap l ptr of
             None \<Rightarrow> None
           | Some c \<Rightarrow>
               let c = SetRevents r c;
                   cbs = HandleEvent owner_alive c;
                   l = l\<lparr>heap := (heap l)(ptr \<mapsto> c), pc := PcEvents evs n, dispatched := dispatched l @ [(ptr, cbs)]\<rparr>
               in Some (if ptr = 0 \<and> CbRead \<in> set cbs then HandleWakeupRead l else l))
      | _ \<Rightarrow> Some l)"

definition DoPendingFunctors_swap :: "EventLoop \<Rightarrow> EventLoop" where
  "DoPendingFunctors_swap l =
     (case pc l of
        PcEvents [] n \<Rightarrow> l\<lparr>calling_pending_functors := True, pending := [], pc := PcFunctors (pending l) n\<rparr>
      | _ \<Rightarrow> l)"

definition DoPendingFunctors_run :: "EventLoop \<Rightarrow> EventLoop" where
  "DoPendingFunctors_run l =
     (case pc l of
        PcFunctors (f # fs) n \<Rightarrow> l\<lparr>pc := PcFunctors fs n, executed := executed l @ [f]\<rparr>
      | _ \<Rightarrow> l)"

definition Loop_again :: "EventLoop \<Rightarrow> EventLoop" where
  "Loop_again l =
     (case pc l of
        PcFunctors [] n \<Rightarrow>
          l\<lparr>calling_pending_functors := False, pc := PcTest,
            events_size := (if n = events_size l then events_size l * 2 else events_size l)\<rparr>
      | _ \<Rightarrow> l)"

section \<open>Timers\<close>

text \<open>\<open>RunAfter\<close>, \<open>RunEvery\<close> and \<open>Cancel\<close> on the loop's timer queue (delays in milliseconds, times in nanoseconds);
  \<open>has_queue\<close>: the queue was constructed and is valid.\<close>

definition RunAfter :: "bool \<Rightarrow> int \<Rightarrow> bool \<Rightarrow> int \<Rightarrow> bool \<Rightarrow> TimerQueue \<Rightarrow> u64 option \<times> TimerQueue" where
  "RunAfter in_loop now has_queue delay callback q =
     (if \<not> callback \<or> delay < 0 then (None, q)
      else if \<not> has_queue then (None, q)
      else AddTimer in_loop now callback (now + delay * 1000000) 0 q)"

definition RunEvery :: "bool \<Rightarrow> int \<Rightarrow> bool \<Rightarrow> int \<Rightarrow> bool \<Rightarrow> TimerQueue \<Rightarrow> u64 option \<times> TimerQueue" where
  "RunEvery in_loop now has_queue iv callback q =
     (if \<not> callback \<or> iv \<le> 0 then (None, q)
      else if \<not> has_queue then (None, q)
      else AddTimer in_loop now callback (now + iv * 1000000) iv q)"

definition Cancel_timer :: "bool \<Rightarrow> int \<Rightarrow> bool \<Rightarrow> bool \<times> u64 \<Rightarrow> TimerQueue \<Rightarrow> bool \<times> TimerQueue" where
  "Cancel_timer in_loop now has_queue timer_id q =
     (if \<not> has_queue then (False, q) else Timer_Queue.Cancel in_loop now timer_id q)"

section \<open>Steps\<close>

datatype LoopOp =
    OpEnter | OpTest | OpWait "int + (u32 \<times> nat) list" | OpDispatch bool | OpSwap | OpRun | OpAgain
  | OpQuit | OpQueue nat
  | OpForeignQuit | OpForeignQueue nat | OpWake
  | OpNewChannel nat int | OpDeleteChannel nat
  | OpEnableReading bool nat | OpDisableReading bool nat | OpEnableWriting bool nat | OpDisableWriting bool nat
  | OpDisableAll bool nat | OpRemoveChannel bool nat

fun loop_do :: "LoopOp \<Rightarrow> EventLoop \<Rightarrow> EventLoop option" where
  "loop_do OpEnter l = Some (Loop_enter l)"
| "loop_do OpTest l = Some (Loop_test l)"
| "loop_do (OpWait result) l = Some (Loop_wait result l)"
| "loop_do (OpDispatch owner_alive) l = Loop_event owner_alive l"
| "loop_do OpSwap l = Some (DoPendingFunctors_swap l)"
| "loop_do OpRun l = Some (DoPendingFunctors_run l)"
| "loop_do OpAgain l = Some (Loop_again l)"
| "loop_do OpQuit l = Some (Quit_in_loop l)"
| "loop_do (OpQueue f) l = Some (QueueInLoop_in_loop f l)"
| "loop_do OpForeignQuit l = Some (Quit_store l)"
| "loop_do (OpForeignQueue f) l = Some (QueueInLoop_push f l)"
| "loop_do OpWake l = Some (waker_wakes l)"
| "loop_do (OpNewChannel ptr fd) l = Some (new_channel ptr fd l)"
| "loop_do (OpDeleteChannel ptr) l = Some (delete_channel ptr l)"
| "loop_do (OpEnableReading g ptr) l = on_heap (EnableReading g) ptr l"
| "loop_do (OpDisableReading g ptr) l = on_heap (DisableReading g) ptr l"
| "loop_do (OpEnableWriting g ptr) l = on_heap (EnableWriting g) ptr l"
| "loop_do (OpDisableWriting g ptr) l = on_heap (DisableWriting g) ptr l"
| "loop_do (OpDisableAll g ptr) l = on_heap (DisableAll g) ptr l"
| "loop_do (OpRemoveChannel g ptr) l = on_heap (\<lambda>ptr cp. snd (RemoveChannel g ptr cp)) ptr l"

definition loop_step :: "EventLoop option \<Rightarrow> LoopOp \<Rightarrow> EventLoop option" where
  "loop_step s op = s \<bind> loop_do op"

section \<open>Invariant\<close>

definition batch :: "LoopPc \<Rightarrow> (u32 \<times> nat) list" where
  "batch p = (case p of PcEvents evs n \<Rightarrow> evs | _ \<Rightarrow> [])"

definition taken_functors :: "LoopPc \<Rightarrow> nat list" where
  "taken_functors p = (case p of PcFunctors fs n \<Rightarrow> fs | _ \<Rightarrow> [])"

definition dispatching :: "LoopPc \<Rightarrow> bool" where
  "dispatching p = (case p of PcEvents evs n \<Rightarrow> True | _ \<Rightarrow> False)"

definition running_functors :: "LoopPc \<Rightarrow> bool" where
  "running_functors p = (case p of PcFunctors fs n \<Rightarrow> True | _ \<Rightarrow> False)"

lemma pc_parts [simp]:
  "batch PcIdle = []" "batch PcTest = []" "batch PcWait = []" "batch (PcEvents evs n) = evs" "batch (PcFunctors fs n) = []"
  "taken_functors PcIdle = []" "taken_functors PcTest = []" "taken_functors PcWait = []" "taken_functors (PcEvents evs n) = []"
  "taken_functors (PcFunctors fs n) = fs"
  "\<not> dispatching PcIdle" "\<not> dispatching PcTest" "\<not> dispatching PcWait" "dispatching (PcEvents evs n)" "\<not> dispatching (PcFunctors fs n)"
  "\<not> running_functors PcIdle" "\<not> running_functors PcTest" "\<not> running_functors PcWait" "\<not> running_functors (PcEvents evs n)"
  "running_functors (PcFunctors fs n)"
  by (simp_all add: batch_def taken_functors_def dispatching_def running_functors_def)

text \<open>What is known of the kernel: events are reported for registered channels, at most as many as there is room for, and a
  wait does not come back empty handed while the wake-up descriptor is readable.\<close>

definition registered :: "EventLoop \<Rightarrow> nat \<Rightarrow> bool" where
  "registered l ptr =
     (case heap l ptr of
        None \<Rightarrow> False
      | Some c \<Rightarrow> (case interest (poller l) (channel_fd c) of None \<Rightarrow> False | Some (e, p) \<Rightarrow> p = ptr))"

definition epoll_result_ok :: "EventLoop \<Rightarrow> (int + (u32 \<times> nat) list) \<Rightarrow> bool" where
  "epoll_result_ok l result =
     (case result of
        Inl errno \<Rightarrow> True
      | Inr evs \<Rightarrow> length evs \<le> events_size l \<and> list_all (\<lambda>(r, ptr). registered l ptr) evs
          \<and> (wakeup_value l > 0 \<longrightarrow> evs \<noteq> []))"

text \<open>Inside \<open>Loop\<close> the owner thread runs user code while it dispatches events or runs functors.\<close>

definition in_user_code :: "LoopPc \<Rightarrow> bool" where
  "in_user_code p \<longleftrightarrow> p \<noteq> PcIdle \<and> p \<noteq> PcTest \<and> p \<noteq> PcWait"

text \<open>What the users of the loop keep to: the owner thread queues functors only from inside \<open>Loop\<close>; a new channel has a descriptor of its
  own; a channel is destroyed after it was removed and not while the current batch still names it.\<close>

fun loop_call_ok :: "EventLoop \<Rightarrow> LoopOp \<Rightarrow> bool" where
  "loop_call_ok l (OpWait result) \<longleftrightarrow> epoll_result_ok l result"
| "loop_call_ok l (OpQueue f) \<longleftrightarrow> in_user_code (pc l)"
| "loop_call_ok l OpQuit \<longleftrightarrow> pc l \<noteq> PcWait"
| "loop_call_ok l (OpNewChannel ptr fd) \<longleftrightarrow> heap l ptr = None \<and> 0 \<le> fd \<and> (\<forall>c\<in>ran (heap l). channel_fd c \<noteq> fd)"
| "loop_call_ok l (OpDeleteChannel ptr) \<longleftrightarrow>
     ptr \<noteq> 0 \<and> (case heap l ptr of None \<Rightarrow> False | Some c \<Rightarrow> \<not> added_to_loop c) \<and> ptr \<notin> snd ` set (batch (pc l))"
| "loop_call_ok l (OpEnableReading g ptr) \<longleftrightarrow> ptr \<noteq> 0 \<and> heap l ptr \<noteq> None"
| "loop_call_ok l (OpDisableReading g ptr) \<longleftrightarrow> ptr \<noteq> 0 \<and> heap l ptr \<noteq> None"
| "loop_call_ok l (OpEnableWriting g ptr) \<longleftrightarrow> ptr \<noteq> 0 \<and> heap l ptr \<noteq> None"
| "loop_call_ok l (OpDisableWriting g ptr) \<longleftrightarrow> ptr \<noteq> 0 \<and> heap l ptr \<noteq> None"
| "loop_call_ok l (OpDisableAll g ptr) \<longleftrightarrow> ptr \<noteq> 0 \<and> heap l ptr \<noteq> None"
| "loop_call_ok l (OpRemoveChannel g ptr) \<longleftrightarrow> ptr \<noteq> 0 \<and> heap l ptr \<noteq> None"
| "loop_call_ok l op \<longleftrightarrow> True"

definition loop_calls_ok :: "EventLoop option \<Rightarrow> LoopOp \<Rightarrow> bool" where
  "loop_calls_ok s op = (case s of None \<Rightarrow> False | Some l \<Rightarrow> loop_call_ok l op)"

text \<open>Registration: every channel knows whether it is registered, and the kernel points to existing channels only.\<close>

definition reg_inv :: "(nat \<rightharpoonup> Channel) \<Rightarrow> Poller \<Rightarrow> bool" where
  "reg_inv h p \<longleftrightarrow> poller_valid p
     \<and> (\<forall>ptr c. h ptr = Some c \<longrightarrow> linked ptr c p)
     \<and> (\<forall>ptr ptr' c c'. h ptr = Some c \<longrightarrow> h ptr' = Some c' \<longrightarrow> channel_fd c = channel_fd c' \<longrightarrow> ptr = ptr')
     \<and> (\<forall>fd e ptr. interest p fd = Some (e, ptr) \<longrightarrow> (\<exists>c. h ptr = Some c \<and> channel_fd c = fd))"

definition wakeup_inv :: "Channel option \<Rightarrow> Poller \<Rightarrow> bool" where
  "wakeup_inv x p \<longleftrightarrow> (\<exists>c. x = Some c \<and> events c = kReadEvent \<and> synced 0 c p)"

definition batch_inv :: "(u32 \<times> nat) list \<Rightarrow> (nat \<rightharpoonup> Channel) \<Rightarrow> bool" where
  "batch_inv evs h \<longleftrightarrow> snd ` set evs \<subseteq> dom h"

text \<open>Functors: executed, taken and pending ones are the queued ones in order; and there is a wake-up on its way
  whenever the loop could fall asleep over a functor or a request to quit.\<close>

definition functor_inv :: "EventLoop \<Rightarrow> bool" where
  "functor_inv l \<longleftrightarrow> executed l @ taken_functors (pc l) @ pending l = queued l
     \<and> (calling_pending_functors l \<longleftrightarrow> running_functors (pc l)) \<and> (looping l \<longleftrightarrow> pc l \<noteq> PcIdle)"

definition wake_inv :: "LoopPc \<Rightarrow> nat list \<Rightarrow> bool \<Rightarrow> nat \<Rightarrow> nat \<Rightarrow> bool" where
  "wake_inv p pend q value waking \<longleftrightarrow>
     (\<not> dispatching p \<and> pend \<noteq> [] \<or> p = PcWait \<and> q) \<longrightarrow> value > 0 \<or> waking > 0"

definition loop_ok :: "EventLoop \<Rightarrow> bool" where
  "loop_ok l \<longleftrightarrow> reg_inv (heap l) (poller l) \<and> wakeup_inv (heap l 0) (poller l) \<and> batch_inv (batch (pc l)) (heap l)
     \<and> functor_inv l \<and> wake_inv (pc l) (pending l) (quit l) (wakeup_value l) (wakers l)"

definition loop_invar :: "EventLoop option \<Rightarrow> bool" where
  "loop_invar s = (case s of None \<Rightarrow> False | Some l \<Rightarrow> loop_ok l)"

lemma EventLoop_new_eq:
  "0 \<le> fd \<Longrightarrow> EventLoop_new fd =
     \<lparr>poller = \<lparr>poller_valid = True, channels = [fd \<mapsto> 0], interest = [fd \<mapsto> (kReadEvent, 0)]\<rparr>,
      heap = [0 \<mapsto> (Channel_new fd)\<lparr>has_read_callback := True, events := kReadEvent, added_to_loop := True\<rparr>],
      events_size = kInitialEventListSize, looping = False, quit = False, calling_pending_functors = False, pending = [],
      wakeup_value = 0, pc = PcIdle, wakers = 0, queued = [], executed = [], dispatched = []\<rparr>"
  using reading_not_none [of kReadEvent]
  by (simp add: EventLoop_new_def EnableReading_def Update_def UpdateChannel_def Channel_new_def IsNoneEvent_def Let_def kNoneEvent_def)

lemma loop_ok_new: "0 \<le> fd \<Longrightarrow> loop_ok (EventLoop_new fd)"
  using reading_not_none [of kReadEvent]
  by (auto simp: EventLoop_new_eq loop_ok_def reg_inv_def wakeup_inv_def batch_inv_def functor_inv_def wake_inv_def linked_def
      synced_def IsNoneEvent_def Channel_new_def split: if_splits)

section \<open>Registration\<close>

text \<open>An operation on one channel touches the kernel's entry for its descriptor only.\<close>

lemma reg_inv_upd:
  assumes inv: "reg_inv h p" and c: "h ptr = Some c" and fd: "channel_fd c' = channel_fd c" and l: "linked ptr c' p'"
    and other: "\<And>fd. fd \<noteq> channel_fd c \<Longrightarrow> interest p' fd = interest p fd"
  shows "reg_inv (h(ptr \<mapsto> c')) p'"
proof -
  have inj: "channel_fd d \<noteq> channel_fd c" if "h q = Some d" "q \<noteq> ptr" for q d
    using inv c that unfolding reg_inv_def by metis
  have "linked q d p'" if "(h(ptr \<mapsto> c')) q = Some d" for q d
  proof (cases "q = ptr")
    case False
    with that have "h q = Some d" by simp
    with inv have "linked q d p" unfolding reg_inv_def by blast
    with other [OF inj [OF \<open>h q = Some d\<close> False]] l show ?thesis by (simp add: linked_def)
  qed (use that l in simp)
  moreover have "\<exists>d. (h(ptr \<mapsto> c')) q = Some d \<and> channel_fd d = f" if i: "interest p' f = Some (e, q)" for f e q
  proof (cases "f = channel_fd c")
    case True
    with i l fd have "q = ptr" by (auto simp: linked_def split: if_splits)
    with True fd show ?thesis by simp
  next
    case False
    with i other have "interest p f = Some (e, q)" by simp
    with inv obtain d where d: "h q = Some d" "channel_fd d = f" unfolding reg_inv_def by blast
    with False c have "q \<noteq> ptr" by auto
    with d show ?thesis by simp
  qed
  moreover have "q = q'" if "(h(ptr \<mapsto> c')) q = Some d" "(h(ptr \<mapsto> c')) q' = Some d'" "channel_fd d = channel_fd d'" for q q' d d'
    using that inj fd inv unfolding reg_inv_def by (metis fun_upd_apply option.inject)
  moreover have "poller_valid p'" using l by (simp add: linked_def)
  ultimately show ?thesis unfolding reg_inv_def by blast
qed

lemma wakeup_inv_upd:
  assumes reg: "reg_inv h p" and c: "h ptr = Some c" "ptr \<noteq> 0" and w: "wakeup_inv (h 0) p"
    and p': "poller_valid p'" "\<And>fd. fd \<noteq> channel_fd c \<Longrightarrow> interest p' fd = interest p fd"
  shows "wakeup_inv (h 0) p'"
proof -
  from w obtain d where d: "h 0 = Some d" "events d = kReadEvent" "synced 0 d p" by (auto simp: wakeup_inv_def)
  with reg c have "channel_fd d \<noteq> channel_fd c" unfolding reg_inv_def by metis
  with d p' show ?thesis by (auto simp: wakeup_inv_def synced_def)
qed

lemma reg_inv_new:
  assumes reg: "reg_inv h p" and new: "h ptr = None" "0 \<le> fd" "\<And>q c. h q = Some c \<Longrightarrow> channel_fd c \<noteq> fd"
  shows "reg_inv (h(ptr \<mapsto> Channel_new fd)) p"
proof -
  have "interest p fd = None"
  proof (rule ccontr)
    assume "interest p fd \<noteq> None"
    then obtain e q where "interest p fd = Some (e, q)" by auto
    with reg new(3) show False unfolding reg_inv_def by blast
  qed
  then have l: "linked ptr (Channel_new fd) p" using new(2) reg by (simp add: linked_def Channel_new_def reg_inv_def)
  have fd: "channel_fd (Channel_new fd) = fd" by (simp add: Channel_new_def)
  show ?thesis
    unfolding reg_inv_def
  proof (intro conjI allI impI)
    fix q q' c c'
    assume "(h(ptr \<mapsto> Channel_new fd)) q = Some c" "(h(ptr \<mapsto> Channel_new fd)) q' = Some c'" "channel_fd c = channel_fd c'"
    with reg new(3) fd show "q = q'" unfolding reg_inv_def by (metis fun_upd_apply option.inject)
  next
    fix f e q
    assume "interest p f = Some (e, q)"
    then obtain d where "h q = Some d" "channel_fd d = f" using reg unfolding reg_inv_def by blast
    with new(1) show "\<exists>c. (h(ptr \<mapsto> Channel_new fd)) q = Some c \<and> channel_fd c = f" by (intro exI [of _ d]) auto
  qed (use reg l in \<open>auto simp: reg_inv_def split: if_splits\<close>)
qed

lemma on_heap_update_ok:
  assumes ok: "loop_ok l" and ptr: "ptr \<noteq> 0" "heap l ptr \<noteq> None"
    and f: "\<And>c p. f ptr (c, p) = Update g ptr (c\<lparr>events := mk (events c)\<rparr>, p)"
  shows "\<exists>l'. on_heap f ptr l = Some l' \<and> loop_ok l'"
proof -
  obtain c where c: "heap l ptr = Some c" using ptr by blast
  have reg: "reg_inv (heap l) (poller l)" using ok by (simp add: loop_ok_def)
  let ?c = "c\<lparr>events := mk (events c)\<rparr>"
  have "linked ptr ?c (poller l)" using reg c unfolding reg_inv_def by (auto simp: linked_def)
  from Update_cases [OF this, of g] obtain b m t where
    u: "Update g ptr (?c, poller l) = (?c\<lparr>added_to_loop := b\<rparr>, (poller l)\<lparr>channels := t, interest := m\<rparr>)"
    and l: "linked ptr (?c\<lparr>added_to_loop := b\<rparr>) ((poller l)\<lparr>channels := t, interest := m\<rparr>)"
    and o: "\<forall>fd. fd \<noteq> channel_fd c \<longrightarrow> m fd = interest (poller l) fd" by auto
  let ?l = "l\<lparr>heap := (heap l)(ptr \<mapsto> ?c\<lparr>added_to_loop := b\<rparr>), poller := (poller l)\<lparr>channels := t, interest := m\<rparr>\<rparr>"
  have "on_heap f ptr l = Some ?l" by (simp add: on_heap_def c f u)
  moreover have "reg_inv (heap ?l) (poller ?l)"
    using reg_inv_upd [OF reg c _ l] o by simp
  moreover have "wakeup_inv (heap ?l 0) (poller ?l)"
    using wakeup_inv_upd [OF reg c ptr(1)] ok l o ptr(1) by (simp add: loop_ok_def linked_def)
  ultimately show ?thesis using ok by (auto simp: loop_ok_def batch_inv_def functor_inv_def)
qed

lemma on_heap_remove_ok:
  assumes ok: "loop_ok l" and ptr: "ptr \<noteq> 0" "heap l ptr \<noteq> None"
  shows "\<exists>l'. on_heap (\<lambda>ptr cp. snd (RemoveChannel g ptr cp)) ptr l = Some l' \<and> loop_ok l'"
proof -
  obtain c where c: "heap l ptr = Some c" using ptr by blast
  have reg: "reg_inv (heap l) (poller l)" using ok by (simp add: loop_ok_def)
  have "linked ptr c (poller l)" using reg c unfolding reg_inv_def by auto
  from RemoveChannel_cases [OF this, of g] obtain r b m t where
    u: "RemoveChannel g ptr (c, poller l) = (r, c\<lparr>added_to_loop := b\<rparr>, (poller l)\<lparr>channels := t, interest := m\<rparr>)"
    and l: "linked ptr (c\<lparr>added_to_loop := b\<rparr>) ((poller l)\<lparr>channels := t, interest := m\<rparr>)"
    and o: "\<forall>fd. fd \<noteq> channel_fd c \<longrightarrow> m fd = interest (poller l) fd" by auto
  let ?l = "l\<lparr>heap := (heap l)(ptr \<mapsto> c\<lparr>added_to_loop := b\<rparr>), poller := (poller l)\<lparr>channels := t, interest := m\<rparr>\<rparr>"
  have "on_heap (\<lambda>ptr cp. snd (RemoveChannel g ptr cp)) ptr l = Some ?l" by (simp add: on_heap_def c u)
  moreover have "reg_inv (heap ?l) (poller ?l)" using reg_inv_upd [OF reg c _ l] o by simp
  moreover have "wakeup_inv (heap ?l 0) (poller ?l)"
    using wakeup_inv_upd [OF reg c ptr(1)] ok l o ptr(1) by (simp add: loop_ok_def linked_def)
  ultimately show ?thesis using ok by (auto simp: loop_ok_def batch_inv_def functor_inv_def)
qed

lemma on_heap_ops_ok:
  assumes "loop_ok l" "ptr \<noteq> 0" "heap l ptr \<noteq> None"
  shows "\<exists>l'. on_heap (EnableReading g) ptr l = Some l' \<and> loop_ok l'" "\<exists>l'. on_heap (DisableReading g) ptr l = Some l' \<and> loop_ok l'"
    "\<exists>l'. on_heap (EnableWriting g) ptr l = Some l' \<and> loop_ok l'" "\<exists>l'. on_heap (DisableWriting g) ptr l = Some l' \<and> loop_ok l'"
    "\<exists>l'. on_heap (DisableAll g) ptr l = Some l' \<and> loop_ok l'"
  by (rule on_heap_update_ok [OF assms], simp add: channel_ops)+

section \<open>The loop thread and the others\<close>

lemma new_channel_ok:
  assumes ok: "loop_ok l" and new: "heap l ptr = None" "0 \<le> fd" "\<forall>c\<in>ran (heap l). channel_fd c \<noteq> fd"
  shows "loop_ok (new_channel ptr fd l)"
proof -
  have reg: "reg_inv (heap l) (poller l)" and wake: "wakeup_inv (heap l 0) (poller l)" using ok by (simp_all add: loop_ok_def)
  have fresh: "channel_fd c \<noteq> fd" if "heap l q = Some c" for q c using new(3) that by (auto simp: ran_def)
  have "reg_inv ((heap l)(ptr \<mapsto> Channel_new fd)) (poller l)" by (rule reg_inv_new [OF reg new(1,2) fresh])
  moreover have "ptr \<noteq> 0" using wake new(1) by (cases "ptr = 0") (auto simp: wakeup_inv_def)
  ultimately show ?thesis using ok by (auto simp: loop_ok_def new_channel_def batch_inv_def functor_inv_def)
qed

lemma delete_channel_ok:
  assumes ok: "loop_ok l" and c: "heap l ptr = Some c" "\<not> added_to_loop c" "ptr \<noteq> 0" "ptr \<notin> snd ` set (batch (pc l))"
  shows "loop_ok (delete_channel ptr l)"
proof -
  have reg: "reg_inv (heap l) (poller l)" using ok by (simp add: loop_ok_def)
  then have none: "interest (poller l) (channel_fd c) = None" using c unfolding reg_inv_def by (auto simp: linked_def)
  have "reg_inv ((heap l)(ptr := None)) (poller l)"
    unfolding reg_inv_def
  proof (intro conjI allI impI)
    fix fd e q
    assume i: "interest (poller l) fd = Some (e, q)"
    then obtain d where "heap l q = Some d" "channel_fd d = fd" using reg unfolding reg_inv_def by blast
    with i none c show "\<exists>d. ((heap l)(ptr := None)) q = Some d \<and> channel_fd d = fd" by (cases "q = ptr") auto
  qed (use reg in \<open>auto simp: reg_inv_def split: if_splits\<close>)
  with ok c show ?thesis by (auto simp: loop_ok_def delete_channel_def batch_inv_def functor_inv_def)
qed

lemma SetRevents_fields [simp]:
  "channel_fd (SetRevents r c) = channel_fd c" "events (SetRevents r c) = events c"
  "linked ptr (SetRevents r c) p = linked ptr c p" "synced ptr (SetRevents r c) p = synced ptr c p"
  by (simp_all add: SetRevents_def linked_def synced_def IsNoneEvent_def)

lemma Loop_event_ok:
  assumes ok: "loop_ok l"
  shows "\<exists>l'. Loop_event alive l = Some l' \<and> loop_ok l'"
proof (cases "\<exists>r ptr evs n. pc l = PcEvents ((r, ptr) # evs) n")
  case True
  then obtain r ptr evs n where pc: "pc l = PcEvents ((r, ptr) # evs) n" by blast
  then obtain c where c: "heap l ptr = Some c" using ok by (auto simp: loop_ok_def batch_inv_def)
  let ?h = "(heap l)(ptr \<mapsto> SetRevents r c)"
  have reg: "reg_inv (heap l) (poller l)" using ok by (simp add: loop_ok_def)
  then have "linked ptr c (poller l)" using c unfolding reg_inv_def by blast
  then have "reg_inv ?h (poller l)" by (intro reg_inv_upd [OF reg c]) simp_all
  moreover have "wakeup_inv (?h 0) (poller l)" using ok c by (cases "ptr = 0") (auto simp: loop_ok_def wakeup_inv_def)
  moreover have "batch_inv evs ?h" using ok pc by (auto simp: loop_ok_def batch_inv_def)
  ultimately show ?thesis
    using ok pc c by (auto simp: Loop_event_def Let_def loop_ok_def functor_inv_def wake_inv_def HandleWakeupRead_def)
next
  case False
  then have "Loop_event alive l = Some l" by (auto simp: Loop_event_def split: LoopPc.splits list.splits)
  with ok show ?thesis by simp
qed

lemma registered_dom: "list_all (\<lambda>(r, ptr). registered l ptr) evs \<Longrightarrow> batch_inv evs (heap l)"
  by (auto simp: batch_inv_def list_all_iff registered_def split: option.splits)

lemma loop_thread_ok:
  assumes ok: "loop_ok l"
  shows "loop_ok (Loop_enter l)" "loop_ok (Loop_test l)" "epoll_result_ok l result \<Longrightarrow> loop_ok (Loop_wait result l)"
    "loop_ok (DoPendingFunctors_swap l)" "loop_ok (DoPendingFunctors_run l)" "loop_ok (Loop_again l)"
proof -
  show "loop_ok (Loop_enter l)"
    using ok by (auto simp: loop_ok_def Loop_enter_def batch_inv_def functor_inv_def wake_inv_def)
  show "loop_ok (Loop_test l)"
    using ok by (auto simp: loop_ok_def Loop_test_def batch_inv_def functor_inv_def wake_inv_def)
  show "loop_ok (Loop_wait result l)" if "epoll_result_ok l result"
  proof (cases "pc l = PcWait")
    case True
    with ok that registered_dom [of l] show ?thesis
      by (cases result) (auto simp: loop_ok_def Loop_wait_def epoll_result_ok_def batch_inv_def functor_inv_def wake_inv_def)
  qed (simp add: Loop_wait_def ok)
  show "loop_ok (DoPendingFunctors_swap l)"
  proof (cases "\<exists>n. pc l = PcEvents [] n")
    case True
    then show ?thesis using ok by (elim exE) (simp add: loop_ok_def DoPendingFunctors_swap_def batch_inv_def functor_inv_def wake_inv_def)
  next
    case False
    then have "DoPendingFunctors_swap l = l" by (auto simp: DoPendingFunctors_swap_def split: LoopPc.splits list.splits)
    with ok show ?thesis by simp
  qed
  show "loop_ok (DoPendingFunctors_run l)"
  proof (cases "\<exists>f fs n. pc l = PcFunctors (f # fs) n")
    case True
    then show ?thesis using ok by (elim exE) (simp add: loop_ok_def DoPendingFunctors_run_def batch_inv_def functor_inv_def wake_inv_def)
  next
    case False
    then have "DoPendingFunctors_run l = l" by (auto simp: DoPendingFunctors_run_def split: LoopPc.splits list.splits)
    with ok show ?thesis by simp
  qed
  show "loop_ok (Loop_again l)"
  proof (cases "\<exists>n. pc l = PcFunctors [] n")
    case True
    then show ?thesis using ok by (elim exE) (simp add: loop_ok_def Loop_again_def batch_inv_def functor_inv_def wake_inv_def)
  next
    case False
    then have "Loop_again l = l" by (auto simp: Loop_again_def split: LoopPc.splits list.splits)
    with ok show ?thesis by simp
  qed
qed

lemma thread_calls_ok:
  assumes ok: "loop_ok l"
  shows "pc l \<noteq> PcWait \<Longrightarrow> loop_ok (Quit_in_loop l)" "in_user_code (pc l) \<Longrightarrow> loop_ok (QueueInLoop_in_loop f l)"
    "loop_ok (Quit_store l)" "loop_ok (QueueInLoop_push f l)" "loop_ok (waker_wakes l)"
proof -
  show "loop_ok (Quit_in_loop l)" if "pc l \<noteq> PcWait"
    using ok that by (auto simp: loop_ok_def Quit_in_loop_def functor_inv_def wake_inv_def)
  show "loop_ok (QueueInLoop_in_loop f l)" if "in_user_code (pc l)"
    using ok that
    by (cases "pc l") (auto simp: in_user_code_def loop_ok_def QueueInLoop_in_loop_def Let_def Wakeup_def functor_inv_def wake_inv_def eventfd_max_def)
  show "loop_ok (Quit_store l)"
    using ok by (auto simp: loop_ok_def Quit_store_def functor_inv_def wake_inv_def)
  show "loop_ok (QueueInLoop_push f l)"
    using ok by (auto simp: loop_ok_def QueueInLoop_push_def functor_inv_def wake_inv_def)
  show "loop_ok (waker_wakes l)"
    using ok by (auto simp: loop_ok_def waker_wakes_def Wakeup_def functor_inv_def wake_inv_def eventfd_max_def)
qed

lemma loop_do_ok:
  assumes ok: "loop_ok l" and call: "loop_call_ok l op"
  shows "\<exists>l'. loop_do op l = Some l' \<and> loop_ok l'"
proof (cases op)
  case (OpDispatch alive)
  then show ?thesis using Loop_event_ok [OF ok] by simp
next
  case (OpWait result)
  then show ?thesis using loop_thread_ok(3) [OF ok] call by simp
next
  case OpQuit
  then show ?thesis using thread_calls_ok(1) [OF ok] call by simp
next
  case (OpQueue f)
  then show ?thesis using thread_calls_ok(2) [OF ok] call by simp
next
  case (OpNewChannel ptr fd)
  then show ?thesis using new_channel_ok [OF ok] call by simp
next
  case (OpDeleteChannel ptr)
  then show ?thesis using delete_channel_ok [OF ok, of ptr] call by (simp split: option.splits)
next
  case (OpEnableReading g ptr)
  then show ?thesis using on_heap_ops_ok(1) [OF ok] call by simp
next
  case (OpDisableReading g ptr)
  then show ?thesis using on_heap_ops_ok(2) [OF ok] call by simp
next
  case (OpEnableWriting g ptr)
  then show ?thesis using on_heap_ops_ok(3) [OF ok] call by simp
next
  case (OpDisableWriting g ptr)
  then show ?thesis using on_heap_ops_ok(4) [OF ok] call by simp
next
  case (OpDisableAll g ptr)
  then show ?thesis using on_heap_ops_ok(5) [OF ok] call by simp
next
  case (OpRemoveChannel g ptr)
  then show ?thesis using on_heap_remove_ok [OF ok] call by simp
qed (simp_all add: thread_calls_ok [OF ok] loop_thread_ok [OF ok])

lemma loop_stepE:
  assumes "loop_invar s" and "loop_calls_ok s op"
  obtains l l' where "s = Some l" "loop_ok l" "loop_call_ok l op" "loop_do op l = Some l'" "loop_ok l'" "loop_step s op = Some l'"
  using assms loop_do_ok by (auto simp: loop_invar_def loop_calls_ok_def loop_step_def split: option.splits)

interpretation el: guarded_object loop_step loop_calls_ok loop_invar
  by unfold_locales (erule (1) loop_stepE, simp add: loop_invar_def)

lemma loop_run_ok:
  assumes "0 \<le> fd" and "ok_run loop_calls_ok loop_step (Some (EventLoop_new fd)) ops"
  shows "\<exists>l. run_ops loop_step (Some (EventLoop_new fd)) ops = Some l \<and> loop_ok l"
  using el.run_invar [OF _ assms(2)] loop_ok_new [OF assms(1)] by (auto simp: loop_invar_def split: option.splits)

section \<open>The thread that owns a loop\<close>

datatype ThreadPc = ThNone | ThConstructed | ThReady | ThInLoop | ThFinished

record LoopThread =
  thread_loop :: EventLoop  \<comment> \<open>the local variable \<open>loop\<close> of \<open>ThreadFunc\<close>\<close>
  loop_ptr :: bool  \<comment> \<open>\<open>loop_\<close> is not null\<close>
  ready :: bool
  joinable :: bool
  thread_pc :: ThreadPc
  destroying :: bool
  destroyed :: bool

definition EventLoopThread_new :: "EventLoop \<Rightarrow> LoopThread" where
  "EventLoopThread_new l = \<lparr>thread_loop = l, loop_ptr = False, ready = False, joinable = False, thread_pc = ThNone,
     destroying = False, destroyed = False\<rparr>"

text \<open>\<open>StartLoop\<close> up to its wait; the thread has then constructed its loop. The result of \<open>StartLoop\<close> is known when \<open>ready\<close> holds.\<close>

definition StartLoop :: "int \<Rightarrow> LoopThread \<Rightarrow> LoopThread" where
  "StartLoop wakeup_fd t =
     (if joinable t then t
      else t\<lparr>loop_ptr := False, ready := False, joinable := True, thread_pc := ThConstructed, thread_loop := EventLoop_new wakeup_fd\<rparr>)"

definition StartLoop_result :: "LoopThread \<Rightarrow> bool option" where
  "StartLoop_result t = (if ready t then Some (loop_ptr t) else None)"

definition ThreadFunc_publish :: "LoopThread \<Rightarrow> LoopThread" where
  "ThreadFunc_publish t =
     (if thread_pc t \<noteq> ThConstructed then t
      else
        let valid = poller_valid (poller (thread_loop t));
            t = (if valid then t\<lparr>loop_ptr := True\<rparr> else t)
        in t\<lparr>ready := True, thread_pc := (if valid then ThReady else ThFinished)\<rparr>)"

definition ThreadFunc_enter :: "LoopThread \<Rightarrow> LoopThread" where
  "ThreadFunc_enter t =
     (if thread_pc t \<noteq> ThReady then t else t\<lparr>thread_loop := Loop_enter (thread_loop t), thread_pc := ThInLoop\<rparr>)"

text \<open>A step of the loop, or of another thread on it; the loop exists from its construction to the end of \<open>ThreadFunc\<close>.\<close>

definition thread_loop_step :: "LoopOp \<Rightarrow> LoopThread \<Rightarrow> LoopThread option" where
  "thread_loop_step op t =
     (if thread_pc t = ThNone \<or> thread_pc t = ThFinished then Some t
      else map_option (\<lambda>l. t\<lparr>thread_loop := l\<rparr>) (loop_do op (thread_loop t)))"

definition ThreadFunc_leave :: "LoopThread \<Rightarrow> LoopThread" where
  "ThreadFunc_leave t =
     (if thread_pc t = ThInLoop \<and> pc (thread_loop t) = PcIdle then t\<lparr>loop_ptr := False, thread_pc := ThFinished\<rparr> else t)"

text \<open>The destructor: \<open>Quit\<close> (whose \<open>Wakeup\<close> is a step \<open>OpWake\<close>), then \<open>join\<close>, which waits for the thread to finish.\<close>

definition destructor_quit :: "LoopThread \<Rightarrow> LoopThread" where
  "destructor_quit t =
     (if destroying t then t
      else if \<not> joinable t then t\<lparr>destroying := True, destroyed := True\<rparr>
      else let t = (if loop_ptr t then t\<lparr>thread_loop := Quit_store (thread_loop t)\<rparr> else t) in t\<lparr>destroying := True\<rparr>)"

definition destructor_join :: "LoopThread \<Rightarrow> LoopThread" where
  "destructor_join t =
     (if destroying t \<and> thread_pc t = ThFinished then t\<lparr>joinable := False, destroyed := True\<rparr> else t)"

datatype ThreadOp = ThStart int | ThPublish | ThEnter | ThLoop LoopOp | ThLeave | ThDestroyQuit | ThDestroyJoin

fun thread_do :: "ThreadOp \<Rightarrow> LoopThread \<Rightarrow> LoopThread option" where
  "thread_do (ThStart fd) t = Some (StartLoop fd t)"
| "thread_do ThPublish t = Some (ThreadFunc_publish t)"
| "thread_do ThEnter t = Some (ThreadFunc_enter t)"
| "thread_do (ThLoop op) t = thread_loop_step op t"
| "thread_do ThLeave t = Some (ThreadFunc_leave t)"
| "thread_do ThDestroyQuit t = Some (destructor_quit t)"
| "thread_do ThDestroyJoin t = Some (destructor_join t)"

definition thread_step :: "LoopThread option \<Rightarrow> ThreadOp \<Rightarrow> LoopThread option" where
  "thread_step s op = s \<bind> thread_do op"

text \<open>A step that neither asks the loop to quit nor lets \<open>epoll_wait\<close> fail for good.\<close>

fun keeps_looping :: "ThreadOp \<Rightarrow> bool" where
  "keeps_looping (ThLoop OpQuit) = False"
| "keeps_looping (ThLoop OpForeignQuit) = False"
| "keeps_looping (ThLoop (OpWait (Inl errno))) = (errno = 4)"
| "keeps_looping op = True"

text \<open>\<open>hung\<close>: the destructor waits for a thread whose loop does not know that it should quit.\<close>

definition hung :: "LoopThread option \<Rightarrow> bool" where
  "hung s = (case s of None \<Rightarrow> True
     | Some t \<Rightarrow> destroying t \<and> \<not> destroyed t \<and> joinable t \<and> thread_pc t = ThInLoop
         \<and> pc (thread_loop t) \<noteq> PcIdle \<and> \<not> quit (thread_loop t))"

lemma on_heap_frame: "on_heap f ptr l = Some l' \<Longrightarrow> pc l' = pc l \<and> quit l' = quit l"
  by (auto simp: on_heap_def split: option.splits prod.splits)

lemma loop_do_runs_on:
  assumes "loop_do op l = Some l'" and "keeps_looping (ThLoop op)" and "pc l \<noteq> PcIdle" and "\<not> quit l"
  shows "pc l' \<noteq> PcIdle \<and> \<not> quit l'"
proof (cases op)
  case (OpWait result)
  with assms show ?thesis by (cases result) (auto simp: Loop_wait_def split: if_splits)
next
  case (OpDispatch alive)
  with assms show ?thesis
    by (auto simp: Loop_event_def Let_def HandleWakeupRead_def split: LoopPc.splits list.splits option.splits if_splits)
next
  case OpSwap
  with assms show ?thesis by (auto simp: DoPendingFunctors_swap_def split: LoopPc.splits list.splits)
next
  case OpRun
  with assms show ?thesis by (auto simp: DoPendingFunctors_run_def split: LoopPc.splits list.splits)
next
  case OpAgain
  with assms show ?thesis by (auto simp: Loop_again_def split: LoopPc.splits list.splits)
qed (use assms in \<open>auto simp: Loop_enter_def Loop_test_def QueueInLoop_in_loop_def QueueInLoop_push_def waker_wakes_def Wakeup_def
    new_channel_def delete_channel_def Let_def split: if_splits dest: on_heap_frame\<close>)

lemma hung_step: "\<lbrakk>hung s; keeps_looping op\<rbrakk> \<Longrightarrow> hung (thread_step s op)"
proof (cases s)
  case (Some t)
  assume h: "hung s" and k: "keeps_looping op"
  show ?thesis
  proof (cases op)
    case (ThLoop lop)
    with h k Some loop_do_runs_on [of lop "thread_loop t"] show ?thesis
      by (auto simp: hung_def thread_step_def thread_loop_step_def split: option.splits)
  qed (use h Some in \<open>auto simp: hung_def thread_step_def StartLoop_def ThreadFunc_publish_def ThreadFunc_enter_def
      ThreadFunc_leave_def destructor_quit_def destructor_join_def\<close>)
qed (simp add: hung_def thread_step_def)

section \<open>Properties\<close>

text \<open>C14: Functors are executed in the order in which they were queued, each once, whatever interleaving of the loop with other
  threads and with the callbacks it runs: the executed ones, those of the batch taken by \<open>DoPendingFunctors\<close> and the pending ones are
  together the queued ones. And the registry stays exact, even when \<open>epoll_ctl\<close> fails at any call: a channel's own flag
  \<open>added_to_loop_\<close> says whether the kernel watches its descriptor, and the pointer the kernel keeps for a descriptor is that of
  the existing channel with this descriptor. What the users of the loop have to keep for this is \<open>loop_call_ok\<close>: the owner thread
  queues functors from inside \<open>Loop\<close>, a channel has a descriptor of its own, calls are made on existing channels, and a channel is
  destroyed after it was removed and not while the current batch names it (nothing in the loop enforces it).\<close>

theorem loop_functors_fifo:
  assumes "0 \<le> fd" and "ok_run loop_calls_ok loop_step (Some (EventLoop_new fd)) ops"
  shows "\<exists>l. run_ops loop_step (Some (EventLoop_new fd)) ops = Some l
     \<and> executed l @ taken_functors (pc l) @ pending l = queued l
     \<and> (\<forall>ptr c. heap l ptr = Some c \<longrightarrow> (added_to_loop c \<longleftrightarrow> interest (poller l) (channel_fd c) \<noteq> None))
     \<and> (\<forall>f e ptr. interest (poller l) f = Some (e, ptr) \<longrightarrow> (\<exists>c. heap l ptr = Some c \<and> channel_fd c = f))"
proof -
  from loop_run_ok [OF assms] obtain l where l: "run_ops loop_step (Some (EventLoop_new fd)) ops = Some l" "loop_ok l" by blast
  have "added_to_loop c \<longleftrightarrow> interest (poller l) (channel_fd c) \<noteq> None" if "heap l ptr = Some c" for ptr c
  proof -
    from l that have "linked ptr c (poller l)" unfolding loop_ok_def reg_inv_def by blast
    then show ?thesis by (auto simp: linked_def split: if_splits)
  qed
  moreover have "\<exists>c. heap l ptr = Some c \<and> channel_fd c = f" if "interest (poller l) f = Some (e, ptr)" for f e ptr
    using l that unfolding loop_ok_def reg_inv_def by blast
  ultimately show ?thesis using l by (auto simp: loop_ok_def functor_inv_def)
qed

text \<open>A run: a channel is registered, a functor comes from another thread, the loop wakes up, dispatches, runs the functor,
  which removes the channel; it is destroyed afterwards.\<close>

definition loop_demo :: "LoopOp list" where
  "loop_demo = [OpNewChannel 1 9, OpEnableReading True 1, OpEnter, OpTest, OpForeignQueue 7, OpWake, OpWait (Inr [(1, 0), (1, 1)]),
     OpDispatch True, OpQueue 8, OpDispatch True, OpSwap, OpRun, OpDisableAll True 1, OpRemoveChannel True 1, OpDeleteChannel 1,
     OpRun, OpAgain, OpTest, OpForeignQuit, OpWake]"

lemmas loop_eval = loop_step_def loop_calls_ok_def Loop_enter_def Loop_test_def Loop_wait_def Loop_event_def DoPendingFunctors_swap_def
  DoPendingFunctors_run_def Loop_again_def Quit_in_loop_def QueueInLoop_in_loop_def Quit_store_def QueueInLoop_push_def
  waker_wakes_def Wakeup_def HandleWakeupRead_def on_heap_def new_channel_def delete_channel_def Let_def eventfd_max_def
  channel_ops Update_def UpdateChannel_def RemoveChannel_def Channel_new_def IsNoneEvent_def kNoneEvent_def kReadEvent_def
  kWriteEvent_def epoll_bits SetRevents_def HandleEvent_def HandleEventWithGuard_def epoll_result_ok_def registered_def
  in_user_code_def kInitialEventListSize_def

lemma loop_demo_ok: "ok_run loop_calls_ok loop_step (Some (EventLoop_new 3)) loop_demo"
  by (simp add: loop_demo_def EventLoop_new_eq loop_eval)

theorem loop_functors_fifo_witness:
  "\<exists>l. run_ops loop_step (Some (EventLoop_new 3)) loop_demo = Some l \<and> executed l = [7, 8] \<and> queued l = [7, 8]
     \<and> interest (poller l) 9 = None \<and> executed l @ taken_functors (pc l) @ pending l = queued l"
proof -
  obtain l where l: "run_ops loop_step (Some (EventLoop_new 3)) loop_demo = Some l" "executed l = [7, 8]" "interest (poller l) 9 = None"
      "taken_functors (pc l) = []" "pending l = []"
    by (simp add: loop_demo_def EventLoop_new_eq loop_eval)
  moreover have "executed l @ taken_functors (pc l) @ pending l = queued l"
    using loop_functors_fifo [OF _ loop_demo_ok] l(1) by auto
  ultimately show ?thesis by simp
qed

text \<open>One iteration of the loop without further calls: the events of the batch, the swap, the functors.\<close>

definition iteration :: "(u32 \<times> nat) list \<Rightarrow> nat \<Rightarrow> LoopOp list" where
  "iteration evs n = OpWait (Inr evs) # replicate (length evs) (OpDispatch True) @ OpSwap # replicate n OpRun @ [OpAgain]"

lemma dispatch_all:
  assumes "loop_ok l" and "pc l = PcEvents evs n"
  shows "\<exists>l'. run_ops loop_step (Some l) (replicate (length evs) (OpDispatch True)) = Some l' \<and> pc l' = PcEvents [] n
     \<and> pending l' = pending l \<and> executed l' = executed l \<and> queued l' = queued l"
  using assms
proof (induction evs arbitrary: l)
  case (Cons e evs)
  obtain r ptr where e: "e = (r, ptr)" by force
  from Loop_event_ok [OF Cons.prems(1), of True] obtain l1 where l1: "Loop_event True l = Some l1" "loop_ok l1" by blast
  then have "pc l1 = PcEvents evs n" "pending l1 = pending l" "executed l1 = executed l" "queued l1 = queued l"
    using Cons.prems(2) e by (auto simp: Loop_event_def Let_def HandleWakeupRead_def split: option.splits if_splits)
  with Cons.IH [OF l1(2)] l1(1) show ?case by (auto simp: loop_step_def)
qed simp

lemma run_all:
  "pc l = PcFunctors fs n \<Longrightarrow> \<exists>l'. run_ops loop_step (Some l) (replicate (length fs) OpRun) = Some l'
     \<and> pc l' = PcFunctors [] n \<and> executed l' = executed l @ fs"
proof (induction fs arbitrary: l)
  case (Cons f fs)
  then have "pc (DoPendingFunctors_run l) = PcFunctors fs n" "executed (DoPendingFunctors_run l) = executed l @ [f]"
    by (simp_all add: DoPendingFunctors_run_def)
  with Cons.IH [of "DoPendingFunctors_run l"] show ?case by (auto simp: loop_step_def)
qed simp

text \<open>C15: No wake-up is lost. When the loop is about to wait and a functor is pending or it was asked to quit, and the
  callers have returned, the wait comes back with at least one event; and any wait that returns is followed by an
  iteration that executes everything queued so far and leads back to the test of \<open>quit_\<close>.\<close>

theorem no_lost_wakeup:
  assumes "0 \<le> fd" and "ok_run loop_calls_ok loop_step (Some (EventLoop_new fd)) ops"
    and "run_ops loop_step (Some (EventLoop_new fd)) ops = Some l" and "pc l = PcWait" and "epoll_result_ok l (Inr evs)"
  shows "((pending l \<noteq> [] \<or> quit l) \<and> wakers l = 0 \<longrightarrow> evs \<noteq> [])
     \<and> (\<exists>l'. run_ops loop_step (Some l) (iteration evs (length (pending l))) = Some l' \<and> executed l' = queued l \<and> pc l' = PcTest)"
proof -
  have ok: "loop_ok l" using loop_run_ok [OF assms(1,2)] assms(3) by auto
  have waits: "(pending l \<noteq> [] \<or> quit l) \<and> wakers l = 0 \<longrightarrow> evs \<noteq> []"
    using ok assms(4,5) by (auto simp: loop_ok_def wake_inv_def epoll_result_ok_def)
  let ?l1 = "l\<lparr>pc := PcEvents evs (length evs)\<rparr>"
  have l1: "Loop_wait (Inr evs) l = ?l1" by (simp add: Loop_wait_def assms(4))
  have "loop_ok ?l1" using loop_thread_ok(3) [OF ok assms(5)] l1 by simp
  from dispatch_all [OF this, of evs "length evs"] obtain l2 where
    l2: "run_ops loop_step (Some ?l1) (replicate (length evs) (OpDispatch True)) = Some l2" "pc l2 = PcEvents [] (length evs)"
      "pending l2 = pending l" "executed l2 = executed l" by auto
  let ?l3 = "DoPendingFunctors_swap l2"
  have l3: "pc ?l3 = PcFunctors (pending l) (length evs)" "executed ?l3 = executed l"
    using l2 by (simp_all add: DoPendingFunctors_swap_def)
  from run_all [OF l3(1)] l3(2) obtain l4 where
    l4: "run_ops loop_step (Some ?l3) (replicate (length (pending l)) OpRun) = Some l4" "pc l4 = PcFunctors [] (length evs)"
      "executed l4 = executed l @ pending l" by auto
  have "executed l @ pending l = queued l" using ok assms(4) by (simp add: loop_ok_def functor_inv_def)
  moreover have "run_ops loop_step (Some l) (iteration evs (length (pending l))) = Some (Loop_again l4)"
    unfolding iteration_def using l1 l2(1) l4(1) by (simp add: loop_step_def [of "Some l"] loop_step_def [of "Some l2"] loop_step_def [of "Some l4"])
  ultimately show ?thesis using l4 waits by (auto simp: Loop_again_def)
qed

text \<open>At the end of the run above the loop waits and has been asked to quit.\<close>

theorem no_lost_wakeup_witness:
  "\<exists>l. run_ops loop_step (Some (EventLoop_new 3)) loop_demo = Some l \<and> pc l = PcWait \<and> quit l
     \<and> (\<exists>l'. run_ops loop_step (Some l) (iteration [(1, 0)] (length (pending l))) = Some l' \<and> executed l' = [7, 8] \<and> pc l' = PcTest)"
proof -
  obtain l where l: "run_ops loop_step (Some (EventLoop_new 3)) loop_demo = Some l" "pc l = PcWait" "quit l" "queued l = [7, 8]"
    "epoll_result_ok l (Inr [(1, 0)])"
    by (simp add: loop_demo_def EventLoop_new_eq loop_eval)
  with no_lost_wakeup [OF _ loop_demo_ok l(1,2,5)] show ?thesis by auto
qed

text \<open>A request to quit that comes before the loop is entered is lost. \<open>StartLoop\<close> returns as soon as the thread has
  published its loop; if the \<open>EventLoopThread\<close> is destroyed before the thread has entered \<open>Loop\<close>, the destructor's \<open>Quit\<close> is
  overwritten by the assignment \<open>quit_ = false\<close> at the start of \<open>Loop\<close>, and the \<open>join\<close> of the destructor waits for ever.\<close>

theorem quit_before_loop_is_lost:
  assumes "0 \<le> fd" and "list_all keeps_looping later"
    and "run_ops thread_step (Some (EventLoopThread_new l0)) ([ThStart fd, ThPublish, ThDestroyQuit, ThLoop OpWake, ThEnter] @ later) = Some t"
  shows "destroying t \<and> \<not> destroyed t \<and> thread_pc t = ThInLoop"
proof -
  let ?s = "run_ops thread_step (Some (EventLoopThread_new l0)) [ThStart fd, ThPublish, ThDestroyQuit, ThLoop OpWake, ThEnter]"
  have "hung ?s"
    using assms(1)
    by (simp add: thread_step_def EventLoopThread_new_def StartLoop_def ThreadFunc_publish_def destructor_quit_def thread_loop_step_def
        ThreadFunc_enter_def EventLoop_new_eq Quit_store_def waker_wakes_def Wakeup_def eventfd_max_def Loop_enter_def hung_def Let_def)
  then have "hung (run_ops thread_step ?s later)"
    using assms(2) by (induction later arbitrary: l0 rule: rev_induct) (auto simp: hung_step)
  with assms(3) show ?thesis by (simp only: run_ops_append) (simp add: hung_def)
qed

theorem quit_before_loop_is_lost_witness:
  "\<exists>t. run_ops thread_step (Some (EventLoopThread_new (EventLoop_new 3)))
       ([ThStart 3, ThPublish, ThDestroyQuit, ThLoop OpWake, ThEnter]
        @ [ThLoop OpTest, ThLoop (OpWait (Inr [(1, 0)])), ThLoop (OpDispatch True), ThLoop OpSwap, ThLoop OpAgain, ThLoop OpTest, ThLeave, ThDestroyJoin])
       = Some t \<and> pc (thread_loop t) = PcWait \<and> wakeup_value (thread_loop t) = 0 \<and> \<not> destroyed t"
proof -
  let ?later = "[ThLoop OpTest, ThLoop (OpWait (Inr [(1, 0)])), ThLoop (OpDispatch True), ThLoop OpSwap, ThLoop OpAgain, ThLoop OpTest,
    ThLeave, ThDestroyJoin]"
  obtain t where t: "run_ops thread_step (Some (EventLoopThread_new (EventLoop_new 3)))
      ([ThStart 3, ThPublish, ThDestroyQuit, ThLoop OpWake, ThEnter] @ ?later) = Some t"
    "pc (thread_loop t) = PcWait" "wakeup_value (thread_loop t) = 0"
    by (simp add: thread_step_def EventLoopThread_new_def StartLoop_def ThreadFunc_publish_def destructor_quit_def thread_loop_step_def
        ThreadFunc_enter_def ThreadFunc_leave_def destructor_join_def EventLoop_new_eq loop_eval)
  with quit_before_loop_is_lost [OF _ _ t(1)] show ?thesis by auto
qed

end
