(* ===== verification/Tcp_Connection.thy ===== *)
theory Tcp_Connection
  imports Net_Buffer Net_Channel
begin

text \<open>
  \<open>common/net/TcpConnection.{h,cpp}\<close>: a connected socket driven by an event loop, over the modelled \<open>Buffer\<close> and \<open>Channel\<close>.

  Every method is written as the class has it. User code (the callbacks) comes last in each of them, except where
  \<open>Channel::HandleEventWithGuard\<close> goes on to the next callback and \<open>ConnectDestroyed\<close> to \<open>RemoveChannel\<close>: what is left to do
  there is the stack \<open>frames\<close>, so that the calls a callback makes on the connection (\<open>Send\<close>, \<open>Shutdown\<close>, \<open>ForceClose\<close> on the loop
  thread, reading the input buffer) come between the frames. Other threads reach the connection through the loop's queue
  of functors; \<open>functors\<close> are those of this connection, in order. The results of \<open>readv\<close> and \<open>send\<close> are arguments (\<open>Inl\<close> an
  errno, \<open>Inr\<close> what was transferred), as is whether \<open>epoll_ctl\<close> is granted. A failed assertion of the buffer is \<open>None\<close>. The
  methods with the suffix \<open>InLoop\<close> are only reached through \<open>RunInLoop\<close>, so their check for the loop thread is not written.

  Sizes are natural numbers: the sum \<open>old_buffered_bytes + remaining\<close> is the size of bytes in memory.
\<close>

section \<open>State\<close>

datatype ConnState = kConnecting | kConnected | kDisconnecting | kDisconnected

datatype ConnFunctor = FnSend "byte list" | FnShutdown | FnForceClose | FnWriteComplete | FnHighWaterMark nat

datatype Frame = FrCallback ChannelCallback | FrEventEnd | FrRemoveChannel

datatype Notification = NotifyConnection bool | NotifyMessage | NotifyClose | NotifyWriteComplete | NotifyHighWaterMark nat

record TcpConnection =
  state :: ConnState
  last_read_tick :: int
  channel_ptr :: nat
  channel :: Channel
  loop_poller :: Poller  \<comment> \<open>of \<open>loop_\<close>\<close>
  input_buffer :: Buffer
  output_buffer :: Buffer
  connection_callback :: bool
  message_callback :: bool
  close_callback :: bool
  write_complete_callback :: bool
  high_water_mark_callback :: bool
  high_water_mark :: nat
  functors :: "ConnFunctor list"  \<comment> \<open>in \<open>loop_\<close>\<close>
  frames :: "Frame list"
  write_shut :: bool  \<comment> \<open>of \<open>socket_\<close>: \<open>ShutdownWrite\<close> has been called\<close>
  wire :: "byte list"  \<comment> \<open>observation only: what \<open>send\<close> has taken\<close>
  accepted :: "byte list"  \<comment> \<open>observation only: what \<open>SendInLoop\<close> was given while connected\<close>
  log :: "Notification list"  \<comment> \<open>observation only: the callbacks called\<close>

definition kDefaultHighWaterMark :: nat where
  "kDefaultHighWaterMark = 64 * 1024 * 1024"

definition TcpConnection_new :: "nat \<Rightarrow> int \<Rightarrow> Poller \<Rightarrow> int \<Rightarrow> TcpConnection" where
  "TcpConnection_new ptr fd p now =
     \<lparr>state = kConnecting, last_read_tick = now, channel_ptr = ptr,
      channel = (Channel_new fd)\<lparr>has_read_callback := True, has_write_callback := True, has_close_callback := True,
                                 has_error_callback := True\<rparr>,
      loop_poller = p, input_buffer = Buffer_new kInitialSize, output_buffer = Buffer_new kInitialSize,
      connection_callback = False, message_callback = False, close_callback = False, write_complete_callback = False,
      high_water_mark_callback = False, high_water_mark = kDefaultHighWaterMark, functors = [], frames = [],
      write_shut = False, wire = [], accepted = [], log = []\<rparr>"

section \<open>Operations\<close>

definition SetCallbacks :: "bool \<Rightarrow> bool \<Rightarrow> bool \<Rightarrow> bool \<Rightarrow> TcpConnection \<Rightarrow> TcpConnection" where
  "SetCallbacks conn msg cls wc c = c\<lparr>connection_callback := conn, message_callback := msg, close_callback := cls,
     write_complete_callback := wc\<rparr>"

definition SetHighWaterMarkCallback :: "bool \<Rightarrow> nat \<Rightarrow> TcpConnection \<Rightarrow> TcpConnection" where
  "SetHighWaterMarkCallback callback mark c =
     (if \<not> callback \<or> mark = 0
      then c\<lparr>high_water_mark_callback := False, high_water_mark := kDefaultHighWaterMark\<rparr>
      else c\<lparr>high_water_mark_callback := True, high_water_mark := mark\<rparr>)"

text \<open>An operation on the channel of the connection, with the loop it is registered with.\<close>

definition on_channel :: "(nat \<Rightarrow> Channel \<times> Poller \<Rightarrow> Channel \<times> Poller) \<Rightarrow> TcpConnection \<Rightarrow> TcpConnection" where
  "on_channel f c =
     (let (ch, p) = f (channel_ptr c) (channel c, loop_poller c) in c\<lparr>channel := ch, loop_poller := p\<rparr>)"

definition notify :: "bool \<Rightarrow> Notification \<Rightarrow> TcpConnection \<Rightarrow> TcpConnection" where
  "notify callback n c = (if callback then c\<lparr>log := log c @ [n]\<rparr> else c)"

definition ConnectEstablished :: "bool \<Rightarrow> bool \<Rightarrow> int \<Rightarrow> TcpConnection \<Rightarrow> TcpConnection" where
  "ConnectEstablished in_loop granted now c =
     (if \<not> in_loop then c
      else
        let c = c\<lparr>state := kConnected, last_read_tick := now, channel := Tie (channel c)\<rparr>;
            c = on_channel (EnableReading granted) c
        in notify (connection_callback c) (NotifyConnection True) c)"

text \<open>\<open>ConnectDestroyed\<close> up to the user's callback; the frame is the rest.\<close>

definition ConnectDestroyed :: "bool \<Rightarrow> bool \<Rightarrow> TcpConnection \<Rightarrow> TcpConnection" where
  "ConnectDestroyed in_loop granted c =
     (if \<not> in_loop then c
      else
        let c = (if state c = kConnected \<or> state c = kDisconnecting
                 then on_channel (DisableAll granted) (c\<lparr>state := kDisconnected\<rparr>) else c);
            c = c\<lparr>frames := FrRemoveChannel # frames c\<rparr>
        in notify (connection_callback c) (NotifyConnection False) c)"

definition QueueWriteCompleteCallback :: "TcpConnection \<Rightarrow> TcpConnection" where
  "QueueWriteCompleteCallback c =
     (if \<not> write_complete_callback c then c else c\<lparr>functors := functors c @ [FnWriteComplete]\<rparr>)"

definition QueueHighWaterMarkCallback :: "nat \<Rightarrow> TcpConnection \<Rightarrow> TcpConnection" where
  "QueueHighWaterMarkCallback buffered_bytes c =
     (if \<not> high_water_mark_callback c then c else c\<lparr>functors := functors c @ [FnHighWaterMark buffered_bytes]\<rparr>)"

definition HandleClose :: "bool \<Rightarrow> TcpConnection \<Rightarrow> TcpConnection" where
  "HandleClose granted c =
     (if state c = kDisconnected then c
      else
        let c = on_channel (DisableAll granted) (c\<lparr>state := kDisconnected\<rparr>)
        in notify (close_callback c) NotifyClose c)"

definition HandleError :: "bool \<Rightarrow> TcpConnection \<Rightarrow> TcpConnection" where
  "HandleError granted c = HandleClose granted c"

definition ShutdownInLoop :: "TcpConnection \<Rightarrow> TcpConnection" where
  "ShutdownInLoop c =
     (if state c \<noteq> kConnected then c
      else
        let c = c\<lparr>state := kDisconnecting\<rparr>
        in if \<not> IsWriting (channel c) then c\<lparr>write_shut := True\<rparr> else c)"

definition ForceCloseInLoop :: "bool \<Rightarrow> TcpConnection \<Rightarrow> TcpConnection" where
  "ForceCloseInLoop granted c =
     (if state c = kConnected \<or> state c = kDisconnecting then HandleClose granted c else c)"

definition EAGAIN :: int where "EAGAIN = 11"
definition EWOULDBLOCK :: int where "EWOULDBLOCK = 11"
definition EINTR :: int where "EINTR = 4"
definition ECONNRESET :: int where "ECONNRESET = 104"

definition try_again :: "int \<Rightarrow> bool" where
  "try_again errno \<longleftrightarrow> errno = EAGAIN \<or> errno = EWOULDBLOCK \<or> errno = EINTR"

definition HandleRead :: "bool \<Rightarrow> int \<Rightarrow> (int + byte list) \<Rightarrow> TcpConnection \<Rightarrow> TcpConnection option" where
  "HandleRead granted now readv c = do {
     (b, n) \<leftarrow> ReadFd readv (input_buffer c);
     let c = c\<lparr>input_buffer := b\<rparr>;
     Some (case n of
         Inr n \<Rightarrow>
           if n > 0 then
             let c = c\<lparr>last_read_tick := now\<rparr> in notify (message_callback c) NotifyMessage c
           else HandleClose granted c
       | Inl saved_errno \<Rightarrow>
           if try_again saved_errno then c
           else if saved_errno = ECONNRESET then HandleClose granted c
           else HandleError granted c)
   }"

definition HandleWrite :: "bool \<Rightarrow> (int + nat) \<Rightarrow> TcpConnection \<Rightarrow> TcpConnection option" where
  "HandleWrite granted send c =
     (if \<not> IsWriting (channel c) then Some c
      else if ReadableBytes (output_buffer c) = 0 then
        let c = on_channel (DisableWriting granted) c
        in Some (if state c = kDisconnecting then ShutdownInLoop c else c)
      else case send of
        Inr n \<Rightarrow>
          if n > 0 then do {
            ob \<leftarrow> Retrieve n (output_buffer c);
            let c = c\<lparr>wire := wire c @ Peek n (output_buffer c), output_buffer := ob\<rparr>;
            Some (if ReadableBytes ob = 0 then
                let c = on_channel (DisableWriting granted) c;
                    c = QueueWriteCompleteCallback c
                in if state c = kDisconnecting then ShutdownInLoop c else c
              else c)
          } else Some c
      | Inl errno \<Rightarrow> Some (if try_again errno then c else HandleError granted c))"

text \<open>The end of \<open>SendInLoop\<close>: what the socket did not take goes into the output buffer.\<close>

definition SendInLoop_buffer :: "bool \<Rightarrow> byte list \<Rightarrow> nat \<Rightarrow> TcpConnection \<Rightarrow> TcpConnection option" where
  "SendInLoop_buffer granted rest old_buffered_bytes c =
     (if length rest > 0 then do {
        let new_buffered_bytes = old_buffered_bytes + length rest;
        let c = (if high_water_mark_callback c \<and> old_buffered_bytes < high_water_mark c
                    \<and> new_buffered_bytes \<ge> high_water_mark c
                 then QueueHighWaterMarkCallback new_buffered_bytes c else c);
        ob \<leftarrow> Append rest (output_buffer c);
        let c = c\<lparr>output_buffer := ob\<rparr>;
        Some (if \<not> IsWriting (channel c) then on_channel (EnableWriting granted) c else c)
      } else Some c)"

definition SendInLoop :: "bool \<Rightarrow> (int + nat) \<Rightarrow> byte list \<Rightarrow> TcpConnection \<Rightarrow> TcpConnection option" where
  "SendInLoop granted send data c =
     (if state c \<noteq> kConnected then Some c
      else
        let c = c\<lparr>accepted := accepted c @ data\<rparr>;
            old_buffered_bytes = ReadableBytes (output_buffer c)
        in
        if \<not> IsWriting (channel c) \<and> old_buffered_bytes = 0 then
          case send of
            Inr written \<Rightarrow>
              let c = c\<lparr>wire := wire c @ take written data\<rparr> in
              if length data - written = 0 then Some (QueueWriteCompleteCallback c)
              else SendInLoop_buffer granted (drop written data) old_buffered_bytes c
          | Inl errno \<Rightarrow>
              if \<not> try_again errno then Some (HandleError granted c)
              else SendInLoop_buffer granted data old_buffered_bytes c
        else SendInLoop_buffer granted data old_buffered_bytes c)"

text \<open>What other threads ask for becomes a functor; on the loop thread it is done at once (\<open>RunInLoop\<close>).\<close>

definition Send :: "bool \<Rightarrow> bool \<Rightarrow> (int + nat) \<Rightarrow> byte list \<Rightarrow> TcpConnection \<Rightarrow> TcpConnection option" where
  "Send in_loop granted send data c =
     (if length data = 0 then Some c
      else if in_loop then SendInLoop granted send data c
      else Some (c\<lparr>functors := functors c @ [FnSend data]\<rparr>))"

definition Shutdown :: "bool \<Rightarrow> TcpConnection \<Rightarrow> TcpConnection" where
  "Shutdown in_loop c = (if in_loop then ShutdownInLoop c else c\<lparr>functors := functors c @ [FnShutdown]\<rparr>)"

definition ForceClose :: "bool \<Rightarrow> bool \<Rightarrow> TcpConnection \<Rightarrow> TcpConnection" where
  "ForceClose in_loop granted c =
     (if in_loop then ForceCloseInLoop granted c else c\<lparr>functors := functors c @ [FnForceClose]\<rparr>)"

definition IsConnected :: "TcpConnection \<Rightarrow> bool" where
  "IsConnected c \<longleftrightarrow> state c = kConnected"

section \<open>The loop thread\<close>

fun run_conn_functor :: "bool \<Rightarrow> (int + nat) \<Rightarrow> ConnFunctor \<Rightarrow> TcpConnection \<Rightarrow> TcpConnection option" where
  "run_conn_functor granted send (FnSend data) c = SendInLoop granted send data c"
| "run_conn_functor granted send FnShutdown c = Some (ShutdownInLoop c)"
| "run_conn_functor granted send FnForceClose c = Some (ForceCloseInLoop granted c)"
| "run_conn_functor granted send FnWriteComplete c = Some (c\<lparr>log := log c @ [NotifyWriteComplete]\<rparr>)"
| "run_conn_functor granted send (FnHighWaterMark n) c = Some (c\<lparr>log := log c @ [NotifyHighWaterMark n]\<rparr>)"

text \<open>The loop dispatches an event: \<open>SetRevents\<close>, then \<open>HandleEvent\<close>.\<close>

definition dispatch :: "bool \<Rightarrow> u32 \<Rightarrow> TcpConnection \<Rightarrow> TcpConnection" where
  "dispatch owner_alive r c =
     (let ch = SetRevents r (channel c) in
      if tied ch \<and> \<not> owner_alive then c\<lparr>channel := ch\<rparr>
      else c\<lparr>channel := ch\<lparr>event_handling := True\<rparr>,
             frames := map FrCallback (HandleEvent owner_alive ch) @ [FrEventEnd]\<rparr>)"

fun run_frame :: "bool \<Rightarrow> int \<Rightarrow> (int + byte list) \<Rightarrow> (int + nat) \<Rightarrow> Frame \<Rightarrow> TcpConnection \<Rightarrow> TcpConnection option" where
  "run_frame granted now readv send (FrCallback CbClose) c = Some (HandleClose granted c)"
| "run_frame granted now readv send (FrCallback CbError) c = Some (HandleError granted c)"
| "run_frame granted now readv send (FrCallback CbRead) c = HandleRead granted now readv c"
| "run_frame granted now readv send (FrCallback CbWrite) c = HandleWrite granted send c"
| "run_frame granted now readv send FrEventEnd c = Some (c\<lparr>channel := (channel c)\<lparr>event_handling := False\<rparr>\<rparr>)"
| "run_frame granted now readv send FrRemoveChannel c = Some (on_channel (\<lambda>ptr cp. snd (RemoveChannel granted ptr cp)) c)"

datatype ConnOp =
    OpSetCallbacks bool bool bool bool
  | OpSetHighWaterMark bool nat
  | OpConnectEstablished bool bool int
  | OpConnectDestroyed bool bool
  | OpSend bool bool "int + nat" "byte list"
  | OpShutdown bool
  | OpForceClose bool bool
  | OpConsume nat  \<comment> \<open>user code takes bytes from the input buffer\<close>
  | OpEvent bool u32
  | OpFrame bool int "int + byte list" "int + nat"
  | OpFunctor bool "int + nat"

fun conn_do :: "ConnOp \<Rightarrow> TcpConnection \<Rightarrow> TcpConnection option" where
  "conn_do (OpSetCallbacks conn msg cls wc) c = Some (SetCallbacks conn msg cls wc c)"
| "conn_do (OpSetHighWaterMark callback mark) c = Some (SetHighWaterMarkCallback callback mark c)"
| "conn_do (OpConnectEstablished in_loop granted now) c = Some (ConnectEstablished in_loop granted now c)"
| "conn_do (OpConnectDestroyed in_loop granted) c = Some (ConnectDestroyed in_loop granted c)"
| "conn_do (OpSend in_loop granted send data) c = Send in_loop granted send data c"
| "conn_do (OpShutdown in_loop) c = Some (Shutdown in_loop c)"
| "conn_do (OpForceClose in_loop granted) c = Some (ForceClose in_loop granted c)"
| "conn_do (OpConsume n) c = map_option (\<lambda>b. c\<lparr>input_buffer := b\<rparr>) (Retrieve n (input_buffer c))"
| "conn_do (OpEvent owner_alive r) c = Some (if frames c = [] then dispatch owner_alive r c else c)"
| "conn_do (OpFrame granted now readv send) c =
     (case frames c of [] \<Rightarrow> Some c | f # fs \<Rightarrow> run_frame granted now readv send f (c\<lparr>frames := fs\<rparr>))"
| "conn_do (OpFunctor granted send) c =
     (case (frames c, functors c) of
        ([], f # fs) \<Rightarrow> run_conn_functor granted send f (c\<lparr>functors := fs\<rparr>)
      | _ \<Rightarrow> Some c)"

definition conn_step :: "TcpConnection option \<Rightarrow> ConnOp \<Rightarrow> TcpConnection option" where
  "conn_step s op = s \<bind> conn_do op"

section \<open>Invariant\<close>

text \<open>What the calls rely on: the kernel takes no more bytes than it is given;
  \<open>ConnectEstablished\<close> is called once; user code takes no more input than there is.\<close>

definition send_ok :: "(int + nat) \<Rightarrow> nat \<Rightarrow> bool" where
  "send_ok send len = (case send of Inl errno \<Rightarrow> True | Inr n \<Rightarrow> n \<le> len)"

fun conn_call_ok :: "TcpConnection \<Rightarrow> ConnOp \<Rightarrow> bool" where
  "conn_call_ok c (OpConnectEstablished in_loop granted now) \<longleftrightarrow> state c = kConnecting \<and> frames c = []"
| "conn_call_ok c (OpSend in_loop granted send data) \<longleftrightarrow> send_ok send (length data)"
| "conn_call_ok c (OpConsume n) \<longleftrightarrow> n \<le> ReadableBytes (input_buffer c)"
| "conn_call_ok c (OpFrame granted now readv send) \<longleftrightarrow>
     send_ok send (ReadableBytes (output_buffer c))"
| "conn_call_ok c (OpFunctor granted send) \<longleftrightarrow>
     (case functors c of FnSend data # fs \<Rightarrow> send_ok send (length data) | _ \<Rightarrow> True)"
| "conn_call_ok c op \<longleftrightarrow> True"

definition conn_calls_ok :: "TcpConnection option \<Rightarrow> ConnOp \<Rightarrow> bool" where
  "conn_calls_ok s op = (case s of None \<Rightarrow> False | Some c \<Rightarrow> conn_call_ok c op)"

text \<open>The output stream in each state: what was accepted is on the wire or buffered, the channel asks for writability exactly
  while something is buffered, and the write side is shut only when nothing is.\<close>

definition stream_inv :: "ConnState \<Rightarrow> u32 \<Rightarrow> byte list \<Rightarrow> byte list \<Rightarrow> byte list \<Rightarrow> bool \<Rightarrow> bool" where
  "stream_inv st ev out w acc shut \<longleftrightarrow>
     (case st of
        kConnecting \<Rightarrow> ev = kNoneEvent \<and> out = [] \<and> w = [] \<and> acc = []
      | kDisconnected \<Rightarrow> ev = kNoneEvent \<and> (\<exists>lost. w @ out @ lost = acc)
      | _ \<Rightarrow> ev = (if out = [] then kReadEvent else kReadEvent OR kWriteEvent) \<and> w @ out = acc)
     \<and> (shut \<longrightarrow> (st = kDisconnecting \<or> st = kDisconnected) \<and> w = acc)"

definition closes_inv :: "ConnState \<Rightarrow> Notification list \<Rightarrow> bool" where
  "closes_inv st lg \<longleftrightarrow> count_list lg NotifyClose \<le> 1 \<and> (st \<noteq> kDisconnected \<longrightarrow> count_list lg NotifyClose = 0)"

text \<open>The constructor has set the four callbacks of the channel.\<close>

definition wired :: "Channel \<Rightarrow> bool" where
  "wired ch \<longleftrightarrow> has_read_callback ch \<and> has_write_callback ch \<and> has_close_callback ch \<and> has_error_callback ch"

lemma wired_frame [simp]:
  "wired (ch\<lparr>events := e\<rparr>) = wired ch" "wired (ch\<lparr>revents := e\<rparr>) = wired ch" "wired (ch\<lparr>added_to_loop := b\<rparr>) = wired ch"
  "wired (ch\<lparr>event_handling := b\<rparr>) = wired ch" "wired (ch\<lparr>tied := b\<rparr>) = wired ch"
  by (simp_all add: wired_def)

definition conn_linked :: "TcpConnection \<Rightarrow> bool" where
  "conn_linked c \<longleftrightarrow> linked (channel_ptr c) (channel c) (loop_poller c) \<and> wired (channel c)"

definition conn_synced :: "TcpConnection \<Rightarrow> bool" where
  "conn_synced c \<longleftrightarrow> synced (channel_ptr c) (channel c) (loop_poller c) \<and> wired (channel c)"

definition conn_ok :: "TcpConnection \<Rightarrow> bool" where
  "conn_ok c \<longleftrightarrow> buffer_ok (input_buffer c) \<and> buffer_ok (output_buffer c) \<and> conn_linked c
     \<and> stream_inv (state c) (events (channel c)) (readable (output_buffer c)) (wire c) (accepted c) (write_shut c)
     \<and> closes_inv (state c) (log c)"

lemma count_list_snoc [simp]: "count_list (xs @ [y]) x = count_list xs x + (if y = x then 1 else 0)"
  by (induction xs) auto

section \<open>What the steps leave alone\<close>

lemma on_channel_frame [simp]:
  "state (on_channel f c) = state c" "last_read_tick (on_channel f c) = last_read_tick c"
  "channel_ptr (on_channel f c) = channel_ptr c"
  "input_buffer (on_channel f c) = input_buffer c" "output_buffer (on_channel f c) = output_buffer c"
  "connection_callback (on_channel f c) = connection_callback c" "message_callback (on_channel f c) = message_callback c"
  "close_callback (on_channel f c) = close_callback c" "write_complete_callback (on_channel f c) = write_complete_callback c"
  "high_water_mark_callback (on_channel f c) = high_water_mark_callback c" "high_water_mark (on_channel f c) = high_water_mark c"
  "functors (on_channel f c) = functors c" "frames (on_channel f c) = frames c" "write_shut (on_channel f c) = write_shut c"
  "wire (on_channel f c) = wire c" "accepted (on_channel f c) = accepted c" "log (on_channel f c) = log c"
  by (simp_all add: on_channel_def split: prod.splits)

lemma notify_frame [simp]:
  "state (notify b n c) = state c" "channel (notify b n c) = channel c" "channel_ptr (notify b n c) = channel_ptr c"
  "loop_poller (notify b n c) = loop_poller c" "input_buffer (notify b n c) = input_buffer c"
  "output_buffer (notify b n c) = output_buffer c" "functors (notify b n c) = functors c" "frames (notify b n c) = frames c"
  "write_shut (notify b n c) = write_shut c" "wire (notify b n c) = wire c" "accepted (notify b n c) = accepted c"
  "log (notify b n c) = log c @ (if b then [n] else [])"
  by (simp_all add: notify_def)

lemma queue_frame [simp]:
  "state (QueueWriteCompleteCallback c) = state c" "channel (QueueWriteCompleteCallback c) = channel c"
  "channel_ptr (QueueWriteCompleteCallback c) = channel_ptr c" "loop_poller (QueueWriteCompleteCallback c) = loop_poller c"
  "input_buffer (QueueWriteCompleteCallback c) = input_buffer c" "output_buffer (QueueWriteCompleteCallback c) = output_buffer c"
  "write_shut (QueueWriteCompleteCallback c) = write_shut c" "wire (QueueWriteCompleteCallback c) = wire c"
  "accepted (QueueWriteCompleteCallback c) = accepted c" "log (QueueWriteCompleteCallback c) = log c"
  "frames (QueueWriteCompleteCallback c) = frames c"
  "state (QueueHighWaterMarkCallback m c) = state c" "channel (QueueHighWaterMarkCallback m c) = channel c"
  "channel_ptr (QueueHighWaterMarkCallback m c) = channel_ptr c" "loop_poller (QueueHighWaterMarkCallback m c) = loop_poller c"
  "input_buffer (QueueHighWaterMarkCallback m c) = input_buffer c" "output_buffer (QueueHighWaterMarkCallback m c) = output_buffer c"
  "write_shut (QueueHighWaterMarkCallback m c) = write_shut c" "wire (QueueHighWaterMarkCallback m c) = wire c"
  "accepted (QueueHighWaterMarkCallback m c) = accepted c" "log (QueueHighWaterMarkCallback m c) = log c"
  "frames (QueueHighWaterMarkCallback m c) = frames c"
  by (simp_all add: QueueWriteCompleteCallback_def QueueHighWaterMarkCallback_def)

text \<open>Every operation on the channel changes the mask and carries it to the kernel.\<close>

lemma on_channel_update:
  assumes "conn_linked c" and "\<And>ptr ch p. f ptr (ch, p) = Update granted ptr (ch\<lparr>events := mk (events ch)\<rparr>, p)"
  shows "conn_linked (on_channel f c)" and "granted \<Longrightarrow> conn_synced (on_channel f c)"
    and "events (channel (on_channel f c)) = mk (events (channel c))"
    and "tied (channel (on_channel f c)) = tied (channel c)"
proof -
  let ?ch = "(channel c)\<lparr>events := mk (events (channel c))\<rparr>"
  have "linked (channel_ptr c) ?ch (loop_poller c)"
    using assms(1) by (simp add: conn_linked_def linked_def)
  then obtain b m t where u: "Update granted (channel_ptr c) (?ch, loop_poller c)
      = (?ch\<lparr>added_to_loop := b\<rparr>, (loop_poller c)\<lparr>channels := t, interest := m\<rparr>)"
    and l: "linked (channel_ptr c) (?ch\<lparr>added_to_loop := b\<rparr>) ((loop_poller c)\<lparr>channels := t, interest := m\<rparr>)"
    and s: "granted \<longrightarrow> synced (channel_ptr c) (?ch\<lparr>added_to_loop := b\<rparr>) ((loop_poller c)\<lparr>channels := t, interest := m\<rparr>)"
    using Update_cases by metis
  have on: "on_channel f c = c\<lparr>channel := ?ch\<lparr>added_to_loop := b\<rparr>, loop_poller := (loop_poller c)\<lparr>channels := t, interest := m\<rparr>\<rparr>"
    by (simp add: on_channel_def assms(2) u)
  show "conn_linked (on_channel f c)" "granted \<Longrightarrow> conn_synced (on_channel f c)"
    "events (channel (on_channel f c)) = mk (events (channel c))" "tied (channel (on_channel f c)) = tied (channel c)"
    using l s assms(1) by (simp_all add: on conn_linked_def conn_synced_def)
qed

lemma on_channel_ops [simp]:
  assumes "conn_linked c"
  shows "conn_linked (on_channel (EnableReading g) c)" "g \<Longrightarrow> conn_synced (on_channel (EnableReading g) c)"
    "conn_linked (on_channel (EnableWriting g) c)" "g \<Longrightarrow> conn_synced (on_channel (EnableWriting g) c)"
    "conn_linked (on_channel (DisableWriting g) c)" "g \<Longrightarrow> conn_synced (on_channel (DisableWriting g) c)"
    "conn_linked (on_channel (DisableAll g) c)" "g \<Longrightarrow> conn_synced (on_channel (DisableAll g) c)"
    "events (channel (on_channel (EnableReading g) c)) = events (channel c) OR kReadEvent"
    "events (channel (on_channel (EnableWriting g) c)) = events (channel c) OR kWriteEvent"
    "events (channel (on_channel (DisableWriting g) c)) = events (channel c) AND NOT kWriteEvent"
    "events (channel (on_channel (DisableAll g) c)) = kNoneEvent"
  using on_channel_update [OF assms, of "EnableReading g" g "\<lambda>e. e OR kReadEvent"]
    on_channel_update [OF assms, of "EnableWriting g" g "\<lambda>e. e OR kWriteEvent"]
    on_channel_update [OF assms, of "DisableWriting g" g "\<lambda>e. e AND NOT kWriteEvent"]
    on_channel_update [OF assms, of "DisableAll g" g "\<lambda>e. kNoneEvent"]
  by (simp_all add: channel_ops)

lemma on_RemoveChannel [simp]:
  assumes "conn_linked c"
  shows "conn_linked (on_channel (\<lambda>ptr cp. snd (RemoveChannel g ptr cp)) c)"
    "events (channel (on_channel (\<lambda>ptr cp. snd (RemoveChannel g ptr cp)) c)) = events (channel c)"
    "\<lbrakk>g; conn_synced c; events (channel c) = kNoneEvent\<rbrakk> \<Longrightarrow> conn_synced (on_channel (\<lambda>ptr cp. snd (RemoveChannel g ptr cp)) c)"
  using RemoveChannel_cases [OF assms [unfolded conn_linked_def, THEN conjunct1], of g] assms
  by (auto simp: on_channel_def conn_linked_def conn_synced_def synced_def IsNoneEvent_def)

text \<open>The masks of a connection.\<close>

lemma conn_masks [simp]:
  "kNoneEvent OR kReadEvent = kReadEvent" "(kReadEvent OR kWriteEvent) AND NOT kWriteEvent = kReadEvent"
  "kReadEvent AND NOT kWriteEvent = kReadEvent"
  "\<not> bit kReadEvent 2" "kReadEvent \<noteq> kNoneEvent" "kReadEvent OR kWriteEvent \<noteq> kNoneEvent" "kReadEvent \<noteq> kReadEvent OR kWriteEvent"
  "kReadEvent OR kWriteEvent \<noteq> kReadEvent"
  by (simp_all add: kNoneEvent_def kReadEvent_def kWriteEvent_def epoll_bits bit_or_iff)

section \<open>Every step keeps the invariant\<close>

lemma conn_ok_new: "\<lbrakk>poller_valid p; 0 \<le> fd; interest p fd = None\<rbrakk> \<Longrightarrow> conn_ok (TcpConnection_new ptr fd p now)"
  by (simp add: conn_ok_def TcpConnection_new_def Channel_new_def conn_linked_def linked_def wired_def stream_inv_def closes_inv_def)

lemma writing_pending:
  "\<lbrakk>conn_ok c; state c = kConnected \<or> state c = kDisconnecting\<rbrakk> \<Longrightarrow>
     IsWriting (channel c) \<longleftrightarrow> readable (output_buffer c) \<noteq> []"
  by (auto simp: conn_ok_def stream_inv_def IsWriting_bit)

lemma not_writing:
  "\<lbrakk>conn_ok c; state c = kConnecting \<or> state c = kDisconnected\<rbrakk> \<Longrightarrow> \<not> IsWriting (channel c)"
  by (auto simp: conn_ok_def stream_inv_def IsWriting_bit)

lemma conn_linked_frame [simp]:
  "conn_linked (c\<lparr>state := a\<rparr>) = conn_linked c" "conn_linked (c\<lparr>last_read_tick := b\<rparr>) = conn_linked c"
  "conn_linked (c\<lparr>input_buffer := d\<rparr>) = conn_linked c" "conn_linked (c\<lparr>output_buffer := d\<rparr>) = conn_linked c"
  "conn_linked (c\<lparr>wire := e\<rparr>) = conn_linked c" "conn_linked (c\<lparr>accepted := e\<rparr>) = conn_linked c"
  "conn_linked (c\<lparr>functors := h\<rparr>) = conn_linked c" "conn_linked (c\<lparr>frames := i\<rparr>) = conn_linked c"
  "conn_linked (c\<lparr>write_shut := j\<rparr>) = conn_linked c" "conn_linked (c\<lparr>log := k\<rparr>) = conn_linked c"
  "conn_linked (notify l m c) = conn_linked c" "conn_linked (QueueWriteCompleteCallback c) = conn_linked c"
  "conn_linked (QueueHighWaterMarkCallback n c) = conn_linked c"
  "conn_linked (c\<lparr>channel := (channel c)\<lparr>tied := o'\<rparr>\<rparr>) = conn_linked c"
  "conn_linked (c\<lparr>channel := (channel c)\<lparr>event_handling := o'\<rparr>\<rparr>) = conn_linked c"
  "conn_linked (c\<lparr>channel := (channel c)\<lparr>revents := r\<rparr>\<rparr>) = conn_linked c"
  "conn_linked (c\<lparr>channel := (channel c)\<lparr>revents := r, event_handling := o'\<rparr>\<rparr>) = conn_linked c"
  by (simp_all add: conn_linked_def linked_def)

text \<open>Closing: whatever was buffered is lost, the rest is unchanged.\<close>

lemma stream_close: "stream_inv st ev out w acc shut \<Longrightarrow> stream_inv kDisconnected kNoneEvent out w acc shut"
  by (cases st) (auto simp: stream_inv_def intro: exI [of _ "[]"])

lemma HandleClose_ok:
  assumes "conn_ok c"
  shows "conn_ok (HandleClose granted c)"
proof (cases "state c = kDisconnected")
  case False
  then show ?thesis
    using assms
    by (auto simp: HandleClose_def Let_def conn_ok_def closes_inv_def intro: stream_close)
qed (simp add: HandleClose_def assms)

lemma ShutdownInLoop_ok: "conn_ok c \<Longrightarrow> conn_ok (ShutdownInLoop c)"
  by (auto simp: ShutdownInLoop_def Let_def conn_ok_def stream_inv_def closes_inv_def IsWriting_bit split: if_splits)

lemma ForceCloseInLoop_ok: "conn_ok c \<Longrightarrow> conn_ok (ForceCloseInLoop granted c)"
  by (simp add: ForceCloseInLoop_def HandleClose_ok)

lemma ConnectEstablished_ok:
  assumes "conn_ok c" and "state c = kConnecting"
  shows "conn_ok (ConnectEstablished in_loop granted now c)"
proof -
  have "conn_linked (c\<lparr>state := kConnected, last_read_tick := now, channel := Tie (channel c)\<rparr>)"
    using assms by (simp add: conn_ok_def conn_linked_def linked_def Tie_def)
  with assms show ?thesis
    by (auto simp: ConnectEstablished_def Let_def conn_ok_def stream_inv_def closes_inv_def Tie_def)
qed

lemma ConnectDestroyed_ok: "conn_ok c \<Longrightarrow> conn_ok (ConnectDestroyed in_loop granted c)"
  by (auto simp: ConnectDestroyed_def Let_def conn_ok_def closes_inv_def intro: stream_close)

lemma HandleRead_ok:
  assumes "conn_ok c"
  shows "\<exists>c'. HandleRead granted now readv c = Some c' \<and> conn_ok c'"
proof (cases readv)
  case (Inl errno)
  then show ?thesis
    using assms by (auto simp: HandleRead_def ReadFd_def HandleError_def HandleClose_ok)
next
  case (Inr data)
  from assms have "buffer_ok (input_buffer c)" by (simp add: conn_ok_def)
  from ReadFd_data_spec [OF this, of data] obtain b where
    b: "ReadFd readv (input_buffer c) = Some (b, Inr (length data))" "buffer_ok b" using Inr by blast
  then have "conn_ok (c\<lparr>input_buffer := b\<rparr>)" using assms by (simp add: conn_ok_def)
  with b show ?thesis
    by (auto simp: HandleRead_def Let_def HandleClose_ok) (auto simp: conn_ok_def closes_inv_def)
qed

lemma HandleWrite_ok:
  assumes ok: "conn_ok c" and n: "send_ok send (ReadableBytes (output_buffer c))"
  shows "\<exists>c'. HandleWrite granted send c = Some c' \<and> conn_ok c'"
proof (cases "IsWriting (channel c)")
  case True
  then have st: "state c = kConnected \<or> state c = kDisconnecting" using not_writing [OF ok] by (cases "state c") auto
  with True have pending: "readable (output_buffer c) \<noteq> []" using writing_pending [OF ok] by simp
  then have nz: "ReadableBytes (output_buffer c) \<noteq> 0" using ok by (simp add: conn_ok_def ReadableBytes_eq_0)
  show ?thesis
  proof (cases send)
    case (Inl errno)
    then show ?thesis using ok True nz by (auto simp: HandleWrite_def HandleError_def HandleClose_ok)
  next
    case (Inr n)
    show ?thesis
    proof (cases "n > 0")
      case True
      have bo: "buffer_ok (output_buffer c)" and le: "n \<le> ReadableBytes (output_buffer c)"
        using ok n Inr by (simp_all add: conn_ok_def send_ok_def)
      from Retrieve_spec [OF this] obtain ob where
        ob: "Retrieve n (output_buffer c) = Some ob" "buffer_ok ob" "readable ob = drop n (readable (output_buffer c))" by blast
      let ?c = "c\<lparr>wire := wire c @ Peek n (output_buffer c), output_buffer := ob\<rparr>"
      have bytes: "Peek n (output_buffer c) @ readable ob = readable (output_buffer c)"
        using le ob by (simp add: Peek_readable)
      show ?thesis
      proof (cases "readable ob = []")
        case True
        let ?d = "QueueWriteCompleteCallback (on_channel (DisableWriting granted) ?c)"
        have "conn_ok ?d"
          using ok st pending ob bytes True by (auto simp: conn_ok_def stream_inv_def closes_inv_def)
        then show ?thesis
          using \<open>IsWriting (channel c)\<close> nz Inr \<open>n > 0\<close> ob True
          by (auto simp: HandleWrite_def Let_def ShutdownInLoop_ok ReadableBytes_eq_0)
      next
        case False
        then have "conn_ok ?c"
          using ok st pending ob bytes by (auto simp: conn_ok_def stream_inv_def closes_inv_def)
        then show ?thesis
          using \<open>IsWriting (channel c)\<close> nz Inr \<open>n > 0\<close> ob False
          by (auto simp: HandleWrite_def Let_def ReadableBytes_eq_0)
      qed
    qed (use ok Inr nz True in \<open>auto simp: HandleWrite_def\<close>)
  qed
qed (use ok in \<open>simp add: HandleWrite_def\<close>)

lemma SendInLoop_buffer_ok:
  assumes b: "buffer_ok (input_buffer c)" "buffer_ok (output_buffer c)" and l: "conn_linked c" and st: "state c = kConnected"
    and ev: "events (channel c) = (if readable (output_buffer c) = [] then kReadEvent else kReadEvent OR kWriteEvent)"
    and bytes: "wire c @ readable (output_buffer c) @ rest = accepted c"
    and shut: "\<not> write_shut c" and cl: "closes_inv (state c) (log c)"
  shows "\<exists>c'. SendInLoop_buffer granted rest old c = Some c' \<and> conn_ok c'"
proof (cases "rest = []")
  case rest: False
  let ?c = "if high_water_mark_callback c \<and> old < high_water_mark c \<and> old + length rest \<ge> high_water_mark c
            then QueueHighWaterMarkCallback (old + length rest) c else c"
  have same: "output_buffer ?c = output_buffer c" by simp
  from Append_spec [OF b(2), of rest] obtain ob where
    ob: "Append rest (output_buffer c) = Some ob" "buffer_ok ob" "readable ob = readable (output_buffer c) @ rest" by blast
  let ?d = "?c\<lparr>output_buffer := ob\<rparr>"
  have "SendInLoop_buffer granted rest old c
      = Some (if \<not> IsWriting (channel ?d) then on_channel (EnableWriting granted) ?d else ?d)"
    using rest ob(1) by (simp add: SendInLoop_buffer_def Let_def)
  moreover have "conn_ok (on_channel (EnableWriting granted) ?d)" if "\<not> IsWriting (channel ?d)"
    using that assms rest ob by (auto simp: conn_ok_def stream_inv_def IsWriting_bit split: if_splits)
  moreover have "conn_ok ?d" if "IsWriting (channel ?d)"
    using that assms rest ob by (auto simp: conn_ok_def stream_inv_def IsWriting_bit split: if_splits)
  ultimately show ?thesis by auto
qed (use assms in \<open>simp add: SendInLoop_buffer_def conn_ok_def stream_inv_def\<close>)

lemma SendInLoop_ok:
  assumes ok: "conn_ok c" and n: "send_ok send (length data)"
  shows "\<exists>c'. SendInLoop granted send data c = Some c' \<and> conn_ok c'"
proof (cases "state c = kConnected")
  case True
  note inv = ok [unfolded conn_ok_def]
  have shut: "\<not> write_shut c" using inv True by (auto simp: stream_inv_def)
  have ev: "events (channel c) = (if readable (output_buffer c) = [] then kReadEvent else kReadEvent OR kWriteEvent)"
    and bytes: "wire c @ readable (output_buffer c) = accepted c"
    using inv True by (simp_all add: stream_inv_def)
  let ?a = "c\<lparr>accepted := accepted c @ data\<rparr>"
  have buf: "\<exists>c'. SendInLoop_buffer granted data old ?a = Some c' \<and> conn_ok c'" for old
    by (rule SendInLoop_buffer_ok) (use inv True shut ev bytes in auto)
  show ?thesis
  proof (cases "IsWriting (channel c) \<or> ReadableBytes (output_buffer c) \<noteq> 0")
    case True
    with \<open>state c = kConnected\<close> buf show ?thesis by (auto simp: SendInLoop_def Let_def)
  next
    case False
    then have out: "readable (output_buffer c) = []" using inv by (simp add: ReadableBytes_eq_0)
    show ?thesis
    proof (cases send)
      case (Inl errno)
      have "conn_ok (HandleError granted ?a)"
        using inv True
        by (auto simp: HandleError_def HandleClose_def Let_def conn_ok_def closes_inv_def stream_inv_def bytes [symmetric] out)
      with Inl False True buf show ?thesis by (auto simp: SendInLoop_def Let_def)
    next
      case (Inr written)
      let ?w = "c\<lparr>accepted := accepted c @ data, wire := wire c @ take written data\<rparr>"
      show ?thesis
      proof (cases "written = length data")
        case all: True
        have "conn_ok (QueueWriteCompleteCallback ?w)"
          using inv True out bytes shut all by (auto simp: conn_ok_def stream_inv_def)
        with Inr False True all show ?thesis by (auto simp: SendInLoop_def Let_def)
      next
        case part: False
        then have "written < length data" using n Inr by (simp add: send_ok_def)
        have "\<exists>c'. SendInLoop_buffer granted (drop written data) (ReadableBytes (output_buffer c)) ?w = Some c' \<and> conn_ok c'"
          by (rule SendInLoop_buffer_ok) (use inv True shut ev bytes out \<open>written < length data\<close> in auto)
        with Inr False True \<open>written < length data\<close> show ?thesis by (auto simp: SendInLoop_def Let_def)
      qed
    qed
  qed
qed (use ok in \<open>simp add: SendInLoop_def\<close>)

lemma conn_ok_frame [simp]:
  "conn_ok (c\<lparr>functors := f\<rparr>) = conn_ok c" "conn_ok (c\<lparr>frames := g\<rparr>) = conn_ok c"
  "conn_ok (SetCallbacks b1 b2 b3 b4 c) = conn_ok c" "conn_ok (SetHighWaterMarkCallback b5 n c) = conn_ok c"
  by (simp_all add: conn_ok_def SetCallbacks_def SetHighWaterMarkCallback_def conn_linked_def)

lemma dispatch_ok: "conn_ok c \<Longrightarrow> conn_ok (dispatch alive r c)"
  by (auto simp: dispatch_def Let_def SetRevents_def conn_ok_def conn_linked_def linked_def)

lemma run_frame_ok:
  assumes "conn_ok c" and "send_ok send (ReadableBytes (output_buffer c))"
  shows "\<exists>c'. run_frame granted now readv send f c = Some c' \<and> conn_ok c'"
  using assms HandleRead_ok [OF assms(1)] HandleWrite_ok [OF assms]
  by (cases "(granted, now, readv, send, f, c)" rule: run_frame.cases)
    (auto simp: HandleClose_ok HandleError_def, auto simp: conn_ok_def)

lemma run_conn_functor_ok:
  assumes "conn_ok c" and "\<And>data. f = FnSend data \<Longrightarrow> send_ok send (length data)"
  shows "\<exists>c'. run_conn_functor granted send f c = Some c' \<and> conn_ok c'"
  using assms SendInLoop_ok [OF assms(1)]
  by (cases f) (auto simp: ShutdownInLoop_ok ForceCloseInLoop_ok, auto simp: conn_ok_def closes_inv_def)

lemma conn_do_ok:
  assumes "conn_ok c" and "conn_call_ok c op"
  shows "\<exists>c'. conn_do op c = Some c' \<and> conn_ok c'"
proof (cases op)
  case (OpSend in_loop granted send data)
  then show ?thesis using assms SendInLoop_ok by (auto simp: Send_def)
next
  case (OpConsume n)
  have "buffer_ok (input_buffer c)" using assms by (simp add: conn_ok_def)
  from Retrieve_spec [OF this, of n] OpConsume assms show ?thesis by (auto simp: conn_ok_def)
next
  case (OpFrame granted now readv send)
  show ?thesis
  proof (cases "frames c")
    case (Cons f fs)
    have "\<exists>c'. run_frame granted now readv send f (c\<lparr>frames := fs\<rparr>) = Some c' \<and> conn_ok c'"
      by (rule run_frame_ok) (use assms OpFrame in auto)
    with Cons OpFrame show ?thesis by simp
  qed (use assms OpFrame in simp)
next
  case (OpFunctor granted send)
  show ?thesis
  proof (cases "frames c = [] \<and> functors c \<noteq> []")
    case True
    then obtain f fs where f: "functors c = f # fs" by (cases "functors c") auto
    have "\<exists>c'. run_conn_functor granted send f (c\<lparr>functors := fs\<rparr>) = Some c' \<and> conn_ok c'"
      by (rule run_conn_functor_ok) (use assms OpFunctor f in auto)
    with True f OpFunctor show ?thesis by simp
  qed (use assms OpFunctor in \<open>auto split: list.splits\<close>)
qed (use assms in \<open>auto simp: ConnectEstablished_ok ConnectDestroyed_ok Shutdown_def ShutdownInLoop_ok ForceClose_def
    ForceCloseInLoop_ok dispatch_ok\<close>)

definition conn_invar :: "TcpConnection option \<Rightarrow> bool" where
  "conn_invar s = (case s of None \<Rightarrow> False | Some c \<Rightarrow> conn_ok c)"

lemma conn_stepE:
  assumes "conn_invar s" and "conn_calls_ok s op"
  obtains c c' where "s = Some c" "conn_ok c" "conn_call_ok c op" "conn_do op c = Some c'" "conn_ok c'" "conn_step s op = Some c'"
  using assms conn_do_ok by (auto simp: conn_invar_def conn_calls_ok_def conn_step_def split: option.splits)

interpretation tc: guarded_object conn_step conn_calls_ok conn_invar
  by unfold_locales (erule (1) conn_stepE, simp add: conn_invar_def)

section \<open>The kernel is asked for what the connection waits for\<close>

text \<open>As long as \<open>epoll_ctl\<close> is granted its requests, the kernel's mask is the channel's.\<close>

fun op_granted :: "ConnOp \<Rightarrow> bool" where
  "op_granted (OpConnectEstablished in_loop granted now) = granted"
| "op_granted (OpConnectDestroyed in_loop granted) = granted"
| "op_granted (OpSend in_loop granted send data) = granted"
| "op_granted (OpForceClose in_loop granted) = granted"
| "op_granted (OpFrame granted now readv send) = granted"
| "op_granted (OpFunctor granted send) = granted"
| "op_granted op = True"

lemma conn_synced_frame [simp]:
  "conn_synced (c\<lparr>state := a\<rparr>) = conn_synced c" "conn_synced (c\<lparr>last_read_tick := b\<rparr>) = conn_synced c"
  "conn_synced (c\<lparr>input_buffer := d\<rparr>) = conn_synced c" "conn_synced (c\<lparr>output_buffer := d\<rparr>) = conn_synced c"
  "conn_synced (c\<lparr>wire := e\<rparr>) = conn_synced c" "conn_synced (c\<lparr>accepted := e\<rparr>) = conn_synced c"
  "conn_synced (c\<lparr>functors := h\<rparr>) = conn_synced c" "conn_synced (c\<lparr>frames := i\<rparr>) = conn_synced c"
  "conn_synced (c\<lparr>write_shut := j\<rparr>) = conn_synced c" "conn_synced (c\<lparr>log := k\<rparr>) = conn_synced c"
  "conn_synced (notify l m c) = conn_synced c" "conn_synced (QueueWriteCompleteCallback c) = conn_synced c"
  "conn_synced (QueueHighWaterMarkCallback n c) = conn_synced c"
  "conn_synced (SetCallbacks b1 b2 b3 b4 c) = conn_synced c" "conn_synced (SetHighWaterMarkCallback b5 n c) = conn_synced c"
  "conn_synced (c\<lparr>channel := (channel c)\<lparr>event_handling := o'\<rparr>\<rparr>) = conn_synced c"
  "conn_synced (ShutdownInLoop c) = conn_synced c"
  by (simp_all add: conn_synced_def synced_def IsNoneEvent_def SetCallbacks_def SetHighWaterMarkCallback_def ShutdownInLoop_def Let_def)

lemma conn_synced_linked: "conn_synced c \<Longrightarrow> conn_linked c"
  by (simp add: conn_synced_def conn_linked_def synced_linked)

lemma HandleClose_synced: "conn_synced c \<Longrightarrow> conn_synced (HandleClose True c)"
  by (simp add: HandleClose_def Let_def conn_synced_linked)

lemma HandleRead_synced: "\<lbrakk>conn_synced c; HandleRead True now readv c = Some c'\<rbrakk> \<Longrightarrow> conn_synced c'"
  by (auto simp: HandleRead_def Let_def HandleError_def HandleClose_synced split: bind_splits sum.splits if_splits)

lemma HandleWrite_synced: "\<lbrakk>conn_synced c; HandleWrite True send c = Some c'\<rbrakk> \<Longrightarrow> conn_synced c'"
  by (auto simp: HandleWrite_def Let_def HandleError_def HandleClose_synced conn_synced_linked split: bind_splits sum.splits if_splits)

lemma SendInLoop_buffer_synced: "\<lbrakk>conn_synced c; SendInLoop_buffer True rest old c = Some c'\<rbrakk> \<Longrightarrow> conn_synced c'"
  by (auto simp: SendInLoop_buffer_def Let_def conn_synced_linked split: bind_splits if_splits)

lemma SendInLoop_synced:
  assumes c: "conn_synced c" and c': "SendInLoop True send data c = Some c'"
  shows "conn_synced c'"
proof -
  let ?a = "c\<lparr>accepted := accepted c @ data\<rparr>"
  have a: "conn_synced ?a" and w: "conn_synced (?a\<lparr>wire := wire c @ take n data\<rparr>)" for n using c by simp_all
  note buffer = SendInLoop_buffer_synced [OF a] SendInLoop_buffer_synced [OF w]
  have close: "conn_synced (HandleError True ?a)" using HandleClose_synced [OF a] by (simp add: HandleError_def)
  have compl: "conn_synced (QueueWriteCompleteCallback (?a\<lparr>wire := v\<rparr>))" for v using c by simp
  show ?thesis
  proof (cases "state c = kConnected \<and> \<not> IsWriting (channel c) \<and> ReadableBytes (output_buffer c) = 0")
    case True
    with c' buffer close compl show ?thesis
      by (cases send) (auto simp: SendInLoop_def Let_def simp del: conn_synced_frame split: if_splits)
  next
    case False
    with c c' buffer(1) show ?thesis
      by (cases "state c = kConnected") (auto simp: SendInLoop_def Let_def simp del: conn_synced_frame)
  qed
qed

definition destroying_ok :: "TcpConnection \<Rightarrow> bool" where
  "destroying_ok c \<longleftrightarrow> (FrRemoveChannel \<in> set (frames c) \<longrightarrow> state c = kDisconnected \<or> state c = kConnecting)"

lemma run_frame_synced:
  assumes s: "conn_synced c" and ok: "conn_ok c" and rm: "f = FrRemoveChannel \<Longrightarrow> state c = kDisconnected \<or> state c = kConnecting"
    and c': "run_frame True now readv send f c = Some c'"
  shows "conn_synced c'"
proof (cases f)
  case (FrCallback cb)
  show ?thesis
  proof (cases cb)
    case CbRead
    with FrCallback c' HandleRead_synced [OF s] show ?thesis by simp
  next
    case CbWrite
    with FrCallback c' HandleWrite_synced [OF s] show ?thesis by simp
  qed (use FrCallback c' HandleClose_synced [OF s] in \<open>auto simp: HandleError_def\<close>)
next
  case FrRemoveChannel
  then have "events (channel c) = kNoneEvent" using ok rm by (auto simp: conn_ok_def stream_inv_def)
  with FrRemoveChannel c' s show ?thesis by (auto simp: conn_synced_linked)
qed (use c' s in auto)

lemma run_conn_functor_synced: "\<lbrakk>conn_synced c; run_conn_functor True send f c = Some c'\<rbrakk> \<Longrightarrow> conn_synced c'"
  by (cases f) (auto simp: SendInLoop_synced ForceCloseInLoop_def HandleClose_synced)

lemma dispatch_synced: "conn_synced c \<Longrightarrow> conn_synced (dispatch alive r c)"
  by (auto simp: dispatch_def Let_def SetRevents_def conn_synced_def synced_def IsNoneEvent_def)

lemma ConnectEstablished_synced: "conn_synced c \<Longrightarrow> conn_synced (ConnectEstablished in_loop True now c)"
proof -
  assume "conn_synced c"
  then have "conn_linked (c\<lparr>state := kConnected, last_read_tick := now, channel := Tie (channel c)\<rparr>)"
    using conn_synced_linked [of c] by (simp add: conn_linked_def linked_def Tie_def)
  with \<open>conn_synced c\<close> show ?thesis by (simp add: ConnectEstablished_def Let_def)
qed

lemma ConnectDestroyed_synced: "conn_synced c \<Longrightarrow> conn_synced (ConnectDestroyed in_loop True c)"
  by (simp add: ConnectDestroyed_def Let_def conn_synced_linked)

lemma conn_do_synced:
  assumes s: "conn_synced c" and ok: "conn_ok c" and d: "destroying_ok c" and g: "op_granted op" and c': "conn_do op c = Some c'"
  shows "conn_synced c'"
proof (cases op)
  case (OpFrame granted now readv send)
  show ?thesis
  proof (cases "frames c")
    case (Cons f fs)
    have "run_frame True now readv send f (c\<lparr>frames := fs\<rparr>) = Some c'" using Cons OpFrame g c' by simp
    then show ?thesis
      by (rule run_frame_synced [rotated 3]) (use s ok d Cons in \<open>auto simp: destroying_ok_def\<close>)
  qed (use OpFrame s c' in simp)
next
  case (OpFunctor granted send)
  then show ?thesis
    using s g c' run_conn_functor_synced [of "c\<lparr>functors := fs\<rparr>" for fs] by (auto split: list.splits)
next
  case (OpSend in_loop granted send data)
  then show ?thesis using s g c' SendInLoop_synced by (auto simp: Send_def split: if_splits)
qed (use s g c' in \<open>auto simp: dispatch_synced ConnectEstablished_synced ConnectDestroyed_synced Shutdown_def ForceClose_def
    ForceCloseInLoop_def HandleClose_synced\<close>)

text \<open>The second contract: with every request granted, the kernel's view is exact as well.\<close>

lemma HandleClose_state: "state (HandleClose g c) = kDisconnected" "frames (HandleClose g c) = frames c"
  by (simp_all add: HandleClose_def Let_def)

lemma ShutdownInLoop_state:
  "state (ShutdownInLoop c) = (if state c = kConnected then kDisconnecting else state c)" "frames (ShutdownInLoop c) = frames c"
  by (simp_all add: ShutdownInLoop_def Let_def)

lemma HandleRead_state:
  "HandleRead g now readv c = Some c' \<Longrightarrow> (state c' = state c \<or> state c' = kDisconnected) \<and> frames c' = frames c"
  by (auto simp: HandleRead_def Let_def HandleError_def HandleClose_state split: bind_splits sum.splits if_splits)

lemma HandleWrite_state:
  "\<lbrakk>HandleWrite g send c = Some c'\<rbrakk> \<Longrightarrow> (state c' = state c \<or> state c' = kDisconnected) \<and> frames c' = frames c"
  by (auto simp: HandleWrite_def Let_def HandleError_def HandleClose_state ShutdownInLoop_state split: bind_splits sum.splits if_splits)

lemma SendInLoop_buffer_state: "SendInLoop_buffer g rest old c = Some c' \<Longrightarrow> state c' = state c \<and> frames c' = frames c"
  by (auto simp: SendInLoop_buffer_def Let_def split: bind_splits if_splits)

lemma SendInLoop_state:
  assumes "SendInLoop g send data c = Some c'"
  shows "(state c' = state c \<or> state c' = kDisconnected) \<and> frames c' = frames c"
  using assms
  by (auto simp: SendInLoop_def Let_def HandleError_def HandleClose_state dest!: SendInLoop_buffer_state split: sum.splits if_splits)

text \<open>A connection that is shutting down or closed never becomes connected again.\<close>

definition ending :: "ConnState \<Rightarrow> bool" where
  "ending st \<longleftrightarrow> st = kDisconnecting \<or> st = kDisconnected"

definition moves :: "TcpConnection \<Rightarrow> TcpConnection \<Rightarrow> bool" where
  "moves c c' \<longleftrightarrow> (state c' = state c \<or> state c' = kDisconnected \<or> state c = kConnected \<and> state c' = kDisconnecting
       \<or> state c = kConnecting \<and> state c' = kConnected \<and> frames c = [])
     \<and> (set (frames c') \<subseteq> set (frames c) \<or> frames c = [] \<and> FrRemoveChannel \<notin> set (frames c')
       \<or> state c' = kDisconnected \<or> state c' = kConnecting)"

lemma movesI: "\<lbrakk>state c' = state c \<or> state c' = kDisconnected; set (frames c') \<subseteq> set (frames c)\<rbrakk> \<Longrightarrow> moves c c'"
  by (auto simp: moves_def ending_def)

lemma moves_same [simp]:
  "moves c c" "moves c (c\<lparr>functors := f\<rparr>)" "moves c (c\<lparr>input_buffer := b\<rparr>)" "moves c (SetCallbacks b1 b2 b3 b4 c)"
  "moves c (SetHighWaterMarkCallback b5 n c)"
  by (simp_all add: movesI SetCallbacks_def SetHighWaterMarkCallback_def)

lemma ConnectEstablished_moves: "\<lbrakk>state c = kConnecting; frames c = []\<rbrakk> \<Longrightarrow> moves c (ConnectEstablished in_loop g now c)"
  by (simp add: ConnectEstablished_def Let_def moves_def)

lemma ConnectDestroyed_moves: "moves c (ConnectDestroyed in_loop g c)"
  by (cases "state c") (simp_all add: ConnectDestroyed_def Let_def moves_def ending_def)

lemma dispatch_moves: "frames c = [] \<Longrightarrow> moves c (dispatch alive r c)"
  by (auto simp: dispatch_def Let_def moves_def)

lemma ShutdownInLoop_moves: "moves c (ShutdownInLoop c)"
  by (auto simp: moves_def ShutdownInLoop_state ending_def)

lemma HandleClose_moves: "moves c (HandleClose g c)"
  by (rule movesI) (simp_all add: HandleClose_state)

lemma run_frame_state:
  assumes "run_frame g now readv send f c = Some c'"
  shows "(state c' = state c \<or> state c' = kDisconnected) \<and> frames c' = frames c"
proof (cases f)
  case (FrCallback cb)
  with assms show ?thesis
    by (cases cb) (auto simp: HandleError_def HandleClose_state dest!: HandleRead_state HandleWrite_state)
qed (use assms in auto)

lemma run_conn_functor_moves: "run_conn_functor g send f c = Some c' \<Longrightarrow> moves c c'"
proof (cases f)
  case (FnSend data)
  assume "run_conn_functor g send f c = Some c'"
  with FnSend have "SendInLoop g send data c = Some c'" by simp
  from SendInLoop_state [OF this] show ?thesis by (intro movesI) auto
qed (auto simp: ShutdownInLoop_moves ForceCloseInLoop_def HandleClose_moves intro: movesI)

lemma conn_do_moves:
  assumes c': "conn_do op c = Some c'" and ok: "conn_call_ok c op"
  shows "moves c c'"
proof (cases op)
  case (OpSend in_loop granted send data)
  with c' show ?thesis by (auto simp: Send_def split: if_splits intro!: movesI dest!: SendInLoop_state)
next
  case (OpFrame granted now readv send)
  with c' show ?thesis by (auto split: list.splits intro!: movesI dest!: run_frame_state)
next
  case (OpFunctor granted send)
  show ?thesis
  proof (cases "frames c = [] \<and> functors c \<noteq> []")
    case True
    then obtain f fs where f: "functors c = f # fs" by (cases "functors c") auto
    with True OpFunctor c' have "moves (c\<lparr>functors := fs\<rparr>) c'" by (intro run_conn_functor_moves) simp
    then show ?thesis by (simp add: moves_def)
  qed (use OpFunctor c' in \<open>auto split: list.splits intro: movesI\<close>)
qed (use c' ok in \<open>auto simp: ConnectEstablished_moves ConnectDestroyed_moves dispatch_moves Shutdown_def
    ForceClose_def ForceCloseInLoop_def HandleClose_moves ShutdownInLoop_moves\<close>)

definition conn_live :: "TcpConnection option \<Rightarrow> bool" where
  "conn_live s = (case s of None \<Rightarrow> False | Some c \<Rightarrow> conn_ok c \<and> conn_synced c \<and> destroying_ok c)"

definition conn_calls_granted :: "TcpConnection option \<Rightarrow> ConnOp \<Rightarrow> bool" where
  "conn_calls_granted s op \<longleftrightarrow> conn_calls_ok s op \<and> op_granted op"

interpretation tl: guarded_object conn_step conn_calls_granted conn_live
proof
  fix s op
  assume live: "conn_live s" and ok: "conn_calls_granted s op"
  then have "conn_invar s" "conn_calls_ok s op"
    by (auto simp: conn_live_def conn_invar_def conn_calls_granted_def split: option.splits)
  then obtain c c' where c: "s = Some c" "conn_call_ok c op" "conn_do op c = Some c'" "conn_ok c'" "conn_step s op = Some c'"
    by (rule conn_stepE)
  have "conn_synced c'"
    by (rule conn_do_synced [OF _ _ _ _ c(3)]) (use live ok c in \<open>auto simp: conn_live_def conn_calls_granted_def\<close>)
  moreover have "destroying_ok c'"
    using conn_do_moves [OF c(3,2)] live c(1) by (auto simp: moves_def destroying_ok_def conn_live_def ending_def)
  ultimately show "conn_live (conn_step s op)" using c by (simp add: conn_live_def)
qed

section \<open>What a step can still change\<close>

definition quiet :: "TcpConnection \<Rightarrow> TcpConnection \<Rightarrow> bool" where
  "quiet c c' \<longleftrightarrow> (write_shut c' \<longrightarrow> write_shut c \<or> state c = kConnected)
     \<and> (state c = kDisconnected \<longrightarrow> wire c' = wire c \<and> accepted c' = accepted c)"

lemma quietI: "\<lbrakk>write_shut c' = write_shut c; wire c' = wire c; accepted c' = accepted c\<rbrakk> \<Longrightarrow> quiet c c'"
  by (simp add: quiet_def)

lemma quiet_frame [simp]: "quiet (c\<lparr>frames := a\<rparr>) c' = quiet c c'" "quiet (c\<lparr>functors := b\<rparr>) c' = quiet c c'"
  "quiet c (c\<lparr>functors := b\<rparr>)"
  by (simp_all add: quiet_def)

lemma HandleClose_quiet: "quiet c (HandleClose g c)"
  by (rule quietI) (simp_all add: HandleClose_def Let_def)

lemma ShutdownInLoop_quiet: "quiet c (ShutdownInLoop c)"
  by (simp add: quiet_def ShutdownInLoop_def Let_def)

lemma HandleRead_quiet: "HandleRead g now readv c = Some c' \<Longrightarrow> quiet c c'"
  by (auto simp: HandleRead_def Let_def HandleError_def HandleClose_def quiet_def split: bind_splits sum.splits if_splits)

lemma HandleWrite_quiet: "\<lbrakk>conn_ok c; HandleWrite g send c = Some c'\<rbrakk> \<Longrightarrow> quiet c c'"
  using not_writing [of c]
  by (auto simp: HandleWrite_def Let_def HandleError_def HandleClose_def ShutdownInLoop_def quiet_def
      split: bind_splits sum.splits if_splits)

lemma SendInLoop_quiet: "SendInLoop g send data c = Some c' \<Longrightarrow> quiet c c'"
  by (cases "state c = kConnected") (auto simp: SendInLoop_def quiet_def)

lemma calls_quiet:
  "quiet c c" "quiet c (SetCallbacks b1 b2 b3 b4 c)" "quiet c (SetHighWaterMarkCallback b5 n c)"
  "quiet c (ConnectEstablished in_loop g now c)" "quiet c (ConnectDestroyed in_loop g c)" "quiet c (dispatch alive r c)"
  "quiet c (Shutdown in_loop c)" "quiet c (ForceClose in_loop g c)" "quiet c (c\<lparr>input_buffer := b\<rparr>)"
  by (simp_all add: quiet_def SetCallbacks_def SetHighWaterMarkCallback_def ConnectEstablished_def ConnectDestroyed_def dispatch_def
      Let_def Shutdown_def ShutdownInLoop_def ForceClose_def ForceCloseInLoop_def HandleClose_def)

lemma conn_do_quiet:
  assumes ok: "conn_ok c" and c': "conn_do op c = Some c'"
  shows "quiet c c'"
proof (cases op)
  case (OpSend in_loop granted send data)
  with c' show ?thesis by (auto simp: Send_def SendInLoop_quiet split: if_splits intro: quietI)
next
  case (OpFrame granted now readv send)
  show ?thesis
  proof (cases "frames c")
    case (Cons f fs)
    with OpFrame c' have run: "run_frame granted now readv send f (c\<lparr>frames := fs\<rparr>) = Some c'" by simp
    have "quiet (c\<lparr>frames := fs\<rparr>) c'"
      using run ok HandleWrite_quiet [of "c\<lparr>frames := fs\<rparr>"]
      by (cases "(granted, now, readv, send, f, c)" rule: run_frame.cases)
        (auto simp: HandleError_def dest: HandleRead_quiet intro: HandleClose_quiet [of "c\<lparr>frames := fs\<rparr>", simplified] quietI)
    then show ?thesis by simp
  qed (use OpFrame c' in \<open>auto intro: quietI\<close>)
next
  case (OpFunctor granted send)
  show ?thesis
  proof (cases "frames c = [] \<and> functors c \<noteq> []")
    case True
    then obtain f fs where f: "functors c = f # fs" by (cases "functors c") auto
    with True OpFunctor c' have run: "run_conn_functor granted send f (c\<lparr>functors := fs\<rparr>) = Some c'" by simp
    have "quiet (c\<lparr>functors := fs\<rparr>) c'"
      using run ShutdownInLoop_quiet [of "c\<lparr>functors := fs\<rparr>"] HandleClose_quiet [of "c\<lparr>functors := fs\<rparr>" granted]
      by (cases f) (auto simp: ForceCloseInLoop_def dest: SendInLoop_quiet intro: quietI)
    then show ?thesis by simp
  qed (use OpFunctor c' in \<open>auto split: list.splits intro: quietI\<close>)
qed (use c' in \<open>auto simp: calls_quiet\<close>)

text \<open>A connection in a run, seen from a state it went through.\<close>

definition conn_end :: "TcpConnection option \<Rightarrow> TcpConnection option \<Rightarrow> bool" where
  "conn_end s s' \<longleftrightarrow> (\<forall>c c'. s = Some c \<longrightarrow> s' = Some c' \<longrightarrow>
     (ending (state c) \<longrightarrow> ending (state c') \<and> (write_shut c' \<longrightarrow> write_shut c))
     \<and> (state c = kDisconnected \<longrightarrow> state c' = kDisconnected \<and> wire c' = wire c \<and> accepted c' = accepted c))"

lemma conn_run_end:
  assumes "conn_invar s" and "ok_run conn_calls_ok conn_step s ops"
  shows "conn_end s (run_ops conn_step s ops) \<and> conn_invar (run_ops conn_step s ops)"
proof -
  have "conn_end s (run_ops conn_step s ops) \<and> (s \<noteq> None \<longrightarrow> run_ops conn_step s ops \<noteq> None)"
  proof (rule tc.run_relates [where R = "\<lambda>s s'. conn_end s s' \<and> (s \<noteq> None \<longrightarrow> s' \<noteq> None)"])
    fix s op
    assume "conn_invar s" "conn_calls_ok s op"
    then obtain c c' where c: "s = Some c" "conn_ok c" "conn_call_ok c op" "conn_do op c = Some c'" "conn_step s op = Some c'"
      by (rule conn_stepE)
    from conn_do_moves [OF c(4,3)] conn_do_quiet [OF c(2,4)] c
    show "conn_end s (conn_step s op) \<and> (s \<noteq> None \<longrightarrow> conn_step s op \<noteq> None)"
      by (auto simp: conn_end_def moves_def quiet_def ending_def)
  next
    fix s t u
    assume st: "conn_end s t \<and> (s \<noteq> None \<longrightarrow> t \<noteq> None)" and tu: "conn_end t u \<and> (t \<noteq> None \<longrightarrow> u \<noteq> None)"
    show "conn_end s u \<and> (s \<noteq> None \<longrightarrow> u \<noteq> None)"
    proof (cases t)
      case (Some d)
      have "conn_end s u"
        unfolding conn_end_def
      proof (intro allI impI)
        fix c c'
        assume "s = Some c" "u = Some c'"
        with st tu Some have "(ending (state c) \<longrightarrow> ending (state d) \<and> (write_shut d \<longrightarrow> write_shut c))
            \<and> (state c = kDisconnected \<longrightarrow> state d = kDisconnected \<and> wire d = wire c \<and> accepted d = accepted c)"
          "(ending (state d) \<longrightarrow> ending (state c') \<and> (write_shut c' \<longrightarrow> write_shut d))
            \<and> (state d = kDisconnected \<longrightarrow> state c' = kDisconnected \<and> wire c' = wire d \<and> accepted c' = accepted d)"
          unfolding conn_end_def by blast+
        then show "(ending (state c) \<longrightarrow> ending (state c') \<and> (write_shut c' \<longrightarrow> write_shut c))
            \<and> (state c = kDisconnected \<longrightarrow> state c' = kDisconnected \<and> wire c' = wire c \<and> accepted c' = accepted c)"
          by auto
      qed
      with st tu Some show ?thesis by simp
    qed (use st in \<open>simp add: conn_end_def\<close>)
  qed (use assms in \<open>auto simp: conn_end_def\<close>)
  with tc.run_invar [OF assms] show ?thesis by simp
qed

lemma reachable_ok:
  assumes "poller_valid p" and "0 \<le> fd" and "interest p fd = None"
    and "ok_run conn_calls_ok conn_step (Some (TcpConnection_new ptr fd p now)) ops"
    and "run_ops conn_step (Some (TcpConnection_new ptr fd p now)) ops = Some c"
  shows "conn_ok c"
proof -
  have "conn_invar (Some (TcpConnection_new ptr fd p now))" using assms by (simp add: conn_invar_def conn_ok_new)
  from tc.run_invar [OF this assms(4)] show ?thesis by (simp add: conn_invar_def assms(5))
qed

section \<open>Properties\<close>

lemma stream_inv_bytes:
  assumes "stream_inv st ev out w acc shut"
  shows "st \<noteq> kDisconnected \<Longrightarrow> w @ out = acc" "\<exists>lost. w @ out @ lost = acc" "shut \<Longrightarrow> w = acc"
  using assms by (cases st; auto simp: stream_inv_def)+

lemma conn_run_ok:
  assumes "poller_valid p" and "0 \<le> fd" and "interest p fd = None"
    and "ok_run conn_calls_ok conn_step (Some (TcpConnection_new ptr fd p now)) ops"
  obtains c where "run_ops conn_step (Some (TcpConnection_new ptr fd p now)) ops = Some c" "conn_ok c"
    "stream_inv (state c) (events (channel c)) (readable (output_buffer c)) (wire c) (accepted c) (write_shut c)"
proof -
  have "conn_invar (Some (TcpConnection_new ptr fd p now))" using assms by (simp add: conn_invar_def conn_ok_new)
  from tc.run_invar [OF this assms(4)] that show thesis by (auto simp: conn_invar_def conn_ok_def split: option.splits)
qed

text \<open>C12: Whatever the peer, the kernel, other threads and user code do with a connection, no assertion of its buffers
  fails, and what was given to \<open>SendInLoop\<close> while connected reaches the socket in order: until the connection
  is closed the bytes the socket has taken followed by the buffered ones are exactly the accepted ones, and
  afterwards they are a prefix of them. The write side is shut down only after every accepted byte has been sent,
  and the close callback is called at most once.\<close>

theorem sent_bytes_in_order:
  assumes "poller_valid p" and "0 \<le> fd" and "interest p fd = None"
    and "ok_run conn_calls_ok conn_step (Some (TcpConnection_new ptr fd p now)) ops"
  shows "\<exists>c. run_ops conn_step (Some (TcpConnection_new ptr fd p now)) ops = Some c
     \<and> (state c \<noteq> kDisconnected \<longrightarrow> wire c @ readable (output_buffer c) = accepted c)
     \<and> (\<exists>lost. wire c @ readable (output_buffer c) @ lost = accepted c)
     \<and> (write_shut c \<longrightarrow> wire c = accepted c) \<and> count_list (log c) NotifyClose \<le> 1"
proof -
  obtain c where c: "run_ops conn_step (Some (TcpConnection_new ptr fd p now)) ops = Some c" "conn_ok c"
    "stream_inv (state c) (events (channel c)) (readable (output_buffer c)) (wire c) (accepted c) (write_shut c)"
    using conn_run_ok [OF assms] by blast
  then show ?thesis using stream_inv_bytes [OF c(3)] by (auto simp: conn_ok_def closes_inv_def)
qed

definition demo_poller :: Poller where
  "demo_poller = \<lparr>poller_valid = True, channels = Map.empty, interest = Map.empty\<rparr>"

text \<open>A run: three bytes are sent, the socket takes one; the loop then writes the rest; the peer closes.\<close>

definition demo_ops :: "ConnOp list" where
  "demo_ops = [OpSetCallbacks True True True True, OpConnectEstablished True True 1, OpSend True True (Inr 1) [1, 2, 3],
     OpEvent True 4, OpFrame True 2 (Inl 11) (Inr 2), OpFrame True 2 (Inl 11) (Inl 11), OpFunctor True (Inl 11),
     OpEvent True 1, OpFrame True 3 (Inr []) (Inl 11), OpFrame True 3 (Inl 11) (Inl 11)]"

lemmas conn_eval = TcpConnection_new_def Channel_new_def Buffer_new_def conn_step_def conn_calls_ok_def SetCallbacks_def
  SetHighWaterMarkCallback_def ConnectEstablished_def ConnectDestroyed_def Let_def Tie_def on_channel_def channel_ops Update_def
  UpdateChannel_def RemoveChannel_def IsNoneEvent_def notify_def Send_def SendInLoop_def size_defs IsWriting_def kNoneEvent_def
  kReadEvent_def kWriteEvent_def epoll_bits send_ok_def SendInLoop_buffer_def Append_def EnsureWritableBytes_def HasWritten_def
  kInitialSize_def kCheapPrepend_def dispatch_def SetRevents_def HandleEvent_def HandleEventWithGuard_def HandleRead_def
  HandleWrite_def HandleError_def HandleClose_def ShutdownInLoop_def Shutdown_def ForceClose_def ForceCloseInLoop_def
  QueueWriteCompleteCallback_def QueueHighWaterMarkCallback_def ReadFd_def Retrieve_def RetrieveAll_def Peek_def try_again_def
  EAGAIN_def EWOULDBLOCK_def EINTR_def ECONNRESET_def

lemma demo_run:
  "ok_run conn_calls_ok conn_step (Some (TcpConnection_new 7 5 demo_poller 0)) demo_ops"
  by (simp add: demo_ops_def demo_poller_def conn_eval)

lemma demo_prefix_run: "ok_run conn_calls_ok conn_step (Some (TcpConnection_new 7 5 demo_poller 0)) (take 3 demo_ops)"
  by (simp add: demo_ops_def demo_poller_def conn_eval)

lemma demo_prefix_state:
  obtains c where "run_ops conn_step (Some (TcpConnection_new 7 5 demo_poller 0)) (take 3 demo_ops) = Some c" "state c = kConnected"
    "channel_ptr c = 7" "readable (output_buffer c) = [2, 3]" "wire c = [1]"
  by (simp add: demo_ops_def demo_poller_def conn_eval readable_def drop_update_swap drop_update_cancel list_update_swap take_update_swap)
    (simp add: numeral_2_eq_2)

theorem sent_bytes_in_order_witness:
  "(\<exists>c. run_ops conn_step (Some (TcpConnection_new 7 5 demo_poller 0)) (take 3 demo_ops) = Some c
     \<and> state c = kConnected \<and> wire c = [1] \<and> readable (output_buffer c) = [2, 3] \<and> accepted c = [1, 2, 3])
   \<and> (\<exists>c. run_ops conn_step (Some (TcpConnection_new 7 5 demo_poller 0)) demo_ops = Some c
     \<and> (\<exists>lost. wire c @ readable (output_buffer c) @ lost = accepted c))"
proof (intro conjI)
  obtain c where c: "run_ops conn_step (Some (TcpConnection_new 7 5 demo_poller 0)) (take 3 demo_ops) = Some c" "state c = kConnected"
    "readable (output_buffer c) = [2, 3]" "wire c = [1]"
    by (rule demo_prefix_state)
  with sent_bytes_in_order [OF _ _ _ demo_prefix_run] have "wire c @ readable (output_buffer c) = accepted c"
    by (auto simp: demo_poller_def)
  with c show "\<exists>c. run_ops conn_step (Some (TcpConnection_new 7 5 demo_poller 0)) (take 3 demo_ops) = Some c
     \<and> state c = kConnected \<and> wire c = [1] \<and> readable (output_buffer c) = [2, 3] \<and> accepted c = [1, 2, 3]" by auto
  show "\<exists>c. run_ops conn_step (Some (TcpConnection_new 7 5 demo_poller 0)) demo_ops = Some c
     \<and> (\<exists>lost. wire c @ readable (output_buffer c) @ lost = accepted c)"
    using sent_bytes_in_order [OF _ _ _ demo_run] by (auto simp: demo_poller_def)
qed

text \<open>No pending output is forgotten. As long as \<open>epoll_ctl\<close> is granted what it is asked, in every state a run
  reaches the kernel watches an open connection for readability, and for writability exactly while bytes are
  buffered; a closed connection is not watched any more.\<close>

theorem output_is_watched:
  assumes "poller_valid p" and "0 \<le> fd" and "interest p fd = None"
    and "ok_run conn_calls_granted conn_step (Some (TcpConnection_new ptr fd p now)) ops"
    and "run_ops conn_step (Some (TcpConnection_new ptr fd p now)) ops = Some c"
  shows "interest (loop_poller c) (channel_fd (channel c)) =
     (if state c = kConnected \<or> state c = kDisconnecting
      then Some (if readable (output_buffer c) = [] then kReadEvent else kReadEvent OR kWriteEvent, channel_ptr c) else None)"
proof -
  have "conn_live (Some (TcpConnection_new ptr fd p now))"
    using assms conn_ok_new [of p fd ptr now]
    by (simp add: conn_live_def conn_synced_def synced_def destroying_ok_def wired_def TcpConnection_new_def Channel_new_def IsNoneEvent_def)
  from tl.run_invar [OF this assms(4)] have "conn_ok c" "conn_synced c" by (simp_all add: assms(5) conn_live_def)
  then show ?thesis
    by (cases "state c") (auto simp: conn_ok_def stream_inv_def conn_synced_def synced_def IsNoneEvent_def)
qed

theorem output_is_watched_witness:
  "\<exists>c. run_ops conn_step (Some (TcpConnection_new 7 5 demo_poller 0)) (take 3 demo_ops) = Some c
     \<and> readable (output_buffer c) = [2, 3]
     \<and> interest (loop_poller c) (channel_fd (channel c)) = Some (kReadEvent OR kWriteEvent, 7)"
proof -
  let ?s = "Some (TcpConnection_new 7 5 demo_poller 0)"
  obtain c where c: "run_ops conn_step ?s (take 3 demo_ops) = Some c" "state c = kConnected" "channel_ptr c = 7"
    "readable (output_buffer c) = [2, 3]"
    by (rule demo_prefix_state)
  moreover have "ok_run conn_calls_granted conn_step ?s (take 3 demo_ops)"
    by (simp add: demo_ops_def demo_poller_def conn_eval conn_calls_granted_def)
  ultimately show ?thesis
    using output_is_watched [of demo_poller 5 7 0 "take 3 demo_ops" c] by (auto simp: demo_poller_def)
qed

text \<open>One writability event whose \<open>send\<close> takes at most \<open>k\<close> bytes: the loop dispatches it and runs what it gives rise to.\<close>

definition write_event :: "nat \<Rightarrow> TcpConnection \<Rightarrow> TcpConnection option" where
  "write_event k c = do {
     c \<leftarrow> conn_do (OpEvent True EPOLLOUT) c;
     c \<leftarrow> conn_do (OpFrame True 0 (Inl EAGAIN) (Inr (min k (ReadableBytes (output_buffer c))))) c;
     conn_do (OpFrame True 0 (Inl EAGAIN) (Inl EAGAIN)) c
   }"

lemma write_event_frames:
  assumes "frames c = []" and "has_write_callback (channel c)"
  shows "\<exists>ch. dispatch True EPOLLOUT c = c\<lparr>channel := ch, frames := [FrCallback CbWrite, FrEventEnd]\<rparr>
     \<and> ch = (channel c)\<lparr>revents := EPOLLOUT, event_handling := True\<rparr>"
  using assms by (simp add: dispatch_def Let_def SetRevents_def HandleEvent_def HandleEventWithGuard_def epoll_bits)

lemma HandleWrite_progress:
  assumes ok: "conn_ok c" and st: "state c = kConnected \<or> state c = kDisconnecting" and k: "k > 0"
    and pend: "readable (output_buffer c) \<noteq> []"
  defines "n \<equiv> min k (ReadableBytes (output_buffer c))"
  shows "\<exists>c'. HandleWrite True (Inr n) c = Some c' \<and> conn_ok c' \<and> state c' = state c \<and> accepted c' = accepted c
     \<and> frames c' = frames c
     \<and> length (readable (output_buffer c')) < length (readable (output_buffer c))"
proof -
  have b: "buffer_ok (output_buffer c)" using ok by (simp add: conn_ok_def)
  with pend have r: "ReadableBytes (output_buffer c) > 0" by (simp add: ReadableBytes_gt_0)
  then have n: "0 < n" "n \<le> ReadableBytes (output_buffer c)" using k by (simp_all add: n_def)
  from Retrieve_spec [OF b n(2)] obtain ob where
    ob: "Retrieve n (output_buffer c) = Some ob" "buffer_ok ob" "readable ob = drop n (readable (output_buffer c))" by blast
  have w: "IsWriting (channel c)" using writing_pending [OF ok st] pend by simp
  have "\<exists>c'. HandleWrite True (Inr n) c = Some c' \<and> conn_ok c'"
    by (rule HandleWrite_ok [OF ok]) (use n in \<open>simp add: send_ok_def\<close>)
  then obtain c' where c': "HandleWrite True (Inr n) c = Some c'" "conn_ok c'" by blast
  have "state c' = state c \<and> accepted c' = accepted c \<and> frames c' = frames c \<and> output_buffer c' = ob"
    using c'(1) w r n(1) ob(1) st
    by (auto simp: HandleWrite_def Let_def ShutdownInLoop_def split: if_splits)
  with c' ob n pend b show ?thesis by (auto simp: length_readable)
qed

lemma write_event_progress:
  assumes ok: "conn_ok c" and st: "state c = kConnected \<or> state c = kDisconnecting" and fr: "frames c = []" and k: "k > 0"
  shows "\<exists>c'. write_event k c = Some c' \<and> conn_ok c' \<and> state c' = state c \<and> accepted c' = accepted c \<and> frames c' = []
     \<and> length (readable (output_buffer c')) \<le> length (readable (output_buffer c)) - 1"
proof -
  let ?d = "dispatch True EPOLLOUT c"
  have d: "conn_ok ?d" "frames ?d = [FrCallback CbWrite, FrEventEnd]" "state ?d = state c" "accepted ?d = accepted c"
    "output_buffer ?d = output_buffer c"
    using write_event_frames [OF fr] dispatch_ok [OF ok, of True EPOLLOUT] ok by (auto simp: conn_ok_def conn_linked_def wired_def)
  let ?e = "?d\<lparr>frames := [FrEventEnd]\<rparr>" and ?n = "min k (ReadableBytes (output_buffer c))"
  have "\<exists>e. HandleWrite True (Inr ?n) ?e = Some e \<and> conn_ok e \<and> state e = state c \<and> accepted e = accepted c
      \<and> frames e = [FrEventEnd] \<and> length (readable (output_buffer e)) \<le> length (readable (output_buffer c)) - 1"
  proof (cases "readable (output_buffer c) = []")
    case True
    then have "\<not> IsWriting (channel ?e)" using writing_pending [of ?e] d st by simp
    then have "HandleWrite True (Inr ?n) ?e = Some ?e" by (simp add: HandleWrite_def)
    with d True show ?thesis by simp
  next
    case False
    with HandleWrite_progress [of ?e k] d st k show ?thesis by fastforce
  qed
  then obtain e where e: "HandleWrite True (Inr ?n) ?e = Some e" "conn_ok e" "state e = state c" "accepted e = accepted c"
    "frames e = [FrEventEnd]" "length (readable (output_buffer e)) \<le> length (readable (output_buffer c)) - 1" by blast
  let ?f = "e\<lparr>frames := [], channel := (channel e)\<lparr>event_handling := False\<rparr>\<rparr>"
  have "write_event k c = Some ?f" using fr d e by (simp add: write_event_def)
  moreover have "conn_ok ?f" using e by (simp add: conn_ok_def conn_linked_def linked_def)
  ultimately show ?thesis using e by auto
qed

lemma write_events_drain:
  assumes "conn_ok c" "state c = kConnected \<or> state c = kDisconnecting" "frames c = []"
    and "\<forall>k\<in>set ks. k > 0" and "length (readable (output_buffer c)) \<le> length ks"
  shows "\<exists>c'. fold_opt write_event ks c = Some c' \<and> conn_ok c' \<and> state c' = state c \<and> accepted c' = accepted c
     \<and> readable (output_buffer c') = []"
  using assms
proof (induction ks arbitrary: c)
  case (Cons k ks)
  from Cons.prems write_event_progress [of c k] obtain d where d: "write_event k c = Some d" "conn_ok d" "state d = state c"
    "accepted d = accepted c" "frames d = []" "length (readable (output_buffer d)) \<le> length (readable (output_buffer c)) - 1"
    by auto
  with Cons.prems Cons.IH [of d] show ?case by auto
qed simp

text \<open>C13: Draining the output ends. However little the socket takes at a time, as many writability events as there are
  bytes buffered are enough to send all of them; the connection then no longer asks for writability, and its state
  is what it was.\<close>

theorem output_drains:
  assumes "poller_valid p" and "0 \<le> fd" and "interest p fd = None"
    and "ok_run conn_calls_ok conn_step (Some (TcpConnection_new ptr fd p now)) ops"
    and "run_ops conn_step (Some (TcpConnection_new ptr fd p now)) ops = Some c"
    and "state c = kConnected \<or> state c = kDisconnecting" and "frames c = []"
    and "\<forall>k\<in>set ks. k > 0" and "length (readable (output_buffer c)) \<le> length ks"
  shows "\<exists>c'. fold_opt write_event ks c = Some c' \<and> wire c' = accepted c \<and> readable (output_buffer c') = []
     \<and> \<not> IsWriting (channel c') \<and> state c' = state c"
proof -
  have "conn_ok c" by (rule reachable_ok [OF assms(1-5)])
  from write_events_drain [OF this assms(6-9)] obtain c' where
    c': "fold_opt write_event ks c = Some c'" "conn_ok c'" "state c' = state c" "accepted c' = accepted c"
      "readable (output_buffer c') = []" by blast
  moreover have "wire c' = accepted c'" using c' assms(6) by (auto simp: conn_ok_def stream_inv_def)
  moreover have "\<not> IsWriting (channel c')" using writing_pending [OF c'(2)] c' assms(6) by simp
  ultimately show ?thesis by auto
qed

text \<open>A run that leaves two bytes in the output buffer.\<close>

lemma demo_pending:
  "\<exists>c. run_ops conn_step (Some (TcpConnection_new 7 5 demo_poller 0)) (take 3 demo_ops) = Some c \<and> state c = kConnected
     \<and> frames c = [] \<and> readable (output_buffer c) = [2, 3] \<and> accepted c = [1, 2, 3] \<and> log c = [NotifyConnection True]
     \<and> close_callback c \<and> message_callback c"
  by (simp add: demo_ops_def demo_poller_def conn_eval readable_def drop_update_swap drop_update_cancel list_update_swap take_update_swap)
    (simp add: numeral_2_eq_2)

theorem output_drains_witness:
  "\<exists>c c'. run_ops conn_step (Some (TcpConnection_new 7 5 demo_poller 0)) (take 3 demo_ops) = Some c
     \<and> fold_opt write_event [1, 1] c = Some c' \<and> wire c' = [1, 2, 3]"
proof -
  obtain c where c: "run_ops conn_step (Some (TcpConnection_new 7 5 demo_poller 0)) (take 3 demo_ops) = Some c"
    "state c = kConnected" "frames c = []" "readable (output_buffer c) = [2, 3]" "accepted c = [1, 2, 3]"
    using demo_pending by blast
  with output_drains [of demo_poller 5 7 0 "take 3 demo_ops" c "[1, 1]"] demo_prefix_run
  show ?thesis by (auto simp: demo_poller_def)
qed

text \<open>Closing is final: once a connection is closed nothing is sent on it or accepted for it any more, and it
  stays closed, whatever calls and events still reach it.\<close>

theorem closed_is_final:
  assumes "poller_valid p" and "0 \<le> fd" and "interest p fd = None"
    and "ok_run conn_calls_ok conn_step (Some (TcpConnection_new ptr fd p now)) ops"
    and "run_ops conn_step (Some (TcpConnection_new ptr fd p now)) ops = Some c" and "state c = kDisconnected"
    and "ok_run conn_calls_ok conn_step (Some c) later"
  shows "\<exists>c'. run_ops conn_step (Some c) later = Some c' \<and> state c' = kDisconnected \<and> wire c' = wire c \<and> accepted c' = accepted c"
  using conn_run_end [of "Some c" later] reachable_ok [OF assms(1-5)] assms(6,7)
  by (auto simp: conn_invar_def conn_end_def split: option.splits)

theorem closed_is_final_witness:
  "\<exists>c c'. run_ops conn_step (Some (TcpConnection_new 7 5 demo_poller 0)) demo_ops = Some c \<and> state c = kDisconnected
     \<and> run_ops conn_step (Some c) [OpSend True True (Inr 1) [9]] = Some c' \<and> wire c' = wire c"
proof -
  let ?s = "Some (TcpConnection_new 7 5 demo_poller 0)"
  obtain c where c: "run_ops conn_step ?s demo_ops = Some c" "state c = kDisconnected"
    by (simp add: demo_ops_def demo_poller_def conn_eval)
  moreover have "ok_run conn_calls_ok conn_step (Some c) [OpSend True True (Inr 1) [9]]" by (simp add: conn_calls_ok_def send_ok_def)
  ultimately show ?thesis
    using closed_is_final [OF _ _ _ demo_run, of c "[OpSend True True (Inr 1) [9]]"] by (auto simp: demo_poller_def)
qed

text \<open>A graceful shutdown that finds output pending never shuts down the write side. \<open>Shutdown\<close> then leaves it to
  \<open>HandleWrite\<close>, which calls \<open>ShutdownInLoop\<close> once the output is drained; but that returns at once, since the state
  is no longer \<open>kConnected\<close>. In no continuation is \<open>ShutdownWrite\<close> called, so that the peer sees no end of the stream
  until one side closes the connection.\<close>

theorem shutdown_with_output_never_half_closes:
  assumes "poller_valid p" and "0 \<le> fd" and "interest p fd = None"
    and "ok_run conn_calls_ok conn_step (Some (TcpConnection_new ptr fd p now)) ops"
    and "run_ops conn_step (Some (TcpConnection_new ptr fd p now)) ops = Some c"
    and "state c = kConnected" and "readable (output_buffer c) \<noteq> []"
    and "ok_run conn_calls_ok conn_step (Some c) (OpShutdown True # later)"
  shows "\<exists>c'. run_ops conn_step (Some c) (OpShutdown True # later) = Some c' \<and> state c' \<noteq> kConnected \<and> \<not> write_shut c'"
proof -
  have ok: "conn_ok c" using assms by (auto intro: reachable_ok)
  let ?d = "ShutdownInLoop c"
  have w: "IsWriting (channel c)" using writing_pending [OF ok] assms by simp
  have "\<not> write_shut c" using ok assms(6) by (auto simp: conn_ok_def stream_inv_def)
  with w assms(6) have "state ?d = kDisconnecting" "\<not> write_shut ?d" by (simp_all add: ShutdownInLoop_def Let_def)
  moreover have "conn_invar (Some ?d)" using ok by (simp add: conn_invar_def ShutdownInLoop_ok)
  moreover have step: "conn_step (Some c) (OpShutdown True) = Some ?d" by (simp add: conn_step_def Shutdown_def)
  ultimately show ?thesis
    using conn_run_end [of "Some ?d" later] assms(8)
    by (auto simp: conn_invar_def conn_end_def ending_def split: option.splits)
qed

text \<open>The two pending bytes are written after the shutdown; the write side stays open.\<close>

theorem shutdown_with_output_never_half_closes_witness:
  "\<exists>c c'. run_ops conn_step (Some (TcpConnection_new 7 5 demo_poller 0)) (take 3 demo_ops) = Some c
     \<and> run_ops conn_step (Some c) [OpShutdown True, OpEvent True 4, OpFrame True 2 (Inl 11) (Inr 2)] = Some c' \<and> \<not> write_shut c'"
proof -
  let ?s = "Some (TcpConnection_new 7 5 demo_poller 0)" and ?later = "[OpEvent True 4, OpFrame True 2 (Inl 11) (Inr 2)]"
  have "ok_run conn_calls_ok conn_step ?s (take 3 demo_ops @ OpShutdown True # ?later)"
    by (simp add: demo_ops_def demo_poller_def conn_eval)
  moreover obtain c where c: "run_ops conn_step ?s (take 3 demo_ops) = Some c" "state c = kConnected"
    "readable (output_buffer c) = [2, 3]" using demo_pending by blast
  ultimately have "ok_run conn_calls_ok conn_step (Some c) (OpShutdown True # ?later)" by (simp only: ok_run_append c(1))
  with shutdown_with_output_never_half_closes [OF _ _ _ demo_prefix_run c(1), of ?later] c show ?thesis
    by (auto simp: demo_poller_def)
qed

text \<open>The message callback can follow the close callback. When the kernel reports an error together with readable
  data, \<open>HandleEventWithGuard\<close> calls the error callback, which closes the connection, and then still the read callback,
  which reads the data and hands it to the user of a connection already reported as closed.\<close>

theorem message_after_close:
  assumes "poller_valid p" and "0 \<le> fd" and "interest p fd = None"
    and "ok_run conn_calls_ok conn_step (Some (TcpConnection_new ptr fd p now)) ops"
    and "run_ops conn_step (Some (TcpConnection_new ptr fd p now)) ops = Some c"
    and "state c \<noteq> kDisconnected" and "frames c = []" and "close_callback c" and "message_callback c"
    and "r AND EPOLLERR \<noteq> 0" and "r AND EPOLLIN \<noteq> 0" and "data \<noteq> []"
  shows "\<exists>c'. run_ops conn_step (Some c) [OpEvent True r, OpFrame g1 t1 rv1 s1, OpFrame g2 t2 (Inr data) s2] = Some c'
     \<and> log c' = log c @ [NotifyClose, NotifyMessage]"
proof -
  have ok: "conn_ok c" using assms by (auto intro: reachable_ok)
  have w: "wired (channel c)" using ok by (simp add: conn_ok_def conn_linked_def)
  have "r AND (EPOLLIN OR EPOLLPRI OR EPOLLRDHUP) \<noteq> 0"
    using assms(11) by (auto simp: bit.conj_disj_distrib or_eq_0_iff)
  with assms(10,11) w obtain rest where d: "frames (dispatch True r c) = FrCallback CbError # FrCallback CbRead # rest"
    and same: "state (dispatch True r c) = state c" "close_callback (dispatch True r c)" "message_callback (dispatch True r c)"
      "log (dispatch True r c) = log c" "input_buffer (dispatch True r c) = input_buffer c"
    using assms(8,9) by (auto simp: dispatch_def Let_def SetRevents_def HandleEvent_def HandleEventWithGuard_def wired_def)
  let ?d = "dispatch True r c"
  let ?e = "HandleClose g1 (?d\<lparr>frames := FrCallback CbRead # rest\<rparr>)"
  have e: "frames ?e = FrCallback CbRead # rest" "message_callback ?e" "log ?e = log c @ [NotifyClose]" "input_buffer ?e = input_buffer c"
    using same assms(6) by (simp_all add: HandleClose_def Let_def notify_def)
  from ok ReadFd_data_spec [of "input_buffer c" data] obtain b where
    "ReadFd (Inr data) (input_buffer c) = Some (b, Inr (length data))" by (auto simp: conn_ok_def)
  with e assms(12) d show ?thesis
    by (simp add: conn_step_def assms(7) HandleError_def HandleRead_def Let_def)
qed

theorem message_after_close_witness:
  "\<exists>c c'. run_ops conn_step (Some (TcpConnection_new 7 5 demo_poller 0)) (take 3 demo_ops) = Some c
     \<and> run_ops conn_step (Some c) [OpEvent True 9, OpFrame True 4 (Inl 11) (Inl 11), OpFrame True 4 (Inr [1]) (Inl 11)] = Some c'
     \<and> log c' = [NotifyConnection True, NotifyClose, NotifyMessage]"
proof -
  obtain c where c: "run_ops conn_step (Some (TcpConnection_new 7 5 demo_poller 0)) (take 3 demo_ops) = Some c"
    "state c = kConnected" "frames c = []" "close_callback c" "message_callback c" "log c = [NotifyConnection True]"
    using demo_pending by blast
  with message_after_close [OF _ _ _ demo_prefix_run c(1), of 9 "[1]" True 4 "Inl 11" "Inl 11" True 4 "Inl 11"]
  show ?thesis by (auto simp: demo_poller_def EPOLLERR_def EPOLLIN_def)
qed

end
