(* ===== verification/Tcp_Server.thy ===== *)
theory Tcp_Server
  imports Tcp_Connection Text_Numbers
begin

text \<open>
  \<open>common/net/TcpServer.cpp\<close> and \<open>common/net/EventLoopThreadPool.cpp\<close>: accepting connections, distributing them over the loops of
  the pool, the table of live connections with its counters, the idle check, and stopping.

  A connection is an entry of \<open>conns\<close> in the order of acceptance, reduced to what the server looks at: its name, loop, state
  (the states of \<open>Tcp_Connection\<close>) and time of the last read, and how often \<open>ConnectEstablished\<close> and \<open>ConnectDestroyed\<close> were run on
  it. Loop 0 is the base loop, whose thread runs the server; the other loops belong to the pool. The functors each loop has
  queued for the server's connections are lists, run from the front (\<open>Event_Loop\<close> shows that loops do this). When a connection
  closes itself its close callback is \<open>RemoveConnection\<close>. \<open>Stop\<close> is cut where it waits for the cleanup of remote connections, during
  which the base thread does nothing else; destroying the pool ends its threads, and functors that have not run then never
  run. The hash table \<open>connections_\<close> is an association list; nothing depends on its order. The text of a peer's address is an
  argument.
\<close>

section \<open>The pool of loops\<close>

record EventLoopThreadPool =
  loops :: "nat list"
  next_loop :: nat
  pool_started :: bool

text \<open>\<open>usable\<close>: the base loop exists, is valid and this is its thread. \<open>started\<close> says of each thread whether \<open>StartLoop\<close>
  returned a loop; the first failure gives up.\<close>

fun pool_start_loops :: "bool list \<Rightarrow> nat list \<Rightarrow> nat list option" where
  "pool_start_loops [] ls = Some ls"
| "pool_start_loops (ok # oks) ls = (if ok then pool_start_loops oks (ls @ [Suc (length ls)]) else None)"

definition Pool_Start :: "bool \<Rightarrow> bool list \<Rightarrow> EventLoopThreadPool \<Rightarrow> bool \<times> EventLoopThreadPool" where
  "Pool_Start usable oks p =
     (if pool_started p then (False, p)
      else if \<not> usable then (False, p)
      else case pool_start_loops oks (loops p) of
        None \<Rightarrow> (False, p\<lparr>loops := [], next_loop := 0\<rparr>)
      | Some ls \<Rightarrow> (True, p\<lparr>loops := ls, next_loop := 0, pool_started := True\<rparr>))"

definition GetNextLoop :: "EventLoopThreadPool \<Rightarrow> nat option \<times> EventLoopThreadPool" where
  "GetNextLoop p =
     (if \<not> pool_started p then (None, p)
      else if loops p = [] then (Some 0, p)
      else
        let loop = loops p ! next_loop p;
            n = next_loop p + 1
        in (Some loop, p\<lparr>next_loop := (if n \<ge> length (loops p) then 0 else n)\<rparr>))"

definition GetAllLoops :: "EventLoopThreadPool \<Rightarrow> nat list" where
  "GetAllLoops p = (if \<not> pool_started p then [] else if loops p = [] then [0] else loops p)"

section \<open>State\<close>

record ServerConn =
  conn_name :: string
  conn_loop :: nat
  conn_state :: ConnState
  last_read :: int
  established :: nat  \<comment> \<open>observation only\<close>
  destroyed :: nat  \<comment> \<open>observation only\<close>

datatype IoFunctor = FnEstablish nat | FnDestroy nat | FnDestroyAndSignal nat | FnForceClose nat

record TcpServer =
  server_name :: string
  started :: bool
  listening :: bool  \<comment> \<open>\<open>listen_socket_\<close> is open\<close>
  accept_channel :: bool
  thread_pool :: "EventLoopThreadPool option"
  idle_timeout :: int
  idle_check_interval :: int
  idle_check_timer :: bool
  connections :: "(string \<times> nat) list"
  connection_count :: nat
  peak_connection_count :: nat
  accepted_total :: u64
  closed_total :: u64
  next_connection_id :: u64
  conns :: "ServerConn list"
  base_functors :: "nat list"  \<comment> \<open>\<open>RemoveConnectionInLoop\<close> of these connections\<close>
  io_functors :: "nat \<Rightarrow> IoFunctor list"
  pending_cleanup :: "nat option"  \<comment> \<open>\<open>Stop\<close> waits\<close>

definition TcpServer_new :: "string \<Rightarrow> TcpServer" where
  "TcpServer_new name = \<lparr>server_name = name, started = False, listening = False, accept_channel = False, thread_pool = None,
     idle_timeout = 0, idle_check_interval = 0, idle_check_timer = False, connections = [], connection_count = 0,
     peak_connection_count = 0, accepted_total = 0, closed_total = 0, next_connection_id = 0, conns = [],
     base_functors = [], io_functors = (\<lambda>_. []), pending_cleanup = None\<rparr>"

section \<open>Operations\<close>

text \<open>What \<open>Start\<close> meets on its way, in the order of the calls.\<close>

record StartEnv =
  loop_usable :: bool
  in_base_loop :: bool
  address_valid :: bool
  create_ok :: bool
  reuse_ok :: bool
  bind_ok :: bool
  listen_ok :: bool
  threads_ok :: "bool list"
  timer_ok :: bool

definition Start :: "StartEnv \<Rightarrow> TcpServer \<Rightarrow> bool \<times> TcpServer" where
  "Start env s =
     (if started s then (True, s)
      else let s = s\<lparr>started := True\<rparr> in
      if \<not> loop_usable env then (False, s\<lparr>started := False\<rparr>)
      else if \<not> in_base_loop env then (False, s\<lparr>started := False\<rparr>)
      else if \<not> address_valid env then (False, s\<lparr>started := False\<rparr>)
      else if \<not> create_ok env then (False, s\<lparr>started := False\<rparr>)
      else let s = s\<lparr>listening := True\<rparr> in
      if \<not> reuse_ok env then (False, s\<lparr>listening := False, started := False\<rparr>)
      else if \<not> bind_ok env then (False, s\<lparr>listening := False, started := False\<rparr>)
      else if \<not> listen_ok env then (False, s\<lparr>listening := False, started := False\<rparr>)
      else
        let (ok, p) = Pool_Start True (threads_ok env) \<lparr>loops = [], next_loop = 0, pool_started = False\<rparr>;
            s = s\<lparr>thread_pool := Some p\<rparr>
        in
        if \<not> ok then (False, s\<lparr>thread_pool := None, listening := False, started := False\<rparr>)
        else let s = s\<lparr>accept_channel := True\<rparr> in
        if idle_timeout s > 0 then
          if \<not> timer_ok env
          then (False, s\<lparr>accept_channel := False, thread_pool := None, listening := False, started := False\<rparr>)
          else (True, s\<lparr>idle_check_timer := True\<rparr>)
        else (True, s))"

definition set_conn :: "nat \<Rightarrow> (ServerConn \<Rightarrow> ServerConn) \<Rightarrow> TcpServer \<Rightarrow> TcpServer" where
  "set_conn i f s = s\<lparr>conns := (conns s)[i := f (conns s ! i)]\<rparr>"

definition push_io :: "nat \<Rightarrow> IoFunctor \<Rightarrow> TcpServer \<Rightarrow> TcpServer" where
  "push_io loop f s = s\<lparr>io_functors := (io_functors s)(loop := io_functors s loop @ [f])\<rparr>"

text \<open>The two methods of a connection the server calls, seen from here.\<close>

definition conn_established :: "int \<Rightarrow> nat \<Rightarrow> TcpServer \<Rightarrow> TcpServer" where
  "conn_established now i = set_conn i (\<lambda>c. c\<lparr>conn_state := kConnected, last_read := now, established := established c + 1\<rparr>)"

definition conn_destroyed :: "nat \<Rightarrow> TcpServer \<Rightarrow> TcpServer" where
  "conn_destroyed i = set_conn i (\<lambda>c. c\<lparr>conn_state := (if conn_state c = kConnected \<or> conn_state c = kDisconnecting then kDisconnected
     else conn_state c), destroyed := destroyed c + 1\<rparr>)"

definition SetIdleTimeout :: "int \<Rightarrow> int \<Rightarrow> TcpServer \<Rightarrow> bool \<times> TcpServer" where
  "SetIdleTimeout timeout check_interval s =
     (if started s then (False, s)
      else if timeout = 0 then (True, s\<lparr>idle_timeout := 0, idle_check_interval := 0\<rparr>)
      else if timeout < 0 \<or> check_interval \<le> 0 \<or> check_interval > timeout then (False, s)
      else (True, s\<lparr>idle_timeout := timeout, idle_check_interval := check_interval\<rparr>))"

definition MakeConnectionName :: "string \<Rightarrow> TcpServer \<Rightarrow> string \<times> TcpServer" where
  "MakeConnectionName peer s =
     (let connection_id = next_connection_id s + 1
      in (server_name s @ ''-conn-'' @ to_string (unat connection_id) @ ''-'' @ peer, s\<lparr>next_connection_id := connection_id\<rparr>))"

text \<open>One turn of the loop in \<open>HandleAccept\<close>, for an accepted descriptor: the choice of the loop, and what follows.\<close>

definition pick_loop :: "TcpServer \<Rightarrow> nat option \<times> TcpServer" where
  "pick_loop s =
     (case thread_pool s of
        None \<Rightarrow> (Some 0, s)
      | Some p \<Rightarrow> let (l, p) = GetNextLoop p in (l, s\<lparr>thread_pool := Some p\<rparr>))"

definition HandleAccept_on :: "int \<Rightarrow> string \<Rightarrow> nat \<Rightarrow> TcpServer \<Rightarrow> TcpServer" where
  "HandleAccept_on now peer io_loop s =
     (let (name, s) = MakeConnectionName peer s;
          i = length (conns s);
          c = \<lparr>conn_name = name, conn_loop = io_loop, conn_state = kConnecting, last_read = now, established = 0, destroyed = 0\<rparr>;
          s = s\<lparr>conns := conns s @ [c], connections := (name, i) # filter (\<lambda>x. fst x \<noteq> name) (connections s)\<rparr>;
          active_connections = length (connections s);
          s = s\<lparr>connection_count := active_connections, accepted_total := accepted_total s + 1,
                peak_connection_count := max (peak_connection_count s) active_connections\<rparr>
      in if io_loop = 0 then conn_established now i s else push_io io_loop (FnEstablish i) s)"

definition HandleAccept_one :: "int \<Rightarrow> string \<Rightarrow> TcpServer \<Rightarrow> TcpServer" where
  "HandleAccept_one now peer s =
     (let (io_loop, s) = pick_loop s in case io_loop of None \<Rightarrow> s | Some l \<Rightarrow> HandleAccept_on now peer l s)"

primrec HandleAccept :: "int \<Rightarrow> string list \<Rightarrow> TcpServer \<Rightarrow> TcpServer" where
  "HandleAccept now [] s = s"
| "HandleAccept now (peer # peers) s = HandleAccept now peers (HandleAccept_one now peer s)"

definition RemoveConnectionInLoop :: "nat \<Rightarrow> TcpServer \<Rightarrow> TcpServer" where
  "RemoveConnectionInLoop i s =
     (let name = conn_name (conns s ! i) in
      if map_of (connections s) name = None then s
      else
        let s = s\<lparr>connections := filter (\<lambda>x. fst x \<noteq> name) (connections s)\<rparr>;
            s = s\<lparr>connection_count := length (connections s), closed_total := closed_total s + 1\<rparr>
        in push_io (conn_loop (conns s ! i)) (FnDestroy i) s)"

text \<open>On the thread of the connection's loop.\<close>

definition RemoveConnection :: "nat \<Rightarrow> TcpServer \<Rightarrow> TcpServer" where
  "RemoveConnection i s =
     (if \<not> started s then s
      else if conn_loop (conns s ! i) = 0 then RemoveConnectionInLoop i s
      else s\<lparr>base_functors := base_functors s @ [i]\<rparr>)"

text \<open>A connection closes: its state changes and the close callback runs, unless it is closed already.\<close>

definition conn_close :: "nat \<Rightarrow> TcpServer \<Rightarrow> TcpServer" where
  "conn_close i s =
     (if conn_state (conns s ! i) = kConnected \<or> conn_state (conns s ! i) = kDisconnecting
      then RemoveConnection i (set_conn i (\<lambda>c. c\<lparr>conn_state := kDisconnected\<rparr>) s) else s)"

definition duration_ms :: "int \<Rightarrow> int" where
  "duration_ms d = (if d \<ge> 0 then d div 1000000 else - ((- d) div 1000000))"

definition idle_connections :: "int \<Rightarrow> TcpServer \<Rightarrow> nat list" where
  "idle_connections now s =
     filter (\<lambda>i. conn_state (conns s ! i) = kConnected \<and> duration_ms (now - last_read (conns s ! i)) \<ge> idle_timeout s)
       (map snd (connections s))"

text \<open>\<open>ForceClose\<close> called on the base thread.\<close>

definition conn_ForceClose :: "nat \<Rightarrow> TcpServer \<Rightarrow> TcpServer" where
  "conn_ForceClose i s =
     (if conn_loop (conns s ! i) = 0 then conn_close i s else push_io (conn_loop (conns s ! i)) (FnForceClose i) s)"

definition CheckIdleConnections :: "int \<Rightarrow> TcpServer \<Rightarrow> TcpServer" where
  "CheckIdleConnections now s =
     (if \<not> started s \<or> idle_timeout s \<le> 0 then s else fold conn_ForceClose (idle_connections now s) s)"

text \<open>\<open>Stop\<close> up to the wait. Connections of the base loop are destroyed at once, the others by their loops.\<close>

definition Stop_one :: "nat \<Rightarrow> TcpServer \<Rightarrow> TcpServer" where
  "Stop_one i s =
     (if conn_loop (conns s ! i) = 0 then conn_destroyed i s
      else push_io (conn_loop (conns s ! i)) (FnDestroyAndSignal i) s)"

definition Stop :: "bool \<Rightarrow> TcpServer \<Rightarrow> TcpServer" where
  "Stop in_loop s =
     (if \<not> started s \<or> \<not> in_loop then s
      else
        let s = s\<lparr>started := False, idle_check_timer := False, accept_channel := False\<rparr>;
            cs = map snd (connections s);
            s = s\<lparr>closed_total := closed_total s + of_nat (length (connections s)), connections := [], connection_count := 0\<rparr>;
            remote = filter (\<lambda>i. conn_loop (conns s ! i) \<noteq> 0) cs
        in (fold Stop_one cs s)\<lparr>pending_cleanup := Some (length remote)\<rparr>)"

definition Stop_finish :: "TcpServer \<Rightarrow> TcpServer" where
  "Stop_finish s =
     (if pending_cleanup s = Some 0
      then s\<lparr>pending_cleanup := None, thread_pool := None, listening := False, io_functors := (\<lambda>l. if l = 0 then io_functors s 0 else [])\<rparr>
      else s)"

section \<open>Threads\<close>

fun run_io_functor :: "int \<Rightarrow> IoFunctor \<Rightarrow> TcpServer \<Rightarrow> TcpServer" where
  "run_io_functor now (FnEstablish i) s = conn_established now i s"
| "run_io_functor now (FnDestroy i) s = conn_destroyed i s"
| "run_io_functor now (FnDestroyAndSignal i) s =
     (let s = conn_destroyed i s in s\<lparr>pending_cleanup := map_option (\<lambda>n. n - 1) (pending_cleanup s)\<rparr>)"
| "run_io_functor now (FnForceClose i) s = conn_close i s"

datatype ServerOp =
    SvStart StartEnv | SvStop bool | SvStopFinish | SvSetIdleTimeout int int
  | SvAccept int "string list" | SvIdleCheck int | SvBaseFunctor
  | SvIoFunctor int nat  \<comment> \<open>a loop runs its next functor\<close>
  | SvRead int nat | SvShutdown nat | SvClose nat  \<comment> \<open>a connection reads, is shut down, closes\<close>

text \<open>While \<open>Stop\<close> waits the base thread does nothing else: the calls made on it are not possible then.\<close>

definition base_free :: "TcpServer \<Rightarrow> bool" where
  "base_free s \<longleftrightarrow> pending_cleanup s = None"

fun server_do :: "ServerOp \<Rightarrow> TcpServer \<Rightarrow> TcpServer" where
  "server_do (SvStart env) s = (if base_free s then snd (Start env s) else s)"
| "server_do (SvStop in_loop) s = (if base_free s then Stop in_loop s else s)"
| "server_do SvStopFinish s = Stop_finish s"
| "server_do (SvSetIdleTimeout t c) s = (if base_free s then snd (SetIdleTimeout t c s) else s)"
| "server_do (SvAccept now peers) s = (if base_free s \<and> accept_channel s then HandleAccept now peers s else s)"
| "server_do (SvIdleCheck now) s = (if base_free s \<and> idle_check_timer s then CheckIdleConnections now s else s)"
| "server_do SvBaseFunctor s =
     (if base_free s then case base_functors s of [] \<Rightarrow> s | i # is' \<Rightarrow> RemoveConnectionInLoop i (s\<lparr>base_functors := is'\<rparr>) else s)"
| "server_do (SvIoFunctor now l) s =
     (if l \<noteq> 0 \<or> base_free s
      then case io_functors s l of [] \<Rightarrow> s | f # fs \<Rightarrow> run_io_functor now f (s\<lparr>io_functors := (io_functors s)(l := fs)\<rparr>)
      else s)"
| "server_do (SvRead now i) s =
     (if i < length (conns s) \<and> conn_state (conns s ! i) \<noteq> kConnecting then set_conn i (\<lambda>c. c\<lparr>last_read := now\<rparr>) s else s)"
| "server_do (SvShutdown i) s =
     (if i < length (conns s) \<and> conn_state (conns s ! i) = kConnected then set_conn i (\<lambda>c. c\<lparr>conn_state := kDisconnecting\<rparr>) s else s)"
| "server_do (SvClose i) s =
     (if i < length (conns s) \<and> (conn_loop (conns s ! i) \<noteq> 0 \<or> base_free s) then conn_close i s else s)"

definition server_step :: "TcpServer \<Rightarrow> ServerOp \<Rightarrow> TcpServer" where
  "server_step s op = server_do op s"

section \<open>Names\<close>

lemma to_string_no_dash: "CHR ''-'' \<notin> set (to_string n)"
  using to_string_digits digit_not_space by blast

lemma split_at_mark:
  "\<lbrakk>xs @ m # ys = xs' @ m # ys'; m \<notin> set xs; m \<notin> set xs'\<rbrakk> \<Longrightarrow> xs = xs'"
  by (induction xs arbitrary: xs') (case_tac xs'; auto)+

text \<open>The name of the \<open>k\<close>-th connection of a server determines \<open>k\<close>.\<close>

definition numbered_name :: "string \<Rightarrow> nat \<Rightarrow> string \<Rightarrow> string" where
  "numbered_name server k peer = server @ ''-conn-'' @ to_string k @ ''-'' @ peer"

lemma numbered_name_inj: "numbered_name server j p = numbered_name server k q \<Longrightarrow> j = k"
proof -
  assume "numbered_name server j p = numbered_name server k q"
  then have "to_string j @ CHR ''-'' # p = to_string k @ CHR ''-'' # q" by (simp add: numbered_name_def)
  then have "to_string j = to_string k" by (rule split_at_mark) (rule to_string_no_dash)+
  then show "j = k" by (metis digits_value_to_string)
qed

section \<open>Invariant\<close>

text \<open>The functors of a loop that belong to the life of connection \<open>i\<close>.\<close>

fun functor_conn :: "IoFunctor \<Rightarrow> nat" where
  "functor_conn (FnEstablish i) = i"
| "functor_conn (FnDestroy i) = i"
| "functor_conn (FnDestroyAndSignal i) = i"
| "functor_conn (FnForceClose i) = i"

definition life_functors :: "nat \<Rightarrow> IoFunctor list \<Rightarrow> IoFunctor list" where
  "life_functors i = filter (\<lambda>f. f = FnEstablish i \<or> f = FnDestroy i \<or> f = FnDestroyAndSignal i)"

lemma life_functors_simps [simp]:
  "life_functors i [] = []" "life_functors i (FnEstablish j # fs) = (if j = i then [FnEstablish j] else []) @ life_functors i fs"
  "life_functors i (FnDestroy j # fs) = (if j = i then [FnDestroy j] else []) @ life_functors i fs"
  "life_functors i (FnDestroyAndSignal j # fs) = (if j = i then [FnDestroyAndSignal j] else []) @ life_functors i fs"
  "life_functors i (FnForceClose j # fs) = life_functors i fs" "life_functors i (fs @ gs) = life_functors i fs @ life_functors i gs"
  by (simp_all add: life_functors_def)

text \<open>The life of a connection: in the table and waiting to be established, in the table and established, taken out of the
  table by \<open>Stop\<close> before it was established, established and waiting to be destroyed, destroyed, or (the last
  line) never to be destroyed because the pool ended first.\<close>

definition life_ok :: "nat \<Rightarrow> bool \<Rightarrow> nat \<Rightarrow> nat \<Rightarrow> IoFunctor list \<Rightarrow> ConnState \<Rightarrow> bool" where
  "life_ok i in_table est dest fs st \<longleftrightarrow>
     in_table \<and> est = 0 \<and> dest = 0 \<and> fs = [FnEstablish i] \<and> st = kConnecting
   \<or> in_table \<and> est = 1 \<and> dest = 0 \<and> fs = [] \<and> st \<noteq> kConnecting
   \<or> \<not> in_table \<and> est = 0 \<and> dest = 0 \<and> fs = [FnEstablish i, FnDestroyAndSignal i] \<and> st = kConnecting
   \<or> \<not> in_table \<and> est = 1 \<and> dest = 0 \<and> (fs = [FnDestroy i] \<and> st = kDisconnected \<or> fs = [FnDestroyAndSignal i] \<and> st \<noteq> kConnecting)
   \<or> \<not> in_table \<and> est = 1 \<and> dest = 1 \<and> fs = [] \<and> st = kDisconnected
   \<or> \<not> in_table \<and> est = 1 \<and> dest = 0 \<and> fs = [] \<and> st = kDisconnected"

definition conn_fs :: "TcpServer \<Rightarrow> nat \<Rightarrow> IoFunctor list" where
  "conn_fs s i = life_functors i (io_functors s (conn_loop (conns s ! i)))"

definition conn_life :: "TcpServer \<Rightarrow> nat \<Rightarrow> bool" where
  "conn_life s i \<longleftrightarrow> life_ok i (i \<in> snd ` set (connections s)) (established (conns s ! i)) (destroyed (conns s ! i)) (conn_fs s i)
     (conn_state (conns s ! i)) \<and> (established (conns s ! i) = 0 \<longrightarrow> conn_loop (conns s ! i) \<noteq> 0)"

text \<open>The table: names identify connections and the counters are exact.\<close>

definition table_inv :: "string \<Rightarrow> ServerConn list \<Rightarrow> (string \<times> nat) list \<Rightarrow> bool" where
  "table_inv server cs tab \<longleftrightarrow> (\<forall>i<length cs. \<exists>peer. conn_name (cs ! i) = numbered_name server (Suc i) peer)
     \<and> distinct (map snd tab) \<and> (\<forall>(n, i)\<in>set tab. i < length cs \<and> conn_name (cs ! i) = n)"

definition counters_inv :: "TcpServer \<Rightarrow> bool" where
  "counters_inv s \<longleftrightarrow> connection_count s = length (connections s) \<and> connection_count s \<le> peak_connection_count s
     \<and> unat (next_connection_id s) = length (conns s) \<and> unat (accepted_total s) = length (conns s)
     \<and> unat (closed_total s) + length (connections s) = length (conns s)"

definition placed_inv :: "TcpServer \<Rightarrow> bool" where
  "placed_inv s \<longleftrightarrow> (\<forall>l. \<forall>f\<in>set (io_functors s l). functor_conn f < length (conns s) \<and> conn_loop (conns s ! functor_conn f) = l)
     \<and> (\<forall>i\<in>set (base_functors s). i < length (conns s) \<and> conn_state (conns s ! i) = kDisconnected)
     \<and> (\<forall>i. FnDestroyAndSignal i \<notin> set (io_functors s 0))"

definition signals :: "TcpServer \<Rightarrow> nat" where
  "signals s = (\<Sum>i<length (conns s). count_list (conn_fs s i) (FnDestroyAndSignal i))"

definition stop_inv :: "TcpServer \<Rightarrow> bool" where
  "stop_inv s \<longleftrightarrow> (\<not> started s \<longrightarrow> connections s = []) \<and> (pending_cleanup s \<noteq> None \<longrightarrow> \<not> started s)
     \<and> signals s = (case pending_cleanup s of None \<Rightarrow> 0 | Some n \<Rightarrow> n)"

definition server_ok :: "TcpServer \<Rightarrow> bool" where
  "server_ok s \<longleftrightarrow> table_inv (server_name s) (conns s) (connections s) \<and> counters_inv s \<and> placed_inv s
     \<and> (\<forall>i<length (conns s). conn_life s i) \<and> stop_inv s"

lemma server_ok_new: "server_ok (TcpServer_new name)"
  by (simp add: server_ok_def TcpServer_new_def table_inv_def counters_inv_def placed_inv_def stop_inv_def signals_def)

text \<open>The 64 bit counter of connections does not wrap around.\<close>

fun server_call_ok :: "TcpServer \<Rightarrow> ServerOp \<Rightarrow> bool" where
  "server_call_ok s (SvAccept now peers) \<longleftrightarrow> length (conns s) + length peers < 2 ^ 64"
| "server_call_ok s op \<longleftrightarrow> True"

section \<open>One connection at a time\<close>

lemma sum_change_one:
  fixes f g :: "nat \<Rightarrow> nat"
  assumes "i < n" and "\<And>j. j < n \<Longrightarrow> j \<noteq> i \<Longrightarrow> g j = f j"
  shows "(\<Sum>j<n. g j) + f i = (\<Sum>j<n. f j) + g i"
proof -
  have "(\<Sum>j<n. g j) = g i + (\<Sum>j\<in>{..<n} - {i}. g j)" "(\<Sum>j<n. f j) = f i + (\<Sum>j\<in>{..<n} - {i}. f j)"
    using assms(1) by (simp_all add: sum.remove)
  moreover have "(\<Sum>j\<in>{..<n} - {i}. g j) = (\<Sum>j\<in>{..<n} - {i}. f j)" by (rule sum.cong) (use assms(2) in auto)
  ultimately show ?thesis by simp
qed

lemma set_conn_fields [simp]:
  "server_name (set_conn i f s) = server_name s" "started (set_conn i f s) = started s" "connections (set_conn i f s) = connections s"
  "connection_count (set_conn i f s) = connection_count s" "peak_connection_count (set_conn i f s) = peak_connection_count s"
  "accepted_total (set_conn i f s) = accepted_total s" "closed_total (set_conn i f s) = closed_total s"
  "next_connection_id (set_conn i f s) = next_connection_id s" "base_functors (set_conn i f s) = base_functors s"
  "io_functors (set_conn i f s) = io_functors s" "pending_cleanup (set_conn i f s) = pending_cleanup s"
  "thread_pool (set_conn i f s) = thread_pool s" "idle_timeout (set_conn i f s) = idle_timeout s"
  "length (conns (set_conn i f s)) = length (conns s)"
  "i < length (conns s) \<Longrightarrow> conns (set_conn i f s) ! j = (if j = i then f (conns s ! i) else conns s ! j)"
  by (simp_all add: set_conn_def nth_list_update)

lemma push_io_fields [simp]:
  "server_name (push_io l g s) = server_name s" "started (push_io l g s) = started s" "connections (push_io l g s) = connections s"
  "connection_count (push_io l g s) = connection_count s" "peak_connection_count (push_io l g s) = peak_connection_count s"
  "accepted_total (push_io l g s) = accepted_total s" "closed_total (push_io l g s) = closed_total s"
  "next_connection_id (push_io l g s) = next_connection_id s" "base_functors (push_io l g s) = base_functors s"
  "conns (push_io l g s) = conns s" "pending_cleanup (push_io l g s) = pending_cleanup s"
  "thread_pool (push_io l g s) = thread_pool s" "idle_timeout (push_io l g s) = idle_timeout s"
  "io_functors (push_io l g s) l' = (if l' = l then io_functors s l @ [g] else io_functors s l')"
  by (simp_all add: push_io_def)

text \<open>A step that changes connection \<open>i\<close> only: the others keep their place in the table and their functors.\<close>

definition only :: "nat \<Rightarrow> TcpServer \<Rightarrow> TcpServer \<Rightarrow> bool" where
  "only i s s' \<longleftrightarrow> length (conns s') = length (conns s)
     \<and> (\<forall>j<length (conns s). conn_name (conns s' ! j) = conn_name (conns s ! j) \<and> conn_loop (conns s' ! j) = conn_loop (conns s ! j)
          \<and> (j \<noteq> i \<longrightarrow> conns s' ! j = conns s ! j \<and> conn_fs s' j = conn_fs s j
               \<and> (j \<in> snd ` set (connections s') \<longleftrightarrow> j \<in> snd ` set (connections s))))"

lemma only_life:
  assumes "only i s s'" and "\<forall>j<length (conns s). conn_life s j" and "i < length (conns s) \<Longrightarrow> conn_life s' i"
  shows "\<forall>j<length (conns s'). conn_life s' j"
proof (intro allI impI)
  fix j
  assume "j < length (conns s')"
  with assms show "conn_life s' j" by (cases "j = i") (auto simp: only_def conn_life_def)
qed

lemma only_signals:
  assumes "only i s s'" and "i < length (conns s)"
  shows "signals s' + count_list (conn_fs s i) (FnDestroyAndSignal i) = signals s + count_list (conn_fs s' i) (FnDestroyAndSignal i)"
  unfolding signals_def using assms by (auto simp: only_def intro!: sum_change_one)

lemma only_table:
  assumes "only i s s'" and "table_inv n (conns s) (connections s)" and "set (connections s') \<subseteq> set (connections s)"
    and "distinct (map snd (connections s'))"
  shows "table_inv n (conns s') (connections s')"
  using assms unfolding table_inv_def only_def by (auto 0 3)

text \<open>The name of a connection finds it in the table, and nothing else.\<close>

lemma table_lookup:
  assumes "table_inv n cs tab" and "i < length cs"
  shows "map_of tab (conn_name (cs ! i)) = (if i \<in> snd ` set tab then Some i else None)"
    and "j < length cs \<Longrightarrow> j \<noteq> i \<Longrightarrow> conn_name (cs ! j) \<noteq> conn_name (cs ! i)"
proof -
  have inj: "j = i" if "j < length cs" "conn_name (cs ! j) = conn_name (cs ! i)" for j
  proof -
    from assms that(1) obtain p q where "conn_name (cs ! j) = numbered_name n (Suc j) p" "conn_name (cs ! i) = numbered_name n (Suc i) q"
      unfolding table_inv_def by blast
    with that(2) numbered_name_inj [of n "Suc j" p "Suc i" q] show "j = i" by simp
  qed
  then show "j < length cs \<Longrightarrow> j \<noteq> i \<Longrightarrow> conn_name (cs ! j) \<noteq> conn_name (cs ! i)" by blast
  have entry: "k = i" if "(conn_name (cs ! i), k) \<in> set tab" for k
    using assms(1) that inj unfolding table_inv_def by fastforce
  show "map_of tab (conn_name (cs ! i)) = (if i \<in> snd ` set tab then Some i else None)"
  proof (cases "map_of tab (conn_name (cs ! i))")
    case None
    then have "(conn_name (cs ! i), i) \<notin> set tab" by (force simp: map_of_eq_None_iff)
    moreover have "(conn_name (cs ! i), i) \<in> set tab" if "i \<in> snd ` set tab"
      using that assms(1) unfolding table_inv_def by fastforce
    ultimately show ?thesis using None by auto
  next
    case (Some k)
    then have "(conn_name (cs ! i), k) \<in> set tab" by (rule map_of_SomeD)
    with entry have "k = i" by simp
    with Some show ?thesis by (auto dest: map_of_SomeD intro: rev_image_eqI)
  qed
qed

lemma table_remove:
  assumes "table_inv n cs tab" and "i < length cs"
  defines "tab' \<equiv> filter (\<lambda>x. fst x \<noteq> conn_name (cs ! i)) tab"
  shows "j \<in> snd ` set tab' \<longleftrightarrow> j \<in> snd ` set tab \<and> j \<noteq> i"
    and "i \<in> snd ` set tab \<Longrightarrow> length tab = Suc (length tab')"
    and "distinct (map snd tab')"
proof -
  have nm: "fst x = conn_name (cs ! snd x)" "snd x < length cs" if "x \<in> set tab" for x
    using assms(1) that unfolding table_inv_def by fastforce+
  have eq: "tab' = filter (\<lambda>x. i \<noteq> snd x) tab"
    unfolding tab'_def
  proof (rule filter_cong)
    fix x
    assume x: "x \<in> set tab"
    show "fst x \<noteq> conn_name (cs ! i) \<longleftrightarrow> i \<noteq> snd x"
      using nm [OF x] table_lookup(2) [OF assms(1,2), of "snd x"] by auto
  qed simp
  show "j \<in> snd ` set tab' \<longleftrightarrow> j \<in> snd ` set tab \<and> j \<noteq> i" unfolding eq by force
  have d: "distinct (map snd tab)" using assms(1) by (simp add: table_inv_def)
  then show "distinct (map snd tab')" unfolding eq by (simp add: distinct_map_filter)
  have "map snd tab' = remove1 i (map snd tab)"
    unfolding eq using d by (simp add: distinct_remove1_removeAll removeAll_filter_not_eq filter_map o_def)
  then have "length tab' = length (remove1 i (map snd tab))" by (metis length_map)
  moreover assume i: "i \<in> snd ` set tab"
  ultimately have "length tab' = length tab - 1" by (simp add: length_remove1)
  moreover have "tab \<noteq> []" using i by auto
  ultimately show "length tab = Suc (length tab')" by (cases tab) simp_all
qed

text \<open>Changes of a connection's own fields.\<close>

lemma set_conn_only:
  "\<lbrakk>i < length (conns s); \<And>c. conn_name (f c) = conn_name c \<and> conn_loop (f c) = conn_loop c\<rbrakk> \<Longrightarrow> only i s (set_conn i f s)"
  by (auto simp: only_def conn_fs_def)

lemma set_conn_fs [simp]:
  "\<lbrakk>i < length (conns s); \<And>c. conn_loop (f c) = conn_loop c\<rbrakk> \<Longrightarrow> conn_fs (set_conn i f s) i = conn_fs s i"
  by (simp add: conn_fs_def)

lemma server_ok_only:
  assumes ok: "server_ok s" and o: "only i s s'" and i: "i < length (conns s)" and life: "conn_life s' i"
    and same: "server_name s' = server_name s" "started s' = started s" "pending_cleanup s' = pending_cleanup s"
    and tab: "set (connections s') \<subseteq> set (connections s)" "distinct (map snd (connections s'))"
    and cnt: "counters_inv s'" and pl: "placed_inv s'"
    and sig: "count_list (conn_fs s' i) (FnDestroyAndSignal i) = count_list (conn_fs s i) (FnDestroyAndSignal i)"
  shows "server_ok s'"
proof -
  have "table_inv (server_name s') (conns s') (connections s')"
    using only_table [OF o _ tab] ok same by (simp add: server_ok_def)
  moreover have "\<forall>j<length (conns s'). conn_life s' j" using only_life [OF o] ok life by (simp add: server_ok_def)
  moreover have "signals s' = signals s" using only_signals [OF o i] sig by simp
  then have "stop_inv s'" using ok same tab(1) by (auto simp: server_ok_def stop_inv_def)
  ultimately show ?thesis using cnt pl by (simp add: server_ok_def)
qed

lemma set_conn_ok:
  assumes ok: "server_ok s" and i: "i < length (conns s)"
    and f: "\<And>c. conn_name (f c) = conn_name c \<and> conn_loop (f c) = conn_loop c \<and> established (f c) = established c \<and> destroyed (f c) = destroyed c"
    and life: "life_ok i (i \<in> snd ` set (connections s)) (established (conns s ! i)) (destroyed (conns s ! i)) (conn_fs s i)
      (conn_state (f (conns s ! i)))" "conn_state (conns s ! i) = kDisconnected \<Longrightarrow> conn_state (f (conns s ! i)) = kDisconnected"
  shows "server_ok (set_conn i f s)"
proof (rule server_ok_only [OF ok _ i])
  show "only i s (set_conn i f s)" by (rule set_conn_only [OF i]) (simp add: f)
  show "conn_life (set_conn i f s) i" using life ok i f by (simp add: conn_life_def server_ok_def)
  have "conn_loop (conns (set_conn i f s) ! j) = conn_loop (conns s ! j)"
    "conn_state (conns s ! j) = kDisconnected \<Longrightarrow> conn_state (conns (set_conn i f s) ! j) = kDisconnected" for j
    using i f life(2) by auto
  then show "placed_inv (set_conn i f s)" using ok by (simp add: server_ok_def placed_inv_def)
  show "counters_inv (set_conn i f s)" using ok by (simp add: server_ok_def counters_inv_def)
  show "distinct (map snd (connections (set_conn i f s)))" using ok by (simp add: server_ok_def table_inv_def)
qed (simp_all add: i f)

lemma life_close:
  "\<lbrakk>life_ok i t e d fs st; st = kConnected \<or> st = kDisconnecting; st' \<noteq> kConnecting\<rbrakk> \<Longrightarrow> life_ok i t e d fs st'"
  unfolding life_ok_def by auto

lemma close_state_ok:
  assumes ok: "server_ok s" and i: "i < length (conns s)" and st: "conn_state (conns s ! i) = kConnected \<or> conn_state (conns s ! i) = kDisconnecting"
    and st': "st' \<noteq> kConnecting"
  shows "server_ok (set_conn i (\<lambda>c. c\<lparr>conn_state := st'\<rparr>) s)"
proof (rule set_conn_ok [OF ok i])
  have "conn_life s i" using ok i by (simp add: server_ok_def)
  then have "life_ok i (i \<in> snd ` set (connections s)) (established (conns s ! i)) (destroyed (conns s ! i)) (conn_fs s i)
      (conn_state (conns s ! i))" by (simp add: conn_life_def)
  then show "life_ok i (i \<in> snd ` set (connections s)) (established (conns s ! i)) (destroyed (conns s ! i)) (conn_fs s i)
      (conn_state ((conns s ! i)\<lparr>conn_state := st'\<rparr>))"
    using st st' life_close by simp
qed (use st in auto)

lemma unat_add_no_wrap: "unat (w::u64) + n < 2 ^ 64 \<Longrightarrow> unat (w + of_nat n) = unat w + n"
  by (simp add: unat_word_ariths unat_of_nat)

lemma conns_bound: "counters_inv s \<Longrightarrow> length (conns s) < 2 ^ 64"
  using unsigned_less [of "next_connection_id s", where 'a = nat] by (simp add: counters_inv_def)

text \<open>Removing a connection, by the base loop.\<close>

lemma RemoveConnectionInLoop_ok:
  assumes ok: "server_ok s" and i: "i < length (conns s)" and cl: "conn_state (conns s ! i) = kDisconnected"
  shows "server_ok (RemoveConnectionInLoop i s)"
proof (cases "i \<in> snd ` set (connections s)")
  case True
  have est: "established (conns s ! i) = 1" using ok i cl by (auto simp: server_ok_def conn_life_def life_ok_def)
  have tab: "table_inv (server_name s) (conns s) (connections s)" using ok by (simp add: server_ok_def)
  note rm = table_remove [OF tab i]
  let ?tab = "filter (\<lambda>x. fst x \<noteq> conn_name (conns s ! i)) (connections s)"
  let ?s = "s\<lparr>connections := ?tab, connection_count := length ?tab, closed_total := closed_total s + 1\<rparr>"
  let ?s' = "push_io (conn_loop (conns s ! i)) (FnDestroy i) ?s"
  have eq: "RemoveConnectionInLoop i s = ?s'"
    using True table_lookup(1) [OF tab i] by (simp add: RemoveConnectionInLoop_def Let_def)
  have life: "conn_life s i" using ok i by (simp add: server_ok_def)
  have fs: "conn_fs s i = []" using life True est by (auto simp: conn_life_def life_ok_def)
  have fs': "conn_fs ?s' i = [FnDestroy i]" using fs by (simp add: conn_fs_def)
  have cnt: "counters_inv s" using ok by (simp add: server_ok_def)
  show ?thesis
    unfolding eq
  proof (rule server_ok_only [OF ok _ i])
    show "only i s ?s'" using rm(1) by (auto simp: only_def conn_fs_def)
    show "conn_life ?s' i" using life True est cl fs fs' rm(1) [of i] by (auto simp: conn_life_def life_ok_def)
    have less: "unat (closed_total s) < length (conns s)" using cnt rm(2) [OF True] by (auto simp: counters_inv_def)
    with conns_bound [OF cnt] have "unat (closed_total s + 1) = unat (closed_total s) + 1"
      using unat_add_no_wrap [of "closed_total s" 1] by simp
    then show "counters_inv ?s'" using cnt rm(2) [OF True] by (auto simp: counters_inv_def)
    show "placed_inv ?s'" using ok i by (auto simp: server_ok_def placed_inv_def)
  qed (use rm(3) fs fs' in \<open>auto\<close>)
next
  case False
  then have "RemoveConnectionInLoop i s = s"
    using table_lookup(1) [of "server_name s" "conns s" "connections s" i] ok i by (simp add: RemoveConnectionInLoop_def server_ok_def Let_def)
  with ok show ?thesis by simp
qed

section \<open>Every operation keeps the invariant\<close>

lemma RemoveConnection_ok:
  assumes ok: "server_ok s" and i: "i < length (conns s)" and est: "conn_state (conns s ! i) = kDisconnected"
  shows "server_ok (RemoveConnection i s)"
proof -
  have "server_ok (s\<lparr>base_functors := base_functors s @ [i]\<rparr>)"
    using ok i est by (auto simp: server_ok_def counters_inv_def placed_inv_def stop_inv_def signals_def conn_life_def conn_fs_def)
  with RemoveConnectionInLoop_ok [OF assms] ok show ?thesis by (simp add: RemoveConnection_def)
qed

lemma conn_close_ok:
  assumes ok: "server_ok s" and i: "i < length (conns s)"
  shows "server_ok (conn_close i s)"
proof (cases "conn_state (conns s ! i) = kConnected \<or> conn_state (conns s ! i) = kDisconnecting")
  case True
  let ?s = "set_conn i (\<lambda>c. c\<lparr>conn_state := kDisconnected\<rparr>) s"
  have "conn_state (conns ?s ! i) = kDisconnected" using i by simp
  with close_state_ok [OF ok i True, of kDisconnected] have "server_ok (RemoveConnection i ?s)"
    using i by (intro RemoveConnection_ok) simp_all
  with True show ?thesis by (simp add: conn_close_def)
qed (simp add: conn_close_def ok)

lemma RemoveConnectionInLoop_conns [simp]: "conns (RemoveConnectionInLoop i s) = conns s"
  by (simp add: RemoveConnectionInLoop_def Let_def)

lemma conn_close_length [simp]: "length (conns (conn_close i s)) = length (conns s)"
  by (simp add: conn_close_def RemoveConnection_def)

lemma push_force_close_ok:
  assumes ok: "server_ok s" and i: "i < length (conns s)"
  shows "server_ok (push_io (conn_loop (conns s ! i)) (FnForceClose i) s)"
proof (rule server_ok_only [OF ok _ i])
  let ?s = "push_io (conn_loop (conns s ! i)) (FnForceClose i) s"
  show "only i s ?s" by (auto simp: only_def conn_fs_def)
  have fs: "conn_fs ?s i = conn_fs s i" by (simp add: conn_fs_def)
  then show "conn_life ?s i" using ok i by (simp add: conn_life_def server_ok_def)
  show "placed_inv ?s" using ok i by (auto simp: server_ok_def placed_inv_def)
  show "count_list (conn_fs ?s i) (FnDestroyAndSignal i) = count_list (conn_fs s i) (FnDestroyAndSignal i)" using fs by simp
qed (use ok in \<open>auto simp: server_ok_def table_inv_def counters_inv_def\<close>)

lemma conn_ForceClose_ok: "\<lbrakk>server_ok s; i < length (conns s)\<rbrakk> \<Longrightarrow> server_ok (conn_ForceClose i s)"
  by (simp add: conn_ForceClose_def conn_close_ok push_force_close_ok)

lemma CheckIdleConnections_ok:
  assumes "server_ok s"
  shows "server_ok (CheckIdleConnections now s)"
proof -
  have "server_ok (fold conn_ForceClose is' s')" if "server_ok s'" "\<forall>i\<in>set is'. i < length (conns s')" for is' s'
    using that
  proof (induction is' arbitrary: s')
    case (Cons i is')
    have "length (conns (conn_ForceClose i s')) = length (conns s')" by (simp add: conn_ForceClose_def)
    with Cons.prems Cons.IH [of "conn_ForceClose i s'"] show ?case by (simp add: conn_ForceClose_ok)
  qed simp
  moreover have "\<forall>i\<in>set (idle_connections now s). i < length (conns s)"
    using assms by (force simp: idle_connections_def server_ok_def table_inv_def)
  ultimately show ?thesis using assms by (simp add: CheckIdleConnections_def)
qed

text \<open>A loop runs a functor. It is taken off the list first.\<close>

lemma popped_fs:
  assumes "server_ok s" and "io_functors s l = f # fs"
  defines "s' \<equiv> s\<lparr>io_functors := (io_functors s)(l := fs)\<rparr>"
  shows "functor_conn f < length (conns s)" and "conn_loop (conns s ! functor_conn f) = l"
    and "conn_fs s (functor_conn f) = life_functors (functor_conn f) [f] @ conn_fs s' (functor_conn f)"
    and "only (functor_conn f) s s'" and "placed_inv s'"
proof -
  have pl: "placed_inv s" using assms(1) by (simp add: server_ok_def)
  with assms(2) show f: "functor_conn f < length (conns s)" "conn_loop (conns s ! functor_conn f) = l"
    by (auto simp: placed_inv_def dest!: spec [of _ l])
  show "conn_fs s (functor_conn f) = life_functors (functor_conn f) [f] @ conn_fs s' (functor_conn f)"
    using f assms(2) life_functors_simps(6) [of "functor_conn f" "[f]" fs] by (simp add: conn_fs_def s'_def)
  have "life_functors j (f # fs) = life_functors j fs" if "j \<noteq> functor_conn f" for j using that by (cases f) auto
  then show "only (functor_conn f) s s'" using assms(2) by (auto simp: only_def conn_fs_def s'_def)
  have "set (io_functors s' k) \<subseteq> set (io_functors s k)" for k using assms(2) by (auto simp: s'_def)
  moreover have "conns s' = conns s" "base_functors s' = base_functors s" by (simp_all add: s'_def)
  ultimately show "placed_inv s'" using pl unfolding placed_inv_def by (metis subsetD)
qed

lemma only_trans: "\<lbrakk>only i s t; only i t u\<rbrakk> \<Longrightarrow> only i s u"
  by (auto simp: only_def)

lemma run_io_functor_ok:
  assumes ok: "server_ok s" and f: "io_functors s l = f # fs"
  shows "server_ok (run_io_functor now f (s\<lparr>io_functors := (io_functors s)(l := fs)\<rparr>))"
proof -
  define s' where "s' = s\<lparr>io_functors := (io_functors s)(l := fs)\<rparr>"
  note p = popped_fs [OF ok f, folded s'_def]
  let ?i = "functor_conn f"
  have life: "conn_life s ?i" using ok p(1) by (simp add: server_ok_def)
  have same: "conns s' = conns s" "connections s' = connections s" "server_name s' = server_name s" "started s' = started s"
    "pending_cleanup s' = pending_cleanup s" by (simp_all add: s'_def)
  have cnt: "counters_inv s'" using ok by (simp add: server_ok_def counters_inv_def s'_def)
  have tab: "distinct (map snd (connections s))" using ok by (simp add: server_ok_def table_inv_def)
  show ?thesis
    unfolding s'_def [symmetric]
  proof (cases f)
    case (FnEstablish i)
    let ?s = "conn_established now i s'"
    have i: "i < length (conns s')" using p(1) FnEstablish same by simp
    have o: "only i s ?s" using p(4) set_conn_only [OF i] FnEstablish by (auto simp: conn_established_def intro: only_trans)
    have fs: "conn_fs ?s i = conn_fs s' i" using i by (simp add: conn_established_def)
    have st: "conn_life ?s i"
      using life p(3) FnEstablish i fs by (auto simp: conn_life_def life_ok_def same conn_established_def)
    show "server_ok (run_io_functor now f s')"
      unfolding FnEstablish run_io_functor.simps
    proof (rule server_ok_only [OF ok o _ st])
      show "placed_inv ?s" using p(5) i life FnEstablish p(3)
        by (auto simp: placed_inv_def conn_established_def conn_life_def life_ok_def same)
      show "counters_inv ?s" using cnt by (simp add: counters_inv_def conn_established_def)
      show "count_list (conn_fs ?s i) (FnDestroyAndSignal i) = count_list (conn_fs s i) (FnDestroyAndSignal i)"
        using fs p(3) FnEstablish by simp
    qed (use p(1) FnEstablish same tab in \<open>simp_all add: conn_established_def\<close>)
  next
    case (FnForceClose i)
    have o: "only i s s'" using p(4) FnForceClose by simp
    have "server_ok s'"
    proof (rule server_ok_only [OF ok o])
      show "conn_life s' i" using life p(3) FnForceClose by (simp add: conn_life_def same)
    qed (use p FnForceClose same tab cnt in simp_all)
    then show "server_ok (run_io_functor now f s')" using p(1) FnForceClose same by (simp add: conn_close_ok)
  next
    case (FnDestroy i)
    let ?s = "conn_destroyed i s'"
    have i: "i < length (conns s')" using p(1) FnDestroy same by simp
    have o: "only i s ?s" using p(4) set_conn_only [OF i] FnDestroy by (auto simp: conn_destroyed_def intro: only_trans)
    have fs: "conn_fs ?s i = conn_fs s' i" using i by (simp add: conn_destroyed_def)
    have st: "conn_life ?s i"
      using life p(3) FnDestroy i fs by (cases "conn_state (conns s ! i)") (auto simp: conn_life_def life_ok_def same conn_destroyed_def)
    show "server_ok (run_io_functor now f s')"
      unfolding FnDestroy run_io_functor.simps
    proof (rule server_ok_only [OF ok o _ st])
      show "placed_inv ?s" using p(5) i by (auto simp: placed_inv_def conn_destroyed_def same)
      show "counters_inv ?s" using cnt by (simp add: counters_inv_def conn_destroyed_def)
      show "count_list (conn_fs ?s i) (FnDestroyAndSignal i) = count_list (conn_fs s i) (FnDestroyAndSignal i)"
        using fs p(3) FnDestroy by simp
    qed (use p(1) FnDestroy same tab in \<open>simp_all add: conn_destroyed_def\<close>)
  next
    case (FnDestroyAndSignal i)
    let ?s = "conn_destroyed i s'"
    let ?t = "?s\<lparr>pending_cleanup := map_option (\<lambda>n. n - 1) (pending_cleanup ?s)\<rparr>"
    have i: "i < length (conns s')" using p(1) FnDestroyAndSignal same by simp
    have "only i s ?s" using p(4) set_conn_only [OF i] FnDestroyAndSignal by (auto simp: conn_destroyed_def intro: only_trans)
    moreover have "conn_fs ?t j = conn_fs ?s j" for j by (simp add: conn_fs_def)
    ultimately have o: "only i s ?t" by (simp add: only_def)
    have fs: "conn_fs ?t i = conn_fs s' i" using i by (simp add: conn_destroyed_def conn_fs_def)
    have st: "conn_life ?t i"
      using life p(3) FnDestroyAndSignal i fs
      by (cases "conn_state (conns s ! i)") (auto simp: conn_life_def life_ok_def same conn_destroyed_def)
    have "signals ?t + 1 = signals s"
      using only_signals [OF o] i fs p(3) FnDestroyAndSignal same by simp
    then have "stop_inv ?t"
      using ok by (auto simp: server_ok_def stop_inv_def conn_destroyed_def same split: option.splits)
    moreover have "table_inv (server_name ?t) (conns ?t) (connections ?t)"
      using only_table [OF o, of "server_name s"] ok by (auto simp: server_ok_def conn_destroyed_def same table_inv_def)
    moreover have "placed_inv ?t" using p(5) i by (auto simp: placed_inv_def conn_destroyed_def same)
    moreover have "counters_inv ?t" using cnt by (simp add: counters_inv_def conn_destroyed_def)
    moreover have "\<forall>j<length (conns ?t). conn_life ?t j" using only_life [OF o _ st] ok by (simp add: server_ok_def)
    ultimately show "server_ok (run_io_functor now f s')" unfolding FnDestroyAndSignal by (simp add: Let_def server_ok_def)
  qed
qed

text \<open>Accepting a connection.\<close>

lemma pick_loop_ok:
  assumes "server_ok s" and "pick_loop s = (io, s')"
  shows "server_ok s'" and "conns s' = conns s" and "started s' = started s" and "pending_cleanup s' = pending_cleanup s"
proof -
  obtain p where s': "s' = s\<lparr>thread_pool := p\<rparr> \<or> s' = s"
    using assms(2) by (auto simp: pick_loop_def split: option.splits prod.splits)
  with assms(1) show "server_ok s'"
    by (auto simp: server_ok_def counters_inv_def placed_inv_def stop_inv_def signals_def conn_life_def conn_fs_def)
  show "conns s' = conns s" "started s' = started s" "pending_cleanup s' = pending_cleanup s" using s' by auto
qed

lemma new_name:
  assumes ok: "server_ok s" and room: "length (conns s) + 1 < 2 ^ 64"
  shows "MakeConnectionName peer s = (numbered_name (server_name s) (Suc (length (conns s))) peer, s\<lparr>next_connection_id := next_connection_id s + 1\<rparr>)"
    and "unat (next_connection_id s + 1) = length (conns s) + 1" and "unat (accepted_total s + 1) = length (conns s) + 1"
    and "filter (\<lambda>x. fst x \<noteq> numbered_name (server_name s) (Suc (length (conns s))) peer) (connections s) = connections s"
proof -
  have u: "unat (next_connection_id s) = length (conns s)" "unat (accepted_total s) = length (conns s)"
    using ok by (simp_all add: server_ok_def counters_inv_def)
  then show n: "unat (next_connection_id s + 1) = length (conns s) + 1" "unat (accepted_total s + 1) = length (conns s) + 1"
    using room unat_add_no_wrap [of "next_connection_id s" 1] unat_add_no_wrap [of "accepted_total s" 1] by simp_all
  then show "MakeConnectionName peer s = (numbered_name (server_name s) (Suc (length (conns s))) peer, s\<lparr>next_connection_id := next_connection_id s + 1\<rparr>)"
    by (simp add: MakeConnectionName_def numbered_name_def)
  have "fst x \<noteq> numbered_name (server_name s) (Suc (length (conns s))) peer" if x: "x \<in> set (connections s)" for x
  proof -
    have tab: "table_inv (server_name s) (conns s) (connections s)" using ok by (simp add: server_ok_def)
    with x have i: "snd x < length (conns s)" "fst x = conn_name (conns s ! snd x)" unfolding table_inv_def by fastforce+
    with tab obtain q where "fst x = numbered_name (server_name s) (Suc (snd x)) q" unfolding table_inv_def by force
    with i show ?thesis using numbered_name_inj [of "server_name s" "Suc (snd x)" q "Suc (length (conns s))" peer] by auto
  qed
  then show "filter (\<lambda>x. fst x \<noteq> numbered_name (server_name s) (Suc (length (conns s))) peer) (connections s) = connections s"
    by simp
qed

lemma life_functors_other: "\<forall>f\<in>set fs. functor_conn f \<noteq> i \<Longrightarrow> life_functors i fs = []"
  unfolding life_functors_def by (auto simp: filter_empty_conv)

lemma HandleAccept_on_ok:
  assumes ok: "server_ok s" and room: "length (conns s) + 1 < 2 ^ 64" and st: "started s"
  shows "server_ok (HandleAccept_on now peer l s)"
proof -
  let ?n = "length (conns s)"
  let ?name = "numbered_name (server_name s) (Suc ?n) peer"
  let ?c = "\<lparr>conn_name = ?name, conn_loop = l, conn_state = kConnecting, last_read = now, established = 0, destroyed = 0\<rparr>"
  let ?s1 = "s\<lparr>next_connection_id := next_connection_id s + 1, conns := conns s @ [?c], connections := (?name, ?n) # connections s,
    connection_count := Suc (length (connections s)), accepted_total := accepted_total s + 1,
    peak_connection_count := max (peak_connection_count s) (Suc (length (connections s)))\<rparr>"
  let ?s = "if l = 0 then conn_established now ?n ?s1 else push_io l (FnEstablish ?n) ?s1"
  note nm = new_name [OF ok room]
  have eq: "HandleAccept_on now peer l s = ?s"
    using nm(1,4) by (simp add: HandleAccept_on_def Let_def)
  have pl: "placed_inv s" and tab: "table_inv (server_name s) (conns s) (connections s)" and cnt: "counters_inv s"
    and life: "\<forall>i<?n. conn_life s i" and stop: "stop_inv s" using ok by (simp_all add: server_ok_def)
  have old: "conns ?s ! j = conns s ! j" if "j < ?n" for j using that by (simp add: conn_established_def nth_append)
  have new: "conn_name (conns ?s ! ?n) = ?name" "conn_loop (conns ?s ! ?n) = l" "destroyed (conns ?s ! ?n) = 0"
    "established (conns ?s ! ?n) = (if l = 0 then 1 else 0)" "conn_state (conns ?s ! ?n) = (if l = 0 then kConnected else kConnecting)"
    by (simp_all add: conn_established_def)
  have len: "length (conns ?s) = Suc ?n" and con: "connections ?s = (?name, ?n) # connections s" by (simp_all add: conn_established_def)
  have io: "io_functors ?s k = io_functors s k @ (if k = l \<and> l \<noteq> 0 then [FnEstablish ?n] else [])" for k by (simp add: conn_established_def)
  have fs_old: "conn_fs ?s j = conn_fs s j" if "j < ?n" for j unfolding conn_fs_def old [OF that] io using that by simp
  have "\<forall>f\<in>set (io_functors s l). functor_conn f \<noteq> ?n" using pl unfolding placed_inv_def by (metis less_irrefl)
  then have fs_new: "conn_fs ?s ?n = (if l = 0 then [] else [FnEstablish ?n])"
    unfolding conn_fs_def new(2) io by (simp add: life_functors_other)
  have fresh: "?n \<notin> snd ` set (connections s)" using tab by (auto simp: table_inv_def)
  have "conn_life ?s j" if "j < length (conns ?s)" for j
  proof (cases "j = ?n")
    case True
    then show ?thesis using new fs_new con by (simp add: conn_life_def life_ok_def)
  next
    case False
    with that len have "j < ?n" by simp
    with life False show ?thesis unfolding conn_life_def using old fs_old con by simp
  qed
  moreover have "table_inv (server_name ?s) (conns ?s) (connections ?s)"
    unfolding table_inv_def len con
  proof (intro conjI allI impI)
    fix i
    assume "i < Suc ?n"
    then show "\<exists>peer'. conn_name (conns ?s ! i) = numbered_name (server_name ?s) (Suc i) peer'"
      using tab old new(1) by (cases "i = ?n") (auto simp: table_inv_def conn_established_def)
  next
    show "distinct (map snd ((?name, ?n) # connections s))" using tab fresh by (simp add: table_inv_def)
    show "\<forall>(n, i)\<in>set ((?name, ?n) # connections s). i < Suc ?n \<and> conn_name (conns ?s ! i) = n"
      using tab old new(1) unfolding table_inv_def by fastforce
  qed
  moreover have "counters_inv ?s" using cnt nm(2,3) unfolding counters_inv_def len con by (simp add: conn_established_def)
  moreover have "placed_inv ?s"
    unfolding placed_inv_def len
  proof (intro conjI allI ballI)
    fix k f
    assume "f \<in> set (io_functors ?s k)"
    then consider "f \<in> set (io_functors s k)" | "f = FnEstablish ?n" "k = l" unfolding io by (auto split: if_splits)
    then have "functor_conn f < Suc ?n \<and> conn_loop (conns ?s ! functor_conn f) = k"
    proof cases
      case 1
      with pl have "functor_conn f < ?n" "conn_loop (conns s ! functor_conn f) = k" unfolding placed_inv_def by blast+
      with old show ?thesis by simp
    next
      case 2
      then show ?thesis using new(2) by simp
    qed
    then show "functor_conn f < Suc ?n" "conn_loop (conns ?s ! functor_conn f) = k" by blast+
  next
    fix i
    assume "i \<in> set (base_functors ?s)"
    then have "i \<in> set (base_functors s)" by (simp add: conn_established_def split: if_splits)
    with pl have "i < ?n" "conn_state (conns s ! i) = kDisconnected" unfolding placed_inv_def by blast+
    with old show "i < Suc ?n" "conn_state (conns ?s ! i) = kDisconnected" by simp_all
  next
    fix i
    show "FnDestroyAndSignal i \<notin> set (io_functors ?s 0)" using pl unfolding io placed_inv_def by simp
  qed
  moreover have "signals ?s = signals s"
  proof -
    have "(\<Sum>i<?n. count_list (conn_fs ?s i) (FnDestroyAndSignal i)) = (\<Sum>i<?n. count_list (conn_fs s i) (FnDestroyAndSignal i))"
      by (rule sum.cong [OF refl]) (simp only: lessThan_iff fs_old)
    then show ?thesis unfolding signals_def len sum.lessThan_Suc fs_new by simp
  qed
  then have "stop_inv ?s" using stop st unfolding stop_inv_def by (simp add: conn_established_def)
  ultimately show ?thesis unfolding eq server_ok_def by blast
qed

lemma HandleAccept_ok:
  "\<lbrakk>server_ok s; length (conns s) + length peers < 2 ^ 64; started s\<rbrakk> \<Longrightarrow> server_ok (HandleAccept now peers s)"
proof (induction peers arbitrary: s)
  case (Cons peer peers)
  obtain io s1 where p: "pick_loop s = (io, s1)" by force
  note s1 = pick_loop_ok [OF Cons.prems(1) p]
  let ?s = "HandleAccept_one now peer s"
  have on: "started (HandleAccept_on now peer l s1)" "length (conns (HandleAccept_on now peer l s1)) = length (conns s1) + 1" for l
    using Cons.prems(3) s1(3) by (simp_all add: HandleAccept_on_def Let_def MakeConnectionName_def conn_established_def)
  have "server_ok ?s" "started ?s" "length (conns ?s) \<le> length (conns s) + 1"
    using Cons.prems s1 on p HandleAccept_on_ok [OF s1(1)] by (auto simp: HandleAccept_one_def split: option.splits)
  with Cons show ?case by simp
qed simp

text \<open>Stopping: the connections of the table are destroyed, or their loops are asked to.\<close>

lemma Stop_one_frame [simp]:
  "server_name (Stop_one i s) = server_name s" "started (Stop_one i s) = started s" "connections (Stop_one i s) = connections s"
  "connection_count (Stop_one i s) = connection_count s" "peak_connection_count (Stop_one i s) = peak_connection_count s"
  "accepted_total (Stop_one i s) = accepted_total s" "closed_total (Stop_one i s) = closed_total s"
  "next_connection_id (Stop_one i s) = next_connection_id s" "base_functors (Stop_one i s) = base_functors s"
  "length (conns (Stop_one i s)) = length (conns s)" "pending_cleanup (Stop_one i s) = pending_cleanup s"
  by (simp_all add: Stop_one_def conn_destroyed_def)

definition destroyed_conn :: "ServerConn \<Rightarrow> ServerConn" where
  "destroyed_conn c = c\<lparr>conn_state := (if conn_state c = kConnected \<or> conn_state c = kDisconnecting then kDisconnected else conn_state c),
     destroyed := destroyed c + 1\<rparr>"

lemma destroyed_conn_fields [simp]:
  "conn_name (destroyed_conn c) = conn_name c" "conn_loop (destroyed_conn c) = conn_loop c" "established (destroyed_conn c) = established c"
  "destroyed (destroyed_conn c) = destroyed c + 1"
  by (simp_all add: destroyed_conn_def)

lemma Stop_fold:
  assumes "distinct cs" and "\<forall>i\<in>set cs. i < length (conns s)"
  defines "t \<equiv> fold Stop_one cs s"
  shows "server_name t = server_name s \<and> started t = started s \<and> connections t = connections s \<and> connection_count t = connection_count s
     \<and> peak_connection_count t = peak_connection_count s \<and> accepted_total t = accepted_total s \<and> closed_total t = closed_total s
     \<and> next_connection_id t = next_connection_id s \<and> base_functors t = base_functors s \<and> length (conns t) = length (conns s)
     \<and> pending_cleanup t = pending_cleanup s
     \<and> (\<forall>j<length (conns s). conns t ! j = (if j \<in> set cs \<and> conn_loop (conns s ! j) = 0 then destroyed_conn (conns s ! j) else conns s ! j))
     \<and> (\<forall>l. io_functors t l = io_functors s l @ (if l = 0 then [] else map FnDestroyAndSignal (filter (\<lambda>i. conn_loop (conns s ! i) = l) cs)))"
  unfolding t_def using assms(1,2)
proof (induction cs arbitrary: s)
  case (Cons i cs)
  let ?s = "Stop_one i s"
  have i: "i < length (conns s)" "i \<notin> set cs" "distinct cs" using Cons.prems by simp_all
  have cs: "\<forall>j\<in>set cs. j < length (conns ?s)" using Cons.prems by simp
  note IH = Cons.IH [OF i(3) cs]
  have conns: "conns ?s ! j = (if j = i \<and> conn_loop (conns s ! i) = 0 then destroyed_conn (conns s ! i) else conns s ! j)" for j
    using i by (simp add: Stop_one_def conn_destroyed_def destroyed_conn_def)
  then have loop: "conn_loop (conns ?s ! j) = conn_loop (conns s ! j)" for j by simp
  have io: "io_functors ?s l = io_functors s l @ (if conn_loop (conns s ! i) = l \<and> l \<noteq> 0 then [FnDestroyAndSignal i] else [])" for l
    by (simp add: Stop_one_def conn_destroyed_def)
  show ?case using IH i(2) unfolding fold_simps o_apply loop by (simp add: conns io)
qed simp

lemma sum_indicator:
  fixes n :: nat
  shows "(\<Sum>j<n. if P j then 1 else 0 :: nat) = card {j. j < n \<and> P j}"
proof (induction n)
  case (Suc n)
  have "{j. j < Suc n \<and> P j} = (if P n then insert n {j. j < n \<and> P j} else {j. j < n \<and> P j})" by (auto simp: less_Suc_eq)
  with Suc show ?case by simp
qed simp

lemma life_functors_map_destroy:
  "distinct cs \<Longrightarrow> life_functors j (map FnDestroyAndSignal cs) = (if j \<in> set cs then [FnDestroyAndSignal j] else [])"
  by (induction cs) auto

text \<open>What stopping does to the life of a connection of the table.\<close>

lemma life_stop:
  assumes "life_ok i True est dest fs st" and "est = 0 \<longrightarrow> l \<noteq> 0"
  shows "l \<noteq> 0 \<Longrightarrow> life_ok i False est dest (fs @ [FnDestroyAndSignal i]) st"
    and "l = 0 \<Longrightarrow> life_ok i False est (dest + 1) fs (if st = kConnected \<or> st = kDisconnecting then kDisconnected else st)"
  using assms unfolding life_ok_def by (cases st; auto)+

lemma life_no_signal: "life_ok i True est dest fs st \<Longrightarrow> count_list fs (FnDestroyAndSignal i) = 0"
  by (auto simp: life_ok_def)

lemma Stop_ok:
  assumes ok: "server_ok s" and free: "pending_cleanup s = None"
  shows "server_ok (Stop in_loop s)"
proof (cases "started s \<and> in_loop")
  case True
  define cs where "cs = map snd (connections s)"
  define s1 where "s1 = s\<lparr>started := False, idle_check_timer := False, accept_channel := False,
    closed_total := closed_total s + of_nat (length (connections s)), connections := [], connection_count := 0\<rparr>"
  define t where "t = (fold Stop_one cs s1)\<lparr>pending_cleanup := Some (length (filter (\<lambda>i. conn_loop (conns s ! i) \<noteq> 0) cs))\<rparr>"
  have eq: "Stop in_loop s = t" using True by (simp add: Stop_def Let_def cs_def s1_def t_def)
  have tab: "table_inv (server_name s) (conns s) (connections s)" and cnt: "counters_inv s" and pl: "placed_inv s"
    and life: "\<And>i. i < length (conns s) \<Longrightarrow> conn_life s i" and stop: "stop_inv s" using ok by (simp_all add: server_ok_def)
  have d: "distinct cs" and lt: "\<forall>i\<in>set cs. i < length (conns s)" using tab by (force simp: cs_def table_inv_def)+
  have mem: "i \<in> snd ` set (connections s) \<longleftrightarrow> i \<in> set cs" for i by (simp add: cs_def)
  note F = Stop_fold [OF d, of s1] lt
  have conns: "conns t ! j = (if j \<in> set cs \<and> conn_loop (conns s ! j) = 0 then destroyed_conn (conns s ! j) else conns s ! j)"
    if "j < length (conns s)" for j using F that by (simp add: t_def s1_def)
  have len: "length (conns t) = length (conns s)" and con: "connections t = []" using F by (simp_all add: t_def s1_def)
  have io: "io_functors t l = io_functors s l @ (if l = 0 then [] else map FnDestroyAndSignal (filter (\<lambda>i. conn_loop (conns s ! i) = l) cs))" for l
    using F by (simp add: t_def s1_def)
  have loop: "conn_loop (conns t ! j) = conn_loop (conns s ! j)" "conn_name (conns t ! j) = conn_name (conns s ! j)"
    "established (conns t ! j) = established (conns s ! j)" if "j < length (conns s)" for j using conns [OF that] by simp_all
  have fs: "conn_fs t j = conn_fs s j @ (if j \<in> set cs \<and> conn_loop (conns s ! j) \<noteq> 0 then [FnDestroyAndSignal j] else [])"
    if "j < length (conns s)" for j
    using d by (simp add: conn_fs_def loop [OF that] io life_functors_map_destroy)
  have lifes: "conn_life t j" if j: "j < length (conns s)" for j
  proof (cases "j \<in> set cs")
    case True
    have l: "life_ok j True (established (conns s ! j)) (destroyed (conns s ! j)) (conn_fs s j) (conn_state (conns s ! j))"
      "established (conns s ! j) = 0 \<longrightarrow> conn_loop (conns s ! j) \<noteq> 0"
      using life [OF j] True mem by (simp_all add: conn_life_def)
    from life_stop [OF l] show ?thesis
      using True l(2) by (cases "conn_loop (conns s ! j) = 0") (auto simp: conn_life_def con fs [OF j] conns [OF j] destroyed_conn_def)
  next
    case False
    with life [OF j] mem show ?thesis by (simp add: conn_life_def con fs [OF j] conns [OF j])
  qed
  have sig_each: "count_list (conn_fs t j) (FnDestroyAndSignal j) = (if j \<in> set cs \<and> conn_loop (conns s ! j) \<noteq> 0 then 1 else 0)"
    if j: "j < length (conns s)" for j
  proof -
    have "(\<Sum>i<length (conns s). count_list (conn_fs s i) (FnDestroyAndSignal i)) = 0"
      using stop free by (simp add: stop_inv_def signals_def)
    then have "count_list (conn_fs s j) (FnDestroyAndSignal j) = 0" using j by simp
    then show ?thesis by (simp add: fs [OF j])
  qed
  have "signals t = (\<Sum>j<length (conns s). if j \<in> set cs \<and> conn_loop (conns s ! j) \<noteq> 0 then 1 else 0)"
    unfolding signals_def len by (rule sum.cong) (simp_all add: sig_each)
  also have "\<dots> = card {j. j < length (conns s) \<and> j \<in> set cs \<and> conn_loop (conns s ! j) \<noteq> 0}"
    by (rule sum_indicator)
  also have "{j. j < length (conns s) \<and> j \<in> set cs \<and> conn_loop (conns s ! j) \<noteq> 0} = set (filter (\<lambda>i. conn_loop (conns s ! i) \<noteq> 0) cs)"
    using lt by auto
  also have "card \<dots> = length (filter (\<lambda>i. conn_loop (conns s ! i) \<noteq> 0) cs)" using d by (intro distinct_card) simp
  finally have "stop_inv t" by (simp add: stop_inv_def con t_def) (use F in \<open>simp add: s1_def\<close>)
  moreover have "table_inv (server_name t) (conns t) (connections t)"
    using tab F loop by (simp add: table_inv_def con len t_def s1_def)
  moreover have "counters_inv t"
  proof -
    have "unat (closed_total s) + length (connections s) = length (conns s)" using cnt by (simp add: counters_inv_def)
    with conns_bound [OF cnt] have "unat (closed_total s + of_nat (length (connections s))) = length (conns s)"
      by (subst unat_add_no_wrap) simp_all
    with cnt F show ?thesis by (simp add: counters_inv_def con len t_def s1_def)
  qed
  moreover have "placed_inv t"
    unfolding placed_inv_def len
  proof (intro conjI allI ballI)
    fix l f
    assume "f \<in> set (io_functors t l)"
    then consider "f \<in> set (io_functors s l)" | i where "f = FnDestroyAndSignal i" "i \<in> set cs" "conn_loop (conns s ! i) = l"
      unfolding io by (auto split: if_splits)
    then have "functor_conn f < length (conns s) \<and> conn_loop (conns s ! functor_conn f) = l"
    proof cases
      case 1
      with pl show ?thesis unfolding placed_inv_def by blast
    next
      case 2
      with lt show ?thesis by simp
    qed
    with loop(1) show "functor_conn f < length (conns s)" "conn_loop (conns t ! functor_conn f) = l" by simp_all
  next
    fix i
    assume "i \<in> set (base_functors t)"
    moreover have "base_functors t = base_functors s" using F by (simp add: t_def s1_def)
    ultimately have "i < length (conns s)" "conn_state (conns s ! i) = kDisconnected" using pl unfolding placed_inv_def by auto
    with conns show "i < length (conns s)" "conn_state (conns t ! i) = kDisconnected" by (simp_all add: destroyed_conn_def)
  next
    fix i
    show "FnDestroyAndSignal i \<notin> set (io_functors t 0)" using pl unfolding io placed_inv_def by simp
  qed
  ultimately show ?thesis unfolding eq server_ok_def len using lifes by blast
qed (simp add: Stop_def ok)

text \<open>The end of \<open>Stop\<close>: by then every connection it had asked to be destroyed is; functors still queued are dropped.\<close>

lemma Stop_finish_ok:
  assumes ok: "server_ok s"
  shows "server_ok (Stop_finish s)"
proof (cases "pending_cleanup s = Some 0")
  case True
  let ?t = "s\<lparr>pending_cleanup := None, thread_pool := None, listening := False, io_functors := (\<lambda>l. if l = 0 then io_functors s 0 else [])\<rparr>"
  have stop: "stop_inv s" and life: "\<And>i. i < length (conns s) \<Longrightarrow> conn_life s i" and pl: "placed_inv s"
    using ok by (simp_all add: server_ok_def)
  have empty: "connections s = []" using stop True by (auto simp: stop_inv_def)
  have nosig: "FnDestroyAndSignal i \<notin> set (conn_fs s i)" if "i < length (conns s)" for i
  proof -
    have "(\<Sum>i<length (conns s). count_list (conn_fs s i) (FnDestroyAndSignal i)) = 0" using stop True by (simp add: stop_inv_def signals_def)
    then have "count_list (conn_fs s i) (FnDestroyAndSignal i) = 0" using that by simp
    then show ?thesis by (simp add: count_list_0_iff)
  qed
  have fs: "conn_fs ?t i = (if conn_loop (conns s ! i) = 0 then conn_fs s i else [])" for i by (simp add: conn_fs_def)
  have "conn_life ?t i" if i: "i < length (conns s)" for i
    using life [OF i] nosig [OF i] empty fs [of i] unfolding conn_life_def life_ok_def by auto
  moreover have "signals ?t = 0"
    unfolding signals_def using nosig fs by (auto simp: count_list_0_iff)
  then have "stop_inv ?t" using stop True by (simp add: stop_inv_def)
  moreover have "placed_inv ?t" using pl unfolding placed_inv_def by simp
  moreover have "counters_inv ?t" using ok by (simp add: server_ok_def counters_inv_def)
  ultimately show ?thesis using True ok by (simp add: Stop_finish_def server_ok_def)
qed (simp add: Stop_finish_def ok)

section \<open>Runs\<close>

lemma server_ok_same:
  assumes "server_ok s" and "server_name s' = server_name s" "conns s' = conns s" "connections s' = connections s"
    "connection_count s' = connection_count s" "peak_connection_count s' = peak_connection_count s" "accepted_total s' = accepted_total s"
    "closed_total s' = closed_total s" "next_connection_id s' = next_connection_id s" "base_functors s' = base_functors s"
    "io_functors s' = io_functors s" "pending_cleanup s' = pending_cleanup s"
    and "\<not> started s' \<longrightarrow> connections s = []" and "pending_cleanup s \<noteq> None \<longrightarrow> \<not> started s'"
  shows "server_ok s'"
  using assms by (simp add: server_ok_def counters_inv_def placed_inv_def stop_inv_def signals_def conn_life_def conn_fs_def)

lemma Start_frame:
  "server_name (snd (Start env s)) = server_name s" "conns (snd (Start env s)) = conns s" "connections (snd (Start env s)) = connections s"
  "connection_count (snd (Start env s)) = connection_count s" "peak_connection_count (snd (Start env s)) = peak_connection_count s"
  "accepted_total (snd (Start env s)) = accepted_total s" "closed_total (snd (Start env s)) = closed_total s"
  "next_connection_id (snd (Start env s)) = next_connection_id s" "base_functors (snd (Start env s)) = base_functors s"
  "io_functors (snd (Start env s)) = io_functors s" "pending_cleanup (snd (Start env s)) = pending_cleanup s"
  by (simp_all add: Start_def Let_def split: prod.splits)

lemma Start_ok:
  assumes ok: "server_ok s" and free: "pending_cleanup s = None"
  shows "server_ok (snd (Start env s))"
proof (cases "started s")
  case False
  then have "connections s = []" using ok by (simp add: server_ok_def stop_inv_def)
  with free show ?thesis by (intro server_ok_same [OF ok]) (simp_all add: Start_frame)
qed (simp add: Start_def ok)

lemma SetIdleTimeout_ok:
  assumes "server_ok s"
  shows "server_ok (snd (SetIdleTimeout t c s))"
proof -
  have "stop_inv s" using assms by (simp add: server_ok_def)
  then show ?thesis by (intro server_ok_same [OF assms]) (auto simp: SetIdleTimeout_def stop_inv_def)
qed

text \<open>The accept channel exists only while the server is started.\<close>

definition server_inv :: "TcpServer \<Rightarrow> bool" where
  "server_inv s \<longleftrightarrow> server_ok s \<and> (accept_channel s \<longrightarrow> started s)"

lemma accept_channel_frame:
  "accept_channel (set_conn i f s) = accept_channel s" "accept_channel (push_io l g s) = accept_channel s"
  "accept_channel (RemoveConnectionInLoop i s) = accept_channel s" "started (RemoveConnectionInLoop i s) = started s"
  "accept_channel (RemoveConnection i s) = accept_channel s" "started (RemoveConnection i s) = started s"
  "accept_channel (conn_close i s) = accept_channel s" "started (conn_close i s) = started s"
  "accept_channel (conn_ForceClose i s) = accept_channel s" "started (conn_ForceClose i s) = started s"
  "accept_channel (HandleAccept_on now peer l s) = accept_channel s" "started (HandleAccept_on now peer l s) = started s"
  "accept_channel (run_io_functor now g s) = accept_channel s" "started (run_io_functor now g s) = started s"
proof -
  show sc: "accept_channel (set_conn i f s) = accept_channel s" for i f s by (simp add: set_conn_def)
  show pu: "accept_channel (push_io l g s) = accept_channel s" for l g s by (simp add: push_io_def)
  show ri: "accept_channel (RemoveConnectionInLoop i s) = accept_channel s" "started (RemoveConnectionInLoop i s) = started s" for i s
    by (simp_all add: RemoveConnectionInLoop_def Let_def pu)
  then show rc: "accept_channel (RemoveConnection i s) = accept_channel s" "started (RemoveConnection i s) = started s" for i s
    by (simp_all add: RemoveConnection_def)
  then show cc: "accept_channel (conn_close i s) = accept_channel s" "started (conn_close i s) = started s" for i s
    by (simp_all add: conn_close_def sc)
  then show "accept_channel (conn_ForceClose i s) = accept_channel s" "started (conn_ForceClose i s) = started s"
    by (simp_all add: conn_ForceClose_def pu)
  show "accept_channel (HandleAccept_on now peer l s) = accept_channel s" "started (HandleAccept_on now peer l s) = started s"
    by (simp_all add: HandleAccept_on_def MakeConnectionName_def Let_def conn_established_def sc pu)
  show "accept_channel (run_io_functor now g s) = accept_channel s" "started (run_io_functor now g s) = started s"
    by (cases g; simp add: conn_established_def conn_destroyed_def sc cc Let_def)+
qed

lemma pick_loop_frame: "accept_channel (snd (pick_loop s)) = accept_channel s" "started (snd (pick_loop s)) = started s"
  by (auto simp: pick_loop_def split: option.splits prod.splits)

lemma HandleAccept_frame: "accept_channel (HandleAccept now peers s) = accept_channel s \<and> started (HandleAccept now peers s) = started s"
proof (induction peers arbitrary: s)
  case (Cons peer peers)
  have "accept_channel (HandleAccept_one now peer s) = accept_channel s \<and> started (HandleAccept_one now peer s) = started s"
    using pick_loop_frame [of s] by (auto simp: HandleAccept_one_def accept_channel_frame split: prod.splits option.splits)
  with Cons show ?case by simp
qed simp

lemma CheckIdle_frame: "accept_channel (CheckIdleConnections now s) = accept_channel s \<and> started (CheckIdleConnections now s) = started s"
proof -
  have "accept_channel (fold conn_ForceClose is' s') = accept_channel s' \<and> started (fold conn_ForceClose is' s') = started s'" for is' s'
    by (induction is' arbitrary: s') (simp_all add: accept_channel_frame)
  then show ?thesis by (simp add: CheckIdleConnections_def)
qed

lemma Start_accept: "(accept_channel s \<longrightarrow> started s) \<Longrightarrow> accept_channel (snd (Start env s)) \<longrightarrow> started (snd (Start env s))"
  by (auto simp: Start_def Let_def split: prod.splits if_splits)

lemma Stop_accept: "(accept_channel s \<longrightarrow> started s) \<Longrightarrow> accept_channel (Stop in_loop s) \<longrightarrow> started (Stop in_loop s)"
proof -
  have "accept_channel (fold Stop_one cs s') = accept_channel s'" for cs s'
    by (induction cs arbitrary: s') (simp_all add: Stop_one_def conn_destroyed_def accept_channel_frame)
  then show "(accept_channel s \<longrightarrow> started s) \<Longrightarrow> accept_channel (Stop in_loop s) \<longrightarrow> started (Stop in_loop s)"
    by (simp add: Stop_def Let_def)
qed

lemma server_step_inv:
  assumes inv: "server_inv s" and call: "server_call_ok s op"
  shows "server_inv (server_step s op)"
proof -
  have ok: "server_ok s" and acc: "accept_channel s \<longrightarrow> started s" using inv by (simp_all add: server_inv_def)
  have base: "i < length (conns s) \<and> conn_state (conns s ! i) = kDisconnected" if "i \<in> set (base_functors s)" for i
    using ok that unfolding server_ok_def placed_inv_def by blast
  show ?thesis
    unfolding server_step_def
  proof (cases op)
    case (SvStart env)
    with ok acc inv Start_ok [OF ok] Start_accept [OF acc] show "server_inv (server_do op s)" by (simp add: server_inv_def base_free_def)
  next
    case (SvStop in_loop)
    with ok acc inv Stop_ok [OF ok] Stop_accept [OF acc] show "server_inv (server_do op s)" by (simp add: server_inv_def base_free_def)
  next
    case SvStopFinish
    with ok acc Stop_finish_ok [OF ok] show "server_inv (server_do op s)" by (simp add: server_inv_def Stop_finish_def)
  next
    case (SvSetIdleTimeout t c)
    with ok acc inv SetIdleTimeout_ok [OF ok, of t c] show "server_inv (server_do op s)"
      by (auto simp: server_inv_def SetIdleTimeout_def split: if_splits)
  next
    case (SvAccept now peers)
    with ok acc inv call HandleAccept_ok [OF ok] HandleAccept_frame [of now peers s] show "server_inv (server_do op s)"
      by (simp add: server_inv_def)
  next
    case (SvIdleCheck now)
    with ok acc inv CheckIdleConnections_ok [OF ok] CheckIdle_frame [of now s] show "server_inv (server_do op s)"
      by (simp add: server_inv_def)
  next
    case SvBaseFunctor
    show "server_inv (server_do op s)"
    proof (cases "base_functors s")
      case (Cons i is')
      let ?s = "s\<lparr>base_functors := is'\<rparr>"
      have "server_ok ?s"
        using ok Cons by (simp add: server_ok_def counters_inv_def placed_inv_def stop_inv_def signals_def conn_life_def conn_fs_def)
      then have "server_ok (RemoveConnectionInLoop i ?s)" using base [of i] Cons by (intro RemoveConnectionInLoop_ok) simp_all
      with SvBaseFunctor Cons inv acc show ?thesis by (simp add: server_inv_def accept_channel_frame)
    qed (use SvBaseFunctor inv in simp)
  next
    case (SvIoFunctor now l)
    show "server_inv (server_do op s)"
    proof (cases "io_functors s l")
      case (Cons f fs)
      with run_io_functor_ok [OF ok Cons] SvIoFunctor inv acc show ?thesis by (simp add: server_inv_def accept_channel_frame)
    qed (use SvIoFunctor inv in simp)
  next
    case (SvRead now i)
    show "server_inv (server_do op s)"
    proof (cases "i < length (conns s)")
      case True
      have "conn_life s i" using ok True by (simp add: server_ok_def)
      then have "server_ok (set_conn i (\<lambda>c. c\<lparr>last_read := now\<rparr>) s)" using True by (intro set_conn_ok [OF ok]) (auto simp: conn_life_def)
      with SvRead inv acc show ?thesis by (simp add: server_inv_def accept_channel_frame)
    qed (use SvRead inv in simp)
  next
    case (SvShutdown i)
    then show "server_inv (server_do op s)"
      using inv acc close_state_ok [OF ok, of i kDisconnecting] by (simp add: server_inv_def accept_channel_frame)
  next
    case (SvClose i)
    then show "server_inv (server_do op s)" using inv acc conn_close_ok [OF ok] by (simp add: server_inv_def accept_channel_frame)
  qed
qed

interpretation sv: guarded_object server_step server_call_ok server_inv
  by unfold_locales (rule server_step_inv)

section \<open>Connections sit on loops of the pool\<close>

definition pool_inv :: "TcpServer \<Rightarrow> bool" where
  "pool_inv s \<longleftrightarrow> (\<forall>i\<in>snd ` set (connections s). i < length (conns s)
       \<and> (\<exists>p. thread_pool s = Some p \<and> conn_loop (conns s ! i) \<in> set (GetAllLoops p)))
     \<and> (accept_channel s \<longrightarrow> (\<exists>p. thread_pool s = Some p \<and> pool_started p \<and> (loops p = [] \<or> next_loop p < length (loops p))))"

text \<open>A step that leaves the pool and the loops of the connections alone and adds nothing to the table.\<close>

definition keeps_pool :: "TcpServer \<Rightarrow> TcpServer \<Rightarrow> bool" where
  "keeps_pool s s' \<longleftrightarrow> thread_pool s' = thread_pool s \<and> (accept_channel s' \<longrightarrow> accept_channel s) \<and> length (conns s') = length (conns s)
     \<and> set (connections s') \<subseteq> set (connections s) \<and> (\<forall>j. conn_loop (conns s' ! j) = conn_loop (conns s ! j))"

lemma keeps_pool_refl [simp]: "keeps_pool s s"
  by (simp add: keeps_pool_def)

lemma keeps_pool_trans: "keeps_pool s t \<Longrightarrow> keeps_pool t u \<Longrightarrow> keeps_pool s u"
  by (auto simp: keeps_pool_def)

lemma keeps_pool_inv: "pool_inv s \<Longrightarrow> keeps_pool s s' \<Longrightarrow> pool_inv s'"
  unfolding pool_inv_def keeps_pool_def by (intro conjI) (fastforce, simp)

lemma keeps_pool_fold: "(\<And>i s. keeps_pool s (f i s)) \<Longrightarrow> keeps_pool s (fold f is' s)"
proof (induction is' arbitrary: s)
  case (Cons i is')
  then show ?case using keeps_pool_trans [of s "f i s"] by simp
qed simp

lemma keeps_pool_set_conn:
  assumes "\<And>c. conn_loop (f c) = conn_loop c"
  shows "keeps_pool s (set_conn i f s)"
proof (cases "i < length (conns s)")
  case True
  with assms show ?thesis by (auto simp: keeps_pool_def set_conn_def nth_list_update)
qed (simp add: keeps_pool_def set_conn_def list_update_beyond)

lemma keeps_pool_parts:
  "keeps_pool s (push_io l g s)" "keeps_pool s (RemoveConnectionInLoop i s)" "keeps_pool s (RemoveConnection i s)"
  "keeps_pool s (conn_close i s)" "keeps_pool s (conn_ForceClose i s)" "keeps_pool s (Stop_one i s)"
  "keeps_pool s (run_io_functor now g s)"
proof -
  show pu: "keeps_pool s (push_io l g s)" for l g s by (simp add: keeps_pool_def push_io_def)
  show ri: "keeps_pool s (RemoveConnectionInLoop i s)" for i s
    by (auto simp: RemoveConnectionInLoop_def Let_def keeps_pool_def push_io_def)
  then show rc: "keeps_pool s (RemoveConnection i s)" for i s by (simp add: RemoveConnection_def) (simp add: keeps_pool_def)
  show cc: "keeps_pool s (conn_close i s)" for i s
    using keeps_pool_trans [OF keeps_pool_set_conn rc] by (simp add: conn_close_def)
  then show "keeps_pool s (conn_ForceClose i s)" by (simp add: conn_ForceClose_def pu)
  have cd: "keeps_pool s (conn_destroyed i s)" for i s unfolding conn_destroyed_def by (rule keeps_pool_set_conn) simp
  then show "keeps_pool s (Stop_one i s)" by (simp add: Stop_one_def pu)
  have "keeps_pool s (conn_established now i s)" for i unfolding conn_established_def by (rule keeps_pool_set_conn) simp
  moreover have "keeps_pool s (s'\<lparr>pending_cleanup := x\<rparr>)" if "keeps_pool s s'" for s' x using that by (simp add: keeps_pool_def)
  ultimately show "keeps_pool s (run_io_functor now g s)" using cd cc by (cases g) (simp_all add: Let_def)
qed

lemma keeps_pool_Stop: "keeps_pool s (Stop in_loop s)"
proof -
  have "keeps_pool s ((fold Stop_one cs s')\<lparr>pending_cleanup := x\<rparr>)" if "keeps_pool s s'" for cs s' x
    using keeps_pool_trans [OF that keeps_pool_fold [of Stop_one s' cs, OF keeps_pool_parts(6)]] by (simp add: keeps_pool_def)
  moreover have "keeps_pool s (s\<lparr>started := False, idle_check_timer := False, accept_channel := False, closed_total := n, connections := [],
      connection_count := 0\<rparr>)" for n by (simp add: keeps_pool_def)
  ultimately show ?thesis by (simp add: Stop_def Let_def)
qed

text \<open>The loop a new connection gets is one of the pool's.\<close>

lemma pick_loop_pool:
  assumes "pool_inv s" and "accept_channel s"
  obtains l p p' where "pick_loop s = (Some l, s\<lparr>thread_pool := Some p'\<rparr>)" "thread_pool s = Some p" "l \<in> set (GetAllLoops p')"
    "GetAllLoops p' = GetAllLoops p" "pool_started p'" "loops p' = [] \<or> next_loop p' < length (loops p')"
proof -
  from assms obtain p where p: "thread_pool s = Some p" "pool_started p" "loops p = [] \<or> next_loop p < length (loops p)"
    by (auto simp: pool_inv_def)
  then obtain l p' where l: "GetNextLoop p = (Some l, p')" "l \<in> set (GetAllLoops p')" "GetAllLoops p' = GetAllLoops p" "pool_started p'"
    "loops p' = [] \<or> next_loop p' < length (loops p')"
    by (cases "loops p = []") (auto simp: GetNextLoop_def GetAllLoops_def Let_def)
  with p(1) have "pick_loop s = (Some l, s\<lparr>thread_pool := Some p'\<rparr>)" by (simp add: pick_loop_def)
  with p(1) l(2-) that show thesis by blast
qed

lemma HandleAccept_one_pool:
  assumes inv: "pool_inv s" and acc: "accept_channel s"
  shows "pool_inv (HandleAccept_one now peer s) \<and> accept_channel (HandleAccept_one now peer s)"
proof -
  obtain l p p' where l: "pick_loop s = (Some l, s\<lparr>thread_pool := Some p'\<rparr>)" "thread_pool s = Some p" "l \<in> set (GetAllLoops p')"
    "GetAllLoops p' = GetAllLoops p" "pool_started p'" "loops p' = [] \<or> next_loop p' < length (loops p')"
    using pick_loop_pool [OF assms] .
  define c where "c = \<lparr>conn_name = fst (MakeConnectionName peer s), conn_loop = l, conn_state = kConnecting, last_read = now, established = 0, destroyed = 0\<rparr>"
  let ?t = "s\<lparr>thread_pool := Some p', conns := conns s @ [c], connections := (conn_name c, length (conns s)) # filter (\<lambda>x. fst x \<noteq> conn_name c) (connections s)\<rparr>"
  have loops: "conn_loop ((conns s @ [c]) ! i) \<in> set (GetAllLoops p') \<and> i < Suc (length (conns s))"
    if "i = length (conns s) \<or> i \<in> snd ` set (connections s)" for i
    using that inv l(2,3) unfolding l(4) by (auto simp: pool_inv_def nth_append c_def)
  have "\<forall>i\<in>snd ` set (connections ?t). i < length (conns ?t) \<and> conn_loop (conns ?t ! i) \<in> set (GetAllLoops p')"
  proof (intro ballI)
    fix i
    assume "i \<in> snd ` set (connections ?t)"
    then have "i = length (conns s) \<or> i \<in> snd ` set (connections s)" by auto
    then show "i < length (conns ?t) \<and> conn_loop (conns ?t ! i) \<in> set (GetAllLoops p')" using loops by simp
  qed
  then have t: "pool_inv ?t" using l(5,6) unfolding pool_inv_def by simp
  have "HandleAccept_one now peer s = HandleAccept_on now peer l (s\<lparr>thread_pool := Some p'\<rparr>)" by (simp add: HandleAccept_one_def l(1))
  moreover have "keeps_pool ?t (HandleAccept_on now peer l (s\<lparr>thread_pool := Some p'\<rparr>))"
    by (auto simp: HandleAccept_on_def MakeConnectionName_def Let_def c_def keeps_pool_def push_io_def conn_established_def set_conn_def
        nth_append nth_Cons split: nat.split)
  moreover have "accept_channel (HandleAccept_on now peer l (s\<lparr>thread_pool := Some p'\<rparr>))" using acc by (simp add: accept_channel_frame)
  ultimately show ?thesis using keeps_pool_inv [OF t] by simp
qed

lemma HandleAccept_pool: "pool_inv s \<Longrightarrow> accept_channel s \<Longrightarrow> pool_inv (HandleAccept now peers s)"
proof (induction peers arbitrary: s)
  case (Cons peer peers)
  then show ?case using HandleAccept_one_pool [of s now peer] by simp
qed simp

lemma Start_pool: "pool_inv s \<Longrightarrow> connections s = [] \<or> started s \<Longrightarrow> accept_channel s \<longrightarrow> started s \<Longrightarrow> pool_inv (snd (Start env s))"
  by (auto simp: Start_def Let_def pool_inv_def Pool_Start_def split: option.splits)

lemma server_step_pool:
  assumes inv: "server_inv s" and pool: "pool_inv s"
  shows "pool_inv (server_step s op)"
proof -
  have st: "\<not> started s \<longrightarrow> connections s = []" "pending_cleanup s \<noteq> None \<longrightarrow> \<not> started s" "accept_channel s \<longrightarrow> started s"
    using inv by (simp_all add: server_inv_def server_ok_def stop_inv_def)
  have keep: "keeps_pool s s' \<Longrightarrow> pool_inv s'" for s' using keeps_pool_inv [OF pool] .
  have shrink: "keeps_pool (s\<lparr>base_functors := x\<rparr>) s' \<Longrightarrow> keeps_pool s s'" "keeps_pool (s\<lparr>io_functors := y\<rparr>) s' \<Longrightarrow> keeps_pool s s'" for x y s'
    by (simp_all add: keeps_pool_def)
  show ?thesis
    unfolding server_step_def
  proof (cases op)
    case (SvStart env)
    then show "pool_inv (server_do op s)" using Start_pool [OF pool, of env] st pool by auto
  next
    case (SvStop in_loop)
    then show "pool_inv (server_do op s)" using keep [OF keeps_pool_Stop] pool by simp
  next
    case SvStopFinish
    then show "pool_inv (server_do op s)" using st pool by (auto simp: Stop_finish_def pool_inv_def)
  next
    case (SvSetIdleTimeout t c)
    then show "pool_inv (server_do op s)" using pool keep by (auto simp: SetIdleTimeout_def keeps_pool_def)
  next
    case (SvAccept now peers)
    then show "pool_inv (server_do op s)" using HandleAccept_pool [OF pool] pool by simp
  next
    case (SvIdleCheck now)
    then show "pool_inv (server_do op s)"
      using keep [OF keeps_pool_fold [of conn_ForceClose s, OF keeps_pool_parts(5)]] pool by (simp add: CheckIdleConnections_def)
  next
    case SvBaseFunctor
    then show "pool_inv (server_do op s)" using pool keep [OF shrink(1) [OF keeps_pool_parts(2)]] by (simp split: list.split)
  next
    case (SvIoFunctor now l)
    then show "pool_inv (server_do op s)" using pool keep [OF shrink(2) [OF keeps_pool_parts(7)]] by (simp split: list.split)
  next
    case (SvRead now i)
    then show "pool_inv (server_do op s)" using pool keep [OF keeps_pool_set_conn [of "\<lambda>c. c\<lparr>last_read := now\<rparr>"]] by simp
  next
    case (SvShutdown i)
    then show "pool_inv (server_do op s)" using pool keep [OF keeps_pool_set_conn [of "\<lambda>c. c\<lparr>conn_state := kDisconnecting\<rparr>"]] by simp
  next
    case (SvClose i)
    then show "pool_inv (server_do op s)" using pool keep [OF keeps_pool_parts(4)] by simp
  qed
qed

interpretation sp: guarded_object server_step server_call_ok "\<lambda>s. server_inv s \<and> pool_inv s"
  by unfold_locales (simp add: server_step_inv server_step_pool)

lemma server_run_pool:
  assumes "ok_run server_call_ok server_step (TcpServer_new name) ops"
  shows "pool_inv (run_ops server_step (TcpServer_new name) ops)"
  using sp.run_invar [OF _ assms] server_ok_new [of name] by (simp add: server_inv_def TcpServer_new_def pool_inv_def)

lemma server_run_ok:
  assumes "ok_run server_call_ok server_step (TcpServer_new name) ops"
  shows "server_inv (run_ops server_step (TcpServer_new name) ops)"
  using sv.run_invar [OF _ assms] server_ok_new [of name] by (simp add: server_inv_def TcpServer_new_def)

section \<open>Properties\<close>

lemma distinct_names:
  assumes "table_inv n cs tab"
  shows "distinct (map conn_name cs)"
  unfolding distinct_conv_nth using table_lookup(2) [OF assms] by (auto simp: nth_eq_iff_index_eq)

text \<open>C39: The server's books are exact in every run, as long as fewer than \<open>2 ^ 64\<close> connections are accepted: the published
  connection count is the size of the table and at most the published peak, and the accepted connections are the closed ones and
  the live ones. No two connections ever accepted have the same name, and the table maps the name of a connection to
  that connection, which was placed on one of the loops of the server's pool (the base loop when the pool has no threads).\<close>

theorem server_books_exact:
  assumes "ok_run server_call_ok server_step (TcpServer_new name) ops"
  defines "s \<equiv> run_ops server_step (TcpServer_new name) ops"
  shows "connection_count s = length (connections s) \<and> connection_count s \<le> peak_connection_count s
     \<and> unat (accepted_total s) = length (conns s) \<and> unat (accepted_total s) = unat (closed_total s) + connection_count s
     \<and> distinct (map conn_name (conns s)) \<and> distinct (map fst (connections s))
     \<and> (\<forall>(n, i)\<in>set (connections s). i < length (conns s) \<and> conn_name (conns s ! i) = n
          \<and> (\<exists>p. thread_pool s = Some p \<and> conn_loop (conns s ! i) \<in> set (GetAllLoops p)))"
proof -
  have ok: "server_ok s" using server_run_ok [OF assms(1)] by (simp add: s_def server_inv_def)
  then have tab: "table_inv (server_name s) (conns s) (connections s)" by (simp add: server_ok_def)
  have "map fst (connections s) = map (\<lambda>i. conn_name (conns s ! i)) (map snd (connections s))"
    using tab by (force simp: table_inv_def)
  moreover have "inj_on (\<lambda>i. conn_name (conns s ! i)) (set (map snd (connections s)))"
  proof (rule inj_onI)
    fix i j
    assume ij: "i \<in> set (map snd (connections s))" "j \<in> set (map snd (connections s))" "conn_name (conns s ! i) = conn_name (conns s ! j)"
    then have "i < length (conns s)" "j < length (conns s)" using tab by (auto simp: table_inv_def)
    with ij(3) show "i = j" using table_lookup(2) [OF tab, of j i] by auto
  qed
  moreover have "distinct (map snd (connections s))" using tab by (simp add: table_inv_def)
  ultimately have "distinct (map fst (connections s))" by (metis distinct_map)
  moreover have "counters_inv s" using ok by (simp add: server_ok_def)
  moreover have "\<forall>(n, i)\<in>set (connections s). i < length (conns s) \<and> conn_name (conns s ! i) = n
      \<and> (\<exists>p. thread_pool s = Some p \<and> conn_loop (conns s ! i) \<in> set (GetAllLoops p))"
    using tab server_run_pool [OF assms(1)] by (fastforce simp: table_inv_def pool_inv_def s_def)
  ultimately show ?thesis using distinct_names [OF tab] by (simp add: counters_inv_def)
qed

definition start_env :: "bool list \<Rightarrow> StartEnv" where
  "start_env threads = \<lparr>loop_usable = True, in_base_loop = True, address_valid = True, create_ok = True, reuse_ok = True, bind_ok = True,
     listen_ok = True, threads_ok = threads, timer_ok = True\<rparr>"

text \<open>Two connections are accepted on two loops; the first closes and is removed; the server stops.\<close>

definition server_demo :: "ServerOp list" where
  "server_demo = [SvStart (start_env [True, True]), SvAccept 5 [''a'', ''b''], SvIoFunctor 6 1, SvClose 0, SvBaseFunctor, SvStop True]"

lemma to_string_small: "to_string (Suc 0) = ''1''" "to_string 2 = ''2''"
  by (subst to_string.simps, code_simp)+

lemmas server_eval = server_step_def base_free_def Start_def start_env_def Pool_Start_def Let_def TcpServer_new_def HandleAccept_one_def pick_loop_def
  GetNextLoop_def HandleAccept_on_def MakeConnectionName_def push_io_def conn_established_def conn_destroyed_def set_conn_def
  conn_close_def RemoveConnection_def RemoveConnectionInLoop_def Stop_def Stop_one_def Stop_finish_def
  to_string_small

lemma server_demo_ok: "ok_run server_call_ok server_step (TcpServer_new ''s'') server_demo"
  by (simp add: server_demo_def server_eval)

theorem server_books_exact_witness:
  "unat (accepted_total (run_ops server_step (TcpServer_new ''s'') server_demo))
     = unat (closed_total (run_ops server_step (TcpServer_new ''s'') server_demo)) + connection_count (run_ops server_step (TcpServer_new ''s'') server_demo)
   \<and> (let s = run_ops server_step (TcpServer_new ''s'') (take 2 server_demo)
      in connection_count s = 2 \<and> (\<exists>p. thread_pool s = Some p \<and> conn_loop (conns s ! 1) \<in> set (GetAllLoops p)))"
proof -
  have two: "ok_run server_call_ok server_step (TcpServer_new ''s'') (take 2 server_demo)" by (simp add: server_demo_def server_eval)
  have "connection_count (run_ops server_step (TcpServer_new ''s'') (take 2 server_demo)) = 2"
    "1 \<in> snd ` set (connections (run_ops server_step (TcpServer_new ''s'') (take 2 server_demo)))"
    by (simp_all add: server_demo_def server_eval)
  with server_books_exact [OF server_demo_ok] server_books_exact [OF two] show ?thesis unfolding Let_def by fastforce
qed

text \<open>In every run each accepted connection is established at most once and destroyed at most once, and never destroyed before it
  was established; a destroyed connection is closed and no longer in the table, and a connection of the table is
  neither destroyed nor waiting to be.\<close>

theorem connection_destroyed_once:
  assumes "ok_run server_call_ok server_step (TcpServer_new name) ops"
    and "i < length (conns (run_ops server_step (TcpServer_new name) ops))"
  defines "s \<equiv> run_ops server_step (TcpServer_new name) ops"
  shows "established (conns s ! i) \<le> 1 \<and> destroyed (conns s ! i) \<le> established (conns s ! i)
     \<and> (destroyed (conns s ! i) = 1 \<longrightarrow> conn_state (conns s ! i) = kDisconnected \<and> i \<notin> snd ` set (connections s))
     \<and> (i \<in> snd ` set (connections s) \<longrightarrow> destroyed (conns s ! i) = 0
          \<and> FnDestroy i \<notin> set (conn_fs s i) \<and> FnDestroyAndSignal i \<notin> set (conn_fs s i))"
proof -
  have "conn_life s i" using server_run_ok [OF assms(1)] assms(2) by (simp add: s_def server_inv_def server_ok_def)
  then show ?thesis by (auto simp: conn_life_def life_ok_def)
qed

theorem connection_destroyed_once_witness:
  "established (conns (run_ops server_step (TcpServer_new ''s'') server_demo) ! 0) = 1
     \<and> destroyed (conns (run_ops server_step (TcpServer_new ''s'') server_demo) ! 0) \<le> 1"
proof -
  have "0 < length (conns (run_ops server_step (TcpServer_new ''s'') server_demo))"
    "established (conns (run_ops server_step (TcpServer_new ''s'') server_demo) ! 0) = 1"
    by (simp_all add: server_demo_def server_eval)
  then show ?thesis using connection_destroyed_once [OF server_demo_ok, of 0] by simp
qed

text \<open>While \<open>Stop\<close> waits, the connections it has taken are destroyed or their loops will do it.\<close>

definition taken_care :: "nat set \<Rightarrow> TcpServer \<Rightarrow> bool" where
  "taken_care I s \<longleftrightarrow> pending_cleanup s \<noteq> None
     \<and> (\<forall>i\<in>I. i < length (conns s) \<and> (destroyed (conns s ! i) = 0 \<longrightarrow> FnDestroyAndSignal i \<in> set (io_functors s (conn_loop (conns s ! i)))))"

lemma io_effect:
  assumes "\<not> started u" and "functor_conn f < length (conns u)"
  shows "length (conns (run_io_functor now f u)) = length (conns u)" "io_functors (run_io_functor now f u) = io_functors u"
    "conn_loop (conns (run_io_functor now f u) ! i) = conn_loop (conns u ! i)"
    "destroyed (conns (run_io_functor now f u) ! i) = destroyed (conns u ! i) + (if f = FnDestroy i \<or> f = FnDestroyAndSignal i then 1 else 0)"
    "pending_cleanup (run_io_functor now f u) = None \<longleftrightarrow> pending_cleanup u = None"
  using assms by (cases f; simp add: conn_established_def conn_destroyed_def conn_close_def RemoveConnection_def Let_def)+

lemma taken_care_step:
  assumes inv: "server_inv s" and t: "taken_care I s" and op: "op \<noteq> SvStopFinish"
  shows "taken_care I (server_step s op)"
proof -
  have busy: "\<not> base_free s" and ns: "\<not> started s"
    using t inv by (auto simp: taken_care_def base_free_def server_inv_def server_ok_def stop_inv_def)
  have close: "taken_care I (conn_close i u)" if "taken_care I u" "\<not> started u" "i < length (conns u)" for i u
    using that by (auto simp: taken_care_def conn_close_def RemoveConnection_def)
  show ?thesis
  proof (cases op)
    case (SvIoFunctor now l)
    show ?thesis
    proof (cases "l \<noteq> 0 \<and> io_functors s l \<noteq> []")
      case True
      then obtain f fs where f: "io_functors s l = f # fs" by (cases "io_functors s l") auto
      let ?u = "s\<lparr>io_functors := (io_functors s)(l := fs)\<rparr>"
      have ok: "server_ok s" using inv by (simp add: server_inv_def)
      have fc: "functor_conn f < length (conns s)" by (rule popped_fs(1) [OF ok f])
      have "taken_care I (run_io_functor now f ?u)"
        using t io_effect [of ?u f now] fc ns f by (auto simp: taken_care_def)
      with True f SvIoFunctor show ?thesis by (simp add: server_step_def)
    qed (use SvIoFunctor t busy in \<open>auto simp: server_step_def\<close>)
  next
    case (SvClose i)
    with close [OF t ns] t show ?thesis by (auto simp: server_step_def)
  qed (use t busy op in \<open>auto simp: server_step_def taken_care_def\<close>)
qed

lemma Stop_taken_care:
  assumes "server_inv s" and "started s" and "pending_cleanup s = None"
  shows "taken_care (snd ` set (connections s)) (server_step s (SvStop True))"
proof -
  let ?u = "server_step s (SvStop True)"
  define s1 where "s1 = s\<lparr>started := False, idle_check_timer := False, accept_channel := False,
    closed_total := closed_total s + of_nat (length (connections s)), connections := [], connection_count := 0\<rparr>"
  define cs where "cs = map snd (connections s)"
  have tab: "table_inv (server_name s) (conns s) (connections s)" using assms(1) by (simp add: server_inv_def server_ok_def)
  have u: "?u = (fold Stop_one cs s1)\<lparr>pending_cleanup := Some (length (filter (\<lambda>i. conn_loop (conns s ! i) \<noteq> 0) cs))\<rparr>"
    using assms(2,3) by (simp add: server_step_def base_free_def Stop_def Let_def s1_def cs_def)
  have d: "distinct cs" and lt: "\<forall>i\<in>set cs. i < length (conns s1)" using tab by (force simp: cs_def s1_def table_inv_def)+
  note F = Stop_fold [OF d lt]
  have "destroyed (conns ?u ! i) = 0 \<longrightarrow> FnDestroyAndSignal i \<in> set (io_functors ?u (conn_loop (conns ?u ! i)))" if "i \<in> set cs" for i
    using F that lt by (simp add: u)
  with lt F show ?thesis by (simp add: taken_care_def u cs_def)
qed

text \<open>Stopping the server ends and is complete. While \<open>Stop\<close> waits for connections of other loops, one of these loops has a
  functor to run (so the wait is not a deadlock), and when the wait is over, every connection that was in the
  table when \<open>Stop\<close> was called has been destroyed, whatever the loops and connections did in the meantime.\<close>

theorem stop_destroys_connections:
  assumes "ok_run server_call_ok server_step (TcpServer_new name) (ops @ SvStop True # later)"
    and "started (run_ops server_step (TcpServer_new name) ops)" and "pending_cleanup (run_ops server_step (TcpServer_new name) ops) = None"
    and "list_all (\<lambda>op. op \<noteq> SvStopFinish) later"
    and "(n, i) \<in> set (connections (run_ops server_step (TcpServer_new name) ops))"
  defines "t \<equiv> run_ops server_step (TcpServer_new name) (ops @ SvStop True # later)"
  shows "(pending_cleanup t = Some 0 \<longrightarrow> destroyed (conns t ! i) = 1) \<and> (\<exists>k. pending_cleanup t = Some k)
     \<and> (\<forall>k. pending_cleanup t = Some (Suc k) \<longrightarrow> (\<exists>l\<noteq>0. io_functors t l \<noteq> []))"
proof -
  let ?s = "run_ops server_step (TcpServer_new name) ops"
  have inv: "server_inv ?s" using assms(1) by (intro server_run_ok) simp
  let ?u = "server_step ?s (SvStop True)"
  have u: "server_inv ?u" using inv by (intro server_step_inv) simp_all
  let ?I = "snd ` set (connections ?s)"
  have "taken_care ?I ?u" by (rule Stop_taken_care [OF inv assms(2,3)])
  then have care: "taken_care ?I (run_ops server_step ?u later)"
    by (rule sv.run_keeps [where Q = "\<lambda>op. op \<noteq> SvStopFinish", rotated 4, OF _])
      (use u assms(1,4) taken_care_step in auto)
  have t: "t = run_ops server_step ?u later" by (simp add: t_def)
  have ok: "server_ok t" using server_run_ok [OF assms(1)] by (simp add: t_def server_inv_def)
  have i: "i \<in> ?I" using assms(5) by (metis snd_conv image_eqI)
  have ilt: "i < length (conns t)" and sig: "destroyed (conns t ! i) = 0 \<longrightarrow> FnDestroyAndSignal i \<in> set (conn_fs t i)"
    using care i by (auto simp: taken_care_def t conn_fs_def life_functors_def)
  have life: "conn_life t i" using ok ilt by (simp add: server_ok_def)
  have "destroyed (conns t ! i) = 1" if "pending_cleanup t = Some 0"
  proof -
    have "signals t = 0" using ok that by (simp add: server_ok_def stop_inv_def)
    then have "count_list (conn_fs t i) (FnDestroyAndSignal i) = 0" using ilt by (simp add: signals_def)
    with sig have "destroyed (conns t ! i) \<noteq> 0" by (simp add: count_list_0_iff)
    with life show ?thesis by (auto simp: conn_life_def life_ok_def)
  qed
  moreover have "\<exists>l\<noteq>0. io_functors t l \<noteq> []" if "pending_cleanup t = Some (Suc k)" for k
  proof -
    have "signals t \<noteq> 0" using ok that by (simp add: server_ok_def stop_inv_def)
    then obtain j where "j < length (conns t)" "count_list (conn_fs t j) (FnDestroyAndSignal j) \<noteq> 0" by (auto simp: signals_def)
    then have j: "FnDestroyAndSignal j \<in> set (io_functors t (conn_loop (conns t ! j)))"
      by (auto simp: count_list_0_iff conn_fs_def life_functors_def)
    moreover have "FnDestroyAndSignal j \<notin> set (io_functors t 0)" using ok by (simp add: server_ok_def placed_inv_def)
    ultimately show ?thesis by (metis empty_iff empty_set)
  qed
  ultimately show ?thesis using care by (auto simp: taken_care_def t)
qed

text \<open>Two connections on two loops, both established, then \<open>Stop\<close> and what the loops do.\<close>

definition stop_demo :: "ServerOp list" where
  "stop_demo = [SvStart (start_env [True, True]), SvAccept 5 [''a'', ''b''], SvIoFunctor 6 1]"

theorem stop_destroys_connections_witness:
  "pending_cleanup (run_ops server_step (TcpServer_new ''s'') (stop_demo @ SvStop True # [SvIoFunctor 7 1, SvIoFunctor 7 2, SvIoFunctor 8 2])) = Some 0
     \<and> destroyed (conns (run_ops server_step (TcpServer_new ''s'') (stop_demo @ SvStop True # [SvIoFunctor 7 1, SvIoFunctor 7 2, SvIoFunctor 8 2])) ! 0) = 1"
proof -
  let ?later = "[SvIoFunctor 7 1, SvIoFunctor 7 2, SvIoFunctor 8 2]"
  have "ok_run server_call_ok server_step (TcpServer_new ''s'') (stop_demo @ SvStop True # ?later)"
    "started (run_ops server_step (TcpServer_new ''s'') stop_demo)" "pending_cleanup (run_ops server_step (TcpServer_new ''s'') stop_demo) = None"
    "(''s-conn-1-a'', 0) \<in> set (connections (run_ops server_step (TcpServer_new ''s'') stop_demo))"
    "pending_cleanup (run_ops server_step (TcpServer_new ''s'') (stop_demo @ SvStop True # ?later)) = Some 0"
    by (simp_all add: stop_demo_def server_eval)
  with stop_destroys_connections [of "''s''" stop_demo ?later "''s-conn-1-a''" 0] show ?thesis by simp
qed

text \<open>A connection that was removed from the table just before the server stops may never be destroyed. \<open>RemoveConnectionInLoop\<close>
  leaves \<open>ConnectDestroyed\<close> to the connection's loop, but \<open>Stop\<close> waits only for the connections still in the table and then
  ends the threads of the pool; a functor still queued there does not run any more, so that the connection
  callback never reports the end of the connection.\<close>

theorem stop_can_forget_removed_connection:
  assumes "ok_run server_call_ok server_step (TcpServer_new name) ops"
  defines "s \<equiv> run_ops server_step (TcpServer_new name) ops"
  assumes "started s" and "pending_cleanup s = None" and "connections s = []" and "i < length (conns s)" and "conn_loop (conns s ! i) \<noteq> 0"
    and "FnDestroy i \<in> set (conn_fs s i)"
  shows "thread_pool (run_ops server_step s [SvStop True, SvStopFinish]) = None
     \<and> established (conns (run_ops server_step s [SvStop True, SvStopFinish]) ! i) = 1
     \<and> destroyed (conns (run_ops server_step s [SvStop True, SvStopFinish]) ! i) = 0
     \<and> conn_fs (run_ops server_step s [SvStop True, SvStopFinish]) i = []"
proof -
  have "conn_life s i" using server_run_ok [OF assms(1)] assms(6) by (simp add: s_def server_inv_def server_ok_def)
  with assms(8) have "established (conns s ! i) = 1" "destroyed (conns s ! i) = 0" by (auto simp: conn_life_def life_ok_def)
  with assms(3-7) show ?thesis
    by (simp add: server_step_def base_free_def Stop_def Stop_finish_def Let_def conn_fs_def)
qed

theorem stop_can_forget_removed_connection_witness:
  "destroyed (conns (run_ops server_step (TcpServer_new ''s'')
     ([SvStart (start_env [True]), SvAccept 5 [''a''], SvIoFunctor 6 1, SvClose 0, SvBaseFunctor] @ [SvStop True, SvStopFinish])) ! 0) = 0"
proof -
  let ?ops = "[SvStart (start_env [True]), SvAccept 5 [''a''], SvIoFunctor 6 1, SvClose 0, SvBaseFunctor]"
  let ?s = "run_ops server_step (TcpServer_new ''s'') ?ops"
  have "ok_run server_call_ok server_step (TcpServer_new ''s'') ?ops" "started ?s" "pending_cleanup ?s = None" "connections ?s = []"
    "0 < length (conns ?s)" "conn_loop (conns ?s ! 0) \<noteq> 0" "FnDestroy 0 \<in> set (conn_fs ?s 0)"
    by (simp_all add: server_eval conn_fs_def)
  from stop_can_forget_removed_connection [OF this] show ?thesis by (simp only: run_ops_append)
qed

text \<open>The idle check.\<close>

lemma conn_close_state:
  assumes "i < length (conns s)"
  shows "conn_state (conns (conn_close i s) ! j) = (if j = i \<and> (conn_state (conns s ! i) = kConnected \<or> conn_state (conns s ! i) = kDisconnecting)
       then kDisconnected else conn_state (conns s ! j))"
    and "conn_loop (conns (conn_close i s) ! j) = conn_loop (conns s ! j)" and "length (conns (conn_close i s)) = length (conns s)"
    and "set (io_functors s l) \<subseteq> set (io_functors (conn_close i s) l)"
  using assms by (auto simp: conn_close_def RemoveConnection_def RemoveConnectionInLoop_def Let_def)

lemma ForceClose_fold:
  assumes "\<forall>i\<in>set is'. i < length (conns s)"
  defines "t \<equiv> fold conn_ForceClose is' s"
  shows "(\<forall>j. conn_loop (conns t ! j) = conn_loop (conns s ! j) \<and>
       conn_state (conns t ! j) = (if j \<in> set is' \<and> conn_loop (conns s ! j) = 0 \<and> (conn_state (conns s ! j) = kConnected \<or> conn_state (conns s ! j) = kDisconnecting)
         then kDisconnected else conn_state (conns s ! j)))
     \<and> (\<forall>j\<in>set is'. conn_loop (conns s ! j) \<noteq> 0 \<longrightarrow> FnForceClose j \<in> set (io_functors t (conn_loop (conns s ! j))))
     \<and> (\<forall>l. set (io_functors s l) \<subseteq> set (io_functors t l))"
  unfolding t_def using assms(1)
proof (induction is' arbitrary: s)
  case (Cons i is')
  let ?s = "conn_ForceClose i s"
  have i: "i < length (conns s)" using Cons.prems by simp
  have len: "length (conns ?s) = length (conns s)" using conn_close_state(3) [OF i] by (simp add: conn_ForceClose_def)
  have loop: "conn_loop (conns ?s ! j) = conn_loop (conns s ! j)" for j using conn_close_state(2) [OF i] by (simp add: conn_ForceClose_def)
  have st: "conn_state (conns ?s ! j) = (if j = i \<and> conn_loop (conns s ! j) = 0 \<and> (conn_state (conns s ! j) = kConnected \<or> conn_state (conns s ! j) = kDisconnecting)
      then kDisconnected else conn_state (conns s ! j))" for j
    using conn_close_state(1) [OF i, of j] by (auto simp: conn_ForceClose_def)
  have io: "set (io_functors s l) \<subseteq> set (io_functors ?s l)" for l
    using conn_close_state(4) [OF i, of l] by (auto simp: conn_ForceClose_def)
  have new: "conn_loop (conns s ! i) \<noteq> 0 \<longrightarrow> FnForceClose i \<in> set (io_functors ?s (conn_loop (conns s ! i)))"
    by (simp add: conn_ForceClose_def)
  have "\<forall>j\<in>set is'. j < length (conns ?s)" using Cons.prems len by simp
  note IH = Cons.IH [OF this]
  have sub: "set (io_functors ?s l) \<subseteq> set (io_functors (fold conn_ForceClose is' ?s) l)" for l using IH by blast
  show ?case
    unfolding fold_simps o_apply
  proof (intro conjI allI ballI)
    fix j
    show "conn_loop (conns (fold conn_ForceClose is' ?s) ! j) = conn_loop (conns s ! j)" using IH loop by simp
    show "conn_state (conns (fold conn_ForceClose is' ?s) ! j) = (if j \<in> set (i # is') \<and> conn_loop (conns s ! j) = 0
        \<and> (conn_state (conns s ! j) = kConnected \<or> conn_state (conns s ! j) = kDisconnecting) then kDisconnected else conn_state (conns s ! j))"
      using IH loop st by auto
  next
    fix j
    assume "j \<in> set (i # is')"
    then show "conn_loop (conns s ! j) \<noteq> 0 \<longrightarrow> FnForceClose j \<in> set (io_functors (fold conn_ForceClose is' ?s) (conn_loop (conns s ! j)))"
      using IH loop new sub by (cases "j = i") auto
  next
    fix l
    show "set (io_functors s l) \<subseteq> set (io_functors (fold conn_ForceClose is' ?s) l)" using io sub by blast
  qed
qed simp

text \<open>The idle check of a started server closes exactly the connections of the table that are connected and have read nothing
  for the timeout: those of the base loop are closed on return, the others have a force close queued on
  their loop. The state of every other connection is left alone.\<close>

theorem idle_check_exact:
  fixes now :: int
  assumes "ok_run server_call_ok server_step (TcpServer_new name) ops"
  defines "s \<equiv> run_ops server_step (TcpServer_new name) ops"
  defines "t \<equiv> CheckIdleConnections now s"
  defines "idle \<equiv> (\<lambda>i. i \<in> snd ` set (connections s) \<and> conn_state (conns s ! i) = kConnected
             \<and> duration_ms (now - last_read (conns s ! i)) \<ge> idle_timeout s)"
  assumes "started s" and "idle_timeout s > 0"
  shows "conn_state (conns t ! i) = (if idle i \<and> conn_loop (conns s ! i) = 0 then kDisconnected else conn_state (conns s ! i))
     \<and> (idle i \<and> conn_loop (conns s ! i) \<noteq> 0 \<longrightarrow> FnForceClose i \<in> set (io_functors t (conn_loop (conns s ! i))))"
proof -
  have tab: "table_inv (server_name s) (conns s) (connections s)"
    using server_run_ok [OF assms(1)] by (simp add: s_def server_inv_def server_ok_def)
  have mem: "i \<in> set (idle_connections now s) \<longleftrightarrow> idle i" for i by (auto simp: idle_connections_def idle_def)
  have lt: "\<forall>i\<in>set (idle_connections now s). i < length (conns s)" using tab by (force simp: mem idle_def table_inv_def)
  have t: "t = fold conn_ForceClose (idle_connections now s) s" using assms(5,6) by (simp add: t_def CheckIdleConnections_def)
  note F = ForceClose_fold [OF lt, folded t]
  have "conn_state (conns s ! i) = kConnected" if "idle i" using that by (simp add: idle_def)
  with F mem [of i] show ?thesis by auto
qed

theorem idle_check_exact_witness:
  "conn_state (conns (CheckIdleConnections 3000000 (run_ops server_step (TcpServer_new ''s'')
     [SvSetIdleTimeout 2 1, SvStart (start_env []), SvAccept 0 [''a'']])) ! 0) = kDisconnected"
proof -
  let ?ops = "[SvSetIdleTimeout 2 1, SvStart (start_env []), SvAccept 0 [''a'']]"
  let ?s = "run_ops server_step (TcpServer_new ''s'') ?ops"
  have "ok_run server_call_ok server_step (TcpServer_new ''s'') ?ops" "started ?s" "idle_timeout ?s > 0"
    and idle: "0 \<in> snd ` set (connections ?s) \<and> conn_state (conns ?s ! 0) = kConnected
      \<and> duration_ms (3000000 - last_read (conns ?s ! 0)) \<ge> idle_timeout ?s" "conn_loop (conns ?s ! 0) = 0"
    by (simp_all add: server_eval SetIdleTimeout_def duration_ms_def)
  from idle_check_exact [OF this(1-3), of 3000000 0] idle show ?thesis by simp
qed

text \<open>Consecutive calls of \<open>GetNextLoop\<close>.\<close>

primrec get_loops :: "nat \<Rightarrow> EventLoopThreadPool \<Rightarrow> nat option list" where
  "get_loops 0 p = []"
| "get_loops (Suc k) p = fst (GetNextLoop p) # get_loops k (snd (GetNextLoop p))"

lemma GetNextLoop_turn:
  assumes "pool_started p" and "next_loop p < length (loops p)"
  shows "fst (GetNextLoop p) = Some (loops p ! next_loop p)" and "loops (snd (GetNextLoop p)) = loops p"
    and "next_loop (snd (GetNextLoop p)) = (next_loop p + 1) mod length (loops p)" and "pool_started (snd (GetNextLoop p))"
proof -
  have "loops p \<noteq> []" using assms(2) by auto
  moreover have "(next_loop p + 1) mod length (loops p) = (if next_loop p + 1 \<ge> length (loops p) then 0 else next_loop p + 1)"
  proof (cases "next_loop p + 1 = length (loops p)")
    case True
    then show ?thesis by simp
  next
    case False
    then have "next_loop p + 1 < length (loops p)" using assms(2) by simp
    then show ?thesis by simp
  qed
  ultimately show "fst (GetNextLoop p) = Some (loops p ! next_loop p)" "loops (snd (GetNextLoop p)) = loops p"
    "next_loop (snd (GetNextLoop p)) = (next_loop p + 1) mod length (loops p)" "pool_started (snd (GetNextLoop p))"
    using assms(1) by (simp_all add: GetNextLoop_def Let_def)
qed

lemma get_loops_eq:
  "\<lbrakk>pool_started p; next_loop p < length (loops p)\<rbrakk> \<Longrightarrow>
     get_loops k p = map (\<lambda>j. Some (loops p ! ((next_loop p + j) mod length (loops p)))) [0..<k]"
proof (induction k arbitrary: p)
  case (Suc k)
  note turn = GetNextLoop_turn [OF Suc.prems]
  have "0 < length (loops p)" using Suc.prems(2) by (rule le_less_trans [rotated]) simp
  then have "next_loop (snd (GetNextLoop p)) < length (loops (snd (GetNextLoop p)))" using turn by simp
  from Suc.IH [OF turn(4) this] have IH: "get_loops k (snd (GetNextLoop p))
      = map (\<lambda>j. Some (loops p ! ((next_loop p + Suc j) mod length (loops p)))) [0..<k]"
    using turn by (simp add: mod_add_left_eq)
  have "[0..<Suc k] = 0 # map Suc [0..<k]" by (simp add: map_Suc_upt upt_conv_Cons del: upt_Suc)
  with IH turn(1) Suc.prems show ?case by (simp del: upt_Suc add: o_def)
qed simp

text \<open>The pool hands out its loops in turn: any round of as many calls as there are loops returns each of them once.\<close>

theorem loops_round_robin:
  assumes "pool_started p" and "next_loop p < length (loops p)"
  shows "get_loops (length (loops p)) p = map Some (rotate (next_loop p) (loops p))"
  unfolding get_loops_eq [OF assms]
proof (rule nth_equalityI)
  fix j
  assume "j < length (map (\<lambda>j. Some (loops p ! ((next_loop p + j) mod length (loops p)))) [0..<length (loops p)])"
  then show "map (\<lambda>j. Some (loops p ! ((next_loop p + j) mod length (loops p)))) [0..<length (loops p)] ! j
      = map Some (rotate (next_loop p) (loops p)) ! j"
    by (simp add: nth_rotate)
qed simp

theorem loops_round_robin_witness:
  "get_loops 3 \<lparr>loops = [1, 2, 3], next_loop = 2, pool_started = True\<rparr> = [Some 3, Some 1, Some 2]"
  using loops_round_robin [of "\<lparr>loops = [1, 2, 3], next_loop = 2, pool_started = True\<rparr>"] by (simp add: numeral_2_eq_2 numeral_3_eq_3)

text \<open>A server whose \<open>Start\<close> fails, at whatever point, is left as it was before: not started, not listening, without accept
  channel, pool or timer.\<close>

theorem failed_start_releases:
  assumes "\<not> fst (Start env s)" and "\<not> listening s" and "\<not> accept_channel s" and "thread_pool s = None" and "\<not> idle_check_timer s"
  shows "snd (Start env s) = s"
  using assms by (auto simp: Start_def Let_def split: if_splits prod.splits)

theorem failed_start_releases_witness:
  "snd (Start ((start_env [True, False])) (TcpServer_new ''s'')) = TcpServer_new ''s''"
  by (rule failed_start_releases) (simp_all add: server_eval)

end
