(* ===== verification/Tcp_Client.thy ===== *)
theory Tcp_Client
  imports Tcp_Connection
begin

text \<open>
  \<open>common/net/Connector.{h,cpp}\<close> and \<open>common/net/TcpClient.{h,cpp}\<close>: establishing one outgoing connection without blocking, with a
  timeout, and the client built on it.

  Descriptors are numbered in the order in which \<open>socket\<close> returned them, and a channel by the descriptor it watches.
  \<open>Start\<close> and \<open>Stop\<close> on another thread store the flag and hand a functor to the loop; between the two the functor is in
  \<open>transit\<close>. \<open>StartInLoop\<close> is cut between its checks and \<open>Connect\<close>, since the flag can change in between (\<open>starting\<close>). A channel that
  was removed is deleted by a functor; until then an event of the current batch can still reach it, and its callbacks are
  those of the connector. The results of \<open>socket\<close>, \<open>connect\<close>, \<open>getsockopt\<close> and \<open>getsockname\<close> are arguments. A cancelled timer does
  not fire (\<open>Timer_Queue\<close>), so the timeout happens only while \<open>timer\<close> holds.
\<close>

section \<open>Connector\<close>

datatype CFunctor = FnStartInLoop | FnStopInLoop | FnDeleteChannel nat

record Connector =
  address_ok :: bool
  timeout_positive :: bool
  new_connection_callback :: bool
  connect_error_callback :: bool
  connect_requested :: bool
  connecting :: bool
  socket :: "nat option"
  chan :: "nat option"
  timer :: bool
  starting :: bool
  cfunctors :: "CFunctor list"
  transit :: "CFunctor list"
  opened :: nat  \<comment> \<open>observation only: how many descriptors were created\<close>
  closed :: "nat list"  \<comment> \<open>observation only\<close>
  handed :: "nat list"  \<comment> \<open>observation only: given to the callback\<close>
  outcomes :: "(nat + int) list"  \<comment> \<open>observation only: the callbacks called\<close>
  starts :: nat  \<comment> \<open>observation only\<close>

definition Connector_new :: "bool \<Rightarrow> bool \<Rightarrow> Connector" where
  "Connector_new valid timeout = \<lparr>address_ok = valid, timeout_positive = timeout, new_connection_callback = True,
     connect_error_callback = True, connect_requested = False, connecting = False, socket = None, chan = None, timer = False,
     starting = False, cfunctors = [], transit = [], opened = 0, closed = [], handed = [], outcomes = [], starts = 0\<rparr>"

definition EIO :: int where "EIO = 5"
definition EBADF :: int where "EBADF = 9"
definition EINVAL :: int where "EINVAL = 22"
definition ECONNABORTED :: int where "ECONNABORTED = 103"
definition EISCONN :: int where "EISCONN = 106"
definition ETIMEDOUT :: int where "ETIMEDOUT = 110"
definition EALREADY :: int where "EALREADY = 114"
definition EINPROGRESS :: int where "EINPROGRESS = 115"

text \<open>\<open>Socket::Close\<close> and the move assignment of \<open>Socket\<close>.\<close>

definition close_socket :: "Connector \<Rightarrow> Connector" where
  "close_socket c = (case socket c of None \<Rightarrow> c | Some fd \<Rightarrow> c\<lparr>socket := None, closed := closed c @ [fd]\<rparr>)"

definition move_socket :: "nat \<Rightarrow> Connector \<Rightarrow> Connector" where
  "move_socket fd c = (close_socket c)\<lparr>socket := Some fd\<rparr>"

definition FailConnection :: "int \<Rightarrow> Connector \<Rightarrow> Connector" where
  "FailConnection error_number c =
     (let c = close_socket c;
          c = c\<lparr>connecting := False\<rparr>;
          should_notify = connect_requested c;
          c = c\<lparr>connect_requested := False\<rparr>
      in if connect_error_callback c \<and> should_notify then c\<lparr>outcomes := outcomes c @ [Inr error_number]\<rparr> else c)"

definition CompleteConnection :: "Connector \<Rightarrow> Connector" where
  "CompleteConnection c =
     (let c = c\<lparr>connecting := False\<rparr>;
          should_connect = connect_requested c;
          c = c\<lparr>connect_requested := False\<rparr>
      in if \<not> should_connect then close_socket c
         else case socket c of
           None \<Rightarrow> FailConnection EBADF c
         | Some socket_fd \<Rightarrow>
             let c = c\<lparr>socket := None\<rparr>
             in if new_connection_callback c
                then c\<lparr>handed := handed c @ [socket_fd], outcomes := outcomes c @ [Inl socket_fd]\<rparr>
                else c\<lparr>closed := closed c @ [socket_fd]\<rparr>)"

definition RemoveAndResetChannel :: "Connector \<Rightarrow> Connector" where
  "RemoveAndResetChannel c =
     (case chan c of None \<Rightarrow> c | Some old \<Rightarrow> c\<lparr>chan := None, cfunctors := cfunctors c @ [FnDeleteChannel old]\<rparr>)"

definition CancelConnectTimeout :: "Connector \<Rightarrow> Connector" where
  "CancelConnectTimeout c = (if \<not> timer c then c else c\<lparr>timer := False\<rparr>)"

definition StartConnectTimeout :: "Connector \<Rightarrow> Connector" where
  "StartConnectTimeout c = (if \<not> timeout_positive c then c else c\<lparr>timer := True\<rparr>)"

definition BeginWatchingConnect :: "nat \<Rightarrow> Connector \<Rightarrow> Connector" where
  "BeginWatchingConnect fd c = StartConnectTimeout ((move_socket fd c)\<lparr>connecting := True, chan := Some fd\<rparr>)"

text \<open>\<open>create\<close>: the errno of a failed \<open>socket\<close>; \<open>errno\<close> the outcome of \<open>connect\<close>, 0 for success.\<close>

definition Connect :: "int option \<Rightarrow> int \<Rightarrow> Connector \<Rightarrow> Connector" where
  "Connect create errno c =
     (case create of
        Some e \<Rightarrow> FailConnection (if e \<noteq> 0 then e else EIO) c
      | None \<Rightarrow>
          let fd = opened c; c = c\<lparr>opened := opened c + 1\<rparr> in
          if errno = 0 then CompleteConnection (move_socket fd c)
          else if errno = EINPROGRESS \<or> errno = EINTR \<or> errno = EALREADY then BeginWatchingConnect fd c
          else if errno = EISCONN then CompleteConnection (move_socket fd c)
          else FailConnection errno (c\<lparr>closed := closed c @ [fd]\<rparr>))"

definition StartInLoop :: "Connector \<Rightarrow> Connector" where
  "StartInLoop c =
     (if \<not> connect_requested c then c
      else if connecting c then c
      else if \<not> address_ok c then FailConnection EINVAL c
      else c\<lparr>starting := True\<rparr>)"

definition StopInLoop :: "Connector \<Rightarrow> Connector" where
  "StopInLoop c =
     (if \<not> connecting c then c
      else (close_socket (RemoveAndResetChannel (CancelConnectTimeout c)))\<lparr>connecting := False\<rparr>)"

definition Start :: "bool \<Rightarrow> Connector \<Rightarrow> Connector" where
  "Start in_loop c =
     (let c = c\<lparr>connect_requested := True, starts := starts c + 1\<rparr>
      in if in_loop then StartInLoop c else c\<lparr>transit := transit c @ [FnStartInLoop]\<rparr>)"

definition Stop :: "bool \<Rightarrow> Connector \<Rightarrow> Connector" where
  "Stop in_loop c =
     (let c = c\<lparr>connect_requested := False\<rparr>
      in if in_loop then StopInLoop c else c\<lparr>transit := transit c @ [FnStopInLoop]\<rparr>)"

definition GetSocketError :: "int \<Rightarrow> Connector \<Rightarrow> int" where
  "GetSocketError so_error c = (case socket c of None \<Rightarrow> EBADF | Some fd \<Rightarrow> so_error)"

definition HandleWrite :: "int \<Rightarrow> Connector \<Rightarrow> Connector" where
  "HandleWrite so_error c =
     (if \<not> connecting c then c
      else
        let error_number = GetSocketError so_error c;
            c = RemoveAndResetChannel (CancelConnectTimeout c)
        in if error_number \<noteq> 0 then FailConnection error_number c else CompleteConnection c)"

definition HandleError :: "int \<Rightarrow> Connector \<Rightarrow> Connector" where
  "HandleError so_error c =
     (if \<not> connecting c then c
      else
        let error_number = GetSocketError so_error c;
            error_number = (if error_number = 0 then ECONNABORTED else error_number)
        in FailConnection error_number (RemoveAndResetChannel (CancelConnectTimeout c)))"

definition HandleTimeout :: "Connector \<Rightarrow> Connector" where
  "HandleTimeout c =
     (let c = c\<lparr>timer := False\<rparr>
      in if \<not> connecting c then c else FailConnection ETIMEDOUT (RemoveAndResetChannel c))"

section \<open>Events of the connector\<close>

datatype CEvent =
    CeStart bool | CeStop bool | CeArrive nat | CeFunctor
  | CeConnect "int option" int
  | CeWritable nat int | CeErrorEvent nat int  \<comment> \<open>an event of a channel, the value of \<open>SO_ERROR\<close>\<close>
  | CeTimeout

fun run_cfunctor :: "CFunctor \<Rightarrow> Connector \<Rightarrow> Connector" where
  "run_cfunctor FnStartInLoop c = StartInLoop c"
| "run_cfunctor FnStopInLoop c = StopInLoop c"
| "run_cfunctor (FnDeleteChannel n) c = c"

text \<open>The channels that exist: the current one and those whose deletion is queued.\<close>

definition channel_exists :: "nat \<Rightarrow> Connector \<Rightarrow> bool" where
  "channel_exists n c \<longleftrightarrow> chan c = Some n \<or> FnDeleteChannel n \<in> set (cfunctors c)"

text \<open>While the loop thread is inside \<open>StartInLoop\<close> it does nothing else.\<close>

fun connector_do :: "CEvent \<Rightarrow> Connector \<Rightarrow> Connector" where
  "connector_do (CeStart in_loop) c = (if in_loop \<and> starting c then c else Start in_loop c)"
| "connector_do (CeStop in_loop) c = (if in_loop \<and> starting c then c else Stop in_loop c)"
| "connector_do (CeArrive n) c =
     (if n < length (transit c)
      then c\<lparr>cfunctors := cfunctors c @ [transit c ! n], transit := take n (transit c) @ drop (Suc n) (transit c)\<rparr> else c)"
| "connector_do CeFunctor c =
     (if starting c then c
      else case cfunctors c of [] \<Rightarrow> c | f # fs \<Rightarrow> run_cfunctor f (c\<lparr>cfunctors := fs\<rparr>))"
| "connector_do (CeConnect create errno) c = (if starting c then Connect create errno (c\<lparr>starting := False\<rparr>) else c)"
| "connector_do (CeWritable n so_error) c = (if \<not> starting c \<and> channel_exists n c then HandleWrite so_error c else c)"
| "connector_do (CeErrorEvent n so_error) c = (if \<not> starting c \<and> channel_exists n c then HandleError so_error c else c)"
| "connector_do CeTimeout c = (if \<not> starting c \<and> timer c then HandleTimeout c else c)"

definition connector_step :: "Connector \<Rightarrow> CEvent \<Rightarrow> Connector" where
  "connector_step c ev = connector_do ev c"

section \<open>TcpClient\<close>

text \<open>The client on its loop thread. A connection is named by its descriptor. What the connector's callbacks call is run
  by \<open>deliver\<close>.\<close>

datatype ClientNote = NoteConnected nat | NoteError int | NoteDestroyed nat

record TcpClient =
  connector :: Connector
  client_requested :: bool  \<comment> \<open>\<open>connect_requested_\<close> of the client\<close>
  connection :: "nat option"
  conn_states :: "nat \<rightharpoonup> ConnState"
  destroy_functors :: "nat list"
  client_closed :: "nat list"  \<comment> \<open>observation only: descriptors the client closed itself\<close>
  client_log :: "ClientNote list"  \<comment> \<open>observation only: the user's callbacks\<close>

definition TcpClient_new :: "bool \<Rightarrow> bool \<Rightarrow> TcpClient" where
  "TcpClient_new valid timeout = \<lparr>connector = Connector_new valid timeout, client_requested = False, connection = None,
     conn_states = Map.empty, destroy_functors = [], client_closed = [], client_log = []\<rparr>"

definition HandleConnectError :: "int \<Rightarrow> TcpClient \<Rightarrow> TcpClient" where
  "HandleConnectError error_number t = t\<lparr>client_requested := False, client_log := client_log t @ [NoteError error_number]\<rparr>"

text \<open>\<open>local_error\<close>: the errno of a failed \<open>getsockname\<close>.\<close>

definition NewConnection :: "int option \<Rightarrow> nat \<Rightarrow> TcpClient \<Rightarrow> TcpClient" where
  "NewConnection local_error socket_fd t =
     (if \<not> client_requested t then t\<lparr>client_closed := client_closed t @ [socket_fd]\<rparr>
      else case local_error of
        Some error_number \<Rightarrow> HandleConnectError error_number (t\<lparr>client_closed := client_closed t @ [socket_fd]\<rparr>)
      | None \<Rightarrow>
          t\<lparr>connection := Some socket_fd, conn_states := (conn_states t)(socket_fd \<mapsto> kConnected),
            client_log := client_log t @ [NoteConnected socket_fd]\<rparr>)"

definition client_IsConnected :: "TcpClient \<Rightarrow> bool" where
  "client_IsConnected t = (case connection t of None \<Rightarrow> False | Some fd \<Rightarrow> conn_states t fd = Some kConnected)"

text \<open>Run an event of the connector and deliver the callback it makes, if any.\<close>

definition deliver :: "int option \<Rightarrow> CEvent \<Rightarrow> TcpClient \<Rightarrow> TcpClient" where
  "deliver local_error ev t =
     (let c = connector_step (connector t) ev;
          t' = t\<lparr>connector := c\<rparr>
      in case drop (length (outcomes (connector t))) (outcomes c) of
           Inl fd # _ \<Rightarrow> NewConnection local_error fd t'
         | Inr e # _ \<Rightarrow> HandleConnectError e t'
         | [] \<Rightarrow> t')"

definition client_Connect :: "TcpClient \<Rightarrow> bool \<times> TcpClient" where
  "client_Connect t =
     (if \<not> address_ok (connector t) then (False, t)
      else if client_IsConnected t \<or> connecting (connector t) then (True, t)
      else (True, deliver None (CeStart True) (t\<lparr>client_requested := True\<rparr>)))"

definition client_RemoveConnection :: "nat \<Rightarrow> TcpClient \<Rightarrow> TcpClient" where
  "client_RemoveConnection fd t =
     (let t = (if connection t = Some fd then t\<lparr>connection := None\<rparr> else t)
      in t\<lparr>client_requested := False, destroy_functors := destroy_functors t @ [fd]\<rparr>)"

definition client_conn_shutdown :: "nat \<Rightarrow> TcpClient \<Rightarrow> TcpClient" where
  "client_conn_shutdown fd t =
     (if conn_states t fd = Some kConnected then t\<lparr>conn_states := (conn_states t)(fd \<mapsto> kDisconnecting)\<rparr> else t)"

definition client_conn_close :: "nat \<Rightarrow> TcpClient \<Rightarrow> TcpClient" where
  "client_conn_close fd t =
     (if conn_states t fd = Some kConnected \<or> conn_states t fd = Some kDisconnecting
      then client_RemoveConnection fd (t\<lparr>conn_states := (conn_states t)(fd \<mapsto> kDisconnected)\<rparr>) else t)"

definition client_Disconnect :: "TcpClient \<Rightarrow> TcpClient" where
  "client_Disconnect t =
     (let t = deliver None (CeStop True) (t\<lparr>client_requested := False\<rparr>)
      in case connection t of None \<Rightarrow> t | Some fd \<Rightarrow> client_conn_shutdown fd t)"

definition client_Stop :: "TcpClient \<Rightarrow> TcpClient" where
  "client_Stop t =
     (let t = deliver None (CeStop True) (t\<lparr>client_requested := False\<rparr>)
      in case connection t of None \<Rightarrow> t | Some fd \<Rightarrow> client_conn_close fd t)"

datatype ClientOp =
    TkConnect | TkDisconnect | TkStop
  | TkConnector "int option" CEvent  \<comment> \<open>an event of the connector, other than the client's own calls\<close>
  | TkClose nat  \<comment> \<open>a connection closes\<close>
  | TkDestroy  \<comment> \<open>the loop runs \<open>ConnectDestroyed\<close>\<close>

fun client_do :: "ClientOp \<Rightarrow> TcpClient \<Rightarrow> TcpClient" where
  "client_do TkConnect t = snd (client_Connect t)"
| "client_do TkDisconnect t = client_Disconnect t"
| "client_do TkStop t = client_Stop t"
| "client_do (TkConnector local_error ev) t = deliver local_error ev t"
| "client_do (TkClose fd) t = client_conn_close fd t"
| "client_do TkDestroy t =
     (case destroy_functors t of [] \<Rightarrow> t | fd # fds \<Rightarrow> t\<lparr>destroy_functors := fds, client_log := client_log t @ [NoteDestroyed fd]\<rparr>)"

definition client_step :: "TcpClient \<Rightarrow> ClientOp \<Rightarrow> TcpClient" where
  "client_step t op = client_do op t"

section \<open>Invariant of the connector\<close>

definition held :: "nat option \<Rightarrow> nat list" where
  "held x = (case x of None \<Rightarrow> [] | Some fd \<Rightarrow> [fd])"

lemma held_simps [simp]: "held None = []" "held (Some fd) = [fd]"
  by (simp_all add: held_def)

text \<open>Every descriptor is in one place: held, given to the callback, or closed.\<close>

definition fds_inv :: "nat list \<Rightarrow> nat list \<Rightarrow> nat list \<Rightarrow> nat \<Rightarrow> bool" where
  "fds_inv own cl ha n \<longleftrightarrow> distinct (own @ cl @ ha) \<and> set (own @ cl @ ha) = {..<n}"

lemma fds_inv_moves:
  "fds_inv own cl ha n \<Longrightarrow> fds_inv (n # own) cl ha (Suc n)"
  "fds_inv [fd] cl ha n \<Longrightarrow> fds_inv [] (cl @ [fd]) ha n"
  "fds_inv [fd] cl ha n \<Longrightarrow> fds_inv [] cl (ha @ [fd]) n"
  by (auto simp: fds_inv_def lessThan_Suc)

definition deletions :: "CFunctor list \<Rightarrow> nat list" where
  "deletions fs = concat (map (\<lambda>f. case f of FnDeleteChannel n \<Rightarrow> [n] | _ \<Rightarrow> []) fs)"

lemma deletions_simps [simp]:
  "deletions [] = []" "deletions (FnDeleteChannel n # fs) = n # deletions fs" "deletions (FnStartInLoop # fs) = deletions fs"
  "deletions (FnStopInLoop # fs) = deletions fs" "deletions (fs @ gs) = deletions fs @ deletions gs"
  by (simp_all add: deletions_def)

text \<open>\<open>state_\<close>, the socket, the channel and the timer go together.\<close>

definition attempt_inv :: "bool \<Rightarrow> nat option \<Rightarrow> nat option \<Rightarrow> bool \<Rightarrow> bool \<Rightarrow> bool \<Rightarrow> bool" where
  "attempt_inv conn sock ch tm positive busy \<longleftrightarrow> ch = sock \<and> (conn \<longleftrightarrow> sock \<noteq> None) \<and> (tm \<longleftrightarrow> conn \<and> positive) \<and> (busy \<longrightarrow> \<not> conn)"

text \<open>An attempt nobody wants any more is about to be stopped.\<close>

definition stop_coming :: "Connector \<Rightarrow> bool" where
  "stop_coming c \<longleftrightarrow> FnStopInLoop \<in> set (cfunctors c) \<or> FnStopInLoop \<in> set (transit c)"

definition connector_ok :: "Connector \<Rightarrow> bool" where
  "connector_ok c \<longleftrightarrow> attempt_inv (connecting c) (socket c) (chan c) (timer c) (timeout_positive c) (starting c)
     \<and> fds_inv (held (socket c)) (closed c) (handed c) (opened c)
     \<and> length (outcomes c) + (if connect_requested c then 1 else 0) \<le> starts c
     \<and> (connecting c \<or> starting c \<longrightarrow> connect_requested c \<or> stop_coming c)
     \<and> distinct (held (chan c) @ deletions (cfunctors c)) \<and> set (held (chan c) @ deletions (cfunctors c)) \<subseteq> {..<opened c}
     \<and> deletions (transit c) = []"

lemma connector_ok_new: "connector_ok (Connector_new valid timeout)"
  by (simp add: connector_ok_def Connector_new_def attempt_inv_def fds_inv_def stop_coming_def)

text \<open>The end of an attempt: what is left of the invariant while the outcome is being decided.\<close>

definition ending_ok :: "Connector \<Rightarrow> bool" where
  "ending_ok c \<longleftrightarrow> chan c = None \<and> \<not> timer c \<and> \<not> starting c \<and> fds_inv (held (socket c)) (closed c) (handed c) (opened c)
     \<and> length (outcomes c) + (if connect_requested c then 1 else 0) \<le> starts c
     \<and> distinct (deletions (cfunctors c)) \<and> set (deletions (cfunctors c)) \<subseteq> {..<opened c} \<and> deletions (transit c) = []"

lemma FailConnection_ok: "ending_ok c \<Longrightarrow> connector_ok (FailConnection e c)"
  by (cases "socket c") (auto simp: ending_ok_def connector_ok_def FailConnection_def Let_def close_socket_def attempt_inv_def stop_coming_def
      dest: fds_inv_moves(2))

lemma CompleteConnection_ok: "\<lbrakk>ending_ok c; socket c \<noteq> None\<rbrakk> \<Longrightarrow> connector_ok (CompleteConnection c)"
  by (cases "socket c") (auto simp: ending_ok_def connector_ok_def CompleteConnection_def Let_def close_socket_def attempt_inv_def stop_coming_def
      dest: fds_inv_moves(2,3))

lemma attempt_ends:
  assumes "connector_ok c" and "connecting c"
  shows "ending_ok (RemoveAndResetChannel (CancelConnectTimeout c))" and "socket (RemoveAndResetChannel (CancelConnectTimeout c)) \<noteq> None"
    and "\<not> timer c \<Longrightarrow> ending_ok (RemoveAndResetChannel c)" and "connector_ok (StopInLoop c)"
proof -
  from assms obtain fd where fd: "socket c = Some fd" "chan c = Some fd" by (auto simp: connector_ok_def attempt_inv_def)
  show e: "ending_ok (RemoveAndResetChannel (CancelConnectTimeout c))" and "socket (RemoveAndResetChannel (CancelConnectTimeout c)) \<noteq> None"
    "\<not> timer c \<Longrightarrow> ending_ok (RemoveAndResetChannel c)"
    using assms fd by (auto simp: connector_ok_def ending_ok_def RemoveAndResetChannel_def CancelConnectTimeout_def attempt_inv_def)
  have "socket (RemoveAndResetChannel (CancelConnectTimeout c)) = Some fd"
    using fd by (simp add: RemoveAndResetChannel_def CancelConnectTimeout_def)
  with e show "connector_ok (StopInLoop c)"
    using assms(2) by (auto simp: StopInLoop_def close_socket_def ending_ok_def connector_ok_def attempt_inv_def dest: fds_inv_moves(2))
qed

lemma StopInLoop_ok: "connector_ok c \<Longrightarrow> connector_ok (StopInLoop c)"
  using attempt_ends(4) by (cases "connecting c") (simp_all add: StopInLoop_def)

lemma connector_HandleWrite_ok: "connector_ok c \<Longrightarrow> connector_ok (HandleWrite so_error c)"
  using attempt_ends(1,2) by (simp add: HandleWrite_def Let_def FailConnection_ok CompleteConnection_ok)

lemma connector_HandleError_ok: "connector_ok c \<Longrightarrow> connector_ok (HandleError so_error c)"
  using attempt_ends(1) by (simp add: HandleError_def Let_def FailConnection_ok)

lemma connector_HandleTimeout_ok:
  assumes "connector_ok c" and "timer c"
  shows "connector_ok (HandleTimeout c)"
proof -
  have conn: "connecting c" using assms by (auto simp: connector_ok_def attempt_inv_def)
  have "RemoveAndResetChannel (c\<lparr>timer := False\<rparr>) = RemoveAndResetChannel (CancelConnectTimeout c)"
    using assms(2) by (simp add: CancelConnectTimeout_def)
  with attempt_ends(1) [OF assms(1) conn] conn show ?thesis by (simp add: HandleTimeout_def Let_def FailConnection_ok)
qed

lemma idle_ending: "\<lbrakk>connector_ok c; \<not> connecting c; \<not> starting c\<rbrakk> \<Longrightarrow> ending_ok c"
  by (auto simp: connector_ok_def ending_ok_def attempt_inv_def)

lemma StartInLoop_ok:
  assumes "connector_ok c" and "\<not> starting c"
  shows "connector_ok (StartInLoop c)"
  using assms FailConnection_ok [OF idle_ending]
  by (auto simp: StartInLoop_def) (auto simp: connector_ok_def attempt_inv_def stop_coming_def)

lemma Connect_ok:
  assumes ok: "connector_ok c" and st: "starting c"
  shows "connector_ok (Connect create errno (c\<lparr>starting := False\<rparr>))"
proof -
  have idle: "\<not> connecting c" "socket c = None" "chan c = None" using ok st by (auto simp: connector_ok_def attempt_inv_def)
  have stop: "connect_requested c \<or> stop_coming c" using ok st by (simp add: connector_ok_def)
  have e: "ending_ok (c\<lparr>starting := False\<rparr>)" using ok idle by (auto simp: connector_ok_def ending_ok_def attempt_inv_def)
  let ?c = "c\<lparr>starting := False, opened := opened c + 1\<rparr>" and ?fd = "opened c"
  have dl: "distinct (deletions (cfunctors c))" "set (deletions (cfunctors c)) \<subseteq> {..<opened c}" "deletions (transit c) = []"
    using ok idle by (simp_all add: connector_ok_def)
  have fds: "fds_inv [] (closed c) (handed c) ?fd" using ok idle by (simp add: connector_ok_def)
  note one = fds_inv_moves(1) [OF fds]
  have out: "length (outcomes c) + (if connect_requested c then 1 else 0) \<le> starts c" using ok by (simp add: connector_ok_def)
  have moved: "ending_ok (move_socket ?fd ?c)" "socket (move_socket ?fd ?c) \<noteq> None"
    using e idle one dl out by (auto simp: move_socket_def close_socket_def ending_ok_def)
  have failed: "ending_ok (?c\<lparr>closed := closed c @ [?fd]\<rparr>)"
    using e idle fds_inv_moves(2) [OF one] dl out by (auto simp: ending_ok_def)
  have "connector_ok (BeginWatchingConnect ?fd ?c)"
    using e idle one dl out stop
    by (auto simp: BeginWatchingConnect_def StartConnectTimeout_def move_socket_def close_socket_def connector_ok_def attempt_inv_def stop_coming_def ending_ok_def)
  then show ?thesis
    using e moved failed by (auto simp: Connect_def Let_def FailConnection_ok CompleteConnection_ok split: option.splits)
qed

lemma arrive_ok:
  assumes ok: "connector_ok c" and n: "n < length (transit c)"
  shows "connector_ok (c\<lparr>cfunctors := cfunctors c @ [transit c ! n], transit := take n (transit c) @ drop (Suc n) (transit c)\<rparr>)"
proof -
  have t: "transit c = take n (transit c) @ transit c ! n # drop (Suc n) (transit c)" using n by (simp add: id_take_nth_drop)
  have "deletions (take n (transit c) @ transit c ! n # drop (Suc n) (transit c)) = []" using ok t by (metis connector_ok_def)
  then have d: "deletions (take n (transit c)) = []" "deletions (drop (Suc n) (transit c)) = []" "deletions [transit c ! n] = []"
    by (cases "transit c ! n"; simp)+
  have "set (transit c) = insert (transit c ! n) (set (take n (transit c)) \<union> set (drop (Suc n) (transit c)))" by (subst t) auto
  with ok d show ?thesis by (auto simp: connector_ok_def stop_coming_def)
qed

lemma functor_ok:
  assumes ok: "connector_ok c" and f: "cfunctors c = f # fs" and st: "\<not> starting c"
  shows "connector_ok (run_cfunctor f (c\<lparr>cfunctors := fs\<rparr>))"
proof (cases f)
  case FnStartInLoop
  have "connector_ok (c\<lparr>cfunctors := fs\<rparr>)" using ok f FnStartInLoop by (auto simp: connector_ok_def stop_coming_def)
  then show ?thesis using FnStartInLoop st by (simp add: StartInLoop_ok)
next
  case (FnDeleteChannel n)
  then show ?thesis using ok f by (auto simp: connector_ok_def stop_coming_def)
next
  case FnStopInLoop
  let ?c = "c\<lparr>cfunctors := fs\<rparr>"
  show ?thesis
  proof (cases "connecting c")
    case True
    have "attempt_inv (connecting ?c) (socket ?c) (chan ?c) (timer ?c) (timeout_positive ?c) (starting ?c)" using ok by (simp add: connector_ok_def)
    then obtain fd where fd: "socket c = Some fd" "chan c = Some fd" using True by (auto simp: attempt_inv_def)
    then show ?thesis
      using ok f FnStopInLoop True fds_inv_moves(2) [of fd "closed c" "handed c" "opened c"] st
      by (auto simp: StopInLoop_def CancelConnectTimeout_def RemoveAndResetChannel_def close_socket_def connector_ok_def attempt_inv_def)
  next
    case False
    then show ?thesis using ok f FnStopInLoop st by (auto simp: StopInLoop_def connector_ok_def stop_coming_def)
  qed
qed

lemma connector_step_ok: "connector_ok c \<Longrightarrow> connector_ok (connector_step c ev)"
proof (cases ev)
  case (CeStart in_loop)
  assume ok: "connector_ok c"
  let ?c = "c\<lparr>connect_requested := True, starts := starts c + 1\<rparr>"
  have "connector_ok ?c" using ok by (auto simp: connector_ok_def)
  moreover from this have "connector_ok (?c\<lparr>transit := transit ?c @ [FnStartInLoop]\<rparr>)" by (auto simp: connector_ok_def stop_coming_def)
  ultimately show ?thesis using CeStart ok StartInLoop_ok [of ?c] by (simp add: connector_step_def Start_def Let_def)
next
  case (CeStop in_loop)
  assume ok: "connector_ok c"
  let ?c = "c\<lparr>connect_requested := False\<rparr>"
  have "connector_ok (StopInLoop ?c)" if "\<not> starting c"
  proof (cases "connecting c")
    case True
    then obtain fd where "socket c = Some fd" "chan c = Some fd" using ok by (auto simp: connector_ok_def attempt_inv_def)
    then show ?thesis
      using ok True that fds_inv_moves(2) [of fd "closed c" "handed c" "opened c"]
      by (auto simp: StopInLoop_def CancelConnectTimeout_def RemoveAndResetChannel_def close_socket_def connector_ok_def attempt_inv_def split: if_splits)
  next
    case False
    then show ?thesis using ok that by (auto simp: StopInLoop_def connector_ok_def split: if_splits)
  qed
  moreover have "connector_ok (?c\<lparr>transit := transit ?c @ [FnStopInLoop]\<rparr>)" using ok by (auto simp: connector_ok_def stop_coming_def split: if_splits)
  ultimately show ?thesis using CeStop ok by (simp add: connector_step_def Stop_def Let_def)
next
  case CeFunctor
  assume "connector_ok c"
  then show ?thesis using CeFunctor functor_ok [of c] by (auto simp: connector_step_def split: list.splits)
qed (auto simp: connector_step_def arrive_ok Connect_ok connector_HandleWrite_ok connector_HandleError_ok connector_HandleTimeout_ok)

interpretation co: guarded_object connector_step "\<lambda>_ _. True" connector_ok
  by unfold_locales (rule connector_step_ok)

section \<open>Properties\<close>

text \<open>The connector leaks no descriptor and closes none twice. In every interleaving of \<open>Start\<close>, \<open>Stop\<close>, events and timeouts
  each descriptor ever created is held by the connector, was handed to the new connection callback, or was closed, and
  exactly one of these; every removed channel is deleted once and never while it is in use; and the callbacks called are at
  most as many as there were calls of \<open>Start\<close>.\<close>

theorem connector_descriptors:
  fixes valid timeout :: bool and evs :: "CEvent list"
  defines "c \<equiv> run_ops connector_step (Connector_new valid timeout) evs"
  shows "distinct (held (socket c) @ closed c @ handed c) \<and> set (held (socket c) @ closed c @ handed c) = {..<opened c}
     \<and> distinct (held (chan c) @ deletions (cfunctors c)) \<and> length (outcomes c) \<le> starts c"
proof -
  have "connector_ok c" unfolding c_def by (rule co.run_invar) (simp_all add: connector_ok_new)
  then show ?thesis unfolding connector_ok_def fds_inv_def by auto
qed

text \<open>Without a request nothing is called.\<close>

fun is_start :: "CEvent \<Rightarrow> bool" where
  "is_start (CeStart b) = True"
| "is_start ev = False"

definition silent :: "Connector \<Rightarrow> Connector \<Rightarrow> bool" where
  "silent c d \<longleftrightarrow> \<not> connect_requested d \<and> outcomes d = outcomes c \<and> handed d = handed c"

lemma silent_ends:
  assumes "silent c d"
  shows "silent c (FailConnection e d)" "silent c (CompleteConnection d)" "silent c (close_socket d)" "silent c (RemoveAndResetChannel d)"
    "silent c (CancelConnectTimeout d)" "silent c (StopInLoop d)" "silent c (StartInLoop d)" "silent c (BeginWatchingConnect fd d)"
    "silent c (d\<lparr>starting := b\<rparr>)" "silent c (d\<lparr>timer := b\<rparr>)" "silent c (d\<lparr>opened := n\<rparr>)" "silent c (d\<lparr>closed := l\<rparr>)" "silent c (move_socket fd d)"
    "silent c (d\<lparr>cfunctors := fs\<rparr>)"
  using assms
  by (simp_all add: silent_def FailConnection_def CompleteConnection_def close_socket_def RemoveAndResetChannel_def CancelConnectTimeout_def
      StopInLoop_def StartInLoop_def BeginWatchingConnect_def StartConnectTimeout_def move_socket_def Let_def split: option.splits)

lemma silent_step:
  assumes s: "silent c d" and ev: "\<not> is_start ev"
  shows "silent c (connector_step d ev)"
proof (cases ev)
  case (CeStop in_loop)
  have "silent c (d\<lparr>connect_requested := False\<rparr>)" using s by (simp add: silent_def)
  with CeStop s show ?thesis by (auto simp: connector_step_def Stop_def Let_def silent_ends) (simp add: silent_def)
next
  case CeFunctor
  have "silent c (run_cfunctor f (d\<lparr>cfunctors := fs\<rparr>))" for f fs using s by (cases f) (simp_all add: silent_ends)
  with CeFunctor s show ?thesis by (simp add: connector_step_def split: list.splits)
next
  case (CeConnect create errno)
  with s show ?thesis by (auto simp: connector_step_def Connect_def Let_def silent_ends split: option.splits)
next
  case (CeArrive n)
  with s show ?thesis by (simp add: connector_step_def silent_def)
qed (use s ev in \<open>auto simp: connector_step_def HandleWrite_def HandleError_def HandleTimeout_def Let_def silent_ends\<close>)

text \<open>After \<open>Stop\<close> the connector makes no callback and hands over no socket until the next \<open>Start\<close>, although an attempt may still be
  on its way; and once the queued functors have run, no attempt is left. An attempt in progress always has its channel, and
  its timer unless the timeout is disabled.\<close>

theorem connector_stop_is_quiet:
  fixes valid timeout :: bool and evs later :: "CEvent list"
  defines "c \<equiv> run_ops connector_step (Connector_new valid timeout) evs"
  defines "d \<equiv> run_ops connector_step c later"
  assumes "\<not> connect_requested c" and "list_all (\<lambda>ev. \<not> is_start ev) later"
  shows "outcomes d = outcomes c \<and> handed d = handed c
     \<and> (cfunctors d = [] \<and> transit d = [] \<longrightarrow> \<not> connecting d \<and> \<not> starting d)
     \<and> (connecting d \<longrightarrow> chan d = socket d \<and> socket d \<noteq> None \<and> (timer d \<longleftrightarrow> timeout_positive d))"
proof -
  have c: "connector_ok c" unfolding c_def by (rule co.run_invar) (simp_all add: connector_ok_new)
  then have d: "connector_ok d" unfolding d_def by (rule co.run_invar) simp
  have s0: "silent c c" using assms(3) by (simp add: silent_def)
  have "silent c d"
    unfolding d_def
  proof (rule co.run_keeps [where Q = "\<lambda>ev. \<not> is_start ev" and P = "silent c"])
    show "\<And>s op. \<lbrakk>connector_ok s; True; \<not> is_start op; silent c s\<rbrakk> \<Longrightarrow> silent c (connector_step s op)" by (rule silent_step)
  qed (use c s0 assms(4) in simp_all)
  with d show ?thesis by (auto simp: silent_def connector_ok_def attempt_inv_def stop_coming_def)
qed

text \<open>A foreign \<open>Stop\<close> reaches an attempt in progress; the connection comes up before the functor runs.\<close>

theorem connector_stop_is_quiet_witness:
  "outcomes (run_ops connector_step (run_ops connector_step (Connector_new True True) [CeStart True, CeConnect None 115, CeStop False]) [CeWritable 0 0]) = []"
  using connector_stop_is_quiet [of True True "[CeStart True, CeConnect None 115, CeStop False]" "[CeWritable 0 0]"]
  by (simp add: connector_step_def Connector_new_def Start_def StartInLoop_def Connect_def Stop_def BeginWatchingConnect_def StartConnectTimeout_def
      move_socket_def close_socket_def Let_def EINPROGRESS_def)

lemmas connector_eval = connector_step_def Connector_new_def Start_def StartInLoop_def Connect_def Stop_def StopInLoop_def
  BeginWatchingConnect_def StartConnectTimeout_def CancelConnectTimeout_def RemoveAndResetChannel_def move_socket_def close_socket_def
  HandleWrite_def GetSocketError_def CompleteConnection_def FailConnection_def channel_exists_def Let_def EINPROGRESS_def EINTR_def
  EALREADY_def EISCONN_def EBADF_def

text \<open>An event of a removed channel completes a later attempt. When user code stops and restarts the connector while an event of the
  old channel is still to be dispatched in the same batch, that channel has been removed but not yet deleted, and its
  callback asks for the error of the new socket: while the new attempt is still in progress this is 0, and the socket is handed over as
  connected before it is.\<close>

theorem stale_event_completes_attempt:
  fixes valid timeout :: bool and evs :: "CEvent list"
  defines "c \<equiv> run_ops connector_step (Connector_new valid timeout) evs"
  defines "d \<equiv> run_ops connector_step c [CeStop True, CeStart True, CeConnect None EINPROGRESS]"
  assumes "connecting c" and "chan c = Some old" and "address_ok c" and "new_connection_callback c"
  shows "connecting d \<and> socket d = Some (opened c) \<and> old \<noteq> opened c
     \<and> handed (connector_step d (CeWritable old 0)) = handed c @ [opened c]"
proof -
  have ok: "connector_ok c" unfolding c_def by (rule co.run_invar) (simp_all add: connector_ok_new)
  then have st: "\<not> starting c" and sock: "socket c = Some old" and lt: "old < opened c"
    using assms(3,4) by (auto simp: connector_ok_def attempt_inv_def)
  let ?c1 = "c\<lparr>connect_requested := False, timer := False, chan := None, cfunctors := cfunctors c @ [FnDeleteChannel old], socket := None,
    closed := closed c @ [old], connecting := False\<rparr>"
  let ?c2 = "?c1\<lparr>connect_requested := True, starts := starts c + 1, starting := True\<rparr>"
  let ?d = "StartConnectTimeout (?c2\<lparr>starting := False, opened := opened c + 1, socket := Some (opened c), connecting := True, chan := Some (opened c)\<rparr>)"
  have 1: "connector_step c (CeStop True) = ?c1"
    using st sock assms(3,4)
    by (simp add: connector_step_def Stop_def StopInLoop_def CancelConnectTimeout_def RemoveAndResetChannel_def close_socket_def Let_def)
  have 2: "connector_step ?c1 (CeStart True) = ?c2" using st assms(5) by (simp add: connector_step_def Start_def StartInLoop_def Let_def)
  have 3: "connector_step ?c2 (CeConnect None EINPROGRESS) = ?d"
    by (simp add: connector_step_def Connect_def BeginWatchingConnect_def move_socket_def close_socket_def EINPROGRESS_def Let_def)
  have d: "d = ?d" unfolding d_def using 1 2 3 by simp
  have f: "connecting ?d" "socket ?d = Some (opened c)" "chan ?d = Some (opened c)" "\<not> starting ?d" "connect_requested ?d"
    "FnDeleteChannel old \<in> set (cfunctors ?d)" "new_connection_callback ?d" "handed ?d = handed c"
    using assms(6) by (simp_all add: StartConnectTimeout_def)
  have "handed (connector_step ?d (CeWritable old 0)) = handed c @ [opened c]"
    using f by (simp add: connector_step_def channel_exists_def HandleWrite_def GetSocketError_def CancelConnectTimeout_def
        RemoveAndResetChannel_def CompleteConnection_def Let_def)
  with f lt d show ?thesis by simp
qed

theorem stale_event_completes_attempt_witness:
  "handed (connector_step (run_ops connector_step (run_ops connector_step (Connector_new True True) [CeStart True, CeConnect None 115])
     [CeStop True, CeStart True, CeConnect None EINPROGRESS]) (CeWritable 0 0)) = [1]"
  using stale_event_completes_attempt [of True True "[CeStart True, CeConnect None 115]" 0]
  by (simp add: connector_step_def Connector_new_def Start_def StartInLoop_def Connect_def BeginWatchingConnect_def StartConnectTimeout_def
      move_socket_def close_socket_def Let_def EINPROGRESS_def)

section \<open>The client\<close>

text \<open>A new attempt is lost silently when the previous connection ends. If \<open>Connect\<close> is called while the previous connection is still
  shutting down, the end of that connection clears the client's \<open>connect_requested_\<close>, which by then stands for
  the new attempt; when the attempt then succeeds, \<open>NewConnection\<close> closes the new socket, and the user is told neither of a
  connection nor of an error.\<close>

theorem reconnect_lost_silently:
  assumes "conn_states t old = Some kDisconnecting" and "connection t = Some old" and "\<not> connecting (connector t)" and "\<not> starting (connector t)"
    and "address_ok (connector t)" and "new_connection_callback (connector t)"
  defines "u \<equiv> run_ops client_step t [TkConnect, TkConnector None (CeConnect None EINPROGRESS), TkClose old]"
  defines "fd \<equiv> opened (connector t)"
  shows "connecting (connector u) \<and> \<not> client_requested u
     \<and> client_log (client_step u (TkConnector None (CeWritable fd 0))) = client_log t
     \<and> connection (client_step u (TkConnector None (CeWritable fd 0))) = None
     \<and> fd \<in> set (client_closed (client_step u (TkConnector None (CeWritable fd 0))))"
proof -
  let ?c = "connector t"
  have fdn: "\<not> client_IsConnected t" using assms(1,2) by (simp add: client_IsConnected_def)
  let ?c1 = "?c\<lparr>connect_requested := True, starts := starts ?c + 1, starting := True\<rparr>"
  let ?c2 = "BeginWatchingConnect fd (?c1\<lparr>starting := False, opened := Suc fd\<rparr>)"
  have c1: "connector_step ?c (CeStart True) = ?c1"
    using assms(3-5) by (simp add: connector_step_def Start_def StartInLoop_def Let_def)
  have c2: "connector_step ?c1 (CeConnect None EINPROGRESS) = ?c2"
    by (simp add: connector_step_def Connect_def Let_def EINPROGRESS_def fd_def)
  have f: "connecting ?c2" "socket ?c2 = Some fd" "chan ?c2 = Some fd" "\<not> starting ?c2" "connect_requested ?c2"
    "new_connection_callback ?c2" "outcomes ?c2 = outcomes ?c"
    using assms(4,6)
    by (simp_all add: BeginWatchingConnect_def StartConnectTimeout_def move_socket_def close_socket_def split: option.split)
  have 1: "client_step t TkConnect = t\<lparr>client_requested := True, connector := ?c1\<rparr>"
    using fdn assms(3,5) c1 by (simp add: client_step_def client_Connect_def deliver_def Let_def)
  have 2: "client_step (t\<lparr>client_requested := True, connector := ?c1\<rparr>) (TkConnector None (CeConnect None EINPROGRESS))
      = t\<lparr>client_requested := True, connector := ?c2\<rparr>"
    using c2 f(7) by (simp add: client_step_def deliver_def Let_def)
  have u: "u = t\<lparr>connector := ?c2, conn_states := (conn_states t)(old \<mapsto> kDisconnected), connection := None,
      client_requested := False, destroy_functors := destroy_functors t @ [old]\<rparr>"
    unfolding u_def using 1 2 assms(1,2) by (simp add: client_step_def client_conn_close_def client_RemoveConnection_def Let_def)
  have c3: "outcomes (connector_step ?c2 (CeWritable fd 0)) = outcomes ?c @ [Inl fd]"
    using f by (simp add: connector_step_def channel_exists_def HandleWrite_def GetSocketError_def CancelConnectTimeout_def
        RemoveAndResetChannel_def CompleteConnection_def Let_def)
  then have 3: "client_step u (TkConnector None (CeWritable fd 0))
      = u\<lparr>connector := connector_step ?c2 (CeWritable fd 0), client_closed := client_closed t @ [fd]\<rparr>"
    unfolding u client_step_def client_do.simps deliver_def Let_def using f(7) by (simp add: NewConnection_def)
  show ?thesis unfolding 3 unfolding u using f(1) by simp
qed

lemmas client_eval = client_step_def client_Connect_def client_IsConnected_def deliver_def client_Disconnect_def
  client_conn_shutdown_def NewConnection_def TcpClient_new_def

theorem reconnect_lost_silently_witness:
  "\<not> client_requested (run_ops client_step (run_ops client_step (TcpClient_new True True)
      [TkConnect, TkConnector None (CeConnect None 0), TkDisconnect])
    [TkConnect, TkConnector None (CeConnect None EINPROGRESS), TkClose 0])"
proof -
  let ?t = "run_ops client_step (TcpClient_new True True) [TkConnect, TkConnector None (CeConnect None 0), TkDisconnect]"
  have "conn_states ?t 0 = Some kDisconnecting" "connection ?t = Some 0" "\<not> connecting (connector ?t)" "\<not> starting (connector ?t)"
    "address_ok (connector ?t)" "new_connection_callback (connector ?t)"
    by (simp_all add: client_eval connector_eval)
  from reconnect_lost_silently [OF this] show ?thesis by simp
qed

end
