(* ===== verification/Message_Path.thy ===== *)
theory Message_Path
  imports Packet_Codec Tcp_Connection "HOL-Library.Sublist"
begin

text \<open>
  The path of a packet between two processes: \<open>ProtocolCodec::Encode\<close> on the sender, \<open>TcpConnection::SendInLoop\<close> and
  \<open>HandleWrite\<close> with whatever the socket takes at a time, the network with whatever segments it makes, and on the
  receiver \<open>ReadFd\<close> and \<open>GatewayServer::HandleMessage\<close>.
\<close>

text \<open>A prefix of a decodable stream decodes to a prefix of its packets.\<close>

lemma decode_prefix:
  assumes "decode_bytes cd (xs @ ys) = (None, ps, [])"
  shows "\<exists>qs rest. decode_bytes cd xs = (None, qs, rest) \<and> prefix qs ps"
proof -
  obtain e qs r where d: "decode_bytes cd xs = (e, qs, r)" by (cases "decode_bytes cd xs")
  have "e = None" using decode_bytes_append_error [of cd xs _ qs r ys] d assms by (cases e) auto
  with d decode_bytes_append [of cd xs qs r ys] assms show ?thesis by (auto split: prod.splits)
qed

text \<open>C2: Packets arrive. Let the bytes a connection has accepted be packets encoded by the codec. Whatever the sockets, the
  network and other operations on the connection do, the receiver hands a prefix of these packets to \<open>HandlePacket\<close>, never a
  different or a reordered one, and reports no decoding error; and once the output buffer of an open connection is empty, or
  its write side has been shut, the bytes that have left make it hand over all of them, with no byte left over.\<close>

theorem packets_end_to_end:
  assumes "poller_valid p" and "0 \<le> fd" and "interest p fd = None"
    and "ok_run conn_calls_ok conn_step (Some (TcpConnection_new ptr fd p now)) ops"
    and "list_all (\<lambda>q. ValidatePacketForEncode cd q = None \<and> length (pkt_body q) < 2 ^ 32) ps"
  shows "\<exists>c out. run_ops conn_step (Some (TcpConnection_new ptr fd p now)) ops = Some c
     \<and> encode_all cd ps (Buffer_new n) = Some (Inr out)
     \<and> (accepted c = readable out \<longrightarrow> (\<forall>segs. concat segs = wire c \<longrightarrow>
          (\<exists>qs b. receive cd cl segs (Buffer_new m) = Some (map HandlePacket qs, b) \<and> prefix qs ps
             \<and> (write_shut c \<or> state c \<noteq> kDisconnected \<and> readable (output_buffer c) = [] \<longrightarrow> qs = ps \<and> readable b = []))))"
proof -
  obtain c where c: "run_ops conn_step (Some (TcpConnection_new ptr fd p now)) ops = Some c"
    "stream_inv (state c) (events (channel c)) (readable (output_buffer c)) (wire c) (accepted c) (write_shut c)"
    using conn_run_ok [OF assms(1-4)] by blast
  note bytes = stream_inv_bytes [OF c(2)]
  obtain out where out: "encode_all cd ps (Buffer_new n) = Some (Inr out)" "readable out = concat (map frame_bytes ps)"
    using encode_all_spec [of cd ps "Buffer_new n"] assms(5) by (auto simp: list_all_iff)
  have whole: "decode_bytes cd (readable out) = (None, ps, [])" using decode_bytes_frames [OF assms(5), of "[]"] out(2) by simp
  have recv: "\<exists>qs b. receive cd cl segs (Buffer_new m) = Some (map HandlePacket qs, b) \<and> prefix qs ps
      \<and> (wire c = accepted c \<longrightarrow> qs = ps \<and> readable b = [])" if acc: "accepted c = readable out" and segs: "concat segs = wire c" for segs
  proof -
    obtain ys where "readable out = wire c @ ys" using bytes(2) acc by metis
    with whole obtain qs rest where q: "decode_bytes cd (wire c) = (None, qs, rest)" "prefix qs ps"
      using decode_prefix [of cd "wire c" ys ps] by auto
    moreover have "qs = ps \<and> rest = []" if "wire c = accepted c" using q(1) whole that acc by simp
    ultimately show ?thesis using receive_ok [of "Buffer_new m" cd segs qs rest cl] segs by auto
  qed
  have "wire c = accepted c" if "write_shut c \<or> state c \<noteq> kDisconnected \<and> readable (output_buffer c) = []"
    using bytes(1,3) that by auto
  with c(1) out(1) recv show ?thesis by (metis (no_types, lifting))
qed

definition heartbeat :: Packet where
  "heartbeat = \<lparr>pkt_type = kHeartbeat, pkt_flags = 0, pkt_seq = 8, pkt_body = []\<rparr>"

text \<open>A packet is sent, the socket takes five bytes, the loop writes the rest.\<close>

definition heartbeat_ops :: "ConnOp list" where
  "heartbeat_ops = [OpConnectEstablished True True 1, OpSend True True (Inr 5) (frame_bytes heartbeat),
     OpEvent True 4, OpFrame True 2 (Inl 11) (Inr 15), OpFrame True 2 (Inl 11) (Inl 11)]"

theorem packets_end_to_end_witness:
  "\<exists>c. run_ops conn_step (Some (TcpConnection_new 7 5 demo_poller 0)) heartbeat_ops = Some c
     \<and> (\<forall>segs. concat segs = wire c \<longrightarrow>
          (\<exists>b. receive \<lparr>max_body_size = 4\<rparr> True segs (Buffer_new 16) = Some ([HandlePacket heartbeat], b) \<and> readable b = []))"
proof -
  let ?s = "Some (TcpConnection_new 7 5 demo_poller 0)"
  have bytes: "frame_bytes heartbeat = [84, 73, 77, 88, 0, 1, 35, 41, 0, 0, 0, 0, 0, 0, 0, 8, 0, 0, 0, 0]"
    by (simp add: frame_bytes_def heartbeat_def bytes_of_u32_def bytes_of_u16_def kProtocolMagic_def kProtocolVersion_def)
  obtain c where c: "run_ops conn_step ?s heartbeat_ops = Some c" "state c = kConnected" "accepted c = frame_bytes heartbeat"
      "readable (output_buffer c) = []"
    by (simp add: heartbeat_ops_def bytes demo_poller_def conn_eval readable_def)
  have ok: "ok_run conn_calls_ok conn_step ?s heartbeat_ops"
    by (simp add: heartbeat_ops_def bytes demo_poller_def conn_eval)
  have valid: "list_all (\<lambda>q. ValidatePacketForEncode \<lparr>max_body_size = 4\<rparr> q = None \<and> length (pkt_body q) < 2 ^ 32) [heartbeat]"
    by (simp add: heartbeat_def ValidatePacketForEncode_def IsKnownMessageType_def known_message_types_def)
  have out: "\<exists>out. encode_all \<lparr>max_body_size = 4\<rparr> [heartbeat] (Buffer_new 8) = Some (Inr out) \<and> readable out = frame_bytes heartbeat"
    using encode_all_spec [of "\<lparr>max_body_size = 4\<rparr>" "[heartbeat]" "Buffer_new 8"] valid by auto
  show ?thesis
    using packets_end_to_end [OF _ _ _ ok valid, of 8 True 16] c out by (fastforce simp: demo_poller_def)
qed

end
