(* ===== verification/Peer_Manager.thy ===== *)
theory Peer_Manager
  imports Peer_Transport "HOL-Library.AList"
begin

text \<open>
  The table of connections to the other gateways, \<open>gateway/GatewayPeerTransportManager.{h,cpp}\<close>: one transport per gateway, created
  when a message has to be forwarded, restarted with growing delays when its connection is lost, replaced when the
  gateway has moved; and private messages, whose failed attempts are repeated a bounded number of times.

  Of a transport (\<open>Peer_Transport\<close>) the manager sees whether it is running and connected, whether it takes a request, and
  its two callbacks: the result of a request it has taken, and a change of the connection; these are events.
  Connecting may succeed or fail within \<open>Start\<close>, which is its argument. \<open>Stop\<close> of a transport calls user code, so what
  \<open>GetOrCreateTransport\<close> does after it is a frame that remains to be executed, and so is the notification of a lost
  connection, which follows the callbacks of its requests. The public methods may be called on any thread;
  between their test of \<open>running_\<close> and the arrival of their functor in the loop anything may happen. Answers of the
  resolver and of \<open>RunAfter\<close> (whether it gave a valid timer) are arguments.

  Requests are numbered in the order of acceptance, for private and group messages apart; transports in the order of creation.
\<close>

section \<open>Types\<close>

datatype GatewayForwardChatStatus =
  kDelivered | kTargetNotLocal | kTargetNotConnected | kDuplicateInProgress | kUnauthorized | kInvalidRequest | kInternalError

type_synonym ChatResult = "GatewayForwardChatStatus GatewayPeerTransportResult"

record GatewayInstanceRecord =
  gateway_id :: string
  listen_host :: string
  listen_port :: u16

record GatewayPeerTransportManagerOptions =
  opt_gateway_id :: string
  opt_lease_token :: string
  opt_connect_timeout :: int
  opt_request_timeout :: int
  max_request_retries :: nat
  request_retry_initial_delay :: int
  request_retry_max_delay :: int
  reconnect_initial_delay :: int
  reconnect_max_delay :: int
  opt_max_body_size :: nat

record ForwardChatRetryContext =
  remote_gateway :: GatewayInstanceRecord
  message_id :: u64
  from_user_id :: u64
  to_user_id :: u64
  message_body :: "byte list"
  has_callback :: bool
  retry_count :: nat
  completed :: bool
  attempts :: nat  \<comment> \<open>observation only: how often a transport has taken it\<close>
  results :: "ChatResult list"  \<comment> \<open>observation only: the calls of the user's callback\<close>

datatype ForwardChatRetryReason = kNone | kRetryTimeout | kRetryDisconnected | kRetryNotConnected | kRetryDuplicateInProgress

record PeerEntry =
  entry_host :: string
  entry_port :: u16
  entry_transport :: nat
  reconnect_attempt :: nat
  reconnect_timer :: "nat option"

text \<open>What the manager sees of a transport; \<open>waiting\<close> are the private requests whose callback it has.\<close>

record Transport =
  tr_options :: GatewayPeerTransportOptions
  tr_running :: bool
  tr_connected :: bool
  waiting :: "nat list"

datatype ManagerTimer = TmRetry nat | TmReconnect string

datatype ManagerFunctor = FnStopInLoop | FnForwardChatInLoop nat | FnForwardGroupMessageInLoop nat

text \<open>What follows the return of \<open>GetOrCreateTransport\<close>.\<close>

datatype Caller = CallSubmit nat | CallGroup nat | CallReconnect

datatype ManagerFrame = FrCreate GatewayInstanceRecord Caller | FrNotify nat

record GroupRequest =
  group_gateway :: GatewayInstanceRecord
  group_message_id :: u64
  group_recipient :: u64
  group_callback :: bool

datatype GroupOutcome = GroupNotConnected nat | GroupTaken nat nat | GroupDropped nat

record Manager =
  mgr_options :: GatewayPeerTransportManagerOptions
  resolver_set :: bool
  mgr_running :: bool
  transport_count :: nat
  transports :: "(string \<times> PeerEntry) list"
  address_valid :: "string \<Rightarrow> u16 \<Rightarrow> bool"  \<comment> \<open>\<open>InetAddress::IsValid\<close>\<close>
  objects :: "Transport list"
  contexts :: "ForwardChatRetryContext list"
  groups :: "GroupRequest list"
  timers :: "(nat \<times> ManagerTimer) list"
  mgr_next_timer :: nat
  mgr_transit :: "ManagerFunctor list"
  mgr_functors :: "ManagerFunctor list"
  mgr_frames :: "ManagerFrame list"
  dropped :: "nat set"  \<comment> \<open>observation only: requests whose retry was given up without an answer\<close>
  group_log :: "GroupOutcome list"  \<comment> \<open>observation only\<close>

definition Manager_new :: "GatewayPeerTransportManagerOptions \<Rightarrow> (string \<Rightarrow> u16 \<Rightarrow> bool) \<Rightarrow> Manager" where
  "Manager_new o' valid = \<lparr>mgr_options = o', resolver_set = False, mgr_running = False, transport_count = 0, transports = [],
     address_valid = valid, objects = [], contexts = [], groups = [], timers = [], mgr_next_timer = 0, mgr_transit = [], mgr_functors = [],
     mgr_frames = [], dropped = {}, group_log = []\<rparr>"

section \<open>Delays\<close>

text \<open>The loop that both delays share: \<open>n\<close> doublings at most, while the delay is below its maximum.\<close>

fun backoff :: "nat \<Rightarrow> int \<Rightarrow> int \<Rightarrow> int" where
  "backoff n delay max_delay =
     (case n of
        0 \<Rightarrow> delay
      | Suc m \<Rightarrow>
          if \<not> delay < max_delay then delay
          else if delay \<ge> max_delay div 2 then max_delay
          else backoff m (delay * 2) max_delay)"

declare backoff.simps [simp del]

definition ReconnectDelay :: "GatewayPeerTransportManagerOptions \<Rightarrow> nat \<Rightarrow> int" where
  "ReconnectDelay o' attempt =
     min (backoff attempt (reconnect_initial_delay o') (reconnect_max_delay o')) (reconnect_max_delay o')"

definition RequestRetryDelay :: "GatewayPeerTransportManagerOptions \<Rightarrow> nat \<Rightarrow> int" where
  "RequestRetryDelay o' retry_number =
     min (backoff (retry_number - 1) (request_retry_initial_delay o') (request_retry_max_delay o')) (request_retry_max_delay o')"

section \<open>Timers of the loop\<close>

definition RunAfter :: "bool \<Rightarrow> ManagerTimer \<Rightarrow> Manager \<Rightarrow> nat option \<times> Manager" where
  "RunAfter timer_ok t m =
     (if timer_ok then (Some (mgr_next_timer m), m\<lparr>timers := timers m @ [(mgr_next_timer m, t)], mgr_next_timer := mgr_next_timer m + 1\<rparr>)
      else (None, m))"

definition cancel_timer :: "nat \<Rightarrow> Manager \<Rightarrow> Manager" where
  "cancel_timer n m = m\<lparr>timers := filter (\<lambda>(k, _). k \<noteq> n) (timers m)\<rparr>"

definition set_entry :: "string \<Rightarrow> PeerEntry \<Rightarrow> Manager \<Rightarrow> Manager" where
  "set_entry gid e m = m\<lparr>transports := AList.update gid e (transports m)\<rparr>"

text \<open>The entry with its timer cancelled is returned; the caller stores or drops it.\<close>

definition CancelReconnectTimer :: "PeerEntry \<Rightarrow> Manager \<Rightarrow> PeerEntry \<times> Manager" where
  "CancelReconnectTimer e m =
     (case reconnect_timer e of None \<Rightarrow> (e, m) | Some n \<Rightarrow> (e\<lparr>reconnect_timer := None\<rparr>, cancel_timer n m))"

definition store_transport_count :: "Manager \<Rightarrow> Manager" where
  "store_transport_count m = m\<lparr>transport_count := length (transports m)\<rparr>"

definition set_object :: "nat \<Rightarrow> (Transport \<Rightarrow> Transport) \<Rightarrow> Manager \<Rightarrow> Manager" where
  "set_object k f m = m\<lparr>objects := (objects m)[k := f (objects m ! k)]\<rparr>"

section \<open>Reconnection\<close>

definition ScheduleReconnectInLoop :: "bool \<Rightarrow> string \<Rightarrow> Manager \<Rightarrow> Manager" where
  "ScheduleReconnectInLoop timer_ok gid m =
     (if \<not> mgr_running m then m
      else case map_of (transports m) gid of
        None \<Rightarrow> m
      | Some entry \<Rightarrow>
          if tr_connected (objects m ! entry_transport entry) then m
          else if reconnect_timer entry \<noteq> None then m
          else case RunAfter timer_ok (TmReconnect gid) m of
            (None, m) \<Rightarrow> m
          | (Some n, m) \<Rightarrow> set_entry gid (entry\<lparr>reconnect_timer := Some n, reconnect_attempt := reconnect_attempt entry + 1\<rparr>) m)"

definition HandleTransportConnectionState :: "bool \<Rightarrow> nat \<Rightarrow> bool \<Rightarrow> Manager \<Rightarrow> Manager" where
  "HandleTransportConnectionState timer_ok source up m =
     (let gid = remote_gateway_id (tr_options (objects m ! source)) in
      case map_of (transports m) gid of
        None \<Rightarrow> m
      | Some entry \<Rightarrow>
          if entry_transport entry \<noteq> source then m
          else if up
          then case CancelReconnectTimer entry m of (entry, m) \<Rightarrow> set_entry gid (entry\<lparr>reconnect_attempt := 0\<rparr>) m
          else if \<not> mgr_running m then m
          else ScheduleReconnectInLoop timer_ok gid m)"

text \<open>\<open>GatewayPeerTransport::Start\<close> on the loop thread, and what the connection attempt comes to before it returns.\<close>

datatype ConnectOutcome = ConnectPending | ConnectDone | ConnectFailed

definition start_transport :: "bool \<Rightarrow> ConnectOutcome \<Rightarrow> nat \<Rightarrow> Manager \<Rightarrow> bool \<times> Manager" where
  "start_transport timer_ok outcome k m =
     (if \<not> ValidateOptions (tr_options (objects m ! k)) then (False, m)
      else if tr_running (objects m ! k) then (True, m)
      else (True,
        case outcome of
          ConnectPending \<Rightarrow> set_object k (\<lambda>t. t\<lparr>tr_running := True\<rparr>) m
        | ConnectDone \<Rightarrow> HandleTransportConnectionState timer_ok k True
            (set_object k (\<lambda>t. t\<lparr>tr_running := True, tr_connected := True\<rparr>) m)
        | ConnectFailed \<Rightarrow> HandleTransportConnectionState timer_ok k False
            (set_object k (\<lambda>t. t\<lparr>tr_running := False, tr_connected := False\<rparr>) m)))"

text \<open>\<open>GatewayPeerTransport::Stop\<close> on the loop thread; the callbacks of the requests it has are events.\<close>

definition stop_transport :: "nat \<Rightarrow> Manager \<Rightarrow> Manager" where
  "stop_transport k m =
     (if \<not> tr_running (objects m ! k) then m else set_object k (\<lambda>t. t\<lparr>tr_running := False, tr_connected := False\<rparr>) m)"

definition transport_options :: "Manager \<Rightarrow> GatewayInstanceRecord \<Rightarrow> GatewayPeerTransportOptions" where
  "transport_options m gw =
     (let o' = mgr_options m in
      \<lparr>local_gateway_id = opt_gateway_id o', local_lease_token = opt_lease_token o', remote_gateway_id = gateway_id gw,
       remote_host = listen_host gw, remote_port = listen_port gw, remote_address_valid = address_valid m (listen_host gw) (listen_port gw),
       connect_timeout = opt_connect_timeout o', request_timeout = opt_request_timeout o', peer_max_body_size = opt_max_body_size o'\<rparr>)"

definition CreateTransport :: "bool \<Rightarrow> ConnectOutcome \<Rightarrow> GatewayInstanceRecord \<Rightarrow> Manager \<Rightarrow> nat option \<times> Manager" where
  "CreateTransport timer_ok outcome gw m =
     (let k = length (objects m);
          m = m\<lparr>objects := objects m @ [\<lparr>tr_options = transport_options m gw, tr_running = False, tr_connected = False, waiting = []\<rparr>]\<rparr>;
          m = store_transport_count (set_entry (gateway_id gw)
            \<lparr>entry_host = listen_host gw, entry_port = listen_port gw, entry_transport = k, reconnect_attempt = 0, reconnect_timer = None\<rparr> m)
      in case start_transport timer_ok outcome k m of
           (True, m) \<Rightarrow> (Some k, m)
         | (False, m) \<Rightarrow>
             (None, case map_of (transports m) (gateway_id gw) of
                None \<Rightarrow> m
              | Some entry \<Rightarrow>
                  if entry_transport entry = k
                  then store_transport_count (m\<lparr>transports := AList.delete (gateway_id gw) (transports m)\<rparr>) else m))"

section \<open>Private messages\<close>

definition set_context :: "nat \<Rightarrow> (ForwardChatRetryContext \<Rightarrow> ForwardChatRetryContext) \<Rightarrow> Manager \<Rightarrow> Manager" where
  "set_context i f m = m\<lparr>contexts := (contexts m)[i := f (contexts m ! i)]\<rparr>"

definition CompleteForwardChatInLoop :: "nat \<Rightarrow> ChatResult \<Rightarrow> Manager \<Rightarrow> Manager" where
  "CompleteForwardChatInLoop i r m =
     (if completed (contexts m ! i) then m
      else set_context i (\<lambda>c. c\<lparr>completed := True, results := (if has_callback c then results c @ [r] else results c)\<rparr>) m)"

text \<open>The status of a response that was not parsed is the default of \<open>GatewayForwardChatResponse\<close>.\<close>

definition response_status :: "ChatResult \<Rightarrow> GatewayForwardChatStatus" where
  "response_status r = (case response r of None \<Rightarrow> kInternalError | Some s \<Rightarrow> s)"

definition ClassifyForwardChatRetry :: "ChatResult \<Rightarrow> ForwardChatRetryReason" where
  "ClassifyForwardChatRetry r =
     (case result_status r of
        kRequestTimeout \<Rightarrow> kRetryTimeout
      | kDisconnected \<Rightarrow> kRetryDisconnected
      | kNotConnected \<Rightarrow> kRetryNotConnected
      | kOk \<Rightarrow> (if response_status r = kDuplicateInProgress then kRetryDuplicateInProgress else kNone)
      | _ \<Rightarrow> kNone)"

definition HandleForwardChatAttemptResultInLoop :: "bool \<Rightarrow> nat \<Rightarrow> ChatResult \<Rightarrow> Manager \<Rightarrow> Manager" where
  "HandleForwardChatAttemptResultInLoop timer_ok i r m =
     (if completed (contexts m ! i) then m
      else if ClassifyForwardChatRetry r = kNone \<or> retry_count (contexts m ! i) \<ge> max_request_retries (mgr_options m)
      then CompleteForwardChatInLoop i r m
      else
        let m = set_context i (\<lambda>c. c\<lparr>retry_count := retry_count c + 1\<rparr>) m
        in case RunAfter timer_ok (TmRetry i) m of
             (Some n, m) \<Rightarrow> m
           | (None, m) \<Rightarrow> CompleteForwardChatInLoop i r m)"

definition submit_chat :: "bool \<Rightarrow> nat \<Rightarrow> nat option \<Rightarrow> Manager \<Rightarrow> Manager" where
  "submit_chat timer_ok i transport m =
     (case transport of
        None \<Rightarrow> HandleForwardChatAttemptResultInLoop timer_ok i (failure kNotConnected ''unable to create gateway peer transport'') m
      | Some k \<Rightarrow>
          let c = contexts m ! i in
          if request_valid (QueuedForwardChat (message_id c) (from_user_id c) (to_user_id c) (message_body c)) \<and> tr_running (objects m ! k)
          then set_context i (\<lambda>c. c\<lparr>attempts := attempts c + 1\<rparr>) (set_object k (\<lambda>t. t\<lparr>waiting := waiting t @ [i]\<rparr>) m)
          else HandleForwardChatAttemptResultInLoop timer_ok i (failure kNotConnected ''gateway peer transport rejected request'') m)"

definition submit_group :: "nat \<Rightarrow> nat option \<Rightarrow> Manager \<Rightarrow> Manager" where
  "submit_group g transport m =
     (let q = groups m ! g in
      case transport of
        None \<Rightarrow> if group_callback q then m\<lparr>group_log := group_log m @ [GroupNotConnected g]\<rparr> else m
      | Some k \<Rightarrow>
          if request_valid (QueuedForwardGroupMessage (group_message_id q) (group_recipient q)) \<and> tr_running (objects m ! k)
          then m\<lparr>group_log := group_log m @ [GroupTaken g k]\<rparr>
          else m\<lparr>group_log := group_log m @ [GroupDropped g]\<rparr>)"

fun return_to :: "bool \<Rightarrow> Caller \<Rightarrow> nat option \<Rightarrow> Manager \<Rightarrow> Manager" where
  "return_to timer_ok (CallSubmit i) transport m = submit_chat timer_ok i transport m"
| "return_to timer_ok (CallGroup g) transport m = submit_group g transport m"
| "return_to timer_ok CallReconnect transport m = m"

definition create_and_return :: "bool \<Rightarrow> ConnectOutcome \<Rightarrow> GatewayInstanceRecord \<Rightarrow> Caller \<Rightarrow> Manager \<Rightarrow> Manager" where
  "create_and_return timer_ok outcome gw caller m =
     (case CreateTransport timer_ok outcome gw m of (transport, m) \<Rightarrow> return_to timer_ok caller transport m)"

definition GetOrCreateTransport :: "bool \<Rightarrow> ConnectOutcome \<Rightarrow> GatewayInstanceRecord \<Rightarrow> Caller \<Rightarrow> Manager \<Rightarrow> Manager" where
  "GetOrCreateTransport timer_ok outcome gw caller m =
     (if gateway_id gw = opt_gateway_id (mgr_options m) then return_to timer_ok caller None m
      else case map_of (transports m) (gateway_id gw) of
        None \<Rightarrow> create_and_return timer_ok outcome gw caller m
      | Some entry \<Rightarrow>
          let k = entry_transport entry;
              same = (entry_host entry = listen_host gw \<and> entry_port entry = listen_port gw);
              (started, m) = (if same then if tr_running (objects m ! k) then (True, m) else start_transport timer_ok outcome k m
                              else (False, m))
          in if started then return_to timer_ok caller (Some k) m
             else case CancelReconnectTimer entry m of (_, m) \<Rightarrow>
               let m = store_transport_count (m\<lparr>transports := AList.delete (gateway_id gw) (transports m)\<rparr>);
                   m = stop_transport k m
               in m\<lparr>mgr_frames := FrCreate gw caller # mgr_frames m\<rparr>)"

definition SubmitForwardChatAttemptInLoop :: "bool \<Rightarrow> ConnectOutcome \<Rightarrow> nat \<Rightarrow> Manager \<Rightarrow> Manager" where
  "SubmitForwardChatAttemptInLoop timer_ok outcome i m =
     (if completed (contexts m ! i) then m
      else if \<not> mgr_running m then CompleteForwardChatInLoop i (failure kStopped ''gateway peer manager stopped'') m
      else GetOrCreateTransport timer_ok outcome (remote_gateway (contexts m ! i)) (CallSubmit i) m)"

text \<open>The callback of the retry timer; \<open>refreshed\<close> is the answer of the resolver.\<close>

definition retry_fires :: "bool \<Rightarrow> ConnectOutcome \<Rightarrow> GatewayInstanceRecord option \<Rightarrow> nat \<Rightarrow> Manager \<Rightarrow> Manager" where
  "retry_fires timer_ok outcome refreshed i m =
     (if \<not> mgr_running m \<or> completed (contexts m ! i) then m\<lparr>dropped := (if completed (contexts m ! i) then dropped m else insert i (dropped m))\<rparr>
      else
        let m = (if resolver_set m
                 then case refreshed of None \<Rightarrow> m | Some gw \<Rightarrow> set_context i (\<lambda>c. c\<lparr>remote_gateway := gw\<rparr>) m
                 else m)
        in SubmitForwardChatAttemptInLoop timer_ok outcome i m)"

definition AttemptReconnectInLoop :: "bool \<Rightarrow> ConnectOutcome \<Rightarrow> GatewayInstanceRecord option \<Rightarrow> string \<Rightarrow> Manager \<Rightarrow> Manager" where
  "AttemptReconnectInLoop timer_ok outcome resolved gid m =
     (if \<not> mgr_running m then m
      else case map_of (transports m) gid of
        None \<Rightarrow> m
      | Some entry \<Rightarrow>
          let entry = entry\<lparr>reconnect_timer := None\<rparr>;
              k = entry_transport entry;
              m = set_entry gid entry m
          in if tr_connected (objects m ! k) then set_entry gid (entry\<lparr>reconnect_attempt := 0\<rparr>) m
             else
               let target = (if resolver_set m then resolved
                             else Some \<lparr>gateway_id = gid, listen_host = entry_host entry, listen_port = entry_port entry\<rparr>)
               in case target of
                    None \<Rightarrow> stop_transport k (store_transport_count (m\<lparr>transports := AList.delete gid (transports m)\<rparr>))
                  | Some gw \<Rightarrow>
                      if resolver_set m \<and> (gateway_id gw \<noteq> gid \<or> listen_host gw = [] \<or> listen_port gw = 0)
                      then ScheduleReconnectInLoop timer_ok gid m
                      else if listen_host gw \<noteq> entry_host entry \<or> listen_port gw \<noteq> entry_port entry
                      then GetOrCreateTransport timer_ok outcome gw CallReconnect m
                      else case start_transport timer_ok outcome k m of
                        (True, m) \<Rightarrow> m
                      | (False, m) \<Rightarrow> ScheduleReconnectInLoop timer_ok gid m)"

section \<open>Public methods\<close>

definition options_ok :: "GatewayPeerTransportManagerOptions \<Rightarrow> bool" where
  "options_ok o' \<longleftrightarrow> opt_gateway_id o' \<noteq> [] \<and> opt_lease_token o' \<noteq> []
     \<and> \<not> (reconnect_initial_delay o' \<le> 0 \<or> reconnect_max_delay o' \<le> 0 \<or> reconnect_initial_delay o' > reconnect_max_delay o')"

definition retry_options_bad :: "GatewayPeerTransportManagerOptions \<Rightarrow> bool" where
  "retry_options_bad o' \<longleftrightarrow> max_request_retries o' > 0
     \<and> (request_retry_initial_delay o' \<le> 0 \<or> request_retry_max_delay o' \<le> 0 \<or> request_retry_initial_delay o' > request_retry_max_delay o')"

definition ManagerStart :: "bool \<Rightarrow> Manager \<Rightarrow> bool \<times> Manager" where
  "ManagerStart loop_valid m =
     (if \<not> loop_valid then (False, m)
      else if \<not> options_ok (mgr_options m) then (False, m)
      else if mgr_running m then (True, m)
      else
        let m = m\<lparr>mgr_running := True\<rparr>
        in if retry_options_bad (mgr_options m) then (False, m) else (True, m))"

definition SetGatewayResolverCallback :: "bool \<Rightarrow> Manager \<Rightarrow> Manager" where
  "SetGatewayResolverCallback cb m = (if mgr_running m then m else m\<lparr>resolver_set := cb\<rparr>)"

definition ManagerStopInLoop :: "Manager \<Rightarrow> Manager" where
  "ManagerStopInLoop m =
     (fold (\<lambda>(_, entry) m. stop_transport (entry_transport entry) (snd (CancelReconnectTimer entry m))) (transports m) m)
       \<lparr>transports := [], transport_count := 0\<rparr>"

fun run_manager_functor :: "bool \<Rightarrow> ConnectOutcome \<Rightarrow> ManagerFunctor \<Rightarrow> Manager \<Rightarrow> Manager" where
  "run_manager_functor timer_ok outcome FnStopInLoop m = ManagerStopInLoop m"
| "run_manager_functor timer_ok outcome (FnForwardChatInLoop i) m = SubmitForwardChatAttemptInLoop timer_ok outcome i m"
| "run_manager_functor timer_ok outcome (FnForwardGroupMessageInLoop g) m =
     GetOrCreateTransport timer_ok outcome (group_gateway (groups m ! g)) (CallGroup g) m"

definition RunInLoop :: "bool \<Rightarrow> bool \<Rightarrow> ConnectOutcome \<Rightarrow> ManagerFunctor \<Rightarrow> Manager \<Rightarrow> Manager" where
  "RunInLoop in_loop timer_ok outcome f m =
     (if in_loop then run_manager_functor timer_ok outcome f m else m\<lparr>mgr_transit := mgr_transit m @ [f]\<rparr>)"

definition ManagerStop :: "bool \<Rightarrow> Manager \<Rightarrow> Manager" where
  "ManagerStop in_loop m =
     (if \<not> mgr_running m then m
      else RunInLoop in_loop True ConnectPending FnStopInLoop (m\<lparr>mgr_running := False\<rparr>))"

definition ForwardChat :: "bool \<Rightarrow> bool \<Rightarrow> ConnectOutcome \<Rightarrow> GatewayInstanceRecord \<Rightarrow> u64 \<Rightarrow> u64 \<Rightarrow> u64 \<Rightarrow> byte list \<Rightarrow> bool \<Rightarrow> Manager \<Rightarrow> bool \<times> Manager" where
  "ForwardChat in_loop timer_ok outcome gw mid from to body cb m =
     (if \<not> mgr_running m \<or> mid = 0 \<or> gateway_id gw = [] \<or> listen_host gw = [] \<or> listen_port gw = 0 \<or> from = 0 \<or> to = 0 \<or> body = []
      then (False, m)
      else
        let i = length (contexts m);
            m = m\<lparr>contexts := contexts m @ [\<lparr>remote_gateway = gw, message_id = mid, from_user_id = from, to_user_id = to,
              message_body = body, has_callback = cb, retry_count = 0, completed = False, attempts = 0, results = []\<rparr>]\<rparr>
        in (True, RunInLoop in_loop timer_ok outcome (FnForwardChatInLoop i) m))"

definition ForwardGroupMessage :: "bool \<Rightarrow> bool \<Rightarrow> ConnectOutcome \<Rightarrow> GatewayInstanceRecord \<Rightarrow> u64 \<Rightarrow> u64 \<Rightarrow> bool \<Rightarrow> Manager \<Rightarrow> bool \<times> Manager" where
  "ForwardGroupMessage in_loop timer_ok outcome gw mid recipient cb m =
     (if \<not> mgr_running m \<or> mid = 0 \<or> recipient = 0 \<or> gateway_id gw = [] \<or> listen_host gw = [] \<or> listen_port gw = 0
      then (False, m)
      else
        let g = length (groups m);
            m = m\<lparr>groups := groups m @ [\<lparr>group_gateway = gw, group_message_id = mid, group_recipient = recipient, group_callback = cb\<rparr>]\<rparr>
        in (True, RunInLoop in_loop timer_ok outcome (FnForwardGroupMessageInLoop g) m))"

section \<open>Events\<close>

datatype ManagerEvent =
    MeStart bool | MeStop bool | MeSetResolver bool
  | MeForwardChat bool bool ConnectOutcome GatewayInstanceRecord u64 u64 u64 "byte list" bool
  | MeForwardGroup bool bool ConnectOutcome GatewayInstanceRecord u64 u64 bool
  | MeArrive nat
  | MeFunctor bool ConnectOutcome
  | MeTimer bool ConnectOutcome "GatewayInstanceRecord option" nat
  | MeFrame bool ConnectOutcome
  | MeResult bool nat nat ChatResult  \<comment> \<open>a transport calls the callback of a request\<close>
  | MeUp bool nat  \<comment> \<open>the connection of a transport is established\<close>
  | MeDown nat  \<comment> \<open>it is lost, or could not be established\<close>

fun run_manager_frame :: "bool \<Rightarrow> ConnectOutcome \<Rightarrow> ManagerFrame \<Rightarrow> Manager \<Rightarrow> Manager" where
  "run_manager_frame timer_ok outcome (FrCreate gw caller) m = create_and_return timer_ok outcome gw caller m"
| "run_manager_frame timer_ok outcome (FrNotify k) m = HandleTransportConnectionState timer_ok k False m"

fun fire :: "bool \<Rightarrow> ConnectOutcome \<Rightarrow> GatewayInstanceRecord option \<Rightarrow> ManagerTimer \<Rightarrow> Manager \<Rightarrow> Manager" where
  "fire timer_ok outcome found (TmRetry i) m = retry_fires timer_ok outcome found i m"
| "fire timer_ok outcome found (TmReconnect gid) m = AttemptReconnectInLoop timer_ok outcome found gid m"

fun manager_do :: "ManagerEvent \<Rightarrow> Manager \<Rightarrow> Manager" where
  "manager_do (MeStart loop_valid) m = snd (ManagerStart loop_valid m)"
| "manager_do (MeStop in_loop) m = ManagerStop in_loop m"
| "manager_do (MeSetResolver cb) m = SetGatewayResolverCallback cb m"
| "manager_do (MeForwardChat in_loop timer_ok outcome gw mid from to body cb) m =
     snd (ForwardChat in_loop timer_ok outcome gw mid from to body cb m)"
| "manager_do (MeForwardGroup in_loop timer_ok outcome gw mid recipient cb) m =
     snd (ForwardGroupMessage in_loop timer_ok outcome gw mid recipient cb m)"
| "manager_do (MeArrive n) m =
     (if n < length (mgr_transit m)
      then m\<lparr>mgr_functors := mgr_functors m @ [mgr_transit m ! n], mgr_transit := take n (mgr_transit m) @ drop (Suc n) (mgr_transit m)\<rparr> else m)"
| "manager_do (MeFunctor timer_ok outcome) m =
     (case (mgr_frames m, mgr_functors m) of
        ([], f # fs) \<Rightarrow> run_manager_functor timer_ok outcome f (m\<lparr>mgr_functors := fs\<rparr>) | _ \<Rightarrow> m)"
| "manager_do (MeTimer timer_ok outcome found n) m =
     (if mgr_frames m = [] \<and> n < length (timers m)
      then fire timer_ok outcome found (snd (timers m ! n)) (m\<lparr>timers := take n (timers m) @ drop (Suc n) (timers m)\<rparr>) else m)"
| "manager_do (MeFrame timer_ok outcome) m =
     (case mgr_frames m of [] \<Rightarrow> m | f # fs \<Rightarrow> run_manager_frame timer_ok outcome f (m\<lparr>mgr_frames := fs\<rparr>))"
| "manager_do (MeResult timer_ok k i r) m =
     (if k < length (objects m) \<and> i \<in> set (waiting (objects m ! k))
      then HandleForwardChatAttemptResultInLoop timer_ok i r (set_object k (\<lambda>t. t\<lparr>waiting := remove1 i (waiting t)\<rparr>) m) else m)"
| "manager_do (MeUp timer_ok k) m =
     (if mgr_frames m = [] \<and> k < length (objects m) \<and> tr_running (objects m ! k)
      then HandleTransportConnectionState timer_ok k True (set_object k (\<lambda>t. t\<lparr>tr_connected := True\<rparr>) m) else m)"
| "manager_do (MeDown k) m =
     (if k < length (objects m)
      then set_object k (\<lambda>t. t\<lparr>tr_running := False, tr_connected := False\<rparr>) (m\<lparr>mgr_frames := FrNotify k # mgr_frames m\<rparr>) else m)"

definition manager_step :: "Manager \<Rightarrow> ManagerEvent \<Rightarrow> Manager" where
  "manager_step m ev = manager_do ev m"

section \<open>What the operations on the table leave alone\<close>

lemma frame_simps [simp]:
  "contexts (set_entry gid e m) = contexts m" "objects (set_entry gid e m) = objects m" "timers (set_entry gid e m) = timers m"
  "mgr_next_timer (set_entry gid e m) = mgr_next_timer m" "mgr_transit (set_entry gid e m) = mgr_transit m"
  "mgr_functors (set_entry gid e m) = mgr_functors m" "mgr_frames (set_entry gid e m) = mgr_frames m" "dropped (set_entry gid e m) = dropped m"
  "mgr_options (set_entry gid e m) = mgr_options m" "mgr_running (set_entry gid e m) = mgr_running m"
  "transports (set_entry gid e m) = AList.update gid e (transports m)"
  "contexts (set_object k f m) = contexts m" "timers (set_object k f m) = timers m" "transports (set_object k f m) = transports m"
  "mgr_next_timer (set_object k f m) = mgr_next_timer m" "mgr_transit (set_object k f m) = mgr_transit m"
  "mgr_functors (set_object k f m) = mgr_functors m" "mgr_frames (set_object k f m) = mgr_frames m" "dropped (set_object k f m) = dropped m"
  "mgr_options (set_object k f m) = mgr_options m" "mgr_running (set_object k f m) = mgr_running m"
  "objects (set_object k f m) = (objects m)[k := f (objects m ! k)]"
  "contexts (store_transport_count m) = contexts m" "timers (store_transport_count m) = timers m" "transports (store_transport_count m) = transports m"
  "mgr_next_timer (store_transport_count m) = mgr_next_timer m" "mgr_transit (store_transport_count m) = mgr_transit m"
  "mgr_functors (store_transport_count m) = mgr_functors m" "mgr_frames (store_transport_count m) = mgr_frames m"
  "dropped (store_transport_count m) = dropped m" "mgr_options (store_transport_count m) = mgr_options m"
  "mgr_running (store_transport_count m) = mgr_running m" "objects (store_transport_count m) = objects m"
  "contexts (cancel_timer n m) = contexts m" "transports (cancel_timer n m) = transports m"
  "mgr_next_timer (cancel_timer n m) = mgr_next_timer m" "mgr_transit (cancel_timer n m) = mgr_transit m"
  "mgr_functors (cancel_timer n m) = mgr_functors m" "mgr_frames (cancel_timer n m) = mgr_frames m" "dropped (cancel_timer n m) = dropped m"
  "mgr_options (cancel_timer n m) = mgr_options m" "mgr_running (cancel_timer n m) = mgr_running m" "objects (cancel_timer n m) = objects m"
  "timers (cancel_timer n m) = filter (\<lambda>(k, _). k \<noteq> n) (timers m)"
  "timers (set_context i g m) = timers m" "transports (set_context i g m) = transports m" "objects (set_context i g m) = objects m"
  "mgr_next_timer (set_context i g m) = mgr_next_timer m" "mgr_transit (set_context i g m) = mgr_transit m"
  "mgr_functors (set_context i g m) = mgr_functors m" "mgr_frames (set_context i g m) = mgr_frames m" "dropped (set_context i g m) = dropped m"
  "mgr_options (set_context i g m) = mgr_options m" "mgr_running (set_context i g m) = mgr_running m"
  "contexts (set_context i g m) = (contexts m)[i := g (contexts m ! i)]"
  by (simp_all add: set_entry_def set_object_def store_transport_count_def cancel_timer_def set_context_def)

fun timer_ctx :: "ManagerTimer \<Rightarrow> nat list" where
  "timer_ctx (TmRetry i) = [i]" | "timer_ctx (TmReconnect gid) = []"

fun functor_ctx :: "ManagerFunctor \<Rightarrow> nat list" where
  "functor_ctx (FnForwardChatInLoop i) = [i]" | "functor_ctx FnStopInLoop = []" | "functor_ctx (FnForwardGroupMessageInLoop g) = []"

fun caller_ctx :: "Caller \<Rightarrow> nat list" where
  "caller_ctx (CallSubmit i) = [i]" | "caller_ctx (CallGroup g) = []" | "caller_ctx CallReconnect = []"

fun frame_ctx :: "ManagerFrame \<Rightarrow> nat list" where
  "frame_ctx (FrCreate gw caller) = caller_ctx caller" | "frame_ctx (FrNotify k) = []"

definition retries :: "(nat \<times> ManagerTimer) list \<Rightarrow> nat list" where
  "retries ts = concat (map (timer_ctx \<circ> snd) ts)"

definition waits :: "Transport list \<Rightarrow> nat list" where
  "waits ts = concat (map waiting ts)"

text \<open>Timer ids are fresh, an entry knows its own transport and no timer but its own.\<close>

definition tables_ok :: "Manager \<Rightarrow> bool" where
  "tables_ok m \<longleftrightarrow> (\<forall>(n, t)\<in>set (timers m). n < mgr_next_timer m) \<and> distinct (map fst (timers m))
     \<and> (\<forall>(gid, e)\<in>set (transports m). entry_transport e < length (objects m)
          \<and> (\<forall>n. reconnect_timer e = Some n \<longrightarrow> n < mgr_next_timer m \<and> (\<forall>t. (n, t) \<in> set (timers m) \<longrightarrow> t = TmReconnect gid)))"

text \<open>The private messages are where they were.\<close>

definition chat_same :: "Manager \<Rightarrow> Manager \<Rightarrow> bool" where
  "chat_same m m' \<longleftrightarrow> contexts m' = contexts m \<and> mgr_transit m' = mgr_transit m \<and> mgr_functors m' = mgr_functors m
     \<and> mgr_frames m' = mgr_frames m \<and> dropped m' = dropped m \<and> mgr_options m' = mgr_options m \<and> mgr_running m' = mgr_running m
     \<and> retries (timers m') = retries (timers m) \<and> waits (objects m') = waits (objects m) \<and> length (objects m) \<le> length (objects m')"

lemma chat_same_refl [simp]: "chat_same m m"
  by (simp add: chat_same_def)

lemma chat_same_trans: "\<lbrakk>chat_same a b; chat_same b c\<rbrakk> \<Longrightarrow> chat_same a c"
  by (auto simp: chat_same_def)

lemma waits_update: "waiting x = waiting (ts ! k) \<Longrightarrow> waits (ts[k := x]) = waits ts"
proof -
  assume "waiting x = waiting (ts ! k)"
  then have "map waiting (ts[k := x]) = map waiting ts" by (metis list_update_beyond list_update_id map_update nth_map linorder_not_less length_map)
  then show ?thesis by (simp add: waits_def)
qed

lemma set_update_entries: "(gid', e') \<in> set (AList.update gid e al) \<Longrightarrow> (gid', e') = (gid, e) \<or> (gid', e') \<in> set al"
  by (induction al) (auto split: if_splits)

lemma set_delete_entries: "(gid', e') \<in> set (AList.delete gid al) \<Longrightarrow> (gid', e') \<in> set al"
  by (induction al) (auto split: if_splits)

text \<open>An operation on the table keeps both.\<close>

definition calm :: "Manager \<Rightarrow> Manager \<Rightarrow> bool" where
  "calm m m' \<longleftrightarrow> tables_ok m' \<and> chat_same m m'"

lemma calm_trans: "\<lbrakk>calm a b; calm b c\<rbrakk> \<Longrightarrow> calm a c"
  by (auto simp: calm_def intro: chat_same_trans)

lemma set_entry_calm:
  assumes "tables_ok m" and "entry_transport e < length (objects m)"
    and "\<And>n. reconnect_timer e = Some n \<Longrightarrow> n < mgr_next_timer m \<and> (\<forall>t. (n, t) \<in> set (timers m) \<longrightarrow> t = TmReconnect gid)"
  shows "calm m (set_entry gid e m)"
  using assms by (auto simp: calm_def tables_ok_def chat_same_def dest!: set_update_entries)

lemma set_object_calm:
  assumes "tables_ok m" and "waiting (f (objects m ! k)) = waiting (objects m ! k)"
  shows "calm m (set_object k f m)"
  using assms by (auto simp: calm_def tables_ok_def chat_same_def waits_update)

lemma delete_entry_calm:
  assumes "tables_ok m"
  shows "calm m (store_transport_count (m\<lparr>transports := AList.delete gid (transports m)\<rparr>))"
  using assms by (auto simp: calm_def tables_ok_def chat_same_def dest!: set_delete_entries)

lemma entryD:
  assumes "tables_ok m" and "map_of (transports m) gid = Some e"
  shows "entry_transport e < length (objects m)"
    "reconnect_timer e = Some n \<Longrightarrow> n < mgr_next_timer m \<and> (\<forall>t. (n, t) \<in> set (timers m) \<longrightarrow> t = TmReconnect gid)"
  using assms by (auto simp: tables_ok_def dest!: map_of_SomeD)

lemma RunAfter_reconnect_calm:
  assumes "tables_ok m" and "RunAfter timer_ok (TmReconnect gid) m = (r, m')"
  shows "calm m m'" "r = Some n \<Longrightarrow> n = mgr_next_timer m \<and> mgr_next_timer m' = Suc n \<and> (n, TmReconnect gid) \<in> set (timers m')"
    "transports m' = transports m" "objects m' = objects m"
  using assms by (auto simp: RunAfter_def calm_def tables_ok_def chat_same_def retries_def split: if_splits prod.splits) force+

lemma retries_cancel:
  assumes "\<And>t. (n, t) \<in> set ts \<Longrightarrow> timer_ctx t = []"
  shows "retries (filter (\<lambda>(k, _). k \<noteq> n) ts) = retries ts"
  using assms by (induction ts) (auto simp: retries_def)

lemma cancel_timer_calm:
  assumes "tables_ok m" and "\<And>t. (n, t) \<in> set (timers m) \<Longrightarrow> t = TmReconnect gid"
  shows "calm m (cancel_timer n m)"
  using assms retries_cancel [of n "timers m"]
  by (fastforce simp: calm_def tables_ok_def chat_same_def distinct_map inj_on_def)

lemma CancelReconnectTimer_calm:
  assumes "tables_ok m" and "map_of (transports m) gid = Some e" and "CancelReconnectTimer e m = (e', m')"
  shows "calm m m'" "e' = e\<lparr>reconnect_timer := None\<rparr>" "objects m' = objects m" "transports m' = transports m"
  using assms cancel_timer_calm [OF assms(1)] entryD(2) [OF assms(1,2)]
  by (auto simp: CancelReconnectTimer_def calm_def split: option.splits)

lemma ScheduleReconnectInLoop_calm:
  assumes "tables_ok m"
  shows "calm m (ScheduleReconnectInLoop timer_ok gid m)"
proof (cases "\<not> mgr_running m \<or> map_of (transports m) gid = None")
  case True
  with assms show ?thesis by (auto simp: ScheduleReconnectInLoop_def calm_def split: option.splits)
next
  case False
  then obtain e where e: "mgr_running m" "map_of (transports m) gid = Some e" by auto
  obtain r m' where r: "RunAfter timer_ok (TmReconnect gid) m = (r, m')" by fastforce
  note A = RunAfter_reconnect_calm [OF assms r]
  show ?thesis
  proof (cases "tr_connected (objects m ! entry_transport e) \<or> reconnect_timer e \<noteq> None \<or> r = None")
    case True
    with e r A(1) assms show ?thesis by (auto simp: ScheduleReconnectInLoop_def calm_def split: option.splits)
  next
    case False
    then obtain n where n: "r = Some n" by auto
    have ok: "tables_ok m'" using A(1) by (simp add: calm_def)
    have "calm m' (set_entry gid (e\<lparr>reconnect_timer := Some n, reconnect_attempt := reconnect_attempt e + 1\<rparr>) m')"
    proof (rule set_entry_calm [OF ok])
      show "entry_transport (e\<lparr>reconnect_timer := Some n, reconnect_attempt := reconnect_attempt e + 1\<rparr>) < length (objects m')"
        using entryD(1) [OF assms e(2)] A(4) by simp
    next
      fix k assume "reconnect_timer (e\<lparr>reconnect_timer := Some n, reconnect_attempt := reconnect_attempt e + 1\<rparr>) = Some k"
      then have k: "k = n" by simp
      have "(n, TmReconnect gid) \<in> set (timers m')" "n < mgr_next_timer m'" using A(2) [OF n] by auto
      moreover have "t = TmReconnect gid" if "(n, t) \<in> set (timers m')" for t
        using ok that calculation(1) by (auto simp: tables_ok_def intro: eq_key_imp_eq_value)
      ultimately show "k < mgr_next_timer m' \<and> (\<forall>t. (k, t) \<in> set (timers m') \<longrightarrow> t = TmReconnect gid)" using k by blast
    qed
    with A(1) have "calm m (set_entry gid (e\<lparr>reconnect_timer := Some n, reconnect_attempt := reconnect_attempt e + 1\<rparr>) m')"
      by (rule calm_trans)
    with False e r n show ?thesis by (simp add: ScheduleReconnectInLoop_def)
  qed
qed

lemma HandleTransportConnectionState_calm:
  assumes "tables_ok m"
  shows "calm m (HandleTransportConnectionState timer_ok k up m)"
proof (cases "map_of (transports m) (remote_gateway_id (tr_options (objects m ! k)))")
  case None
  with assms show ?thesis by (simp add: HandleTransportConnectionState_def calm_def)
next
  case (Some e)
  obtain e' m' where c: "CancelReconnectTimer e m = (e', m')" by fastforce
  note C = CancelReconnectTimer_calm [OF assms Some c]
  have "calm m' (set_entry (remote_gateway_id (tr_options (objects m ! k))) (e'\<lparr>reconnect_attempt := 0\<rparr>) m')"
    using C entryD(1) [OF assms Some] by (intro set_entry_calm) (simp_all add: calm_def)
  with C(1) have "calm m (set_entry (remote_gateway_id (tr_options (objects m ! k))) (e'\<lparr>reconnect_attempt := 0\<rparr>) m')"
    by (rule calm_trans)
  with Some c ScheduleReconnectInLoop_calm [OF assms] assms show ?thesis
    by (simp add: HandleTransportConnectionState_def Let_def calm_def)
qed

lemma start_transport_calm:
  assumes "tables_ok m" and "start_transport timer_ok outcome k m = (r, m')"
  shows "calm m m'"
proof -
  have "calm m (HandleTransportConnectionState timer_ok k up (set_object k (\<lambda>t. t\<lparr>tr_running := a, tr_connected := b\<rparr>) m))" for up a b
  proof -
    have "calm m (set_object k (\<lambda>t. t\<lparr>tr_running := a, tr_connected := b\<rparr>) m)" using assms(1) by (rule set_object_calm) simp
    then show ?thesis using HandleTransportConnectionState_calm calm_trans unfolding calm_def by blast
  qed
  moreover have "calm m (set_object k (\<lambda>t. t\<lparr>tr_running := True\<rparr>) m)" using assms(1) by (rule set_object_calm) simp
  moreover have "calm m m" using assms(1) by (simp add: calm_def)
  ultimately show ?thesis using assms(2) by (cases outcome) (auto simp: start_transport_def split: if_splits)
qed

lemma stop_transport_calm:
  assumes "tables_ok m"
  shows "calm m (stop_transport k m)"
  using assms set_object_calm [OF assms, of "\<lambda>t. t\<lparr>tr_running := False, tr_connected := False\<rparr>"]
  by (auto simp: stop_transport_def calm_def)

lemma new_object_calm:
  assumes "tables_ok m" and "waiting t = []"
  shows "calm m (m\<lparr>objects := objects m @ [t]\<rparr>)"
  using assms by (fastforce simp: calm_def tables_ok_def chat_same_def waits_def)

lemma store_count_calm: "tables_ok m \<Longrightarrow> calm m (store_transport_count m)"
  by (simp add: calm_def tables_ok_def chat_same_def)

lemma CreateTransport_calm:
  assumes "tables_ok m" and "CreateTransport timer_ok outcome gw m = (r, m')"
  shows "calm m m'" "r = Some k \<Longrightarrow> k < length (objects m')"
proof -
  define m1 where "m1 = m\<lparr>objects := objects m @ [\<lparr>tr_options = transport_options m gw, tr_running = False, tr_connected = False, waiting = []\<rparr>]\<rparr>"
  define e where "e = \<lparr>entry_host = listen_host gw, entry_port = listen_port gw, entry_transport = length (objects m),
    reconnect_attempt = 0, reconnect_timer = None\<rparr>"
  define m2 where "m2 = store_transport_count (set_entry (gateway_id gw) e m1)"
  have 1: "calm m m1" unfolding m1_def using assms(1) by (rule new_object_calm) simp
  then have "calm m1 (set_entry (gateway_id gw) e m1)"
    by (intro set_entry_calm) (simp_all add: calm_def e_def m1_def)
  with 1 have "calm m (set_entry (gateway_id gw) e m1)" by (rule calm_trans)
  then have 2: "calm m m2" unfolding m2_def using store_count_calm calm_trans unfolding calm_def by blast
  obtain s m3 where s: "start_transport timer_ok outcome (length (objects m)) m2 = (s, m3)" by fastforce
  have 3: "calm m m3" using 2 start_transport_calm [OF _ s] calm_trans unfolding calm_def by blast
  have len: "length (objects m) < length (objects m2)" by (simp add: m2_def m1_def)
  also have "\<dots> \<le> length (objects m3)" using start_transport_calm [OF _ s] 2 by (simp add: calm_def chat_same_def)
  finally have 4: "length (objects m) < length (objects m3)" .
  have d: "calm m (store_transport_count (m3\<lparr>transports := AList.delete (gateway_id gw) (transports m3)\<rparr>))"
    using 3 delete_entry_calm [of m3] calm_trans unfolding calm_def by blast
  have eq: "CreateTransport timer_ok outcome gw m =
      (case start_transport timer_ok outcome (length (objects m)) m2 of
           (True, m') \<Rightarrow> (Some (length (objects m)), m')
         | (False, m') \<Rightarrow>
             (None, case map_of (transports m') (gateway_id gw) of
                None \<Rightarrow> m'
              | Some entry \<Rightarrow>
                  if entry_transport entry = length (objects m)
                  then store_transport_count (m'\<lparr>transports := AList.delete (gateway_id gw) (transports m')\<rparr>) else m'))"
    by (simp add: CreateTransport_def Let_def m2_def m1_def e_def)
  show "calm m m'" using assms(2) 3 d unfolding eq s by (cases s) (auto split: option.splits if_splits)
  show "r = Some k \<Longrightarrow> k < length (objects m')"
    using assms(2) 4 unfolding eq s by (cases s) (auto simp: m1_def split: option.splits if_splits)
qed

section \<open>Invariant of the private messages\<close>

text \<open>Where an unanswered request can be: on its way to the loop, in the loop, in a frame, waiting for its retry, or with a transport.\<close>

definition places :: "Manager \<Rightarrow> nat multiset" where
  "places m = mset (concat (map functor_ctx (mgr_transit m))) + mset (concat (map functor_ctx (mgr_functors m)))
     + mset (concat (map frame_ctx (mgr_frames m))) + mset (retries (timers m)) + mset (waits (objects m))"

definition live :: "Manager \<Rightarrow> nat \<Rightarrow> bool" where
  "live m i \<longleftrightarrow> i < length (contexts m) \<and> \<not> completed (contexts m ! i) \<and> i \<notin> dropped m"

text \<open>\<open>w\<close>: how many transports, or operations with an answer in hand, have the request.\<close>

definition context_ok :: "nat \<Rightarrow> nat \<Rightarrow> ForwardChatRetryContext \<Rightarrow> bool" where
  "context_ok mx w c \<longleftrightarrow> retry_count c \<le> mx \<and> attempts c \<le> retry_count c + w + (if completed c then 1 else 0)
     \<and> length (results c) = (if completed c \<and> has_callback c then 1 else 0)"

text \<open>An operation has the requests \<open>H\<close> in hand before an attempt and the requests \<open>R\<close> in hand after one.\<close>

definition manager_ok :: "nat multiset \<Rightarrow> nat multiset \<Rightarrow> Manager \<Rightarrow> bool" where
  "manager_ok H R m \<longleftrightarrow> tables_ok m \<and> (\<forall>i. count (places m) i + count H i + count R i = (if live m i then 1 else 0))
     \<and> (\<forall>i<length (contexts m).
          context_ok (max_request_retries (mgr_options m)) (count (mset (waits (objects m))) i + count R i) (contexts m ! i))
     \<and> (\<forall>i\<in>dropped m. i < length (contexts m) \<and> \<not> completed (contexts m ! i))"

lemma manager_ok_calm: "\<lbrakk>manager_ok H R m; calm m m'\<rbrakk> \<Longrightarrow> manager_ok H R m'"
  by (simp add: manager_ok_def calm_def chat_same_def places_def live_def)

lemma manager_ok_tables: "manager_ok H R m \<Longrightarrow> tables_ok m"
  by (simp add: manager_ok_def)

lemma in_hand_live:
  assumes "manager_ok H R m" and "i \<in># H + R"
  shows "live m i" "i < length (contexts m)" "\<not> completed (contexts m ! i)" "i \<notin> dropped m" "count (places m) i = 0"
    "count (mset (waits (objects m))) i = 0"
proof -
  have "count (H + R) i \<ge> 1" using assms(2) by (simp add: Suc_leI)
  moreover have c: "count (places m) i + count H i + count R i = (if live m i then 1 else 0)"
    using assms(1) unfolding manager_ok_def by blast
  ultimately show "live m i" "count (places m) i = 0" by (auto split: if_splits)
  then show "i < length (contexts m)" "\<not> completed (contexts m ! i)" "i \<notin> dropped m" "count (mset (waits (objects m))) i = 0"
    by (simp_all add: live_def places_def)
qed

lemma manager_ok_answered: "manager_ok {#i#} {#} m \<Longrightarrow> manager_ok {#} {#i#} m"
  by (auto simp: manager_ok_def context_ok_def)

text \<open>A change of one context, of what is in hand and of the places.\<close>

lemma manager_ok_move:
  assumes ok: "manager_ok H R m" and tables: "tables_ok m'"
    and same: "mgr_options m' = mgr_options m" "contexts m' = (contexts m)[i := c]"
    and others: "\<And>j. j \<noteq> i \<Longrightarrow> live m' j = live m j \<and> count (places m') j + count H' j + count R' j = count (places m) j + count H j + count R j
        \<and> count (mset (waits (objects m'))) j + count R' j = count (mset (waits (objects m))) j + count R j"
    and here: "count (places m') i + count H' i + count R' i = (if live m' i then 1 else 0)"
    and known: "i < length (contexts m)" "dropped m' \<subseteq> insert i (dropped m)"
    and gone: "i \<in> dropped m' \<Longrightarrow> \<not> completed c"
    and ctx: "context_ok (max_request_retries (mgr_options m)) (count (mset (waits (objects m'))) i + count R' i) c"
  shows "manager_ok H' R' m'"
  unfolding manager_ok_def
proof (intro conjI allI impI ballI)
  show "tables_ok m'" by (rule tables)
next
  fix j assume "j \<in> dropped m'"
  with ok known gone show "j < length (contexts m')" "\<not> completed (contexts m' ! j)"
    by (cases "j = i"; auto simp: manager_ok_def same)+
next
  fix j
  have "count (places m) j + count H j + count R j = (if live m j then 1 else 0)" using ok unfolding manager_ok_def by blast
  with others [of j] here show "count (places m') j + count H' j + count R' j = (if live m' j then 1 else 0)"
    by (cases "j = i") simp_all
next
  fix j assume j: "j < length (contexts m')"
  show "context_ok (max_request_retries (mgr_options m')) (count (mset (waits (objects m'))) j + count R' j) (contexts m' ! j)"
  proof (cases "j = i")
    case True
    with j ctx show ?thesis by (simp add: same)
  next
    case False
    moreover have "context_ok (max_request_retries (mgr_options m)) (count (mset (waits (objects m))) j + count R j) (contexts m ! j)"
      using ok j by (simp add: manager_ok_def same)
    ultimately show ?thesis using others [of j] by (simp add: same)
  qed
qed

lemma manager_ok_context:
  "manager_ok H R m \<Longrightarrow> i < length (contexts m) \<Longrightarrow>
    context_ok (max_request_retries (mgr_options m)) (count (mset (waits (objects m))) i + count R i) (contexts m ! i)"
  by (simp add: manager_ok_def)

lemma places_frame [simp]: "places (set_context i f m) = places m"
  by (simp add: places_def)

lemma CompleteForwardChatInLoop_ok:
  assumes "manager_ok {#} {#i#} m"
  shows "manager_ok {#} {#} (CompleteForwardChatInLoop i r m)"
proof -
  note L = in_hand_live [OF assms, of i, simplified]
  let ?c = "(contexts m ! i)\<lparr>completed := True, results := (if has_callback (contexts m ! i) then results (contexts m ! i) @ [r] else results (contexts m ! i))\<rparr>"
  have "manager_ok {#} {#} (set_context i (\<lambda>c. c\<lparr>completed := True, results := (if has_callback c then results c @ [r] else results c)\<rparr>) m)"
  proof (rule manager_ok_move [OF assms, where c = ?c and i = i])
    show "context_ok (max_request_retries (mgr_options m)) (count (mset (waits (objects (set_context i (\<lambda>c. c\<lparr>completed := True, results := (if has_callback c then results c @ [r] else results c)\<rparr>) m)))) i + count {#} i) ?c"
      using manager_ok_context [OF assms L(2)] L by (simp add: context_ok_def)
  qed (use assms L in \<open>auto simp: live_def manager_ok_def tables_ok_def\<close>)
  with L show ?thesis by (simp add: CompleteForwardChatInLoop_def)
qed

lemma RunAfter_retry:
  assumes "tables_ok m" and "RunAfter timer_ok (TmRetry i) m = (r, m')"
  shows "tables_ok m'" "contexts m' = contexts m" "mgr_options m' = mgr_options m" "dropped m' = dropped m" "objects m' = objects m"
    "places m' = places m + (if r = None then {#} else {#i#})" "r = None \<Longrightarrow> m' = m"
  using assms by (auto simp: RunAfter_def tables_ok_def places_def retries_def split: if_splits) force+

lemma HandleForwardChatAttemptResultInLoop_ok:
  assumes "manager_ok {#} {#i#} m"
  shows "manager_ok {#} {#} (HandleForwardChatAttemptResultInLoop timer_ok i r m)"
proof -
  note L = in_hand_live [OF assms, of i, simplified]
  show ?thesis
  proof (cases "ClassifyForwardChatRetry r = kNone \<or> retry_count (contexts m ! i) \<ge> max_request_retries (mgr_options m)")
    case True
    with L CompleteForwardChatInLoop_ok [OF assms] show ?thesis by (simp add: HandleForwardChatAttemptResultInLoop_def)
  next
    case False
    let ?m = "set_context i (\<lambda>c. c\<lparr>retry_count := retry_count c + 1\<rparr>) m"
    have tab: "tables_ok ?m" using assms by (simp add: manager_ok_def tables_ok_def)
    obtain n m' where n: "RunAfter timer_ok (TmRetry i) ?m = (n, m')" by fastforce
    note A = RunAfter_retry [OF tab n]
    have C: "context_ok (max_request_retries (mgr_options m)) (count (mset (waits (objects m))) i + 1) (contexts m ! i)"
      using manager_ok_context [OF assms L(2)] by simp
    show ?thesis
    proof (cases n)
      case None
      have "manager_ok {#} {#i#} ?m"
        by (rule manager_ok_move [OF assms, where i = i and c = "(contexts m ! i)\<lparr>retry_count := retry_count (contexts m ! i) + 1\<rparr>"])
          (use tab L C False in \<open>auto simp: live_def context_ok_def\<close>)
      with None A(7) n False L CompleteForwardChatInLoop_ok show ?thesis
        by (simp add: HandleForwardChatAttemptResultInLoop_def)
    next
      case (Some k)
      have "manager_ok {#} {#} m'"
        by (rule manager_ok_move [OF assms, where i = i and c = "(contexts m ! i)\<lparr>retry_count := retry_count (contexts m ! i) + 1\<rparr>"])
          (use A L C False Some in \<open>auto simp: live_def context_ok_def\<close>)
      with Some n False L show ?thesis by (simp add: HandleForwardChatAttemptResultInLoop_def)
    qed
  qed
qed

lemma waits_mset_update:
  "k < length ts \<Longrightarrow> mset (waits (ts[k := x])) + mset (waiting (ts ! k)) = mset (waits ts) + mset (waiting x)"
proof (induction ts arbitrary: k)
  case (Cons t ts)
  then show ?case by (cases k) (auto simp: waits_def union_assoc)
qed simp

lemma waits_add:
  "k < length ts \<Longrightarrow> mset (waits (ts[k := (ts ! k)\<lparr>waiting := waiting (ts ! k) @ [i]\<rparr>])) = mset (waits ts) + {#i#}"
  using waits_mset_update [of k ts "(ts ! k)\<lparr>waiting := waiting (ts ! k) @ [i]\<rparr>"] by simp

lemma waits_remove:
  assumes "k < length ts" and "i \<in> set (waiting (ts ! k))"
  shows "mset (waits ts) = mset (waits (ts[k := (ts ! k)\<lparr>waiting := remove1 i (waiting (ts ! k))\<rparr>])) + {#i#}"
proof -
  let ?x = "(ts ! k)\<lparr>waiting := remove1 i (waiting (ts ! k))\<rparr>"
  have "mset (waiting (ts ! k)) = mset (waiting ?x) + {#i#}" using assms(2) by simp
  then have "(mset (waits (ts[k := ?x])) + {#i#}) + mset (waiting ?x) = mset (waits ts) + mset (waiting ?x)"
    using waits_mset_update [OF assms(1), of ?x] by (metis (no_types, lifting) union_assoc union_commute)
  then show ?thesis by (metis add_right_cancel)
qed

lemma submit_chat_ok:
  assumes "manager_ok {#i#} {#} m" and "\<And>k. transport = Some k \<Longrightarrow> k < length (objects m)"
  shows "manager_ok {#} {#} (submit_chat timer_ok i transport m)"
proof -
  note L = in_hand_live [OF assms(1), of i, simplified]
  note fails = HandleForwardChatAttemptResultInLoop_ok [OF manager_ok_answered [OF assms(1)]]
  have taken: "manager_ok {#} {#} (set_context i (\<lambda>c. c\<lparr>attempts := attempts c + 1\<rparr>) (set_object k (\<lambda>t. t\<lparr>waiting := waiting t @ [i]\<rparr>) m))"
    (is "manager_ok _ _ ?m") if k: "k < length (objects m)" for k
  proof (rule manager_ok_move [OF assms(1), where i = i and c = "(contexts m ! i)\<lparr>attempts := attempts (contexts m ! i) + 1\<rparr>"])
    show "tables_ok ?m" using assms(1) by (simp add: manager_ok_def tables_ok_def)
    show "count (places ?m) i + count {#} i + count {#} i = (if live ?m i then 1 else 0)"
      using L by (simp add: places_def waits_add [OF k] live_def)
    show "context_ok (max_request_retries (mgr_options m)) (count (mset (waits (objects ?m))) i + count {#} i)
        ((contexts m ! i)\<lparr>attempts := attempts (contexts m ! i) + 1\<rparr>)"
      using manager_ok_context [OF assms(1) L(2)] L by (simp add: waits_add [OF k] context_ok_def)
  qed (use L in \<open>auto simp: places_def waits_add [OF k] live_def\<close>)
  show ?thesis using fails taken assms(2) by (auto simp: submit_chat_def Let_def split: option.splits)
qed

lemma submit_group_calm: "tables_ok m \<Longrightarrow> calm m (submit_group g transport m)"
  by (auto simp: submit_group_def Let_def calm_def tables_ok_def chat_same_def split: option.splits)

lemma return_to_ok:
  assumes "manager_ok (mset (caller_ctx caller)) {#} m" and "\<And>k. transport = Some k \<Longrightarrow> k < length (objects m)"
  shows "manager_ok {#} {#} (return_to timer_ok caller transport m)"
proof (cases caller)
  case (CallSubmit i)
  then show ?thesis using assms submit_chat_ok [of i m transport] by simp
next
  case (CallGroup g)
  then show ?thesis using assms(1) manager_ok_calm [OF _ submit_group_calm] by (simp add: manager_ok_tables)
next
  case CallReconnect
  then show ?thesis using assms(1) by simp
qed

lemma create_and_return_ok:
  assumes "manager_ok (mset (caller_ctx caller)) {#} m"
  shows "manager_ok {#} {#} (create_and_return timer_ok outcome gw caller m)"
proof -
  obtain r m' where c: "CreateTransport timer_ok outcome gw m = (r, m')" by fastforce
  note C = CreateTransport_calm [OF manager_ok_tables [OF assms] c]
  have "manager_ok (mset (caller_ctx caller)) {#} m'" using assms C(1) by (rule manager_ok_calm)
  then show ?thesis using return_to_ok C(2) by (simp add: create_and_return_def c)
qed

lemma push_create_ok:
  "manager_ok (mset (caller_ctx caller)) {#} m \<Longrightarrow> manager_ok {#} {#} (m\<lparr>mgr_frames := FrCreate gw caller # mgr_frames m\<rparr>)"
  by (simp add: manager_ok_def places_def live_def tables_ok_def algebra_simps)

text \<open>Replacing a transport: the entry goes, its timer is cancelled, the old transport is stopped.\<close>

lemma replace_calm:
  assumes "tables_ok m" and "map_of (transports m) gid = Some e" and "CancelReconnectTimer e m = (e', m')"
  shows "calm m (stop_transport k (store_transport_count (m'\<lparr>transports := AList.delete gid (transports m')\<rparr>)))"
  using CancelReconnectTimer_calm(1) [OF assms] delete_entry_calm [of m' gid] stop_transport_calm calm_trans unfolding calm_def by blast

lemma GetOrCreateTransport_ok:
  assumes "manager_ok (mset (caller_ctx caller)) {#} m"
  shows "manager_ok {#} {#} (GetOrCreateTransport timer_ok outcome gw caller m)"
proof (cases "gateway_id gw = opt_gateway_id (mgr_options m)")
  case True
  then show ?thesis using return_to_ok [OF assms, of None] by (simp add: GetOrCreateTransport_def)
next
  case False
  show ?thesis
  proof (cases "map_of (transports m) (gateway_id gw)")
    case None
    then show ?thesis using False create_and_return_ok [OF assms] by (simp add: GetOrCreateTransport_def)
  next
    case (Some e)
    let ?k = "entry_transport e"
    note tab = manager_ok_tables [OF assms]
    define same where "same \<longleftrightarrow> entry_host e = listen_host gw \<and> entry_port e = listen_port gw"
    obtain s m1 where s: "(if same then if tr_running (objects m ! ?k) then (True, m) else start_transport timer_ok outcome ?k m
                              else (False, m)) = (s, m1)" by fastforce
    then have 1: "calm m m1" "\<not> s \<Longrightarrow> transports m1 = transports m"
      using tab start_transport_calm [OF tab] by (auto simp: calm_def start_transport_def split: if_splits)
    obtain e' m2 where c: "CancelReconnectTimer e m1 = (e', m2)" by fastforce
    have eq: "GetOrCreateTransport timer_ok outcome gw caller m = (if s then return_to timer_ok caller (Some ?k) m1
        else let m' = stop_transport ?k (store_transport_count (m2\<lparr>transports := AList.delete (gateway_id gw) (transports m2)\<rparr>))
          in m'\<lparr>mgr_frames := FrCreate gw caller # mgr_frames m'\<rparr>)"
      using False Some s c unfolding GetOrCreateTransport_def same_def by (simp add: Let_def)
    have ok1: "manager_ok (mset (caller_ctx caller)) {#} m1" using assms 1(1) by (rule manager_ok_calm)
    have k: "?k < length (objects m1)" using entryD(1) [OF tab Some] 1(1) by (simp add: calm_def chat_same_def)
    show ?thesis
    proof (cases s)
      case True
      then show ?thesis using return_to_ok [OF ok1, of "Some ?k"] k by (simp add: eq)
    next
      case False
      have "calm m1 (stop_transport ?k (store_transport_count (m2\<lparr>transports := AList.delete (gateway_id gw) (transports m2)\<rparr>)))"
        using replace_calm [OF manager_ok_tables [OF ok1] _ c] 1(2) [OF False] Some by simp
      from push_create_ok [OF manager_ok_calm [OF ok1 this]] show ?thesis using False by (simp add: eq Let_def)
    qed
  qed
qed

lemma SubmitForwardChatAttemptInLoop_ok:
  assumes "manager_ok {#i#} {#} m"
  shows "manager_ok {#} {#} (SubmitForwardChatAttemptInLoop timer_ok outcome i m)"
  using in_hand_live(3) [OF assms, of i] CompleteForwardChatInLoop_ok [OF manager_ok_answered [OF assms]]
    GetOrCreateTransport_ok [of "CallSubmit i" m] assms
  by (simp add: SubmitForwardChatAttemptInLoop_def)

lemma retry_fires_ok:
  assumes "manager_ok {#i#} {#} m"
  shows "manager_ok {#} {#} (retry_fires timer_ok outcome refreshed i m)"
proof -
  note L = in_hand_live [OF assms, of i, simplified]
  have "manager_ok {#} {#} (m\<lparr>dropped := insert i (dropped m)\<rparr>)"
    by (rule manager_ok_move [OF assms, where i = i and c = "contexts m ! i"])
      (use assms L manager_ok_context [OF assms L(2)] in \<open>auto simp: manager_ok_def tables_ok_def live_def places_def\<close>)
  moreover have "manager_ok {#i#} {#} (set_context i (\<lambda>c. c\<lparr>remote_gateway := gw\<rparr>) m)" for gw
    by (rule manager_ok_move [OF assms, where i = i and c = "(contexts m ! i)\<lparr>remote_gateway := gw\<rparr>"])
      (use assms L manager_ok_context [OF assms L(2)] in \<open>auto simp: manager_ok_def tables_ok_def live_def context_ok_def\<close>)
  ultimately show ?thesis
    using L assms SubmitForwardChatAttemptInLoop_ok by (auto simp: retry_fires_def Let_def split: option.splits)
qed

lemma AttemptReconnectInLoop_ok:
  assumes "manager_ok {#} {#} m"
  shows "manager_ok {#} {#} (AttemptReconnectInLoop timer_ok outcome resolved gid m)"
proof (cases "\<not> mgr_running m \<or> map_of (transports m) gid = None")
  case True
  with assms show ?thesis by (auto simp: AttemptReconnectInLoop_def split: option.splits)
next
  case False
  then obtain e where e: "mgr_running m" "map_of (transports m) gid = Some e" by auto
  note tab = manager_ok_tables [OF assms]
  let ?e = "e\<lparr>reconnect_timer := None\<rparr>"
  let ?m = "set_entry gid ?e m"
  have 1: "calm m ?m" using entryD(1) [OF tab e(2)] by (intro set_entry_calm [OF tab]) simp_all
  have ok: "manager_ok {#} {#} ?m" using assms 1 by (rule manager_ok_calm)
  note t1 = manager_ok_tables [OF ok]
  have a: "manager_ok {#} {#} (set_entry gid (?e\<lparr>reconnect_attempt := 0\<rparr>) ?m)"
    using entryD(1) [OF tab e(2)] by (intro manager_ok_calm [OF ok] set_entry_calm [OF t1]) simp_all
  have b: "manager_ok {#} {#} (stop_transport k (store_transport_count (?m\<lparr>transports := AList.delete gid (transports ?m)\<rparr>)))" for k
    using delete_entry_calm [OF t1, of gid] stop_transport_calm calm_trans by (intro manager_ok_calm [OF ok]) (meson calm_def)
  have c: "manager_ok {#} {#} (ScheduleReconnectInLoop timer_ok gid ?m)"
    by (rule manager_ok_calm [OF ok ScheduleReconnectInLoop_calm [OF t1]])
  have d: "manager_ok {#} {#} (GetOrCreateTransport timer_ok outcome gw CallReconnect ?m)" for gw
    using ok by (intro GetOrCreateTransport_ok) simp
  obtain s m2 where s: "start_transport timer_ok outcome (entry_transport e) ?m = (s, m2)" by fastforce
  have f: "manager_ok {#} {#} m2" by (rule manager_ok_calm [OF ok start_transport_calm [OF t1 s]])
  then have g: "manager_ok {#} {#} (ScheduleReconnectInLoop timer_ok gid m2)"
    by (rule manager_ok_calm) (rule ScheduleReconnectInLoop_calm [OF manager_ok_tables [OF f]])
  show ?thesis
    unfolding AttemptReconnectInLoop_def e(2) option.case Let_def
    using e(1) a b c d s f g by (auto split: option.splits bool.splits prod.splits)
qed

lemma stop_entry_calm:
  assumes "tables_ok m" and "(gid, e) \<in> set (transports m)"
  shows "calm m (stop_transport (entry_transport e) (snd (CancelReconnectTimer e m)))"
    "transports (stop_transport k (snd (CancelReconnectTimer e m))) = transports m"
proof -
  have n: "\<forall>t. (n, t) \<in> set (timers m) \<longrightarrow> t = TmReconnect gid" if "reconnect_timer e = Some n" for n
    using assms that by (fastforce simp: tables_ok_def)
  have "calm m (snd (CancelReconnectTimer e m))"
    using assms(1) cancel_timer_calm [OF assms(1)] n by (auto simp: CancelReconnectTimer_def calm_def split: option.splits)
  then show "calm m (stop_transport (entry_transport e) (snd (CancelReconnectTimer e m)))"
    using stop_transport_calm calm_trans unfolding calm_def by blast
  show "transports (stop_transport k (snd (CancelReconnectTimer e m))) = transports m"
    by (auto simp: stop_transport_def CancelReconnectTimer_def split: option.splits)
qed

lemma stop_all_calm:
  "\<lbrakk>tables_ok m; set al \<subseteq> set (transports m)\<rbrakk> \<Longrightarrow>
    calm m (fold (\<lambda>(_, entry) m. stop_transport (entry_transport entry) (snd (CancelReconnectTimer entry m))) al m)"
proof (induction al arbitrary: m)
  case Nil
  then show ?case by (simp add: calm_def)
next
  case (Cons x al)
  obtain gid e where x: "x = (gid, e)" by fastforce
  let ?m = "stop_transport (entry_transport e) (snd (CancelReconnectTimer e m))"
  have "(gid, e) \<in> set (transports m)" using Cons.prems(2) x by simp
  from stop_entry_calm [OF Cons.prems(1) this] have 1: "calm m ?m" "transports ?m = transports m" by simp_all
  then have "calm ?m (fold (\<lambda>(_, entry) m. stop_transport (entry_transport entry) (snd (CancelReconnectTimer entry m))) al ?m)"
    using Cons.prems(2) by (intro Cons.IH) (simp_all add: calm_def)
  with 1(1) show ?case by (simp add: x) (rule calm_trans)
qed

lemma ManagerStopInLoop_calm:
  assumes "tables_ok m"
  shows "calm m (ManagerStopInLoop m)"
  using stop_all_calm [OF assms, of "transports m"] by (auto simp: ManagerStopInLoop_def calm_def tables_ok_def chat_same_def)

lemma run_manager_functor_ok:
  assumes "manager_ok (mset (functor_ctx f)) {#} m"
  shows "manager_ok {#} {#} (run_manager_functor timer_ok outcome f m)"
  using assms SubmitForwardChatAttemptInLoop_ok GetOrCreateTransport_ok [of "CallGroup _" m]
    manager_ok_calm [OF _ ManagerStopInLoop_calm [OF manager_ok_tables]]
  by (cases f) auto

lemma RunInLoop_ok:
  assumes "manager_ok (mset (functor_ctx f)) {#} m"
  shows "manager_ok {#} {#} (RunInLoop in_loop timer_ok outcome f m)"
  using assms run_manager_functor_ok [OF assms]
  by (simp add: RunInLoop_def) (simp add: manager_ok_def places_def live_def tables_ok_def algebra_simps)

lemma mset_concat_nth:
  "n < length xs \<Longrightarrow> mset (concat (map f xs)) = mset (concat (map f (take n xs @ drop (Suc n) xs))) + mset (f (xs ! n))"
proof -
  assume "n < length xs"
  then have "xs = take n xs @ xs ! n # drop (Suc n) xs" by (rule id_take_nth_drop)
  then have "concat (map f xs) = concat (map f (take n xs @ xs ! n # drop (Suc n) xs))" by simp
  then show ?thesis by simp
qed

lemma mset_retries_nth:
  "n < length ts \<Longrightarrow> mset (retries ts) = mset (retries (take n ts @ drop (Suc n) ts)) + mset (timer_ctx (snd (ts ! n)))"
  using mset_concat_nth [of n ts "timer_ctx \<circ> snd"] by (simp add: retries_def)

lemma remove_nth_timer:
  assumes "tables_ok m" and "n < length (timers m)"
  shows "tables_ok (m\<lparr>timers := take n (timers m) @ drop (Suc n) (timers m)\<rparr>)"
proof -
  let ?ts = "take n (timers m) @ drop (Suc n) (timers m)"
  have "set ?ts \<subseteq> set (timers m)" by (auto dest: in_set_takeD in_set_dropD)
  moreover have "distinct (map fst ?ts)"
  proof -
    have "timers m = take n (timers m) @ (timers m ! n) # drop (Suc n) (timers m)" using assms(2) by (simp add: id_take_nth_drop)
    moreover have "distinct (map fst (timers m))" using assms(1) by (simp add: tables_ok_def)
    ultimately have "distinct (map fst (take n (timers m) @ (timers m ! n) # drop (Suc n) (timers m)))" by metis
    then show ?thesis by simp
  qed
  ultimately show ?thesis using assms(1) unfolding tables_ok_def by fastforce
qed

lemma forward_chat_ok:
  assumes "manager_ok {#} {#} m" and "c = \<lparr>remote_gateway = gw, message_id = mid, from_user_id = from, to_user_id = to,
              message_body = body, has_callback = cb, retry_count = 0, completed = False, attempts = 0, results = []\<rparr>"
  shows "manager_ok {#length (contexts m)#} {#} (m\<lparr>contexts := contexts m @ [c]\<rparr>)"
proof -
  have "length (contexts m) \<notin> dropped m" using assms(1) by (auto simp: manager_ok_def)
  then have "live (m\<lparr>contexts := contexts m @ [c]\<rparr>) i = (live m i \<or> i = length (contexts m))" for i
    using assms(2) by (auto simp: live_def nth_append)
  moreover have "count (places m) (length (contexts m)) = 0" "\<not> live m (length (contexts m))"
    using assms(1) by (auto simp: manager_ok_def live_def)
  ultimately show ?thesis using assms(1,2)
    by (auto simp: manager_ok_def tables_ok_def places_def nth_append context_ok_def less_Suc_eq)
qed

lemma manager_step_ok:
  assumes "manager_ok {#} {#} m"
  shows "manager_ok {#} {#} (manager_step m ev)"
proof (cases ev)
  case (MeStart loop_valid)
  then show ?thesis using assms
    by (auto simp: manager_step_def ManagerStart_def Let_def manager_ok_def tables_ok_def places_def live_def)
next
  case (MeStop in_loop)
  have "manager_ok {#} {#} (m\<lparr>mgr_running := False\<rparr>)" using assms by (simp add: manager_ok_def tables_ok_def places_def live_def)
  then show ?thesis using MeStop assms RunInLoop_ok [of FnStopInLoop] by (simp add: manager_step_def ManagerStop_def)
next
  case (MeSetResolver cb)
  then show ?thesis using assms
    by (simp add: manager_step_def SetGatewayResolverCallback_def manager_ok_def tables_ok_def places_def live_def)
next
  case (MeForwardChat in_loop timer_ok outcome gw mid sender receiver body cb)
  then show ?thesis using assms RunInLoop_ok [of "FnForwardChatInLoop (length (contexts m))"] forward_chat_ok [OF assms refl]
    by (simp add: manager_step_def ForwardChat_def Let_def)
next
  case (MeForwardGroup in_loop timer_ok outcome gw mid recipient cb)
  have "manager_ok {#} {#} (m\<lparr>groups := gs\<rparr>)" for gs using assms by (simp add: manager_ok_def tables_ok_def places_def live_def)
  then show ?thesis using MeForwardGroup assms RunInLoop_ok [of "FnForwardGroupMessageInLoop (length (groups m))"]
    by (simp add: manager_step_def ForwardGroupMessage_def Let_def)
next
  case (MeArrive n)
  let ?m = "m\<lparr>mgr_functors := mgr_functors m @ [mgr_transit m ! n], mgr_transit := take n (mgr_transit m) @ drop (Suc n) (mgr_transit m)\<rparr>"
  have "places ?m = places m" if "n < length (mgr_transit m)"
    using mset_concat_nth [OF that, of functor_ctx] by (simp add: places_def ac_simps)
  then show ?thesis using MeArrive assms by (simp add: manager_step_def manager_ok_def tables_ok_def live_def)
next
  case (MeFunctor timer_ok outcome)
  have "manager_ok (mset (functor_ctx f)) {#} (m\<lparr>mgr_functors := fs\<rparr>)" if "mgr_functors m = f # fs" for f fs
    using assms that by (simp add: manager_ok_def tables_ok_def places_def live_def ac_simps)
  then show ?thesis using MeFunctor assms run_manager_functor_ok by (simp add: manager_step_def split: list.splits)
next
  case (MeTimer timer_ok outcome found n)
  let ?m = "m\<lparr>timers := take n (timers m) @ drop (Suc n) (timers m)\<rparr>"
  have "manager_ok {#} {#} (fire timer_ok outcome found (snd (timers m ! n)) ?m)" if n: "n < length (timers m)"
  proof -
    have "manager_ok (mset (timer_ctx (snd (timers m ! n)))) {#} ?m"
      using assms remove_nth_timer [OF manager_ok_tables [OF assms] n] mset_retries_nth [OF n]
      by (simp add: manager_ok_def places_def live_def ac_simps)
    then show ?thesis using retry_fires_ok AttemptReconnectInLoop_ok by (cases "snd (timers m ! n)") auto
  qed
  then show ?thesis using MeTimer assms by (simp add: manager_step_def)
next
  case (MeFrame timer_ok outcome)
  have "manager_ok (mset (frame_ctx f)) {#} (m\<lparr>mgr_frames := fs\<rparr>)" if "mgr_frames m = f # fs" for f fs
    using assms that by (simp add: manager_ok_def tables_ok_def places_def live_def ac_simps)
  moreover have "manager_ok {#} {#} (run_manager_frame timer_ok outcome f m')" if "manager_ok (mset (frame_ctx f)) {#} m'" for f m'
    using that create_and_return_ok manager_ok_calm [OF _ HandleTransportConnectionState_calm [OF manager_ok_tables]] by (cases f) auto
  ultimately show ?thesis using MeFrame assms by (simp add: manager_step_def split: list.splits)
next
  case (MeResult timer_ok k i r)
  let ?m = "set_object k (\<lambda>t. t\<lparr>waiting := remove1 i (waiting t)\<rparr>) m"
  have "manager_ok {#} {#i#} ?m" if k: "k < length (objects m)" "i \<in> set (waiting (objects m ! k))"
  proof -
    have w: "mset (waits (objects m)) = mset (waits (objects ?m)) + {#i#}" using waits_remove [OF k] by simp
    have p: "count (places m) j = count (places ?m) j + count {#i#} j" "live ?m j = live m j"
      "count (mset (waits (objects m))) j = count (mset (waits (objects ?m))) j + count {#i#} j" for j
      using w by (simp_all add: places_def live_def)
    have "tables_ok ?m" "contexts ?m = contexts m" "mgr_options ?m = mgr_options m" "dropped ?m = dropped m"
      using assms by (simp_all add: manager_ok_def tables_ok_def)
    with assms show ?thesis unfolding manager_ok_def p by (simp only: count_empty add_0 add_0_right) simp
  qed
  then show ?thesis using MeResult assms HandleForwardChatAttemptResultInLoop_ok by (simp add: manager_step_def)
next
  case (MeUp timer_ok k)
  have "calm m (set_object k (\<lambda>t. t\<lparr>tr_connected := True\<rparr>) m)" using manager_ok_tables [OF assms] by (rule set_object_calm) simp
  then have "manager_ok {#} {#} (set_object k (\<lambda>t. t\<lparr>tr_connected := True\<rparr>) m)" using assms manager_ok_calm by blast
  then show ?thesis using MeUp assms manager_ok_calm [OF _ HandleTransportConnectionState_calm [OF manager_ok_tables]]
    by (simp add: manager_step_def)
next
  case (MeDown k)
  let ?m = "m\<lparr>mgr_frames := FrNotify k # mgr_frames m\<rparr>"
  have ok: "manager_ok {#} {#} ?m" using assms by (simp add: manager_ok_def tables_ok_def places_def live_def)
  have "calm ?m (set_object k (\<lambda>t. t\<lparr>tr_running := False, tr_connected := False\<rparr>) ?m)"
    using manager_ok_tables [OF ok] by (rule set_object_calm) simp
  then show ?thesis using MeDown assms manager_ok_calm [OF ok] by (simp add: manager_step_def)
qed

interpretation pm: guarded_object manager_step "\<lambda>_ _. True" "manager_ok {#} {#}"
  by unfold_locales (rule manager_step_ok)

lemma manager_ok_new: "manager_ok {#} {#} (Manager_new o' valid)"
  by (simp add: manager_ok_def Manager_new_def tables_ok_def places_def live_def retries_def waits_def)

lemma manager_run_ok: "manager_ok {#} {#} (run_ops manager_step (Manager_new o' valid) evs)"
  by (rule pm.run_invar) (simp_all add: manager_ok_new)

section \<open>What keeps the manager running\<close>

lemma running_frame [simp]:
  "mgr_running (snd (RunAfter timer_ok t m)) = mgr_running m" "dropped (snd (RunAfter timer_ok t m)) = dropped m"
  "contexts (snd (RunAfter timer_ok t m)) = contexts m" "mgr_options (snd (RunAfter timer_ok t m)) = mgr_options m"
  by (simp_all add: RunAfter_def)

text \<open>Neither the options, nor the flag, nor the set of requests given up, nor the number of requests is touched.\<close>

definition steady :: "Manager \<Rightarrow> Manager \<Rightarrow> bool" where
  "steady m m' \<longleftrightarrow> mgr_options m' = mgr_options m \<and> mgr_running m' = mgr_running m \<and> dropped m' = dropped m \<and> length (contexts m') = length (contexts m)"

lemma steady_refl [simp]: "steady m m"
  by (simp add: steady_def)

lemma steady_trans: "\<lbrakk>steady a b; steady b c\<rbrakk> \<Longrightarrow> steady a c"
  by (simp add: steady_def)

lemma steady_calm: "calm m m' \<Longrightarrow> steady m m'"
  by (simp add: steady_def calm_def chat_same_def)

lemma CompleteForwardChatInLoop_steady: "steady m (CompleteForwardChatInLoop i r m)"
  by (simp add: CompleteForwardChatInLoop_def steady_def)

lemma HandleForwardChatAttemptResultInLoop_steady: "steady m (HandleForwardChatAttemptResultInLoop timer_ok i r m)"
  by (simp add: HandleForwardChatAttemptResultInLoop_def CompleteForwardChatInLoop_def steady_def RunAfter_def Let_def)

lemma return_to_steady: "tables_ok m \<Longrightarrow> steady m (return_to timer_ok caller transport m)"
  using HandleForwardChatAttemptResultInLoop_steady [of m timer_ok]
  by (cases caller) (auto simp: submit_chat_def Let_def steady_def submit_group_def split: option.splits)

lemma create_and_return_steady:
  assumes "tables_ok m"
  shows "steady m (create_and_return timer_ok outcome gw caller m)"
proof -
  obtain r m' where c: "CreateTransport timer_ok outcome gw m = (r, m')" by fastforce
  note C = CreateTransport_calm(1) [OF assms c]
  then show ?thesis using steady_calm [OF C] return_to_steady [of m'] steady_trans
    by (auto simp: create_and_return_def c calm_def)
qed

lemma GetOrCreateTransport_steady:
  assumes "tables_ok m"
  shows "steady m (GetOrCreateTransport timer_ok outcome gw caller m)"
proof (cases "gateway_id gw = opt_gateway_id (mgr_options m) \<or> map_of (transports m) (gateway_id gw) = None")
  case True
  then show ?thesis using return_to_steady [OF assms] create_and_return_steady [OF assms] by (auto simp: GetOrCreateTransport_def)
next
  case False
  then obtain e where e: "gateway_id gw \<noteq> opt_gateway_id (mgr_options m)" "map_of (transports m) (gateway_id gw) = Some e" by auto
  obtain s m1 where s: "(if entry_host e = listen_host gw \<and> entry_port e = listen_port gw
      then if tr_running (objects m ! entry_transport e) then (True, m) else start_transport timer_ok outcome (entry_transport e) m
      else (False, m)) = (s, m1)" by fastforce
  then have 1: "calm m m1" using assms start_transport_calm [OF assms] by (auto simp: calm_def split: if_splits)
  have 2: "steady m1 (m'\<lparr>mgr_frames := fs\<rparr>)" if "m' = stop_transport k (store_transport_count ((snd (CancelReconnectTimer e m1))\<lparr>transports := ts\<rparr>))" for k ts fs m'
    using that by (auto simp: steady_def stop_transport_def CancelReconnectTimer_def split: option.splits)
  have "steady m1 (GetOrCreateTransport timer_ok outcome gw caller m)"
    using e s 1 2 [OF refl] return_to_steady [of m1] by (auto simp: GetOrCreateTransport_def Let_def calm_def split: prod.splits)
  with steady_calm [OF 1] show ?thesis by (rule steady_trans)
qed

lemma SubmitForwardChatAttemptInLoop_steady: "tables_ok m \<Longrightarrow> steady m (SubmitForwardChatAttemptInLoop timer_ok outcome i m)"
  by (simp add: SubmitForwardChatAttemptInLoop_def CompleteForwardChatInLoop_steady GetOrCreateTransport_steady)

lemma AttemptReconnectInLoop_steady:
  assumes "tables_ok m"
  shows "steady m (AttemptReconnectInLoop timer_ok outcome resolved gid m)"
proof (cases "\<not> mgr_running m \<or> map_of (transports m) gid = None")
  case True
  then show ?thesis by (auto simp: AttemptReconnectInLoop_def split: option.splits)
next
  case False
  then obtain e where e: "mgr_running m" "map_of (transports m) gid = Some e" by auto
  let ?m = "set_entry gid (e\<lparr>reconnect_timer := None\<rparr>) m"
  have 1: "calm m ?m" using entryD(1) [OF assms e(2)] by (intro set_entry_calm [OF assms]) simp_all
  then have t1: "tables_ok ?m" by (simp add: calm_def)
  obtain s m2 where s: "start_transport timer_ok outcome (entry_transport e) ?m = (s, m2)" by fastforce
  have 2: "calm m m2" using 1 start_transport_calm [OF t1 s] by (rule calm_trans)
  have "steady m (ScheduleReconnectInLoop timer_ok gid ?m)"
    by (rule steady_calm [OF calm_trans [OF 1 ScheduleReconnectInLoop_calm [OF t1]]])
  moreover have "tables_ok m2" using 2 by (simp add: calm_def)
  then have "steady m (ScheduleReconnectInLoop timer_ok gid m2)"
    by (rule steady_calm [OF calm_trans [OF 2 ScheduleReconnectInLoop_calm]])
  moreover have "steady m (GetOrCreateTransport timer_ok outcome gw CallReconnect ?m)" for gw
    by (rule steady_trans [OF steady_calm [OF 1] GetOrCreateTransport_steady [OF t1]])
  moreover have "steady m (set_entry gid x ?m)" "steady m (stop_transport k (store_transport_count (?m\<lparr>transports := ts\<rparr>)))" for x k ts
    by (auto simp: steady_def stop_transport_def)
  ultimately show ?thesis unfolding AttemptReconnectInLoop_def e(2) option.case Let_def
    using e(1) s steady_calm [OF 2] by (auto split: option.splits bool.splits prod.splits)
qed

fun stops :: "ManagerEvent \<Rightarrow> bool" where
  "stops (MeStop in_loop) = True" | "stops ev = False"

lemma functor_steady: "tables_ok m \<Longrightarrow> steady m (run_manager_functor timer_ok outcome f m)"
  by (cases f) (simp_all add: SubmitForwardChatAttemptInLoop_steady GetOrCreateTransport_steady steady_calm [OF ManagerStopInLoop_calm])

lemma RunInLoop_steady: "tables_ok m \<Longrightarrow> steady m (RunInLoop in_loop timer_ok outcome f m)"
  using functor_steady by (auto simp: RunInLoop_def steady_def)

lemma retry_fires_steady:
  assumes "tables_ok m" and "mgr_running m" and "\<not> completed (contexts m ! i)"
  shows "steady m (retry_fires timer_ok outcome found i m)"
proof -
  have "steady m (SubmitForwardChatAttemptInLoop timer_ok outcome i (set_context i (\<lambda>c. c\<lparr>remote_gateway := gw\<rparr>) m))" for gw
    using SubmitForwardChatAttemptInLoop_steady [of "set_context i (\<lambda>c. c\<lparr>remote_gateway := gw\<rparr>) m" timer_ok outcome i] assms(1)
    by (simp add: steady_def tables_ok_def)
  with assms SubmitForwardChatAttemptInLoop_steady show ?thesis by (auto simp: retry_fires_def Let_def split: option.splits)
qed

text \<open>What any event does to these: the options stay, no request given up is taken back, one is given up only while the
  manager is not running, and a request is taken only while it is.\<close>

definition moves_on :: "Manager \<Rightarrow> Manager \<Rightarrow> bool" where
  "moves_on m m' \<longleftrightarrow> mgr_options m' = mgr_options m \<and> dropped m \<subseteq> dropped m'
     \<and> (dropped m' = dropped m \<or> \<not> mgr_running m \<and> contexts m \<noteq> []) \<and> (contexts m' = [] \<or> contexts m \<noteq> [] \<or> mgr_running m)"

lemma steady_moves_on: "steady m m' \<Longrightarrow> moves_on m m'"
  by (auto simp: steady_def moves_on_def)

lemma manager_step_moves_on:
  assumes ok: "manager_ok {#} {#} m"
  shows "moves_on m (manager_step m ev) \<and> (stops ev \<or> \<not> mgr_running m \<or> mgr_running (manager_step m ev))"
proof -
  note tab = manager_ok_tables [OF ok]
  have tables: "tables_ok (m\<lparr>contexts := cs\<rparr>)" "tables_ok (m\<lparr>groups := gs\<rparr>)" "tables_ok (m\<lparr>mgr_functors := fs\<rparr>)"
    "tables_ok (m\<lparr>mgr_frames := ks\<rparr>)" "tables_ok (m\<lparr>mgr_running := b\<rparr>)" for cs gs fs ks b
    using tab by (simp_all add: tables_ok_def)
  have still: ?thesis if "steady m (manager_step m ev)" using that steady_moves_on by (auto simp: steady_def)
  show ?thesis
  proof (cases ev)
    case (MeStop in_loop)
    then show ?thesis using RunInLoop_steady [OF tables(5), of False in_loop True ConnectPending FnStopInLoop]
      by (auto simp: manager_step_def ManagerStop_def moves_on_def steady_def)
  next
    case (MeForwardChat in_loop timer_ok outcome gw mid sender receiver body cb)
    then show ?thesis using RunInLoop_steady [OF tables(1)]
      by (auto simp: manager_step_def ForwardChat_def Let_def moves_on_def steady_def)
  next
    case (MeForwardGroup in_loop timer_ok outcome gw mid recipient cb)
    then show ?thesis using RunInLoop_steady [OF tables(2)]
      by (intro still) (auto simp: manager_step_def ForwardGroupMessage_def Let_def steady_def)
  next
    case (MeFunctor timer_ok outcome)
    then show ?thesis using functor_steady [OF tables(3)]
      by (intro still) (auto simp: manager_step_def steady_def split: list.splits)
  next
    case (MeTimer timer_ok outcome found n)
    show ?thesis
    proof (cases "mgr_frames m = [] \<and> n < length (timers m)")
      case True
      let ?m = "m\<lparr>timers := take n (timers m) @ drop (Suc n) (timers m)\<rparr>"
      have t: "tables_ok ?m" using True by (intro remove_nth_timer [OF tab]) simp
      have eq: "manager_step m ev = fire timer_ok outcome found (snd (timers m ! n)) ?m" using MeTimer True by (simp add: manager_step_def)
      show ?thesis
      proof (cases "snd (timers m ! n)")
        case (TmRetry i)
        have "i \<in># places m" using mset_retries_nth [of n "timers m"] TmRetry True by (simp add: places_def)
        then have "live m i" using ok unfolding manager_ok_def by (metis count_greater_zero_iff add_gr_0 less_numeral_extra(3))
        then have "\<not> completed (contexts m ! i)" "contexts m \<noteq> []" by (auto simp: live_def)
        then show ?thesis using retry_fires_steady [OF t, of i timer_ok outcome found]
          by (cases "mgr_running m") (auto simp: eq TmRetry steady_def moves_on_def retry_fires_def)
      next
        case (TmReconnect gid)
        then show ?thesis using AttemptReconnectInLoop_steady [OF t] by (intro still) (simp add: eq steady_def)
      qed
    qed (use MeTimer in \<open>auto simp: manager_step_def moves_on_def\<close>)
  next
    case (MeFrame timer_ok outcome)
    have "steady m (run_manager_frame timer_ok outcome f (m\<lparr>mgr_frames := fs\<rparr>))" for f fs
      using create_and_return_steady [OF tables(4)] steady_calm [OF HandleTransportConnectionState_calm [OF tables(4)]]
      by (cases f) (auto simp: steady_def)
    then show ?thesis using MeFrame by (intro still) (auto simp: manager_step_def split: list.splits)
  next
    case (MeResult timer_ok k i r)
    then show ?thesis using HandleForwardChatAttemptResultInLoop_steady [of "set_object k (\<lambda>t. t\<lparr>waiting := remove1 i (waiting t)\<rparr>) m" timer_ok i r]
      by (intro still) (auto simp: manager_step_def steady_def)
  next
    case (MeUp timer_ok k)
    have c: "calm m (set_object k (\<lambda>t. t\<lparr>tr_connected := True\<rparr>) m)" using tab by (rule set_object_calm) simp
    then have "tables_ok (set_object k (\<lambda>t. t\<lparr>tr_connected := True\<rparr>) m)" by (simp add: calm_def)
    from steady_calm [OF calm_trans [OF c HandleTransportConnectionState_calm [OF this]]]
    show ?thesis using MeUp by (intro still) (auto simp: manager_step_def)
  qed (auto simp: manager_step_def moves_on_def ManagerStart_def SetGatewayResolverCallback_def Let_def)
qed

text \<open>Without a stop, a manager that has taken requests stays running, and gives up none of them.\<close>

definition serving :: "Manager \<Rightarrow> bool" where
  "serving m \<longleftrightarrow> (mgr_running m \<or> contexts m = []) \<and> dropped m = {}"

lemma serving_step: "\<lbrakk>manager_ok {#} {#} m; serving m; \<not> stops ev\<rbrakk> \<Longrightarrow> serving (manager_step m ev)"
  using manager_step_moves_on [of m ev] by (auto simp: serving_def moves_on_def)

lemma serving_run: "list_all (\<lambda>ev. \<not> stops ev) evs \<Longrightarrow> serving (run_ops manager_step (Manager_new o' valid) evs)"
  by (rule pm.run_keeps [where Q = "\<lambda>ev. \<not> stops ev"])
    (simp_all add: serving_step manager_ok_new, simp add: serving_def Manager_new_def)

lemma run_moves_on:
  assumes "manager_ok {#} {#} m"
  shows "mgr_options (run_ops manager_step m evs) = mgr_options m \<and> dropped m \<subseteq> dropped (run_ops manager_step m evs)"
  by (rule pm.run_relates [where R = "\<lambda>m m'. mgr_options m' = mgr_options m \<and> dropped m \<subseteq> dropped m'"])
    (use assms manager_step_moves_on in \<open>auto simp: moves_on_def\<close>)

section \<open>Properties\<close>

text \<open>C18: Every private message handed to the manager is answered once. In every run, whatever threads, transports, timers and
  user code do, the callback of a request is called at most once, a request is taken by a transport at most once more than it
  has been retried, and retried at most as often as the options say; and when nothing is under way any more and the manager
  was not stopped, the callback has been called.\<close>

theorem chat_answered_once:
  fixes o' :: GatewayPeerTransportManagerOptions and valid :: "string \<Rightarrow> u16 \<Rightarrow> bool" and evs :: "ManagerEvent list"
  defines "m \<equiv> run_ops manager_step (Manager_new o' valid) evs"
  assumes "i < length (contexts m)"
  shows "length (results (contexts m ! i)) \<le> 1 \<and> attempts (contexts m ! i) \<le> retry_count (contexts m ! i) + 1
    \<and> retry_count (contexts m ! i) \<le> max_request_retries o'
    \<and> (places m = {#} \<and> has_callback (contexts m ! i) \<and> list_all (\<lambda>ev. \<not> stops ev) evs \<longrightarrow> length (results (contexts m ! i)) = 1)"
proof -
  have ok: "manager_ok {#} {#} m" unfolding m_def by (rule manager_run_ok)
  have opts: "mgr_options m = o'" using run_moves_on [OF manager_ok_new [of o' valid], of evs] by (simp add: m_def Manager_new_def)
  let ?c = "contexts m ! i" and ?w = "count (mset (waits (objects m))) i"
  have c: "context_ok (max_request_retries o') ?w ?c" using manager_ok_context [OF ok assms(2)] opts by simp
  have count: "count (places m) i = (if live m i then 1 else 0)" using ok by (simp add: manager_ok_def)
  then have "count (places m) i + (if completed ?c then 1 else 0) \<le> 1" by (simp add: live_def)
  moreover have "?w \<le> count (places m) i" by (simp add: places_def)
  ultimately have "?w + (if completed ?c then 1 else 0) \<le> 1" by linarith
  moreover have "completed ?c" if "places m = {#}" "list_all (\<lambda>ev. \<not> stops ev) evs"
    using count that(1) serving_run [OF that(2), of o' valid] assms(2) by (auto simp: live_def serving_def m_def split: if_splits)
  ultimately show ?thesis using c by (auto simp: context_ok_def)
qed

definition demo_manager_options :: GatewayPeerTransportManagerOptions where
  "demo_manager_options = \<lparr>opt_gateway_id = ''A'', opt_lease_token = ''t'', opt_connect_timeout = 3000, opt_request_timeout = 3000,
     max_request_retries = 1, request_retry_initial_delay = 100, request_retry_max_delay = 1000, reconnect_initial_delay = 200,
     reconnect_max_delay = 5000, opt_max_body_size = 1024\<rparr>"

definition demo_gateway :: GatewayInstanceRecord where
  "demo_gateway = \<lparr>gateway_id = ''B'', listen_host = ''h'', listen_port = 9\<rparr>"

text \<open>The request times out once and is then delivered.\<close>

definition demo_chat :: "ManagerEvent list" where
  "demo_chat = [MeStart True, MeForwardChat False True ConnectPending demo_gateway 7 1 2 [104] True, MeArrive 0,
     MeFunctor True ConnectPending, MeUp True 0, MeResult True 0 0 (failure kRequestTimeout ''''),
     MeTimer True ConnectPending None 0, MeResult True 0 0 \<lparr>result_status = kOk, response = Some kDelivered, result_error = ''''\<rparr>]"

lemmas manager_eval = manager_step_def Manager_new_def ManagerStart_def options_ok_def retry_options_bad_def demo_manager_options_def
  demo_gateway_def ForwardChat_def ForwardGroupMessage_def RunInLoop_def SubmitForwardChatAttemptInLoop_def GetOrCreateTransport_def
  create_and_return_def CreateTransport_def transport_options_def start_transport_def ValidateOptions_def set_entry_def set_object_def
  store_transport_count_def set_context_def submit_chat_def submit_group_def HandleTransportConnectionState_def CancelReconnectTimer_def
  HandleForwardChatAttemptResultInLoop_def ClassifyForwardChatRetry_def response_status_def failure_def RunAfter_def retry_fires_def
  CompleteForwardChatInLoop_def ManagerStop_def ManagerStopInLoop_def stop_transport_def cancel_timer_def Let_def

theorem chat_answered_once_witness:
  "length (results (contexts (run_ops manager_step (Manager_new demo_manager_options (\<lambda>_ _. True)) demo_chat) ! 0)) = 1"
  using chat_answered_once [of 0 demo_manager_options "\<lambda>_ _. True" demo_chat]
  by (simp add: demo_chat_def manager_eval places_def retries_def waits_def)

text \<open>A stop between an attempt and its retry loses the answer. If the manager is stopped while a request waits for its retry,
  the callback of the retry timer returns without completing the request, and whatever happens afterwards, a restart
  included, the user's callback is never called.\<close>

theorem retry_lost_on_stop:
  fixes o' :: GatewayPeerTransportManagerOptions and valid :: "string \<Rightarrow> u16 \<Rightarrow> bool" and evs :: "ManagerEvent list"
  defines "m \<equiv> run_ops manager_step (Manager_new o' valid) (evs @ [MeStop True])"
  assumes "p < length (timers m)" and "snd (timers m ! p) = TmRetry i" and "mgr_frames m = []" and "\<not> mgr_running m"
  shows "results (contexts (run_ops manager_step m (MeTimer timer_ok outcome found p # later)) ! i) = []"
proof -
  have ok: "manager_ok {#} {#} m" unfolding m_def by (rule manager_run_ok)
  have "i \<in># places m" using mset_retries_nth [OF assms(2)] assms(3) by (simp add: places_def)
  then have "live m i" using ok unfolding manager_ok_def by (metis count_greater_zero_iff add_gr_0 less_numeral_extra(3))
  then have "\<not> completed (contexts m ! i)" by (simp add: live_def)
  let ?u = "manager_step m (MeTimer timer_ok outcome found p)"
  let ?v = "run_ops manager_step ?u later"
  have "i \<in> dropped ?u" using assms(2-5) \<open>\<not> completed (contexts m ! i)\<close> by (simp add: manager_step_def retry_fires_def)
  moreover have u: "manager_ok {#} {#} ?u" by (rule manager_step_ok [OF ok])
  ultimately have "i \<in> dropped ?v" using run_moves_on [OF u, of later] by auto
  moreover have v: "manager_ok {#} {#} ?v" by (rule pm.run_invar [OF u]) simp
  ultimately have "i < length (contexts ?v)" "\<not> completed (contexts ?v ! i)" by (auto simp: manager_ok_def)
  with manager_ok_context [OF v, of i] have "length (results (contexts ?v ! i)) = 0" unfolding context_ok_def by simp
  then show ?thesis by simp
qed

theorem retry_lost_on_stop_witness:
  "results (contexts (run_ops manager_step (run_ops manager_step (Manager_new demo_manager_options (\<lambda>_ _. True)) (take 6 demo_chat @ [MeStop True]))
     (MeTimer True ConnectPending None 0 # [MeStart True])) ! 0) = []"
  by (rule retry_lost_on_stop) (simp_all add: demo_chat_def manager_eval)

lemma backoff_closed:
  "\<lbrakk>0 < a; a \<le> M\<rbrakk> \<Longrightarrow> backoff n a M = (if n = 0 \<or> a * 2 ^ (n - 1) < M div 2 then a * 2 ^ n else M)"
proof (induction n arbitrary: a)
  case 0
  then show ?case by (simp add: backoff.simps)
next
  case (Suc n)
  show ?case
  proof (cases "a < M div 2")
    case True
    moreover from this have "a < M" using Suc.prems by linarith
    ultimately have "backoff (Suc n) a M = backoff n (a * 2) M" by (subst backoff.simps) simp
    also have "\<dots> = (if n = 0 \<or> (a * 2) * 2 ^ (n - 1) < M div 2 then (a * 2) * 2 ^ n else M)"
      using Suc.prems True by (intro Suc.IH) auto
    finally show ?thesis using True by (cases n) auto
  next
    case False
    moreover have "a \<le> a * 2 ^ n" using Suc.prems by (simp add: mult_le_cancel_left1)
    ultimately have "\<not> a * 2 ^ n < M div 2" by linarith
    with False Suc.prems show ?thesis by (subst backoff.simps) auto
  qed
qed

text \<open>The delays of the reconnections double from the initial delay until they reach their maximum and stay there; they never
  fall below the doubled delay before, never exceed the maximum, and no intermediate value does, so that nothing overflows.\<close>

theorem reconnect_delay_exact:
  assumes "options_ok o'"
  shows "ReconnectDelay o' n = (if n = 0 \<or> reconnect_initial_delay o' * 2 ^ (n - 1) < reconnect_max_delay o' div 2
      then reconnect_initial_delay o' * 2 ^ n else reconnect_max_delay o')
    \<and> min (reconnect_initial_delay o' * 2 ^ n) (reconnect_max_delay o') \<le> ReconnectDelay o' n
    \<and> ReconnectDelay o' n \<le> reconnect_max_delay o' \<and> ReconnectDelay o' n \<le> ReconnectDelay o' (Suc n)"
proof -
  let ?a = "reconnect_initial_delay o'" and ?M = "reconnect_max_delay o'"
  have a: "0 < ?a" "?a \<le> ?M" using assms by (auto simp: options_ok_def)
  have step: "?a * 2 ^ k \<le> ?M" if "k = 0 \<or> ?a * 2 ^ (k - 1) < ?M div 2" for k
    using that a by (cases k) auto
  then have eq: "ReconnectDelay o' k = (if k = 0 \<or> ?a * 2 ^ (k - 1) < ?M div 2 then ?a * 2 ^ k else ?M)" for k
    using backoff_closed [OF a, of k] by (auto simp: ReconnectDelay_def)
  have "?a * 2 ^ (n - 1) \<le> ?a * 2 ^ n" using a by (cases n) auto
  then have "?a * 2 ^ n < ?M div 2 \<Longrightarrow> ?a * 2 ^ (n - 1) < ?M div 2" by linarith
  then show ?thesis using step [of n] step [of "Suc n"] a by (auto simp: eq min_def)
qed

theorem reconnect_delay_exact_witness:
  "map (ReconnectDelay demo_manager_options) [0, 1, 4, 5, 9] = [200, 400, 3200, 5000, 5000]
    \<and> ReconnectDelay demo_manager_options 6 \<le> 5000"
  using reconnect_delay_exact [of demo_manager_options 0] reconnect_delay_exact [of demo_manager_options 1]
    reconnect_delay_exact [of demo_manager_options 4] reconnect_delay_exact [of demo_manager_options 5]
    reconnect_delay_exact [of demo_manager_options 9] reconnect_delay_exact [of demo_manager_options 6]
  by (simp add: demo_manager_options_def options_ok_def)

text \<open>A start with unusable retry options returns \<open>false\<close> and leaves the manager running; the next start returns \<open>true\<close>.\<close>

lemma failed_start_runs:
  assumes "options_ok o'" and "retry_options_bad o'"
  shows "fst (ManagerStart True (Manager_new o' valid)) = False \<and> mgr_running (snd (ManagerStart True (Manager_new o' valid)))
    \<and> fst (ManagerStart True (snd (ManagerStart True (Manager_new o' valid)))) = True"
  using assms by (simp add: ManagerStart_def Manager_new_def Let_def)

text \<open>A group message whose functor arrives after the one of a stop makes the stopped manager create and start a transport, which
  no later stop reaches.\<close>

lemma group_after_stop_starts_transport:
  "let m = run_ops manager_step (Manager_new demo_manager_options (\<lambda>_ _. True))
       [MeStart True, MeForwardGroup False True ConnectPending demo_gateway 7 2 True, MeStop False, MeArrive 1, MeArrive 0,
        MeFunctor True ConnectPending, MeFunctor True ConnectPending]
   in \<not> mgr_running m \<and> transport_count m = 1 \<and> tr_running (objects m ! 0) \<and> ManagerStop True m = m"
  by (simp add: manager_eval)

section \<open>Lost connections are re-established\<close>

text \<open>An entry knows its gateway and its timer exists; its transport runs, or the timer is set, or the loss of the connection is
  about to be reported. The entries of the gateways \<open>G\<close> and, for the second part, the transports \<open>X\<close> are excused.\<close>

definition entry_ok :: "Manager \<Rightarrow> string \<Rightarrow> PeerEntry \<Rightarrow> bool" where
  "entry_ok m gid e \<longleftrightarrow> entry_transport e < length (objects m) \<and> gid \<noteq> opt_gateway_id (mgr_options m)
     \<and> remote_gateway_id (tr_options (objects m ! entry_transport e)) = gid
     \<and> (\<forall>n. reconnect_timer e = Some n \<longrightarrow> (n, TmReconnect gid) \<in> set (timers m))"

definition cared_for :: "Manager \<Rightarrow> PeerEntry \<Rightarrow> bool" where
  "cared_for m e \<longleftrightarrow> reconnect_timer e \<noteq> None \<or> tr_running (objects m ! entry_transport e)
     \<or> FrNotify (entry_transport e) \<in> set (mgr_frames m)"

definition peers :: "string set \<Rightarrow> nat set \<Rightarrow> Manager \<Rightarrow> bool" where
  "peers G X m \<longleftrightarrow> distinct (map fst (transports m)) \<and> (\<forall>t\<in>set (objects m). tr_connected t \<longrightarrow> tr_running t)
     \<and> (\<forall>(gid, e)\<in>set (transports m). gid \<in> G \<or> entry_ok m gid e \<and> (entry_transport e \<in> X \<or> cared_for m e))"

definition core :: "Transport \<Rightarrow> GatewayPeerTransportOptions \<times> bool \<times> bool" where
  "core t = (tr_options t, tr_running t, tr_connected t)"

lemma coreD: "core s = core t \<Longrightarrow> tr_options s = tr_options t \<and> tr_running s = tr_running t \<and> tr_connected s = tr_connected t"
  by (simp add: core_def)

text \<open>What does not concern the peers.\<close>

definition peers_same :: "Manager \<Rightarrow> Manager \<Rightarrow> bool" where
  "peers_same m m' \<longleftrightarrow> transports m' = transports m \<and> mgr_options m' = mgr_options m \<and> map core (objects m') = map core (objects m)
     \<and> (\<forall>n gid. (n, TmReconnect gid) \<in> set (timers m) \<longrightarrow> (n, TmReconnect gid) \<in> set (timers m'))
     \<and> (\<forall>k. FrNotify k \<in> set (mgr_frames m) \<longrightarrow> FrNotify k \<in> set (mgr_frames m'))"

lemma peers_same_trans: "\<lbrakk>peers_same a b; peers_same b c\<rbrakk> \<Longrightarrow> peers_same a c"
  by (simp add: peers_same_def)

lemma peers_same_ok:
  assumes "peers G X m" and "peers_same m m'"
  shows "peers G X m'"
proof -
  have core: "map core (objects m') = map core (objects m)" using assms(2) by (simp add: peers_same_def)
  then have len: "length (objects m') = length (objects m)" by (metis length_map)
  have at: "core (objects m' ! k) = core (objects m ! k)" if "k < length (objects m)" for k
    using core len that by (metis nth_map)
  have "\<forall>t\<in>set (objects m'). tr_connected t \<longrightarrow> tr_running t"
    using assms(1) len at by (fastforce simp: peers_def in_set_conv_nth [of _ "objects m'"] core_def)
  moreover have "entry_ok m' gid e \<and> (entry_transport e \<in> X \<or> cared_for m' e)"
    if "entry_ok m gid e \<and> (entry_transport e \<in> X \<or> cared_for m e)" for gid e
    using that assms(2) len at [of "entry_transport e"] by (auto simp: entry_ok_def cared_for_def peers_same_def core_def)
  ultimately show ?thesis using assms by (fastforce simp: peers_def peers_same_def)
qed

lemma peers_weaken: "\<lbrakk>peers G X m; G \<subseteq> G'; X \<subseteq> X'\<rbrakk> \<Longrightarrow> peers G' X' m"
  by (fastforce simp: peers_def)

lemma set_update_entry:
  assumes "distinct (map fst al)" and "(gid', e') \<in> set (AList.update gid e al)"
  shows "gid' = gid \<and> e' = e \<or> gid' \<noteq> gid \<and> (gid', e') \<in> set al"
  using assms
  by (induction al) (auto split: if_splits, (metis fst_conv image_eqI)+)

lemma peers_set_entry:
  assumes "peers {gid} X m" and "entry_ok m gid e" and "entry_transport e \<in> X \<or> cared_for m e"
  shows "peers {} X (set_entry gid e m)"
proof -
  have d: "distinct (map fst (transports m))" using assms(1) by (simp add: peers_def)
  have same: "entry_ok (set_entry gid e m) = entry_ok m" "cared_for (set_entry gid e m) = cared_for m"
    by (simp_all add: entry_ok_def cared_for_def fun_eq_iff)
  have "entry_ok m g x \<and> (entry_transport x \<in> X \<or> cared_for m x)" if "(g, x) \<in> set (AList.update gid e (transports m))" for g x
    using set_update_entry [OF d that] assms by (auto simp: peers_def)
  with assms(1) d show ?thesis by (auto simp: peers_def same distinct_update)
qed

lemma peers_delete:
  assumes "peers {gid} X m"
  shows "peers {} X (store_transport_count (m\<lparr>transports := AList.delete gid (transports m)\<rparr>))"
proof -
  have "gid \<notin> fst ` set (AList.delete gid (transports m))" by (rule delete_notin_dom)
  then have "(g, x) \<in> set (transports m) \<and> g \<noteq> gid" if "(g, x) \<in> set (AList.delete gid (transports m))" for g x
    using that set_delete_entries [OF that] by (metis fst_conv image_eqI)
  with assms show ?thesis by (fastforce simp: peers_def entry_ok_def cared_for_def distinct_delete)
qed

lemma peers_cancel:
  assumes "peers {} X m" and "tables_ok m" and "map_of (transports m) gid = Some e" and "reconnect_timer e = Some n"
  shows "peers {gid} X (cancel_timer n m)"
proof -
  have t: "t = TmReconnect gid" if "(n, t) \<in> set (timers m)" for t using entryD(2) [OF assms(2,3,4)] that by blast
  have "entry_ok (cancel_timer n m) g x" if "entry_ok m g x" "g \<noteq> gid" for g x
  proof -
    have "k \<noteq> n" if "reconnect_timer x = Some k" for k using t [of "TmReconnect g"] that \<open>entry_ok m g x\<close> \<open>g \<noteq> gid\<close> by (auto simp: entry_ok_def)
    with that(1) show ?thesis by (auto simp: entry_ok_def)
  qed
  with assms(1) show ?thesis by (fastforce simp: peers_def cared_for_def)
qed

lemma peers_entry:
  assumes "peers {} X m" and "map_of (transports m) gid = Some e"
  shows "entry_ok m gid e" "entry_transport e \<in> X \<or> cared_for m e"
  using assms by (auto simp: peers_def dest!: map_of_SomeD)

text \<open>The transport of an entry belongs to no other entry.\<close>

lemma peers_transport:
  assumes "peers {} X m" and "(g, x) \<in> set (transports m)"
  shows "map_of (transports m) (remote_gateway_id (tr_options (objects m ! entry_transport x))) = Some x"
  using assms by (auto simp: peers_def entry_ok_def)

lemma peers_excuse:
  assumes "peers {} X m" and "\<And>g x. \<lbrakk>(g, x) \<in> set (transports m); entry_transport x = k\<rbrakk> \<Longrightarrow> cared_for m x"
  shows "peers {} (X - {k}) m"
  using assms by (fastforce simp: peers_def)

text \<open>No entry has the transport \<open>k\<close> unless the entry of its gateway has it.\<close>

lemma peers_only:
  assumes "peers {} X m" and "(g, x) \<in> set (transports m)" and "entry_transport x = k"
  shows "map_of (transports m) (remote_gateway_id (tr_options (objects m ! k))) = Some x"
  using peers_transport [OF assms(1,2)] assms(3) by simp

lemma peers_ScheduleReconnect:
  assumes p: "peers {} X m" and t: "tables_ok m" and r: "mgr_running m" and e: "map_of (transports m) gid = Some e"
  shows "peers {} (X - {entry_transport e}) (ScheduleReconnectInLoop True gid m)"
proof -
  let ?k = "entry_transport e"
  note E = peers_entry [OF p e]
  have rid: "remote_gateway_id (tr_options (objects m ! ?k)) = gid" "?k < length (objects m)" using E(1) by (simp_all add: entry_ok_def)
  show ?thesis
  proof (cases "tr_connected (objects m ! ?k) \<or> reconnect_timer e \<noteq> None")
    case True
    then have "cared_for m e" using p rid(2) by (auto simp: cared_for_def peers_def)
    then have "cared_for m x" if "(g, x) \<in> set (transports m)" "entry_transport x = ?k" for g x
      using peers_only [OF p that] e rid(1) by simp
    with True r e show ?thesis using peers_excuse [OF p] by (auto simp: ScheduleReconnectInLoop_def)
  next
    case False
    let ?m = "m\<lparr>timers := timers m @ [(mgr_next_timer m, TmReconnect gid)], mgr_next_timer := mgr_next_timer m + 1\<rparr>"
    let ?e = "e\<lparr>reconnect_timer := Some (mgr_next_timer m), reconnect_attempt := reconnect_attempt e + 1\<rparr>"
    have eq: "ScheduleReconnectInLoop True gid m = set_entry gid ?e ?m"
      using False r e by (simp add: ScheduleReconnectInLoop_def RunAfter_def)
    have p1: "peers {gid} X ?m" by (rule peers_weaken [OF peers_same_ok [OF p]]) (auto simp: peers_same_def)
    have p2: "peers {} X (set_entry gid ?e ?m)" using E(1) by (intro peers_set_entry [OF p1]) (simp_all add: entry_ok_def cared_for_def)
    have "cared_for (set_entry gid ?e ?m) x" if "(g, x) \<in> set (transports (set_entry gid ?e ?m))" "entry_transport x = ?k" for g x
      using peers_only [OF p2 that] rid(1) by (auto simp: update_conv cared_for_def)
    then show ?thesis unfolding eq by (rule peers_excuse [OF p2])
  qed
qed

lemma peers_HandleDown:
  assumes p: "peers {} X m" and t: "tables_ok m" and r: "mgr_running m"
  shows "peers {} (X - {k}) (HandleTransportConnectionState True k False m)"
proof (cases "\<exists>e. map_of (transports m) (remote_gateway_id (tr_options (objects m ! k))) = Some e \<and> entry_transport e = k")
  case True
  then show ?thesis using r peers_ScheduleReconnect [OF p t r] by (auto simp: HandleTransportConnectionState_def Let_def)
next
  case False
  then have "peers {} (X - {k}) m" using peers_only [OF p] by (intro peers_excuse [OF p]) blast
  moreover have "HandleTransportConnectionState True k False m = m"
    using False by (auto simp: HandleTransportConnectionState_def Let_def split: option.splits)
  ultimately show ?thesis by simp
qed

lemma peers_CancelReconnectTimer:
  assumes "peers {} X m" and "tables_ok m" and "map_of (transports m) gid = Some e" and "CancelReconnectTimer e m = (e', m')"
  shows "peers {gid} X m'" "e' = e\<lparr>reconnect_timer := None\<rparr>" "objects m' = objects m" "mgr_frames m' = mgr_frames m" "mgr_options m' = mgr_options m"
  using assms peers_cancel [OF assms(1-3)] peers_weaken [OF assms(1), of "{gid}" X]
  by (auto simp: CancelReconnectTimer_def split: option.splits)

lemma peers_HandleUp:
  assumes p: "peers {} X m" and t: "tables_ok m" and r: "tr_running (objects m ! k)"
  shows "peers {} (X - {k}) (HandleTransportConnectionState b k True m)"
proof -
  let ?gid = "remote_gateway_id (tr_options (objects m ! k))"
  have p': "peers {} (X - {k}) m" using r by (intro peers_excuse [OF p]) (simp add: cared_for_def)
  show ?thesis
  proof (cases "\<exists>e. map_of (transports m) ?gid = Some e \<and> entry_transport e = k")
    case True
    then obtain e where e: "map_of (transports m) ?gid = Some e" "entry_transport e = k" by blast
    obtain e' m' where c: "CancelReconnectTimer e m = (e', m')" by fastforce
    note C = peers_CancelReconnectTimer [OF p' t e(1) c]
    have "peers {} (X - {k}) (set_entry ?gid (e'\<lparr>reconnect_attempt := 0\<rparr>) m')"
      using peers_entry(1) [OF p' e(1)] r e(2) C(2-5) by (intro peers_set_entry [OF C(1)]) (auto simp: entry_ok_def cared_for_def)
    then show ?thesis using e c by (simp add: HandleTransportConnectionState_def)
  next
    case False
    then have "HandleTransportConnectionState b k True m = m"
      by (auto simp: HandleTransportConnectionState_def Let_def split: option.splits)
    with p' show ?thesis by simp
  qed
qed

lemma peers_set_object:
  assumes p: "peers {} X m" and f: "tr_options (f (objects m ! k)) = tr_options (objects m ! k)"
    and c: "tr_connected (f (objects m ! k)) \<longrightarrow> tr_running (f (objects m ! k))"
  shows "peers {} (insert k X) (set_object k f m)"
proof -
  have "\<forall>t\<in>set ((objects m)[k := f (objects m ! k)]). tr_connected t \<longrightarrow> tr_running t"
    using p c by (auto simp: peers_def dest!: set_update_subset_insert [THEN subsetD])
  moreover have "entry_ok (set_object k f m) g x \<and> (entry_transport x \<in> insert k X \<or> cared_for (set_object k f m) x)"
    if "entry_ok m g x \<and> (entry_transport x \<in> X \<or> cared_for m x)" for g x
    using that f by (cases "entry_transport x = k") (auto simp: entry_ok_def cared_for_def)
  ultimately show ?thesis using p by (fastforce simp: peers_def)
qed

lemma peers_start_transport:
  assumes p: "peers {} X m" and t: "tables_ok m" and r: "mgr_running m" and k: "k < length (objects m)"
    and s: "start_transport True outcome k m = (True, m')"
  shows "peers {} (X - {k}) m'"
proof (cases "tr_running (objects m ! k)")
  case True
  then show ?thesis using s peers_excuse [OF p, of k] by (auto simp: start_transport_def cared_for_def split: if_splits)
next
  case False
  have set: "peers {} (insert k X) (set_object k (\<lambda>t. t\<lparr>tr_running := a, tr_connected := b\<rparr>) m)"
      "tables_ok (set_object k (\<lambda>t. t\<lparr>tr_running := a, tr_connected := b\<rparr>) m)" if "b \<longrightarrow> a" for a b
    using that p t set_object_calm [OF t, of "\<lambda>t. t\<lparr>tr_running := a, tr_connected := b\<rparr>" k]
    by (auto intro!: peers_set_object simp: calm_def)
  have run: "peers {} (insert k X) (set_object k (\<lambda>t. t\<lparr>tr_running := True\<rparr>) m)" by (rule peers_set_object [OF p]) simp_all
  have "peers {} (insert k X - {k}) m'"
  proof (cases outcome)
    case ConnectPending
    then show ?thesis using s False k peers_excuse [OF run, of k] by (auto simp: start_transport_def cared_for_def split: if_splits)
  next
    case ConnectDone
    then show ?thesis using s False k peers_HandleUp [OF set(1) [of True True] set(2) [of True True], of k True] by (auto simp: start_transport_def split: if_splits)
  next
    case ConnectFailed
    then show ?thesis using s False k r peers_HandleDown [OF set(1) [of False False] set(2) [of False False], of k] by (auto simp: start_transport_def split: if_splits)
  qed
  then show ?thesis by (rule peers_weaken) auto
qed

lemma peers_stop_transport:
  assumes p: "peers {} X m" and absent: "\<And>g x. (g, x) \<in> set (transports m) \<Longrightarrow> entry_transport x \<noteq> k"
  shows "peers {} (X - {k}) (stop_transport k m)"
proof -
  have "peers {} (insert k X) (set_object k (\<lambda>t. t\<lparr>tr_running := False, tr_connected := False\<rparr>) m)"
    by (rule peers_set_object [OF p]) simp_all
  from peers_excuse [OF this, of k] absent have "peers {} (X - {k}) (set_object k (\<lambda>t. t\<lparr>tr_running := False, tr_connected := False\<rparr>) m)" by auto
  moreover have "peers {} (X - {k}) m" using absent by (intro peers_excuse [OF p]) blast
  ultimately show ?thesis by (simp add: stop_transport_def)
qed

lemma peers_new_object:
  assumes "peers G X m" and "\<not> tr_connected t"
  shows "peers G X (m\<lparr>objects := objects m @ [t]\<rparr>)"
proof -
  have "entry_ok (m\<lparr>objects := objects m @ [t]\<rparr>) g x \<and> (entry_transport x \<in> X \<or> cared_for (m\<lparr>objects := objects m @ [t]\<rparr>) x)"
    if "entry_ok m g x \<and> (entry_transport x \<in> X \<or> cared_for m x)" for g x
    using that by (auto simp: entry_ok_def cared_for_def nth_append)
  with assms show ?thesis by (fastforce simp: peers_def)
qed

lemma peers_replace_entry:
  assumes "peers {gid} X m"
  shows "peers {gid} X (set_entry gid e m)"
proof -
  have d: "distinct (map fst (transports m))" using assms by (simp add: peers_def)
  have same: "entry_ok (set_entry gid e m) = entry_ok m" "cared_for (set_entry gid e m) = cared_for m"
    by (simp_all add: entry_ok_def cared_for_def fun_eq_iff)
  have "g = gid \<or> entry_ok m g x \<and> (entry_transport x \<in> X \<or> cared_for m x)" if "(g, x) \<in> set (AList.update gid e (transports m))" for g x
    using set_update_entry [OF d that] assms by (auto simp: peers_def)
  with assms d show ?thesis by (auto simp: peers_def same distinct_update)
qed

lemma peers_store_count: "peers G X (store_transport_count m) = peers G X m"
  by (auto simp: peers_def entry_ok_def cared_for_def)

lemma peers_CreateTransport:
  assumes p: "peers {} {} m" and t: "tables_ok m" and r: "mgr_running m" and c: "CreateTransport True outcome gw m = (k, m')"
  shows "peers {} {} m'"
proof -
  let ?gid = "gateway_id gw" and ?n = "length (objects m)"
  define m1 where "m1 = m\<lparr>objects := objects m @ [\<lparr>tr_options = transport_options m gw, tr_running = False, tr_connected = False, waiting = []\<rparr>]\<rparr>"
  define e where "e = \<lparr>entry_host = listen_host gw, entry_port = listen_port gw, entry_transport = ?n, reconnect_attempt = 0, reconnect_timer = None\<rparr>"
  define m2 where "m2 = store_transport_count (set_entry ?gid e m1)"
  have p1: "peers {?gid} {?n} m1" "peers {?gid} {} m1"
    using peers_weaken [OF peers_new_object [OF p]] by (simp_all add: m1_def)
  have 1: "calm m m1" unfolding m1_def using t by (rule new_object_calm) simp
  then have "calm m1 (set_entry ?gid e m1)" by (intro set_entry_calm) (simp_all add: calm_def e_def m1_def)
  then have t2: "tables_ok m2" using store_count_calm by (simp add: calm_def m2_def)
  obtain s m3 where s: "start_transport True outcome ?n m2 = (s, m3)" by fastforce
  have eq: "CreateTransport True outcome gw m = (if s then (Some ?n, m3) else (None, case map_of (transports m3) ?gid of
      None \<Rightarrow> m3
    | Some entry \<Rightarrow> if entry_transport entry = ?n
        then store_transport_count (m3\<lparr>transports := AList.delete ?gid (transports m3)\<rparr>) else m3))"
    using s by (cases s) (simp_all add: CreateTransport_def Let_def m2_def m1_def e_def)
  show ?thesis
  proof (cases s)
    case True
    then have "ValidateOptions (transport_options m gw)"
      using s by (auto simp: start_transport_def m2_def m1_def split: if_splits)
    then have "entry_ok m1 ?gid e" by (simp add: entry_ok_def e_def m1_def transport_options_def Let_def ValidateOptions_def)
    then have "peers {} {?n} m2" unfolding m2_def peers_store_count by (rule peers_set_entry [OF p1(1)]) (simp add: e_def)
    from peers_start_transport [OF this t2, of ?n outcome m3]
    have "peers {} {} m3" using s True r by (simp add: m2_def m1_def)
    then show ?thesis using c True unfolding eq by simp
  next
    case False
    then have m3: "m3 = m2" using s by (auto simp: start_transport_def split: if_splits)
    have "peers {?gid} {} m2" unfolding m2_def peers_store_count by (rule peers_replace_entry [OF p1(2)])
    moreover have "map_of (transports m2) ?gid = Some e" by (simp add: m2_def update_conv)
    ultimately show ?thesis using c False peers_delete unfolding eq m3 by (auto simp: e_def)
  qed
qed

lemma map_core_update:
  assumes "core x = core (ts ! k)"
  shows "map core (ts[k := x]) = map core ts"
  using assms by (metis list_update_beyond list_update_id map_update nth_map linorder_not_less length_map)

lemma peers_same_refl [simp]: "peers_same m m"
  by (simp add: peers_same_def)

lemma Complete_same: "peers_same m (CompleteForwardChatInLoop i r m)"
  by (simp add: CompleteForwardChatInLoop_def peers_same_def)

lemma Result_same: "peers_same m (HandleForwardChatAttemptResultInLoop timer_ok i r m)"
  by (auto simp: HandleForwardChatAttemptResultInLoop_def CompleteForwardChatInLoop_def RunAfter_def Let_def peers_same_def)

lemma return_to_same: "peers_same m (return_to timer_ok caller transport m)"
proof (cases caller)
  case (CallSubmit i)
  have "peers_same m (set_context i f (set_object k (\<lambda>t. t\<lparr>waiting := waiting t @ [i]\<rparr>) m))" for f k
    using map_core_update [of "(objects m ! k)\<lparr>waiting := waiting (objects m ! k) @ [i]\<rparr>" "objects m" k]
    by (simp add: peers_same_def core_def)
  then show ?thesis using CallSubmit Result_same by (auto simp: submit_chat_def Let_def split: option.splits)
next
  case (CallGroup g)
  then show ?thesis by (auto simp: submit_group_def Let_def peers_same_def split: option.splits)
qed simp

lemma peers_create_and_return:
  assumes "peers {} {} m" and "tables_ok m" and "mgr_running m"
  shows "peers {} {} (create_and_return True outcome gw caller m)"
proof -
  obtain k m' where c: "CreateTransport True outcome gw m = (k, m')" by fastforce
  from peers_same_ok [OF peers_CreateTransport [OF assms c] return_to_same] show ?thesis by (simp add: create_and_return_def c)
qed

text \<open>Removing the entry of a transport and stopping it.\<close>

lemma peers_remove:
  assumes p: "peers {} X m" and t: "tables_ok m" and e: "map_of (transports m) gid = Some e" and c: "CancelReconnectTimer e m = (e', m')"
  shows "peers {} (X - {entry_transport e})
    (stop_transport (entry_transport e) (store_transport_count (m'\<lparr>transports := AList.delete gid (transports m')\<rparr>)))"
proof (rule peers_stop_transport)
  note C = peers_CancelReconnectTimer [OF p t e c]
  show p3: "peers {} X (store_transport_count (m'\<lparr>transports := AList.delete gid (transports m')\<rparr>))" (is "peers {} X ?m")
    by (rule peers_delete [OF C(1)])
  have rid: "remote_gateway_id (tr_options (objects m ! entry_transport e)) = gid" using peers_entry(1) [OF p e] by (simp add: entry_ok_def)
  show "entry_transport x \<noteq> entry_transport e" if "(g, x) \<in> set (transports ?m)" for g x
  proof
    assume "entry_transport x = entry_transport e"
    from peers_only [OF p3 that this] have "map_of (AList.delete gid (transports m')) gid = Some x" using C(3) rid by simp
    then show False by (simp add: delete_conv')
  qed
qed

lemma peers_GetOrCreateTransport:
  assumes p: "peers {} X m" and t: "tables_ok m" and r: "mgr_running m"
    and X: "X = {} \<or> gateway_id gw \<noteq> opt_gateway_id (mgr_options m)
      \<and> (\<exists>e. map_of (transports m) (gateway_id gw) = Some e \<and> X = {entry_transport e})"
  shows "peers {} {} (GetOrCreateTransport True outcome gw caller m)"
proof (cases "gateway_id gw = opt_gateway_id (mgr_options m) \<or> map_of (transports m) (gateway_id gw) = None")
  case True
  with X have "X = {}" by auto
  with p True t r show ?thesis using peers_same_ok [OF _ return_to_same] peers_create_and_return
    by (auto simp: GetOrCreateTransport_def)
next
  case False
  then obtain e where e: "gateway_id gw \<noteq> opt_gateway_id (mgr_options m)" "map_of (transports m) (gateway_id gw) = Some e" by auto
  let ?k = "entry_transport e"
  have XX: "X - {?k} = {}" using X e(2) by auto
  define same where "same \<longleftrightarrow> entry_host e = listen_host gw \<and> entry_port e = listen_port gw"
  obtain s m1 where s: "(if same then if tr_running (objects m ! ?k) then (True, m) else start_transport True outcome ?k m
                            else (False, m)) = (s, m1)" by fastforce
  obtain e' m2 where c: "CancelReconnectTimer e m1 = (e', m2)" by fastforce
  have eq: "GetOrCreateTransport True outcome gw caller m = (if s then return_to True caller (Some ?k) m1
      else let m' = stop_transport ?k (store_transport_count (m2\<lparr>transports := AList.delete (gateway_id gw) (transports m2)\<rparr>))
        in m'\<lparr>mgr_frames := FrCreate gw caller # mgr_frames m'\<rparr>)"
    using e s c unfolding GetOrCreateTransport_def same_def by (simp add: Let_def)
  show ?thesis
  proof (cases s)
    case True
    have "peers {} (X - {?k}) m1"
    proof (cases "tr_running (objects m ! ?k)")
      case True
      then have "peers {} (X - {?k}) m" by (intro peers_excuse [OF p]) (simp add: cared_for_def)
      then show ?thesis using True s \<open>s\<close> by (auto split: if_splits)
    next
      case False
      then show ?thesis using s \<open>s\<close> peers_start_transport [OF p t r entryD(1) [OF t e(2)]] by (auto split: if_splits)
    qed
    then show ?thesis using True peers_same_ok [OF _ return_to_same] by (simp add: eq XX)
  next
    case False
    then have "m1 = m" using s by (auto simp: start_transport_def split: if_splits)
    with peers_remove [OF p t e(2)] c have "peers {} {}
      (stop_transport ?k (store_transport_count (m2\<lparr>transports := AList.delete (gateway_id gw) (transports m2)\<rparr>)))" by (simp add: XX)
    then show ?thesis using False by (simp add: eq Let_def) (erule peers_same_ok, simp add: peers_same_def)
  qed
qed

lemma peers_AttemptReconnect:
  assumes p: "peers {gid} {} m" and t: "tables_ok m" and r: "mgr_running m"
    and entry: "\<And>e. map_of (transports m) gid = Some e \<Longrightarrow> entry_ok m gid (e\<lparr>reconnect_timer := None\<rparr>)"
  shows "peers {} {} (AttemptReconnectInLoop True outcome resolved gid m)"
proof (cases "map_of (transports m) gid")
  case None
  then have "gid \<notin> fst ` set (transports m)" by (simp add: map_of_eq_None_iff)
  with p have "peers {} {} m" by (force simp: peers_def)
  with None r show ?thesis by (simp add: AttemptReconnectInLoop_def)
next
  case (Some e)
  let ?e = "e\<lparr>reconnect_timer := None\<rparr>" and ?k = "entry_transport e"
  let ?m = "set_entry gid ?e m"
  have E: "entry_ok m gid ?e" by (rule entry [OF Some])
  have pm: "peers {} {?k} ?m" using peers_weaken [OF p, of "{gid}" "{?k}"] E by (intro peers_set_entry) simp_all
  have t1: "tables_ok ?m" using set_entry_calm [OF t, of ?e gid] E by (simp add: calm_def entry_ok_def)
  have e1: "map_of (transports ?m) gid = Some ?e" by (simp add: update_conv)
  have r1: "mgr_running ?m" using r by simp
  have k: "?k < length (objects ?m)" "gid \<noteq> opt_gateway_id (mgr_options ?m)" using E by (simp_all add: entry_ok_def)
  have sched: "peers {} {} (ScheduleReconnectInLoop True gid ?m)" using peers_ScheduleReconnect [OF pm t1 r1 e1] by simp
  have conn: "peers {} {} (set_entry gid (?e\<lparr>reconnect_attempt := 0\<rparr>) ?m)" if "tr_connected (objects m ! ?k)"
  proof (rule peers_set_entry)
    have "objects m ! ?k \<in> set (objects m)" using k(1) by simp
    then have run: "tr_running (objects m ! ?k)" using that p by (auto simp: peers_def)
    then have "peers {} ({?k} - {?k}) ?m" by (intro peers_excuse [OF pm]) (simp add: cared_for_def)
    then show "peers {gid} {} ?m" by (rule peers_weaken) simp_all
    show "entry_ok ?m gid (?e\<lparr>reconnect_attempt := 0\<rparr>)" using E by (simp add: entry_ok_def)
    show "entry_transport (?e\<lparr>reconnect_attempt := 0\<rparr>) \<in> {} \<or> cared_for ?m (?e\<lparr>reconnect_attempt := 0\<rparr>)"
      using run by (simp add: cared_for_def)
  qed
  have del: "peers {} {} (stop_transport ?k (store_transport_count (?m\<lparr>transports := AList.delete gid (transports ?m)\<rparr>)))"
    using peers_remove [OF pm t1 e1, of ?e ?m] by (simp add: CancelReconnectTimer_def)
  have get: "peers {} {} (GetOrCreateTransport True outcome gw CallReconnect ?m)" if "gateway_id gw = gid" for gw
    using e1 k(2) that by (intro peers_GetOrCreateTransport [OF pm t1 r1]) auto
  obtain s m2 where s: "start_transport True outcome ?k ?m = (s, m2)" by fastforce
  have start: "s \<Longrightarrow> peers {} {} m2" "\<not> s \<Longrightarrow> m2 = ?m"
    using peers_start_transport [OF pm t1 r1 k(1)] s by (auto simp: start_transport_def split: if_splits)
  show ?thesis
    unfolding AttemptReconnectInLoop_def Some option.case Let_def
    using r sched conn del get s start
    by (auto simp del: frame_simps(11) split: option.splits bool.splits prod.splits)
qed

fun timers_given :: "ManagerEvent \<Rightarrow> bool" where
  "timers_given (MeForwardChat in_loop timer_ok outcome gw mid sender receiver body cb) = timer_ok"
| "timers_given (MeForwardGroup in_loop timer_ok outcome gw mid recipient cb) = timer_ok"
| "timers_given (MeFunctor timer_ok outcome) = timer_ok"
| "timers_given (MeTimer timer_ok outcome found n) = timer_ok"
| "timers_given (MeFrame timer_ok outcome) = timer_ok"
| "timers_given (MeResult timer_ok k i r) = timer_ok"
| "timers_given (MeUp timer_ok k) = timer_ok"
| "timers_given ev = True"

lemma peers_stop_all:
  assumes "peers {} X m"
  shows "peers {} X (ManagerStopInLoop m)"
proof -
  have all: "\<forall>t\<in>set (objects (fold (\<lambda>(_, entry) m. stop_transport (entry_transport entry) (snd (CancelReconnectTimer entry m))) al m)).
      tr_connected t \<longrightarrow> tr_running t" if "\<forall>t\<in>set (objects m). tr_connected t \<longrightarrow> tr_running t" for al and m :: Manager
    using that
  proof (induction al arbitrary: m)
    case (Cons x al)
    have "\<forall>t\<in>set (objects (stop_transport k (snd (CancelReconnectTimer e m)))). tr_connected t \<longrightarrow> tr_running t" for k e
      using Cons.prems
      by (auto simp: stop_transport_def CancelReconnectTimer_def split: option.splits if_splits dest!: set_update_subset_insert [THEN subsetD])
    from Cons.IH [OF this [of "entry_transport (snd x)" "snd x"]] show ?case by (simp add: case_prod_beta)
  qed simp
  have "\<forall>t\<in>set (objects (ManagerStopInLoop m)). tr_connected t \<longrightarrow> tr_running t"
    using all [of m "transports m"] assms unfolding ManagerStopInLoop_def by (simp add: peers_def)
  then show ?thesis by (simp add: peers_def ManagerStopInLoop_def)
qed

lemma peers_functor:
  assumes "peers {} {} m" and "tables_ok m" and "mgr_running m"
  shows "peers {} {} (run_manager_functor True outcome f m)"
proof (cases f)
  case FnStopInLoop
  then show ?thesis using peers_stop_all [OF assms(1)] by simp
next
  case (FnForwardChatInLoop i)
  then show ?thesis using assms peers_GetOrCreateTransport [OF assms] peers_same_ok [OF assms(1) Complete_same]
    by (simp add: SubmitForwardChatAttemptInLoop_def)
next
  case (FnForwardGroupMessageInLoop g)
  then show ?thesis using peers_GetOrCreateTransport [OF assms] by simp
qed

lemma peers_RunInLoop:
  assumes "peers {} {} m" and "tables_ok m" and "mgr_running m"
  shows "peers {} {} (RunInLoop in_loop True outcome f m)"
  using peers_functor [OF assms] peers_same_ok [OF assms(1), of "m\<lparr>mgr_transit := mgr_transit m @ [f]\<rparr>"]
  by (simp add: RunInLoop_def peers_same_def)

text \<open>The whole invariant: the requests, the table, and that the manager runs.\<close>

definition keeps_peers :: "Manager \<Rightarrow> bool" where
  "keeps_peers m \<longleftrightarrow> manager_ok {#} {#} m \<and> peers {} {} m \<and> mgr_running m"

lemma peers_fire:
  assumes p: "peers {} {} m" and ok: "manager_ok {#} {#} m" and r: "mgr_running m" and n: "n < length (timers m)"
  shows "peers {} {} (fire True outcome found (snd (timers m ! n)) (m\<lparr>timers := take n (timers m) @ drop (Suc n) (timers m)\<rparr>))"
proof -
  let ?ts = "take n (timers m) @ drop (Suc n) (timers m)"
  let ?m = "m\<lparr>timers := ?ts\<rparr>"
  have t: "tables_ok ?m" by (rule remove_nth_timer [OF manager_ok_tables [OF ok] n])
  have "timers m = take n (timers m) @ timers m ! n # drop (Suc n) (timers m)" using n by (rule id_take_nth_drop)
  then have set: "set (timers m) = insert (timers m ! n) (set ?ts)" by (metis set_append set_simps(2) Un_insert_right)
  show ?thesis
  proof (cases "snd (timers m ! n)")
    case (TmRetry i)
    then obtain a where "timers m ! n = (a, TmRetry i)" by (cases "timers m ! n") auto
    then have "peers_same m ?m" using set by (auto simp: peers_same_def)
    then have pm: "peers {} {} ?m" by (rule peers_same_ok [OF p])
    have "peers {} {} (SubmitForwardChatAttemptInLoop True outcome i m')" if "peers {} {} m'" "tables_ok m'" "mgr_running m'" for m'
      using peers_functor [OF that, of outcome "FnForwardChatInLoop i"] by simp
    moreover have "peers {} {} (set_context i (\<lambda>c. c\<lparr>remote_gateway := gw\<rparr>) ?m)" "tables_ok (set_context i (\<lambda>c. c\<lparr>remote_gateway := gw\<rparr>) ?m)" for gw
      using peers_same_ok [OF pm, of "set_context i (\<lambda>c. c\<lparr>remote_gateway := gw\<rparr>) ?m"] t by (simp_all add: peers_same_def tables_ok_def)
    moreover have "peers {} {} (?m\<lparr>dropped := d\<rparr>)" for d using peers_same_ok [OF pm, of "?m\<lparr>dropped := d\<rparr>"] by (simp add: peers_same_def)
    ultimately show ?thesis using TmRetry pm t r by (auto simp: retry_fires_def Let_def split: option.splits)
  next
    case (TmReconnect gid)
    then obtain a where a: "timers m ! n = (a, TmReconnect gid)" by (cases "timers m ! n") auto
    have other: "entry_ok ?m g x" if "entry_ok m g x" "g \<noteq> gid" for g x
      using that set a by (auto simp: entry_ok_def)
    have "peers {gid} {} ?m" using p other by (fastforce simp: peers_def cared_for_def)
    moreover have "entry_ok ?m gid (e\<lparr>reconnect_timer := None\<rparr>)" if "map_of (transports ?m) gid = Some e" for e
      using peers_entry(1) [OF p, of gid e] that by (simp add: entry_ok_def)
    ultimately show ?thesis using peers_AttemptReconnect [OF _ t] r TmReconnect by simp
  qed
qed

lemma keeps_peers_step:
  assumes "keeps_peers m" and "\<not> stops ev" and "timers_given ev"
  shows "keeps_peers (manager_step m ev)"
proof -
  have ok: "manager_ok {#} {#} m" and p: "peers {} {} m" and r: "mgr_running m" using assms(1) by (simp_all add: keeps_peers_def)
  note tab = manager_ok_tables [OF ok]
  have fields: "peers {} {} (m\<lparr>contexts := cs\<rparr>)" "peers {} {} (m\<lparr>groups := gs\<rparr>)" "peers {} {} (m\<lparr>mgr_functors := fs\<rparr>)"
    "tables_ok (m\<lparr>contexts := cs\<rparr>)" "tables_ok (m\<lparr>groups := gs\<rparr>)" "tables_ok (m\<lparr>mgr_functors := fs\<rparr>)" "tables_ok (m\<lparr>mgr_frames := ks\<rparr>)" for cs gs fs ks
    using p tab by (simp_all add: peers_def entry_ok_def cared_for_def tables_ok_def)
  have "peers {} {} (manager_step m ev)"
  proof (cases ev)
    case (MeForwardChat in_loop timer_ok outcome gw mid sender receiver body cb)
    then show ?thesis using assms(3) p r peers_RunInLoop [OF fields(1) fields(4)] by (simp add: manager_step_def ForwardChat_def Let_def)
  next
    case (MeForwardGroup in_loop timer_ok outcome gw mid recipient cb)
    then show ?thesis using assms(3) p r peers_RunInLoop [OF fields(2) fields(5)] by (simp add: manager_step_def ForwardGroupMessage_def Let_def)
  next
    case (MeArrive n)
    then show ?thesis using p by (simp add: manager_step_def peers_def entry_ok_def cared_for_def)
  next
    case (MeFunctor timer_ok outcome)
    then show ?thesis using assms(3) p r peers_functor [OF fields(3) fields(6)] by (simp add: manager_step_def split: list.split)
  next
    case (MeTimer timer_ok outcome found n)
    then show ?thesis using assms(3) p peers_fire [OF p ok r] by (simp add: manager_step_def)
  next
    case (MeFrame timer_ok outcome)
    have "peers {} {} (run_manager_frame True outcome f (m\<lparr>mgr_frames := fs\<rparr>))" if fr: "mgr_frames m = f # fs" for f fs
    proof (cases f)
      case (FrCreate gw caller)
      have "peers {} {} (m\<lparr>mgr_frames := fs\<rparr>)" using peers_same_ok [OF p, of "m\<lparr>mgr_frames := fs\<rparr>"] fr FrCreate by (simp add: peers_same_def)
      then show ?thesis using FrCreate peers_create_and_return [OF _ fields(7)] r by simp
    next
      case (FrNotify k)
      have "peers {} {k} (m\<lparr>mgr_frames := fs\<rparr>)" using p fr FrNotify by (fastforce simp: peers_def entry_ok_def cared_for_def)
      then show ?thesis using FrNotify peers_HandleDown [OF _ fields(7), of "{k}" fs k] r by simp
    qed
    then show ?thesis using MeFrame assms(3) p by (auto simp: manager_step_def split: list.splits)
  next
    case (MeResult timer_ok k i f)
    let ?m = "set_object k (\<lambda>t. t\<lparr>waiting := remove1 i (waiting t)\<rparr>) m"
    have "peers_same m ?m" using map_core_update [of "(objects m ! k)\<lparr>waiting := remove1 i (waiting (objects m ! k))\<rparr>" "objects m" k]
      by (simp add: peers_same_def core_def)
    from peers_same_trans [OF this Result_same] show ?thesis using MeResult p peers_same_ok [OF p] by (simp add: manager_step_def)
  next
    case (MeUp timer_ok k)
    let ?m = "set_object k (\<lambda>t. t\<lparr>tr_connected := True\<rparr>) m"
    have "peers {} {} (HandleTransportConnectionState timer_ok k True ?m)" if "k < length (objects m)" "tr_running (objects m ! k)"
    proof -
      have "peers {} {k} ?m" using that by (intro peers_set_object [OF p]) simp_all
      moreover have "tables_ok ?m" using set_object_calm [OF tab] by (simp add: calm_def)
      ultimately show ?thesis using peers_HandleUp [of "{k}" ?m k timer_ok] that by simp
    qed
    then show ?thesis using MeUp p by (simp add: manager_step_def)
  next
    case (MeDown k)
    let ?m = "m\<lparr>mgr_frames := FrNotify k # mgr_frames m\<rparr>"
    let ?n = "set_object k (\<lambda>t. t\<lparr>tr_running := False, tr_connected := False\<rparr>) ?m"
    have "peers {} {} ?m" using peers_same_ok [OF p, of ?m] by (simp add: peers_same_def)
    then have "peers {} {k} ?n" by (rule peers_set_object) simp_all
    then have "peers {} ({k} - {k}) ?n" by (rule peers_excuse) (simp add: cared_for_def)
    then show ?thesis using MeDown p by (simp add: manager_step_def)
  qed (use assms(2) p in \<open>auto simp: manager_step_def ManagerStart_def SetGatewayResolverCallback_def Let_def peers_def entry_ok_def cared_for_def\<close>)
  then show ?thesis using manager_step_ok [OF ok] manager_step_moves_on [OF ok, of ev] assms(2) r by (simp add: keeps_peers_def)
qed

interpretation kp: guarded_object manager_step "\<lambda>_ ev. \<not> stops ev \<and> timers_given ev" keeps_peers
  by unfold_locales (simp add: keeps_peers_step)

text \<open>C19: A lost peer connection is always being re-established. As long as the manager is not stopped and the loop gives
  the timers it is asked for, in every state a run reaches that is not in the middle of an operation, every transport of the table
  runs or its reconnection timer is set and known to its entry; and every timer an entry knows exists.\<close>

theorem peers_reconnected:
  fixes o' :: GatewayPeerTransportManagerOptions and valid :: "string \<Rightarrow> u16 \<Rightarrow> bool" and evs :: "ManagerEvent list"
  defines "m \<equiv> run_ops manager_step (Manager_new o' valid) (MeStart True # evs)"
  assumes "options_ok o'" and "list_all (\<lambda>ev. \<not> stops ev \<and> timers_given ev) evs" and "mgr_frames m = []"
    and "map_of (transports m) gid = Some e"
  shows "tr_running (objects m ! entry_transport e) \<or> (\<exists>n. reconnect_timer e = Some n \<and> (n, TmReconnect gid) \<in> set (timers m))"
proof -
  let ?m = "manager_step (Manager_new o' valid) (MeStart True)"
  have "manager_ok {#} {#} ?m" by (rule manager_step_ok [OF manager_ok_new])
  moreover have "peers {} {} ?m" "mgr_running ?m"
    using assms(2) by (auto simp: manager_step_def ManagerStart_def Manager_new_def Let_def peers_def)
  ultimately have "keeps_peers ?m" by (simp add: keeps_peers_def)
  moreover have "ok_run (\<lambda>_ ev. \<not> stops ev \<and> timers_given ev) manager_step s evs" for s
    using assms(3) by (induction evs arbitrary: s) auto
  ultimately have "keeps_peers m" using kp.run_invar [of ?m evs] by (simp add: m_def)
  then have "entry_ok m gid e" "cared_for m e" using peers_entry [of "{}" m gid e] assms(5) by (auto simp: keeps_peers_def)
  then show ?thesis using assms(4) by (auto simp: entry_ok_def cared_for_def)
qed

theorem peers_reconnected_witness:
  "\<exists>n. (n, TmReconnect ''B'') \<in> set (timers (run_ops manager_step (Manager_new demo_manager_options (\<lambda>_ _. True))
     (MeStart True # [MeForwardGroup True True ConnectPending demo_gateway 7 2 True, MeUp True 0, MeDown 0, MeFrame True ConnectPending])))"
  using peers_reconnected [of demo_manager_options "[MeForwardGroup True True ConnectPending demo_gateway 7 2 True, MeUp True 0, MeDown 0, MeFrame True ConnectPending]"
      "\<lambda>_ _. True" "''B''"]
  by (simp add: manager_eval ScheduleReconnectInLoop_def)

end
