(* ===== verification/Spec2Isabelle.thy ===== *)
theory Spec2Isabelle
  imports Group_Fanout Online_Maintenance Route_Resolver Recovery_Pump Packet_Codec Receiver_Tracker Session_Manager Executor_Properties Timer_Queue Replay_Admission Peer_Transport
    Event_Loop Tcp_Server Tcp_Client Message_Path Peer_Manager
begin

text \<open>
  TinyIMX is a distributed instant messaging system in C++. Clients hold a TCP connection to a gateway; gateways exchange
  messages with each other and call the message, group, social, user and file services. This library verifies the core of
  the gateway process: the network library it runs on, the part that receives bytes, knows who is logged in, runs the handlers' work on a thread pool, and
  keeps track of deliveries. All paths below are under \<open>src/\<close>.

  \<^bold>\<open>How the parts interact.\<close> A \<open>TcpServer\<close> accepts connections and spreads them over a pool of event loops. A loop
  (\<open>common/net/EventLoop.cpp\<close>) waits on epoll and calls back the \<open>Channel\<close> of each ready descriptor, then runs the functors that
  any thread queued; a \<open>TcpConnection\<close> reads the bytes of its socket into its \<open>Buffer\<close> and writes its output buffer when the
  socket is writable; a \<open>TimerQueue\<close> runs timers; \<open>GatewayServer::HandleMessage\<close> decodes the buffer with \<open>ProtocolCodec\<close> into packets; a login binds the
  connection in \<open>SessionManager\<close>; work that may block is submitted to the \<open>BusinessExecutor\<close>, ordered by a key, and runs
  on a \<open>ThreadPool\<close> whose jobs are in a \<open>MpmcBlockingQueue\<close>; a message that arrives from another gateway passes the
  \<open>MessageDeliveryDeduplicator\<close>; a message sent to its receiver is registered with the \<open>ReceiverDeliveryTracker\<close> until the
  receiver acknowledges it (\<open>PrivateReceiverAck\<close>); after a login \<open>PrivateReplayAdmission\<close> remembers that undelivered
  private messages must be replayed. A message for a user on another gateway is forwarded by \<open>GatewayPeerTransport\<close>
  over a \<open>TcpClient\<close>, whose \<open>Connector\<close> establishes the connection; \<open>GatewayPeerTransportManager\<close> has one transport per gateway,
  reconnects them and repeats failed requests. Which gateway a user is on is recorded in Redis by \<open>OnlineStatusCache\<close>, kept alive by
  \<open>OnlineStatusMaintenance\<close> and looked up by \<open>GatewayRouteResolver\<close>. Users with undelivered messages in the database are found by a scan
  that \<open>DurablePrivateRecovery\<close> schedules and the message service answers page by page. A message to a group is stored with one row per
  member; \<open>GroupFanoutCoordinator\<close> claims such rows and has the gateway dispatch them.

  \<^bold>\<open>Theories.\<close>

    \<^item> \<open>TIMX_Prelude\<close>: integer widths, finite maps and sums over them, runs of operations, and the contracts the components
      share: \<open>guarded_object\<close> (a mutex protected object, each of whose methods keeps an invariant) and \<open>claim_table\<close> (a table
      that grants and takes back claims).
    \<^item> \<open>Net_Buffer\<close>: \<open>common/net/Buffer.{h,cpp}\<close>, a vector with two indices. Refinement: it is a byte queue, no assertion
      fails. Contract \<open>byte_stream\<close>.
    \<^item> \<open>Packet_Codec\<close>: \<open>common/protocol/Packet.{h,cpp}\<close>, \<open>common/protocol/ProtocolCodec.{h,cpp}\<close> and
      \<open>GatewayServer::HandleMessage\<close>. Round trip through arbitrary network chunks, validity of what is handed on, behaviour on
      bad frames, agreement of the message type tables.
    \<^item> \<open>Net_Channel\<close>: \<open>common/net/Channel.{h,cpp}\<close> and the registry of channels in \<open>common/net/EventLoop.cpp\<close>: event masks, the
      order of the callbacks of one event, the agreement of the registry with what epoll was told.
    \<^item> \<open>Tcp_Connection\<close>: \<open>common/net/TcpConnection.{h,cpp}\<close>. Bytes leave in the order of the sends; pending output is watched
      and drains; a closed connection is final, and closes once.
    \<^item> \<open>Event_Loop\<close>: \<open>common/net/EventLoop.{h,cpp}\<close>, \<open>common/net/EventLoopThread.{h,cpp}\<close>, the loop thread and any number of others
      as events. Functors run once and in order, the registry of channels agrees with epoll, no wake-up is lost. That a channel is deleted
      only after its removal, by its owner between events, is an obligation of the callers (\<open>loop_call_ok\<close>).
    \<^item> \<open>Tcp_Server\<close>: \<open>common/net/TcpServer.{h,cpp}\<close>, \<open>common/net/EventLoopThreadPool.{h,cpp}\<close>. The table and the counters agree,
      every connection sits on a loop of the pool and is established and destroyed once, \<open>Stop\<close> destroys what is in the table, the idle check is exact.
    \<^item> \<open>Tcp_Client\<close>: \<open>common/net/Connector.{h,cpp}\<close>, \<open>common/net/TcpClient.{h,cpp}\<close>. No descriptor leaks or is closed twice; \<open>Stop\<close>
      silences the connector.
    \<^item> \<open>Message_Path\<close>: the codec and the connection together. Packets encoded on one side are handled on the other, in order,
      whatever the sockets take and the network cuts.
    \<^item> \<open>Delivery_Dedup\<close>: \<open>gateway/DeliveryIdentity.h\<close>, \<open>gateway/MessageDeliveryDeduplicator.{h,cpp}\<close>. A delivery is executed
      at most once while it is among the remembered ones, a sliding window; memory is bounded.
    \<^item> \<open>Receiver_Tracker\<close>: \<open>gateway/ReceiverDeliveryTracker.{h,cpp}\<close>, \<open>gateway/PrivateReceiverAck.h\<close>. The running totals
      are exact, so that the limits mean what they say; confirmations happen once and only for registered attempts; the replay
      cooldown.
    \<^item> \<open>Session_Manager\<close>: \<open>gateway/SessionManager.{h,cpp}\<close>. Refinement of a set of sessions (contract \<open>session_directory\<close>),
      fencing of late unbinds by epochs.
    \<^item> \<open>Bounded_Queue\<close>: \<open>common/concurrency/CircularQueue.h\<close>, \<open>common/concurrency/MpmcBlockingQueue.h\<close>. The ring buffer
      implements the contract \<open>bounded_fifo\<close>; the blocking queue refines a bounded list.
    \<^item> \<open>Business_Executor\<close>, \<open>Executor_Invariants\<close>, \<open>Executor_Properties\<close>: \<open>gateway/business/BusinessExecutor.{h,cpp}\<close>,
      \<open>gateway/business/BusinessRuntimeTypes.h\<close> and the pool's \<open>TrySubmit\<close>: the model, as events of any number of threads; its
      invariant, stated with one weighted sum over the state; what follows: order and exclusion within an ordering slot, the
      budgets, no lost wake-up, accounting of every accepted task, draining.
    \<^item> \<open>Timer_Queue\<close>: \<open>common/net/TimerQueue.{h,cpp}\<close>, \<open>common/net/Timer.{h,cpp}\<close> and the functor queue of
      \<open>common/net/EventLoop.cpp\<close>. Timers run when due, in order, once per wake-up; a cancellation on the loop thread is final.
    \<^item> \<open>Replay_Admission\<close>: \<open>gateway/PrivateReplayAdmission.{h,cpp}\<close>. An obligation is started at most once and is not lost.
    \<^item> \<open>Peer_Transport\<close>: \<open>gateway/GatewayPeerTransport.{h,cpp}\<close>. Every request forwarded to another gateway is answered exactly
      once, sequence numbers are unique among the outstanding requests, a response reaches the request it belongs to.
    \<^item> \<open>Peer_Manager\<close>: \<open>gateway/GatewayPeerTransportManager.{h,cpp}\<close>, the table of transports. Every private message is answered
      once within the bound on retries, a lost connection is always being re-established, the delays are exact.
    \<^item> \<open>Text_Numbers\<close>: decimal numbers as \<open>std::to_string\<close> writes and \<open>std::stoull\<close> reads them.
    \<^item> \<open>Durable_Recovery\<close>: \<open>gateway/DurablePrivateRecovery.h\<close>. The places for replays are counted exactly and held by one lease each; a
      lease that lost its place is fenced.
    \<^item> \<open>Pending_Recipients\<close>: \<open>ListPendingRecipientsAfter\<close> from \<open>services/repository/MessageRepository.cpp\<close> through \<open>services/message\<close> and
      \<open>services/rpc/MessageRpcClient.cpp\<close> to the discovery task of \<open>gateway/GatewayServer.cpp\<close>. The scan hands out every pending user once
      a turn, whatever fails.
    \<^item> \<open>Recovery_Pump\<close>: the timer of \<open>gateway/GatewayServer.cpp\<close> that takes these users, looks up their sessions and asks for the next page. Every
      pending user with a session on this gateway is entered into the replay admission.
    \<^item> \<open>Online_Status\<close>: \<open>services/cache/OnlineStatusCache.{h,cpp}\<close> with its Lua scripts, over an explicit Redis store. Refinement of a table
      of owners (contract \<open>call_refinement\<close>), batches agree with single calls.
    \<^item> \<open>Route_Resolver\<close>: \<open>gateway/GatewayRouteResolver.{h,cpp}\<close> on top of it. A route follows the last login until it expires.
    \<^item> \<open>Online_Maintenance\<close>: \<open>gateway/OnlineStatusMaintenance.h\<close>, the threads as events. Every accepted job ends once, \<open>Stop\<close> drains.
    \<^item> \<open>Group_Fanout\<close>: \<open>gateway/GroupFanoutCoordinator.{h,cpp}\<close>, \<open>gateway/GroupFanoutWakeup.h\<close> and the dispatch, retry and acknowledgement of
      group deliveries in \<open>gateway/GatewayServer.cpp\<close>, on the resolver, the deduplicator, the tracker and the codec. Every configuration
      of the batching has the same effect, a confirmation needs a frame, however the steps of submissions interleave, and with the
      wake-up switched on no commit is slept through. The exception of the JSON writer on text that is not UTF-8 is a result of the model.
    \<^item> This theory: the job list of the executor's model is the blocking queue of the pool.

  \<^bold>\<open>Conventions.\<close> A class is a record with its members, a method a function on it; a method that holds the class's mutex
  throughout is one step, one that releases it is several events. Fields marked as observations are written and never read by
  the operations. Time, allocation failures where the code handles them, answers of system calls, of services and of user
  callbacks are arguments. Identifiers, sequence numbers, epochs and protocol fields have their C++ width; \<open>std::size_t\<close>
  sizes and statistics are natural numbers. A failed assertion, a \<open>std::logic_error\<close>, a read of freed memory and a call
  that waits are the value \<open>None\<close>. Redis and MySQL are a store and a function; what is assumed of the JSON libraries and of the answers of
  SQL are the hypotheses \<open>json_laws\<close>, \<open>json_writer\<close> (text in UTF-8 is written) and \<open>answers_sql\<close>. Where a 64 bit counter is assumed not to wrap around, this is a hypothesis of the property.

  \<^bold>\<open>Bounds and fuel.\<close> No definition uses fuel. The loops are structural recursions, recursions with a measure that decreases
  (the readable bytes for \<open>DecodeLoop\<close>, the remembered confirmations for \<open>TrimConfirmedLocked\<close>), or a partial function with
  values in the option type that is shown to return (\<open>Clear\<close> of the ring buffer: within as many turns as it holds elements).

  \<^bold>\<open>What the models show of the code.\<close> These theorems describe defects: valid packets in front of a bad frame are
  dropped (\<open>packet_before_bad_frame_dropped\<close>); a session record is read after it was erased if two connections share a name
  (\<open>unbind_reads_erased_record\<close>); a throwing \<open>still_valid\<close> probe leaves an ordering stripe without a drainer
  (\<open>throwing_probe_strands_stripe\<close>); a shutdown with pending output never shuts the write side
  (\<open>shutdown_with_output_never_half_closes\<close>); a message can be delivered after the close (\<open>message_after_close\<close>); a quit before the loop
  starts is lost (\<open>quit_before_loop_is_lost\<close>); \<open>TcpServer::Stop\<close> can forget a connection that was just removed
  (\<open>stop_can_forget_removed_connection\<close>); an event of a removed channel completes a later connection attempt
  (\<open>stale_event_completes_attempt\<close>); a reconnection is lost when the previous connection ends (\<open>reconnect_lost_silently\<close>);
  a request waiting for its retry is never answered if the manager of the transports is stopped (\<open>retry_lost_on_stop\<close>), whose start
  can fail and leave it running (\<open>failed_start_runs\<close>), and which can start a transport after its stop
  (\<open>group_after_stop_starts_transport\<close>); the maintenance of the presence, stopped before it is started, accepts jobs that nobody
  processes (\<open>stop_first_strands_job\<close>).

  \<^bold>\<open>Not modelled.\<close> The handlers of the single message types in \<open>gateway/GatewayServer.cpp\<close> (glue between JSON, RPC clients
  and the modelled objects); sockets and addresses, which are wrappers of system calls; the JSON protocols; the offline
  store; of the group fan-out the creation and joining of its thread and the replay after a login; the rest of the thread pool (scaling, futures, statistics,
  shutdown modes); the services beyond the two
  paths above, which are SQL, Redis, RPC and broker calls; logging, metrics, configuration; the Qt client,
  benchmarks and examples. Candidates for an extension, in this order: \<open>gateway/OfflineMessageStore.cpp\<close>, \<open>services/outbox/OutboxRelay.cpp\<close> and the unread projection.
\<close>

section \<open>The executor's pool is the blocking queue\<close>

text \<open>The list of jobs in the executor's model stands for the pool's \<open>MpmcBlockingQueue\<close>.\<close>

definition pool_is :: "(bool \<times> Job) MpmcBlockingQueue \<Rightarrow> BusinessExecutor \<Rightarrow> bool" where
  "pool_is q s \<longleftrightarrow> queue_ok q \<and> ring_list (mpmc_ring q) = pool_queue s \<and> Capacity (mpmc_ring q) = queue_capacity (options s)
     \<and> stopped q = pool_stopped s \<and> \<not> force_stopped q"

lemma pool_is_new: "Business_Executor.Start o' = Some s \<Longrightarrow> pool_is (MpmcBlockingQueue_new d (queue_capacity o')) s"
  using queue_new(1) [of d "queue_capacity o'"]
  by (auto simp: pool_is_def Business_Executor.Start_def MpmcBlockingQueue_new_def CircularQueue_new_def ring_list_def Size_def Capacity_def split: if_splits)

lemma TrySubmit_pool:
  assumes "pool_is q s"
  shows "fst (TrySubmit b j s) = fst (PushDiscard (b, j) q) \<and> pool_is (snd (PushDiscard (b, j) q)) (snd (TrySubmit b j s))"
proof (cases "length (pool_queue s) < queue_capacity (options s)")
  case True
  have ring: "ring_ok (mpmc_ring q)" using assms by (simp add: pool_is_def queue_ok_def)
  obtain q' where "PushBack (b, j) (mpmc_ring q) = (True, q')" "ring_ok q'" "ring_list q' = ring_list (mpmc_ring q) @ [(b, j)]"
      "Capacity q' = Capacity (mpmc_ring q)"
    using True PushBack_spec [OF ring, of "(b, j)"] assms by (auto simp: pool_is_def simp flip: length_ring_list)
  with True assms full_iff [OF ring] show ?thesis
    by (auto simp: TrySubmit_def PushDiscard_def pool_is_def queue_ok_def simp del: length_ring_list)
next
  case False
  with assms full_iff [of "mpmc_ring q"] show ?thesis
    by (auto simp: TrySubmit_def PushDiscard_def pool_is_def queue_ok_def simp del: length_ring_list)
qed

lemma take_job_pool:
  assumes "workers s w = None"
  shows "pool_queue (take_job w s) = tl (pool_queue s)" "options (take_job w s) = options s" "pool_stopped (take_job w s) = pool_stopped s"
  using assms by (auto simp: take_job_def Let_def split: list.splits Job.splits)

text \<open>C29: the executor's pool is the blocking queue of the thread pool: with the jobs of the executor in a
  \<open>MpmcBlockingQueue\<close> of the capacity the executor asks for, \<open>TrySubmit\<close> answers as the queue's \<open>Push\<close> with the
  discarding policy does and never waits, a free worker takes exactly the job that \<open>Pop\<close> returns and does nothing where
  \<open>Pop\<close> waits or returns no job, and both leave the jobs and the queue in agreement.\<close>

theorem executor_pool_is_queue:
  assumes "pool_is q s" and "workers s w = None"
  shows "(\<exists>r q' s'. Push dflt (b, j) kDiscard q = Some (r, q') \<and> TrySubmit b j s = (r, s') \<and> pool_is q' s')
    \<and> (case Pop dflt q of Some (Some job, q') \<Rightarrow> pool_queue s = job # pool_queue (take_job w s) \<and> pool_is q' (take_job w s)
       | _ \<Rightarrow> take_job w s = s)"
proof -
  have push: "\<exists>r q' s'. Push dflt (b, j) kDiscard q = Some (r, q') \<and> TrySubmit b j s = (r, s') \<and> pool_is q' s'"
    using TrySubmit_pool [OF assms(1), of b j] by (cases "TrySubmit b j s"; cases "PushDiscard (b, j) q") simp
  have ok: "queue_ok q" "\<not> force_stopped q" and jobs: "ring_list (mpmc_ring q) = pool_queue s"
    using assms(1) by (simp_all add: pool_is_def)
  show ?thesis
  proof (cases "pool_queue s")
    case Nil
    then have "fst (take_item dflt q) = None" "take_job w s = s"
      using take_item_spec [OF ok, of dflt] jobs assms(2) by (auto simp: take_job_def)
    with push show ?thesis by (cases "take_item dflt q") (auto simp: Pop_def)
  next
    case (Cons job js)
    then obtain q' where q': "take_item dflt q = (Some job, q')" "queue_ok q'" "queue_abs q' = (queue_abs q)\<lparr>items := js\<rparr>"
      using take_item_spec [OF ok, of dflt] jobs by (cases "take_item dflt q") auto
    have "pop_ready q" using Cons jobs ok empty_iff [of "mpmc_ring q"] by (simp add: pop_ready_def queue_ok_def)
    moreover have "pool_is q' (take_job w s)"
      using assms q'(2,3) Cons by (auto simp: pool_is_def take_job_pool queue_abs_def)
    ultimately show ?thesis using push q'(1) Cons take_job_pool(1) [OF assms(2)] by (simp add: Pop_def)
  qed
qed

theorem executor_pool_is_queue_witness:
  "pool_is (MpmcBlockingQueue_new (False, JobDrainStripe 0) 8) (the (Business_Executor.Start demo_options))
    \<and> fst (TrySubmit True (JobDrainStripe 0) (the (Business_Executor.Start demo_options))) = TaskPushResult.kOk
    \<and> Pop (False, JobDrainStripe 0) (MpmcBlockingQueue_new (False, JobDrainStripe 0) 8) = None"
proof -
  let ?q = "MpmcBlockingQueue_new (False, JobDrainStripe 0) 8"
  have cap: "queue_capacity demo_options = 8" by (simp add: demo_options_def queue_capacity_def)
  have start: "Business_Executor.Start demo_options = Some (the (Business_Executor.Start demo_options))" by (simp add: demo_options_def Business_Executor.Start_def options_valid_def size_max_def)
  have agree: "pool_is ?q (the (Business_Executor.Start demo_options))" using pool_is_new [OF start] cap by simp
  have free: "workers (the (Business_Executor.Start demo_options)) 0 = None" by (simp add: demo_options_def Business_Executor.Start_def options_valid_def size_max_def)
  have "fst (PushDiscard (True, JobDrainStripe 0) ?q) = TaskPushResult.kOk"
    by (simp add: PushDiscard_def MpmcBlockingQueue_new_def CircularQueue_new_def Full_def Next_def PushBack_def)
  moreover have "Pop (False, JobDrainStripe 0) ?q = None"
    by (simp add: Pop_def pop_ready_def MpmcBlockingQueue_new_def CircularQueue_new_def Empty_def)
  ultimately show ?thesis
    using agree executor_pool_is_queue [OF agree free, of "(False, JobDrainStripe 0)" True "JobDrainStripe 0"] by auto
qed

end
